(* ===== verification/RilPrelude.thy ===== *)
theory RilPrelude
  imports Main "HOL-Library.Word"
begin

text \<open>
  Shared vocabulary of the development: faults and the result type, the C integer
  conversions, checked reads of byte arrays, C character classes and the \<open>strtol\<close> family
  of the C library, with the generic lemmas the component theories use.

  \<^item> A run that leaves the defined behaviour of C++ is a value of type \<open>fault\<close>:
    a read outside an array, a failed \<open>RFX_ASSERT\<close> (which exits the daemon), an
    exception of \<open>std::string\<close>, an allocation with a negative size.
  \<^item> Integers of the code are HOL integers with the conversion at every place where the
    code converts or may wrap (\<open>c_int\<close>, \<open>c_long\<close>, \<open>c_uchar\<close>, \<dots>); octets of a PDU are
    \<open>8 word\<close>. The data model is LP64 (\<open>long\<close> has 64 bits) with an unsigned plain
    \<open>char\<close>, as on the arm64 targets the repository ships binaries for.
\<close>

unbundle bit_operations_syntax

named_theorems res_simps \<open>facts about results and checked reads\<close>

section \<open>Faults and results\<close>

datatype fault =
    OutOfBounds   \<comment> \<open>a read or write outside an array\<close>
  | AssertFailed  \<comment> \<open>\<open>RFX_ASSERT\<close>\<close>
  | OutOfRange    \<comment> \<open>\<open>std::out_of_range\<close> thrown by \<open>string::at\<close>\<close>
  | BadAlloc      \<comment> \<open>\<open>new T[n]\<close> with a negative \<open>n\<close>\<close>
  | NullPointer   \<comment> \<open>a null pointer followed\<close>
  | UseAfterFree  \<comment> \<open>a pointer to freed memory followed\<close>
  | OutOfFuel     \<comment> \<open>the bound of a modelled loop was used up\<close>

type_synonym 'a res = "fault + 'a"
type_synonym byte = "8 word"

fun bnd :: "'a res \<Rightarrow> ('a \<Rightarrow> 'b res) \<Rightarrow> 'b res" where
  "bnd (Inl e) f = Inl e"
| "bnd (Inr x) f = f x"

definition chk :: "bool \<Rightarrow> fault \<Rightarrow> unit res" where
  "chk b e = (if b then Inr () else Inl e)"

lemma bnd_eq_Inr [res_simps]: "bnd m f = Inr y \<longleftrightarrow> (\<exists>x. m = Inr x \<and> f x = Inr y)"
  by (cases m) auto

lemma bnd_eq_Inl [res_simps]: "bnd m f = Inl e \<longleftrightarrow> m = Inl e \<or> (\<exists>x. m = Inr x \<and> f x = Inl e)"
  by (cases m) auto

lemma bndE:
  assumes "bnd m f = Inr y"
  obtains x where "m = Inr x" "f x = Inr y"
  using assms by (cases m) auto

lemma bnd_assoc: "bnd (bnd m f) g = bnd m (\<lambda>x. bnd (f x) g)"
  by (cases m) auto

lemma bnd_Inr_right [simp]: "bnd m Inr = m"
  by (cases m) auto

lemma bnd_cong [fundef_cong]:
  "m = m' \<Longrightarrow> (\<And>x. m' = Inr x \<Longrightarrow> f x = f' x) \<Longrightarrow> bnd m f = bnd m' f'"
  by (cases m') auto

lemma chk_Inr [res_simps]: "chk b e = Inr u \<longleftrightarrow> b"
  by (simp add: chk_def)

lemma chk_True [simp]: "b \<Longrightarrow> chk b e = Inr ()"
  by (simp add: chk_def)

lemma chk_False [simp]: "\<not> b \<Longrightarrow> chk b e = Inl e"
  by (simp add: chk_def)

text \<open>\<open>ensures P r\<close>: if \<open>r\<close> is a result and not a fault, it satisfies \<open>P\<close>.\<close>

definition ensures :: "('a \<Rightarrow> bool) \<Rightarrow> 'a res \<Rightarrow> bool" where
  "ensures P r \<longleftrightarrow> (\<forall>x. r = Inr x \<longrightarrow> P x)"

lemma ensures_simps [simp]: "ensures P (Inr x) = P x" "ensures P (Inl e)"
  by (simp_all add: ensures_def)

lemma ensures_bnd: "ensures Q m \<Longrightarrow> (\<And>x. Q x \<Longrightarrow> ensures P (f x)) \<Longrightarrow> ensures P (bnd m f)"
  by (cases m) (auto simp: ensures_def)

lemma ensures_bndI: "(\<And>x. m = Inr x \<Longrightarrow> ensures P (f x)) \<Longrightarrow> ensures P (bnd m f)"
  by (cases m) (auto simp: ensures_def)

lemma ensures_weaken: "ensures Q r \<Longrightarrow> (\<And>x. Q x \<Longrightarrow> P x) \<Longrightarrow> ensures P r"
  by (auto simp: ensures_def)

lemma ensuresD: "ensures P r \<Longrightarrow> r = Inr x \<Longrightarrow> P x"
  by (simp add: ensures_def)

section \<open>C integers\<close>

definition c_int :: "int \<Rightarrow> int" where
  "c_int x = signed_take_bit 31 x"

definition c_long :: "int \<Rightarrow> int" where
  "c_long x = signed_take_bit 63 x"

definition c_uchar :: "int \<Rightarrow> int" where
  "c_uchar x = take_bit 8 x"

definition c_ushort :: "int \<Rightarrow> int" where
  "c_ushort x = take_bit 16 x"

definition c_uint :: "int \<Rightarrow> int" where
  "c_uint x = take_bit 32 x"

lemma c_int_id: "- (2 ^ 31) \<le> x \<Longrightarrow> x < 2 ^ 31 \<Longrightarrow> c_int x = x"
  unfolding c_int_def by (rule signed_take_bit_int_eq_self) simp_all

lemma c_long_id: "- (2 ^ 63) \<le> x \<Longrightarrow> x < 2 ^ 63 \<Longrightarrow> c_long x = x"
  unfolding c_long_def by (rule signed_take_bit_int_eq_self) simp_all

lemma c_int_range: "- (2 ^ 31) \<le> c_int x \<and> c_int x < 2 ^ 31"
  unfolding c_int_def
  using signed_take_bit_int_greater_eq_minus_exp [of 31 x] signed_take_bit_int_less_exp [of 31 x]
  by simp

lemma c_long_range: "- (2 ^ 63) \<le> c_long x \<and> c_long x < 2 ^ 63"
  unfolding c_long_def
  using signed_take_bit_int_greater_eq_minus_exp [of 63 x] signed_take_bit_int_less_exp [of 63 x]
  by simp

lemma c_uchar_mod: "c_uchar x = x mod 256"
  by (simp add: c_uchar_def take_bit_eq_mod)

lemma c_uchar_id: "0 \<le> x \<Longrightarrow> x < 256 \<Longrightarrow> c_uchar x = x"
  by (simp add: c_uchar_mod)

lemma c_uchar_range: "0 \<le> c_uchar x \<and> c_uchar x < 256"
  by (simp add: c_uchar_mod)

lemma c_ushort_mod: "c_ushort x = x mod 65536"
  by (simp add: c_ushort_def take_bit_eq_mod)

lemma uint_byte_range: "0 \<le> uint (b :: byte) \<and> uint b < 256"
  using uint_lt2p [of b] by simp

lemma uint_byte_lt [simp]: "uint (b :: byte) < 256"
  using uint_byte_range by simp

lemma uint_eqD: "uint (b :: byte) = n \<Longrightarrow> b = word_of_int n"
  by auto

lemma and_mask_mod: "(x :: int) AND (2 ^ n - 1) = x mod 2 ^ n"
  by (metis mask_eq_exp_minus_1 take_bit_eq_mask take_bit_eq_mod)

lemma and_127: "(x :: int) AND 127 = x mod 128"
  using and_mask_mod [of x 7] by simp

lemma and_0x80_iff: "(x :: int) AND 0x80 = 0 \<longleftrightarrow> even (x div 128)"
  using and_exp_eq_0_iff_not_bit [of x 7] by (simp add: bit_iff_odd)

lemma and_255: "(x :: int) AND 255 = x mod 256"
  using and_mask_mod [of x 8] by simp

lemma uint_and_255 [simp]: "uint (b :: byte) AND 255 = uint b"
  using uint_byte_range [of b] by (simp add: and_255)

lemma uint_byte_of_nat: "n < 256 \<Longrightarrow> uint (word_of_nat n :: byte) = int n"
  by (simp add: unsigned_of_nat take_bit_nat_eq_self)

section \<open>Checked memory\<close>

text \<open>\<open>a[i]\<close> as a read, and \<open>memcpy\<close> from \<open>a + off\<close> of \<open>n\<close> octets.\<close>

definition rd :: "'a list \<Rightarrow> int \<Rightarrow> 'a res" where
  "rd xs i = (if 0 \<le> i \<and> i < int (length xs) then Inr (xs ! nat i) else Inl OutOfBounds)"

definition rdi :: "byte list \<Rightarrow> int \<Rightarrow> int res" where
  "rdi xs i = bnd (rd xs i) (\<lambda>b. Inr (uint b))"

definition rd_block :: "'a list \<Rightarrow> int \<Rightarrow> int \<Rightarrow> 'a list res" where
  "rd_block xs off n =
     (if n = 0 then Inr []
      else if 0 \<le> off \<and> 0 \<le> n \<and> off + n \<le> int (length xs)
      then Inr (take (nat n) (drop (nat off) xs)) else Inl OutOfBounds)"

definition wr :: "'a list \<Rightarrow> int \<Rightarrow> 'a \<Rightarrow> 'a list res" where
  "wr xs i x = (if 0 \<le> i \<and> i < int (length xs) then Inr (xs[nat i := x]) else Inl OutOfBounds)"

definition wr_block :: "'a list \<Rightarrow> int \<Rightarrow> 'a list \<Rightarrow> 'a list res" where
  "wr_block xs off ys =
     (if ys = [] then Inr xs
      else if 0 \<le> off \<and> off + int (length ys) \<le> int (length xs)
      then Inr (take (nat off) xs @ ys @ drop (nat off + length ys) xs) else Inl OutOfBounds)"

lemma rd_Inr [res_simps]: "rd xs i = Inr x \<longleftrightarrow> 0 \<le> i \<and> i < int (length xs) \<and> x = xs ! nat i"
  by (auto simp: rd_def)

lemma rdi_Inr [res_simps]:
  "rdi xs i = Inr x \<longleftrightarrow> 0 \<le> i \<and> i < int (length xs) \<and> x = uint (xs ! nat i)"
  by (auto simp: rdi_def rd_def)

lemma rd_ok: "0 \<le> i \<Longrightarrow> i < int (length xs) \<Longrightarrow> rd xs i = Inr (xs ! nat i)"
  by (simp add: rd_def)

lemma rdi_ok: "0 \<le> i \<Longrightarrow> i < int (length xs) \<Longrightarrow> rdi xs i = Inr (uint (xs ! nat i))"
  by (simp add: rdi_def rd_def)

lemma rdi_nth [simp]: "i < length xs \<Longrightarrow> rdi xs (int i) = Inr (uint (xs ! i))"
  by (simp add: rdi_def rd_def)

lemma rd_append_mid [simp]: "rd (xs @ y # ys) (int (length xs)) = Inr y"
  by (simp add: rd_def)

lemma rdi_append_mid [simp]: "rdi (xs @ y # ys) (int (length xs)) = Inr (uint y)"
  by (simp add: rdi_def)

lemma rdi_out: "int (length xs) \<le> i \<Longrightarrow> rdi xs i = Inl OutOfBounds"
  by (simp add: rdi_def rd_def)

lemma rdi_range: "rdi xs i = Inr x \<Longrightarrow> 0 \<le> x \<and> x < 256"
  by (auto simp: rdi_Inr)

lemma rd_block_mid: "rd_block (xs @ ys @ zs) (int (length xs)) (int (length ys)) = Inr ys"
  by (auto simp: rd_block_def)

lemma rd_block_Inr_length: "rd_block xs off n = Inr ys \<Longrightarrow> int (length ys) = n"
  by (auto simp: rd_block_def split: if_splits)

lemma rd_block_whole: "rd_block xs 0 (int (length xs)) = Inr xs"
  by (simp add: rd_block_def)

lemma wr_Inr_length: "wr xs i x = Inr ys \<Longrightarrow> length ys = length xs"
  by (auto simp: wr_def split: if_splits)

lemma wr_block_Inr_length: "wr_block xs off ys = Inr zs \<Longrightarrow> length zs = length xs"
  by (auto simp: wr_block_def split: if_splits)

end
