(* ===== verification/CStrings.thy ===== *)
theory CStrings
  imports RilPrelude
begin

text \<open>
  The C library routines on NUL-terminated strings that the radio code relies on, modelled
  on a character buffer with checked reads: the scan that \<open>strchr\<close>, \<open>strsep\<close> and the
  hand-written skipping loops are, the \<open>strtol\<close> family (white space, sign, \<open>0x\<close> prefix,
  clamping to the range of \<open>long\<close>), \<open>%d\<close> and \<open>%02x\<close> of \<open>sprintf\<close>, and
  \<open>RfxMisc::strStartsWith\<close>.
\<close>

abbreviation NUL :: char where "NUL \<equiv> CHR 0x00"

type_synonym buffer = "char list"

section \<open>Scanning a buffer\<close>

text \<open>
  \<open>scan p buf i\<close> is the index of the first character from \<open>i\<close> on that satisfies \<open>p\<close>;
  running off the buffer is an out-of-bounds read.
\<close>

function scan :: "(char \<Rightarrow> bool) \<Rightarrow> buffer \<Rightarrow> nat \<Rightarrow> nat res" where
  "scan p buf i =
     (if i < length buf then (if p (buf ! i) then Inr i else scan p buf (Suc i))
      else Inl OutOfBounds)"
  by pat_completeness auto
termination
  by (relation "measure (\<lambda>(p, buf, i). length buf - i)") auto

declare scan.simps [simp del]

definition peek :: "buffer \<Rightarrow> nat \<Rightarrow> char res" where
  "peek buf i = (if i < length buf then Inr (buf ! i) else Inl OutOfBounds)"

text \<open>The string a \<open>char*\<close> denotes: from the index to the next NUL.\<close>

definition c_str :: "buffer \<Rightarrow> nat \<Rightarrow> string" where
  "c_str buf i = takeWhile (\<lambda>c. c \<noteq> NUL) (drop i buf)"

definition c_buffer :: "string \<Rightarrow> buffer" where
  "c_buffer s = s @ [NUL]"

definition strchr_at :: "buffer \<Rightarrow> nat \<Rightarrow> char \<Rightarrow> nat option res" where
  "strchr_at buf i c =
     bnd (scan (\<lambda>x. x = NUL \<or> x = c) buf i) (\<lambda>j.
     bnd (peek buf j) (\<lambda>x. Inr (if x = c then Some j else None)))"

text \<open>\<open>strsep(&p, [d])\<close> for a single delimiter and \<open>p\<close> not NULL: token start, new \<open>p\<close>,
  buffer with the delimiter overwritten.\<close>

definition strsep_at :: "buffer \<Rightarrow> nat \<Rightarrow> char \<Rightarrow> (nat \<times> nat option \<times> buffer) res" where
  "strsep_at buf i d =
     bnd (scan (\<lambda>x. x = NUL \<or> x = d) buf i) (\<lambda>j.
     bnd (peek buf j) (\<lambda>x.
       if x = NUL then Inr (i, None, buf) else Inr (i, Some (Suc j), buf[j := NUL])))"

lemma peek_Inr [res_simps]: "peek buf i = Inr c \<longleftrightarrow> i < length buf \<and> c = buf ! i"
  by (auto simp: peek_def)

lemma peek_mid [simp]: "peek (xs @ c # ys) (length xs) = Inr c"
  by (simp add: peek_def)

lemma scan_Inr:
  "scan p buf i = Inr j \<Longrightarrow>
   i \<le> j \<and> j < length buf \<and> p (buf ! j) \<and> (\<forall>k. i \<le> k \<and> k < j \<longrightarrow> \<not> p (buf ! k))"
proof (induction p buf i rule: scan.induct)
  case (1 p buf i)
  from "1.prems" have i: "i < length buf"
    by (auto simp: scan.simps [of p buf i] split: if_splits)
  show ?case
  proof (cases "p (buf ! i)")
    case True
    with i "1.prems" show ?thesis by (auto simp: scan.simps [of p buf i])
  next
    case False
    with i "1.prems" have "scan p buf (Suc i) = Inr j" by (simp add: scan.simps [of p buf i])
    with "1.IH" [OF i False]
    have "Suc i \<le> j \<and> j < length buf \<and> p (buf ! j) \<and> (\<forall>k. Suc i \<le> k \<and> k < j \<longrightarrow> \<not> p (buf ! k))"
      by simp
    with False show ?thesis by (metis Suc_leI le_neq_implies_less less_imp_le Suc_le_lessD)
  qed
qed

lemma scan_exists:
  "i \<le> m \<Longrightarrow> m < length buf \<Longrightarrow> p (buf ! m) \<Longrightarrow> \<exists>j. scan p buf i = Inr j \<and> j \<le> m"
proof (induction p buf i rule: scan.induct)
  case (1 p buf i)
  show ?case
  proof (cases "p (buf ! i)")
    case True
    with "1.prems" show ?thesis by (auto simp: scan.simps [of p buf i])
  next
    case False
    with "1.prems" have "i \<noteq> m" by auto
    with "1.prems" have "Suc i \<le> m" and i: "i < length buf" by simp_all
    with "1.IH" [OF i False] "1.prems" have "\<exists>j. scan p buf (Suc i) = Inr j \<and> j \<le> m" by simp
    with i False show ?thesis by (simp add: scan.simps [of p buf i])
  qed
qed

lemma scan_mid:
  "(\<forall>x \<in> set ys. \<not> p x) \<Longrightarrow> p c \<Longrightarrow> scan p (xs @ ys @ c # zs) (length xs) = Inr (length xs + length ys)"
proof (induction ys arbitrary: xs)
  case Nil
  then show ?case by (simp add: scan.simps)
next
  case (Cons y ys)
  from Cons.IH [of "xs @ [y]"] Cons.prems
  have "scan p ((xs @ [y]) @ ys @ c # zs) (length (xs @ [y])) = Inr (length (xs @ [y]) + length ys)"
    by simp
  with Cons.prems show ?case
    by (subst scan.simps) (simp add: nth_append)
qed

lemma strchr_mid:
  "c \<noteq> NUL \<Longrightarrow> NUL \<notin> set ys \<Longrightarrow> c \<notin> set ys \<Longrightarrow>
   strchr_at (xs @ ys @ c # zs) (length xs) c = Inr (Some (length xs + length ys))"
  by (subst strchr_at_def, subst scan_mid) (auto simp: peek_def nth_append)

lemma strsep_mid:
  "d \<noteq> NUL \<Longrightarrow> NUL \<notin> set ys \<Longrightarrow> d \<notin> set ys \<Longrightarrow>
   strsep_at (xs @ ys @ d # zs) (length xs) d =
     Inr (length xs, Some (Suc (length xs + length ys)), xs @ ys @ NUL # zs)"
  by (subst strsep_at_def, subst scan_mid) (auto simp: peek_def nth_append list_update_append)

lemma strsep_last:
  "d \<noteq> NUL \<Longrightarrow> NUL \<notin> set ys \<Longrightarrow> d \<notin> set ys \<Longrightarrow>
   strsep_at (xs @ ys @ NUL # zs) (length xs) d = Inr (length xs, None, xs @ ys @ NUL # zs)"
  by (subst strsep_at_def, subst scan_mid) (auto simp: peek_def nth_append)

lemma takeWhile_stop: "(\<forall>x \<in> set ys. P x) \<Longrightarrow> \<not> P c \<Longrightarrow> takeWhile P (ys @ c # zs) = ys"
  by (induction ys) auto

lemma c_str_mid: "NUL \<notin> set ys \<Longrightarrow> c_str (xs @ ys @ NUL # zs) (length xs) = ys"
  unfolding c_str_def by (auto intro!: takeWhile_stop)

lemma c_str_buffer: "NUL \<notin> set s \<Longrightarrow> c_str (c_buffer s) 0 = s"
  using c_str_mid [of s "[]" "[]"] by (simp add: c_buffer_def)

lemma c_str_no_nul: "NUL \<notin> set (c_str buf i)"
  by (auto simp: c_str_def dest: set_takeWhileD)

section \<open>Character classes and numbers\<close>

text \<open>\<open>isspace\<close> in the C locale: blank, tab, line feed, vertical tab, form feed,
  carriage return.\<close>

definition c_isspace :: "char \<Rightarrow> bool" where
  "c_isspace c \<longleftrightarrow> (let n = (of_char c :: nat) in n = 32 \<or> (9 \<le> n \<and> n \<le> 13))"

definition digit_val :: "char \<Rightarrow> int option" where
  "digit_val c =
     (let n = (of_char c :: int) in
      if 48 \<le> n \<and> n \<le> 57 then Some (n - 48)
      else if 65 \<le> n \<and> n \<le> 90 then Some (n - 55)
      else if 97 \<le> n \<and> n \<le> 122 then Some (n - 87)
      else None)"

definition is_digit_of :: "int \<Rightarrow> char \<Rightarrow> bool" where
  "is_digit_of base c \<longleftrightarrow> (case digit_val c of None \<Rightarrow> False | Some d \<Rightarrow> d < base)"

definition digits_val :: "int \<Rightarrow> string \<Rightarrow> int" where
  "digits_val base ds = foldl (\<lambda>v c. v * base + the (digit_val c)) 0 ds"

text \<open>
  The common part of the \<open>strtol\<close> family: after white space, an optional sign and, in base 16,
  an optional \<open>0x\<close> that a hexadecimal digit follows, the longest run of digits. \<open>None\<close> when
  there is no digit (\<open>end == nptr\<close>).
\<close>

definition strip_0x :: "string \<Rightarrow> string" where
  "strip_0x s =
     (case s of a # b # c # r \<Rightarrow>
        if a = CHR ''0'' \<and> (b = CHR ''x'' \<or> b = CHR ''X'') \<and> is_digit_of 16 c then c # r else s
      | _ \<Rightarrow> s)"

definition strto_parse :: "int \<Rightarrow> string \<Rightarrow> (bool \<times> int) option" where
  "strto_parse base s =
     (let s1 = dropWhile c_isspace s;
          neg = (case s1 of c # _ \<Rightarrow> c = CHR ''-'' | [] \<Rightarrow> False);
          s2 = (case s1 of c # r \<Rightarrow> if c = CHR ''-'' \<or> c = CHR ''+'' then r else s1 | [] \<Rightarrow> []);
          s3 = (if base = 16 then strip_0x s2 else s2);
          ds = takeWhile (is_digit_of base) s3
      in if ds = [] then None else Some (neg, digits_val base ds))"

definition clamp_long :: "int \<Rightarrow> int" where
  "clamp_long x = max (- (2 ^ 63)) (min (2 ^ 63 - 1) x)"

text \<open>\<open>strtol\<close> and \<open>strtoll\<close> clamp to 64 bits; \<open>strtoul\<close> and \<open>strtoull\<close> negate modulo
  \<open>2^64\<close>. The unsigned result is assigned to a signed \<open>long\<close>.\<close>

definition c_strtol :: "int \<Rightarrow> string \<Rightarrow> int option" where
  "c_strtol base s =
     map_option (\<lambda>(neg, v). clamp_long (if neg then - v else v)) (strto_parse base s)"

definition c_strtoul :: "int \<Rightarrow> string \<Rightarrow> int option" where
  "c_strtoul base s =
     map_option (\<lambda>(neg, v). if v > 2 ^ 64 - 1 then 2 ^ 64 - 1
                            else if neg then take_bit 64 (- v) else v) (strto_parse base s)"

definition c_atoi :: "string \<Rightarrow> int" where
  "c_atoi s = (case c_strtol 10 s of None \<Rightarrow> 0 | Some l \<Rightarrow> c_int l)"

text \<open>\<open>RfxMisc::strStartsWith\<close>: both strings without their terminator.\<close>

fun strStartsWith :: "string \<Rightarrow> string \<Rightarrow> bool" where
  "strStartsWith line [] = True"
| "strStartsWith [] (p # ps) = False"
| "strStartsWith (l # ls) (p # ps) = (if l \<noteq> p then False else strStartsWith ls ps)"

lemma strStartsWith_prefix: "strStartsWith line p \<longleftrightarrow> (\<exists>r. line = p @ r)"
  by (induction line p rule: strStartsWith.induct) auto

section \<open>Decimal and hexadecimal output\<close>

definition digit_char :: "nat \<Rightarrow> char" where
  "digit_char d = char_of (if d < 10 then 48 + d else 87 + d)"

fun dec_digits :: "nat \<Rightarrow> string" where
  "dec_digits n = (if n < 10 then [digit_char n] else dec_digits (n div 10) @ [digit_char (n mod 10)])"

declare dec_digits.simps [simp del]

text \<open>\<open>%d\<close> of \<open>sprintf\<close>.\<close>

definition fmt_d :: "int \<Rightarrow> string" where
  "fmt_d n = (if n < 0 then CHR ''-'' # dec_digits (nat (- n)) else dec_digits (nat n))"

text \<open>\<open>%02x\<close> of an octet.\<close>

definition hex2 :: "byte \<Rightarrow> string" where
  "hex2 b = [digit_char (unat b div 16), digit_char (unat b mod 16)]"

lemma of_char_digit [simp]: "d < 36 \<Longrightarrow> (of_char (digit_char d) :: int) = (if d < 10 then 48 + int d else 87 + int d)"
proof -
  assume d: "d < 36"
  have "(of_char (digit_char d) :: int) = int (of_char (digit_char d) :: nat)"
    by (simp add: of_nat_of_char)
  with d show ?thesis by (simp add: digit_char_def)
qed

lemma digit_val_digit_char [simp]: "d < 36 \<Longrightarrow> digit_val (digit_char d) = Some (int d)"
  by (simp add: digit_val_def Let_def)

lemma is_digit_of_digit_char [simp]: "d < 36 \<Longrightarrow> is_digit_of base (digit_char d) \<longleftrightarrow> int d < base"
  by (simp add: is_digit_of_def)

lemma digits_val_snoc [simp]:
  "digits_val base (ds @ [c]) = digits_val base ds * base + the (digit_val c)"
  by (simp add: digits_val_def)

lemma dec_digits_nonempty [simp]: "dec_digits n \<noteq> []"
  by (subst dec_digits.simps) simp

lemma dec_digits_digits: "\<forall>c \<in> set (dec_digits n). is_digit_of 10 c"
proof (induction n rule: dec_digits.induct)
  case (1 n)
  then show ?case by (subst dec_digits.simps) auto
qed

lemma digits_val_dec_digits [simp]: "digits_val 10 (dec_digits n) = int n"
proof (induction n rule: dec_digits.induct)
  case (1 n)
  show ?case
  proof (cases "n < 10")
    case True
    then show ?thesis by (subst dec_digits.simps) (simp add: digits_val_def)
  next
    case False
    with 1 have "digits_val 10 (dec_digits (n div 10)) = int (n div 10)" by simp
    with False show ?thesis by (subst dec_digits.simps) (simp add: zdiv_int zmod_int)
  qed
qed

lemma dec_digits_chars: "c \<in> set (dec_digits n) \<Longrightarrow> \<exists>d < 10. c = digit_char d"
proof (induction n rule: dec_digits.induct)
  case (1 n)
  show ?case
  proof (cases "n < 10")
    case True
    with 1 show ?thesis by (auto simp: dec_digits.simps [of n])
  next
    case False
    with 1 show ?thesis by (auto simp: dec_digits.simps [of n] intro: exI [of _ "n mod 10"])
  qed
qed

lemma digit_char_plain:
  "d < 10 \<Longrightarrow> \<not> c_isspace (digit_char d) \<and> digit_char d \<notin> {NUL, CHR '','', CHR 0x22, CHR ''('', CHR ''-'', CHR ''+''}"
  by (auto simp: c_isspace_def digit_char_def Let_def dest: arg_cong [of _ _ "of_char :: char \<Rightarrow> nat"])

lemma minus_not_space [simp]: "\<not> c_isspace CHR ''-''"
  by (simp add: c_isspace_def)

lemma strto_parse_digits:
  assumes "ds \<noteq> []" "\<forall>c \<in> set ds. \<exists>d < 10. c = digit_char d"
  shows "strto_parse 10 ds = Some (False, digits_val 10 ds)"
    and "strto_parse 10 (CHR ''-'' # ds) = Some (True, digits_val 10 ds)"
proof -
  obtain c r where ds: "ds = c # r" using assms(1) by (cases ds) auto
  with assms(2) obtain d where "d < 10" "c = digit_char d" by auto
  with digit_char_plain [of d] have c: "\<not> c_isspace c" "c \<noteq> CHR ''-''" "c \<noteq> CHR ''+''" by auto
  have "takeWhile (is_digit_of 10) ds = ds"
    using assms(2) by (intro takeWhile_eq_all_conv [THEN iffD2]) auto
  with ds c assms(1)
  show "strto_parse 10 ds = Some (False, digits_val 10 ds)"
    and "strto_parse 10 (CHR ''-'' # ds) = Some (True, digits_val 10 ds)"
    by (simp_all add: strto_parse_def)
qed

lemma dec_digits_all: "\<forall>c \<in> set (dec_digits n). \<exists>d < 10. c = digit_char d"
  by (blast dest: dec_digits_chars)

lemma strto_parse_fmt_d: "strto_parse 10 (fmt_d n) = Some (n < 0, \<bar>n\<bar>)"
  using strto_parse_digits [OF dec_digits_nonempty dec_digits_all]
  by (simp add: fmt_d_def)

lemma c_strtol_fmt_d: "- (2 ^ 63) \<le> n \<Longrightarrow> n < 2 ^ 63 \<Longrightarrow> c_strtol 10 (fmt_d n) = Some n"
  by (simp add: c_strtol_def strto_parse_fmt_d clamp_long_def)

lemma c_atoi_fmt_d: "- (2 ^ 31) \<le> n \<Longrightarrow> n < 2 ^ 31 \<Longrightarrow> c_atoi (fmt_d n) = n"
  by (simp add: c_atoi_def c_strtol_fmt_d c_int_id)

end
