(* ===== verification/TokenReader.thy ===== *)
theory TokenReader
  imports CStrings
begin

text \<open>
  The interface of a response tokenizer as its clients use it: a state that is positioned at
  some remaining text, and an operation that returns the next token. The laws say what one
  call does on a plain field, on a quoted field and at the end; the lemmas proved from them
  say that a comma-separated line is read back field by field. \<open>RfxAtLine\<close> and
  \<open>RfxTokUtils\<close> both provide the interface.
\<close>

text \<open>A plain field: no delimiter, no quote, no leading white space.\<close>

definition plain_field :: "string \<Rightarrow> bool" where
  "plain_field f \<longleftrightarrow>
     NUL \<notin> set f \<and> CHR '','' \<notin> set f \<and> CHR 0x22 \<notin> set f \<and>
     (case f of [] \<Rightarrow> True | c # _ \<Rightarrow> \<not> c_isspace c)"

definition quotable :: "string \<Rightarrow> bool" where
  "quotable f \<longleftrightarrow> NUL \<notin> set f \<and> CHR 0x22 \<notin> set f"

definition quoted :: "string \<Rightarrow> string" where
  "quoted f = CHR 0x22 # f @ [CHR 0x22]"

fun join_commas :: "string list \<Rightarrow> string" where
  "join_commas [] = []"
| "join_commas [f] = f"
| "join_commas (f # g # fs) = f @ CHR '','' # join_commas (g # fs)"

text \<open>A field as a modem prints it: padding, then plain or quoted text.\<close>

datatype field = Plain string string | Quoted string string

fun field_text :: "field \<Rightarrow> string" where
  "field_text (Plain w f) = w @ f"
| "field_text (Quoted w f) = w @ quoted f"

fun field_value :: "field \<Rightarrow> string" where
  "field_value (Plain w f) = f"
| "field_value (Quoted w f) = f"

definition blanks :: "string \<Rightarrow> bool" where
  "blanks w \<longleftrightarrow> list_all c_isspace w"

fun wf_field :: "field \<Rightarrow> bool" where
  "wf_field (Plain w f) \<longleftrightarrow> blanks w \<and> plain_field f"
| "wf_field (Quoted w f) \<longleftrightarrow> blanks w \<and> quotable f"

definition is_quoted :: "field \<Rightarrow> bool" where
  "is_quoted f \<longleftrightarrow> (case f of Plain _ _ \<Rightarrow> False | Quoted _ _ \<Rightarrow> True)"

definition fields_text :: "field list \<Rightarrow> string" where
  "fields_text fs = join_commas (map field_text fs)"

text \<open>Reading \<open>n\<close> tokens one after the other.\<close>

fun read_n :: "('s \<Rightarrow> (string option \<times> 's) res) \<Rightarrow> nat \<Rightarrow> 's \<Rightarrow> (string option list \<times> 's) res" where
  "read_n nxt 0 s = Inr ([], s)"
| "read_n nxt (Suc n) s =
     bnd (nxt s) (\<lambda>(t, s1). bnd (read_n nxt n s1) (\<lambda>(ts, s2). Inr (t # ts, s2)))"

lemma plain_field_fmt_d: "plain_field (fmt_d n)"
proof -
  have plain: "\<forall>c \<in> set (dec_digits k). \<not> c_isspace c \<and> c \<noteq> NUL \<and> c \<noteq> CHR '','' \<and> c \<noteq> CHR 0x22" for k
    using dec_digits_chars [of _ k] digit_char_plain by fastforce
  obtain c r where cr: "dec_digits (nat n) = c # r"
    by (cases "dec_digits (nat n)") auto
  show ?thesis
  proof (cases "n < 0")
    case True
    with plain [of "nat (- n)"] show ?thesis by (auto simp: plain_field_def fmt_d_def)
  next
    case False
    with plain [of "nat n"] cr show ?thesis by (auto simp: plain_field_def fmt_d_def)
  qed
qed

lemma plain_field_no_nul: "plain_field f \<Longrightarrow> NUL \<notin> set f"
  by (simp add: plain_field_def)

lemma blanks_no_nul: "blanks w \<Longrightarrow> NUL \<notin> set w"
  by (auto simp: blanks_def list_all_iff c_isspace_def)

lemma wf_field_no_nul: "wf_field f \<Longrightarrow> NUL \<notin> set (field_text f)"
  by (cases f) (auto simp: quoted_def quotable_def dest: plain_field_no_nul blanks_no_nul)

lemma join_commas_no_nul: "\<forall>f \<in> set fs. NUL \<notin> set f \<Longrightarrow> NUL \<notin> set (join_commas fs)"
  by (induction fs rule: join_commas.induct) auto

lemma fields_text_no_nul: "\<forall>f \<in> set fs. wf_field f \<Longrightarrow> NUL \<notin> set (fields_text fs)"
  unfolding fields_text_def by (intro join_commas_no_nul) (auto dest: wf_field_no_nul)

lemma fields_text_simps [simp]:
  "fields_text [] = []"
  "fields_text [f] = field_text f"
  "fields_text (f # g # fs) = field_text f @ CHR '','' # fields_text (g # fs)"
  by (simp_all add: fields_text_def)

locale token_reader =
  fixes positioned :: "'s \<Rightarrow> string \<Rightarrow> bool"
    and exhausted :: "'s \<Rightarrow> bool"
    and nxt :: "'s \<Rightarrow> (string option \<times> 's) res"
  assumes next_blank:
      "blanks w \<Longrightarrow> positioned s (w @ rest) \<Longrightarrow> \<exists>s'. nxt s = nxt s' \<and> positioned s' rest"
    and next_field:
      "plain_field f \<Longrightarrow> positioned s (f @ CHR '','' # rest) \<Longrightarrow>
       \<exists>s'. nxt s = Inr (Some f, s') \<and> positioned s' rest"
    and next_last:
      "plain_field f \<Longrightarrow> positioned s f \<Longrightarrow> \<exists>s'. nxt s = Inr (Some f, s') \<and> exhausted s'"
    and next_quoted:
      "quotable f \<Longrightarrow> positioned s (quoted f @ CHR '','' # rest) \<Longrightarrow>
       \<exists>s'. nxt s = Inr (Some f, s') \<and> positioned s' rest"
    and next_quoted_last:
      "quotable f \<Longrightarrow> positioned s (quoted f) \<Longrightarrow> \<exists>s'. nxt s = Inr (Some f, s') \<and> positioned s' []"
    and next_exhausted: "exhausted s \<Longrightarrow> nxt s = Inr (None, s)"
begin

lemma next_wf_field:
  assumes "wf_field f" "positioned s (field_text f @ CHR '','' # rest)"
  shows "\<exists>s'. nxt s = Inr (Some (field_value f), s') \<and> positioned s' rest"
proof (cases f)
  case (Plain w g)
  with assms next_blank [of w s "g @ CHR '','' # rest"] next_field [of g] show ?thesis by fastforce
next
  case (Quoted w g)
  with assms next_blank [of w s "quoted g @ CHR '','' # rest"] next_quoted [of g] show ?thesis by fastforce
qed

lemma next_wf_last:
  assumes "wf_field f" "positioned s (field_text f)"
  shows "\<exists>s'. nxt s = Inr (Some (field_value f), s') \<and>
           (if is_quoted f then positioned s' [] else exhausted s')"
proof (cases f)
  case (Plain w g)
  with assms next_blank [of w s g] next_last [of g] show ?thesis by (fastforce simp: is_quoted_def)
next
  case (Quoted w g)
  with assms next_blank [of w s "quoted g"] next_quoted_last [of g] show ?thesis
    by (fastforce simp: is_quoted_def)
qed

text \<open>
  A line is read back field by field. After a plain last field the reader is exhausted; after
  a quoted one it stands on the terminator, and one more read yields an empty token.
\<close>

lemma read_line:
  "fs \<noteq> [] \<Longrightarrow> \<forall>f \<in> set fs. wf_field f \<Longrightarrow> positioned s (fields_text fs) \<Longrightarrow>
   \<exists>s'. read_n nxt (length fs) s = Inr (map (\<lambda>f. Some (field_value f)) fs, s') \<and>
        (if is_quoted (last fs) then positioned s' [] else exhausted s')"
proof (induction fs arbitrary: s rule: induct_list012 [case_names Nil One More])
  case Nil
  then show ?case by simp
next
  case (One f)
  then have wf: "wf_field f" and pos: "positioned s (field_text f)" by simp_all
  from next_wf_last [OF wf pos] obtain s1 where "nxt s = Inr (Some (field_value f), s1)"
    "if is_quoted f then positioned s1 [] else exhausted s1" by blast
  then show ?case by auto
next
  case (More f g fs)
  then have wf: "wf_field f" and pos: "positioned s (field_text f @ CHR '','' # fields_text (g # fs))"
    by simp_all
  from next_wf_field [OF wf pos] obtain s1
    where s1: "nxt s = Inr (Some (field_value f), s1)" "positioned s1 (fields_text (g # fs))"
    by blast
  with More obtain s2 where
    "read_n nxt (length (g # fs)) s1 = Inr (map (\<lambda>f. Some (field_value f)) (g # fs), s2)"
    "if is_quoted (last (g # fs)) then positioned s2 [] else exhausted s2"
    by fastforce
  with s1 show ?case by (simp del: read_n.simps(2) add: read_n.simps(2) [of nxt "Suc (length fs)"])
qed

text \<open>Once the line is used up, every further read returns NULL and changes nothing.\<close>

lemma read_past_end: "exhausted s \<Longrightarrow> read_n nxt n s = Inr (replicate n None, s)"
  by (induction n) (auto simp: next_exhausted)

end

end
