(* ===== verification/AtLine.thy ===== *)
theory AtLine
  imports TokenReader
begin

text \<open>
  \<open>RfxAtLine\<close> (\<open>framework/core/RfxAtLine.cpp\<close>): one line of a modem response and the
  tokenizer every \<open>mdcomm\<close> handler parses it with. The line is the heap buffer the
  constructor allocates, terminator included; \<open>m_pCur\<close> is an index into it or NULL.
  \<open>strsep\<close> overwrites delimiters in place, so the buffer is part of the state every
  operation returns. All buffer accesses are checked reads.
\<close>

record at_line =
  m_line :: "buffer option"
  m_pNext :: "nat option"  \<comment> \<open>the next line of a multi-line response, an opaque address\<close>
  m_pCur :: "nat option"

section \<open>Construction\<close>

text \<open>\<open>alloc\<close> says whether \<open>calloc\<close> succeeds.\<close>

definition newAtLine :: "bool \<Rightarrow> string \<Rightarrow> nat option \<Rightarrow> at_line" where
  "newAtLine alloc line next =
     (if \<not> alloc then \<lparr>m_line = None, m_pNext = None, m_pCur = None\<rparr>
      else \<lparr>m_line = Some (c_buffer line), m_pNext = next, m_pCur = Some 0\<rparr>)"

definition copyAtLine :: "bool \<Rightarrow> at_line \<Rightarrow> at_line res" where
  "copyAtLine alloc other =
     bnd (chk (m_pNext other = None) AssertFailed) (\<lambda>_.
     case m_line other of
       None \<Rightarrow> Inl OutOfBounds
     | Some b \<Rightarrow>
        (if \<not> alloc then Inr \<lparr>m_line = None, m_pNext = None, m_pCur = None\<rparr>
         else Inr \<lparr>m_line = Some (c_buffer (c_str b 0)), m_pNext = None, m_pCur = Some 0\<rparr>))"

definition getLine :: "at_line \<Rightarrow> string" where
  "getLine l = (case m_line l of None \<Rightarrow> [] | Some b \<Rightarrow> c_str b 0)"

section \<open>The tokenizer\<close>

definition skipPrefix :: "char \<Rightarrow> at_line \<Rightarrow> (int \<times> at_line) res" where
  "skipPrefix c l =
     (case m_line l of
        None \<Rightarrow> Inr (-1, l\<lparr>m_pCur := None\<rparr>)
      | Some b \<Rightarrow>
          bnd (strchr_at b 0 c) (\<lambda>r.
            case r of
              None \<Rightarrow> Inr (-1, l\<lparr>m_pCur := None\<rparr>)
            | Some j \<Rightarrow> Inr (0, l\<lparr>m_pCur := Some (Suc j)\<rparr>)))"

definition atTokStart :: "at_line \<Rightarrow> (int \<times> at_line) res" where
  "atTokStart l = skipPrefix CHR '':'' l"

definition atTokEqual :: "at_line \<Rightarrow> (int \<times> at_line) res" where
  "atTokEqual l = skipPrefix CHR ''='' l"

definition line_buf :: "at_line \<Rightarrow> buffer" where
  "line_buf l = (case m_line l of None \<Rightarrow> [] | Some b \<Rightarrow> b)"

text \<open>The result is the address of the bracket (post-increment), or NULL.\<close>

definition atTokChar :: "at_line \<Rightarrow> (nat option \<times> int \<times> at_line) res" where
  "atTokChar l =
     (case m_pCur l of
        None \<Rightarrow> Inr (None, -1, l)
      | Some i \<Rightarrow>
          bnd (strchr_at (line_buf l) i CHR ''('') (\<lambda>r.
            case r of
              None \<Rightarrow> Inr (None, -1, l\<lparr>m_pCur := None\<rparr>)
            | Some j \<Rightarrow> Inr (Some j, 0, l\<lparr>m_pCur := Some (Suc j)\<rparr>)))"

definition skipWhiteSpace :: "at_line \<Rightarrow> at_line res" where
  "skipWhiteSpace l =
     (case m_pCur l of
        None \<Rightarrow> Inr l
      | Some i \<Rightarrow>
          bnd (scan (\<lambda>c. \<not> (c \<noteq> NUL \<and> c_isspace c)) (line_buf l) i) (\<lambda>j.
            Inr (l\<lparr>m_pCur := Some j\<rparr>)))"

definition skipNextComma :: "at_line \<Rightarrow> at_line res" where
  "skipNextComma l =
     (case m_pCur l of
        None \<Rightarrow> Inr l
      | Some i \<Rightarrow>
          bnd (scan (\<lambda>c. \<not> (c \<noteq> NUL \<and> c \<noteq> CHR '','')) (line_buf l) i) (\<lambda>j.
          bnd (peek (line_buf l) j) (\<lambda>c.
            Inr (l\<lparr>m_pCur := Some (if c = CHR '','' then Suc j else j)\<rparr>))))"

text \<open>\<open>strsep(&m_pCur, d)\<close> from index \<open>i\<close>.\<close>

definition lineStrsep :: "at_line \<Rightarrow> nat \<Rightarrow> char \<Rightarrow> (nat \<times> at_line) res" where
  "lineStrsep l i d =
     bnd (strsep_at (line_buf l) i d) (\<lambda>(t, p, b).
       Inr (t, l\<lparr>m_line := Some b, m_pCur := p\<rparr>))"

definition nextTok :: "at_line \<Rightarrow> (nat option \<times> at_line) res" where
  "nextTok l0 =
     bnd (skipWhiteSpace l0) (\<lambda>l.
     case m_pCur l of
       None \<Rightarrow> Inr (None, l)
     | Some i \<Rightarrow>
         bnd (peek (line_buf l) i) (\<lambda>c.
         if c = CHR 0x22 then
           bnd (lineStrsep l (Suc i) CHR 0x22) (\<lambda>(t, l1).
           bnd (skipNextComma l1) (\<lambda>l2. Inr (Some t, l2)))
         else if c = CHR ''('' then
           bnd (peek (line_buf l) (Suc i)) (\<lambda>c1.
           if c1 = CHR 0x22 then
             bnd (lineStrsep l (i + 2) CHR 0x22) (\<lambda>(t, l1).
             bnd (skipNextComma l1) (\<lambda>l2. Inr (Some t, l2)))
           else bnd (lineStrsep l i CHR '','') (\<lambda>(t, l1). Inr (Some t, l1)))
         else bnd (lineStrsep l i CHR '','') (\<lambda>(t, l1). Inr (Some t, l1))))"

text \<open>The number of a token: \<open>None\<close> when \<open>strtol\<close> consumed nothing.\<close>

definition tokNumber :: "int \<Rightarrow> bool \<Rightarrow> string \<Rightarrow> int option" where
  "tokNumber base uns s = (if uns then c_strtoul base s else c_strtol base s)"

definition atTokNextintBase :: "int \<Rightarrow> bool \<Rightarrow> at_line \<Rightarrow> (int \<times> int \<times> at_line) res" where
  "atTokNextintBase base uns l =
     (if m_pCur l = None then Inr (0, -1, l)
      else bnd (nextTok l) (\<lambda>(t, l1).
        case t of
          None \<Rightarrow> Inr (0, -1, l1)
        | Some i \<Rightarrow>
            (case tokNumber base uns (c_str (line_buf l1) i) of
               None \<Rightarrow> Inr (0, -1, l1)
             | Some v \<Rightarrow> Inr (c_int (c_long v), 0, l1))))"

definition atTokNextint :: "at_line \<Rightarrow> (int \<times> int \<times> at_line) res" where
  "atTokNextint l = atTokNextintBase 10 False l"

definition atTokNexthexint :: "at_line \<Rightarrow> (int \<times> int \<times> at_line) res" where
  "atTokNexthexint l = atTokNextintBase 16 True l"

definition atTokNextbool :: "at_line \<Rightarrow> (bool \<times> int \<times> at_line) res" where
  "atTokNextbool l =
     bnd (atTokNextint l) (\<lambda>(r, err, l1).
       if err < 0 then Inr (False, -1, l1)
       else if \<not> (r = 0 \<or> r = 1) then Inr (False, -1, l1)
       else Inr (r \<noteq> 0, err, l1))"

definition atTokNextstr :: "at_line \<Rightarrow> (nat option \<times> int \<times> at_line) res" where
  "atTokNextstr l =
     (if m_pCur l = None then Inr (None, -1, l)
      else bnd (nextTok l) (\<lambda>(t, l1). Inr (t, 0, l1)))"

definition atTokHasmore :: "at_line \<Rightarrow> bool res" where
  "atTokHasmore l =
     (case m_pCur l of
        None \<Rightarrow> Inr False
      | Some i \<Rightarrow> bnd (peek (line_buf l) i) (\<lambda>c. Inr (c \<noteq> NUL)))"

definition atTokNextlonglongBase :: "int \<Rightarrow> bool \<Rightarrow> at_line \<Rightarrow> (int \<times> int \<times> at_line) res" where
  "atTokNextlonglongBase base uns l =
     (if m_pCur l = None then Inr (0, -1, l)
      else bnd (nextTok l) (\<lambda>(t, l1).
        case t of
          None \<Rightarrow> Inr (0, -1, l1)
        | Some i \<Rightarrow>
            (case tokNumber base uns (c_str (line_buf l1) i) of
               None \<Rightarrow> Inr (0, -1, l1)
             | Some v \<Rightarrow> Inr (c_long v, 0, l1))))"

definition atTokNextlonglong :: "at_line \<Rightarrow> (int \<times> int \<times> at_line) res" where
  "atTokNextlonglong l = atTokNextlonglongBase 10 False l"

section \<open>Classification of a line\<close>

definition finalResponsesSuccess :: "string list" where
  "finalResponsesSuccess = [''OK'', ''CONNECT'']"

definition finalResponsesError :: "string list" where
  "finalResponsesError =
     [''ERROR'', ''+CMS ERROR:'', ''+CME ERROR:'', ''NO CARRIER'', ''NO ANSWER'', ''NO DIALTONE'',
      ''+C2K ERROR:'', ''+EC2KCME ERROR'']"

definition intermediatePattern :: "string list" where
  "intermediatePattern = [''> '']"

definition finalResponsesSuccessInNumeric :: "string list" where
  "finalResponsesSuccessInNumeric = [''0'', ''1'']"

definition finalResponsesErrorInNumeric :: "string list" where
  "finalResponsesErrorInNumeric =
     [''2'', ''3'', ''4'', ''6'', ''7'', ''8'', ''+CMS ERROR:'', ''+CME ERROR:'', ''+C2K ERROR:'']"

definition ackResponse :: "string list" where
  "ackResponse = [''ACK'']"

definition isFinalResponseSuccess :: "at_line \<Rightarrow> bool" where
  "isFinalResponseSuccess l = list_ex (strStartsWith (getLine l)) finalResponsesSuccess"

text \<open>
  \<open>ril_urc\<close> and \<open>channel_offset\<close> are \<open>RIL_URC\<close> and \<open>RIL_CHANNEL_OFFSET\<close>, \<open>sims\<close> is
  \<open>RfxRilUtils::rfxGetSimCount()\<close>: channel numbering that is configured elsewhere.
\<close>

definition isFinalResponseErrorEx :: "int \<Rightarrow> int \<Rightarrow> nat \<Rightarrow> at_line \<Rightarrow> int \<Rightarrow> bool" where
  "isFinalResponseErrorEx ril_urc channel_offset sims l channel_id =
     (if list_ex (\<lambda>j. channel_id = c_int (ril_urc + int j * channel_offset) \<and>
                      strStartsWith (getLine l) ''NO CARRIER'') [0..<sims]
      then False
      else list_ex (strStartsWith (getLine l)) finalResponsesError)"

definition isIntermediatePattern :: "at_line \<Rightarrow> bool" where
  "isIntermediatePattern l = list_ex (\<lambda>p. getLine l = p) intermediatePattern"

definition isFinalResponseSuccessInNumeric :: "at_line \<Rightarrow> bool" where
  "isFinalResponseSuccessInNumeric l = list_ex (\<lambda>p. getLine l = p) finalResponsesSuccessInNumeric"

text \<open>\<open>strncmp(line, p, strlen(p)) == 0\<close> is the prefix test.\<close>

definition isFinalResponseErrorInNumeric :: "at_line \<Rightarrow> bool" where
  "isFinalResponseErrorInNumeric l =
     list_ex (strStartsWith (getLine l)) finalResponsesErrorInNumeric"

definition isAckResponse :: "at_line \<Rightarrow> bool" where
  "isAckResponse l = list_ex (strStartsWith (getLine l)) ackResponse"


section \<open>Well-formed lines and memory safety\<close>

text \<open>The buffer ends in NUL and the cursor, when there is one, is inside it.\<close>

definition wf_buf :: "buffer \<Rightarrow> bool" where
  "wf_buf b \<longleftrightarrow> b \<noteq> [] \<and> last b = NUL"

definition wf_line :: "at_line \<Rightarrow> bool" where
  "wf_line l \<longleftrightarrow>
     (case m_line l of
        None \<Rightarrow> m_pCur l = None
      | Some b \<Rightarrow> wf_buf b \<and> (case m_pCur l of None \<Rightarrow> True | Some i \<Rightarrow> i < length b))"

definition remaining :: "at_line \<Rightarrow> nat" where
  "remaining l = (case m_pCur l of None \<Rightarrow> 0 | Some i \<Rightarrow> length (line_buf l) - i)"

lemma wf_buf_end: "wf_buf b \<Longrightarrow> b ! (length b - 1) = NUL \<and> length b - 1 < length b"
  by (auto simp: wf_buf_def last_conv_nth)

lemma wf_buf_Suc: "wf_buf b \<Longrightarrow> i < length b \<Longrightarrow> b ! i \<noteq> NUL \<Longrightarrow> Suc i < length b"
  using wf_buf_end [of b] by (metis Suc_lessI diff_Suc_1)

lemma wf_buf_update: "wf_buf b \<Longrightarrow> wf_buf (b[j := NUL])"
  by (auto simp: wf_buf_def last_list_update)

lemma scan_wf:
  assumes "wf_buf b" "i < length b" "p NUL"
  shows "\<exists>j. scan p b i = Inr j \<and> i \<le> j \<and> j < length b \<and> p (b ! j)"
proof -
  from assms wf_buf_end [of b] have "i \<le> length b - 1" "length b - 1 < length b" "p (b ! (length b - 1))"
    by auto
  then obtain j where "scan p b i = Inr j" using scan_exists by blast
  with scan_Inr [of p b i j] show ?thesis by blast
qed

lemma strchr_wf:
  assumes "wf_buf b" "i < length b" "c \<noteq> NUL"
  shows "\<exists>r. strchr_at b i c = Inr r \<and> (\<forall>j. r = Some j \<longrightarrow> i \<le> j \<and> Suc j < length b \<and> b ! j = c)"
proof -
  obtain j where j: "scan (\<lambda>x. x = NUL \<or> x = c) b i = Inr j" "i \<le> j" "j < length b"
    using scan_wf [of b i "\<lambda>x. x = NUL \<or> x = c"] assms by auto
  with assms wf_buf_Suc [of b j] show ?thesis by (auto simp: strchr_at_def peek_def)
qed

lemma strsep_wf:
  assumes "wf_buf b" "i < length b" "d \<noteq> NUL"
  shows "\<exists>p b'. strsep_at b i d = Inr (i, p, b') \<and> wf_buf b' \<and> length b' = length b \<and>
           (\<forall>k. p = Some k \<longrightarrow> i < k \<and> k < length b)"
proof -
  obtain j where j: "scan (\<lambda>x. x = NUL \<or> x = d) b i = Inr j" "i \<le> j" "j < length b"
    using scan_wf [of b i "\<lambda>x. x = NUL \<or> x = d"] assms by auto
  with assms wf_buf_Suc [of b j] show ?thesis
    by (auto simp: strsep_at_def peek_def wf_buf_update)
qed

lemma skipWhiteSpace_wf:
  assumes "m_line l = Some b" "wf_buf b" "m_pCur l = Some i" "i < length b"
  shows "\<exists>j. skipWhiteSpace l = Inr (l\<lparr>m_pCur := Some j\<rparr>) \<and> i \<le> j \<and> j < length b"
  using scan_wf [of b i "\<lambda>c. \<not> (c \<noteq> NUL \<and> c_isspace c)"] assms
  by (auto simp: skipWhiteSpace_def line_buf_def)

lemma skipNextComma_wf:
  assumes "m_line l = Some b" "wf_buf b" "\<forall>i. m_pCur l = Some i \<longrightarrow> i < length b"
  shows "\<exists>p. skipNextComma l = Inr (l\<lparr>m_pCur := p\<rparr>) \<and>
           (case m_pCur l of None \<Rightarrow> p = None | Some i \<Rightarrow> \<exists>j. p = Some j \<and> i \<le> j \<and> j < length b)"
proof (cases "m_pCur l")
  case None
  then show ?thesis by (auto simp: skipNextComma_def intro: exI [of _ None])
next
  case (Some i)
  then obtain j where j: "scan (\<lambda>c. \<not> (c \<noteq> NUL \<and> c \<noteq> CHR '','')) b i = Inr j" "i \<le> j" "j < length b"
    using scan_wf [of b i "\<lambda>c. \<not> (c \<noteq> NUL \<and> c \<noteq> CHR '','')"] assms by auto
  with Some assms wf_buf_Suc [of b j] show ?thesis
    by (auto simp: skipNextComma_def line_buf_def peek_def)
qed

lemma lineStrsep_wf:
  assumes "m_line l = Some b" "wf_buf b" "i < length b" "d \<noteq> NUL"
  shows "\<exists>p b'. lineStrsep l i d = Inr (i, l\<lparr>m_line := Some b', m_pCur := p\<rparr>) \<and> wf_buf b' \<and>
           length b' = length b \<and> (\<forall>k. p = Some k \<longrightarrow> i < k \<and> k < length b)"
  using strsep_wf [OF assms(2-4)] assms(1) by (fastforce simp: lineStrsep_def line_buf_def)

definition tok_done :: "at_line \<Rightarrow> nat \<Rightarrow> nat option \<times> at_line \<Rightarrow> bool" where
  "tok_done l i r \<longleftrightarrow>
     (case r of (t, l') \<Rightarrow>
        wf_line l' \<and> length (line_buf l') = length (line_buf l) \<and> m_pNext l' = m_pNext l \<and>
        (\<exists>k. t = Some k \<and> i \<le> k \<and> k < length (line_buf l')) \<and>
        (\<forall>k. m_pCur l' = Some k \<longrightarrow> i < k))"

text \<open>One token between quotes, and one up to the next comma.\<close>

lemma quoted_tok_wf:
  assumes "m_line l = Some b" "wf_buf b" "i < k" "k < length b"
  shows "\<exists>r. bnd (lineStrsep l k CHR 0x22) (\<lambda>(t, l1). bnd (skipNextComma l1) (\<lambda>l2. Inr (Some t, l2))) = Inr r \<and>
           tok_done l i r"
proof -
  obtain p b' where s: "lineStrsep l k CHR 0x22 = Inr (k, l\<lparr>m_line := Some b', m_pCur := p\<rparr>)"
      "wf_buf b'" "length b' = length b" "\<forall>n. p = Some n \<longrightarrow> k < n \<and> n < length b"
    using lineStrsep_wf [of l b k "CHR 0x22"] assms by auto
  let ?l1 = "l\<lparr>m_line := Some b', m_pCur := p\<rparr>"
  obtain q where q: "skipNextComma ?l1 = Inr (?l1\<lparr>m_pCur := q\<rparr>)"
      "case p of None \<Rightarrow> q = None | Some n \<Rightarrow> \<exists>j. q = Some j \<and> n \<le> j \<and> j < length b'"
    using skipNextComma_wf [of ?l1 b'] s by auto
  with s assms show ?thesis
    by (auto simp: tok_done_def wf_line_def line_buf_def split: option.splits)
qed

lemma comma_tok_wf:
  assumes "m_line l = Some b" "wf_buf b" "i < length b"
  shows "\<exists>r. bnd (lineStrsep l i CHR '','') (\<lambda>(t, l1). Inr (Some t, l1)) = Inr r \<and> tok_done l i r"
proof -
  obtain p b' where "lineStrsep l i CHR '','' = Inr (i, l\<lparr>m_line := Some b', m_pCur := p\<rparr>)"
      "wf_buf b'" "length b' = length b" "\<forall>n. p = Some n \<longrightarrow> i < n \<and> n < length b"
    using lineStrsep_wf [of l b i "CHR '',''"] assms by auto
  with assms show ?thesis
    by (auto simp: tok_done_def wf_line_def line_buf_def split: option.splits)
qed

text \<open>\<open>nextTok\<close> never leaves the buffer, keeps it well-formed and moves forward.\<close>

lemma nextTok_wf:
  assumes wf: "wf_line l" and cur: "m_pCur l = Some i"
  shows "\<exists>r. nextTok l = Inr r \<and> tok_done l i r"
proof -
  from wf cur obtain b where b: "m_line l = Some b" "wf_buf b" "i < length b"
    by (auto simp: wf_line_def split: option.splits)
  then obtain j where ws: "skipWhiteSpace l = Inr (l\<lparr>m_pCur := Some j\<rparr>)" and j: "i \<le> j" "j < length b"
    using skipWhiteSpace_wf cur by blast
  let ?l = "l\<lparr>m_pCur := Some j\<rparr>"
  have l: "m_line ?l = Some b" "line_buf ?l = b" using b by (simp_all add: line_buf_def)
  have lift: "tok_done ?l j r \<Longrightarrow> tok_done l i r" for r
    using j b by (fastforce simp: tok_done_def line_buf_def split: prod.splits)
  have step: "peek b (Suc j) = Inr (b ! Suc j)" "Suc j < length b" if "b ! j \<noteq> NUL"
    using wf_buf_Suc [OF b(2) j(2) that] by (simp_all add: peek_def)
  consider (q) "b ! j = CHR 0x22" | (bq) "b ! j = CHR ''(''" "b ! Suc j = CHR 0x22"
    | (c) "b ! j \<noteq> CHR 0x22" "b ! j = CHR ''('' \<longrightarrow> b ! Suc j \<noteq> CHR 0x22" by blast
  then show ?thesis
  proof cases
    case q
    with step quoted_tok_wf [OF l(1) b(2), of j "Suc j"] lift ws l j show ?thesis
      by (auto simp: nextTok_def peek_def)
  next
    case bq
    with step have "j + 2 < length b"
      using wf_buf_Suc [OF b(2), of "Suc j"] by auto
    with bq step quoted_tok_wf [OF l(1) b(2), of j "j + 2"] lift ws l j show ?thesis
      by (auto simp: nextTok_def peek_def)
  next
    case c
    with step comma_tok_wf [OF l(1) b(2) j(2)] lift ws l j show ?thesis
      by (auto simp: nextTok_def peek_def)
  qed
qed

lemma nextTok_null: "m_pCur l = None \<Longrightarrow> nextTok l = Inr (None, l)"
  by (simp add: nextTok_def skipWhiteSpace_def)


section \<open>The tokenizer reads a line field by field\<close>

definition line_at :: "at_line \<Rightarrow> string \<Rightarrow> bool" where
  "line_at l s \<longleftrightarrow>
     (\<exists>pre post. m_line l = Some (pre @ s @ NUL # post) \<and> NUL \<notin> set s \<and> m_pCur l = Some (length pre))"

lemma line_atI:
  "m_line l = Some (pre @ s @ NUL # post) \<Longrightarrow> NUL \<notin> set s \<Longrightarrow> m_pCur l = Some (length pre) \<Longrightarrow>
   line_at l s"
  by (auto simp: line_at_def)

text \<open>A token as the text the returned pointer denotes.\<close>

definition nextText :: "at_line \<Rightarrow> (string option \<times> at_line) res" where
  "nextText l = bnd (nextTok l) (\<lambda>(t, l'). Inr (map_option (c_str (line_buf l')) t, l'))"

lemma scan_here: "p c \<Longrightarrow> scan p (pre @ c # g) (length pre) = Inr (length pre)"
  by (simp add: scan.simps)

lemma nextTok_plain:
  assumes "m_line l = Some (pre @ c # g)" "m_pCur l = Some (length pre)"
    and "\<not> c_isspace c" "c \<noteq> CHR 0x22" "g = c1 # g'" "c1 \<noteq> CHR 0x22"
  shows "nextTok l = bnd (lineStrsep l (length pre) CHR '','') (\<lambda>(t, l1). Inr (Some t, l1))"
proof -
  have "skipWhiteSpace l = Inr l"
    using assms by (simp add: skipWhiteSpace_def line_buf_def scan_here)
  then show ?thesis
    using assms by (simp add: nextTok_def line_buf_def peek_def nth_append)
qed

lemma nextTok_at_end:
  assumes "m_line l = Some (pre @ NUL # g)" "m_pCur l = Some (length pre)"
  shows "nextTok l = bnd (lineStrsep l (length pre) CHR '','') (\<lambda>(t, l1). Inr (Some t, l1))"
proof -
  have "skipWhiteSpace l = Inr l"
    using assms by (simp add: skipWhiteSpace_def line_buf_def scan_here)
  then show ?thesis
    using assms by (simp add: nextTok_def line_buf_def peek_def nth_append)
qed

lemma comma_not_space [simp]: "\<not> c_isspace CHR '',''" "\<not> c_isspace NUL" "\<not> c_isspace CHR 0x22"
  by (simp_all add: c_isspace_def)

lemma nextText_field:
  assumes f: "plain_field f" and at: "line_at l (f @ CHR '','' # rest)"
  shows "\<exists>l'. nextText l = Inr (Some f, l') \<and> line_at l' rest"
proof -
  from at obtain pre post where l: "m_line l = Some (pre @ f @ CHR '','' # rest @ NUL # post)"
      "m_pCur l = Some (length pre)" and nul: "NUL \<notin> set rest"
    by (auto simp: line_at_def)
  have "\<exists>c c1 g. f @ CHR '','' # rest @ NUL # post = c # c1 # g \<and> \<not> c_isspace c \<and> c \<noteq> CHR 0x22 \<and>
          (f = [] \<or> c1 \<noteq> CHR 0x22)"
    using f by (cases f; cases "tl f"; cases rest) (auto simp: plain_field_def)
  have tok: "nextTok l = bnd (lineStrsep l (length pre) CHR '','') (\<lambda>(t, l1). Inr (Some t, l1))"
  proof (cases f)
    case Nil
    have "skipWhiteSpace l = Inr l"
      using l Nil by (simp add: skipWhiteSpace_def line_buf_def scan_here)
    then show ?thesis using l Nil by (simp add: nextTok_def line_buf_def peek_def nth_append)
  next
    case (Cons c g)
    with f have "\<not> c_isspace c" "c \<noteq> CHR 0x22" by (auto simp: plain_field_def)
    with l Cons f nextTok_plain [of l pre c "g @ CHR '','' # rest @ NUL # post"] show ?thesis
      by (cases g) (auto simp: plain_field_def)
  qed
  have "strsep_at (line_buf l) (length pre) CHR '','' =
      Inr (length pre, Some (Suc (length pre + length f)), pre @ f @ NUL # rest @ NUL # post)"
    using strsep_mid [of "CHR '',''" f pre] f l by (simp add: plain_field_def line_buf_def)
  then have "nextText l = Inr (Some f,
      l\<lparr>m_line := Some (pre @ f @ NUL # rest @ NUL # post), m_pCur := Some (Suc (length pre + length f))\<rparr>)"
    using c_str_mid [of f pre] f
    by (simp add: nextText_def tok lineStrsep_def line_buf_def plain_field_def)
  moreover have "line_at (l\<lparr>m_line := Some (pre @ f @ NUL # rest @ NUL # post),
      m_pCur := Some (Suc (length pre + length f))\<rparr>) rest"
    using nul by (intro line_atI [of _ "pre @ f @ [NUL]" _ post]) simp_all
  ultimately show ?thesis by blast
qed

lemma nextText_last:
  assumes f: "plain_field f" and at: "line_at l f"
  shows "\<exists>l'. nextText l = Inr (Some f, l') \<and> m_pCur l' = None"
proof -
  from at obtain pre post where l: "m_line l = Some (pre @ f @ NUL # post)" "m_pCur l = Some (length pre)"
    by (auto simp: line_at_def)
  have tok: "nextTok l = bnd (lineStrsep l (length pre) CHR '','') (\<lambda>(t, l1). Inr (Some t, l1))"
  proof (cases f)
    case Nil
    with l nextTok_at_end show ?thesis by simp
  next
    case (Cons c g)
    with f have "\<not> c_isspace c" "c \<noteq> CHR 0x22" by (auto simp: plain_field_def)
    with l Cons f nextTok_plain [of l pre c "g @ NUL # post"] show ?thesis
      by (cases g) (auto simp: plain_field_def)
  qed
  have "strsep_at (line_buf l) (length pre) CHR '','' = Inr (length pre, None, pre @ f @ NUL # post)"
    using strsep_last [of "CHR '',''" f pre] f l by (simp add: plain_field_def line_buf_def)
  then show ?thesis
    using c_str_mid [of f pre post] f
    by (simp add: nextText_def tok lineStrsep_def line_buf_def plain_field_def)
qed

lemma nextText_quoted:
  assumes f: "quotable f" and at: "line_at l (quoted f @ CHR '','' # rest)"
  shows "\<exists>l'. nextText l = Inr (Some f, l') \<and> line_at l' rest"
proof -
  from at obtain pre post
    where l: "m_line l = Some (pre @ CHR 0x22 # f @ CHR 0x22 # CHR '','' # rest @ NUL # post)"
      "m_pCur l = Some (length pre)" and nul: "NUL \<notin> set rest"
    by (auto simp: line_at_def quoted_def)
  let ?pre = "pre @ [CHR 0x22]"
  let ?b = "pre @ CHR 0x22 # f @ NUL # CHR '','' # rest @ NUL # post"
  have "skipWhiteSpace l = Inr l"
    using l by (simp add: skipWhiteSpace_def line_buf_def scan_here)
  then have tok: "nextTok l = bnd (lineStrsep l (length ?pre) CHR 0x22) (\<lambda>(t, l1).
      bnd (skipNextComma l1) (\<lambda>l2. Inr (Some t, l2)))"
    using l by (simp add: nextTok_def line_buf_def peek_def nth_append)
  have "strsep_at (line_buf l) (length ?pre) CHR 0x22 =
      Inr (length ?pre, Some (Suc (length ?pre + length f)), ?b)"
    using strsep_mid [of "CHR 0x22" f ?pre] f l by (simp add: quotable_def line_buf_def)
  then have sep: "lineStrsep l (length ?pre) CHR 0x22 = Inr (length ?pre,
      l\<lparr>m_line := Some ?b, m_pCur := Some (Suc (length ?pre + length f))\<rparr>)"
    by (simp add: lineStrsep_def)
  let ?p2 = "pre @ CHR 0x22 # f @ [NUL]"
  have b: "?b = ?p2 @ CHR '','' # rest @ NUL # post" by simp
  have "scan (\<lambda>c. \<not> (c \<noteq> NUL \<and> c \<noteq> CHR '','')) ?b (length ?p2) = Inr (length ?p2)"
    by (subst b, rule scan_here) simp
  moreover have "peek ?b (length ?p2) = Inr CHR '',''" by (subst b, rule peek_mid)
  ultimately have skip: "skipNextComma (l\<lparr>m_line := Some ?b, m_pCur := Some (Suc (length ?pre + length f))\<rparr>) =
      Inr (l\<lparr>m_line := Some ?b, m_pCur := Some (Suc (length ?p2))\<rparr>)"
    by (simp add: skipNextComma_def line_buf_def)
  have "c_str ?b (length ?pre) = f"
    using c_str_mid [of f ?pre "CHR '','' # rest @ NUL # post"] f by (simp add: quotable_def)
  with tok sep skip have "nextText l = Inr (Some f, l\<lparr>m_line := Some ?b, m_pCur := Some (Suc (length ?p2))\<rparr>)"
    by (simp add: nextText_def line_buf_def)
  moreover have "line_at (l\<lparr>m_line := Some ?b, m_pCur := Some (Suc (length ?p2))\<rparr>) rest"
    using nul by (intro line_atI [of _ "?p2 @ [CHR '','']" _ post]) simp_all
  ultimately show ?thesis by blast
qed

lemma nextText_quoted_last:
  assumes f: "quotable f" and at: "line_at l (quoted f)"
  shows "\<exists>l'. nextText l = Inr (Some f, l') \<and> line_at l' []"
proof -
  from at obtain pre post
    where l: "m_line l = Some (pre @ CHR 0x22 # f @ CHR 0x22 # NUL # post)"
      "m_pCur l = Some (length pre)"
    by (auto simp: line_at_def quoted_def)
  let ?pre = "pre @ [CHR 0x22]"
  let ?b = "pre @ CHR 0x22 # f @ NUL # NUL # post"
  have "skipWhiteSpace l = Inr l"
    using l by (simp add: skipWhiteSpace_def line_buf_def scan_here)
  then have tok: "nextTok l = bnd (lineStrsep l (length ?pre) CHR 0x22) (\<lambda>(t, l1).
      bnd (skipNextComma l1) (\<lambda>l2. Inr (Some t, l2)))"
    using l by (simp add: nextTok_def line_buf_def peek_def nth_append)
  let ?p2 = "pre @ CHR 0x22 # f @ [NUL]"
  have "strsep_at (line_buf l) (length ?pre) CHR 0x22 = Inr (length ?pre, Some (length ?p2), ?b)"
    using strsep_mid [of "CHR 0x22" f ?pre] f l by (simp add: quotable_def line_buf_def)
  then have sep: "lineStrsep l (length ?pre) CHR 0x22 = Inr (length ?pre,
      l\<lparr>m_line := Some ?b, m_pCur := Some (length ?p2)\<rparr>)"
    by (simp add: lineStrsep_def)
  have b: "?b = ?p2 @ NUL # post" by simp
  have "scan (\<lambda>c. \<not> (c \<noteq> NUL \<and> c \<noteq> CHR '','')) ?b (length ?p2) = Inr (length ?p2)"
    by (subst b, rule scan_here) simp
  moreover have "peek ?b (length ?p2) = Inr NUL" by (subst b, rule peek_mid)
  ultimately have skip: "skipNextComma (l\<lparr>m_line := Some ?b, m_pCur := Some (length ?p2)\<rparr>) =
      Inr (l\<lparr>m_line := Some ?b, m_pCur := Some (length ?p2)\<rparr>)"
    by (simp add: skipNextComma_def line_buf_def)
  have "c_str ?b (length ?pre) = f"
    using c_str_mid [of f ?pre "NUL # post"] f by (simp add: quotable_def)
  with tok sep skip have "nextText l = Inr (Some f, l\<lparr>m_line := Some ?b, m_pCur := Some (length ?p2)\<rparr>)"
    by (simp add: nextText_def line_buf_def)
  moreover have "line_at (l\<lparr>m_line := Some ?b, m_pCur := Some (length ?p2)\<rparr>) []"
    by (intro line_atI [of _ ?p2 _ post]) simp_all
  ultimately show ?thesis by blast
qed

lemma scan_append:
  "(\<forall>x \<in> set w. \<not> p x) \<Longrightarrow> scan p (pre @ w @ g) (length pre) = scan p ((pre @ w) @ g) (length (pre @ w))"
proof (induction w arbitrary: pre)
  case Nil
  then show ?case by simp
next
  case (Cons x w)
  then have "scan p (pre @ (x # w) @ g) (length pre) = scan p ((pre @ [x]) @ w @ g) (length (pre @ [x]))"
    by (subst scan.simps) (simp add: nth_append)
  with Cons.IH [of "pre @ [x]"] Cons.prems show ?case by simp
qed

lemma nextText_blank:
  assumes w: "blanks w" and at: "line_at l (w @ rest)"
  shows "\<exists>l'. nextText l = nextText l' \<and> line_at l' rest"
proof -
  from at obtain pre post where l: "m_line l = Some (pre @ w @ rest @ NUL # post)"
      "m_pCur l = Some (length pre)" and nul: "NUL \<notin> set rest"
    by (auto simp: line_at_def)
  let ?l = "l\<lparr>m_pCur := Some (length (pre @ w))\<rparr>"
  have "scan (\<lambda>c. \<not> (c \<noteq> NUL \<and> c_isspace c)) (pre @ w @ rest @ NUL # post) (length pre) =
        scan (\<lambda>c. \<not> (c \<noteq> NUL \<and> c_isspace c)) ((pre @ w) @ rest @ NUL # post) (length (pre @ w))"
    using w blanks_no_nul [OF w] by (intro scan_append) (auto simp: blanks_def list_all_iff)
  then have "skipWhiteSpace l = skipWhiteSpace ?l"
    using l by (simp add: skipWhiteSpace_def line_buf_def)
  then have "nextText l = nextText ?l"
    using l by (simp add: nextText_def nextTok_def)
  moreover have "line_at ?l rest"
    using l nul by (intro line_atI [of _ "pre @ w" _ post]) simp_all
  ultimately show ?thesis by blast
qed

lemma nextText_exhausted: "m_pCur l = None \<Longrightarrow> nextText l = Inr (None, l)"
  by (simp add: nextText_def nextTok_null)

interpretation at_reader: token_reader line_at "\<lambda>l. m_pCur l = None" nextText
  by unfold_locales
    (auto simp: nextText_exhausted
      intro: nextText_field nextText_last nextText_quoted nextText_quoted_last nextText_blank)

text \<open>Positioning after the prefix.\<close>

lemma skipPrefix_at:
  assumes "c \<noteq> NUL" "c \<notin> set pre" "NUL \<notin> set pre" "NUL \<notin> set s"
    and "m_line l = Some (c_buffer (pre @ c # s))"
  shows "\<exists>l'. skipPrefix c l = Inr (0, l') \<and> line_at l' s"
proof -
  have "strchr_at (c_buffer (pre @ c # s)) 0 c = Inr (Some (length pre))"
    using strchr_mid [of c pre "[]" "s @ [NUL]"] assms by (simp add: c_buffer_def)
  with assms have "skipPrefix c l = Inr (0, l\<lparr>m_pCur := Some (Suc (length pre))\<rparr>)"
    by (simp add: skipPrefix_def)
  moreover have "line_at (l\<lparr>m_pCur := Some (Suc (length pre))\<rparr>) s"
    using assms by (intro line_atI [of _ "pre @ [c]" _ "[]"]) (simp_all add: c_buffer_def)
  ultimately show ?thesis by blast
qed

text \<open>A number field: the value is the number modulo the width of \<open>int\<close>.\<close>

lemma atTokNextintBase_nextText:
  "m_pCur l = Some i \<Longrightarrow> nextText l = Inr (Some f, l') \<Longrightarrow>
   atTokNextintBase base uns l =
     (case tokNumber base uns f of None \<Rightarrow> Inr (0, -1, l') | Some v \<Rightarrow> Inr (c_int (c_long v), 0, l'))"
  by (cases "nextTok l") (auto simp: atTokNextintBase_def nextText_def)

lemma line_at_cur: "line_at l s \<Longrightarrow> \<exists>i. m_pCur l = Some i"
  by (auto simp: line_at_def)

lemma atTokNextint_field:
  assumes "- (2 ^ 63) \<le> n" "n < 2 ^ 63" "line_at l (fmt_d n @ CHR '','' # rest)"
  shows "\<exists>l'. atTokNextint l = Inr (c_int n, 0, l') \<and> line_at l' rest"
proof -
  from nextText_field [OF plain_field_fmt_d assms(3)] obtain l'
    where "nextText l = Inr (Some (fmt_d n), l')" "line_at l' rest" by blast
  with line_at_cur [OF assms(3)] atTokNextintBase_nextText show ?thesis
    using assms(1,2) by (fastforce simp: atTokNextint_def tokNumber_def c_strtol_fmt_d c_long_id)
qed


section \<open>Sequences of tokenizer calls\<close>

text \<open>The calls a handler makes on a line, values dropped.\<close>

datatype tok_op =
    OpStart | OpEqual | OpChar | OpInt | OpHexInt | OpBool | OpStr | OpLongLong | OpHasmore

definition run_op :: "tok_op \<Rightarrow> at_line \<Rightarrow> at_line res" where
  "run_op op l =
     (case op of
        OpStart \<Rightarrow> bnd (atTokStart l) (\<lambda>(_, l'). Inr l')
      | OpEqual \<Rightarrow> bnd (atTokEqual l) (\<lambda>(_, l'). Inr l')
      | OpChar \<Rightarrow> bnd (atTokChar l) (\<lambda>(_, _, l'). Inr l')
      | OpInt \<Rightarrow> bnd (atTokNextint l) (\<lambda>(_, _, l'). Inr l')
      | OpHexInt \<Rightarrow> bnd (atTokNexthexint l) (\<lambda>(_, _, l'). Inr l')
      | OpBool \<Rightarrow> bnd (atTokNextbool l) (\<lambda>(_, _, l'). Inr l')
      | OpStr \<Rightarrow> bnd (atTokNextstr l) (\<lambda>(_, _, l'). Inr l')
      | OpLongLong \<Rightarrow> bnd (atTokNextlonglong l) (\<lambda>(_, _, l'). Inr l')
      | OpHasmore \<Rightarrow> bnd (atTokHasmore l) (\<lambda>_. Inr l))"

fun run_ops :: "tok_op list \<Rightarrow> at_line \<Rightarrow> at_line res" where
  "run_ops [] l = Inr l"
| "run_ops (op # ops) l = bnd (run_op op l) (run_ops ops)"

lemma wf_line_cur:
  "wf_line l \<Longrightarrow> m_pCur l = Some i \<Longrightarrow> \<exists>b. m_line l = Some b \<and> wf_buf b \<and> i < length b"
  by (auto simp: wf_line_def split: option.splits)

lemma skipPrefix_wf:
  assumes "wf_line l" "c \<noteq> NUL"
  shows "\<exists>e l'. skipPrefix c l = Inr (e, l') \<and> wf_line l'"
proof (cases "m_line l")
  case None
  then show ?thesis by (simp add: skipPrefix_def wf_line_def)
next
  case (Some b)
  with assms have b: "wf_buf b" by (simp add: wf_line_def)
  then have "0 < length b" by (simp add: wf_buf_def)
  with b assms obtain r where "strchr_at b 0 c = Inr r" "\<forall>j. r = Some j \<longrightarrow> Suc j < length b"
    using strchr_wf [of b 0 c] by blast
  with Some b show ?thesis by (cases r) (auto simp: skipPrefix_def wf_line_def)
qed

lemma atTokChar_wf:
  assumes "wf_line l"
  shows "\<exists>v e l'. atTokChar l = Inr (v, e, l') \<and> wf_line l'"
proof (cases "m_pCur l")
  case None
  with assms show ?thesis by (auto simp: atTokChar_def)
next
  case (Some i)
  with assms obtain b where b: "m_line l = Some b" "wf_buf b" "i < length b"
    using wf_line_cur by blast
  then obtain r where "strchr_at b i CHR ''('' = Inr r" "\<forall>j. r = Some j \<longrightarrow> Suc j < length b"
    using strchr_wf [of b i "CHR ''(''"] by auto
  with Some b show ?thesis by (cases r) (auto simp: atTokChar_def wf_line_def line_buf_def)
qed

lemma nextTok_total: "wf_line l \<Longrightarrow> \<exists>t l'. nextTok l = Inr (t, l') \<and> wf_line l'"
proof (cases "m_pCur l")
  case None
  assume "wf_line l"
  with None show ?thesis by (simp add: nextTok_null)
next
  case (Some i)
  assume "wf_line l"
  with Some obtain r where "nextTok l = Inr r" "tok_done l i r" using nextTok_wf by blast
  then show ?thesis by (cases r) (auto simp: tok_done_def)
qed

lemma atTokNextintBase_total:
  "wf_line l \<Longrightarrow> \<exists>v e l'. atTokNextintBase base uns l = Inr (v, e, l') \<and> wf_line l'"
  using nextTok_total [of l] by (auto simp: atTokNextintBase_def split: option.splits)

lemma run_op_wf: "wf_line l \<Longrightarrow> \<exists>l'. run_op op l = Inr l' \<and> wf_line l'"
proof (cases op)
  case OpHasmore
  assume "wf_line l"
  with OpHasmore wf_line_cur [of l] show ?thesis
    by (fastforce simp: run_op_def atTokHasmore_def line_buf_def peek_def split: option.splits)
next
  case OpBool
  assume "wf_line l"
  with OpBool atTokNextintBase_total [of l 10 False] show ?thesis
    by (fastforce simp: run_op_def atTokNextbool_def atTokNextint_def)
next
  case OpStart
  assume "wf_line l"
  with OpStart skipPrefix_wf [of l "CHR '':''"] show ?thesis
    by (fastforce simp: run_op_def atTokStart_def)
next
  case OpEqual
  assume "wf_line l"
  with OpEqual skipPrefix_wf [of l "CHR ''=''"] show ?thesis
    by (fastforce simp: run_op_def atTokEqual_def)
next
  case OpChar
  assume "wf_line l"
  with OpChar atTokChar_wf [of l] show ?thesis by (fastforce simp: run_op_def)
next
  case OpInt
  assume "wf_line l"
  with OpInt atTokNextintBase_total [of l 10 False] show ?thesis
    by (fastforce simp: run_op_def atTokNextint_def)
next
  case OpHexInt
  assume "wf_line l"
  with OpHexInt atTokNextintBase_total [of l 16 True] show ?thesis
    by (fastforce simp: run_op_def atTokNexthexint_def)
next
  case OpStr
  assume "wf_line l"
  with OpStr nextTok_total [of l] show ?thesis
    by (fastforce simp: run_op_def atTokNextstr_def)
next
  case OpLongLong
  assume "wf_line l"
  with OpLongLong nextTok_total [of l] show ?thesis
    by (fastforce simp: run_op_def atTokNextlonglong_def atTokNextlonglongBase_def split: option.splits)
qed

lemma run_ops_wf: "wf_line l \<Longrightarrow> \<exists>l'. run_ops ops l = Inr l' \<and> wf_line l'"
proof (induction ops arbitrary: l)
  case Nil
  then show ?case by simp
next
  case (Cons op ops)
  then show ?case using run_op_wf [of l op] by fastforce
qed

lemma newAtLine_wf: "wf_line (newAtLine alloc s nx)"
  by (simp add: newAtLine_def wf_line_def wf_buf_def c_buffer_def)

section \<open>Properties\<close>

text \<open>C14. Whatever a handler calls on a line, in whatever order, no call reads or writes outside
  the line's heap block, and the line stays terminated with its cursor inside it.\<close>

theorem tokenizer_memory_safe:
  "\<exists>l'. run_ops ops (newAtLine alloc s nx) = Inr l' \<and> wf_line l'"
  by (rule run_ops_wf [OF newAtLine_wf])

text \<open>On a well-formed line with a cursor, \<open>nextTok\<close> returns a token inside the buffer and
  leaves the cursor strictly further on (or NULL), so a loop over the tokens ends.\<close>

theorem nextTok_progress:
  assumes "wf_line l" "m_pCur l = Some i"
  shows "\<exists>k l'. nextTok l = Inr (Some k, l') \<and> i \<le> k \<and> k < length (line_buf l') \<and>
           wf_line l' \<and> length (line_buf l') = length (line_buf l) \<and> remaining l' < remaining l"
proof -
  obtain r where r: "nextTok l = Inr r" "tok_done l i r" using nextTok_wf assms by blast
  obtain b where "m_line l = Some b" "i < length b" using wf_line_cur assms by blast
  then have i: "i < length (line_buf l)" by (simp add: line_buf_def)
  obtain t l' where tl: "r = (t, l')" by (cases r)
  with r(2) have d: "wf_line l'" "length (line_buf l') = length (line_buf l)"
      "\<exists>k. t = Some k \<and> i \<le> k \<and> k < length (line_buf l')" "\<forall>k. m_pCur l' = Some k \<longrightarrow> i < k"
    by (auto simp add: tok_done_def)
  then have "remaining l' < remaining l"
    using assms(2) i by (cases "m_pCur l'") (auto simp: remaining_def)
  with r(1) tl d show ?thesis by blast
qed

theorem nextTok_progress_witness:
  "\<exists>k l'. nextTok (newAtLine True ''+CREG: 1,ab'' None) = Inr (Some k, l') \<and> 0 \<le> k \<and>
     k < length (line_buf l') \<and> wf_line l' \<and>
     length (line_buf l') = length (line_buf (newAtLine True ''+CREG: 1,ab'' None)) \<and>
     remaining l' < remaining (newAtLine True ''+CREG: 1,ab'' None)"
  by (rule nextTok_progress) (rule newAtLine_wf, simp add: newAtLine_def)

text \<open>C28. A response line of comma-separated fields, plain or quoted, padded with white space,
  is read back field by field after its prefix; a quoted field may contain commas.\<close>

theorem response_fields_roundtrip:
  assumes "fs \<noteq> []" "\<forall>f \<in> set fs. wf_field f" "CHR '':'' \<notin> set pre" "NUL \<notin> set pre"
  shows "\<exists>l l'. atTokStart (newAtLine True (pre @ CHR '':'' # fields_text fs) nx) = Inr (0, l) \<and>
           read_n nextText (length fs) l = Inr (map (\<lambda>f. Some (field_value f)) fs, l')"
proof -
  obtain l where "atTokStart (newAtLine True (pre @ CHR '':'' # fields_text fs) nx) = Inr (0, l)"
      "line_at l (fields_text fs)"
    using skipPrefix_at [of "CHR '':''" pre "fields_text fs"
        "newAtLine True (pre @ CHR '':'' # fields_text fs) nx"] assms(2-) fields_text_no_nul [OF assms(2)]
    by (auto simp: atTokStart_def newAtLine_def)
  with at_reader.read_line [OF assms(1,2)] show ?thesis by blast
qed

theorem response_fields_roundtrip_witness:
  "\<exists>l l'. atTokStart (newAtLine True (''+COPS'' @ CHR '':'' #
       fields_text [Plain [CHR 0x20] ''0'', Quoted [] ''Net,work'', Plain [] ''-7'']) None) = Inr (0, l) \<and>
     read_n nextText (length [Plain [CHR 0x20] ''0'', Quoted [] ''Net,work'', Plain [] ''-7'']) l =
       Inr (map (\<lambda>f. Some (field_value f))
              [Plain [CHR 0x20] ''0'', Quoted [] ''Net,work'', Plain [] ''-7''], l')"
  by (rule response_fields_roundtrip)
    (simp_all add: blanks_def plain_field_def quotable_def c_isspace_def)

text \<open>A decimal field is returned as its value, with error code 0, and wraps modulo \<open>2^32\<close>
  when it does not fit an \<open>int\<close>; the cursor moves to the next field.\<close>

theorem atTokNextint_value:
  assumes "- (2 ^ 63) \<le> n" "n < 2 ^ 63" "CHR '':'' \<notin> set pre" "NUL \<notin> set pre" "NUL \<notin> set rest"
  shows "\<exists>l l'. atTokStart (newAtLine True (pre @ CHR '':'' # fmt_d n @ CHR '','' # rest) nx) = Inr (0, l) \<and>
           atTokNextint l = Inr (c_int n, 0, l') \<and> line_at l' rest"
proof -
  have "NUL \<notin> set (fmt_d n @ CHR '','' # rest)"
    using assms plain_field_no_nul [OF plain_field_fmt_d] by auto
  with assms obtain l where
    "atTokStart (newAtLine True (pre @ CHR '':'' # fmt_d n @ CHR '','' # rest) nx) = Inr (0, l)"
    "line_at l (fmt_d n @ CHR '','' # rest)"
    using skipPrefix_at [of "CHR '':''" pre "fmt_d n @ CHR '','' # rest"
        "newAtLine True (pre @ CHR '':'' # fmt_d n @ CHR '','' # rest) nx"]
    by (auto simp: atTokStart_def newAtLine_def)
  with atTokNextint_field [OF assms(1,2)] show ?thesis by blast
qed

theorem atTokNextint_value_witness:
  "\<exists>l l'. atTokStart (newAtLine True (''+X'' @ CHR '':'' # fmt_d 4294967297 @ CHR '','' # ''2'') None) = Inr (0, l) \<and>
     atTokNextint l = Inr (c_int 4294967297, 0, l') \<and> line_at l' ''2''"
  by (rule atTokNextint_value) simp_all

text \<open>\<open>atTokNextbool\<close> succeeds exactly on the numbers 0 and 1; on every other outcome it
  returns false with an error.\<close>

theorem atTokNextbool_iff:
  "atTokNextbool l = Inr (v, 0, l') \<longleftrightarrow>
     (\<exists>r. atTokNextint l = Inr (r, 0, l') \<and> r = (if v then 1 else 0))"
  by (cases "atTokNextint l")
    (auto simp: atTokNextbool_def atTokNextint_def atTokNextintBase_def bnd_eq_Inr
      split: if_splits option.splits)

end
