(* ===== verification/TokUtils.thy ===== *)
theory TokUtils
  imports AtLine
begin

text \<open>
  \<open>RfxTokUtils\<close> (\<open>framework/base/RfxTokUtils.cpp\<close>): the older tokenizer, a family of static
  functions on a \<open>char**\<close>. The state is the memory the pointer points into and the pointer.
  The functions differ from \<open>RfxAtLine\<close>: they start from the pointer, not from the start of
  the line, they write \<open>*p_out\<close> also when the conversion fails (\<open>None\<close> below means that
  \<open>*p_out\<close> is left alone), and their \<open>nextTok\<close> does not know the \<open>("\<dots>"\<close> form. Elsewhere
  the two agree, which is proved by a simulation, and both provide \<open>token_reader\<close>.
\<close>

record tok_cur =
  t_buf :: buffer
  p_cur :: "nat option"

section \<open>Operations\<close>

definition at_tok_skip :: "char \<Rightarrow> tok_cur \<Rightarrow> (int \<times> tok_cur) res" where
  "at_tok_skip c s =
     (case p_cur s of
        None \<Rightarrow> Inr (-1, s)
      | Some i \<Rightarrow>
          bnd (strchr_at (t_buf s) i c) (\<lambda>r.
            case r of
              None \<Rightarrow> Inr (-1, s\<lparr>p_cur := None\<rparr>)
            | Some j \<Rightarrow> Inr (0, s\<lparr>p_cur := Some (Suc j)\<rparr>)))"

definition at_tok_start :: "tok_cur \<Rightarrow> (int \<times> tok_cur) res" where
  "at_tok_start s = at_tok_skip CHR '':'' s"

definition at_tok_char :: "tok_cur \<Rightarrow> (int \<times> tok_cur) res" where
  "at_tok_char s = at_tok_skip CHR ''('' s"

definition at_tok_equal :: "tok_cur \<Rightarrow> (int \<times> tok_cur) res" where
  "at_tok_equal s = at_tok_skip CHR ''='' s"

definition skip_white_space :: "tok_cur \<Rightarrow> tok_cur res" where
  "skip_white_space s =
     (case p_cur s of
        None \<Rightarrow> Inr s
      | Some i \<Rightarrow>
          bnd (scan (\<lambda>c. \<not> (c \<noteq> NUL \<and> c_isspace c)) (t_buf s) i) (\<lambda>j. Inr (s\<lparr>p_cur := Some j\<rparr>)))"

definition skip_next_comma :: "tok_cur \<Rightarrow> tok_cur res" where
  "skip_next_comma s =
     (case p_cur s of
        None \<Rightarrow> Inr s
      | Some i \<Rightarrow>
          bnd (scan (\<lambda>c. \<not> (c \<noteq> NUL \<and> c \<noteq> CHR '','')) (t_buf s) i) (\<lambda>j.
          bnd (peek (t_buf s) j) (\<lambda>c.
            Inr (s\<lparr>p_cur := Some (if c = CHR '','' then Suc j else j)\<rparr>))))"

definition cur_strsep :: "tok_cur \<Rightarrow> nat \<Rightarrow> char \<Rightarrow> (nat \<times> tok_cur) res" where
  "cur_strsep s i d =
     bnd (strsep_at (t_buf s) i d) (\<lambda>(t, p, b). Inr (t, s\<lparr>t_buf := b, p_cur := p\<rparr>))"

definition next_tok :: "tok_cur \<Rightarrow> (nat option \<times> tok_cur) res" where
  "next_tok s0 =
     bnd (skip_white_space s0) (\<lambda>s.
     case p_cur s of
       None \<Rightarrow> Inr (None, s)
     | Some i \<Rightarrow>
         bnd (peek (t_buf s) i) (\<lambda>c.
         if c = CHR 0x22 then
           bnd (cur_strsep s (Suc i) CHR 0x22) (\<lambda>(t, s1).
           bnd (skip_next_comma s1) (\<lambda>s2. Inr (Some t, s2)))
         else bnd (cur_strsep s i CHR '','') (\<lambda>(t, s1). Inr (Some t, s1))))"

text \<open>Result: what is stored through \<open>p_out\<close>, the return code, the new state.\<close>

definition at_tok_nextint_base :: "int \<Rightarrow> bool \<Rightarrow> tok_cur \<Rightarrow> (int option \<times> int \<times> tok_cur) res" where
  "at_tok_nextint_base base uns s =
     (if p_cur s = None then Inr (None, -1, s)
      else bnd (next_tok s) (\<lambda>(t, s1).
        case t of
          None \<Rightarrow> Inr (None, -1, s1)
        | Some i \<Rightarrow>
            (case tokNumber base uns (c_str (t_buf s1) i) of
               None \<Rightarrow> Inr (Some 0, -1, s1)
             | Some v \<Rightarrow> Inr (Some (c_int (c_long v)), 0, s1))))"

definition at_tok_nextint :: "tok_cur \<Rightarrow> (int option \<times> int \<times> tok_cur) res" where
  "at_tok_nextint s = at_tok_nextint_base 10 False s"

definition at_tok_nexthexint :: "tok_cur \<Rightarrow> (int option \<times> int \<times> tok_cur) res" where
  "at_tok_nexthexint s = at_tok_nextint_base 16 True s"

text \<open>\<open>result\<close> is only read when \<open>at_tok_nextint\<close> succeeds, which stores it.\<close>

definition at_tok_nextbool :: "tok_cur \<Rightarrow> (int option \<times> int \<times> tok_cur) res" where
  "at_tok_nextbool s =
     bnd (at_tok_nextint s) (\<lambda>(r, ret, s1).
       if ret < 0 then Inr (None, -1, s1)
       else if \<not> (r = Some 0 \<or> r = Some 1) then Inr (None, -1, s1)
       else Inr (r, ret, s1))"

definition at_tok_nextstr :: "tok_cur \<Rightarrow> (nat option \<times> int \<times> tok_cur) res" where
  "at_tok_nextstr s =
     (if p_cur s = None then Inr (None, -1, s)
      else bnd (next_tok s) (\<lambda>(t, s1). Inr (t, 0, s1)))"

definition at_tok_hasmore :: "tok_cur \<Rightarrow> bool res" where
  "at_tok_hasmore s =
     (case p_cur s of
        None \<Rightarrow> Inr False
      | Some i \<Rightarrow> bnd (peek (t_buf s) i) (\<lambda>c. Inr (c \<noteq> NUL)))"

definition at_tok_nextlonglong_base :: "int \<Rightarrow> bool \<Rightarrow> tok_cur \<Rightarrow> (int option \<times> int \<times> tok_cur) res" where
  "at_tok_nextlonglong_base base uns s =
     (if p_cur s = None then Inr (None, -1, s)
      else bnd (next_tok s) (\<lambda>(t, s1).
        case t of
          None \<Rightarrow> Inr (None, -1, s1)
        | Some i \<Rightarrow>
            (case tokNumber base uns (c_str (t_buf s1) i) of
               None \<Rightarrow> Inr (Some 0, -1, s1)
             | Some v \<Rightarrow> Inr (Some (c_long v), 0, s1))))"

definition at_tok_nextlonglong :: "tok_cur \<Rightarrow> (int option \<times> int \<times> tok_cur) res" where
  "at_tok_nextlonglong s = at_tok_nextlonglong_base 10 False s"

section \<open>Simulation by the line tokenizer\<close>

definition cur_of :: "at_line \<Rightarrow> tok_cur" where
  "cur_of l = \<lparr>t_buf = line_buf l, p_cur = m_pCur l\<rparr>"

definition line_of :: "tok_cur \<Rightarrow> at_line" where
  "line_of s = \<lparr>m_line = Some (t_buf s), m_pNext = None, m_pCur = p_cur s\<rparr>"

abbreviation mapr :: "('a \<Rightarrow> 'b) \<Rightarrow> 'a res \<Rightarrow> 'b res" where
  "mapr f r \<equiv> bnd r (\<lambda>x. Inr (f x))"

text \<open>The cursor stands, after white space, on the two characters only \<open>RfxAtLine\<close> treats.\<close>

definition at_bracket_quote :: "at_line \<Rightarrow> bool" where
  "at_bracket_quote l =
     (case skipWhiteSpace l of
        Inr l' \<Rightarrow> (case m_pCur l' of None \<Rightarrow> False
                   | Some i \<Rightarrow> peek (line_buf l') i = Inr CHR ''('' \<and>
                               peek (line_buf l') (Suc i) = Inr CHR 0x22)
      | Inl _ \<Rightarrow> False)"

lemma cur_of_line_of [simp]: "cur_of (line_of s) = s"
  by (simp add: cur_of_def line_of_def line_buf_def)

lemma cur_of_sel [simp]: "p_cur (cur_of l) = m_pCur l" "t_buf (cur_of l) = line_buf l"
  by (simp_all add: cur_of_def)

lemma line_buf_upd [simp]:
  "line_buf (l\<lparr>m_pCur := p\<rparr>) = line_buf l" "line_buf (l\<lparr>m_line := Some b\<rparr>) = b"
  by (simp_all add: line_buf_def)

lemma cur_of_upd [simp]:
  "cur_of (l\<lparr>m_pCur := p\<rparr>) = (cur_of l)\<lparr>p_cur := p\<rparr>"
  "cur_of (l\<lparr>m_line := Some b, m_pCur := p\<rparr>) = (cur_of l)\<lparr>t_buf := b, p_cur := p\<rparr>"
  by (simp_all add: cur_of_def line_buf_def)

lemma skip_white_space_sim: "skip_white_space (cur_of l) = mapr cur_of (skipWhiteSpace l)"
  by (auto simp: skip_white_space_def skipWhiteSpace_def bnd_assoc split: option.splits)

lemma skip_next_comma_sim: "skip_next_comma (cur_of l) = mapr cur_of (skipNextComma l)"
  by (auto simp: skip_next_comma_def skipNextComma_def bnd_assoc split: option.splits)

lemma cur_strsep_sim: "cur_strsep (cur_of l) i d = mapr (map_prod id cur_of) (lineStrsep l i d)"
  by (cases "strsep_at (line_buf l) i d") (auto simp: cur_strsep_def lineStrsep_def)

lemma quoted_sim:
  "bnd (cur_strsep (cur_of l) i d) (\<lambda>(t, s1). bnd (skip_next_comma s1) (\<lambda>s2. Inr (Some t, s2))) =
   mapr (map_prod id cur_of)
     (bnd (lineStrsep l i d) (\<lambda>(t, l1). bnd (skipNextComma l1) (\<lambda>l2. Inr (Some t, l2))))"
  by (cases "lineStrsep l i d") (auto simp: cur_strsep_sim skip_next_comma_sim bnd_assoc)

lemma comma_sim:
  "bnd (cur_strsep (cur_of l) i d) (\<lambda>(t, s1). Inr (Some t, s1)) =
   mapr (map_prod id cur_of) (bnd (lineStrsep l i d) (\<lambda>(t, l1). Inr (Some t, l1)))"
  by (cases "lineStrsep l i d") (auto simp: cur_strsep_sim)

text \<open>The two tokenizers agree on a terminated line except on the bracket-quote form.\<close>

lemma next_tok_sim:
  assumes wf: "wf_line l" and nb: "\<not> at_bracket_quote l"
  shows "next_tok (cur_of l) = mapr (map_prod id cur_of) (nextTok l)"
proof (cases "m_pCur l")
  case None
  then show ?thesis by (simp add: next_tok_def nextTok_null skip_white_space_def cur_of_def)
next
  case (Some i)
  then obtain b where b: "m_line l = Some b" "wf_buf b" "i < length b" using wf_line_cur wf by blast
  with Some obtain j where ws: "skipWhiteSpace l = Inr (l\<lparr>m_pCur := Some j\<rparr>)" and j: "j < length b"
    using skipWhiteSpace_wf by blast
  let ?l = "l\<lparr>m_pCur := Some j\<rparr>"
  have lb: "line_buf l = b" using b by (simp add: line_buf_def)
  have bq: "peek b (Suc j) \<noteq> Inr CHR 0x22 \<and> (\<exists>c. peek b (Suc j) = Inr c)" if "b ! j = CHR ''(''"
    using nb ws lb j that wf_buf_Suc [OF b(2) j] by (auto simp: at_bracket_quote_def peek_def)
  have ws': "skip_white_space (cur_of l) = Inr (cur_of ?l)"
    by (simp only: skip_white_space_sim ws bnd.simps)
  consider (q) "b ! j = CHR 0x22" | (bq) "b ! j = CHR ''(''"
    | (c) "b ! j \<noteq> CHR 0x22" "b ! j \<noteq> CHR ''(''" by blast
  then show ?thesis
  proof cases
    case q
    then show ?thesis using quoted_sim [of ?l "Suc j" "CHR 0x22"]
      by (simp add: next_tok_def nextTok_def ws ws' peek_def lb j del: cur_of_upd)
  next
    case bq': bq
    with bq obtain c where "peek b (Suc j) = Inr c" "c \<noteq> CHR 0x22" by auto
    with bq' show ?thesis using comma_sim [of ?l j "CHR '',''"]
      by (simp add: next_tok_def nextTok_def ws ws' lb j peek_def [of b j] del: cur_of_upd)
  next
    case c
    then show ?thesis using comma_sim [of ?l j "CHR '',''"]
      by (simp add: next_tok_def nextTok_def ws ws' peek_def lb j del: cur_of_upd)
  qed
qed

lemma nextText_wf: "wf_line l \<Longrightarrow> nextText l = Inr (t, l') \<Longrightarrow> wf_line l'"
  using nextTok_total [of l] by (auto simp: nextText_def)

lemma bracket_quote_head:
  assumes "line_at l s" "s = [] \<or> \<not> c_isspace (hd s)" "\<forall>r. s \<noteq> CHR ''('' # CHR 0x22 # r"
  shows "\<not> at_bracket_quote l"
proof -
  from assms(1) obtain pre post where l: "m_line l = Some (pre @ s @ NUL # post)"
      "m_pCur l = Some (length pre)" by (auto simp: line_at_def)
  obtain c g where cg: "s @ NUL # post = c # g" "\<not> c_isspace c" "c = CHR ''('' \<longrightarrow> hd g \<noteq> CHR 0x22" "c = CHR ''('' \<longrightarrow> g \<noteq> []"
    using assms(2,3) by (cases s; cases "tl s") auto
  then have "skipWhiteSpace l = Inr l"
    using l by (simp add: skipWhiteSpace_def line_buf_def scan_here)
  with l cg show ?thesis
    by (cases g) (auto simp: at_bracket_quote_def line_buf_def peek_def nth_append)
qed

definition next_text :: "tok_cur \<Rightarrow> (string option \<times> tok_cur) res" where
  "next_text s = bnd (next_tok s) (\<lambda>(t, s'). Inr (map_option (c_str (t_buf s')) t, s'))"

definition cur_at :: "tok_cur \<Rightarrow> string \<Rightarrow> bool" where
  "cur_at s tx \<longleftrightarrow> line_at (line_of s) tx \<and> wf_line (line_of s)"

lemma next_text_sim:
  assumes "wf_line l" "\<not> at_bracket_quote l"
  shows "next_text (cur_of l) = mapr (map_prod id cur_of) (nextText l)"
  using next_tok_sim [OF assms]
  by (cases "nextTok l") (auto simp: next_text_def nextText_def)

lemma line_at_back: "line_at l s \<Longrightarrow> wf_line l \<Longrightarrow> cur_at (cur_of l) s"
  by (fastforce simp: cur_at_def line_of_def line_at_def line_buf_def wf_line_def)

lemma next_text_transfer:
  assumes at: "cur_at s tx" and hd: "tx = [] \<or> \<not> c_isspace (hd tx)"
    and nb: "\<forall>r. tx \<noteq> CHR ''('' # CHR 0x22 # r" and "nextText (line_of s) = Inr (t, l')"
  shows "next_text s = Inr (t, cur_of l') \<and> wf_line l'"
  using next_text_sim [of "line_of s"] assms bracket_quote_head [of "line_of s" tx]
    nextText_wf [of "line_of s" t l']
  by (simp add: cur_at_def)

lemma plain_head:
  assumes "plain_field f"
  shows "f @ CHR '','' # r = [] \<or> \<not> c_isspace (hd (f @ CHR '','' # r))"
    and "\<forall>q. f @ CHR '','' # r \<noteq> CHR ''('' # CHR 0x22 # q"
    and "f = [] \<or> \<not> c_isspace (hd f)" and "\<forall>q. f \<noteq> CHR ''('' # CHR 0x22 # q"
  using assms by (cases f; cases "tl f"; auto simp: plain_field_def)+

lemma quoted_head:
  "\<not> c_isspace (hd (quoted f @ r))" "\<forall>q. quoted f @ r \<noteq> CHR ''('' # CHR 0x22 # q" "quoted f @ r \<noteq> []"
  by (simp_all add: quoted_def)

lemma next_text_blank:
  assumes w: "blanks w" and at: "cur_at s (w @ rest)"
  shows "\<exists>s'. next_text s = next_text s' \<and> cur_at s' rest"
proof -
  from at obtain pre post where l: "t_buf s = pre @ w @ rest @ NUL # post"
      "p_cur s = Some (length pre)" and nul: "NUL \<notin> set rest" and wf: "wf_buf (t_buf s)"
    by (auto simp: line_at_def cur_at_def line_of_def wf_line_def)
  let ?s = "s\<lparr>p_cur := Some (length (pre @ w))\<rparr>"
  have "scan (\<lambda>c. \<not> (c \<noteq> NUL \<and> c_isspace c)) (pre @ w @ rest @ NUL # post) (length pre) =
        scan (\<lambda>c. \<not> (c \<noteq> NUL \<and> c_isspace c)) ((pre @ w) @ rest @ NUL # post) (length (pre @ w))"
    using w blanks_no_nul [OF w] by (intro scan_append) (auto simp: blanks_def list_all_iff)
  then have "skip_white_space s = skip_white_space ?s"
    using l by (simp add: skip_white_space_def)
  then have "next_text s = next_text ?s"
    using l by (simp add: next_text_def next_tok_def)
  moreover have "line_at (line_of ?s) rest"
    using l nul by (intro line_atI [of _ "pre @ w" _ post]) (simp_all add: line_of_def)
  then have "cur_at ?s rest"
    using l wf by (simp add: cur_at_def wf_line_def line_of_def)
  ultimately show ?thesis by blast
qed

lemma next_text_field:
  assumes "plain_field f" "cur_at s (f @ CHR '','' # rest)"
  shows "\<exists>s'. next_text s = Inr (Some f, s') \<and> cur_at s' rest"
proof -
  obtain l' where "nextText (line_of s) = Inr (Some f, l')" "line_at l' rest"
    using nextText_field [OF assms(1), of "line_of s"] assms(2) by (auto simp: cur_at_def)
  with next_text_transfer [OF assms(2) plain_head(1) [OF assms(1)] plain_head(2) [OF assms(1)]] line_at_back
  show ?thesis by blast
qed

lemma next_text_last:
  assumes "plain_field f" "cur_at s f"
  shows "\<exists>s'. next_text s = Inr (Some f, s') \<and> p_cur s' = None"
proof -
  obtain l' where "nextText (line_of s) = Inr (Some f, l')" "m_pCur l' = None"
    using nextText_last [OF assms(1), of "line_of s"] assms(2) by (auto simp: cur_at_def)
  with next_text_transfer [OF assms(2) plain_head(3) [OF assms(1)] plain_head(4) [OF assms(1)]]
  show ?thesis by auto
qed

lemma next_text_quoted:
  assumes "quotable f" "cur_at s (quoted f @ CHR '','' # rest)"
  shows "\<exists>s'. next_text s = Inr (Some f, s') \<and> cur_at s' rest"
proof -
  obtain l' where "nextText (line_of s) = Inr (Some f, l')" "line_at l' rest"
    using nextText_quoted [OF assms(1), of "line_of s"] assms(2) by (auto simp: cur_at_def)
  with next_text_transfer [OF assms(2) disjI2 [OF quoted_head(1)] quoted_head(2)] line_at_back
  show ?thesis by blast
qed

lemma next_text_quoted_last:
  assumes "quotable f" "cur_at s (quoted f)"
  shows "\<exists>s'. next_text s = Inr (Some f, s') \<and> cur_at s' []"
proof -
  obtain l' where "nextText (line_of s) = Inr (Some f, l')" "line_at l' []"
    using nextText_quoted_last [OF assms(1), of "line_of s"] assms(2) by (auto simp: cur_at_def)
  with next_text_transfer [OF assms(2)] quoted_head [of f "[]"] line_at_back
  show ?thesis by fastforce
qed

lemma next_text_exhausted: "p_cur s = None \<Longrightarrow> next_text s = Inr (None, s)"
  by (simp add: next_text_def next_tok_def skip_white_space_def)

interpretation utils_reader: token_reader cur_at "\<lambda>s. p_cur s = None" next_text
  by unfold_locales
    (auto simp: next_text_exhausted
      intro: next_text_field next_text_last next_text_quoted next_text_quoted_last next_text_blank)

section \<open>Properties\<close>

text \<open>The two tokenizers are the same reader: on a terminated line, and unless the cursor
  stands on an opening bracket followed by a quote, \<open>RfxTokUtils::at_tok_nextint\<close> returns the
  value, the error code and the cursor of \<open>RfxAtLine::atTokNextint\<close>, and leaves the same bytes.\<close>

theorem nextint_agrees:
  assumes "wf_line l" "\<not> at_bracket_quote l" "atTokNextintBase base uns l = Inr (v, e, l')"
  shows "\<exists>p. at_tok_nextint_base base uns (cur_of l) = Inr (p, e, cur_of l') \<and> (e = 0 \<longrightarrow> p = Some v)"
proof (cases "m_pCur l")
  case None
  with assms(3) show ?thesis by (simp add: atTokNextintBase_def at_tok_nextint_base_def)
next
  case (Some i)
  obtain t l1 where t: "nextTok l = Inr (t, l1)" using nextTok_total [OF assms(1)] by blast
  have u: "next_tok (cur_of l) = Inr (t, cur_of l1)" using next_tok_sim [OF assms(1,2)] t by simp
  show ?thesis
    using assms(3) Some t u
    by (cases t) (auto simp: atTokNextintBase_def at_tok_nextint_base_def split: option.splits)
qed

theorem nextint_agrees_witness:
  "\<exists>p. at_tok_nextint_base 10 False (cur_of (newAtLine True ''42,7'' None)) =
         Inr (p, 0, cur_of (newAtLine True ''42,7'' None\<lparr>m_line := Some [CHR ''4'', CHR ''2'', NUL, CHR ''7'', NUL],
                                          m_pCur := Some 3\<rparr>)) \<and>
       ((0::int) = 0 \<longrightarrow> p = Some 42)"
proof (rule nextint_agrees)
  show "wf_line (newAtLine True ''42,7'' None)" by (rule newAtLine_wf)
  show "\<not> at_bracket_quote (newAtLine True ''42,7'' None)" by code_simp
  show "atTokNextintBase 10 False (newAtLine True ''42,7'' None) =
    Inr (42, 0, newAtLine True ''42,7'' None\<lparr>m_line := Some [CHR ''4'', CHR ''2'', NUL, CHR ''7'', NUL], m_pCur := Some 3\<rparr>)"
    by code_simp
qed

text \<open>A response line of plain and quoted fields, padded with white space, is read back field
  by field by \<open>RfxTokUtils\<close> as well.\<close>

theorem utils_fields_roundtrip:
  assumes "fs \<noteq> []" "\<forall>f \<in> set fs. wf_field f" "CHR '':'' \<notin> set pre" "NUL \<notin> set pre"
  shows "\<exists>s s'. at_tok_start \<lparr>t_buf = c_buffer (pre @ CHR '':'' # fields_text fs), p_cur = Some 0\<rparr> = Inr (0, s) \<and>
           read_n next_text (length fs) s = Inr (map (\<lambda>f. Some (field_value f)) fs, s')"
proof -
  let ?b = "c_buffer (pre @ CHR '':'' # fields_text fs)"
  have "strchr_at ?b 0 CHR '':'' = Inr (Some (length pre))"
    using strchr_mid [of "CHR '':''" pre "[]" "fields_text fs @ [NUL]"] assms by (simp add: c_buffer_def)
  then have "at_tok_start \<lparr>t_buf = ?b, p_cur = Some 0\<rparr> = Inr (0, \<lparr>t_buf = ?b, p_cur = Some (Suc (length pre))\<rparr>)"
    by (simp add: at_tok_start_def at_tok_skip_def)
  moreover have "line_at (line_of \<lparr>t_buf = ?b, p_cur = Some (Suc (length pre))\<rparr>) (fields_text fs)"
    using fields_text_no_nul [OF assms(2)]
    by (intro line_atI [of _ "pre @ [CHR '':'']" _ "[]"]) (simp_all add: line_of_def c_buffer_def)
  then have "cur_at \<lparr>t_buf = ?b, p_cur = Some (Suc (length pre))\<rparr> (fields_text fs)"
    by (simp add: cur_at_def line_of_def wf_line_def wf_buf_def c_buffer_def)
  ultimately show ?thesis using utils_reader.read_line [OF assms(1,2)] by blast
qed

theorem utils_fields_roundtrip_witness:
  "\<exists>s s'. at_tok_start \<lparr>t_buf = c_buffer (''+CSQ'' @ CHR '':'' # fields_text [Quoted [CHR 0x20] ''a,b'', Plain [] ''5'']),
                     p_cur = Some 0\<rparr> = Inr (0, s) \<and>
     read_n next_text (length [Quoted [CHR 0x20] ''a,b'', Plain [] ''5'']) s =
       Inr (map (\<lambda>f. Some (field_value f)) [Quoted [CHR 0x20] ''a,b'', Plain [] ''5''], s')"
  by (rule utils_fields_roundtrip)
    (simp_all add: blanks_def plain_field_def quotable_def c_isspace_def)

end
