(* ===== verification/SmsUtils.thy ===== *)
theory SmsUtils
  imports CStrings
begin

text \<open>
  \<open>PhoneNumberUtils\<close> (\<open>telcore/sms/parser/SmsParserUtils.cpp\<close>): hexadecimal text to octets,
  and the inlined UTF-8 decoder \<open>stringFromBytes\<close>, whose output array \<open>v\<close> has as many
  characters as the input has octets. Every write to \<open>v\<close> is checked against that size.
\<close>

section \<open>Operations\<close>

definition REPLACEMENT_CHAR :: char where
  "REPLACEMENT_CHAR = char_of (0xfffd :: int)"

definition numToString :: "int \<Rightarrow> string" where
  "numToString number = fmt_d (c_int number)"

definition hexCharToInt :: "char \<Rightarrow> int" where
  "hexCharToInt c =
     (let n = (of_char c :: int) in
      if 48 \<le> n \<and> n \<le> 57 then n - 48
      else if 65 \<le> n \<and> n \<le> 70 then n - 65 + 10
      else if 97 \<le> n \<and> n \<le> 102 then n - 97 + 10
      else 0)"

text \<open>The loop of \<open>hexStringToBytes\<close>, two characters a round; \<open>s.at\<close> throws past the end.\<close>

fun hexPairs :: "string \<Rightarrow> byte list res" where
  "hexPairs [] = Inr []"
| "hexPairs [c] = Inl OutOfRange"
| "hexPairs (c # d # s) =
     bnd (hexPairs s) (\<lambda>r. Inr (word_of_int ((push_bit 4 (hexCharToInt c)) OR hexCharToInt d) # r))"

definition hexStringToBytes :: "string \<Rightarrow> byte list option res" where
  "hexStringToBytes s = (if s = [] then Inr None else bnd (hexPairs s) (\<lambda>bs. Inr (Some bs)))"

text \<open>\<open>v[s++] = c\<close> for the array of \<open>cap\<close> characters; \<open>v\<close> is kept up to \<open>s\<close>.\<close>

definition putv :: "int \<Rightarrow> string \<Rightarrow> char \<Rightarrow> string res" where
  "putv cap v c = (if int (length v) < cap then Inr (v @ [c]) else Inl OutOfBounds)"

definition utfCount :: "int \<Rightarrow> int" where
  "utfCount b0 =
     (if b0 AND 0xf0 = 0xe0 then 2
      else if b0 AND 0xf8 = 0xf0 then 3
      else if b0 AND 0xfc = 0xf8 then 4
      else if b0 AND 0xfe = 0xfc then 5
      else 1)"

definition isUtfLead :: "int \<Rightarrow> bool" where
  "isUtfLead b0 \<longleftrightarrow>
     b0 AND 0xe0 = 0xc0 \<or> b0 AND 0xf0 = 0xe0 \<or> b0 AND 0xf8 = 0xf0 \<or>
     b0 AND 0xfc = 0xf8 \<or> b0 AND 0xfe = 0xfc"

text \<open>The continuation octets: \<open>None\<close> when one of them is not \<open>10xxxxxx\<close> (it is put back).\<close>

fun utfTail :: "byte list \<Rightarrow> nat \<Rightarrow> int \<Rightarrow> int \<Rightarrow> (int option \<times> int) res" where
  "utfTail d 0 idx val = Inr (Some val, idx)"
| "utfTail d (Suc n) idx val =
     bnd (rdi d idx) (\<lambda>b.
       if b AND 0xc0 \<noteq> 0x80 then Inr (None, idx)
       else utfTail d n (idx + 1) (push_bit 6 val OR (b AND 0x3f)))"

definition putChars :: "int \<Rightarrow> string \<Rightarrow> int \<Rightarrow> int \<Rightarrow> string res" where
  "putChars cap v count val =
     (if count \<noteq> 2 \<and> 0xD800 \<le> val \<and> val \<le> 0xDFFF then putv cap v REPLACEMENT_CHAR
      else if val > 0x10FFFF then putv cap v REPLACEMENT_CHAR
      else if val < 0x10000 then putv cap v (char_of val)
      else
        (let x = val AND 0xffff; u = drop_bit 16 val AND 0x1f; w = (u - 1) AND 0xffff;
             hi = 0xd800 OR push_bit 6 w OR drop_bit 10 x; lo = 0xdc00 OR (x AND 0x3ff)
         in bnd (putv cap v (char_of hi)) (\<lambda>v1. putv cap v1 (char_of lo))))"

text \<open>One round of the \<open>outer\<close> loop.\<close>

definition utfStep :: "byte list \<Rightarrow> int \<Rightarrow> int \<Rightarrow> int \<Rightarrow> string \<Rightarrow> (int \<times> string) res" where
  "utfStep d lim cap idx v =
     bnd (rdi d idx) (\<lambda>b0.
       if b0 AND 0x80 = 0 then bnd (putv cap v (char_of b0)) (\<lambda>v1. Inr (idx + 1, v1))
       else if isUtfLead b0 then
         (if idx + 1 + utfCount b0 > lim then
            bnd (putv cap v REPLACEMENT_CHAR) (\<lambda>v1. Inr (idx + 1, v1))
          else
            bnd (utfTail d (nat (utfCount b0)) (idx + 1)
                   (b0 AND drop_bit (nat (utfCount b0 - 1)) 0x1f)) (\<lambda>(val, idx').
              case val of
                None \<Rightarrow> bnd (putv cap v REPLACEMENT_CHAR) (\<lambda>v1. Inr (idx', v1))
              | Some x \<Rightarrow> bnd (putChars cap v (utfCount b0) x) (\<lambda>v1. Inr (idx', v1))))
       else bnd (putv cap v REPLACEMENT_CHAR) (\<lambda>v1. Inr (idx + 1, v1)))"

lemma utfTail_idx: "utfTail d n idx val = Inr (r, idx') \<Longrightarrow> idx \<le> idx' \<and> idx' \<le> idx + int n"
  by (induction d n idx val rule: utfTail.induct) (auto simp: bnd_eq_Inr split: if_splits)

lemma utfStep_progress: "utfStep d lim cap idx v = Inr (idx', v') \<Longrightarrow> idx < idx'"
  by (auto simp: utfStep_def bnd_eq_Inr dest!: utfTail_idx split: if_splits option.splits)

function utfLoop :: "byte list \<Rightarrow> int \<Rightarrow> int \<Rightarrow> int \<Rightarrow> string \<Rightarrow> string res" where
  "utfLoop d lim cap idx v =
     (if idx < lim then
        bnd (utfStep d lim cap idx v) (\<lambda>(idx', v'). utfLoop d lim cap idx' v')
      else Inr v)"
  by pat_completeness auto
termination
  by (relation "measure (\<lambda>(d, lim, cap, idx, v). nat (lim - idx))")
    (auto dest: utfStep_progress)

declare utfLoop.simps [simp del]

definition stringFromBytes :: "byte list \<Rightarrow> int \<Rightarrow> int \<Rightarrow> string res" where
  "stringFromBytes data offset byteCount =
     bnd (chk (0 \<le> byteCount) BadAlloc) (\<lambda>_.
       utfLoop data (offset + byteCount) byteCount offset [])"

section \<open>Hexadecimal text\<close>

lemma hexCharToInt_digit: "d < 16 \<Longrightarrow> hexCharToInt (digit_char d) = int d"
  by (simp add: hexCharToInt_def Let_def)

lemma or_low_bits: "0 \<le> lo \<Longrightarrow> lo < 2 ^ n \<Longrightarrow> push_bit n hi OR lo = hi * 2 ^ n + (lo :: int)"
  using concat_bit_eq [of n lo hi]
  by (simp add: concat_bit_def take_bit_int_eq_self or.commute push_bit_eq_mult)

lemma hexPairs_hex2: "hexPairs (concat (map hex2 bs)) = Inr bs"
proof (induction bs)
  case Nil
  then show ?case by simp
next
  case (Cons b bs)
  have "unat b < 256" using uint_byte_lt [of b] unfolding unat_eq_nat_uint by linarith
  then have "unat b div 16 < 16" "unat b mod 16 < 16" by auto
  then have "push_bit 4 (hexCharToInt (digit_char (unat b div 16))) OR
      hexCharToInt (digit_char (unat b mod 16)) = int (unat b div 16) * 2 ^ 4 + int (unat b mod 16)"
    by (simp add: hexCharToInt_digit or_low_bits)
  also have "\<dots> = int (unat b)"
    by (simp add: zdiv_int zmod_int)
  finally show ?case using Cons by (simp add: hex2_def)
qed

lemma hexPairs_even: "even (length s) \<Longrightarrow> \<exists>bs. hexPairs s = Inr bs \<and> 2 * length bs = length s"
  by (induction s rule: hexPairs.induct) auto

lemma hexPairs_odd: "odd (length s) \<Longrightarrow> hexPairs s = Inl OutOfRange"
  by (induction s rule: hexPairs.induct) auto

section \<open>The decoder stays inside its arrays\<close>

lemma putv_ok: "int (length v) < cap \<Longrightarrow> putv cap v c = Inr (v @ [c])"
  by (simp add: putv_def)

lemma utfCount_range: "1 \<le> utfCount b \<and> utfCount b \<le> 5"
  by (simp add: utfCount_def)

lemma utfTail_total:
  "0 \<le> idx \<Longrightarrow> idx + int n \<le> int (length d) \<Longrightarrow> \<exists>r idx'. utfTail d n idx val = Inr (r, idx')"
  by (induction d n idx val rule: utfTail.induct) (auto simp: rdi_ok)

lemma and_low_bound: "0 \<le> m \<Longrightarrow> x AND m \<le> (m :: int)" "0 \<le> m \<Longrightarrow> 0 \<le> x AND (m :: int)"
  by (simp_all add: AND_upper2)

lemma utfTail_bound:
  "utfTail d n idx val = Inr (Some x, idx') \<Longrightarrow> 0 \<le> val \<Longrightarrow> val < 2 ^ k \<Longrightarrow>
   0 \<le> x \<and> x < 2 ^ (k + 6 * n) \<and> idx' = idx + int n"
proof (induction d n idx val arbitrary: k rule: utfTail.induct)
  case (1 d idx val)
  then show ?case by simp
next
  case (2 d n idx val)
  then obtain b where b: "rdi d idx = Inr b" "b AND 0xc0 = 0x80"
      "utfTail d n (idx + 1) (push_bit 6 val OR (b AND 0x3f)) = Inr (Some x, idx')"
    by (auto simp: bnd_eq_Inr split: if_splits)
  have lo: "0 \<le> b AND 0x3f" "b AND 0x3f < 2 ^ 6"
    using and_low_bound [where m = "0x3f" and x = "b"] by simp_all
  have "push_bit 6 val OR (b AND 0x3f) = val * 2 ^ 6 + (b AND 0x3f)"
    by (rule or_low_bits [OF lo])
  moreover have "val * 2 ^ 6 + (b AND 0x3f) < 2 ^ (k + 6)"
  proof -
    from "2.prems"(3) have "val + 1 \<le> 2 ^ k" by simp
    then have "(val + 1) * 2 ^ 6 \<le> 2 ^ k * 2 ^ 6" by (intro mult_right_mono) simp_all
    moreover have "(val + 1) * 2 ^ 6 = val * 2 ^ 6 + 2 ^ 6" by (rule distrib_right [of val 1, simplified mult_1])
    ultimately show ?thesis using lo(2) unfolding power_add by linarith
  qed
  moreover have "0 \<le> push_bit 6 val OR (b AND 0x3f)"
    using lo "2.prems"(2) by simp
  ultimately have "0 \<le> x \<and> x < 2 ^ ((k + 6) + 6 * n) \<and> idx' = (idx + 1) + int n"
    using "2.IH" [OF b(1) _ b(3), where k = "k + 6"] b(2) by simp
  then show ?case by (simp add: algebra_simps)
qed

lemma utfTail_full: "utfTail d n idx val = Inr (Some x, idx') \<Longrightarrow> idx' = idx + int n"
  by (induction d n idx val rule: utfTail.induct) (auto simp: bnd_eq_Inr split: if_splits)

text \<open>Two characters are stored only for a sequence of at least three octets.\<close>

lemma putChars_ok:
  assumes "int (length v) + (if val < 0x10000 then 1 else 2) \<le> cap"
  shows "\<exists>v'. putChars cap v n val = Inr v' \<and>
           int (length v') \<le> int (length v) + (if val < 0x10000 then 1 else 2)"
  using assms by (auto simp: putChars_def putv_def Let_def)

lemma utfStep_ok:
  assumes "0 \<le> idx" "idx < lim" "lim \<le> int (length d)" "int (length v) \<le> cap - (lim - idx)"
  shows "\<exists>idx' v'. utfStep d lim cap idx v = Inr (idx', v') \<and> idx < idx' \<and> idx' \<le> lim \<and>
           int (length v') \<le> cap - (lim - idx')"
proof -
  from assms have rd: "rdi d idx = Inr (uint (d ! nat idx))" by (intro rdi_ok) simp_all
  let ?b = "uint (d ! nat idx)"
  let ?n = "nat (utfCount ?b)"
  have put: "putv cap v c = Inr (v @ [c])" for c
    using assms by (intro putv_ok) simp
  show ?thesis
  proof (cases "?b AND 0x80 \<noteq> 0 \<and> isUtfLead ?b \<and> idx + 1 + utfCount ?b \<le> lim")
    case False
    then show ?thesis using assms rd put by (auto simp: utfStep_def not_le)
  next
    case True
    let ?m = "?b AND drop_bit (nat (utfCount ?b - 1)) 0x1f"
    obtain r idx' where tail: "utfTail d ?n (idx + 1) ?m = Inr (r, idx')"
      using utfTail_total [of "idx + 1" ?n d ?m] True assms utfCount_range [of ?b] by auto
    then have idx': "idx < idx'" "idx' \<le> idx + 1 + utfCount ?b"
      using utfTail_idx [OF tail] utfCount_range [of ?b] by simp_all
    show ?thesis
    proof (cases r)
      case None
      then show ?thesis using True rd tail put idx' assms by (simp add: utfStep_def)
    next
      case (Some x)
      have idx'': "idx' = idx + 1 + utfCount ?b"
        using utfTail_full tail Some utfCount_range [of ?b] by fastforce
      have small: "x < 0x10000" if "utfCount ?b = 1"
      proof -
        have "0 \<le> ?m" "?m < 2 ^ 5"
          using that and_low_bound [where m = "0x1f" and x = "?b"] by simp_all
        then show ?thesis
          using utfTail_bound [of d ?n "idx + 1" ?m x idx' 5] tail Some that by simp
      qed
      then have "(if x < 0x10000 then 1 else 2) \<le> utfCount ?b"
        using utfCount_range [of ?b] by (cases "utfCount ?b = 1") (simp_all split: if_splits)
      then have "int (length v) + (if x < 0x10000 then 1 else 2) \<le> cap"
        using True assms by (auto split: if_splits)
      then obtain v' where v': "putChars cap v (utfCount ?b) x = Inr v'"
          "int (length v') \<le> int (length v) + (if x < 0x10000 then 1 else 2)"
        using putChars_ok by blast
      then have "int (length v') \<le> cap - (lim - idx')"
        using \<open>(if x < 0x10000 then 1 else 2) \<le> utfCount ?b\<close> idx'' assms(4) by (simp split: if_splits)
      then show ?thesis using True rd tail Some v' idx'' utfCount_range [of ?b] assms
        by (simp add: utfStep_def)
    qed
  qed
qed

lemma utfLoop_ok:
  "0 \<le> idx \<Longrightarrow> idx \<le> lim \<Longrightarrow> lim \<le> int (length d) \<Longrightarrow> int (length v) \<le> cap - (lim - idx) \<Longrightarrow>
   \<exists>v'. utfLoop d lim cap idx v = Inr v' \<and> int (length v') \<le> cap"
proof (induction d lim cap idx v rule: utfLoop.induct)
  case (1 d lim cap idx v)
  show ?case
  proof (cases "idx < lim")
    case False
    then show ?thesis using "1.prems" by (simp add: utfLoop.simps)
  next
    case True
    then obtain idx' v' where s: "utfStep d lim cap idx v = Inr (idx', v')" "idx < idx'" "idx' \<le> lim"
        "int (length v') \<le> cap - (lim - idx')"
      using utfStep_ok "1.prems" by blast
    then show ?thesis
      using "1.IH" [OF True s(1) refl] "1.prems" True
      by (simp add: utfLoop.simps [of d lim cap idx v])
  qed
qed

text \<open>Every ASCII octet is copied.\<close>

lemma and_0x80: "0 \<le> x \<Longrightarrow> x < 128 \<Longrightarrow> x AND 0x80 = (0 :: int)"
proof -
  assume "0 \<le> x" "x < 128"
  then have "take_bit 7 x = x" by (simp add: take_bit_int_eq_self)
  then have "x AND push_bit 7 1 = 0"
    by (metis take_bit_eq_mask and.assoc and.commute mask_eq_exp_minus_1 and_exp_eq_0_iff_not_bit
        push_bit_of_1 bit_take_bit_iff less_irrefl)
  then show ?thesis by simp
qed

lemma utfLoop_ascii:
  assumes "\<forall>b \<in> set bs. uint b < 128"
  shows "\<lbrakk>d = pre @ bs @ post; idx = int (length pre); lim = idx + int (length bs);
     int (length v) + int (length bs) \<le> cap\<rbrakk> \<Longrightarrow>
     utfLoop d lim cap idx v = Inr (v @ map (\<lambda>b. char_of (uint b)) bs)"
  using assms
proof (induction bs arbitrary: pre idx v)
  case Nil
  then show ?case by (simp add: utfLoop.simps)
next
  case (Cons b bs)
  have "rdi d idx = Inr (uint b)" using Cons.prems by simp
  moreover have "uint b AND 0x80 = 0" using Cons.prems by (intro and_0x80) simp_all
  ultimately have "utfStep d lim cap idx v = Inr (idx + 1, v @ [char_of (uint b)])"
    using Cons.prems by (simp add: utfStep_def putv_def)
  then have "utfLoop d lim cap idx v = utfLoop d lim cap (idx + 1) (v @ [char_of (uint b)])"
    using Cons.prems by (subst utfLoop.simps) simp
  also have "\<dots> = Inr ((v @ [char_of (uint b)]) @ map (\<lambda>b. char_of (uint b)) bs)"
    using Cons.prems by (intro Cons.IH [of "pre @ [b]"]) auto
  finally show ?case by simp
qed

lemma stringFromBytes_ascii:
  "\<forall>b \<in> set bs. uint b < 128 \<Longrightarrow>
   stringFromBytes (pre @ bs @ post) (int (length pre)) (int (length bs)) =
     Inr (map (\<lambda>b. char_of (uint b)) bs)"
  unfolding stringFromBytes_def using utfLoop_ascii [of bs "pre @ bs @ post" pre post] by simp

section \<open>Properties\<close>

text \<open>\<open>hexStringToBytes\<close> inverts the hexadecimal printing of octets.\<close>

theorem hexStringToBytes_roundtrip:
  "hexStringToBytes (concat (map hex2 bs)) = Inr (if bs = [] then None else Some bs)"
  using hexPairs_hex2 [of bs] by (cases bs) (auto simp: hexStringToBytes_def hex2_def)

text \<open>\<open>hexStringToBytes\<close> throws exactly on the strings of odd length, whatever characters
  they hold, and otherwise yields half as many octets as there are characters.\<close>

theorem hexStringToBytes_outcome:
  "if odd (length s) then hexStringToBytes s = Inl OutOfRange
   else \<exists>r. hexStringToBytes s = Inr r \<and> 2 * length (case r of None \<Rightarrow> [] | Some bs \<Rightarrow> bs) = length s"
  using hexPairs_even [of s] hexPairs_odd [of s] by (auto simp: hexStringToBytes_def)

text \<open>On any octets, well-formed UTF-8 or not, \<open>stringFromBytes\<close> reads only inside the
  given range, never writes past its output array, and returns at most as many characters as
  it was given octets.\<close>

theorem stringFromBytes_safe:
  assumes "0 \<le> offset" "0 \<le> byteCount" "offset + byteCount \<le> int (length data)"
  shows "\<exists>s. stringFromBytes data offset byteCount = Inr s \<and> int (length s) \<le> byteCount"
  using utfLoop_ok [of offset "offset + byteCount" data "[]" byteCount] assms
  by (auto simp: stringFromBytes_def)

theorem stringFromBytes_safe_witness:
  "\<exists>s. stringFromBytes [0x41, 0xf0, 0x9f, 0x98, 0x80, 0xe2, 0x41] 1 6 = Inr s \<and> int (length s) \<le> 6"
  by (rule stringFromBytes_safe) simp_all

end
