(* ===== verification/SmsHeader.thy ===== *)
theory SmsHeader
  imports SmsUtils
begin

text \<open>
  \<open>SmsHeader\<close> (\<open>telcore/sms/parser/SmsHeader.cpp\<close>): the user data header of a GSM short
  message, a sequence of information elements. \<open>fromByteArray\<close> keeps a pointer \<open>data\<close> and an
  index \<open>curr\<close> (\<open>cur\<close> below); both are state of its loop, because the branch for unknown elements advances
  the pointer and not the index.
\<close>

record PortAddrs =
  destPort :: int
  origPort :: int
  areEightBits :: bool

record ConcatRef =
  refNumber :: int
  seqNumber :: int
  concatCount :: int  \<comment> \<open>\<open>msgCount\<close>\<close>
  isEightBits :: bool

record SpecialSmsMsg =
  msgIndType :: int
  msgCount :: int

record MiscElt =
  miscId :: int
  miscData :: "byte list"

record SmsHeader =
  mConcatRef :: ConcatRef
  mPortAddrs :: PortAddrs
  mLanguageShiftTable :: int
  mLanguageTable :: int
  mSpecialSmsMsgList :: "SpecialSmsMsg list"
  mMiscEltList :: "MiscElt list"

definition PORT_WAP_PUSH :: int where "PORT_WAP_PUSH = 2948"
definition PORT_SUPL :: int where "PORT_SUPL = 7275"

definition noConcat :: ConcatRef where
  "noConcat = \<lparr>refNumber = -1, seqNumber = -1, concatCount = 0, isEightBits = False\<rparr>"

definition newSmsHeader :: SmsHeader where
  "newSmsHeader =
     \<lparr>mConcatRef = noConcat,
      mPortAddrs = \<lparr>destPort = -1, origPort = -1, areEightBits = False\<rparr>,
      mLanguageShiftTable = 0, mLanguageTable = 0, mSpecialSmsMsgList = [], mMiscEltList = []\<rparr>"

text \<open>The guard on a concatenation element.\<close>

definition setConcat :: "ConcatRef \<Rightarrow> SmsHeader \<Rightarrow> SmsHeader" where
  "setConcat c h =
     (if concatCount c \<noteq> 0 \<and> seqNumber c \<noteq> 0 \<and> seqNumber c \<le> concatCount c
      then h\<lparr>mConcatRef := c\<rparr> else h)"

section \<open>Parsing\<close>

text \<open>One round of the loop: \<open>off\<close> is how far \<open>data\<close> has been advanced in the allocation.\<close>

definition headerStep :: "byte list \<Rightarrow> int \<Rightarrow> int \<Rightarrow> SmsHeader \<Rightarrow> (int \<times> int \<times> SmsHeader) res" where
  "headerStep buf off cur h =
     (let d = (\<lambda>i. rdi buf (off + i)) in
      bnd (d cur) (\<lambda>id.
      bnd (d (cur + 1)) (\<lambda>len.
      let cur = cur + 2 in
      if id = 0x00 then
        bnd (d cur) (\<lambda>ref. bnd (d (cur + 1)) (\<lambda>cnt. bnd (d (cur + 2)) (\<lambda>sq.
          Inr (off, cur + 3,
               setConcat \<lparr>refNumber = ref, seqNumber = sq, concatCount = cnt, isEightBits = True\<rparr> h))))
      else if id = 0x08 then
        bnd (d cur) (\<lambda>r1. bnd (d (cur + 1)) (\<lambda>r2. bnd (d (cur + 2)) (\<lambda>cnt. bnd (d (cur + 3)) (\<lambda>sq.
          Inr (off, cur + 4,
               setConcat \<lparr>refNumber = push_bit 8 r1 OR r2, seqNumber = sq, concatCount = cnt,
                          isEightBits = False\<rparr> h)))))
      else if id = 0x04 then
        bnd (d cur) (\<lambda>dst. bnd (d (cur + 1)) (\<lambda>org.
          Inr (off, cur + 2, h\<lparr>mPortAddrs := \<lparr>destPort = dst, origPort = org, areEightBits = True\<rparr>\<rparr>)))
      else if id = 0x05 then
        bnd (d cur) (\<lambda>t1. bnd (d (cur + 1)) (\<lambda>t2. bnd (d (cur + 2)) (\<lambda>t3. bnd (d (cur + 3)) (\<lambda>t4.
          Inr (off, cur + 4,
               h\<lparr>mPortAddrs := \<lparr>destPort = push_bit 8 t1 OR t2, origPort = push_bit 8 t3 OR t4,
                                areEightBits = False\<rparr>\<rparr>)))))
      else if id = 0x24 then
        bnd (d cur) (\<lambda>t. Inr (off, cur + 1, h\<lparr>mLanguageShiftTable := t\<rparr>))
      else if id = 0x25 then
        bnd (d cur) (\<lambda>t. Inr (off, cur + 1, h\<lparr>mLanguageTable := t\<rparr>))
      else if id = 0x01 then
        bnd (d cur) (\<lambda>ty. bnd (d (cur + 1)) (\<lambda>cnt.
          Inr (off, cur + 2,
               h\<lparr>mSpecialSmsMsgList := mSpecialSmsMsgList h @ [\<lparr>msgIndType = ty, msgCount = cnt\<rparr>]\<rparr>)))
      else
        bnd (rd_block buf (off + cur) len) (\<lambda>blk.
          Inr (off + len, cur,
               h\<lparr>mMiscEltList := mMiscEltList h @ [\<lparr>miscId = id, miscData = blk\<rparr>]\<rparr>)))))"

lemma headerStep_progress: "headerStep buf off cur h = Inr (off', cur', h') \<Longrightarrow> cur + 2 \<le> cur'"
  by (auto simp: headerStep_def bnd_eq_Inr Let_def split: if_splits)

function headerLoop :: "byte list \<Rightarrow> int \<Rightarrow> int \<Rightarrow> int \<Rightarrow> SmsHeader \<Rightarrow> SmsHeader res" where
  "headerLoop buf n off cur h =
     (if cur < n then
        bnd (headerStep buf off cur h) (\<lambda>(off', cur', h'). headerLoop buf n off' cur' h')
      else Inr h)"
  by pat_completeness auto
termination
  by (relation "measure (\<lambda>(buf, n, off, cur, h). nat (n - cur))")
    (auto dest: headerStep_progress)

declare headerLoop.simps [simp del]

definition fromByteArray :: "byte list \<Rightarrow> int \<Rightarrow> SmsHeader res" where
  "fromByteArray data headerLength = headerLoop data headerLength 0 0 newSmsHeader"

section \<open>Information elements\<close>

text \<open>What TS 23.040 puts into a header, and what each element means.\<close>

datatype info_elem =
    Concat8 byte byte byte           \<comment> \<open>reference, count, sequence number\<close>
  | Concat16 byte byte byte byte
  | Ports8 byte byte
  | Ports16 byte byte byte byte
  | SingleShift byte
  | LockingShift byte
  | SpecialMsg byte byte
  | Misc byte "byte list"

fun ie_bytes :: "info_elem \<Rightarrow> byte list" where
  "ie_bytes (Concat8 r c s) = [0x00, 3, r, c, s]"
| "ie_bytes (Concat16 r1 r2 c s) = [0x08, 4, r1, r2, c, s]"
| "ie_bytes (Ports8 d p) = [0x04, 2, d, p]"
| "ie_bytes (Ports16 d1 d2 o1 o2) = [0x05, 4, d1, d2, o1, o2]"
| "ie_bytes (SingleShift t) = [0x24, 1, t]"
| "ie_bytes (LockingShift t) = [0x25, 1, t]"
| "ie_bytes (SpecialMsg t c) = [0x01, 2, t, c]"
| "ie_bytes (Misc i bs) = i # word_of_int (int (length bs)) # bs"

definition known_ids :: "byte set" where
  "known_ids = {0x00, 0x08, 0x04, 0x05, 0x24, 0x25, 0x01}"

fun wf_ie :: "info_elem \<Rightarrow> bool" where
  "wf_ie (Misc i bs) \<longleftrightarrow> i \<notin> known_ids \<and> length bs < 256"
| "wf_ie _ \<longleftrightarrow> True"

fun misc_len :: "info_elem \<Rightarrow> nat" where
  "misc_len (Misc i bs) = length bs"
| "misc_len _ = 0"

definition word16 :: "byte \<Rightarrow> byte \<Rightarrow> int" where
  "word16 a b = uint a * 256 + uint b"

fun ie_apply :: "info_elem \<Rightarrow> SmsHeader \<Rightarrow> SmsHeader" where
  "ie_apply (Concat8 r c s) h =
     setConcat \<lparr>refNumber = uint r, seqNumber = uint s, concatCount = uint c, isEightBits = True\<rparr> h"
| "ie_apply (Concat16 r1 r2 c s) h =
     setConcat \<lparr>refNumber = word16 r1 r2, seqNumber = uint s, concatCount = uint c, isEightBits = False\<rparr> h"
| "ie_apply (Ports8 d p) h =
     h\<lparr>mPortAddrs := \<lparr>destPort = uint d, origPort = uint p, areEightBits = True\<rparr>\<rparr>"
| "ie_apply (Ports16 d1 d2 o1 o2) h =
     h\<lparr>mPortAddrs := \<lparr>destPort = word16 d1 d2, origPort = word16 o1 o2, areEightBits = False\<rparr>\<rparr>"
| "ie_apply (SingleShift t) h = h\<lparr>mLanguageShiftTable := uint t\<rparr>"
| "ie_apply (LockingShift t) h = h\<lparr>mLanguageTable := uint t\<rparr>"
| "ie_apply (SpecialMsg t c) h =
     h\<lparr>mSpecialSmsMsgList := mSpecialSmsMsgList h @ [\<lparr>msgIndType = uint t, msgCount = uint c\<rparr>]\<rparr>"
| "ie_apply (Misc i bs) h =
     h\<lparr>mMiscEltList := mMiscEltList h @ [\<lparr>miscId = uint i, miscData = bs\<rparr>]\<rparr>"

definition ies_bytes :: "info_elem list \<Rightarrow> byte list" where
  "ies_bytes es = concat (map ie_bytes es)"

lemma ies_bytes_simps [simp]: "ies_bytes [] = []" "ies_bytes (e # es) = ie_bytes e @ ies_bytes es"
  by (simp_all add: ies_bytes_def)

lemma word16_or: "push_bit 8 (uint a) OR uint (b :: byte) = word16 a b"
  using or_low_bits [of "uint b" 8 "uint a"] by (simp add: word16_def)

lemma rdi_at:
  "i = int (length pre) \<Longrightarrow> rdi (pre @ b # post) i = Inr (uint b)"
  "i = int (length pre) + 1 \<Longrightarrow> rdi (pre @ b0 # b # post) i = Inr (uint b)"
  "i = int (length pre) + 2 \<Longrightarrow> rdi (pre @ b0 # b1 # b # post) i = Inr (uint b)"
  "i = int (length pre) + 3 \<Longrightarrow> rdi (pre @ b0 # b1 # b2 # b # post) i = Inr (uint b)"
  "i = int (length pre) + 4 \<Longrightarrow> rdi (pre @ b0 # b1 # b2 # b3 # b # post) i = Inr (uint b)"
  "i = int (length pre) + 5 \<Longrightarrow> rdi (pre @ b0 # b1 # b2 # b3 # b4 # b # post) i = Inr (uint b)"
  by (simp_all add: rdi_def rd_def nth_append nat_add_distrib)

text \<open>
  One element is parsed as what it is. A known element advances the index by its size; an
  unknown one advances the index by 2 and the pointer by the rest.
\<close>

lemma headerStep_elem:
  assumes "wf_ie e" "off + cur = int (length pre)"
  shows "headerStep (pre @ ie_bytes e @ post) off cur h =
     Inr (off + int (misc_len e), cur + int (length (ie_bytes e)) - int (misc_len e), ie_apply e h)"
proof (cases e)
  case (Misc i bs)
  have i: "uint i \<noteq> 0" "uint i \<noteq> 8" "uint i \<noteq> 4" "uint i \<noteq> 5" "uint i \<noteq> 36" "uint i \<noteq> 37" "uint i \<noteq> 1"
    using assms(1) Misc by (auto simp: known_ids_def dest: uint_eqD)
  have len: "uint (word_of_int (int (length bs)) :: byte) = int (length bs)"
    using assms(1) Misc by (simp add: unsigned_of_nat take_bit_nat_eq_self)
  have "rd_block ((pre @ [i, word_of_int (int (length bs))]) @ bs @ post)
      (int (length (pre @ [i, word_of_int (int (length bs))]))) (int (length bs)) = Inr bs"
    by (rule rd_block_mid)
  then have "rd_block (pre @ i # word_of_nat (length bs) # bs @ post) (int (length pre) + 2)
      (int (length bs)) = Inr bs"
    by (simp add: add.commute)
  with Misc i len assms(2) show ?thesis
    by (simp add: headerStep_def Let_def rdi_at add.assoc [symmetric])
qed (use assms in \<open>simp_all add: headerStep_def Let_def rdi_at word16_or add.assoc [symmetric]\<close>)


definition total_misc :: "info_elem list \<Rightarrow> nat" where
  "total_misc es = sum_list (map misc_len es)"

lemma total_misc_simps [simp]:
  "total_misc [] = 0" "total_misc (e # es) = misc_len e + total_misc es"
  by (simp_all add: total_misc_def)

lemma ie_bytes_long: "misc_len e + 2 \<le> length (ie_bytes e)"
  by (cases e) simp_all

lemma headerLoop_stop: "n \<le> cur \<Longrightarrow> headerLoop buf n off cur h = Inr h"
  by (simp add: headerLoop.simps)

lemma headerLoop_step:
  "cur < n \<Longrightarrow> headerStep buf off cur h = Inr (off', cur', h') \<Longrightarrow>
   headerLoop buf n off cur h = headerLoop buf n off' cur' h'"
  by (subst headerLoop.simps) simp

lemma headerStep_past:
  "int (length buf) \<le> off + cur \<Longrightarrow> headerStep buf off cur h = Inl OutOfBounds"
  by (simp add: headerStep_def Let_def rdi_out)

text \<open>
  The loop over a whole header: when some unknown element carries data, the index never
  reaches the header length at the end of the elements, and the next read is out of bounds.
\<close>

lemma headerLoop_elems:
  assumes "\<forall>e \<in> set es. wf_ie e"
  shows "\<lbrakk>buf = pre @ ies_bytes es; n = int (length buf); off + cur = int (length pre);
     off \<ge> 0; (es = [] \<longrightarrow> 0 < off \<or> n \<le> cur)\<rbrakk> \<Longrightarrow>
     headerLoop buf n off cur h =
       (if off + int (total_misc es) = 0 then Inr (fold ie_apply es h) else Inl OutOfBounds)"
  using assms
proof (induction es arbitrary: pre off cur h)
  case Nil
  show ?case
  proof (cases "off = 0")
    case True
    with Nil show ?thesis by (simp add: headerLoop_stop)
  next
    case False
    with Nil have "cur < n" "int (length buf) \<le> off + cur" by auto
    with False show ?thesis by (subst headerLoop.simps) (simp add: headerStep_past)
  qed
next
  case (Cons e es)
  let ?off = "off + int (misc_len e)"
  let ?cur = "cur + int (length (ie_bytes e)) - int (misc_len e)"
  have step: "headerStep buf off cur h = Inr (?off, ?cur, ie_apply e h)"
    using headerStep_elem [of e off cur pre "ies_bytes es" h] Cons.prems by simp
  have "cur < n"
    using Cons.prems ie_bytes_long [of e] by simp
  then have "headerLoop buf n off cur h = headerLoop buf n ?off ?cur (ie_apply e h)"
    using headerLoop_step step by blast
  also have "\<dots> = (if ?off + int (total_misc es) = 0 then Inr (fold ie_apply es (ie_apply e h)) else Inl OutOfBounds)"
    using Cons.prems by (intro Cons.IH [of "pre @ ie_bytes e"]) auto
  finally show ?case using Cons.prems(4) by (simp add: add.assoc)
qed

section \<open>The concatenation reference\<close>

text \<open>What the guard promises to every reader of \<open>mConcatRef\<close>.\<close>

definition concat_ok :: "ConcatRef \<Rightarrow> bool" where
  "concat_ok c \<longleftrightarrow>
     c = noConcat \<or>
     (1 \<le> seqNumber c \<and> seqNumber c \<le> concatCount c \<and> concatCount c \<le> 255 \<and>
      0 \<le> refNumber c \<and> refNumber c < 65536)"

lemma setConcat_ok:
  "concat_ok (mConcatRef h) \<Longrightarrow> 0 \<le> seqNumber c \<Longrightarrow> concatCount c \<le> 255 \<Longrightarrow> 0 \<le> refNumber c \<Longrightarrow>
   refNumber c < 65536 \<Longrightarrow> concat_ok (mConcatRef (setConcat c h))"
  by (auto simp: setConcat_def concat_ok_def)

lemma rdi_255: "rdi xs i = Inr x \<Longrightarrow> 0 \<le> x \<and> x \<le> 255"
  using rdi_range [of xs i x] by simp

lemma or_word16_range:
  assumes "rdi xs i = Inr x" "rdi xs j = Inr y"
  shows "0 \<le> push_bit 8 x OR y \<and> push_bit 8 x OR y < 65536"
  using or_low_bits [of y 8 x] rdi_range [OF assms(1)] rdi_range [OF assms(2)] by simp

lemma headerStep_concat_ok:
  assumes "headerStep buf off cur h = Inr (off', cur', h')" "concat_ok (mConcatRef h)"
  shows "concat_ok (mConcatRef h')"
proof -
  obtain id len where r: "rdi buf (off + cur) = Inr id" "rdi buf (off + (cur + 1)) = Inr len"
    using assms(1) by (auto simp: headerStep_def Let_def bnd_eq_Inr)
  consider (c8) "id = 0" | (c16) "id = 8" | (other) "id \<noteq> 0" "id \<noteq> 8" by blast
  then show ?thesis
  proof cases
    case c8
    with assms(1) r obtain ref cnt sq where
      b: "rdi buf (off + (cur + 2)) = Inr ref" "rdi buf (off + (cur + 2 + 1)) = Inr cnt"
      "rdi buf (off + (cur + 2 + 2)) = Inr sq"
      "h' = setConcat \<lparr>refNumber = ref, seqNumber = sq, concatCount = cnt, isEightBits = True\<rparr> h"
      by (simp add: headerStep_def Let_def) (auto simp: bnd_eq_Inr)
    with assms(2) rdi_255 [OF b(1)] rdi_255 [OF b(2)] rdi_255 [OF b(3)] show ?thesis
      by (simp add: setConcat_ok)
  next
    case c16
    with assms(1) r obtain r1 r2 cnt sq where
      b: "rdi buf (off + (cur + 2)) = Inr r1" "rdi buf (off + (cur + 2 + 1)) = Inr r2"
      "rdi buf (off + (cur + 2 + 2)) = Inr cnt" "rdi buf (off + (cur + 2 + 3)) = Inr sq"
      "h' = setConcat \<lparr>refNumber = push_bit 8 r1 OR r2, seqNumber = sq, concatCount = cnt,
                       isEightBits = False\<rparr> h"
      by (simp add: headerStep_def Let_def) (auto simp: bnd_eq_Inr)
    with assms(2) rdi_255 [OF b(3)] rdi_255 [OF b(4)] or_word16_range [OF b(1,2)] show ?thesis
      by (simp add: setConcat_ok)
  next
    case other
    with assms r have "mConcatRef h' = mConcatRef h"
      by (simp add: headerStep_def Let_def) (auto simp: bnd_eq_Inr split: if_splits)
    with assms(2) show ?thesis by simp
  qed
qed

lemma headerLoop_concat_ok:
  "headerLoop buf n off cur h = Inr h' \<Longrightarrow> concat_ok (mConcatRef h) \<Longrightarrow> concat_ok (mConcatRef h')"
proof (induction buf n off cur h rule: headerLoop.induct)
  case (1 buf n off cur h)
  show ?case
  proof (cases "cur < n")
    case False
    with "1.prems" show ?thesis by (simp add: headerLoop.simps)
  next
    case True
    with "1.prems"(1) obtain off' cur' h1 where
      s: "headerStep buf off cur h = Inr (off', cur', h1)" "headerLoop buf n off' cur' h1 = Inr h'"
      by (subst (asm) headerLoop.simps) (auto simp: bnd_eq_Inr)
    show ?thesis
      by (rule "1.IH" [OF True s(1) refl refl s(2) headerStep_concat_ok [OF s(1) "1.prems"(2)]])
  qed
qed

section \<open>Properties\<close>

text \<open>A header of well-formed elements without unknown data is parsed to the end: each
  element is applied in order, so the last port or valid concatenation element counts. A header
  in which an element with an unknown identifier carries data is never parsed: the loop reads
  past the end of the header.\<close>

theorem fromByteArray_elements:
  assumes "\<forall>e \<in> set es. wf_ie e"
  shows "fromByteArray (ies_bytes es) (int (length (ies_bytes es))) =
    (if total_misc es = 0 then Inr (fold ie_apply es newSmsHeader) else Inl OutOfBounds)"
  unfolding fromByteArray_def
  using headerLoop_elems [OF assms, of "ies_bytes es" "[]" "int (length (ies_bytes es))" 0 0] by simp

theorem fromByteArray_elements_witness:
  "fromByteArray (ies_bytes [Concat8 7 2 1, Misc 0x0a [1, 2], Ports16 0x0b 0x84 0x23 0xf0])
     (int (length (ies_bytes [Concat8 7 2 1, Misc 0x0a [1, 2], Ports16 0x0b 0x84 0x23 0xf0]))) =
   (if total_misc [Concat8 7 2 1, Misc 0x0a [1, 2], Ports16 0x0b 0x84 0x23 0xf0] = 0
    then Inr (fold ie_apply [Concat8 7 2 1, Misc 0x0a [1, 2], Ports16 0x0b 0x84 0x23 0xf0] newSmsHeader)
    else Inl OutOfBounds)"
  by (rule fromByteArray_elements) (simp add: known_ids_def)

text \<open>Whatever octets a header holds, the concatenation reference it yields is either the
  initial one or has a sequence number between 1 and its count, which is at most 255.\<close>

theorem fromByteArray_concat_ok:
  assumes "fromByteArray data n = Inr h"
  shows "concat_ok (mConcatRef h)"
  by (rule headerLoop_concat_ok [OF assms [unfolded fromByteArray_def]])
    (simp add: newSmsHeader_def concat_ok_def)

theorem fromByteArray_concat_ok_witness:
  "concat_ok (mConcatRef (ie_apply (Concat8 9 3 2) newSmsHeader))"
  by (rule fromByteArray_concat_ok [of "[0x00, 3, 9, 3, 2]" 5]) code_simp

end
