(* ===== verification/PduParser.thy ===== *)
theory PduParser
  imports SmsHeader
begin

text \<open>
  \<open>PduParser\<close>, \<open>GsmSmsAddress\<close> and \<open>SmsAddress\<close> (\<open>telcore/sms/parser\<close>): the cursor over the
  octets of a GSM PDU. Reads, \<open>memcpy\<close> and \<open>new\<close> are checked: a PDU that is shorter than its
  length fields say is an \<open>OutOfBounds\<close>, a negative size a \<open>BadAlloc\<close>.
\<close>

section \<open>Addresses\<close>

record GsmSmsAddress =
  mTon :: int
  mAddress :: string
  mOrigBytes :: "byte list"

definition TON_ALPHANUMERIC :: int where "TON_ALPHANUMERIC = 5"
definition TON_NETWORK :: int where "TON_NETWORK = 3"

definition isAlphanumeric :: "GsmSmsAddress \<Rightarrow> bool" where
  "isAlphanumeric a \<longleftrightarrow> mTon a = TON_ALPHANUMERIC"

definition isNetworkSpecific :: "GsmSmsAddress \<Rightarrow> bool" where
  "isNetworkSpecific a \<longleftrightarrow> mTon a = TON_NETWORK"

definition couldBeEmailGateway :: "GsmSmsAddress \<Rightarrow> bool" where
  "couldBeEmailGateway a \<longleftrightarrow> length (mAddress a) \<le> 4"

text \<open>The constructor copies \<open>length\<close> octets from \<open>data\<close>; the last one is patched and restored.\<close>

definition newGsmSmsAddress :: "byte list \<Rightarrow> int \<Rightarrow> GsmSmsAddress res" where
  "newGsmSmsAddress data len =
     bnd (chk (0 \<le> len) BadAlloc) (\<lambda>_.
     bnd (rd_block data 0 len) (\<lambda>orig.
     bnd (rdi orig 0) (\<lambda>addressLength.
     bnd (rdi orig 1) (\<lambda>toa.
     let a = \<lparr>mTon = 0x7 AND drop_bit 4 toa, mAddress = [], mOrigBytes = orig\<rparr> in
     if isAlphanumeric a then Inr a
     else
       bnd (rd orig (len - 1)) (\<lambda>lastByte.
       bnd (if addressLength AND 1 = 1 then wr orig (len - 1) (lastByte OR 0xf0) else Inr orig) (\<lambda>patched.
       bnd (wr patched (len - 1) lastByte) (\<lambda>restored.
         Inr (a\<lparr>mOrigBytes := restored\<rparr>))))))))"

lemma newGsmSmsAddress_orig:
  "newGsmSmsAddress data len = Inr a \<Longrightarrow> rd_block data 0 len = Inr (mOrigBytes a)"
  by (auto simp: newGsmSmsAddress_def bnd_eq_Inr Let_def wr_def rd_Inr split: if_splits)

lemma newGsmSmsAddress_ok:
  assumes "2 \<le> len" "len \<le> int (length data)"
  shows "newGsmSmsAddress data len =
    Inr \<lparr>mTon = 0x7 AND drop_bit 4 (uint (data ! 1)), mAddress = [], mOrigBytes = take (nat len) data\<rparr>"
proof -
  have blk: "rd_block data 0 len = Inr (take (nat len) data)"
    using assms by (simp add: rd_block_def)
  have "rdi (take (nat len) data) 0 = Inr (uint (data ! 0))" "rdi (take (nat len) data) 1 = Inr (uint (data ! 1))"
    using assms by (simp_all add: rdi_ok)
  moreover have "(take (nat len) data)[nat (len - 1) := data ! nat (len - 1)] = take (nat len) data"
    using assms by (intro nth_equalityI) (auto simp: nth_list_update)
  ultimately show ?thesis
    using blk assms by (simp add: newGsmSmsAddress_def Let_def rd_def wr_def isAlphanumeric_def)
qed

section \<open>The parser\<close>

record PduParser =
  p_mPdu :: "byte list"
  p_mCur :: int
  p_mUserDataSeptetPadding :: int
  p_mUserDataHeader :: "SmsHeader option"
  p_mUserData :: "byte list option"
  p_mUserDataLength :: int
  p_mPduLength :: int

definition newPduParser :: "byte list \<Rightarrow> int \<Rightarrow> PduParser" where
  "newPduParser pdu len =
     \<lparr>p_mPdu = pdu, p_mCur = 0, p_mUserDataSeptetPadding = 0, p_mUserDataHeader = None,
      p_mUserData = None, p_mUserDataLength = 0, p_mPduLength = len\<rparr>"

definition getByte :: "PduParser \<Rightarrow> (int \<times> PduParser) res" where
  "getByte p = bnd (rdi (p_mPdu p) (p_mCur p)) (\<lambda>b. Inr (b AND 0xff, p\<lparr>p_mCur := p_mCur p + 1\<rparr>))"

definition getSCAddress :: "PduParser \<Rightarrow> (string \<times> PduParser) res" where
  "getSCAddress p = bnd (getByte p) (\<lambda>(len, p1). Inr ([], p1\<lparr>p_mCur := p_mCur p1 + len\<rparr>))"

definition getSCTimestampMillis :: "PduParser \<Rightarrow> int \<times> PduParser" where
  "getSCTimestampMillis p = (0, p\<lparr>p_mCur := p_mCur p + 7\<rparr>)"

text \<open>The address object is built from the start of the PDU, not from the cursor.\<close>

definition getAddress :: "PduParser \<Rightarrow> (GsmSmsAddress \<times> PduParser) res" where
  "getAddress p =
     bnd (rdi (p_mPdu p) (p_mCur p)) (\<lambda>addressLength.
     let lengthBytes = 2 + (addressLength + 1) div 2 in
     bnd (newGsmSmsAddress (p_mPdu p) lengthBytes) (\<lambda>a.
       Inr (a, p\<lparr>p_mCur := p_mCur p + lengthBytes\<rparr>)))"

text \<open>The header part of \<open>constructUserData\<close>: new offset, header length, header septets.\<close>

definition takeUserDataHeader :: "PduParser \<Rightarrow> int \<Rightarrow> (int \<times> int \<times> int \<times> PduParser) res" where
  "takeUserDataHeader p offset =
     bnd (rdi (p_mPdu p) offset) (\<lambda>userDataHeaderLength.
     bnd (rd_block (p_mPdu p) (offset + 1) userDataHeaderLength) (\<lambda>udh.
     bnd (fromByteArray udh userDataHeaderLength) (\<lambda>h.
     let headerBits = (userDataHeaderLength + 1) * 8;
         headerSeptets = headerBits div 7 + (if headerBits mod 7 > 0 then 1 else 0)
     in Inr (offset + 1 + userDataHeaderLength, userDataHeaderLength, headerSeptets,
             p\<lparr>p_mUserDataHeader := Some h,
               p_mUserDataSeptetPadding := headerSeptets * 7 - headerBits\<rparr>))))"

definition constructUserData :: "bool \<Rightarrow> bool \<Rightarrow> PduParser \<Rightarrow> (int \<times> PduParser) res" where
  "constructUserData hasUserDataHeader dataInSeptets p =
     bnd (rdi (p_mPdu p) (p_mCur p)) (\<lambda>userDataLength.
     bnd (if hasUserDataHeader then takeUserDataHeader p (p_mCur p + 1) else Inr (p_mCur p + 1, 0, 0, p))
       (\<lambda>(offset, userDataHeaderLength, headerSeptets, p1).
     let bufferLen =
           (if dataInSeptets then p_mPduLength p1 - offset
            else max 0 (userDataLength - (if hasUserDataHeader then userDataHeaderLength + 1 else 0)))
     in
     bnd (chk (0 \<le> bufferLen) BadAlloc) (\<lambda>_.
     bnd (rd_block (p_mPdu p1) offset bufferLen) (\<lambda>ud.
     let p2 = p1\<lparr>p_mUserDataLength := bufferLen, p_mUserData := Some ud, p_mCur := offset\<rparr> in
     if dataInSeptets then
       Inr (if userDataLength - headerSeptets < 0 then 0 else userDataLength - headerSeptets, p2)
     else Inr (bufferLen, p2)))))"

lemma getByte_at:
  "p_mPdu p = pre @ b # post \<Longrightarrow> p_mCur p = int (length pre) \<Longrightarrow>
   getByte p = Inr (uint b, p\<lparr>p_mCur := p_mCur p + 1\<rparr>)"
  by (simp add: getByte_def)

section \<open>Well-formed user data\<close>

text \<open>Length of the header in septets, and the fill bits after it (TS 23.040, 9.2.3.24).\<close>

definition header_septets :: "nat \<Rightarrow> int" where
  "header_septets udhl = (let bits = (int udhl + 1) * 8 in bits div 7 + (if bits mod 7 > 0 then 1 else 0))"

lemma header_septets_ceiling:
  "(int udhl + 1) * 8 \<le> header_septets udhl * 7 \<and> header_septets udhl * 7 < (int udhl + 1) * 8 + 7"
proof -
  have "b \<le> (b div 7 + (if b mod 7 > 0 then 1 else 0)) * 7 \<and>
        (b div 7 + (if b mod 7 > 0 then 1 else 0)) * 7 < b + 7" for b :: int
    by (cases "b mod 7 > 0") (simp, presburger, simp, presburger)
  then show ?thesis unfolding header_septets_def Let_def by blast
qed


definition header_bytes :: "info_elem list \<Rightarrow> byte list" where
  "header_bytes es = word_of_nat (length (ies_bytes es)) # ies_bytes es"

definition header_wf :: "info_elem list \<Rightarrow> bool" where
  "header_wf es \<longleftrightarrow> (\<forall>e \<in> set es. wf_ie e) \<and> length (ies_bytes es) < 256"

text \<open>A header that the loop of \<open>fromByteArray\<close> can read: no element of unknown identifier carries data.\<close>

definition header_ok :: "info_elem list \<Rightarrow> bool" where
  "header_ok es \<longleftrightarrow> header_wf es \<and> total_misc es = 0"

lemma header_octets:
  assumes "header_wf es" "p_mPdu p = pre @ header_bytes es @ ud" "offset = int (length pre)"
  shows "rdi (p_mPdu p) offset = Inr (int (length (ies_bytes es)))"
    "rd_block (p_mPdu p) (offset + 1) (int (length (ies_bytes es))) = Inr (ies_bytes es)"
proof -
  let ?n = "length (ies_bytes es)"
  show "rdi (p_mPdu p) offset = Inr (int ?n)"
    using assms by (simp add: header_bytes_def header_wf_def uint_byte_of_nat)
  have "rd_block ((pre @ [word_of_nat ?n]) @ ies_bytes es @ ud) (int (length (pre @ [word_of_nat ?n :: byte])))
      (int ?n) = Inr (ies_bytes es)" by (rule rd_block_mid)
  then show "rd_block (p_mPdu p) (offset + 1) (int ?n) = Inr (ies_bytes es)"
    using assms(2,3) by (simp add: header_bytes_def add.commute)
qed

lemma takeUserDataHeader_unknown:
  assumes "header_wf es" "total_misc es \<noteq> 0" "p_mPdu p = pre @ header_bytes es @ ud" "offset = int (length pre)"
  shows "takeUserDataHeader p offset = Inl OutOfBounds"
proof -
  have "fromByteArray (ies_bytes es) (int (length (ies_bytes es))) = Inl OutOfBounds"
    using headerLoop_elems [of es "ies_bytes es" "[]" "int (length (ies_bytes es))" 0 0 newSmsHeader] assms(1,2)
    by (simp add: fromByteArray_def header_wf_def)
  then show ?thesis
    using header_octets [OF assms(1,3,4)] by (simp add: takeUserDataHeader_def)
qed

lemma takeUserDataHeader_ok:
  assumes es: "header_ok es" and pdu: "p_mPdu p = pre @ header_bytes es @ ud"
    and off: "offset = int (length pre)"
  shows "takeUserDataHeader p offset =
    Inr (offset + int (length (header_bytes es)), int (length (ies_bytes es)),
         header_septets (length (ies_bytes es)),
         p\<lparr>p_mUserDataHeader := Some (fold ie_apply es newSmsHeader),
           p_mUserDataSeptetPadding :=
             header_septets (length (ies_bytes es)) * 7 - (int (length (ies_bytes es)) + 1) * 8\<rparr>)"
proof -
  let ?n = "length (ies_bytes es)"
  note header_octets [OF _ pdu off]
  moreover have "fromByteArray (ies_bytes es) (int ?n) = Inr (fold ie_apply es newSmsHeader)"
    using headerLoop_elems [of es "ies_bytes es" "[]" "int ?n" 0 0 newSmsHeader] es
    by (simp add: fromByteArray_def header_ok_def header_wf_def)
  ultimately show ?thesis
    using es by (simp add: takeUserDataHeader_def Let_def header_septets_def header_bytes_def header_ok_def)
qed

text \<open>The octets that follow the user data length: an optional header, then the data.\<close>

definition ud_bytes :: "info_elem list option \<Rightarrow> byte list \<Rightarrow> byte list" where
  "ud_bytes hdr ud = (case hdr of None \<Rightarrow> ud | Some es \<Rightarrow> header_bytes es @ ud)"

definition ud_header_len :: "info_elem list option \<Rightarrow> nat" where
  "ud_header_len hdr = (case hdr of None \<Rightarrow> 0 | Some es \<Rightarrow> length (header_bytes es))"

definition ud_header :: "info_elem list option \<Rightarrow> SmsHeader option" where
  "ud_header hdr = map_option (\<lambda>es. fold ie_apply es newSmsHeader) hdr"

lemma constructUserData_unknown:
  assumes "header_wf es" "total_misc es \<noteq> 0" "p_mPdu p = pre @ udl # ud_bytes (Some es) ud" "p_mCur p = int (length pre)"
  shows "constructUserData True septets p = Inl OutOfBounds"
proof -
  have "takeUserDataHeader p (p_mCur p + 1) = Inl OutOfBounds"
    using takeUserDataHeader_unknown [OF assms(1,2), of p "pre @ [udl]" ud "p_mCur p + 1"] assms(3,4) by (simp add: ud_bytes_def)
  then show ?thesis using assms(3,4) by (simp add: constructUserData_def)
qed

lemma constructUserData_ok:
  assumes hdr: "\<forall>es. hdr = Some es \<longrightarrow> header_ok es"
    and pdu: "p_mPdu p = pre @ udl # ud_bytes hdr ud" and cur: "p_mCur p = int (length pre)"
    and len: "p_mPduLength p = int (length (p_mPdu p))"
    and oct: "\<not> septets \<longrightarrow> uint udl = int (ud_header_len hdr + length ud)"
    and new: "p_mUserDataHeader p = None"
  shows "\<exists>count p'. constructUserData (hdr \<noteq> None) septets p = Inr (count, p') \<and>
           p_mUserData p' = Some ud \<and> p_mUserDataLength p' = int (length ud) \<and>
           p_mUserDataHeader p' = ud_header hdr \<and>
           count = (if septets then max 0 (uint udl - (case hdr of None \<Rightarrow> 0 | Some es \<Rightarrow> header_septets (length (ies_bytes es))))
                    else int (length ud))"
proof (cases hdr)
  case None
  have blk: "rd_block ((pre @ [udl]) @ ud @ []) (int (length (pre @ [udl]))) (int (length ud)) = Inr ud"
    by (rule rd_block_mid)
  show ?thesis
    using None blk pdu cur len oct new
    by (cases septets)
      (auto simp: constructUserData_def Let_def ud_bytes_def ud_header_len_def ud_header_def add.commute)
next
  case (Some es)
  let ?h = "header_bytes es"
  have blk: "rd_block ((pre @ udl # ?h) @ ud @ []) (int (length (pre @ udl # ?h))) (int (length ud)) = Inr ud"
    by (rule rd_block_mid)
  have hl: "length ?h = length (ies_bytes es) + 1" by (simp add: header_bytes_def)
  have th: "takeUserDataHeader p (p_mCur p + 1) =
      Inr (p_mCur p + 1 + int (length ?h), int (length (ies_bytes es)), header_septets (length (ies_bytes es)),
         p\<lparr>p_mUserDataHeader := Some (fold ie_apply es newSmsHeader),
           p_mUserDataSeptetPadding :=
             header_septets (length (ies_bytes es)) * 7 - (int (length (ies_bytes es)) + 1) * 8\<rparr>)"
    using takeUserDataHeader_ok [of es p "pre @ [udl]" ud "p_mCur p + 1"] Some hdr pdu cur
    by (simp add: ud_bytes_def)
  have off: "p_mCur p + 1 + int (length ?h) = int (length (pre @ udl # ?h))" using cur by simp
  have rd: "rdi (p_mPdu p) (p_mCur p) = Inr (uint udl)" using pdu cur by simp
  have pl: "p_mPduLength p - (p_mCur p + 1 + int (length ?h)) = int (length ud)"
    using len pdu cur Some by (simp add: ud_bytes_def)
  have blk': "rd_block (p_mPdu p) (p_mCur p + 1 + int (length ?h)) (int (length ud)) = Inr ud"
    using blk pdu Some cur by (simp add: ud_bytes_def ac_simps)
  show ?thesis
  proof (cases septets)
    case True
    then show ?thesis using Some th rd pl blk'
      by (auto simp: constructUserData_def Let_def ud_header_def)
  next
    case False
    then have "max 0 (uint udl - (int (length (ies_bytes es)) + 1)) = int (length ud)"
      using oct Some hl by (simp add: ud_header_len_def)
    with False Some th rd blk' show ?thesis
      by (auto simp: constructUserData_def Let_def ud_header_def)
  qed
qed

section \<open>Properties\<close>

text \<open>\<open>constructUserData\<close> on well-formed user data: it finds exactly the data after the
  header, decodes the header, and returns the number of octets, or for septets the length field
  less the header rounded up to septets and never negative.\<close>

theorem constructUserData_layout:
  assumes "\<forall>es. hdr = Some es \<longrightarrow> header_ok es"
    and "pdu = pre @ udl # ud_bytes hdr ud"
    and "\<not> septets \<longrightarrow> uint udl = int (ud_header_len hdr + length ud)"
  shows "\<exists>count p'. constructUserData (hdr \<noteq> None) septets
             (newPduParser pdu (int (length pdu))\<lparr>p_mCur := int (length pre)\<rparr>) = Inr (count, p') \<and>
           p_mUserData p' = Some ud \<and> p_mUserDataLength p' = int (length ud) \<and>
           p_mUserDataHeader p' = ud_header hdr \<and>
           count = (if septets then max 0 (uint udl - (case hdr of None \<Rightarrow> 0 | Some es \<Rightarrow> header_septets (length (ies_bytes es))))
                    else int (length ud))"
  by (rule constructUserData_ok [OF assms(1) _ _ _ assms(3)]) (simp_all add: newPduParser_def assms(2))

theorem constructUserData_layout_witness:
  "\<exists>count p'. constructUserData (Some [Concat8 7 2 1] \<noteq> None) False
       (newPduParser [0xff, 8, 5, 0, 3, 7, 2, 1, 0x41, 0x42]
          (int (length [0xff, 8, 5, 0, 3, 7, 2, 1, 0x41, 0x42 :: byte]))\<lparr>p_mCur := int (length [0xff :: byte])\<rparr>) = Inr (count, p') \<and>
     p_mUserData p' = Some [0x41, 0x42] \<and> p_mUserDataLength p' = int (length [0x41, 0x42 :: byte]) \<and>
     p_mUserDataHeader p' = ud_header (Some [Concat8 7 2 1]) \<and>
     count = (if False then max 0 (uint (8 :: byte) - (case Some [Concat8 7 2 1] of None \<Rightarrow> 0
                | Some es \<Rightarrow> header_septets (length (ies_bytes es)))) else int (length [0x41, 0x42 :: byte]))"
  by (rule constructUserData_layout)
    (simp_all add: header_ok_def header_wf_def known_ids_def ud_bytes_def header_bytes_def ud_header_len_def)

text \<open>The address is built from the first octets of the PDU whatever the cursor is: the type
  of number is taken from octet 1 of the service centre address, not from the originating
  address at the cursor, although the cursor advances by the latter's size.\<close>

theorem getAddress_from_start:
  assumes "getAddress p = Inr (a, p')"
  shows "take (length (mOrigBytes a)) (p_mPdu p) = mOrigBytes a \<and>
         mTon a = 0x7 AND drop_bit 4 (uint (p_mPdu p ! 1)) \<and>
         p_mCur p' = p_mCur p + int (length (mOrigBytes a)) \<and>
         int (length (mOrigBytes a)) = 2 + (uint (p_mPdu p ! nat (p_mCur p)) + 1) div 2"
proof -
  obtain n where n: "rdi (p_mPdu p) (p_mCur p) = Inr n"
      "newGsmSmsAddress (p_mPdu p) (2 + (n + 1) div 2) = Inr a" "p' = p\<lparr>p_mCur := p_mCur p + (2 + (n + 1) div 2)\<rparr>"
    using assms by (auto simp: getAddress_def Let_def bnd_eq_Inr)
  then have "0 \<le> n" "n = uint (p_mPdu p ! nat (p_mCur p))" by (auto simp: rdi_Inr)
  then have le: "2 \<le> 2 + (n + 1) div 2" by simp
  have blk: "rd_block (p_mPdu p) 0 (2 + (n + 1) div 2) = Inr (mOrigBytes a)"
    using newGsmSmsAddress_orig n by blast
  then have "2 + (n + 1) div 2 \<le> int (length (p_mPdu p))"
    using le by (auto simp: rd_block_def split: if_splits)
  from newGsmSmsAddress_ok [OF le this] n
  have "a = \<lparr>mTon = 0x7 AND drop_bit 4 (uint (p_mPdu p ! 1)), mAddress = [],
             mOrigBytes = take (nat (2 + (n + 1) div 2)) (p_mPdu p)\<rparr>" by simp
  then have a: "mOrigBytes a = take (nat (2 + (n + 1) div 2)) (p_mPdu p)"
      "mTon a = 0x7 AND drop_bit 4 (uint (p_mPdu p ! 1))" by simp_all
  have len: "length (mOrigBytes a) = nat (2 + (n + 1) div 2)"
    using rd_block_Inr_length [OF blk] by simp
  show ?thesis
    unfolding len using a n(3) le \<open>n = _\<close> by simp
qed

theorem getAddress_from_start_witness:
  "take (length [7, 0x91, 0x68 :: byte]) [7, 0x91, 0x68, 2, 0xd0, 0x41] = [7, 0x91, 0x68 :: byte] \<and>
   mTon \<lparr>mTon = 1, mAddress = [], mOrigBytes = [7, 0x91, 0x68]\<rparr> = 0x7 AND drop_bit 4 (uint ([7, 0x91, 0x68, 2, 0xd0, 0x41 :: byte] ! 1)) \<and>
   (6::int) = 3 + 3 \<and> (3::int) = 3"
  using getAddress_from_start
    [of "newPduParser [7, 0x91, 0x68, 2, 0xd0, 0x41] 6\<lparr>p_mCur := 3\<rparr>"
        "\<lparr>mTon = 1, mAddress = [], mOrigBytes = [7, 0x91, 0x68]\<rparr>"
        "newPduParser [7, 0x91, 0x68, 2, 0xd0, 0x41] 6\<lparr>p_mCur := 6\<rparr>"]
  by code_simp

end
