(* ===== verification/SmsMessage.thy ===== *)
theory SmsMessage
  imports PduParser
begin

text \<open>
  \<open>SmsMessage\<close> (\<open>telcore/sms/parser/SmsMessage.cpp\<close>): a received GSM message. Only
  SMS-DELIVER is parsed (the message types 1 and 2 are left unread by the code); the text of
  the message is never decoded, so \<open>mMessageBody\<close> stays empty and \<open>parseMessageBody\<close> is not
  reached. Parsing fixes the data coding scheme, the voice mail indication and the user data.
\<close>

datatype SmsDataCodingScheme =
    ENCODING_UNKNOWN | ENCODING_7BIT | ENCODING_8BIT | ENCODING_16BIT | ENCODING_KSC5601

datatype MessageClass = CLASS_UNKNOWN | CLASS_0 | CLASS_1 | CLASS_2 | CLASS_3

record SmsMessage =
  mPdu :: "byte list"
  mScAddress :: string
  mMti :: int
  mReplyPathPresent :: bool
  mProtocolIdentifier :: int
  mOriginatingAddress :: "GsmSmsAddress option"
  mScTimeMillis :: int
  mDataCodingScheme :: int
  mIsMwi :: bool
  mMwiSense :: bool
  mMwiDontStore :: bool
  mVoiceMailCount :: int
  mUserData :: "byte list option"
  mUserDataLength :: int
  mUserDataHeader :: "SmsHeader option"
  mMessageClass :: MessageClass
  mMessageBody :: string
  mEncodingType :: SmsDataCodingScheme

definition newSmsMessage :: SmsMessage where
  "newSmsMessage =
     \<lparr>mPdu = [], mScAddress = [], mMti = 0, mReplyPathPresent = False, mProtocolIdentifier = 0,
      mOriginatingAddress = None, mScTimeMillis = 0, mDataCodingScheme = 0, mIsMwi = False,
      mMwiSense = False, mMwiDontStore = False, mVoiceMailCount = -1, mUserData = None,
      mUserDataLength = 0, mUserDataHeader = None, mMessageClass = CLASS_UNKNOWN,
      mMessageBody = [], mEncodingType = ENCODING_UNKNOWN\<rparr>"

section \<open>The data coding scheme\<close>

text \<open>The first part of \<open>parseUserData\<close>: encoding, whether there is a message class, and the
  voice mail flags.\<close>

definition decodeDataCoding :: "SmsMessage \<Rightarrow> SmsDataCodingScheme \<times> bool \<times> SmsMessage" where
  "decodeDataCoding m =
     (let dcs = mDataCodingScheme m in
      if dcs AND 0x80 = 0 then
        (let userDataCompressed = (dcs AND 0x20 \<noteq> 0); hasMessageClass = (dcs AND 0x10 \<noteq> 0);
             group = drop_bit 2 dcs AND 0x3
         in (if userDataCompressed then ENCODING_UNKNOWN
             else if group = 0 then ENCODING_7BIT
             else if group = 2 then ENCODING_16BIT
             else ENCODING_8BIT,
             hasMessageClass, m))
      else if dcs AND 0xf0 = 0xf0 then
        (if dcs AND 0x04 = 0 then ENCODING_7BIT else ENCODING_8BIT, True, m)
      else if dcs AND 0xF0 = 0xC0 \<or> dcs AND 0xF0 = 0xD0 \<or> dcs AND 0xF0 = 0xE0 then
        (let active = (dcs AND 0x08 = 0x08) in
         (if dcs AND 0xF0 = 0xE0 then ENCODING_16BIT else ENCODING_7BIT, False,
          if dcs AND 0x03 = 0x00 then
            m\<lparr>mIsMwi := True, mMwiSense := active, mMwiDontStore := (dcs AND 0xF0 = 0xC0),
              mVoiceMailCount := (if active then -1 else 0)\<rparr>
          else m\<lparr>mIsMwi := False\<rparr>))
      else if dcs AND 0xC0 = 0x80 then
        (if dcs = 0x84 then ENCODING_KSC5601 else ENCODING_UNKNOWN, False, m)
      else (ENCODING_UNKNOWN, False, m))"

text \<open>One special message indication of the header.\<close>

definition applySpecial :: "SpecialSmsMsg \<Rightarrow> SmsMessage \<Rightarrow> SmsMessage" where
  "applySpecial sm m =
     (let msgInd = msgIndType sm AND 0xff; dcs = mDataCodingScheme m in
      if msgInd = 0 \<or> msgInd = 0x80 then
        (let m1 = m\<lparr>mIsMwi := True\<rparr>;
             m2 = (if msgInd = 0x80 then m1\<lparr>mMwiDontStore := False\<rparr>
                   else if mMwiDontStore m1 = False then
                     (if \<not> ((dcs AND 0xF0 = 0xD0 \<or> dcs AND 0xF0 = 0xE0) \<and> dcs AND 0x03 = 0x00)
                      then m1\<lparr>mMwiDontStore := True\<rparr> else m1)
                   else m1);
             m3 = m2\<lparr>mVoiceMailCount := msgCount sm AND 0xff\<rparr>
         in m3\<lparr>mMwiSense := (mVoiceMailCount m3 > 0)\<rparr>)
      else m)"

definition messageClassOf :: "bool \<Rightarrow> int \<Rightarrow> MessageClass" where
  "messageClassOf hasMessageClass dcs =
     (if \<not> hasMessageClass then CLASS_UNKNOWN
      else if dcs AND 0x3 = 0 then CLASS_0
      else if dcs AND 0x3 = 1 then CLASS_1
      else if dcs AND 0x3 = 2 then CLASS_2
      else CLASS_3)"

definition parseUserData :: "SmsMessage \<Rightarrow> PduParser \<Rightarrow> bool \<Rightarrow> (SmsMessage \<times> PduParser) res" where
  "parseUserData m0 p hasUserDataHeader =
     (case decodeDataCoding m0 of (encodingType, hasMessageClass, m) \<Rightarrow>
      bnd (constructUserData hasUserDataHeader (encodingType = ENCODING_7BIT) p) (\<lambda>(count, p1).
      let m1 = m\<lparr>mUserData := p_mUserData p1, mUserDataLength := p_mUserDataLength p1,
                 mUserDataHeader := p_mUserDataHeader p1, mEncodingType := encodingType\<rparr>;
          m2 = (case (hasUserDataHeader, mUserDataHeader m1) of
                  (True, Some h) \<Rightarrow> fold applySpecial (mSpecialSmsMsgList h) m1
                | _ \<Rightarrow> m1)
      in Inr (m2\<lparr>mMessageClass := messageClassOf hasMessageClass (mDataCodingScheme m2)\<rparr>, p1)))"

section \<open>Parsing\<close>

definition parseSmsDeliver :: "SmsMessage \<Rightarrow> PduParser \<Rightarrow> int \<Rightarrow> (SmsMessage \<times> PduParser) res" where
  "parseSmsDeliver m p firstByte =
     bnd (getAddress p) (\<lambda>(a, p1).
     bnd (getByte p1) (\<lambda>(pid, p2).
     bnd (getByte p2) (\<lambda>(dcs, p3).
     case getSCTimestampMillis p3 of (millis, p4) \<Rightarrow>
       parseUserData
         (m\<lparr>mReplyPathPresent := (firstByte AND 0x80 = 0x80), mOriginatingAddress := Some a,
            mProtocolIdentifier := pid, mDataCodingScheme := dcs, mScTimeMillis := millis\<rparr>)
         p4 (firstByte AND 0x40 = 0x40))))"

definition parsePdu :: "SmsMessage \<Rightarrow> byte list \<Rightarrow> int \<Rightarrow> SmsMessage res" where
  "parsePdu m pdu len =
     bnd (getSCAddress (newPduParser pdu len)) (\<lambda>(sc, p1).
     bnd (getByte p1) (\<lambda>(firstByte, p2).
     let m1 = m\<lparr>mPdu := pdu, mScAddress := sc, mMti := firstByte AND 0x3\<rparr> in
     if mMti m1 = 0 \<or> mMti m1 = 3 then bnd (parseSmsDeliver m1 p2 firstByte) (\<lambda>(m2, _). Inr m2)
     else Inr m1))"

definition createFromPdu :: "byte list \<Rightarrow> int \<Rightarrow> SmsMessage res" where
  "createFromPdu pdu len = parsePdu newSmsMessage pdu len"

section \<open>Queries\<close>

definition isReplace :: "SmsMessage \<Rightarrow> bool" where
  "isReplace m \<longleftrightarrow>
     mProtocolIdentifier m AND 0xc0 = 0x40 \<and> mProtocolIdentifier m AND 0x3f > 0 \<and>
     mProtocolIdentifier m AND 0x3f < 8"

definition getRefNumber :: "SmsMessage \<Rightarrow> int" where
  "getRefNumber m = (case mUserDataHeader m of None \<Rightarrow> -1 | Some h \<Rightarrow> refNumber (mConcatRef h))"

definition getSeqNumber :: "SmsMessage \<Rightarrow> int" where
  "getSeqNumber m = (case mUserDataHeader m of None \<Rightarrow> -1 | Some h \<Rightarrow> seqNumber (mConcatRef h))"

definition getTotalSegnumber :: "SmsMessage \<Rightarrow> int" where
  "getTotalSegnumber m = (case mUserDataHeader m of None \<Rightarrow> -1 | Some h \<Rightarrow> concatCount (mConcatRef h))"

definition isWapush :: "SmsMessage \<Rightarrow> bool" where
  "isWapush m =
     (case mUserDataHeader m of None \<Rightarrow> False | Some h \<Rightarrow> destPort (mPortAddrs h) = PORT_WAP_PUSH)"

definition isSmsForSUPL :: "SmsMessage \<Rightarrow> bool" where
  "isSmsForSUPL m =
     (case mUserDataHeader m of None \<Rightarrow> False | Some h \<Rightarrow> destPort (mPortAddrs h) = PORT_SUPL)"

definition isConcentratedSms :: "SmsMessage \<Rightarrow> bool" where
  "isConcentratedSms m =
     (case mUserDataHeader m of None \<Rightarrow> False
      | Some h \<Rightarrow> concatCount (mConcatRef h) \<noteq> 0 \<and> seqNumber (mConcatRef h) \<noteq> -1)"

section \<open>The coding scheme table\<close>

text \<open>TS 23.038, section 4, by ranges of the octet.\<close>

definition dcs_encoding :: "int \<Rightarrow> SmsDataCodingScheme" where
  "dcs_encoding d =
     (if d < 0x80 then
        (if d mod 0x40 \<ge> 0x20 then ENCODING_UNKNOWN
         else if d div 4 mod 4 = 0 then ENCODING_7BIT
         else if d div 4 mod 4 = 2 then ENCODING_16BIT else ENCODING_8BIT)
      else if d < 0xC0 then (if d = 0x84 then ENCODING_KSC5601 else ENCODING_UNKNOWN)
      else if d < 0xE0 then ENCODING_7BIT
      else if d < 0xF0 then ENCODING_16BIT
      else if d div 4 mod 2 = 0 then ENCODING_7BIT else ENCODING_8BIT)"

definition dcs_has_class :: "int \<Rightarrow> bool" where
  "dcs_has_class d \<longleftrightarrow> (d < 0x80 \<and> d div 16 mod 2 = 1) \<or> 0xF0 \<le> d"

lemma dcs_table_all:
  "list_all (\<lambda>d. fst (decodeDataCoding (newSmsMessage\<lparr>mDataCodingScheme := d\<rparr>)) = dcs_encoding d \<and>
                 fst (snd (decodeDataCoding (newSmsMessage\<lparr>mDataCodingScheme := d\<rparr>))) = dcs_has_class d)
     (map int [0..<256])"
  by code_simp

lemma decodeDataCoding_fst:
  "fst (decodeDataCoding m) = fst (decodeDataCoding (newSmsMessage\<lparr>mDataCodingScheme := mDataCodingScheme m\<rparr>))"
  "fst (snd (decodeDataCoding m)) =
     fst (snd (decodeDataCoding (newSmsMessage\<lparr>mDataCodingScheme := mDataCodingScheme m\<rparr>)))"
  by (simp_all add: decodeDataCoding_def Let_def)

lemma decodeDataCoding_table:
  assumes "0 \<le> mDataCodingScheme m" "mDataCodingScheme m < 256"
  shows "fst (decodeDataCoding m) = dcs_encoding (mDataCodingScheme m)"
    and "fst (snd (decodeDataCoding m)) = dcs_has_class (mDataCodingScheme m)"
proof -
  have "mDataCodingScheme m \<in> set (map int [0..<256])"
    using assms by (auto intro!: image_eqI [of _ _ "nat (mDataCodingScheme m)"])
  then show "fst (decodeDataCoding m) = dcs_encoding (mDataCodingScheme m)"
    and "fst (snd (decodeDataCoding m)) = dcs_has_class (mDataCodingScheme m)"
    using dcs_table_all unfolding decodeDataCoding_fst [of m] list_all_iff by blast+
qed

section \<open>Frame facts\<close>

lemma applySpecial_frame [simp]:
  "mUserData (applySpecial s m) = mUserData m" "mUserDataLength (applySpecial s m) = mUserDataLength m"
  "mUserDataHeader (applySpecial s m) = mUserDataHeader m" "mEncodingType (applySpecial s m) = mEncodingType m"
  "mDataCodingScheme (applySpecial s m) = mDataCodingScheme m" "mMti (applySpecial s m) = mMti m"
  "mProtocolIdentifier (applySpecial s m) = mProtocolIdentifier m"
  "mReplyPathPresent (applySpecial s m) = mReplyPathPresent m"
  by (simp_all add: applySpecial_def Let_def)

lemma fold_applySpecial_frame [simp]:
  "mUserData (fold applySpecial ss m) = mUserData m"
  "mUserDataLength (fold applySpecial ss m) = mUserDataLength m"
  "mUserDataHeader (fold applySpecial ss m) = mUserDataHeader m"
  "mEncodingType (fold applySpecial ss m) = mEncodingType m"
  "mDataCodingScheme (fold applySpecial ss m) = mDataCodingScheme m"
  "mMti (fold applySpecial ss m) = mMti m"
  "mProtocolIdentifier (fold applySpecial ss m) = mProtocolIdentifier m"
  "mReplyPathPresent (fold applySpecial ss m) = mReplyPathPresent m"
  by (induction ss arbitrary: m) simp_all

lemma decodeDataCoding_frame:
  "decodeDataCoding m = (e, c, m') \<Longrightarrow>
   mUserData m' = mUserData m \<and> mDataCodingScheme m' = mDataCodingScheme m \<and> mMti m' = mMti m \<and>
   mProtocolIdentifier m' = mProtocolIdentifier m \<and> mReplyPathPresent m' = mReplyPathPresent m"
  by (auto simp: decodeDataCoding_def Let_def split: if_splits)

section \<open>Delivered messages\<close>

text \<open>The octets of an SMS-DELIVER (TS 23.040, 9.2.2.1) behind its service centre address.\<close>

definition deliver_bytes ::
  "byte list \<Rightarrow> byte \<Rightarrow> byte \<Rightarrow> byte list \<Rightarrow> byte \<Rightarrow> byte \<Rightarrow> byte list \<Rightarrow> byte \<Rightarrow>
   info_elem list option \<Rightarrow> byte list \<Rightarrow> byte list" where
  "deliver_bytes sc fo al addr pid dcs scts udl hdr ud =
     word_of_nat (length sc) # sc @ fo # al # addr @ pid # dcs # scts @ udl # ud_bytes hdr ud"

definition deliver_wf ::
  "byte list \<Rightarrow> byte \<Rightarrow> byte \<Rightarrow> byte list \<Rightarrow> byte \<Rightarrow> byte list \<Rightarrow> byte \<Rightarrow> info_elem list option \<Rightarrow>
   byte list \<Rightarrow> bool" where
  "deliver_wf sc fo al addr dcs scts udl hdr ud \<longleftrightarrow>
     length sc < 256 \<and> uint fo AND 3 \<in> {0, 3} \<and> (uint fo AND 0x40 = 0x40 \<longleftrightarrow> hdr \<noteq> None) \<and>
     int (length addr) = 1 + (uint al + 1) div 2 \<and> length scts = 7 \<and>
     (\<forall>es. hdr = Some es \<longrightarrow> header_wf es) \<and>
     (dcs_encoding (uint dcs) \<noteq> ENCODING_7BIT \<longrightarrow> uint udl = int (ud_header_len hdr + length ud))"

text \<open>The octets of data in elements of the header whose identifier the parser does not know.\<close>

definition unknownData :: "info_elem list option \<Rightarrow> nat" where
  "unknownData hdr = (case hdr of None \<Rightarrow> 0 | Some es \<Rightarrow> total_misc es)"

abbreviation at :: "byte list \<Rightarrow> nat \<Rightarrow> PduParser" where
  "at pdu i \<equiv> newPduParser pdu (int (length pdu))\<lparr>p_mCur := int i\<rparr>"

lemma getByte_here:
  "pdu = pre @ b # post \<Longrightarrow> i = length pre \<Longrightarrow> getByte (at pdu i) = Inr (uint b, at pdu (Suc i))"
  using getByte_at [of "at pdu i" pre b post] by (simp add: newPduParser_def add.commute)

lemma at_adv: "(at pdu i)\<lparr>p_mCur := int i + int j\<rparr> = at pdu (i + j)"
  by simp

lemma getSCAddress_here:
  assumes "pdu = word_of_nat (length sc) # sc @ post" "length sc < 256"
  shows "getSCAddress (newPduParser pdu (int (length pdu))) = Inr ([], at pdu (Suc (length sc)))"
proof -
  have "newPduParser pdu (int (length pdu)) = at pdu 0" by (simp add: newPduParser_def)
  moreover have "getByte (at pdu 0) = Inr (int (length sc), at pdu 1)"
    using getByte_here [of pdu "[]" "word_of_nat (length sc)" "sc @ post" 0] assms
    by (simp add: uint_byte_of_nat)
  ultimately show ?thesis by (simp add: getSCAddress_def add.commute)
qed

lemma getAddress_here:
  assumes pdu: "pdu = pre @ al # addr @ post" and len: "int (length addr) = 1 + (uint al + 1) div 2"
  shows "\<exists>a. getAddress (at pdu (length pre)) = Inr (a, at pdu (length pre + 1 + length addr))"
proof -
  have rd: "rdi pdu (int (length pre)) = Inr (uint al)" using pdu by simp
  have "0 \<le> uint al" by simp
  then have "2 \<le> 2 + (uint al + 1) div 2" "2 + (uint al + 1) div 2 \<le> int (length pdu)"
    using pdu len by simp_all
  from newGsmSmsAddress_ok [OF this] obtain a
    where "newGsmSmsAddress pdu (2 + (uint al + 1) div 2) = Inr a" by blast
  with rd len show ?thesis
    by (simp add: getAddress_def Let_def newPduParser_def)
qed

lemma parseUserData_here:
  assumes "\<forall>es. hdr = Some es \<longrightarrow> header_ok es" "pdu = pre @ udl # ud_bytes hdr ud"
    and "0 \<le> mDataCodingScheme m" "mDataCodingScheme m < 256"
    and "dcs_encoding (mDataCodingScheme m) \<noteq> ENCODING_7BIT \<longrightarrow> uint udl = int (ud_header_len hdr + length ud)"
  shows "\<exists>m' p'. parseUserData m (at pdu (length pre)) (hdr \<noteq> None) = Inr (m', p') \<and>
     mUserData m' = Some ud \<and> mUserDataLength m' = int (length ud) \<and> mUserDataHeader m' = ud_header hdr \<and>
     mEncodingType m' = dcs_encoding (mDataCodingScheme m) \<and>
     mMessageClass m' = messageClassOf (dcs_has_class (mDataCodingScheme m)) (mDataCodingScheme m) \<and>
     mMti m' = mMti m \<and> mDataCodingScheme m' = mDataCodingScheme m \<and>
     mProtocolIdentifier m' = mProtocolIdentifier m \<and> mReplyPathPresent m' = mReplyPathPresent m"
proof -
  obtain e c m1 where d: "decodeDataCoding m = (e, c, m1)" by (cases "decodeDataCoding m") auto
  then have e: "e = dcs_encoding (mDataCodingScheme m)" "c = dcs_has_class (mDataCodingScheme m)"
    using decodeDataCoding_table [OF assms(3,4)] by simp_all
  obtain count p' where "constructUserData (hdr \<noteq> None) (e = ENCODING_7BIT) (at pdu (length pre)) = Inr (count, p')"
      "p_mUserData p' = Some ud" "p_mUserDataLength p' = int (length ud)" "p_mUserDataHeader p' = ud_header hdr"
    using constructUserData_ok [of hdr "at pdu (length pre)" pre udl ud "e = ENCODING_7BIT"] assms(1,2,5) e
    by (auto simp: newPduParser_def)
  then show ?thesis
    using decodeDataCoding_frame [OF d] d e
    by (cases hdr) (simp_all add: parseUserData_def Let_def ud_header_def split: option.splits)
qed

lemma createFromPdu_reaches:
  assumes ok: "deliver_wf sc fo al addr dcs scts udl hdr ud"
    and pdu: "pdu = deliver_bytes sc fo al addr pid dcs scts udl hdr ud"
  shows "\<exists>pre m. pdu = pre @ udl # ud_bytes hdr ud \<and>
     createFromPdu pdu (int (length pdu)) = bnd (parseUserData m (at pdu (length pre)) (hdr \<noteq> None)) (\<lambda>(m', p'). Inr m') \<and>
     mMti m = uint fo AND 3 \<and> mDataCodingScheme m = uint dcs \<and> mProtocolIdentifier m = uint pid \<and>
     mReplyPathPresent m = (uint fo AND 0x80 = 0x80)"
proof -
  let ?s = "(word_of_nat (length sc) :: byte) # sc"
  let ?a = "?s @ fo # al # addr"
  have s1: "getSCAddress (newPduParser pdu (int (length pdu))) = Inr ([], at pdu (length ?s))"
    using getSCAddress_here [of pdu sc] ok pdu by (simp add: deliver_wf_def deliver_bytes_def)
  have s2: "getByte (at pdu (length ?s)) = Inr (uint fo, at pdu (length (?s @ [fo])))"
  proof -
    have "pdu = ?s @ fo # al # addr @ pid # dcs # scts @ udl # ud_bytes hdr ud"
      using pdu by (simp add: deliver_bytes_def)
    from getByte_here [OF this refl] show ?thesis by simp
  qed
  obtain a where s3: "getAddress (at pdu (length (?s @ [fo]))) = Inr (a, at pdu (length ?a))"
    using getAddress_here [of pdu "?s @ [fo]" al addr] ok pdu by (auto simp: deliver_wf_def deliver_bytes_def)
  have s4: "getByte (at pdu (length ?a)) = Inr (uint pid, at pdu (length (?a @ [pid])))"
  proof -
    have "pdu = ?a @ pid # dcs # scts @ udl # ud_bytes hdr ud"
      using pdu by (simp add: deliver_bytes_def)
    from getByte_here [OF this refl] show ?thesis by simp
  qed
  have s5: "getByte (at pdu (length (?a @ [pid]))) = Inr (uint dcs, at pdu (length (?a @ [pid, dcs])))"
  proof -
    have "pdu = (?a @ [pid]) @ dcs # scts @ udl # ud_bytes hdr ud"
      using pdu by (simp add: deliver_bytes_def)
    from getByte_here [OF this refl] show ?thesis by simp
  qed
  have s6: "getSCTimestampMillis (at pdu (length (?a @ [pid, dcs]))) = (0, at pdu (length (?a @ pid # dcs # scts)))"
    using ok by (simp add: getSCTimestampMillis_def deliver_wf_def)
  have uh: "uint fo AND 0x40 = 0x40 \<longleftrightarrow> hdr \<noteq> None" and mti: "uint fo AND 3 = 0 \<or> uint fo AND 3 = 3"
    using ok by (auto simp: deliver_wf_def)
  let ?m = "newSmsMessage\<lparr>mPdu := pdu, mScAddress := [], mMti := uint fo AND 3\<rparr>
      \<lparr>mReplyPathPresent := (uint fo AND 0x80 = 0x80), mOriginatingAddress := Some a,
       mProtocolIdentifier := uint pid, mDataCodingScheme := uint dcs, mScTimeMillis := 0\<rparr>"
  let ?pre = "?a @ pid # dcs # scts"
  have "parseSmsDeliver (newSmsMessage\<lparr>mPdu := pdu, mScAddress := [], mMti := uint fo AND 3\<rparr>)
      (at pdu (length (?s @ [fo]))) (uint fo) = parseUserData ?m (at pdu (length ?pre)) (hdr \<noteq> None)"
    unfolding parseSmsDeliver_def s3 bnd.simps prod.case s4 s5 s6 uh by (rule refl)
  then have "createFromPdu pdu (int (length pdu)) =
      bnd (parseUserData ?m (at pdu (length ?pre)) (hdr \<noteq> None)) (\<lambda>(m', p'). Inr m')"
    unfolding createFromPdu_def parsePdu_def s1 bnd.simps prod.case s2 Let_def using mti by simp
  moreover have "pdu = ?pre @ udl # ud_bytes hdr ud" using pdu by (simp add: deliver_bytes_def)
  ultimately show ?thesis by (intro exI [of _ ?pre] exI [of _ ?m] conjI) simp_all
qed

lemma createFromPdu_ok:
  assumes ok: "deliver_wf sc fo al addr dcs scts udl hdr ud" and known: "unknownData hdr = 0"
    and pdu: "pdu = deliver_bytes sc fo al addr pid dcs scts udl hdr ud"
  shows "\<exists>m. createFromPdu pdu (int (length pdu)) = Inr m \<and> mUserData m = Some ud \<and>
     mUserDataLength m = int (length ud) \<and> mUserDataHeader m = ud_header hdr \<and>
     mEncodingType m = dcs_encoding (uint dcs) \<and>
     mMessageClass m = messageClassOf (dcs_has_class (uint dcs)) (uint dcs) \<and>
     mMti m = uint fo AND 3 \<and> mDataCodingScheme m = uint dcs \<and> mProtocolIdentifier m = uint pid \<and>
     mReplyPathPresent m = (uint fo AND 0x80 = 0x80)"
proof -
  from createFromPdu_reaches [OF ok pdu] obtain pre m where r: "pdu = pre @ udl # ud_bytes hdr ud"
    "createFromPdu pdu (int (length pdu)) = bnd (parseUserData m (at pdu (length pre)) (hdr \<noteq> None)) (\<lambda>(m', p'). Inr m')"
    "mMti m = uint fo AND 3" "mDataCodingScheme m = uint dcs" "mProtocolIdentifier m = uint pid"
    "mReplyPathPresent m = (uint fo AND 0x80 = 0x80)" by blast
  have hdr: "\<forall>es. hdr = Some es \<longrightarrow> header_ok es"
    using ok known by (auto simp: deliver_wf_def unknownData_def header_ok_def)
  obtain m' p' where "parseUserData m (at pdu (length pre)) (hdr \<noteq> None) = Inr (m', p')"
     "mUserData m' = Some ud" "mUserDataLength m' = int (length ud)" "mUserDataHeader m' = ud_header hdr"
     "mEncodingType m' = dcs_encoding (mDataCodingScheme m)"
     "mMessageClass m' = messageClassOf (dcs_has_class (mDataCodingScheme m)) (mDataCodingScheme m)"
     "mMti m' = mMti m" "mDataCodingScheme m' = mDataCodingScheme m" "mProtocolIdentifier m' = mProtocolIdentifier m"
     "mReplyPathPresent m' = mReplyPathPresent m"
    using parseUserData_here [OF hdr r(1), of m] ok r(4) by (auto simp: deliver_wf_def)
  then show ?thesis by (intro exI [of _ m'] conjI) (simp_all only: r(2-6) bnd.simps prod.case)
qed

lemma createFromPdu_unknown:
  assumes ok: "deliver_wf sc fo al addr dcs scts udl hdr ud" and unknown: "unknownData hdr \<noteq> 0"
    and pdu: "pdu = deliver_bytes sc fo al addr pid dcs scts udl hdr ud"
  shows "createFromPdu pdu (int (length pdu)) = Inl OutOfBounds"
proof -
  from createFromPdu_reaches [OF ok pdu] obtain pre m where r: "pdu = pre @ udl # ud_bytes hdr ud"
    "createFromPdu pdu (int (length pdu)) = bnd (parseUserData m (at pdu (length pre)) (hdr \<noteq> None)) (\<lambda>(m', p'). Inr m')"
    by blast
  obtain es where es: "hdr = Some es" "header_wf es" "total_misc es \<noteq> 0"
    using ok unknown by (auto simp: deliver_wf_def unknownData_def split: option.splits)
  have "constructUserData True septets (at pdu (length pre)) = Inl OutOfBounds" for septets
    by (rule constructUserData_unknown [OF es(2,3), of _ pre udl ud]) (simp_all add: newPduParser_def r(1) es(1))
  then have "parseUserData m (at pdu (length pre)) True = Inl OutOfBounds"
    by (simp add: parseUserData_def split: prod.split)
  then show ?thesis by (simp add: r(2) es(1))
qed

section \<open>Voice mail indications\<close>

definition is_voicemail :: "SpecialSmsMsg \<Rightarrow> bool" where
  "is_voicemail s \<longleftrightarrow> msgIndType s AND 0xff = 0 \<or> msgIndType s AND 0xff = 0x80"

lemma applySpecial_voicemail:
  "is_voicemail s \<Longrightarrow> mIsMwi (applySpecial s m) \<and> mVoiceMailCount (applySpecial s m) = msgCount s AND 0xff \<and>
     mMwiSense (applySpecial s m) = (msgCount s AND 0xff > 0)"
  by (auto simp: applySpecial_def is_voicemail_def Let_def)

lemma applySpecial_other: "\<not> is_voicemail s \<Longrightarrow> applySpecial s m = m"
  by (auto simp: applySpecial_def is_voicemail_def Let_def)

lemma fold_applySpecial:
  assumes "filter is_voicemail ss \<noteq> []"
  shows "mIsMwi (fold applySpecial ss m) \<and>
     mVoiceMailCount (fold applySpecial ss m) = msgCount (last (filter is_voicemail ss)) AND 0xff \<and>
     mMwiSense (fold applySpecial ss m) = (msgCount (last (filter is_voicemail ss)) AND 0xff > 0)"
  using assms
proof (induction ss rule: rev_induct)
  case Nil
  then show ?case by simp
next
  case (snoc s ss)
  then show ?case
    by (cases "is_voicemail s") (auto simp: applySpecial_voicemail applySpecial_other)
qed

lemma parseUserData_special:
  assumes "parseUserData m p True = Inr (m', p')" "mUserDataHeader m' = Some h"
    and "filter is_voicemail (mSpecialSmsMsgList h) \<noteq> []"
  shows "mIsMwi m' \<and> mVoiceMailCount m' = msgCount (last (filter is_voicemail (mSpecialSmsMsgList h))) AND 0xff \<and>
     mMwiSense m' = (msgCount (last (filter is_voicemail (mSpecialSmsMsgList h))) AND 0xff > 0)"
proof -
  obtain e c m1 where d: "decodeDataCoding m = (e, c, m1)" by (cases "decodeDataCoding m") auto
  with assms(1) obtain n p1 where "constructUserData True (e = ENCODING_7BIT) p = Inr (n, p1)"
    by (auto simp: parseUserData_def bnd_eq_Inr split: prod.splits)
  with assms d show ?thesis
    using fold_applySpecial [OF assms(3)]
    by (auto simp: parseUserData_def Let_def split: option.splits)
qed

lemma fromByteArray_concat: "fromByteArray d n = Inr h \<Longrightarrow> concat_ok (mConcatRef h)"
  unfolding fromByteArray_def
  by (erule headerLoop_concat_ok) (simp add: newSmsHeader_def concat_ok_def)

lemma takeUserDataHeader_concat:
  assumes "takeUserDataHeader p off = Inr (a, b, c, p')"
  shows "\<exists>h. p_mUserDataHeader p' = Some h \<and> concat_ok (mConcatRef h)"
proof -
  obtain n udh h where "fromByteArray udh n = Inr h" "p_mUserDataHeader p' = Some h"
    using assms unfolding takeUserDataHeader_def Let_def bnd_eq_Inr by auto
  with fromByteArray_concat show ?thesis by blast
qed

lemma constructUserData_header:
  assumes "constructUserData hdr b p = Inr (n, p')" "p_mUserDataHeader p = None"
  shows "p_mUserDataHeader p' = None \<or> (\<exists>h. p_mUserDataHeader p' = Some h \<and> concat_ok (mConcatRef h))"
proof -
  obtain udl r where u: "(if hdr then takeUserDataHeader p (p_mCur p + 1) else Inr (p_mCur p + 1, 0, 0, p)) = Inr r"
      "(case r of (offset, hl, hs, p1) \<Rightarrow>
         let bufferLen = (if b then p_mPduLength p1 - offset else max 0 (udl - (if hdr then hl + 1 else 0)))
         in bnd (chk (0 \<le> bufferLen) BadAlloc) (\<lambda>_.
            bnd (rd_block (p_mPdu p1) offset bufferLen) (\<lambda>ud.
            let p2 = p1\<lparr>p_mUserDataLength := bufferLen, p_mUserData := Some ud, p_mCur := offset\<rparr> in
            if b then Inr (if udl - hs < 0 then 0 else udl - hs, p2) else Inr (bufferLen, p2)))) = Inr (n, p')"
    using assms(1) unfolding constructUserData_def by (elim bndE) blast
  obtain off hl hs p1 where r: "r = (off, hl, hs, p1)" by (cases r) auto
  have p': "p_mUserDataHeader p' = p_mUserDataHeader p1"
    using u(2) unfolding r prod.case Let_def by (elim bndE) (cases b; force)
  note p1 = u(1) [unfolded r] p'
  show ?thesis
  proof (cases hdr)
    case True
    with p1 takeUserDataHeader_concat show ?thesis by fastforce
  next
    case False
    with p1 assms(2) show ?thesis by simp
  qed
qed

lemma getAddress_frame:
  "getAddress p = Inr (a, p') \<Longrightarrow> p_mUserDataHeader p' = p_mUserDataHeader p"
  by (auto simp: getAddress_def Let_def bnd_eq_Inr)

lemma getByte_frame: "getByte p = Inr (b, p') \<Longrightarrow> p_mUserDataHeader p' = p_mUserDataHeader p"
  by (auto simp: getByte_def bnd_eq_Inr)

lemma parseSmsDeliver_concat:
  assumes "parseSmsDeliver m p fb = Inr (m', p')" "p_mUserDataHeader p = None"
  shows "mUserDataHeader m' = None \<or> (\<exists>h. mUserDataHeader m' = Some h \<and> concat_ok (mConcatRef h))"
proof -
  obtain m1 p4 where u: "parseUserData m1 p4 (fb AND 0x40 = 0x40) = Inr (m', p')" "p_mUserDataHeader p4 = None"
    using assms by (auto simp: parseSmsDeliver_def bnd_eq_Inr getSCTimestampMillis_def
        dest!: getAddress_frame getByte_frame)
  obtain e c m2 where d: "decodeDataCoding m1 = (e, c, m2)" by (cases "decodeDataCoding m1") auto
  with u obtain n p5 where cu: "constructUserData (fb AND 0x40 = 0x40) (e = ENCODING_7BIT) p4 = Inr (n, p5)"
      "mUserDataHeader m' = p_mUserDataHeader p5"
    by (auto simp: parseUserData_def bnd_eq_Inr Let_def split: option.splits bool.splits)
  with constructUserData_header [OF cu(1)] u(2) show ?thesis by simp
qed

lemma createFromPdu_concat:
  assumes "createFromPdu pdu len = Inr m"
  shows "mUserDataHeader m = None \<or> (\<exists>h. mUserDataHeader m = Some h \<and> concat_ok (mConcatRef h))"
  using assms
  by (auto simp: createFromPdu_def parsePdu_def bnd_eq_Inr Let_def newSmsMessage_def newPduParser_def
      getSCAddress_def dest!: getByte_frame dest: parseSmsDeliver_concat split: if_splits)

text \<open>What \<open>isConcentratedSms\<close> promises its callers.\<close>

lemma isConcentratedSms_segment:
  assumes "createFromPdu pdu len = Inr m" "isConcentratedSms m"
  shows "1 \<le> getSeqNumber m \<and> getSeqNumber m \<le> getTotalSegnumber m \<and> getTotalSegnumber m \<le> 255 \<and>
         0 \<le> getRefNumber m \<and> getRefNumber m < 65536"
  using createFromPdu_concat [OF assms(1)] assms(2)
  by (auto simp: isConcentratedSms_def getSeqNumber_def getTotalSegnumber_def getRefNumber_def
      concat_ok_def noConcat_def)

section \<open>Properties\<close>

text \<open>C24. Every well-formed SMS-DELIVER whose header has no data in elements of unknown identifiers is parsed: the
  user data and its header are found behind
  the service centre address, the originating address and the fixed fields, and the encoding and
  the message class are those of the coding scheme table. Every other well-formed one, which has an element that the parser does
  not know and that carries data, is read out of bounds: the branch for such elements advances the pointer but not the index
  the loop is bounded by.\<close>

theorem createFromPdu_deliver:
  assumes "deliver_wf sc fo al addr dcs scts udl hdr ud"
    and "pdu = deliver_bytes sc fo al addr pid dcs scts udl hdr ud"
  shows "if unknownData hdr = 0
     then \<exists>m. createFromPdu pdu (int (length pdu)) = Inr m \<and>
       mUserData m = Some ud \<and> mUserDataLength m = int (length ud) \<and> mUserDataHeader m = ud_header hdr \<and>
       mEncodingType m = dcs_encoding (uint dcs) \<and>
       mMessageClass m = messageClassOf (dcs_has_class (uint dcs)) (uint dcs) \<and>
       mMti m = uint fo AND 3 \<and> mDataCodingScheme m = uint dcs \<and> mProtocolIdentifier m = uint pid \<and>
       mReplyPathPresent m = (uint fo AND 0x80 = 0x80)
     else createFromPdu pdu (int (length pdu)) = Inl OutOfBounds"
  using createFromPdu_ok [OF assms(1) _ assms(2)] createFromPdu_unknown [OF assms(1) _ assms(2)] by simp

text \<open>A message to a WAP port, and the same one with an element 0x0a of two octets in its header.\<close>

definition exDeliver :: "info_elem list \<Rightarrow> byte list" where
  "exDeliver es = deliver_bytes [0x91, 0x68] 0x40 3 [0x91, 0x21, 0xf3] 0 0x04 [1, 2, 3, 4, 5, 6, 7]
     (word_of_nat (length (header_bytes es) + 2)) (Some es) [0x41, 0x42]"

theorem createFromPdu_deliver_witness:
  "(\<exists>m. createFromPdu (exDeliver [Ports16 0x0b 0x84 0x23 0xf0]) (int (length (exDeliver [Ports16 0x0b 0x84 0x23 0xf0]))) = Inr m \<and>
     mUserData m = Some [0x41, 0x42] \<and> mUserDataHeader m = ud_header (Some [Ports16 0x0b 0x84 0x23 0xf0])) \<and>
   createFromPdu (exDeliver [Ports16 0x0b 0x84 0x23 0xf0, Misc 0x0a [1, 2]])
     (int (length (exDeliver [Ports16 0x0b 0x84 0x23 0xf0, Misc 0x0a [1, 2]]))) = Inl OutOfBounds"
proof -
  have wf: "deliver_wf [0x91, 0x68] 0x40 3 [0x91, 0x21, 0xf3] 0x04 [1, 2, 3, 4, 5, 6, 7]
      (word_of_nat (length (header_bytes es) + 2)) (Some es) [0x41, 0x42]"
    if "es = [Ports16 0x0b 0x84 0x23 0xf0] \<or> es = [Ports16 0x0b 0x84 0x23 0xf0, Misc 0x0a [1, 2]]" for es
    using that by (auto simp: deliver_wf_def header_wf_def known_ids_def ud_header_len_def header_bytes_def)
  show ?thesis
    using createFromPdu_deliver [OF wf exDeliver_def, of "[Ports16 0x0b 0x84 0x23 0xf0]"]
      createFromPdu_deliver [OF wf exDeliver_def, of "[Ports16 0x0b 0x84 0x23 0xf0, Misc 0x0a [1, 2]]"]
    by (auto simp: unknownData_def)
qed

text \<open>Whatever a PDU holds, a message the dispatcher takes for a segment has a sequence
  number between 1 and its count, at most 255 segments, and a 16-bit reference.\<close>

theorem segment_numbers_valid:
  assumes "createFromPdu pdu len = Inr m" "isConcentratedSms m"
  shows "1 \<le> getSeqNumber m \<and> getSeqNumber m \<le> getTotalSegnumber m \<and> getTotalSegnumber m \<le> 255 \<and>
         0 \<le> getRefNumber m \<and> getRefNumber m < 65536"
  by (rule isConcentratedSms_segment [OF assms])

theorem segment_numbers_valid_witness:
  "\<exists>m. createFromPdu [0, 0x40, 0, 0x91, 0, 4, 1, 2, 3, 4, 5, 6, 7, 7, 5, 0, 3, 9, 2, 1, 0x41] 21 = Inr m \<and>
     1 \<le> getSeqNumber m \<and> getSeqNumber m \<le> getTotalSegnumber m \<and> getTotalSegnumber m \<le> 255 \<and>
     0 \<le> getRefNumber m \<and> getRefNumber m < 65536"
proof -
  let ?pdu = "[0, 0x40, 0, 0x91, 0, 4, 1, 2, 3, 4, 5, 6, 7, 7, 5, 0, 3, 9, 2, 1, 0x41] :: byte list"
  have "case createFromPdu ?pdu 21 of Inl _ \<Rightarrow> False | Inr m \<Rightarrow> isConcentratedSms m" by code_simp
  then obtain m where "createFromPdu ?pdu 21 = Inr m" "isConcentratedSms m" by (auto split: sum.splits)
  with segment_numbers_valid [of ?pdu 21 m] show ?thesis by blast
qed

text \<open>When the header carries voice mail indications, the last one decides: the message is a
  waiting indication, its count is the indication's, and the notification is set exactly when the
  count is positive, whatever the coding scheme said.\<close>

theorem voicemail_header_overrides:
  assumes "parseUserData m p True = Inr (m', p')" "mUserDataHeader m' = Some h"
    and "filter is_voicemail (mSpecialSmsMsgList h) \<noteq> []"
  shows "mIsMwi m' \<and> mVoiceMailCount m' = msgCount (last (filter is_voicemail (mSpecialSmsMsgList h))) AND 0xff \<and>
     mMwiSense m' = (msgCount (last (filter is_voicemail (mSpecialSmsMsgList h))) AND 0xff > 0)"
  by (rule parseUserData_special [OF assms])

theorem voicemail_header_overrides_witness:
  "\<exists>m' p' h. parseUserData (newSmsMessage\<lparr>mDataCodingScheme := 0xC0\<rparr>)
       (newPduParser [9, 8, 1, 2, 0x80, 3, 1, 2, 0, 5] 10) True = Inr (m', p') \<and> mUserDataHeader m' = Some h \<and>
     mIsMwi m' \<and> mVoiceMailCount m' = msgCount (last (filter is_voicemail (mSpecialSmsMsgList h))) AND 0xff \<and>
     mMwiSense m' = (msgCount (last (filter is_voicemail (mSpecialSmsMsgList h))) AND 0xff > 0)"
proof -
  let ?m = "newSmsMessage\<lparr>mDataCodingScheme := 0xC0\<rparr>"
  let ?p = "newPduParser [9, 8, 1, 2, 0x80, 3, 1, 2, 0, 5] 10"
  have "case parseUserData ?m ?p True of Inl _ \<Rightarrow> False
        | Inr (m', p') \<Rightarrow> (case mUserDataHeader m' of None \<Rightarrow> False
            | Some h \<Rightarrow> filter is_voicemail (mSpecialSmsMsgList h) \<noteq> [])" by code_simp
  then obtain m' p' h where "parseUserData ?m ?p True = Inr (m', p')" "mUserDataHeader m' = Some h"
      "filter is_voicemail (mSpecialSmsMsgList h) \<noteq> []"
    by (auto split: sum.splits option.splits)
  with voicemail_header_overrides [of ?m ?p m' p' h] show ?thesis by blast
qed

end
