(* ===== verification/WapTables.thy ===== *)
theory WapTables
  imports SmsUtils
begin

text \<open>
  The well-known values of \<open>WappushPduParser::initWapParaMap\<close> (\<open>telcore/sms/parser/PduParser.cpp\<close>),
  in the order of the \<open>insert\<close> calls; an \<open>insert\<close> keeps an existing entry, so the first pair
  counts. The maps are static and start empty; \<open>operator[]\<close> on a missing key yields the empty
  string.
\<close>

definition MIME_TYPES :: "(int \<times> string) list" where
  "MIME_TYPES =
     [(0x00, ''*/*''), (0x01, ''text/*''), (0x02, ''text/html''), (0x03, ''text/plain''),
      (0x04, ''text/x-hdml''), (0x05, ''text/x-ttml''), (0x06, ''text/x-vCalendar''),
      (0x07, ''text/x-vCard''), (0x08, ''text/vnd.wap.wml''), (0x09, ''text/vnd.wap.wmlscript''),
      (0x0A, ''text/vnd.wap.wta-event''), (0x0B, ''multipart/*''), (0x0C, ''multipart/mixed''),
      (0x0D, ''multipart/form-data''), (0x0E, ''multipart/byterantes''),
      (0x0F, ''multipart/alternative''), (0x10, ''application/*''),
      (0x11, ''application/java-vm''), (0x12, ''application/x-www-form-urlencoded''),
      (0x13, ''application/x-hdmlc''), (0x14, ''application/vnd.wap.wmlc''),
      (0x15, ''application/vnd.wap.wmlscriptc''), (0x16, ''application/vnd.wap.wta-eventc''),
      (0x17, ''application/vnd.wap.uaprof''), (0x18, ''application/vnd.wap.wtls-ca-certificate''),
      (0x19, ''application/vnd.wap.wtls-user-certificate''),
      (0x1A, ''application/x-x509-ca-cert''), (0x1B, ''application/x-x509-user-cert''),
      (0x1C, ''image/*''), (0x1D, ''image/gif''), (0x1E, ''image/jpeg''), (0x1F, ''image/tiff''),
      (0x20, ''image/png''), (0x21, ''image/vnd.wap.wbmp''),
      (0x22, ''application/vnd.wap.multipart.*''),
      (0x23, ''application/vnd.wap.multipart.mixed''),
      (0x24, ''application/vnd.wap.multipart.form-data''),
      (0x25, ''application/vnd.wap.multipart.byteranges''),
      (0x26, ''application/vnd.wap.multipart.alternative''), (0x27, ''application/xml''),
      (0x28, ''text/xml''), (0x29, ''application/vnd.wap.wbxml''),
      (0x2A, ''application/x-x968-cross-cert''), (0x2B, ''application/x-x968-ca-cert''),
      (0x2C, ''application/x-x968-user-cert''), (0x2D, ''text/vnd.wap.si''),
      (0x2E, ''application/vnd.wap.sic''), (0x2F, ''text/vnd.wap.sl''),
      (0x30, ''application/vnd.wap.slc''), (0x31, ''text/vnd.wap.co''),
      (0x32, ''application/vnd.wap.coc''), (0x33, ''application/vnd.wap.multipart.related''),
      (0x34, ''application/vnd.wap.sia''), (0x35, ''text/vnd.wap.connectivity-xml''),
      (0x36, ''application/vnd.wap.connectivity-wbxml''), (0x37, ''application/pkcs7-mime''),
      (0x38, ''application/vnd.wap.hashed-certificate''),
      (0x39, ''application/vnd.wap.signed-certificate''),
      (0x3A, ''application/vnd.wap.cert-response''), (0x3B, ''application/xhtml+xml''),
      (0x3C, ''application/wml+xml''), (0x3D, ''text/css''),
      (0x3E, ''application/vnd.wap.mms-message''),
      (0x3F, ''application/vnd.wap.rollover-certificate''),
      (0x40, ''application/vnd.wap.locc+wbxml''), (0x41, ''application/vnd.wap.loc+xml''),
      (0x42, ''application/vnd.syncml.dm+wbxml''), (0x43, ''application/vnd.syncml.dm+xml''),
      (0x44, ''application/vnd.syncml.notification''), (0x45, ''application/vnd.wap.xhtml+xml''),
      (0x46, ''application/vnd.wv.csp.cir''), (0x47, ''application/vnd.oma.dd+xml''),
      (0x48, ''application/vnd.oma.drm.message''), (0x49, ''application/vnd.oma.drm.content''),
      (0x4A, ''application/vnd.oma.drm.rights+xml''),
      (0x4B, ''application/vnd.oma.drm.rights+wbxml''), (0x4C, ''application/vnd.wv.csp+xml''),
      (0x4D, ''application/vnd.wv.csp+wbxml''),
      (0x4E, ''application/vnd.syncml.ds.notification''), (0x4F, ''audio/*''),
      (0x50, ''video/*''), (0x51, ''application/vnd.oma.dd2+xml''), (0x52, ''application/mikey''),
      (0x53, ''application/vnd.oma.dcd''), (0x54, ''application/vnd.oma.dcdc''),
      (0x0201, ''application/vnd.uplanet.cacheop-wbxml''),
      (0x0202, ''application/vnd.uplanet.signal''),
      (0x0203, ''application/vnd.uplanet.alert-wbxml''),
      (0x0204, ''application/vnd.uplanet.list-wbxml''),
      (0x0205, ''application/vnd.uplanet.listcmd-wbxml''),
      (0x0206, ''application/vnd.uplanet.channel-wbxml''),
      (0x0207, ''application/vnd.uplanet.provisioning-status-uri''),
      (0x0208, ''x-wap.multipart/vnd.uplanet.header-set''),
      (0x0209, ''application/vnd.uplanet.bearer-choice-wbxml''),
      (0x020A, ''application/vnd.phonecom.mmc-wbxml''),
      (0x020B, ''application/vnd.nokia.syncset+wbxml''), (0x020C, ''image/x-up-wpng''),
      (0x0300, ''application/iota.mmc-wbxml''), (0x0301, ''application/iota.mmc-xml''),
      (0x0302, ''application/vnd.syncml+xml''), (0x0303, ''application/vnd.syncml+wbxml''),
      (0x0304, ''text/vnd.wap.emn+xml''), (0x0305, ''text/calendar''),
      (0x0306, ''application/vnd.omads-email+xml''), (0x0307, ''application/vnd.omads-file+xml''),
      (0x0308, ''application/vnd.omads-folder+xml''), (0x0309, ''text/directory;profile=vCard''),
      (0x030A, ''application/vnd.wap.emn+wbxml''),
      (0x030B, ''application/vnd.nokia.ipdc-purchase-response''),
      (0x030C, ''application/vnd.motorola.screen3+xml''),
      (0x030D, ''application/vnd.motorola.screen3+gzip''),
      (0x030E, ''application/vnd.cmcc.setting+wbxml''),
      (0x030F, ''application/vnd.cmcc.bombing+wbxml''), (0x0310, ''application/vnd.docomo.pf''),
      (0x0311, ''application/vnd.docomo.ub''), (0x0312, ''application/vnd.omaloc-supl-init''),
      (0x0313, ''application/vnd.oma.group-usage-list+xml''),
      (0x0314, ''application/oma-directory+xml''), (0x0315, ''application/vnd.docomo.pf2''),
      (0x0316, ''application/vnd.oma.drm.roap-trigger+wbxml''),
      (0x0317, ''application/vnd.sbm.mid2''), (0x0318, ''application/vnd.wmf.bootstrap''),
      (0x0319, ''application/vnc.cmcc.dcd+xml''), (0x031A, ''application/vnd.sbm.cid''),
      (0x031B, ''application/vnd.oma.bcast.provisioningtrigger'')]"

definition PARAMETERS :: "(int \<times> string) list" where
  "PARAMETERS =
     [(0x00, ''Q''), (0x01, ''Charset''), (0x02, ''Level''), (0x03, ''Type''),
      (0x07, ''Differences''), (0x08, ''Padding''), (0x09, ''Type''), (0x0E, ''Max-Age''),
      (0x10, ''Secure''), (0x11, ''SEC''), (0x12, ''MAC''), (0x13, ''Creation-date''),
      (0x14, ''Modification-date''), (0x15, ''Read-date''), (0x16, ''Size''), (0x17, ''Name''),
      (0x18, ''Filename''), (0x19, ''Start''), (0x1A, ''Start-info''), (0x1B, ''Comment''),
      (0x1C, ''Domain''), (0x1D, ''Path'')]"

definition HEADERS :: "(int \<times> string) list" where
  "HEADERS =
     [(0x00, ''Accept''), (0x01, ''Accept-Charset''), (0x02, ''Accept-Encoding''),
      (0x03, ''Accept-Language''), (0x04, ''Accept-Ranges''), (0x05, ''Age''), (0x06, ''Allow''),
      (0x07, ''Authorization''), (0x08, ''Cache-Control''), (0x09, ''Connection''),
      (0x0A, ''Content-Base''), (0x0B, ''Content-Encoding''), (0x0C, ''Content-Language''),
      (0x0D, ''Content-Length''), (0x0E, ''Content-Location''), (0x0F, ''Content-MD5''),
      (0x10, ''Content-Range''), (0x11, ''Content-Type''), (0x12, ''Date''), (0x13, ''Etag''),
      (0x14, ''Expires''), (0x15, ''From''), (0x16, ''Host''), (0x17, ''If-Modified-Since''),
      (0x18, ''If-Match''), (0x19, ''If-None-Match''), (0x1A, ''If-Range''),
      (0x1B, ''If-Unmodified-Since''), (0x1C, ''Location''), (0x1D, ''Last-Modified''),
      (0x1E, ''Max-Forwards''), (0x1F, ''Pragma''), (0x20, ''Proxy-Authenticate''),
      (0x21, ''Proxy-Authorization''), (0x22, ''Public''), (0x23, ''Range''), (0x24, ''Referer''),
      (0x25, ''Retry-After''), (0x26, ''Server''), (0x27, ''Transfer-Encoding''),
      (0x28, ''Upgrade''), (0x29, ''User-Agent''), (0x2A, ''Vary''), (0x2B, ''Via''),
      (0x2C, ''Warning''), (0x2D, ''WWW-Authenticate''), (0x2E, ''Content-Disposition''),
      (0x2F, ''X-Wap-Application-Id''), (0x30, ''X-Wap-Content-URI''),
      (0x31, ''X-Wap-Initiator-URI''), (0x32, ''Accept-Application''),
      (0x33, ''Bearer-Indication''), (0x34, ''Push-Flag''), (0x35, ''Profile''),
      (0x36, ''Profile-Diff''), (0x37, ''Profile-Warning''), (0x38, ''Expect''), (0x39, ''TE''),
      (0x3A, ''Trailer''), (0x3B, ''Accept-Charset''), (0x3C, ''Accept-Encoding''),
      (0x3D, ''Cache-Control''), (0x3E, ''Content-Range''), (0x3F, ''X-Wap-Tod''),
      (0x40, ''Content-ID''), (0x41, ''Set-Cookie''), (0x42, ''Cookie''),
      (0x43, ''Encoding-Version''), (0x44, ''Profile-Warning''), (0x45, ''Content-Disposition''),
      (0x46, ''X-WAP-Security''), (0x47, ''Cache-Control''), (0x48, ''Expect''),
      (0x49, ''X-Wap-Loc-Invocation''), (0x4A, ''X-Wap-Loc-Delivery'')]"

record wap_tables =
  WELL_KNOWN_MIME_TYPES :: "(int \<times> string) list"
  WELL_KNOWN_PARAMETERS :: "(int \<times> string) list"
  WELL_KNOWN_HEADERS :: "(int \<times> string) list"

text \<open>The tables as the program starts with them, and after \<open>initWapParaMap\<close>.\<close>

definition emptyTables :: wap_tables where
  "emptyTables = \<lparr>WELL_KNOWN_MIME_TYPES = [], WELL_KNOWN_PARAMETERS = [], WELL_KNOWN_HEADERS = []\<rparr>"

definition initWapParaMap :: "wap_tables \<Rightarrow> wap_tables" where
  "initWapParaMap t =
     \<lparr>WELL_KNOWN_MIME_TYPES = WELL_KNOWN_MIME_TYPES t @ MIME_TYPES,
      WELL_KNOWN_PARAMETERS = WELL_KNOWN_PARAMETERS t @ PARAMETERS,
      WELL_KNOWN_HEADERS = WELL_KNOWN_HEADERS t @ HEADERS\<rparr>"

definition lookupTable :: "(int \<times> string) list \<Rightarrow> int \<Rightarrow> string" where
  "lookupTable t k = (case map_of t k of None \<Rightarrow> [] | Some s \<Rightarrow> s)"

lemma lookupTable_empty [simp]: "lookupTable [] k = []"
  by (simp add: lookupTable_def)

end
