(* ===== verification/WapPush.thy ===== *)
theory WapPush
  imports WapTables
begin

text \<open>
  \<open>WappushPduParser\<close> (\<open>telcore/sms/parser/PduParser.cpp\<close>): the WSP decoder of WAP push messages.
  Its results go through the fields \<open>mUnsigned32bit\<close>, \<open>mStringValue\<close> and \<open>mDataLength\<close>, which a
  failed decoding leaves changed or stale; every operation therefore returns its boolean with
  the new state. The static tables are the parameter \<open>t\<close>.
\<close>

record WappushPduParser =
  mWspData :: "byte list"
  mDataLength :: int
  w_mPduLength :: int
  mUnsigned32bit :: int
  mContentParameters :: "string \<rightharpoonup> string"
  mHeaders :: "string \<rightharpoonup> string"
  mStringValue :: string

definition newWappushPduParser :: "byte list \<Rightarrow> int \<Rightarrow> WappushPduParser" where
  "newWappushPduParser pdu len =
     \<lparr>mWspData = pdu, mDataLength = -1, w_mPduLength = len, mUnsigned32bit = -1,
      mContentParameters = Map.empty, mHeaders = Map.empty, mStringValue = []\<rparr>"

type_synonym wap_op = "WappushPduParser \<Rightarrow> (bool \<times> WappushPduParser) res"

abbreviation (input) WAP_PDU_LENGTH_QUOTE :: int where "WAP_PDU_LENGTH_QUOTE \<equiv> 31"
abbreviation (input) WAP_PDU_SHORT_LENGTH_MAX :: int where "WAP_PDU_SHORT_LENGTH_MAX \<equiv> 30"
abbreviation (input) PARAMETER_ID_X_WAP_APPLICATION_ID :: int where "PARAMETER_ID_X_WAP_APPLICATION_ID \<equiv> 0x2f"

text \<open>\<open>map::insert\<close> keeps an entry that is there.\<close>

definition map_insert :: "'k \<Rightarrow> 'v \<Rightarrow> ('k \<rightharpoonup> 'v) \<Rightarrow> ('k \<rightharpoonup> 'v)" where
  "map_insert k v m = (case m k of None \<Rightarrow> m(k \<mapsto> v) | Some _ \<Rightarrow> m)"

section \<open>Integers\<close>

text \<open>The loop of \<open>decodeUintvarInteger\<close>: value so far, whether it ended within five octets, and
  the index of the last octet read.\<close>

function uintvarLoop :: "byte list \<Rightarrow> int \<Rightarrow> int \<Rightarrow> int \<Rightarrow> (bool \<times> int \<times> int) res" where
  "uintvarLoop d start index v =
     bnd (rdi d index) (\<lambda>b.
       if b AND 0x80 \<noteq> 0 then
         (if index - start \<ge> 4 then Inr (False, v, index)
          else uintvarLoop d start (index + 1) (c_long (push_bit 7 v OR (b AND 0x7f))))
       else Inr (True, c_long (push_bit 7 v OR (b AND 0x7f)), index))"
  by pat_completeness auto
termination
  by (relation "measure (\<lambda>(d, start, index, v). nat (start + 5 - index))") auto

declare uintvarLoop.simps [simp del]

definition decodeUintvarInteger :: "int \<Rightarrow> wap_op" where
  "decodeUintvarInteger startIndex p =
     bnd (uintvarLoop (mWspData p) startIndex startIndex 0) (\<lambda>(ok, v, index).
       if ok then Inr (True, p\<lparr>mUnsigned32bit := v, mDataLength := index - startIndex + 1\<rparr>)
       else Inr (False, p\<lparr>mUnsigned32bit := v\<rparr>))"

definition decodeShortInteger :: "int \<Rightarrow> wap_op" where
  "decodeShortInteger startIndex p =
     bnd (rdi (mWspData p) startIndex) (\<lambda>b.
       if b AND 0x80 = 0 then Inr (False, p)
       else Inr (True, p\<lparr>mUnsigned32bit := b AND 0x7f, mDataLength := 1\<rparr>))"

fun longLoop :: "byte list \<Rightarrow> nat \<Rightarrow> int \<Rightarrow> int \<Rightarrow> int res" where
  "longLoop d 0 i v = Inr v"
| "longLoop d (Suc n) i v =
     bnd (rdi d i) (\<lambda>b. longLoop d n (i + 1) (c_long (push_bit 8 v OR (b AND 0xff))))"

definition decodeLongInteger :: "int \<Rightarrow> wap_op" where
  "decodeLongInteger startIndex p =
     bnd (rdi (mWspData p) startIndex) (\<lambda>lengthMultiOctet.
       if lengthMultiOctet > WAP_PDU_SHORT_LENGTH_MAX then Inr (False, p)
       else bnd (longLoop (mWspData p) (nat lengthMultiOctet) (startIndex + 1) 0) (\<lambda>v.
         Inr (True, p\<lparr>mUnsigned32bit := v, mDataLength := 1 + lengthMultiOctet\<rparr>)))"

definition decodeIntegerValue :: "int \<Rightarrow> wap_op" where
  "decodeIntegerValue startIndex p =
     bnd (decodeShortInteger startIndex p) (\<lambda>(ok, p1).
       if ok then Inr (True, p1) else decodeLongInteger startIndex p1)"

definition decodeValueLength :: "int \<Rightarrow> wap_op" where
  "decodeValueLength startIndex p =
     bnd (rdi (mWspData p) startIndex) (\<lambda>b.
       if b > WAP_PDU_LENGTH_QUOTE then Inr (False, p)
       else if b < WAP_PDU_LENGTH_QUOTE then Inr (True, p\<lparr>mUnsigned32bit := b, mDataLength := 1\<rparr>)
       else bnd (decodeUintvarInteger (startIndex + 1) p) (\<lambda>(ok, p1).
         if \<not> ok then Inr (False, p1) else Inr (True, p1\<lparr>mDataLength := mDataLength p1 + 1\<rparr>)))"

section \<open>Text\<close>

text \<open>The index of the next NUL octet; without one the scan leaves the buffer.\<close>

function findNul :: "byte list \<Rightarrow> int \<Rightarrow> int res" where
  "findNul d index =
     bnd (rdi d index) (\<lambda>b. if b \<noteq> 0 then findNul d (index + 1) else Inr index)"
  by pat_completeness auto
termination
  by (relation "measure (\<lambda>(d, index). nat (int (length d) - index))") (auto simp: rdi_Inr)

declare findNul.simps [simp del]

definition decodeTokenText :: "int \<Rightarrow> wap_op" where
  "decodeTokenText startIndex p =
     bnd (findNul (mWspData p) startIndex) (\<lambda>index.
     let n = index - startIndex + 1 in
     bnd (stringFromBytes (mWspData p) startIndex (n - 1)) (\<lambda>s.
       Inr (True, p\<lparr>mDataLength := n, mStringValue := s\<rparr>)))"

definition decodeTextString :: "int \<Rightarrow> wap_op" where
  "decodeTextString startIndex p =
     bnd (findNul (mWspData p) startIndex) (\<lambda>index.
     let n = index - startIndex + 1 in
     bnd (rdi (mWspData p) startIndex) (\<lambda>b.
     bnd (if b = 127 then stringFromBytes (mWspData p) (startIndex + 1) (n - 2)
          else stringFromBytes (mWspData p) startIndex (n - 1)) (\<lambda>s.
       Inr (True, p\<lparr>mDataLength := n, mStringValue := s\<rparr>))))"

text \<open>Here the scan is bounded by \<open>mPduLength\<close>.\<close>

function findNulUpTo :: "byte list \<Rightarrow> int \<Rightarrow> int \<Rightarrow> int res" where
  "findNulUpTo d len index =
     (if index < len then
        bnd (rdi d index) (\<lambda>b. if b \<noteq> 0 then findNulUpTo d len (index + 1) else Inr index)
      else Inr index)"
  by pat_completeness auto
termination
  by (relation "measure (\<lambda>(d, len, index). nat (len - index))") auto

declare findNulUpTo.simps [simp del]

definition decodeExtensionMedia :: "int \<Rightarrow> wap_op" where
  "decodeExtensionMedia startIndex p =
     bnd (findNulUpTo (mWspData p) (w_mPduLength p) startIndex) (\<lambda>index.
     let n = index - startIndex + 1 in
     bnd (stringFromBytes (mWspData p) startIndex (n - 1)) (\<lambda>s.
       Inr (startIndex < w_mPduLength p, p\<lparr>mDataLength := n, mStringValue := s\<rparr>)))"

definition decodeNoValue :: "int \<Rightarrow> wap_op" where
  "decodeNoValue startIndex p =
     bnd (rdi (mWspData p) startIndex) (\<lambda>b.
       if b = 0 then Inr (True, p\<lparr>mDataLength := 1\<rparr>) else Inr (False, p))"

fun hex_upper :: "nat \<Rightarrow> string" where
  "hex_upper n =
     (let c = char_of (if n mod 16 < 10 then 48 + n mod 16 else 55 + n mod 16) in
      if n < 16 then [c] else hex_upper (n div 16) @ [c])"

declare hex_upper.simps [simp del]

definition numToHexString :: "int \<Rightarrow> string" where
  "numToHexString number = hex_upper (nat (c_uint number))"

section \<open>Content type\<close>

definition expandWellKnownMimeType :: "wap_tables \<Rightarrow> WappushPduParser \<Rightarrow> WappushPduParser" where
  "expandWellKnownMimeType t p =
     (if mStringValue p = [] then
        p\<lparr>mStringValue := lookupTable (WELL_KNOWN_MIME_TYPES t) (c_int (mUnsigned32bit p))\<rparr>
      else p\<lparr>mUnsigned32bit := -1\<rparr>)"

definition decodeConstrainedEncoding :: "int \<Rightarrow> wap_op" where
  "decodeConstrainedEncoding startIndex p =
     bnd (decodeShortInteger startIndex p) (\<lambda>(ok, p1).
       if ok then Inr (True, p1\<lparr>mStringValue := []\<rparr>) else decodeExtensionMedia startIndex p1)"

text \<open>
  One parameter of \<open>readContentParameters\<close>: \<open>None\<close> when it returns false, otherwise the octets
  read (\<open>totalRead\<close>). The name comes first, then, except for \<open>Q\<close>, the value.
\<close>

definition readParamName :: "wap_tables \<Rightarrow> int \<Rightarrow> WappushPduParser \<Rightarrow>
    ((string \<times> int \<times> bool) option \<times> WappushPduParser) res" where
  "readParamName t startIndex p =
     bnd (rdi (mWspData p) startIndex) (\<lambda>nextByte.
       if nextByte AND 0x80 = 0x00 \<and> nextByte > 31 then
         bnd (decodeTokenText startIndex p) (\<lambda>(_, p1).
           Inr (Some (mStringValue p1, mDataLength p1, False), p1))
       else
         bnd (decodeIntegerValue startIndex p) (\<lambda>(ok, p1).
           if \<not> ok then Inr (None, p1)
           else
             (let wellKnownParameterValue = c_int (mUnsigned32bit p1);
                  known = lookupTable (WELL_KNOWN_PARAMETERS t) wellKnownParameterValue;
                  param = (if known = [] then ''unassigned/0x'' @ numToHexString wellKnownParameterValue
                           else known)
              in Inr (Some (param, mDataLength p1, wellKnownParameterValue = 0), p1))))"

definition readParamValue :: "int \<Rightarrow> WappushPduParser \<Rightarrow> (string \<times> WappushPduParser) res" where
  "readParamValue startIndex p =
     bnd (decodeNoValue startIndex p) (\<lambda>(ok, p1).
       if ok then Inr ([], p1)
       else
         bnd (decodeIntegerValue startIndex p1) (\<lambda>(ok2, p2).
           if ok2 then Inr (numToString (c_int (mUnsigned32bit p2)), p2)
           else
             bnd (decodeTokenText startIndex p2) (\<lambda>(_, p3).
               case mStringValue p3 of
                 [] \<Rightarrow> Inl OutOfRange
               | c # r \<Rightarrow> Inr (if c = CHR 0x22 then r else c # r, p3))))"

definition readParam :: "wap_tables \<Rightarrow> int \<Rightarrow> WappushPduParser \<Rightarrow> (int option \<times> WappushPduParser) res" where
  "readParam t startIndex p =
     bnd (readParamName t startIndex p) (\<lambda>(r, p1).
       case r of
         None \<Rightarrow> Inr (None, p1)
       | Some (param, n, isQ) \<Rightarrow>
          if isQ then
            bnd (decodeUintvarInteger (startIndex + n) p1) (\<lambda>(ok, p2).
              if \<not> ok then Inr (None, p2)
              else
                Inr (Some (n + mDataLength p2),
                     p2\<lparr>mContentParameters :=
                          map_insert param (numToString (mUnsigned32bit p2)) (mContentParameters p2)\<rparr>))
          else
            bnd (readParamValue (startIndex + n) p1) (\<lambda>(value, p2).
              Inr (Some (n + mDataLength p2),
                   p2\<lparr>mContentParameters := map_insert param value (mContentParameters p2)\<rparr>)))"

lemma uintvarLoop_index: "uintvarLoop d s i v = Inr (ok, v', i') \<Longrightarrow> i \<le> i'"
proof (induction d s i v rule: uintvarLoop.induct)
  case (1 d s i v)
  from "1.prems" obtain b where b: "rdi d i = Inr b"
    by (subst (asm) uintvarLoop.simps) (auto elim: bndE)
  show ?case
  proof (cases "b AND 0x80 \<noteq> 0 \<and> \<not> i - s \<ge> 4")
    case True
    then show ?thesis using "1.IH" [OF b] "1.prems" b by (subst (asm) (2) uintvarLoop.simps) auto
  next
    case False
    then show ?thesis using "1.prems" b by (subst (asm) uintvarLoop.simps) (auto split: if_splits)
  qed
qed

lemma findNul_index: "findNul d i = Inr i' \<Longrightarrow> i \<le> i'"
proof (induction d i rule: findNul.induct)
  case (1 d i)
  from "1.prems" obtain b where b: "rdi d i = Inr b"
    by (subst (asm) findNul.simps) (auto elim: bndE)
  show ?case
  proof (cases "b \<noteq> 0")
    case True
    then show ?thesis using "1.IH" [OF b] "1.prems" b by (subst (asm) (2) findNul.simps) auto
  next
    case False
    then show ?thesis using "1.prems" b by (subst (asm) findNul.simps) auto
  qed
qed

text \<open>A successful decoding advances: \<open>mDataLength\<close> is at least 1.\<close>

lemma decodeUintvarInteger_len: "decodeUintvarInteger s p = Inr (True, p') \<Longrightarrow> 1 \<le> mDataLength p'"
  by (auto simp: decodeUintvarInteger_def split: if_splits elim!: bndE dest!: uintvarLoop_index)

lemma decodeShortInteger_len: "decodeShortInteger s p = Inr (True, p') \<Longrightarrow> mDataLength p' = 1"
  by (auto simp: decodeShortInteger_def split: if_splits elim!: bndE)

lemma decodeLongInteger_len: "decodeLongInteger s p = Inr (True, p') \<Longrightarrow> 1 \<le> mDataLength p'"
  by (auto simp: decodeLongInteger_def split: if_splits elim!: bndE dest!: rdi_range)

lemma decodeIntegerValue_len: "decodeIntegerValue s p = Inr (True, p') \<Longrightarrow> 1 \<le> mDataLength p'"
  by (auto simp: decodeIntegerValue_def split: if_splits elim!: bndE
      dest!: decodeShortInteger_len decodeLongInteger_len)

lemma decodeTokenText_len: "decodeTokenText s p = Inr (ok, p') \<Longrightarrow> 1 \<le> mDataLength p'"
  by (auto simp: decodeTokenText_def Let_def elim!: bndE dest!: findNul_index)

lemma decodeTextString_len: "decodeTextString s p = Inr (ok, p') \<Longrightarrow> ok \<and> 1 \<le> mDataLength p'"
  by (auto simp: decodeTextString_def Let_def elim!: bndE dest!: findNul_index)

lemma decodeNoValue_len: "decodeNoValue s p = Inr (True, p') \<Longrightarrow> mDataLength p' = 1"
  by (auto simp: decodeNoValue_def split: if_splits elim!: bndE)

lemma readParamName_len: "readParamName t s p = Inr (Some (param, n, q), p') \<Longrightarrow> 1 \<le> n"
  by (auto simp: readParamName_def Let_def split: if_splits elim!: bndE
      dest!: decodeTokenText_len decodeIntegerValue_len)

lemma readParamValue_len: "readParamValue s p = Inr (v, p') \<Longrightarrow> 1 \<le> mDataLength p'"
  by (auto simp: readParamValue_def split: if_splits list.splits elim!: bndE
      dest!: decodeTokenText_len decodeIntegerValue_len decodeNoValue_len)

lemma readParam_len: "readParam t s p = Inr (Some n, p') \<Longrightarrow> 1 \<le> n"
  by (auto simp: readParam_def split: if_splits option.splits elim!: bndE
      dest!: readParamName_len readParamValue_len decodeUintvarInteger_len)

function readContentParameters ::
    "wap_tables \<Rightarrow> int \<Rightarrow> int \<Rightarrow> int \<Rightarrow> wap_op" where
  "readContentParameters t startIndex leftToRead accumulator p =
     (if leftToRead > 0 then
        bnd (readParam t startIndex p) (\<lambda>(r, p1).
          case r of
            None \<Rightarrow> Inr (False, p1)
          | Some totalRead \<Rightarrow>
              readContentParameters t (startIndex + totalRead) (leftToRead - totalRead)
                (accumulator + totalRead) p1)
      else Inr (True, p\<lparr>mDataLength := accumulator\<rparr>))"
  by pat_completeness auto
termination
  by (relation "measure (\<lambda>(t, s, left, acc, p). nat left)") (auto dest: readParam_len)

declare readContentParameters.simps [simp del]

text \<open>The part of \<open>decodeContentType\<close> that the two media branches share.\<close>

definition contentTypeRest :: "wap_tables \<Rightarrow> int \<Rightarrow> int \<Rightarrow> int \<Rightarrow> wap_op" where
  "contentTypeRest t startIndex headersLength mediaPrefixLength p =
     (let p0 = p\<lparr>mDataLength := mDataLength p + mediaPrefixLength\<rparr>;
          readLength = mDataLength p0;
          p1 = expandWellKnownMimeType t p0;
          wellKnownValue = mUnsigned32bit p1; mimeType = mStringValue p1
      in bnd (readContentParameters t (startIndex + mDataLength p1)
                (headersLength - (mDataLength p1 - mediaPrefixLength)) 0 p1) (\<lambda>(ok, p2).
         if ok then
           Inr (True, p2\<lparr>mDataLength := mDataLength p2 + readLength, mUnsigned32bit := wellKnownValue,
                         mStringValue := mimeType\<rparr>)
         else Inr (False, p2)))"

definition decodeContentType :: "wap_tables \<Rightarrow> int \<Rightarrow> wap_op" where
  "decodeContentType t startIndex p =
     bnd (decodeValueLength startIndex p) (\<lambda>(hasLength, p1).
       if \<not> hasLength then
         bnd (decodeConstrainedEncoding startIndex p1) (\<lambda>(found, p2).
           Inr (found, if found then expandWellKnownMimeType t p2 else p2))
       else
         (let headersLength = c_int (mUnsigned32bit p1); mediaPrefixLength = mDataLength p1 in
          bnd (decodeIntegerValue (startIndex + mediaPrefixLength) p1) (\<lambda>(isInt, p2).
            if isInt then
              contentTypeRest t startIndex headersLength mediaPrefixLength (p2\<lparr>mStringValue := []\<rparr>)
            else
              bnd (decodeExtensionMedia (startIndex + mediaPrefixLength) p2) (\<lambda>(isText, p3).
                if isText then contentTypeRest t startIndex headersLength mediaPrefixLength p3
                else Inr (False, p3)))))"

section \<open>Headers\<close>

definition expandWellKnownHeadersName :: "wap_tables \<Rightarrow> WappushPduParser \<Rightarrow> WappushPduParser" where
  "expandWellKnownHeadersName t p =
     (if mStringValue p = [] then
        p\<lparr>mStringValue := lookupTable (WELL_KNOWN_HEADERS t) (c_int (mUnsigned32bit p))\<rparr>
      else p\<lparr>mUnsigned32bit := -1\<rparr>)"

definition decodeHeaderFieldName :: "int \<Rightarrow> wap_op" where
  "decodeHeaderFieldName startIndex p =
     bnd (decodeShortInteger startIndex p) (\<lambda>(ok, p1).
       if ok then Inr (True, p1\<lparr>mStringValue := []\<rparr>) else decodeTextString startIndex p1)"

definition decodeIntegerOrText :: "int \<Rightarrow> wap_op" where
  "decodeIntegerOrText startIndex p =
     bnd (decodeIntegerValue startIndex p) (\<lambda>(ok, p1).
       if ok then Inr (True, p1\<lparr>mStringValue := []\<rparr>) else decodeTextString startIndex p1)"

definition decodeHeaderFieldValues :: "int \<Rightarrow> wap_op" where
  "decodeHeaderFieldValues startIndex p =
     bnd (rdi (mWspData p) startIndex) (\<lambda>first.
     bnd (if first = WAP_PDU_LENGTH_QUOTE then decodeUintvarInteger (startIndex + 1) p else Inr (False, p))
       (\<lambda>(ok, p1).
       if ok then Inr (True, p1\<lparr>mStringValue := [], mDataLength := mDataLength p1 + 1\<rparr>)
       else decodeIntegerOrText startIndex p1))"

text \<open>The text of a decoded name or value: the string, else the number when not negative.\<close>

definition nameOrNumber :: "WappushPduParser \<Rightarrow> string option" where
  "nameOrNumber p =
     (if mStringValue p \<noteq> [] then Some (mStringValue p)
      else if c_int (mUnsigned32bit p) \<ge> 0 then Some (numToString (c_int (mUnsigned32bit p)))
      else None)"

text \<open>One round of \<open>decodeHeaders\<close>; without a name or a value it goes on behind what was read.\<close>

definition decodeHeader :: "wap_tables \<Rightarrow> int \<Rightarrow> WappushPduParser \<Rightarrow> (int \<times> WappushPduParser) res" where
  "decodeHeader t index p =
     bnd (decodeHeaderFieldName index p) (\<lambda>(_, p1).
     let index1 = index + mDataLength p1; p2 = expandWellKnownHeadersName t p1 in
     case nameOrNumber p2 of
       None \<Rightarrow> Inr (index1, p2)
     | Some headerName \<Rightarrow>
         bnd (decodeHeaderFieldValues index1 p2) (\<lambda>(_, p3).
         let index2 = index1 + mDataLength p3 in
         case nameOrNumber p3 of
           None \<Rightarrow> Inr (index2, p3)
         | Some headerValue \<Rightarrow>
             Inr (index2, p3\<lparr>mHeaders := map_insert headerName headerValue (mHeaders p3)\<rparr>)))"

lemma decodeHeaderFieldName_len: "decodeHeaderFieldName s p = Inr (ok, p') \<Longrightarrow> 1 \<le> mDataLength p'"
  by (auto simp: decodeHeaderFieldName_def split: if_splits elim!: bndE
      dest!: decodeShortInteger_len decodeTextString_len)

lemma decodeIntegerOrText_len: "decodeIntegerOrText s p = Inr (ok, p') \<Longrightarrow> 1 \<le> mDataLength p'"
  by (auto simp: decodeIntegerOrText_def split: if_splits elim!: bndE
      dest!: decodeIntegerValue_len decodeTextString_len)

lemma decodeHeaderFieldValues_len: "decodeHeaderFieldValues s p = Inr (ok, p') \<Longrightarrow> 1 \<le> mDataLength p'"
  by (auto simp: decodeHeaderFieldValues_def split: if_splits elim!: bndE
      dest!: decodeIntegerOrText_len decodeUintvarInteger_len)

lemma decodeHeader_progress:
  assumes "decodeHeader t i p = Inr (i', p')"
  shows "i < i'"
proof -
  from assms obtain ok p1 where n: "decodeHeaderFieldName i p = Inr (ok, p1)"
    by (auto simp: decodeHeader_def elim!: bndE)
  with decodeHeaderFieldName_len have "1 \<le> mDataLength p1" by blast
  with assms n show ?thesis
    by (auto simp: decodeHeader_def Let_def split: option.splits elim!: bndE
        dest!: decodeHeaderFieldValues_len)
qed

function headersLoop :: "wap_tables \<Rightarrow> int \<Rightarrow> int \<Rightarrow> WappushPduParser \<Rightarrow> WappushPduParser res" where
  "headersLoop t limit index p =
     (if index < limit then
        bnd (decodeHeader t index p) (\<lambda>(index', p'). headersLoop t limit index' p')
      else Inr p)"
  by pat_completeness auto
termination
  by (relation "measure (\<lambda>(t, limit, index, p). nat (limit - index))")
    (auto dest: decodeHeader_progress)

declare headersLoop.simps [simp del]

definition decodeHeaders :: "wap_tables \<Rightarrow> int \<Rightarrow> int \<Rightarrow> WappushPduParser \<Rightarrow> WappushPduParser res" where
  "decodeHeaders t startIndex headerLength p = headersLoop t (startIndex + headerLength) startIndex p"

section \<open>The application identifier\<close>

text \<open>
  One round of \<open>seekXWapApplicationId\<close>: \<open>Inl\<close> when it returns (the boolean), \<open>Inr\<close> the index of
  the next field.
\<close>

definition seekName :: "int \<Rightarrow> int \<Rightarrow> WappushPduParser \<Rightarrow> ((bool + int) \<times> WappushPduParser) res" where
  "seekName index endIndex p =
     bnd (decodeIntegerValue index p) (\<lambda>(ok, p1).
       if ok \<and> c_int (mUnsigned32bit p1) = PARAMETER_ID_X_WAP_APPLICATION_ID then
         Inr (Inl True, p1\<lparr>mUnsigned32bit := index + 1\<rparr>)
       else
         bnd (if ok then Inr (True, p1) else decodeTextString index p1) (\<lambda>(ok2, p2).
           if \<not> ok2 then Inr (Inl False, p2)
           else if index + mDataLength p2 > endIndex then Inr (Inl False, p2)
           else Inr (Inr (index + mDataLength p2), p2)))"

definition seekValue :: "int \<Rightarrow> int \<Rightarrow> WappushPduParser \<Rightarrow> ((bool + int) \<times> WappushPduParser) res" where
  "seekValue index endIndex p =
     bnd (rdi (mWspData p) index) (\<lambda>val.
       if val \<le> WAP_PDU_SHORT_LENGTH_MAX then Inr (Inr (index + (val + 1)), p)
       else if val = WAP_PDU_LENGTH_QUOTE then
         (if index + 1 \<ge> endIndex then Inr (Inl False, p)
          else
            bnd (decodeUintvarInteger (index + 1) p) (\<lambda>(ok, p1).
              if \<not> ok then Inr (Inl False, p1) else Inr (Inr (index + 1 + mDataLength p1), p1)))
       else if val \<le> 127 then
         bnd (decodeTextString index p) (\<lambda>(ok, p1).
           if \<not> ok then Inr (Inl False, p1) else Inr (Inr (index + mDataLength p1), p1))
       else Inr (Inr (index + 1), p))"

lemma seekName_progress: "seekName i e p = Inr (Inr i', p') \<Longrightarrow> i < i'"
  by (auto simp: seekName_def split: if_splits elim!: bndE
      dest!: decodeIntegerValue_len decodeTextString_len)

lemma seekValue_progress: "seekValue i e p = Inr (Inr i', p') \<Longrightarrow> i < i'"
  by (auto simp: seekValue_def split: if_splits elim!: bndE
      dest!: decodeUintvarInteger_len decodeTextString_len rdi_range)

function seekXWapApplicationId :: "int \<Rightarrow> int \<Rightarrow> wap_op" where
  "seekXWapApplicationId index endIndex p =
     (if index \<le> endIndex then
        bnd (seekName index endIndex p) (\<lambda>(r, p1).
          case r of
            Inl b \<Rightarrow> Inr (b, p1)
          | Inr index1 \<Rightarrow>
              bnd (seekValue index1 endIndex p1) (\<lambda>(r2, p2).
                case r2 of
                  Inl b \<Rightarrow> Inr (b, p2)
                | Inr index2 \<Rightarrow> seekXWapApplicationId index2 endIndex p2))
      else Inr (False, p))"
  by pat_completeness auto
termination
  by (relation "measure (\<lambda>(index, endIndex, p). nat (endIndex + 1 - index))")
    (auto dest!: seekName_progress seekValue_progress)

declare seekXWapApplicationId.simps [simp del]

definition decodeXWapApplicationId :: "int \<Rightarrow> wap_op" where
  "decodeXWapApplicationId startIndex p = decodeIntegerOrText startIndex p"

section \<open>Round trips\<close>

text \<open>A number in base 128, and its uintvar encoding (WSP, 8.1.2).\<close>

fun digits128 :: "nat \<Rightarrow> nat list" where
  "digits128 n = (if n < 128 then [n] else digits128 (n div 128) @ [n mod 128])"

declare digits128.simps [simp del]

definition uv_bytes :: "nat list \<Rightarrow> byte list" where
  "uv_bytes ds = map (\<lambda>d. word_of_nat (128 + d)) (butlast ds) @ [word_of_nat (last ds)]"

definition uintvar :: "nat \<Rightarrow> byte list" where
  "uintvar n = uv_bytes (digits128 n)"

definition val128 :: "int \<Rightarrow> nat list \<Rightarrow> int" where
  "val128 v ds = foldl (\<lambda>v d. v * 128 + int d) v ds"

lemma digits128_range: "d \<in> set (digits128 n) \<Longrightarrow> d < 128"
proof (induction n rule: digits128.induct)
  case (1 n)
  then show ?case by (subst (asm) (2) digits128.simps) (auto split: if_splits)
qed

lemma digits128_nonempty [simp]: "digits128 n \<noteq> []"
  by (subst digits128.simps) simp

lemma val128_digits128: "val128 0 (digits128 n) = int n"
proof (induction n rule: digits128.induct)
  case (1 n)
  show ?case
  proof (cases "n < 128")
    case True
    then show ?thesis by (subst digits128.simps) (simp add: val128_def)
  next
    case False
    with 1 have "val128 0 (digits128 (n div 128)) = int (n div 128)" by simp
    with False show ?thesis by (subst digits128.simps) (simp add: val128_def zdiv_int zmod_int)
  qed
qed

lemma digits128_length: "n < 128 ^ Suc k \<Longrightarrow> length (digits128 n) \<le> Suc k"
proof (induction k arbitrary: n)
  case 0
  then show ?case by (subst digits128.simps) simp
next
  case (Suc k)
  then have "n div 128 < 128 ^ Suc k" by (simp add: less_mult_imp_div_less mult.commute)
  with Suc.IH [of "n div 128"] show ?case by (subst digits128.simps) simp
qed

lemma shift7: "0 \<le> v \<Longrightarrow> v < 2 ^ 28 \<Longrightarrow> d < 128 \<Longrightarrow>
   c_long (push_bit 7 v OR int d) = v * 128 + int d"
  using or_low_bits [of "int d" 7 v] by (simp add: c_long_id)

lemma uv_byte_more: "d < 128 \<Longrightarrow> uint (128 + word_of_nat d :: byte) = 128 + int d"
  using uint_byte_of_nat [of "128 + d"] by simp

lemma uv_byte_last: "d < 128 \<Longrightarrow> uint (word_of_nat d :: byte) = int d"
  by (simp add: uint_byte_of_nat)

lemma uv_bytes_Cons: "ds \<noteq> [] \<Longrightarrow> uv_bytes (d # ds) = word_of_nat (128 + d) # uv_bytes ds"
  by (simp add: uv_bytes_def)

lemma uintvarLoop_uv:
  "\<lbrakk>ds \<noteq> []; \<forall>d \<in> set ds. d < 128; buf = pre @ uv_bytes ds @ post; i = int (length pre);
    i - s + int (length ds) \<le> 5; 0 \<le> v; v < 2 ^ (7 * (5 - length ds)); s \<le> i\<rbrakk> \<Longrightarrow>
   uintvarLoop buf s i v = Inr (True, val128 v ds, i + int (length ds) - 1)"
proof (induction ds arbitrary: pre i v)
  case Nil
  then show ?case by simp
next
  case (Cons d ds)
  have len: "length ds < 5" using Cons.prems by simp
  have v: "v < 2 ^ 28"
  proof -
    have "(2::int) ^ (7 * (5 - length (d # ds))) \<le> 2 ^ 28" by (rule power_increasing) (use len in auto)
    with Cons.prems(7) show ?thesis by linarith
  qed
  have d: "d < 128" using Cons.prems by simp
  show ?case
  proof (cases "ds = []")
    case True
    then have "rdi buf i = Inr (int d)"
      using Cons.prems d by (simp add: uv_bytes_def uv_byte_last)
    with True d v Cons.prems show ?thesis
      by (subst uintvarLoop.simps) (simp add: and_0x80_iff and_127 shift7 val128_def)
  next
    case False
    then have rd: "rdi buf i = Inr (128 + int d)"
      using Cons.prems d by (simp add: uv_bytes_Cons uv_byte_more)
    have "(128 + int d) div 128 = 1" using d by simp
    then have hi: "(128 + int d) AND 0x80 \<noteq> 0" by (simp add: and_0x80_iff)
    have lo: "(128 + int d) AND 127 = int d" using d by (simp add: and_127)
    have "\<not> i - s \<ge> 4" using Cons.prems(5) False by (cases ds) auto
    then have "uintvarLoop buf s i v = uintvarLoop buf s (i + 1) (v * 128 + int d)"
      using rd hi lo shift7 [OF Cons.prems(6) v d] by (subst uintvarLoop.simps) simp
    also have "\<dots> = Inr (True, val128 (v * 128 + int d) ds, i + 1 + int (length ds) - 1)"
    proof (rule Cons.IH [of "pre @ [word_of_nat (128 + d)]"])
      have "v * 128 + int d < 2 ^ (7 * (5 - length (d # ds))) * 128"
        using Cons.prems(7) d by linarith
      also have "\<dots> = 2 ^ (7 * (5 - length ds))"
        using len by (simp flip: power_add) (simp add: Suc_diff_Suc [symmetric] algebra_simps)
      finally show "v * 128 + int d < 2 ^ (7 * (5 - length ds))" .
    qed (use Cons.prems False d in \<open>auto simp: uv_bytes_Cons\<close>)
    finally show ?thesis by (simp add: val128_def)
  qed
qed

lemma uv_bytes_length: "ds \<noteq> [] \<Longrightarrow> length (uv_bytes ds) = length ds"
  by (simp add: uv_bytes_def)

lemma decodeUintvarInteger_uintvar:
  assumes "n < 2 ^ 35"
  shows "decodeUintvarInteger (int (length pre)) (p\<lparr>mWspData := pre @ uintvar n @ post\<rparr>) =
    Inr (True, p\<lparr>mWspData := pre @ uintvar n @ post, mUnsigned32bit := int n,
                 mDataLength := int (length (uintvar n))\<rparr>)"
proof -
  have len: "length (digits128 n) \<le> 5" using digits128_length [of n 4] assms by simp
  have "uintvarLoop (pre @ uintvar n @ post) (int (length pre)) (int (length pre)) 0 =
      Inr (True, int n, int (length pre) + int (length (digits128 n)) - 1)"
    using uintvarLoop_uv [of "digits128 n" "pre @ uintvar n @ post" pre post "int (length pre)" "int (length pre)" 0]
      len digits128_range val128_digits128 by (simp add: uintvar_def)
  then show ?thesis
    by (simp add: decodeUintvarInteger_def uintvar_def uv_bytes_length)
qed

text \<open>A long integer: a length octet, then the big-endian octets of the number.\<close>

definition val256 :: "int \<Rightarrow> byte list \<Rightarrow> int" where
  "val256 v bs = foldl (\<lambda>v b. v * 256 + uint b) v bs"

lemma longLoop_bytes:
  "\<lbrakk>buf = pre @ bs @ post; i = int (length pre); length bs \<le> 7; 0 \<le> v; v < 2 ^ (8 * (7 - length bs))\<rbrakk> \<Longrightarrow>
   longLoop buf (length bs) i v = Inr (val256 v bs)"
proof (induction bs arbitrary: pre i v)
  case Nil
  then show ?case by (simp add: val256_def)
next
  case (Cons b bs)
  have v: "v < 2 ^ 48"
  proof -
    have "(2::int) ^ (8 * (7 - length (b # bs))) \<le> 2 ^ 48" by (rule power_increasing) auto
    with Cons.prems(5) show ?thesis by linarith
  qed
  have rd: "rdi buf i = Inr (uint b)" using Cons.prems by simp
  have "push_bit 8 v OR uint b = v * 256 + uint b"
    using or_low_bits [of "uint b" 8 v] by simp
  then have c: "c_long (push_bit 8 v OR (uint b AND 0xff)) = v * 256 + uint b"
  proof -
    have "v * 256 + uint b < 2 ^ 48 * 256" using v uint_byte_range [of b] by linarith
    then have "v * 256 + uint b < 2 ^ 63" by simp
    moreover have "0 \<le> v * 256 + uint b" using Cons.prems(4) by simp
    ultimately have "c_long (v * 256 + uint b) = v * 256 + uint b" by (intro c_long_id) simp_all
    with \<open>push_bit 8 v OR uint b = _\<close> show ?thesis by simp
  qed
  have "longLoop buf (length bs) (i + 1) (v * 256 + uint b) = Inr (val256 (v * 256 + uint b) bs)"
  proof (rule Cons.IH [of "pre @ [b]"])
    have "v * 256 + uint b < 2 ^ (8 * (7 - length (b # bs))) * 256"
      using Cons.prems(5) uint_byte_range [of b] by linarith
    also have "\<dots> = 2 ^ (8 * (7 - length bs))"
      using Cons.prems(3) by (simp flip: power_add) (simp add: Suc_diff_Suc [symmetric] algebra_simps)
    finally show "v * 256 + uint b < 2 ^ (8 * (7 - length bs))" .
  qed (use Cons.prems in auto)
  with rd c show ?case by (simp add: val256_def)
qed

lemma decodeIntegerValue_long:
  assumes "length bs \<le> 7" "mWspData p = pre @ word_of_nat (length bs) # bs @ post" "i = int (length pre)"
  shows "decodeIntegerValue i p =
     Inr (True, p\<lparr>mUnsigned32bit := val256 0 bs, mDataLength := 1 + int (length bs)\<rparr>)"
proof -
  have rd: "rdi (mWspData p) i = Inr (int (length bs))"
    using assms by (simp add: unsigned_of_nat take_bit_nat_eq_self)
  have "longLoop (mWspData p) (length bs) (i + 1) 0 = Inr (val256 0 bs)"
    by (rule longLoop_bytes [of _ "pre @ [word_of_nat (length bs)]" _ post]) (use assms in simp_all)
  with rd assms(1) show ?thesis
    by (simp add: decodeIntegerValue_def decodeShortInteger_def decodeLongInteger_def and_0x80_iff)
qed

lemma decodeIntegerValue_short:
  assumes "rdi (mWspData p) i = Inr (128 + a)" "0 \<le> a" "a < 128"
  shows "decodeIntegerValue i p = Inr (True, p\<lparr>mUnsigned32bit := a, mDataLength := 1\<rparr>)"
proof -
  have "(128 + a) div 128 = 1" using assms by simp
  with assms show ?thesis
    by (simp add: decodeIntegerValue_def decodeShortInteger_def and_0x80_iff and_127)
qed

text \<open>NUL-terminated text.\<close>

lemma findNul_at:
  "buf = pre @ bs @ 0 # post \<Longrightarrow> 0 \<notin> set bs \<Longrightarrow> i = int (length pre) \<Longrightarrow>
   findNul buf i = Inr (i + int (length bs))"
proof (induction bs arbitrary: pre i)
  case Nil
  then show ?case by (subst findNul.simps) simp
next
  case (Cons b bs)
  have "uint b \<noteq> 0" using Cons.prems(2) by (auto dest: uint_eqD)
  then have "findNul buf i = findNul buf (i + 1)"
    using Cons.prems by (subst findNul.simps) simp
  also have "\<dots> = Inr (i + 1 + int (length bs))"
    using Cons.prems by (intro Cons.IH [of "pre @ [b]"]) auto
  finally show ?case by simp
qed

lemma decodeTextString_text:
  assumes "bs \<noteq> []" "\<forall>b \<in> set bs. b \<noteq> 0 \<and> uint b < 127"
    and "mWspData p = pre @ bs @ 0 # post" "i = int (length pre)"
  shows "decodeTextString i p =
     Inr (True, p\<lparr>mDataLength := int (length bs) + 1, mStringValue := map (\<lambda>b. char_of (uint b)) bs\<rparr>)"
proof -
  obtain b r where bs: "bs = b # r" using assms(1) by (cases bs) auto
  have "findNul (mWspData p) i = Inr (i + int (length bs))"
    by (rule findNul_at [of _ pre _ post]) (use assms in auto)
  moreover have "rdi (mWspData p) i = Inr (uint b)" using assms bs by simp
  moreover have "uint b \<noteq> 127" using assms(2) bs by auto
  moreover have "stringFromBytes (mWspData p) i (int (length bs)) = Inr (map (\<lambda>b. char_of (uint b)) bs)"
    using stringFromBytes_ascii [of bs pre "0 # post"] assms by fastforce
  ultimately show ?thesis by (simp add: decodeTextString_def Let_def)
qed

section \<open>Properties\<close>

text \<open>\<open>decodeUintvarInteger\<close> decodes every number below \<open>2^35\<close> from its encoding, and reports
  the length of the encoding.\<close>

theorem uintvar_roundtrip:
  assumes "n < 2 ^ 35"
  shows "decodeUintvarInteger (int (length pre)) (p\<lparr>mWspData := pre @ uintvar n @ post\<rparr>) =
    Inr (True, p\<lparr>mWspData := pre @ uintvar n @ post, mUnsigned32bit := int n,
                 mDataLength := int (length (uintvar n))\<rparr>)"
  by (rule decodeUintvarInteger_uintvar [OF assms])

theorem uintvar_roundtrip_witness:
  "decodeUintvarInteger (int (length [9 :: byte])) (newWappushPduParser [] 0\<lparr>mWspData := [9] @ uintvar 300 @ [7]\<rparr>) =
    Inr (True, newWappushPduParser [] 0\<lparr>mWspData := [9] @ uintvar 300 @ [7], mUnsigned32bit := int 300,
                 mDataLength := int (length (uintvar 300))\<rparr>)"
  by (rule uintvar_roundtrip) simp

text \<open>A run of octets with the continuation bit is rejected after five of them, and the fields
  the caller reads next keep their earlier length but not their earlier value.\<close>

theorem uintvar_too_long:
  assumes "\<forall>b \<in> set bs. 128 \<le> uint b" "length bs = 5" "mWspData p = pre @ bs @ post"
  shows "\<exists>v. decodeUintvarInteger (int (length pre)) p = Inr (False, p\<lparr>mUnsigned32bit := v\<rparr>)"
proof -
  obtain a b c d e where bs: "bs = [a, b, c, d, e]"
    using assms(2) by (auto simp: length_Suc_conv numeral_eq_Suc)
  have hi: "\<And>x. x \<in> set bs \<Longrightarrow> uint x AND 128 \<noteq> 0"
  proof -
    fix x assume "x \<in> set bs"
    with assms(1) have "128 \<le> uint x" by blast
    then have "uint x div 128 = 1" using uint_byte_lt [of x] by linarith
    then show "uint x AND 128 \<noteq> 0" by (simp add: and_0x80_iff)
  qed
  have "\<exists>v. uintvarLoop (mWspData p) (int (length pre)) (int (length pre)) 0 = Inr (False, v, int (length pre) + 4)"
    using assms(3) bs hi
    by (simp add: uintvarLoop.simps [where d = "pre @ a # b # c # d # e # post"] rdi_def rd_def nth_append
        nat_add_distrib)
  then show ?thesis by (auto simp: decodeUintvarInteger_def)
qed

theorem uintvar_too_long_witness:
  "\<exists>v. decodeUintvarInteger (int (length [1 :: byte])) (newWappushPduParser [1, 0x81, 0x82, 0x83, 0x84, 0x85, 0] 7) =
     Inr (False, newWappushPduParser [1, 0x81, 0x82, 0x83, 0x84, 0x85, 0] 7\<lparr>mUnsigned32bit := v\<rparr>)"
  by (rule uintvar_too_long [of "[0x81, 0x82, 0x83, 0x84, 0x85]" _ _ "[0]"])
    (simp_all add: newWappushPduParser_def)

end
