(* ===== verification/WapMessage.thy ===== *)
theory WapMessage
  imports WapPush
begin

text \<open>
  \<open>WappushMessage\<close> (\<open>telcore/sms/parser/SmsMessage.cpp\<close>): a WAP push message and the test that
  tells a SUPL INIT from the others, by content type and application identifier.
\<close>

record WappushMessage =
  wm_mPdu :: "byte list"
  mTransactionId :: int
  mPduType :: int
  wm_mPduLength :: int
  mWapAppId :: string
  mContentType :: string
  wm_mUserData :: "byte list option"
  wm_mUserDataLength :: int

definition MIME_TYPE_SUPL :: string where "MIME_TYPE_SUPL = ''application/vnd.omaloc-supl-init''"
definition XWAP_APP_ID_SUPL :: string where "XWAP_APP_ID_SUPL = ''x-oma-application:ulp.ua''"
definition MIME_TYPE_SUPL_HEX :: string where "MIME_TYPE_SUPL_HEX = ''786''"
definition XWAP_APP_ID_SUPL_HEX :: string where "XWAP_APP_ID_SUPL_HEX = ''16''"
definition CONTENT_TYPE_B_PUSH_CO :: string where "CONTENT_TYPE_B_PUSH_CO = ''application/vnd.wap.coc''"

abbreviation (input) PDU_TYPE_PUSH :: int where "PDU_TYPE_PUSH \<equiv> 0x06"
abbreviation (input) PDU_TYPE_CONFIRMED_PUSH :: int where "PDU_TYPE_CONFIRMED_PUSH \<equiv> 0x07"

text \<open>\<open>mWapAppId = -1\<close> assigns the character \<open>(char)-1\<close>.\<close>

definition newWappushMessage :: "byte list \<Rightarrow> int \<Rightarrow> WappushMessage res" where
  "newWappushMessage pdu len =
     bnd (chk (0 \<le> len) BadAlloc) (\<lambda>_.
     bnd (rd_block pdu 0 len) (\<lambda>copy.
       Inr \<lparr>wm_mPdu = copy, mTransactionId = -1, mPduType = -1, wm_mPduLength = len,
            mWapAppId = [char_of (-1 :: int)], mContentType = [], wm_mUserData = None,
            wm_mUserDataLength = 0\<rparr>))"

section \<open>Parsing\<close>

definition takeUserData :: "string \<Rightarrow> int \<Rightarrow> WappushMessage \<Rightarrow> WappushMessage res" where
  "takeUserData mimeType dataIndex m =
     (if mimeType \<noteq> [] \<and> mimeType = CONTENT_TYPE_B_PUSH_CO then
        Inr (m\<lparr>wm_mUserData := Some (wm_mPdu m), wm_mUserDataLength := wm_mPduLength m\<rparr>)
      else
        (let n = wm_mPduLength m - dataIndex in
         bnd (chk (0 \<le> n) BadAlloc) (\<lambda>_.
         bnd (rd_block (wm_mPdu m) dataIndex n) (\<lambda>ud.
           Inr (m\<lparr>wm_mUserData := Some ud, wm_mUserDataLength := n\<rparr>)))))"

definition takeAppId :: "int \<Rightarrow> int \<Rightarrow> string \<Rightarrow> int \<Rightarrow> WappushPduParser \<Rightarrow> WappushMessage \<Rightarrow> WappushMessage res" where
  "takeAppId startIndex endIndex mimeType binaryContentType d m =
     bnd (seekXWapApplicationId startIndex endIndex d) (\<lambda>(found, d1).
       if \<not> found then Inr m
       else
         bnd (decodeXWapApplicationId (c_int (mUnsigned32bit d1)) d1) (\<lambda>(_, d2).
           Inr (m\<lparr>mWapAppId := (if mStringValue d2 = [] then numToString (c_int (mUnsigned32bit d2))
                                else mStringValue d2),
                  mContentType := (if mimeType = [] then numToString binaryContentType else mimeType)\<rparr>)))"

text \<open>The part behind the header length: content type, headers, user data, application id.\<close>

definition parsePushHeaders :: "wap_tables \<Rightarrow> int \<Rightarrow> int \<Rightarrow> WappushPduParser \<Rightarrow> WappushMessage \<Rightarrow> WappushMessage res" where
  "parsePushHeaders t headerStartIndex headerLength d m =
     bnd (decodeContentType t headerStartIndex d) (\<lambda>(ok, d1).
       if \<not> ok then Inr m
       else
         (let mimeType = mStringValue d1; binaryContentType = mUnsigned32bit d1;
              index = headerStartIndex + mDataLength d1
          in
          bnd (chk (0 \<le> headerLength) BadAlloc) (\<lambda>_.
          bnd (rd_block (wm_mPdu m) headerStartIndex headerLength) (\<lambda>_.
          bnd (decodeHeaders t index (headerLength - index + headerStartIndex) d1) (\<lambda>d2.
          bnd (takeUserData mimeType (headerStartIndex + headerLength) m) (\<lambda>m1.
            takeAppId index (index + headerLength - 1) mimeType binaryContentType d2 m1))))))"

definition parseWapPdu :: "wap_tables \<Rightarrow> WappushMessage \<Rightarrow> WappushMessage res" where
  "parseWapPdu t m0 =
     bnd (rdi (wm_mPdu m0) 0) (\<lambda>tid.
     bnd (rdi (wm_mPdu m0) 1) (\<lambda>ty.
     let m = m0\<lparr>mTransactionId := tid, mPduType := ty\<rparr> in
     if ty \<noteq> PDU_TYPE_PUSH \<and> ty \<noteq> PDU_TYPE_CONFIRMED_PUSH then Inr m
     else
       bnd (decodeUintvarInteger 2 (newWappushPduParser (wm_mPdu m) (wm_mPduLength m))) (\<lambda>(ok, d).
         if \<not> ok then Inr m
         else parsePushHeaders t (2 + mDataLength d) (c_int (mUnsigned32bit d)) d m)))"

definition isWapushForSUPL :: "WappushMessage \<Rightarrow> bool" where
  "isWapushForSUPL m \<longleftrightarrow>
     (mContentType m = MIME_TYPE_SUPL \<or> mContentType m = MIME_TYPE_SUPL_HEX) \<and>
     (mWapAppId m = XWAP_APP_ID_SUPL \<or> mWapAppId m = XWAP_APP_ID_SUPL_HEX)"

section \<open>SUPL INIT\<close>

text \<open>
  A push PDU with a two-octet content type \<open>ct\<close> and the one header X-Wap-Application-Id with
  the well-known value \<open>a\<close>, before the body.
\<close>

definition push_bytes :: "byte \<Rightarrow> byte \<Rightarrow> byte \<Rightarrow> byte \<Rightarrow> byte list \<Rightarrow> byte list" where
  "push_bytes tid c1 c2 a body = [tid, 6, 6, 3, 2, c1, c2, 0xAF, a] @ body"

lemma rdi_push:
  assumes "d = push_bytes tid c1 c2 a body"
  shows "rdi d 0 = Inr (uint tid)" "rdi d 1 = Inr 6" "rdi d 2 = Inr 6" "rdi d 3 = Inr 3" "rdi d 4 = Inr 2"
    "rdi d 5 = Inr (uint c1)" "rdi d 6 = Inr (uint c2)" "rdi d 7 = Inr 0xAF" "rdi d 8 = Inr (uint a)"
  using assms by (simp_all add: push_bytes_def rdi_def rd_def)

lemma below31: "x < 65536 \<Longrightarrow> x < (2 :: int) ^ 31"
  by simp

lemma fmt_d_inj:
  assumes "0 \<le> m" "m < 2 ^ 31" "0 \<le> n" "n < 2 ^ 31" "fmt_d m = fmt_d n"
  shows "m = n"
proof -
  have "c_atoi (fmt_d m) = m" "c_atoi (fmt_d n) = n"
    using assms(1-4) by (simp_all add: c_atoi_fmt_d)
  with assms(5) show ?thesis by metis
qed

lemma numToString_digits: "0 \<le> n \<Longrightarrow> n < 2 ^ 31 \<Longrightarrow> numToString n = fmt_d n"
  by (simp add: numToString_def c_int_id)

lemma fmt_d_first: "0 \<le> n \<Longrightarrow> \<exists>d r. d < 10 \<and> fmt_d n = digit_char d # r"
proof -
  assume "0 \<le> n"
  then obtain c r where cr: "fmt_d n = c # r" by (cases "fmt_d n") (auto simp: fmt_d_def)
  with \<open>0 \<le> n\<close> have "c \<in> set (dec_digits (nat n))" by (auto simp: fmt_d_def)
  with dec_digits_chars cr show ?thesis by blast
qed

lemma digit_char_not_letter: "d < 10 \<Longrightarrow> digit_char d \<noteq> CHR ''a'' \<and> digit_char d \<noteq> CHR ''x''"
  by (auto simp: digit_char_def dest: arg_cong [of _ _ "of_char :: char \<Rightarrow> nat"])

lemma fmt_d_known: "fmt_d 786 = ''786''" "fmt_d 16 = ''16''"
  by code_simp+

lemma fmt_d_not_word:
  "0 \<le> n \<Longrightarrow> fmt_d n \<noteq> MIME_TYPE_SUPL" "0 \<le> n \<Longrightarrow> fmt_d n \<noteq> XWAP_APP_ID_SUPL"
  unfolding MIME_TYPE_SUPL_def XWAP_APP_ID_SUPL_def
  using fmt_d_first [of n] digit_char_not_letter by (metis list.inject)+

lemma supl_strings:
  assumes "0 \<le> n" "n < 2 ^ 31"
  shows "numToString n = MIME_TYPE_SUPL \<or> numToString n = MIME_TYPE_SUPL_HEX \<longleftrightarrow> n = 786"
    and "numToString n = XWAP_APP_ID_SUPL \<or> numToString n = XWAP_APP_ID_SUPL_HEX \<longleftrightarrow> n = 16"
  using assms fmt_d_not_word [OF assms(1)] fmt_d_inj [of n 786] fmt_d_inj [of n 16] fmt_d_known
  by (auto simp: numToString_digits MIME_TYPE_SUPL_HEX_def XWAP_APP_ID_SUPL_HEX_def)

lemma push_content_type:
  assumes d: "mWspData p = push_bytes tid c1 c2 a body"
  shows "\<exists>p'. decodeContentType emptyTables 3 p = Inr (True, p') \<and> mWspData p' = mWspData p \<and>
           mStringValue p' = [] \<and> mUnsigned32bit p' = val256 0 [c1, c2] \<and> mDataLength p' = 4"
proof -
  note r = rdi_push [OF d]
  let ?p1 = "p\<lparr>mUnsigned32bit := 3, mDataLength := 1\<rparr>"
  have vl: "decodeValueLength 3 p = Inr (True, ?p1)"
    using r by (simp add: decodeValueLength_def)
  have iv: "decodeIntegerValue (3 + 1) ?p1 = Inr (True, ?p1\<lparr>mUnsigned32bit := val256 0 [c1, c2], mDataLength := 3\<rparr>)"
    using decodeIntegerValue_long [of "[c1, c2]" ?p1 "[tid, 6, 6, 3]" "0xAF # a # body" 4] d
    by (simp add: push_bytes_def)
  have c: "c_int 3 = 3" by (simp add: c_int_id)
  show ?thesis
    using vl iv
    by (simp add: decodeContentType_def contentTypeRest_def Let_def c expandWellKnownMimeType_def emptyTables_def
        readContentParameters.simps)
qed

lemma push_header:
  assumes d: "mWspData p = push_bytes tid c1 c2 a body" and a: "128 \<le> uint a"
  shows "\<exists>p'. decodeHeaders emptyTables 7 2 p = Inr p' \<and> mWspData p' = mWspData p"
proof -
  note r = rdi_push [OF d]
  have sh: "decodeShortInteger 7 p = Inr (True, p\<lparr>mUnsigned32bit := 0x2f, mDataLength := 1\<rparr>)"
    using r by (simp add: decodeShortInteger_def and_0x80_iff and_127)
  have c: "c_int 47 = 47" by (simp add: c_int_id)
  let ?p = "p\<lparr>mUnsigned32bit := 0x2f, mDataLength := 1, mStringValue := []\<rparr>"
  have "decodeIntegerValue 8 ?p = Inr (True, ?p\<lparr>mUnsigned32bit := uint a - 128, mDataLength := 1\<rparr>)"
    using decodeIntegerValue_short [of ?p 8 "uint a - 128"] r a uint_byte_lt [of a] by simp
  moreover have "uint a \<noteq> 31" using a by simp
  ultimately have val: "decodeHeaderFieldValues 8 ?p =
      Inr (True, ?p\<lparr>mUnsigned32bit := uint a - 128, mDataLength := 1\<rparr>)"
    using r by (simp add: decodeHeaderFieldValues_def decodeIntegerOrText_def)
  have "uint a - 128 < 2 ^ 31" using uint_byte_lt [of a] by (intro below31) linarith
  then have ge: "0 \<le> c_int (uint a - 128)"
    using a by (simp add: c_int_id)
  have "\<exists>p'. decodeHeader emptyTables 7 p = Inr (9, p') \<and> mWspData p' = mWspData p"
    using sh val ge
    by (simp add: decodeHeader_def decodeHeaderFieldName_def Let_def expandWellKnownHeadersName_def
        emptyTables_def nameOrNumber_def c)
  then obtain p' where p': "decodeHeader emptyTables 7 p = Inr (9, p')" "mWspData p' = mWspData p" by blast
  then have "decodeHeaders emptyTables 7 2 p = Inr p'"
    by (simp add: decodeHeaders_def headersLoop.simps)
  with p' show ?thesis by blast
qed

lemma push_app_id:
  assumes d: "mWspData p = push_bytes tid c1 c2 a body" and a: "128 \<le> uint a"
  shows "takeAppId 7 12 [] n p m = Inr (m\<lparr>mWapAppId := numToString (uint a - 128), mContentType := numToString n\<rparr>)"
proof -
  note r = rdi_push [OF d]
  let ?p1 = "p\<lparr>mUnsigned32bit := 0x2f, mDataLength := 1\<rparr>"
  have i7: "decodeIntegerValue 7 p = Inr (True, ?p1)"
    using decodeIntegerValue_short [of p 7 47] r by simp
  have c: "c_int 47 = 47" "c_int 8 = 8" by (simp_all add: c_int_id)
  let ?p2 = "?p1\<lparr>mUnsigned32bit := 8\<rparr>"
  have "seekXWapApplicationId 7 12 p = Inr (True, ?p2)"
    using i7 c by (subst seekXWapApplicationId.simps) (simp add: seekName_def)
  moreover have "decodeIntegerValue 8 ?p2 = Inr (True, ?p2\<lparr>mUnsigned32bit := uint a - 128, mDataLength := 1\<rparr>)"
    using decodeIntegerValue_short [of ?p2 8 "uint a - 128"] r a uint_byte_lt [of a] by simp
  moreover have "uint a - 128 < 2 ^ 31" using uint_byte_lt [of a] by (intro below31) linarith
  then have "c_int (uint a - 128) = uint a - 128"
    using a by (intro c_int_id) simp_all
  ultimately show ?thesis
    using c by (simp add: takeAppId_def decodeXWapApplicationId_def decodeIntegerOrText_def)
qed

text \<open>The message that such a PDU is parsed into, with the tables as the program has them.\<close>

lemma push_parse:
  assumes a: "128 \<le> uint a" and pdu: "pdu = push_bytes tid c1 c2 a body"
  shows "\<exists>m0 m. newWappushMessage pdu (int (length pdu)) = Inr m0 \<and> parseWapPdu emptyTables m0 = Inr m \<and>
     wm_mUserData m = Some body \<and> wm_mUserDataLength m = int (length body) \<and>
     mContentType m = numToString (val256 0 [c1, c2]) \<and> mWapAppId m = numToString (uint a - 128)"
proof -
  note r = rdi_push [OF pdu]
  let ?fresh = "\<lparr>wm_mPdu = pdu, mTransactionId = -1, mPduType = -1, wm_mPduLength = int (length pdu),
              mWapAppId = [char_of (-1 :: int)], mContentType = [], wm_mUserData = None, wm_mUserDataLength = 0\<rparr>"
  have new: "newWappushMessage pdu (int (length pdu)) = Inr ?fresh"
    by (simp add: newWappushMessage_def rd_block_whole)
  let ?start = "newWappushPduParser pdu (int (length pdu))"
  let ?d = "?start\<lparr>mUnsigned32bit := 6, mDataLength := 1\<rparr>"
  have uv: "decodeUintvarInteger 2 ?start = Inr (True, ?d)"
    using r by (simp add: decodeUintvarInteger_def newWappushPduParser_def uintvarLoop.simps and_0x80_iff
        and_127 c_long_id)
  have dd: "mWspData ?d = push_bytes tid c1 c2 a body" using pdu by (simp add: newWappushPduParser_def)
  obtain d1 where d1: "decodeContentType emptyTables 3 ?d = Inr (True, d1)" "mWspData d1 = mWspData ?d"
      "mStringValue d1 = []" "mUnsigned32bit d1 = val256 0 [c1, c2]" "mDataLength d1 = 4"
    using push_content_type [OF dd] by blast
  obtain d2 where d2: "decodeHeaders emptyTables 7 2 d1 = Inr d2" "mWspData d2 = mWspData d1"
    using push_header [of d1 tid c1 c2 a body] d1 dd a by auto
  let ?m = "?fresh\<lparr>mTransactionId := uint tid, mPduType := 6\<rparr>"
  have "rd_block ([tid, 6, 6, 3, 2, c1, c2, 0xAF, a] @ body @ []) (int (length [tid, 6, 6, 3, 2, c1, c2, 0xAF, a]))
      (int (length body)) = Inr body" by (rule rd_block_mid)
  then have ud: "takeUserData [] 9 ?m = Inr (?m\<lparr>wm_mUserData := Some body, wm_mUserDataLength := int (length body)\<rparr>)"
    using pdu by (simp add: takeUserData_def Let_def push_bytes_def)
  have hdr: "\<exists>b. rd_block pdu 3 6 = Inr b" using pdu by (simp add: rd_block_def push_bytes_def)
  have c: "c_int 6 = 6" by (simp add: c_int_id)
  have "takeAppId 7 12 [] (val256 0 [c1, c2]) d2 (?m\<lparr>wm_mUserData := Some body, wm_mUserDataLength := int (length body)\<rparr>) =
      Inr (?m\<lparr>wm_mUserData := Some body, wm_mUserDataLength := int (length body),
             mWapAppId := numToString (uint a - 128), mContentType := numToString (val256 0 [c1, c2])\<rparr>)"
    using push_app_id [of d2 tid c1 c2 a body] d2 d1 dd a by simp
  then have "parsePushHeaders emptyTables 3 6 ?d ?m =
      Inr (?m\<lparr>wm_mUserData := Some body, wm_mUserDataLength := int (length body),
             mWapAppId := numToString (uint a - 128), mContentType := numToString (val256 0 [c1, c2])\<rparr>)"
    using d1 d2 ud hdr by (auto simp: parsePushHeaders_def Let_def)
  then have "parseWapPdu emptyTables ?fresh =
      Inr (?m\<lparr>wm_mUserData := Some body, wm_mUserDataLength := int (length body),
             mWapAppId := numToString (uint a - 128), mContentType := numToString (val256 0 [c1, c2])\<rparr>)"
    using r uv by (simp add: parseWapPdu_def Let_def c)
  with new show ?thesis by simp
qed

section \<open>Properties\<close>

text \<open>With the tables as the program has them (nothing calls \<open>initWapParaMap\<close>), a push with a
  two-octet content type and an application identifier is delivered to SUPL exactly when they are
  the numbers 786 and 16; the user data handed on is the body behind the headers.\<close>

theorem supl_push_recognised:
  assumes "128 \<le> uint a"
  shows "\<exists>m0 m. newWappushMessage (push_bytes tid c1 c2 a body) (int (length (push_bytes tid c1 c2 a body))) = Inr m0 \<and>
     parseWapPdu emptyTables m0 = Inr m \<and>
     wm_mUserData m = Some body \<and> wm_mUserDataLength m = int (length body) \<and>
     (isWapushForSUPL m \<longleftrightarrow> uint c1 * 256 + uint c2 = 786 \<and> uint a = 128 + 16)"
proof -
  have v: "val256 0 [c1, c2] = uint c1 * 256 + uint c2" by (simp add: val256_def)
  have "0 \<le> uint c1 * 256 + uint c2" by simp
  moreover have "uint c1 * 256 + uint c2 < 2 ^ 31"
    using uint_byte_range [of c1] uint_byte_range [of c2] by (intro below31) linarith
  moreover have "0 \<le> uint a - 128" using assms by simp
  moreover have "uint a - 128 < 2 ^ 31" using uint_byte_lt [of a] by (intro below31) linarith
  ultimately show ?thesis
    using push_parse [OF assms refl, of tid c1 c2 body] supl_strings v
    by (fastforce simp: isWapushForSUPL_def)
qed

theorem supl_push_recognised_witness:
  "\<exists>m0 m. newWappushMessage (push_bytes 1 0x03 0x12 0x90 [1, 2]) (int (length (push_bytes 1 0x03 0x12 0x90 [1, 2]))) = Inr m0 \<and>
     parseWapPdu emptyTables m0 = Inr m \<and>
     wm_mUserData m = Some [1, 2] \<and> wm_mUserDataLength m = int (length [1, 2 :: byte]) \<and>
     (isWapushForSUPL m \<longleftrightarrow> uint (0x03 :: byte) * 256 + uint (0x12 :: byte) = 786 \<and> uint (0x90 :: byte) = 128 + 16)"
  by (rule supl_push_recognised) simp

end
