(* ===== verification/Reassembly.thy ===== *)
theory Reassembly
  imports RilPrelude "HOL-Library.Multiset"
begin

text \<open>
  The interface of a segment store, as the dispatcher of concatenated messages uses it: adding
  a segment keeps the stored ones sorted by sequence number and ignores a sequence number that
  is there already. From these two laws it follows that the stored list does not depend on the
  order of arrival or on duplicates. \<open>ConcentratedSms\<close> provides the interface.
\<close>

text \<open>The first segment of each sequence number, in order of arrival.\<close>

fun firsts :: "('m \<Rightarrow> int) \<Rightarrow> 'm list \<Rightarrow> 'm list" where
  "firsts seqno [] = []"
| "firsts seqno (m # ms) = m # filter (\<lambda>x. seqno x \<noteq> seqno m) (firsts seqno ms)"

lemma firsts_seqnos [simp]: "seqno ` set (firsts seqno ms) = seqno ` set ms"
proof (induction ms)
  case Nil
  then show ?case by simp
next
  case (Cons m ms)
  have "seqno ` set (firsts seqno (m # ms)) = insert (seqno m) (seqno ` set (firsts seqno ms))"
    by auto
  with Cons show ?case by simp
qed

lemma firsts_distinct: "distinct (map seqno (firsts seqno ms))"
proof (induction ms)
  case Nil
  then show ?case by simp
next
  case (Cons m ms)
  then have "distinct (map seqno (filter (\<lambda>x. seqno x \<noteq> seqno m) (firsts seqno ms)))"
    by (simp add: distinct_map_filter)
  then show ?case by auto
qed

lemma firsts_snoc:
  "firsts seqno (ms @ [m]) =
     (if seqno m \<in> seqno ` set ms then firsts seqno ms else firsts seqno ms @ [m])"
  by (induction ms) auto

lemma firsts_id: "distinct (map seqno ms) \<Longrightarrow> firsts seqno ms = ms"
proof (induction ms)
  case Nil
  then show ?case by simp
next
  case (Cons m ms)
  then have "firsts seqno ms = ms" by simp
  moreover have "\<forall>x \<in> set ms. seqno x \<noteq> seqno m" using Cons.prems by (metis distinct.simps(2) image_eqI list.set_map list.simps(9))
  ultimately show ?case by (simp add: filter_id_conv)
qed

lemma sort_key_unique:
  assumes "distinct (map f xs)" "mset xs = mset ys"
  shows "sort_key f xs = sort_key f ys"
  using assms by (intro sort_key_eq_sort_key) (simp_all add: distinct_map)

locale segment_store =
  fixes seqno :: "'m \<Rightarrow> int"
    and accepts :: "'s \<Rightarrow> 'm \<Rightarrow> bool"   \<comment> \<open>the segment belongs to the message of the store\<close>
    and segs :: "'s \<Rightarrow> 'm list"
    and add :: "'m \<Rightarrow> 's \<Rightarrow> 's"
    and init :: "'m \<Rightarrow> 's"
  assumes segs_init: "segs (init m) = [m]"
    and accepts_init: "accepts (init m) m"
    and accepts_add: "accepts (add m s) = accepts s"
    and segs_accepted: "\<forall>x \<in> set (segs s). accepts s x \<Longrightarrow> accepts s m \<Longrightarrow>
          segs (add m s) = (if seqno m \<in> seqno ` set (segs s) then segs s
                            else sort_key seqno (segs s @ [m]))"
begin

lemma accepts_fold: "accepts (fold add ms s) = accepts s"
  by (induction ms arbitrary: s) (simp_all add: accepts_add)

lemma segs_fold:
  assumes "\<forall>x \<in> set ms. accepts (init m) x"
  shows "segs (fold add ms (init m)) = sort_key seqno (firsts seqno (m # ms))"
  using assms
proof (induction ms rule: rev_induct)
  case Nil
  then show ?case by (simp add: segs_init)
next
  case (snoc x ms)
  let ?s = "fold add ms (init m)"
  have IH: "segs ?s = sort_key seqno (firsts seqno (m # ms))" using snoc by simp
  have sub: "set (firsts seqno (m # ms)) \<subseteq> set (m # ms)"
  proof -
    have "set (firsts seqno xs) \<subseteq> set xs" for xs :: "'m list" by (induction xs) auto
    then show ?thesis by blast
  qed
  have "\<forall>y \<in> set (segs ?s). accepts ?s y" "accepts ?s x"
    using snoc.prems sub accepts_init by (auto simp: IH accepts_fold simp del: firsts.simps)
  then have add: "segs (add x ?s) = (if seqno x \<in> seqno ` set (segs ?s) then segs ?s
                            else sort_key seqno (segs ?s @ [x]))"
    by (rule segs_accepted)
  have img: "seqno ` set (segs ?s) = seqno ` set (m # ms)"
    unfolding IH set_sort using firsts_seqnos [of seqno "m # ms"] .
  have "firsts seqno (m # ms @ [x]) =
      (if seqno x \<in> seqno ` set (m # ms) then firsts seqno (m # ms) else firsts seqno (m # ms) @ [x])"
    using firsts_snoc [of seqno "m # ms" x] by simp
  moreover have "sort_key seqno (sort_key seqno (firsts seqno (m # ms)) @ [x]) =
      sort_key seqno (firsts seqno (m # ms) @ [x])"
    if "seqno x \<notin> seqno ` set (m # ms)"
  proof (rule sort_key_unique)
    have "seqno x \<notin> seqno ` set (firsts seqno (m # ms))"
      using that firsts_seqnos [of seqno "m # ms"] by simp
    then show "distinct (map seqno (sort_key seqno (firsts seqno (m # ms)) @ [x]))"
      using firsts_distinct [of seqno "m # ms"]
      by (auto simp: distinct_map simp del: firsts.simps)
  qed simp
  ultimately show ?case using add IH img by (simp del: firsts.simps)
qed

text \<open>The stored list is sorted, has one segment for each number that arrived, and is the same
  for every order of arrival.\<close>

lemma segs_sorted: "\<forall>x \<in> set ms. accepts (init m) x \<Longrightarrow> sorted (map seqno (segs (fold add ms (init m))))"
  unfolding segs_fold by (rule sorted_sort_key)

lemma segs_numbers:
  assumes "\<forall>x \<in> set ms. accepts (init m) x"
  shows "seqno ` set (segs (fold add ms (init m))) = seqno ` set (m # ms)"
    and "length (segs (fold add ms (init m))) = card (seqno ` set (m # ms))"
proof -
  show "seqno ` set (segs (fold add ms (init m))) = seqno ` set (m # ms)"
    unfolding segs_fold [OF assms] set_sort by (rule firsts_seqnos)
  have "length (firsts seqno (m # ms)) = card (set (map seqno (firsts seqno (m # ms))))"
    using distinct_card [OF firsts_distinct [of seqno "m # ms"]] by simp
  then show "length (segs (fold add ms (init m))) = card (seqno ` set (m # ms))"
    unfolding segs_fold [OF assms] using firsts_seqnos [of seqno "m # ms"] by simp
qed

lemma segs_order_independent:
  assumes "\<forall>x \<in> set ms. accepts (init m) x" "\<forall>x \<in> set ms'. accepts (init m') x"
    and "distinct (map seqno (m # ms))" "mset (m # ms) = mset (m' # ms')"
  shows "segs (fold add ms (init m)) = segs (fold add ms' (init m'))"
proof -
  have "distinct (map seqno (m' # ms'))"
    using assms(3,4) by (metis distinct_map mset_eq_imp_distinct_iff set_mset_mset)
  then show ?thesis
    unfolding segs_fold [OF assms(1)] segs_fold [OF assms(2)]
      firsts_id [OF assms(3)] firsts_id [OF \<open>distinct (map seqno (m' # ms'))\<close>]
    using sort_key_unique [OF assms(3,4)] by simp
qed

end

end
