(* ===== verification/ConcentratedSms.thy ===== *)
theory ConcentratedSms
  imports SmsMessage WapMessage Reassembly
begin

text \<open>
  \<open>ConcentratedSms\<close> (\<open>telcore/sms/parser/ConcentratedSms.cpp\<close>): the received segments of one
  concatenated message. The 60 second timer is the flag \<open>mTimeoutHandle\<close>; its signal is an event
  of the dispatcher.
\<close>

record ConcentratedSms =
  mTotalSeg :: int
  mRefNumber :: int
  mIsWapPush :: bool
  mWappushMsg :: "WappushMessage option"
  mMsgList :: "SmsMessage list"
  mTimeoutHandle :: bool

text \<open>The constructor, then \<open>onInit\<close>, which starts the timer.\<close>

definition newConcentratedSms :: "SmsMessage \<Rightarrow> ConcentratedSms" where
  "newConcentratedSms msg =
     \<lparr>mTotalSeg = getTotalSegnumber msg, mRefNumber = getRefNumber msg, mIsWapPush = isWapush msg,
      mWappushMsg = None, mMsgList = [msg], mTimeoutHandle = False\<rparr>"

definition concOnInit :: "ConcentratedSms \<Rightarrow> ConcentratedSms" where
  "concOnInit c = c\<lparr>mTimeoutHandle := True\<rparr>"

definition concOnTimeout :: "ConcentratedSms \<Rightarrow> int \<times> ConcentratedSms" where
  "concOnTimeout c = (mRefNumber c, c\<lparr>mTimeoutHandle := False\<rparr>)"

text \<open>\<open>list::sort\<close> is stable, as \<open>sort_key\<close> is; \<open>compareSms\<close> compares the sequence numbers.\<close>

definition addSegment :: "SmsMessage \<Rightarrow> ConcentratedSms \<Rightarrow> ConcentratedSms" where
  "addSegment msg c =
     (if list_ex (\<lambda>sms. getRefNumber sms = mRefNumber c \<and> getSeqNumber sms = getSeqNumber msg) (mMsgList c)
      then c
      else c\<lparr>mMsgList := sort_key getSeqNumber (mMsgList c @ [msg])\<rparr>)"

definition isAllSegmentsReceived :: "ConcentratedSms \<Rightarrow> bool" where
  "isAllSegmentsReceived c \<longleftrightarrow> int (length (mMsgList c)) = mTotalSeg c"

text \<open>\<open>memcpy(wapPdu + offset, sms->getUserData(), sms->getUserDataLength())\<close> for each segment.\<close>

definition segmentData :: "SmsMessage \<Rightarrow> byte list res" where
  "segmentData m =
     rd_block (case mUserData m of None \<Rightarrow> [] | Some d \<Rightarrow> d) 0 (mUserDataLength m)"

fun concatSegments :: "SmsMessage list \<Rightarrow> byte list res" where
  "concatSegments [] = Inr []"
| "concatSegments (m # ms) =
     bnd (segmentData m) (\<lambda>d. bnd (concatSegments ms) (\<lambda>ds. Inr (d @ ds)))"

definition parseWappushPdu :: "wap_tables \<Rightarrow> ConcentratedSms \<Rightarrow> ConcentratedSms res" where
  "parseWappushPdu t c =
     bnd (concatSegments (mMsgList c)) (\<lambda>wapPdu.
     bnd (newWappushMessage wapPdu (sum_list (map mUserDataLength (mMsgList c)))) (\<lambda>w.
     bnd (parseWapPdu t w) (\<lambda>w'. Inr (c\<lparr>mWappushMsg := Some w'\<rparr>))))"

definition getWappushMsgUserData :: "ConcentratedSms \<Rightarrow> byte list option" where
  "getWappushMsgUserData c = (case mWappushMsg c of None \<Rightarrow> None | Some w \<Rightarrow> wm_mUserData w)"

definition getWappushMsgUserDataLength :: "ConcentratedSms \<Rightarrow> int" where
  "getWappushMsgUserDataLength c = (case mWappushMsg c of None \<Rightarrow> 0 | Some w \<Rightarrow> wm_mUserDataLength w)"

definition concIsWapushForSUPL :: "ConcentratedSms \<Rightarrow> bool" where
  "concIsWapushForSUPL c = (case mWappushMsg c of None \<Rightarrow> False | Some w \<Rightarrow> isWapushForSUPL w)"

section \<open>The segment store\<close>

interpretation seg: segment_store getSeqNumber "\<lambda>c m. getRefNumber m = mRefNumber c" mMsgList addSegment
    newConcentratedSms
proof unfold_locales
  show "mMsgList (newConcentratedSms m) = [m]" for m by (simp add: newConcentratedSms_def)
  show "getRefNumber m = mRefNumber (newConcentratedSms m)" for m by (simp add: newConcentratedSms_def)
  show "(\<lambda>x. getRefNumber x = mRefNumber (addSegment m s)) = (\<lambda>x. getRefNumber x = mRefNumber s)" for m s
    by (simp add: addSegment_def)
  show "mMsgList (addSegment m s) =
      (if getSeqNumber m \<in> getSeqNumber ` set (mMsgList s) then mMsgList s
       else sort_key getSeqNumber (mMsgList s @ [m]))"
    if "\<forall>x \<in> set (mMsgList s). getRefNumber x = mRefNumber s" for s m
  proof -
    have "list_ex (\<lambda>sms. getRefNumber sms = mRefNumber s \<and> getSeqNumber sms = getSeqNumber m) (mMsgList s) \<longleftrightarrow>
        getSeqNumber m \<in> getSeqNumber ` set (mMsgList s)"
      using that unfolding list_ex_iff image_iff by metis
    then show ?thesis by (simp add: addSegment_def)
  qed
qed

lemma addSegment_frame [simp]:
  "mTotalSeg (addSegment m c) = mTotalSeg c" "mRefNumber (addSegment m c) = mRefNumber c"
  "mIsWapPush (addSegment m c) = mIsWapPush c" "mWappushMsg (addSegment m c) = mWappushMsg c"
  "mTimeoutHandle (addSegment m c) = mTimeoutHandle c"
  by (simp_all add: addSegment_def)

lemma fold_addSegment_frame [simp]:
  "mTotalSeg (fold addSegment ms c) = mTotalSeg c" "mRefNumber (fold addSegment ms c) = mRefNumber c"
  "mIsWapPush (fold addSegment ms c) = mIsWapPush c"
  by (induction ms arbitrary: c) simp_all

text \<open>The segments of one message: the same reference and count, numbers between 1 and the count.\<close>

definition same_message :: "SmsMessage \<Rightarrow> SmsMessage \<Rightarrow> bool" where
  "same_message m x \<longleftrightarrow>
     getRefNumber x = getRefNumber m \<and> getTotalSegnumber x = getTotalSegnumber m \<and>
     1 \<le> getSeqNumber x \<and> getSeqNumber x \<le> getTotalSegnumber m"

lemma complete_iff:
  assumes "\<forall>x \<in> set (m # ms). same_message m x"
  shows "isAllSegmentsReceived (fold addSegment ms (newConcentratedSms m)) \<longleftrightarrow>
         getSeqNumber ` set (m # ms) = {1..getTotalSegnumber m}"
proof -
  have ref: "\<forall>x \<in> set ms. getRefNumber x = mRefNumber (newConcentratedSms m)"
    using assms by (auto simp: same_message_def newConcentratedSms_def)
  have tot: "mTotalSeg (fold addSegment ms (newConcentratedSms m)) = getTotalSegnumber m"
    by (simp add: newConcentratedSms_def)
  have sub: "getSeqNumber ` set (m # ms) \<subseteq> {1..getTotalSegnumber m}"
    using assms by (auto simp: same_message_def)
  have "0 < getTotalSegnumber m" using assms by (auto simp: same_message_def)
  then have "int (card {1..getTotalSegnumber m}) = getTotalSegnumber m" by simp
  with sub tot show ?thesis
    unfolding isAllSegmentsReceived_def seg.segs_numbers(2) [OF ref]
    using card_subset_eq [OF _ sub] by (metis finite_atLeastAtMost_int of_nat_eq_iff)
qed

section \<open>Properties\<close>

text \<open>The reassembled message does not depend on the order in which its segments arrive: any two
  arrival orders of the same segments leave the same list, sorted by sequence number.\<close>

theorem reassembly_order_independent:
  assumes "\<forall>x \<in> set (m # ms). same_message m x" "distinct (map getSeqNumber (m # ms))"
    and "mset (m' # ms') = mset (m # ms)"
  shows "mMsgList (fold addSegment ms' (newConcentratedSms m')) =
           mMsgList (fold addSegment ms (newConcentratedSms m)) \<and>
         sorted (map getSeqNumber (mMsgList (fold addSegment ms (newConcentratedSms m))))"
proof -
  have sets: "set (m' # ms') = set (m # ms)" using assms(3) by (metis set_mset_mset)
  have ref: "\<forall>x \<in> set ms. getRefNumber x = mRefNumber (newConcentratedSms m)"
    using assms(1) by (auto simp: same_message_def newConcentratedSms_def)
  have "\<forall>x \<in> set (m' # ms'). getRefNumber x = getRefNumber m"
    using assms(1) unfolding sets by (simp add: same_message_def)
  then have "\<forall>x \<in> set ms'. getRefNumber x = mRefNumber (newConcentratedSms m')"
    by (simp add: newConcentratedSms_def)
  with ref seg.segs_order_independent [of ms m ms' m'] seg.segs_sorted [OF ref] assms(2,3)
  show ?thesis by simp
qed

definition example_segment :: "int \<Rightarrow> int \<Rightarrow> byte list \<Rightarrow> SmsMessage" where
  "example_segment n k d =
     newSmsMessage\<lparr>mUserData := Some d, mUserDataLength := int (length d),
       mUserDataHeader := Some (newSmsHeader\<lparr>mConcatRef := \<lparr>refNumber = 7, seqNumber = k,
         concatCount = n, isEightBits = True\<rparr>,
         mPortAddrs := \<lparr>destPort = 2948, origPort = 0, areEightBits = False\<rparr>\<rparr>)\<rparr>"

theorem reassembly_order_independent_witness:
  "mMsgList (fold addSegment [example_segment 2 1 [1]] (newConcentratedSms (example_segment 2 2 [2]))) =
     mMsgList (fold addSegment [example_segment 2 2 [2]] (newConcentratedSms (example_segment 2 1 [1]))) \<and>
   sorted (map getSeqNumber (mMsgList (fold addSegment [example_segment 2 2 [2]]
     (newConcentratedSms (example_segment 2 1 [1])))))"
  by (rule reassembly_order_independent)
    (simp_all add: same_message_def example_segment_def getRefNumber_def getSeqNumber_def
      getTotalSegnumber_def)

text \<open>A message is taken as complete exactly when every sequence number from 1 to its count has
  arrived, however often segments are repeated.\<close>

theorem reassembly_complete_iff:
  assumes "\<forall>x \<in> set (m # ms). same_message m x"
  shows "isAllSegmentsReceived (fold addSegment ms (newConcentratedSms m)) \<longleftrightarrow>
         getSeqNumber ` set (m # ms) = {1..getTotalSegnumber m}"
  by (rule complete_iff [OF assms])

theorem reassembly_complete_iff_witness:
  "isAllSegmentsReceived (fold addSegment [example_segment 2 2 [2], example_segment 2 1 [1]]
     (newConcentratedSms (example_segment 2 2 [2]))) \<longleftrightarrow>
   getSeqNumber ` set [example_segment 2 2 [2], example_segment 2 2 [2], example_segment 2 1 [1]] =
     {1..getTotalSegnumber (example_segment 2 2 [2])}"
  by (rule reassembly_complete_iff)
    (simp add: same_message_def example_segment_def getRefNumber_def getSeqNumber_def
      getTotalSegnumber_def)

end
