(* ===== verification/SuplDispatcher.thy ===== *)
theory SuplDispatcher
  imports ConcentratedSms
begin

text \<open>
  \<open>SuplMsgDispatcher\<close> (\<open>telcore/sms/parser/SuplMsgDispatcher.cpp\<close>): recognises SUPL messages among
  the received ones and sends their data to the location daemon in a frame. The dispatcher's
  operations run in one thread, one event at a time: a received PDU or a timeout of a
  \<open>ConcentratedSms\<close>. Every event sends at most one frame; the argument \<open>ret\<close> is what
  \<open>safe_sendto\<close> returns for it (the socket is outside the program).
\<close>

abbreviation (input) SUPL_EXISTENCE_UNKNOWN :: int where "SUPL_EXISTENCE_UNKNOWN \<equiv> 2"
abbreviation (input) SUPL_EXISTENCE_YES :: int where "SUPL_EXISTENCE_YES \<equiv> 1"
abbreviation (input) SUPL_EXISTENCE_NO :: int where "SUPL_EXISTENCE_NO \<equiv> 0"
abbreviation (input) SUPL_EXISTENCE_MAX_DETECTION :: int where "SUPL_EXISTENCE_MAX_DETECTION \<equiv> 3"

definition HAL_MNL_BUFF_SIZE :: nat where "HAL_MNL_BUFF_SIZE = 16 * 1024"

record SuplMsgDispatcher =
  mConcSmsList :: "ConcentratedSms list"
  sSuplExistenceState :: int
  sSuplExistenceDetectionCount :: int
  sentFrames :: "byte list list"  \<comment> \<open>what has been passed to \<open>safe_sendto\<close>\<close>

definition newSuplMsgDispatcher :: SuplMsgDispatcher where
  "newSuplMsgDispatcher =
     \<lparr>mConcSmsList = [], sSuplExistenceState = SUPL_EXISTENCE_UNKNOWN,
      sSuplExistenceDetectionCount = 0, sentFrames = []\<rparr>"

section \<open>Frames\<close>

definition c_short :: "int \<Rightarrow> int" where
  "c_short x = signed_take_bit 15 x"

type_synonym out_buff = "byte list \<times> int"

definition put_byte :: "int \<Rightarrow> out_buff \<Rightarrow> out_buff res" where
  "put_byte inp b = (case b of (buff, off) \<Rightarrow>
     bnd (wr buff off (word_of_int inp)) (\<lambda>buff'. Inr (buff', off + 1)))"

definition put_short :: "int \<Rightarrow> out_buff \<Rightarrow> out_buff res" where
  "put_short inp b =
     bnd (put_byte (c_short inp AND 0xff) b) (\<lambda>b1. put_byte (drop_bit 8 (c_short inp) AND 0xff) b1)"

definition put_int :: "int \<Rightarrow> out_buff \<Rightarrow> out_buff res" where
  "put_int inp b =
     bnd (put_short (inp AND 0xffff) b) (\<lambda>b1. put_short (drop_bit 16 inp AND 0xffff) b1)"

definition put_binary :: "byte list \<Rightarrow> int \<Rightarrow> out_buff \<Rightarrow> out_buff res" where
  "put_binary inp len b =
     bnd (put_int len b) (\<lambda>(buff, off).
       if len > 0 then
         bnd (rd_block inp 0 len) (\<lambda>d.
         bnd (wr_block buff off d) (\<lambda>buff'. Inr (buff', off + len)))
       else Inr (buff, off))"

definition makeFrame :: "byte list \<Rightarrow> int \<Rightarrow> byte list res" where
  "makeFrame msg len =
     bnd (put_int 1 (replicate HAL_MNL_BUFF_SIZE 0, 0)) (\<lambda>b1.
     bnd (put_int 401 b1) (\<lambda>b2.
     bnd (put_binary msg len b2) (\<lambda>(buff, off). Inr (take (nat off) buff))))"

text \<open>The bookkeeping of \<open>hal2mnl_ni_message\<close> after the send.\<close>

definition detectExistence :: "int \<Rightarrow> SuplMsgDispatcher \<Rightarrow> SuplMsgDispatcher" where
  "detectExistence ret st =
     (if sSuplExistenceState st = SUPL_EXISTENCE_UNKNOWN then
        (if ret = -1 then
           (let st1 = st\<lparr>sSuplExistenceDetectionCount := sSuplExistenceDetectionCount st + 1\<rparr> in
            if sSuplExistenceDetectionCount st1 > SUPL_EXISTENCE_MAX_DETECTION
            then st1\<lparr>sSuplExistenceState := SUPL_EXISTENCE_NO\<rparr> else st1)
         else st\<lparr>sSuplExistenceState := SUPL_EXISTENCE_YES\<rparr>)
      else st)"

definition hal2mnl_ni_message :: "int \<Rightarrow> byte list \<Rightarrow> int \<Rightarrow> SuplMsgDispatcher \<Rightarrow> SuplMsgDispatcher res" where
  "hal2mnl_ni_message ret msg len st =
     bnd (makeFrame msg len) (\<lambda>frame.
       Inr (detectExistence ret (st\<lparr>sentFrames := sentFrames st @ [frame]\<rparr>)))"

definition doesSuplExist :: "SuplMsgDispatcher \<Rightarrow> bool" where
  "doesSuplExist st \<longleftrightarrow> SUPL_EXISTENCE_NO \<noteq> sSuplExistenceState st"

section \<open>Dispatch\<close>

abbreviation bytes_of :: "byte list option \<Rightarrow> byte list" where
  "bytes_of d \<equiv> (case d of None \<Rightarrow> [] | Some b \<Rightarrow> b)"

definition notifySms2Mnl :: "int \<Rightarrow> SmsMessage \<Rightarrow> SuplMsgDispatcher \<Rightarrow> (bool \<times> SuplMsgDispatcher) res" where
  "notifySms2Mnl ret msg st =
     (if isSmsForSUPL msg then
        bnd (hal2mnl_ni_message ret (bytes_of (mUserData msg)) (mUserDataLength msg) st) (\<lambda>st1.
          Inr (True, st1))
      else Inr (False, st))"

definition notifyWappush2Mnl ::
    "int \<Rightarrow> WappushMessage \<Rightarrow> SuplMsgDispatcher \<Rightarrow> (bool \<times> SuplMsgDispatcher) res" where
  "notifyWappush2Mnl ret w st =
     (if isWapushForSUPL w then
        bnd (hal2mnl_ni_message ret (bytes_of (wm_mUserData w)) (wm_mUserDataLength w) st) (\<lambda>st1.
          Inr (True, st1))
      else Inr (False, st))"

text \<open>The third component is the \<open>ConcentratedSms\<close> with the parsed push.\<close>

definition notifyConcMsg2Mnl ::
    "wap_tables \<Rightarrow> int \<Rightarrow> ConcentratedSms \<Rightarrow> SuplMsgDispatcher \<Rightarrow>
     (bool \<times> SuplMsgDispatcher \<times> ConcentratedSms) res" where
  "notifyConcMsg2Mnl t ret c st =
     (if isAllSegmentsReceived c \<and> mIsWapPush c then
        bnd (parseWappushPdu t c) (\<lambda>c1.
          if concIsWapushForSUPL c1 then
            bnd (hal2mnl_ni_message ret (bytes_of (getWappushMsgUserData c1))
                   (getWappushMsgUserDataLength c1) st) (\<lambda>st1. Inr (True, st1, c1))
          else Inr (False, st, c1))
      else Inr (False, st, c))"

definition findConcSms :: "int \<Rightarrow> ConcentratedSms list \<Rightarrow> nat option" where
  "findConcSms ref cs =
     (let i = length (takeWhile (\<lambda>c. mRefNumber c \<noteq> ref) cs) in if i < length cs then Some i else None)"

definition removeAt :: "nat \<Rightarrow> 'a list \<Rightarrow> 'a list" where
  "removeAt i xs = take i xs @ drop (Suc i) xs"

text \<open>The last part of the branch for concatenated pushes: the object at position \<open>i\<close> is notified,
  and removed from the list when that sent it.\<close>

definition notifyAt :: "wap_tables \<Rightarrow> int \<Rightarrow> nat \<Rightarrow> SuplMsgDispatcher \<Rightarrow> SuplMsgDispatcher res" where
  "notifyAt t ret i st =
     bnd (notifyConcMsg2Mnl t ret (mConcSmsList st ! i) st) (\<lambda>(handled, st1, c1).
       Inr (st1\<lparr>mConcSmsList := (if handled then removeAt i (mConcSmsList st1)
                                else (mConcSmsList st1)[i := c1])\<rparr>))"

definition dispatchMsg :: "wap_tables \<Rightarrow> int \<Rightarrow> SmsMessage \<Rightarrow> SuplMsgDispatcher \<Rightarrow> SuplMsgDispatcher res" where
  "dispatchMsg t ret msg st =
     (if isConcentratedSms msg then
        if isWapush msg then
          (case findConcSms (getRefNumber msg) (mConcSmsList st) of
             Some i \<Rightarrow>
               notifyAt t ret i
                 (st\<lparr>mConcSmsList := (mConcSmsList st)[i := addSegment msg (mConcSmsList st ! i)]\<rparr>)
           | None \<Rightarrow>
               notifyAt t ret (length (mConcSmsList st))
                 (st\<lparr>mConcSmsList := mConcSmsList st @ [concOnInit (newConcentratedSms msg)]\<rparr>))
        else bnd (notifySms2Mnl ret msg st) (\<lambda>(_, st1). Inr st1)
      else
        bnd (notifySms2Mnl ret msg st) (\<lambda>(sent, st1).
          if \<not> sent \<and> isWapush msg then
            bnd (newWappushMessage (bytes_of (mUserData msg)) (mUserDataLength msg)) (\<lambda>w.
            bnd (parseWapPdu t w) (\<lambda>w1.
            bnd (notifyWappush2Mnl ret w1 st1) (\<lambda>(_, st2). Inr st2)))
          else Inr st1))"

definition dispatchSuplMsg :: "wap_tables \<Rightarrow> int \<Rightarrow> string \<Rightarrow> SuplMsgDispatcher \<Rightarrow> SuplMsgDispatcher res" where
  "dispatchSuplMsg t ret content st =
     bnd (hexStringToBytes content) (\<lambda>pdu.
       case pdu of
         None \<Rightarrow> Inr st
       | Some bs \<Rightarrow>
           bnd (createFromPdu bs (int (length content) div 2)) (\<lambda>msg. dispatchMsg t ret msg st))"

definition onConcSmsTimeout :: "wap_tables \<Rightarrow> int \<Rightarrow> int \<Rightarrow> SuplMsgDispatcher \<Rightarrow> SuplMsgDispatcher res" where
  "onConcSmsTimeout t ret ref st =
     (case findConcSms ref (mConcSmsList st) of
        None \<Rightarrow> Inr st
      | Some i \<Rightarrow>
          bnd (notifyConcMsg2Mnl t ret (mConcSmsList st ! i) st) (\<lambda>(_, st1, _).
            Inr (st1\<lparr>mConcSmsList := removeAt i (mConcSmsList st1)\<rparr>)))"

section \<open>The frame\<close>

definition le16 :: "int \<Rightarrow> byte list" where
  "le16 x = [word_of_int x, word_of_int (x div 256)]"

definition le32 :: "int \<Rightarrow> byte list" where
  "le32 x = le16 x @ le16 (x div 65536)"

lemma wr_here: "wr (pre @ x # post) (int (length pre)) y = Inr (pre @ y # post)"
  by (simp add: wr_def)

lemma put_byte_here:
  "put_byte v (pre @ x # post, int (length pre)) = Inr (pre @ word_of_int v # post, int (length pre) + 1)"
  by (simp add: put_byte_def wr_here)

lemma word_of_int_and_255: "(word_of_int (x AND 0xff) :: byte) = word_of_int x"
  by (simp add: and_255 word_of_int_eq_iff take_bit_eq_mod)

lemma word_of_int_short:
  "(word_of_int (c_short x) :: byte) = word_of_int x"
  "(word_of_int (drop_bit 8 (c_short x)) :: byte) = word_of_int (drop_bit 8 x)"
proof -
  show "(word_of_int (c_short x) :: byte) = word_of_int x"
    unfolding word_of_int_eq_iff c_short_def
    by (intro bit_eqI) (auto simp: bit_take_bit_iff bit_signed_take_bit_iff min_def)
  show "(word_of_int (drop_bit 8 (c_short x)) :: byte) = word_of_int (drop_bit 8 x)"
    unfolding word_of_int_eq_iff c_short_def
  proof (intro bit_eqI)
    fix n show "bit (take_bit LENGTH(8) (drop_bit 8 (signed_take_bit 15 x))) n =
        bit (take_bit LENGTH(8) (drop_bit 8 x)) n"
      by (cases "n = 7") (auto simp: bit_take_bit_iff bit_drop_bit_eq bit_signed_take_bit_iff min_def)
  qed
qed

lemma put_short_here:
  "put_short v (pre @ x # y # post, int (length pre)) = Inr (pre @ le16 v @ post, int (length pre) + 2)"
proof -
  have "put_byte (drop_bit 8 (c_short v) AND 0xff) ((pre @ [word_of_int v]) @ y # post, int (length (pre @ [word_of_int v :: byte])))
      = Inr ((pre @ [word_of_int v]) @ word_of_int (drop_bit 8 v) # post, int (length (pre @ [word_of_int v :: byte])) + 1)"
    by (simp only: put_byte_here word_of_int_and_255 word_of_int_short)
  then show ?thesis
    by (simp add: put_short_def put_byte_here word_of_int_and_255 word_of_int_short le16_def
        drop_bit_eq_div add.commute)
qed

lemma le16_and: "le16 (x AND 0xffff) = le16 x"
proof -
  have m: "x AND 65535 = take_bit 16 x"
    using and_mask_mod [of x 16] by (simp add: take_bit_eq_mod)
  have "(word_of_int (take_bit 16 x) :: byte) = word_of_int x"
    unfolding word_of_int_eq_iff by (simp add: min_def)
  moreover have "(word_of_int (drop_bit 8 (take_bit 16 x)) :: byte) = word_of_int (drop_bit 8 x)"
    unfolding word_of_int_eq_iff
    by (intro bit_eqI) (auto simp: bit_take_bit_iff bit_drop_bit_eq)
  ultimately show ?thesis by (simp add: le16_def m drop_bit_eq_div)
qed

lemma put_int_here:
  assumes "length old = 4"
  shows "put_int v (pre @ old @ post, int (length pre)) = Inr (pre @ le32 v @ post, int (length pre) + 4)"
proof -
  obtain a b c d where old: "old = [a, b, c, d]"
    using assms by (auto simp: length_Suc_conv numeral_eq_Suc)
  have "put_short (drop_bit 16 v AND 0xffff) ((pre @ le16 v) @ c # d # post, int (length (pre @ le16 v)))
     = Inr ((pre @ le16 v) @ le16 (drop_bit 16 v) @ post, int (length (pre @ le16 v)) + 2)"
    by (simp only: put_short_here le16_and)
  then show ?thesis
    using put_short_here [of "v AND 0xffff" pre a b "c # d # post"]
    by (simp add: put_int_def old le16_and le32_def drop_bit_eq_div) (simp add: le16_def add.commute)
qed

lemma le32_length [simp]: "length (le32 v) = 4"
  by (simp add: le32_def le16_def)

lemma wr_block_here:
  "length old = length new \<Longrightarrow> off = int (length pre) \<Longrightarrow> wr_block (pre @ old @ post) off new = Inr (pre @ new @ post)"
  by (cases "new = []") (auto simp: wr_block_def)

text \<open>The frame of a message, when it fits the buffer.\<close>

definition mnl_frame :: "byte list \<Rightarrow> byte list" where
  "mnl_frame msg = le32 1 @ le32 401 @ le32 (int (length msg)) @ msg"

lemma makeFrame_ok:
  assumes "length msg + 12 \<le> HAL_MNL_BUFF_SIZE"
  shows "makeFrame msg (int (length msg)) = Inr (mnl_frame msg)"
proof -
  let ?z = "\<lambda>n. replicate n (0 :: byte)"
  let ?k = "HAL_MNL_BUFF_SIZE - (length msg + 12)"
  have k: "HAL_MNL_BUFF_SIZE = 4 + (4 + (4 + (length msg + ?k)))"
    using assms by simp
  obtain k where z: "?z HAL_MNL_BUFF_SIZE = ?z 4 @ ?z 4 @ ?z 4 @ ?z (length msg) @ ?z k"
    using k by (metis replicate_add)
  have s1: "put_int 1 (?z HAL_MNL_BUFF_SIZE, 0) = Inr (le32 1 @ ?z 4 @ ?z 4 @ ?z (length msg) @ ?z k, 4)"
    using put_int_here [of "?z 4" 1 "[]"] unfolding z by simp
  have s2: "put_int 401 (le32 1 @ ?z 4 @ ?z 4 @ ?z (length msg) @ ?z k, 4) =
      Inr (le32 1 @ le32 401 @ ?z 4 @ ?z (length msg) @ ?z k, 8)"
    using put_int_here [of "?z 4" 401 "le32 1"] by simp
  have s3: "put_int (int (length msg)) (le32 1 @ le32 401 @ ?z 4 @ ?z (length msg) @ ?z k, 8) =
      Inr (le32 1 @ le32 401 @ le32 (int (length msg)) @ ?z (length msg) @ ?z k, 12)"
    using put_int_here [of "?z 4" "int (length msg)" "le32 1 @ le32 401"] by simp
  have s4: "wr_block (le32 1 @ le32 401 @ le32 (int (length msg)) @ ?z (length msg) @ ?z k) 12 msg =
      Inr (le32 1 @ le32 401 @ le32 (int (length msg)) @ msg @ ?z k)"
    using wr_block_here [of "?z (length msg)" msg 12 "le32 1 @ le32 401 @ le32 (int (length msg))"] by simp
  have "nat (12 + int (length msg)) = length (mnl_frame msg)"
    by (simp add: mnl_frame_def nat_add_distrib)
  then show ?thesis
    using s1 s2 s3 s4
    by (cases "msg = []") (simp_all add: makeFrame_def put_binary_def rd_block_whole mnl_frame_def)
qed

section \<open>Existence detection\<close>

text \<open>A run of sends, by their results.\<close>

definition detectRun :: "int list \<Rightarrow> SuplMsgDispatcher \<Rightarrow> SuplMsgDispatcher" where
  "detectRun rets st = fold detectExistence rets st"

lemma detectExistence_decided:
  "sSuplExistenceState st \<noteq> SUPL_EXISTENCE_UNKNOWN \<Longrightarrow> detectExistence ret st = st"
  by (simp add: detectExistence_def)

lemma detectRun_decided:
  "sSuplExistenceState st \<noteq> SUPL_EXISTENCE_UNKNOWN \<Longrightarrow> detectRun rets st = st"
  unfolding detectRun_def by (induction rets) (simp_all add: detectExistence_decided)

lemma detectRun_unknown:
  "sSuplExistenceState st = SUPL_EXISTENCE_UNKNOWN \<Longrightarrow> sSuplExistenceDetectionCount st = c \<Longrightarrow> 0 \<le> c \<Longrightarrow> c \<le> 3 \<Longrightarrow>
   sSuplExistenceState (detectRun rets st) =
     (let k = c + int (length (takeWhile (\<lambda>r. r = -1) rets)) in
      if k > 3 then SUPL_EXISTENCE_NO
      else if \<forall>r \<in> set rets. r = -1 then SUPL_EXISTENCE_UNKNOWN else SUPL_EXISTENCE_YES)"
proof (induction rets arbitrary: st c)
  case Nil
  then show ?case by (simp add: detectRun_def)
next
  case (Cons r rets)
  have run: "detectRun (r # rets) st = detectRun rets (detectExistence r st)"
    by (simp add: detectRun_def)
  show ?case
  proof (cases "r = -1")
    case False
    with Cons.prems have "sSuplExistenceState (detectExistence r st) = 1"
      by (simp add: detectExistence_def)
    with detectRun_decided [of "detectExistence r st" rets] Cons.prems False show ?thesis
      by (simp add: run)
  next
    case True
    show ?thesis
    proof (cases "c = 3")
      case True
      with \<open>r = -1\<close> Cons.prems have "sSuplExistenceState (detectExistence r st) = 0"
        by (simp add: detectExistence_def Let_def)
      with detectRun_decided [of "detectExistence r st" rets] True \<open>r = -1\<close> show ?thesis
        unfolding run by simp
    next
      case False
      with \<open>r = -1\<close> Cons.prems have "sSuplExistenceState (detectExistence r st) = 2"
        "sSuplExistenceDetectionCount (detectExistence r st) = c + 1"
        by (simp_all add: detectExistence_def Let_def)
      from Cons.IH [OF this] False Cons.prems True show ?thesis
        unfolding run by (simp add: algebra_simps)
    qed
  qed
qed

section \<open>A push in several segments\<close>

fun dispatchAll :: "wap_tables \<Rightarrow> (int \<times> SmsMessage) list \<Rightarrow> SuplMsgDispatcher \<Rightarrow> SuplMsgDispatcher res" where
  "dispatchAll t [] st = Inr st"
| "dispatchAll t ((ret, m) # ms) st = bnd (dispatchMsg t ret m st) (\<lambda>st1. dispatchAll t ms st1)"

lemma dispatchAll_append: "dispatchAll t (xs @ ys) st = bnd (dispatchAll t xs st) (\<lambda>st1. dispatchAll t ys st1)"
proof (induction xs arbitrary: st)
  case Nil
  then show ?case by simp
next
  case (Cons x xs)
  then show ?case by (cases x; cases "dispatchMsg t (fst x) (snd x) st") simp_all
qed

lemma detectExistence_frame [simp]:
  "sentFrames (detectExistence r st) = sentFrames st" "mConcSmsList (detectExistence r st) = mConcSmsList st"
  by (simp_all add: detectExistence_def Let_def)

lemma addSegment_onInit: "addSegment m (concOnInit c) = concOnInit (addSegment m c)"
  by (simp add: addSegment_def concOnInit_def)

lemma fold_addSegment_onInit: "fold addSegment ms (concOnInit c) = concOnInit (fold addSegment ms c)"
  by (induction ms arbitrary: c) (simp_all add: addSegment_onInit)

text \<open>The object that holds the segments \<open>ms\<close>, in order of arrival.\<close>

definition collected :: "SmsMessage list \<Rightarrow> ConcentratedSms" where
  "collected ms = concOnInit (fold addSegment (tl ms) (newConcentratedSms (hd ms)))"

definition segments_of :: "int \<Rightarrow> int \<Rightarrow> SmsMessage list \<Rightarrow> bool" where
  "segments_of ref n ms \<longleftrightarrow>
     distinct (map getSeqNumber ms) \<and>
     (\<forall>m \<in> set ms. isConcentratedSms m \<and> isWapush m \<and> getRefNumber m = ref \<and> getTotalSegnumber m = n \<and>
        1 \<le> getSeqNumber m \<and> getSeqNumber m \<le> n \<and>
        (\<exists>d. mUserData m = Some d \<and> mUserDataLength m = int (length d)))"

lemma collected_snoc:
  "ms \<noteq> [] \<Longrightarrow> collected (ms @ [x]) = addSegment x (collected ms)"
  by (cases ms) (simp_all add: collected_def addSegment_onInit)

lemma collected_ref: "ms \<noteq> [] \<Longrightarrow> segments_of ref n ms \<Longrightarrow> mRefNumber (collected ms) = ref"
  by (cases ms) (simp_all add: collected_def concOnInit_def newConcentratedSms_def segments_of_def)

lemma collected_push: "ms \<noteq> [] \<Longrightarrow> segments_of ref n ms \<Longrightarrow> mIsWapPush (collected ms)"
  by (cases ms) (simp_all add: collected_def concOnInit_def newConcentratedSms_def segments_of_def)

lemma collected_list:
  assumes "ms \<noteq> []" "segments_of ref n ms"
  shows "mMsgList (collected ms) = sort_key getSeqNumber ms"
proof -
  have ms: "ms = hd ms # tl ms" using assms(1) by simp
  have "\<forall>x \<in> set (tl ms). getRefNumber x = mRefNumber (newConcentratedSms (hd ms))"
    using assms by (cases ms) (simp_all add: newConcentratedSms_def segments_of_def)
  from seg.segs_fold [OF this] ms have
    "mMsgList (fold addSegment (tl ms) (newConcentratedSms (hd ms))) = sort_key getSeqNumber (firsts getSeqNumber ms)"
    by metis
  with assms(2) show ?thesis
    by (simp add: collected_def concOnInit_def firsts_id segments_of_def)
qed

lemma collected_complete:
  assumes "ms \<noteq> []" "segments_of ref n ms"
  shows "isAllSegmentsReceived (collected ms) \<longleftrightarrow> int (length ms) = n"
proof -
  have "mTotalSeg (collected ms) = n"
    using assms by (cases ms) (simp_all add: collected_def concOnInit_def newConcentratedSms_def segments_of_def)
  then show ?thesis by (simp add: isAllSegmentsReceived_def collected_list [OF assms])
qed

definition payload :: "SmsMessage list \<Rightarrow> byte list" where
  "payload ms = concat (map (\<lambda>m. bytes_of (mUserData m)) ms)"

lemma concatSegments_payload:
  "\<forall>m \<in> set ms. \<exists>d. mUserData m = Some d \<and> mUserDataLength m = int (length d) \<Longrightarrow>
   concatSegments ms = Inr (payload ms) \<and> sum_list (map mUserDataLength ms) = int (length (payload ms))"
  by (induction ms) (auto simp: payload_def segmentData_def rd_block_whole)

lemma findConcSms_last:
  "\<forall>c \<in> set cs. mRefNumber c \<noteq> ref \<Longrightarrow> mRefNumber c = ref \<Longrightarrow> findConcSms ref (cs @ [c]) = Some (length cs)"
  by (simp add: findConcSms_def takeWhile_append2)

lemma findConcSms_none: "\<forall>c \<in> set cs. mRefNumber c \<noteq> ref \<Longrightarrow> findConcSms ref cs = None"
  by (simp add: findConcSms_def takeWhile_eq_all_conv [THEN iffD2])

text \<open>The state after the segments \<open>ms\<close> of an incomplete message.\<close>

definition waiting :: "SuplMsgDispatcher \<Rightarrow> SmsMessage list \<Rightarrow> SuplMsgDispatcher" where
  "waiting st ms =
     (if ms = [] then st else st\<lparr>mConcSmsList := mConcSmsList st @ [collected ms]\<rparr>)"

lemma segments_of_prefix: "segments_of ref n (ms @ [x]) \<Longrightarrow> segments_of ref n ms"
  by (auto simp: segments_of_def)

lemma dispatch_segment:
  assumes "segments_of ref n (ms @ [x])" "\<forall>c \<in> set (mConcSmsList st). mRefNumber c \<noteq> ref"
  shows "dispatchMsg t ret x (waiting st ms) = notifyAt t ret (length (mConcSmsList st)) (waiting st (ms @ [x]))"
proof -
  have x: "isConcentratedSms x" "isWapush x" "getRefNumber x = ref"
    using assms(1) by (simp_all add: segments_of_def)
  show ?thesis
  proof (cases "ms = []")
    case True
    then show ?thesis
      using x findConcSms_none [OF assms(2)] by (simp add: dispatchMsg_def waiting_def collected_def)
  next
    case False
    have "findConcSms ref (mConcSmsList st @ [collected ms]) = Some (length (mConcSmsList st))"
      by (rule findConcSms_last [OF assms(2) collected_ref [OF False segments_of_prefix [OF assms(1)]]])
    with False x show ?thesis
      by (simp add: dispatchMsg_def waiting_def collected_snoc)
  qed
qed

lemma notify_incomplete:
  assumes "ms \<noteq> []" "segments_of ref n ms" "int (length ms) \<noteq> n"
  shows "notifyAt t ret (length (mConcSmsList st)) (waiting st ms) = Inr (waiting st ms)"
  using assms collected_complete [OF assms(1,2)]
  by (simp add: notifyAt_def notifyConcMsg2Mnl_def waiting_def)

lemma dispatch_waiting:
  assumes "segments_of ref n (map snd ms)" "\<forall>c \<in> set (mConcSmsList st). mRefNumber c \<noteq> ref"
    and "int (length ms) < n"
  shows "dispatchAll t ms st = Inr (waiting st (map snd ms))"
  using assms
proof (induction ms rule: rev_induct)
  case Nil
  then show ?case by (simp add: waiting_def)
next
  case (snoc rm ms)
  obtain r m where rm: "rm = (r, m)" by (cases rm)
  have seg: "segments_of ref n (map snd ms @ [m])" using snoc.prems(1) rm by simp
  have "dispatchAll t ms st = Inr (waiting st (map snd ms))"
    using snoc segments_of_prefix [OF seg] by simp
  moreover have "notifyAt t r (length (mConcSmsList st)) (waiting st (map snd ms @ [m])) =
      Inr (waiting st (map snd ms @ [m]))"
    by (rule notify_incomplete [OF _ seg]) (use snoc.prems(3) in simp_all)
  ultimately show ?case
    using dispatch_segment [OF seg snoc.prems(2), of t r]
    by (simp add: dispatchAll_append rm)
qed

lemma notify_complete:
  assumes "ms \<noteq> []" "segments_of ref n ms" "int (length ms) = n"
    and "newWappushMessage (payload (sort_key getSeqNumber ms))
           (int (length (payload (sort_key getSeqNumber ms)))) = Inr w0"
    and "parseWapPdu t w0 = Inr w" "isWapushForSUPL w" "wm_mUserData w = Some body"
    and "wm_mUserDataLength w = int (length body)" "length body + 12 \<le> HAL_MNL_BUFF_SIZE"
  shows "notifyAt t ret (length (mConcSmsList st)) (waiting st ms) =
    Inr (detectExistence ret (st\<lparr>sentFrames := sentFrames st @ [mnl_frame body]\<rparr>))"
proof -
  let ?c = "collected ms"
  have list: "mMsgList ?c = sort_key getSeqNumber ms" by (rule collected_list [OF assms(1,2)])
  have data: "\<forall>m \<in> set (sort_key getSeqNumber ms). \<exists>d. mUserData m = Some d \<and> mUserDataLength m = int (length d)"
    using assms(2) unfolding set_sort by (simp add: segments_of_def)
  have parse: "parseWappushPdu t ?c = Inr (?c\<lparr>mWappushMsg := Some w\<rparr>)"
    using concatSegments_payload [OF data] assms(4,5) by (simp add: parseWappushPdu_def list)
  let ?st = "waiting st ms"
  have "notifyConcMsg2Mnl t ret ?c ?st =
      Inr (True, detectExistence ret (?st\<lparr>sentFrames := sentFrames ?st @ [mnl_frame body]\<rparr>),
           ?c\<lparr>mWappushMsg := Some w\<rparr>)"
    using collected_complete [OF assms(1,2)] collected_push [OF assms(1,2)] assms(3,6-8) parse
      makeFrame_ok [OF assms(9)]
    by (simp add: notifyConcMsg2Mnl_def concIsWapushForSUPL_def getWappushMsgUserData_def
        getWappushMsgUserDataLength_def hal2mnl_ni_message_def)
  then show ?thesis
    using assms(1)
    by (simp add: notifyAt_def waiting_def removeAt_def detectExistence_def Let_def)
qed

section \<open>Properties\<close>

text \<open>The frame sent to the location daemon: interface version 1, message type 401, the length
  and the data, integers in little-endian order, for every message that fits the buffer.\<close>

theorem frame_layout:
  assumes "length msg + 12 \<le> HAL_MNL_BUFF_SIZE"
  shows "hal2mnl_ni_message ret msg (int (length msg)) st =
    Inr (detectExistence ret (st\<lparr>sentFrames := sentFrames st @ [le32 1 @ le32 401 @ le32 (int (length msg)) @ msg]\<rparr>))"
  using makeFrame_ok [OF assms] by (simp add: hal2mnl_ni_message_def mnl_frame_def)

theorem frame_layout_witness:
  "hal2mnl_ni_message 15 [7, 8, 9] (int (length [7, 8, 9 :: byte])) newSuplMsgDispatcher =
    Inr (detectExistence 15 (newSuplMsgDispatcher\<lparr>sentFrames := sentFrames newSuplMsgDispatcher @
      [le32 1 @ le32 401 @ le32 (int (length [7, 8, 9 :: byte])) @ [7, 8, 9]]\<rparr>))"
  by (rule frame_layout) (simp add: HAL_MNL_BUFF_SIZE_def)

text \<open>The existence state after any number of sends: it is \<open>NO\<close> after four failures in a row
  before the first success, \<open>YES\<close> when a success comes earlier, and is never changed again.\<close>

theorem existence_detection:
  "sSuplExistenceState (detectRun rets newSuplMsgDispatcher) =
     (if length (takeWhile (\<lambda>r. r = -1) rets) \<ge> 4 then 0
      else if filter (\<lambda>r. r \<noteq> -1) rets = [] then 2 else 1)"
  using detectRun_unknown [of newSuplMsgDispatcher 0 rets]
  by (simp add: newSuplMsgDispatcher_def Let_def filter_empty_conv)

text \<open>C9. The segments of a SUPL push message, arriving in any order among the messages waiting
  under other references, produce exactly one frame with the body of the push, and leave the
  list of waiting messages as it was.\<close>

theorem segmented_supl_push_delivered:
  assumes "segments_of ref (int (length ms)) (map snd ms)" "ms \<noteq> []"
    and "\<forall>c \<in> set (mConcSmsList st). mRefNumber c \<noteq> ref"
    and "payload (sort_key getSeqNumber (map snd ms)) = push_bytes tid 0x03 0x12 0x90 body"
    and "length body + 12 \<le> HAL_MNL_BUFF_SIZE"
  shows "\<exists>st'. dispatchAll emptyTables ms st = Inr st' \<and>
           sentFrames st' = sentFrames st @ [mnl_frame body] \<and> mConcSmsList st' = mConcSmsList st"
proof -
  obtain init r m where ms: "ms = init @ [(r, m)]"
    using assms(2) by (metis append_butlast_last_id surj_pair)
  have seg: "segments_of ref (int (length ms)) (map snd init @ [m])" using assms(1) ms by simp
  have "int (length init) < int (length ms)" by (simp add: ms)
  then have before: "dispatchAll emptyTables init st = Inr (waiting st (map snd init))"
    using dispatch_waiting segments_of_prefix [OF seg] assms(3) by blast
  obtain w0 w where w: "newWappushMessage (push_bytes tid 0x03 0x12 0x90 body)
        (int (length (push_bytes tid 0x03 0x12 0x90 body))) = Inr w0" "parseWapPdu emptyTables w0 = Inr w"
      "wm_mUserData w = Some body" "wm_mUserDataLength w = int (length body)"
      "mContentType w = numToString (val256 0 [0x03, 0x12])" "mWapAppId w = numToString (uint (0x90 :: byte) - 128)"
    using push_parse [of "0x90" _ tid "0x03" "0x12" body] by auto
  then have supl: "isWapushForSUPL w"
    using supl_strings [of 786] supl_strings [of 16] by (simp add: isWapushForSUPL_def val256_def)
  have "notifyAt emptyTables r (length (mConcSmsList st)) (waiting st (map snd init @ [m])) =
      Inr (detectExistence r (st\<lparr>sentFrames := sentFrames st @ [mnl_frame body]\<rparr>))"
    by (rule notify_complete [OF _ seg _ _ w(2) supl w(3,4) assms(5)])
      (use assms(4) w(1) ms in simp_all)
  then show ?thesis
    using before dispatch_segment [OF seg assms(3), of emptyTables r]
    by (simp add: ms dispatchAll_append)
qed

theorem segmented_supl_push_delivered_witness:
  "\<exists>st'. dispatchAll emptyTables
       [(20, example_segment 2 2 [3, 2, 3, 0x12, 0xAF, 0x90, 0x41]), (20, example_segment 2 1 [1, 6, 6])]
       newSuplMsgDispatcher = Inr st' \<and>
     sentFrames st' = sentFrames newSuplMsgDispatcher @ [mnl_frame [0x41]] \<and>
     mConcSmsList st' = mConcSmsList newSuplMsgDispatcher"
  by (rule segmented_supl_push_delivered [where ref = 7 and tid = 1])
    (simp_all add: segments_of_def example_segment_def isConcentratedSms_def isWapush_def PORT_WAP_PUSH_def
      getRefNumber_def getSeqNumber_def getTotalSegnumber_def newSuplMsgDispatcher_def payload_def
      push_bytes_def HAL_MNL_BUFF_SIZE_def)

end
