(* ===== verification/BitStream.thy ===== *)
theory BitStream
  imports RilPrelude
begin

text \<open>
  The bit streams of \<open>mdcomm/sms/RmcCdmaSmsConverter.{cpp,h}\<close>: \<open>BitwiseOutputStream\<close>
  writes fields of one to eight bits, most significant bit first, into a zeroed buffer of a
  fixed size; \<open>BitwiseInputStream\<close> reads them back. A failed \<open>RFX_ASSERT\<close> is the fault
  \<open>AssertFailed\<close>. The interface of the two streams is the locale \<open>bit_channel\<close>: a write
  appends the bits of its datum, a read takes them off; lists of fields written through any
  such channel are read back unchanged, which carries the address round trip.
\<close>

section \<open>Bits of octets and numbers, most significant first\<close>

definition bit_at :: "byte list \<Rightarrow> nat \<Rightarrow> bool" where
  "bit_at buf i = bit (buf ! (i div 8)) (7 - i mod 8)"

definition bits_of :: "byte list \<Rightarrow> bool list" where
  "bits_of buf = map (bit_at buf) [0..<8 * length buf]"

definition msb_bits :: "nat \<Rightarrow> int \<Rightarrow> bool list" where
  "msb_bits k v = map (\<lambda>i. bit v (k - 1 - i)) [0..<k]"

lemma length_bits_of [simp]: "length (bits_of buf) = 8 * length buf"
  by (simp add: bits_of_def)

lemma length_msb_bits [simp]: "length (msb_bits k v) = k"
  by (simp add: msb_bits_def)

lemma nth_bits_of: "i < 8 * length buf \<Longrightarrow> bits_of buf ! i = bit_at buf i"
  by (simp add: bits_of_def)

lemma nth_msb_bits: "i < k \<Longrightarrow> msb_bits k v ! i = bit v (k - 1 - i)"
  by (simp add: msb_bits_def)

lemma msb_bits_take_bit [simp]: "msb_bits k (take_bit k v) = msb_bits k v"
  by (auto simp: msb_bits_def bit_take_bit_iff)

lemma bit_at_Cons: "bit_at (b # bs) i = (if i < 8 then bit b (7 - i) else bit_at bs (i - 8))"
proof (cases "i < 8")
  case False
  then have "i div 8 = Suc ((i - 8) div 8)" "i mod 8 = (i - 8) mod 8"
    by (simp_all add: le_div_geq le_mod_geq)
  with False show ?thesis by (simp add: bit_at_def)
qed (simp add: bit_at_def)

lemma bits_of_Nil [simp]: "bits_of [] = []"
  by (simp add: bits_of_def)

lemma bits_of_Cons: "bits_of (b # bs) = msb_bits 8 (uint b) @ bits_of bs"
  by (rule nth_equalityI)
     (auto simp: nth_append nth_bits_of nth_msb_bits bit_at_Cons bit_uint_iff)

lemma bits_of_append: "bits_of (as @ bs) = bits_of as @ bits_of bs"
  by (induction as) (simp_all add: bits_of_Cons)

lemma bits_of_concat: "bits_of bs = concat (map (msb_bits 8 \<circ> uint) bs)"
  by (induction bs) (simp_all add: bits_of_Cons)

section \<open>BitwiseOutputStream\<close>

record BitwiseOutputStream =
  os_buf :: "byte list"
  os_pos :: int
  os_end :: int

definition newBitwiseOutputStream :: "nat \<Rightarrow> BitwiseOutputStream" where
  "newBitwiseOutputStream startLen =
     \<lparr> os_buf = replicate startLen 0, os_pos = 0, os_end = push_bit 3 (int startLen) \<rparr>"

definition bwWrite :: "BitwiseOutputStream \<Rightarrow> int \<Rightarrow> int \<Rightarrow> BitwiseOutputStream res" where
  "bwWrite s bits data =
     bnd (chk (bits > 0 \<and> bits \<le> 8) AssertFailed) (\<lambda>_.
     bnd (chk (os_pos s + bits < os_end s) AssertFailed) (\<lambda>_.
     let masked = c_uint data AND drop_bit (nat (32 - bits)) 0xFFFFFFFF;
         index = drop_bit 3 (os_pos s);
         offset = 16 - os_pos s mod 8 - bits;
         shifted = c_uint (push_bit (nat offset) masked) in
     bnd (rd (os_buf s) index) (\<lambda>b.
     bnd (wr (os_buf s) index (b OR word_of_int (drop_bit 8 shifted))) (\<lambda>buf.
     bnd (if offset < 8
          then bnd (rd buf (index + 1)) (\<lambda>b'. wr buf (index + 1) (b' OR word_of_int (shifted AND 0xFF)))
          else Inr buf) (\<lambda>buf'.
     Inr (s\<lparr>os_buf := buf', os_pos := os_pos s + bits\<rparr>))))))"

text \<open>\<open>i\<close> is the number of octets already taken from the array.\<close>

fun bwWriteByteArrayFrom ::
  "BitwiseOutputStream \<Rightarrow> int \<Rightarrow> int \<Rightarrow> byte list \<Rightarrow> BitwiseOutputStream res" where
  "bwWriteByteArrayFrom s bits i [] = Inr s"
| "bwWriteByteArrayFrom s bits i (b # bs) =
     (let increment = (if 8 \<le> bits - push_bit 3 i then 8 else bits - push_bit 3 i) in
      bnd (if increment > 0 then bwWrite s increment (drop_bit (nat (8 - increment)) (uint b)) else Inr s)
          (\<lambda>s'. bwWriteByteArrayFrom s' bits (i + 1) bs))"

definition bwWriteByteArray ::
  "BitwiseOutputStream \<Rightarrow> int \<Rightarrow> byte list \<Rightarrow> BitwiseOutputStream res" where
  "bwWriteByteArray s bits buf = bwWriteByteArrayFrom s bits 0 buf"

definition bwGetByteLen :: "BitwiseOutputStream \<Rightarrow> int" where
  "bwGetByteLen s =
     (let len = drop_bit 3 (os_pos s) in if os_pos s AND 0x7 \<noteq> 0 then len + 1 else len)"

section \<open>BitwiseInputStream\<close>

record BitwiseInputStream =
  is_buf :: "byte list"
  is_pos :: int
  is_end :: int

definition newBitwiseInputStream :: "byte list \<Rightarrow> int \<Rightarrow> BitwiseInputStream" where
  "newBitwiseInputStream buf len = \<lparr> is_buf = buf, is_pos = 0, is_end = push_bit 3 len \<rparr>"

definition brAvailable :: "BitwiseInputStream \<Rightarrow> int" where
  "brAvailable s = is_end s - is_pos s"

definition brRead :: "BitwiseInputStream \<Rightarrow> int \<Rightarrow> (int \<times> BitwiseInputStream) res" where
  "brRead s bits =
     bnd (chk (bits > 0 \<and> bits \<le> 8) AssertFailed) (\<lambda>_.
     bnd (chk (is_pos s + bits \<le> is_end s) AssertFailed) (\<lambda>_.
     let index = drop_bit 3 (is_pos s);
         offset = 16 - (is_pos s AND 0x07) - bits in
     bnd (rdi (is_buf s) index) (\<lambda>hi.
     bnd (if offset < 8 then rdi (is_buf s) (index + 1) else Inr 0) (\<lambda>lo.
     let data = drop_bit (nat offset) (push_bit 8 (hi AND 0xFF) OR (lo AND 0xFF));
         masked = data AND drop_bit (nat (32 - bits)) 0xFFFFFFFF in
     Inr (c_uchar masked, s\<lparr>is_pos := is_pos s + bits\<rparr>)))))"

definition brSkip :: "BitwiseInputStream \<Rightarrow> int \<Rightarrow> BitwiseInputStream" where
  "brSkip s bits = s\<lparr>is_pos := is_pos s + bits\<rparr>"

text \<open>The loop of \<open>readByteArray\<close>: \<open>n\<close> octets to go, \<open>i\<close> read.\<close>

fun brReadBytes ::
  "BitwiseInputStream \<Rightarrow> int \<Rightarrow> nat \<Rightarrow> int \<Rightarrow> byte list \<Rightarrow> (byte list \<times> BitwiseInputStream) res" where
  "brReadBytes s bits 0 i buf = Inr (buf, s)"
| "brReadBytes s bits (Suc n) i buf =
     (let increment = (if 8 \<le> bits - push_bit 3 i then 8 else bits - push_bit 3 i) in
      bnd (brRead s increment) (\<lambda>(d, s').
      brReadBytes s' bits n (i + 1) (buf @ [word_of_int (push_bit (nat (8 - increment)) d)])))"

definition brReadByteArray ::
  "BitwiseInputStream \<Rightarrow> int \<Rightarrow> byte list \<Rightarrow> (byte list \<times> BitwiseInputStream) res" where
  "brReadByteArray s bits buf =
     (let bytes = drop_bit 3 bits + (if bits AND 0x07 > 0 then 1 else 0)
      in brReadBytes s bits (nat bytes) 0 buf)"

section \<open>What the streams promise\<close>

definition bw_ok :: "BitwiseOutputStream \<Rightarrow> bool" where
  "bw_ok s \<longleftrightarrow> 0 \<le> os_pos s \<and> os_end s = 8 * int (length (os_buf s)) \<and> os_pos s \<le> os_end s
     \<and> (\<forall>i < 8 * length (os_buf s). os_pos s \<le> int i \<longrightarrow> \<not> bit_at (os_buf s) i)"

definition bw_out :: "BitwiseOutputStream \<Rightarrow> bool list" where
  "bw_out s = take (nat (os_pos s)) (bits_of (os_buf s))"

text \<open>The last bit of the buffer is never writable: the assertion of \<open>write\<close> is strict.\<close>

definition bw_room :: "BitwiseOutputStream \<Rightarrow> int" where
  "bw_room s = os_end s - 1 - os_pos s"

definition br_ok :: "BitwiseInputStream \<Rightarrow> bool" where
  "br_ok s \<longleftrightarrow> 0 \<le> is_pos s \<and> is_end s = 8 * int (length (is_buf s)) \<and> is_pos s \<le> is_end s"

definition br_rest :: "BitwiseInputStream \<Rightarrow> bool list" where
  "br_rest s = drop (nat (is_pos s)) (bits_of (is_buf s))"

lemma bw_ok_new [simp]: "bw_ok (newBitwiseOutputStream n)"
  by (auto simp: bw_ok_def newBitwiseOutputStream_def bit_at_def push_bit_eq_mult less_mult_imp_div_less)

lemma bw_out_new [simp]: "bw_out (newBitwiseOutputStream n) = []"
  by (simp add: bw_out_def newBitwiseOutputStream_def)

lemma bw_room_new [simp]: "bw_room (newBitwiseOutputStream n) = 8 * int n - 1"
  by (simp add: bw_room_def newBitwiseOutputStream_def push_bit_eq_mult)

lemma br_ok_new [simp]: "br_ok (newBitwiseInputStream buf (int (length buf)))"
  by (simp add: br_ok_def newBitwiseInputStream_def push_bit_eq_mult)

lemma br_rest_new [simp]: "br_rest (newBitwiseInputStream buf n) = bits_of buf"
  by (simp add: br_rest_def newBitwiseInputStream_def)

lemma ones_mask: "0 < k \<Longrightarrow> k \<le> 8 \<Longrightarrow> drop_bit (nat (32 - k)) (0xFFFFFFFF :: int) = mask (nat k)"
proof -
  assume k: "0 < k" "k \<le> 8"
  have f: "(0xFFFFFFFF :: int) = mask 32" by (simp add: mask_eq_exp_minus_1)
  from k show ?thesis unfolding f by (intro bit_eqI) (auto simp: bit_drop_bit_eq bit_mask_iff)
qed

text \<open>The two octets a write may change, seen bit by bit.\<close>

lemma shifted_bit:
  fixes v :: int
  assumes "0 < k" "k \<le> 8" "q < 8" "j \<le> 15"
  shows "bit (push_bit (16 - q - k) (take_bit k v)) (15 - j) \<longleftrightarrow> q \<le> j \<and> j < q + k \<and> bit v (q + k - 1 - j)"
proof -
  have "15 - j - (16 - q - k) = q + k - 1 - j" if "j < q + k" using assms that by linarith
  then show ?thesis using assms
    by (auto simp: bit_push_bit_iff bit_take_bit_iff)
qed

lemma write_bits:
  fixes buf :: "byte list" and v :: int
  assumes k: "0 < k" "k \<le> 8" and p: "8 * P + q + k < 8 * length buf" "q < 8"
    and i: "8 * a + r < 8 * length buf" "r < 8"
    and d: "d = push_bit (16 - q - k) (take_bit k v)"
    and buf1: "buf1 = buf[P := buf ! P OR word_of_int (drop_bit 8 d)]"
    and buf2: "buf2 = (if 16 - q - k < 8 then buf1[Suc P := buf1 ! Suc P OR word_of_int (d AND 255)] else buf1)"
  shows "bit_at buf2 (8 * a + r) \<longleftrightarrow> bit_at buf (8 * a + r)
    \<or> 8 * P + q \<le> 8 * a + r \<and> 8 * a + r < 8 * P + q + k \<and> bit v (8 * P + q + k - 1 - (8 * a + r))"
proof -
  have d8: "d AND 255 = take_bit 8 d" by (simp add: and_255 take_bit_eq_mod)
  have b: "bit d (15 - j) \<longleftrightarrow> q \<le> j \<and> j < q + k \<and> bit v (q + k - 1 - j)" if "j \<le> 15" for j
    using shifted_bit [OF k p(2) that] d by simp
  have P: "P < length buf" and a: "a < length buf" using p i by linarith+
  have at: "bit_at xs (8 * a + r) = bit (xs ! a) (7 - r)" for xs using i by (simp add: bit_at_def)
  consider "a = P" | "a = Suc P" | "a < P" | "a > Suc P" by linarith
  then show ?thesis
  proof cases
    case 1
    have "8 + (7 - r) = 15 - r" using i by simp
    then have "bit (drop_bit 8 d) (7 - r) = bit d (15 - r)" by (simp add: bit_drop_bit_eq)
    then have "bit_at buf2 (8 * a + r) \<longleftrightarrow> bit (buf ! P) (7 - r) \<or> bit d (15 - r)"
      unfolding at using 1 P by (auto simp: buf2 buf1 bit_or_iff bit_word_of_int_iff)
    with 1 i b [of r] show ?thesis using at [of buf] by simp
  next
    case 2
    have e: "15 - (8 + r) = 7 - r" by simp
    have bd: "bit d (7 - r) \<longleftrightarrow> q \<le> 8 + r \<and> 8 + r < q + k \<and> bit v (q + k - 1 - (8 + r))"
      using b [of "8 + r"] i unfolding e by simp
    have "bit_at buf2 (8 * a + r) \<longleftrightarrow> bit (buf ! Suc P) (7 - r) \<or> 16 - q - k < 8 \<and> bit d (7 - r)"
      unfolding at using 2 P a by (auto simp: buf2 buf1 bit_or_iff bit_word_of_int_iff d8 bit_take_bit_iff)
    moreover have "8 * P + q + k - 1 - (8 * Suc P + r) = q + k - 1 - (8 + r)" by simp
    moreover have "16 - q - k < 8" if "8 + r < q + k" using that by linarith
    ultimately show ?thesis using 2 bd p(2) at [of buf] by auto
  next
    case 3
    then have "buf2 ! a = buf ! a" by (simp add: buf2 buf1)
    moreover have "\<not> 8 * P + q \<le> 8 * a + r" using 3 i by linarith
    ultimately show ?thesis by (simp add: at)
  next
    case 4
    then have "buf2 ! a = buf ! a" by (simp add: buf2 buf1)
    moreover have "\<not> 8 * a + r < 8 * P + q + k" using 4 k p by linarith
    ultimately show ?thesis by (simp add: at)
  qed
qed

lemma rd_nat: "i < length xs \<Longrightarrow> rd xs (int i) = Inr (xs ! i)"
  by (simp add: rd_def)

lemma wr_nat: "i < length xs \<Longrightarrow> wr xs (int i) x = Inr (xs[i := x])"
  by (simp add: wr_def)

lemma c_uint_shifted:
  assumes "n \<le> 15" "k \<le> 8"
  shows "c_uint (push_bit n (take_bit k v)) = push_bit n (take_bit k v)"
  unfolding c_uint_def by (rule bit_eqI) (use assms in \<open>auto simp: bit_take_bit_iff bit_push_bit_iff\<close>)

lemma masked_bits:
  assumes "0 < k" "k \<le> 8"
  shows "c_uint v AND drop_bit (nat (32 - int k)) 0xFFFFFFFF = take_bit k v"
proof -
  have "drop_bit (nat (32 - int k)) (0xFFFFFFFF :: int) = mask k"
    using ones_mask [of "int k"] assms by simp
  then show ?thesis using assms by (simp add: c_uint_def flip: take_bit_eq_mask)
qed

text \<open>A write that the assertions admit succeeds and appends the low bits of its datum.\<close>

lemma bwWrite_ok:
  assumes ok: "bw_ok s" and k: "0 < k" "k \<le> 8" and room: "k \<le> bw_room s"
  shows "\<exists>s'. bwWrite s k v = Inr s' \<and> bw_ok s' \<and> bw_out s' = bw_out s @ msb_bits (nat k) v
    \<and> bw_room s' = bw_room s - k \<and> os_pos s' = os_pos s + k"
proof -
  from ok obtain pn where pn: "os_pos s = int pn" by (auto simp: bw_ok_def dest: nonneg_int_cases)
  define kn where "kn = nat k"
  then have kn: "k = int kn" using k by simp
  define P q where "P = pn div 8" and "q = pn mod 8"
  have p: "pn = 8 * P + q" "q < 8" by (simp_all add: P_def q_def)
  have e: "os_end s = 8 * int (length (os_buf s))" using ok by (simp add: bw_ok_def)
  have lt: "8 * P + q + kn < 8 * length (os_buf s)" using room e pn kn p by (simp add: bw_room_def)
  define off where "off = 16 - q - kn"
  define d where "d = push_bit off (take_bit kn v)"
  define buf1 where "buf1 = (os_buf s)[P := os_buf s ! P OR word_of_int (drop_bit 8 d)]"
  define buf2 where "buf2 = (if off < 8 then buf1[Suc P := buf1 ! Suc P OR word_of_int (d AND 255)] else buf1)"
  have idx: "drop_bit 3 (os_pos s) = int P" by (simp add: pn P_def drop_bit_eq_div zdiv_int)
  have pm: "os_pos s mod 8 = int q" by (simp add: pn q_def zmod_int)
  have off: "16 - os_pos s mod 8 - k = int off" using k p(2) by (simp add: pm kn off_def)
  have P: "P < length (os_buf s)" using lt by linarith
  have P': "Suc P < length (os_buf s)" if "off < 8" using lt that p(2) unfolding off_def by linarith
  have kb: "0 < kn" "kn \<le> 8" using k kn by simp_all
  have mb: "c_uint v AND drop_bit (nat (32 - k)) 0xFFFFFFFF = take_bit kn v"
    unfolding kn by (rule masked_bits [OF kb])
  have sh: "c_uint (push_bit off (take_bit kn v)) = d"
    unfolding d_def by (rule c_uint_shifted) (use kb in \<open>simp_all add: off_def\<close>)
  have guard: "os_pos s + k < os_end s" using lt e p by (simp add: pn kn)
  have w: "bwWrite s k v = Inr (s\<lparr>os_buf := buf2, os_pos := os_pos s + k\<rparr>)"
  proof (cases "off < 8")
    case True
    have "rd buf1 (int P + 1) = Inr (buf1 ! Suc P)" using rd_nat [of "Suc P" buf1] P' [OF True] by (simp add: buf1_def add.commute)
    moreover have "wr buf1 (int P + 1) x = Inr (buf1[Suc P := x])" for x
      using wr_nat [of "Suc P" buf1] P' [OF True] by (simp add: buf1_def add.commute)
    ultimately show ?thesis using True k guard P
      by (simp add: bwWrite_def Let_def idx off mb sh [folded d_def] d_def [symmetric] rd_nat wr_nat buf2_def flip: buf1_def)
  next
    case False
    then show ?thesis using k guard P
      by (simp add: bwWrite_def Let_def idx off mb sh [folded d_def] d_def [symmetric] rd_nat wr_nat buf2_def flip: buf1_def)
  qed
  have len: "length buf2 = length (os_buf s)" by (simp add: buf2_def buf1_def)
  have b: "bit_at buf2 i \<longleftrightarrow> bit_at (os_buf s) i \<or> pn \<le> i \<and> i < pn + kn \<and> bit v (pn + kn - 1 - i)"
    if i: "i < 8 * length (os_buf s)" for i
    using write_bits [OF kb lt p(2) _ _ d_def [unfolded off_def] buf1_def buf2_def [unfolded off_def], of "i div 8" "i mod 8"] i by (simp add: p(1))
  have z: "\<not> bit_at (os_buf s) i" if "i < 8 * length (os_buf s)" "pn \<le> i" for i
    using ok that by (simp add: bw_ok_def pn)
  have "take (pn + kn) (bits_of buf2) = take pn (bits_of (os_buf s)) @ msb_bits kn v"
  proof (rule nth_equalityI)
    show "length (take (pn + kn) (bits_of buf2)) = length (take pn (bits_of (os_buf s)) @ msb_bits kn v)"
      using lt p(1) by (simp add: len)
  next
    fix i assume "i < length (take (pn + kn) (bits_of buf2))"
    then have i: "i < pn + kn" "i < 8 * length (os_buf s)" using lt p by (simp_all add: len)
    have pl: "pn < 8 * length (os_buf s)" using lt p by linarith
    show "take (pn + kn) (bits_of buf2) ! i = (take pn (bits_of (os_buf s)) @ msb_bits kn v) ! i"
    proof (cases "i < pn")
      case True
      then show ?thesis using i pl b [of i] by (simp add: nth_append nth_bits_of len)
    next
      case False
      then have "pn + kn - 1 - i = kn - 1 - (i - pn)" using i by linarith
      with False show ?thesis using i pl b [of i] z [of i]
        by (simp add: nth_append nth_bits_of nth_msb_bits len)
    qed
  qed
  moreover have "bw_ok (s\<lparr>os_buf := buf2, os_pos := os_pos s + k\<rparr>)"
    using ok lt p b z by (auto simp: bw_ok_def len pn kn)
  ultimately show ?thesis using w
    by (auto simp: bw_out_def bw_room_def pn kn nat_int_add)
qed

text \<open>A read of bits that are there returns them and moves on.\<close>

lemma brRead_ok:
  assumes ok: "br_ok s" and k: "0 < k" "k \<le> 8" and r: "br_rest s = msb_bits (nat k) v @ bs"
  shows "\<exists>s'. brRead s k = Inr (take_bit (nat k) v, s') \<and> br_ok s' \<and> br_rest s' = bs
    \<and> is_pos s' = is_pos s + k \<and> is_end s' = is_end s"
proof -
  from ok obtain pn where pn: "is_pos s = int pn" by (auto simp: br_ok_def dest: nonneg_int_cases)
  define kn where "kn = nat k"
  then have kn: "k = int kn" using k by simp
  have kb: "0 < kn" "kn \<le> 8" using k kn by simp_all
  define P q where "P = pn div 8" and "q = pn mod 8"
  have p: "pn = 8 * P + q" "q < 8" by (simp_all add: P_def q_def)
  have e: "is_end s = 8 * int (length (is_buf s))" using ok by (simp add: br_ok_def)
  have "length (br_rest s) = 8 * length (is_buf s) - pn" by (simp add: br_rest_def pn)
  with r kn kb have lt: "8 * P + q + kn \<le> 8 * length (is_buf s)" using p by simp
  define off where "off = 16 - q - kn"
  have idx: "drop_bit 3 (is_pos s) = int P" by (simp add: pn P_def drop_bit_eq_div zdiv_int)
  have pm: "is_pos s AND 0x07 = int q" using and_mask_mod [of "int pn" 3] by (simp add: pn q_def zmod_int)
  have off: "16 - (is_pos s AND 0x07) - k = int off" using kb p(2) by (simp add: pm kn off_def)
  have P: "P < length (is_buf s)" using lt kb by linarith
  have P': "Suc P < length (is_buf s)" if "off < 8" using lt that p(2) unfolding off_def by linarith
  define lo where "lo = (if off < 8 then uint (is_buf s ! Suc P) else 0)"
  define data where "data = drop_bit off (push_bit 8 (uint (is_buf s ! P)) OR lo)"
  have lo_rd: "(if int off < 8 then rdi (is_buf s) (int P + 1) else Inr 0) = Inr lo"
    using rdi_nth [of "Suc P" "is_buf s"] P' by (simp add: lo_def add.commute)
  have lo255: "lo AND 255 = lo" by (simp add: lo_def)
  have rest: "bit v n \<longleftrightarrow> bit_at (is_buf s) (8 * P + (q + kn - 1 - n))" if n: "n < kn" for n
  proof -
    have "br_rest s ! (kn - 1 - n) \<longleftrightarrow> bit v n" using n by (simp add: r nth_append nth_msb_bits kn)
    moreover have "pn + (kn - 1 - n) < 8 * length (is_buf s)" using n lt p(1) by linarith
    then have "br_rest s ! (kn - 1 - n) = bit_at (is_buf s) (pn + (kn - 1 - n))"
      by (simp add: br_rest_def pn nth_bits_of)
    moreover have "pn + (kn - 1 - n) = 8 * P + (q + kn - 1 - n)" using p(1) n by linarith
    ultimately show ?thesis by (simp only:)
  qed
  have db: "bit data n \<longleftrightarrow> bit v n" if n: "n < kn" for n
  proof (cases "q + kn - 1 - n < 8")
    case True
    then have i: "off + n = 8 + (7 - (q + kn - 1 - n))" using n kb p(2) by (simp add: off_def)
    have "\<not> bit lo (off + n)" using i by (simp add: lo_def bit_uint_iff)
    moreover have "bit_at (is_buf s) (8 * P + (q + kn - 1 - n)) = bit (is_buf s ! P) (7 - (q + kn - 1 - n))"
      using True by (simp add: bit_at_def)
    ultimately show ?thesis using i
      by (simp add: data_def bit_drop_bit_eq bit_or_iff bit_push_bit_iff bit_uint_iff rest [OF n]) auto
  next
    case False
    define j where "j = q + kn - 1 - n - 8"
    then have j: "q + kn - 1 - n = 8 + j" "j < 8" using False n kb p(2) by linarith+
    have i: "off + n = 7 - j" unfolding off_def using j n kb p(2) by linarith
    have "off < 8" using i n by linarith
    moreover have "bit_at (is_buf s) (8 * P + (q + kn - 1 - n)) = bit (is_buf s ! Suc P) (7 - j)"
      unfolding j(1) using j(2) by (simp add: bit_at_def div_add_self1)
    moreover have "bit data n \<longleftrightarrow> bit (push_bit 8 (uint (is_buf s ! P)) OR lo) (7 - j)"
      unfolding data_def bit_drop_bit_eq by (simp only: o_apply i)
    moreover have "bit (push_bit 8 (uint (is_buf s ! P)) OR lo) (7 - j) \<longleftrightarrow> bit lo (7 - j)"
      by (auto simp: bit_or_iff bit_push_bit_iff)
    ultimately show ?thesis unfolding rest [OF n] by (simp add: lo_def bit_uint_iff) auto
  qed
  have "data AND drop_bit (nat (32 - int kn)) 0xFFFFFFFF = take_bit kn v"
    using ones_mask [of "int kn"] kb db
    by (intro bit_eqI) (auto simp: bit_and_iff bit_mask_iff bit_take_bit_iff)
  moreover have "c_uchar (take_bit kn v) = take_bit kn v"
    unfolding c_uchar_def using kb by (simp add: min_def)
  moreover have "is_pos s + k \<le> is_end s" using lt e p by (simp add: pn kn)
  ultimately have w: "brRead s k = Inr (take_bit kn v, s\<lparr>is_pos := is_pos s + k\<rparr>)"
    using k rdi_nth [OF P]
    unfolding brRead_def Let_def idx off nat_int kn
    by (simp only: off [unfolded kn] nat_int chk_True bnd.simps lo_rd lo255 uint_and_255 data_def [symmetric] conj_absorb)
  have "drop (pn + kn) (bits_of (is_buf s)) = bs"
  proof -
    have "drop (pn + kn) (bits_of (is_buf s)) = drop kn (drop pn (bits_of (is_buf s)))" by (simp add: add.commute)
    moreover have "drop pn (bits_of (is_buf s)) = msb_bits kn v @ bs" using r by (simp add: br_rest_def pn kn)
    ultimately show ?thesis by simp
  qed
  moreover have "pn + kn \<le> 8 * length (is_buf s)" using lt p by linarith
  ultimately show ?thesis using w ok
    by (auto simp: br_ok_def br_rest_def pn kn nat_int_add)
qed

section \<open>The interface of a bit channel\<close>

text \<open>\<open>put\<close> and \<open>get\<close> with the bits a writer has emitted and the bits a reader has left.\<close>

fun put_fields :: "('w \<Rightarrow> int \<Rightarrow> int \<Rightarrow> 'w res) \<Rightarrow> 'w \<Rightarrow> (int \<times> int) list \<Rightarrow> 'w res" where
  "put_fields put w [] = Inr w"
| "put_fields put w ((k, v) # fs) = bnd (put w k v) (\<lambda>w'. put_fields put w' fs)"

fun get_fields :: "('r \<Rightarrow> int \<Rightarrow> (int \<times> 'r) res) \<Rightarrow> 'r \<Rightarrow> int list \<Rightarrow> (int list \<times> 'r) res" where
  "get_fields get r [] = Inr ([], r)"
| "get_fields get r (k # ks) =
     bnd (get r k) (\<lambda>(v, r'). bnd (get_fields get r' ks) (\<lambda>(vs, r''). Inr (v # vs, r'')))"

definition fields_bits :: "(int \<times> int) list \<Rightarrow> bool list" where
  "fields_bits fs = concat (map (\<lambda>(k, v). msb_bits (nat k) v) fs)"

definition widths_ok :: "(int \<times> int) list \<Rightarrow> bool" where
  "widths_ok fs \<longleftrightarrow> list_all (\<lambda>(k, v). 0 < k \<and> k \<le> 8) fs"

lemma put_fields_append:
  "put_fields put w (fs @ gs) = bnd (put_fields put w fs) (\<lambda>w'. put_fields put w' gs)"
  by (induction put w fs rule: put_fields.induct) (auto simp: bnd_assoc intro: bnd_cong)

lemma fields_bits_simps [simp]:
  "fields_bits [] = []"
  "fields_bits ((k, v) # fs) = msb_bits (nat k) v @ fields_bits fs"
  "fields_bits (fs @ gs) = fields_bits fs @ fields_bits gs"
  by (simp_all add: fields_bits_def)

lemma widths_ok_simps [simp]:
  "widths_ok []"
  "widths_ok ((k, v) # fs) \<longleftrightarrow> 0 < k \<and> k \<le> 8 \<and> widths_ok fs"
  "widths_ok (fs @ gs) \<longleftrightarrow> widths_ok fs \<and> widths_ok gs"
  by (auto simp: widths_ok_def)

definition bits_val :: "bool list \<Rightarrow> int" where
  "bits_val bs = horner_sum of_bool 2 (rev bs)"

lemma bit_bits_val: "bit (bits_val bs) n \<longleftrightarrow> n < length bs \<and> bs ! (length bs - 1 - n)"
  by (auto simp: bits_val_def bit_horner_sum_bit_iff rev_nth)

lemma msb_bits_val: "msb_bits (length bs) (bits_val bs) = bs"
  by (rule nth_equalityI) (auto simp: nth_msb_bits bit_bits_val)

lemma bits_val_msb [simp]: "bits_val (msb_bits k v) = take_bit k v"
  by (rule bit_eqI) (auto simp: bit_bits_val bit_take_bit_iff nth_msb_bits)

lemma take_bit_bits_val [simp]: "take_bit (length bs) (bits_val bs) = bits_val bs"
  by (rule bit_eqI) (auto simp: bit_bits_val bit_take_bit_iff)

locale bit_channel =
  fixes put :: "'w \<Rightarrow> int \<Rightarrow> int \<Rightarrow> 'w res"
    and w_ok :: "'w \<Rightarrow> bool" and out :: "'w \<Rightarrow> bool list" and room :: "'w \<Rightarrow> int"
    and get :: "'r \<Rightarrow> int \<Rightarrow> (int \<times> 'r) res"
    and r_ok :: "'r \<Rightarrow> bool" and rest :: "'r \<Rightarrow> bool list"
  assumes put_ok: "\<lbrakk>w_ok w; 0 < k; k \<le> 8; k \<le> room w\<rbrakk> \<Longrightarrow> \<exists>w'. put w k v = Inr w' \<and> w_ok w'
      \<and> out w' = out w @ msb_bits (nat k) v \<and> room w' = room w - k"
    and get_ok: "\<lbrakk>r_ok r; 0 < k; k \<le> 8; rest r = msb_bits (nat k) v @ bs\<rbrakk> \<Longrightarrow>
      \<exists>r'. get r k = Inr (take_bit (nat k) v, r') \<and> r_ok r' \<and> rest r' = bs"
begin

lemma put_fields_ok:
  assumes "w_ok w" "widths_ok fs" "int (length (fields_bits fs)) \<le> room w"
  shows "\<exists>w'. put_fields put w fs = Inr w' \<and> w_ok w' \<and> out w' = out w @ fields_bits fs
    \<and> room w' = room w - int (length (fields_bits fs))"
  using assms
proof (induction fs arbitrary: w)
  case (Cons f fs)
  obtain k v where f: "f = (k, v)" by (cases f)
  from Cons.prems f have k: "0 < k" "k \<le> 8" "k \<le> room w" by simp_all
  from put_ok [OF Cons.prems(1) k, of v] obtain w1 where w1: "put w k v = Inr w1" "w_ok w1"
    "out w1 = out w @ msb_bits (nat k) v" "room w1 = room w - k" by blast
  have "\<exists>w'. put_fields put w1 fs = Inr w' \<and> w_ok w' \<and> out w' = out w1 @ fields_bits fs
      \<and> room w' = room w1 - int (length (fields_bits fs))"
    using Cons.prems f k w1 by (intro Cons.IH) simp_all
  then show ?case using w1 f k by auto
qed simp

lemma get_fields_ok:
  assumes "r_ok r" "widths_ok fs" "rest r = fields_bits fs @ bs"
  shows "\<exists>r'. get_fields get r (map fst fs) = Inr (map (\<lambda>(k, v). take_bit (nat k) v) fs, r')
    \<and> r_ok r' \<and> rest r' = bs"
  using assms
proof (induction fs arbitrary: r)
  case (Cons f fs)
  obtain k v where f: "f = (k, v)" by (cases f)
  from Cons.prems f have "0 < k" "k \<le> 8" "rest r = msb_bits (nat k) v @ fields_bits fs @ bs" by simp_all
  from get_ok [OF Cons.prems(1) this] obtain r1 where r1: "get r k = Inr (take_bit (nat k) v, r1)"
    "r_ok r1" "rest r1 = fields_bits fs @ bs" by blast
  from Cons.IH [OF r1(2) _ r1(3)] Cons.prems f show ?case by (auto simp: r1(1))
qed simp

lemma get_bits:
  assumes "r_ok r" "rest r = bs @ bs'" "0 < length bs" "length bs \<le> 8"
  shows "\<exists>r'. get r (int (length bs)) = Inr (bits_val bs, r') \<and> r_ok r' \<and> rest r' = bs'"
  using get_ok [OF assms(1), of "int (length bs)" "bits_val bs" bs'] assms(2-) by (simp add: msb_bits_val)

end

interpretation bs: bit_channel bwWrite bw_ok bw_out bw_room brRead br_ok br_rest
proof unfold_locales
  show "\<lbrakk>bw_ok w; 0 < k; k \<le> 8; k \<le> bw_room w\<rbrakk> \<Longrightarrow> \<exists>w'. bwWrite w k v = Inr w' \<and> bw_ok w'
      \<and> bw_out w' = bw_out w @ msb_bits (nat k) v \<and> bw_room w' = bw_room w - k" for w k v
    using bwWrite_ok by blast
  show "\<lbrakk>br_ok r; 0 < k; k \<le> 8; br_rest r = msb_bits (nat k) v @ b\<rbrakk> \<Longrightarrow>
      \<exists>r'. brRead r k = Inr (take_bit (nat k) v, r') \<and> br_ok r' \<and> br_rest r' = b" for r k v b
    using brRead_ok by blast
qed

section \<open>Byte arrays and lengths\<close>

lemma msb_bits_high: "k \<le> 8 \<Longrightarrow> msb_bits k (drop_bit (8 - k) v) = take k (msb_bits 8 v)"
  by (rule nth_equalityI) (auto simp: nth_msb_bits bit_drop_bit_eq)

lemma bwWriteByteArrayFrom_ok:
  assumes "bw_ok s" "0 \<le> i" "m = nat (bits - 8 * i)" "m \<le> 8 * length buf" "int m \<le> bw_room s"
  shows "\<exists>s'. bwWriteByteArrayFrom s bits i buf = Inr s' \<and> bw_ok s'
    \<and> bw_out s' = bw_out s @ take m (bits_of buf) \<and> bw_room s' = bw_room s - int m"
  using assms
proof (induction s bits i buf arbitrary: m rule: bwWriteByteArrayFrom.induct)
  case (2 s bits i b bs)
  define inc where "inc = (if 8 \<le> bits - push_bit 3 i then 8 else bits - push_bit 3 i)"
  have p3: "push_bit 3 i = 8 * i" by (simp add: push_bit_eq_mult)
  show ?case
  proof (cases "inc > 0")
    case False
    then have "m = 0" using "2.prems" by (auto simp: inc_def p3 split: if_splits)
    moreover have "\<exists>s'. bwWriteByteArrayFrom s bits (i + 1) bs = Inr s' \<and> bw_ok s'
        \<and> bw_out s' = bw_out s @ take 0 (bits_of bs) \<and> bw_room s' = bw_room s - int 0"
      using False "2.prems" \<open>m = 0\<close> by (intro "2.IH" [OF inc_def]) auto
    ultimately show ?thesis using False by (simp add: Let_def flip: inc_def)
  next
    case True
    then have k: "0 < inc" "inc \<le> 8" "nat inc \<le> 8" by (auto simp: inc_def split: if_splits)
    have mi: "nat inc = min 8 m" using True "2.prems" by (auto simp: inc_def p3 split: if_splits)
    then have room: "inc \<le> bw_room s" using k "2.prems" by linarith
    define d where "d = drop_bit (nat (8 - inc)) (uint b)"
    from bwWrite_ok [OF "2.prems"(1) k(1,2) room, of d] obtain s1 where
      s1: "bwWrite s inc d = Inr s1" "bw_ok s1" "bw_out s1 = bw_out s @ msb_bits (nat inc) d"
        "bw_room s1 = bw_room s - inc" by blast
    have n8: "nat (8 - inc) = 8 - nat inc" using k by simp
    have d: "msb_bits (nat inc) d = take (nat inc) (msb_bits 8 (uint b))"
      unfolding d_def n8 by (rule msb_bits_high) (rule k(3))
    have room': "int (m - 8) \<le> bw_room s1" using "2.prems"(5) s1(4) mi k by linarith
    have le: "m - 8 \<le> 8 * length bs" "m - 8 = nat (bits - 8 * (i + 1))" using "2.prems" by simp_all
    have "\<exists>s'. bwWriteByteArrayFrom s1 bits (i + 1) bs = Inr s' \<and> bw_ok s'
        \<and> bw_out s' = bw_out s1 @ take (m - 8) (bits_of bs) \<and> bw_room s' = bw_room s1 - int (m - 8)"
      using "2.prems"(2) le s1 mi room' by (intro "2.IH" [OF inc_def]) (simp_all add: k(1) flip: d_def)
    moreover have "take m (bits_of (b # bs)) = msb_bits (nat inc) d @ take (m - 8) (bits_of bs)"
      unfolding d unfolding mi by (cases "m \<le> 8") (simp_all add: bits_of_Cons)
    moreover have "int m = inc + int (m - 8)" using mi k by linarith
    ultimately show ?thesis using True s1(1,3,4)
      by (auto simp: Let_def simp flip: inc_def d_def)
  qed
qed simp

lemma bwWriteByteArray_ok:
  assumes "bw_ok s" "0 \<le> bits" "bits \<le> 8 * int (length buf)" "bits \<le> bw_room s"
  shows "\<exists>s'. bwWriteByteArray s bits buf = Inr s' \<and> bw_ok s'
    \<and> bw_out s' = bw_out s @ take (nat bits) (bits_of buf) \<and> bw_room s' = bw_room s - bits"
  using bwWriteByteArrayFrom_ok [OF assms(1), of 0 "nat bits" bits buf] assms(2-)
  by (simp add: bwWriteByteArray_def)

lemma octet_of_bits:
  assumes "length bs \<le> 8"
  shows "msb_bits 8 (uint (word_of_int (push_bit (8 - length bs) (bits_val bs)) :: byte))
    = bs @ replicate (8 - length bs) False"
proof (rule nth_equalityI)
  fix i assume "i < length (msb_bits 8 (uint (word_of_int (push_bit (8 - length bs) (bits_val bs)) :: byte)))"
  then have i: "i < 8" by simp
  show "msb_bits 8 (uint (word_of_int (push_bit (8 - length bs) (bits_val bs)) :: byte)) ! i
      = (bs @ replicate (8 - length bs) False) ! i"
  proof (cases "i < length bs")
    case True
    then have "7 - i - (8 - length bs) = length bs - 1 - i" using assms by simp
    with True i assms show ?thesis
      by (auto simp: nth_append nth_msb_bits bit_uint_iff bit_word_of_int_iff bit_push_bit_iff bit_bits_val)
  next
    case False
    then show ?thesis using i assms
      by (auto simp: nth_append nth_msb_bits bit_uint_iff bit_word_of_int_iff bit_push_bit_iff)
  qed
qed (use assms in simp)

lemma brReadBytes_ok:
  assumes "br_ok s" "0 \<le> i" "br_rest s = bs @ bs'" "int (length bs) = max 0 (bits - 8 * i)"
    and "n = (length bs + 7) div 8"
  shows "\<exists>ys s'. brReadBytes s bits n i buf = Inr (buf @ ys, s') \<and> br_ok s' \<and> br_rest s' = bs'
    \<and> length ys = n \<and> bits_of ys = bs @ replicate (8 * n - length bs) False"
  using assms
proof (induction n arbitrary: s i bs buf)
  case 0
  then have "length bs = 0" by linarith
  with 0 show ?case by simp
next
  case (Suc n)
  define inc where "inc = (if 8 \<le> bits - push_bit 3 i then 8 else bits - push_bit 3 i)"
  have p3: "push_bit 3 i = 8 * i" by (simp add: push_bit_eq_mult)
  have pos: "0 < length bs" using Suc.prems(5) by (cases bs) auto
  have len0: "int (length bs) = bits - 8 * i" using Suc.prems(4) pos by linarith
  define cs ds where "cs = take 8 bs" and "ds = drop 8 bs"
  have bs: "bs = cs @ ds" by (simp add: cs_def ds_def)
  have inc: "inc = int (length cs)" "0 < length cs" "length cs \<le> 8"
    using len0 pos by (auto simp: inc_def p3 cs_def min_def)
  have "br_rest s = cs @ (ds @ bs')" using Suc.prems(3) bs by simp
  from bs.get_bits [OF Suc.prems(1) this inc(2,3)] obtain s1 where
    s1: "brRead s inc = Inr (bits_val cs, s1)" "br_ok s1" "br_rest s1 = ds @ bs'" unfolding inc(1) by blast
  define y where "y = (word_of_int (push_bit (8 - length cs) (bits_val cs)) :: byte)"
  have y: "msb_bits 8 (uint y) = cs @ replicate (8 - length cs) False"
    unfolding y_def by (rule octet_of_bits) (rule inc(3))
  have len: "length ds = length bs - 8" by (simp add: ds_def)
  have "int (length ds) = max 0 (bits - 8 * (i + 1))" using len0 len by (cases "length bs \<le> 8") auto
  moreover have "n = (length ds + 7) div 8" using Suc.prems(5) len by linarith
  ultimately obtain ys s2 where s2: "brReadBytes s1 bits n (i + 1) (buf @ [y]) = Inr ((buf @ [y]) @ ys, s2)"
    "br_ok s2" "br_rest s2 = bs'" "length ys = n" "bits_of ys = ds @ replicate (8 * n - length ds) False"
    using Suc.IH [OF s1(2) _ s1(3), of "i + 1" "buf @ [y]"] Suc.prems(2) by auto
  have "bits_of (y # ys) = bs @ replicate (8 * Suc n - length bs) False"
  proof (cases "length bs \<le> 8")
    case True
    then have "ds = []" "cs = bs" "n = 0" using Suc.prems(5) len by (auto simp: cs_def ds_def)
    with s2(4) True show ?thesis by (simp add: bits_of_Cons y)
  next
    case False
    then have "length cs = 8" by (simp add: cs_def)
    then have "bits_of (y # ys) = (cs @ ds) @ replicate (8 * n - length ds) False"
      by (simp add: bits_of_Cons y s2(5))
    moreover have "8 * n - length ds = 8 * Suc n - length bs" unfolding len using False by simp
    ultimately show ?thesis by (simp only: bs [symmetric])
  qed
  moreover have "nat (8 - inc) = 8 - length cs" using inc by simp
  then have "brReadBytes s bits (Suc n) i buf = Inr (buf @ y # ys, s2)"
    unfolding brReadBytes.simps Let_def inc_def [symmetric] s1(1) bnd.simps prod.case y_def [symmetric]
    using s2(1) by (simp add: y_def)
  ultimately show ?case using s2(2,3,4) by (intro exI [of _ "y # ys"] exI [of _ s2]) simp
qed

lemma brReadByteArray_ok:
  assumes "br_ok s" "br_rest s = bs @ bs'"
  shows "\<exists>ys s'. brReadByteArray s (int (length bs)) buf = Inr (buf @ ys, s') \<and> br_ok s' \<and> br_rest s' = bs'
    \<and> length ys = (length bs + 7) div 8 \<and> bits_of ys = bs @ replicate (8 * length ys - length bs) False"
proof -
  define n where "n = length bs"
  have "nat (drop_bit 3 (int n) + (if int n AND 0x07 > 0 then 1 else 0)) = (n + 7) div 8"
  proof -
    have d: "drop_bit 3 (int n) = int (n div 8)" and m: "int n AND 0x07 = int (n mod 8)"
      using and_mask_mod [of "int n" 3] by (simp_all add: drop_bit_eq_div zdiv_int zmod_int)
    have "(n + 7) div 8 = n div 8 + (if n mod 8 = 0 then 0 else 1)"
    proof -
      obtain a b where ab: "n = 8 * a + b" "b < 8"
        using div_mult_mod_eq [of n 8] mod_less_divisor [of 8 n] by (metis mult.commute zero_less_numeral)
      then have nd: "n div 8 = a" "n mod 8 = b" by simp_all
      have "(n + 7) div 8 = a + (b + 7) div 8" unfolding ab(1) by simp
      moreover have "(b + 7) div 8 = (if b = 0 then 0 else 1)" using ab(2) by (auto intro: div_nat_eqI)
      ultimately show ?thesis unfolding nd by simp
    qed
    then show ?thesis unfolding d m by (simp add: nat_add_distrib)
  qed
  then have "brReadByteArray s (int (length bs)) buf = brReadBytes s (int (length bs)) ((length bs + 7) div 8) 0 buf"
    by (simp only: brReadByteArray_def n_def Let_def)
  moreover obtain ys s' where "brReadBytes s (int (length bs)) ((length bs + 7) div 8) 0 buf = Inr (buf @ ys, s')"
    "br_ok s'" "br_rest s' = bs'" "length ys = (length bs + 7) div 8"
    "bits_of ys = bs @ replicate (8 * ((length bs + 7) div 8) - length bs) False"
    using brReadBytes_ok [OF assms(1) order_refl assms(2), of "int (length bs)" "(length bs + 7) div 8" buf] by auto
  ultimately show ?thesis by (intro exI [of _ ys] exI [of _ s']) simp
qed

lemma bits_of_inject: "length xs = length ys \<Longrightarrow> bits_of xs = bits_of ys \<longleftrightarrow> xs = ys"
proof (induction xs ys rule: list_induct2)
  case (Cons x xs y ys)
  have "x = y" if "msb_bits 8 (uint x) = msb_bits 8 (uint y)"
  proof -
    have "uint x = uint y" using arg_cong [OF that, of bits_val]
        take_bit_int_eq_self [of "uint x" 8] take_bit_int_eq_self [of "uint y" 8] by simp
    then show ?thesis by (simp only: word_uint_eq_iff)
  qed
  with Cons show ?case by (auto simp: bits_of_Cons)
qed simp

lemma ceil8: "(if (p :: int) mod 8 = 0 then p div 8 else p div 8 + 1) = (p + 7) div 8"
proof -
  define a b where "a = p div 8" and "b = p mod 8"
  then have ab: "p = 8 * a + b" "0 \<le> b" "b < 8" by simp_all
  have "(p + 7) div 8 = a + (b + 7) div 8" unfolding ab(1) by simp
  moreover have "(b + 7) div 8 = (if b = 0 then 0 else 1)" using ab(2,3) by (auto intro: int_div_pos_eq [of _ _ _ "b - 1"])
  ultimately show ?thesis by (simp flip: a_def b_def)
qed

lemma bwGetByteLen_eq: "bwGetByteLen s = (os_pos s + 7) div 8"
proof -
  have m: "os_pos s AND 0x7 = os_pos s mod 8" using and_mask_mod [of "os_pos s" 3] by simp
  have d: "drop_bit 3 (os_pos s) = os_pos s div 8" by (simp add: drop_bit_eq_div)
  show ?thesis unfolding bwGetByteLen_def Let_def m d ceil8 [symmetric] by (cases "os_pos s mod 8 = 0") simp_all
qed

section \<open>Finished buffers\<close>

lemma bw_pos_out: "bw_ok s \<Longrightarrow> os_pos s = int (length (bw_out s))"
  by (auto simp: bw_ok_def bw_out_def)

lemma bits_of_take: "bits_of (take m buf) = take (8 * m) (bits_of buf)"
proof (cases "m \<le> length buf")
  case True
  then have "bits_of buf = bits_of (take m buf) @ bits_of (drop m buf)"
    using bits_of_append [of "take m buf" "drop m buf"] by simp
  with True show ?thesis by simp
qed simp

text \<open>The octets of a buffer whose last octet is complete.\<close>

lemma finished_buffer:
  assumes "bw_ok s" "length (bw_out s) = 8 * m"
  shows "\<exists>val. rd_block (os_buf s) 0 (int m) = Inr val \<and> length val = m \<and> bits_of val = bw_out s"
proof -
  have p: "os_pos s = 8 * int m" using bw_pos_out [OF assms(1)] assms(2) by simp
  then have m: "m \<le> length (os_buf s)" using assms(1) by (simp add: bw_ok_def)
  show ?thesis
  proof (intro exI conjI)
    show "rd_block (os_buf s) 0 (int m) = Inr (take m (os_buf s))"
      using m by (simp add: rd_block_def)
    show "length (take m (os_buf s)) = m" using m by simp
    show "bits_of (take m (os_buf s)) = bw_out s"
      by (simp add: bits_of_take bw_out_def p nat_mult_distrib)
  qed
qed

lemma msb_bits_zero: "msb_bits k 0 = replicate k False"
  by (rule nth_equalityI) (simp_all add: nth_msb_bits)

end
