(* ===== verification/CdmaTlv.thy ===== *)
theory CdmaTlv
  imports BitStream SmsUtils
begin

text \<open>
  The parameters of a CDMA message as the modem exchanges them in hexadecimal
  (\<open>mdcomm/sms/RmcCdmaSmsConverter.{cpp,h}\<close>): \<open>CdmaSmsMessage\<close> (the message type),
  \<open>RmcTlvNode\<close> (tag, length, value) and its subclasses \<open>TeleServiceId\<close>,
  \<open>ServiceCategory\<close>, \<open>CdmaSmsAddress\<close>, \<open>CdmaSmsSubAddress\<close>, \<open>BearerReplyOpt\<close> and
  \<open>CauseCode\<close>, with the structures of \<open>ril_cdma_sms.h\<close> they fill. The object tree
  (\<open>RfxObject\<close>) enters as the list of a message's parameters in order of creation. A
  constructor from hexadecimal reads a buffer with its NUL from an index.
\<close>

section \<open>Structures of ril_cdma_sms.h\<close>

definition RIL_CDMA_SMS_ADDRESS_MAX :: int where "RIL_CDMA_SMS_ADDRESS_MAX = 36"
definition RIL_CDMA_SMS_SUBADDRESS_MAX :: int where "RIL_CDMA_SMS_SUBADDRESS_MAX = 36"
definition RIL_CDMA_SMS_BEARER_DATA_MAX :: int where "RIL_CDMA_SMS_BEARER_DATA_MAX = 255"

record RIL_CDMA_SMS_Address =
  digit_mode :: int
  number_mode :: int
  number_type :: int
  number_plan :: int
  number_of_digits :: int
  digits :: "byte list"

record RIL_CDMA_SMS_Subaddress =
  subaddressType :: int
  odd_digits :: int
  sub_number_of_digits :: int
  sub_digits :: "byte list"

record RIL_CDMA_SMS_Ack =
  uErrorClass :: int
  uSMSCauseCode :: int

section \<open>RmcTlvNode\<close>

record RmcTlvNode =
  m_tag :: int
  m_length :: int
  m_error :: int
  m_value :: "byte list"

definition newRmcTlvNode :: "int \<Rightarrow> int \<Rightarrow> RmcTlvNode" where
  "newRmcTlvNode tag len = \<lparr> m_tag = tag, m_length = len, m_error = 0, m_value = [] \<rparr>"

text \<open>\<open>%02x\<close> of an \<open>int\<close>: the digits of its 32-bit pattern, at least two.\<close>

fun hex_digits :: "nat \<Rightarrow> string" where
  "hex_digits n = (if n < 16 then [digit_char n] else hex_digits (n div 16) @ [digit_char (n mod 16)])"

declare hex_digits.simps [simp del]

definition fmt_02x :: "int \<Rightarrow> string" where
  "fmt_02x n = (let s = hex_digits (nat (c_uint n)) in if length s < 2 then CHR ''0'' # s else s)"

definition toHexHeader :: "RmcTlvNode \<Rightarrow> string" where
  "toHexHeader nd = fmt_02x (m_tag nd) @ fmt_02x (m_length nd)"

definition toHexBody :: "RmcTlvNode \<Rightarrow> string" where
  "toHexBody nd = concat (map hex2 (m_value nd))"

definition char2Int :: "char \<Rightarrow> int res" where
  "char2Int c =
     (let n = (of_char c :: int) in
      if 48 \<le> n \<and> n \<le> 57 then Inr (n - 48)
      else if 65 \<le> n \<and> n \<le> 70 then Inr (n - 65 + 10)
      else if 97 \<le> n \<and> n \<le> 102 then Inr (n - 97 + 10)
      else Inl AssertFailed)"

text \<open>The loop of \<open>hex2Bin\<close>: octet \<open>i\<close>, with \<open>n\<close> to go.\<close>

fun hex2BinLoop :: "buffer \<Rightarrow> nat \<Rightarrow> nat \<Rightarrow> nat \<Rightarrow> RmcTlvNode \<Rightarrow> RmcTlvNode res" where
  "hex2BinLoop src p 0 i nd = Inr nd"
| "hex2BinLoop src p (Suc n) i nd =
     bnd (peek src p) (\<lambda>a. bnd (char2Int a) (\<lambda>hi.
     bnd (peek src (p + 1)) (\<lambda>b. bnd (char2Int b) (\<lambda>lo.
     let c = c_uchar (push_bit 4 hi OR lo) in
     hex2BinLoop src (p + 2) n (i + 1)
       (if i = 0 then nd\<lparr>m_tag := c\<rparr>
        else if i = 1 then nd\<lparr>m_length := c\<rparr>
        else nd\<lparr>m_value := m_value nd @ [word_of_int c]\<rparr>)))))"

definition hex2Bin :: "buffer \<Rightarrow> nat \<Rightarrow> int \<Rightarrow> RmcTlvNode \<Rightarrow> RmcTlvNode res" where
  "hex2Bin src p len nd =
     bnd (chk (len mod 2 = 0) AssertFailed) (\<lambda>_.
     bnd (chk (len \<ge> 6) AssertFailed) (\<lambda>_.
     hex2BinLoop src p (nat (len div 2)) 0 nd))"

definition nodeFromHex :: "buffer \<Rightarrow> nat \<Rightarrow> int \<Rightarrow> RmcTlvNode res" where
  "nodeFromHex hexPdu p len =
     bnd (hex2Bin hexPdu p len (newRmcTlvNode (- 1) (- 1))) (\<lambda>nd.
     Inr (if len \<noteq> m_length nd * 2 + 4 then nd\<lparr>m_error := - 1\<rparr> else nd))"

section \<open>CdmaSmsMessage\<close>

record CdmaSmsMessage =
  m_type :: int
  msg_error :: int
  params :: "RmcTlvNode list"

definition MESSAGE_TYPE_P2P :: int where "MESSAGE_TYPE_P2P = 0x00"
definition MESSAGE_TYPE_BC :: int where "MESSAGE_TYPE_BC = 0x01"
definition MESSAGE_TYPE_ACK :: int where "MESSAGE_TYPE_ACK = 0x02"

definition newCdmaSmsMessage :: "int \<Rightarrow> CdmaSmsMessage" where
  "newCdmaSmsMessage type =
     \<lparr> m_type = type, msg_error = (if type < MESSAGE_TYPE_P2P \<or> type > MESSAGE_TYPE_ACK then - 1 else 0),
       params = [] \<rparr>"

definition messageFromHex :: "string \<Rightarrow> int \<Rightarrow> CdmaSmsMessage res" where
  "messageFromHex hexPdu len =
     bnd (chk (len = 2) AssertFailed) (\<lambda>_.
     Inr (if take 2 hexPdu = ''00'' then \<lparr> m_type = MESSAGE_TYPE_P2P, msg_error = 0, params = [] \<rparr>
          else if take 2 hexPdu = ''01'' then \<lparr> m_type = MESSAGE_TYPE_BC, msg_error = 0, params = [] \<rparr>
          else \<lparr> m_type = - 1, msg_error = - 1, params = [] \<rparr>))"

definition addParam :: "CdmaSmsMessage \<Rightarrow> RmcTlvNode \<Rightarrow> CdmaSmsMessage" where
  "addParam msg nd = msg\<lparr>params := params msg @ [nd]\<rparr>"

definition msgToHexHeader :: "CdmaSmsMessage \<Rightarrow> string" where
  "msgToHexHeader msg = fmt_02x (m_type msg)"

definition msgToHexBody :: "CdmaSmsMessage \<Rightarrow> string" where
  "msgToHexBody msg = concat (map (\<lambda>nd. toHexHeader nd @ toHexBody nd) (params msg))"

section \<open>TeleServiceId and ServiceCategory\<close>

definition TELESERVICE_ID :: int where "TELESERVICE_ID = 0x00"
definition TELESERVICE_ID_LEN :: int where "TELESERVICE_ID_LEN = 0x02"
definition CT_WAP_PUSH_TID :: int where "CT_WAP_PUSH_TID = 0xFDEA"
definition SERVICE_CATEGORY :: int where "SERVICE_CATEGORY = 0x01"

definition newTeleServiceId :: "int \<Rightarrow> RmcTlvNode" where
  "newTeleServiceId tid =
     (newRmcTlvNode TELESERVICE_ID TELESERVICE_ID_LEN)
       \<lparr>m_value := [word_of_int (drop_bit 8 (tid AND 0xFFFF)), word_of_int (tid AND 0xFF)]\<rparr>"

definition checkTag :: "(int \<Rightarrow> bool) \<Rightarrow> RmcTlvNode \<Rightarrow> RmcTlvNode" where
  "checkTag ok nd = (if \<not> ok (m_tag nd) then nd\<lparr>m_error := - 1\<rparr> else nd)"

definition teleServiceIdFromHex :: "buffer \<Rightarrow> nat \<Rightarrow> int \<Rightarrow> RmcTlvNode res" where
  "teleServiceIdFromHex hexPdu p len =
     bnd (nodeFromHex hexPdu p len) (\<lambda>nd. Inr (checkTag (\<lambda>t. t = TELESERVICE_ID) nd))"

definition twoOctets :: "RmcTlvNode \<Rightarrow> int res" where
  "twoOctets nd = bnd (rdi (m_value nd) 0) (\<lambda>a. bnd (rdi (m_value nd) 1) (\<lambda>b. Inr (push_bit 8 a OR b)))"

definition getTeleServiceId :: "RmcTlvNode \<Rightarrow> int res" where
  "getTeleServiceId nd = (if m_error nd < 0 then Inr (- 1) else twoOctets nd)"

definition isCtWapPush :: "RmcTlvNode \<Rightarrow> bool res" where
  "isCtWapPush nd = bnd (getTeleServiceId nd) (\<lambda>i. Inr (i = CT_WAP_PUSH_TID))"

definition serviceCategoryFromHex :: "buffer \<Rightarrow> nat \<Rightarrow> int \<Rightarrow> RmcTlvNode res" where
  "serviceCategoryFromHex hexPdu p len =
     bnd (nodeFromHex hexPdu p len) (\<lambda>nd. Inr (checkTag (\<lambda>t. t = SERVICE_CATEGORY) nd))"

definition getServiceCategory :: "RmcTlvNode \<Rightarrow> int res" where
  "getServiceCategory nd = (if m_error nd < 0 then Inr (- 1) else twoOctets nd)"

section \<open>CdmaSmsAddress\<close>

definition ORIG_ADDRESS :: int where "ORIG_ADDRESS = 0x02"
definition DEST_ADDRESS :: int where "DEST_ADDRESS = 0x04"

definition dtmf2Char :: "int \<Rightarrow> int" where
  "dtmf2Char dtmf =
     (if dtmf > 0 \<and> dtmf \<le> 9 then dtmf + 48
      else if dtmf = 10 then 48 else if dtmf = 11 then 42 else if dtmf = 12 then 35 else 0)"

text \<open>The digits loop of the constructor: \<open>n\<close> digits to go from \<open>i\<close>.\<close>

fun addrDigitsLoop ::
  "RIL_CDMA_SMS_Address \<Rightarrow> int \<Rightarrow> nat \<Rightarrow> int \<Rightarrow> BitwiseOutputStream \<Rightarrow> byte list
     \<Rightarrow> (BitwiseOutputStream \<times> byte list) res" where
  "addrDigitsLoop addr sz 0 i body number = Inr (body, number)"
| "addrDigitsLoop addr sz (Suc n) i body number =
     bnd (rdi (digits addr) i) (\<lambda>d.
     bnd (bwWrite body sz d) (\<lambda>body'.
     bnd (if digit_mode addr = 0 then wr number i (word_of_int (dtmf2Char d)) else Inr number) (\<lambda>number'.
     addrDigitsLoop addr sz n (i + 1) body' number')))"

definition addrHeader :: "RIL_CDMA_SMS_Address \<Rightarrow> BitwiseOutputStream \<Rightarrow> (BitwiseOutputStream \<times> int) res" where
  "addrHeader addr body =
     bnd (bwWrite body 1 (digit_mode addr)) (\<lambda>body.
     bnd (bwWrite body 1 (number_mode addr)) (\<lambda>body.
     if digit_mode addr = 1 then
       bnd (bwWrite body 3 (number_type addr)) (\<lambda>body.
       bnd (if number_mode addr = 0 then bwWrite body 4 (number_plan addr) else Inr body) (\<lambda>body.
       Inr (body, 8)))
     else Inr (body, 4)))"

text \<open>The node and \<open>m_number\<close>.\<close>

definition newCdmaSmsAddress :: "RIL_CDMA_SMS_Address \<Rightarrow> bool \<Rightarrow> (RmcTlvNode \<times> byte list) res" where
  "newCdmaSmsAddress addr isMo =
     (let tag = (if isMo then DEST_ADDRESS else ORIG_ADDRESS);
          body = newBitwiseOutputStream (40 * 8) in
      bnd (addrHeader addr body) (\<lambda>(body, sz).
      bnd (bwWrite body 8 (number_of_digits addr)) (\<lambda>body.
      bnd (rd_block (digits addr) 0 RIL_CDMA_SMS_ADDRESS_MAX) (\<lambda>number.
      bnd (addrDigitsLoop addr sz (nat (number_of_digits addr)) 0 body number) (\<lambda>(body, number).
      bnd (rd_block number 0 (number_of_digits addr)) (\<lambda>m_number.
      let len = bwGetByteLen body in
      bnd (bwWrite body (push_bit 3 len - os_pos body) 0) (\<lambda>body.
      bnd (rd_block (os_buf body) 0 len) (\<lambda>val.
      Inr ((newRmcTlvNode tag len)\<lparr>m_value := val\<rparr>, m_number)))))))))"

definition addressFromHex :: "buffer \<Rightarrow> nat \<Rightarrow> int \<Rightarrow> RmcTlvNode res" where
  "addressFromHex hexPdu p len =
     bnd (nodeFromHex hexPdu p len) (\<lambda>nd.
     Inr (checkTag (\<lambda>t. \<not> (t \<noteq> ORIG_ADDRESS \<and> t \<noteq> DEST_ADDRESS)) nd))"

fun readDigits :: "BitwiseInputStream \<Rightarrow> int \<Rightarrow> nat \<Rightarrow> int \<Rightarrow> byte list \<Rightarrow> byte list res" where
  "readDigits body sz 0 i ds = Inr ds"
| "readDigits body sz (Suc n) i ds =
     bnd (brRead body sz) (\<lambda>(d, body').
     bnd (wr ds i (word_of_int d)) (\<lambda>ds'. readDigits body' sz n (i + 1) ds'))"

definition getAddressHeader ::
  "BitwiseInputStream \<Rightarrow> RIL_CDMA_SMS_Address \<Rightarrow> (BitwiseInputStream \<times> RIL_CDMA_SMS_Address \<times> int) res" where
  "getAddressHeader body addr =
     bnd (brRead body 1) (\<lambda>(v, body). let addr = addr\<lparr>digit_mode := v\<rparr> in
     bnd (brRead body 1) (\<lambda>(v, body). let addr = addr\<lparr>number_mode := v\<rparr> in
     if digit_mode addr = 1 then
       if number_mode addr = 1 then
         bnd (brRead body 3) (\<lambda>(v, body). Inr (body, addr\<lparr>number_type := v\<rparr>, 8))
       else
         bnd (brRead body 3) (\<lambda>(v, body). let addr = addr\<lparr>number_type := v\<rparr> in
         bnd (brRead body 4) (\<lambda>(v, body). Inr (body, addr\<lparr>number_plan := v\<rparr>, 8)))
     else Inr (body, addr, 4)))"

definition cdmaGetAddress :: "RmcTlvNode \<Rightarrow> RIL_CDMA_SMS_Address \<Rightarrow> (bool \<times> RIL_CDMA_SMS_Address) res" where
  "cdmaGetAddress nd addr =
     (if m_error nd < 0 then Inr (False, addr)
      else let body = newBitwiseInputStream (m_value nd) (int (length (m_value nd))) in
        bnd (getAddressHeader body addr) (\<lambda>(body, addr, sz).
        bnd (brRead body 8) (\<lambda>(n, body). let addr = addr\<lparr>number_of_digits := n\<rparr> in
        bnd (readDigits body sz (nat n) 0 (digits addr)) (\<lambda>ds. Inr (True, addr\<lparr>digits := ds\<rparr>)))))"

section \<open>CdmaSmsSubAddress\<close>

definition ORIG_SUB_ADDR :: int where "ORIG_SUB_ADDR = 0x03"
definition DEST_SUB_ADDR :: int where "DEST_SUB_ADDR = 0x05"

definition subAddressFromHex :: "buffer \<Rightarrow> nat \<Rightarrow> int \<Rightarrow> RmcTlvNode res" where
  "subAddressFromHex hexPdu p len =
     bnd (nodeFromHex hexPdu p len) (\<lambda>nd.
     Inr (checkTag (\<lambda>t. \<not> (t \<noteq> ORIG_SUB_ADDR \<and> t \<noteq> DEST_SUB_ADDR)) nd))"

definition getSubAddr :: "RmcTlvNode \<Rightarrow> RIL_CDMA_SMS_Subaddress \<Rightarrow> (bool \<times> RIL_CDMA_SMS_Subaddress) res" where
  "getSubAddr nd sub =
     (if m_error nd < 0 then Inr (False, sub)
      else let body = newBitwiseInputStream (m_value nd) (int (length (m_value nd))) in
        bnd (brRead body 3) (\<lambda>(v, body). let sub = sub\<lparr>subaddressType := v\<rparr> in
        if v > 1 then Inr (False, sub)
        else
        bnd (brRead body 1) (\<lambda>(v, body). let sub = sub\<lparr>odd_digits := v\<rparr> in
        bnd (brRead body 8) (\<lambda>(n, body). let sub = sub\<lparr>sub_number_of_digits := n\<rparr> in
        if n > RIL_CDMA_SMS_SUBADDRESS_MAX then Inr (False, sub)
        else
        bnd (readDigits body 8 (nat n) 0 (sub_digits sub)) (\<lambda>ds. Inr (True, sub\<lparr>sub_digits := ds\<rparr>))))))"

section \<open>BearerReplyOpt and CauseCode\<close>

definition BEARER_REPLY_OPT :: int where "BEARER_REPLY_OPT = 0x06"
definition BEARER_REPLY_OPT_LEN :: int where "BEARER_REPLY_OPT_LEN = 0x01"

definition newBearerReplyOpt :: RmcTlvNode where
  "newBearerReplyOpt = (newRmcTlvNode BEARER_REPLY_OPT BEARER_REPLY_OPT_LEN)\<lparr>m_value := [0x00]\<rparr>"

definition bearerReplyOptFromHex :: "buffer \<Rightarrow> nat \<Rightarrow> int \<Rightarrow> RmcTlvNode res" where
  "bearerReplyOptFromHex hexPdu p len =
     bnd (nodeFromHex hexPdu p len) (\<lambda>nd. Inr (checkTag (\<lambda>t. t = BEARER_REPLY_OPT) nd))"

definition getReplySeq :: "RmcTlvNode \<Rightarrow> int res" where
  "getReplySeq nd =
     (if m_error nd < 0 then Inr (- 1)
      else bnd (rdi (m_value nd) 0) (\<lambda>a. Inr (drop_bit 2 a AND 0x3F)))"

definition CAUSE_CODE :: int where "CAUSE_CODE = 0x07"
definition CAUSE_CODE_NO_ERR_LEN :: int where "CAUSE_CODE_NO_ERR_LEN = 0x01"
definition CAUSE_CODE_ERR_LEN :: int where "CAUSE_CODE_ERR_LEN = 0x02"
definition NO_ERR :: int where "NO_ERR = 0x00"
definition TEMPORARY_ERR :: int where "TEMPORARY_ERR = 0x02"
definition PERMANENT_ERR :: int where "PERMANENT_ERR = 0x03"
definition RIL_CDMA_SMS_TEMP_ERROR :: int where "RIL_CDMA_SMS_TEMP_ERROR = 2"

definition newCauseCode :: "RIL_CDMA_SMS_Ack \<Rightarrow> int \<Rightarrow> RmcTlvNode res" where
  "newCauseCode ack replySeqNo =
     bnd (if uErrorClass ack = 0 then Inr (CAUSE_CODE_NO_ERR_LEN, NO_ERR)
          else if uErrorClass ack = 1 then Inr (CAUSE_CODE_ERR_LEN, PERMANENT_ERR)
          else if uErrorClass ack = RIL_CDMA_SMS_TEMP_ERROR then Inr (CAUSE_CODE_ERR_LEN, TEMPORARY_ERR)
          else Inl AssertFailed) (\<lambda>(len, errClass).
     let first = word_of_int (push_bit 2 replySeqNo OR (errClass AND 0x03)) in
     Inr ((newRmcTlvNode CAUSE_CODE len)
       \<lparr>m_value := first # (if errClass \<noteq> NO_ERR then [word_of_int (uSMSCauseCode ack)] else [])\<rparr>))"

definition causeCodeFromHex :: "buffer \<Rightarrow> nat \<Rightarrow> int \<Rightarrow> RmcTlvNode res" where
  "causeCodeFromHex hexPdu p len =
     bnd (nodeFromHex hexPdu p len) (\<lambda>nd. Inr (checkTag (\<lambda>t. t = CAUSE_CODE) nd))"

section \<open>Hexadecimal\<close>

lemma char2Int_digit [simp]: "d < 16 \<Longrightarrow> char2Int (digit_char d) = Inr (int d)"
  by (simp add: char2Int_def)

lemma char2Int_NUL [simp]: "char2Int NUL = Inl AssertFailed"
  by (simp add: char2Int_def)

lemma fmt_02x_octet: "0 \<le> n \<Longrightarrow> n < 256 \<Longrightarrow> fmt_02x n = hex2 (word_of_int n)"
proof -
  assume n: "0 \<le> n" "n < 256"
  define k where "k = nat n"
  have k: "n = int k" "k < 256" using n by (simp_all add: k_def)
  have c: "c_uint n = n" using n by (simp add: c_uint_def take_bit_int_eq_self)
  have u: "unat (word_of_int n :: byte) = k" using k by (simp add: unat_of_nat take_bit_nat_eq_self)
  show ?thesis
  proof (cases "k < 16")
    case True
    have "CHR ''0'' = (char_of (48 :: nat) :: char)" by code_simp
    with True show ?thesis using u c k
      by (simp add: fmt_02x_def hex2_def hex_digits.simps [of k] digit_char_def)
  next
    case False
    then have "k div 16 < 16" using k by simp
    with False show ?thesis using u c k
      by (simp add: fmt_02x_def hex2_def hex_digits.simps [of k] hex_digits.simps [of "k div 16"])
  qed
qed

lemma hex2_read:
  assumes "src = xs @ hex2 b @ ys"
  shows "peek src (length xs) = Inr (digit_char (unat b div 16)) \<and> peek src (length xs + 1) = Inr (digit_char (unat b mod 16))
    \<and> char2Int (digit_char (unat b div 16)) = Inr (int (unat b div 16))
    \<and> char2Int (digit_char (unat b mod 16)) = Inr (int (unat b mod 16))
    \<and> c_uchar (push_bit 4 (int (unat b div 16)) OR int (unat b mod 16)) = uint b"
proof -
  have "int (unat b) < 256" using uint_byte_lt [of b] by (simp only: uint_nat)
  then have "unat b < 256" by linarith
  then have b: "unat b div 16 < 16" by (simp add: less_mult_imp_div_less)
  have "push_bit 4 (int (unat b div 16)) OR int (unat b mod 16) = int (unat b div 16) * 16 + int (unat b mod 16)"
    using or_low_bits [of "int (unat b mod 16)" 4 "int (unat b div 16)"] by simp
  also have "\<dots> = int (unat b div 16 * 16 + unat b mod 16)" by (simp only: of_nat_add of_nat_mult of_nat_numeral)
  also have "\<dots> = uint b" by (simp only: div_mult_mod_eq uint_nat)
  finally show ?thesis using b assms by (simp add: peek_def hex2_def c_uchar_id nth_append)
qed

lemma hex2BinLoop_values:
  assumes "src = xs @ concat (map hex2 bs) @ ys" "2 \<le> i"
  shows "hex2BinLoop src (length xs) (length bs) i nd = Inr (nd\<lparr>m_value := m_value nd @ bs\<rparr>)"
  using assms
proof (induction bs arbitrary: xs i nd)
  case (Cons b bs)
  have "src = (xs @ hex2 b) @ concat (map hex2 bs) @ ys" using Cons.prems by simp
  from Cons.IH [OF this, of "i + 1"] Cons.prems(2)
  have IH: "hex2BinLoop src (length xs + 2) (length bs) (i + 1) n = Inr (n\<lparr>m_value := m_value n @ bs\<rparr>)" for n
    by (simp add: hex2_def)
  show ?case using hex2_read [of src xs b "concat (map hex2 bs) @ ys"] Cons.prems IH
    by (simp add: Let_def)
qed simp

lemma hex2BinLoop_node:
  assumes src: "src = xs @ hex2 t @ hex2 l @ concat (map hex2 bs) @ ys"
  shows "hex2BinLoop src (length xs) (length bs + 2) 0 nd
    = Inr (nd\<lparr>m_tag := uint t, m_length := uint l, m_value := m_value nd @ bs\<rparr>)"
proof -
  have s1: "src = (xs @ hex2 t) @ hex2 l @ concat (map hex2 bs) @ ys"
    and s2: "src = (xs @ hex2 t @ hex2 l) @ concat (map hex2 bs) @ ys" using src by simp_all
  have l4: "length (xs @ hex2 t @ hex2 l) = length xs + 2 + 2" by (simp add: hex2_def)
  have i2: "0 + 1 + 1 = (2 :: nat)" by simp
  have rest: "hex2BinLoop src (length xs + 2 + 2) (length bs) (0 + 1 + 1) n = Inr (n\<lparr>m_value := m_value n @ bs\<rparr>)" for n
    unfolding i2 by (rule hex2BinLoop_values [OF s2 order_refl, unfolded l4])
  have l2: "length (xs @ hex2 t) = length xs + 2" by (simp add: hex2_def)
  have n: "length bs + 2 = Suc (Suc (length bs))" by simp
  show ?thesis using hex2_read [OF src] hex2_read [OF s1, unfolded l2]
    unfolding n hex2BinLoop.simps by (simp only: Let_def rest bnd.simps refl if_True) simp
qed

definition node_wf :: "RmcTlvNode \<Rightarrow> bool" where
  "node_wf nd \<longleftrightarrow> 0 \<le> m_tag nd \<and> m_tag nd < 256 \<and> m_error nd = 0 \<and> m_value nd \<noteq> []
     \<and> m_length nd = int (length (m_value nd)) \<and> m_length nd < 256"

text \<open>A node printed by \<open>toHexHeader\<close> and \<open>toHexBody\<close> is read back.\<close>

lemma nodeFromHex_hex:
  assumes wf: "node_wf nd" and src: "src = xs @ (toHexHeader nd @ toHexBody nd) @ ys"
  shows "nodeFromHex src (length xs) (m_length nd * 2 + 4) = Inr nd"
proof -
  define t l where "t = (word_of_int (m_tag nd) :: byte)" and "l = (word_of_int (m_length nd) :: byte)"
  have u: "uint t = m_tag nd" "uint l = m_length nd"
    using wf by (simp_all add: t_def l_def node_wf_def uint_byte_of_nat unsigned_of_int take_bit_int_eq_self)
  have "src = xs @ hex2 t @ hex2 l @ concat (map hex2 (m_value nd)) @ ys"
    using src wf by (simp add: toHexHeader_def toHexBody_def fmt_02x_octet node_wf_def t_def l_def)
  note L = hex2BinLoop_node [OF this]
  have n: "nat ((m_length nd * 2 + 4) div 2) = length (m_value nd) + 2"
    using wf by (simp add: node_wf_def nat_add_distrib)
  have "m_length nd \<ge> 1" using wf by (cases "m_value nd") (auto simp: node_wf_def)
  then have "hex2Bin src (length xs) (m_length nd * 2 + 4) (newRmcTlvNode (- 1) (- 1)) = Inr nd"
    unfolding hex2Bin_def n L using wf u by (simp add: newRmcTlvNode_def node_wf_def)
  then show ?thesis by (simp add: nodeFromHex_def)
qed

lemma nodeFromHex_len: "nodeFromHex src p len = Inr nd \<Longrightarrow> 6 \<le> len"
  by (auto simp: nodeFromHex_def hex2Bin_def res_simps)

lemma char2Int_not_OutOfBounds [simp]: "char2Int c \<noteq> Inl OutOfBounds"
  by (simp add: char2Int_def Let_def)

lemma hex2BinLoop_terminated:
  assumes "\<exists>j \<ge> p. j < length src \<and> src ! j = NUL"
  shows "hex2BinLoop src p n i nd \<noteq> Inl OutOfBounds"
  using assms
proof (induction n arbitrary: p i nd)
  case (Suc n)
  then obtain j where j: "p \<le> j" "j < length src" "src ! j = NUL" by blast
  then have p: "peek src p = Inr (src ! p)" by (simp add: peek_def)
  consider "j = p" | "j = p + 1" | "p + 2 \<le> j" using j(1) by linarith
  then show ?case
  proof cases
    case 1
    with j p show ?thesis by simp
  next
    case 2
    with j have "peek src (p + 1) = Inr NUL" by (simp add: peek_def)
    with p show ?thesis by (cases "char2Int (src ! p)") auto
  next
    case 3
    then have IH: "hex2BinLoop src (p + 2) n i' nd' \<noteq> Inl OutOfBounds" for i' nd' using Suc.IH j by blast
    have q: "peek src (p + 1) = Inr (src ! (p + 1))" using 3 j by (simp add: peek_def)
    show ?thesis
      unfolding hex2BinLoop.simps p q bnd.simps Let_def
      using char2Int_not_OutOfBounds [of "src ! p"] char2Int_not_OutOfBounds [of "src ! (p + 1)"] IH
      by (cases "char2Int (src ! p)"; cases "char2Int (src ! (p + 1))") (simp_all only: bnd.simps, auto)
  qed
qed simp

lemma nodeFromHex_terminated:
  assumes "\<exists>j \<ge> p. j < length src \<and> src ! j = NUL"
  shows "nodeFromHex src p len \<noteq> Inl OutOfBounds"
  using hex2BinLoop_terminated [OF assms] by (auto simp: nodeFromHex_def hex2Bin_def res_simps chk_def)

section \<open>Addresses\<close>

definition addr_fields :: "RIL_CDMA_SMS_Address \<Rightarrow> (int \<times> int) list" where
  "addr_fields a = [(1, digit_mode a), (1, number_mode a)]
     @ (if digit_mode a = 1 then (3, number_type a) # (if number_mode a = 0 then [(4, number_plan a)] else []) else [])"

definition addr_sz :: "RIL_CDMA_SMS_Address \<Rightarrow> int" where
  "addr_sz a = (if digit_mode a = 1 then 8 else 4)"

definition addr_number :: "RIL_CDMA_SMS_Address \<Rightarrow> byte list" where
  "addr_number a = (let ds = take (nat (number_of_digits a)) (digits a) in
     if digit_mode a = 0 then map (\<lambda>d. word_of_int (dtmf2Char (uint d))) ds else ds)"

definition addr_all_fields :: "RIL_CDMA_SMS_Address \<Rightarrow> (int \<times> int) list" where
  "addr_all_fields a = addr_fields a @ [(8, number_of_digits a)]
     @ map (\<lambda>d. (addr_sz a, uint d)) (take (nat (number_of_digits a)) (digits a))"

text \<open>The structure as C lays it out.\<close>

definition addr_shape :: "RIL_CDMA_SMS_Address \<Rightarrow> bool" where
  "addr_shape a \<longleftrightarrow> length (digits a) = 36 \<and> 0 \<le> number_of_digits a \<and> number_of_digits a < 256"

definition digits_bits :: "int \<Rightarrow> byte list \<Rightarrow> bool list" where
  "digits_bits sz ds = fields_bits (map (\<lambda>d. (sz, uint d)) ds)"

lemma length_digits_bits: "0 < sz \<Longrightarrow> length (digits_bits sz ds) = nat sz * length ds"
  by (induction ds) (simp_all add: digits_bits_def)

lemma addrHeader_fields:
  "addrHeader a body = bnd (put_fields bwWrite body (addr_fields a)) (\<lambda>b. Inr (b, addr_sz a))"
  by (simp add: addrHeader_def addr_fields_def addr_sz_def bnd_assoc cong: bnd_cong)

lemma addrDigitsLoop_ok:
  assumes "bw_ok body" "0 < sz" "sz \<le> 8" "int (nat sz * n) \<le> bw_room body"
    and "i + n \<le> length (digits a)" "length number = length (digits a)"
  shows "\<exists>body'. addrDigitsLoop a sz n (int i) body number = Inr (body',
      if digit_mode a = 0 then take i number @ map (\<lambda>d. word_of_int (dtmf2Char (uint d))) (take n (drop i (digits a))) @ drop (i + n) number
      else number)
    \<and> bw_ok body' \<and> bw_out body' = bw_out body @ digits_bits sz (take n (drop i (digits a)))
    \<and> bw_room body' = bw_room body - int (nat sz * n)"
  using assms
proof (induction n arbitrary: i body number)
  case (Suc n)
  define d where "d = digits a ! i"
  have di: "i < length (digits a)" using Suc.prems by simp
  then have tk: "take (Suc n) (drop i (digits a)) = d # take n (drop (Suc i) (digits a))"
    by (simp add: d_def Cons_nth_drop_Suc [symmetric])
  have room: "sz \<le> bw_room body" using Suc.prems(2,4) by (simp add: of_nat_mult algebra_simps) (smt (verit) mult_nonneg_nonneg of_nat_0_le_iff)
  from bwWrite_ok [OF Suc.prems(1-3) room, of "uint d"] obtain b1 where
    b1: "bwWrite body sz (uint d) = Inr b1" "bw_ok b1" "bw_out b1 = bw_out body @ msb_bits (nat sz) (uint d)"
      "bw_room b1 = bw_room body - sz" by blast
  define number' where "number' = (if digit_mode a = 0 then number[i := word_of_int (dtmf2Char (uint d))] else number)"
  have w: "(if digit_mode a = 0 then wr number (int i) (word_of_int (dtmf2Char (uint d))) else Inr number) = Inr number'"
    using di Suc.prems(6) by (simp add: number'_def wr_nat)
  have len: "length number' = length (digits a)" using Suc.prems(6) by (simp add: number'_def)
  have "int (nat sz * n) \<le> bw_room b1" using Suc.prems(2,4) b1(4) by (simp add: algebra_simps)
  with Suc.IH [OF b1(2) Suc.prems(2,3) _ _ len, of "Suc i"] Suc.prems(5) obtain b2 where
    b2: "addrDigitsLoop a sz n (int (Suc i)) b1 number' = Inr (b2,
      if digit_mode a = 0 then take (Suc i) number' @ map (\<lambda>d. word_of_int (dtmf2Char (uint d))) (take n (drop (Suc i) (digits a))) @ drop (Suc i + n) number'
      else number')" "bw_ok b2" "bw_out b2 = bw_out b1 @ digits_bits sz (take n (drop (Suc i) (digits a)))"
    "bw_room b2 = bw_room b1 - int (nat sz * n)" by auto
  have "take (Suc i) number' = take i number @ [word_of_int (dtmf2Char (uint d))]" if "digit_mode a = 0"
    using that di Suc.prems(6) by (simp add: number'_def take_Suc_conv_app_nth)
  moreover have "drop (Suc i + n) number' = drop (i + Suc n) number" if "digit_mode a = 0"
    using that by (simp add: number'_def)
  moreover have "rdi (digits a) (int i) = Inr (uint d)" using di by (simp add: d_def)
  ultimately show ?case using b1 b2 w Suc.prems(2) unfolding tk
    by (auto simp: number'_def digits_bits_def algebra_simps)
qed (simp add: digits_bits_def)

definition addr_bits :: "RIL_CDMA_SMS_Address \<Rightarrow> bool list" where
  "addr_bits a = fields_bits (addr_fields a) @ msb_bits 8 (number_of_digits a)
     @ digits_bits (addr_sz a) (take (nat (number_of_digits a)) (digits a))"

lemma addr_fields_ok: "widths_ok (addr_fields a)" "length (fields_bits (addr_fields a)) \<le> 9"
  by (simp_all add: addr_fields_def)

lemma addr_sz_ok: "0 < addr_sz a" "addr_sz a \<le> 8"
  by (simp_all add: addr_sz_def)

text \<open>The padding is never empty, so its write never fails the assertion.\<close>

lemma addr_bits_length:
  assumes "addr_shape a" "number_of_digits a \<le> 36"
  shows "length (addr_bits a) \<le> 305" "length (addr_bits a) mod 8 \<noteq> 0"
proof -
  define n where "n = nat (number_of_digits a)"
  have n: "n \<le> 36" "length (take n (digits a)) = n" using assms by (auto simp: n_def addr_shape_def)
  have L: "length (addr_bits a) = (if digit_mode a = 1 then (if number_mode a = 0 then 17 else 13) + 8 * n else 10 + 4 * n)"
    using n(2) by (simp add: addr_bits_def addr_fields_def addr_sz_def length_digits_bits flip: n_def)
  show "length (addr_bits a) \<le> 305" using n(1) unfolding L by simp
  have "(10 + 4 * n) mod 8 \<noteq> 0" by presburger
  moreover have "(17 + 8 * n) mod 8 \<noteq> 0" "(13 + 8 * n) mod 8 \<noteq> 0" by presburger+
  ultimately show "length (addr_bits a) mod 8 \<noteq> 0" unfolding L by auto
qed

lemma newCdmaSmsAddress_ok:
  assumes sh: "addr_shape a" and n36: "number_of_digits a \<le> 36"
  shows "\<exists>val. newCdmaSmsAddress a isMo = Inr (\<lparr> m_tag = (if isMo then DEST_ADDRESS else ORIG_ADDRESS),
      m_length = int (length val), m_error = 0, m_value = val \<rparr>, addr_number a)
    \<and> length val = (length (addr_bits a) + 7) div 8
    \<and> bits_of val = addr_bits a @ replicate (8 * length val - length (addr_bits a)) False"
proof -
  define n sz L B where "n = nat (number_of_digits a)" and "sz = addr_sz a"
    and "L = length (addr_bits a)" and "B = (L + 7) div 8"
  have n: "number_of_digits a = int n" "n \<le> 36" "length (digits a) = 36"
    using sh n36 by (auto simp: n_def addr_shape_def)
  have sz: "0 < sz" "sz \<le> 8" by (simp_all add: sz_def addr_sz_ok)
  have L: "L \<le> 305" "L mod 8 \<noteq> 0" using addr_bits_length [OF sh n36] by (simp_all add: L_def)
  have Bl: "L < 8 * B" "8 * B \<le> L + 7" using L(2) unfolding B_def by presburger+
  have tk: "length (take n (digits a)) = n" using n by simp
  have Lsum: "L = length (fields_bits (addr_fields a)) + 8 + nat sz * n"
    using tk sz by (simp add: L_def addr_bits_def length_digits_bits sz_def n(1))
  define s0 where "s0 = newBitwiseOutputStream (40 * 8)"
  have s0: "bw_ok s0" "bw_out s0 = []" "bw_room s0 = 2559" by (simp_all add: s0_def)
  from bs.put_fields_ok [OF s0(1) addr_fields_ok(1) [of a]] addr_fields_ok(2) [of a] s0
  obtain s1 where s1: "put_fields bwWrite s0 (addr_fields a) = Inr s1" "bw_ok s1"
    "bw_out s1 = fields_bits (addr_fields a)" "bw_room s1 = 2559 - int (length (fields_bits (addr_fields a)))"
    by auto
  have r1: "8 \<le> bw_room s1" using s1(4) addr_fields_ok(2) [of a] by simp
  from bwWrite_ok [OF s1(2) _ _ r1, of "int n"] obtain s2 where s2: "bwWrite s1 8 (int n) = Inr s2" "bw_ok s2"
    "bw_out s2 = bw_out s1 @ msb_bits 8 (int n)" "bw_room s2 = bw_room s1 - 8" by auto
  have r2: "int (nat sz * n) \<le> bw_room s2" using L(1) Lsum s1(4) s2(4) by linarith
  from addrDigitsLoop_ok [OF s2(2) sz r2, of 0 a "digits a"] n obtain s3 where
    s3: "addrDigitsLoop a sz n 0 s2 (digits a) = Inr (s3,
      if digit_mode a = 0 then map (\<lambda>d. word_of_int (dtmf2Char (uint d))) (take n (digits a)) @ drop n (digits a) else digits a)"
    "bw_ok s3" "bw_out s3 = bw_out s2 @ digits_bits sz (take n (digits a))" "bw_room s3 = bw_room s2 - int (nat sz * n)"
    by auto
  have o3: "bw_out s3 = addr_bits a" by (simp add: s3(3) s2(3) s1(3) addr_bits_def sz_def n(1))
  have p3: "os_pos s3 = int L" using bw_pos_out [OF s3(2)] by (simp add: o3 L_def)
  have len: "bwGetByteLen s3 = int B" unfolding bwGetByteLen_eq p3 B_def by (simp add: zdiv_int)
  define pad where "pad = 8 * B - L"
  have pad: "push_bit 3 (int B) - os_pos s3 = int pad" "0 < pad" "pad \<le> 7"
    using Bl by (simp_all add: pad_def p3 push_bit_eq_mult)
  have r3: "int pad \<le> bw_room s3" using pad(3) L(1) Lsum s1(4) s2(4) s3(4) by linarith
  from bwWrite_ok [OF s3(2) _ _ r3, of 0] pad obtain s4 where s4: "bwWrite s3 (int pad) 0 = Inr s4" "bw_ok s4"
    "bw_out s4 = addr_bits a @ replicate pad False" by (auto simp: o3 msb_bits_zero)
  have "length (bw_out s4) = 8 * B" using Bl by (simp add: s4(3) pad_def L_def [symmetric])
  from finished_buffer [OF s4(2) this] obtain val where val: "rd_block (os_buf s4) 0 (int B) = Inr val"
    "length val = B" "bits_of val = bw_out s4" by blast
  have num: "rd_block (if digit_mode a = 0 then map (\<lambda>d. word_of_int (dtmf2Char (uint d))) (take n (digits a)) @ drop n (digits a)
      else digits a) 0 (int n) = Inr (addr_number a)"
    using n by (auto simp: rd_block_def addr_number_def Let_def)
  have whole: "rd_block (digits a) 0 RIL_CDMA_SMS_ADDRESS_MAX = Inr (digits a)"
    using n(3) by (simp add: rd_block_def RIL_CDMA_SMS_ADDRESS_MAX_def)
  have "newCdmaSmsAddress a isMo = Inr ((newRmcTlvNode (if isMo then DEST_ADDRESS else ORIG_ADDRESS) (int B))\<lparr>m_value := val\<rparr>, addr_number a)"
    unfolding newCdmaSmsAddress_def s0_def [symmetric] addrHeader_fields s1(1) bnd.simps prod.case n(1) s2(1) whole
      sz_def [symmetric] nat_int s3(1) Let_def num len pad(1) s4(1) val(1) ..
  then show ?thesis using val s4(3) by (auto simp: newRmcTlvNode_def B_def L_def pad_def)
qed

lemma readDigits_ok:
  assumes "br_ok body" "0 < sz" "sz \<le> 8" "br_rest body = digits_bits sz ds @ bs"
    and "\<forall>d \<in> set ds. uint d < 2 ^ nat sz" "i + length ds \<le> length buf"
  shows "readDigits body sz (length ds) (int i) buf = Inr (take i buf @ ds @ drop (i + length ds) buf)"
  using assms
proof (induction ds arbitrary: i body buf)
  case (Cons d ds)
  have "br_rest body = msb_bits (nat sz) (uint d) @ digits_bits sz ds @ bs"
    using Cons.prems(4) by (simp add: digits_bits_def)
  from brRead_ok [OF Cons.prems(1-3) this] obtain b1 where b1: "brRead body sz = Inr (take_bit (nat sz) (uint d), b1)"
    "br_ok b1" "br_rest b1 = digits_bits sz ds @ bs" by blast
  have d: "word_of_int (take_bit (nat sz) (uint d)) = d"
    using Cons.prems(5) by (simp add: take_bit_int_eq_self)
  have i: "i < length buf" using Cons.prems(6) by simp
  have IH: "readDigits b1 sz (length ds) (int (Suc i)) (buf[i := d])
      = Inr (take (Suc i) (buf[i := d]) @ ds @ drop (Suc i + length ds) (buf[i := d]))"
    using Cons.prems(2,3,5,6) by (intro Cons.IH [OF b1(2) _ _ b1(3)]) auto
  show ?case using i IH wr_nat [OF i, of d] by (simp add: b1(1) d take_Suc_conv_app_nth add.commute)
qed simp

text \<open>One digit too many for the array ends in a write behind it.\<close>

lemma readDigits_overflow:
  assumes "br_ok body" "0 < sz" "sz \<le> 8" "br_rest body = digits_bits sz ds @ bs"
    and "length buf < i + length ds" "i \<le> length buf"
  shows "readDigits body sz (length ds) (int i) buf = Inl OutOfBounds"
  using assms
proof (induction ds arbitrary: i body buf)
  case (Cons d ds)
  have "br_rest body = msb_bits (nat sz) (uint d) @ digits_bits sz ds @ bs"
    using Cons.prems(4) by (simp add: digits_bits_def)
  from brRead_ok [OF Cons.prems(1-3) this] obtain b1 where b1: "brRead body sz = Inr (take_bit (nat sz) (uint d), b1)"
    "br_ok b1" "br_rest b1 = digits_bits sz ds @ bs" by blast
  show ?case
  proof (cases "i < length buf")
    case True
    have "readDigits b1 sz (length ds) (int (Suc i)) (buf[i := x]) = Inl OutOfBounds" for x
      using Cons.prems(2,3,5) True by (intro Cons.IH [OF b1(2) _ _ b1(3)]) auto
    then show ?thesis using wr_nat [OF True] by (simp add: b1(1) add.commute)
  next
    case False
    then show ?thesis by (simp add: b1(1) wr_def)
  qed
qed simp

section \<open>Reading an address back\<close>

definition addr_wf :: "RIL_CDMA_SMS_Address \<Rightarrow> bool" where
  "addr_wf a \<longleftrightarrow> (digit_mode a = 0 \<or> digit_mode a = 1) \<and> (number_mode a = 0 \<or> number_mode a = 1)
     \<and> 0 \<le> number_type a \<and> number_type a < 8 \<and> 0 \<le> number_plan a \<and> number_plan a < 16
     \<and> 0 \<le> number_of_digits a \<and> number_of_digits a < 256 \<and> number_of_digits a \<le> int (length (digits a))
     \<and> list_all (\<lambda>d. uint d < 2 ^ nat (addr_sz a)) (take (nat (number_of_digits a)) (digits a))"

text \<open>What reading an address leaves in a structure: the fields that were not sent keep
  their old values.\<close>

definition addr_head_read :: "RIL_CDMA_SMS_Address \<Rightarrow> RIL_CDMA_SMS_Address \<Rightarrow> RIL_CDMA_SMS_Address" where
  "addr_head_read a a0 = a0\<lparr>digit_mode := digit_mode a, number_mode := number_mode a,
     number_type := (if digit_mode a = 1 then number_type a else number_type a0),
     number_plan := (if digit_mode a = 1 \<and> number_mode a = 0 then number_plan a else number_plan a0)\<rparr>"

definition addr_read :: "RIL_CDMA_SMS_Address \<Rightarrow> RIL_CDMA_SMS_Address \<Rightarrow> RIL_CDMA_SMS_Address" where
  "addr_read a a0 = (let n = nat (number_of_digits a) in
     (addr_head_read a a0)\<lparr>number_of_digits := number_of_digits a,
       digits := take n (digits a) @ drop n (digits a0)\<rparr>)"

lemma getAddressHeader_ok:
  assumes wf: "addr_wf a" and ok: "br_ok body" and r: "br_rest body = fields_bits (addr_fields a) @ bs"
  shows "\<exists>body'. getAddressHeader body a0 = Inr (body', addr_head_read a a0, addr_sz a)
    \<and> br_ok body' \<and> br_rest body' = bs"
proof -
  from wf have m: "take_bit 1 (digit_mode a) = digit_mode a" "take_bit 1 (number_mode a) = number_mode a"
    "take_bit 3 (number_type a) = number_type a" "take_bit 4 (number_plan a) = number_plan a"
    by (auto simp: addr_wf_def take_bit_int_eq_self)
  from r have "br_rest body = msb_bits (nat 1) (digit_mode a) @ msb_bits 1 (number_mode a)
      @ fields_bits (drop 2 (addr_fields a)) @ bs" by (simp add: addr_fields_def)
  from brRead_ok [OF ok _ _ this] m obtain b1 where b1: "brRead body 1 = Inr (digit_mode a, b1)" "br_ok b1"
    "br_rest b1 = msb_bits (nat 1) (number_mode a) @ fields_bits (drop 2 (addr_fields a)) @ bs" by auto
  from brRead_ok [OF b1(2) _ _ b1(3)] m obtain b2 where b2: "brRead b1 1 = Inr (number_mode a, b2)" "br_ok b2"
    "br_rest b2 = fields_bits (drop 2 (addr_fields a)) @ bs" by auto
  show ?thesis
  proof (cases "digit_mode a = 1")
    case False
    then have "fields_bits (drop 2 (addr_fields a)) = []" by (simp add: addr_fields_def)
    with False b1 b2 show ?thesis
      by (simp add: getAddressHeader_def addr_head_read_def addr_sz_def Let_def)
  next
    case True
    define bs' where "bs' = (if number_mode a = 0 then msb_bits (nat 4) (number_plan a) @ bs else bs)"
    have "br_rest b2 = msb_bits (nat 3) (number_type a) @ bs'"
      using b2(3) True by (simp add: addr_fields_def bs'_def)
    from brRead_ok [OF b2(2) _ _ this] m obtain b3 where b3: "brRead b2 3 = Inr (number_type a, b3)" "br_ok b3"
      "br_rest b3 = bs'" by auto
    show ?thesis
    proof (cases "number_mode a = 1")
      case nm: True
      with True b1 b2 b3 show ?thesis
        by (simp add: getAddressHeader_def addr_head_read_def addr_sz_def Let_def bs'_def)
    next
      case nm: False
      then have nm: "number_mode a = 0" using wf by (simp add: addr_wf_def)
      then have "br_rest b3 = msb_bits (nat 4) (number_plan a) @ bs" using b3(3) by (simp add: bs'_def)
      from brRead_ok [OF b3(2) _ _ this] m obtain b4 where "brRead b3 4 = Inr (number_plan a, b4)" "br_ok b4"
        "br_rest b4 = bs" by auto
      with True nm b1 b2 b3 show ?thesis
        by (simp add: getAddressHeader_def addr_head_read_def addr_sz_def Let_def)
    qed
  qed
qed

lemma cdmaGetAddress_reads:
  assumes wf: "addr_wf a" and nd: "m_error nd = 0" "bits_of (m_value nd) = addr_bits a @ bs"
    and a0: "length (digits a0) = 36"
  shows "cdmaGetAddress nd a0 =
    (if number_of_digits a \<le> 36 then Inr (True, addr_read a a0) else Inl OutOfBounds)"
proof -
  define n where "n = nat (number_of_digits a)"
  have n: "number_of_digits a = int n" "n < 256" "length (take n (digits a)) = n"
    using wf by (auto simp: n_def addr_wf_def)
  define s where "s = newBitwiseInputStream (m_value nd) (int (length (m_value nd)))"
  have s: "br_ok s" "br_rest s = fields_bits (addr_fields a) @ msb_bits 8 (int n)
      @ digits_bits (addr_sz a) (take n (digits a)) @ bs"
    by (simp_all add: s_def nd addr_bits_def n(1))
  from getAddressHeader_ok [OF wf s, of a0] obtain s1 where s1:
    "getAddressHeader s a0 = Inr (s1, addr_head_read a a0, addr_sz a)" "br_ok s1"
    "br_rest s1 = msb_bits (nat 8) (int n) @ digits_bits (addr_sz a) (take n (digits a)) @ bs" by auto
  from brRead_ok [OF s1(2) _ _ s1(3)] n(2) obtain s2 where s2: "brRead s1 8 = Inr (int n, s2)" "br_ok s2"
    "br_rest s2 = digits_bits (addr_sz a) (take n (digits a)) @ bs" by (auto simp: take_bit_int_eq_self)
  have d0: "digits (addr_head_read a a0) = digits a0" by (simp add: addr_head_read_def)
  have small: "\<forall>d \<in> set (take n (digits a)). uint d < 2 ^ nat (addr_sz a)"
    using wf by (simp add: addr_wf_def n_def list_all_iff)
  have "readDigits s2 (addr_sz a) n 0 (digits a0) =
      (if n \<le> 36 then Inr (take n (digits a) @ drop n (digits a0)) else Inl OutOfBounds)"
    using readDigits_ok [OF s2(2) addr_sz_ok s2(3) small, of 0 "digits a0"]
      readDigits_overflow [OF s2(2) addr_sz_ok s2(3), of "digits a0" 0] n(3) a0 by simp
  then show ?thesis using nd(1) s1(1) s2(1)
    by (simp add: cdmaGetAddress_def Let_def d0 n(1) addr_read_def flip: s_def)
qed

lemma newCdmaSmsAddress_wf:
  assumes "addr_shape a" "number_of_digits a \<le> 36"
  shows "\<exists>nd bs. newCdmaSmsAddress a isMo = Inr (nd, addr_number a) \<and> node_wf nd
    \<and> m_tag nd = (if isMo then DEST_ADDRESS else ORIG_ADDRESS) \<and> bits_of (m_value nd) = addr_bits a @ bs"
proof -
  note len = addr_bits_length [OF assms]
  from newCdmaSmsAddress_ok [OF assms, of isMo] obtain val where
    val: "newCdmaSmsAddress a isMo = Inr (\<lparr> m_tag = (if isMo then DEST_ADDRESS else ORIG_ADDRESS),
      m_length = int (length val), m_error = 0, m_value = val \<rparr>, addr_number a)"
    "length val = (length (addr_bits a) + 7) div 8"
    "bits_of val = addr_bits a @ replicate (8 * length val - length (addr_bits a)) False" by blast
  have "length (addr_bits a) \<noteq> 0" using len(2) by (cases "length (addr_bits a)") simp_all
  then have "0 < length val" "length val < 256" using val(2) len(1) by linarith+
  then show ?thesis using val(1,3)
    by (intro exI [of _ "\<lparr> m_tag = (if isMo then DEST_ADDRESS else ORIG_ADDRESS),
      m_length = int (length val), m_error = 0, m_value = val \<rparr>"] exI)
      (auto simp: node_wf_def DEST_ADDRESS_def ORIG_ADDRESS_def)
qed

text \<open>An address of up to 36 digits survives the way through the modem's hexadecimal:
  the constructor from the structure succeeds for every mode (its padding is never empty and
  always fits), the printed node is read back unchanged from anywhere in a PDU, and
  \<open>getAddress\<close> restores the modes, the number type and plan that were sent and the digits;
  the dialled string is the digits, or their DTMF characters.\<close>
theorem cdma_address_roundtrip:
  assumes "addr_wf a" "length (digits a) = 36" "number_of_digits a \<le> 36" "length (digits a0) = 36"
  shows "\<exists>nd. newCdmaSmsAddress a isMo = Inr (nd, addr_number a)
    \<and> addressFromHex (xs @ (toHexHeader nd @ toHexBody nd) @ ys) (length xs) (m_length nd * 2 + 4) = Inr nd
    \<and> cdmaGetAddress nd a0 = Inr (True, addr_read a a0)"
proof -
  from assms(1,2) have "addr_shape a" by (simp add: addr_wf_def addr_shape_def)
  from newCdmaSmsAddress_wf [OF this assms(3), of isMo] obtain nd bs where
    nd: "newCdmaSmsAddress a isMo = Inr (nd, addr_number a)" "node_wf nd"
      "m_tag nd = (if isMo then DEST_ADDRESS else ORIG_ADDRESS)" "bits_of (m_value nd) = addr_bits a @ bs" by blast
  then have e: "m_error nd = 0" by (simp add: node_wf_def)
  show ?thesis
    using nd(1,3) e nodeFromHex_hex [OF nd(2) refl, of xs ys] cdmaGetAddress_reads [OF assms(1) e nd(4) assms(4)] assms(3)
    by (intro exI [of _ nd]) (simp add: addressFromHex_def checkTag_def)
qed

theorem cdma_address_roundtrip_witness:
  "\<exists>nd. newCdmaSmsAddress \<lparr> digit_mode = 0, number_mode = 0, number_type = 0, number_plan = 0,
      number_of_digits = 2, digits = [10, 1] @ replicate 34 0 \<rparr> True = Inr (nd, [0x30, 0x31])"
proof -
  let ?a = "\<lparr> digit_mode = 0, number_mode = 0, number_type = 0, number_plan = 0,
      number_of_digits = 2, digits = [10, 1] @ replicate 34 0 \<rparr>"
  have "\<exists>nd. newCdmaSmsAddress ?a True = Inr (nd, addr_number ?a)"
    using cdma_address_roundtrip [of ?a ?a True] by (auto simp: addr_wf_def addr_sz_def)
  then show ?thesis by (simp add: addr_number_def dtmf2Char_def)
qed

text \<open>An address of the network with more than 36 digits (the count is an octet, so up to
  255) is written past the array \<open>digits\<close> of the structure: unlike the subaddress, the address
  is not checked against \<open>RIL_CDMA_SMS_ADDRESS_MAX\<close>.\<close>
theorem mt_address_overflow:
  assumes "addr_wf a" "m_error nd = 0" "bits_of (m_value nd) = addr_bits a @ bs"
    and "length (digits a0) = 36" "36 < number_of_digits a"
  shows "cdmaGetAddress nd a0 = Inl OutOfBounds"
  using cdmaGetAddress_reads [OF assms(1-4)] assms(5) by simp

theorem mt_address_overflow_witness:
  "cdmaGetAddress \<lparr> m_tag = 2, m_length = 40, m_error = 0, m_value = [0x80, 0x12, 0x80] @ replicate 37 0 \<rparr>
     \<lparr> digit_mode = 0, number_mode = 0, number_type = 0, number_plan = 0, number_of_digits = 0,
       digits = replicate 36 0 \<rparr> = Inl OutOfBounds"
proof -
  let ?a = "\<lparr> digit_mode = 1, number_mode = 0, number_type = 0, number_plan = 0, number_of_digits = 37,
    digits = replicate 37 0 \<rparr> :: RIL_CDMA_SMS_Address"
  have "bits_of ([0x80, 0x12, 0x80] @ replicate 37 0) = addr_bits ?a @ replicate 7 False" by code_simp
  then show ?thesis
    by (intro mt_address_overflow [of ?a _ "replicate 7 False"]) (simp_all add: addr_wf_def addr_sz_def list_all_iff)
qed

end
