(* ===== verification/CdmaBearer.thy ===== *)
theory CdmaBearer
  imports CdmaTlv
begin

text \<open>
  The bearer data of a CDMA message (\<open>BearerData\<close> with \<open>UserData\<close> and \<open>MessageIdentifer\<close>
  of \<open>mdcomm/sms/RmcCdmaSmsConverter.{cpp,h}\<close>): construction with the removal of a superfluous
  zero octet, the three decoders that walk its subparameters bit by bit, and the special
  treatment of a China Telecom WAP push. Decoding loops advance by at least two octets, so they
  recur on the bits that are left.
\<close>

section \<open>Data\<close>

definition ENCODING_OCTET :: int where "ENCODING_OCTET = 0x00"
definition ENCODING_IS91_EXTENDED_PROTOCOL :: int where "ENCODING_IS91_EXTENDED_PROTOCOL = 0x01"
definition ENCODING_7BIT_ASCII :: int where "ENCODING_7BIT_ASCII = 0x02"
definition ENCODING_UNICODE_16 :: int where "ENCODING_UNICODE_16 = 0x04"
definition ENCODING_GSM_7BIT_ALPHABET :: int where "ENCODING_GSM_7BIT_ALPHABET = 0x09"
definition ENCODING_GSM_DCS :: int where "ENCODING_GSM_DCS = 0x0A"

record UserData =
  msgEncoding :: int
  msgType :: int
  numFields :: int
  userDataPayload :: "byte list"

definition newUserData :: UserData where
  "newUserData = \<lparr> msgEncoding = - 1, msgType = - 1, numFields = - 1, userDataPayload = [] \<rparr>"

record MessageIdentifer =
  messageType :: int
  messageId :: int
  hasUserDataHeader :: bool

definition newMessageIdentifer :: MessageIdentifer where
  "newMessageIdentifer = \<lparr> messageType = - 1, messageId = - 1, hasUserDataHeader = False \<rparr>"

record BearerData = RmcTlvNode +
  m_needStatusReport :: bool
  m_msgIdentifier :: MessageIdentifer
  m_UserData :: UserData

definition BEARER_DATA :: int where "BEARER_DATA = 0x08"
definition MESSAGE_TYPE_DELIVERY_ACK :: int where "MESSAGE_TYPE_DELIVERY_ACK = 0x04"
definition SUBPARAM_MESSAGE_IDENTIFIER :: int where "SUBPARAM_MESSAGE_IDENTIFIER = 0x00"
definition SUBPARAM_USER_DATA :: int where "SUBPARAM_USER_DATA = 0x01"
definition SUBPARAM_REPLY_OPTION :: int where "SUBPARAM_REPLY_OPTION = 0x0A"

section \<open>Removing a superfluous zero\<close>

text \<open>The scan of \<open>removeZero\<close>: index, user data position and length. \<open>index\<close> is an
  \<open>unsigned char\<close>: it wraps at 256, so the loop may not end; the bound is the number of
  rounds.\<close>

fun removeZeroScan :: "nat \<Rightarrow> byte list \<Rightarrow> int \<Rightarrow> int \<Rightarrow> int \<Rightarrow> int \<Rightarrow> (int \<times> int) res" where
  "removeZeroScan 0 pdu len index pos ulen = Inl OutOfFuel"
| "removeZeroScan (Suc fuel) pdu len index pos ulen =
     (if index < len then
        bnd (rdi pdu index) (\<lambda>paramId. let index = c_uchar (index + 1) in
        bnd (rdi pdu index) (\<lambda>paramLen. let index = c_uchar (index + 1) in
        if paramId = 0 then
          bnd (rdi pdu (index + paramLen - 1)) (\<lambda>b.
          if b AND 0x08 = 0x08 then Inr (- 1, ulen)
          else removeZeroScan fuel pdu len (c_uchar (index + paramLen)) pos ulen)
        else if paramId = 1 then
          removeZeroScan fuel pdu len (c_uchar (index + paramLen)) index paramLen
        else removeZeroScan fuel pdu len (c_uchar (index + paramLen)) pos ulen))
      else Inr (pos, ulen))"

text \<open>The octets and their number after the removal. \<open>memmove\<close> closes the gap.\<close>

definition removeZeroAt :: "byte list \<Rightarrow> int \<Rightarrow> int \<Rightarrow> int \<Rightarrow> (byte list \<times> int) res" where
  "removeZeroAt pdu len userDataPos userDataLen =
     bnd (rdi pdu userDataPos) (\<lambda>b0.
     bnd (if b0 AND 0xF8 = 0x10 then rdi pdu (userDataPos + userDataLen - 1) else Inr 1) (\<lambda>bl.
     if b0 AND 0xF8 = 0x10 \<and> bl = 0 then
       bnd (rdi pdu (userDataPos + 1)) (\<lambda>b1.
       let nf = c_uchar (push_bit 5 (b0 AND 0x07) OR drop_bit 3 b1);
           reservedBits = c_uchar (userDataLen * 8 - (nf * 7 + 5 + 8)) in
       if reservedBits < 8 then Inr (pdu, len)
       else
         let pos = userDataPos + userDataLen - 1 in
         bnd (rdi pdu (userDataPos - 1)) (\<lambda>l.
         bnd (wr pdu (userDataPos - 1) (word_of_int (l - 1))) (\<lambda>pdu.
         bnd (if pos + 1 < len
              then bnd (rd_block pdu (pos + 1) (len - (pos + 1))) (\<lambda>tail. wr_block pdu pos tail)
              else Inr pdu) (\<lambda>pdu.
         Inr (pdu, len - 1)))))
     else Inr (pdu, len)))"

text \<open>The scan has at most 256 positions: if it has not ended after 256 rounds it never does
  (\<open>removeZeroScan_bound\<close>).\<close>

definition removeZero :: "byte list \<Rightarrow> int \<Rightarrow> (byte list \<times> int) res" where
  "removeZero pdu len =
     bnd (removeZeroScan 257 pdu len 0 (- 1) (- 1)) (\<lambda>(userDataPos, userDataLen).
     if userDataPos \<noteq> - 1 then removeZeroAt pdu len userDataPos userDataLen else Inr (pdu, len))"

text \<open>\<open>BearerData(data, len, isMo)\<close>; the caller's array is changed by \<open>removeZero\<close>.\<close>

definition newBearerData :: "byte list \<Rightarrow> int \<Rightarrow> bool \<Rightarrow> (BearerData \<times> byte list) res" where
  "newBearerData data len isMo =
     bnd (if isMo then removeZero data (c_ushort len) else Inr (data, len)) (\<lambda>(data, len).
     bnd (rd_block data 0 len) (\<lambda>val.
     Inr (\<lparr> m_tag = BEARER_DATA, m_length = len, m_error = 0, m_value = val, m_needStatusReport = False,
            m_msgIdentifier = newMessageIdentifer, m_UserData = newUserData \<rparr>, data)))"

definition bearerDataFromHex :: "buffer \<Rightarrow> nat \<Rightarrow> int \<Rightarrow> BearerData res" where
  "bearerDataFromHex hexPdu p len =
     bnd (nodeFromHex hexPdu p len) (\<lambda>nd.
     let nd = checkTag (\<lambda>t. t = BEARER_DATA) nd in
     Inr (\<lparr> m_tag = m_tag nd, m_length = m_length nd, m_error = m_error nd, m_value = m_value nd,
            m_needStatusReport = False, m_msgIdentifier = newMessageIdentifer, m_UserData = newUserData \<rparr>))"

section \<open>Decoding\<close>

text \<open>The branches of \<open>decode\<close> after the identifier of the subparameter.\<close>

definition readMessageId :: "BitwiseInputStream \<Rightarrow> (MessageIdentifer \<times> BitwiseInputStream) res" where
  "readMessageId s =
     bnd (brRead s 4) (\<lambda>(ty, s). bnd (brRead s 8) (\<lambda>(hi, s). bnd (brRead s 8) (\<lambda>(lo, s).
     bnd (brRead s 1) (\<lambda>(h, s).
     Inr (\<lparr> messageType = ty, messageId = push_bit 8 hi OR lo, hasUserDataHeader = (h = 1) \<rparr>, s)))))"

definition decodeMsgIdParam ::
  "BearerData \<Rightarrow> BitwiseInputStream \<Rightarrow> (BearerData \<times> BitwiseInputStream) res" where
  "decodeMsgIdParam bd s =
     bnd (brRead s 8) (\<lambda>(n, s).
     let paramBits = n * 8 in
     if paramBits \<ge> 3 * 8
     then bnd (readMessageId s) (\<lambda>(mi, s).
          Inr (bd\<lparr>m_msgIdentifier := mi\<rparr>, brSkip (brSkip s 3) (paramBits - 3 * 8)))
     else Inr (bd, brSkip s paramBits))"

definition decodeUserDataParam ::
  "BearerData \<Rightarrow> BitwiseInputStream \<Rightarrow> (BearerData \<times> BitwiseInputStream) res" where
  "decodeUserDataParam bd s =
     bnd (brRead s 8) (\<lambda>(n, s).
     let paramBits = n * 8 in
     bnd (brRead s 5) (\<lambda>(enc, s).
     let ud = (m_UserData bd)\<lparr>msgEncoding := enc\<rparr> in
     bnd (if enc = ENCODING_IS91_EXTENDED_PROTOCOL \<or> enc = ENCODING_GSM_DCS
          then bnd (brRead s 8) (\<lambda>(ty, s). Inr (ud\<lparr>msgType := ty\<rparr>, 5 + 8, s))
          else Inr (ud, 5, s)) (\<lambda>(ud, consumedBits, s).
     bnd (brRead s 8) (\<lambda>(nf, s).
     let dataBits = paramBits - (consumedBits + 8) in
     bnd (brReadByteArray s dataBits (userDataPayload ud)) (\<lambda>(payload, s).
     Inr (bd\<lparr>m_UserData := ud\<lparr>numFields := nf, userDataPayload := payload\<rparr>\<rparr>, s))))))"

definition skipParam :: "BitwiseInputStream \<Rightarrow> BitwiseInputStream res" where
  "skipParam s =
     bnd (brRead s 8) (\<lambda>(subparamLen, s).
     let paramBits = subparamLen * 8 in
     Inr (if paramBits \<le> brAvailable s then brSkip s paramBits else s))"

definition decodeParam :: "BearerData \<Rightarrow> BitwiseInputStream \<Rightarrow> (BearerData \<times> BitwiseInputStream) res" where
  "decodeParam bd s =
     bnd (brRead s 8) (\<lambda>(subparamId, s).
     if subparamId = SUBPARAM_MESSAGE_IDENTIFIER then decodeMsgIdParam bd s
     else if subparamId = SUBPARAM_USER_DATA then decodeUserDataParam bd s
     else bnd (skipParam s) (\<lambda>s. Inr (bd, s)))"

lemma brRead_Inr:
  assumes "brRead s k = Inr (d, s')"
  shows "is_pos s' = is_pos s + k" "is_end s' = is_end s" "is_buf s' = is_buf s" "0 < k" "0 \<le> d" "d < 256"
  using assms c_uchar_range by (auto simp: brRead_def Let_def res_simps)

lemma brRead_step:
  "brRead s k = Inr (d, s') \<Longrightarrow> is_pos s' = is_pos s + k \<and> is_end s' = is_end s \<and> 0 \<le> d \<and> d < 256"
  by (intro conjI) (erule brRead_Inr)+

lemma brReadBytes_Inr:
  "brReadBytes s bits n i buf = Inr (ys, s') \<Longrightarrow> is_pos s \<le> is_pos s' \<and> is_end s' = is_end s \<and> is_buf s' = is_buf s"
proof (induction n arbitrary: s i buf)
  case (Suc n)
  define inc where "inc = (if 8 \<le> bits - push_bit 3 i then 8 else bits - push_bit 3 i)"
  from Suc.prems obtain d s1 where r: "brRead s inc = Inr (d, s1)"
    and b: "brReadBytes s1 bits n (i + 1) (buf @ [word_of_int (push_bit (nat (8 - inc)) d)]) = Inr (ys, s')"
    by (auto simp: Let_def elim!: bndE simp flip: inc_def)
  from Suc.IH [OF b] brRead_Inr [OF r] show ?case by simp
qed simp

lemma brReadByteArray_Inr:
  "brReadByteArray s bits buf = Inr (ys, s') \<Longrightarrow> is_pos s \<le> is_pos s' \<and> is_end s' = is_end s \<and> is_buf s' = is_buf s"
  by (auto simp: brReadByteArray_def Let_def dest: brReadBytes_Inr)

lemma skipParam_Inr: "skipParam s = Inr s' \<Longrightarrow> is_pos s < is_pos s' \<and> is_end s' = is_end s"
  by (auto simp: skipParam_def Let_def brSkip_def elim!: bndE split: if_splits dest!: brRead_step)

lemma readMessageId_Inr:
  "readMessageId s = Inr (mi, s') \<Longrightarrow> is_pos s' = is_pos s + 21 \<and> is_end s' = is_end s"
  by (auto simp: readMessageId_def elim!: bndE dest!: brRead_step)

lemma decodeMsgIdParam_Inr:
  "decodeMsgIdParam bd s = Inr (bd', s') \<Longrightarrow> is_pos s < is_pos s' \<and> is_end s' = is_end s"
  by (auto simp: decodeMsgIdParam_def Let_def brSkip_def elim!: bndE split: if_splits
      dest!: readMessageId_Inr brRead_step)

lemma decodeUserDataParam_Inr:
  assumes "decodeUserDataParam bd s = Inr (bd', s')"
  shows "is_pos s < is_pos s' \<and> is_end s' = is_end s"
proof -
  from assms obtain n s1 enc s2 ud c s3 nf s4 p where
    1: "brRead s 8 = Inr (n, s1)" and 2: "brRead s1 5 = Inr (enc, s2)"
    and 3: "(if enc = ENCODING_IS91_EXTENDED_PROTOCOL \<or> enc = ENCODING_GSM_DCS
          then bnd (brRead s2 8) (\<lambda>(ty, s). Inr ((m_UserData bd)\<lparr>msgEncoding := enc\<rparr>\<lparr>msgType := ty\<rparr>, 5 + 8, s))
          else Inr ((m_UserData bd)\<lparr>msgEncoding := enc\<rparr>, 5, s2)) = Inr (ud, c, s3)"
    and 4: "brRead s3 8 = Inr (nf, s4)"
    and 5: "brReadByteArray s4 (n * 8 - (c + 8)) (userDataPayload ud) = Inr (p, s')"
    unfolding decodeUserDataParam_def Let_def by (elim bndE) (auto elim!: bndE)
  from 3 have "is_pos s2 \<le> is_pos s3 \<and> is_end s3 = is_end s2"
    by (auto elim!: bndE split: if_splits dest!: brRead_step)
  with brRead_Inr [OF 1] brRead_Inr [OF 2] brRead_Inr [OF 4] brReadByteArray_Inr [OF 5] show ?thesis by simp
qed

lemma decodeParam_progress:
  assumes "decodeParam bd s = Inr (bd', s')"
  shows "is_pos s < is_pos s' \<and> is_end s' = is_end s"
proof -
  from assms obtain i s1 where 1: "brRead s 8 = Inr (i, s1)"
    and 2: "(if i = SUBPARAM_MESSAGE_IDENTIFIER then decodeMsgIdParam bd s1
      else if i = SUBPARAM_USER_DATA then decodeUserDataParam bd s1
      else bnd (skipParam s1) (\<lambda>s. Inr (bd, s))) = Inr (bd', s')"
    unfolding decodeParam_def by (auto elim!: bndE)
  from 2 have "is_pos s1 < is_pos s' \<and> is_end s' = is_end s1"
    by (auto elim!: bndE split: if_splits dest: decodeMsgIdParam_Inr decodeUserDataParam_Inr skipParam_Inr)
  with brRead_Inr [OF 1] show ?thesis by simp
qed

function decodeLoop :: "BearerData \<Rightarrow> BitwiseInputStream \<Rightarrow> BearerData res" where
  "decodeLoop bd s =
     (if brAvailable s > 0
      then bnd (decodeParam bd s) (\<lambda>p. decodeLoop (fst p) (snd p))
      else Inr bd)"
  by pat_completeness auto
termination
  by (relation "measure (\<lambda>(bd, s). nat (brAvailable s))")
     (auto simp: brAvailable_def dest!: decodeParam_progress)

declare decodeLoop.simps [simp del]

definition bearerStream :: "BearerData \<Rightarrow> BitwiseInputStream" where
  "bearerStream bd = newBitwiseInputStream (m_value bd) (int (length (m_value bd)))"

definition decode :: "BearerData \<Rightarrow> BearerData res" where
  "decode bd = decodeLoop bd (bearerStream bd)"

text \<open>\<open>decodeMessageId\<close> stops at the first message identifier.\<close>

function decodeMessageIdLoop :: "BearerData \<Rightarrow> BitwiseInputStream \<Rightarrow> BearerData res" where
  "decodeMessageIdLoop bd s =
     (if brAvailable s > 0 then
        bnd (brRead s 8) (\<lambda>p.
        if fst p = SUBPARAM_MESSAGE_IDENTIFIER then
          bnd (brRead (snd p) 8) (\<lambda>(n, s').
          if n * 8 \<ge> 3 * 8 then bnd (readMessageId s') (\<lambda>(mi, _). Inr (bd\<lparr>m_msgIdentifier := mi\<rparr>))
          else Inr bd)
        else bnd (skipParam (snd p)) (decodeMessageIdLoop bd))
      else Inr bd)"
  by pat_completeness auto
termination
  by (relation "measure (\<lambda>(bd, s). nat (brAvailable s))")
     (auto simp: brAvailable_def dest!: skipParam_Inr brRead_step)

declare decodeMessageIdLoop.simps [simp del]

definition decodeMessageId :: "BearerData \<Rightarrow> BearerData res" where
  "decodeMessageId bd = decodeMessageIdLoop bd (bearerStream bd)"

function decodeReplyOptLoop :: "BearerData \<Rightarrow> BitwiseInputStream \<Rightarrow> BearerData res" where
  "decodeReplyOptLoop bd s =
     (if brAvailable s > 0 then
        bnd (brRead s 8) (\<lambda>p.
        if fst p = SUBPARAM_REPLY_OPTION then
          bnd (brRead (snd p) 8) (\<lambda>(n, s').
          if n * 8 \<ge> 8
          then bnd (brRead s' 1) (\<lambda>(userAckReq, s'). bnd (brRead s' 1) (\<lambda>(deliveryAckReq, _).
               Inr (bd\<lparr>m_needStatusReport := (deliveryAckReq = 1)\<rparr>)))
          else Inr bd)
        else bnd (skipParam (snd p)) (decodeReplyOptLoop bd))
      else Inr bd)"
  by pat_completeness auto
termination
  by (relation "measure (\<lambda>(bd, s). nat (brAvailable s))")
     (auto simp: brAvailable_def dest!: skipParam_Inr brRead_step)

declare decodeReplyOptLoop.simps [simp del]

definition decodeReplyOpt :: "BearerData \<Rightarrow> BearerData res" where
  "decodeReplyOpt bd = decodeReplyOptLoop bd (bearerStream bd)"

definition bdIsStatusReport :: "BearerData \<Rightarrow> bool" where
  "bdIsStatusReport bd \<longleftrightarrow> messageType (m_msgIdentifier bd) = MESSAGE_TYPE_DELIVERY_ACK"

section \<open>The WAP push of China Telecom\<close>

text \<open>The inner loop copies from \<open>index\<close> up to \<open>endPos\<close>, five bits shifted; \<open>index\<close> is an
  \<open>unsigned char\<close>. The bound of each loop is explicit, as \<open>index\<close> may wrap.\<close>

fun ctWapCopy :: "nat \<Rightarrow> byte list \<Rightarrow> int \<Rightarrow> int \<Rightarrow> byte list \<Rightarrow> int \<Rightarrow> (byte list \<times> int \<times> int) res" where
  "ctWapCopy 0 v index endPos tgt pos = Inl OutOfFuel"
| "ctWapCopy (Suc fuel) v index endPos tgt pos =
     (if index < endPos then
        bnd (wr tgt pos 0) (\<lambda>tgt.
        bnd (rdi v index) (\<lambda>a. bnd (rdi v (index + 1)) (\<lambda>b.
        bnd (wr tgt pos (word_of_int (push_bit 5 a OR drop_bit 3 b))) (\<lambda>tgt.
        ctWapCopy fuel v (c_uchar (index + 1)) endPos tgt (c_ushort (pos + 1))))))
      else Inr (tgt, index, pos))"

fun ctWapLoop :: "nat \<Rightarrow> byte list \<Rightarrow> int \<Rightarrow> byte list \<Rightarrow> int \<Rightarrow> (byte list \<times> int) res" where
  "ctWapLoop 0 v index tgt pos = Inl OutOfFuel"
| "ctWapLoop (Suc fuel) v index tgt pos =
     (if index < int (length v) then
        bnd (rdi v index) (\<lambda>paramId. let index = c_uchar (index + 1) in
        bnd (rdi v index) (\<lambda>paramLen. let index = c_uchar (index + 1) in
        if paramId = SUBPARAM_USER_DATA then
          bnd (wr tgt pos (word_of_int paramId)) (\<lambda>tgt. let pos = c_ushort (pos + 1) in
          bnd (wr tgt pos (word_of_int (paramLen - 8))) (\<lambda>tgt. let pos = c_ushort (pos + 1) in
          let endUserDataPos = c_ushort (index + paramLen) in
          bnd (ctWapCopy 257 v (c_uchar (index + 8)) endUserDataPos tgt pos) (\<lambda>(tgt, index, pos).
          ctWapLoop fuel v index tgt pos)))
        else
          bnd (rd_block v (index - 2) (paramLen + 2)) (\<lambda>block.
          bnd (wr_block tgt pos block) (\<lambda>tgt.
          ctWapLoop fuel v (c_uchar (index + paramLen)) tgt (c_ushort (pos + (paramLen + 2)))))))
      else Inr (tgt, pos))"

definition specialProcessForCtWapPush :: "byte list \<Rightarrow> byte list \<Rightarrow> (byte list \<times> int) res" where
  "specialProcessForCtWapPush v targetArray = ctWapLoop 257 v 0 targetArray 0"

definition getBearerData :: "BearerData \<Rightarrow> bool \<Rightarrow> byte list \<Rightarrow> int \<Rightarrow> (bool \<times> byte list \<times> int) res" where
  "getBearerData bd isCtWap bearerData len =
     (if m_error bd < 0 then Inr (False, bearerData, len)
      else if isCtWap
      then bnd (specialProcessForCtWapPush (m_value bd) bearerData) (\<lambda>(tgt, n). Inr (True, tgt, n))
      else bnd (wr_block bearerData 0 (m_value bd)) (\<lambda>tgt. Inr (True, tgt, m_length bd)))"

section \<open>Bearer data as a list of subparameters\<close>

text \<open>The reading a decoder should give to well-formed bearer data: a list of identifiers with
  their bodies, laid out one behind the other.\<close>

type_synonym subparam = "byte \<times> byte list"

definition sp_bytes :: "subparam \<Rightarrow> byte list" where
  "sp_bytes sp = fst sp # word_of_nat (length (snd sp)) # snd sp"

definition params_bytes :: "subparam list \<Rightarrow> byte list" where
  "params_bytes ps = concat (map sp_bytes ps)"

definition with_msg_type :: "int \<Rightarrow> bool" where
  "with_msg_type enc \<longleftrightarrow> enc = ENCODING_IS91_EXTENDED_PROTOCOL \<or> enc = ENCODING_GSM_DCS"

text \<open>User data must hold its encoding, message type and number of fields.\<close>

definition ud_head :: "bool list \<Rightarrow> nat" where
  "ud_head bs = (if with_msg_type (bits_val (take 5 bs)) then 21 else 13)"

definition sp_ok :: "subparam \<Rightarrow> bool" where
  "sp_ok sp \<longleftrightarrow> length (snd sp) < 256
     \<and> (fst sp = 1 \<longrightarrow> 2 \<le> length (snd sp) \<and> ud_head (bits_of (snd sp)) \<le> 8 * length (snd sp))"

definition octets_of :: "bool list \<Rightarrow> byte list" where
  "octets_of bs = map (\<lambda>i. let c = take 8 (drop (8 * i) bs) in
     word_of_int (push_bit (8 - length c) (bits_val c))) [0..<(length bs + 7) div 8]"

definition ud_of_bits :: "bool list \<Rightarrow> UserData \<Rightarrow> UserData" where
  "ud_of_bits bs ud =
     (let enc = bits_val (take 5 bs); ud1 = ud\<lparr>msgEncoding := enc\<rparr>;
          ud2 = (if with_msg_type enc then ud1\<lparr>msgType := bits_val (take 8 (drop 5 bs))\<rparr> else ud1);
          h = ud_head bs
      in ud2\<lparr>numFields := bits_val (take 8 (drop (h - 8) bs)),
             userDataPayload := userDataPayload ud2 @ octets_of (drop h bs)\<rparr>)"

definition mi_of_bits :: "bool list \<Rightarrow> MessageIdentifer" where
  "mi_of_bits bs = \<lparr> messageType = bits_val (take 4 bs), messageId = bits_val (take 16 (drop 4 bs)),
     hasUserDataHeader = bs ! 20 \<rparr>"

definition sp_apply :: "subparam \<Rightarrow> BearerData \<Rightarrow> BearerData" where
  "sp_apply sp bd =
     (if fst sp = 0 then
        (if 3 \<le> length (snd sp) then bd\<lparr>m_msgIdentifier := mi_of_bits (bits_of (snd sp))\<rparr> else bd)
      else if fst sp = 1 then bd\<lparr>m_UserData := ud_of_bits (bits_of (snd sp)) (m_UserData bd)\<rparr>
      else bd)"

lemma length_octets_of [simp]: "length (octets_of bs) = (length bs + 7) div 8"
  by (simp add: octets_of_def)

lemma octets_of_Nil [simp]: "octets_of [] = []"
  by (simp add: octets_of_def)

lemma one_octet: "0 < n \<Longrightarrow> n \<le> 8 \<Longrightarrow> (n + 7) div 8 = (1 :: nat)"
  by (rule div_nat_eqI) simp_all

lemma octets_of_step:
  assumes "bs \<noteq> []"
  shows "octets_of bs = word_of_int (push_bit (8 - length (take 8 bs)) (bits_val (take 8 bs))) # octets_of (drop 8 bs)"
proof -
  have pos: "0 < length bs" using assms by simp
  have n: "(length bs + 7) div 8 = Suc ((length (drop 8 bs) + 7) div 8)"
  proof (cases "length bs \<le> 8")
    case True
    with pos show ?thesis by (simp add: one_octet)
  next
    case False
    then have "length bs + 7 = (length bs - 8 + 7) + 8" by simp
    then show ?thesis by (simp only: length_drop div_add_self2 zero_neq_numeral [symmetric] not_False_eq_True Suc_eq_plus1)
  qed
  have "drop (8 * Suc i) bs = drop (8 * i) (drop 8 bs)" for i by (simp add: algebra_simps)
  then show ?thesis unfolding octets_of_def n upt_conv_Cons [OF zero_less_Suc] list.map
    by (simp add: Let_def o_def flip: map_Suc_upt del: upt_Suc drop_drop)
qed

lemma bits_of_octets: "bits_of (octets_of bs) = bs @ replicate (8 * length (octets_of bs) - length bs) False"
proof (induction bs rule: measure_induct_rule [of length])
  case (less bs)
  show ?case
  proof (cases "bs = []")
    case False
    define cs where "cs = take 8 bs"
    have IH: "bits_of (octets_of (drop 8 bs)) = drop 8 bs @ replicate (8 * length (octets_of (drop 8 bs)) - length (drop 8 bs)) False"
      using False by (intro less.IH) simp
    have y: "msb_bits 8 (uint (word_of_int (push_bit (8 - length cs) (bits_val cs)) :: byte)) = cs @ replicate (8 - length cs) False"
      by (rule octet_of_bits) (simp add: cs_def)
    have e: "bits_of (octets_of bs) = (cs @ replicate (8 - length cs) False) @ bits_of (octets_of (drop 8 bs))"
      unfolding octets_of_step [OF False] bits_of_Cons cs_def [symmetric] y ..
    show ?thesis
    proof (cases "length bs \<le> 8")
      case True
      then have "length (octets_of bs) = 1" using False by (simp add: one_octet)
      with True show ?thesis unfolding e by (simp add: cs_def)
    next
      case len: False
      have "length (octets_of bs) = Suc (length (octets_of (drop 8 bs)))" using octets_of_step [OF False] by simp
      moreover have "length cs = 8" using len by (simp add: cs_def)
      moreover have "cs @ drop 8 bs = bs" by (simp add: cs_def)
      ultimately show ?thesis unfolding e IH using len by (simp del: length_octets_of flip: append_assoc)
    qed
  qed simp
qed

lemma octets_of_bits_of: "octets_of (bits_of xs) = xs"
proof -
  have "(8 * length xs + 7) div 8 = length xs" by (auto intro: div_nat_eqI)
  then have "length (octets_of (bits_of xs)) = length xs" by simp
  then show ?thesis using bits_of_octets [of "bits_of xs"] by (simp flip: bits_of_inject)
qed

lemma brReadByteArray_octets:
  assumes "br_ok s" "br_rest s = bs @ bs'"
  shows "\<exists>s'. brReadByteArray s (int (length bs)) buf = Inr (buf @ octets_of bs, s') \<and> br_ok s' \<and> br_rest s' = bs'"
proof -
  from brReadByteArray_ok [OF assms, of buf] obtain ys s' where
    ys: "brReadByteArray s (int (length bs)) buf = Inr (buf @ ys, s')" "br_ok s'" "br_rest s' = bs'"
      "length ys = (length bs + 7) div 8" "bits_of ys = bs @ replicate (8 * length ys - length bs) False" by blast
  have "ys = octets_of bs"
    using bits_of_octets [of bs] ys(4,5) by (simp flip: bits_of_inject [of ys "octets_of bs"])
  with ys show ?thesis by blast
qed

lemma brSkip_ok:
  assumes "br_ok s" "br_rest s = as @ bs"
  shows "br_ok (brSkip s (int (length as))) \<and> br_rest (brSkip s (int (length as))) = bs"
proof -
  obtain p where p: "is_pos s = int p" using assms(1) by (auto simp: br_ok_def dest: nonneg_int_cases)
  have "length (br_rest s) = 8 * length (is_buf s) - p" by (simp add: br_rest_def p)
  moreover have "p \<le> 8 * length (is_buf s)" using assms(1) by (simp add: br_ok_def p)
  ultimately have le: "p + length as \<le> 8 * length (is_buf s)" using assms(2) by simp
  have "drop (p + length as) (bits_of (is_buf s)) = drop (length as) (drop p (bits_of (is_buf s)))"
    by (simp add: add.commute)
  also have "\<dots> = bs" using assms(2) by (simp add: br_rest_def p)
  finally show ?thesis using le assms(1)
    by (simp add: brSkip_def br_ok_def br_rest_def p flip: of_nat_add)
qed

lemma brAvailable_rest: "br_ok s \<Longrightarrow> brAvailable s = int (length (br_rest s))"
  by (auto simp: br_ok_def br_rest_def brAvailable_def)

text \<open>A field of \<open>k\<close> bits taken off any stream that holds them.\<close>

lemma brRead_take:
  assumes "br_ok s" "br_rest s = bs @ bs'" "0 < k" "k \<le> 8" "k \<le> length bs"
  shows "\<exists>s'. brRead s (int k) = Inr (bits_val (take k bs), s') \<and> br_ok s' \<and> br_rest s' = drop k bs @ bs'"
  using bs.get_bits [OF assms(1), of "take k bs" "drop k bs @ bs'"] assms(2-) by (simp add: min_absorb2)

lemma bits_val_octet [simp]: "bits_val (msb_bits 8 (uint (b :: byte))) = uint b"
  by (simp add: take_bit_int_eq_self)

lemma take_bit_octet [simp]: "take_bit 8 (uint (b :: byte)) = uint b"
  by (simp add: take_bit_int_eq_self)

lemma brRead_octet:
  assumes "br_ok s" "br_rest s = msb_bits 8 (uint (b :: byte)) @ bs"
  shows "\<exists>s'. brRead s 8 = Inr (uint b, s') \<and> br_ok s' \<and> br_rest s' = bs"
  using brRead_take [OF assms, of 8] by simp

lemma bits_of_sp: "bits_of (sp_bytes sp) = msb_bits 8 (uint (fst sp))
    @ msb_bits 8 (uint (word_of_nat (length (snd sp)) :: byte)) @ bits_of (snd sp)"
  by (simp add: sp_bytes_def bits_of_Cons)

lemma readMessageId_ok:
  assumes "br_ok s" "br_rest s = bs @ bs'" "length bs = 24"
  shows "\<exists>s'. readMessageId s = Inr (mi_of_bits bs, s') \<and> br_ok s' \<and> br_rest s' = drop 21 bs @ bs'"
proof -
  from brRead_take [OF assms(1,2), of 4] assms(3) obtain s1 where
    s1: "brRead s 4 = Inr (bits_val (take 4 bs), s1)" "br_ok s1" "br_rest s1 = drop 4 bs @ bs'" by auto
  from brRead_take [OF s1(2,3), of 8] assms(3) obtain s2 where
    s2: "brRead s1 8 = Inr (bits_val (take 8 (drop 4 bs)), s2)" "br_ok s2" "br_rest s2 = drop 12 bs @ bs'" by auto
  from brRead_take [OF s2(2,3), of 8] assms(3) obtain s3 where
    s3: "brRead s2 8 = Inr (bits_val (take 8 (drop 12 bs)), s3)" "br_ok s3" "br_rest s3 = drop 20 bs @ bs'" by auto
  from brRead_take [OF s3(2,3), of 1] assms(3) obtain s4 where
    s4: "brRead s3 1 = Inr (bits_val (take 1 (drop 20 bs)), s4)" "br_ok s4" "br_rest s4 = drop 21 bs @ bs'" by auto
  define a b where "a = take 8 (drop 4 bs)" and "b = take 8 (drop 12 bs)"
  have ab: "length a = 8" "length b = 8" using assms(3) by (simp_all add: a_def b_def)
  have "push_bit 8 (bits_val a) OR bits_val b = bits_val (a @ b)"
    by (rule bit_eqI) (auto simp: bit_or_iff bit_push_bit_iff bit_bits_val ab nth_append)
  moreover have "a @ b = take 16 (drop 4 bs)"
    using take_add [of 8 8 "drop 4 bs"] by (simp add: a_def b_def)
  moreover have "take 1 (drop 20 bs) = [bs ! 20]" using assms(3) by (simp add: take_Suc_conv_app_nth)
  moreover have "bits_val [bs ! 20] = 1 \<longleftrightarrow> bs ! 20" by (simp add: bits_val_def)
  ultimately show ?thesis using s1(1) s2(1) s3(1) s4
    by (auto simp: readMessageId_def mi_of_bits_def a_def b_def)
qed

lemma decodeMsgIdParam_ok:
  assumes ok: "br_ok s" and r: "br_rest s = msb_bits 8 (uint (word_of_nat (length body) :: byte)) @ bits_of body @ bs"
    and len: "length body < 256"
  shows "\<exists>s'. decodeMsgIdParam bd s = Inr (sp_apply (0, body) bd, s') \<and> br_ok s' \<and> br_rest s' = bs"
proof -
  from brRead_octet [OF ok r] len obtain s1 where
    s1: "brRead s 8 = Inr (int (length body), s1)" "br_ok s1" "br_rest s1 = bits_of body @ bs"
    by (auto simp: uint_byte_of_nat)
  show ?thesis
  proof (cases "3 \<le> length body")
    case False
    then show ?thesis using s1 brSkip_ok [OF s1(2,3)]
      by (simp add: decodeMsgIdParam_def sp_apply_def Let_def mult.commute)
  next
    case True
    have "br_rest s1 = take 24 (bits_of body) @ (drop 24 (bits_of body) @ bs)" using s1(3) by simp
    from readMessageId_ok [OF s1(2) this] True obtain s2 where s2: "readMessageId s1 = Inr (mi_of_bits (take 24 (bits_of body)), s2)"
      "br_ok s2" "br_rest s2 = drop 21 (take 24 (bits_of body)) @ (drop 24 (bits_of body) @ bs)" by auto
    have m: "mi_of_bits (take 24 (bits_of body)) = mi_of_bits (bits_of body)" by (simp add: mi_of_bits_def drop_take)
    have l3: "int (length (drop 21 (take 24 (bits_of body)))) = 3" using True by simp
    note s3 = brSkip_ok [OF s2(2,3), unfolded l3]
    have l24: "int (length (drop 24 (bits_of body))) = int (length body) * 8 - 24" using True by simp
    with brSkip_ok [OF conjunct1 [OF s3] conjunct2 [OF s3], unfolded l24] True s1 s2(1) m show ?thesis
      by (simp add: decodeMsgIdParam_def sp_apply_def Let_def)
  qed
qed

lemma decodeUserDataParam_ok:
  assumes ok: "br_ok s" and r: "br_rest s = msb_bits 8 (uint (word_of_nat (length body) :: byte)) @ bits_of body @ bs"
    and sp: "sp_ok (1, body)"
  shows "\<exists>s'. decodeUserDataParam bd s = Inr (sp_apply (1, body) bd, s') \<and> br_ok s' \<and> br_rest s' = bs"
proof -
  define B where "B = bits_of body"
  have len: "length body < 256" "16 \<le> length B" "ud_head B \<le> length B" "length B = 8 * length body"
    using sp by (simp_all add: sp_ok_def B_def)
  from brRead_octet [OF ok r] len obtain s1 where
    s1: "brRead s 8 = Inr (int (length body), s1)" "br_ok s1" "br_rest s1 = B @ bs"
    by (auto simp: uint_byte_of_nat B_def)
  define enc where "enc = bits_val (take 5 B)"
  from brRead_take [OF s1(2,3), of 5] len obtain s2 where
    s2: "brRead s1 5 = Inr (enc, s2)" "br_ok s2" "br_rest s2 = drop 5 B @ bs" by (auto simp: enc_def)
  define ud1 where "ud1 = (m_UserData bd)\<lparr>msgEncoding := enc\<rparr>"
  define ud2 where "ud2 = (if with_msg_type enc then ud1\<lparr>msgType := bits_val (take 8 (drop 5 B))\<rparr> else ud1)"
  define h where "h = ud_head B"
  have h: "h = (if with_msg_type enc then 21 else 13)" "h \<le> length B" using len(3) by (simp_all add: h_def ud_head_def enc_def)
  have "\<exists>s3. (if enc = ENCODING_IS91_EXTENDED_PROTOCOL \<or> enc = ENCODING_GSM_DCS
          then bnd (brRead s2 8) (\<lambda>(ty, s). Inr (ud1\<lparr>msgType := ty\<rparr>, 5 + 8, s))
          else Inr (ud1, 5, s2)) = Inr (ud2, int (h - 8), s3) \<and> br_ok s3 \<and> br_rest s3 = drop (h - 8) B @ bs"
  proof (cases "with_msg_type enc")
    case False
    then show ?thesis using s2 by (simp add: h ud2_def with_msg_type_def)
  next
    case True
    have "8 \<le> length (drop 5 B)" using len(2) by simp
    from brRead_take [OF s2(2,3) _ _ this] obtain s3 where
      "brRead s2 8 = Inr (bits_val (take 8 (drop 5 B)), s3)" "br_ok s3" "br_rest s3 = drop 13 B @ bs" by auto
    with True show ?thesis by (auto simp: h ud2_def with_msg_type_def)
  qed
  then obtain s3 where s3: "(if enc = ENCODING_IS91_EXTENDED_PROTOCOL \<or> enc = ENCODING_GSM_DCS
          then bnd (brRead s2 8) (\<lambda>(ty, s). Inr (ud1\<lparr>msgType := ty\<rparr>, 5 + 8, s))
          else Inr (ud1, 5, s2)) = Inr (ud2, int (h - 8), s3)" "br_ok s3" "br_rest s3 = drop (h - 8) B @ bs" by blast
  have h8: "8 \<le> h" by (simp add: h(1))
  have "8 \<le> length (drop (h - 8) B)" using h(2) h8 by simp
  from brRead_take [OF s3(2,3) _ _ this] h8 obtain s4 where
    s4: "brRead s3 8 = Inr (bits_val (take 8 (drop (h - 8) B)), s4)" "br_ok s4" "br_rest s4 = drop h B @ bs" by auto
  have db: "int (length (drop h B)) = int (length body) * 8 - (int (h - 8) + 8)" using len(4) h(2) h8 by simp
  from brReadByteArray_octets [OF s4(2,3), of "userDataPayload ud2", unfolded db] obtain s5 where
    s5: "brReadByteArray s4 (int (length body) * 8 - (int (h - 8) + 8)) (userDataPayload ud2)
      = Inr (userDataPayload ud2 @ octets_of (drop h B), s5)" "br_ok s5" "br_rest s5 = bs" by blast
  have "decodeUserDataParam bd s = Inr (bd\<lparr>m_UserData := ud2\<lparr>numFields := bits_val (take 8 (drop (h - 8) B)),
      userDataPayload := userDataPayload ud2 @ octets_of (drop h B)\<rparr>\<rparr>, s5)"
    unfolding decodeUserDataParam_def s1(1) bnd.simps prod.case Let_def s2(1) ud1_def [symmetric] s3(1) s4(1) s5(1) ..
  then show ?thesis using s5(2,3)
    by (simp add: sp_apply_def ud_of_bits_def Let_def ud2_def ud1_def enc_def h_def B_def)
qed

lemma skipParam_ok:
  assumes ok: "br_ok s" and r: "br_rest s = msb_bits 8 (uint (word_of_nat (length body) :: byte)) @ bits_of body @ bs"
    and len: "length body < 256"
  shows "\<exists>s'. skipParam s = Inr s' \<and> br_ok s' \<and> br_rest s' = bs"
proof -
  from brRead_octet [OF ok r] len obtain s1 where
    s1: "brRead s 8 = Inr (int (length body), s1)" "br_ok s1" "br_rest s1 = bits_of body @ bs"
    by (auto simp: uint_byte_of_nat)
  have "int (length (bits_of body)) \<le> brAvailable s1" unfolding brAvailable_rest [OF s1(2)] s1(3) by simp
  with s1 brSkip_ok [OF s1(2,3)] show ?thesis by (simp add: skipParam_def Let_def mult.commute)
qed

lemma decodeParam_ok:
  assumes ok: "br_ok s" and r: "br_rest s = bits_of (sp_bytes sp) @ bs" and sp: "sp_ok sp"
  shows "\<exists>s'. decodeParam bd s = Inr (sp_apply sp bd, s') \<and> br_ok s' \<and> br_rest s' = bs"
proof -
  define i body where "i = fst sp" and "body = snd sp"
  have e: "sp = (i, body)" and len: "length body < 256" using sp by (simp_all add: i_def body_def sp_ok_def)
  from brRead_octet [OF ok, of i "msb_bits 8 (uint (word_of_nat (length body) :: byte)) @ bits_of body @ bs"] r
  obtain s1 where s1: "brRead s 8 = Inr (uint i, s1)" "br_ok s1"
    "br_rest s1 = msb_bits 8 (uint (word_of_nat (length body) :: byte)) @ bits_of body @ bs"
    by (auto simp: bits_of_sp e)
  have u: "uint i = 0 \<longleftrightarrow> i = 0" "uint i = 1 \<longleftrightarrow> i = 1" by (auto dest: uint_eqD)
  note d = decodeParam_def SUBPARAM_MESSAGE_IDENTIFIER_def SUBPARAM_USER_DATA_def s1(1) e u
  consider "i = 0" | "i = 1" | "i \<noteq> 0" "i \<noteq> 1" by blast
  then show ?thesis
  proof cases
    case 1
    then show ?thesis using decodeMsgIdParam_ok [OF s1(2,3) len, of bd] by (simp add: d)
  next
    case 2
    then show ?thesis using decodeUserDataParam_ok [OF s1(2,3), of bd] sp by (simp add: d)
  next
    case 3
    then show ?thesis using skipParam_ok [OF s1(2,3) len] by (auto simp: d sp_apply_def)
  qed
qed

lemma decodeLoop_ok:
  assumes "br_ok s" "br_rest s = bits_of (params_bytes ps)" "list_all sp_ok ps"
  shows "decodeLoop bd s = Inr (fold sp_apply ps bd)"
  using assms
proof (induction ps arbitrary: s bd)
  case Nil
  then show ?case by (simp add: decodeLoop.simps brAvailable_rest params_bytes_def)
next
  case (Cons p ps)
  have r: "br_rest s = bits_of (sp_bytes p) @ bits_of (params_bytes ps)"
    using Cons.prems(2) by (simp add: params_bytes_def bits_of_append)
  have "0 < brAvailable s" unfolding brAvailable_rest [OF Cons.prems(1)] r by (simp add: bits_of_sp)
  moreover from decodeParam_ok [OF Cons.prems(1) r] Cons.prems(3) obtain s' where
    "decodeParam bd s = Inr (sp_apply p bd, s')" "br_ok s'" "br_rest s' = bits_of (params_bytes ps)" by auto
  ultimately show ?case using Cons.IH [of s' "sp_apply p bd"] Cons.prems(3)
    by (simp add: decodeLoop.simps [of bd s])
qed

text \<open>Decoding well-formed bearer data reads every subparameter once and in order: the last
  message identifier of at least three octets gives type, number and header flag, user data
  gives its encoding and fields with the payload octets appended, everything else is skipped by
  its length; the whole is consumed and no assertion fails.\<close>
theorem decode_params:
  assumes "list_all sp_ok ps" "m_value bd = params_bytes ps"
  shows "decode bd = Inr (fold sp_apply ps bd)"
  unfolding decode_def bearerStream_def
  by (rule decodeLoop_ok) (simp_all add: assms)

theorem decode_params_witness:
  "\<exists>bd'. decode \<lparr> m_tag = 8, m_length = 9, m_error = 0,
      m_value = [0x00, 0x03, 0x10, 0x01, 0x08, 0x01, 0x02, 0x00, 0x08], m_needStatusReport = False,
      m_msgIdentifier = newMessageIdentifer, m_UserData = newUserData \<rparr> = Inr bd'
    \<and> m_msgIdentifier bd' = \<lparr> messageType = 1, messageId = 16, hasUserDataHeader = True \<rparr>"
proof -
  let ?bd = "\<lparr> m_tag = 8, m_length = 9, m_error = 0,
      m_value = [0x00, 0x03, 0x10, 0x01, 0x08, 0x01, 0x02, 0x00, 0x08], m_needStatusReport = False,
      m_msgIdentifier = newMessageIdentifer, m_UserData = newUserData \<rparr> :: BearerData"
  let ?ps = "[(0x00, [0x10, 0x01, 0x08]), (0x01, [0x00, 0x08])] :: subparam list"
  have "list_all sp_ok ?ps" by code_simp
  moreover have "m_value ?bd = params_bytes ?ps" by code_simp
  ultimately have "decode ?bd = Inr (fold sp_apply ?ps ?bd)" by (rule decode_params)
  moreover have "m_msgIdentifier (fold sp_apply ?ps ?bd) = \<lparr> messageType = 1, messageId = 16, hasUserDataHeader = True \<rparr>"
    by code_simp
  ultimately show ?thesis by blast
qed

end
