(* ===== verification/CdmaConverter.thy ===== *)
theory CdmaConverter
  imports CdmaBearer "HOL-Library.Signed_Division"
begin

text \<open>
  \<open>RmcCdmaSmsConverter\<close> (\<open>mdcomm/sms/RmcCdmaSmsConverter.{cpp,h}\<close>): a CDMA message as a
  structure of \<open>ril_cdma_sms.h\<close> to and from the modem's hexadecimal PDU, the queries on an
  inbound message, and the replacement of its user data. The queries construct a
  \<open>BearerData\<close> and run one of its decoders.
\<close>

section \<open>The message structure\<close>

record RIL_CDMA_SMS_Message =
  uTeleserviceID :: int
  bIsServicePresent :: int
  uServicecategory :: int
  sAddress :: RIL_CDMA_SMS_Address
  sSubAddress :: RIL_CDMA_SMS_Subaddress
  uBearerDataLen :: int
  aBearerData :: "byte list"

definition zeroMessage :: RIL_CDMA_SMS_Message where
  "zeroMessage =
     \<lparr> uTeleserviceID = 0, bIsServicePresent = 0, uServicecategory = 0,
       sAddress = \<lparr> digit_mode = 0, number_mode = 0, number_type = 0, number_plan = 0,
                    number_of_digits = 0, digits = replicate 36 0 \<rparr>,
       sSubAddress = \<lparr> subaddressType = 0, odd_digits = 0, sub_number_of_digits = 0,
                       sub_digits = replicate 36 0 \<rparr>,
       uBearerDataLen = 0, aBearerData = replicate 255 0 \<rparr>"

section \<open>To the modem\<close>

text \<open>The result: whether it succeeded, the PDU and the address string, and the message, whose
  bearer data \<open>removeZero\<close> may have changed.\<close>

definition toHexPduP2p ::
  "RIL_CDMA_SMS_Message \<Rightarrow> bool \<Rightarrow> (bool \<times> string \<times> byte list \<times> RIL_CDMA_SMS_Message) res" where
  "toHexPduP2p message needBearerReplyOpt =
     (if number_of_digits (sAddress message) > RIL_CDMA_SMS_ADDRESS_MAX
        \<or> sub_number_of_digits (sSubAddress message) > RIL_CDMA_SMS_SUBADDRESS_MAX
        \<or> uBearerDataLen message \<le> 0 \<or> uBearerDataLen message > RIL_CDMA_SMS_BEARER_DATA_MAX
      then Inr (False, [], [], message)
      else
        let msg = newCdmaSmsMessage MESSAGE_TYPE_P2P;
            msg = addParam msg (newTeleServiceId (uTeleserviceID message)) in
        bnd (newCdmaSmsAddress (sAddress message) True) (\<lambda>(addr, number).
        let msg = addParam msg addr;
            msg = (if needBearerReplyOpt then addParam msg newBearerReplyOpt else msg) in
        bnd (newBearerData (aBearerData message) (uBearerDataLen message) True) (\<lambda>(bearer, data).
        let msg = addParam msg (RmcTlvNode.truncate bearer) in
        Inr (True, msgToHexHeader msg @ msgToHexBody msg, number, message\<lparr>aBearerData := data\<rparr>))))"

definition toHexPduAck ::
  "RIL_CDMA_SMS_Ack option \<Rightarrow> int \<Rightarrow> RIL_CDMA_SMS_Address option \<Rightarrow> (bool \<times> string) res" where
  "toHexPduAck pAck replySeqNo pAddress =
     (case (pAck, pAddress) of
        (Some ack, Some address) \<Rightarrow>
          let msg = newCdmaSmsMessage MESSAGE_TYPE_ACK in
          bnd (newCdmaSmsAddress address True) (\<lambda>(addr, _).
          bnd (newCauseCode ack replySeqNo) (\<lambda>cause.
          let msg = addParam (addParam msg addr) cause in
          Inr (True, msgToHexHeader msg @ msgToHexBody msg)))
      | _ \<Rightarrow> Inr (False, []))"

section \<open>From the modem\<close>

text \<open>State of the loop of \<open>toMessage\<close>: the message, the reply sequence number and whether the
  teleservice is the WAP push of China Telecom.\<close>

record toMessageState =
  tm_message :: RIL_CDMA_SMS_Message
  tm_replySeqNo :: int
  tm_isCtWapPush :: bool

abbreviation upd_msg ::
  "(RIL_CDMA_SMS_Message \<Rightarrow> RIL_CDMA_SMS_Message) \<Rightarrow> toMessageState \<Rightarrow> toMessageState" where
  "upd_msg f st \<equiv> st\<lparr>tm_message := f (tm_message st)\<rparr>"

text \<open>One parameter at \<open>p\<close> of \<open>len\<close> hexadecimal digits; \<open>None\<close> is the \<open>break\<close> of an
  unknown tag. The tag is compared as two characters.\<close>

definition toMessageParam ::
  "buffer \<Rightarrow> nat \<Rightarrow> int \<Rightarrow> toMessageState \<Rightarrow> toMessageState option res" where
  "toMessageParam buf p len st =
     (let tag = take 2 (drop p buf) in
      if tag = ''00'' then
        bnd (teleServiceIdFromHex buf p len) (\<lambda>nd.
        bnd (isCtWapPush nd) (\<lambda>ct.
        bnd (if ct then Inr 0x1004 else getTeleServiceId nd) (\<lambda>tid.
        Inr (Some (upd_msg (\<lambda>m. m\<lparr>uTeleserviceID := tid\<rparr>) (st\<lparr>tm_isCtWapPush := ct\<rparr>))))))
      else if tag = ''01'' then
        bnd (serviceCategoryFromHex buf p len) (\<lambda>nd.
        bnd (getServiceCategory nd) (\<lambda>sc.
        Inr (Some (upd_msg (\<lambda>m. m\<lparr>bIsServicePresent := 1, uServicecategory := sc\<rparr>) st))))
      else if tag = ''02'' then
        bnd (addressFromHex buf p len) (\<lambda>nd.
        bnd (cdmaGetAddress nd (sAddress (tm_message st))) (\<lambda>(_, a).
        Inr (Some (upd_msg (\<lambda>m. m\<lparr>sAddress := a\<rparr>) st))))
      else if tag = ''03'' then
        bnd (subAddressFromHex buf p len) (\<lambda>nd.
        bnd (getSubAddr nd (sSubAddress (tm_message st))) (\<lambda>(_, a).
        Inr (Some (upd_msg (\<lambda>m. m\<lparr>sSubAddress := a\<rparr>) st))))
      else if tag = ''04'' then bnd (addressFromHex buf p len) (\<lambda>_. Inr (Some st))
      else if tag = ''05'' then bnd (subAddressFromHex buf p len) (\<lambda>_. Inr (Some st))
      else if tag = ''06'' then
        bnd (bearerReplyOptFromHex buf p len) (\<lambda>nd.
        bnd (getReplySeq nd) (\<lambda>n. Inr (Some (st\<lparr>tm_replySeqNo := n\<rparr>))))
      else if tag = ''07'' then bnd (causeCodeFromHex buf p len) (\<lambda>_. Inr (Some st))
      else if tag = ''08'' then
        bnd (bearerDataFromHex buf p len) (\<lambda>bd.
        bnd (getBearerData bd (tm_isCtWapPush st) (aBearerData (tm_message st)) (uBearerDataLen (tm_message st)))
          (\<lambda>(_, data, n).
        Inr (Some (upd_msg (\<lambda>m. m\<lparr>aBearerData := data, uBearerDataLen := n\<rparr>) st))))
      else Inr None)"

text \<open>The length digits: \<open>strtol\<close> of two characters; \<open>0\<close> where there is no digit.\<close>

definition paramLen :: "buffer \<Rightarrow> nat \<Rightarrow> int" where
  "paramLen buf p =
     (let len = (case c_strtol 16 (take 2 (drop (p + 2) buf)) of None \<Rightarrow> 0 | Some l \<Rightarrow> c_int l)
      in len * 2 + 4)"

lemma toMessageParam_len: "toMessageParam buf p len st = Inr (Some st') \<Longrightarrow> 6 \<le> len"
  by (auto simp: toMessageParam_def Let_def teleServiceIdFromHex_def serviceCategoryFromHex_def
      addressFromHex_def subAddressFromHex_def bearerReplyOptFromHex_def causeCodeFromHex_def
      bearerDataFromHex_def elim!: bndE split: if_splits dest!: nodeFromHex_len)

function toMessageLoop :: "buffer \<Rightarrow> nat \<Rightarrow> nat \<Rightarrow> toMessageState \<Rightarrow> toMessageState res" where
  "toMessageLoop buf sz p st =
     (if p + 4 < sz then
        bnd (toMessageParam buf p (paramLen buf p) st) (\<lambda>r.
        case r of None \<Rightarrow> Inr st
        | Some st' \<Rightarrow> toMessageLoop buf sz (p + nat (paramLen buf p)) st')
      else Inr st)"
  by pat_completeness auto
termination
  by (relation "measure (\<lambda>(buf, sz, p, st). sz - p)") (auto dest!: toMessageParam_len)

declare toMessageLoop.simps [simp del]

text \<open>The result with the message and the reply sequence number; an odd or short PDU returns
  before either is touched. \<open>ret\<close> is never set.\<close>

definition toMessage ::
  "RIL_CDMA_SMS_Message \<Rightarrow> int \<Rightarrow> string \<Rightarrow> (bool \<times> RIL_CDMA_SMS_Message \<times> int) res" where
  "toMessage message replySeqNo hexPdu =
     (if length hexPdu mod 2 \<noteq> 0 \<or> length hexPdu < 2 then Inr (False, message, replySeqNo)
      else
        bnd (messageFromHex hexPdu 2) (\<lambda>_.
        bnd (toMessageLoop (c_buffer hexPdu) (length hexPdu) 2
               \<lparr> tm_message = zeroMessage, tm_replySeqNo = - 1, tm_isCtWapPush = False \<rparr>) (\<lambda>st.
        Inr (False, tm_message st, tm_replySeqNo st))))"

section \<open>Queries\<close>

definition isStatusReport :: "RIL_CDMA_SMS_Message \<Rightarrow> (bool \<times> int) res" where
  "isStatusReport message =
     bnd (newBearerData (aBearerData message) (uBearerDataLen message) False) (\<lambda>(bd, _).
     bnd (decodeMessageId bd) (\<lambda>bd.
     Inr (bdIsStatusReport bd, messageId (m_msgIdentifier bd))))"

text \<open>Constructed with the default \<open>isMo = true\<close>: the query may change the message.\<close>

definition isNeedStatusReport :: "RIL_CDMA_SMS_Message \<Rightarrow> (bool \<times> RIL_CDMA_SMS_Message) res" where
  "isNeedStatusReport message =
     bnd (newBearerData (aBearerData message) (uBearerDataLen message) True) (\<lambda>(bd, data).
     bnd (decodeReplyOpt bd) (\<lambda>bd.
     Inr (m_needStatusReport bd, message\<lparr>aBearerData := data\<rparr>)))"

record InboundSmsInfo =
  ii_isStatusReport :: bool
  ii_messageId :: int
  ii_msgEncoding :: int
  ii_numFields :: int
  ii_hasUserDataHeader :: bool
  ii_userDataPayload :: "byte list"

definition getInboundSmsInfo :: "RIL_CDMA_SMS_Message \<Rightarrow> InboundSmsInfo res" where
  "getInboundSmsInfo message =
     bnd (newBearerData (aBearerData message) (uBearerDataLen message) False) (\<lambda>(bd, _).
     bnd (decode bd) (\<lambda>bd.
     Inr \<lparr> ii_isStatusReport = bdIsStatusReport bd, ii_messageId = messageId (m_msgIdentifier bd),
           ii_msgEncoding = msgEncoding (m_UserData bd), ii_numFields = numFields (m_UserData bd),
           ii_hasUserDataHeader = hasUserDataHeader (m_msgIdentifier bd),
           ii_userDataPayload = userDataPayload (m_UserData bd) \<rparr>))"

section \<open>Replacing user data\<close>

definition RIL_CDMA_SMS_USER_DATA_MAX :: nat where "RIL_CDMA_SMS_USER_DATA_MAX = 229"

definition encodeUserData :: "byte list \<Rightarrow> byte list \<Rightarrow> int \<Rightarrow> int \<Rightarrow> int \<Rightarrow> byte list res" where
  "encodeUserData userData payload enc ty nf =
     (let outStream = newBitwiseOutputStream (RIL_CDMA_SMS_USER_DATA_MAX * 8);
          dataBits = (if enc = ENCODING_7BIT_ASCII \<or> enc = ENCODING_GSM_7BIT_ALPHABET
                      then nf * 7 else int (length payload) * 8);
          withType = (enc = ENCODING_IS91_EXTENDED_PROTOCOL \<or> enc = ENCODING_GSM_DCS);
          paramBits = dataBits + 13 + (if withType then 8 else 0);
          paramBytes = (paramBits sdiv 8) + (if paramBits smod 8 > 0 then 1 else 0);
          paddingBits = paramBytes * 8 - paramBits in
      bnd (bwWrite outStream 5 enc) (\<lambda>s.
      bnd (if withType then bwWrite s 8 ty else Inr s) (\<lambda>s.
      bnd (bwWrite s 8 nf) (\<lambda>s.
      bnd (bwWriteByteArray s dataBits payload) (\<lambda>s.
      bnd (if paddingBits > 0 then bwWrite s paddingBits 0 else Inr s) (\<lambda>s.
      bnd (rd_block (os_buf s) 0 (bwGetByteLen s)) (\<lambda>bytes. Inr (userData @ bytes))))))))"

text \<open>The scan for the user data: the position of its value and its length, and of the
  subparameter behind it. Positions start at the length of the bearer data (not found).\<close>

function replaceScan ::
  "byte list \<Rightarrow> int \<Rightarrow> int \<Rightarrow> int \<Rightarrow> int \<Rightarrow> (int \<times> int \<times> int \<times> int) res" where
  "replaceScan data len i userDataPos oldUserDataLen =
     (if i < len then
        bnd (rdi data i) (\<lambda>subparamId. bnd (rdi data (i + 1)) (\<lambda>subparamLen.
        if userDataPos \<noteq> len then Inr (userDataPos, oldUserDataLen, i + 2, len - (i + 2) + 2)
        else if subparamId = SUBPARAM_USER_DATA
        then replaceScan data len (i + 2 + subparamLen) (i + 2) subparamLen
        else replaceScan data len (i + 2 + subparamLen) userDataPos oldUserDataLen))
      else Inr (userDataPos, oldUserDataLen, - 1, - 1))"
  by pat_completeness auto
termination
  by (relation "measure (\<lambda>(data, len, i, pos, old). nat (len - i))") (auto dest!: rdi_range)

declare replaceScan.simps [simp del]

definition replaceUserData :: "RIL_CDMA_SMS_Message \<Rightarrow> byte list \<Rightarrow> (bool \<times> RIL_CDMA_SMS_Message) res" where
  "replaceUserData message userData =
     (let data = aBearerData message; len = uBearerDataLen message; userDataLen = int (length userData) in
      bnd (replaceScan data len 0 len (- 1)) (\<lambda>(userDataPos, oldUserDataLen, nextPos, leftDataLen).
      let leftSpace = RIL_CDMA_SMS_BEARER_DATA_MAX - len in
      if userDataPos = len then
        if leftSpace < userDataLen + 2 then Inr (False, message)
        else
          bnd (wr data userDataPos (word_of_int SUBPARAM_USER_DATA)) (\<lambda>data.
          bnd (wr data (userDataPos + 1) (word_of_int userDataLen)) (\<lambda>data.
          bnd (wr_block data (userDataPos + 2) userData) (\<lambda>data.
          Inr (True, message\<lparr>aBearerData := data, uBearerDataLen := len + (userDataLen + 2)\<rparr>))))
      else
        let diff = userDataLen - oldUserDataLen in
        if diff > leftSpace then Inr (False, message)
        else
          bnd (if nextPos \<noteq> - 1
               then bnd (rd_block data (nextPos - 2) leftDataLen) (\<lambda>rest.
                    wr_block data (userDataPos + userDataLen) rest)
               else Inr data) (\<lambda>data.
          bnd (wr_block data userDataPos userData) (\<lambda>data.
          bnd (wr data (userDataPos - 1) (word_of_int userDataLen)) (\<lambda>data.
          Inr (True, message\<lparr>aBearerData := data, uBearerDataLen := len + diff\<rparr>))))))"

definition replaceUserDataPayload ::
  "RIL_CDMA_SMS_Message \<Rightarrow> byte list \<Rightarrow> int \<Rightarrow> int \<Rightarrow> int \<Rightarrow> (bool \<times> RIL_CDMA_SMS_Message) res" where
  "replaceUserDataPayload message payload enc ty nf =
     bnd (encodeUserData [] payload enc ty nf) (\<lambda>userData. replaceUserData message userData)"

end
