(* ===== verification/CdmaScan.thy ===== *)
theory CdmaScan
  imports CdmaBearer
begin

text \<open>
  The loops of \<open>BearerData\<close> whose position is an \<open>unsigned char\<close>: \<open>removeZero\<close> and
  \<open>specialProcessForCtWapPush\<close>. A position that wraps may come back, so the first need not
  end; it is shown that 257 rounds decide whether it does, that it ends on well-formed data, and
  that it does not on a subparameter of length 254. The second always runs out of its target
  array first, so its bounds are never reached.
\<close>

section \<open>The scan of removeZero as a walk on positions\<close>

definition scanNext :: "byte list \<Rightarrow> int \<Rightarrow> int \<Rightarrow> int option" where
  "scanNext pdu len index =
     (if index < len then
        (case bnd (rdi pdu index) (\<lambda>paramId. let i1 = c_uchar (index + 1) in
              bnd (rdi pdu i1) (\<lambda>paramLen. let i2 = c_uchar (i1 + 1) in
              if paramId = 0 then
                bnd (rdi pdu (i2 + paramLen - 1)) (\<lambda>b.
                Inr (if b AND 0x08 = 0x08 then None else Some (c_uchar (i2 + paramLen))))
              else Inr (Some (c_uchar (i2 + paramLen)))))
         of Inl _ \<Rightarrow> None | Inr r \<Rightarrow> r)
      else None)"

fun walks :: "('a \<Rightarrow> 'a option) \<Rightarrow> nat \<Rightarrow> 'a \<Rightarrow> bool" where
  "walks f 0 i = True"
| "walks f (Suc n) i = (case f i of None \<Rightarrow> False | Some j \<Rightarrow> walks f n j)"

lemma walks_mono: "walks f n i \<Longrightarrow> m \<le> n \<Longrightarrow> walks f m i"
proof (induction n arbitrary: i m)
  case (Suc n)
  then show ?case by (cases m) (auto split: option.splits)
qed simp

lemma rdi_not_fuel [simp]: "rdi xs i \<noteq> Inl OutOfFuel"
  by (simp add: rdi_def rd_def)

lemma scan_walks:
  "removeZeroScan n pdu len i pos ulen = Inl OutOfFuel \<longleftrightarrow> walks (scanNext pdu len) n i"
proof (induction n arbitrary: i pos ulen)
  case (Suc n)
  show ?case
  proof (cases "i < len")
    case True
    define i1 i2 where "i1 = c_uchar (i + 1)" and "i2 = c_uchar (i1 + 1)"
    show ?thesis
    proof (cases "rdi pdu i")
      case (Inl e)
      then have "e \<noteq> OutOfFuel" using rdi_not_fuel by metis
      with Inl True show ?thesis by (simp add: scanNext_def)
    next
      case id: (Inr paramId)
      show ?thesis
      proof (cases "rdi pdu i1")
        case (Inl e)
        then have "e \<noteq> OutOfFuel" using rdi_not_fuel by metis
        with Inl id True show ?thesis by (simp add: scanNext_def Let_def i1_def)
      next
        case len: (Inr paramLen)
        show ?thesis
        proof (cases "paramId = 0")
          case False
          with id len True Suc.IH show ?thesis by (auto simp: scanNext_def Let_def i1_def)
        next
          case zero: True
          show ?thesis
          proof (cases "rdi pdu (i2 + paramLen - 1)")
            case (Inl e)
            then have "e \<noteq> OutOfFuel" using rdi_not_fuel by metis
            with Inl id len zero True show ?thesis by (simp add: scanNext_def Let_def i1_def i2_def)
          next
            case (Inr b)
            with id len zero True Suc.IH show ?thesis by (auto simp: scanNext_def Let_def i1_def i2_def)
          qed
        qed
      qed
    qed
  qed (simp add: scanNext_def)
qed simp

text \<open>A walk that ends visits no value twice: the values behind the start have different
  distances to the end.\<close>

lemma walk_values:
  assumes "\<And>i j. f i = Some j \<Longrightarrow> j \<in> S" "walks f n i" "\<not> walks f (Suc n) i"
  shows "\<exists>V \<subseteq> S. finite V \<and> card V = n \<and> (\<forall>v \<in> V. \<exists>t < n. walks f t v \<and> \<not> walks f (Suc t) v)"
  using assms(2,3)
proof (induction n arbitrary: i)
  case (Suc n)
  then obtain j where j: "f i = Some j" "walks f n j" "\<not> walks f (Suc n) j"
    by (auto split: option.splits)
  from Suc.IH [OF j(2,3)] obtain V where V: "V \<subseteq> S" "finite V" "card V = n"
    "\<forall>v \<in> V. \<exists>t < n. walks f t v \<and> \<not> walks f (Suc t) v" by blast
  have "j \<notin> V"
  proof
    assume "j \<in> V"
    with V(4) obtain t where "t < n" "\<not> walks f (Suc t) j" by blast
    with walks_mono [OF j(2), of "Suc t"] show False by simp
  qed
  with V j(3) j(2) assms(1) [OF j(1)] show ?case
    by (intro exI [of _ "insert j V"]) (auto simp: less_Suc_eq simp del: walks.simps)
qed auto

lemma walks_forever:
  assumes "\<And>i j. f i = Some j \<Longrightarrow> j \<in> S" "finite S" "card S < n" "walks f n i"
  shows "walks f m i"
proof (rule ccontr)
  assume "\<not> walks f m i"
  define k where "k = (LEAST k. \<not> walks f k i)"
  have k: "\<not> walks f k i" unfolding k_def by (rule LeastI) fact
  have below: "walks f l i" if "l < k" for l using not_less_Least [of l "\<lambda>k. \<not> walks f k i"] that by (simp add: k_def)
  have "k \<noteq> 0" using k by (metis walks.simps(1))
  then obtain t where t: "k = Suc t" by (metis not0_implies_Suc)
  have "walks f t i" by (rule below) (simp add: t)
  moreover have "\<not> walks f (Suc t) i" using k by (simp only: t not_False_eq_True)
  ultimately have "\<exists>V \<subseteq> S. finite V \<and> card V = t"
    using walk_values [of f S t i] assms(1) by blast
  then obtain V where "V \<subseteq> S" "card V = t" by blast
  then have "t \<le> card S" using card_mono [OF assms(2)] by blast
  moreover have "n \<le> t"
  proof (rule ccontr)
    assume "\<not> n \<le> t"
    then have "walks f (Suc t) i" by (intro walks_mono [OF assms(4)]) simp
    with k t show False by blast
  qed
  ultimately show False using assms(3) by linarith
qed

lemma scanNext_range: "scanNext pdu len i = Some j \<Longrightarrow> j \<in> {0..<256}"
  using c_uchar_range by (auto simp: scanNext_def Let_def res_simps split: if_splits sum.splits)

text \<open>257 rounds decide whether the scan of \<open>removeZero\<close> ends: if it has not ended by
  then, a position has come back and no number of rounds is enough.\<close>
theorem removeZero_scan_decided:
  "(\<exists>fuel. removeZeroScan fuel pdu len 0 (- 1) (- 1) \<noteq> Inl OutOfFuel)
    \<longleftrightarrow> removeZeroScan 257 pdu len 0 (- 1) (- 1) \<noteq> Inl OutOfFuel"
  using walks_forever [of "scanNext pdu len" "{0..<256}" 257 0] scanNext_range
  unfolding scan_walks by auto

text \<open>The scan does not end on every input: a first subparameter other than message
  identifier and user data whose length octet is 254 leads back to position 0, so sending an
  MO message with such bearer data hangs the daemon.\<close>
theorem removeZero_hangs:
  "removeZeroScan fuel (0x02 # 0xFE # ds) (int (length ds) + 2) 0 pos ulen = Inl OutOfFuel"
proof -
  have n: "scanNext (0x02 # 0xFE # ds) (int (length ds) + 2) 0 = Some 0"
    by (simp add: scanNext_def rdi_def rd_def c_uchar_mod)
  have "walks (scanNext (0x02 # 0xFE # ds) (int (length ds) + 2)) fuel 0"
    by (induction fuel) (simp_all add: n)
  then show ?thesis by (simp only: scan_walks)
qed

section \<open>Well-formed data\<close>

text \<open>Position and length of the user data as the scan should find them: of the last user
  data, unless a message identifier announces a user data header.\<close>

fun ud_position :: "nat \<Rightarrow> subparam list \<Rightarrow> int \<times> int \<Rightarrow> int \<times> int" where
  "ud_position i [] r = r"
| "ud_position i ((p, body) # ps) r =
     (if p = 0 then
        if uint (last (word_of_nat (length body) # body)) AND 0x08 = 0x08 then (- 1, snd r)
        else ud_position (i + 2 + length body) ps r
      else if p = 1 then ud_position (i + 2 + length body) ps (int (i + 2), int (length body))
      else ud_position (i + 2 + length body) ps r)"

lemma length_sp_bytes [simp]: "length (sp_bytes sp) = length (snd sp) + 2"
  by (simp add: sp_bytes_def)

lemma scan_params:
  assumes "pdu = pre @ params_bytes ps @ rest" "len = int (length pre + length (params_bytes ps))" "len \<le> 255"
    and "length ps < fuel"
  shows "removeZeroScan fuel pdu len (int (length pre)) pos ulen
    = Inr (ud_position (length pre) ps (pos, ulen))"
  using assms
proof (induction ps arbitrary: pre pos ulen fuel)
  case Nil
  then show ?case by (cases fuel) (simp_all add: params_bytes_def)
next
  case (Cons sp ps)
  obtain p body where sp: "sp = (p, body)" by (cases sp)
  obtain f where f: "fuel = Suc f" "length ps < f" using Cons.prems(4) by (cases fuel) auto
  define i n where "i = int (length pre)" and "n = length body"
  define pre' where "pre' = pre @ sp_bytes sp"
  have pdu: "pdu = pre @ p # word_of_nat n # body @ params_bytes ps @ rest"
    using Cons.prems(1) by (simp add: params_bytes_def sp_bytes_def sp n_def)
  have tot: "int (length pre) + 2 + int n + int (length (params_bytes ps)) \<le> 255" "i < len"
    using Cons.prems(2,3) by (simp_all add: params_bytes_def sp n_def i_def)
  have lt: "n < 256" using tot by linarith
  have r0: "rdi pdu i = Inr (uint p)" by (simp add: pdu i_def)
  have "rdi ((pre @ [p]) @ word_of_nat n # body @ params_bytes ps @ rest) (int (length (pre @ [p])))
      = Inr (uint (word_of_nat n :: byte))" by (rule rdi_append_mid)
  then have r1: "rdi pdu (i + 1) = Inr (int n)" using lt by (simp add: pdu i_def uint_byte_of_nat add.commute)
  have c1: "c_uchar (i + 1) = i + 1" "c_uchar (i + 1 + 1) = i + 2" "c_uchar (i + 2 + int n) = int (length pre')"
    using tot by (simp_all add: c_uchar_id i_def pre'_def sp n_def)
  have r2: "rdi pdu (i + 2 + int n - 1) = Inr (uint (last (word_of_nat n # body)))"
  proof -
    define L where "L = word_of_nat n # body"
    define xs where "xs = pre @ p # butlast L"
    have "butlast L @ [last L] = L" by (rule append_butlast_last_id) (simp add: L_def)
    then have "xs @ last L # params_bytes ps @ rest = pre @ p # L @ params_bytes ps @ rest"
      by (metis xs_def append.assoc append_Cons append_Nil)
    then have "pdu = xs @ last L # params_bytes ps @ rest" by (simp add: pdu L_def)
    moreover have "int (length xs) = i + 2 + int n - 1" by (simp add: xs_def L_def i_def n_def)
    ultimately show ?thesis by (metis rdi_append_mid L_def)
  qed
  have IH: "removeZeroScan f pdu len (int (length pre')) pos' ulen'
      = Inr (ud_position (length pre') ps (pos', ulen'))" for pos' ulen'
    using Cons.prems f(2) by (intro Cons.IH) (simp_all add: pre'_def params_bytes_def)
  have lp: "length pre' = length pre + 2 + length body" by (simp add: pre'_def sp)
  have u: "uint p = 0 \<longleftrightarrow> p = 0" "uint p = 1 \<longleftrightarrow> p = 1" by (auto dest: uint_eqD)
  have st: "removeZeroScan fuel pdu len i pos ulen =
     (if p = 0 then if uint (last (word_of_nat n # body)) AND 0x08 = 0x08 then Inr (- 1, ulen)
        else removeZeroScan f pdu len (int (length pre')) pos ulen
      else if p = 1 then removeZeroScan f pdu len (int (length pre')) (i + 2) (int n)
      else removeZeroScan f pdu len (int (length pre')) pos ulen)"
    unfolding f(1) removeZeroScan.simps(2) Let_def r0 r1 bnd.simps c1
    using tot(2) r2 by (simp add: u del: removeZeroScan.simps)
  show ?case unfolding i_def [symmetric] st IH
    by (simp add: sp lp n_def i_def add.commute)
qed

text \<open>On well-formed bearer data of up to 255 octets the scan of \<open>removeZero\<close> ends, within
  its bound, with the user data where it is.\<close>
theorem removeZero_scan_params:
  assumes "length (params_bytes ps) \<le> 255"
  shows "removeZeroScan 257 (params_bytes ps @ rest) (int (length (params_bytes ps))) 0 (- 1) (- 1)
    = Inr (ud_position 0 ps (- 1, - 1))"
proof -
  have "2 * length ps \<le> length (params_bytes ps)" by (induction ps) (simp_all add: params_bytes_def)
  then have "length ps < 257" using assms by linarith
  then show ?thesis
    using scan_params [of "params_bytes ps @ rest" "[]" ps rest "int (length (params_bytes ps))" 257 "- 1" "- 1"] assms
    by simp
qed

theorem removeZero_scan_params_witness:
  "removeZeroScan 257 [0x00, 0x03, 0x10, 0x01, 0x00, 0x01, 0x02, 0x00, 0x08] 9 0 (- 1) (- 1) = Inr (7, 2)"
proof -
  let ?ps = "[(0x00, [0x10, 0x01, 0x00]), (0x01, [0x00, 0x08])] :: subparam list"
  have "params_bytes ?ps = [0x00, 0x03, 0x10, 0x01, 0x00, 0x01, 0x02, 0x00, 0x08]" by code_simp
  moreover have "ud_position 0 ?ps (- 1, - 1) = (7, 2)" by code_simp
  ultimately show ?thesis using removeZero_scan_params [of ?ps "[]"] by simp
qed

section \<open>The bound of the WAP push copy\<close>

text \<open>Every round writes to the target array, whose end stops the run.\<close>

lemma wr_not_fuel [simp]: "wr xs i x \<noteq> Inl OutOfFuel"
  by (simp add: wr_def)

lemma ctWapCopy_fuel:
  assumes "0 \<le> pos" "pos \<le> int (length tgt)" "int (length tgt) - pos < int fuel" "length tgt \<le> 255"
  shows "ctWapCopy fuel v index endPos tgt pos \<noteq> Inl OutOfFuel"
  using assms
proof (induction fuel arbitrary: index tgt pos)
  case (Suc fuel)
  show ?case
  proof (cases "index < endPos \<and> pos < int (length tgt)")
    case True
    then have p: "c_ushort (pos + 1) = pos + 1" using Suc.prems by (simp add: c_ushort_mod)
    have IH: "ctWapCopy fuel v i endPos t (pos + 1) \<noteq> Inl OutOfFuel" if "length t = length tgt" for i t
      by (rule Suc.IH) (use that Suc.prems True in simp_all)
    show ?thesis using True p IH
      by (auto simp: bnd_eq_Inl wr_Inr_length)
  next
    case False
    then show ?thesis using Suc.prems by (auto simp: wr_def)
  qed
qed simp

text \<open>What a finished copy leaves: the position has not moved back.\<close>

lemma ctWapCopy_pos:
  assumes "0 \<le> pos" "pos \<le> int (length tgt)" "length tgt \<le> 255"
    "ctWapCopy fuel v index endPos tgt pos = Inr (tgt', i', pos')"
  shows "length tgt' = length tgt \<and> pos \<le> pos' \<and> pos' \<le> int (length tgt)"
  using assms
proof (induction fuel arbitrary: index tgt pos)
  case (Suc fuel)
  show ?case
  proof (cases "index < endPos")
    case True
    from Suc.prems(4) True obtain t1 a b t2 where t: "wr tgt pos 0 = Inr t1"
      "wr t1 pos (word_of_int (push_bit 5 a OR drop_bit 3 b)) = Inr t2"
      "ctWapCopy fuel v (c_uchar (index + 1)) endPos t2 (c_ushort (pos + 1)) = Inr (tgt', i', pos')"
      by (auto elim!: bndE)
    have l: "length t2 = length tgt" using t(1,2) by (auto dest!: wr_Inr_length)
    have "pos < int (length tgt)" using t(1) by (auto simp: wr_def split: if_splits)
    moreover from this have "c_ushort (pos + 1) = pos + 1" using Suc.prems by (simp add: c_ushort_mod)
    ultimately show ?thesis using Suc.IH [of "pos + 1" t2 "c_uchar (index + 1)"] Suc.prems t(3) l by simp
  next
    case False
    with Suc.prems show ?thesis by simp
  qed
qed simp

lemma block_not_fuel [simp]: "rd_block xs i n \<noteq> Inl OutOfFuel" "wr_block xs i ys \<noteq> Inl OutOfFuel"
  by (simp_all add: rd_block_def wr_block_def)

lemma ctWapLoop_fuel:
  assumes "0 \<le> pos" "pos \<le> int (length tgt)" "int (length tgt) - pos < int fuel" "length tgt \<le> 255"
  shows "ctWapLoop fuel v index tgt pos \<noteq> Inl OutOfFuel"
  using assms
proof (induction fuel arbitrary: index tgt pos)
  case (Suc fuel)
  show ?case
  proof
    assume A: "ctWapLoop (Suc fuel) v index tgt pos = Inl OutOfFuel"
    then obtain pid pl where i: "index < int (length v)" "rdi v index = Inr pid"
      "rdi v (c_uchar (index + 1)) = Inr pl"
      by (auto simp: bnd_eq_Inl Let_def split: if_splits)
    define i2 where "i2 = c_uchar (c_uchar (index + 1) + 1)"
    show False
    proof (cases "pid = SUBPARAM_USER_DATA")
      case True
      with A i obtain t1 where t1: "wr tgt pos (word_of_int pid) = Inr t1"
        by (auto simp: bnd_eq_Inl Let_def split: if_splits)
      then have p1: "pos < int (length tgt)" "length t1 = length tgt" by (auto simp: wr_def split: if_splits)
      then have c1: "c_ushort (pos + 1) = pos + 1" using Suc.prems by (simp add: c_ushort_mod)
      from A i True t1 obtain t2 where t2: "wr t1 (pos + 1) (word_of_int (pl - 8)) = Inr t2"
        by (auto simp: bnd_eq_Inl Let_def c1 split: if_splits)
      then have p2: "pos + 1 < int (length tgt)" "length t2 = length tgt" using p1 by (auto simp: wr_def split: if_splits)
      then have c2: "c_ushort (pos + 1 + 1) = pos + 2" using Suc.prems by (simp add: c_ushort_mod)
      then have c2': "c_ushort (2 + pos) = pos + 2" by (simp add: add.commute)
      define e where "e = c_ushort (i2 + pl)"
      have nf: "ctWapCopy 257 v (c_uchar (i2 + 8)) e t2 (pos + 2) \<noteq> Inl OutOfFuel"
        using Suc.prems p2 by (intro ctWapCopy_fuel) auto
      from A i True t1 t2 nf obtain t3 i3 p3 where t3: "ctWapCopy 257 v (c_uchar (i2 + 8)) e t2 (pos + 2) = Inr (t3, i3, p3)"
        "ctWapLoop fuel v i3 t3 p3 = Inl OutOfFuel"
        by (auto simp: bnd_eq_Inl Let_def c1 c2 c2' i2_def e_def simp del: ctWapCopy.simps split: if_splits)
      have "length t3 = length t2 \<and> pos + 2 \<le> p3 \<and> p3 \<le> int (length t2)"
        using Suc.prems p2 by (intro ctWapCopy_pos [OF _ _ _ t3(1)]) auto
      then show False using Suc.IH [of p3 t3 i3] Suc.prems p2 t3(2) by simp
    next
      case False
      with A i obtain blk t1 where t1: "rd_block v (i2 - 2) (pl + 2) = Inr blk" "wr_block tgt pos blk = Inr t1"
        "ctWapLoop fuel v (c_uchar (i2 + pl)) t1 (c_ushort (pos + (pl + 2))) = Inl OutOfFuel"
        by (auto simp: bnd_eq_Inl Let_def i2_def split: if_splits)
      have bl: "int (length blk) = pl + 2" using rd_block_Inr_length [OF t1(1)] .
      have "0 \<le> pl" using rdi_range [OF i(3)] by simp
      with bl have "blk \<noteq> []" by auto
      with t1(2) bl have p: "pos + (pl + 2) \<le> int (length tgt)" by (auto simp: wr_block_def split: if_splits)
      then have c: "c_ushort (pos + (pl + 2)) = pos + (pl + 2)" using Suc.prems \<open>0 \<le> pl\<close> by (simp add: c_ushort_mod)
      show False using Suc.IH [of "pos + (pl + 2)" t1 "c_uchar (i2 + pl)"] Suc.prems p c t1(3) \<open>0 \<le> pl\<close>
          wr_block_Inr_length [OF t1(2)] by simp
    qed
  qed
qed simp

text \<open>The copy for the WAP push of China Telecom never reaches its bounds on the array of
  255 octets it is given.\<close>

lemma specialProcessForCtWapPush_bound:
  "length tgt \<le> 255 \<Longrightarrow> specialProcessForCtWapPush v tgt \<noteq> Inl OutOfFuel"
  unfolding specialProcessForCtWapPush_def by (rule ctWapLoop_fuel) simp_all

end
