(* ===== verification/CdmaReplace.thy ===== *)
theory CdmaReplace
  imports CdmaConverter CdmaScan
begin

text \<open>
  What the converter's replacement of user data (\<open>RmcCdmaSmsConverter::replaceUserData\<close>,
  \<open>encodeUserData\<close>, \<open>replaceUserDataPayload\<close>) does to bearer data seen as a list of
  subparameters, and its composition with the decoder (\<open>getInboundSmsInfo\<close>).
\<close>

section \<open>The scan\<close>

lemma sp_reads:
  assumes "data = pre @ sp_bytes (p, b) @ rest" "length b < 256"
  shows "rdi data (int (length pre)) = Inr (uint p)" "rdi data (int (length pre) + 1) = Inr (int (length b))"
proof -
  show "rdi data (int (length pre)) = Inr (uint p)" using assms(1) by (simp add: sp_bytes_def)
  have "data = (pre @ [p]) @ word_of_nat (length b) # b @ rest" using assms(1) by (simp add: sp_bytes_def)
  then have "rdi data (int (length (pre @ [p]))) = Inr (uint (word_of_nat (length b) :: byte))"
    by (simp only: rdi_append_mid)
  then show "rdi data (int (length pre) + 1) = Inr (int (length b))"
    using assms(2) by (simp add: uint_byte_of_nat add.commute)
qed

lemma params_bytes_simps [simp]:
  "params_bytes [] = []"
  "params_bytes (sp # ps) = sp_bytes sp @ params_bytes ps"
  "params_bytes (ps @ qs) = params_bytes ps @ params_bytes qs"
  by (simp_all add: params_bytes_def)

lemma replaceScan_skip:
  assumes "data = pre @ params_bytes qs @ rest" "int (length pre + length (params_bytes qs)) \<le> len" "len \<le> 255"
    and "list_all (\<lambda>sp. fst sp \<noteq> 1) qs"
  shows "replaceScan data len (int (length pre)) len old
    = replaceScan data len (int (length pre + length (params_bytes qs))) len old"
  using assms
proof (induction qs arbitrary: pre)
  case (Cons sp qs)
  obtain p b where sp: "sp = (p, b)" by (cases sp)
  have d: "data = pre @ sp_bytes (p, b) @ (params_bytes qs @ rest)" using Cons.prems(1) sp by simp
  have lb: "length b < 256" using Cons.prems(2,3) by (simp add: sp)
  have "int (length pre) < len" using Cons.prems(2) by (simp add: sp)
  moreover have "uint p \<noteq> 1" using Cons.prems(4) by (auto simp: sp dest: uint_eqD)
  ultimately have "replaceScan data len (int (length pre)) len old
      = replaceScan data len (int (length pre) + 2 + int (length b)) len old"
    using sp_reads [OF d lb] by (subst replaceScan.simps) (simp add: SUBPARAM_USER_DATA_def)
  also have "int (length pre) + 2 + int (length b) = int (length (pre @ sp_bytes sp))" by (simp add: sp)
  also have "replaceScan data len (int (length (pre @ sp_bytes sp))) len old = replaceScan data len (int (length (pre @ sp_bytes sp) + length (params_bytes qs))) len old"
    using Cons.prems by (intro Cons.IH) (simp_all add: sp)
  finally show ?case by (simp add: add.assoc)
qed simp

lemma replaceScan_end: "\<not> i < len \<Longrightarrow> replaceScan data len i pos old = Inr (pos, old, - 1, - 1)"
  by (simp add: replaceScan.simps)

text \<open>The user data behind \<open>qs\<close>, with \<open>rs\<close> behind it.\<close>

lemma replaceScan_found:
  assumes data: "data = params_bytes (qs @ (1, b) # rs) @ rest" and len: "len = int (length (params_bytes (qs @ (1, b) # rs)))"
    and le: "len \<le> 255" and qs: "list_all (\<lambda>sp. fst sp \<noteq> 1) qs" and ne: "b \<noteq> [] \<or> rs \<noteq> []"
    and pos: "pos = int (length (params_bytes qs)) + 2"
  shows "replaceScan data len 0 len (- 1) = Inr (pos, int (length b),
    if rs = [] then - 1 else pos + int (length b) + 2, if rs = [] then - 1 else int (length (params_bytes rs)))"
proof -
  define n where "n = length (params_bytes qs)"
  have d: "data = params_bytes qs @ sp_bytes (1, b) @ (params_bytes rs @ rest)" using data by simp
  have L: "len = int n + 2 + int (length b) + int (length (params_bytes rs))" using len by (simp add: n_def)
  have lb: "length b < 256" using L le by linarith
  have "replaceScan data len 0 len (- 1) = replaceScan data len (int n) len (- 1)"
    using replaceScan_skip [of data "[]" qs _ len "- 1"] d L le qs by (simp add: n_def)
  also have "\<dots> = replaceScan data len (pos + int (length b)) pos (int (length b))"
  proof -
    have "int n < len" using L by linarith
    then show ?thesis using sp_reads [OF d lb] unfolding pos n_def [symmetric]
      by (subst replaceScan.simps) (simp add: SUBPARAM_USER_DATA_def)
  qed
  also have "\<dots> = Inr (pos, int (length b),
    if rs = [] then - 1 else pos + int (length b) + 2, if rs = [] then - 1 else int (length (params_bytes rs)))"
  proof (cases rs)
    case Nil
    then show ?thesis using L pos by (simp add: replaceScan_end n_def)
  next
    case (Cons r rs')
    obtain p c where r: "r = (p, c)" by (cases r)
    define pre where "pre = params_bytes qs @ sp_bytes (1, b)"
    have d2: "data = pre @ sp_bytes (p, c) @ (params_bytes rs' @ rest)" using d Cons r by (simp add: pre_def)
    have i: "int (length pre) = pos + int (length b)" by (simp add: pre_def pos)
    have lc: "length c < 256" using L le Cons r by simp
    have lt: "pos + int (length b) < len" "pos \<noteq> len" using L pos Cons r by (simp_all add: n_def)
    have "len - (pos + int (length b) + 2) + 2 = int (length (params_bytes rs))" using L pos by (simp add: n_def)
    then show ?thesis using sp_reads [OF d2 lc, unfolded i] lt Cons
      by (subst replaceScan.simps) simp
  qed
  finally show ?thesis .
qed

section \<open>Replacement on subparameters\<close>

fun replace_ud :: "byte list \<Rightarrow> subparam list \<Rightarrow> subparam list" where
  "replace_ud ud [] = [(1, ud)]"
| "replace_ud ud ((p, b) # ps) = (if p = 1 then (1, ud) # ps else (p, b) # replace_ud ud ps)"

text \<open>Empty user data at the very end is taken for none: its position is the length of the
  bearer data, the value that stands for not found.\<close>

definition ud_empty_last :: "subparam list \<Rightarrow> bool" where
  "ud_empty_last ps \<longleftrightarrow> dropWhile (\<lambda>sp. fst sp \<noteq> 1) ps = [(1, [])]"

lemma replace_ud_split:
  "list_all (\<lambda>sp. fst sp \<noteq> 1) qs \<Longrightarrow> replace_ud ud qs = qs @ [(1, ud)]"
  "list_all (\<lambda>sp. fst sp \<noteq> 1) qs \<Longrightarrow> replace_ud ud (qs @ (1, b) # rs) = qs @ (1, ud) # rs"
  by (induction qs) auto

lemma split_at_ud:
  fixes ps :: "subparam list"
  shows "list_all (\<lambda>sp. fst sp \<noteq> 1) ps
    \<or> (\<exists>qs b rs. ps = qs @ (1, b) # rs \<and> list_all (\<lambda>sp. fst sp \<noteq> 1) qs)"
proof (induction ps)
  case (Cons sp ps)
  obtain p b where sp: "sp = (p, b)" by (cases sp)
  show ?case
  proof (cases "p = 1")
    case True
    then have "sp # ps = [] @ (1, b) # ps \<and> list_all (\<lambda>sp. fst sp \<noteq> 1) ([] :: subparam list)" by (simp add: sp)
    then show ?thesis by blast
  next
    case False
    from Cons.IH show ?thesis
    proof
      assume "list_all (\<lambda>sp. fst sp \<noteq> 1) ps"
      with False show ?thesis by (simp add: sp)
    next
      assume "\<exists>qs b rs. ps = qs @ (1, b) # rs \<and> list_all (\<lambda>sp. fst sp \<noteq> 1) qs"
      then obtain qs c rs where q: "ps = qs @ (1, c) # rs" "list_all (\<lambda>sp. fst sp \<noteq> 1) qs" by blast
      then have "sp # ps = (sp # qs) @ (1, c) # rs" "list_all (\<lambda>sp. fst sp \<noteq> 1) (sp # qs)"
        using False by (simp_all add: sp)
      then show ?thesis by blast
    qed
  qed
qed simp

lemma wr_at: "i = int (length xs) \<Longrightarrow> wr (xs @ y # ys) i x = Inr (xs @ x # ys)"
  by (simp add: wr_def list_update_append)

lemma wr_block_at:
  "i = int (length xs) \<Longrightarrow> length zs \<le> length ys \<Longrightarrow> wr_block (xs @ ys) i zs = Inr (xs @ zs @ drop (length zs) ys)"
  by (auto simp: wr_block_def)

lemma list_length_ge2: "2 \<le> length xs \<Longrightarrow> \<exists>a b ys. xs = a # b # ys"
  by (cases xs; cases "tl xs") auto

lemma replaceUserData_append:
  assumes data: "aBearerData m = params_bytes ps @ rest" "length (aBearerData m) = 255"
    and len: "uBearerDataLen m = int (length (params_bytes ps))"
    and scan: "replaceScan (aBearerData m) (uBearerDataLen m) 0 (uBearerDataLen m) (- 1) = Inr (uBearerDataLen m, old, n, l)"
    and fit: "length (params_bytes (ps @ [(1, ud)])) \<le> 255"
  shows "\<exists>rest'. replaceUserData m ud = Inr (True, m\<lparr>aBearerData := params_bytes (ps @ [(1, ud)]) @ rest',
      uBearerDataLen := int (length (params_bytes (ps @ [(1, ud)])))\<rparr>)
    \<and> length (params_bytes (ps @ [(1, ud)]) @ rest') = 255"
proof -
  define D where "D = params_bytes ps"
  have fit': "length D + length ud + 2 \<le> 255" "length D + length rest = 255" using fit data by (simp_all add: D_def)
  then obtain a b ys where r: "rest = a # b # ys" "length ud \<le> length ys"
    using list_length_ge2 [of rest] by fastforce
  have w1: "wr (D @ a # b # ys) (int (length D)) 1 = Inr (D @ 1 # b # ys)" by (rule wr_at) simp
  have w2: "wr (D @ 1 # b # ys) (int (length D) + 1) x = Inr (D @ 1 # x # ys)" for x
    using wr_at [of _ "D @ [1]" b ys x] by (simp add: add.commute)
  have w3: "wr_block (D @ 1 # x # ys) (int (length D) + 2) ud = Inr (D @ 1 # x # ud @ drop (length ud) ys)" for x
    using wr_block_at [of _ "D @ [1, x]" ud ys] r(2) by (simp add: add.commute)
  have "replaceUserData m ud = Inr (True, m\<lparr>aBearerData := D @ 1 # word_of_nat (length ud) # ud @ drop (length ud) ys,
      uBearerDataLen := int (length D) + (int (length ud) + 2)\<rparr>)"
    using scan fit' unfolding replaceUserData_def Let_def
    by (simp add: len data(1) r(1) w1 w2 w3 RIL_CDMA_SMS_BEARER_DATA_MAX_def SUBPARAM_USER_DATA_def flip: D_def)
  moreover have "int (length D) + (int (length ud) + 2) = int (length (params_bytes (ps @ [(1, ud)])))"
    by (simp add: D_def)
  ultimately show ?thesis using fit' r
    by (intro exI [of _ "drop (length ud) ys"]) (simp add: D_def sp_bytes_def)
qed

lemma replaceUserData_in_place:
  assumes data: "aBearerData m = params_bytes (qs @ (1, b) # rs) @ rest" "length (aBearerData m) = 255"
    and len: "uBearerDataLen m = int (length (params_bytes (qs @ (1, b) # rs)))"
    and qs: "list_all (\<lambda>sp. fst sp \<noteq> 1) qs" and ne: "b \<noteq> [] \<or> rs \<noteq> []"
    and fit: "length (params_bytes (qs @ (1, ud) # rs)) \<le> 255"
  shows "\<exists>rest'. replaceUserData m ud = Inr (True, m\<lparr>aBearerData := params_bytes (qs @ (1, ud) # rs) @ rest',
      uBearerDataLen := int (length (params_bytes (qs @ (1, ud) # rs)))\<rparr>)
    \<and> length (params_bytes (qs @ (1, ud) # rs) @ rest') = 255"
proof -
  define Q R len pos where "Q = params_bytes qs" and "R = params_bytes rs" and "len = uBearerDataLen m"
    and "pos = int (length Q) + 2"
  have L: "len = int (length Q) + 2 + int (length b) + int (length R)" using len by (simp add: len_def Q_def R_def)
  have d: "aBearerData m = (Q @ [1, word_of_nat (length b)]) @ b @ R @ rest"
    using data(1) by (simp add: Q_def R_def sp_bytes_def)
  have tot: "length Q + 2 + length b + length R + length rest = 255" using data(2) d by simp
  have fit': "length Q + 2 + length ud + length R \<le> 255" using fit by (simp add: Q_def R_def)
  have le: "len \<le> 255" using L tot by linarith
  have ne_pos: "pos \<noteq> len"
  proof -
    have "0 < length b + length R" using ne by (cases rs) (auto simp: R_def)
    then show ?thesis unfolding pos_def using L by linarith
  qed
  note scan = replaceScan_found [OF data(1) len [folded len_def] le qs ne, of pos]
  define body where "body = b @ R @ rest"
  define mid after where "mid = take (length ud) body" and "after = drop (length ud) body"
  have body: "body = mid @ after" by (simp add: mid_def after_def)
  have lens: "length mid = length ud" "length R \<le> length after" "length after = length body - length ud"
    using fit' tot by (simp_all add: mid_def after_def body_def)
  define d1 where "d1 = (Q @ [1, word_of_nat (length b)]) @ mid @ R @ drop (length R) after"
  have move: "(if (if rs = [] then - 1 else pos + int (length b) + 2) \<noteq> - 1
      then bnd (rd_block (aBearerData m) ((if rs = [] then - 1 else pos + int (length b) + 2) - 2)
                  (if rs = [] then - 1 else int (length R))) (\<lambda>x. wr_block (aBearerData m) (pos + int (length ud)) x)
      else Inr (aBearerData m)) = Inr d1"
  proof (cases rs)
    case Nil
    then have "d1 = (Q @ [1, word_of_nat (length b)]) @ body" by (simp add: d1_def R_def body)
    with Nil show ?thesis by (simp add: d body_def R_def)
  next
    case (Cons r rs')
    have "rd_block (aBearerData m) (pos + int (length b)) (int (length R)) = Inr R"
      using rd_block_mid [of "Q @ [1, word_of_nat (length b)] @ b" R rest] by (simp add: d pos_def algebra_simps)
    moreover have "aBearerData m = ((Q @ [1, word_of_nat (length b)]) @ mid) @ after"
      using body by (simp add: d body_def)
    then have "wr_block (aBearerData m) (pos + int (length ud)) R = Inr d1"
      using wr_block_at [of "pos + int (length ud)" "(Q @ [1, word_of_nat (length b)]) @ mid" R after]
        lens by (simp add: d1_def pos_def)
    moreover have "pos + int (length b) + 2 \<noteq> - 1" by (simp add: pos_def)
    ultimately show ?thesis using Cons by simp
  qed
  have w1: "wr_block d1 pos ud = Inr ((Q @ [1, word_of_nat (length b)]) @ ud @ R @ drop (length R) after)"
    using wr_block_at [of pos "Q @ [1, word_of_nat (length b)]" ud "mid @ R @ drop (length R) after"]
      lens by (simp add: d1_def pos_def)
  have w2: "wr ((Q @ [1, word_of_nat (length b)]) @ ys) (pos - 1) x = Inr (Q @ 1 # x # ys)" for x ys
    using wr_at [of "pos - 1" "Q @ [1]" "word_of_nat (length b)" ys x] by (simp add: pos_def)
  have space: "\<not> int (length ud) - int (length b) > RIL_CDMA_SMS_BEARER_DATA_MAX - len"
    using fit' L by (simp add: RIL_CDMA_SMS_BEARER_DATA_MAX_def)
  have "replaceUserData m ud = Inr (True, m\<lparr>aBearerData := Q @ 1 # word_of_nat (length ud) # ud @ R @ drop (length R) after,
      uBearerDataLen := len + (int (length ud) - int (length b))\<rparr>)"
    unfolding replaceUserData_def Let_def len_def [symmetric] scan [unfolded Q_def [symmetric] R_def [symmetric], OF pos_def]
      bnd.simps prod.case if_not_P [OF ne_pos] if_not_P [OF space] move w1 w2 of_int_of_nat_eq ..
  moreover have "len + (int (length ud) - int (length b)) = int (length (params_bytes (qs @ (1, ud) # rs)))"
    using L by (simp add: Q_def R_def)
  moreover have "length (drop (length R) after) = 255 - (length Q + 2 + length ud + length R)"
    using tot fit' lens by (simp add: body_def)
  ultimately show ?thesis using fit'
    by (intro exI [of _ "drop (length R) after"]) (simp add: Q_def R_def sp_bytes_def)
qed

lemma replaceUserData_too_long:
  assumes scan: "replaceScan (aBearerData m) (uBearerDataLen m) 0 (uBearerDataLen m) (- 1) = Inr (pos, old, n, l)"
    and "if pos = uBearerDataLen m then RIL_CDMA_SMS_BEARER_DATA_MAX - uBearerDataLen m < int (length ud) + 2
         else int (length ud) - old > RIL_CDMA_SMS_BEARER_DATA_MAX - uBearerDataLen m"
  shows "replaceUserData m ud = Inr (False, m)"
  using assms by (simp add: replaceUserData_def Let_def split: if_splits)

text \<open>On bearer data that is a list of subparameters, \<open>replaceUserData\<close> replaces the
  first user data and moves what follows it, or appends user data where there was none, and
  refuses without a change exactly when the result would not fit the 255 octets. Empty user data
  at the very end is the exception (it is taken for none).\<close>
theorem replaceUserData_params:
  assumes data: "aBearerData m = params_bytes ps @ rest" "length (aBearerData m) = 255"
    and len: "uBearerDataLen m = int (length (params_bytes ps))" and ne: "\<not> ud_empty_last ps"
  shows "if length (params_bytes (replace_ud ud ps)) \<le> 255
    then \<exists>rest'. replaceUserData m ud = Inr (True, m\<lparr>aBearerData := params_bytes (replace_ud ud ps) @ rest',
        uBearerDataLen := int (length (params_bytes (replace_ud ud ps)))\<rparr>)
      \<and> length (params_bytes (replace_ud ud ps) @ rest') = 255
    else replaceUserData m ud = Inr (False, m)"
proof -
  have le: "uBearerDataLen m \<le> 255" using data len by simp
  show ?thesis
    using split_at_ud [of ps]
  proof
    assume no: "list_all (\<lambda>sp. fst sp \<noteq> 1) ps"
    have scan: "replaceScan (aBearerData m) (uBearerDataLen m) 0 (uBearerDataLen m) (- 1) = Inr (uBearerDataLen m, - 1, - 1, - 1)"
      using replaceScan_skip [of "aBearerData m" "[]" ps rest "uBearerDataLen m" "- 1"] data len le no
      by (simp add: replaceScan_end)
    show ?thesis
      using replaceUserData_append [OF data len scan, of ud] replaceUserData_too_long [OF scan, of ud] len
      by (auto simp: replace_ud_split(1) [OF no] RIL_CDMA_SMS_BEARER_DATA_MAX_def)
  next
    assume "\<exists>qs b rs. ps = qs @ (1, b) # rs \<and> list_all (\<lambda>sp. fst sp \<noteq> 1) qs"
    then obtain qs b rs where ps: "ps = qs @ (1, b) # rs" and no: "list_all (\<lambda>sp. fst sp \<noteq> 1) qs" by blast
    have "dropWhile (\<lambda>sp. fst sp \<noteq> 1) ps = (1, b) # rs" using no by (auto simp: ps dropWhile_append list_all_iff)
    then have nb: "b \<noteq> [] \<or> rs \<noteq> []" using ne by (auto simp: ud_empty_last_def)
    note scan = replaceScan_found [OF data(1) [unfolded ps] len [unfolded ps] le no nb refl]
    have ltl: "int (length (params_bytes qs)) + 2 \<noteq> uBearerDataLen m"
      using nb len by (cases rs) (auto simp: ps)
    show ?thesis
      using replaceUserData_in_place [OF data(1) [unfolded ps] data(2) len [unfolded ps] no nb, of ud]
        replaceUserData_too_long [OF scan, of ud] len ltl
      by (auto simp: ps replace_ud_split(2) [OF no] RIL_CDMA_SMS_BEARER_DATA_MAX_def)
  qed
qed

theorem replaceUserData_params_witness:
  "\<exists>rest'. replaceUserData (zeroMessage\<lparr>aBearerData := [0x01, 0x01, 0xAA, 0x0A, 0x01, 0x40] @ replicate 249 0, uBearerDataLen := 6\<rparr>)
      [0xBB, 0xCC]
    = Inr (True, zeroMessage\<lparr>aBearerData := [0x01, 0x02, 0xBB, 0xCC, 0x0A, 0x01, 0x40] @ rest', uBearerDataLen := 7\<rparr>)"
proof -
  let ?m = "zeroMessage\<lparr>aBearerData := [0x01, 0x01, 0xAA, 0x0A, 0x01, 0x40] @ replicate 249 0, uBearerDataLen := 6\<rparr>"
  let ?ps = "[(0x01, [0xAA]), (0x0A, [0x40])] :: subparam list"
  have p: "params_bytes ?ps = [0x01, 0x01, 0xAA, 0x0A, 0x01, 0x40]" by (simp add: sp_bytes_def)
  have p': "params_bytes [(0x01, [0xBB, 0xCC]), (0x0A, [0x40])] = [0x01, 0x02, 0xBB, 0xCC, 0x0A, 0x01, 0x40]" by (simp add: sp_bytes_def)
  have "\<not> ud_empty_last ?ps" by (simp add: ud_empty_last_def)
  then show ?thesis
    using replaceUserData_params [of ?m ?ps "replicate 249 0" "[0xBB, 0xCC]"] by (auto simp add: p p' simp del: params_bytes_simps)
qed

section \<open>Encoding user data\<close>

definition ud_data_bits :: "byte list \<Rightarrow> int \<Rightarrow> int \<Rightarrow> nat" where
  "ud_data_bits payload enc nf =
     (if enc = ENCODING_7BIT_ASCII \<or> enc = ENCODING_GSM_7BIT_ALPHABET then nat nf * 7 else length payload * 8)"

definition ud_bits :: "byte list \<Rightarrow> int \<Rightarrow> int \<Rightarrow> int \<Rightarrow> bool list" where
  "ud_bits payload enc ty nf = msb_bits 5 enc @ (if with_msg_type enc then msb_bits 8 ty else [])
     @ msb_bits 8 nf @ take (ud_data_bits payload enc nf) (bits_of payload)"

definition ud_octets :: "byte list \<Rightarrow> int \<Rightarrow> int \<Rightarrow> nat" where
  "ud_octets payload enc nf = (ud_data_bits payload enc nf + (if with_msg_type enc then 21 else 13) + 7) div 8"

lemma sdiv_nonneg: "0 \<le> x \<Longrightarrow> x sdiv 8 = x div (8 :: int)" "0 \<le> x \<Longrightarrow> x smod 8 = x mod (8 :: int)"
  by (cases "x = 0"; simp add: signed_divide_int_def signed_modulo_int_def)+

lemma encodeUserData_ok:
  assumes nf: "0 \<le> nf" and len: "ud_data_bits payload enc nf \<le> 8 * length payload"
    and room: "ud_octets payload enc nf \<le> 253"
  shows "\<exists>out. encodeUserData [] payload enc ty nf = Inr out \<and> length out = ud_octets payload enc nf
    \<and> bits_of out = ud_bits payload enc ty nf @ replicate (8 * length out - length (ud_bits payload enc ty nf)) False"
proof -
  define D w L N where "D = ud_data_bits payload enc nf" and "w = with_msg_type enc"
    and "L = D + (if w then 21 else 13)" and "N = (L + 7) div 8"
  have DL: "D \<le> 8 * length payload" "N = ud_octets payload enc nf" "N \<le> 253"
    using len room by (simp_all add: D_def N_def L_def w_def ud_octets_def)
  have Lb: "length (ud_bits payload enc ty nf) = L"
    using DL(1) by (simp add: ud_bits_def L_def D_def w_def)
  have NL: "L \<le> 8 * N" "8 * N \<le> L + 7" unfolding N_def by presburger+
  define s0 where "s0 = newBitwiseOutputStream (RIL_CDMA_SMS_USER_DATA_MAX * 8)"
  have s0: "bw_ok s0" "bw_out s0 = []" "bw_room s0 = 14655" by (simp_all add: s0_def RIL_CDMA_SMS_USER_DATA_MAX_def)
  from bwWrite_ok [OF s0(1), of 5 enc] s0 obtain s1 where s1: "bwWrite s0 5 enc = Inr s1" "bw_ok s1"
    "bw_out s1 = msb_bits 5 enc" "bw_room s1 = 14650" by auto
  have "\<exists>s2. (if w then bwWrite s1 8 ty else Inr s1) = Inr s2 \<and> bw_ok s2
      \<and> bw_out s2 = bw_out s1 @ (if w then msb_bits 8 ty else []) \<and> 14642 \<le> bw_room s2"
    using bwWrite_ok [OF s1(2), of 8 ty] s1 by (cases w) auto
  then obtain s2 where s2: "(if w then bwWrite s1 8 ty else Inr s1) = Inr s2" "bw_ok s2"
    "bw_out s2 = bw_out s1 @ (if w then msb_bits 8 ty else [])" "14642 \<le> bw_room s2" by blast
  from bwWrite_ok [OF s2(2), of 8 nf] s2 obtain s3 where s3: "bwWrite s2 8 nf = Inr s3" "bw_ok s3"
    "bw_out s3 = bw_out s2 @ msb_bits 8 nf" "bw_room s3 = bw_room s2 - 8" by auto
  have r3: "int D \<le> bw_room s3" using NL DL(3) s3(4) s2(4) by (simp add: L_def split: if_splits)
  from bwWriteByteArray_ok [OF s3(2) _ _ r3, of payload] DL(1) obtain s4 where
    s4: "bwWriteByteArray s3 (int D) payload = Inr s4" "bw_ok s4"
      "bw_out s4 = bw_out s3 @ take D (bits_of payload)" "bw_room s4 = bw_room s3 - int D" by auto
  have o4: "bw_out s4 = ud_bits payload enc ty nf"
    by (simp add: s4(3) s3(3) s2(3) s1(3) ud_bits_def D_def w_def)
  define pad where "pad = 8 * N - L"
  have pad: "pad \<le> 7" "int N * 8 - int L = int pad" using NL by (simp_all add: pad_def)
  have r4: "int pad \<le> bw_room s4" using pad(1) NL DL(3) s4(4) s3(4) s2(4) by (simp add: L_def split: if_splits)
  have "\<exists>s5. (if int pad > 0 then bwWrite s4 (int pad) 0 else Inr s4) = Inr s5 \<and> bw_ok s5
      \<and> bw_out s5 = ud_bits payload enc ty nf @ replicate pad False"
  proof (cases "pad = 0")
    case False
    with bwWrite_ok [OF s4(2) _ _ r4, of 0] pad(1) show ?thesis by (auto simp: o4 msb_bits_zero)
  qed (use s4(2) o4 in simp)
  then obtain s5 where s5: "(if int pad > 0 then bwWrite s4 (int pad) 0 else Inr s4) = Inr s5" "bw_ok s5"
    "bw_out s5 = ud_bits payload enc ty nf @ replicate pad False" by blast
  have l5: "length (bw_out s5) = 8 * N" using NL by (simp add: s5(3) Lb pad_def)
  have bl: "bwGetByteLen s5 = int N" unfolding bwGetByteLen_eq bw_pos_out [OF s5(2)] l5 by simp
  from finished_buffer [OF s5(2) l5] obtain out where out: "rd_block (os_buf s5) 0 (int N) = Inr out"
    "length out = N" "bits_of out = bw_out s5" by blast
  have db: "(if enc = ENCODING_7BIT_ASCII \<or> enc = ENCODING_GSM_7BIT_ALPHABET then nf * 7 else int (length payload) * 8) = int D"
    using nf by (simp add: D_def ud_data_bits_def)
  have wt: "(enc = ENCODING_IS91_EXTENDED_PROTOCOL \<or> enc = ENCODING_GSM_DCS) = w" by (simp add: w_def with_msg_type_def)
  have pb: "int D + 13 + (if w then 8 else 0) = int L" by (simp add: L_def)
  have pbytes: "int L sdiv 8 + (if int L smod 8 > 0 then 1 else 0) = int N"
    using ceil8 [of "int L"] by (auto simp: sdiv_nonneg N_def zdiv_int split: if_splits)
  have "encodeUserData [] payload enc ty nf = Inr ([] @ out)"
    unfolding encodeUserData_def Let_def s0_def [symmetric] db wt pb pbytes pad(2) s1(1) bnd.simps s2(1) s3(1) s4(1) s5(1) bl out(1) ..
  then show ?thesis using out s5(3) Lb DL(2) by (auto simp: pad_def)
qed

section \<open>Replacing and reading back\<close>

definition mi_step :: "subparam \<Rightarrow> MessageIdentifer \<Rightarrow> MessageIdentifer" where
  "mi_step sp mi = (if fst sp = 0 \<and> 3 \<le> length (snd sp) then mi_of_bits (bits_of (snd sp)) else mi)"

definition ud_step :: "subparam \<Rightarrow> UserData \<Rightarrow> UserData" where
  "ud_step sp ud = (if fst sp = 1 then ud_of_bits (bits_of (snd sp)) ud else ud)"

lemma fold_sp_apply:
  "m_msgIdentifier (fold sp_apply ps bd) = fold mi_step ps (m_msgIdentifier bd)"
  "m_UserData (fold sp_apply ps bd) = fold ud_step ps (m_UserData bd)"
  by (induction ps arbitrary: bd) (auto simp: sp_apply_def mi_step_def ud_step_def)

lemma fold_ud_step_other: "list_all (\<lambda>sp. fst sp \<noteq> 1) ps \<Longrightarrow> fold ud_step ps ud = ud"
  by (induction ps arbitrary: ud) (auto simp: ud_step_def)

lemma getInboundSmsInfo_params:
  assumes "aBearerData m = params_bytes ps @ rest" "uBearerDataLen m = int (length (params_bytes ps))"
    and "list_all sp_ok ps"
  shows "getInboundSmsInfo m = Inr
    \<lparr> ii_isStatusReport = (messageType (fold mi_step ps newMessageIdentifer) = MESSAGE_TYPE_DELIVERY_ACK),
      ii_messageId = messageId (fold mi_step ps newMessageIdentifer),
      ii_msgEncoding = msgEncoding (fold ud_step ps newUserData),
      ii_numFields = numFields (fold ud_step ps newUserData),
      ii_hasUserDataHeader = hasUserDataHeader (fold mi_step ps newMessageIdentifer),
      ii_userDataPayload = userDataPayload (fold ud_step ps newUserData) \<rparr>"
proof -
  define bd where "bd = \<lparr> m_tag = BEARER_DATA, m_length = int (length (params_bytes ps)), m_error = 0,
    m_value = params_bytes ps, m_needStatusReport = False,
    m_msgIdentifier = newMessageIdentifer, m_UserData = newUserData \<rparr>"
  have "rd_block (params_bytes ps @ rest) 0 (int (length (params_bytes ps))) = Inr (params_bytes ps)"
    using rd_block_mid [of "[]" "params_bytes ps" rest] by simp
  then have "newBearerData (aBearerData m) (uBearerDataLen m) False = Inr (bd, aBearerData m)"
    by (simp add: newBearerData_def assms(1,2) bd_def)
  moreover have "decodeLoop bd (bearerStream bd) = Inr (fold sp_apply ps bd)"
    by (rule decodeLoop_ok) (simp_all add: bearerStream_def bd_def assms(3))
  ultimately show ?thesis
    by (simp add: getInboundSmsInfo_def decode_def bdIsStatusReport_def fold_sp_apply bd_def)
qed

lemma ud_of_encoded:
  assumes "0 \<le> enc" "enc < 32" "0 \<le> nf" "nf < 256" and B: "bs = ud_bits payload enc ty nf @ pad"
  shows "ud_head bs = (if with_msg_type enc then 21 else 13)"
    and "msgEncoding (ud_of_bits bs ud) = enc" and "numFields (ud_of_bits bs ud) = nf"
    and "userDataPayload (ud_of_bits bs ud)
      = userDataPayload ud @ octets_of (take (ud_data_bits payload enc nf) (bits_of payload) @ pad)"
proof -
  have e: "bits_val (take 5 bs) = enc" using assms(1,2) by (simp add: B ud_bits_def take_bit_int_eq_self)
  show h: "ud_head bs = (if with_msg_type enc then 21 else 13)" by (simp add: ud_head_def e)
  have n: "bits_val (take 8 (drop (ud_head bs - 8) bs)) = nf"
    using assms(3,4) by (simp add: h) (simp add: B ud_bits_def take_bit_int_eq_self)
  have d: "drop (ud_head bs) bs = take (ud_data_bits payload enc nf) (bits_of payload) @ pad"
    by (simp add: h) (simp add: B ud_bits_def)
  show "msgEncoding (ud_of_bits bs ud) = enc" "numFields (ud_of_bits bs ud) = nf"
    "userDataPayload (ud_of_bits bs ud)
      = userDataPayload ud @ octets_of (take (ud_data_bits payload enc nf) (bits_of payload) @ pad)"
    by (simp_all add: ud_of_bits_def Let_def e n d)
qed

text \<open>C25. Replacing the user data of a message and reading it back: the decoder finds the new
  encoding, number of fields and payload bits (padded to octets), while message type, identifier
  and header flag are those of the message before.\<close>
theorem replace_then_read:
  assumes data: "aBearerData m = params_bytes (qs @ (1, b) # rs) @ rest" "length (aBearerData m) = 255"
    and len: "uBearerDataLen m = int (length (params_bytes (qs @ (1, b) # rs)))"
    and ps: "list_all sp_ok (qs @ (1, b) # rs)" "list_all (\<lambda>sp. fst sp \<noteq> 1) (qs @ rs)"
    and enc: "0 \<le> enc" "enc < 32" and nf: "0 \<le> nf" "nf < 256"
    and payload: "ud_data_bits payload enc nf \<le> 8 * length payload"
    and fit: "length (params_bytes (qs @ rs)) + 2 + ud_octets payload enc nf \<le> 255"
  shows "\<exists>m' info. replaceUserDataPayload m payload enc ty nf = Inr (True, m')
    \<and> getInboundSmsInfo m = Inr info
    \<and> getInboundSmsInfo m' = Inr (info\<lparr>ii_msgEncoding := enc, ii_numFields := nf,
        ii_userDataPayload := octets_of (take (ud_data_bits payload enc nf) (bits_of payload)
          @ replicate (8 * ud_octets payload enc nf - length (ud_bits payload enc ty nf)) False)\<rparr>)"
proof -
  let ?ps = "qs @ (1, b) # rs"
  have "ud_octets payload enc nf \<le> 253" using fit by simp
  from encodeUserData_ok [OF nf(1) payload this, of ty] obtain out where
    out: "encodeUserData [] payload enc ty nf = Inr out" "length out = ud_octets payload enc nf"
    "bits_of out = ud_bits payload enc ty nf @ replicate (8 * ud_octets payload enc nf - length (ud_bits payload enc ty nf)) False"
    by auto
  note rd = ud_of_encoded [OF enc nf out(3)]
  have ge: "ud_head (bits_of out) \<le> 8 * length out" "2 \<le> length out"
    by (simp_all add: rd(1) out(2) ud_octets_def less_eq_div_iff_mult_less_eq)
  have nud: "list_all (\<lambda>sp. fst sp \<noteq> 1) qs" "list_all (\<lambda>sp. fst sp \<noteq> 1) rs" using ps(2) by simp_all
  have fit': "length (params_bytes (qs @ (1, out) # rs)) \<le> 255" using fit out(2) by simp
  have lo: "length out < 256" using fit' by simp
  have "b \<noteq> []" using ps(1) by (auto simp: sp_ok_def)
  then have nb: "b \<noteq> [] \<or> rs \<noteq> []" by simp
  from replaceUserData_in_place [OF data len nud(1) nb fit'] obtain rest' where
    r: "replaceUserData m out = Inr (True, m\<lparr>aBearerData := params_bytes (qs @ (1, out) # rs) @ rest',
        uBearerDataLen := int (length (params_bytes (qs @ (1, out) # rs)))\<rparr>)" by blast
  let ?m' = "m\<lparr>aBearerData := params_bytes (qs @ (1, out) # rs) @ rest',
        uBearerDataLen := int (length (params_bytes (qs @ (1, out) # rs)))\<rparr>"
  have ok': "list_all sp_ok (qs @ (1, out) # rs)" using ps(1) ge lo by (simp add: sp_ok_def)
  have mi: "fold mi_step (qs @ (1, x) # rs) mi = fold mi_step (qs @ rs) mi" for x mi by (simp add: mi_step_def)
  have ud: "fold ud_step (qs @ (1, out) # rs) newUserData = ud_of_bits (bits_of out) newUserData"
    using nud by (simp add: fold_ud_step_other ud_step_def)
  have A: "replaceUserDataPayload m payload enc ty nf = Inr (True, ?m')"
    by (simp add: replaceUserDataPayload_def out(1) r)
  note I = getInboundSmsInfo_params [OF data(1) len ps(1), unfolded mi]
  have I': "getInboundSmsInfo ?m' = Inr
    \<lparr> ii_isStatusReport = (messageType (fold mi_step (qs @ rs) newMessageIdentifer) = MESSAGE_TYPE_DELIVERY_ACK),
      ii_messageId = messageId (fold mi_step (qs @ rs) newMessageIdentifer),
      ii_msgEncoding = enc, ii_numFields = nf,
      ii_hasUserDataHeader = hasUserDataHeader (fold mi_step (qs @ rs) newMessageIdentifer),
      ii_userDataPayload = octets_of (take (ud_data_bits payload enc nf) (bits_of payload)
          @ replicate (8 * ud_octets payload enc nf - length (ud_bits payload enc ty nf)) False) \<rparr>"
    using getInboundSmsInfo_params [of ?m' "qs @ (1, out) # rs" rest', OF _ _ ok', unfolded mi ud rd(2-4)]
    by (simp add: newUserData_def)
  show ?thesis
    by (rule exI [of _ ?m'], rule exI, rule conjI [OF A], rule conjI [OF I], subst I') simp
qed

theorem replace_then_read_witness:
  "\<exists>m' info. replaceUserDataPayload
       (zeroMessage\<lparr>aBearerData := [0x01, 0x02, 0x00, 0x00, 0x0A, 0x01, 0x40] @ replicate 248 0, uBearerDataLen := 7\<rparr>)
       [0x41, 0x42] ENCODING_OCTET 0 2 = Inr (True, m')
    \<and> getInboundSmsInfo (zeroMessage\<lparr>aBearerData := [0x01, 0x02, 0x00, 0x00, 0x0A, 0x01, 0x40] @ replicate 248 0,
        uBearerDataLen := 7\<rparr>) = Inr info
    \<and> getInboundSmsInfo m' = Inr (info\<lparr>ii_msgEncoding := 0, ii_numFields := 2, ii_userDataPayload := [0x41, 0x42, 0x00]\<rparr>)"
proof -
  let ?m = "zeroMessage\<lparr>aBearerData := [0x01, 0x02, 0x00, 0x00, 0x0A, 0x01, 0x40] @ replicate 248 0, uBearerDataLen := 7\<rparr>"
  let ?rs = "[(0x0A, [0x40])] :: subparam list"
  have p: "params_bytes ([] @ (1, [0x00, 0x00]) # ?rs) = [0x01, 0x02, 0x00, 0x00, 0x0A, 0x01, 0x40]" by code_simp
  have n: "ud_data_bits [0x41, 0x42] 0 2 = 16" "ud_octets [0x41, 0x42] 0 2 = 4"
    "length (ud_bits [0x41, 0x42] 0 0 2) = 29" by code_simp+
  have o: "octets_of (take 16 (bits_of [0x41, 0x42 :: byte]) @ replicate (8 * 4 - 29) False) = [0x41, 0x42, 0x00]"
    by code_simp
  have "list_all sp_ok ([] @ (1, [0x00, 0x00]) # ?rs)" by code_simp
  then show ?thesis
    using replace_then_read [of ?m "[]" "[0x00, 0x00]" ?rs "replicate 248 0" 0 2 "[0x41, 0x42]" 0]
    unfolding p n o by (simp add: ENCODING_OCTET_def)
qed

end
