(* ===== verification/CdmaRoundTrip.thy ===== *)
theory CdmaRoundTrip
  imports CdmaConverter
begin

text \<open>
  The two directions of \<open>RmcCdmaSmsConverter\<close> together: the PDU that \<open>toHexPdu\<close> prints for an
  outgoing message is read by \<open>toMessage\<close> parameter by parameter.
\<close>

section \<open>One printed parameter\<close>

definition hexNode :: "RmcTlvNode \<Rightarrow> string" where
  "hexNode nd = toHexHeader nd @ toHexBody nd"

lemma digit_char_hex_plain:
  "d < 16 \<Longrightarrow> \<not> c_isspace (digit_char d) \<and> digit_char d \<notin> {CHR ''-'', CHR ''+''}"
  by (auto simp: c_isspace_def digit_char_def Let_def dest: arg_cong [of _ _ "of_char :: char \<Rightarrow> nat"])

lemma c_strtol_hex2: "c_strtol 16 (hex2 b) = Some (uint b)"
proof -
  define h l where "h = unat b div 16" and "l = unat b mod 16"
  have "int (unat b) < 256" using uint_byte_lt [of b] by (simp only: uint_nat)
  then have "unat b < 256" by linarith
  then have h: "h < 16" "l < 16" by (simp_all add: h_def l_def less_mult_imp_div_less)
  have "16 * h + l = unat b" by (simp add: h_def l_def)
  then have v: "int h * 16 + int l = uint b" by (metis mult.commute of_nat_add of_nat_mult of_nat_numeral uint_nat)
  have "strto_parse 16 [digit_char h, digit_char l] = Some (False, int h * 16 + int l)"
    using h digit_char_hex_plain [of h] digit_char_hex_plain [of l]
    by (simp add: strto_parse_def strip_0x_def digits_val_def)
  moreover have "clamp_long (uint b) = uint b" 
  proof -
    have "(256 :: int) \<le> 2 ^ 63 - 1" by simp
    then have "min (2 ^ 63 - 1) (uint b) = uint b" using uint_byte_range [of b] by (intro min_absorb2) linarith
    moreover have "(- (2 ^ 63) :: int) \<le> uint b" by (rule order_trans [of _ 0]) simp_all
    then have "max (- (2 ^ 63)) (uint b) = uint b" by (rule max_absorb2)
    ultimately show ?thesis by (simp only: clamp_long_def)
  qed
  ultimately show ?thesis by (simp add: c_strtol_def hex2_def v flip: h_def l_def)
qed

lemma hexNode_split:
  assumes "node_wf nd"
  shows "hexNode nd = hex2 (word_of_int (m_tag nd)) @ hex2 (word_of_int (m_length nd)) @ toHexBody nd"
    and "length (hexNode nd) = nat (m_length nd * 2 + 4)" "6 \<le> length (hexNode nd)" "even (length (hexNode nd))"
proof -
  show s: "hexNode nd = hex2 (word_of_int (m_tag nd)) @ hex2 (word_of_int (m_length nd)) @ toHexBody nd"
    using assms by (simp add: hexNode_def toHexHeader_def fmt_02x_octet node_wf_def)
  have h: "length (hex2 b) = 2" for b by (simp add: hex2_def)
  have "length (toHexBody nd) = 2 * length (m_value nd)"
    unfolding toHexBody_def by (induction "m_value nd" arbitrary: nd) (simp_all add: length_concat h sum_list_triv o_def)
  then show "length (hexNode nd) = nat (m_length nd * 2 + 4)" "6 \<le> length (hexNode nd)" "even (length (hexNode nd))"
    using assms by (auto simp: s h node_wf_def nat_add_distrib Suc_le_eq)
qed

lemma node_located:
  assumes wf: "node_wf nd" and src: "src = c_buffer (xs @ hexNode nd @ ys)"
  shows "take 2 (drop (length xs) src) = hex2 (word_of_int (m_tag nd))"
    and "paramLen src (length xs) = m_length nd * 2 + 4"
    and "nodeFromHex src (length xs) (m_length nd * 2 + 4) = Inr nd"
proof -
  have h: "length (hex2 b) = 2" for b by (simp add: hex2_def)
  have s: "src = xs @ hex2 (word_of_int (m_tag nd)) @ hex2 (word_of_int (m_length nd)) @ toHexBody nd @ ys @ [NUL]"
    using src by (simp add: hexNode_split(1) [OF wf] c_buffer_def)
  show "take 2 (drop (length xs) src) = hex2 (word_of_int (m_tag nd))" by (simp add: s h)
  have l: "uint (word_of_int (m_length nd) :: byte) = m_length nd"
    using wf by (simp add: node_wf_def uint_byte_of_nat)
  have r: "0 \<le> m_length nd" "m_length nd < 256" using wf by (simp_all add: node_wf_def)
  have "take 2 (drop (length xs + 2) src) = hex2 (word_of_int (m_length nd))" by (simp add: s h)
  then show "paramLen src (length xs) = m_length nd * 2 + 4"
    using r by (simp add: paramLen_def c_strtol_hex2 l c_int_id)
  show "nodeFromHex src (length xs) (m_length nd * 2 + 4) = Inr nd"
    by (rule nodeFromHex_hex [OF wf]) (simp add: src c_buffer_def hexNode_def)
qed

text \<open>One round of the loop of \<open>toMessage\<close> at a printed parameter.\<close>

lemma toMessageLoop_node:
  assumes wf: "node_wf nd" and src: "src = c_buffer (xs @ hexNode nd @ ys)" and sz: "sz = length (xs @ hexNode nd @ ys)"
    and p: "toMessageParam src (length xs) (m_length nd * 2 + 4) st = Inr (Some st')"
  shows "toMessageLoop src sz (length xs) st = toMessageLoop src sz (length (xs @ hexNode nd)) st'"
proof -
  have "length xs + 4 < sz" using hexNode_split(3) [OF wf] sz by simp
  then show ?thesis
    using p hexNode_split(2) [OF wf] node_located(2) [OF wf src]
    by (subst toMessageLoop.simps) simp
qed

section \<open>The parameters of an outgoing message\<close>

lemma hex2_tags: "hex2 (word_of_int 0) = ''00''" "hex2 (word_of_int DEST_ADDRESS) = ''04''"
  "hex2 (word_of_int 6) = ''06''" "hex2 (word_of_int BEARER_DATA) = ''08''"
  by code_simp+

lemma teleservice_value: "twoOctets (newTeleServiceId tid) = Inr (tid AND 0xFFFF)"
proof -
  have f: "(0xFFFF :: int) = mask 16" "(0xFF :: int) = mask 8" by (simp_all add: mask_eq_exp_minus_1)
  have "push_bit 8 (uint (word_of_int (drop_bit 8 (tid AND 0xFFFF)) :: byte)) OR uint (word_of_int (tid AND 0xFF) :: byte)
      = tid AND 0xFFFF"
    unfolding f
    by (rule bit_eqI) (auto simp: bit_or_iff bit_push_bit_iff bit_uint_iff bit_word_of_int_iff bit_drop_bit_eq bit_and_iff bit_mask_iff)
  then show ?thesis by (simp add: twoOctets_def newTeleServiceId_def newRmcTlvNode_def rdi_def rd_def)
qed

lemma param_teleservice:
  assumes src: "src = c_buffer (xs @ hexNode (newTeleServiceId tid) @ ys)" and ct: "tid AND 0xFFFF \<noteq> CT_WAP_PUSH_TID"
  shows "toMessageParam src (length xs) (m_length (newTeleServiceId tid) * 2 + 4) st
    = Inr (Some (upd_msg (\<lambda>m. m\<lparr>uTeleserviceID := tid AND 0xFFFF\<rparr>) (st\<lparr>tm_isCtWapPush := False\<rparr>)))"
    and "node_wf (newTeleServiceId tid)"
proof -
  show wf: "node_wf (newTeleServiceId tid)"
    by (simp add: node_wf_def newTeleServiceId_def newRmcTlvNode_def TELESERVICE_ID_def TELESERVICE_ID_LEN_def)
  have n: "m_tag (newTeleServiceId tid) = 0" "m_error (newTeleServiceId tid) = 0"
    by (simp_all add: newTeleServiceId_def newRmcTlvNode_def TELESERVICE_ID_def)
  show "toMessageParam src (length xs) (m_length (newTeleServiceId tid) * 2 + 4) st
    = Inr (Some (upd_msg (\<lambda>m. m\<lparr>uTeleserviceID := tid AND 0xFFFF\<rparr>) (st\<lparr>tm_isCtWapPush := False\<rparr>)))"
    unfolding toMessageParam_def node_located(1) [OF wf src] n(1) hex2_tags Let_def teleServiceIdFromHex_def node_located(3) [OF wf src]
    using ct by (simp add: n checkTag_def TELESERVICE_ID_def isCtWapPush_def getTeleServiceId_def teleservice_value)
qed

lemma param_dest_address:
  assumes wf: "node_wf nd" and src: "src = c_buffer (xs @ hexNode nd @ ys)" and t: "m_tag nd = DEST_ADDRESS"
  shows "toMessageParam src (length xs) (m_length nd * 2 + 4) st = Inr (Some st)"
  unfolding toMessageParam_def node_located(1) [OF wf src] t hex2_tags Let_def addressFromHex_def node_located(3) [OF wf src]
  by (simp add: checkTag_def)

lemma param_reply_opt:
  assumes src: "src = c_buffer (xs @ hexNode newBearerReplyOpt @ ys)"
  shows "toMessageParam src (length xs) (m_length newBearerReplyOpt * 2 + 4) st = Inr (Some (st\<lparr>tm_replySeqNo := 0\<rparr>))"
    and "node_wf newBearerReplyOpt"
proof -
  show wf: "node_wf newBearerReplyOpt"
    by (simp add: node_wf_def newBearerReplyOpt_def newRmcTlvNode_def BEARER_REPLY_OPT_def BEARER_REPLY_OPT_LEN_def)
  have n: "m_tag newBearerReplyOpt = 6" "m_error newBearerReplyOpt = 0" "m_value newBearerReplyOpt = [0]"
    by (simp_all add: newBearerReplyOpt_def newRmcTlvNode_def BEARER_REPLY_OPT_def)
  show "toMessageParam src (length xs) (m_length newBearerReplyOpt * 2 + 4) st = Inr (Some (st\<lparr>tm_replySeqNo := 0\<rparr>))"
    unfolding toMessageParam_def node_located(1) [OF wf src] n(1) hex2_tags Let_def bearerReplyOptFromHex_def node_located(3) [OF wf src]
    by (simp add: n checkTag_def BEARER_REPLY_OPT_def getReplySeq_def rdi_def rd_def)
qed

lemma param_bearer:
  assumes wf: "node_wf nd" and src: "src = c_buffer (xs @ hexNode nd @ ys)" and t: "m_tag nd = BEARER_DATA"
    and st: "\<not> tm_isCtWapPush st" "length (aBearerData (tm_message st)) = 255"
  shows "toMessageParam src (length xs) (m_length nd * 2 + 4) st = Inr (Some (upd_msg (\<lambda>m. m
    \<lparr>aBearerData := m_value nd @ drop (length (m_value nd)) (aBearerData (tm_message st)),
     uBearerDataLen := m_length nd\<rparr>) st))"
proof -
  have w: "wr_block (aBearerData (tm_message st)) 0 (m_value nd)
      = Inr (m_value nd @ drop (length (m_value nd)) (aBearerData (tm_message st)))"
    using wf st(2) by (auto simp: wr_block_def node_wf_def)
  have e: "m_error nd = 0" using wf by (simp add: node_wf_def)
  show ?thesis
    unfolding toMessageParam_def node_located(1) [OF wf src] t hex2_tags Let_def bearerDataFromHex_def node_located(3) [OF wf src]
    using st(1) w by (simp add: checkTag_def t getBearerData_def e)
qed

section \<open>The whole PDU\<close>

lemma msgToHexBody_params: "msgToHexBody msg = concat (map hexNode (params msg))"
  by (simp add: msgToHexBody_def flip: hexNode_def)

lemma toMessage_never_true: "toMessage m n pdu \<noteq> Inr (True, m', n')"
  by (auto simp: toMessage_def bnd_eq_Inr)

text \<open>C26. A point-to-point message that passes the length checks and whose bearer data
  \<open>removeZero\<close> leaves with \<open>len\<close> octets is printed, and reading the PDU back stores the
  teleservice identifier modulo 2^16, these octets of bearer data and, when the reply option was
  asked for, sequence number 0. Nothing else is stored: the address of an outgoing message has the tag of a destination,
  which is read but not kept. The read succeeds and yet \<open>toMessage\<close> returns false, although
  \<open>RmcCdmaSmsConverter.h\<close> documents true for a successful conversion; it returns true for no PDU at all.\<close>
theorem p2p_pdu_read_back:
  assumes addr: "addr_shape (sAddress m)" "number_of_digits (sAddress m) \<le> 36"
    and sub: "sub_number_of_digits (sSubAddress m) \<le> 36" and bl: "0 < uBearerDataLen m" "uBearerDataLen m \<le> 255"
    and rz: "removeZero (aBearerData m) (uBearerDataLen m) = Inr (data, len)"
    and len: "0 < len" "len \<le> 255" "len \<le> int (length data)"
    and ct: "uTeleserviceID m AND 0xFFFF \<noteq> CT_WAP_PUSH_TID"
  shows "\<exists>pdu. toHexPduP2p m opt = Inr (True, pdu, addr_number (sAddress m), m\<lparr>aBearerData := data\<rparr>)
    \<and> toMessage m0 n0 pdu = Inr (False, zeroMessage\<lparr>uTeleserviceID := uTeleserviceID m AND 0xFFFF,
        aBearerData := take (nat len) data @ replicate (255 - nat len) 0, uBearerDataLen := len\<rparr>,
        if opt then 0 else - 1)
    \<and> (\<forall>m1 n1 pdu1 m2 n2. toMessage m1 n1 pdu1 \<noteq> Inr (True, m2, n2))"
proof -
  from newCdmaSmsAddress_wf [OF addr, of True] obtain na where
    na: "newCdmaSmsAddress (sAddress m) True = Inr (na, addr_number (sAddress m))" "node_wf na" "m_tag na = DEST_ADDRESS"
    by auto
  define nt where "nt = newTeleServiceId (uTeleserviceID m)"
  define nb where "nb = \<lparr> m_tag = BEARER_DATA, m_length = len, m_error = 0, m_value = take (nat len) data \<rparr>"
  have nb: "node_wf nb" "m_tag nb = BEARER_DATA" using len by (auto simp: nb_def node_wf_def BEARER_DATA_def)
  have rb: "rd_block data 0 len = Inr (take (nat len) data)" using len by (simp add: rd_block_def)
  have us: "c_ushort (uBearerDataLen m) = uBearerDataLen m" using bl by (simp add: c_ushort_mod)
  define os where "os = (if opt then hexNode newBearerReplyOpt else [])"
  define pdu where "pdu = ''00'' @ hexNode nt @ hexNode na @ os @ hexNode nb"
  have z: "fmt_02x 0 = ''00''" by code_simp
  have "toHexPduP2p m opt = Inr (True, pdu, addr_number (sAddress m), m\<lparr>aBearerData := data\<rparr>)"
    using addr(2) sub bl
    by (simp add: toHexPduP2p_def Let_def RIL_CDMA_SMS_ADDRESS_MAX_def RIL_CDMA_SMS_SUBADDRESS_MAX_def
        RIL_CDMA_SMS_BEARER_DATA_MAX_def na(1) newBearerData_def us rz rb addParam_def newCdmaSmsMessage_def
        msgToHexHeader_def msgToHexBody_params MESSAGE_TYPE_P2P_def z pdu_def os_def RmcTlvNode.truncate_def
        flip: nt_def nb_def)
  moreover have "toMessage m0 n0 pdu = Inr (False, zeroMessage\<lparr>uTeleserviceID := uTeleserviceID m AND 0xFFFF,
        aBearerData := take (nat len) data @ replicate (255 - nat len) 0, uBearerDataLen := len\<rparr>,
        if opt then 0 else - 1)"
  proof -
    define src sz where "src = c_buffer pdu" and "sz = length pdu"
    define s0 where "s0 = \<lparr> tm_message = zeroMessage, tm_replySeqNo = - 1, tm_isCtWapPush = False \<rparr>"
    define s1 where "s1 = upd_msg (\<lambda>m'. m'\<lparr>uTeleserviceID := uTeleserviceID m AND 0xFFFF\<rparr>) (s0\<lparr>tm_isCtWapPush := False\<rparr>)"
    define s2 where "s2 = (if opt then s1\<lparr>tm_replySeqNo := 0\<rparr> else s1)"
    define s3 where "s3 = upd_msg (\<lambda>m'. m'\<lparr>aBearerData := m_value nb @ drop (length (m_value nb)) (aBearerData (tm_message s2)),
      uBearerDataLen := m_length nb\<rparr>) s2"
    have e1: "src = c_buffer (''00'' @ hexNode nt @ (hexNode na @ os @ hexNode nb))" "sz = length (''00'' @ hexNode nt @ (hexNode na @ os @ hexNode nb))"
      and e2: "src = c_buffer ((''00'' @ hexNode nt) @ hexNode na @ (os @ hexNode nb))" "sz = length ((''00'' @ hexNode nt) @ hexNode na @ (os @ hexNode nb))"
      and e4: "src = c_buffer ((''00'' @ hexNode nt @ hexNode na @ os) @ hexNode nb @ [])" "sz = length ((''00'' @ hexNode nt @ hexNode na @ os) @ hexNode nb @ [])"
      by (simp_all add: src_def sz_def pdu_def)
    note t = param_teleservice [OF e1(1) [unfolded nt_def] ct]
    have "toMessageLoop src sz 2 s0 = toMessageLoop src sz (length (''00'' @ hexNode nt)) s1"
      using toMessageLoop_node [OF t(2) e1 [unfolded nt_def] t(1), of s0] by (simp add: s1_def nt_def numeral_2_eq_2)
    also have "\<dots> = toMessageLoop src sz (length ((''00'' @ hexNode nt) @ hexNode na)) s1"
      by (rule toMessageLoop_node [OF na(2) e2 param_dest_address [OF na(2) e2(1) na(3)]])
    also have "\<dots> = toMessageLoop src sz (length (''00'' @ hexNode nt @ hexNode na @ os)) s2"
    proof (cases opt)
      case True
      then have o: "os = hexNode newBearerReplyOpt" by (simp add: os_def)
      have e3: "src = c_buffer ((''00'' @ hexNode nt @ hexNode na) @ hexNode newBearerReplyOpt @ hexNode nb)"
        "sz = length ((''00'' @ hexNode nt @ hexNode na) @ hexNode newBearerReplyOpt @ hexNode nb)"
        by (simp_all add: src_def sz_def pdu_def o)
      show ?thesis
        using toMessageLoop_node [OF param_reply_opt(2) [OF e3(1)] e3 param_reply_opt(1) [OF e3(1)], of s1] True
        by (simp add: s2_def o)
    qed (simp add: s2_def os_def)
    also have "\<dots> = toMessageLoop src sz (length ((''00'' @ hexNode nt @ hexNode na @ os) @ hexNode nb)) s3"
    proof (rule toMessageLoop_node [OF nb(1) e4])
      show "toMessageParam src (length (''00'' @ hexNode nt @ hexNode na @ os)) (m_length nb * 2 + 4) s2 = Inr (Some s3)"
        unfolding s3_def
        by (rule param_bearer [OF nb(1) e4(1) nb(2)]) (simp_all add: s2_def s1_def s0_def zeroMessage_def)
    qed
    also have "\<dots> = Inr s3" by (subst toMessageLoop.simps) (simp add: sz_def pdu_def)
    finally have "toMessageLoop src sz 2 s0 = Inr s3" .
    moreover have "even (length pdu)"
      using hexNode_split(4) [OF t(2)] hexNode_split(4) [OF na(2)] hexNode_split(4) [OF nb(1)]
        hexNode_split(4) [OF param_reply_opt(2) [OF refl]]
      by (simp add: pdu_def nt_def os_def)
    moreover have "messageFromHex pdu 2 = Inr \<lparr> m_type = MESSAGE_TYPE_P2P, msg_error = 0, params = [] \<rparr>"
      by (simp add: messageFromHex_def pdu_def)
    moreover have "drop (length (m_value nb)) (aBearerData (tm_message s2)) = replicate (255 - nat len) 0"
      using len by (simp add: s2_def s1_def s0_def zeroMessage_def nb_def)
    moreover have "tm_message s3 = zeroMessage\<lparr>uTeleserviceID := uTeleserviceID m AND 0xFFFF,
        aBearerData := take (nat len) data @ drop (length (m_value nb)) (aBearerData (tm_message s2)), uBearerDataLen := len\<rparr>"
      "tm_replySeqNo s3 = (if opt then 0 else - 1)"
      by (simp_all add: s3_def s2_def s1_def s0_def nb_def)
    moreover have "2 \<le> length pdu" by (simp add: pdu_def)
    ultimately show ?thesis
      unfolding toMessage_def src_def [symmetric] sz_def [symmetric] s0_def [symmetric] by (simp add: sz_def)
  qed
  ultimately show ?thesis using toMessage_never_true by blast
qed

theorem p2p_pdu_read_back_witness:
  "\<exists>pdu. toMessage zeroMessage 7 pdu = Inr (False, zeroMessage\<lparr>uTeleserviceID := 4098,
      aBearerData := [0x00, 0x03, 0x10, 0x01, 0x00] @ replicate 250 0, uBearerDataLen := 5\<rparr>, 0)"
proof -
  let ?d = "[0x00, 0x03, 0x10, 0x01, 0x00] @ replicate 250 0 :: byte list"
  let ?m = "zeroMessage\<lparr>uTeleserviceID := 4098, aBearerData := ?d, uBearerDataLen := 5\<rparr>"
  have rz: "removeZero (aBearerData ?m) (uBearerDataLen ?m) = Inr (?d, 5)" by code_simp
  have "addr_shape (sAddress ?m)" by (simp add: addr_shape_def zeroMessage_def)
  moreover have "uTeleserviceID ?m AND 0xFFFF = 4098" by simp
  ultimately show ?thesis
    using p2p_pdu_read_back [of ?m ?d 5 True zeroMessage 7] rz
    by (auto simp: zeroMessage_def CT_WAP_PUSH_TID_def)
qed

end
