(* ===== verification/RtpPacket.thy ===== *)
theory RtpPacket
  imports RilPrelude "HOL-Library.Signed_Division"
begin

text \<open>
  The RTP packets of the video telephony stack, \<open>rtp/src/RTPSender.cpp\<close>: the packet under
  construction with the fields of its meta message, the sender object, the RTP header
  (\<open>addRTPFixHeader\<close>), the one-byte header extension that carries the orientation of the
  video (\<open>addRTPExtHeader\<close>) and the queue of packets to send (\<open>queueRTPPacket\<close>).

  \<^item> An \<open>ABuffer\<close> under construction is the list of the octets between its \<open>data()\<close> and
    \<open>data() + size()\<close> with its capacity: writing octets at \<open>data() + size()\<close> and extending
    the range is \<open>put\<close>, which faults outside the capacity.
  \<^item> The named fields of its \<open>AMessage\<close> are record fields.
  \<^item> The bit rate adaptation (\<open>TxAdaptationInfo\<close>, in a binary library) only receives
    figures from these functions; it is not part of the model.
\<close>

section \<open>Numbers in network byte order\<close>

text \<open>\<open>w >> 24\<close>, \<open>(w >> 16) & 0xff\<close>, \<dots> as the header code writes them.\<close>

definition be16 :: "32 word \<Rightarrow> byte list" where
  "be16 w = [ucast (drop_bit 8 w AND 0xFF), ucast (w AND 0xFF)]"

definition be32 :: "32 word \<Rightarrow> byte list" where
  "be32 w = [ucast (drop_bit 24 w), ucast (drop_bit 16 w AND 0xFF), ucast (drop_bit 8 w AND 0xFF),
             ucast (w AND 0xFF)]"

text \<open>\<open>u16at\<close> and \<open>u32at\<close> of \<open>RTPReceiver.cpp\<close>.\<close>

definition u16at :: "byte list \<Rightarrow> int \<Rightarrow> 32 word res" where
  "u16at d i = bnd (rd d i) (\<lambda>a. bnd (rd d (i + 1)) (\<lambda>b. Inr (push_bit 8 (ucast a) OR ucast b)))"

definition u32at :: "byte list \<Rightarrow> int \<Rightarrow> 32 word res" where
  "u32at d i = bnd (u16at d i) (\<lambda>h. bnd (u16at d (i + 2)) (\<lambda>l. Inr (push_bit 16 h OR l)))"

section \<open>Packets and the sender\<close>

record out_packet =
  op_bytes :: "byte list"
  op_capacity :: int
  op_int32Data :: "32 word"
  op_timeUs :: int
  op_ccw_rotation :: int
  op_camera_facing :: int
  op_flip :: int
  op_rtpOffet :: int
  op_payload_size :: int
  op_frame_start :: bool
  op_frame_boundary :: bool
  op_token :: "int option"

text \<open>The meta data of an access unit, as \<open>findInt32\<close> with the defaults of the code reads it.\<close>

record access_unit =
  au_timeUs :: int
  au_ccw_rotation :: int
  au_camera_facing :: int
  au_flip :: int
  au_token :: "int option"

datatype mime_type = IMSMA_RTP_VIDEO_H264 | IMSMA_RTP_VIDEO_HEVC | OTHER_MIME
datatype packetize = IMSMA_SINGLE_NAL_MODE | IMSMA_NON_INTERLEAVED_MODE | OTHER_MODE

definition imsma_rtp_MTU_size :: int where "imsma_rtp_MTU_size = 1200"

text \<open>
  \<open>looper\<close> holds the generations of the messages \<open>kWhatSendRTPPacket\<close> that wait in the
  looper of the handler, \<open>wire\<close> the packets the socket has taken.
\<close>

record RTPSender =
  mMTUSize :: int
  media_is_video :: bool
  mime_Type :: mime_type
  packetize_mode :: packetize
  sample_rate :: int
  rtp_payload_type :: byte
  m_extmap_CVO_supported :: byte
  m_extmap_CVO_id :: byte
  mOperatorID :: "32 word"
  mRTPSeqNo :: "32 word"
  mSSRC :: "32 word"
  mSendRTPEventPending :: bool
  mStarted :: bool
  mRTPGeneration :: int
  mAccuReceived :: "32 word"
  mRTPPacketQueue :: "out_packet list"
  looper :: "int list"
  wire :: "out_packet list"

definition newRTPSender :: "32 word \<Rightarrow> 32 word \<Rightarrow> RTPSender" where
  "newRTPSender ssrc operatorID =
     \<lparr> mMTUSize = imsma_rtp_MTU_size, media_is_video = False, mime_Type = OTHER_MIME,
       packetize_mode = OTHER_MODE, sample_rate = 0, rtp_payload_type = 0,
       m_extmap_CVO_supported = 0, m_extmap_CVO_id = 0, mOperatorID = operatorID,
       mRTPSeqNo = 0, mSSRC = ssrc, mSendRTPEventPending = False, mStarted = False,
       mRTPGeneration = 0, mAccuReceived = 0, mRTPPacketQueue = [], looper = [], wire = [] \<rparr>"

definition put :: "byte list \<Rightarrow> out_packet \<Rightarrow> out_packet res" where
  "put xs p =
     bnd (chk (int (length (op_bytes p)) + int (length xs) \<le> op_capacity p) OutOfBounds) (\<lambda>_.
     Inr (p\<lparr>op_bytes := op_bytes p @ xs\<rparr>))"

text \<open>A new buffer, cleared and empty, with the meta data of its access unit.\<close>

definition newPacket :: "int \<Rightarrow> access_unit \<Rightarrow> out_packet" where
  "newPacket capacity accu =
     \<lparr> op_bytes = [], op_capacity = capacity, op_int32Data = 0, op_timeUs = au_timeUs accu,
       op_ccw_rotation = au_ccw_rotation accu, op_camera_facing = au_camera_facing accu,
       op_flip = au_flip accu, op_rtpOffet = 0, op_payload_size = 0, op_frame_start = False,
       op_frame_boundary = False, op_token = None \<rparr>"

section \<open>The RTP header\<close>

definition rtpTimeOf :: "RTPSender \<Rightarrow> int \<Rightarrow> 32 word" where
  "rtpTimeOf s timeUs = word_of_int (c_long (timeUs * sample_rate s) sdiv 1000000)"

definition addRTPFixHeader :: "RTPSender \<Rightarrow> out_packet \<Rightarrow> (RTPSender \<times> out_packet) res" where
  "addRTPFixHeader s p =
     (let rtpTime = rtpTimeOf s (op_timeUs p);
          p = p\<lparr>op_int32Data := mRTPSeqNo s, op_rtpOffet := int (length (op_bytes p))\<rparr>;
          b1 = (if op_frame_boundary p then rtp_payload_type s OR 0x80 else rtp_payload_type s) in
      bnd (put ([0x80, b1] @ be16 (mRTPSeqNo s) @ be32 rtpTime @ be32 (mSSRC s)) p) (\<lambda>p.
      Inr (s\<lparr>mRTPSeqNo := mRTPSeqNo s + 1\<rparr>, p)))"

definition cvoElement :: "RTPSender \<Rightarrow> out_packet \<Rightarrow> byte" where
  "cvoElement s p =
     (let camera_facing = (if mOperatorID s = 18 then 0 else op_camera_facing p);
          cvo = word_of_int (push_bit 3 camera_facing OR push_bit 2 (op_flip p)) :: byte;
          r = op_ccw_rotation p;
          cvo = (if r = 0 then cvo OR 0x00 else if r = 90 then cvo OR 0x01
                 else if r = 180 then cvo OR 0x02 else if r = 270 then cvo OR 0x03 else cvo) in
      cvo AND 0x0F)"

definition addRTPExtHeader :: "RTPSender \<Rightarrow> out_packet \<Rightarrow> out_packet res" where
  "addRTPExtHeader s p =
     (let ext_len = (if m_extmap_CVO_supported s > 0 then 4 + 2 else 0 :: int) in
      if ext_len = 0 then Inr p
      else
        let padded = (ext_len + 3) AND 0xFFFC; words = (padded - 4) div 4 in
        bnd (rd (op_bytes p) (op_rtpOffet p)) (\<lambda>b0.
        bnd (wr (op_bytes p) (op_rtpOffet p) (b0 OR 0x10)) (\<lambda>bytes.
        put ([0xBE, 0xDE, word_of_int (drop_bit 8 words AND 0xFF), word_of_int (words AND 0xFF),
              push_bit 4 (m_extmap_CVO_id s), cvoElement s p] @ replicate (nat (padded - ext_len)) 0)
            (p\<lparr>op_bytes := bytes\<rparr>))))"

text \<open>The lines that create the next RTP packet, repeated in every packetization function.\<close>

definition createPacket :: "int \<Rightarrow> access_unit \<Rightarrow> RTPSender \<Rightarrow> (RTPSender \<times> out_packet) res" where
  "createPacket capacity accu s =
     bnd (addRTPFixHeader s (newPacket capacity accu)) (\<lambda>(s, p).
     bnd (addRTPExtHeader s p) (\<lambda>p. Inr (s, p)))"

text \<open>
  The lines before \<open>queueRTPPacket\<close>: the range is moved to the RTP header, and the first and
  the last packet of the frame are marked.
\<close>

definition finishPacket :: "access_unit \<Rightarrow> int \<Rightarrow> bool \<Rightarrow> int \<Rightarrow> out_packet \<Rightarrow> out_packet" where
  "finishPacket accu packetCount isLast payload p =
     (let p = p\<lparr>op_bytes := drop (nat (op_rtpOffet p)) (op_bytes p), op_payload_size := payload\<rparr>;
          p = (if packetCount = 1
               then p\<lparr>op_frame_start := True, op_token := (case au_token accu of None \<Rightarrow> op_token p | t \<Rightarrow> t)\<rparr>
               else p) in
      if isLast
      then p\<lparr>op_frame_boundary := True, op_token := (case au_token accu of None \<Rightarrow> op_token p | t \<Rightarrow> t)\<rparr>
      else p)"

definition sndQueueRTPPacket :: "RTPSender \<Rightarrow> out_packet \<Rightarrow> RTPSender res" where
  "sndQueueRTPPacket s p =
     (if op_frame_boundary p then
        bnd (rd (op_bytes p) 1) (\<lambda>b.
        bnd (wr (op_bytes p) 1 (b OR 0x80)) (\<lambda>bytes.
        Inr (s\<lparr>mRTPPacketQueue := mRTPPacketQueue s @ [p\<lparr>op_bytes := bytes\<rparr>]\<rparr>)))
      else Inr (s\<lparr>mRTPPacketQueue := mRTPPacketQueue s @ [p]\<rparr>))"

end
