(* ===== verification/RtpSender.thy ===== *)
theory RtpSender
  imports RtpPacket
begin

text \<open>
  Packetization and sending, \<open>rtp/src/RTPSender.cpp\<close>: the NAL units of an access unit become
  RTP packets with one unit each (\<open>queueSingleNALUnitPacket\<close>) or aggregation and
  fragmentation packets (\<open>queueFUorSTAPPacket\<close>, \<open>queueFragmentNALUnitPacket\<close> and their
  twins for HEVC); \<open>onQueueAccessUnit\<close>, \<open>onStart\<close>, \<open>onStop\<close>, \<open>postSendRTPMessage\<close> and the
  handler of \<open>kWhatSendRTPPacket\<close> move them to the socket.

  \<^item> \<open>getNextNALUnit\<close> is a function of libstagefright. Its results for an access unit are an
    argument: the list of the NAL units it yields, each with the number of octets that are
    left after it.
  \<^item> The functions for AVC and HEVC are the same text up to the sizes and the contents of the
    headers; the differences are the record \<open>nal_format\<close>, and each function of the code is
    the common definition at its format.
  \<^item> The results of \<open>writeSock\<close> are a function of the number of the call.
\<close>

section \<open>The formats of AVC and HEVC\<close>

text \<open>
  \<open>nf_header\<close> octets of a NAL unit are its header. A fragment starts with the octets
  \<open>nf_prefix nal S E\<close>, made of the header of the unit and the flags for the first and the last
  fragment.
\<close>

record nal_format =
  nf_header :: int
  nf_stap :: "byte list"
  nf_prefixLen :: int
  nf_prefix :: "byte list \<Rightarrow> bool \<Rightarrow> bool \<Rightarrow> byte list res"

definition fuFlags :: "byte \<Rightarrow> bool \<Rightarrow> bool \<Rightarrow> byte" where
  "fuFlags t S E =
     (let t = (if S then t OR 0x80 else t) in if E then t OR 0x40 else t)"

definition fuPrefix :: "byte list \<Rightarrow> bool \<Rightarrow> bool \<Rightarrow> byte list res" where
  "fuPrefix nal S E =
     bnd (rd nal 0) (\<lambda>n0.
     let nalType = n0 AND 0x1f; nri = drop_bit 5 n0 AND 3 in
     Inr [push_bit 5 nri OR 28, fuFlags nalType S E])"

definition fuPrefix_HEVC :: "byte list \<Rightarrow> bool \<Rightarrow> bool \<Rightarrow> byte list res" where
  "fuPrefix_HEVC nal S E =
     bnd (rd nal 0) (\<lambda>n0. bnd (rd nal 1) (\<lambda>n1.
     let nalType = drop_bit 1 (n0 AND 0x7E) in
     Inr [(n0 AND 0x81) OR push_bit 1 49, n1, fuFlags nalType S E]))"

definition avcFormat :: nal_format where
  "avcFormat = \<lparr> nf_header = 1, nf_stap = [24], nf_prefixLen = 2, nf_prefix = fuPrefix \<rparr>"

definition hevcFormat :: nal_format where
  "hevcFormat = \<lparr> nf_header = 2, nf_stap = [push_bit 1 48, 1], nf_prefixLen = 3, nf_prefix = fuPrefix_HEVC \<rparr>"

section \<open>Fragmentation\<close>

text \<open>
  The loop over a NAL unit that does not fit into a packet. The given packet, when there is one,
  takes the first fragment. Each round takes at least one octet of the unit when there is room
  for one, so as many rounds as the unit has octets are enough; the bound is the first argument.
\<close>

fun fuLoop :: "nat \<Rightarrow> nal_format \<Rightarrow> access_unit \<Rightarrow> int \<Rightarrow> byte list \<Rightarrow> int \<Rightarrow> out_packet option \<Rightarrow> int \<Rightarrow>
    RTPSender \<Rightarrow> (RTPSender \<times> int) res" where
  "fuLoop n f accu remain nal srcOffset out packetCount s =
     (if srcOffset \<ge> int (length nal) then Inr (s, packetCount)
      else (case n of 0 \<Rightarrow> Inl OutOfFuel | Suc n \<Rightarrow>
        bnd (case out of None \<Rightarrow> createPacket (mMTUSize s) accu s | Some p \<Rightarrow> Inr (s, p)) (\<lambda>(s, p).
        let room = take_bit 64 (op_capacity p - int (length (op_bytes p)) - nf_prefixLen f);
            copy = min room (int (length nal) - srcOffset);
            isEndFU = (srcOffset + copy = int (length nal)) in
        bnd (nf_prefix f nal (srcOffset = nf_header f) isEndFU) (\<lambda>dst.
        bnd (rd_block nal srcOffset copy) (\<lambda>d.
        bnd (put (dst @ d) p) (\<lambda>p.
        bnd (sndQueueRTPPacket s (finishPacket accu packetCount (remain \<le> 0 \<and> isEndFU) copy p)) (\<lambda>s.
        fuLoop n f accu remain nal (srcOffset + copy) None (packetCount + 1) s)))))))"

declare fuLoop.simps [simp del]

definition fragmentNAL :: "nal_format \<Rightarrow> access_unit \<Rightarrow> int \<Rightarrow> byte list \<Rightarrow> out_packet option \<Rightarrow> int \<Rightarrow>
    RTPSender \<Rightarrow> (RTPSender \<times> int) res" where
  "fragmentNAL f accu remain nal out packetCount s =
     fuLoop (length nal) f accu remain nal (nf_header f) out packetCount s"

definition queueFragmentNALUnitPacket where
  "queueFragmentNALUnitPacket = fragmentNAL avcFormat"

definition queueFragmentNALUnitPacket_HEVC where
  "queueFragmentNALUnitPacket_HEVC = fragmentNAL hevcFormat"

section \<open>Aggregation\<close>

text \<open>The variables of the loop over the NAL units of an access unit.\<close>

record pack_state =
  ps_sender :: RTPSender
  ps_out :: "out_packet option"
  ps_isFirstNAL :: bool
  ps_payload :: int
  ps_packetCount :: int

definition ensureOut :: "access_unit \<Rightarrow> pack_state \<Rightarrow> (out_packet \<times> pack_state) res" where
  "ensureOut accu st =
     (case ps_out st of
        Some p \<Rightarrow> Inr (p, st)
      | None \<Rightarrow>
          bnd (createPacket (mMTUSize (ps_sender st)) accu (ps_sender st)) (\<lambda>(s, p).
          Inr (p, st\<lparr>ps_sender := s, ps_out := Some p, ps_payload := 0\<rparr>)))"

text \<open>The packet is complete: it is queued and there is no current packet.\<close>

definition emitPacket :: "access_unit \<Rightarrow> bool \<Rightarrow> out_packet \<Rightarrow> pack_state \<Rightarrow> pack_state res" where
  "emitPacket accu isLast p st =
     bnd (sndQueueRTPPacket (ps_sender st)
            (finishPacket accu (ps_packetCount st) isLast (ps_payload st) p)) (\<lambda>s.
     Inr (st\<lparr>ps_sender := s, ps_packetCount := ps_packetCount st + 1, ps_isFirstNAL := True,
             ps_out := None\<rparr>))"

text \<open>The second half of the loop: the unit goes into the aggregation packet or is fragmented.\<close>

definition stapOrFragment :: "nal_format \<Rightarrow> access_unit \<Rightarrow> byte list \<Rightarrow> int \<Rightarrow> pack_state \<Rightarrow> pack_state res" where
  "stapOrFragment f accu nal left st =
     bnd (ensureOut accu st) (\<lambda>(p, st).
     let nalSize = int (length nal);
         bytesNeeded = nalSize + 2 + (if ps_isFirstNAL st then int (length (nf_stap f)) else 0) in
     if int (length (op_bytes p)) + bytesNeeded \<le> op_capacity p then
       bnd (put ((if ps_isFirstNAL st then nf_stap f else []) @
                 [word_of_int (drop_bit 8 nalSize AND 0xff), word_of_int (nalSize AND 0xff)] @ nal) p) (\<lambda>p.
       Inr (st\<lparr>ps_out := Some p, ps_isFirstNAL := False, ps_payload := ps_payload st + nalSize\<rparr>))
     else
       bnd (fragmentNAL f accu left nal (Some p) (ps_packetCount st) (ps_sender st)) (\<lambda>(s, n).
       Inr (st\<lparr>ps_sender := s, ps_packetCount := n, ps_out := (if nf_header f < nalSize then None else Some p)\<rparr>)))"

definition packNAL :: "nal_format \<Rightarrow> access_unit \<Rightarrow> byte list \<times> int \<Rightarrow> pack_state \<Rightarrow> pack_state res" where
  "packNAL f accu = (\<lambda>(nal, left) st.
     bnd (ensureOut accu st) (\<lambda>(p, st).
     let nalSize = int (length nal); used = int (length (op_bytes p)) in
     if used + (nalSize + 2) > op_capacity p then
       if ps_isFirstNAL st \<and> used + nalSize \<le> op_capacity p then
         bnd (put nal p) (\<lambda>p.
         emitPacket accu (left \<le> 0) p (st\<lparr>ps_payload := ps_payload st + nalSize\<rparr>))
       else if \<not> ps_isFirstNAL st then
         bnd (emitPacket accu False p st) (stapOrFragment f accu nal left)
       else stapOrFragment f accu nal left st
     else stapOrFragment f accu nal left st))"

fun packLoop :: "nal_format \<Rightarrow> access_unit \<Rightarrow> (byte list \<times> int) list \<Rightarrow> pack_state \<Rightarrow> pack_state res" where
  "packLoop f accu [] st = Inr st"
| "packLoop f accu (x # xs) st = bnd (packNAL f accu x st) (packLoop f accu xs)"

text \<open>\<open>endLeft\<close> is the number of octets left after the call that finds no further unit.\<close>

definition aggregateNALs :: "nal_format \<Rightarrow> access_unit \<Rightarrow> (byte list \<times> int) list \<Rightarrow> int \<Rightarrow> RTPSender \<Rightarrow> RTPSender res" where
  "aggregateNALs f accu nals endLeft s =
     bnd (packLoop f accu nals
            \<lparr> ps_sender = s, ps_out = None, ps_isFirstNAL = True, ps_payload = 0, ps_packetCount = 1 \<rparr>) (\<lambda>st.
     case ps_out st of
       None \<Rightarrow> Inr (ps_sender st)
     | Some p \<Rightarrow>
         sndQueueRTPPacket (ps_sender st)
           (finishPacket accu (ps_packetCount st) (endLeft \<le> 0) (ps_payload st) p))"

definition queueFUorSTAPPacket where
  "queueFUorSTAPPacket = aggregateNALs avcFormat"

definition queueFUorSTAPPacket_HEVC where
  "queueFUorSTAPPacket_HEVC = aggregateNALs hevcFormat"

section \<open>One unit per packet\<close>

fun singleLoop :: "access_unit \<Rightarrow> (byte list \<times> int) list \<Rightarrow> int \<Rightarrow> RTPSender \<Rightarrow> RTPSender res" where
  "singleLoop accu [] packetCount s = Inr s"
| "singleLoop accu ((nal, left) # xs) packetCount s =
     bnd (createPacket (int (length nal) + 12 + 16) accu s) (\<lambda>(s, p).
     bnd (put nal p) (\<lambda>p.
     bnd (sndQueueRTPPacket s (finishPacket accu packetCount (left \<le> 0) (int (length nal)) p))
         (singleLoop accu xs (packetCount + 1))))"

definition queueSingleNALUnitPacket :: "access_unit \<Rightarrow> (byte list \<times> int) list \<Rightarrow> RTPSender \<Rightarrow> RTPSender res" where
  "queueSingleNALUnitPacket accu nals s = singleLoop accu nals 1 s"

section \<open>Events of the sender\<close>

definition postSendRTPMessage :: "RTPSender \<Rightarrow> RTPSender" where
  "postSendRTPMessage s =
     (if mSendRTPEventPending s then s
      else s\<lparr>looper := looper s @ [mRTPGeneration s], mSendRTPEventPending := True\<rparr>)"

definition onQueueAccessUnit ::
  "access_unit \<Rightarrow> (byte list \<times> int) list \<Rightarrow> int \<Rightarrow> RTPSender \<Rightarrow> RTPSender res" where
  "onQueueAccessUnit accu nals endLeft s =
     (if \<not> mStarted s then Inr s
      else
        let s = s\<lparr>mAccuReceived := mAccuReceived s + 1\<rparr> in
        if media_is_video s \<and> mime_Type s = IMSMA_RTP_VIDEO_H264 then
          bnd (if packetize_mode s = IMSMA_SINGLE_NAL_MODE then queueSingleNALUnitPacket accu nals s
               else if packetize_mode s = IMSMA_NON_INTERLEAVED_MODE
               then queueFUorSTAPPacket accu nals endLeft s
               else Inr s) (\<lambda>s. Inr (postSendRTPMessage s))
        else if media_is_video s \<and> mime_Type s = IMSMA_RTP_VIDEO_HEVC then
          bnd (queueFUorSTAPPacket_HEVC accu nals endLeft s) (\<lambda>s. Inr (postSendRTPMessage s))
        else Inr s)"

definition sndOnStart :: "RTPSender \<Rightarrow> RTPSender" where
  "sndOnStart s = s\<lparr>mRTPPacketQueue := [], mStarted := True\<rparr>"

definition sndOnStop :: "RTPSender \<Rightarrow> RTPSender" where
  "sndOnStop s = s\<lparr>mRTPGeneration := mRTPGeneration s + 1, mStarted := False\<rparr>"

definition EPERM :: int where "EPERM = 1"
definition EAGAIN :: int where "EAGAIN = 11"
definition EINVAL :: int where "EINVAL = 22"
definition ENETUNREACH :: int where "ENETUNREACH = 101"
definition ECONNREFUSED :: int where "ECONNREFUSED = 111"

text \<open>
  The loop of \<open>kWhatSendRTPPacket\<close>; \<open>w i\<close> is the result of the \<open>i\<close>-th call of \<open>writeSock\<close>,
  \<open>g\<close> the generation in the message. \<open>EWOULDBLOCK\<close> is \<open>EAGAIN\<close>.
\<close>

fun sendLoop :: "(nat \<Rightarrow> int) \<Rightarrow> nat \<Rightarrow> int \<Rightarrow> out_packet list \<Rightarrow> RTPSender \<Rightarrow> RTPSender res" where
  "sendLoop w i g [] s = Inr (s\<lparr>mRTPPacketQueue := []\<rparr>)"
| "sendLoop w i g (p # q) s =
     (if w i < 0 then
        if w i = - EAGAIN \<or> w i = - EPERM then
          Inr (s\<lparr>mRTPPacketQueue := p # q, looper := looper s @ [g], mSendRTPEventPending := True\<rparr>)
        else if w i = - ECONNREFUSED \<or> w i = - ENETUNREACH \<or> w i = - EINVAL then
          sendLoop w (Suc i) g q s
        else Inl AssertFailed
      else sendLoop w (Suc i) g q (s\<lparr>wire := wire s @ [p]\<rparr>))"

definition onSendRTPPacket :: "(nat \<Rightarrow> int) \<Rightarrow> int \<Rightarrow> RTPSender \<Rightarrow> RTPSender res" where
  "onSendRTPPacket w g s =
     (if \<not> mStarted s then Inr s
      else
        let s = s\<lparr>mSendRTPEventPending := False\<rparr> in
        if g = mRTPGeneration s then sendLoop w 0 g (mRTPPacketQueue s) s else Inr s)"

end
