(* ===== verification/RtpAssembler.thy ===== *)
theory RtpAssembler
  imports RilPrelude
begin

text \<open>
  The assemblers of received video, \<open>rtp/src/RTPAssembler.cpp\<close>, \<open>AVCAssembler.cpp\<close> and
  \<open>HEVCAssembler.cpp\<close>: RTP payloads in the order of their sequence numbers become access
  units; lost packets are noticed, counted and mark the unit they damage.

  \<^item> An \<open>ABuffer\<close> is the list of the octets in its range with its integer and the fields of
    its meta message that these files read; the fields that only feed the bit rate adaptation
    are left out. A posted notification is appended to \<open>posted\<close>.
  \<^item> The two assemblers are the same text up to the sizes and contents of the headers, the
    test on the time of reception (AVC only) and the request for a start code (HEVC only): the
    record \<open>nal_codec\<close> holds the differences.
  \<^item> \<open>clk i\<close> is the result of the \<open>i\<close>-th call of \<open>ALooper::GetNowUs\<close>.
\<close>

section \<open>Buffers, notifications, the assembler\<close>

record ABuffer =
  ab_data :: "byte list"
  ab_int32Data :: "32 word"
  ab_rtp_time :: "32 word"
  ab_M :: int
  ab_ccw_rotation :: int
  ab_camera_facing :: int
  ab_flip :: int
  ab_token :: int
  ab_recv_time :: "int option"
  ab_damaged :: bool
  ab_needStartCode :: bool
  ab_importance :: "int option"
  ab_EarliestPacket :: int
  ab_FirstPacket :: int
  ab_latestPacekt :: int

definition newABuffer :: "byte list \<Rightarrow> ABuffer" where
  "newABuffer d =
     \<lparr> ab_data = d, ab_int32Data = 0, ab_rtp_time = 0, ab_M = 0, ab_ccw_rotation = 0,
       ab_camera_facing = 0, ab_flip = 0, ab_token = 0, ab_recv_time = None, ab_damaged = False,
       ab_needStartCode = False, ab_importance = None, ab_EarliestPacket = 0, ab_FirstPacket = 0,
       ab_latestPacekt = 0 \<rparr>"

datatype posted = AccessUnit ABuffer | PacketLost "32 word list"

datatype AssemblyStatus =
    MALFORMED_PACKET | WRONG_SEQUENCE_NUMBER | LARGE_SEQUENCE_GAP | NOT_ENOUGH_DATA
  | SKIP_MISS_PACKET | OK

record NALFragMentsInfo =
  fi_mIsDamaged :: bool
  fi_mTotalCount :: int
  fi_mNALSize :: int
  fi_mNALType :: byte
  fi_mNALFragments :: "ABuffer list"

definition newNALFragMentsInfo :: NALFragMentsInfo where
  "newNALFragMentsInfo =
     \<lparr> fi_mIsDamaged = False, fi_mTotalCount = 0, fi_mNALSize = 0, fi_mNALType = 0,
       fi_mNALFragments = [] \<rparr>"

record NALAssembler =
  mFirstFailureTimeUs :: int
  mNextExpectedSeqNoValid :: bool
  mNextExpectedSeqNo :: "32 word"
  mAccessUnitDamaged :: bool
  mLastPacketReceiveTime :: int
  mPackLostList :: "32 word list"
  mLastLost :: int
  mAccuCount :: int
  mLostCount :: int
  mIDamageNum :: int
  mpNALFragmentInfo :: "NALFragMentsInfo option"
  posted :: "posted list"

definition newNALAssembler :: NALAssembler where
  "newNALAssembler =
     \<lparr> mFirstFailureTimeUs = - 1, mNextExpectedSeqNoValid = False, mNextExpectedSeqNo = 0,
       mAccessUnitDamaged = False, mLastPacketReceiveTime = 0, mPackLostList = [], mLastLost = - 1,
       mAccuCount = 0, mLostCount = 0, mIDamageNum = 0, mpNALFragmentInfo = None, posted = [] \<rparr>"

definition PACKETLOSTRECORDNUM :: nat where "PACKETLOSTRECORDNUM = 16"
definition kLargeSequenceGap :: "32 word" where "kLargeSequenceGap = 20"

section \<open>The codecs\<close>

datatype nal_kind = SingleNAL | FragmentationUnit | AggregationPacket | UndefinedNAL | UnsupportedNAL

text \<open>
  \<open>nc_reassemble d\<close> is the header of the unit whose first fragment is \<open>d\<close> and the importance
  noted for it; the first \<open>nc_fuMin\<close> octets of a fragment are its own headers, the last of
  which has the flags.
\<close>

record nal_codec =
  nc_kind :: "byte \<Rightarrow> nal_kind"
  nc_timed :: bool
  nc_startCode :: bool
  nc_stapMin :: int
  nc_stapHeader :: nat
  nc_fuMin :: int
  nc_fuType :: "byte list \<Rightarrow> byte res"
  nc_isI :: "byte \<Rightarrow> bool"
  nc_reassemble :: "byte list \<Rightarrow> (byte list \<times> int option) res"

definition avcKind :: "byte \<Rightarrow> nal_kind" where
  "avcKind b0 =
     (let nalType = b0 AND 0x1f in
      if nalType \<ge> 1 \<and> nalType \<le> 23 then SingleNAL
      else if nalType = 28 then FragmentationUnit
      else if nalType = 24 then AggregationPacket
      else if nalType = 0 then UndefinedNAL else UnsupportedNAL)"

definition avcReassemble :: "byte list \<Rightarrow> (byte list \<times> int option) res" where
  "avcReassemble d =
     bnd (rd d 1) (\<lambda>d1. bnd (rd d 0) (\<lambda>d0.
     let nalType = d1 AND 0x1f; nri = drop_bit 5 d0 AND 3 in
     Inr ([push_bit 5 nri OR nalType], Some (uint nri))))"

definition avcCodec :: nal_codec where
  "avcCodec =
     \<lparr> nc_kind = avcKind, nc_timed = True, nc_startCode = False, nc_stapMin = 3, nc_stapHeader = 1,
       nc_fuMin = 2, nc_fuType = (\<lambda>d. bnd (rd d 1) (\<lambda>d1. Inr (d1 AND 0x1f))),
       nc_isI = (\<lambda>t. t = 5), nc_reassemble = avcReassemble \<rparr>"

definition hevcKind :: "byte \<Rightarrow> nal_kind" where
  "hevcKind b0 =
     (let nalType = drop_bit 1 (b0 AND 0x7E) in
      if nalType \<le> 9 \<or> (nalType \<ge> 15 \<and> nalType \<le> 21) \<or> (nalType \<ge> 32 \<and> nalType \<le> 40) then SingleNAL
      else if nalType = 49 then FragmentationUnit
      else if nalType = 48 then AggregationPacket
      else UnsupportedNAL)"

definition hevcReassemble :: "byte list \<Rightarrow> (byte list \<times> int option) res" where
  "hevcReassemble d =
     bnd (rd d 2) (\<lambda>d2. bnd (rd d 0) (\<lambda>d0. bnd (rd d 1) (\<lambda>d1.
     let nalType = d2 AND 0x1f in
     Inr ([(d0 AND 0x81) OR push_bit 1 nalType, d1], None))))"

definition hevcCodec :: nal_codec where
  "hevcCodec =
     \<lparr> nc_kind = hevcKind, nc_timed = False, nc_startCode = True, nc_stapMin = 6, nc_stapHeader = 2,
       nc_fuMin = 3, nc_fuType = (\<lambda>d. bnd (rd d 0) (\<lambda>d0. Inr (drop_bit 1 (d0 AND 0x7E)))),
       nc_isI = (\<lambda>t. t = 19 \<or> t = 20), nc_reassemble = hevcReassemble \<rparr>"

section \<open>Access units\<close>

definition copyMetas :: "ABuffer \<Rightarrow> ABuffer \<Rightarrow> ABuffer" where
  "copyMetas to from =
     to\<lparr>ab_rtp_time := ab_rtp_time from, ab_int32Data := ab_int32Data from,
        ab_ccw_rotation := ab_ccw_rotation from, ab_camera_facing := ab_camera_facing from,
        ab_flip := ab_flip from, ab_M := (if ab_M from > 0 then ab_M from else ab_M to)\<rparr>"

definition submitAccessUnit :: "nal_codec \<Rightarrow> ABuffer \<Rightarrow> NALAssembler \<Rightarrow> NALAssembler" where
  "submitAccessUnit c accu a =
     (let accu = accu\<lparr>ab_token := mAccuCount a\<rparr>;
          accu = (if nc_startCode c then accu\<lparr>ab_needStartCode := True\<rparr> else accu) in
      a\<lparr>posted := posted a @ [AccessUnit accu], mAccuCount := mAccuCount a + 1\<rparr>)"

text \<open>
  The loop of \<open>assembleToNAL\<close>: the payload of each fragment is copied behind the previous one;
  the earliest received fragment and the last one are noted.
\<close>

fun copyFragments :: "int \<Rightarrow> ABuffer list \<Rightarrow> int \<Rightarrow> int \<Rightarrow> ABuffer \<Rightarrow> ABuffer res" where
  "copyFragments hdr [] off earliest u = Inr u"
| "copyFragments hdr (b # bs) off earliest u =
     (let recv_time = (case ab_recv_time b of None \<Rightarrow> 0 | Some t \<Rightarrow> t);
          u = (if recv_time \<le> earliest then u\<lparr>ab_EarliestPacket := ab_token b\<rparr> else u);
          earliest = (if recv_time \<le> earliest then recv_time else earliest);
          n = int (length (ab_data b)) - hdr in
      bnd (rd_block (ab_data b) hdr n) (\<lambda>d.
      bnd (wr_block (ab_data u) off d) (\<lambda>buf.
      copyFragments hdr bs (off + n) earliest
        (if bs = [] then u\<lparr>ab_data := buf, ab_latestPacekt := ab_token b\<rparr> else u\<lparr>ab_data := buf\<rparr>))))"

definition assembleToNAL :: "nal_codec \<Rightarrow> NALFragMentsInfo \<Rightarrow> ABuffer res" where
  "assembleToNAL c fi =
     (let q = fi_mNALFragments fi in
      bnd (rd q 0) (\<lambda>beginFragment.
      bnd (nc_reassemble c (ab_data beginFragment)) (\<lambda>(hdr, importance).
      let nal_size = take_bit 32 (fi_mNALSize fi + int (length hdr));
          u = newABuffer (replicate (nat nal_size) 0);
          u = (if fi_mIsDamaged fi then u\<lparr>ab_damaged := True\<rparr> else u);
          u = copyMetas (u\<lparr>ab_importance := importance\<rparr>) (last q);
          earliest = (case ab_recv_time beginFragment of None \<Rightarrow> 0 | Some t \<Rightarrow> t);
          u = u\<lparr>ab_FirstPacket := ab_token beginFragment\<rparr> in
      bnd (wr_block (ab_data u) 0 hdr) (\<lambda>buf.
      copyFragments (nc_fuMin c) q (int (length hdr)) earliest (u\<lparr>ab_data := buf\<rparr>)))))"

text \<open>The lines that complete the unit under assembly.\<close>

definition submitFragments :: "nal_codec \<Rightarrow> NALFragMentsInfo \<Rightarrow> NALAssembler \<Rightarrow> NALAssembler res" where
  "submitFragments c fi a =
     bnd (assembleToNAL c (if mAccessUnitDamaged a then fi\<lparr>fi_mIsDamaged := True\<rparr> else fi)) (\<lambda>accu.
     Inr ((submitAccessUnit c accu a)\<lparr>mAccessUnitDamaged := False, mpNALFragmentInfo := None\<rparr>))"

definition flushFragments :: "nal_codec \<Rightarrow> NALAssembler \<Rightarrow> NALAssembler res" where
  "flushFragments c a =
     (case mpNALFragmentInfo a of None \<Rightarrow> Inr a | Some fi \<Rightarrow> submitFragments c fi a)"

definition addSingleNALUnit :: "nal_codec \<Rightarrow> ABuffer \<Rightarrow> NALAssembler \<Rightarrow> NALAssembler" where
  "addSingleNALUnit c b a = submitAccessUnit c b a"

definition setTokens :: "int \<Rightarrow> ABuffer \<Rightarrow> ABuffer" where
  "setTokens t b = b\<lparr>ab_EarliestPacket := t, ab_FirstPacket := t, ab_latestPacekt := t\<rparr>"

section \<open>Aggregation packets\<close>

fun stapLoop :: "nal_codec \<Rightarrow> ABuffer \<Rightarrow> byte list \<Rightarrow> NALAssembler \<Rightarrow> bool \<times> NALAssembler" where
  "stapLoop c b (h # l # rest) a =
     (let nalSize = unat h * 256 + unat l in
      if length rest < nalSize then (False, a)
      else
        let u = copyMetas (newABuffer (take nalSize rest)) b;
            rest = drop nalSize rest;
            u = (if length rest > 2 then u\<lparr>ab_M := 0\<rparr> else u) in
        stapLoop c b rest (addSingleNALUnit c (setTokens (ab_token b) u) a))"
| "stapLoop c b rest a = (True, a)"

definition addSingleTimeAggregationPacket :: "nal_codec \<Rightarrow> ABuffer \<Rightarrow> NALAssembler \<Rightarrow> bool \<times> NALAssembler" where
  "addSingleTimeAggregationPacket c b a =
     (if int (length (ab_data b)) < nc_stapMin c then (False, a)
      else stapLoop c b (drop (nc_stapHeader c) (ab_data b)) a)"

section \<open>Fragments\<close>

definition appendFragment ::
  "nal_codec \<Rightarrow> byte \<Rightarrow> byte \<Rightarrow> ABuffer \<Rightarrow> NALAssembler \<Rightarrow> NALAssembler res" where
  "appendFragment c flags nalType b a =
     (let fi = (case mpNALFragmentInfo a of
                  None \<Rightarrow> newNALFragMentsInfo\<lparr>fi_mNALType := nalType\<rparr> | Some fi \<Rightarrow> fi);
          fi = fi\<lparr>fi_mNALFragments := fi_mNALFragments fi @ [b],
                  fi_mNALSize := take_bit 32 (fi_mNALSize fi + (int (length (ab_data b)) - nc_fuMin c)),
                  fi_mTotalCount := fi_mTotalCount fi + 1\<rparr> in
      if flags AND 0x40 \<noteq> 0 then
        submitFragments c fi
          (if mAccessUnitDamaged a \<and> nc_isI c nalType then a\<lparr>mIDamageNum := mIDamageNum a + 1\<rparr> else a)
      else Inr (a\<lparr>mpNALFragmentInfo := Some fi\<rparr>))"

text \<open>The head of the queue is taken off and the next sequence number expected, in each case.\<close>

definition addFragmentedNALUnit ::
  "nal_codec \<Rightarrow> ABuffer \<Rightarrow> NALAssembler \<Rightarrow> (AssemblyStatus \<times> NALAssembler) res" where
  "addFragmentedNALUnit c b a =
     (let size = int (length (ab_data b)) in
      bnd (chk (size > 0) AssertFailed) (\<lambda>_.
      if size < nc_fuMin c then Inr (MALFORMED_PACKET, a)
      else
        bnd (nc_fuType c (ab_data b)) (\<lambda>nalType.
        bnd (rd (ab_data b) (nc_fuMin c - 1)) (\<lambda>flags.
        case mpNALFragmentInfo a of
          None \<Rightarrow>
            if flags AND 0x80 = 0 then Inr (MALFORMED_PACKET, a)
            else bnd (appendFragment c flags nalType b (a\<lparr>mAccessUnitDamaged := False\<rparr>)) (\<lambda>a. Inr (OK, a))
        | Some fi \<Rightarrow>
            if flags AND 0x80 \<noteq> 0 then
              bnd (submitFragments c fi
                     (if mAccessUnitDamaged a \<and> nc_isI c nalType
                      then a\<lparr>mIDamageNum := mIDamageNum a + 1\<rparr> else a)) (\<lambda>a.
              bnd (appendFragment c flags nalType b a) (\<lambda>a. Inr (OK, a)))
            else if nalType \<noteq> fi_mNALType fi then Inr (MALFORMED_PACKET, a)
            else bnd (appendFragment c flags nalType b a) (\<lambda>a. Inr (OK, a))))))"

section \<open>The next packet of the queue\<close>

definition packetLostRegister :: "NALAssembler \<Rightarrow> NALAssembler" where
  "packetLostRegister a =
     a\<lparr>mPackLostList := (if length (mPackLostList a) \<ge> PACKETLOSTRECORDNUM then tl (mPackLostList a)
                          else mPackLostList a) @ [mNextExpectedSeqNo a],
       mNextExpectedSeqNo := mNextExpectedSeqNo a + 1, mAccessUnitDamaged := True,
       mLostCount := mLostCount a + 1\<rparr>"

definition getAssembleStatus :: "ABuffer list \<Rightarrow> 32 word \<Rightarrow> AssemblyStatus" where
  "getAssembleStatus q nextExpectedSeq =
     (if ab_int32Data (last q) - nextExpectedSeq > kLargeSequenceGap then LARGE_SEQUENCE_GAP
      else WRONG_SEQUENCE_NUMBER)"

text \<open>The part of \<open>addNALUnit\<close> that looks at the packet \<open>b\<close> at the head of the queue.\<close>

definition processPacket :: "nal_codec \<Rightarrow> ABuffer \<Rightarrow> NALAssembler \<Rightarrow> (AssemblyStatus \<times> NALAssembler) res" where
  "processPacket c b a =
     (case ab_data b of
        [] \<Rightarrow> Inr (MALFORMED_PACKET, a)
      | d0 # _ \<Rightarrow>
          if d0 AND 0x80 \<noteq> 0 then Inr (MALFORMED_PACKET, a)
          else (case nc_kind c d0 of
            SingleNAL \<Rightarrow>
              bnd (flushFragments c a) (\<lambda>a.
              Inr (OK, addSingleNALUnit c (setTokens (ab_token b) b) a))
          | FragmentationUnit \<Rightarrow> addFragmentedNALUnit c b a
          | AggregationPacket \<Rightarrow>
              bnd (flushFragments c a) (\<lambda>a.
              case addSingleTimeAggregationPacket c b a of
                (success, a) \<Rightarrow> Inr (if success then OK else MALFORMED_PACKET, a))
          | UndefinedNAL \<Rightarrow> Inr (OK, a)
          | UnsupportedNAL \<Rightarrow> Inr (MALFORMED_PACKET, a)))"

definition consumePacket ::
  "nal_codec \<Rightarrow> ABuffer \<Rightarrow> ABuffer list \<Rightarrow> NALAssembler \<Rightarrow> (AssemblyStatus \<times> ABuffer list \<times> NALAssembler) res" where
  "consumePacket c b q a =
     (let a = (if nc_timed c
               then a\<lparr>mLastPacketReceiveTime := (case ab_recv_time b of None \<Rightarrow> 0 | Some t \<Rightarrow> t)\<rparr> else a) in
      bnd (processPacket c b a) (\<lambda>(status, a).
      Inr (status, q, a\<lparr>mNextExpectedSeqNo := mNextExpectedSeqNo a + 1\<rparr>)))"

definition addNALUnit ::
  "nal_codec \<Rightarrow> ABuffer list \<Rightarrow> NALAssembler \<Rightarrow> (AssemblyStatus \<times> ABuffer list \<times> NALAssembler) res" where
  "addNALUnit c q a =
     (case (if mNextExpectedSeqNoValid a
            then dropWhile (\<lambda>b. ab_int32Data b < mNextExpectedSeqNo a) q else q) of
        [] \<Rightarrow> Inr (NOT_ENOUGH_DATA, [], a)
      | b # q \<Rightarrow>
          if \<not> mNextExpectedSeqNoValid a then
            consumePacket c b q
              (a\<lparr>mNextExpectedSeqNoValid := True, mNextExpectedSeqNo := ab_int32Data b\<rparr>)
          else if ab_int32Data b \<noteq> mNextExpectedSeqNo a then
            (if nc_timed c then
               (case ab_recv_time b of
                  None \<Rightarrow> consumePacket c b q a
                | Some recv_time \<Rightarrow>
                    let nowseq = ab_int32Data b; nowexpectseq = mNextExpectedSeqNo a;
                        diff_time = \<bar>c_long (recv_time - mLastPacketReceiveTime a)\<bar> in
                    if mLastPacketReceiveTime a \<noteq> 0 \<and> diff_time > 200000 then
                      Inr (SKIP_MISS_PACKET, b # q,
                           if nowseq > nowexpectseq
                           then (packetLostRegister ^^ (unat nowseq - unat nowexpectseq)) a else a)
                    else Inr (getAssembleStatus (b # q) (mNextExpectedSeqNo a), b # q, a))
             else Inr (getAssembleStatus (b # q) (mNextExpectedSeqNo a), b # q, a))
          else consumePacket c b q a)"

definition assembleMore ::
  "nal_codec \<Rightarrow> ABuffer list \<Rightarrow> NALAssembler \<Rightarrow> (AssemblyStatus \<times> ABuffer list \<times> NALAssembler) res" where
  "assembleMore c q a =
     bnd (addNALUnit c q a) (\<lambda>(status, q, a).
     Inr (status, q, if status = MALFORMED_PACKET then a\<lparr>mAccessUnitDamaged := True\<rparr> else a))"

end
