(* ===== verification/RtpSource.thy ===== *)
theory RtpSource
  imports RtpAssembler
begin

text \<open>
  The source of received packets, \<open>rtp/src/RTPSource.cpp\<close>, and the driver of the assemblers,
  \<open>RTPAssembler::onPacketReceived\<close>: 16-bit sequence numbers are extended to 32 bits, packets are
  queued in their order without duplicates, and the assembler takes from the queue what it can.

  The number of packets received is kept by \<open>RxAdaptationInfo\<close> (inline functions of
  \<open>libimsma_adapt/include/RxAdaptationInfo.h\<close>); its operations in the binary library that may
  change the number are the record \<open>adaptation\<close>, an argument.
\<close>

section \<open>The driver of the assemblers\<close>

definition packetLost :: "(nat \<Rightarrow> int) \<Rightarrow> NALAssembler \<Rightarrow> nat \<Rightarrow> (NALAssembler \<times> nat) res" where
  "packetLost clk a t =
     bnd (chk (mNextExpectedSeqNoValid a) AssertFailed) (\<lambda>_.
     if mLastLost a > 0 \<and> clk t - mLastLost a < 200000 then Inr (a, t + 1)
     else
       let a = (if mLastLost a \<le> 0 then a\<lparr>mLastLost := clk t\<rparr> else a); t = t + 1 in
       if mPackLostList a = [] then Inr (a, t)
       else Inr (a\<lparr>posted := posted a @ [PacketLost (mPackLostList a)], mLastLost := clk t,
                   mPackLostList := []\<rparr>, t + 1))"

text \<open>
  Each round of the loop consumes a packet of the queue, or moves the expected sequence number
  towards that of the first packet.
\<close>

definition seqGap :: "ABuffer list \<Rightarrow> NALAssembler \<Rightarrow> nat" where
  "seqGap q a =
     (case dropWhile (\<lambda>b. ab_int32Data b < mNextExpectedSeqNo a) q of
        [] \<Rightarrow> 0 | b # _ \<Rightarrow> unat (ab_int32Data b) - unat (mNextExpectedSeqNo a))"

lemma packetLostRegister_next [simp]:
  "mNextExpectedSeqNo (packetLostRegister a) = mNextExpectedSeqNo a + 1"
  "mNextExpectedSeqNoValid (packetLostRegister a) = mNextExpectedSeqNoValid a"
  by (simp_all add: packetLostRegister_def)

lemma register_iter_next [simp]:
  "mNextExpectedSeqNo ((packetLostRegister ^^ n) a) = mNextExpectedSeqNo a + of_nat n"
  by (induction n) simp_all

abbreviation consumed :: "AssemblyStatus \<Rightarrow> bool" where
  "consumed s \<equiv> s = OK \<or> s = MALFORMED_PACKET"

lemma addFragmentedNALUnit_status: "ensures (\<lambda>(s, a). consumed s) (addFragmentedNALUnit c b a)"
  unfolding addFragmentedNALUnit_def Let_def
  by (intro ensures_bndI) (auto split: option.split intro!: ensures_bndI)

lemma processPacket_status: "ensures (\<lambda>(s, a). consumed s) (processPacket c b a)"
proof (cases "ab_data b")
  case Nil
  then show ?thesis by (simp add: processPacket_def)
next
  case (Cons d0 ds)
  then show ?thesis
    using addFragmentedNALUnit_status [of c b a]
    by (cases "nc_kind c d0")
       (auto simp: processPacket_def intro!: ensures_bndI split: prod.split)
qed

lemma consumePacket_status:
  "ensures (\<lambda>(s, q', a'). consumed s \<and> q' = q) (consumePacket c b q a)"
  unfolding consumePacket_def Let_def
  by (rule ensures_bnd [OF processPacket_status]) auto

lemma dropWhile_head: "dropWhile P xs = y # ys \<Longrightarrow> \<not> P y"
  by (induction xs) (auto split: if_splits)

lemma dropWhile_Cons_length: "dropWhile P xs = y # ys \<Longrightarrow> length ys < length xs"
  by (metis Suc_le_eq length_Cons length_dropWhile_le)

text \<open>The three outcomes of a call: a packet is taken, one is missing, all missing ones are skipped.\<close>

definition more_outcome :: "ABuffer list \<Rightarrow> NALAssembler \<Rightarrow> AssemblyStatus \<Rightarrow> ABuffer list \<Rightarrow> NALAssembler \<Rightarrow> bool" where
  "more_outcome q a s q' a' \<longleftrightarrow>
     s = NOT_ENOUGH_DATA \<or> (consumed s \<and> length q' < length q) \<or>
     (\<exists>b r. mNextExpectedSeqNoValid a \<and> q' = b # r \<and> length q' \<le> length q \<and>
        dropWhile (\<lambda>b. ab_int32Data b < mNextExpectedSeqNo a) q = b # r \<and>
        mNextExpectedSeqNo a < ab_int32Data b \<and>
        (s = getAssembleStatus q' (mNextExpectedSeqNo a) \<and> a' = a \<or>
         s = SKIP_MISS_PACKET \<and>
           a' = (packetLostRegister ^^ (unat (ab_int32Data b) - unat (mNextExpectedSeqNo a))) a))"

lemma addNALUnit_outcome: "ensures (\<lambda>(s, q', a'). more_outcome q a s q' a') (addNALUnit c q a)"
proof (cases "if mNextExpectedSeqNoValid a then dropWhile (\<lambda>b. ab_int32Data b < mNextExpectedSeqNo a) q else q")
  case Nil
  then show ?thesis by (simp add: addNALUnit_def more_outcome_def)
next
  case (Cons b r)
  have r: "length r < length q"
    using Cons by (auto split: if_splits dest: dropWhile_Cons_length)
  have con: "ensures (\<lambda>(s, q', a'). more_outcome q a s q' a') (consumePacket c b r x)" for x
    by (rule ensures_weaken [OF consumePacket_status]) (use r in \<open>auto simp: more_outcome_def\<close>)
  show ?thesis
  proof (cases "mNextExpectedSeqNoValid a \<and> ab_int32Data b \<noteq> mNextExpectedSeqNo a")
    case False
    then have "addNALUnit c q a = consumePacket c b r
        (if mNextExpectedSeqNoValid a then a
         else a\<lparr>mNextExpectedSeqNoValid := True, mNextExpectedSeqNo := ab_int32Data b\<rparr>)"
      unfolding addNALUnit_def Cons by auto
    then show ?thesis using con by simp
  next
    case True
    have dw: "dropWhile (\<lambda>b. ab_int32Data b < mNextExpectedSeqNo a) q = b # r" using Cons True by simp
    have lt: "mNextExpectedSeqNo a < ab_int32Data b"
      using True dropWhile_head [OF dw] by auto
    have stop: "more_outcome q a (getAssembleStatus (b # r) (mNextExpectedSeqNo a)) (b # r) a"
      "more_outcome q a SKIP_MISS_PACKET (b # r)
         ((packetLostRegister ^^ (unat (ab_int32Data b) - unat (mNextExpectedSeqNo a))) a)"
      using True dw lt r by (simp_all add: more_outcome_def)
    have "addNALUnit c q a =
       (if nc_timed c then
          (case ab_recv_time b of None \<Rightarrow> consumePacket c b r a
           | Some t \<Rightarrow>
               if mLastPacketReceiveTime a \<noteq> 0 \<and> \<bar>c_long (t - mLastPacketReceiveTime a)\<bar> > 200000 then
                 Inr (SKIP_MISS_PACKET, b # r,
                   (packetLostRegister ^^ (unat (ab_int32Data b) - unat (mNextExpectedSeqNo a))) a)
               else Inr (getAssembleStatus (b # r) (mNextExpectedSeqNo a), b # r, a))
        else Inr (getAssembleStatus (b # r) (mNextExpectedSeqNo a), b # r, a))"
      using True lt unfolding addNALUnit_def Cons by (simp add: Let_def split: option.split)
    then show ?thesis using stop con by (auto split: option.split)
  qed
qed

lemma assembleMore_outcome:
  assumes "assembleMore c q a = Inr (s, q', a')"
  shows "more_outcome q a s q' a'"
proof -
  obtain s0 a0 where add: "addNALUnit c q a = Inr (s, q', a0)"
    and a': "a' = (if s = MALFORMED_PACKET then a0\<lparr>mAccessUnitDamaged := True\<rparr> else a0)"
    using assms by (auto simp: assembleMore_def bnd_eq_Inr)
  have "more_outcome q a s q' a0"
    using ensuresD [OF addNALUnit_outcome add] by simp
  then show ?thesis
    using a' by (auto simp: more_outcome_def getAssembleStatus_def split: if_splits)
qed

lemma unat_pos_diff:
  fixes v w :: "32 word"
  assumes "v < w"
  shows "v + of_nat (unat w - unat v) = w"
proof -
  have "unat v \<le> unat w" using assms by (simp add: word_less_nat_alt)
  then show ?thesis by (simp add: of_nat_diff)
qed

lemma unat_Suc_less:
  fixes v w :: "32 word"
  assumes "v < w"
  shows "unat (v + 1) = Suc (unat v)" "v + 1 \<le> w"
proof -
  have "unat v < unat w" using assms by (simp add: word_less_nat_alt)
  moreover have "unat w < 2 ^ 32" using unsigned_less [of w] by simp
  ultimately show "unat (v + 1) = Suc (unat v)" by (simp add: unat_word_ariths)
  with \<open>unat v < unat w\<close> show "v + 1 \<le> w" by (simp add: word_le_nat_alt)
qed

lemma seqGap_head:
  "mNextExpectedSeqNo a \<le> ab_int32Data b \<Longrightarrow>
     seqGap (b # r) a = unat (ab_int32Data b) - unat (mNextExpectedSeqNo a)"
  by (auto simp: seqGap_def)

text \<open>The variant of the loop.\<close>

lemma assembleMore_variant:
  assumes "assembleMore c q a = Inr (s, q', a')"
  shows "s \<in> {OK, MALFORMED_PACKET} \<Longrightarrow> length q' < length q"
    and "s = SKIP_MISS_PACKET \<Longrightarrow> length q' \<le> length q \<and> seqGap q' a' < seqGap q a"
    and "s \<in> {WRONG_SEQUENCE_NUMBER, LARGE_SEQUENCE_GAP} \<Longrightarrow>
           length q' \<le> length q \<and> seqGap q' (packetLostRegister a'\<lparr>mFirstFailureTimeUs := m\<rparr>) < seqGap q a"
proof -
  have o: "more_outcome q a s q' a'" by (rule assembleMore_outcome [OF assms])
  show "length q' < length q" if "s \<in> {OK, MALFORMED_PACKET}"
    using o that by (auto simp: more_outcome_def getAssembleStatus_def split: if_splits)
  have blk: "\<exists>b r. q' = b # r \<and> seqGap q a = unat (ab_int32Data b) - unat (mNextExpectedSeqNo a) \<and>
      mNextExpectedSeqNo a < ab_int32Data b \<and> length q' \<le> length q \<and>
      mNextExpectedSeqNo a' = (if s = SKIP_MISS_PACKET then ab_int32Data b else mNextExpectedSeqNo a)"
    if "s \<in> {WRONG_SEQUENCE_NUMBER, LARGE_SEQUENCE_GAP, SKIP_MISS_PACKET}"
    using o that by (auto simp: more_outcome_def seqGap_def getAssembleStatus_def unat_pos_diff split: if_splits)
  show "length q' \<le> length q \<and> seqGap q' a' < seqGap q a" if "s = SKIP_MISS_PACKET"
    using blk that by (auto simp: seqGap_head word_less_nat_alt)
  show "length q' \<le> length q \<and> seqGap q' (packetLostRegister a'\<lparr>mFirstFailureTimeUs := m\<rparr>) < seqGap q a"
    if "s \<in> {WRONG_SEQUENCE_NUMBER, LARGE_SEQUENCE_GAP}"
    using blk that by (auto simp: seqGap_head unat_Suc_less word_less_nat_alt)
qed

lemma seqGap_update [simp]: "seqGap q (a\<lparr>mFirstFailureTimeUs := m\<rparr>) = seqGap q a"
  by (simp add: seqGap_def cong: list.case_cong)

function onPacketReceivedLoop ::
  "nal_codec \<Rightarrow> (nat \<Rightarrow> int) \<Rightarrow> ABuffer list \<Rightarrow> NALAssembler \<Rightarrow> nat \<Rightarrow>
     (ABuffer list \<times> NALAssembler \<times> nat) res" where
  "onPacketReceivedLoop c clk q a t =
     bnd (assembleMore c q a) (\<lambda>(status, q, a).
     if status = WRONG_SEQUENCE_NUMBER then
       (if mFirstFailureTimeUs a \<ge> 0 then
          (if clk t - mFirstFailureTimeUs a > 5000 then
             onPacketReceivedLoop c clk q (packetLostRegister a\<lparr>mFirstFailureTimeUs := - 1\<rparr>) (t + 1)
           else Inr (q, a, t + 1))
        else Inr (q, a\<lparr>mFirstFailureTimeUs := clk t\<rparr>, t + 1))
     else if status = LARGE_SEQUENCE_GAP then
       onPacketReceivedLoop c clk q (packetLostRegister a\<lparr>mFirstFailureTimeUs := - 1\<rparr>) t
     else if status = NOT_ENOUGH_DATA then Inr (q, a\<lparr>mFirstFailureTimeUs := - 1\<rparr>, t)
     else onPacketReceivedLoop c clk q (a\<lparr>mFirstFailureTimeUs := - 1\<rparr>) t)"
  by pat_completeness auto

termination
proof (relation "measures [\<lambda>(c, clk, q, a, t). length q, \<lambda>(c, clk, q, a, t). seqGap q a]")
  show "wf (measures [\<lambda>(c :: nal_codec, clk :: nat \<Rightarrow> int, q :: ABuffer list, a :: NALAssembler, t :: nat). length q,
     \<lambda>(c, clk, q, a, t). seqGap q a])" by simp
next
  fix c :: nal_codec and clk :: "nat \<Rightarrow> int" and q :: "ABuffer list" and a :: NALAssembler and t :: nat
    and x s y q' a'
  assume x: "assembleMore c q a = Inr x" "(s, y) = x" "(q', a') = y" "s = WRONG_SEQUENCE_NUMBER"
  then have "length q' \<le> length q \<and> seqGap q' (packetLostRegister a'\<lparr>mFirstFailureTimeUs := - 1\<rparr>) < seqGap q a"
    by (intro assembleMore_variant(3) [of c q a s q' a' "- 1"]) auto
  then show "((c, clk, q', packetLostRegister a'\<lparr>mFirstFailureTimeUs := - 1\<rparr>, t + 1), c, clk, q, a, t)
      \<in> measures [\<lambda>(c, clk, q, a, t). length q, \<lambda>(c, clk, q, a, t). seqGap q a]"
    by auto
next
  fix c :: nal_codec and clk :: "nat \<Rightarrow> int" and q :: "ABuffer list" and a :: NALAssembler and t :: nat
    and x s y q' a'
  assume x: "assembleMore c q a = Inr x" "(s, y) = x" "(q', a') = y" "s = LARGE_SEQUENCE_GAP"
  then have "length q' \<le> length q \<and> seqGap q' (packetLostRegister a'\<lparr>mFirstFailureTimeUs := - 1\<rparr>) < seqGap q a"
    by (intro assembleMore_variant(3) [of c q a s q' a' "- 1"]) auto
  then show "((c, clk, q', packetLostRegister a'\<lparr>mFirstFailureTimeUs := - 1\<rparr>, t), c, clk, q, a, t)
      \<in> measures [\<lambda>(c, clk, q, a, t). length q, \<lambda>(c, clk, q, a, t). seqGap q a]"
    by auto
next
  fix c :: nal_codec and clk :: "nat \<Rightarrow> int" and q :: "ABuffer list" and a :: NALAssembler and t :: nat
    and x s y q' a'
  assume x: "assembleMore c q a = Inr x" "(s, y) = x" "(q', a') = y" "s \<noteq> WRONG_SEQUENCE_NUMBER"
    "s \<noteq> LARGE_SEQUENCE_GAP" "s \<noteq> NOT_ENOUGH_DATA"
  then have m: "assembleMore c q a = Inr (s, q', a')" and s: "s \<in> {OK, MALFORMED_PACKET} \<or> s = SKIP_MISS_PACKET"
    by (auto intro: AssemblyStatus.exhaust [of s])
  then have "length q' < length q \<or> length q' \<le> length q \<and> seqGap q' a' < seqGap q a"
    using assembleMore_variant(1,2) [OF m] by blast
  then show "((c, clk, q', a'\<lparr>mFirstFailureTimeUs := - 1\<rparr>, t), c, clk, q, a, t)
      \<in> measures [\<lambda>(c, clk, q, a, t). length q, \<lambda>(c, clk, q, a, t). seqGap q a]"
    by auto
qed

declare onPacketReceivedLoop.simps [simp del]

definition onPacketReceived ::
  "nal_codec \<Rightarrow> (nat \<Rightarrow> int) \<Rightarrow> ABuffer list \<Rightarrow> NALAssembler \<Rightarrow> nat \<Rightarrow>
     (ABuffer list \<times> NALAssembler \<times> nat) res" where
  "onPacketReceived c clk q a t =
     bnd (onPacketReceivedLoop c clk q a t) (\<lambda>(q, a, t).
     bnd (packetLost clk a t) (\<lambda>(a, t). Inr (q, a, t)))"

definition assemblerReset :: "nal_codec \<Rightarrow> NALAssembler \<Rightarrow> NALAssembler" where
  "assemblerReset c a =
     (let a = a\<lparr>mNextExpectedSeqNoValid := False, mNextExpectedSeqNo := 0, mAccessUnitDamaged := False,
               mLostCount := 0, mIDamageNum := 0, mLastLost := - 1\<rparr> in
      if nc_timed c then a\<lparr>mLastPacketReceiveTime := 0\<rparr> else a)"

definition assemblerFlushQueue :: "NALAssembler \<Rightarrow> NALAssembler" where
  "assemblerFlushQueue a = a\<lparr>mpNALFragmentInfo := None\<rparr>"

section \<open>Sequence numbers\<close>

definition AbsDiff :: "32 word \<Rightarrow> 32 word \<Rightarrow> 32 word" where
  "AbsDiff seq1 seq2 = (if seq1 > seq2 then seq1 - seq2 else seq2 - seq1)"

definition extendSeqNumber :: "32 word \<Rightarrow> 32 word \<Rightarrow> 32 word" where
  "extendSeqNumber seqNum highest =
     (let seq1 = seqNum OR (highest AND 0xffff0000);
          seq2 = seqNum OR ((highest AND 0xffff0000) + 0x10000);
          seq3 = seqNum OR ((highest AND 0xffff0000) - 0x10000);
          diff1 = AbsDiff seq1 highest; diff2 = AbsDiff seq2 highest; diff3 = AbsDiff seq3 highest in
      if diff1 < diff2 then (if diff1 < diff3 then seq1 else seq3)
      else if diff2 < diff3 then seq2 else seq3)"

section \<open>The source\<close>

record RTPSource =
  mHighestSeqNumber :: "32 word"
  mHighestSeqNumberSet :: bool
  mFirstPacketRecvTimeUs :: int
  mFirstPacketSeqNum :: "32 word"
  mQueue :: "ABuffer list"
  mCodec :: nal_codec
  mAssembler :: "NALAssembler option"
  frameCount :: int
  tick :: nat

text \<open>The queue of \<open>queuePacket\<close>; a duplicate is not inserted.\<close>

fun insertPacket :: "ABuffer \<Rightarrow> ABuffer list \<Rightarrow> ABuffer list option" where
  "insertPacket b [] = Some [b]"
| "insertPacket b (x # xs) =
     (if ab_int32Data x < ab_int32Data b then map_option ((#) x) (insertPacket b xs)
      else if ab_int32Data x = ab_int32Data b then None
      else Some (b # x # xs))"

text \<open>The result says whether the assembler is called.\<close>

definition queuePacket :: "(nat \<Rightarrow> int) \<Rightarrow> ABuffer \<Rightarrow> RTPSource \<Rightarrow> bool \<times> RTPSource" where
  "queuePacket clk b s =
     (let orig_seqNum = ab_int32Data b;
          b = b\<lparr>ab_recv_time := Some (clk (tick s))\<rparr>; s = s\<lparr>tick := tick s + 1\<rparr> in
      if frameCount s = 0 then
        let s = s\<lparr>mFirstPacketRecvTimeUs := clk (tick s), tick := tick s + 1\<rparr>;
            s = (if \<not> mHighestSeqNumberSet s then s\<lparr>mHighestSeqNumber := orig_seqNum\<rparr> else s) in
        (False, s\<lparr>mFirstPacketSeqNum := orig_seqNum, frameCount := frameCount s + 1,
                  mQueue := mQueue s @ [b]\<rparr>)
      else
        let seqNum = extendSeqNumber orig_seqNum (mHighestSeqNumber s);
            s = s\<lparr>frameCount := frameCount s + 1,
                  mHighestSeqNumber := (if seqNum > mHighestSeqNumber s then seqNum else mHighestSeqNumber s)\<rparr> in
        case insertPacket (b\<lparr>ab_int32Data := seqNum\<rparr>) (mQueue s) of
          None \<Rightarrow> (False, s)
        | Some q \<Rightarrow>
            let s = s\<lparr>mQueue := q\<rparr>; iPacketRecvTimeUs = clk (tick s); s = s\<lparr>tick := tick s + 1\<rparr> in
            if iPacketRecvTimeUs - mFirstPacketRecvTimeUs s < 50000 then
              (False, if seqNum < mFirstPacketSeqNum s then s\<lparr>mFirstPacketSeqNum := seqNum\<rparr> else s)
            else (True, s))"

definition processRTPPacket :: "(nat \<Rightarrow> int) \<Rightarrow> ABuffer \<Rightarrow> RTPSource \<Rightarrow> RTPSource res" where
  "processRTPPacket clk b s =
     (case queuePacket clk b s of (assemble, s) \<Rightarrow>
        case mAssembler s of
          Some a \<Rightarrow>
            if assemble then
              bnd (onPacketReceived (mCodec s) clk (mQueue s) a (tick s)) (\<lambda>(q, a, t).
              Inr (s\<lparr>mQueue := q, mAssembler := Some a, tick := t\<rparr>))
            else Inr s
        | None \<Rightarrow> Inr s)"

section \<open>Start, stop, hold\<close>

record adaptation =
  ada_resetParamOnstart :: "int \<Rightarrow> int"
  ada_resetParamOnstop :: "int \<Rightarrow> int"
  ada_peerResumedSendStream :: "int \<Rightarrow> int"

definition newRTPSource :: "nal_codec \<Rightarrow> bool \<Rightarrow> RTPSource" where
  "newRTPSource c isVideo =
     \<lparr> mHighestSeqNumber = 0, mHighestSeqNumberSet = False, mFirstPacketRecvTimeUs = 0,
       mFirstPacketSeqNum = 0, mQueue = [], mCodec = c,
       mAssembler = (if isVideo then Some newNALAssembler else None), frameCount = 0, tick = 0 \<rparr>"

definition srcFlushQueue :: "RTPSource \<Rightarrow> RTPSource" where
  "srcFlushQueue s = s\<lparr>mQueue := [], mAssembler := map_option assemblerFlushQueue (mAssembler s)\<rparr>"

definition srcStart :: "adaptation \<Rightarrow> RTPSource \<Rightarrow> RTPSource" where
  "srcStart ada s =
     (let s = s\<lparr>frameCount := ada_resetParamOnstart ada (frameCount s), mHighestSeqNumberSet := False\<rparr>;
          s = srcFlushQueue s in
      s\<lparr>mAssembler := map_option (assemblerReset (mCodec s)) (mAssembler s)\<rparr>)"

definition srcStop :: "adaptation \<Rightarrow> RTPSource \<Rightarrow> RTPSource" where
  "srcStop ada s = srcFlushQueue (s\<lparr>frameCount := ada_resetParamOnstop ada (frameCount s)\<rparr>)"

definition peerResumedSendStream :: "adaptation \<Rightarrow> RTPSource \<Rightarrow> RTPSource" where
  "peerResumedSendStream ada s =
     s\<lparr>mHighestSeqNumberSet := False,
       mAssembler := map_option (assemblerReset (mCodec s)) (mAssembler s),
       frameCount := ada_peerResumedSendStream ada (frameCount s)\<rparr>"

definition srcReset :: "adaptation \<Rightarrow> RTPSource \<Rightarrow> RTPSource" where
  "srcReset ada s = srcFlushQueue (peerResumedSendStream ada s)"

end
