(* ===== verification/RtpReceiver.thy ===== *)
theory RtpReceiver
  imports RtpPacket RtpSource
begin

text \<open>
  The receiver, \<open>rtp/src/RTPReceiver.cpp\<close>: the parser of RTP packets (\<open>queueRTPPacket\<close>) that
  hands the payload to the source of its track, the change of the sender (\<open>changeSSRC\<close>), and
  the queue between the socket thread (\<open>videoRTPPacketCallBack\<close>) and the handler of
  \<open>kWhatRTPPacket\<close>, with \<open>onStart\<close> and \<open>onStop\<close>, which clear it.

  \<^item> A received packet is the octets of the packet with the rest of the memory of its buffer,
    whose contents are arbitrary.
  \<^item> Of a track the fields that the mapping of RTP time to NTP time uses are left out.
\<close>

section \<open>Packets, tracks, the receiver\<close>

record rtp_packet =
  rp_bytes :: "byte list"
  rp_tail :: "byte list"

abbreviation rp_mem :: "rtp_packet \<Rightarrow> byte list" where
  "rp_mem p \<equiv> rp_bytes p @ rp_tail p"

record TrackInfo =
  mTrackIndex :: int
  ti_payload_type :: byte
  ti_isVideo :: bool
  ti_codec :: nal_codec
  mRTPSource :: "RTPSource option"
  mSSRCset :: bool
  mSSRCid :: "32 word"
  ti_mStarted :: bool

text \<open>
  \<open>rcvLooper\<close> is the number of messages \<open>kWhatRTPPacket\<close> in the looper, \<open>listening\<close> whether the
  socket calls back, \<open>updateSSRC\<close> the identifiers notified to the controller.
\<close>

record RTPReceiver =
  mpTrackInfos :: "TrackInfo list"
  mLastSeqN :: int
  mLastCVOinfo :: byte
  mVideoRTPQueue :: "rtp_packet list"
  mVideoRTPPending :: bool
  mVideoOtherSSRCQueue :: "rtp_packet list"
  mSsrcInOtherQueue :: "32 word"
  mPreviousSsrc :: "32 word"
  rcvLooper :: nat
  listening :: bool
  updateSSRC :: "32 word list"

definition newRTPReceiver :: RTPReceiver where
  "newRTPReceiver =
     \<lparr> mpTrackInfos = [], mLastSeqN = 0, mLastCVOinfo = 0, mVideoRTPQueue = [], mVideoRTPPending = False,
       mVideoOtherSSRCQueue = [], mSsrcInOtherQueue = 0, mPreviousSsrc = 0, rcvLooper = 0,
       listening = False, updateSSRC = [] \<rparr>"

definition IMSMA_RTP_VIDEO :: int where "IMSMA_RTP_VIDEO = 1"

text \<open>The search for the first track that satisfies a condition.\<close>

fun findTrack :: "(TrackInfo \<Rightarrow> bool) \<Rightarrow> TrackInfo list \<Rightarrow> nat option" where
  "findTrack P [] = None"
| "findTrack P (t # ts) = (if P t then Some 0 else map_option Suc (findTrack P ts))"

section \<open>The header extension\<close>

text \<open>\<open>while (_data[offset] == 0) offset++\<close>.\<close>

definition skipZeros :: "byte list \<Rightarrow> int \<Rightarrow> int res" where
  "skipZeros mem i =
     (let n = length (takeWhile (\<lambda>b. b = 0) (drop (nat i) mem)) in
      if nat i + n < length mem then Inr (i + int n) else Inl OutOfBounds)"

lemma skipZeros_ge: "skipZeros mem i = Inr j \<Longrightarrow> i \<le> j"
  by (auto simp: skipZeros_def Let_def split: if_splits)

text \<open>
  The elements of a one-byte header extension of \<open>extensionLength\<close> octets at \<open>base\<close>: the first
  octet of every element is taken for the orientation.
\<close>

function cvoLoop :: "byte list \<Rightarrow> int \<Rightarrow> int \<Rightarrow> int \<Rightarrow> byte \<Rightarrow> byte res" where
  "cvoLoop mem base extensionLength offset cvo =
     (if offset < extensionLength then
        bnd (rdi mem (base + offset)) (\<lambda>b.
        let extension_id = drop_bit 4 b AND 0x0F in
        if extension_id = 0 \<or> extension_id = 15 then Inr cvo
        else
          let extension_length = (b AND 0x0F) + 1; offset = offset + 1 in
          bnd (rd_block mem (base + offset) extension_length) (\<lambda>d.
          bnd (skipZeros mem (base + offset + extension_length)) (\<lambda>i.
          cvoLoop mem base extensionLength (i - base) (hd d))))
      else Inr cvo)"
  by pat_completeness auto

termination
proof (relation "measure (\<lambda>(mem, base, len, offset, cvo). nat (len - offset))", goal_cases)
  case (2 mem base len offset cvo b id l off d j)
  have "base + off + l \<le> j" by (rule skipZeros_ge) fact
  moreover have "1 \<le> l" unfolding \<open>l = (b AND 0x0F) + 1\<close> by simp
  ultimately have "offset < j - base" using \<open>off = offset + 1\<close> by linarith
  with \<open>offset < len\<close> show ?case by simp
qed simp

declare cvoLoop.simps [simp del]

section \<open>The RTP header\<close>

text \<open>
  The checks up to the payload type, and the offset behind the contributing sources with the end
  of the payload; \<open>None\<close> is the return value -1.
\<close>

definition rtpLimits :: "byte list \<Rightarrow> (int \<times> int) option res" where
  "rtpLimits d =
     (let sz = int (length d) in
      if sz < 12 then Inr None
      else
        bnd (rdi d 0) (\<lambda>d0.
        if drop_bit 6 d0 \<noteq> 2 then Inr None
        else
          bnd (if d0 AND 0x20 \<noteq> 0 then
                 bnd (rdi d (sz - 1)) (\<lambda>paddingLength.
                 Inr (if paddingLength + 12 > sz then None else Some (sz - paddingLength)))
               else Inr (Some sz)) (\<lambda>r.
          case r of None \<Rightarrow> Inr None
          | Some sz \<Rightarrow>
              let payloadOffset = 12 + 4 * (d0 AND 0x0f) in
              Inr (if sz < payloadOffset then None else Some (payloadOffset, sz)))))"

text \<open>The extension: the new offset of the payload and the orientation.\<close>

definition rtpExtension :: "byte list \<Rightarrow> int \<Rightarrow> int \<Rightarrow> byte \<Rightarrow> (int \<times> byte) option res" where
  "rtpExtension mem payloadOffset sz cvo =
     bnd (rdi mem 0) (\<lambda>d0.
     if d0 AND 0x10 = 0 then Inr (Some (payloadOffset, cvo))
     else if sz < payloadOffset + 4 then Inr None
     else
       bnd (rdi mem payloadOffset) (\<lambda>e0. bnd (rdi mem (payloadOffset + 1)) (\<lambda>e1.
       bnd (rdi mem (payloadOffset + 2)) (\<lambda>e2. bnd (rdi mem (payloadOffset + 3)) (\<lambda>e3.
       let extensionLength = 4 * (push_bit 8 e2 OR e3) in
       if sz < payloadOffset + 4 + extensionLength then Inr None
       else
         bnd (if e0 = 0xBE \<and> e1 = 0xDE
              then cvoLoop mem (payloadOffset + 4) extensionLength 0 cvo else Inr cvo) (\<lambda>cvo.
         Inr (Some (payloadOffset + 4 + extensionLength, cvo))))))))"

text \<open>The orientation of the video from the extension element.\<close>

definition setOrientation :: "byte \<Rightarrow> ABuffer \<Rightarrow> ABuffer" where
  "setOrientation cvo b =
     (if cvo = 0 then b\<lparr>ab_ccw_rotation := 0, ab_camera_facing := 0, ab_flip := 0\<rparr>
      else
        let rotation = cvo AND 0x03 in
        b\<lparr>ab_ccw_rotation := (if rotation = 0 then 0 else if rotation = 1 then 90
                               else if rotation = 2 then 180 else 270),
          ab_camera_facing := (if cvo AND 0x08 = 0 then 0 else 1),
          ab_flip := uint (cvo AND 0x04)\<rparr>)"

section \<open>A packet for a track\<close>

text \<open>The source of the track, created and started with its first packet.\<close>

definition trackSource :: "adaptation \<Rightarrow> TrackInfo \<Rightarrow> RTPSource" where
  "trackSource ada t =
     (case mRTPSource t of
        Some s \<Rightarrow> s
      | None \<Rightarrow> srcStart ada (newRTPSource (ti_codec t) (ti_isVideo t)))"

text \<open>
  The result: the return value (0 for \<open>OK\<close>), the new SSRC for the caller, the receiver.
\<close>

definition rcvQueueRTPPacket ::
  "adaptation \<Rightarrow> (nat \<Rightarrow> int) \<Rightarrow> rtp_packet \<Rightarrow> int \<Rightarrow> RTPReceiver \<Rightarrow> (int \<times> 32 word \<times> RTPReceiver) res" where
  "rcvQueueRTPPacket ada clk p trackIndex r =
     (let d = rp_bytes p; mem = rp_mem p in
      if length d < 12 then Inr (- 1, 0, r)
      else
        bnd (u16at d 2) (\<lambda>seq.
        let seqN = uint seq; r = r\<lparr>mLastSeqN := seqN\<rparr> in
        bnd (rtpLimits d) (\<lambda>lim.
        case lim of None \<Rightarrow> Inr (- 1, 0, r)
        | Some (payloadOffset, sz) \<Rightarrow>
            bnd (rd d 1) (\<lambda>d1.
            let pt = d1 AND 0x7f in
            case findTrack (\<lambda>t. mTrackIndex t = trackIndex \<and> ti_payload_type t = pt) (mpTrackInfos r) of
              None \<Rightarrow> Inr (- 1, 0, r)
            | Some i \<Rightarrow>
                let t = mpTrackInfos r ! i in
                if \<not> ti_mStarted t then Inr (0, 0, r)
                else
                  bnd (rtpExtension mem payloadOffset sz (mLastCVOinfo r)) (\<lambda>ext.
                  case ext of None \<Rightarrow> Inr (- 1, 0, r)
                  | Some (payloadOffset, cvo) \<Rightarrow>
                      let r = r\<lparr>mLastCVOinfo := cvo\<rparr> in
                      if pt = 73 then Inr (0, 0, r)
                      else
                        bnd (u32at d 8) (\<lambda>srcId.
                        if mSSRCset t \<and> srcId \<noteq> mSSRCid t then Inr (- 2, srcId, r)
                        else
                          let r = (if mSSRCset t then r else r\<lparr>updateSSRC := updateSSRC r @ [srcId]\<rparr>);
                              t = t\<lparr>mSSRCid := srcId, mSSRCset := True\<rparr>;
                              source = trackSource ada t in
                          bnd (u32at d 4) (\<lambda>rtpTime.
                          bnd (rd_block d payloadOffset (sz - payloadOffset)) (\<lambda>payload.
                          let b = (newABuffer payload)
                                \<lparr>ab_rtp_time := rtpTime, ab_M := uint (drop_bit 7 d1), ab_token := seqN,
                                 ab_int32Data := seq\<rparr>;
                              b = (if trackIndex = IMSMA_RTP_VIDEO then setOrientation cvo b else b) in
                          bnd (processRTPPacket clk b source) (\<lambda>source.
                          Inr (0, 0, r\<lparr>mpTrackInfos := (mpTrackInfos r)[i := t\<lparr>mRTPSource := Some source\<rparr>]\<rparr>)))))))))
     )"

section \<open>Another sender\<close>

text \<open>Ten packets of another sender in a row make the receiver change to it.\<close>

fun requeue :: "adaptation \<Rightarrow> (nat \<Rightarrow> int) \<Rightarrow> int \<Rightarrow> rtp_packet list \<Rightarrow> RTPReceiver \<Rightarrow> RTPReceiver res" where
  "requeue ada clk trackIndex [] r = Inr (r\<lparr>mVideoOtherSSRCQueue := []\<rparr>)"
| "requeue ada clk trackIndex (p # ps) r =
     bnd (rcvQueueRTPPacket ada clk p trackIndex (r\<lparr>mVideoRTPPending := False\<rparr>)) (\<lambda>(_, _, r).
     requeue ada clk trackIndex ps r)"

definition changeSSRC ::
  "adaptation \<Rightarrow> (nat \<Rightarrow> int) \<Rightarrow> rtp_packet \<Rightarrow> int \<Rightarrow> 32 word \<Rightarrow> RTPReceiver \<Rightarrow> RTPReceiver res" where
  "changeSSRC ada clk p trackIndex newSsrc r =
     (if newSsrc = mPreviousSsrc r then Inr r
      else
        let other = (if mVideoOtherSSRCQueue r \<noteq> [] \<and> mSsrcInOtherQueue r \<noteq> newSsrc then []
                     else mVideoOtherSSRCQueue r) @ [p];
            r = r\<lparr>mSsrcInOtherQueue := newSsrc, mVideoOtherSSRCQueue := other\<rparr> in
        if length other < 10 then Inr r
        else
          case findTrack (\<lambda>t. mTrackIndex t = trackIndex) (mpTrackInfos r) of
            None \<Rightarrow> Inr r
          | Some i \<Rightarrow>
              let t = mpTrackInfos r ! i in
              if \<not> ti_mStarted t then Inr r
              else
                bnd (case mRTPSource t of None \<Rightarrow> Inl OutOfBounds | Some s \<Rightarrow> Inr (srcReset ada s)) (\<lambda>s.
                requeue ada clk trackIndex other
                  (r\<lparr>mLastSeqN := 0, mLastCVOinfo := 0,
                     mpTrackInfos := (mpTrackInfos r)[i := t\<lparr>mRTPSource := Some s, mSSRCset := False\<rparr>]\<rparr>)))"

section \<open>The queue of received packets\<close>

definition videoRTPPacketCallBack :: "rtp_packet \<Rightarrow> RTPReceiver \<Rightarrow> RTPReceiver" where
  "videoRTPPacketCallBack p r =
     (let r = r\<lparr>mVideoRTPQueue := mVideoRTPQueue r @ [p]\<rparr> in
      if mVideoRTPPending r then r
      else r\<lparr>rcvLooper := rcvLooper r + 1, mVideoRTPPending := True\<rparr>)"

fun drainQueue :: "adaptation \<Rightarrow> (nat \<Rightarrow> int) \<Rightarrow> rtp_packet list \<Rightarrow> RTPReceiver \<Rightarrow> RTPReceiver res" where
  "drainQueue ada clk [] r = Inr (r\<lparr>mVideoRTPQueue := []\<rparr>)"
| "drainQueue ada clk (p # ps) r =
     bnd (rcvQueueRTPPacket ada clk p IMSMA_RTP_VIDEO (r\<lparr>mVideoRTPPending := False\<rparr>)) (\<lambda>(_, newSsrc, r).
     bnd (if newSsrc \<noteq> 0 then changeSSRC ada clk p IMSMA_RTP_VIDEO newSsrc r else Inr r)
         (drainQueue ada clk ps))"

text \<open>The handler of \<open>kWhatRTPPacket\<close>.\<close>

definition onRTPPacket :: "adaptation \<Rightarrow> (nat \<Rightarrow> int) \<Rightarrow> RTPReceiver \<Rightarrow> RTPReceiver res" where
  "onRTPPacket ada clk r = drainQueue ada clk (mVideoRTPQueue r) r"

definition clearQueues :: "RTPReceiver \<Rightarrow> RTPReceiver" where
  "clearQueues r =
     r\<lparr>mVideoRTPQueue := [], mVideoOtherSSRCQueue := [], mSsrcInOtherQueue := 0, mPreviousSsrc := 0\<rparr>"

definition rcvOnStart :: "adaptation \<Rightarrow> int \<Rightarrow> RTPReceiver \<Rightarrow> RTPReceiver" where
  "rcvOnStart ada trackIndex r =
     (case findTrack (\<lambda>t. mTrackIndex t = trackIndex) (mpTrackInfos r) of
        None \<Rightarrow> r
      | Some i \<Rightarrow>
          let t = mpTrackInfos r ! i;
              t = t\<lparr>mRTPSource := map_option (srcStart ada) (mRTPSource t), ti_mStarted := True\<rparr>;
              r = clearQueues (r\<lparr>mpTrackInfos := (mpTrackInfos r)[i := t]\<rparr>) in
          if trackIndex = IMSMA_RTP_VIDEO then r\<lparr>listening := True\<rparr> else r)"

definition rcvOnStop :: "adaptation \<Rightarrow> int \<Rightarrow> RTPReceiver \<Rightarrow> RTPReceiver" where
  "rcvOnStop ada trackIndex r =
     (case findTrack (\<lambda>t. mTrackIndex t = trackIndex) (mpTrackInfos r) of
        None \<Rightarrow> r
      | Some i \<Rightarrow>
          let t = mpTrackInfos r ! i;
              t = t\<lparr>mRTPSource := map_option (srcStop ada) (mRTPSource t), ti_mStarted := False\<rparr> in
          clearQueues (r\<lparr>mpTrackInfos := (mpTrackInfos r)[i := t], listening := False\<rparr>))"

definition onPeerResumedSendStream :: "adaptation \<Rightarrow> int \<Rightarrow> RTPReceiver \<Rightarrow> RTPReceiver" where
  "onPeerResumedSendStream ada trackIndex r =
     (case findTrack (\<lambda>t. mTrackIndex t = trackIndex) (mpTrackInfos r) of
        None \<Rightarrow> r
      | Some i \<Rightarrow>
          let t = mpTrackInfos r ! i in
          r\<lparr>mLastCVOinfo := 0,
            mpTrackInfos := (mpTrackInfos r)
              [i := t\<lparr>mRTPSource := map_option (peerResumedSendStream ada) (mRTPSource t)\<rparr>]\<rparr>)"

definition onAddStream :: "int \<Rightarrow> byte \<Rightarrow> bool \<Rightarrow> nal_codec \<Rightarrow> RTPReceiver \<Rightarrow> RTPReceiver" where
  "onAddStream trackIndex pt isVideo c r =
     r\<lparr>mpTrackInfos := mpTrackInfos r @
         [\<lparr>mTrackIndex = trackIndex, ti_payload_type = pt, ti_isVideo = isVideo, ti_codec = c,
           mRTPSource = None, mSSRCset = False, mSSRCid = 0, ti_mStarted = False\<rparr>]\<rparr>"

definition onRemoveStream :: "int \<Rightarrow> RTPReceiver \<Rightarrow> RTPReceiver" where
  "onRemoveStream trackIndex r =
     (case findTrack (\<lambda>t. mTrackIndex t = trackIndex) (mpTrackInfos r) of
        None \<Rightarrow> r
      | Some i \<Rightarrow> r\<lparr>mpTrackInfos := take i (mpTrackInfos r) @ drop (Suc i) (mpTrackInfos r)\<rparr>)"

end
