(* ===== verification/RtpRoundTrip.thy ===== *)
theory RtpRoundTrip
  imports RtpReceiver
begin

text \<open>
  A packet that the sender has built is read back by the receiver: the octets of the headers as
  one list, what \<open>createPacket\<close>, \<open>finishPacket\<close> and \<open>sndQueueRTPPacket\<close> make of them, and what
  the parser finds in them.
\<close>

section \<open>The octets of the headers\<close>

definition fixHeader :: "RTPSender \<Rightarrow> access_unit \<Rightarrow> bool \<Rightarrow> byte list" where
  "fixHeader s accu isLast =
     [if m_extmap_CVO_supported s > 0 then 0x90 else 0x80,
      if isLast then rtp_payload_type s OR 0x80 else rtp_payload_type s] @
     be16 (mRTPSeqNo s) @ be32 (rtpTimeOf s (au_timeUs accu)) @ be32 (mSSRC s)"

definition extHeader :: "RTPSender \<Rightarrow> access_unit \<Rightarrow> byte list" where
  "extHeader s accu =
     (if m_extmap_CVO_supported s > 0
      then [0xBE, 0xDE, 0, 1, push_bit 4 (m_extmap_CVO_id s), cvoElement s (newPacket 0 accu), 0, 0]
      else [])"

definition rtpHeader :: "RTPSender \<Rightarrow> access_unit \<Rightarrow> bool \<Rightarrow> byte list" where
  "rtpHeader s accu isLast = fixHeader s accu isLast @ extHeader s accu"

lemma length_be [simp]: "length (be16 w) = 2" "length (be32 w) = 4"
  by (simp_all add: be16_def be32_def)

lemma length_fixHeader [simp]: "length (fixHeader s accu isLast) = 12"
  by (simp add: fixHeader_def)

lemma length_extHeader: "length (extHeader s accu) = (if m_extmap_CVO_supported s > 0 then 8 else 0)"
  by (simp add: extHeader_def)

lemma length_rtpHeader: "length (rtpHeader s accu isLast) = 12 + length (extHeader s accu)"
  by (simp add: rtpHeader_def)

lemma length_rtpHeader_le: "length (rtpHeader s accu isLast) \<le> 20"
  by (simp add: length_rtpHeader length_extHeader)

lemma cvoElement_cong [simp]:
  "cvoElement s (p\<lparr>op_bytes := x, op_int32Data := y, op_rtpOffet := z\<rparr>) = cvoElement s p"
  by (simp add: cvoElement_def Let_def cong: if_cong)

lemma cvoElement_newPacket: "cvoElement s (newPacket c accu) = cvoElement s (newPacket 0 accu)"
  by (simp add: cvoElement_def newPacket_def Let_def cong: if_cong)

lemma cvoElement_seq [simp]: "cvoElement (s\<lparr>mRTPSeqNo := x\<rparr>) p = cvoElement s p"
  by (simp add: cvoElement_def)

text \<open>A packet whose headers are written.\<close>

definition headed :: "int \<Rightarrow> access_unit \<Rightarrow> RTPSender \<Rightarrow> out_packet" where
  "headed c accu s = (newPacket c accu)\<lparr>op_bytes := rtpHeader s accu False, op_int32Data := mRTPSeqNo s\<rparr>"

abbreviation nextSeq :: "RTPSender \<Rightarrow> RTPSender" where
  "nextSeq s \<equiv> s\<lparr>mRTPSeqNo := mRTPSeqNo s + 1\<rparr>"

lemma put_ok:
  "int (length (op_bytes p)) + int (length xs) \<le> op_capacity p \<Longrightarrow>
     put xs p = Inr (p\<lparr>op_bytes := op_bytes p @ xs\<rparr>)"
  by (simp add: put_def)

lemma createPacket_ok:
  assumes "20 \<le> c"
  shows "createPacket c accu s = Inr (nextSeq s, headed c accu s)"
proof -
  let ?p = "(newPacket c accu)\<lparr>op_int32Data := mRTPSeqNo s, op_rtpOffet := 0\<rparr>"
  let ?h = "[0x80, rtp_payload_type s] @ be16 (mRTPSeqNo s) @ be32 (rtpTimeOf s (au_timeUs accu)) @ be32 (mSSRC s)"
  have "put ?h ?p = Inr (?p\<lparr>op_bytes := ?h\<rparr>)"
    using assms by (simp add: put_def newPacket_def)
  then have fixh: "addRTPFixHeader s (newPacket c accu) = Inr (nextSeq s, ?p\<lparr>op_bytes := ?h\<rparr>)"
    by (simp add: addRTPFixHeader_def newPacket_def)
  have ext: "addRTPExtHeader (nextSeq s) (?p\<lparr>op_bytes := ?h\<rparr>) = Inr (headed c accu s)"
  proof (cases "m_extmap_CVO_supported s > 0")
    case True
    have nine: "(9 :: int) AND 0xFFFC = 8" by code_simp
    have cvo: "cvoElement (nextSeq s) (?p\<lparr>op_bytes := x\<rparr>) = cvoElement s (newPacket 0 accu)" for x
      by (simp add: cvoElement_def Let_def newPacket_def cong: if_cong)
    show ?thesis
      using True assms
      unfolding addRTPExtHeader_def cvo
      by (simp add: nine rd_def wr_def put_def newPacket_def headed_def rtpHeader_def
          fixHeader_def extHeader_def numeral_2_eq_2)
  next
    case False
    then show ?thesis
      by (simp add: addRTPExtHeader_def newPacket_def headed_def rtpHeader_def fixHeader_def extHeader_def)
  qed
  show ?thesis using ext by (simp add: createPacket_def fixh)
qed


text \<open>A finished packet in the queue: its octets are the headers, with the marker bit, and the payload.\<close>

definition sent :: "access_unit \<Rightarrow> int \<Rightarrow> bool \<Rightarrow> int \<Rightarrow> int \<Rightarrow> RTPSender \<Rightarrow> byte list \<Rightarrow> out_packet" where
  "sent accu n isLast k c s payload =
     (finishPacket accu n isLast k (headed c accu s))\<lparr>op_bytes := rtpHeader s accu isLast @ payload\<rparr>"

lemma finishPacket_simps [simp]:
  "op_frame_boundary (finishPacket accu n isLast k p) = (isLast \<or> op_frame_boundary p)"
  "op_bytes (finishPacket accu n isLast k p) = drop (nat (op_rtpOffet p)) (op_bytes p)"
  "op_int32Data (finishPacket accu n isLast k p) = op_int32Data p"
  by (simp_all add: finishPacket_def Let_def)

lemma headed_simps [simp]:
  "op_rtpOffet (headed c accu s) = 0" "op_frame_boundary (headed c accu s) = False"
  "op_bytes (headed c accu s) = rtpHeader s accu False" "op_capacity (headed c accu s) = c"
  "op_int32Data (headed c accu s) = mRTPSeqNo s"
  by (simp_all add: headed_def newPacket_def)

lemma sent_simps [simp]:
  "op_bytes (sent accu n isLast k c s payload) = rtpHeader s accu isLast @ payload"
  "op_int32Data (sent accu n isLast k c s payload) = mRTPSeqNo s"
  by (simp_all add: sent_def)

lemma sndQueueRTPPacket_ok:
  "sndQueueRTPPacket s (finishPacket accu n isLast k
       ((headed c accu s0)\<lparr>op_bytes := rtpHeader s0 accu False @ payload\<rparr>)) =
     Inr (s\<lparr>mRTPPacketQueue := mRTPPacketQueue s @ [sent accu n isLast k c s0 payload]\<rparr>)"
proof -
  let ?p = "finishPacket accu n isLast k ((headed c accu s0)\<lparr>op_bytes := rtpHeader s0 accu False @ payload\<rparr>)"
  have bytes: "op_bytes ?p = rtpHeader s0 accu False @ payload" by simp
  have eq: "?p\<lparr>op_bytes := x\<rparr> = (finishPacket accu n isLast k (headed c accu s0))\<lparr>op_bytes := x\<rparr>" for x
    by (cases "n = 1"; cases isLast; cases "au_token accu")
       (simp_all add: finishPacket_def headed_def newPacket_def Let_def)
  show ?thesis
  proof (cases isLast)
    case True
    have "rd (op_bytes ?p) 1 = Inr (rtp_payload_type s0)"
      "wr (op_bytes ?p) 1 (rtp_payload_type s0 OR 0x80) = Inr (rtpHeader s0 accu True @ payload)"
      unfolding bytes by (simp_all add: rd_def wr_def rtpHeader_def fixHeader_def)
    moreover have "op_frame_boundary ?p" using True by simp
    moreover have "sent accu n isLast k c s0 payload = ?p\<lparr>op_bytes := rtpHeader s0 accu True @ payload\<rparr>"
      unfolding sent_def eq using True by simp
    ultimately show ?thesis unfolding sndQueueRTPPacket_def by (simp only: if_True bnd.simps)
  next
    case False
    then have "\<not> op_frame_boundary ?p" by simp
    moreover have "sent accu n isLast k c s0 payload = ?p\<lparr>op_bytes := op_bytes ?p\<rparr>"
      unfolding sent_def eq bytes using False by simp
    then have "sent accu n isLast k c s0 payload = ?p" by (simp del: finishPacket_simps)
    ultimately show ?thesis unfolding sndQueueRTPPacket_def by (simp only: if_False)
  qed
qed

section \<open>Words in network byte order\<close>

lemma and_masks:
  "(w :: 32 word) AND 0xFF = take_bit 8 w" "(w :: 32 word) AND 0xFFFF = take_bit 16 w"
  by (simp_all add: take_bit_eq_mask mask_eq_exp_minus_1)

lemma be16_read:
  assumes "length xs = nat i" "0 \<le> i"
  shows "u16at (xs @ be16 w @ ys) i = Inr (w AND 0xFFFF)"
proof -
  have "push_bit 8 (ucast (ucast (drop_bit 8 w AND 0xFF) :: byte)) OR ucast (ucast (w AND 0xFF) :: byte) = w AND (0xFFFF :: 32 word)"
    unfolding and_masks by (rule bit_word_eqI) (auto simp: bit_simps)
  then show ?thesis
    using assms by (simp add: u16at_def rd_def be16_def nth_append)
qed

lemma be32_read:
  assumes "length xs = nat i" "0 \<le> i"
  shows "u32at (xs @ be32 w @ ys) i = Inr w"
proof -
  have be32: "be32 w = be16 (drop_bit 16 w) @ be16 w"
    unfolding be32_def be16_def and_masks by (auto intro!: bit_word_eqI simp: bit_simps)
  have "u16at (xs @ be32 w @ ys) i = Inr (drop_bit 16 w AND 0xFFFF)"
    unfolding be32 using be16_read [OF assms, of "drop_bit 16 w" "be16 w @ ys"] by simp
  moreover have "u16at (xs @ be32 w @ ys) (i + 2) = Inr (w AND 0xFFFF)"
    unfolding be32 using be16_read [of "xs @ be16 (drop_bit 16 w)" "i + 2" w ys] assms by simp
  moreover have "push_bit 16 (drop_bit 16 w AND 0xFFFF) OR (w AND 0xFFFF) = w"
    unfolding and_masks by (rule bit_word_eqI) (auto simp: bit_simps)
  ultimately show ?thesis by (simp add: u32at_def)
qed


section \<open>The parser on these headers\<close>

lemma fixHeader_split:
  "fixHeader s accu isLast =
     [if m_extmap_CVO_supported s > 0 then 0x90 else 0x80,
      if isLast then rtp_payload_type s OR 0x80 else rtp_payload_type s] @
     be16 (mRTPSeqNo s) @ be32 (rtpTimeOf s (au_timeUs accu)) @ be32 (mSSRC s)"
  by (fact fixHeader_def)

lemma header_words:
  fixes s accu isLast ys
  defines "d \<equiv> rtpHeader s accu isLast @ ys"
  shows "u16at d 2 = Inr (mRTPSeqNo s AND 0xFFFF)"
    "u32at d 4 = Inr (rtpTimeOf s (au_timeUs accu))" "u32at d 8 = Inr (mSSRC s)"
    "rd d 1 = Inr (if isLast then rtp_payload_type s OR 0x80 else rtp_payload_type s)"
    "rd d 0 = Inr (if m_extmap_CVO_supported s > 0 then 0x90 else 0x80)"
proof -
  let ?h = "[if m_extmap_CVO_supported s > 0 then 0x90 else 0x80,
      if isLast then rtp_payload_type s OR 0x80 else rtp_payload_type s] :: byte list"
  let ?t = "rtpTimeOf s (au_timeUs accu)"
  let ?r = "extHeader s accu @ ys"
  have d: "d = ?h @ be16 (mRTPSeqNo s) @ be32 ?t @ be32 (mSSRC s) @ ?r"
    by (simp add: d_def rtpHeader_def fixHeader_def)
  show "u16at d 2 = Inr (mRTPSeqNo s AND 0xFFFF)"
    unfolding d by (rule be16_read) simp_all
  show "u32at d 4 = Inr ?t"
    unfolding d using be32_read [of "?h @ be16 (mRTPSeqNo s)" 4 ?t "be32 (mSSRC s) @ ?r"] by simp
  show "u32at d 8 = Inr (mSSRC s)"
    unfolding d using be32_read [of "?h @ be16 (mRTPSeqNo s) @ be32 ?t" 8 "mSSRC s" ?r] by simp
  show "rd d 1 = Inr (if isLast then rtp_payload_type s OR 0x80 else rtp_payload_type s)"
    "rd d 0 = Inr (if m_extmap_CVO_supported s > 0 then 0x90 else 0x80)"
    unfolding d by (simp_all add: rd_def)
qed

lemma header_limits:
  "rtpLimits (rtpHeader s accu isLast @ ys) = Inr (Some (12, int (length (rtpHeader s accu isLast @ ys))))"
proof -
  let ?d = "rtpHeader s accu isLast @ ys"
  have len: "12 \<le> length ?d" by (simp add: length_rtpHeader)
  have "rdi ?d 0 = Inr (if m_extmap_CVO_supported s > 0 then 0x90 else 0x80)"
    using header_words(5) [of s accu isLast ys] by (simp add: rdi_def)
  moreover have "(0x90 :: int) AND 0x20 = 0" "(0x80 :: int) AND 0x20 = 0" "(0x90 :: int) AND 0x0f = 0"
    "(0x80 :: int) AND 0x0f = 0" "drop_bit 6 (0x90 :: int) = 2" "drop_bit 6 (0x80 :: int) = 2"
    by code_simp+
  ultimately show ?thesis using len by (simp add: rtpLimits_def Let_def)
qed

lemma shifted_id:
  assumes "(i :: byte) < 16"
  shows "drop_bit 4 (uint (push_bit 4 i)) AND 0x0F = uint i" "uint (push_bit 4 i :: byte) AND 0x0F = 0"
proof -
  have "uint i < 2 ^ 4" using assms by (simp add: word_less_def)
  then have "take_bit 4 (uint i) = uint i" by (simp add: take_bit_int_eq_self)
  then have b: "bit i n \<Longrightarrow> n < 4" for n
    by (metis bit_take_bit_iff bit_uint_iff bit_imp_le_length)
  have m: "(0x0F :: int) = mask 4" by (simp add: mask_eq_exp_minus_1)
  show "drop_bit 4 (uint (push_bit 4 i)) AND 0x0F = uint i"
    unfolding m by (rule bit_eqI) (auto simp: bit_simps dest: b)
  show "uint (push_bit 4 i :: byte) AND 0x0F = 0"
    unfolding m by (rule bit_eqI) (auto simp: bit_simps)
qed

lemma cvoLoop_one:
  assumes "rdi m b = Inr (uint e)" "drop_bit 4 (uint e) AND 0x0F = i" "i \<noteq> 0" "i \<noteq> 15"
    "uint e AND 0x0F = 0" "rd_block m (b + 1) 1 = Inr [c]" "skipZeros m (2 + b) = Inr j" "b + 4 \<le> j"
  shows "cvoLoop m b 4 0 cvo = Inr c"
proof -
  have "cvoLoop m b 4 (j - b) c = Inr c" using assms(8) by (simp add: cvoLoop.simps [of m b 4 "j - b"])
  with assms show ?thesis by (simp add: cvoLoop.simps [of m b 4 0] Let_def)
qed

lemma extension_one:
  assumes "rdi m 0 = Inr d0" "d0 AND 0x10 \<noteq> 0" "rdi m 12 = Inr 0xBE" "rdi m 13 = Inr 0xDE" "rdi m 14 = Inr 0"
    "rdi m 15 = Inr 1" "cvoLoop m 16 4 0 cvo = Inr c" "20 \<le> sz"
  shows "rtpExtension m 12 sz cvo = Inr (Some (20, c))"
  using assms by (simp add: rtpExtension_def Let_def)

lemma header_memory:
  fixes s :: RTPSender and accu :: access_unit and isLast :: bool and ps :: "byte list"
  assumes "m_extmap_CVO_supported s > 0"
  defines "m \<equiv> rtpHeader s accu isLast @ ps"
  shows "rdi m 0 = Inr 0x90" "rdi m 12 = Inr 0xBE" "rdi m 13 = Inr 0xDE" "rdi m 14 = Inr 0" "rdi m 15 = Inr 1"
    "rdi m 16 = Inr (uint (push_bit 4 (m_extmap_CVO_id s)))"
    "rd_block m 17 1 = Inr [cvoElement s (newPacket 0 accu)]" "drop 18 m = 0 # 0 # ps"
proof -
  let ?i = "m_extmap_CVO_id s" and ?c = "cvoElement s (newPacket 0 accu)"
  let ?e = "[0xBE, 0xDE, 0, 1, push_bit 4 ?i, ?c, 0, 0] :: byte list"
  have m: "m = fixHeader s accu isLast @ ?e @ ps"
    using assms(1) by (simp add: m_def rtpHeader_def extHeader_def)
  have at: "rdi m (12 + int k) = Inr (uint (?e ! k))" if "k < 8" for k
  proof -
    have "nat (12 + int k) = length (fixHeader s accu isLast) + k" by simp
    then have "m ! nat (12 + int k) = (?e @ ps) ! k" unfolding m by (simp only: nth_append_length_plus)
    also have "\<dots> = ?e ! k" by (subst nth_append) (use that in simp)
    finally have "m ! nat (12 + int k) = ?e ! k" .
    then show ?thesis using that by (simp add: rdi_def rd_def m)
  qed
  show "rdi m 12 = Inr 0xBE" "rdi m 13 = Inr 0xDE" "rdi m 14 = Inr 0" "rdi m 15 = Inr 1"
    "rdi m 16 = Inr (uint (push_bit 4 (m_extmap_CVO_id s)))"
    using at [of 0] at [of 1] at [of 2] at [of 3] at [of 4] by simp_all
  have "drop 17 m = ?c # 0 # 0 # ps" by (simp add: m drop_Cons')
  then show "rd_block m 17 1 = Inr [?c]" by (simp add: rd_block_def m)
  show "drop 18 m = 0 # 0 # ps" by (simp add: m drop_Cons')
  show "rdi m 0 = Inr 0x90"
    using header_words(5) [of s accu isLast ps] assms(1) unfolding m_def by (simp add: rdi_def)
qed

lemma cvo_id_bits:
  assumes "0 < (i :: byte)" "i < 15"
  shows "drop_bit 4 (uint (push_bit 4 i)) AND 0x0F = uint i" "uint i \<noteq> 0" "uint i \<noteq> 15"
    "uint (push_bit 4 i) AND 0x0F = 0"
proof -
  show "uint i \<noteq> 0" "uint i \<noteq> 15" using assms by (auto simp: word_less_def)
  show "drop_bit 4 (uint (push_bit 4 i)) AND 0x0F = uint i"
    by (rule shifted_id(1)) (use assms in \<open>auto simp: word_less_def\<close>)
  show "uint (push_bit 4 i) AND 0x0F = 0"
    by (rule shifted_id(2)) (use assms in \<open>auto simp: word_less_def\<close>)
qed

lemma skipZeros_two:
  assumes "drop 18 m = 0 # 0 # ps" "length m = 20 + length ps"
  shows "skipZeros m 18 = (if length (takeWhile (\<lambda>b. b = 0) ps) < length ps
     then Inr (20 + int (length (takeWhile (\<lambda>b. b = 0) ps))) else Inl OutOfBounds)"
  using assms by (simp add: skipZeros_def)

lemma header_extension:
  assumes "m_extmap_CVO_supported s > 0 \<Longrightarrow> 0 < m_extmap_CVO_id s \<and> m_extmap_CVO_id s < 15"
    and "m_extmap_CVO_supported s > 0 \<Longrightarrow> \<exists>x \<in> set payload. x \<noteq> 0"
  shows "rtpExtension (rtpHeader s accu isLast @ payload @ ys) 12
           (int (length (rtpHeader s accu isLast @ payload))) cvo =
         Inr (Some (int (length (rtpHeader s accu isLast)),
                    if m_extmap_CVO_supported s > 0 then cvoElement s (newPacket 0 accu) else cvo))"
proof (cases "m_extmap_CVO_supported s > 0")
  case False
  have "(0x80 :: int) AND 0x10 = 0" by code_simp
  moreover have "rdi (rtpHeader s accu isLast @ payload @ ys) 0 = Inr 0x80"
    using header_words(5) [of s accu isLast "payload @ ys"] False by (simp add: rdi_def)
  ultimately show ?thesis using False by (simp add: rtpExtension_def length_rtpHeader length_extHeader)
next
  case True
  let ?c = "cvoElement s (newPacket 0 accu)" and ?m = "rtpHeader s accu isLast @ payload @ ys"
  note h = header_memory [OF True, of accu isLast "payload @ ys"]
  have id: "0 < m_extmap_CVO_id s" "m_extmap_CVO_id s < 15" using True assms(1) by simp_all
  obtain j where skip: "skipZeros ?m 18 = Inr j" "20 \<le> j"
  proof -
    obtain x where x: "x \<in> set payload" "x \<noteq> 0" using True assms(2) by auto
    have "length (takeWhile (\<lambda>b. b = 0) (payload @ ys)) < length (payload @ ys)"
      using x takeWhile_eq_all_conv [of "\<lambda>b. b = 0" "payload @ ys"]
        length_takeWhile_le [of "\<lambda>b. b = 0" "payload @ ys"]
      by (metis Un_iff le_neq_implies_less set_append takeWhile_eq_take take_all_iff order_refl)
    then have "skipZeros ?m 18 = Inr (20 + int (length (takeWhile (\<lambda>b. b = 0) (payload @ ys))))"
      using skipZeros_two [OF h(8)] True by (simp add: length_rtpHeader length_extHeader)
    then show ?thesis using that by simp
  qed
  have loop: "cvoLoop ?m 16 4 0 cvo = Inr ?c"
    by (rule cvoLoop_one [OF h(6) cvo_id_bits [OF id]]) (use h(7) skip in simp_all)
  have "(0x90 :: int) AND 0x10 \<noteq> 0" by code_simp
  from extension_one [OF h(1) this h(2-5) loop] have
    "rtpExtension ?m 12 (int (length (rtpHeader s accu isLast @ payload))) cvo = Inr (Some (20, ?c))"
    using True by (simp add: length_rtpHeader length_extHeader)
  then show ?thesis using True by (simp add: length_rtpHeader length_extHeader)
qed


section \<open>The receiver on a packet of the sender\<close>

text \<open>The buffer that the receiver hands to the source of the track.\<close>

definition received :: "RTPSender \<Rightarrow> access_unit \<Rightarrow> bool \<Rightarrow> byte \<Rightarrow> byte list \<Rightarrow> ABuffer" where
  "received s accu isLast cvo payload =
     setOrientation cvo
       ((newABuffer payload)\<lparr>ab_rtp_time := rtpTimeOf s (au_timeUs accu), ab_M := (if isLast then 1 else 0),
          ab_token := uint (mRTPSeqNo s AND 0xFFFF), ab_int32Data := mRTPSeqNo s AND 0xFFFF\<rparr>)"

definition cvoAfter :: "RTPSender \<Rightarrow> access_unit \<Rightarrow> RTPReceiver \<Rightarrow> byte" where
  "cvoAfter s accu r =
     (if m_extmap_CVO_supported s > 0 then cvoElement s (newPacket 0 accu) else mLastCVOinfo r)"

definition afterPacket :: "RTPSender \<Rightarrow> access_unit \<Rightarrow> TrackInfo \<Rightarrow> RTPReceiver \<Rightarrow> RTPReceiver" where
  "afterPacket s accu t r =
     r\<lparr>mLastSeqN := uint (mRTPSeqNo s AND 0xFFFF), mLastCVOinfo := cvoAfter s accu r,
       updateSSRC := (if mSSRCset t then updateSSRC r else updateSSRC r @ [mSSRC s])\<rparr>"

lemma payload_type_bits:
  assumes "(t :: byte) < 128"
  shows "t AND 0x7f = t" "(t OR 0x80) AND 0x7f = t" "uint (drop_bit 7 t) = 0" "uint (drop_bit 7 (t OR 0x80)) = 1"
proof -
  have "uint t < 2 ^ 7" using assms by (simp add: word_less_def)
  then have "take_bit 7 (uint t) = uint t" by (simp add: take_bit_int_eq_self)
  then have b: "bit t n \<Longrightarrow> n < 7" for n
    by (metis bit_take_bit_iff bit_uint_iff bit_imp_le_length)
  have m: "(0x7f :: byte) = mask 7" and e: "(0x80 :: byte) = push_bit 7 1"
    by (simp_all add: mask_eq_exp_minus_1)
  show id: "t AND 0x7f = t"
    unfolding m by (rule bit_word_eqI) (auto simp: bit_simps dest: b)
  then show "(t OR 0x80) AND 0x7f = t" by (simp add: bit.conj_disj_distrib2)
  show "uint (drop_bit 7 t) = 0" by (rule bit_eqI) (auto simp: bit_simps dest: b)
  show "uint (drop_bit 7 (t OR 0x80)) = 1"
    unfolding e by (rule bit_eqI) (auto simp: bit_simps dest: b)
qed

lemma rcv_steps:
  assumes "\<not> length (rp_bytes p) < 12" "u16at (rp_bytes p) 2 = Inr q" "rtpLimits (rp_bytes p) = Inr (Some (off, sz))"
    "rd (rp_bytes p) 1 = Inr d1" "d1 AND 0x7f = pt"
    "findTrack (\<lambda>t. mTrackIndex t = idx \<and> ti_payload_type t = pt) (mpTrackInfos r) = Some i"
    "mpTrackInfos r ! i = t" "ti_mStarted t"
    "rtpExtension (rp_mem p) off sz (mLastCVOinfo r) = Inr (Some (off', cvo))" "pt \<noteq> 73"
    "u32at (rp_bytes p) 8 = Inr src" "mSSRCset t \<Longrightarrow> mSSRCid t = src" "u32at (rp_bytes p) 4 = Inr time"
    "rd_block (rp_bytes p) off' (sz - off') = Inr payload"
  shows "rcvQueueRTPPacket ada clk p idx r =
     bnd (processRTPPacket clk
            ((if idx = IMSMA_RTP_VIDEO then setOrientation cvo else id)
               ((newABuffer payload)\<lparr>ab_rtp_time := time, ab_M := uint (drop_bit 7 d1), ab_token := uint q,
                  ab_int32Data := q\<rparr>))
            (trackSource ada (t\<lparr>mSSRCid := src, mSSRCset := True\<rparr>))) (\<lambda>source.
     Inr (0, 0, r\<lparr>mLastSeqN := uint q, mLastCVOinfo := cvo,
       updateSSRC := (if mSSRCset t then updateSSRC r else updateSSRC r @ [src]),
       mpTrackInfos := (mpTrackInfos r)[i := t\<lparr>mSSRCid := src, mSSRCset := True, mRTPSource := Some source\<rparr>]\<rparr>))"
  using assms by (cases "mSSRCset t") (simp_all add: rcvQueueRTPPacket_def Let_def)

lemma rcv_reads_sent:
  assumes pt: "rtp_payload_type s < 128" "rtp_payload_type s \<noteq> 73"
    and ext: "m_extmap_CVO_supported s > 0 \<Longrightarrow> 0 < m_extmap_CVO_id s \<and> m_extmap_CVO_id s < 15"
    and y: "\<exists>x \<in> set payload. x \<noteq> 0"
    and track: "findTrack (\<lambda>t. mTrackIndex t = IMSMA_RTP_VIDEO \<and> ti_payload_type t = rtp_payload_type s)
        (mpTrackInfos r) = Some i" "mpTrackInfos r ! i = t" "ti_mStarted t" "mSSRCset t \<Longrightarrow> mSSRCid t = mSSRC s"
  shows "rcvQueueRTPPacket ada clk \<lparr>rp_bytes = rtpHeader s accu isLast @ payload, rp_tail = rest\<rparr> IMSMA_RTP_VIDEO r =
     bnd (processRTPPacket clk (received s accu isLast (cvoAfter s accu r) payload)
            (trackSource ada (t\<lparr>mSSRCid := mSSRC s, mSSRCset := True\<rparr>))) (\<lambda>source.
     Inr (0, 0, (afterPacket s accu t r)\<lparr>mpTrackInfos :=
       (mpTrackInfos r)[i := t\<lparr>mSSRCid := mSSRC s, mSSRCset := True, mRTPSource := Some source\<rparr>]\<rparr>))"
proof -
  let ?h = "rtpHeader s accu isLast"
  let ?d = "?h @ payload"
  let ?b1 = "if isLast then rtp_payload_type s OR 0x80 else rtp_payload_type s"
  note w = header_words [of s accu isLast payload]
  note l = header_limits [of s accu isLast payload]
  have len: "\<not> length ?d < 12" by (simp add: length_rtpHeader)
  have pt': "?b1 AND 0x7f = rtp_payload_type s" and m: "uint (drop_bit 7 ?b1) = (if isLast then 1 else 0)"
    using payload_type_bits [OF pt(1)] by simp_all
  have e: "rtpExtension (?h @ payload @ rest) 12 (int (length ?d)) (mLastCVOinfo r) =
      Inr (Some (int (length ?h), cvoAfter s accu r))"
    using header_extension [of s payload accu isLast rest "mLastCVOinfo r"] ext y
    by (simp add: cvoAfter_def)
  have blk: "rd_block ?d (int (length ?h)) (int (length ?d) - int (length ?h)) = Inr payload"
    using rd_block_mid [of ?h payload "[]"] by simp
  have t: "\<not> (mSSRCset t \<and> mSSRC s \<noteq> mSSRCid t)" using track(4) by auto
  show ?thesis
    by (subst rcv_steps [of _ "mRTPSeqNo s AND 0xFFFF" 12 "int (length ?d)" ?b1 "rtp_payload_type s" _ _ i t
          "int (length ?h)" "cvoAfter s accu r" "mSSRC s" "rtpTimeOf s (au_timeUs accu)" payload])
       (use len w l pt' track e pt(2) blk m in \<open>simp_all add: received_def afterPacket_def\<close>)
qed


text \<open>The orientation survives, but a horizontal flip (1) arrives as 4.\<close>

lemma orientation_received:
  assumes "mOperatorID s \<noteq> 18" "au_ccw_rotation accu \<in> {0, 90, 180, 270}"
    "au_camera_facing accu \<in> {0, 1}" "au_flip accu \<in> {0, 1}"
  shows "ab_ccw_rotation (setOrientation (cvoElement s (newPacket 0 accu)) b) = au_ccw_rotation accu \<and>
    ab_camera_facing (setOrientation (cvoElement s (newPacket 0 accu)) b) = au_camera_facing accu \<and>
    ab_flip (setOrientation (cvoElement s (newPacket 0 accu)) b) = 4 * au_flip accu"
proof -
  have "cvoElement s (newPacket 0 accu) =
      word_of_int (8 * au_camera_facing accu + 4 * au_flip accu + au_ccw_rotation accu div 90)"
    using assms unfolding insert_iff empty_iff simp_thms
    by (elim disjE) (simp_all add: cvoElement_def newPacket_def Let_def)
  then show ?thesis
    using assms(2-4) unfolding insert_iff empty_iff simp_thms
    by (elim disjE) (simp_all add: setOrientation_def Let_def)
qed

text \<open>C5. A packet built by \<open>addRTPFixHeader\<close>, \<open>addRTPExtHeader\<close>, the copy of the payload and
  \<open>queueRTPPacket\<close> of the sender is accepted by \<open>RTPReceiver::queueRTPPacket\<close> for a started track
  with its payload type and SSRC, whatever the memory behind it holds: the source of the track gets
  exactly the payload with the RTP time, the marker and the low 16 bits of the sequence number, and
  the rotation and the camera of the frame, when the orientation extension was negotiated. Only the flip is changed: 1 arrives as 4.\<close>

theorem rtp_packet_read_back:
  assumes "20 + int (length payload) \<le> c" "\<exists>x \<in> set payload. x \<noteq> 0"
    and "rtp_payload_type s < 128" "rtp_payload_type s \<noteq> 73"
    and "0 < m_extmap_CVO_supported s" "0 < m_extmap_CVO_id s \<and> m_extmap_CVO_id s < 15"
    and "mOperatorID s \<noteq> 18" "au_ccw_rotation accu \<in> {0, 90, 180, 270}"
    and "au_camera_facing accu \<in> {0, 1}" "au_flip accu \<in> {0, 1}"
    and "findTrack (\<lambda>t. mTrackIndex t = IMSMA_RTP_VIDEO \<and> ti_payload_type t = rtp_payload_type s)
           (mpTrackInfos r) = Some i"
    and "mpTrackInfos r ! i = t" "ti_mStarted t" "mSSRCset t \<Longrightarrow> mSSRCid t = mSSRC s"
  shows "\<exists>out b. bnd (createPacket c accu s) (\<lambda>(s', p). bnd (put payload p) (\<lambda>p.
             sndQueueRTPPacket s' (finishPacket accu n isLast k p))) =
           Inr ((nextSeq s)\<lparr>mRTPPacketQueue := mRTPPacketQueue s @ [out]\<rparr>) \<and>
         rcvQueueRTPPacket ada clk \<lparr>rp_bytes = op_bytes out, rp_tail = rest\<rparr> IMSMA_RTP_VIDEO r =
           bnd (processRTPPacket clk b (trackSource ada (t\<lparr>mSSRCid := mSSRC s, mSSRCset := True\<rparr>))) (\<lambda>source.
           Inr (0, 0, (afterPacket s accu t r)\<lparr>mpTrackInfos :=
             (mpTrackInfos r)[i := t\<lparr>mSSRCid := mSSRC s, mSSRCset := True, mRTPSource := Some source\<rparr>]\<rparr>)) \<and>
         ab_data b = payload \<and> ab_int32Data b = mRTPSeqNo s AND 0xFFFF \<and>
         ab_rtp_time b = rtpTimeOf s (au_timeUs accu) \<and> ab_M b = (if isLast then 1 else 0) \<and>
         ab_ccw_rotation b = au_ccw_rotation accu \<and> ab_camera_facing b = au_camera_facing accu \<and>
         ab_flip b = 4 * au_flip accu"
proof (intro exI conjI)
  let ?out = "sent accu n isLast k c s payload"
  let ?b = "received s accu isLast (cvoAfter s accu r) payload"
  have c: "20 \<le> c" using assms(1) by simp
  have "put payload (headed c accu s) =
      Inr ((headed c accu s)\<lparr>op_bytes := rtpHeader s accu False @ payload\<rparr>)"
    using assms(1) length_rtpHeader_le [of s accu False] by (simp add: put_def)
  then show "bnd (createPacket c accu s) (\<lambda>(s', p). bnd (put payload p) (\<lambda>p.
             sndQueueRTPPacket s' (finishPacket accu n isLast k p))) =
           Inr ((nextSeq s)\<lparr>mRTPPacketQueue := mRTPPacketQueue s @ [?out]\<rparr>)"
    by (simp add: createPacket_ok [OF c] sndQueueRTPPacket_ok)
  show "rcvQueueRTPPacket ada clk \<lparr>rp_bytes = op_bytes ?out, rp_tail = rest\<rparr> IMSMA_RTP_VIDEO r =
           bnd (processRTPPacket clk ?b (trackSource ada (t\<lparr>mSSRCid := mSSRC s, mSSRCset := True\<rparr>))) (\<lambda>source.
           Inr (0, 0, (afterPacket s accu t r)\<lparr>mpTrackInfos :=
             (mpTrackInfos r)[i := t\<lparr>mSSRCid := mSSRC s, mSSRCset := True, mRTPSource := Some source\<rparr>]\<rparr>))"
    unfolding sent_simps
    by (rule rcv_reads_sent [OF assms(3,4) _ assms(2) assms(11-14)]) (use assms(6) in auto)
qed (use assms(5) orientation_received [OF assms(7-10)] in
      \<open>simp_all add: received_def cvoAfter_def setOrientation_def newABuffer_def Let_def\<close>)

definition exSender :: RTPSender where
  "exSender = (newRTPSender 0x12345678 0)\<lparr>media_is_video := True, mime_Type := IMSMA_RTP_VIDEO_H264,
     packetize_mode := IMSMA_NON_INTERLEAVED_MODE, sample_rate := 90000, rtp_payload_type := 96,
     m_extmap_CVO_supported := 1, m_extmap_CVO_id := 1, mStarted := True\<rparr>"

definition exUnit :: access_unit where
  "exUnit = \<lparr>au_timeUs = 1000000, au_ccw_rotation = 90, au_camera_facing = 1, au_flip = 1, au_token = None\<rparr>"

definition exAda :: adaptation where
  "exAda = \<lparr>ada_resetParamOnstart = (\<lambda>n. 0), ada_resetParamOnstop = (\<lambda>n. 0), ada_peerResumedSendStream = (\<lambda>n. 0)\<rparr>"

definition exReceiver :: RTPReceiver where
  "exReceiver = rcvOnStart exAda 1 (onAddStream 1 96 True avcCodec newRTPReceiver)"

lemma exReceiver_track:
  "findTrack (\<lambda>t. mTrackIndex t = IMSMA_RTP_VIDEO \<and> ti_payload_type t = 96) (mpTrackInfos exReceiver) = Some 0"
  "ti_mStarted (mpTrackInfos exReceiver ! 0)" "\<not> mSSRCset (mpTrackInfos exReceiver ! 0)"
  by (simp_all add: exReceiver_def rcvOnStart_def onAddStream_def newRTPReceiver_def clearQueues_def
      IMSMA_RTP_VIDEO_def Let_def)

lemma exSender_fields [simp]:
  "rtp_payload_type exSender = 96" "m_extmap_CVO_supported exSender = 1" "m_extmap_CVO_id exSender = 1"
  "mOperatorID exSender = 0" "mMTUSize exSender = 1200" "mRTPSeqNo exSender = 0"
  by (simp_all add: exSender_def newRTPSender_def imsma_rtp_MTU_size_def)

lemma exUnit_fields [simp]:
  "au_ccw_rotation exUnit = 90" "au_camera_facing exUnit = 1" "au_flip exUnit = 1"
  by (simp_all add: exUnit_def)

theorem rtp_packet_read_back_witness:
  "\<exists>(out :: out_packet) b source. rcvQueueRTPPacket exAda int \<lparr>rp_bytes = op_bytes out, rp_tail = []\<rparr> IMSMA_RTP_VIDEO exReceiver =
     bnd (processRTPPacket int b source) (\<lambda>source.
       Inr (0, 0, (afterPacket exSender exUnit (mpTrackInfos exReceiver ! 0) exReceiver)\<lparr>mpTrackInfos :=
             (mpTrackInfos exReceiver)[0 := (mpTrackInfos exReceiver ! 0)\<lparr>mSSRCid := mSSRC exSender, mSSRCset := True,
                mRTPSource := Some source\<rparr>]\<rparr>)) \<and>
     ab_data b = [0x65, 1, 2] \<and> ab_flip b = 4 * au_flip exUnit"
proof -
  note H = rtp_packet_read_back [where s = exSender and accu = exUnit and c = 1200 and payload = "[0x65, 1, 2]" and
      i = 0 and t = "mpTrackInfos exReceiver ! 0" and
      r = exReceiver and n = 1 and k = 3 and isLast = True and ada = exAda and clk = int and rest = "[]"]
  show ?thesis
    apply (rule H [THEN exE])
    apply (simp_all add: exReceiver_track del: findTrack.simps)[14]
    by (elim exE conjE, intro exI conjI, assumption+)
qed

end
