(* ===== verification/RtpFraming.thy ===== *)
theory RtpFraming
  imports RtpSender RtpRoundTrip
begin

text \<open>
  What the packetization functions put on the wire. An access unit becomes a list of groups: a
  unit alone in a packet, several units in an aggregation packet, the fragments of one unit. The
  interface between the two ends of a video stream is the locale \<open>nal_transport\<close>: its laws say
  how the format of the sender looks to the codec of the receiver. It is shown here what the
  packets of every access unit are; that the assembler recovers the units is shown in
  \<open>RtpDelivery\<close>. AVC and HEVC provide the interface.
\<close>

section \<open>Groups of payloads\<close>

datatype nal_group =
    GSingle "byte list"
  | GStap "byte list list"
  | GFrag "byte list" "byte list list"

fun group_nals :: "nal_group \<Rightarrow> byte list list" where
  "group_nals (GSingle nal) = [nal]"
| "group_nals (GStap nals) = nals"
| "group_nals (GFrag nal _) = [nal]"

definition pfx :: "nal_format \<Rightarrow> byte list \<Rightarrow> bool \<Rightarrow> bool \<Rightarrow> byte list" where
  "pfx f nal S E = (case nf_prefix f nal S E of Inr p \<Rightarrow> p | Inl _ \<Rightarrow> [])"

text \<open>A payload with the marker bit of its packet.\<close>

fun frags :: "nal_format \<Rightarrow> byte list \<Rightarrow> bool \<Rightarrow> bool \<Rightarrow> byte list list \<Rightarrow> (byte list \<times> bool) list" where
  "frags f nal S m [] = []"
| "frags f nal S m [ch] = [(pfx f nal S True @ ch, m)]"
| "frags f nal S m (ch # ch' # chs) = (pfx f nal S False @ ch, False) # frags f nal False m (ch' # chs)"

definition unitLen :: "byte list \<Rightarrow> byte list" where
  "unitLen nal = [word_of_int (drop_bit 8 (int (length nal)) AND 0xff), word_of_int (int (length nal) AND 0xff)]"

definition stapBody :: "byte list list \<Rightarrow> byte list" where
  "stapBody nals = concat (map (\<lambda>nal. unitLen nal @ nal) nals)"

fun group_payloads :: "nal_format \<Rightarrow> bool \<Rightarrow> nal_group \<Rightarrow> (byte list \<times> bool) list" where
  "group_payloads f m (GSingle nal) = [(nal, m)]"
| "group_payloads f m (GStap nals) = [(nf_stap f @ stapBody nals, m)]"
| "group_payloads f m (GFrag nal chs) = frags f nal True m chs"

text \<open>The marker is on the last packet of the last group.\<close>

fun groups_payloads :: "nal_format \<Rightarrow> bool \<Rightarrow> nal_group list \<Rightarrow> (byte list \<times> bool) list" where
  "groups_payloads f m [] = []"
| "groups_payloads f m [g] = group_payloads f m g"
| "groups_payloads f m (g # g' # gs) = group_payloads f False g @ groups_payloads f m (g' # gs)"

lemma groups_payloads_snoc:
  "groups_payloads f m (gs @ [g]) = groups_payloads f False gs @ group_payloads f m g"
proof (induction gs)
  case (Cons h gs)
  then show ?case by (cases gs) simp_all
qed simp

section \<open>Packets on the wire\<close>

fun wireBytes :: "RTPSender \<Rightarrow> access_unit \<Rightarrow> (byte list \<times> bool) list \<Rightarrow> byte list list" where
  "wireBytes s accu [] = []"
| "wireBytes s accu ((d, m) # ps) = (rtpHeader s accu m @ d) # wireBytes (nextSeq s) accu ps"

lemma length_wireBytes [simp]: "length (wireBytes s accu ps) = length ps"
  by (induction s accu ps rule: wireBytes.induct) simp_all

lemma rtpHeader_queue [simp]:
  "rtpHeader (s\<lparr>mRTPPacketQueue := q\<rparr>) accu m = rtpHeader s accu m"
  by (simp add: rtpHeader_def fixHeader_def extHeader_def rtpTimeOf_def cvoElement_def)

lemma wireBytes_queue [simp]:
  "wireBytes (s\<lparr>mRTPPacketQueue := q\<rparr>) accu ps = wireBytes s accu ps"
proof (induction ps arbitrary: s)
  case (Cons p ps)
  have "s\<lparr>mRTPPacketQueue := q, mRTPSeqNo := mRTPSeqNo s + 1\<rparr> = (nextSeq s)\<lparr>mRTPPacketQueue := q\<rparr>" by simp
  then have "wireBytes (s\<lparr>mRTPPacketQueue := q, mRTPSeqNo := mRTPSeqNo s + 1\<rparr>) accu ps = wireBytes (nextSeq s) accu ps"
    using Cons.IH [of "nextSeq s"] by (simp only:)
  then show ?case by (cases p) simp
qed simp

text \<open>The sender has queued the packets with these payloads.\<close>

definition emitted :: "access_unit \<Rightarrow> RTPSender \<Rightarrow> RTPSender \<Rightarrow> (byte list \<times> bool) list \<Rightarrow> bool" where
  "emitted accu s s' ps \<longleftrightarrow>
     (\<exists>outs. s' = s\<lparr>mRTPSeqNo := mRTPSeqNo s + of_nat (length ps),
                    mRTPPacketQueue := mRTPPacketQueue s @ outs\<rparr> \<and>
             map op_bytes outs = wireBytes s accu ps)"

lemma emitted_Nil [simp]: "emitted accu s s []"
  by (simp add: emitted_def)

lemma wireBytes_append:
  "wireBytes s accu (as @ bs) =
     wireBytes s accu as @ wireBytes (s\<lparr>mRTPSeqNo := mRTPSeqNo s + of_nat (length as)\<rparr>) accu bs"
  by (induction s accu as rule: wireBytes.induct) (simp_all add: add_ac)

lemma emitted_trans:
  assumes "emitted accu s s1 as" "emitted accu s1 s2 bs"
  shows "emitted accu s s2 (as @ bs)"
proof -
  obtain xs where s1: "s1 = s\<lparr>mRTPSeqNo := mRTPSeqNo s + of_nat (length as), mRTPPacketQueue := mRTPPacketQueue s @ xs\<rparr>"
    and xs: "map op_bytes xs = wireBytes s accu as"
    using assms(1) by (auto simp: emitted_def)
  obtain ys where s2: "s2 = s1\<lparr>mRTPSeqNo := mRTPSeqNo s1 + of_nat (length bs), mRTPPacketQueue := mRTPPacketQueue s1 @ ys\<rparr>"
    and ys: "map op_bytes ys = wireBytes s1 accu bs"
    using assms(2) by (auto simp: emitted_def)
  have "wireBytes s1 accu bs = wireBytes (s\<lparr>mRTPSeqNo := mRTPSeqNo s + of_nat (length as)\<rparr>) accu bs"
    unfolding s1 by simp
  then show ?thesis
    unfolding emitted_def using xs ys s1 s2
    by (intro exI [of _ "xs @ ys"]) (simp add: wireBytes_append add_ac)
qed

lemma emitted_one:
  "emitted accu s ((nextSeq s)\<lparr>mRTPPacketQueue := mRTPPacketQueue s @ [sent accu n m k c s d]\<rparr>) [(d, m)]"
  unfolding emitted_def by (rule exI [of _ "[sent accu n m k c s d]"]) simp

lemma emitted_config [simp]:
  assumes "emitted accu s s' ps"
  shows "mMTUSize s' = mMTUSize s"
  using assms by (auto simp: emitted_def)


lemma put_headed:
  "int (length (rtpHeader s accu False)) + int (length xs) \<le> c \<Longrightarrow>
     put xs (headed c accu s) = Inr ((headed c accu s)\<lparr>op_bytes := rtpHeader s accu False @ xs\<rparr>)"
  by (simp add: put_def)

lemma fuLoop_step:
  assumes "off < int (length nal)"
    and "(case out of None \<Rightarrow> createPacket (mMTUSize st) accu st | Some p \<Rightarrow> Inr (st, p)) = Inr (s, p)"
    and "take_bit 64 (op_capacity p - int (length (op_bytes p)) - nf_prefixLen f) = room"
    and "min room (int (length nal) - off) = cp"
    and "nf_prefix f nal (off = nf_header f) (off + cp = int (length nal)) = Inr dst"
    and "rd_block nal off cp = Inr d" "put (dst @ d) p = Inr p'"
    and "sndQueueRTPPacket s (finishPacket accu cnt (remain \<le> 0 \<and> off + cp = int (length nal)) cp p') = Inr s1"
  shows "fuLoop (Suc n) f accu remain nal off out cnt st =
     fuLoop n f accu remain nal (off + cp) None (cnt + 1) s1"
  using assms(1) by (subst fuLoop.simps) (simp add: assms(2-) Let_def)

text \<open>Octets are left after every unit but the last.\<close>

fun leftOk :: "(byte list \<times> int) list \<Rightarrow> bool" where
  "leftOk [] \<longleftrightarrow> True"
| "leftOk [(nal, left)] \<longleftrightarrow> left \<le> 0"
| "leftOk ((nal, left) # x # xs) \<longleftrightarrow> left > 0 \<and> leftOk (x # xs)"

section \<open>The interface\<close>

text \<open>
  \<open>whole\<close> units may travel in one packet, \<open>splittable\<close> ones in fragments; \<open>fuT\<close> is the type the
  receiver reads from the fragments of a unit, \<open>imp\<close> the importance it notes.
\<close>

locale nal_transport =
  fixes f :: nal_format and c :: nal_codec
    and whole :: "byte list \<Rightarrow> bool" and splittable :: "byte list \<Rightarrow> bool"
    and fuT :: "byte list \<Rightarrow> byte" and imp :: "byte list \<Rightarrow> int option"
  assumes header_pos: "0 < nf_header f" "nf_header f \<le> 2"
    and prefixLen: "nf_prefixLen f = nc_fuMin c" "nf_header f < nc_fuMin c" "nc_fuMin c \<le> 3"
    and stapLen: "length (nf_stap f) = nc_stapHeader c" "nf_stap f \<noteq> []" "nc_stapHeader c \<le> 2"
    and whole_law: "whole nal \<Longrightarrow> nal \<noteq> [] \<and> hd nal AND 0x80 = 0 \<and> nc_kind c (hd nal) = SingleNAL \<and> (\<exists>x \<in> set nal. x \<noteq> 0) \<and>
          nf_header f \<le> int (length nal) \<and> nc_stapMin c \<le> int (length (nf_stap f)) + 2 + int (length nal)"
    and stap_law: "hd (nf_stap f) AND 0x80 = 0" "nc_kind c (hd (nf_stap f)) = AggregationPacket" "hd (nf_stap f) \<noteq> 0"
    and prefix_total: "splittable nal \<Longrightarrow>
          \<exists>p. nf_prefix f nal S E = Inr p \<and> int (length p) = nf_prefixLen f"
    and prefix_law: "splittable nal \<Longrightarrow> nf_prefix f nal S E = Inr p \<Longrightarrow>
          hd p \<noteq> 0 \<and> hd p AND 0x80 = 0 \<and> nc_kind c (hd p) = FragmentationUnit \<and>
          (last p AND 0x80 = 0 \<longleftrightarrow> \<not> S) \<and> (last p AND 0x40 = 0 \<longleftrightarrow> \<not> E) \<and>
          nc_fuType c (p @ d) = Inr (fuT nal) \<and>
          nc_reassemble c (p @ d) = Inr (take (nat (nf_header f)) nal, imp nal)"
begin

lemma pfx_ok:
  assumes "splittable nal"
  shows "nf_prefix f nal S E = Inr (pfx f nal S E)" "int (length (pfx f nal S E)) = nc_fuMin c"
  using prefix_total [OF assms, of S E] prefixLen by (auto simp: pfx_def)

lemma fuLoop_ok:
  assumes "splittable nal" "nf_header f \<le> off" "off < int (length nal)" "int (length nal) - off \<le> int n"
    and "40 \<le> mMTUSize s" "mMTUSize s < 2 ^ 31"
    and "out = None \<and> st = s \<or> out = Some (headed (mMTUSize s) accu s) \<and> st = nextSeq s"
  shows "\<exists>s' k chs. fuLoop n f accu remain nal off out cnt st = Inr (s', k) \<and> chs \<noteq> [] \<and>
     concat chs = drop (nat off) nal \<and> [] \<notin> set chs \<and>
     emitted accu s s' (frags f nal (off = nf_header f) (remain \<le> 0) chs)"
  using assms(2-)
proof (induction n arbitrary: off out st s cnt)
  case 0
  then show ?case by simp
next
  case (Suc n)
  let ?len = "int (length nal)" and ?p = "headed (mMTUSize s) accu s"
  define room where "room = mMTUSize s - int (length (rtpHeader s accu False)) - nf_prefixLen f"
  define cp where "cp = min room (?len - off)"
  let ?E = "off + cp = ?len" and ?S = "off = nf_header f"
  let ?d = "take (nat cp) (drop (nat off) nal)"
  have opn: "(case out of None \<Rightarrow> createPacket (mMTUSize st) accu st | Some p \<Rightarrow> Inr (st, p)) = Inr (nextSeq s, ?p)"
    using Suc.prems by (auto simp: createPacket_ok)
  have off: "0 \<le> off" using header_pos Suc.prems(1) by linarith
  have room: "17 \<le> room" "room < 2 ^ 31"
    using length_rtpHeader_le [of s accu False] prefixLen header_pos Suc.prems(4,5)
    unfolding room_def by linarith+
  have room64: "take_bit 64 room = room"
    using room by (intro take_bit_int_eq_self) simp_all
  have copy: "0 < cp" "off + cp \<le> ?len" using room Suc.prems(2) by (auto simp: cp_def)
  note p = pfx_ok [OF assms(1), of ?S ?E]
  have blk: "rd_block nal off cp = Inr ?d"
    using copy off by (simp add: rd_block_def)
  have dlen: "int (length ?d) = cp" using copy off by simp
  have put: "put (pfx f nal ?S ?E @ ?d) ?p =
      Inr (?p\<lparr>op_bytes := rtpHeader s accu False @ (pfx f nal ?S ?E @ ?d)\<rparr>)"
    by (rule put_headed) (use p(2) prefixLen(1) dlen in \<open>auto simp: cp_def room_def split: if_splits\<close>)
  define s1 where "s1 = (nextSeq s)\<lparr>mRTPPacketQueue := mRTPPacketQueue s @
      [sent accu cnt (remain \<le> 0 \<and> ?E) cp (mMTUSize s) s (pfx f nal ?S ?E @ ?d)]\<rparr>"
  have em: "emitted accu s s1 [(pfx f nal ?S ?E @ ?d, remain \<le> 0 \<and> ?E)]"
    unfolding s1_def by (rule emitted_one)
  have step: "fuLoop (Suc n) f accu remain nal off out cnt st =
      fuLoop n f accu remain nal (off + cp) None (cnt + 1) s1"
    by (rule fuLoop_step [OF Suc.prems(2) opn _ cp_def [symmetric] p(1) blk put])
       (use room64 in \<open>simp_all add: room_def [symmetric] sndQueueRTPPacket_ok s1_def\<close>)
  show ?case
  proof (cases ?E)
    case True
    then have "fuLoop n f accu remain nal (off + cp) None (cnt + 1) s1 = Inr (s1, cnt + 1)"
      by (simp add: fuLoop.simps)
    moreover have "?d = drop (nat off) nal"
      using True off by (auto simp: nat_diff_distrib)
    moreover have "?d \<noteq> []" using dlen copy by auto
    moreover have "emitted accu s s1 (frags f nal ?S (remain \<le> 0) [?d])" using em True by simp
    ultimately show ?thesis
      unfolding step by (intro exI [of _ s1] exI [of _ "cnt + 1"] exI [of _ "[?d]"] conjI) auto
  next
    case False
    have "mMTUSize s1 = mMTUSize s" by (simp add: s1_def)
    then obtain s' k chs where rec: "fuLoop n f accu remain nal (off + cp) None (cnt + 1) s1 = Inr (s', k)"
      "chs \<noteq> []" "concat chs = drop (nat (off + cp)) nal" "[] \<notin> set chs"
      "emitted accu s1 s' (frags f nal (off + cp = nf_header f) (remain \<le> 0) chs)"
    proof -
      have "nf_header f \<le> off + cp" "off + cp < ?len" "?len - (off + cp) \<le> int n"
        using copy False Suc.prems(1,3) by linarith+
      from Suc.IH [OF this, of s1 None s1 "cnt + 1"] show ?thesis
        using that Suc.prems(4,5) \<open>mMTUSize s1 = mMTUSize s\<close> by auto
    qed
    obtain ch chs' where chs: "chs = ch # chs'" using rec(2) by (cases chs) auto
    have "off + cp \<noteq> nf_header f" using copy Suc.prems(1) by linarith
    then have "emitted accu s s' (frags f nal ?S (remain \<le> 0) (?d # chs))"
      using emitted_trans [OF em rec(5)] False by (simp add: chs)
    moreover have "concat (?d # chs) = drop (nat off) nal"
    proof -
      have "nat (off + cp) = nat cp + nat off" using copy off by auto
      then show ?thesis using rec(3) append_take_drop_id [of "nat cp" "drop (nat off) nal"]
        by (simp add: add.commute)
    qed
    moreover have "?d \<noteq> []" using dlen copy by auto
    ultimately show ?thesis
      using rec(1,4) unfolding step
      by (intro exI [of _ s'] exI [of _ k] exI [of _ "?d # chs"]) auto
  qed
qed

text \<open>The groups the packetization forms.\<close>

fun group_ok :: "nal_group \<Rightarrow> bool" where
  "group_ok (GSingle nal) \<longleftrightarrow> whole nal"
| "group_ok (GStap nals) \<longleftrightarrow> nals \<noteq> [] \<and> (\<forall>nal \<in> set nals. whole nal \<and> length nal < 65536)"
| "group_ok (GFrag nal chs) \<longleftrightarrow> splittable nal \<and> whole nal \<and> chs \<noteq> [] \<and> [] \<notin> set chs \<and>
     concat chs = drop (nat (nf_header f)) nal"

text \<open>A unit that the packetization can handle with packets of this size.\<close>

definition carriable :: "int \<Rightarrow> byte list \<Rightarrow> bool" where
  "carriable mtu nal \<longleftrightarrow> whole nal \<and> (splittable nal \<or> int (length nal) \<le> mtu - 24)"

text \<open>
  Between two units: the groups sent so far, and the units that wait in the open packet. \<open>m\<close> says
  whether the last packet sent has the marker.
\<close>

definition packInv :: "access_unit \<Rightarrow> bool \<Rightarrow> RTPSender \<Rightarrow> pack_state \<Rightarrow> nal_group list \<Rightarrow> byte list list \<Rightarrow> bool" where
  "packInv accu m s0 st gs pend \<longleftrightarrow> (\<forall>g \<in> set gs. group_ok g) \<and>
     (\<exists>s1. if pend = [] then
        emitted accu s0 s1 (groups_payloads f m gs) \<and> ps_out st = None \<and> ps_isFirstNAL st \<and> ps_sender st = s1
      else
        emitted accu s0 s1 (groups_payloads f False gs) \<and> \<not> ps_isFirstNAL st \<and> ps_sender st = nextSeq s1 \<and>
        group_ok (GStap pend) \<and>
        int (length (rtpHeader s1 accu False)) + int (length (nf_stap f @ stapBody pend)) \<le> mMTUSize s0 \<and>
        ps_out st = Some ((headed (mMTUSize s0) accu s1)\<lparr>op_bytes := rtpHeader s1 accu False @ nf_stap f @ stapBody pend\<rparr>))"

lemma emit_open:
  assumes "emitted accu s0 s1 (groups_payloads f False gs)" "ps_sender st = nextSeq s1"
    "group_payloads f m g = [(payload, m)]"
  shows "\<exists>st'. emitPacket accu m ((headed cap accu s1)\<lparr>op_bytes := rtpHeader s1 accu False @ payload\<rparr>) st = Inr st' \<and>
     emitted accu s0 (ps_sender st') (groups_payloads f m (gs @ [g])) \<and> ps_out st' = None \<and> ps_isFirstNAL st'"
proof -
  let ?s = "(nextSeq s1)\<lparr>mRTPPacketQueue := mRTPPacketQueue s1 @
      [sent accu (ps_packetCount st) m (ps_payload st) cap s1 payload]\<rparr>"
  have "emitted accu s0 ?s (groups_payloads f m (gs @ [g]))"
    unfolding groups_payloads_snoc assms(3) by (rule emitted_trans [OF assms(1) emitted_one])
  then show ?thesis
    by (simp add: emitPacket_def assms(2) sndQueueRTPPacket_ok)
qed

lemma stapBody_single [simp]: "stapBody [nal] = unitLen nal @ nal"
  by (simp add: stapBody_def)

lemma stapBody_snoc: "stapBody (nals @ [nal]) = stapBody nals @ unitLen nal @ nal"
  by (simp add: stapBody_def)

lemma length_unitLen [simp]: "length (unitLen nal) = 2"
  by (simp add: unitLen_def)

lemma stap_fresh:
  assumes ens: "ensureOut accu st = Inr (headed (mMTUSize s0) accu s1, st1)"
    and st1: "ps_sender st1 = nextSeq s1" "ps_isFirstNAL st1"
    and em: "emitted accu s0 s1 (groups_payloads f False gs)" "\<forall>g \<in> set gs. group_ok g"
    and mtu: "40 \<le> mMTUSize s0" "mMTUSize s0 < 65536" and nal: "carriable (mMTUSize s0) nal"
  shows "\<exists>st' gs' pend. stapOrFragment f accu nal left st = Inr st' \<and> packInv accu (left \<le> 0) s0 st' gs' pend \<and>
     concat (map group_nals gs') @ pend = concat (map group_nals gs) @ [nal]"
proof -
  let ?mtu = "mMTUSize s0" and ?h = "rtpHeader s1 accu False"
  have s1: "mMTUSize s1 = ?mtu" by (rule emitted_config [OF em(1)])
  have stap: "0 < length (nf_stap f)" using stapLen(2) by simp
  have stap2: "length (nf_stap f) \<le> 2" using stapLen(1,3) by simp
  show ?thesis
  proof (cases "int (length ?h) + (int (length nal) + 2 + int (length (nf_stap f))) \<le> ?mtu")
    case True
    let ?x = "nf_stap f @ unitLen nal @ nal"
    let ?st = "st1\<lparr>ps_out := Some ((headed ?mtu accu s1)\<lparr>op_bytes := ?h @ ?x\<rparr>), ps_isFirstNAL := False,
        ps_payload := ps_payload st1 + int (length nal)\<rparr>"
    have "put ?x (headed ?mtu accu s1) = Inr ((headed ?mtu accu s1)\<lparr>op_bytes := ?h @ ?x\<rparr>)"
      using True by (intro put_headed) simp
    then have "stapOrFragment f accu nal left st = Inr ?st"
      using True st1 by (simp add: stapOrFragment_def ens unitLen_def Let_def)
    moreover have "packInv accu (left \<le> 0) s0 ?st gs [nal]"
      using True em st1 nal mtu by (auto simp: packInv_def carriable_def)
    ultimately show ?thesis by (intro exI [of _ ?st] exI [of _ gs] exI [of _ "[nal]"]) simp
  next
    case False
    have h: "length ?h \<le> 20" by (rule length_rtpHeader_le)
    then have big: "int (length nal) > ?mtu - 24" using False stap2 by linarith
    then have sp: "splittable nal" "whole nal" using nal by (auto simp: carriable_def)
    have long: "nf_header f < int (length nal)" using big mtu header_pos by linarith
    have fl: "nf_header f \<le> nf_header f" "int (length nal) - nf_header f \<le> int (length nal)"
      "40 \<le> mMTUSize s1" "mMTUSize s1 < 2 ^ 31"
      using header_pos mtu s1 by simp_all
    obtain s' k chs where loop: "fuLoop (length nal) f accu left nal (nf_header f) (Some (headed ?mtu accu s1))
          (ps_packetCount st1) (nextSeq s1) = Inr (s', k)"
      and chs: "chs \<noteq> []" "concat chs = drop (nat (nf_header f)) nal" "[] \<notin> set chs"
      and em': "emitted accu s1 s' (frags f nal True (left \<le> 0) chs)"
      using fuLoop_ok [OF sp(1) fl(1) long fl(2-4), of "Some (headed ?mtu accu s1)" "nextSeq s1" accu left "ps_packetCount st1"] s1
      by auto
    let ?st = "st1\<lparr>ps_sender := s', ps_packetCount := k, ps_out := None\<rparr>"
    have "stapOrFragment f accu nal left st = Inr ?st"
      using False st1 loop long by (simp add: stapOrFragment_def ens fragmentNAL_def Let_def)
    moreover have "emitted accu s0 s' (groups_payloads f (left \<le> 0) (gs @ [GFrag nal chs]))"
      unfolding groups_payloads_snoc using emitted_trans [OF em(1) em'] by simp
    then have "packInv accu (left \<le> 0) s0 ?st (gs @ [GFrag nal chs]) []"
      using em(2) st1 sp chs by (simp add: packInv_def)
    ultimately show ?thesis
      by (intro exI [of _ ?st] exI [of _ "gs @ [GFrag nal chs]"] exI [of _ "[]"]) simp
  qed
qed

lemma ensureOut_closed:
  assumes "ps_out st = None" "ps_sender st = s" "40 \<le> mMTUSize s"
  shows "ensureOut accu st = Inr (headed (mMTUSize s) accu s,
     st\<lparr>ps_sender := nextSeq s, ps_out := Some (headed (mMTUSize s) accu s), ps_payload := 0\<rparr>)"
  using assms by (simp add: ensureOut_def createPacket_ok)

lemma packInv_closed:
  assumes "packInv accu False s0 st gs []"
  shows "\<exists>s1. emitted accu s0 s1 (groups_payloads f False gs) \<and> ps_out st = None \<and> ps_isFirstNAL st \<and>
     ps_sender st = s1 \<and> mMTUSize s1 = mMTUSize s0 \<and> (\<forall>g \<in> set gs. group_ok g)"
  using assms by (auto simp: packInv_def)

lemma packNAL_closed:
  assumes inv: "packInv accu False s0 st gs []"
    and mtu: "40 \<le> mMTUSize s0" "mMTUSize s0 < 65536" and nal: "carriable (mMTUSize s0) nal"
  shows "\<exists>st' gs' pend. packNAL f accu (nal, left) st = Inr st' \<and> packInv accu (left \<le> 0) s0 st' gs' pend \<and>
     concat (map group_nals gs') @ pend = concat (map group_nals gs) @ [nal]"
proof -
  let ?mtu = "mMTUSize s0"
  obtain s1 where em: "emitted accu s0 s1 (groups_payloads f False gs)" and gs: "\<forall>g \<in> set gs. group_ok g"
    and st: "ps_out st = None" "ps_isFirstNAL st" "ps_sender st = s1" and s1: "mMTUSize s1 = ?mtu"
    using packInv_closed [OF inv] by auto
  let ?p = "headed ?mtu accu s1"
  let ?st1 = "st\<lparr>ps_sender := nextSeq s1, ps_out := Some ?p, ps_payload := 0\<rparr>"
  have ens: "ensureOut accu st = Inr (?p, ?st1)"
    using ensureOut_closed [OF st(1,3)] mtu s1 by simp
  have ens1: "ensureOut accu ?st1 = Inr (?p, ?st1)" by (simp add: ensureOut_def)
  show ?thesis
  proof (cases "int (length (rtpHeader s1 accu False)) + (int (length nal) + 2) > ?mtu \<and>
      int (length (rtpHeader s1 accu False)) + int (length nal) \<le> ?mtu")
    case False
    then have "packNAL f accu (nal, left) st = stapOrFragment f accu nal left ?st1"
      using st by (auto simp: packNAL_def ens Let_def)
    moreover have "ps_sender ?st1 = nextSeq s1" "ps_isFirstNAL ?st1" using st by simp_all
    ultimately show ?thesis
      using stap_fresh [OF ens1 _ _ em gs mtu nal, of left] by simp
  next
    case True
    let ?st2 = "?st1\<lparr>ps_payload := int (length nal)\<rparr>"
    let ?q = "?p\<lparr>op_bytes := rtpHeader s1 accu False @ nal\<rparr>"
    have "put nal ?p = Inr ?q" using True by (intro put_headed) simp
    then have step: "packNAL f accu (nal, left) st = emitPacket accu (left \<le> 0) ?q ?st2"
      using True st by (simp add: packNAL_def ens Let_def)
    have "ps_sender ?st2 = nextSeq s1" "group_payloads f (left \<le> 0) (GSingle nal) = [(nal, left \<le> 0)]"
      by simp_all
    from emit_open [OF em this] obtain st' where st': "emitPacket accu (left \<le> 0) ?q ?st2 = Inr st'"
      "emitted accu s0 (ps_sender st') (groups_payloads f (left \<le> 0) (gs @ [GSingle nal]))"
      "ps_out st' = None" "ps_isFirstNAL st'" by blast
    have "group_ok (GSingle nal)" using nal by (simp add: carriable_def)
    then have "packInv accu (left \<le> 0) s0 st' (gs @ [GSingle nal]) []"
      using st'(2-) gs by (auto simp: packInv_def)
    then show ?thesis
      using step st'(1) by (intro exI [of _ st'] exI [of _ "gs @ [GSingle nal]"] exI [of _ "[]"]) simp
  qed
qed

lemma packNAL_open:
  assumes inv: "packInv accu False s0 st gs pend" "pend \<noteq> []"
    and mtu: "40 \<le> mMTUSize s0" "mMTUSize s0 < 65536" and nal: "carriable (mMTUSize s0) nal"
  shows "\<exists>st' gs' pend'. packNAL f accu (nal, left) st = Inr st' \<and> packInv accu (left \<le> 0) s0 st' gs' pend' \<and>
     concat (map group_nals gs') @ pend' = concat (map group_nals gs) @ pend @ [nal]"
proof -
  let ?mtu = "mMTUSize s0" and ?x = "nf_stap f @ stapBody pend"
  obtain s1 where em: "emitted accu s0 s1 (groups_payloads f False gs)" and gs: "\<forall>g \<in> set gs. group_ok g"
    and st: "\<not> ps_isFirstNAL st" "ps_sender st = nextSeq s1" and ok: "group_ok (GStap pend)"
    and fits: "int (length (rtpHeader s1 accu False)) + int (length ?x) \<le> ?mtu"
    and out: "ps_out st = Some ((headed ?mtu accu s1)\<lparr>op_bytes := rtpHeader s1 accu False @ ?x\<rparr>)"
    using inv by (auto simp: packInv_def)
  let ?p = "(headed ?mtu accu s1)\<lparr>op_bytes := rtpHeader s1 accu False @ ?x\<rparr>"
  have ens: "ensureOut accu st = Inr (?p, st)" by (simp add: ensureOut_def out)
  show ?thesis
  proof (cases "int (length (rtpHeader s1 accu False)) + int (length ?x) + (int (length nal) + 2) \<le> ?mtu")
    case True
    let ?y = "unitLen nal @ nal"
    let ?q = "?p\<lparr>op_bytes := rtpHeader s1 accu False @ nf_stap f @ stapBody (pend @ [nal])\<rparr>"
    have "put ?y ?p = Inr ?q" using True by (simp add: put_def stapBody_snoc)
    then have step: "packNAL f accu (nal, left) st =
        Inr (st\<lparr>ps_out := Some ?q, ps_isFirstNAL := False, ps_payload := ps_payload st + int (length nal)\<rparr>)"
      using True st by (simp add: packNAL_def stapOrFragment_def ens unitLen_def Let_def)
    have "group_ok (GStap (pend @ [nal]))"
      using ok nal True mtu by (auto simp: carriable_def)
    then have "packInv accu (left \<le> 0) s0
        (st\<lparr>ps_out := Some ?q, ps_isFirstNAL := False, ps_payload := ps_payload st + int (length nal)\<rparr>) gs (pend @ [nal])"
      using em gs st True unfolding packInv_def by (auto simp: stapBody_snoc)
    then show ?thesis using step by (intro exI conjI) simp_all
  next
    case False
    have "group_payloads f False (GStap pend) = [(?x, False)]" by simp
    from emit_open [OF em st(2) this] obtain st' where st': "emitPacket accu False ?p st = Inr st'"
      and em': "emitted accu s0 (ps_sender st') (groups_payloads f False (gs @ [GStap pend]))"
      and cl: "ps_out st' = None" "ps_isFirstNAL st'" by blast
    have m: "mMTUSize (ps_sender st') = ?mtu" by (rule emitted_config [OF em'])
    have step: "packNAL f accu (nal, left) st = stapOrFragment f accu nal left st'"
      using False st st' by (simp add: packNAL_def ens Let_def)
    have ens': "ensureOut accu st' = Inr (headed ?mtu accu (ps_sender st'),
        st'\<lparr>ps_sender := nextSeq (ps_sender st'), ps_out := Some (headed ?mtu accu (ps_sender st')), ps_payload := 0\<rparr>)"
      using ensureOut_closed [OF cl(1) refl] mtu m by simp
    have g: "\<forall>g \<in> set (gs @ [GStap pend]). group_ok g" using gs ok by auto
    obtain st2 gs2 pend2 where "stapOrFragment f accu nal left st' = Inr st2"
      "packInv accu (left \<le> 0) s0 st2 gs2 pend2"
      "concat (map group_nals gs2) @ pend2 = concat (map group_nals (gs @ [GStap pend])) @ [nal]"
      using stap_fresh [OF ens' _ _ em' g mtu nal, of left] cl by auto
    then show ?thesis using step by (intro exI [of _ st2] exI [of _ gs2] exI [of _ pend2]) simp
  qed
qed

lemmas packNAL_step = packNAL_closed packNAL_open

lemma packLoop_ok:
  assumes "xs \<noteq> []" "leftOk xs" "packInv accu False s0 st gs pend"
    and "40 \<le> mMTUSize s0" "mMTUSize s0 < 65536" "\<forall>nal \<in> fst ` set xs. carriable (mMTUSize s0) nal"
  shows "\<exists>st' gs' pend'. packLoop f accu xs st = Inr st' \<and> packInv accu True s0 st' gs' pend' \<and>
     concat (map group_nals gs') @ pend' = concat (map group_nals gs) @ pend @ map fst xs"
  using assms
proof (induction xs arbitrary: st gs pend rule: leftOk.induct)
  case 1
  then show ?case by simp
next
  case (2 nal left)
  have nal: "carriable (mMTUSize s0) nal" using 2(6) by simp
  obtain st' gs' pend' where "packNAL f accu (nal, left) st = Inr st'" "packInv accu (left \<le> 0) s0 st' gs' pend'"
    "concat (map group_nals gs') @ pend' = concat (map group_nals gs) @ pend @ [nal]"
    using packNAL_closed [OF _ 2(4,5) nal, of accu st gs left]
      packNAL_open [OF 2(3) _ 2(4,5) nal, of left] 2(3) by (cases "pend = []") auto
  then show ?case using 2(2) by auto
next
  case (3 nal left x xs)
  have nal: "carriable (mMTUSize s0) nal" using 3(7) by simp
  obtain st' gs' pend' where step: "packNAL f accu (nal, left) st = Inr st'" "packInv accu (left \<le> 0) s0 st' gs' pend'"
    "concat (map group_nals gs') @ pend' = concat (map group_nals gs) @ pend @ [nal]"
    using packNAL_closed [OF _ 3(5,6) nal, of accu st gs left]
      packNAL_open [OF 3(4) _ 3(5,6) nal, of left] 3(4) by (cases "pend = []") auto
  have "\<not> left \<le> 0" "leftOk (x # xs)" using 3(3) by auto
  then have inv: "packInv accu False s0 st' gs' pend'" using step(2) by simp
  have "\<forall>nal \<in> fst ` set (x # xs). carriable (mMTUSize s0) nal" using 3(7) by auto
  from 3(1) [OF _ \<open>leftOk (x # xs)\<close> inv 3(5,6) this] obtain st2 gs2 pend2 where
    "packLoop f accu (x # xs) st' = Inr st2" "packInv accu True s0 st2 gs2 pend2"
    "concat (map group_nals gs2) @ pend2 = concat (map group_nals gs') @ pend' @ map fst (x # xs)" by blast
  then show ?case using step(1,3) by (intro exI [of _ st2] exI [of _ gs2] exI [of _ pend2]) simp
qed

lemma aggregate_groups:
  assumes "xs \<noteq> []" "leftOk xs" "endLeft \<le> 0"
    and "40 \<le> mMTUSize s" "mMTUSize s < 65536" "\<forall>nal \<in> fst ` set xs. carriable (mMTUSize s) nal"
  shows "\<exists>s' gs. aggregateNALs f accu xs endLeft s = Inr s' \<and> emitted accu s s' (groups_payloads f True gs) \<and>
     (\<forall>g \<in> set gs. group_ok g) \<and> concat (map group_nals gs) = map fst xs"
proof -
  let ?st = "\<lparr> ps_sender = s, ps_out = None, ps_isFirstNAL = True, ps_payload = 0, ps_packetCount = 1 \<rparr>"
  have "packInv accu False s ?st [] []" by (simp add: packInv_def)
  from packLoop_ok [OF assms(1,2) this assms(4-)] obtain st gs pend where
    loop: "packLoop f accu xs ?st = Inr st" and inv: "packInv accu True s st gs pend"
    and units: "concat (map group_nals gs) @ pend = map fst xs" by auto
  show ?thesis
  proof (cases "pend = []")
    case True
    then show ?thesis
      using inv loop units by (auto simp: packInv_def aggregateNALs_def)
  next
    case False
    let ?x = "nf_stap f @ stapBody pend"
    obtain s1 where em: "emitted accu s s1 (groups_payloads f False gs)" and gs: "\<forall>g \<in> set gs. group_ok g"
      and st: "ps_sender st = nextSeq s1" and ok: "group_ok (GStap pend)"
      and out: "ps_out st = Some ((headed (mMTUSize s) accu s1)\<lparr>op_bytes := rtpHeader s1 accu False @ ?x\<rparr>)"
      using inv False by (auto simp: packInv_def)
    have "group_payloads f True (GStap pend) = [(?x, True)]" by simp
    from emit_open [OF em st this] obtain st' where "emitPacket accu True
        ((headed (mMTUSize s) accu s1)\<lparr>op_bytes := rtpHeader s1 accu False @ ?x\<rparr>) st = Inr st'"
      and em': "emitted accu s (ps_sender st') (groups_payloads f True (gs @ [GStap pend]))" by blast
    then have "aggregateNALs f accu xs endLeft s = Inr (ps_sender st')"
      using loop out assms(3) by (auto simp: aggregateNALs_def emitPacket_def bnd_eq_Inr)
    moreover have "\<forall>g \<in> set (gs @ [GStap pend]). group_ok g" using gs ok by auto
    ultimately show ?thesis using em' units
      by (intro exI [of _ "ps_sender st'"] exI [of _ "gs @ [GStap pend]"]) simp
  qed
qed

end

end
