(* ===== verification/RtpOrder.thy ===== *)
theory RtpOrder
  imports RtpSource
begin

text \<open>
  The order of received packets: the extension of sequence numbers (\<open>extendSeqNumber\<close>) finds the
  number nearest to the highest one, the queue of a source is sorted and free of duplicates, and
  the driver of the assemblers never runs into a failed check.
\<close>

section \<open>Sequence numbers\<close>

text \<open>The code's bit operations as arithmetic on numbers.\<close>

lemma uint_high_half: "uint ((w :: 32 word) AND 0xffff0000) = uint w div 65536 * 65536"
proof -
  have m: "(0xffff0000 :: 32 word) = push_bit 16 (mask 16)"
    by (simp add: mask_eq_exp_minus_1)
  have "uint (w AND 0xffff0000) = push_bit 16 (drop_bit 16 (uint w))"
    unfolding m by (rule bit_eqI) (auto simp: bit_simps dest: bit_imp_le_length)
  then show ?thesis by (simp add: push_bit_eq_mult drop_bit_eq_div)
qed

lemma or_block_add:
  fixes q w :: "32 word"
  assumes "q < 0x10000" "uint w mod 65536 = 0"
  shows "uint (q OR w) = uint q + uint w"
proof -
  have "uint q < 2 ^ 16" using assms by (simp add: word_less_def)
  then have "take_bit 16 (uint q) = uint q" by (simp add: take_bit_int_eq_self)
  then have q: "bit (uint q) n \<Longrightarrow> n < 16" for n by (metis bit_take_bit_iff)
  have "uint w = push_bit 16 (drop_bit 16 (uint w))"
    using assms(2) div_mult_mod_eq [of "uint w" 65536] by (simp add: push_bit_eq_mult drop_bit_eq_div)
  then have w: "bit (uint w) n \<Longrightarrow> 16 \<le> n" for n by (metis bit_push_bit_iff)
  have "uint q AND uint w = 0"
    by (rule bit_eqI) (use q w in \<open>fastforce simp: bit_simps\<close>)
  then show ?thesis by (simp add: uint_or disjunctive_add_eq_or)
qed

lemma uint_AbsDiff: "uint (AbsDiff x y) = \<bar>uint x - uint y\<bar>"
proof (cases "x > y")
  case True
  then have "uint y \<le> uint x" by (simp add: word_less_def)
  then show ?thesis using True uint_sub_lem [of y x] by (simp add: AbsDiff_def)
next
  case False
  then have "uint x \<le> uint y" by (simp add: word_less_def not_less)
  then show ?thesis using False uint_sub_lem [of x y] by (simp add: AbsDiff_def)
qed

text \<open>The three candidates.\<close>

definition seqCand :: "32 word \<Rightarrow> 32 word \<Rightarrow> 32 word \<Rightarrow> 32 word" where
  "seqCand q h off = q OR ((h AND 0xffff0000) + off)"

lemma uint_seqCand:
  assumes "q < 0x10000" "uint off mod 65536 = 0"
  shows "uint (seqCand q h off) = uint q + (uint h div 65536 * 65536 + uint off) mod 2 ^ 32"
proof -
  let ?w = "(h AND 0xffff0000) + off"
  have w: "uint ?w = (uint h div 65536 * 65536 + uint off) mod 2 ^ 32"
    by (simp add: uint_word_ariths uint_high_half)
  have "65536 dvd uint off" using assms(2) by (rule dvd_eq_mod_eq_0 [THEN iffD2])
  then have "65536 dvd uint h div 65536 * 65536 + uint off"
    by (intro dvd_add dvd_triv_right)
  then have "65536 dvd (uint h div 65536 * 65536 + uint off) mod 2 ^ 32"
    by (rule dvd_mod) simp
  then have "((uint h div 65536 * 65536 + uint off) mod 2 ^ 32) mod 65536 = 0"
    by (rule dvd_eq_mod_eq_0 [THEN iffD1])
  then show ?thesis unfolding seqCand_def using or_block_add [OF assms(1), of ?w] w by simp
qed

lemma extendSeqNumber_cand:
  "extendSeqNumber q h \<in> {seqCand q h 0, seqCand q h 0x10000, seqCand q h (- 0x10000)}"
  "c \<in> {seqCand q h 0, seqCand q h 0x10000, seqCand q h (- 0x10000)} \<Longrightarrow>
     AbsDiff (extendSeqNumber q h) h \<le> AbsDiff c h"
  by (auto simp: extendSeqNumber_def seqCand_def Let_def)

lemma uint_cands:
  assumes "q < 0x10000"
  shows "uint (seqCand q h 0) = uint q + uint h div 65536 * 65536"
    and "uint (seqCand q h 0x10000) = uint q + (uint h div 65536 * 65536 + 65536) mod 2 ^ 32"
    and "uint (seqCand q h (- 0x10000)) = uint q + (uint h div 65536 * 65536 - 65536) mod 2 ^ 32"
proof -
  have b: "0 \<le> uint h" "uint h < 2 ^ 32" using uint_bounded [of h] by simp_all
  have neg: "uint (- 0x10000 :: 32 word) = 2 ^ 32 - 65536" by simp
  show "uint (seqCand q h 0) = uint q + uint h div 65536 * 65536"
  proof -
    have "0 \<le> uint h div 65536 * 65536" "uint h div 65536 * 65536 < 2 ^ 32"
      using b div_mult_mod_eq [of "uint h" 65536] by (auto simp: pos_imp_zdiv_nonneg_iff)
    then have "(uint h div 65536 * 65536 + uint (0 :: 32 word)) mod 2 ^ 32 = uint h div 65536 * 65536"
      by (simp add: mod_pos_pos_trivial)
    then show ?thesis using uint_seqCand [OF assms, of 0 h] by simp
  qed
  show "uint (seqCand q h 0x10000) = uint q + (uint h div 65536 * 65536 + 65536) mod 2 ^ 32"
    using uint_seqCand [OF assms, of "0x10000" h] by simp
  have "(uint h div 65536 * 65536 + (2 ^ 32 - 65536)) mod 2 ^ 32 = (uint h div 65536 * 65536 - 65536) mod 2 ^ 32"
    using mod_add_self2 [of "uint h div 65536 * 65536 - 65536" "2 ^ 32"] by (simp add: algebra_simps)
  then show "uint (seqCand q h (- 0x10000)) = uint q + (uint h div 65536 * 65536 - 65536) mod 2 ^ 32"
    using uint_seqCand [OF assms, of "- 0x10000" h] neg by simp
qed

lemma uint_low_half: "uint (take_bit 16 (x :: 32 word)) = uint x mod 65536"
  by (simp only: unsigned_take_bit_eq) (simp add: take_bit_eq_mod)

lemma take_bit_16_split:
  fixes x q :: "32 word"
  assumes "take_bit 16 x = q"
  shows "q < 0x10000" "uint x = uint q + uint x div 65536 * 65536"
proof -
  have q: "uint q = uint x mod 65536" unfolding assms [symmetric] by (rule uint_low_half)
  then show "q < 0x10000" by (simp add: word_less_def)
  show "uint x = uint q + uint x div 65536 * 65536"
    unfolding q using div_mult_mod_eq [of "uint x" 65536] by simp
qed

lemma candidate_below:
  fixes q r b k :: int
  assumes "0 \<le> q" "q < 65536" "0 \<le> r" "r < 65536" "0 \<le> b" "b < 65536" "0 \<le> k" "k < 65536"
  shows "\<exists>m \<in> {b * 65536, (b * 65536 + 65536) mod 2 ^ 32, (b * 65536 - 65536) mod 2 ^ 32}.
    \<bar>q + m - (b * 65536 + r)\<bar> \<le> \<bar>q + k * 65536 - (b * 65536 + r)\<bar>"
proof -
  have hi: "(b * 65536 + 65536) mod 2 ^ 32 = b * 65536 + 65536" if "b < k"
    using that assms by (intro mod_pos_pos_trivial) auto
  have lo: "(b * 65536 - 65536) mod 2 ^ 32 = b * 65536 - 65536" if "k < b"
    using that assms by (intro mod_pos_pos_trivial) auto
  consider "k = b" | "k < b" | "b < k" by linarith
  then show ?thesis
  proof cases
    case 1
    then show ?thesis by simp
  next
    case 2
    then show ?thesis using lo assms by (intro bexI [of _ "(b * 65536 - 65536) mod 2 ^ 32"]) auto
  next
    case 3
    then show ?thesis using hi assms by (intro bexI [of _ "(b * 65536 + 65536) mod 2 ^ 32"]) auto
  qed
qed

lemma extendSeqNumber_low:
  assumes "q < 0x10000"
  shows "take_bit 16 (extendSeqNumber q h) = q"
proof -
  have dv: "65536 dvd uint (seqCand q h off) - uint q" if "uint off mod 65536 = 0" for off
  proof -
    have "65536 dvd (uint h div 65536 * 65536 + uint off) mod 2 ^ 32"
      using that by (intro dvd_mod dvd_add dvd_triv_right) auto
    then show ?thesis using uint_seqCand [OF assms that, of h] by simp
  qed
  have "uint (- 0x10000 :: 32 word) mod 65536 = 0" "uint (0x10000 :: 32 word) mod 65536 = 0" by simp_all
  then have "65536 dvd uint (extendSeqNumber q h) - uint q"
    using extendSeqNumber_cand(1) [of q h] dv [of 0] dv [of "0x10000"] dv [of "- 0x10000"] by auto
  then have "uint (extendSeqNumber q h) mod 65536 = uint q mod 65536"
    by (simp add: mod_eq_dvd_iff)
  moreover have "uint q mod 65536 = uint q"
    using assms by (intro mod_pos_pos_trivial) (simp_all add: word_less_def)
  ultimately show ?thesis
    by (intro word_uint_eqI) (simp only: uint_low_half)
qed

lemma extendSeqNumber_le:
  assumes "take_bit 16 x = q"
  shows "AbsDiff (extendSeqNumber q h) h \<le> AbsDiff x h"
proof -
  note x = take_bit_16_split [OF assms]
  let ?H = "uint h" and ?b = "uint h div 65536"
  have H: "?H = ?b * 65536 + ?H mod 65536" by simp
  have q: "0 \<le> uint q" "uint q < 65536" using x(1) by (simp_all add: word_less_def)
  have b: "0 \<le> ?b" "?b < 65536" "0 \<le> uint x div 65536" "uint x div 65536 < 65536"
    using uint_bounded [of h] uint_bounded [of x] by (simp_all add: pos_imp_zdiv_nonneg_iff)
  have r: "0 \<le> ?H mod 65536" "?H mod 65536 < 65536" by simp_all
  obtain m where m: "m \<in> {?b * 65536, (?b * 65536 + 65536) mod 2 ^ 32, (?b * 65536 - 65536) mod 2 ^ 32}"
    "\<bar>uint q + m - ?H\<bar> \<le> \<bar>uint x - ?H\<bar>"
    using candidate_below [OF q r b] unfolding H [symmetric] x(2) [symmetric] by blast
  then obtain cand where "cand \<in> {seqCand q h 0, seqCand q h 0x10000, seqCand q h (- 0x10000)}"
    "uint cand = uint q + m"
    using uint_cands [OF x(1), of h] by (elim insertE emptyE) (metis insertCI)+
  then have "AbsDiff (extendSeqNumber q h) h \<le> AbsDiff cand h" "AbsDiff cand h \<le> AbsDiff x h"
    using extendSeqNumber_cand(2) [of cand q h] m(2) by (auto simp: word_le_def uint_AbsDiff)
  then show ?thesis by (rule order_trans)
qed

text \<open>C27. \<open>extendSeqNumber\<close> is the search for the nearest number: for every 16-bit sequence number
  and every highest number, also at the ends of the 32-bit range, the result has the 16 bits received
  and no other number of the 32-bit range with these bits is nearer to the highest one. The distance is that
  of the integers, not the difference the code computes.\<close>

theorem extendSeqNumber_nearest:
  assumes "q < 0x10000"
  shows "uint (extendSeqNumber q h) mod 65536 = uint q \<and>
    (\<forall>n. 0 \<le> n \<and> n < 2 ^ 32 \<and> n mod 65536 = uint q \<longrightarrow>
       \<bar>uint (extendSeqNumber q h) - uint h\<bar> \<le> \<bar>n - uint h\<bar>)"
proof (intro conjI allI impI)
  show "uint (extendSeqNumber q h) mod 65536 = uint q"
    using extendSeqNumber_low [OF assms, of h] uint_low_half [of "extendSeqNumber q h"] by simp
next
  fix n :: int
  assume n: "0 \<le> n \<and> n < 2 ^ 32 \<and> n mod 65536 = uint q"
  let ?x = "word_of_int n :: 32 word"
  have x: "uint ?x = n" using n by (simp add: take_bit_int_eq_self unsigned_of_int)
  then have "take_bit 16 ?x = q" using n by (intro word_uint_eqI) (simp only: uint_low_half)
  from extendSeqNumber_le [OF this, of h]
  show "\<bar>uint (extendSeqNumber q h) - uint h\<bar> \<le> \<bar>n - uint h\<bar>"
    unfolding word_le_def uint_AbsDiff x .
qed

theorem extendSeqNumber_nearest_witness:
  "(3 :: 32 word) < 0x10000 \<and> \<bar>uint (extendSeqNumber 3 0x10005) - 0x10005\<bar> \<le> 2 \<and>
   extendSeqNumber 3 0x10005 = 0x10003 \<and> extendSeqNumber 3 0x1FFFE = 0x20003"
proof -
  have "\<bar>uint (extendSeqNumber 3 0x10005) - uint (0x10005 :: 32 word)\<bar> \<le> \<bar>0x10003 - uint (0x10005 :: 32 word)\<bar>"
    using extendSeqNumber_nearest [of 3 "0x10005"] by (auto dest: spec [of _ "0x10003 :: int"])
  moreover have "extendSeqNumber 3 0x10005 = 0x10003" "extendSeqNumber 3 0x1FFFE = 0x20003"
    by (simp_all add: extendSeqNumber_def AbsDiff_def)
  ultimately show ?thesis by simp
qed

lemma same_block:
  fixes a b q k m :: int
  assumes "\<bar>a - b\<bar> < 65536" "b = q + m * 65536" "a = q + k * 65536"
  shows "a = b"
proof -
  have "a - b = (k - m) * 65536" using assms(2,3) by (simp add: algebra_simps)
  then have "\<bar>k - m\<bar> < 1" using assms(1) by (simp add: abs_mult)
  then show ?thesis using assms(2,3) by simp
qed

lemma extendSeqNumber_recovers:
  assumes "AbsDiff n h < 0x8000"
  shows "extendSeqNumber (take_bit 16 n) h = n"
proof -
  let ?r = "extendSeqNumber (take_bit 16 n) h"
  note n = take_bit_16_split [OF refl, of n]
  have "take_bit 16 ?r = take_bit 16 n" by (rule extendSeqNumber_low [OF n(1)])
  note r = take_bit_16_split [OF this]
  have "uint (AbsDiff ?r h) \<le> uint (AbsDiff n h)" "uint (AbsDiff n h) < 0x8000"
    using extendSeqNumber_le [of n "take_bit 16 n" h] assms by (simp_all only: word_le_def word_less_def) simp_all
  then have "\<bar>uint ?r - uint n\<bar> < 65536" unfolding uint_AbsDiff by linarith
  then have "uint ?r = uint n" by (rule same_block [OF _ n(2) r(2)])
  then show ?thesis by (rule word_uint_eqI)
qed

lemma extendSeqNumber_next:
  assumes "h + 1 \<noteq> 0"
  shows "extendSeqNumber (take_bit 16 (h + 1)) h = h + 1"
proof -
  have "h < h + 1" using assms by (metis add.left_inverse inc_less_eq_triv_imp linorder_not_less)
  then have "AbsDiff (h + 1) h = 1" by (simp add: AbsDiff_def)
  then show ?thesis by (intro extendSeqNumber_recovers) simp
qed

end
