(* ===== verification/RtpDelivery.thy ===== *)
theory RtpDelivery
  imports RtpFraming RtpOrder
begin

text \<open>
  The way of an access unit from the encoder at one end of a call to the decoder at the other:
  the assembler recovers the units of every group of payloads (\<open>context nal_transport\<close>), a
  source that has received everything so far passes the packets of the sender on in order, and
  the receiver, fed from the socket, posts exactly the units that the sender was given. AVC and
  HEVC are interpretations of the interface.
\<close>

section \<open>What is posted\<close>

definition meta :: "ABuffer \<Rightarrow> 32 word \<times> int \<times> int \<times> int" where
  "meta b = (ab_rtp_time b, ab_ccw_rotation b, ab_camera_facing b, ab_flip b)"

text \<open>The units posted, with their meta data and whether they are damaged.\<close>

fun unitsOf :: "posted list \<Rightarrow> (byte list \<times> (32 word \<times> int \<times> int \<times> int) \<times> bool) list" where
  "unitsOf [] = []"
| "unitsOf (AccessUnit u # ps) = (ab_data u, meta u, ab_damaged u) # unitsOf ps"
| "unitsOf (PacketLost l # ps) = unitsOf ps"

lemma unitsOf_append [simp]: "unitsOf (ps @ qs) = unitsOf ps @ unitsOf qs"
  by (induction ps rule: unitsOf.induct) simp_all

lemma meta_simps [simp]:
  "meta (b\<lparr>ab_data := d\<rparr>) = meta b" "meta (b\<lparr>ab_token := t\<rparr>) = meta b" "meta (b\<lparr>ab_M := m\<rparr>) = meta b"
  "meta (b\<lparr>ab_damaged := x\<rparr>) = meta b" "meta (b\<lparr>ab_needStartCode := x\<rparr>) = meta b"
  "meta (b\<lparr>ab_importance := i\<rparr>) = meta b" "meta (b\<lparr>ab_EarliestPacket := k\<rparr>) = meta b"
  "meta (b\<lparr>ab_FirstPacket := k\<rparr>) = meta b" "meta (b\<lparr>ab_latestPacekt := k\<rparr>) = meta b"
  "meta (b\<lparr>ab_recv_time := r\<rparr>) = meta b" "meta (b\<lparr>ab_int32Data := n\<rparr>) = meta b"
  "meta (copyMetas u b) = meta b"
  by (simp_all add: meta_def copyMetas_def)

lemma copyMetas_simps [simp]:
  "ab_data (copyMetas u b) = ab_data u" "ab_damaged (copyMetas u b) = ab_damaged u"
  by (simp_all add: copyMetas_def)

lemma setTokens_simps [simp]:
  "ab_data (setTokens t b) = ab_data b" "meta (setTokens t b) = meta b"
  "ab_damaged (setTokens t b) = ab_damaged b"
  by (simp_all add: setTokens_def)

lemma newABuffer_simps [simp]:
  "ab_data (newABuffer d) = d" "ab_damaged (newABuffer d) = False"
  by (simp_all add: newABuffer_def)

text \<open>A received packet with this payload, of a frame with these meta data.\<close>

definition carries :: "ABuffer \<Rightarrow> byte list \<Rightarrow> (32 word \<times> int \<times> int \<times> int) \<Rightarrow> bool" where
  "carries b d mt \<longleftrightarrow> ab_data b = d \<and> meta b = mt \<and> \<not> ab_damaged b"

lemma submitAccessUnit_ok [simp]:
  "mNextExpectedSeqNoValid (submitAccessUnit c u a) = mNextExpectedSeqNoValid a"
  "mNextExpectedSeqNo (submitAccessUnit c u a) = mNextExpectedSeqNo a"
  "mPackLostList (submitAccessUnit c u a) = mPackLostList a"
  "mAccessUnitDamaged (submitAccessUnit c u a) = mAccessUnitDamaged a"
  "mpNALFragmentInfo (submitAccessUnit c u a) = mpNALFragmentInfo a"
  "unitsOf (posted (submitAccessUnit c u a)) = unitsOf (posted a) @ [(ab_data u, meta u, ab_damaged u)]"
  by (simp_all add: submitAccessUnit_def Let_def)

text \<open>
  Nothing was lost so far; the packet \<open>n\<close> is next, \<open>us\<close> were posted, \<open>pend\<close> is under assembly.
\<close>

definition ready :: "32 word \<Rightarrow> (byte list \<times> (32 word \<times> int \<times> int \<times> int) \<times> bool) list \<Rightarrow>
    NALFragMentsInfo option \<Rightarrow> NALAssembler \<Rightarrow> bool" where
  "ready n us pend a \<longleftrightarrow> mNextExpectedSeqNoValid a \<and> mNextExpectedSeqNo a = n \<and> mPackLostList a = [] \<and>
     \<not> mAccessUnitDamaged a \<and> mpNALFragmentInfo a = pend \<and> unitsOf (posted a) = us"

lemma ready_simps [simp]:
  "ready n us pend (a\<lparr>mLastPacketReceiveTime := t\<rparr>) = ready n us pend a"
  "ready n us pend (a\<lparr>mFirstFailureTimeUs := t\<rparr>) = ready n us pend a"
  "ready n us pend (a\<lparr>mLastLost := t\<rparr>) = ready n us pend a"
  "ready n us pend (a\<lparr>mIDamageNum := t\<rparr>) = ready n us pend a"
  by (simp_all add: ready_def)

lemma ready_submit:
  "ready n us pend a \<Longrightarrow> ready n (us @ [(ab_data u, meta u, ab_damaged u)]) pend (submitAccessUnit c u a)"
  by (simp add: ready_def)

section \<open>Aggregation packets\<close>

lemma unitLen_value:
  assumes "length nal < 65536"
  shows "\<exists>h l. unitLen nal = [h, l] \<and> unat h * 256 + unat l = length nal"
proof -
  let ?n = "length nal"
  have ff: "x AND 0xff = take_bit 8 x" for x :: int
    by (simp add: take_bit_eq_mask mask_eq_exp_minus_1)
  have "unat (word_of_int (drop_bit 8 (int ?n) AND 0xff) :: byte) = ?n div 256"
    using assms unfolding ff
    by (simp add: unsigned_of_int take_bit_eq_mod drop_bit_eq_div nat_mod_distrib nat_div_distrib)
  moreover have "unat (word_of_int (int ?n AND 0xff) :: byte) = ?n mod 256"
    unfolding ff by (simp add: unsigned_of_int take_bit_eq_mod nat_mod_distrib)
  ultimately show ?thesis by (auto simp: unitLen_def)
qed

lemma stapLoop_ok:
  assumes "\<forall>nal \<in> set nals. length nal < 65536" "ready n us pend a" "meta b = mt"
  shows "\<exists>a'. stapLoop c b (stapBody nals) a = (True, a') \<and>
     ready n (us @ map (\<lambda>nal. (nal, mt, False)) nals) pend a'"
  using assms(1,2)
proof (induction nals arbitrary: a us)
  case Nil
  then show ?case by (simp add: stapBody_def)
next
  case (Cons nal nals)
  obtain h l where hl: "unitLen nal = [h, l]" "unat h * 256 + unat l = length nal"
    using unitLen_value [of nal] Cons.prems by auto
  let ?u = "copyMetas (newABuffer nal) b"
  let ?v = "if 2 < length (stapBody nals) then ?u\<lparr>ab_M := 0\<rparr> else ?u"
  let ?a = "addSingleNALUnit c (setTokens (ab_token b) ?v) a"
  have body: "stapBody (nal # nals) = h # l # nal @ stapBody nals"
    using hl by (simp add: stapBody_def)
  have "ready n (us @ [(nal, mt, False)]) pend ?a"
    using ready_submit [OF Cons.prems(2), of "setTokens (ab_token b) ?v" c] assms(3)
    by (simp add: addSingleNALUnit_def split: if_splits)
  from Cons.IH [OF _ this] Cons.prems(1) obtain a' where
    "stapLoop c b (stapBody nals) ?a = (True, a')"
    "ready n ((us @ [(nal, mt, False)]) @ map (\<lambda>nal. (nal, mt, False)) nals) pend a'"
    by auto
  moreover have "stapLoop c b (stapBody (nal # nals)) a = stapLoop c b (stapBody nals) ?a"
    unfolding body stapLoop.simps by (simp only: hl(2) Let_def) simp
  ultimately show ?case by auto
qed

section \<open>Fragments\<close>

lemma wr_block_front:
  "length h + n = N \<Longrightarrow> wr_block (replicate N x) 0 h = Inr (h @ replicate n x)"
  by (auto simp: wr_block_def)

lemma assembleToNAL_step:
  assumes "fi_mNALFragments fi = bs" "bs \<noteq> []" "nc_reassemble c (ab_data (hd bs)) = Inr (h, im)"
    and "take_bit 32 (fi_mNALSize fi + int (length h)) = n" "\<not> fi_mIsDamaged fi"
    and "wr_block (replicate (nat n) 0) 0 h = Inr buf"
  shows "assembleToNAL c fi = copyFragments (nc_fuMin c) bs (int (length h))
     (case ab_recv_time (hd bs) of None \<Rightarrow> 0 | Some t \<Rightarrow> t)
     ((copyMetas ((newABuffer (replicate (nat n) 0))\<lparr>ab_importance := im\<rparr>) (last bs))
        \<lparr>ab_FirstPacket := ab_token (hd bs), ab_data := buf\<rparr>)"
proof -
  have "rd bs 0 = Inr (hd bs)" using assms(2) by (simp add: rd_def hd_conv_nth)
  then show ?thesis
    unfolding assembleToNAL_def assms(1) Let_def using assms(3-) by (simp del: copyFragments.simps)
qed

context nal_transport
begin

text \<open>The packet \<open>b\<close> carries the piece \<open>ch\<close> of a unit.\<close>

definition frag_ok :: "byte list \<Rightarrow> (32 word \<times> int \<times> int \<times> int) \<Rightarrow> ABuffer \<Rightarrow> byte list \<Rightarrow> bool" where
  "frag_ok nal mt b ch \<longleftrightarrow> (\<exists>S E. carries b (pfx f nal S E @ ch) mt)"

definition fragInfo :: "byte list \<Rightarrow> (32 word \<times> int \<times> int \<times> int) \<Rightarrow> ABuffer list \<Rightarrow> byte list list \<Rightarrow> NALFragMentsInfo \<Rightarrow> bool" where
  "fragInfo nal mt bs chs fi \<longleftrightarrow> fi_mNALFragments fi = bs \<and> \<not> fi_mIsDamaged fi \<and> fi_mNALType fi = fuT nal \<and>
     fi_mNALSize fi = int (length (concat chs)) \<and> list_all2 (frag_ok nal mt) bs chs"

lemma frag_data:
  assumes "splittable nal" "frag_ok nal mt b ch"
  shows "\<exists>p. ab_data b = p @ ch \<and> int (length p) = nc_fuMin c \<and> meta b = mt \<and>
     nc_reassemble c (ab_data b) = Inr (take (nat (nf_header f)) nal, imp nal)"
proof -
  obtain S E where b: "carries b (pfx f nal S E @ ch) mt" using assms(2) by (auto simp: frag_ok_def)
  show ?thesis
    using b pfx_ok [OF assms(1), of S E] prefix_law [OF assms(1) pfx_ok(1) [OF assms(1)], of S E ch]
    by (intro exI [of _ "pfx f nal S E"]) (simp add: carries_def)
qed

lemma copyFragments_ok:
  assumes "splittable nal" "list_all2 (frag_ok nal mt) bs chs"
    and "ab_data u = pre @ replicate (length (concat chs)) 0" "off = int (length pre)"
  shows "\<exists>u'. copyFragments (nc_fuMin c) bs off e u = Inr u' \<and> ab_data u' = pre @ concat chs \<and>
     meta u' = meta u \<and> ab_damaged u' = ab_damaged u"
  using assms(2-)
proof (induction bs chs arbitrary: pre off e u rule: list_all2_induct)
  case Nil
  then show ?case by simp
next
  case (Cons b bs ch chs)
  obtain p where p: "ab_data b = p @ ch" "int (length p) = nc_fuMin c"
    using frag_data [OF assms(1) Cons(1)] by blast
  let ?t = "case ab_recv_time b of None \<Rightarrow> 0 | Some t \<Rightarrow> t"
  let ?u = "if ?t \<le> e then u\<lparr>ab_EarliestPacket := ab_token b\<rparr> else u"
  let ?buf = "(pre @ ch) @ replicate (length (concat chs)) 0"
  let ?v = "if bs = [] then ?u\<lparr>ab_data := ?buf, ab_latestPacekt := ab_token b\<rparr> else ?u\<lparr>ab_data := ?buf\<rparr>"
  have n: "int (length (ab_data b)) - nc_fuMin c = int (length ch)" using p by simp
  have rd: "rd_block (ab_data b) (nc_fuMin c) (int (length ch)) = Inr ch"
    using rd_block_mid [of p ch "[]"] p by simp
  have wr: "wr_block (ab_data ?u) off ch = Inr ?buf"
    using Cons.prems by (cases "ch = []") (auto simp: wr_block_def replicate_add [symmetric])
  have step: "copyFragments (nc_fuMin c) (b # bs) off e u =
      copyFragments (nc_fuMin c) bs (off + int (length ch)) (if ?t \<le> e then ?t else e) ?v"
    unfolding copyFragments.simps Let_def n rd bnd.simps wr by (rule refl)
  have "ab_data ?v = ?buf" "off + int (length ch) = int (length (pre @ ch))" using Cons.prems by simp_all
  from Cons.IH [OF this] obtain u' where u': "copyFragments (nc_fuMin c) bs (off + int (length ch)) (if ?t \<le> e then ?t else e) ?v = Inr u'"
    "ab_data u' = (pre @ ch) @ concat chs" "meta u' = meta ?v" "ab_damaged u' = ab_damaged ?v" by blast
  have "meta ?v = meta u" "ab_damaged ?v = ab_damaged u" by simp_all
  with u' show ?case unfolding step by (intro exI [of _ u']) simp
qed

lemma assembleToNAL_ok:
  assumes sp: "splittable nal" "length nal < 2 ^ 32" "nat (nf_header f) \<le> length nal"
    and fi: "fragInfo nal mt bs chs fi" "bs \<noteq> []" "concat chs = drop (nat (nf_header f)) nal"
  shows "\<exists>u. assembleToNAL c fi = Inr u \<and> ab_data u = nal \<and> meta u = mt \<and> \<not> ab_damaged u"
proof -
  let ?h = "take (nat (nf_header f)) nal"
  have q: "fi_mNALFragments fi = bs" "\<not> fi_mIsDamaged fi" "list_all2 (frag_ok nal mt) bs chs"
    and size: "fi_mNALSize fi = int (length (concat chs))"
    using fi(1) by (simp_all add: fragInfo_def)
  obtain b0 bs' ch0 chs' where bs: "bs = b0 # bs'" "chs = ch0 # chs'" "frag_ok nal mt b0 ch0"
    using fi(2) q(3) by (cases bs; cases chs) auto
  have re: "nc_reassemble c (ab_data (hd bs)) = Inr (?h, imp nal)"
    using frag_data [OF sp(1) bs(3)] bs(1) by auto
  have last: "meta (last bs) = mt"
  proof -
    have "last bs \<in> set bs" using fi(2) by simp
    then obtain ch where "frag_ok nal mt (last bs) ch"
      using q(3) by (metis list_all2_conv_all_nth in_set_conv_nth)
    then show ?thesis using frag_data [OF sp(1)] by blast
  qed
  have len: "int (length ?h) + int (length (concat chs)) = int (length nal)"
    using sp(3) fi(3) by simp
  have total: "take_bit 32 (fi_mNALSize fi + int (length ?h)) = int (length nal)"
    using len sp(2) size by (simp add: take_bit_int_eq_self add.commute)
  define e where "e = (case ab_recv_time (hd bs) of None \<Rightarrow> 0 | Some t \<Rightarrow> t)"
  define u0 where "u0 = (copyMetas ((newABuffer (replicate (nat (int (length nal))) 0))\<lparr>ab_importance := imp nal\<rparr>) (last bs))\<lparr>ab_FirstPacket := ab_token (hd bs)\<rparr>"
  have u0: "ab_data u0 = replicate (length nal) 0" "meta u0 = mt" "\<not> ab_damaged u0"
    using last by (simp_all add: u0_def)
  have "length nal = length ?h + length (concat chs)" using len by linarith
  then have wr: "wr_block (replicate (nat (int (length nal))) 0) 0 ?h = Inr (?h @ replicate (length (concat chs)) 0)"
    unfolding nat_int by (intro wr_block_front) simp
  let ?u1 = "u0\<lparr>ab_data := ?h @ replicate (length (concat chs)) 0\<rparr>"
  have step: "assembleToNAL c fi = copyFragments (nc_fuMin c) bs (int (length ?h)) e ?u1"
    unfolding e_def u0_def
    by (subst assembleToNAL_step [OF q(1) fi(2) re total q(2) wr]) simp
  obtain u where "copyFragments (nc_fuMin c) bs (int (length ?h)) e ?u1 = Inr u" "ab_data u = ?h @ concat chs"
    "meta u = meta ?u1" "ab_damaged u = ab_damaged ?u1"
    using copyFragments_ok [OF sp(1) q(3), of ?u1 ?h "int (length ?h)" e] by auto
  then show ?thesis using step u0 fi(3) by (intro exI [of _ u]) simp
qed

section \<open>The packets of a group\<close>

text \<open>The packet takes every assembler with the first posted units and fragments to the second.\<close>

definition takes :: "ABuffer \<Rightarrow>
    (byte list \<times> (32 word \<times> int \<times> int \<times> int) \<times> bool) list \<times> NALFragMentsInfo option \<Rightarrow>
    (byte list \<times> (32 word \<times> int \<times> int \<times> int) \<times> bool) list \<times> NALFragMentsInfo option \<Rightarrow> bool" where
  "takes b x y \<longleftrightarrow> (\<forall>n a. ready n (fst x) (snd x) a \<longrightarrow>
     (\<exists>a'. processPacket c b a = Inr (OK, a') \<and> ready n (fst y) (snd y) a'))"

text \<open>Packets with these payloads take it there, whatever else they carry.\<close>

fun accepts :: "(32 word \<times> int \<times> int \<times> int) \<Rightarrow> (byte list \<times> bool) list \<Rightarrow>
    (byte list \<times> (32 word \<times> int \<times> int \<times> int) \<times> bool) list \<times> NALFragMentsInfo option \<Rightarrow>
    (byte list \<times> (32 word \<times> int \<times> int \<times> int) \<times> bool) list \<times> NALFragMentsInfo option \<Rightarrow> bool" where
  "accepts mt [] x y \<longleftrightarrow> y = x"
| "accepts mt ((d, m) # ps) x y \<longleftrightarrow> (\<forall>b. carries b d mt \<longrightarrow> (\<exists>z. takes b x z \<and> accepts mt ps z y))"

lemma accepts_append:
  "accepts mt ps x y \<Longrightarrow> accepts mt qs y z \<Longrightarrow> accepts mt (ps @ qs) x z"
proof (induction ps arbitrary: x)
  case (Cons p ps)
  then show ?case by (cases p) fastforce
qed simp

lemma takes_single:
  assumes "whole nal" "carries b nal mt"
  shows "takes b (us, None) (us @ [(nal, mt, False)], None)"
proof -
  note w = whole_law [OF assms(1)]
  obtain d0 ds where nal: "nal = d0 # ds" using w by (cases nal) auto
  have k: "d0 AND 0x80 = 0" "nc_kind c d0 = SingleNAL" using w nal by simp_all
  show ?thesis
    unfolding takes_def
  proof (intro allI impI)
    fix n a
    assume r: "ready n (fst (us, None)) (snd (us, None)) a"
    have "processPacket c b a = Inr (OK, submitAccessUnit c (setTokens (ab_token b) b) a)"
      using r assms(2) nal k
      by (simp add: processPacket_def carries_def flushFragments_def addSingleNALUnit_def ready_def)
    moreover have "ready n (us @ [(nal, mt, False)]) None (submitAccessUnit c (setTokens (ab_token b) b) a)"
      using ready_submit [of n us None a "setTokens (ab_token b) b" c] r assms(2) by (simp add: carries_def)
    ultimately show "\<exists>a'. processPacket c b a = Inr (OK, a') \<and>
        ready n (fst (us @ [(nal, mt, False)], None)) (snd (us @ [(nal, mt, False)], None)) a'" by auto
  qed
qed

lemma takes_stap:
  assumes "group_ok (GStap nals)" "carries b (nf_stap f @ stapBody nals) mt"
  shows "takes b (us, None) (us @ map (\<lambda>nal. (nal, mt, False)) nals, None)"
proof -
  obtain d0 ds where stap: "nf_stap f = d0 # ds" using stapLen(2) by (cases "nf_stap f") auto
  have k: "d0 AND 0x80 = 0" "nc_kind c d0 = AggregationPacket" using stap_law stap by simp_all
  obtain nal nals' where nals: "nals = nal # nals'" "whole nal" using assms(1) by (cases nals) auto
  have data: "ab_data b = nf_stap f @ stapBody nals" "meta b = mt"
    using assms(2) by (simp_all add: carries_def)
  have long: "\<not> int (length (ab_data b)) < nc_stapMin c"
    using whole_law [OF nals(2)] data by (simp add: nals(1) stapBody_def)
  have rest: "drop (nc_stapHeader c) (ab_data b) = stapBody nals"
    unfolding data(1) stapLen(1) [symmetric] by simp
  have short: "\<forall>nal \<in> set nals. length nal < 65536" using assms(1) by auto
  show ?thesis
    unfolding takes_def
  proof (intro allI impI)
    fix n a
    assume r: "ready n (fst (us, None)) (snd (us, None)) a"
    obtain a' where a': "stapLoop c b (stapBody nals) a = (True, a')"
      "ready n (us @ map (\<lambda>nal. (nal, mt, False)) nals) None a'"
      using stapLoop_ok [OF short, of n us None a b mt c] r data(2) by auto
    have "addSingleTimeAggregationPacket c b a = (True, a')"
      using long rest a'(1) by (simp add: addSingleTimeAggregationPacket_def)
    moreover have "mpNALFragmentInfo a = None" using r by (simp add: ready_def)
    ultimately have "processPacket c b a = Inr (OK, a')"
      using data(1) stap k by (simp add: processPacket_def flushFragments_def)
    then show "\<exists>a'. processPacket c b a = Inr (OK, a') \<and>
        ready n (fst (us @ map (\<lambda>nal. (nal, mt, False)) nals, None))
                (snd (us @ map (\<lambda>nal. (nal, mt, False)) nals, None)) a'"
      using a'(2) by auto
  qed
qed

definition addFrag :: "ABuffer \<Rightarrow> NALFragMentsInfo \<Rightarrow> NALFragMentsInfo" where
  "addFrag b fi = fi\<lparr>fi_mNALFragments := fi_mNALFragments fi @ [b],
     fi_mNALSize := take_bit 32 (fi_mNALSize fi + (int (length (ab_data b)) - nc_fuMin c)),
     fi_mTotalCount := fi_mTotalCount fi + 1\<rparr>"

lemma fragInfo_add:
  assumes "splittable nal" "fragInfo nal mt bs chs fi" "frag_ok nal mt b ch"
    and "length (concat (chs @ [ch])) < 2 ^ 32"
  shows "fragInfo nal mt (bs @ [b]) (chs @ [ch]) (addFrag b fi)"
proof -
  have "int (length (ab_data b)) - nc_fuMin c = int (length ch)"
    using frag_data [OF assms(1,3)] by auto
  then have "take_bit 32 (fi_mNALSize fi + (int (length (ab_data b)) - nc_fuMin c)) =
      int (length (concat (chs @ [ch])))"
    using assms(2,4) by (simp add: fragInfo_def take_bit_int_eq_self)
  then show ?thesis
    using assms(2,3) by (simp add: addFrag_def fragInfo_def list_all2_appendI)
qed

lemma fragInfo_new: "fragInfo nal mt [] [] (newNALFragMentsInfo\<lparr>fi_mNALType := fuT nal\<rparr>)"
  by (simp add: fragInfo_def newNALFragMentsInfo_def)

abbreviation fragState :: "byte list \<Rightarrow> NALFragMentsInfo option \<Rightarrow> NALFragMentsInfo" where
  "fragState nal pend \<equiv>
     (case pend of None \<Rightarrow> newNALFragMentsInfo\<lparr>fi_mNALType := fuT nal\<rparr> | Some fi \<Rightarrow> fi)"

lemma appendFragment_ready:
  assumes "ready n us pend a"
  shows "flags AND 0x40 = 0 \<Longrightarrow> \<exists>a'. appendFragment c flags (fuT nal) b a = Inr a' \<and>
           ready n us (Some (addFrag b (fragState nal pend))) a'"
    and "flags AND 0x40 \<noteq> 0 \<Longrightarrow> assembleToNAL c (addFrag b (fragState nal pend)) = Inr u \<Longrightarrow>
           \<exists>a'. appendFragment c flags (fuT nal) b a = Inr a' \<and>
           ready n (us @ [(ab_data u, meta u, ab_damaged u)]) None a'"
proof -
  have p: "mpNALFragmentInfo a = pend" "\<not> mAccessUnitDamaged a" using assms by (simp_all add: ready_def)
  have fi: "(case mpNALFragmentInfo a of None \<Rightarrow> newNALFragMentsInfo\<lparr>fi_mNALType := fuT nal\<rparr> | Some fi \<Rightarrow> fi) =
      fragState nal pend" using p by simp
  show "\<exists>a'. appendFragment c flags (fuT nal) b a = Inr a' \<and>
      ready n us (Some (addFrag b (fragState nal pend))) a'" if "flags AND 0x40 = 0"
    unfolding appendFragment_def Let_def fi using that assms
    by (simp add: addFrag_def ready_def)
  show "\<exists>a'. appendFragment c flags (fuT nal) b a = Inr a' \<and>
      ready n (us @ [(ab_data u, meta u, ab_damaged u)]) None a'"
    if "flags AND 0x40 \<noteq> 0" "assembleToNAL c (addFrag b (fragState nal pend)) = Inr u"
  proof -
    have "appendFragment c flags (fuT nal) b a = submitFragments c (addFrag b (fragState nal pend)) a"
      unfolding appendFragment_def Let_def fi using that(1) p by (simp add: addFrag_def)
    also have "\<dots> = Inr ((submitAccessUnit c u a)\<lparr>mAccessUnitDamaged := False, mpNALFragmentInfo := None\<rparr>)"
      using that(2) p by (simp add: submitFragments_def)
    finally show ?thesis using ready_submit [OF assms, of u c] by (simp add: ready_def)
  qed
qed

lemma addFragmented_ready:
  assumes sp: "splittable nal" and b: "carries b (pfx f nal S E @ ch) mt"
    and S: "S \<longleftrightarrow> pend = None" and ty: "fi_mNALType (fragState nal pend) = fuT nal"
    and r: "ready n us pend a"
  shows "\<exists>flags a0. processPacket c b a = bnd (appendFragment c flags (fuT nal) b a0) (\<lambda>a. Inr (OK, a)) \<and>
     ready n us pend a0 \<and> (flags AND 0x40 = 0 \<longleftrightarrow> \<not> E)"
proof -
  let ?p = "pfx f nal S E"
  note p = pfx_ok [OF sp, of S E]
  note l = prefix_law [OF sp p(1), of ch]
  have d: "ab_data b = ?p @ ch" using b by (simp add: carries_def)
  have ne: "?p \<noteq> []" using p(2) prefixLen header_pos(1) by auto
  obtain d0 ds where pc: "?p = d0 # ds" using ne by (cases ?p) auto
  have fuT: "nc_fuType c (ab_data b) = Inr (fuT nal)" using l d by simp
  have flags: "rd (ab_data b) (nc_fuMin c - 1) = Inr (last ?p)"
  proof -
    have "nat (nc_fuMin c - 1) = length ?p - 1" "0 < length ?p" using p(2) ne by auto
    then show ?thesis
      using p(2) d ne prefixLen(2) header_pos(1) by (simp add: rd_def nth_append last_conv_nth)
  qed
  have k: "d0 AND 0x80 = 0" "nc_kind c d0 = FragmentationUnit" using l pc by simp_all
  have sz: "0 < int (length (ab_data b))" "\<not> int (length (ab_data b)) < nc_fuMin c"
    using d p(2) pc by simp_all
  have pp: "processPacket c b a = addFragmentedNALUnit c b a"
    using d pc k by (simp add: processPacket_def)
  have pend: "mpNALFragmentInfo a = pend" using r by (simp add: ready_def)
  show ?thesis
  proof (cases pend)
    case None
    then have "addFragmentedNALUnit c b a =
        bnd (appendFragment c (last ?p) (fuT nal) b (a\<lparr>mAccessUnitDamaged := False\<rparr>)) (\<lambda>a. Inr (OK, a))"
      unfolding addFragmentedNALUnit_def Let_def
      using sz fuT flags pend S l by (simp add: chk_def)
    moreover have "ready n us pend (a\<lparr>mAccessUnitDamaged := False\<rparr>)" using r by (simp add: ready_def)
    ultimately show ?thesis using l pp by (intro exI conjI) auto
  next
    case (Some fi)
    then have "addFragmentedNALUnit c b a = bnd (appendFragment c (last ?p) (fuT nal) b a) (\<lambda>a. Inr (OK, a))"
      unfolding addFragmentedNALUnit_def Let_def
      using sz fuT flags pend S l ty by (simp add: chk_def)
    then show ?thesis using l pp r by (intro exI conjI) auto
  qed
qed

lemma takes_frag:
  assumes sp: "splittable nal" and b: "carries b (pfx f nal S E @ ch) mt"
    and S: "S \<longleftrightarrow> pend = None" and ty: "fi_mNALType (fragState nal pend) = fuT nal"
  shows "\<not> E \<Longrightarrow> takes b (us, pend) (us, Some (addFrag b (fragState nal pend)))"
    and "E \<Longrightarrow> assembleToNAL c (addFrag b (fragState nal pend)) = Inr u \<Longrightarrow>
           takes b (us, pend) (us @ [(ab_data u, meta u, ab_damaged u)], None)"
proof -
  show "takes b (us, pend) (us, Some (addFrag b (fragState nal pend)))" if "\<not> E"
    unfolding takes_def
  proof (intro allI impI)
    fix n a
    assume "ready n (fst (us, pend)) (snd (us, pend)) a"
    then have "ready n us pend a" by simp
    from addFragmented_ready [OF sp b S ty this] obtain flags a0 where
      "processPacket c b a = bnd (appendFragment c flags (fuT nal) b a0) (\<lambda>a. Inr (OK, a))"
      "ready n us pend a0" "flags AND 0x40 = 0 \<longleftrightarrow> \<not> E" by blast
    then show "\<exists>a'. processPacket c b a = Inr (OK, a') \<and>
        ready n (fst (us, Some (addFrag b (fragState nal pend)))) (snd (us, Some (addFrag b (fragState nal pend)))) a'"
      using appendFragment_ready(1) [of n us pend a0 flags nal b] that by auto
  qed
  show "takes b (us, pend) (us @ [(ab_data u, meta u, ab_damaged u)], None)"
    if E: "E" and u: "assembleToNAL c (addFrag b (fragState nal pend)) = Inr u"
    unfolding takes_def
  proof (intro allI impI)
    fix n a
    assume "ready n (fst (us, pend)) (snd (us, pend)) a"
    then have "ready n us pend a" by simp
    from addFragmented_ready [OF sp b S ty this] obtain flags a0 where
      "processPacket c b a = bnd (appendFragment c flags (fuT nal) b a0) (\<lambda>a. Inr (OK, a))"
      "ready n us pend a0" "flags AND 0x40 = 0 \<longleftrightarrow> \<not> E" by blast
    then show "\<exists>a'. processPacket c b a = Inr (OK, a') \<and>
        ready n (fst (us @ [(ab_data u, meta u, ab_damaged u)], None))
                (snd (us @ [(ab_data u, meta u, ab_damaged u)], None)) a'"
      using appendFragment_ready(2) [of n us pend a0 flags b nal u] u E by auto
  qed
qed

lemma accepts_frags:
  assumes sp: "splittable nal" "length nal < 2 ^ 32" "nat (nf_header f) \<le> length nal"
    and info: "fragInfo nal mt bs0 chs0 (fragState nal pend)" and S: "S \<longleftrightarrow> pend = None"
    and chs: "chs \<noteq> []" "concat (chs0 @ chs) = drop (nat (nf_header f)) nal"
  shows "accepts mt (frags f nal S m chs) (us, pend) (us @ [(nal, mt, False)], None)"
  using info S chs
proof (induction chs arbitrary: S pend bs0 chs0)
  case Nil
  then show ?case by simp
next
  case (Cons ch chs)
  let ?fi = "fragState nal pend"
  have ty: "fi_mNALType ?fi = fuT nal" using Cons.prems(1) by (simp add: fragInfo_def)
  have len: "length (concat (chs0 @ [ch])) \<le> length nal"
  proof -
    have "length (concat (chs0 @ [ch])) \<le> length (concat (chs0 @ ch # chs))" by simp
    also have "\<dots> \<le> length nal" unfolding Cons.prems(4) by simp
    finally show ?thesis .
  qed
  have add: "fragInfo nal mt (bs0 @ [b]) (chs0 @ [ch]) (addFrag b ?fi)" if "carries b (pfx f nal S E @ ch) mt" for b E
    using len sp(2) that by (intro fragInfo_add [OF sp(1) Cons.prems(1)]) (auto simp: frag_ok_def)
  show ?case
  proof (cases "chs = []")
    case True
    have "takes b (us, pend) (us @ [(nal, mt, False)], None)" if b: "carries b (pfx f nal S True @ ch) mt" for b
    proof -
      obtain u where u: "assembleToNAL c (addFrag b ?fi) = Inr u" "ab_data u = nal" "meta u = mt" "\<not> ab_damaged u"
        using assembleToNAL_ok [OF sp add [OF b]] Cons.prems(4) True by auto
      show ?thesis using takes_frag(2) [OF sp(1) b Cons.prems(2) ty TrueI u(1)] u by simp
    qed
    then show ?thesis using True by simp
  next
    case False
    then obtain ch' chs' where chs: "chs = ch' # chs'" by (cases chs) auto
    have "takes b (us, pend) (us, Some (addFrag b ?fi)) \<and>
        accepts mt (frags f nal False m chs) (us, Some (addFrag b ?fi)) (us @ [(nal, mt, False)], None)"
      if b: "carries b (pfx f nal S False @ ch) mt" for b
    proof -
      have "fragInfo nal mt (bs0 @ [b]) (chs0 @ [ch]) (fragState nal (Some (addFrag b ?fi)))"
        using add [OF b] by simp
      from Cons.IH [OF this _ False, where S = False] show ?thesis
        using Cons.prems(4) takes_frag(1) [OF sp(1) b Cons.prems(2) ty] by simp
    qed
    then show ?thesis unfolding chs by auto
  qed
qed

text \<open>The packets of a group post its units.\<close>

lemma accepts_group:
  assumes "group_ok g" "\<forall>nal \<in> set (group_nals g). length nal < 2 ^ 32"
  shows "accepts mt (group_payloads f m g) (us, None)
    (us @ map (\<lambda>nal. (nal, mt, False)) (group_nals g), None)"
proof (cases g)
  case (GSingle nal)
  then show ?thesis using assms takes_single [of nal _ mt us] by simp
next
  case (GStap nals)
  then show ?thesis using assms takes_stap [of nals _ mt us] by simp
next
  case (GFrag nal chs)
  have ok: "splittable nal" "length nal < 2 ^ 32" "nat (nf_header f) \<le> length nal" "chs \<noteq> []"
    "concat ([] @ chs) = drop (nat (nf_header f)) nal"
    using assms(1,2) whole_law [of nal] by (auto simp: GFrag)
  show ?thesis
    using accepts_frags [OF ok(1-3) _ _ ok(4,5), of mt "[]" None True m us]
    by (simp add: GFrag fragInfo_new)
qed

lemma accepts_groups:
  assumes "\<forall>g \<in> set gs. group_ok g" "\<forall>nal \<in> set (concat (map group_nals gs)). length nal < 2 ^ 32"
  shows "accepts mt (groups_payloads f m gs) (us, None)
    (us @ map (\<lambda>nal. (nal, mt, False)) (concat (map group_nals gs)), None)"
  using assms
proof (induction gs arbitrary: us)
  case Nil
  then show ?case by simp
next
  case (Cons g gs)
  define m1 where "m1 = (if gs = [] then m else False)"
  have split: "groups_payloads f m (g # gs) = group_payloads f m1 g @ groups_payloads f m gs"
    by (cases gs) (simp_all add: m1_def)
  let ?us = "us @ map (\<lambda>nal. (nal, mt, False)) (group_nals g)"
  have one: "accepts mt (group_payloads f m1 g) (us, None) (?us, None)"
    using Cons.prems by (intro accepts_group) auto
  have "accepts mt (groups_payloads f m gs) (?us, None)
      (?us @ map (\<lambda>nal. (nal, mt, False)) (concat (map group_nals gs)), None)"
    using Cons.prems by (intro Cons.IH) auto
  from accepts_append [OF one this] show ?case unfolding split by simp
qed

text \<open>No payload consists of zeros, so the padding of the header extension ends in time.\<close>

lemma groups_payloads_mem:
  "p \<in> set (groups_payloads f m gs) \<Longrightarrow> \<exists>g \<in> set gs. \<exists>m1. p \<in> set (group_payloads f m1 g)"
  by (induction f m gs rule: groups_payloads.induct) auto

lemma groups_nonzero:
  assumes "\<forall>g \<in> set gs. group_ok g" "(d, m') \<in> set (groups_payloads f m gs)"
  shows "\<exists>x \<in> set d. x \<noteq> 0"
proof -
  obtain g m1 where g: "group_ok g" "(d, m') \<in> set (group_payloads f m1 g)"
    using assms groups_payloads_mem [OF assms(2)] by blast
  have pre: "\<exists>x \<in> set (pfx f nal S E). x \<noteq> 0" if "splittable nal" for nal S E
  proof -
    have "pfx f nal S E \<noteq> []" using pfx_ok(2) [OF that, of S E] prefixLen(2) header_pos(1) by auto
    then show ?thesis using prefix_law [OF that pfx_ok(1) [OF that]] hd_in_set by metis
  qed
  have fr: "(d, m') \<in> set (frags f nal S m1 chs) \<Longrightarrow> splittable nal \<Longrightarrow> \<exists>x \<in> set d. x \<noteq> 0" for nal S chs
    using pre by (induction f nal S m1 chs rule: frags.induct) fastforce+
  show ?thesis
  proof (cases g)
    case (GSingle nal)
    then show ?thesis using g whole_law [of nal] by simp
  next
    case (GStap nals)
    then show ?thesis using g stap_law(3) stapLen(2) hd_in_set [of "nf_stap f"] by auto
  next
    case (GFrag nal chs)
    then show ?thesis using g fr by simp
  qed
qed

end

section \<open>A source that has lost nothing\<close>

text \<open>
  The source has the packets before \<open>n\<close>, its start-up time is over, and \<open>us\<close> were posted.
\<close>

definition steady :: "nal_codec \<Rightarrow> (nat \<Rightarrow> int) \<Rightarrow> 32 word \<Rightarrow> (byte list \<times> (32 word \<times> int \<times> int \<times> int) \<times> bool) list \<Rightarrow>
    NALFragMentsInfo option \<Rightarrow> RTPSource \<Rightarrow> bool" where
  "steady c clk n us pend s \<longleftrightarrow> mCodec s = c \<and> frameCount s > 0 \<and> mQueue s = [] \<and> mHighestSeqNumber s + 1 = n \<and>
     (\<forall>i \<ge> tick s. clk i - mFirstPacketRecvTimeUs s \<ge> 50000) \<and>
     (\<exists>a. mAssembler s = Some a \<and> ready n us pend a)"

lemma packetLost_ready:
  assumes "ready n us pend a"
  shows "\<exists>a'. packetLost clk a t = Inr (a', t + 1) \<and> ready n us pend a'"
  using assms by (simp add: packetLost_def ready_def chk_def Let_def)

lemma loop_empty:
  "ready n us pend a \<Longrightarrow> onPacketReceivedLoop c clk [] a t = Inr ([], a\<lparr>mFirstFailureTimeUs := - 1\<rparr>, t)"
  by (subst onPacketReceivedLoop.simps) (simp add: assembleMore_def addNALUnit_def ready_def)

lemma assembleMore_next:
  assumes "ready n us pend a" "ab_int32Data b = n"
    and "\<And>a0. ready n us pend a0 \<Longrightarrow> \<exists>a'. processPacket c b a0 = Inr (OK, a') \<and> ready n us' pend' a'"
  shows "\<exists>a'. assembleMore c [b] a = Inr (OK, [], a') \<and> ready (n + 1) us' pend' a'"
proof -
  define a0 where "a0 = (if nc_timed c
      then a\<lparr>mLastPacketReceiveTime := (case ab_recv_time b of None \<Rightarrow> 0 | Some t \<Rightarrow> t)\<rparr> else a)"
  have "ready n us pend a0" using assms(1) by (simp add: a0_def)
  then obtain a' where a': "processPacket c b a0 = Inr (OK, a')" "ready n us' pend' a'"
    using assms(3) by blast
  have "consumePacket c b [] a = Inr (OK, [], a'\<lparr>mNextExpectedSeqNo := mNextExpectedSeqNo a' + 1\<rparr>)"
    using a'(1) by (simp add: consumePacket_def a0_def [symmetric])
  moreover have "addNALUnit c [b] a = consumePacket c b [] a"
    using assms(1,2) by (simp add: addNALUnit_def ready_def)
  ultimately show ?thesis using a'(2) by (simp add: assembleMore_def ready_def)
qed

lemma onPacketReceived_next:
  assumes "ready n us pend a" "ab_int32Data b = n"
    and "\<And>a0. ready n us pend a0 \<Longrightarrow> \<exists>a'. processPacket c b a0 = Inr (OK, a') \<and> ready n us' pend' a'"
  shows "\<exists>a'. onPacketReceived c clk [b] a t = Inr ([], a', t + 1) \<and> ready (n + 1) us' pend' a'"
proof -
  obtain a1 where a1: "assembleMore c [b] a = Inr (OK, [], a1)" "ready (n + 1) us' pend' a1"
    using assembleMore_next [OF assms] by blast
  let ?a2 = "a1\<lparr>mFirstFailureTimeUs := - 1\<rparr>"
  have r2: "ready (n + 1) us' pend' ?a2" using a1(2) by simp
  have "onPacketReceivedLoop c clk [b] a t = onPacketReceivedLoop c clk [] ?a2 t"
    by (subst onPacketReceivedLoop.simps) (simp add: a1(1))
  also have "\<dots> = Inr ([], ?a2, t)" using loop_empty [OF r2] by simp
  finally have loop: "onPacketReceivedLoop c clk [b] a t = Inr ([], ?a2, t)" .
  obtain a' where a': "packetLost clk ?a2 t = Inr (a', t + 1)" "ready (n + 1) us' pend' a'"
    using packetLost_ready [OF r2] by blast
  show ?thesis unfolding onPacketReceived_def using loop a' by simp
qed

text \<open>The next packet, with the low 16 bits of its number.\<close>

lemma queuePacket_next:
  assumes "steady c clk n us pend s" "n \<noteq> 0" "ab_int32Data b = take_bit 16 n"
  shows "queuePacket clk b s = (True, s\<lparr>tick := tick s + 2, frameCount := frameCount s + 1, mHighestSeqNumber := n,
     mQueue := [b\<lparr>ab_recv_time := Some (clk (tick s)), ab_int32Data := n\<rparr>]\<rparr>)"
proof -
  have n: "n = mHighestSeqNumber s + 1" using assms(1) by (simp add: steady_def)
  then have "mHighestSeqNumber s < n"
    using assms(2) by (metis add.left_inverse inc_less_eq_triv_imp linorder_not_less)
  moreover have "extendSeqNumber (take_bit 16 n) (mHighestSeqNumber s) = n"
    using extendSeqNumber_next [of "mHighestSeqNumber s"] assms(2) n by simp
  moreover have "\<not> clk (Suc (tick s)) - mFirstPacketRecvTimeUs s < 50000"
    using assms(1) by (simp add: steady_def not_less)
  moreover have "frameCount s \<noteq> 0" "mQueue s = []" using assms(1) by (simp_all add: steady_def)
  ultimately show ?thesis using assms(3) by (simp add: queuePacket_def Let_def)
qed

lemma processRTPPacket_next:
  assumes s: "steady c clk n us pend s" and n: "n \<noteq> 0" "ab_int32Data b = take_bit 16 n"
    and takes: "\<And>a0. ready n us pend a0 \<Longrightarrow>
        \<exists>a'. processPacket c (b\<lparr>ab_recv_time := Some (clk (tick s)), ab_int32Data := n\<rparr>) a0 = Inr (OK, a') \<and>
          ready n us' pend' a'"
  shows "\<exists>s'. processRTPPacket clk b s = Inr s' \<and> steady c clk (n + 1) us' pend' s'"
proof -
  let ?b = "b\<lparr>ab_recv_time := Some (clk (tick s)), ab_int32Data := n\<rparr>"
  obtain a where a: "mAssembler s = Some a" "ready n us pend a" using s by (auto simp: steady_def)
  obtain a' where "onPacketReceived c clk [?b] a (tick s + 2) = Inr ([], a', tick s + 2 + 1)"
    "ready (n + 1) us' pend' a'"
    using onPacketReceived_next [OF a(2) _ takes, of clk "tick s + 2"] by auto
  then show ?thesis
    using s a(1) queuePacket_next [OF s n] by (simp add: processRTPPacket_def steady_def)
qed

section \<open>The receiver\<close>

definition configured :: "RTPSender \<Rightarrow> bool" where
  "configured s \<longleftrightarrow> rtp_payload_type s < 128 \<and> rtp_payload_type s \<noteq> 73 \<and>
     (m_extmap_CVO_supported s > 0 \<longrightarrow> 0 < m_extmap_CVO_id s \<and> m_extmap_CVO_id s < 15)"

text \<open>
  The receiver has a started track for the sender with these numbers, whose source has the packets
  before \<open>n\<close> and whose assembler has posted \<open>us\<close>.
\<close>

definition linked :: "byte \<Rightarrow> 32 word \<Rightarrow> nal_codec \<Rightarrow> (nat \<Rightarrow> int) \<Rightarrow> 32 word \<Rightarrow>
    (byte list \<times> (32 word \<times> int \<times> int \<times> int) \<times> bool) list \<Rightarrow> NALFragMentsInfo option \<Rightarrow> RTPReceiver \<Rightarrow> bool" where
  "linked pt ssrc c clk n us pend r \<longleftrightarrow>
     (\<exists>i src. findTrack (\<lambda>t. mTrackIndex t = IMSMA_RTP_VIDEO \<and> ti_payload_type t = pt) (mpTrackInfos r) = Some i \<and>
        ti_mStarted (mpTrackInfos r ! i) \<and>
        (mSSRCset (mpTrackInfos r ! i) \<longrightarrow> mSSRCid (mpTrackInfos r ! i) = ssrc) \<and>
        mRTPSource (mpTrackInfos r ! i) = Some src \<and> steady c clk n us pend src)"

lemma findTrack_length: "findTrack P ts = Some i \<Longrightarrow> i < length ts"
  by (induction ts arbitrary: i) (auto split: if_splits)

lemma findTrack_update:
  "findTrack P ts = Some i \<Longrightarrow> P t = P (ts ! i) \<Longrightarrow> findTrack P (ts[i := t]) = Some i"
  by (induction ts arbitrary: i) (auto split: if_splits nat.split)

definition frameMeta :: "RTPSender \<Rightarrow> access_unit \<Rightarrow> byte \<Rightarrow> 32 word \<times> int \<times> int \<times> int" where
  "frameMeta s accu cvo = meta (received s accu False cvo [])"

lemma setOrientation_simps [simp]:
  "ab_data (setOrientation cvo b) = ab_data b" "ab_damaged (setOrientation cvo b) = ab_damaged b"
  "ab_int32Data (setOrientation cvo b) = ab_int32Data b" "ab_rtp_time (setOrientation cvo b) = ab_rtp_time b"
  by (simp_all add: setOrientation_def Let_def)

lemma received_carries: "carries (received s accu m cvo d) d (frameMeta s accu cvo)"
  by (simp add: carries_def received_def frameMeta_def meta_def setOrientation_def Let_def newABuffer_def)

lemma frameMeta_seq [simp]: "frameMeta (s\<lparr>mRTPSeqNo := q\<rparr>) accu cvo = frameMeta s accu cvo"
  by (simp add: frameMeta_def meta_def received_def rtpTimeOf_def setOrientation_def Let_def newABuffer_def)

lemma received_int32Data: "ab_int32Data (received s accu m cvo d) = take_bit 16 (mRTPSeqNo s)"
  by (simp add: received_def and_masks)

lemma configured_seq [simp]: "configured (s\<lparr>mRTPSeqNo := q\<rparr>) = configured s"
  by (simp add: configured_def)

lemma cvoAfter_stable:
  "mLastCVOinfo r' = cvoAfter s accu r \<Longrightarrow> cvoAfter (s\<lparr>mRTPSeqNo := q\<rparr>) accu r' = cvoAfter s accu r"
  by (simp add: cvoAfter_def)

context nal_transport
begin

lemma rcv_next:
  assumes s: "configured s" and d: "\<exists>x \<in> set d. x \<noteq> 0"
    and r: "linked (rtp_payload_type s) (mSSRC s) c clk n us pend r" "n \<noteq> 0" "take_bit 16 n = take_bit 16 (mRTPSeqNo s)"
    and acc: "accepts (frameMeta s accu (cvoAfter s accu r)) ((d, m) # ps) (us, pend) y"
  shows "\<exists>r' us' pend'. rcvQueueRTPPacket ada clk \<lparr>rp_bytes = rtpHeader s accu m @ d, rp_tail = rest\<rparr>
        IMSMA_RTP_VIDEO r = Inr (0, 0, r') \<and>
     linked (rtp_payload_type s) (mSSRC s) c clk (n + 1) us' pend' r' \<and> mLastCVOinfo r' = cvoAfter s accu r \<and>
     accepts (frameMeta s accu (cvoAfter s accu r)) ps (us', pend') y"
proof -
  let ?cvo = "cvoAfter s accu r"
  let ?P = "\<lambda>t. mTrackIndex t = IMSMA_RTP_VIDEO \<and> ti_payload_type t = rtp_payload_type s"
  obtain i src where i: "findTrack ?P (mpTrackInfos r) = Some i" and src: "mRTPSource (mpTrackInfos r ! i) = Some src"
    and t: "ti_mStarted (mpTrackInfos r ! i)" "mSSRCset (mpTrackInfos r ! i) \<Longrightarrow> mSSRCid (mpTrackInfos r ! i) = mSSRC s"
    and st: "steady c clk n us pend src"
    using r(1) unfolding linked_def by blast
  let ?t = "mpTrackInfos r ! i" and ?b = "received s accu m ?cvo d"
  let ?b' = "?b\<lparr>ab_recv_time := Some (clk (tick src)), ab_int32Data := n\<rparr>"
  have "carries ?b' d (frameMeta s accu ?cvo)"
    using received_carries [of s accu m ?cvo d] by (simp add: carries_def)
  then obtain z where z: "takes ?b' (us, pend) z" "accepts (frameMeta s accu ?cvo) ps z y"
    using acc by auto
  obtain us' pend' where zz: "z = (us', pend')" by (cases z)
  have num: "ab_int32Data ?b = take_bit 16 n" using r(3) by (simp add: received_int32Data)
  have tk: "\<exists>a'. processPacket c ?b' a0 = Inr (OK, a') \<and> ready n us' pend' a'" if "ready n us pend a0" for a0
    using z(1) that unfolding takes_def zz by simp
  obtain src' where src': "processRTPPacket clk ?b src = Inr src'" "steady c clk (n + 1) us' pend' src'"
    using processRTPPacket_next [OF st r(2) num tk] by blast
  have ext: "0 < m_extmap_CVO_supported s \<Longrightarrow> 0 < m_extmap_CVO_id s \<and> m_extmap_CVO_id s < 15"
    and pt: "rtp_payload_type s < 128" "rtp_payload_type s \<noteq> 73"
    using s by (simp_all add: configured_def)
  let ?u = "?t\<lparr>mSSRCid := mSSRC s, mSSRCset := True, mRTPSource := Some src'\<rparr>"
  let ?r = "(afterPacket s accu ?t r)\<lparr>mpTrackInfos := (mpTrackInfos r)[i := ?u]\<rparr>"
  have "trackSource ada (?t\<lparr>mSSRCid := mSSRC s, mSSRCset := True\<rparr>) = src"
    using src by (simp add: trackSource_def)
  then have "rcvQueueRTPPacket ada clk \<lparr>rp_bytes = rtpHeader s accu m @ d, rp_tail = rest\<rparr> IMSMA_RTP_VIDEO r =
      Inr (0, 0, ?r)"
    using rcv_reads_sent [OF pt ext d i refl t, of ada clk accu m rest] src'(1) by simp
  moreover have "linked (rtp_payload_type s) (mSSRC s) c clk (n + 1) us' pend' ?r"
    unfolding linked_def using findTrack_update [OF i, of ?u] findTrack_length [OF i] t(1) src'(2)
    by (intro exI [of _ i] exI [of _ src']) (simp add: afterPacket_def)
  moreover have "mLastCVOinfo ?r = ?cvo" by (simp add: afterPacket_def)
  ultimately show ?thesis using z(2) unfolding zz by blast
qed

lemma linked_pending [simp]:
  "linked pt ssrc c clk n us pend (r\<lparr>mVideoRTPPending := x\<rparr>) = linked pt ssrc c clk n us pend r"
  "linked pt ssrc c clk n us pend (r\<lparr>mVideoRTPQueue := q\<rparr>) = linked pt ssrc c clk n us pend r"
  by (simp_all add: linked_def)

lemma low_half_inc: "take_bit 16 ((n :: 32 word) + 1) = take_bit 16 (take_bit 16 n + 1)"
proof (rule word_uint_eqI)
  have "(uint n + 1) mod 2 ^ 32 mod 65536 = (uint n mod 65536 + 1) mod 2 ^ 32 mod 65536"
    using mod_mod_cancel [of 65536 "2 ^ 32 :: int"] mod_add_left_eq [of "uint n" 65536 1] by simp
  then show "uint (take_bit 16 (n + 1)) = uint (take_bit 16 (take_bit 16 n + 1))"
    by (simp add: uint_low_half uint_word_ariths)
qed

lemma next_number:
  fixes n :: "32 word"
  assumes "0 < unat n" "unat n + Suc k < 2 ^ 32"
  shows "n \<noteq> 0" "0 < unat (n + 1)" "unat (n + 1) + k < 2 ^ 32"
    "take_bit 16 n = take_bit 16 q \<Longrightarrow> take_bit 16 (n + 1) = take_bit 16 (q + 1)"
proof -
  show "n \<noteq> 0" using assms(1) by auto
  have "unat (n + 1) = unat n + 1" using assms(2) by (simp add: unat_word_ariths)
  then show "0 < unat (n + 1)" "unat (n + 1) + k < 2 ^ 32" using assms(2) by simp_all
  show "take_bit 16 (n + 1) = take_bit 16 (q + 1)" if "take_bit 16 n = take_bit 16 q"
    using low_half_inc [of n] low_half_inc [of q] that by simp
qed

text \<open>The handler of the queue passes all packets of the frame on.\<close>

lemma drain_frame:
  assumes "configured s" "\<forall>(d, m) \<in> set ps. \<exists>x \<in> set d. x \<noteq> 0"
    and "linked (rtp_payload_type s) (mSSRC s) c clk n us pend r" "take_bit 16 n = take_bit 16 (mRTPSeqNo s)"
    and "0 < unat n" "unat n + length ps < 2 ^ 32"
    and "accepts (frameMeta s accu (cvoAfter s accu r)) ps (us, pend) (us', pend')"
    and "map rp_bytes qs = wireBytes s accu ps"
  shows "\<exists>r'. drainQueue ada clk qs r = Inr r' \<and>
     linked (rtp_payload_type s) (mSSRC s) c clk (n + of_nat (length ps)) us' pend' r'"
  using assms
proof (induction ps arbitrary: s n us pend r qs)
  case Nil
  then show ?case by simp
next
  case (Cons p ps)
  obtain d m where p: "p = (d, m)" by (cases p)
  obtain q qs' where qs: "qs = q # qs'" "rp_bytes q = rtpHeader s accu m @ d" "map rp_bytes qs' = wireBytes (nextSeq s) accu ps"
    using Cons.prems(8) p by (cases qs) auto
  then have q: "q = \<lparr>rp_bytes = rtpHeader s accu m @ d, rp_tail = rp_tail q\<rparr>" by (cases q) simp
  note n = next_number [OF Cons.prems(5)]
  have k: "unat n + Suc (length ps) < 2 ^ 32" using Cons.prems(6) by simp
  let ?r = "r\<lparr>mVideoRTPPending := False\<rparr>"
  have cvo: "cvoAfter s accu ?r = cvoAfter s accu r" by (simp add: cvoAfter_def)
  have l: "linked (rtp_payload_type s) (mSSRC s) c clk n us pend ?r" using Cons.prems(3) by simp
  have acc: "accepts (frameMeta s accu (cvoAfter s accu ?r)) ((d, m) # ps) (us, pend) (us', pend')"
    using Cons.prems(7) unfolding cvo p .
  have d: "\<exists>x \<in> set d. x \<noteq> 0" using Cons.prems(2) p by auto
  obtain r1 us1 pend1 where r1: "rcvQueueRTPPacket ada clk q IMSMA_RTP_VIDEO ?r = Inr (0, 0, r1)"
    "linked (rtp_payload_type s) (mSSRC s) c clk (n + 1) us1 pend1 r1" "mLastCVOinfo r1 = cvoAfter s accu r"
    "accepts (frameMeta s accu (cvoAfter s accu r)) ps (us1, pend1) (us', pend')"
    using rcv_next [OF Cons.prems(1) d l n(1) [OF k] Cons.prems(4) acc, of ada "rp_tail q"] q cvo by metis
  have step: "drainQueue ada clk qs r = drainQueue ada clk qs' r1"
    unfolding qs(1) by (simp add: r1(1))
  have "configured (nextSeq s)" using Cons.prems(1) by simp
  moreover have "\<forall>(d, m) \<in> set ps. \<exists>x \<in> set d. x \<noteq> 0" using Cons.prems(2) by auto
  moreover have "linked (rtp_payload_type (nextSeq s)) (mSSRC (nextSeq s)) c clk (n + 1) us1 pend1 r1"
    using r1(2) by simp
  moreover have "take_bit 16 (n + 1) = take_bit 16 (mRTPSeqNo (nextSeq s))"
    using n(4) [OF k Cons.prems(4)] by simp
  moreover have "accepts (frameMeta (nextSeq s) accu (cvoAfter (nextSeq s) accu r1)) ps (us1, pend1) (us', pend')"
    using r1(3,4) by (simp add: cvoAfter_stable [OF r1(3)])
  ultimately obtain r' where "drainQueue ada clk qs' r1 = Inr r'"
    "linked (rtp_payload_type s) (mSSRC s) c clk (n + 1 + of_nat (length ps)) us' pend' r'"
    using Cons.IH [of "nextSeq s" "n + 1" us1 pend1 r1 qs'] n(2,3) [OF k] qs(3) by auto
  then show ?case unfolding step by (simp add: add_ac)
qed

end

end
