(* ===== verification/RtpCodecs.thy ===== *)
theory RtpCodecs
  imports RtpDelivery
begin

text \<open>
  The two instances of the interface \<open>nal_transport\<close>: AVC, whose units may all travel in
  fragments, and HEVC, where only the units with a type below 32 may (the assembler masks the type
  with 0x1f), with the way of an access unit from one end to the other.
\<close>

lemma byte_eqI:
  fixes a b :: byte
  assumes "bit a 0 = bit b 0" "bit a 1 = bit b 1" "bit a 2 = bit b 2" "bit a 3 = bit b 3"
    "bit a 4 = bit b 4" "bit a 5 = bit b 5" "bit a 6 = bit b 6" "bit a 7 = bit b 7"
  shows "a = b"
proof (rule bit_word_eqI)
  fix n :: nat
  assume "n < LENGTH(8)"
  then have "n \<in> {0, 1, 2, 3, 4, 5, 6, 7}" by auto
  then show "bit a n = bit b n" using assms by auto
qed

lemma byte_flag:
  "(a :: byte) AND 0x80 = 0 \<longleftrightarrow> \<not> bit a 7" "a AND 0x40 = 0 \<longleftrightarrow> \<not> bit a 6"
proof -
  have "(a AND 0x80 = 0) = (\<not> bit a 7)"
  proof
    assume "a AND 0x80 = 0"
    then have "\<not> bit (a AND 0x80) 7" by simp
    then show "\<not> bit a 7" by (simp add: bit_simps)
  next
    assume "\<not> bit a 7"
    then show "a AND 0x80 = 0" by (intro byte_eqI) (simp_all add: bit_simps)
  qed
  then show "a AND 0x80 = 0 \<longleftrightarrow> \<not> bit a 7" .
  show "a AND 0x40 = 0 \<longleftrightarrow> \<not> bit a 6"
  proof
    assume "a AND 0x40 = 0"
    then have "\<not> bit (a AND 0x40) 6" by simp
    then show "\<not> bit a 6" by (simp add: bit_simps)
  next
    assume "\<not> bit a 6"
    then show "a AND 0x40 = 0" by (intro byte_eqI) (simp_all add: bit_simps)
  qed
qed

section \<open>AVC\<close>

text \<open>The types of RFC 6184 for one unit, with the forbidden bit clear.\<close>

definition avcUnit :: "byte list \<Rightarrow> bool" where
  "avcUnit nal \<longleftrightarrow> nal \<noteq> [] \<and> hd nal AND 0x80 = 0 \<and> 1 \<le> hd nal AND 0x1f \<and> hd nal AND 0x1f \<le> 23"

lemma avc_prefix_bits:
  fixes n :: byte
  shows "(push_bit 5 (drop_bit 5 n AND 3) OR 28) AND 0x1f = 28"
    and "(push_bit 5 (drop_bit 5 n AND 3) OR 28) AND 0x80 = 0"
    and "drop_bit 5 (push_bit 5 (drop_bit 5 n AND 3) OR 28) AND 3 = drop_bit 5 n AND 3"
    and "fuFlags (n AND 0x1f) S E AND 0x1f = n AND 0x1f"
    and "fuFlags (n AND 0x1f) S E AND 0x80 = 0 \<longleftrightarrow> \<not> S"
    and "fuFlags (n AND 0x1f) S E AND 0x40 = 0 \<longleftrightarrow> \<not> E"
    and "n AND 0x80 = 0 \<Longrightarrow> push_bit 5 (drop_bit 5 n AND 3) OR (n AND 0x1f) = n"
proof -
  show "(push_bit 5 (drop_bit 5 n AND 3) OR 28) AND 0x1f = 28"
    by (rule byte_eqI) (simp_all add: bit_simps)
  show "(push_bit 5 (drop_bit 5 n AND 3) OR 28) AND 0x80 = 0"
    by (rule byte_eqI) (simp_all add: bit_simps)
  show "drop_bit 5 (push_bit 5 (drop_bit 5 n AND 3) OR 28) AND 3 = drop_bit 5 n AND 3"
    by (rule byte_eqI) (simp_all add: bit_simps)
  show "fuFlags (n AND 0x1f) S E AND 0x1f = n AND 0x1f"
    by (cases S; cases E; rule byte_eqI) (simp_all add: fuFlags_def bit_simps)
  show "fuFlags (n AND 0x1f) S E AND 0x80 = 0 \<longleftrightarrow> \<not> S"
    by (cases S; cases E) (simp_all add: fuFlags_def byte_flag bit_simps)
  show "fuFlags (n AND 0x1f) S E AND 0x40 = 0 \<longleftrightarrow> \<not> E"
    by (cases S; cases E) (simp_all add: fuFlags_def byte_flag bit_simps)
  show "push_bit 5 (drop_bit 5 n AND 3) OR (n AND 0x1f) = n" if "n AND 0x80 = 0"
    by (rule byte_eqI) (use that in \<open>simp_all add: bit_simps byte_flag\<close>)
qed

lemma avc_whole:
  assumes "avcUnit nal"
  shows "nal \<noteq> []" "hd nal AND 0x80 = 0" "avcKind (hd nal) = SingleNAL" "\<exists>x \<in> set nal. x \<noteq> 0"
proof -
  show "nal \<noteq> []" "hd nal AND 0x80 = 0" "avcKind (hd nal) = SingleNAL"
    using assms by (simp_all add: avcUnit_def avcKind_def Let_def)
  then have "hd nal \<in> set nal" "hd nal \<noteq> 0" using assms by (auto simp: avcUnit_def)
  then show "\<exists>x \<in> set nal. x \<noteq> 0" by blast
qed

lemma avc_prefix:
  assumes "avcUnit nal"
  shows "fuPrefix nal S E = Inr [push_bit 5 (drop_bit 5 (hd nal) AND 3) OR 28, fuFlags (hd nal AND 0x1f) S E]"
  using assms by (simp add: fuPrefix_def rd_def avcUnit_def hd_conv_nth Let_def)

interpretation avc: nal_transport avcFormat avcCodec avcUnit avcUnit "\<lambda>nal. hd nal AND 0x1f"
  "\<lambda>nal. Some (uint (drop_bit 5 (hd nal) AND 3))"
proof unfold_locales
  fix nal
  assume w: "avcUnit nal"
  show "nal \<noteq> [] \<and> hd nal AND 0x80 = 0 \<and> nc_kind avcCodec (hd nal) = SingleNAL \<and> (\<exists>x \<in> set nal. x \<noteq> 0) \<and>
      nf_header avcFormat \<le> int (length nal) \<and>
      nc_stapMin avcCodec \<le> int (length (nf_stap avcFormat)) + 2 + int (length nal)"
    using avc_whole [OF w] by (cases nal) (auto simp: avcCodec_def avcFormat_def)
next
  fix nal S E
  assume "avcUnit nal"
  then show "\<exists>p. nf_prefix avcFormat nal S E = Inr p \<and> int (length p) = nf_prefixLen avcFormat"
    by (simp add: avcFormat_def avc_prefix)
next
  fix nal S E p d
  assume w: "avcUnit nal" and "nf_prefix avcFormat nal S E = Inr p"
  then have p: "p = [push_bit 5 (drop_bit 5 (hd nal) AND 3) OR 28, fuFlags (hd nal AND 0x1f) S E]"
    by (simp add: avcFormat_def avc_prefix)
  obtain n0 ns where nal: "nal = n0 # ns" using w by (cases nal) (auto simp: avcUnit_def)
  have "n0 AND 0x80 = 0" using w nal by (simp add: avcUnit_def)
  note b = avc_prefix_bits [of n0] avc_prefix_bits(7) [OF this]
  have nz: "push_bit 5 (drop_bit 5 n0 AND 3) OR 28 \<noteq> 0" using b(1) by auto
  show "hd p \<noteq> 0 \<and> hd p AND 0x80 = 0 \<and> nc_kind avcCodec (hd p) = FragmentationUnit \<and>
      (last p AND 0x80 = 0 \<longleftrightarrow> \<not> S) \<and> (last p AND 0x40 = 0 \<longleftrightarrow> \<not> E) \<and>
      nc_fuType avcCodec (p @ d) = Inr (hd nal AND 0x1f) \<and>
      nc_reassemble avcCodec (p @ d) =
        Inr (take (nat (nf_header avcFormat)) nal, Some (uint (drop_bit 5 (hd nal) AND 3)))"
    unfolding p using nz b
    by (simp add: nal avcCodec_def avcFormat_def avcKind_def avcReassemble_def rd_def)
qed (simp_all add: avcFormat_def avcCodec_def avcKind_def)

section \<open>HEVC\<close>

text \<open>The types of one unit, with the forbidden bit clear and a temporal identifier, which is not 0.\<close>

definition hevcType :: "byte list \<Rightarrow> byte" where
  "hevcType nal = drop_bit 1 (hd nal AND 0x7E)"

definition hevcUnit :: "byte list \<Rightarrow> bool" where
  "hevcUnit nal \<longleftrightarrow> length nal \<ge> 2 \<and> hd nal AND 0x80 = 0 \<and> nal ! 1 \<noteq> 0 \<and>
     (hevcType nal \<le> 9 \<or> (15 \<le> hevcType nal \<and> hevcType nal \<le> 21) \<or> (32 \<le> hevcType nal \<and> hevcType nal \<le> 40))"

definition hevcSplittable :: "byte list \<Rightarrow> bool" where
  "hevcSplittable nal \<longleftrightarrow> hevcUnit nal \<and> hevcType nal AND 0x20 = 0"

lemma hevc_prefix_bits:
  fixes n :: byte
  shows "drop_bit 1 (((n AND 0x81) OR push_bit 1 49) AND 0x7E) = 49"
    and "n AND 0x80 = 0 \<Longrightarrow> ((n AND 0x81) OR push_bit 1 49) AND 0x80 = 0"
    and "((n AND 0x81) OR push_bit 1 49) AND 0x81 = n AND 0x81"
    and "drop_bit 1 (n AND 0x7E) AND 0x20 = 0 \<Longrightarrow> fuFlags (drop_bit 1 (n AND 0x7E)) S E AND 0x1f = drop_bit 1 (n AND 0x7E)"
    and "fuFlags (drop_bit 1 (n AND 0x7E)) S E AND 0x80 = 0 \<longleftrightarrow> \<not> S"
    and "fuFlags (drop_bit 1 (n AND 0x7E)) S E AND 0x40 = 0 \<longleftrightarrow> \<not> E"
    and "(n AND 0x81) OR push_bit 1 (drop_bit 1 (n AND 0x7E)) = n"
proof -
  have flag: "a AND 0x20 = 0 \<longleftrightarrow> \<not> bit a 5" for a :: byte
  proof
    assume "a AND 0x20 = 0"
    then have "\<not> bit (a AND 0x20) 5" by simp
    then show "\<not> bit a 5" by (simp add: bit_simps)
  next
    assume "\<not> bit a 5"
    then show "a AND 0x20 = 0" by (intro byte_eqI) (simp_all add: bit_simps)
  qed
  show "drop_bit 1 (((n AND 0x81) OR push_bit 1 49) AND 0x7E) = 49"
    by (rule byte_eqI) (simp_all add: bit_simps)
  show "((n AND 0x81) OR push_bit 1 49) AND 0x80 = 0" if "n AND 0x80 = 0"
    by (rule byte_eqI) (use that in \<open>simp_all add: bit_simps byte_flag\<close>)
  show "((n AND 0x81) OR push_bit 1 49) AND 0x81 = n AND 0x81"
    by (rule byte_eqI) (simp_all add: bit_simps)
  show "fuFlags (drop_bit 1 (n AND 0x7E)) S E AND 0x1f = drop_bit 1 (n AND 0x7E)"
    if "drop_bit 1 (n AND 0x7E) AND 0x20 = 0"
    by (cases S; cases E; rule byte_eqI) (use that in \<open>simp_all add: fuFlags_def bit_simps flag\<close>)
  show "fuFlags (drop_bit 1 (n AND 0x7E)) S E AND 0x80 = 0 \<longleftrightarrow> \<not> S"
    by (cases S; cases E) (simp_all add: fuFlags_def byte_flag bit_simps)
  show "fuFlags (drop_bit 1 (n AND 0x7E)) S E AND 0x40 = 0 \<longleftrightarrow> \<not> E"
    by (cases S; cases E) (simp_all add: fuFlags_def byte_flag bit_simps)
  show "(n AND 0x81) OR push_bit 1 (drop_bit 1 (n AND 0x7E)) = n"
    by (rule byte_eqI) (simp_all only: bit_or_iff bit_push_bit_iff bit_and_iff bit_drop_bit_eq,
        simp_all add: bit_simps eval_nat_numeral)
qed

lemma hevc_split:
  assumes "hevcUnit nal"
  obtains n0 n1 ns where "nal = n0 # n1 # ns" "n0 AND 0x80 = 0" "n1 \<noteq> 0"
  using assms by (cases nal; cases "tl nal") (auto simp: hevcUnit_def)

interpretation hevc: nal_transport hevcFormat hevcCodec hevcUnit hevcSplittable "\<lambda>nal. 49" "\<lambda>nal. None"
proof unfold_locales
  fix nal
  assume w: "hevcUnit nal"
  obtain n0 n1 ns where nal: "nal = n0 # n1 # ns" "n0 AND 0x80 = 0" "n1 \<noteq> 0" by (rule hevc_split [OF w])
  have "hevcKind n0 = SingleNAL"
    using w unfolding hevcUnit_def hevcType_def nal hevcKind_def Let_def by simp
  then show "nal \<noteq> [] \<and> hd nal AND 0x80 = 0 \<and> nc_kind hevcCodec (hd nal) = SingleNAL \<and> (\<exists>x \<in> set nal. x \<noteq> 0) \<and>
      nf_header hevcFormat \<le> int (length nal) \<and>
      nc_stapMin hevcCodec \<le> int (length (nf_stap hevcFormat)) + 2 + int (length nal)"
    using nal by (simp add: hevcCodec_def hevcFormat_def)
next
  fix nal S E
  assume "hevcSplittable nal"
  then have "hevcUnit nal" by (simp add: hevcSplittable_def)
  then show "\<exists>p. nf_prefix hevcFormat nal S E = Inr p \<and> int (length p) = nf_prefixLen hevcFormat"
    by (elim hevc_split) (simp add: hevcFormat_def fuPrefix_HEVC_def rd_def Let_def)
next
  fix nal S E p d
  assume w: "hevcSplittable nal" and p: "nf_prefix hevcFormat nal S E = Inr p"
  then have u: "hevcUnit nal" by (simp add: hevcSplittable_def)
  obtain n0 n1 ns where nal: "nal = n0 # n1 # ns" "n0 AND 0x80 = 0" "n1 \<noteq> 0" by (rule hevc_split [OF u])
  have ty: "drop_bit 1 (n0 AND 0x7E) AND 0x20 = 0" using w nal by (simp add: hevcSplittable_def hevcType_def)
  define h where "h = (n0 AND 0x81) OR push_bit 1 49"
  define g where "g = fuFlags (drop_bit 1 (n0 AND 0x7E)) S E"
  have pp: "p = [h, n1, g]"
    using p by (simp add: nal(1) hevcFormat_def fuPrefix_HEVC_def rd_def h_def g_def Let_def)
  note b = hevc_prefix_bits [of n0, folded h_def] hevc_prefix_bits(4-6) [of n0 S E, folded g_def]
  have t: "drop_bit 1 (h AND 0x7E) = 49" "h AND 0x80 = 0" "h AND 0x81 = n0 AND 0x81"
    "g AND 0x1f = drop_bit 1 (n0 AND 0x7E)"
    using b nal(2) ty by blast+
  have nz: "h \<noteq> 0" using t(1) by auto
  have "(h AND 0x81) OR push_bit 1 (g AND 0x1f) = n0" unfolding t(3,4) by (rule hevc_prefix_bits(7))
  then have re: "nc_reassemble hevcCodec (p @ d) = Inr ([n0, n1], None)"
    unfolding pp hevcCodec_def by (simp add: hevcReassemble_def rd_def Let_def del: One_nat_def push_bit_Suc)
  have k: "hevcKind h = FragmentationUnit" unfolding hevcKind_def t(1) by simp
  show "hd p \<noteq> 0 \<and> hd p AND 0x80 = 0 \<and> nc_kind hevcCodec (hd p) = FragmentationUnit \<and>
      (last p AND 0x80 = 0 \<longleftrightarrow> \<not> S) \<and> (last p AND 0x40 = 0 \<longleftrightarrow> \<not> E) \<and>
      nc_fuType hevcCodec (p @ d) = Inr 49 \<and>
      nc_reassemble hevcCodec (p @ d) = Inr (take (nat (nf_header hevcFormat)) nal, None)"
    unfolding re using nz t k b(8-) hevc_prefix_bits(5,6) [of n0 S E, folded g_def]
    by (simp add: pp nal(1) hevcCodec_def hevcFormat_def rd_def)
qed (simp_all add: hevcFormat_def hevcCodec_def hevcKind_def)

section \<open>From the encoder to the decoder\<close>

lemma sendLoop_all:
  "(\<And>i. 0 \<le> w i) \<Longrightarrow> sendLoop w i g q s = Inr (s\<lparr>mRTPPacketQueue := [], wire := wire s @ q\<rparr>)"
  by (induction q arbitrary: i s) (simp_all add: not_less [symmetric])

text \<open>The packets as the socket hands them to the receiver: \<open>rest\<close> is the memory behind each.\<close>

definition arriving :: "byte list \<Rightarrow> out_packet list \<Rightarrow> rtp_packet list" where
  "arriving rest ps = map (\<lambda>p. \<lparr>rp_bytes = op_bytes p, rp_tail = rest\<rparr>) ps"

lemma arriving_bytes [simp]: "map rp_bytes (arriving rest ps) = map op_bytes ps"
  by (simp add: arriving_def)

context nal_transport
begin

lemma frame_delivered:
  assumes xs: "xs \<noteq> []" "leftOk xs" "endLeft \<le> 0"
    and mtu: "40 \<le> mMTUSize s" "mMTUSize s < 65536"
    and nals: "\<forall>nal \<in> fst ` set xs. carriable (mMTUSize s) nal \<and> length nal < 2 ^ 32"
    and s: "configured s" and r: "linked (rtp_payload_type s) (mSSRC s) c clk n us None r"
    and n: "take_bit 16 n = take_bit 16 (mRTPSeqNo s)" "0 < unat n"
  shows "\<exists>s' outs. aggregateNALs f accu xs endLeft s = Inr s' \<and>
     s' = s\<lparr>mRTPSeqNo := mRTPSeqNo s + of_nat (length outs), mRTPPacketQueue := mRTPPacketQueue s @ outs\<rparr> \<and>
     (unat n + length outs < 2 ^ 32 \<longrightarrow>
       (\<exists>r'. drainQueue ada clk (arriving rest outs) r = Inr r' \<and>
          linked (rtp_payload_type s) (mSSRC s) c clk (n + of_nat (length outs))
            (us @ map (\<lambda>(nal, left). (nal, frameMeta s accu (cvoAfter s accu r), False)) xs) None r'))"
proof -
  obtain s' gs where agg: "aggregateNALs f accu xs endLeft s = Inr s'"
    and em: "emitted accu s s' (groups_payloads f True gs)" and gs: "\<forall>g \<in> set gs. group_ok g"
    and units: "concat (map group_nals gs) = map fst xs"
    using aggregate_groups [OF xs mtu, of accu] nals by blast
  obtain outs where outs: "s' = s\<lparr>mRTPSeqNo := mRTPSeqNo s + of_nat (length (groups_payloads f True gs)),
      mRTPPacketQueue := mRTPPacketQueue s @ outs\<rparr>" "map op_bytes outs = wireBytes s accu (groups_payloads f True gs)"
    using em unfolding emitted_def by blast
  have len: "length (groups_payloads f True gs) = length outs"
    using arg_cong [OF outs(2), of length] by simp
  have short: "\<forall>nal \<in> set (concat (map group_nals gs)). length nal < 2 ^ 32"
    unfolding units using nals by auto
  let ?mt = "frameMeta s accu (cvoAfter s accu r)"
  have "\<exists>r'. drainQueue ada clk (arriving rest outs) r = Inr r' \<and>
      linked (rtp_payload_type s) (mSSRC s) c clk (n + of_nat (length outs))
        (us @ map (\<lambda>(nal, left). (nal, ?mt, False)) xs) None r'" if small: "unat n + length outs < 2 ^ 32"
  proof -
    have nz: "\<forall>(d, m) \<in> set (groups_payloads f True gs). \<exists>x \<in> set d. x \<noteq> 0"
      using groups_nonzero [OF gs] by blast
    have us: "map (\<lambda>nal. (nal, ?mt, False)) (concat (map group_nals gs)) = map (\<lambda>(nal, left). (nal, ?mt, False)) xs"
      unfolding units by auto
    show ?thesis
      using drain_frame [OF s nz r n(1,2) _ accepts_groups [OF gs short, where m = True],
          where qs = "arriving rest outs" and ada = ada and accu = accu]
        small outs(2) len unfolding us by simp
  qed
  then show ?thesis using agg outs(1) unfolding len by blast
qed

end

lemma received_config [simp]:
  "configured (s\<lparr>mAccuReceived := k\<rparr>) = configured s"
  "frameMeta (s\<lparr>mAccuReceived := k\<rparr>) accu cvo = frameMeta s accu cvo"
  "cvoAfter (s\<lparr>mAccuReceived := k\<rparr>) accu r = cvoAfter s accu r"
  by (simp_all add: configured_def frameMeta_def meta_def received_def rtpTimeOf_def setOrientation_def
      Let_def newABuffer_def cvoAfter_def cvoElement_def)

lemma callbacks_queue:
  "mVideoRTPQueue (fold videoRTPPacketCallBack ps r) = mVideoRTPQueue r @ ps \<and>
   mpTrackInfos (fold videoRTPPacketCallBack ps r) = mpTrackInfos r \<and>
   mLastCVOinfo (fold videoRTPPacketCallBack ps r) = mLastCVOinfo r"
  by (induction ps arbitrary: r) (simp_all add: videoRTPPacketCallBack_def Let_def)

lemma callbacks_cvo [simp]:
  "cvoAfter s accu (fold videoRTPPacketCallBack ps r) = cvoAfter s accu r"
  by (simp add: cvoAfter_def callbacks_queue)

lemma linked_callbacks [simp]:
  "linked pt ssrc c clk n us pend (fold videoRTPPacketCallBack ps r) = linked pt ssrc c clk n us pend r"
  by (simp add: linked_def callbacks_queue)

lemma onRTPPacket_callbacks:
  "mVideoRTPQueue r = [] \<Longrightarrow> onRTPPacket ada clk (fold videoRTPPacketCallBack ps r) =
     drainQueue ada clk ps (fold videoRTPPacketCallBack ps r)"
  by (simp add: onRTPPacket_def callbacks_queue)

text \<open>One frame over a network that takes every packet.\<close>

lemma onSendRTPPacket_all:
  assumes "\<And>i. 0 \<le> w i" "mStarted s"
  shows "onSendRTPPacket w (mRTPGeneration s) (postSendRTPMessage s) =
     Inr ((postSendRTPMessage s)\<lparr>mSendRTPEventPending := False, mRTPPacketQueue := [],
            wire := wire s @ mRTPPacketQueue s\<rparr>)"
proof -
  let ?p = "postSendRTPMessage s"
  have p: "mStarted ?p" "mRTPGeneration ?p = mRTPGeneration s" "mRTPPacketQueue ?p = mRTPPacketQueue s" "wire ?p = wire s"
    using assms(2) by (simp_all add: postSendRTPMessage_def)
  have "onSendRTPPacket w (mRTPGeneration s) ?p =
      sendLoop w 0 (mRTPGeneration s) (mRTPPacketQueue s) (?p\<lparr>mSendRTPEventPending := False\<rparr>)"
    unfolding onSendRTPPacket_def Let_def using p by simp
  then show ?thesis unfolding sendLoop_all [OF assms(1)] using p(4) by simp
qed

context nal_transport
begin

lemma frame_sent_and_received:
  assumes xs: "xs \<noteq> []" "leftOk xs" "endLeft \<le> 0"
    and mtu: "40 \<le> mMTUSize s" "mMTUSize s < 65536"
    and nals: "\<forall>nal \<in> fst ` set xs. carriable (mMTUSize s) nal \<and> length nal < 2 ^ 32"
    and s: "configured s" "mStarted s" "mRTPPacketQueue s = []"
    and q: "onQueueAccessUnit accu xs endLeft s =
      bnd (aggregateNALs f accu xs endLeft (s\<lparr>mAccuReceived := mAccuReceived s + 1\<rparr>)) (\<lambda>s. Inr (postSendRTPMessage s))"
    and w: "\<And>i. 0 \<le> w i"
    and r: "linked (rtp_payload_type s) (mSSRC s) c clk n us None r" "mVideoRTPQueue r = []"
    and n: "take_bit 16 n = take_bit 16 (mRTPSeqNo s)" "0 < unat n"
  shows "\<exists>s1 s2 outs. onQueueAccessUnit accu xs endLeft s = Inr s1 \<and>
     onSendRTPPacket w (mRTPGeneration s) s1 = Inr s2 \<and> mRTPPacketQueue s2 = [] \<and> wire s2 = wire s @ outs \<and>
     mRTPSeqNo s2 = mRTPSeqNo s + of_nat (length outs) \<and>
     (unat n + length outs < 2 ^ 32 \<longrightarrow>
       (\<exists>r'. onRTPPacket ada clk (fold videoRTPPacketCallBack (arriving rest outs) r) = Inr r' \<and>
          linked (rtp_payload_type s) (mSSRC s) c clk (n + of_nat (length outs))
            (us @ map (\<lambda>(nal, left). (nal, frameMeta s accu (cvoAfter s accu r), False)) xs) None r'))"
proof -
  let ?s = "s\<lparr>mAccuReceived := mAccuReceived s + 1\<rparr>"
  let ?us = "us @ map (\<lambda>(nal, left). (nal, frameMeta s accu (cvoAfter s accu r), False)) xs"
  have as: "40 \<le> mMTUSize ?s" "mMTUSize ?s < 65536" "\<forall>nal \<in> fst ` set xs. carriable (mMTUSize ?s) nal \<and> length nal < 2 ^ 32"
    "configured ?s" "take_bit 16 n = take_bit 16 (mRTPSeqNo ?s)"
    using mtu nals s n by simp_all
  have link: "linked (rtp_payload_type ?s) (mSSRC ?s) c clk n us None (fold videoRTPPacketCallBack ps r)" for ps
    using r by simp
  obtain s' outs where agg: "aggregateNALs f accu xs endLeft ?s = Inr s'"
    and s': "s' = ?s\<lparr>mRTPSeqNo := mRTPSeqNo ?s + of_nat (length outs), mRTPPacketQueue := mRTPPacketQueue ?s @ outs\<rparr>"
    using frame_delivered [OF xs as(1-4) link as(5) n(2), of accu] by blast
  have del: "\<exists>r'. drainQueue ada clk (arriving rest outs) (fold videoRTPPacketCallBack (arriving rest outs) r) = Inr r' \<and>
      linked (rtp_payload_type s) (mSSRC s) c clk (n + of_nat (length outs)) ?us None r'"
    if "unat n + length outs < 2 ^ 32"
  proof -
    obtain s'' outs' where "aggregateNALs f accu xs endLeft ?s = Inr s''"
      and s'': "s'' = ?s\<lparr>mRTPSeqNo := mRTPSeqNo ?s + of_nat (length outs'), mRTPPacketQueue := mRTPPacketQueue ?s @ outs'\<rparr>"
      and d: "unat n + length outs' < 2 ^ 32 \<longrightarrow>
       (\<exists>r'. drainQueue ada clk (arriving rest outs') (fold videoRTPPacketCallBack (arriving rest outs) r) = Inr r' \<and>
          linked (rtp_payload_type ?s) (mSSRC ?s) c clk (n + of_nat (length outs'))
            (us @ map (\<lambda>(nal, left). (nal, frameMeta ?s accu (cvoAfter ?s accu (fold videoRTPPacketCallBack (arriving rest outs) r)), False)) xs) None r')"
      using frame_delivered [OF xs as(1-4) link as(5) n(2), of accu ada rest] by blast
    have "mRTPPacketQueue s'' = mRTPPacketQueue s'"
      using agg \<open>aggregateNALs f accu xs endLeft ?s = Inr s''\<close> by simp
    then have "outs' = outs" unfolding s' s'' by simp
    then show ?thesis using d that by simp
  qed
  have st: "mStarted s'" "mRTPGeneration s' = mRTPGeneration s" "mRTPPacketQueue s' = outs" "wire s' = wire s"
    "mRTPSeqNo s' = mRTPSeqNo s + of_nat (length outs)"
    using s s' by simp_all
  have "onQueueAccessUnit accu xs endLeft s = Inr (postSendRTPMessage s')" by (simp add: q agg)
  moreover have "onSendRTPPacket w (mRTPGeneration s) (postSendRTPMessage s') =
      Inr ((postSendRTPMessage s')\<lparr>mSendRTPEventPending := False, mRTPPacketQueue := [], wire := wire s @ outs\<rparr>)"
    using onSendRTPPacket_all [OF w st(1)] unfolding st .
  moreover have "mRTPSeqNo (postSendRTPMessage s') = mRTPSeqNo s + of_nat (length outs)"
    using st(5) by (simp add: postSendRTPMessage_def)
  ultimately show ?thesis
    using del unfolding onRTPPacket_callbacks [OF r(2)]
    by (intro exI [of _ "postSendRTPMessage s'"] exI
        [of _ "(postSendRTPMessage s')\<lparr>mSendRTPEventPending := False, mRTPPacketQueue := [], wire := wire s @ outs\<rparr>"]
        exI [of _ outs] conjI) simp_all
qed

end

text \<open>C1. End to end for AVC: a frame given to \<open>RTPSender::onQueueAccessUnit\<close> in non-interleaved mode,
  whatever the number and the sizes of its NAL units, is cut into single unit, STAP-A and FU-A packets
  that \<open>kWhatSendRTPPacket\<close> sends; when they all arrive, \<open>RTPReceiver\<close> and \<open>AVCAssembler\<close> post exactly the
  units of the frame, in order, unchanged, none marked damaged, all with the RTP time of the frame and
  the orientation, and are ready for the next frame.\<close>

theorem avc_frame_delivered:
  assumes "media_is_video s" "mime_Type s = IMSMA_RTP_VIDEO_H264" "packetize_mode s = IMSMA_NON_INTERLEAVED_MODE"
    and "configured s" "mStarted s" "mRTPPacketQueue s = []" "40 \<le> mMTUSize s" "mMTUSize s < 65536"
    and "xs \<noteq> []" "leftOk xs" "endLeft \<le> 0" "\<forall>nal \<in> fst ` set xs. avcUnit nal \<and> length nal < 2 ^ 32"
    and "\<And>i. 0 \<le> w i"
    and "linked (rtp_payload_type s) (mSSRC s) avcCodec clk n us None r" "mVideoRTPQueue r = []"
    and "take_bit 16 n = take_bit 16 (mRTPSeqNo s)" "0 < unat n"
  shows "\<exists>s1 s2 outs. onQueueAccessUnit accu xs endLeft s = Inr s1 \<and>
     onSendRTPPacket w (mRTPGeneration s) s1 = Inr s2 \<and> mRTPPacketQueue s2 = [] \<and> wire s2 = wire s @ outs \<and>
     mRTPSeqNo s2 = mRTPSeqNo s + of_nat (length outs) \<and>
     (unat n + length outs < 2 ^ 32 \<longrightarrow>
       (\<exists>r'. onRTPPacket ada clk (fold videoRTPPacketCallBack (arriving rest outs) r) = Inr r' \<and>
          linked (rtp_payload_type s) (mSSRC s) avcCodec clk (n + of_nat (length outs))
            (us @ map (\<lambda>(nal, left). (nal, frameMeta s accu (cvoAfter s accu r), False)) xs) None r'))"
proof (rule avc.frame_sent_and_received [OF assms(9-11,7,8) _ assms(4-6) _ assms(13-17)])
  show "\<forall>nal \<in> fst ` set xs. avc.carriable (mMTUSize s) nal \<and> length nal < 2 ^ 32"
    using assms(12) by (simp add: avc.carriable_def)
  show "onQueueAccessUnit accu xs endLeft s =
      bnd (aggregateNALs avcFormat accu xs endLeft (s\<lparr>mAccuReceived := mAccuReceived s + 1\<rparr>)) (\<lambda>s. Inr (postSendRTPMessage s))"
    using assms(1-3,5) by (simp add: onQueueAccessUnit_def queueFUorSTAPPacket_def Let_def)
qed

text \<open>A call in which 5 packets were received and delivered.\<close>

definition exClk :: "nat \<Rightarrow> int" where
  "exClk i = 60000 + int i"

definition exSource :: "nal_codec \<Rightarrow> RTPSource" where
  "exSource c = (newRTPSource c True)\<lparr>frameCount := 5, mHighestSeqNumber := 4,
     mAssembler := Some (newNALAssembler\<lparr>mNextExpectedSeqNoValid := True, mNextExpectedSeqNo := 5\<rparr>)\<rparr>"

definition exCall :: "nal_codec \<Rightarrow> RTPReceiver" where
  "exCall c = newRTPReceiver\<lparr>mpTrackInfos :=
     [\<lparr>mTrackIndex = IMSMA_RTP_VIDEO, ti_payload_type = 96, ti_isVideo = True, ti_codec = c,
       mRTPSource = Some (exSource c), mSSRCset = True, mSSRCid = 0x12345678, ti_mStarted = True\<rparr>]\<rparr>"

definition exCaller :: "mime_type \<Rightarrow> RTPSender" where
  "exCaller m = exSender\<lparr>mRTPSeqNo := 5, mime_Type := m\<rparr>"

lemma exCaller_fields:
  "media_is_video (exCaller m)" "mime_Type (exCaller m) = m"
  "packetize_mode (exCaller m) = IMSMA_NON_INTERLEAVED_MODE" "configured (exCaller m)" "mStarted (exCaller m)"
  "mRTPPacketQueue (exCaller m) = []" "mMTUSize (exCaller m) = 1200" "mRTPSeqNo (exCaller m) = 5"
  "rtp_payload_type (exCaller m) = 96" "mSSRC (exCaller m) = 0x12345678"
  by (simp_all add: exCaller_def exSender_def newRTPSender_def configured_def imsma_rtp_MTU_size_def)

lemma exCall_linked:
  "linked (rtp_payload_type (exCaller m)) (mSSRC (exCaller m)) c exClk 5 [] None (exCall c)" "mVideoRTPQueue (exCall c) = []"
  by (simp_all add: linked_def exCall_def newRTPReceiver_def steady_def exSource_def newRTPSource_def exClk_def
      ready_def newNALAssembler_def exCaller_fields)

theorem avc_frame_delivered_witness:
  "\<exists>s1 s2 outs. onQueueAccessUnit exUnit [([0x67, 1], 2), (0x65 # replicate 3000 7, 0)] 0
       (exCaller IMSMA_RTP_VIDEO_H264) = Inr s1 \<and>
     onSendRTPPacket (\<lambda>i. 1) (mRTPGeneration (exCaller IMSMA_RTP_VIDEO_H264)) s1 = Inr s2 \<and>
     mRTPPacketQueue s2 = [] \<and> wire s2 = wire (exCaller IMSMA_RTP_VIDEO_H264) @ outs \<and>
     mRTPSeqNo s2 = mRTPSeqNo (exCaller IMSMA_RTP_VIDEO_H264) + of_nat (length outs)"
  using avc_frame_delivered [OF exCaller_fields(1,2,3,4,5,6) _ _ _ _ _ _ _ exCall_linked, where endLeft = 0 and
      xs = "[([0x67, 1], 2), (0x65 # replicate 3000 7, 0)]" and w = "\<lambda>i. 1" and accu = exUnit]
  by (simp add: exCaller_fields avcUnit_def) blast

text \<open>C2. End to end for HEVC: the same holds for a frame of an HEVC stream, provided that no unit with a
  type of 32 or more (the parameter sets and the supplemental information) needs more than one packet.\<close>

theorem hevc_frame_delivered:
  assumes "media_is_video s" "mime_Type s = IMSMA_RTP_VIDEO_HEVC"
    and "configured s" "mStarted s" "mRTPPacketQueue s = []" "40 \<le> mMTUSize s" "mMTUSize s < 65536"
    and "xs \<noteq> []" "leftOk xs" "endLeft \<le> 0" "\<forall>nal \<in> fst ` set xs. hevcUnit nal \<and> length nal < 2 ^ 32 \<and>
      (hevcType nal AND 0x20 = 0 \<or> int (length nal) \<le> mMTUSize s - 24)"
    and "\<And>i. 0 \<le> w i"
    and "linked (rtp_payload_type s) (mSSRC s) hevcCodec clk n us None r" "mVideoRTPQueue r = []"
    and "take_bit 16 n = take_bit 16 (mRTPSeqNo s)" "0 < unat n"
  shows "\<exists>s1 s2 outs. onQueueAccessUnit accu xs endLeft s = Inr s1 \<and>
     onSendRTPPacket w (mRTPGeneration s) s1 = Inr s2 \<and> mRTPPacketQueue s2 = [] \<and> wire s2 = wire s @ outs \<and>
     mRTPSeqNo s2 = mRTPSeqNo s + of_nat (length outs) \<and>
     (unat n + length outs < 2 ^ 32 \<longrightarrow>
       (\<exists>r'. onRTPPacket ada clk (fold videoRTPPacketCallBack (arriving rest outs) r) = Inr r' \<and>
          linked (rtp_payload_type s) (mSSRC s) hevcCodec clk (n + of_nat (length outs))
            (us @ map (\<lambda>(nal, left). (nal, frameMeta s accu (cvoAfter s accu r), False)) xs) None r'))"
proof (rule hevc.frame_sent_and_received [OF assms(8-10,6,7) _ assms(3-5) _ assms(12-16)])
  show "\<forall>nal \<in> fst ` set xs. hevc.carriable (mMTUSize s) nal \<and> length nal < 2 ^ 32"
    using assms(11) by (auto simp: hevc.carriable_def hevcSplittable_def)
  show "onQueueAccessUnit accu xs endLeft s =
      bnd (aggregateNALs hevcFormat accu xs endLeft (s\<lparr>mAccuReceived := mAccuReceived s + 1\<rparr>)) (\<lambda>s. Inr (postSendRTPMessage s))"
    using assms(1,2,4) by (simp add: onQueueAccessUnit_def queueFUorSTAPPacket_HEVC_def Let_def)
qed

theorem hevc_frame_delivered_witness:
  "\<exists>s1 s2 outs. onQueueAccessUnit exUnit [([0x40, 1, 9], 2), ([0x26, 1] @ replicate 3000 7, 0)] 0
       (exCaller IMSMA_RTP_VIDEO_HEVC) = Inr s1 \<and>
     onSendRTPPacket (\<lambda>i. 1) (mRTPGeneration (exCaller IMSMA_RTP_VIDEO_HEVC)) s1 = Inr s2 \<and>
     mRTPPacketQueue s2 = [] \<and> wire s2 = wire (exCaller IMSMA_RTP_VIDEO_HEVC) @ outs \<and>
     mRTPSeqNo s2 = mRTPSeqNo (exCaller IMSMA_RTP_VIDEO_HEVC) + of_nat (length outs)"
  using hevc_frame_delivered [OF exCaller_fields(1,2,4,5,6) _ _ _ _ _ _ _ exCall_linked, where endLeft = 0 and
      xs = "[([0x40, 1, 9], 2), ([0x26, 1] @ replicate 3000 7, 0)]" and w = "\<lambda>i. 1" and accu = exUnit]
  by (simp add: exCaller_fields hevcUnit_def hevcType_def) blast

text \<open>C40. An HEVC unit with a type of 32 or more that is sent in fragments is put together with another
  header: \<open>assembleToNAL\<close> masks the type with 0x1f, so the reassembled unit has bit 6 of its first octet
  cleared and a video parameter set (32) becomes a slice (0).\<close>

theorem hevc_high_types_corrupted:
  assumes "hevcUnit nal" "hevcType nal AND 0x20 \<noteq> 0" "fuPrefix_HEVC nal S E = Inr p"
  shows "hevcReassemble (p @ d) = Inr ([hd nal XOR 0x40, nal ! 1], None) \<and> hd nal XOR 0x40 \<noteq> hd nal"
proof -
  obtain n0 n1 ns where nal: "nal = n0 # n1 # ns" "n0 AND 0x80 = 0" "n1 \<noteq> 0" by (rule hevc_split [OF assms(1)])
  define h where "h = (n0 AND 0x81) OR push_bit 1 49"
  define g where "g = fuFlags (drop_bit 1 (n0 AND 0x7E)) S E"
  have p: "p = [h, n1, g]"
    using assms(3) by (simp add: nal(1) fuPrefix_HEVC_def rd_def h_def g_def Let_def)
  have six: "bit n0 6"
  proof (rule ccontr)
    assume "\<not> bit n0 6"
    then have "hevcType nal AND 0x20 = 0"
      by (intro byte_eqI) (simp_all add: nal hevcType_def bit_simps)
    then show False using assms(2) by simp
  qed
  have "Suc (Suc (Suc (Suc (Suc (Suc 0))))) = 6" by simp
  then have six': "bit n0 (Suc (Suc (Suc (Suc (Suc (Suc 0))))))" using six by (simp only:)
  have "(h AND 0x81) OR push_bit 1 (g AND 0x1f) = n0 XOR 0x40"
    unfolding h_def hevc_prefix_bits(3)
    by (cases S; cases E; rule byte_eqI)
       (simp_all only: bit_or_iff bit_push_bit_iff bit_and_iff bit_xor_iff g_def fuFlags_def Let_def if_True if_False bit_drop_bit_eq,
        simp_all add: bit_simps six' eval_nat_numeral)
  then have "hevcReassemble (p @ d) = Inr ([n0 XOR 0x40, n1], None)"
    unfolding p by (simp add: hevcReassemble_def rd_def Let_def del: One_nat_def push_bit_Suc)
  moreover have "n0 XOR 0x40 \<noteq> n0"
  proof
    assume "n0 XOR 0x40 = n0"
    then have "bit (n0 XOR 0x40) 6 = bit n0 6" by simp
    then show False by (simp add: bit_simps)
  qed
  ultimately show ?thesis by (simp add: nal(1))
qed

theorem hevc_high_types_corrupted_witness:
  "hevcReassemble ([0x62, 1, 0xA0] @ [7, 7]) = Inr ([0x40 XOR 0x40, 1], None) \<and> (0x40 XOR 0x40 :: byte) \<noteq> 0x40"
  using hevc_high_types_corrupted [of "[0x40, 1, 7, 7, 7]" True False "[0x62, 1, 0xA0]" "[7, 7]"]
  by (simp add: hevcUnit_def hevcType_def fuPrefix_HEVC_def rd_def fuFlags_def Let_def)

end
