(* ===== verification/RtpSafety.thy ===== *)
theory RtpSafety
  imports RtpOrder
begin

text \<open>
  The receiving side on arbitrary packets: whatever arrives, in any order, with any contents, the
  source of a video stream takes it without a failed check and without leaving a buffer, and its
  queue stays sorted without duplicates unless a stream is resumed over waiting packets. What \<open>RTPSource\<close> needs of a codec is the locale
  \<open>nal_reassembly\<close>; AVC and HEVC provide it.
\<close>

section \<open>Well-formed assemblers\<close>

definition bytesOf :: "ABuffer list \<Rightarrow> nat" where
  "bytesOf q = sum_list (map (\<lambda>b. length (ab_data b)) q)"

lemma bytesOf_simps [simp]:
  "bytesOf [] = 0" "bytesOf (b # q) = length (ab_data b) + bytesOf q" "bytesOf (p @ q) = bytesOf p + bytesOf q"
  by (simp_all add: bytesOf_def)

lemma bytesOf_drop: "bytesOf (drop n q) \<le> bytesOf q"
  by (metis append_take_drop_id bytesOf_simps(3) le_add2)

lemma bytesOf_dropWhile: "bytesOf (dropWhile P q) \<le> bytesOf q"
  by (induction q) simp_all

text \<open>The fragments of the unit under assembly, each behind its own headers.\<close>

definition payloadOf :: "nal_codec \<Rightarrow> ABuffer list \<Rightarrow> int" where
  "payloadOf c q = sum_list (map (\<lambda>b. int (length (ab_data b)) - nc_fuMin c) q)"

lemma payloadOf_simps [simp]:
  "payloadOf c [] = 0" "payloadOf c (b # q) = int (length (ab_data b)) - nc_fuMin c + payloadOf c q"
  "payloadOf c (p @ q) = payloadOf c p + payloadOf c q"
  by (simp_all add: payloadOf_def)

definition fragWf :: "nal_codec \<Rightarrow> NALFragMentsInfo \<Rightarrow> bool" where
  "fragWf c fi \<longleftrightarrow> fi_mNALFragments fi \<noteq> [] \<and> (\<forall>b \<in> set (fi_mNALFragments fi). nc_fuMin c \<le> int (length (ab_data b))) \<and>
     fi_mNALSize fi = payloadOf c (fi_mNALFragments fi)"

definition held :: "NALAssembler \<Rightarrow> nat" where
  "held a = (case mpNALFragmentInfo a of None \<Rightarrow> 0 | Some fi \<Rightarrow> bytesOf (fi_mNALFragments fi))"

definition asmOk :: "nal_codec \<Rightarrow> NALAssembler \<Rightarrow> bool" where
  "asmOk c a \<longleftrightarrow> (case mpNALFragmentInfo a of None \<Rightarrow> True | Some fi \<Rightarrow> fragWf c fi)"

lemma asm_simps [simp]:
  "held (a\<lparr>mFirstFailureTimeUs := x\<rparr>) = held a" "asmOk c (a\<lparr>mFirstFailureTimeUs := x\<rparr>) = asmOk c a"
  "held (a\<lparr>mNextExpectedSeqNoValid := y\<rparr>) = held a" "asmOk c (a\<lparr>mNextExpectedSeqNoValid := y\<rparr>) = asmOk c a"
  "held (a\<lparr>mNextExpectedSeqNo := z\<rparr>) = held a" "asmOk c (a\<lparr>mNextExpectedSeqNo := z\<rparr>) = asmOk c a"
  "held (a\<lparr>mAccessUnitDamaged := y\<rparr>) = held a" "asmOk c (a\<lparr>mAccessUnitDamaged := y\<rparr>) = asmOk c a"
  "held (a\<lparr>mLastPacketReceiveTime := x\<rparr>) = held a" "asmOk c (a\<lparr>mLastPacketReceiveTime := x\<rparr>) = asmOk c a"
  "held (a\<lparr>mIDamageNum := x\<rparr>) = held a" "asmOk c (a\<lparr>mIDamageNum := x\<rparr>) = asmOk c a"
  "held (a\<lparr>mLastLost := x\<rparr>) = held a" "asmOk c (a\<lparr>mLastLost := x\<rparr>) = asmOk c a"
  "held (a\<lparr>posted := ps\<rparr>) = held a" "asmOk c (a\<lparr>posted := ps\<rparr>) = asmOk c a"
  "held (a\<lparr>mPackLostList := ls\<rparr>) = held a" "asmOk c (a\<lparr>mPackLostList := ls\<rparr>) = asmOk c a"
  "held (packetLostRegister a) = held a" "asmOk c (packetLostRegister a) = asmOk c a"
  "held (submitAccessUnit c u a) = held a" "asmOk c (submitAccessUnit c u a) = asmOk c a"
  "held (a\<lparr>mpNALFragmentInfo := None\<rparr>) = 0" "asmOk c (a\<lparr>mpNALFragmentInfo := None\<rparr>)"
  by (simp_all add: held_def asmOk_def packetLostRegister_def submitAccessUnit_def Let_def)

lemma register_iter [simp]:
  "held ((packetLostRegister ^^ n) a) = held a" "asmOk c ((packetLostRegister ^^ n) a) = asmOk c a"
  "mNextExpectedSeqNoValid ((packetLostRegister ^^ n) a) = mNextExpectedSeqNoValid a"
  by (induction n) simp_all

lemma bytes_payload:
  "\<forall>b \<in> set q. nc_fuMin c \<le> int (length (ab_data b)) \<Longrightarrow>
     payloadOf c q + int (length q) * nc_fuMin c = int (bytesOf q) \<and> 0 \<le> payloadOf c q"
  by (induction q) (auto simp: algebra_simps)

lemma rd_block_total:
  "0 \<le> off \<Longrightarrow> 0 \<le> n \<Longrightarrow> off + n \<le> int (length xs) \<Longrightarrow> \<exists>d. rd_block xs off n = Inr d"
  by (simp add: rd_block_def)

lemma wr_block_total:
  "0 \<le> off \<Longrightarrow> off + int (length ys) \<le> int (length xs) \<Longrightarrow> \<exists>zs. wr_block xs off ys = Inr zs"
  by (simp add: wr_block_def)

lemma copyFragments_total:
  assumes "\<forall>b \<in> set q. 0 \<le> hdr \<and> hdr \<le> int (length (ab_data b))" "0 \<le> off"
    and "int (length (ab_data u)) = off + sum_list (map (\<lambda>b. int (length (ab_data b)) - hdr) q)"
  shows "\<exists>u'. copyFragments hdr q off e u = Inr u'"
  using assms
proof (induction q arbitrary: off e u)
  case (Cons b q)
  let ?n = "int (length (ab_data b)) - hdr"
  let ?rest = "sum_list (map (\<lambda>b. int (length (ab_data b)) - hdr) q)"
  have rest: "0 \<le> ?rest" using Cons.prems(1) by (intro sum_list_nonneg) auto
  have n: "0 \<le> ?n" "0 \<le> hdr" "off + ?n \<le> int (length (ab_data u))" using Cons.prems rest by auto
  obtain d where d: "rd_block (ab_data b) hdr ?n = Inr d"
    using rd_block_total [of hdr ?n "ab_data b"] n by auto
  then have dl: "int (length d) = ?n" by (rule rd_block_Inr_length)
  let ?t = "case ab_recv_time b of None \<Rightarrow> 0 | Some t \<Rightarrow> t"
  let ?u = "if ?t \<le> e then u\<lparr>ab_EarliestPacket := ab_token b\<rparr> else u"
  have ud: "ab_data ?u = ab_data u" by simp
  obtain buf where buf: "wr_block (ab_data u) off d = Inr buf"
    using wr_block_total [of off d "ab_data u"] n dl Cons.prems(2) by auto
  let ?v = "if q = [] then ?u\<lparr>ab_data := buf, ab_latestPacekt := ab_token b\<rparr> else ?u\<lparr>ab_data := buf\<rparr>"
  have "ab_data ?v = buf" "length buf = length (ab_data u)"
    using wr_block_Inr_length [OF buf] by simp_all
  then have "\<exists>u'. copyFragments hdr q (off + ?n) (if ?t \<le> e then ?t else e) ?v = Inr u'"
    using Cons.prems n by (intro Cons.IH) auto
  then show ?case
    unfolding copyFragments.simps Let_def ud d bnd.simps buf by simp
qed simp

lemma valid_submit [simp]:
  "mNextExpectedSeqNoValid (submitAccessUnit c u a) = mNextExpectedSeqNoValid a"
  by (simp add: submitAccessUnit_def Let_def)

lemma stapLoop_keeps:
  "asmOk c (snd (stapLoop c b d a)) = asmOk c a \<and> held (snd (stapLoop c b d a)) = held a \<and>
   mNextExpectedSeqNoValid (snd (stapLoop c b d a)) = mNextExpectedSeqNoValid a"
  by (induction c b d a rule: stapLoop.induct) (simp_all add: addSingleNALUnit_def Let_def)

section \<open>What a codec provides\<close>

locale nal_reassembly =
  fixes c :: nal_codec
  assumes fuMin: "1 \<le> nc_fuMin c" "nc_fuMin c \<le> 3"
    and reads: "nc_fuMin c \<le> int (length d) \<Longrightarrow>
          (\<exists>t. nc_fuType c d = Inr t) \<and>
          (\<exists>h i. nc_reassemble c d = Inr (h, i) \<and> int (length h) \<le> nc_fuMin c)"
begin

lemma assembleToNAL_total:
  assumes "fragWf c fi" "bytesOf (fi_mNALFragments fi) < 2 ^ 32"
  shows "\<exists>u. assembleToNAL c fi = Inr u"
proof -
  let ?q = "fi_mNALFragments fi"
  obtain b q where q: "?q = b # q" using assms(1) by (cases ?q) (auto simp: fragWf_def)
  have b: "nc_fuMin c \<le> int (length (ab_data b))" "\<forall>b \<in> set ?q. nc_fuMin c \<le> int (length (ab_data b))"
    and size: "fi_mNALSize fi = payloadOf c ?q"
    using assms(1) q by (auto simp: fragWf_def)
  obtain h i where h: "nc_reassemble c (ab_data b) = Inr (h, i)" "int (length h) \<le> nc_fuMin c"
    using reads [OF b(1)] by blast
  define n where "n = payloadOf c ?q + int (length h)"
  have p: "payloadOf c ?q + int (length ?q) * nc_fuMin c = int (bytesOf ?q)" "0 \<le> payloadOf c ?q"
    using bytes_payload [OF b(2)] by simp_all
  have "nc_fuMin c \<le> int (length ?q) * nc_fuMin c"
    using fuMin q mult_right_mono [of 1 "int (length ?q)" "nc_fuMin c"] by simp
  then have n: "0 \<le> n" "n < 2 ^ 32" "int (length h) \<le> n"
    using p h(2) assms(2) by (simp_all add: n_def)
  have total: "take_bit 32 (fi_mNALSize fi + int (length h)) = n"
    using n size by (simp add: n_def [symmetric] take_bit_int_eq_self)
  have "rd ?q 0 = Inr b" by (simp add: q rd_def)
  then have head: "assembleToNAL c fi =
      (let u = copyMetas ((if fi_mIsDamaged fi then (newABuffer (replicate (nat n) 0))\<lparr>ab_damaged := True\<rparr>
                 else newABuffer (replicate (nat n) 0))\<lparr>ab_importance := i\<rparr>) (last ?q) in
       bnd (wr_block (ab_data (u\<lparr>ab_FirstPacket := ab_token b\<rparr>)) 0 h) (\<lambda>buf.
       copyFragments (nc_fuMin c) ?q (int (length h)) (case ab_recv_time b of None \<Rightarrow> 0 | Some t \<Rightarrow> t)
         (u\<lparr>ab_FirstPacket := ab_token b, ab_data := buf\<rparr>)))"
    unfolding assembleToNAL_def Let_def by (simp only: bnd.simps h(1) prod.case total)
  obtain buf where buf: "wr_block (replicate (nat n) 0) 0 h = Inr buf"
    using wr_block_total [of 0 h "replicate (nat n) 0"] n by auto
  have bl: "length buf = nat n" using wr_block_Inr_length [OF buf] by simp
  have "\<exists>u'. copyFragments (nc_fuMin c) ?q (int (length h)) e (v\<lparr>ab_data := buf\<rparr>) = Inr u'" for e and v :: ABuffer
    using b(2) fuMin n bl by (intro copyFragments_total) (auto simp: n_def payloadOf_def)
  moreover have "ab_data ((copyMetas ((if fi_mIsDamaged fi then (newABuffer (replicate (nat n) 0))\<lparr>ab_damaged := True\<rparr>
                 else newABuffer (replicate (nat n) 0))\<lparr>ab_importance := i\<rparr>) (last ?q))\<lparr>ab_FirstPacket := ab_token b\<rparr>) =
      replicate (nat n) 0"
    by (simp add: copyMetas_def newABuffer_def)
  ultimately show ?thesis unfolding head Let_def using buf by simp
qed

text \<open>A good outcome: at most \<open>k\<close> octets are held, and nothing else that matters has changed.\<close>

definition fine :: "NALAssembler \<Rightarrow> nat \<Rightarrow> NALAssembler \<Rightarrow> bool" where
  "fine a k a' \<longleftrightarrow> asmOk c a' \<and> held a' \<le> k \<and> mNextExpectedSeqNoValid a' = mNextExpectedSeqNoValid a"

lemma fine_mono: "fine a k a' \<Longrightarrow> k \<le> k' \<Longrightarrow> fine a k' a'"
  by (simp add: fine_def)

lemma fine_trans: "fine a k a' \<Longrightarrow> fine a' k' a'' \<Longrightarrow> fine a k' a''"
  by (simp add: fine_def)

lemma submitFragments_total:
  assumes "fragWf c fi" "bytesOf (fi_mNALFragments fi) < 2 ^ 32"
  shows "\<exists>a'. submitFragments c fi a = Inr a' \<and> fine a 0 a'"
proof -
  let ?fi = "if mAccessUnitDamaged a then fi\<lparr>fi_mIsDamaged := True\<rparr> else fi"
  have "fragWf c ?fi" "bytesOf (fi_mNALFragments ?fi) < 2 ^ 32" using assms by (simp_all add: fragWf_def)
  then obtain u where "assembleToNAL c ?fi = Inr u" using assembleToNAL_total by blast
  then show ?thesis
    by (simp add: submitFragments_def fine_def held_def asmOk_def)
qed

lemma flushFragments_total:
  assumes "asmOk c a" "held a < 2 ^ 32"
  shows "\<exists>a'. flushFragments c a = Inr a' \<and> fine a 0 a'"
  using assms submitFragments_total
  by (cases "mpNALFragmentInfo a") (auto simp: flushFragments_def fine_def asmOk_def held_def)

lemma stapLoop_fine:
  "asmOk c a \<Longrightarrow> held a \<le> k \<Longrightarrow> fine a k (snd (stapLoop c b d a))"
  by (simp add: fine_def stapLoop_keeps)

lemma appendFragment_total:
  assumes "asmOk c a" "nc_fuMin c \<le> int (length (ab_data b))" "held a + length (ab_data b) < 2 ^ 32"
  shows "\<exists>a'. appendFragment c flags ty b a = Inr a' \<and> fine a (held a + length (ab_data b)) a'"
proof -
  define fi where "fi = (case mpNALFragmentInfo a of None \<Rightarrow> newNALFragMentsInfo\<lparr>fi_mNALType := ty\<rparr> | Some fi \<Rightarrow> fi)"
  define fi' where "fi' = fi\<lparr>fi_mNALFragments := fi_mNALFragments fi @ [b],
      fi_mNALSize := take_bit 32 (fi_mNALSize fi + (int (length (ab_data b)) - nc_fuMin c)),
      fi_mTotalCount := fi_mTotalCount fi + 1\<rparr>"
  have fi: "\<forall>b \<in> set (fi_mNALFragments fi). nc_fuMin c \<le> int (length (ab_data b))"
    "fi_mNALSize fi = payloadOf c (fi_mNALFragments fi)" "bytesOf (fi_mNALFragments fi) = held a"
    using assms(1) by (auto simp: fi_def asmOk_def held_def fragWf_def newNALFragMentsInfo_def split: option.splits)
  have p: "0 \<le> payloadOf c (fi_mNALFragments fi)" "payloadOf c (fi_mNALFragments fi) \<le> int (held a)"
    using bytes_payload [OF fi(1)] mult_nonneg_nonneg [of "int (length (fi_mNALFragments fi))" "nc_fuMin c"] fuMin(1)
    unfolding fi(3) by linarith+
  have size: "take_bit 32 (fi_mNALSize fi + (int (length (ab_data b)) - nc_fuMin c)) =
      payloadOf c (fi_mNALFragments fi @ [b])"
    using p assms(2,3) fuMin(1) unfolding fi(2) by (subst take_bit_int_eq_self) simp_all
  have bytes: "bytesOf (fi_mNALFragments fi') = held a + length (ab_data b)" by (simp add: fi'_def fi(3))
  have wf: "fragWf c fi'" using fi(1) assms(2) size by (simp add: fragWf_def fi'_def)
  have step: "appendFragment c flags ty b a =
      (if flags AND 0x40 \<noteq> 0 then
        submitFragments c fi'
          (if mAccessUnitDamaged a \<and> nc_isI c ty then a\<lparr>mIDamageNum := mIDamageNum a + 1\<rparr> else a)
      else Inr (a\<lparr>mpNALFragmentInfo := Some fi'\<rparr>))"
    unfolding appendFragment_def Let_def fi_def [symmetric] fi'_def by (rule refl)
  show ?thesis
  proof (cases "flags AND 0x40 = 0")
    case True
    then show ?thesis using wf bytes by (simp add: step fine_def asmOk_def held_def)
  next
    case False
    let ?a = "if mAccessUnitDamaged a \<and> nc_isI c ty then a\<lparr>mIDamageNum := mIDamageNum a + 1\<rparr> else a"
    obtain a' where "submitFragments c fi' ?a = Inr a'" "fine ?a 0 a'"
      using submitFragments_total [OF wf, of ?a] bytes assms(3) by auto
    then show ?thesis using False by (auto simp: step fine_def split: if_splits)
  qed
qed

lemma addFragmentedNALUnit_total:
  assumes "asmOk c a" "ab_data b \<noteq> []" "held a + length (ab_data b) < 2 ^ 32"
  shows "\<exists>s a'. addFragmentedNALUnit c b a = Inr (s, a') \<and> fine a (held a + length (ab_data b)) a'"
proof (cases "int (length (ab_data b)) < nc_fuMin c")
  case True
  then show ?thesis using assms by (simp add: addFragmentedNALUnit_def chk_def fine_def)
next
  case False
  then have long: "nc_fuMin c \<le> int (length (ab_data b))" by simp
  obtain ty where ty: "nc_fuType c (ab_data b) = Inr ty" using reads [OF long] by blast
  have "0 \<le> nc_fuMin c - 1" "nc_fuMin c - 1 < int (length (ab_data b))" using fuMin long by auto
  then obtain flags where flags: "rd (ab_data b) (nc_fuMin c - 1) = Inr flags" by (simp add: rd_def)
  have app: "\<exists>a'. appendFragment c flags ty b x = Inr a' \<and> fine a (held a + length (ab_data b)) a'"
    if "asmOk c x" "held x \<le> held a" "mNextExpectedSeqNoValid x = mNextExpectedSeqNoValid a" for x
    using appendFragment_total [OF that(1) long, of flags ty] that(2,3) assms(3) by (auto simp: fine_def)
  have step: "addFragmentedNALUnit c b a =
      (case mpNALFragmentInfo a of
          None \<Rightarrow>
            if flags AND 0x80 = 0 then Inr (MALFORMED_PACKET, a)
            else bnd (appendFragment c flags ty b (a\<lparr>mAccessUnitDamaged := False\<rparr>)) (\<lambda>a. Inr (OK, a))
        | Some fi \<Rightarrow>
            if flags AND 0x80 \<noteq> 0 then
              bnd (submitFragments c fi
                     (if mAccessUnitDamaged a \<and> nc_isI c ty
                      then a\<lparr>mIDamageNum := mIDamageNum a + 1\<rparr> else a)) (\<lambda>a.
              bnd (appendFragment c flags ty b a) (\<lambda>a. Inr (OK, a)))
            else if ty \<noteq> fi_mNALType fi then Inr (MALFORMED_PACKET, a)
            else bnd (appendFragment c flags ty b a) (\<lambda>a. Inr (OK, a)))"
    using False assms(2) by (simp add: addFragmentedNALUnit_def chk_def ty flags)
  have self: "fine a (held a + length (ab_data b)) a" using assms(1) by (simp add: fine_def)
  show ?thesis
  proof (cases "mpNALFragmentInfo a")
    case None
    then show ?thesis
      using app [of "a\<lparr>mAccessUnitDamaged := False\<rparr>"] assms(1) self by (auto simp: step)
  next
    case (Some fi)
    let ?a = "if mAccessUnitDamaged a \<and> nc_isI c ty then a\<lparr>mIDamageNum := mIDamageNum a + 1\<rparr> else a"
    have "fragWf c fi" "bytesOf (fi_mNALFragments fi) < 2 ^ 32"
      using assms Some by (simp_all add: asmOk_def held_def)
    then obtain a1 where a1: "submitFragments c fi ?a = Inr a1" "fine ?a 0 a1"
      using submitFragments_total by blast
    then have a1': "asmOk c a1" "held a1 \<le> held a" "mNextExpectedSeqNoValid a1 = mNextExpectedSeqNoValid a"
      by (auto simp: fine_def split: if_splits)
    show ?thesis
      using app [OF a1'] app [of a] assms(1) self a1(1) Some by (auto simp: step)
  qed
qed

section \<open>The driver on arbitrary queues\<close>

lemma processPacket_total:
  assumes "asmOk c a" "held a + length (ab_data b) < 2 ^ 32"
  shows "\<exists>s a'. processPacket c b a = Inr (s, a') \<and> fine a (held a + length (ab_data b)) a'"
proof (cases "ab_data b = [] \<or> hd (ab_data b) AND 0x80 \<noteq> 0")
  case True
  then show ?thesis using assms(1) by (auto simp: processPacket_def fine_def split: list.split)
next
  case False
  then obtain d0 ds where d: "ab_data b = d0 # ds" "d0 AND 0x80 = 0" by (cases "ab_data b") auto
  have self: "fine a (held a + length (ab_data b)) a" using assms(1) by (simp add: fine_def)
  obtain a1 where fl: "flushFragments c a = Inr a1" "fine a 0 a1"
    using flushFragments_total [OF assms(1)] assms(2) by auto
  have a1: "asmOk c a1" "held a1 = 0" "mNextExpectedSeqNoValid a1 = mNextExpectedSeqNoValid a"
    using fl(2) by (simp_all add: fine_def)
  show ?thesis
  proof (cases "nc_kind c d0")
    case SingleNAL
    then show ?thesis using a1 by (simp add: processPacket_def d fl(1) fine_def addSingleNALUnit_def)
  next
    case FragmentationUnit
    then show ?thesis using addFragmentedNALUnit_total [OF assms(1) _ assms(2)] by (simp add: processPacket_def d)
  next
    case AggregationPacket
    obtain ok a2 where st: "addSingleTimeAggregationPacket c b a1 = (ok, a2)" by fastforce
    have "a2 = a1 \<or> a2 = snd (stapLoop c b (drop (nc_stapHeader c) (ab_data b)) a1)"
      using st by (auto simp: addSingleTimeAggregationPacket_def split: if_splits dest: arg_cong [of _ _ snd])
    then have "fine a (held a + length (ab_data b)) a2"
      using a1 stapLoop_keeps [of c b "drop (nc_stapHeader c) (ab_data b)" a1] by (auto simp: fine_def)
    then show ?thesis using AggregationPacket st by (simp add: processPacket_def d fl(1))
  qed (use self in \<open>simp_all add: processPacket_def d\<close>)
qed

text \<open>What a round leaves: a rest of the queue, and no more octets than before.\<close>

definition leaves :: "ABuffer list \<Rightarrow> NALAssembler \<Rightarrow> ABuffer list \<Rightarrow> NALAssembler \<Rightarrow> bool" where
  "leaves q a q' a' \<longleftrightarrow> (\<exists>n. q' = drop n q) \<and> asmOk c a' \<and> held a' + bytesOf q' \<le> held a + bytesOf q \<and>
     (mNextExpectedSeqNoValid a \<or> q \<noteq> [] \<longrightarrow> mNextExpectedSeqNoValid a')"

lemma leaves_trans:
  "leaves q a q1 a1 \<Longrightarrow> leaves q1 a1 q2 a2 \<Longrightarrow> leaves q a q2 a2"
  by (auto simp: leaves_def)

lemma leaves_update [simp]:
  "leaves q a q' (a'\<lparr>mFirstFailureTimeUs := x\<rparr>) = leaves q a q' a'"
  "leaves q a q' (packetLostRegister a') = leaves q a q' a'"
  "leaves q a q' (a'\<lparr>mAccessUnitDamaged := d\<rparr>) = leaves q a q' a'"
  by (simp_all add: leaves_def)

lemma consumePacket_total:
  assumes "asmOk c a" "held a + length (ab_data b) < 2 ^ 32"
  shows "\<exists>s a'. consumePacket c b q a = Inr (s, q, a') \<and> fine a (held a + length (ab_data b)) a'"
proof -
  let ?a = "if nc_timed c then a\<lparr>mLastPacketReceiveTime := (case ab_recv_time b of None \<Rightarrow> 0 | Some t \<Rightarrow> t)\<rparr> else a"
  have "asmOk c ?a" "held ?a = held a" using assms(1) by simp_all
  then obtain s a' where "processPacket c b ?a = Inr (s, a')" "fine ?a (held a + length (ab_data b)) a'"
    using processPacket_total [of ?a b] assms(2) by auto
  then show ?thesis by (auto simp: consumePacket_def fine_def split: if_splits)
qed

lemma addNALUnit_total:
  assumes "asmOk c a" "held a + bytesOf q < 2 ^ 32"
  shows "\<exists>s q' a'. addNALUnit c q a = Inr (s, q', a') \<and> leaves q a q' a'"
proof -
  define q0 where "q0 = (if mNextExpectedSeqNoValid a
      then dropWhile (\<lambda>b. ab_int32Data b < mNextExpectedSeqNo a) q else q)"
  have q0: "\<exists>n. q0 = drop n q" "bytesOf q0 \<le> bytesOf q"
  proof -
    have "q0 = drop (if mNextExpectedSeqNoValid a
        then length (takeWhile (\<lambda>b. ab_int32Data b < mNextExpectedSeqNo a) q) else 0) q"
      by (simp add: q0_def dropWhile_eq_drop)
    then show "\<exists>n. q0 = drop n q" "bytesOf q0 \<le> bytesOf q" using bytesOf_drop by metis+
  qed
  show ?thesis
  proof (cases q0)
    case Nil
    then have "addNALUnit c q a = Inr (NOT_ENOUGH_DATA, [], a)"
      unfolding addNALUnit_def q0_def [symmetric] by simp
    moreover have "leaves q a [] a"
      using assms(1) Nil q0_def by (auto simp: leaves_def intro: exI [of _ "length q"] split: if_splits)
    ultimately show ?thesis by blast
  next
    case (Cons b r)
    obtain n where n: "drop n q = b # r" using q0(1) Cons by metis
    then have r: "r = drop (Suc n) q" by (metis drop_Suc list.sel(3) tl_drop)
    have by0: "length (ab_data b) + bytesOf r \<le> bytesOf q" using q0(2) Cons by simp
    have con: "\<exists>s a'. consumePacket c b r x = Inr (s, r, a') \<and> leaves q a r a'"
      if x: "asmOk c x" "held x = held a" "mNextExpectedSeqNoValid x" for x
    proof -
      obtain s a' where "consumePacket c b r x = Inr (s, r, a')" "fine x (held x + length (ab_data b)) a'"
        using consumePacket_total [OF x(1), of b r] assms(2) by0 x(2) by auto
      then show ?thesis using x by0 r by (auto simp: leaves_def fine_def)
    qed
    have stay: "leaves q a (b # r) x"
      if "asmOk c x" "held x = held a" "mNextExpectedSeqNoValid x" for x
      using that n by0 by (auto simp: leaves_def intro: exI [of _ n])
    show ?thesis
    proof (cases "mNextExpectedSeqNoValid a")
      case False
      then have "addNALUnit c q a = consumePacket c b r
          (a\<lparr>mNextExpectedSeqNoValid := True, mNextExpectedSeqNo := ab_int32Data b\<rparr>)"
        using Cons unfolding addNALUnit_def q0_def [symmetric] by simp
      then show ?thesis using con [of "a\<lparr>mNextExpectedSeqNoValid := True, mNextExpectedSeqNo := ab_int32Data b\<rparr>"] assms(1)
        by auto
    next
      case True
      have c0: "\<exists>s q' a'. consumePacket c b r a = Inr (s, q', a') \<and> leaves q a q' a'"
        using con [OF assms(1) refl True] by blast
      have s0: "leaves q a (b # r) a" "leaves q a (b # r) ((packetLostRegister ^^ k) a)" for k
        using stay assms(1) True by simp_all
      then show ?thesis
        unfolding addNALUnit_def q0_def [symmetric] Cons list.case using True c0 s0
        by (auto simp: Let_def split: option.split)
    qed
  qed
qed

lemma assembleMore_total:
  assumes "asmOk c a" "held a + bytesOf q < 2 ^ 32"
  shows "\<exists>s q' a'. assembleMore c q a = Inr (s, q', a') \<and> leaves q a q' a'"
  using addNALUnit_total [OF assms] by (auto simp: assembleMore_def)

lemma onPacketReceivedLoop_total:
  "c' = c \<Longrightarrow> asmOk c a \<Longrightarrow> held a + bytesOf q < 2 ^ 32 \<Longrightarrow>
     \<exists>q' a' t'. onPacketReceivedLoop c' clk q a t = Inr (q', a', t') \<and> leaves q a q' a'"
proof (induction c' clk q a t rule: onPacketReceivedLoop.induct)
  case (1 c' clk q a t)
  obtain s q1 a1 where m: "assembleMore c q a = Inr (s, q1, a1)" "leaves q a q1 a1"
    using assembleMore_total [OF "1.prems"(2,3)] by blast
  have m': "assembleMore c' q a = Inr (s, q1, a1)" using m(1) "1.prems"(1) by simp
  have ok: "asmOk c a1" "held a1 + bytesOf q1 < 2 ^ 32" using m(2) "1.prems"(3) by (auto simp: leaves_def)
  have rec: "\<exists>q' a' t'. X = Inr (q', a', t') \<and> leaves q a q' a'"
    if "\<exists>q' a' t'. X = Inr (q', a', t') \<and> leaves q1 x q' a'" "leaves q a q1 x" for X x
    using that leaves_trans by blast
  let ?reg = "packetLostRegister a1\<lparr>mFirstFailureTimeUs := - 1\<rparr>"
  have regl: "leaves q a q1 ?reg" using m(2) by simp
  have lv: "leaves q a q1 (a1\<lparr>mFirstFailureTimeUs := x\<rparr>)" for x using m(2) by simp
  show ?case
  proof (cases "s = WRONG_SEQUENCE_NUMBER")
    case True
    show ?thesis
    proof (cases "mFirstFailureTimeUs a1 \<ge> 0 \<and> clk t - mFirstFailureTimeUs a1 > 5000")
      case late: True
      have "onPacketReceivedLoop c' clk q a t = onPacketReceivedLoop c' clk q1 ?reg (t + 1)"
        by (subst onPacketReceivedLoop.simps) (use m' True late in simp)
      moreover have "\<exists>q' a' t'. onPacketReceivedLoop c' clk q1 ?reg (t + 1) = Inr (q', a', t') \<and> leaves q1 ?reg q' a'"
        using ok True late "1.prems"(1) by (intro "1.IH"(1) [OF m' refl refl]) simp_all
      ultimately show ?thesis using rec [OF _ regl] by simp
    next
      case False
      then show ?thesis
        by (subst onPacketReceivedLoop.simps) (use m' m(2) lv True in \<open>auto simp: not_less\<close>)
    qed
  next
    case no: False
    show ?thesis
    proof (cases "s = LARGE_SEQUENCE_GAP")
      case True
      have "onPacketReceivedLoop c' clk q a t = onPacketReceivedLoop c' clk q1 ?reg t"
        by (subst onPacketReceivedLoop.simps) (use m' True in simp)
      moreover have "\<exists>q' a' t'. onPacketReceivedLoop c' clk q1 ?reg t = Inr (q', a', t') \<and> leaves q1 ?reg q' a'"
        using ok True no "1.prems"(1) by (intro "1.IH"(2) [OF m' refl refl]) simp_all
      ultimately show ?thesis using rec [OF _ regl] by simp
    next
      case no2: False
      show ?thesis
      proof (cases "s = NOT_ENOUGH_DATA")
        case True
        then show ?thesis
          by (subst onPacketReceivedLoop.simps) (use m' lv in simp)
      next
        case False
        let ?a = "a1\<lparr>mFirstFailureTimeUs := - 1\<rparr>"
        have "onPacketReceivedLoop c' clk q a t = onPacketReceivedLoop c' clk q1 ?a t"
          by (subst onPacketReceivedLoop.simps) (use m' no no2 False in simp)
        moreover have "\<exists>q' a' t'. onPacketReceivedLoop c' clk q1 ?a t = Inr (q', a', t') \<and> leaves q1 ?a q' a'"
          using ok no no2 False "1.prems"(1) by (intro "1.IH"(3) [OF m' refl refl]) simp_all
        ultimately show ?thesis using rec [OF _ lv] by simp
      qed
    qed
  qed
qed

lemma packetLost_total:
  assumes "mNextExpectedSeqNoValid a"
  shows "\<exists>a' t'. packetLost clk a t = Inr (a', t') \<and> asmOk c a' = asmOk c a \<and> held a' = held a \<and>
     mNextExpectedSeqNoValid a'"
  using assms by (simp add: packetLost_def chk_def Let_def)

lemma onPacketReceived_total:
  assumes "asmOk c a" "held a + bytesOf q < 2 ^ 32" "q \<noteq> []"
  shows "\<exists>q' a' t'. onPacketReceived c clk q a t = Inr (q', a', t') \<and> leaves q a q' a'"
proof -
  obtain q1 a1 t1 where l: "onPacketReceivedLoop c clk q a t = Inr (q1, a1, t1)" "leaves q a q1 a1"
    using onPacketReceivedLoop_total [OF refl assms(1,2)] by blast
  have v: "mNextExpectedSeqNoValid a1" using l(2) assms(3) by (simp add: leaves_def)
  obtain a2 t2 where "packetLost clk a1 t1 = Inr (a2, t2)" "asmOk c a2 = asmOk c a1" "held a2 = held a1"
    "mNextExpectedSeqNoValid a2"
    using packetLost_total [OF v] by blast
  then show ?thesis using l v by (auto simp: onPacketReceived_def leaves_def)
qed

end

section \<open>The queue of a source\<close>

text \<open>Sorted by sequence numbers, without duplicates.\<close>

definition ordered :: "ABuffer list \<Rightarrow> bool" where
  "ordered q \<longleftrightarrow> sorted_wrt (<) (map ab_int32Data q)"

lemma ordered_drop: "ordered q \<Longrightarrow> ordered (drop n q)"
  unfolding ordered_def by (simp add: drop_map [symmetric] sorted_wrt_drop)

lemma insertPacket_set:
  "insertPacket b q = Some q' \<Longrightarrow> set q' = insert b (set q) \<and> bytesOf q' = length (ab_data b) + bytesOf q"
  by (induction q arbitrary: q') (auto split: if_splits)

lemma insertPacket_ordered:
  "ordered q \<Longrightarrow> insertPacket b q = Some q' \<Longrightarrow> ordered q'"
proof (induction q arbitrary: q')
  case Nil
  then show ?case by (auto simp: ordered_def)
next
  case (Cons x q)
  show ?case
  proof (cases "ab_int32Data x < ab_int32Data b")
    case True
    then obtain r where r: "insertPacket b q = Some r" "q' = x # r" using Cons.prems(2) by auto
    have "ordered r" using Cons r by (auto simp: ordered_def)
    then show ?thesis
      using Cons.prems(1) True insertPacket_set [OF r(1)] by (auto simp: ordered_def r(2))
  next
    case False
    then have "ab_int32Data b < ab_int32Data x" "q' = b # x # q" using Cons.prems(2) by (auto split: if_splits)
    then show ?thesis using Cons.prems(1) by (auto simp: ordered_def)
  qed
qed

lemma insertPacket_None:
  "ordered q \<Longrightarrow> insertPacket b q = None \<longleftrightarrow> ab_int32Data b \<in> ab_int32Data ` set q"
  by (induction q) (auto simp: ordered_def)

definition srcOk :: "nal_codec \<Rightarrow> RTPSource \<Rightarrow> bool" where
  "srcOk c s \<longleftrightarrow> mCodec s = c \<and> ordered (mQueue s) \<and> 0 \<le> frameCount s \<and> (frameCount s = 0 \<longrightarrow> mQueue s = []) \<and>
     (case mAssembler s of None \<Rightarrow> True | Some a \<Rightarrow> asmOk c a)"

definition srcBytes :: "RTPSource \<Rightarrow> nat" where
  "srcBytes s = bytesOf (mQueue s) + (case mAssembler s of None \<Rightarrow> 0 | Some a \<Rightarrow> held a)"

lemma queuePacket_keeps:
  assumes "srcOk c s" "queuePacket clk b s = (r, s')"
  shows "srcOk c s' \<and> mAssembler s' = mAssembler s \<and> bytesOf (mQueue s') \<le> bytesOf (mQueue s) + length (ab_data b) \<and>
     (r \<longrightarrow> mQueue s' \<noteq> [])"
proof (cases "frameCount s = 0")
  case True
  then have "mQueue s = []" using assms(1) by (simp add: srcOk_def)
  then have q: "mQueue s' = [b\<lparr>ab_recv_time := Some (clk (tick s))\<rparr>]" "mCodec s' = mCodec s" "\<not> r"
    "frameCount s' = frameCount s + 1" "mAssembler s' = mAssembler s"
    using assms(2) True by (auto simp: queuePacket_def Let_def split: if_splits)
  then show ?thesis using assms(1) by (simp add: srcOk_def ordered_def)
next
  case False
  define n where "n = extendSeqNumber (ab_int32Data b) (mHighestSeqNumber s)"
  let ?b = "b\<lparr>ab_recv_time := Some (clk (tick s)), ab_int32Data := n\<rparr>"
  show ?thesis
  proof (cases "insertPacket ?b (mQueue s)")
    case None
    then have "mQueue s' = mQueue s" "mCodec s' = mCodec s" "\<not> r" "frameCount s' = frameCount s + 1"
      "mAssembler s' = mAssembler s"
      using assms(2) False by (auto simp: queuePacket_def n_def Let_def)
    then show ?thesis using assms(1) by (simp add: srcOk_def)
  next
    case (Some q)
    then have "mQueue s' = q" "mCodec s' = mCodec s" "frameCount s' = frameCount s + 1" "mAssembler s' = mAssembler s"
      using assms(2) False by (auto simp: queuePacket_def n_def Let_def split: if_splits)
    moreover have "ordered q" "bytesOf q = length (ab_data b) + bytesOf (mQueue s)" "q \<noteq> []"
      using insertPacket_ordered [OF _ Some] insertPacket_set [OF Some] assms(1) by (auto simp: srcOk_def)
    ultimately show ?thesis using assms(1) by (simp add: srcOk_def)
  qed
qed

context nal_reassembly
begin

lemma processRTPPacket_keeps:
  assumes "srcOk c s" "srcBytes s + length (ab_data b) < 2 ^ 32"
  shows "\<exists>s'. processRTPPacket clk b s = Inr s' \<and> srcOk c s' \<and> srcBytes s' \<le> srcBytes s + length (ab_data b)"
proof -
  obtain r s1 where q: "queuePacket clk b s = (r, s1)" by fastforce
  have s1: "srcOk c s1" "mAssembler s1 = mAssembler s" "bytesOf (mQueue s1) \<le> bytesOf (mQueue s) + length (ab_data b)"
    "r \<Longrightarrow> mQueue s1 \<noteq> []"
    using queuePacket_keeps [OF assms(1) q] by auto
  show ?thesis
  proof (cases "r \<and> mAssembler s1 \<noteq> None")
    case False
    then have "processRTPPacket clk b s = Inr s1"
      by (auto simp: processRTPPacket_def q split: option.split)
    then show ?thesis using s1 by (simp add: srcBytes_def)
  next
    case True
    then obtain a where a: "mAssembler s1 = Some a" by auto
    have as: "mAssembler s = Some a" using s1(2) a by simp
    have "asmOk c a" using s1(1) a by (simp add: srcOk_def)
    moreover have "held a + bytesOf (mQueue s1) < 2 ^ 32" using assms(2) s1(3) as by (simp add: srcBytes_def)
    ultimately obtain q' a' t' where o: "onPacketReceived c clk (mQueue s1) a (tick s1) = Inr (q', a', t')"
      "leaves (mQueue s1) a q' a'"
      using onPacketReceived_total s1(4) True by blast
    then obtain n where n: "q' = drop n (mQueue s1)" by (auto simp: leaves_def)
    have codec: "mCodec s1 = c" using s1(1) by (simp add: srcOk_def)
    have "processRTPPacket clk b s = Inr (s1\<lparr>mQueue := q', mAssembler := Some a', tick := t'\<rparr>)"
      using True a o(1) by (simp add: processRTPPacket_def q codec)
    moreover have "srcOk c (s1\<lparr>mQueue := q', mAssembler := Some a', tick := t'\<rparr>)"
      using s1(1) o(2) ordered_drop by (auto simp: srcOk_def leaves_def)
    moreover have "srcBytes (s1\<lparr>mQueue := q', mAssembler := Some a', tick := t'\<rparr>) \<le> srcBytes s + length (ab_data b)"
      using o(2) s1(3) as by (simp add: srcBytes_def leaves_def)
    ultimately show ?thesis by blast
  qed
qed

end

lemma rd_total: "0 \<le> i \<Longrightarrow> i < int (length xs) \<Longrightarrow> \<exists>x. rd xs i = Inr x"
  by (simp add: rd_def)

interpretation avcR: nal_reassembly avcCodec
proof unfold_locales
  fix d :: "byte list"
  assume "nc_fuMin avcCodec \<le> int (length d)"
  then have "1 < length d" "d \<noteq> []" by (auto simp: avcCodec_def)
  then obtain x0 x1 where "rd d 0 = Inr x0" "rd d 1 = Inr x1"
    using rd_total [of 0 d] rd_total [of 1 d] by auto
  then show "(\<exists>t. nc_fuType avcCodec d = Inr t) \<and>
      (\<exists>h i. nc_reassemble avcCodec d = Inr (h, i) \<and> int (length h) \<le> nc_fuMin avcCodec)"
    by (simp add: avcCodec_def avcReassemble_def Let_def)
qed (simp_all add: avcCodec_def)

interpretation hevcR: nal_reassembly hevcCodec
proof unfold_locales
  fix d :: "byte list"
  assume "nc_fuMin hevcCodec \<le> int (length d)"
  then have "2 < length d" "d \<noteq> []" by (auto simp: hevcCodec_def)
  then obtain x0 x1 x2 where "rd d 0 = Inr x0" "rd d 1 = Inr x1" "rd d 2 = Inr x2"
    using rd_total [of 0 d] rd_total [of 1 d] rd_total [of 2 d] by auto
  then show "(\<exists>t. nc_fuType hevcCodec d = Inr t) \<and>
      (\<exists>h i. nc_reassemble hevcCodec d = Inr (h, i) \<and> int (length h) \<le> nc_fuMin hevcCodec)"
    by (simp add: hevcCodec_def hevcReassemble_def Let_def)
qed (simp_all add: hevcCodec_def)

section \<open>Every packet is accepted\<close>

text \<open>C3. \<open>RTPSource::processRTPPacket\<close> is total on well-formed sources: for every packet with any contents
  and any sequence number, at any time, neither a \<open>CHECK\<close> of the assemblers fails nor is a buffer read or
  written outside its range, the loop of \<open>RTPAssembler::onPacketReceived\<close> ends, and the source is
  well-formed again (queue sorted, fragments long enough for their headers, size of the unit under
  assembly exact), as long as the octets held stay below 2^32.\<close>

theorem any_packet_accepted:
  assumes "c \<in> {avcCodec, hevcCodec}" "srcOk c s" "srcBytes s + length (ab_data b) < 2 ^ 32"
  shows "\<exists>s'. processRTPPacket clk b s = Inr s' \<and> srcOk c s' \<and> srcBytes s' \<le> srcBytes s + length (ab_data b)"
  using assms(1) avcR.processRTPPacket_keeps [of s b clk] hevcR.processRTPPacket_keeps [of s b clk] assms(2,3) by auto

theorem any_packet_accepted_witness:
  "\<exists>s'. processRTPPacket int (newABuffer [0x7c, 0x40, 1]) (newRTPSource avcCodec True) = Inr s' \<and> srcOk avcCodec s'"
proof -
  have "srcOk avcCodec (newRTPSource avcCodec True)" "srcBytes (newRTPSource avcCodec True) = 0"
    by (simp_all add: srcOk_def newRTPSource_def ordered_def asmOk_def newNALAssembler_def srcBytes_def held_def)
  then show ?thesis
    using any_packet_accepted [of avcCodec "newRTPSource avcCodec True" "newABuffer [0x7c, 0x40, 1]" int]
    by (auto simp: newABuffer_def)
qed

text \<open>
  The states of a source: \<open>k\<close> counts the octets received since the queues were last emptied, less than
  4 GiB. A stream may be resumed (\<open>peerResumedSendStream\<close>) at any time, as in the code; \<open>mixed\<close> notes that since the
  queues were last emptied a resumption met waiting packets and set the count of packets to zero, so that
  \<open>queuePacket\<close> takes the next packet for the first one. \<open>adaptation\<close> never makes a count negative; the count itself is not
  bounded here (an \<open>int32_t\<close> in the code, which 2^31 packets would exhaust).
\<close>

definition adaOk :: "adaptation \<Rightarrow> bool" where
  "adaOk ada \<longleftrightarrow> (\<forall>n \<ge> 0. 0 \<le> ada_resetParamOnstart ada n \<and> 0 \<le> ada_resetParamOnstop ada n \<and>
     0 \<le> ada_peerResumedSendStream ada n)"

definition resumeMixes :: "adaptation \<Rightarrow> RTPSource \<Rightarrow> bool" where
  "resumeMixes ada s \<longleftrightarrow> mQueue s \<noteq> [] \<and> ada_peerResumedSendStream ada (frameCount s) = 0"

inductive src_reach :: "nal_codec \<Rightarrow> adaptation \<Rightarrow> (nat \<Rightarrow> int) \<Rightarrow> nat \<Rightarrow> bool \<Rightarrow> RTPSource \<Rightarrow> bool"
  for c ada clk where
  born: "src_reach c ada clk 0 False (newRTPSource c v)"
| packet: "src_reach c ada clk k mixed s \<Longrightarrow> processRTPPacket clk b s = Inr s' \<Longrightarrow> k + length (ab_data b) < 2 ^ 32 \<Longrightarrow>
     src_reach c ada clk (k + length (ab_data b)) mixed s'"
| start: "src_reach c ada clk k mixed s \<Longrightarrow> src_reach c ada clk 0 False (srcStart ada s)"
| stop: "src_reach c ada clk k mixed s \<Longrightarrow> src_reach c ada clk 0 False (srcStop ada s)"
| reset: "src_reach c ada clk k mixed s \<Longrightarrow> src_reach c ada clk 0 False (srcReset ada s)"
| resume: "src_reach c ada clk k mixed s \<Longrightarrow>
     src_reach c ada clk k (mixed \<or> resumeMixes ada s) (peerResumedSendStream ada s)"

lemma assembler_events [simp]:
  "asmOk c (assemblerReset c' a) = asmOk c a" "held (assemblerReset c' a) = held a"
  "asmOk c (assemblerFlushQueue a)" "held (assemblerFlushQueue a) = 0"
  by (simp_all add: assemblerReset_def assemblerFlushQueue_def asmOk_def held_def Let_def)

text \<open>Emptying the queues mends everything but the codec and the sign of the count, which no event touches.\<close>

definition srcSound :: "nal_codec \<Rightarrow> RTPSource \<Rightarrow> bool" where
  "srcSound c s \<longleftrightarrow> mCodec s = c \<and> 0 \<le> frameCount s"

lemma srcOk_sound: "srcOk c s \<Longrightarrow> srcSound c s"
  by (simp add: srcOk_def srcSound_def)

lemma src_flushed:
  assumes "srcSound c s" "adaOk ada"
  shows "srcOk c (srcStart ada s) \<and> srcBytes (srcStart ada s) = 0"
    "srcOk c (srcStop ada s) \<and> srcBytes (srcStop ada s) = 0"
    "srcOk c (srcReset ada s) \<and> srcBytes (srcReset ada s) = 0"
  using assms
  by (cases "mAssembler s"; simp add: srcOk_def srcSound_def adaOk_def srcBytes_def ordered_def srcStart_def srcStop_def
        srcReset_def srcFlushQueue_def peerResumedSendStream_def Let_def)+

lemma src_resumed:
  assumes "adaOk ada"
  shows "srcSound c s \<Longrightarrow> srcSound c (peerResumedSendStream ada s)"
    "srcOk c s \<Longrightarrow> \<not> resumeMixes ada s \<Longrightarrow>
      srcOk c (peerResumedSendStream ada s) \<and> srcBytes (peerResumedSendStream ada s) = srcBytes s"
  using assms
  by (cases "mAssembler s"; auto simp: srcOk_def srcSound_def adaOk_def srcBytes_def resumeMixes_def peerResumedSendStream_def)+

lemma packet_sound:
  assumes "srcSound c s" "processRTPPacket clk b s = Inr s'"
  shows "srcSound c s'"
proof -
  obtain r s1 where q: "queuePacket clk b s = (r, s1)" by (cases "queuePacket clk b s")
  have "srcSound c s1"
    using assms(1) q by (auto simp: queuePacket_def srcSound_def Let_def split: if_splits option.splits)
  then show ?thesis
    using assms(2) by (auto simp: processRTPPacket_def q srcSound_def bnd_eq_Inr split: if_splits option.splits)
qed

lemma src_reach_ok:
  assumes "src_reach c ada clk k mixed s" "c \<in> {avcCodec, hevcCodec}" "adaOk ada"
  shows "srcSound c s \<and> (\<not> mixed \<longrightarrow> srcOk c s \<and> srcBytes s \<le> k)"
  using assms(1)
proof (induction rule: src_reach.induct)
  case (born v)
  then show ?case
    by (simp add: srcOk_def srcSound_def newRTPSource_def ordered_def asmOk_def newNALAssembler_def srcBytes_def held_def)
next
  case (packet k mixed s b s')
  have "srcOk c s' \<and> srcBytes s' \<le> k + length (ab_data b)" if "\<not> mixed"
  proof -
    have "srcBytes s + length (ab_data b) < 2 ^ 32" "srcOk c s" using packet that by auto
    then have "srcOk c s' \<and> srcBytes s' \<le> srcBytes s + length (ab_data b)"
      using avcR.processRTPPacket_keeps [of s b clk] hevcR.processRTPPacket_keeps [of s b clk] assms(2) packet(2) by auto
    then show ?thesis using packet(4) that by simp
  qed
  then show ?case using packet_sound packet(2,4) by blast
next
  case (start k mixed s)
  then show ?case using src_flushed(1) [OF _ assms(3), of c s] srcOk_sound by auto
next
  case (stop k mixed s)
  then show ?case using src_flushed(2) [OF _ assms(3), of c s] srcOk_sound by auto
next
  case (reset k mixed s)
  then show ?case using src_flushed(3) [OF _ assms(3), of c s] srcOk_sound by auto
next
  case (resume k mixed s)
  then show ?case using src_resumed [OF assms(3), of c s] by auto
qed

text \<open>The first two packets after a resumption that mixes: the later one stays in front.\<close>

lemma resumed_unsorted:
  assumes "ada_peerResumedSendStream ada 1 = 0"
  shows "\<exists>s. src_reach c ada clk 0 True s \<and> map ab_int32Data (mQueue s) = [5, 3]"
proof -
  define pkt where "pkt n = (newABuffer [])\<lparr>ab_int32Data := n\<rparr>" for n
  have pkt: "ab_int32Data (pkt n) = n" "ab_data (pkt n) = []" for n by (simp_all add: pkt_def newABuffer_def)
  define s1 where "s1 = snd (queuePacket clk (pkt 5) (newRTPSource c True))"
  have s1: "frameCount s1 = 1" "map ab_int32Data (mQueue s1) = [5]"
    by (simp_all add: s1_def queuePacket_def newRTPSource_def pkt Let_def)
  have "processRTPPacket clk (pkt 5) (newRTPSource c True) = Inr s1"
    by (simp add: s1_def processRTPPacket_def queuePacket_def newRTPSource_def Let_def)
  from src_reach.packet [OF src_reach.born this]
  have "src_reach c ada clk 0 False s1" by (simp add: pkt)
  from src_reach.resume [OF this]
  have r: "src_reach c ada clk 0 True (peerResumedSendStream ada s1)"
    using s1 assms by (auto simp: resumeMixes_def)
  define sr where "sr = peerResumedSendStream ada s1"
  define s2 where "s2 = snd (queuePacket clk (pkt 3) sr)"
  have c0: "frameCount sr = 0" "mQueue sr = mQueue s1" using s1 assms by (simp_all add: sr_def peerResumedSendStream_def)
  have q2: "fst (queuePacket clk (pkt 3) sr) = False" "mQueue s2 = mQueue s1 @ [(pkt 3)\<lparr>ab_recv_time := Some (clk (tick sr))\<rparr>]"
    by (simp_all add: s2_def queuePacket_def Let_def c0)
  then have "processRTPPacket clk (pkt 3) sr = Inr s2"
    by (simp add: processRTPPacket_def s2_def prod.case_eq_if option.case_eq_if)
  from src_reach.packet [OF r [folded sr_def] this] have "src_reach c ada clk 0 True s2" by (simp add: pkt)
  moreover have "map ab_int32Data (mQueue s2) = [5, 3]"
    by (simp add: q2(2) s1(2) pkt)
  ultimately show ?thesis by (intro exI conjI)
qed

text \<open>C22. In every state that a source of a video stream can reach by packets, starts, stops, changes of the
  sender and resumptions, in any order, the queue is sorted by extended sequence numbers without duplicates, so the
  assembler only ever looks at the oldest packet, unless a resumption met waiting packets and set the count of packets
  to zero and the queues were not emptied since. The exception is real: when a resumption after one packet sets the count to
  zero, the next packet is put behind the waiting one whatever its number, and the queue is not sorted.\<close>

theorem queue_ordered:
  assumes "c \<in> {avcCodec, hevcCodec}" "adaOk ada"
  shows "(src_reach c ada clk k False s \<longrightarrow>
      sorted_wrt (<) (map ab_int32Data (mQueue s)) \<and> distinct (map ab_int32Data (mQueue s))) \<and>
    (ada_peerResumedSendStream ada 1 = 0 \<longrightarrow>
      (\<exists>k s. src_reach c ada clk k True s \<and> \<not> sorted_wrt (<) (map ab_int32Data (mQueue s))))"
proof (intro conjI impI)
  assume "src_reach c ada clk k False s"
  from src_reach_ok [OF this assms] have "ordered (mQueue s)" by (simp add: srcOk_def)
  then show sorted: "sorted_wrt (<) (map ab_int32Data (mQueue s))" by (simp only: ordered_def)
  then show "distinct (map ab_int32Data (mQueue s))" by (simp only: strict_sorted_iff)
next
  assume "ada_peerResumedSendStream ada 1 = 0"
  from resumed_unsorted [OF this, of c clk]
  show "\<exists>k s. src_reach c ada clk k True s \<and> \<not> sorted_wrt (<) (map ab_int32Data (mQueue s))"
  proof (elim exE conjE)
    fix s assume r: "src_reach c ada clk 0 True s" and q: "map ab_int32Data (mQueue s) = [5, 3]"
    have "\<not> sorted_wrt (<) (map ab_int32Data (mQueue s))" unfolding q by simp
    with r show ?thesis by (intro exI conjI)
  qed
qed

theorem queue_ordered_witness:
  "sorted_wrt (<) (map ab_int32Data (mQueue (srcStop
     \<lparr>ada_resetParamOnstart = (\<lambda>n. 0), ada_resetParamOnstop = (\<lambda>n. 0), ada_peerResumedSendStream = (\<lambda>n. 0)\<rparr>
     (newRTPSource avcCodec True)))) \<and>
   (\<exists>k s. src_reach avcCodec
     \<lparr>ada_resetParamOnstart = (\<lambda>n. 0), ada_resetParamOnstop = (\<lambda>n. 0), ada_peerResumedSendStream = (\<lambda>n. 0)\<rparr> int k True s \<and>
     \<not> sorted_wrt (<) (map ab_int32Data (mQueue s)))"
proof -
  let ?ada = "\<lparr>ada_resetParamOnstart = (\<lambda>n. 0), ada_resetParamOnstop = (\<lambda>n. 0), ada_peerResumedSendStream = (\<lambda>n. 0)\<rparr>"
  have "src_reach avcCodec ?ada int 0 False (srcStop ?ada (newRTPSource avcCodec True))"
    by (rule src_reach.stop [OF src_reach.born])
  then show ?thesis
    using queue_ordered [of avcCodec ?ada int 0 "srcStop ?ada (newRTPSource avcCodec True)"] by (simp add: adaOk_def)
qed

end
