(* ===== verification/RtpEvents.thy ===== *)
theory RtpEvents
  imports RtpCodecs RtpSafety
begin

text \<open>
  Sender and receiver as state machines over the messages of their loopers: a message that is
  handled while the sender is stopped, or after the queue of the receiver was cleared, leaves the
  pending flag set, and nothing is sent or received any more. What a lost packet, and what the
  resumption of a stream, does to the unit under assembly.
\<close>

section \<open>What packetization leaves alone\<close>

definition sameCtl :: "RTPSender \<Rightarrow> RTPSender \<Rightarrow> bool" where
  "sameCtl s s' \<longleftrightarrow> wire s' = wire s \<and> looper s' = looper s \<and> mSendRTPEventPending s' = mSendRTPEventPending s \<and>
     mStarted s' = mStarted s \<and> mRTPGeneration s' = mRTPGeneration s"

lemma sameCtl_refl [simp]: "sameCtl s s"
  by (simp add: sameCtl_def)

lemma sameCtl_trans: "sameCtl s s1 \<Longrightarrow> sameCtl s1 s2 \<Longrightarrow> sameCtl s s2"
  by (simp add: sameCtl_def)

lemma createPacket_ctl: "createPacket cap accu s = Inr (s', p) \<Longrightarrow> sameCtl s s'"
  by (auto simp: createPacket_def addRTPFixHeader_def bnd_eq_Inr sameCtl_def Let_def)

lemma sndQueueRTPPacket_ctl: "sndQueueRTPPacket s p = Inr s' \<Longrightarrow> sameCtl s s'"
  by (auto simp: sndQueueRTPPacket_def bnd_eq_Inr sameCtl_def split: if_splits)

lemma fuLoop_ctl: "fuLoop n f accu remain nal off out cnt s = Inr (s', k) \<Longrightarrow> sameCtl s s'"
proof (induction n arbitrary: off out cnt s)
  case 0
  then show ?case by (auto simp: fuLoop.simps [of 0] split: if_splits)
next
  case (Suc n)
  show ?case
  proof (cases "off \<ge> int (length nal)")
    case True
    then show ?thesis using Suc.prems by (simp add: fuLoop.simps)
  next
    case False
    then obtain s1 p s2 off' cnt' where
      o: "(case out of None \<Rightarrow> createPacket (mMTUSize s) accu s | Some p \<Rightarrow> Inr (s, p)) = Inr (s1, p)"
      and q: "\<exists>p'. sndQueueRTPPacket s1 p' = Inr s2"
      and l: "fuLoop n f accu remain nal off' None cnt' s2 = Inr (s', k)"
      using Suc.prems unfolding fuLoop.simps [of "Suc n"] by (auto simp: bnd_eq_Inr Let_def) blast
    have "sameCtl s s1" using o createPacket_ctl by (auto split: option.splits)
    moreover have "sameCtl s1 s2" using q sndQueueRTPPacket_ctl by blast
    moreover have "sameCtl s2 s'" using Suc.IH [OF l] .
    ultimately show ?thesis using sameCtl_trans by blast
  qed
qed

lemma ensureOut_ctl: "ensureOut accu st = Inr (p, st') \<Longrightarrow> sameCtl (ps_sender st) (ps_sender st')"
  using createPacket_ctl by (fastforce simp: ensureOut_def bnd_eq_Inr split: option.splits)

lemma emitPacket_ctl: "emitPacket accu m p st = Inr st' \<Longrightarrow> sameCtl (ps_sender st) (ps_sender st')"
  using sndQueueRTPPacket_ctl by (fastforce simp: emitPacket_def bnd_eq_Inr)

lemma stapOrFragment_ctl: "stapOrFragment f accu nal left st = Inr st' \<Longrightarrow> sameCtl (ps_sender st) (ps_sender st')"
proof -
  assume a: "stapOrFragment f accu nal left st = Inr st'"
  then obtain p st1 where o: "ensureOut accu st = Inr (p, st1)" by (auto simp: stapOrFragment_def bnd_eq_Inr)
  have "sameCtl (ps_sender st1) (ps_sender st')"
    using a fuLoop_ctl by (auto simp: stapOrFragment_def o fragmentNAL_def bnd_eq_Inr Let_def split: if_splits)
  then show ?thesis using ensureOut_ctl [OF o] sameCtl_trans by blast
qed

lemma packNAL_ctl: "packNAL f accu x st = Inr st' \<Longrightarrow> sameCtl (ps_sender st) (ps_sender st')"
proof -
  obtain nal left where x: "x = (nal, left)" by (cases x)
  assume a: "packNAL f accu x st = Inr st'"
  then obtain p st1 where o: "ensureOut accu st = Inr (p, st1)" by (auto simp: packNAL_def x bnd_eq_Inr)
  have "sameCtl (ps_sender st1) (ps_sender st')"
    using a unfolding x packNAL_def prod.case o bnd.simps Let_def
    by (auto simp: bnd_eq_Inr split: if_splits dest!: emitPacket_ctl stapOrFragment_ctl intro: sameCtl_trans)
  then show ?thesis using ensureOut_ctl [OF o] sameCtl_trans by blast
qed

lemma packLoop_ctl: "packLoop f accu xs st = Inr st' \<Longrightarrow> sameCtl (ps_sender st) (ps_sender st')"
  by (induction xs arbitrary: st) (auto simp: bnd_eq_Inr dest!: packNAL_ctl intro: sameCtl_trans)

lemma aggregateNALs_ctl: "aggregateNALs f accu xs e s = Inr s' \<Longrightarrow> sameCtl s s'"
  by (auto simp: aggregateNALs_def bnd_eq_Inr sameCtl_def split: option.splits
      dest!: packLoop_ctl sndQueueRTPPacket_ctl)

lemma singleLoop_ctl: "singleLoop accu xs k s = Inr s' \<Longrightarrow> sameCtl s s'"
proof (induction xs arbitrary: k s)
  case (Cons x xs)
  obtain nal left where x: "x = (nal, left)" by (cases x)
  obtain s1 p p' s2 where "createPacket (int (length nal) + 12 + 16) accu s = Inr (s1, p)"
    "sndQueueRTPPacket s1 p' = Inr s2" "singleLoop accu xs (k + 1) s2 = Inr s'"
    using Cons.prems unfolding x by (auto simp: bnd_eq_Inr)
  then show ?case using createPacket_ctl sndQueueRTPPacket_ctl Cons.IH sameCtl_trans by meson
qed simp

section \<open>The sender as a state machine\<close>

inductive snd_step :: "RTPSender \<Rightarrow> RTPSender \<Rightarrow> bool" where
  started: "snd_step s (sndOnStart s)"
| stopped: "snd_step s (sndOnStop s)"
| frame: "onQueueAccessUnit accu xs e s = Inr s' \<Longrightarrow> snd_step s s'"
| message: "looper s = g # gs \<Longrightarrow> onSendRTPPacket w g (s\<lparr>looper := gs\<rparr>) = Inr s' \<Longrightarrow> snd_step s s'"

inductive_cases snd_stepE: "snd_step s s'"

lemma onQueueAccessUnit_pending:
  assumes "onQueueAccessUnit accu xs e s = Inr s'" "mSendRTPEventPending s"
  shows "wire s' = wire s \<and> looper s' = looper s \<and> mSendRTPEventPending s'"
proof (cases "mStarted s")
  case False
  then show ?thesis using assms by (simp add: onQueueAccessUnit_def)
next
  case True
  let ?s = "s\<lparr>mAccuReceived := mAccuReceived s + 1\<rparr>"
  have c: "sameCtl ?s t \<Longrightarrow> wire (postSendRTPMessage t) = wire s \<and> looper (postSendRTPMessage t) = looper s \<and>
      mSendRTPEventPending (postSendRTPMessage t)" for t
    using assms(2) by (simp add: sameCtl_def postSendRTPMessage_def)
  have "s' = ?s \<or> (\<exists>t. sameCtl ?s t \<and> s' = postSendRTPMessage t)"
  proof -
    have agg: "aggregateNALs f accu xs e ?s = Inr t \<Longrightarrow> sameCtl ?s t" for f t by (rule aggregateNALs_ctl)
    have single: "singleLoop accu xs 1 ?s = Inr t \<Longrightarrow> sameCtl ?s t" for t by (rule singleLoop_ctl)
    have "s' = ?s \<or> (\<exists>m t. m = Inr t \<and> s' = postSendRTPMessage t \<and>
        m \<in> {Inr ?s, queueSingleNALUnitPacket accu xs ?s, queueFUorSTAPPacket accu xs e ?s, queueFUorSTAPPacket_HEVC accu xs e ?s})"
      using assms(1) True unfolding onQueueAccessUnit_def Let_def
      by (cases "packetize_mode s") (auto simp: bnd_eq_Inr split: if_splits)
    moreover have "sameCtl ?s t" if "m = Inr t" "m \<in> {Inr ?s, queueSingleNALUnitPacket accu xs ?s,
        queueFUorSTAPPacket accu xs e ?s, queueFUorSTAPPacket_HEVC accu xs e ?s}" for m t
      using that agg [of _ t] single [of t] sameCtl_refl [of ?s]
      unfolding queueSingleNALUnitPacket_def queueFUorSTAPPacket_def queueFUorSTAPPacket_HEVC_def
      by (elim insertE emptyE) simp_all
    ultimately show ?thesis by blast
  qed
  then show ?thesis using c assms(2) by auto
qed

lemma stalled_step:
  assumes "snd_step s s'" "mSendRTPEventPending s" "looper s = []"
  shows "wire s' = wire s \<and> mSendRTPEventPending s' \<and> looper s' = []"
  using assms(1)
proof (cases rule: snd_step.cases)
  case (frame accu xs e)
  then show ?thesis using onQueueAccessUnit_pending assms(2,3) by auto
qed (use assms(2,3) in \<open>simp_all add: sndOnStart_def sndOnStop_def\<close>)

lemma stalled_forever:
  assumes "snd_step\<^sup>*\<^sup>* s s'" "mSendRTPEventPending s" "looper s = []"
  shows "wire s' = wire s \<and> mSendRTPEventPending s' \<and> looper s' = []"
  using assms by (induction rule: rtranclp_induct) (auto dest: stalled_step)

text \<open>C38. The sender can stall for the rest of a call: a message \<open>kWhatSendRTPPacket\<close> that is handled while the
  sender is stopped is dropped before \<open>mSendRTPEventPending\<close> is cleared (\<open>RTPSender.cpp\<close>, the return before
  the assignment), and neither \<open>onStart\<close> nor \<open>onStop\<close> clears it. From every started video sender a frame,
  a stop, the message and a start lead to a started sender that, whatever frames are queued and however
  often it is stopped and started, never sends a packet again.\<close>

theorem sender_can_stall:
  assumes "mStarted s" "\<not> mSendRTPEventPending s" "looper s = []"
    and "media_is_video s" "mime_Type s = IMSMA_RTP_VIDEO_H264" "packetize_mode s = IMSMA_NON_INTERLEAVED_MODE"
  shows "\<exists>s1. snd_step\<^sup>*\<^sup>* s s1 \<and> mStarted s1 \<and> (\<forall>s2. snd_step\<^sup>*\<^sup>* s1 s2 \<longrightarrow> wire s2 = wire s)"
proof -
  let ?q = "postSendRTPMessage (s\<lparr>mAccuReceived := mAccuReceived s + 1\<rparr>)"
  have q: "looper ?q = [mRTPGeneration s]" "mSendRTPEventPending ?q" "wire ?q = wire s"
    using assms(2,3) by (simp_all add: postSendRTPMessage_def)
  let ?m = "(sndOnStop ?q)\<lparr>looper := []\<rparr>"
  have "onQueueAccessUnit exUnit [] 0 s = Inr ?q"
    using assms by (simp add: onQueueAccessUnit_def queueFUorSTAPPacket_def aggregateNALs_def Let_def)
  then have "snd_step s ?q" by (rule snd_step.frame)
  moreover have "snd_step ?q (sndOnStop ?q)" by (rule snd_step.stopped)
  moreover have "snd_step (sndOnStop ?q) ?m"
    by (rule snd_step.message [where g = "mRTPGeneration s" and gs = "[]" and w = "\<lambda>i. 0"])
       (use q in \<open>simp_all add: sndOnStop_def onSendRTPPacket_def\<close>)
  moreover have "snd_step ?m (sndOnStart ?m)" by (rule snd_step.started)
  ultimately have reach: "snd_step\<^sup>*\<^sup>* s (sndOnStart ?m)"
    by (intro converse_rtranclp_into_rtranclp [of snd_step s ?q] converse_rtranclp_into_rtranclp [of snd_step ?q "sndOnStop ?q"]
        converse_rtranclp_into_rtranclp [of snd_step "sndOnStop ?q" ?m] r_into_rtranclp)
  have st: "mSendRTPEventPending (sndOnStart ?m)" "looper (sndOnStart ?m) = []" "wire (sndOnStart ?m) = wire s"
    "mStarted (sndOnStart ?m)"
    using q by (simp_all add: sndOnStart_def sndOnStop_def)
  show ?thesis using reach st stalled_forever [OF _ st(1,2)] by metis
qed

theorem sender_can_stall_witness:
  "\<exists>s1. snd_step\<^sup>*\<^sup>* (exCaller IMSMA_RTP_VIDEO_H264) s1 \<and> mStarted s1 \<and>
     (\<forall>s2. snd_step\<^sup>*\<^sup>* s1 s2 \<longrightarrow> wire s2 = wire (exCaller IMSMA_RTP_VIDEO_H264))"
proof -
  have "\<not> mSendRTPEventPending (exCaller IMSMA_RTP_VIDEO_H264)" "looper (exCaller IMSMA_RTP_VIDEO_H264) = []"
    by (simp_all add: exCaller_def exSender_def newRTPSender_def)
  then show ?thesis by (intro sender_can_stall) (simp_all add: exCaller_fields)
qed

section \<open>The receiver as a state machine\<close>

text \<open>The units that the assemblers of the tracks have posted.\<close>

definition postedOf :: "RTPReceiver \<Rightarrow> posted list option option list" where
  "postedOf r = map (\<lambda>t. map_option (\<lambda>s. map_option posted (mAssembler s)) (mRTPSource t)) (mpTrackInfos r)"

inductive rcv_step :: "adaptation \<Rightarrow> (nat \<Rightarrow> int) \<Rightarrow> RTPReceiver \<Rightarrow> RTPReceiver \<Rightarrow> bool" for ada clk where
  packet: "listening r \<Longrightarrow> rcv_step ada clk r (videoRTPPacketCallBack p r)"
| begun: "rcv_step ada clk r (rcvOnStart ada IMSMA_RTP_VIDEO r)"
| ended: "rcv_step ada clk r (rcvOnStop ada IMSMA_RTP_VIDEO r)"
| handled: "rcvLooper r > 0 \<Longrightarrow> onRTPPacket ada clk (r\<lparr>rcvLooper := rcvLooper r - 1\<rparr>) = Inr r' \<Longrightarrow>
    rcv_step ada clk r r'"

lemma posted_events [simp]:
  "map_option posted (mAssembler (srcStart ada s)) = map_option posted (mAssembler s)"
  "map_option posted (mAssembler (srcStop ada s)) = map_option posted (mAssembler s)"
  by (cases "mAssembler s"; simp add: srcStart_def srcStop_def srcFlushQueue_def assemblerReset_def
      assemblerFlushQueue_def Let_def)+

lemma postedOf_update:
  assumes "i < length (mpTrackInfos r)"
    and "map_option (\<lambda>s. map_option posted (mAssembler s)) (mRTPSource t) =
      map_option (\<lambda>s. map_option posted (mAssembler s)) (mRTPSource (mpTrackInfos r ! i))"
  shows "postedOf (r\<lparr>mpTrackInfos := (mpTrackInfos r)[i := t]\<rparr>) = postedOf r"
  using assms by (simp add: postedOf_def map_update list_update_same_conv)

lemma postedOf_fields [simp]:
  "postedOf (r\<lparr>listening := l\<rparr>) = postedOf r" "postedOf (clearQueues r) = postedOf r"
  "postedOf (videoRTPPacketCallBack p r) = postedOf r"
  by (simp_all add: postedOf_def clearQueues_def videoRTPPacketCallBack_def Let_def)

lemma start_stop_posted:
  "postedOf (rcvOnStart ada i r) = postedOf r" "postedOf (rcvOnStop ada i r) = postedOf r"
proof -
  have m: "map_option (\<lambda>s. map_option posted (mAssembler s)) (map_option (srcStart ada) x) =
      map_option (\<lambda>s. map_option posted (mAssembler s)) x"
    "map_option (\<lambda>s. map_option posted (mAssembler s)) (map_option (srcStop ada) x) =
      map_option (\<lambda>s. map_option posted (mAssembler s)) x" for x
    by (cases x; simp)+
  have upd: "postedOf (r\<lparr>mpTrackInfos := (mpTrackInfos r)[k := (mpTrackInfos r ! k)\<lparr>mRTPSource := x, ti_mStarted := b\<rparr>]\<rparr>) = postedOf r"
    if "findTrack P (mpTrackInfos r) = Some k"
      "map_option (\<lambda>s. map_option posted (mAssembler s)) x =
       map_option (\<lambda>s. map_option posted (mAssembler s)) (mRTPSource (mpTrackInfos r ! k))" for P k x b
    using findTrack_length [OF that(1)] that(2) by (intro postedOf_update) simp_all
  have lis: "postedOf (r\<lparr>mpTrackInfos := ts, listening := l\<rparr>) = postedOf (r\<lparr>mpTrackInfos := ts\<rparr>)" for ts l
    by (simp add: postedOf_def)
  show "postedOf (rcvOnStart ada i r) = postedOf r"
    by (cases "findTrack (\<lambda>t. mTrackIndex t = i) (mpTrackInfos r)")
       (simp_all add: rcvOnStart_def Let_def upd m)
  show "postedOf (rcvOnStop ada i r) = postedOf r"
    by (cases "findTrack (\<lambda>t. mTrackIndex t = i) (mpTrackInfos r)")
       (simp_all add: rcvOnStop_def Let_def lis upd m)
qed

lemma start_stop_pending:
  "mVideoRTPPending (rcvOnStart ada i r) = mVideoRTPPending r" "rcvLooper (rcvOnStart ada i r) = rcvLooper r"
  "mVideoRTPPending (rcvOnStop ada i r) = mVideoRTPPending r" "rcvLooper (rcvOnStop ada i r) = rcvLooper r"
  by (simp_all add: rcvOnStart_def rcvOnStop_def clearQueues_def Let_def split: option.split)

lemma deaf_forever:
  assumes "(rcv_step ada clk)\<^sup>*\<^sup>* r r'" "mVideoRTPPending r" "rcvLooper r = 0"
  shows "postedOf r' = postedOf r \<and> mVideoRTPPending r' \<and> rcvLooper r' = 0"
  using assms(1)
proof (induction rule: rtranclp_induct)
  case base
  then show ?case using assms(2,3) by simp
next
  case (step r1 r2)
  show ?case
    using step.hyps(2)
  proof (cases rule: rcv_step.cases)
    case (packet p)
    then show ?thesis using step.IH by (simp add: videoRTPPacketCallBack_def Let_def postedOf_def)
  next
    case handled
    then show ?thesis using step.IH by simp
  qed (use step.IH in \<open>simp_all add: start_stop_posted start_stop_pending\<close>)
qed

text \<open>The receiver can become deaf for the rest of a call: \<open>onStop\<close> and \<open>onStart\<close> clear \<open>mVideoRTPQueue\<close> but
  not \<open>mVideoRTPPending\<close>, which only the loop over a non-empty queue resets. If one packet waits when the
  stream is stopped, its message finds an empty queue, and from then on, after any further starts and
  stops and however many packets arrive, no unit is posted any more.\<close>

theorem receiver_can_become_deaf:
  assumes "listening r" "\<not> mVideoRTPPending r" "rcvLooper r = 0"
    and "findTrack (\<lambda>t. mTrackIndex t = IMSMA_RTP_VIDEO) (mpTrackInfos r) = Some i"
  shows "\<exists>r1. (rcv_step ada clk)\<^sup>*\<^sup>* r r1 \<and> listening r1 \<and> ti_mStarted (mpTrackInfos r1 ! i) \<and>
     (\<forall>r2. (rcv_step ada clk)\<^sup>*\<^sup>* r1 r2 \<longrightarrow> postedOf r2 = postedOf r)"
proof -
  define p where "p = \<lparr>rp_bytes = [], rp_tail = []\<rparr>"
  let ?a = "videoRTPPacketCallBack p r"
  let ?b = "rcvOnStop ada IMSMA_RTP_VIDEO ?a"
  let ?c = "?b\<lparr>rcvLooper := rcvLooper ?b - 1\<rparr>"
  let ?d = "rcvOnStart ada IMSMA_RTP_VIDEO ?c"
  have a: "mVideoRTPPending ?a" "rcvLooper ?a = 1" "mpTrackInfos ?a = mpTrackInfos r" "postedOf ?a = postedOf r"
    using assms by (simp_all add: videoRTPPacketCallBack_def Let_def postedOf_def)
  have b: "mVideoRTPPending ?b" "rcvLooper ?b = 1" "postedOf ?b = postedOf r"
    using a by (simp_all add: start_stop_pending start_stop_posted)
  have b': "mVideoRTPQueue ?b = []" "findTrack (\<lambda>t. mTrackIndex t = IMSMA_RTP_VIDEO) (mpTrackInfos ?b) = Some i"
    using assms(4) findTrack_update [OF assms(4)]
    by (simp_all add: rcvOnStop_def a(3) clearQueues_def Let_def)
  have c: "mVideoRTPPending ?c" "rcvLooper ?c = 0" "postedOf ?c = postedOf r" "mpTrackInfos ?c = mpTrackInfos ?b"
    using b by (simp_all add: postedOf_def)
  have d: "mVideoRTPPending ?d" "rcvLooper ?d = 0" "postedOf ?d = postedOf r"
    using c by (simp_all add: start_stop_pending start_stop_posted)
  have l: "listening ?d" "ti_mStarted (mpTrackInfos ?d ! i)"
    using b'(2) findTrack_length [OF b'(2)] by (simp_all add: rcvOnStart_def c(4) clearQueues_def Let_def)
  have "rcv_step ada clk r ?a" using assms(1) by (rule rcv_step.packet)
  moreover have "rcv_step ada clk ?a ?b" by (rule rcv_step.ended)
  moreover have "rcv_step ada clk ?b ?c"
    by (rule rcv_step.handled) (use b b' in \<open>simp_all add: onRTPPacket_def\<close>)
  moreover have "rcv_step ada clk ?c ?d" by (rule rcv_step.begun)
  ultimately have "(rcv_step ada clk)\<^sup>*\<^sup>* r ?d"
    by (intro converse_rtranclp_into_rtranclp [of "rcv_step ada clk" r "?a"]
        converse_rtranclp_into_rtranclp [of "rcv_step ada clk" "?a" "?b"]
        converse_rtranclp_into_rtranclp [of "rcv_step ada clk" "?b" "?c"] r_into_rtranclp)
  then show ?thesis using l deaf_forever [OF _ d(1,2)] d(3) by metis
qed

theorem receiver_can_become_deaf_witness:
  "\<exists>r1. (rcv_step exAda int)\<^sup>*\<^sup>* exReceiver r1 \<and> listening r1 \<and> ti_mStarted (mpTrackInfos r1 ! 0) \<and>
     (\<forall>r2. (rcv_step exAda int)\<^sup>*\<^sup>* r1 r2 \<longrightarrow> postedOf r2 = postedOf exReceiver)"
  by (rule receiver_can_become_deaf)
     (simp_all add: exReceiver_def rcvOnStart_def onAddStream_def newRTPReceiver_def clearQueues_def IMSMA_RTP_VIDEO_def Let_def)

section \<open>Lost packets\<close>

lemma copyFragments_damaged:
  "copyFragments h q off e u = Inr u' \<Longrightarrow> ab_damaged u' = ab_damaged u"
proof (induction q arbitrary: off e u)
  case (Cons b q)
  then show ?case by (auto simp: bnd_eq_Inr Let_def split: if_splits dest!: Cons.IH)
qed simp

lemma assembleToNAL_damaged:
  "assembleToNAL c fi = Inr u \<Longrightarrow> ab_damaged u = fi_mIsDamaged fi"
  by (auto simp: assembleToNAL_def bnd_eq_Inr Let_def copyMetas_def newABuffer_def split: if_splits
      dest!: copyFragments_damaged)

text \<open>A unit is under assembly and a packet was lost meanwhile; or it was posted, marked as damaged.\<close>

definition marked :: "NALAssembler \<Rightarrow> NALAssembler \<Rightarrow> bool" where
  "marked a a' \<longleftrightarrow>
     (posted a' = posted a \<and> mpNALFragmentInfo a' \<noteq> None \<and> mAccessUnitDamaged a') \<or>
     (\<exists>u ps. posted a' = posted a @ AccessUnit u # ps \<and> ab_damaged u)"

lemma submitFragments_marks:
  "submitFragments c fi a = Inr a' \<Longrightarrow> mAccessUnitDamaged a \<Longrightarrow>
     \<exists>u. posted a' = posted a @ [AccessUnit u] \<and> ab_damaged u"
  by (auto simp: submitFragments_def bnd_eq_Inr submitAccessUnit_def Let_def dest!: assembleToNAL_damaged)

lemma posted_grows:
  "submitFragments c fi a = Inr a' \<Longrightarrow> \<exists>ps. posted a' = posted a @ ps"
  "appendFragment c flags ty b a = Inr a' \<Longrightarrow> \<exists>ps. posted a' = posted a @ ps"
proof -
  show sub: "submitFragments c fi a = Inr a' \<Longrightarrow> \<exists>ps. posted a' = posted a @ ps" for fi a a'
    by (auto simp: submitFragments_def bnd_eq_Inr submitAccessUnit_def Let_def)
  show "appendFragment c flags ty b a = Inr a' \<Longrightarrow> \<exists>ps. posted a' = posted a @ ps"
    by (auto simp: appendFragment_def Let_def split: if_splits dest!: sub)
qed

lemma appendFragment_marks:
  assumes "appendFragment c flags ty b a = Inr a'" "mAccessUnitDamaged a"
  shows "marked a a'"
  using assms submitFragments_marks
  by (auto simp: appendFragment_def marked_def Let_def split: if_splits dest!: submitFragments_marks)

lemma submitAccessUnit_posted: "\<exists>x. posted (submitAccessUnit c u a) = posted a @ [x]"
  by (simp add: submitAccessUnit_def Let_def)

lemma stapLoop_posted: "\<exists>ps. posted (snd (stapLoop c b d a)) = posted a @ ps"
proof (induction c b d a rule: stapLoop.induct)
  case (1 c b h l rest a)
  define n where "n = unat h * 256 + unat l"
  define v where "v = (let u = copyMetas (newABuffer (take n rest)) b in
      setTokens (ab_token b) (if length (drop n rest) > 2 then u\<lparr>ab_M := 0\<rparr> else u))"
  have step: "stapLoop c b (h # l # rest) a =
      (if length rest < n then (False, a) else stapLoop c b (drop n rest) (addSingleNALUnit c v a))"
    unfolding stapLoop.simps Let_def n_def v_def by (rule refl)
  show ?case
  proof (cases "length rest < n")
    case False
    then have "\<exists>ps. posted (snd (stapLoop c b (drop n rest) (addSingleNALUnit c v a))) = posted (addSingleNALUnit c v a) @ ps"
      unfolding n_def v_def Let_def by (intro "1.IH") simp_all
    then show ?thesis
      using submitAccessUnit_posted [of c v a] False unfolding step addSingleNALUnit_def by auto
  qed (simp only: step if_True snd_conv, simp)
qed simp_all

lemma flushFragments_marks:
  assumes "flushFragments c a = Inr a'" "mpNALFragmentInfo a = Some fi" "mAccessUnitDamaged a"
  shows "\<exists>u. posted a' = posted a @ [AccessUnit u] \<and> ab_damaged u"
  using assms submitFragments_marks by (auto simp: flushFragments_def)

lemma marked_more: "posted a1 = posted a @ AccessUnit u # ps \<Longrightarrow> ab_damaged u \<Longrightarrow> posted a' = posted a1 @ qs \<Longrightarrow> marked a a'"
  by (auto simp: marked_def)

lemma addFragmentedNALUnit_marks:
  assumes "addFragmentedNALUnit c b a = Inr (s, a')" "mpNALFragmentInfo a = Some fi" "mAccessUnitDamaged a"
  shows "marked a a'"
proof -
  have self: "marked a a" using assms(2,3) by (simp add: marked_def)
  show ?thesis
  proof (cases "int (length (ab_data b)) < nc_fuMin c")
    case True
    then have "a' = a" using assms(1) by (auto simp: addFragmentedNALUnit_def bnd_eq_Inr Let_def)
    then show ?thesis using self by simp
  next
    case False
    let ?x = "\<lambda>ty. if mAccessUnitDamaged a \<and> nc_isI c ty then a\<lparr>mIDamageNum := mIDamageNum a + 1\<rparr> else a"
    define body where "body = (\<lambda>ty flags. if flags AND 0x80 \<noteq> 0 then
              bnd (submitFragments c fi (?x ty)) (\<lambda>a. bnd (appendFragment c flags ty b a) (\<lambda>a. Inr (OK, a)))
            else if ty \<noteq> fi_mNALType fi then Inr (MALFORMED_PACKET, a)
            else bnd (appendFragment c flags ty b a) (\<lambda>a. Inr (OK, a)))"
    have "bnd (nc_fuType c (ab_data b)) (\<lambda>ty. bnd (rd (ab_data b) (nc_fuMin c - 1)) (body ty)) = Inr (s, a')"
      using assms(1) False unfolding body_def addFragmentedNALUnit_def Let_def assms(2) option.case
      by (cases "ab_data b = []") (simp_all add: chk_def)
    then obtain ty where "bnd (rd (ab_data b) (nc_fuMin c - 1)) (body ty) = Inr (s, a')" by (rule bndE)
    then obtain flags where "body ty flags = Inr (s, a')" by (rule bndE)
    then have step: "(if flags AND 0x80 \<noteq> 0 then
              bnd (submitFragments c fi (?x ty)) (\<lambda>a. bnd (appendFragment c flags ty b a) (\<lambda>a. Inr (OK, a)))
            else if ty \<noteq> fi_mNALType fi then Inr (MALFORMED_PACKET, a)
            else bnd (appendFragment c flags ty b a) (\<lambda>a. Inr (OK, a))) = Inr (s, a')"
      unfolding body_def .
    show ?thesis
    proof (cases "flags AND 0x80 = 0")
      case True
      then show ?thesis using step self appendFragment_marks assms(3) by (auto simp: bnd_eq_Inr split: if_splits)
    next
      case False
      then obtain a1 where a1: "submitFragments c fi (?x ty) = Inr a1" "appendFragment c flags ty b a1 = Inr a'"
        using step by (auto simp: bnd_eq_Inr)
      have "posted (?x ty) = posted a" "mAccessUnitDamaged (?x ty)" using assms(3) by simp_all
      then obtain u where "posted a1 = posted a @ [AccessUnit u]" "ab_damaged u"
        using submitFragments_marks [OF a1(1)] by auto
      then show ?thesis using posted_grows(2) [OF a1(2)] by (auto simp: marked_def)
    qed
  qed
qed

lemma processPacket_marks:
  assumes "processPacket c b a = Inr (s, a')" "mpNALFragmentInfo a = Some fi" "mAccessUnitDamaged a"
  shows "marked a a'"
proof -
  have self: "marked a a" using assms(2,3) by (simp add: marked_def)
  have "processPacket c b a = Inr (s, a') \<Longrightarrow> a' = a \<or> addFragmentedNALUnit c b a = Inr (s, a') \<or>
      (\<exists>a1 u. flushFragments c a = Inr a1 \<and> a' = submitAccessUnit c u a1) \<or>
      (\<exists>a1. flushFragments c a = Inr a1 \<and> a' = snd (addSingleTimeAggregationPacket c b a1))"
  proof (cases "ab_data b")
    case (Cons d0 ds)
    assume p: "processPacket c b a = Inr (s, a')"
    show ?thesis
    proof (cases "d0 AND 0x80 = 0")
      case True
      then show ?thesis
        using p Cons unfolding processPacket_def
        by (cases "nc_kind c d0") (auto simp: bnd_eq_Inr addSingleNALUnit_def split_beta)
    next
      case False
      then show ?thesis using p Cons by (simp add: processPacket_def)
    qed
  qed (simp add: processPacket_def)
  then consider "a' = a" | "addFragmentedNALUnit c b a = Inr (s, a')"
    | a1 u where "flushFragments c a = Inr a1" "a' = submitAccessUnit c u a1"
    | a1 where "flushFragments c a = Inr a1" "a' = snd (addSingleTimeAggregationPacket c b a1)"
    using assms(1) by blast
  then show ?thesis
  proof cases
    case 2
    then show ?thesis using addFragmentedNALUnit_marks assms(2,3) by blast
  next
    case 3
    then obtain v where "posted a1 = posted a @ [AccessUnit v]" "ab_damaged v"
      using flushFragments_marks assms(2,3) by blast
    then show ?thesis using 3(2) by (auto simp: marked_def submitAccessUnit_def Let_def)
  next
    case 4
    then obtain v where v: "posted a1 = posted a @ [AccessUnit v]" "ab_damaged v"
      using flushFragments_marks assms(2,3) by blast
    have "\<exists>ps. posted (snd (addSingleTimeAggregationPacket c b a1)) = posted a1 @ ps"
      using stapLoop_posted by (auto simp: addSingleTimeAggregationPacket_def)
    then show ?thesis using 4(2) v by (auto simp: marked_def)
  qed (use self in simp)
qed

lemma register_marks [simp]:
  "posted ((packetLostRegister ^^ n) a) = posted a" "mpNALFragmentInfo ((packetLostRegister ^^ n) a) = mpNALFragmentInfo a"
  "mAccessUnitDamaged ((packetLostRegister ^^ n) a) = (0 < n \<or> mAccessUnitDamaged a)"
  by (induction n) (simp_all add: packetLostRegister_def)

lemma assembleMore_marks:
  assumes "mpNALFragmentInfo a = Some fi" "mAccessUnitDamaged a" "assembleMore c q a = Inr (s, q', a')"
  shows "marked a a'"
proof -
  obtain a0 where add: "addNALUnit c q a = Inr (s, q', a0)"
    and a': "a' = (if s = MALFORMED_PACKET then a0\<lparr>mAccessUnitDamaged := True\<rparr> else a0)"
    using assms(3) by (auto simp: assembleMore_def bnd_eq_Inr)
  have con: "marked x y" if cp: "consumePacket c b r x = Inr (s', r', y)" and x: "mpNALFragmentInfo x = Some fi" "mAccessUnitDamaged x"
    for b r x y s' r'
  proof -
    let ?x = "if nc_timed c then x\<lparr>mLastPacketReceiveTime := (case ab_recv_time b of None \<Rightarrow> 0 | Some t \<Rightarrow> t)\<rparr> else x"
    obtain z where z: "processPacket c b ?x = Inr (s', z)" "y = z\<lparr>mNextExpectedSeqNo := mNextExpectedSeqNo z + 1\<rparr>"
      using cp by (auto simp: consumePacket_def bnd_eq_Inr Let_def)
    have "marked ?x z" by (rule processPacket_marks [OF z(1), of fi]) (use x in auto)
    then show ?thesis using z(2) by (auto simp: marked_def split: if_splits)
  qed
  have self: "marked a a" "marked a ((packetLostRegister ^^ k) a)" for k using assms(1,2) by (simp_all add: marked_def)
  have "a0 = a \<or> (\<exists>k. a0 = (packetLostRegister ^^ k) a) \<or> (\<exists>b r r'. consumePacket c b r a = Inr (s, r', a0)) \<or>
      (\<exists>b r r'. consumePacket c b r (a\<lparr>mNextExpectedSeqNoValid := True, mNextExpectedSeqNo := ab_int32Data b\<rparr>) = Inr (s, r', a0))"
    using add by (auto simp: addNALUnit_def Let_def split: list.splits option.splits if_splits)
  then have "marked a a0"
  proof (elim disjE exE)
    fix b r r'
    assume "consumePacket c b r (a\<lparr>mNextExpectedSeqNoValid := True, mNextExpectedSeqNo := ab_int32Data b\<rparr>) = Inr (s, r', a0)"
    then have "marked (a\<lparr>mNextExpectedSeqNoValid := True, mNextExpectedSeqNo := ab_int32Data b\<rparr>) a0"
      using assms(1,2) by (intro con) auto
    then show ?thesis by (simp add: marked_def)
  qed (use self con assms(1,2) in auto)
  then show ?thesis using a' by (auto simp: marked_def)
qed

text \<open>No packet that is taken changes the count of lost ones, and nothing posted is taken back.\<close>

definition grows :: "NALAssembler \<Rightarrow> NALAssembler \<Rightarrow> bool" where
  "grows a a' \<longleftrightarrow> (\<exists>ps. posted a' = posted a @ ps) \<and> mLostCount a' = mLostCount a"

lemma grows_refl [simp]: "grows a a" by (simp add: grows_def)

lemma grows_trans [trans]: "grows a b \<Longrightarrow> grows b c \<Longrightarrow> grows a c" by (auto simp: grows_def)

lemma grows_update [simp]:
  "grows a (a'\<lparr>mIDamageNum := n\<rparr>) = grows a a'" "grows (a\<lparr>mIDamageNum := n\<rparr>) a' = grows a a'"
  "grows a (a'\<lparr>mAccessUnitDamaged := d\<rparr>) = grows a a'" "grows (a\<lparr>mAccessUnitDamaged := d\<rparr>) a' = grows a a'"
  "grows a (a'\<lparr>mNextExpectedSeqNo := s\<rparr>) = grows a a'" "grows (a\<lparr>mNextExpectedSeqNo := s\<rparr>) a' = grows a a'"
  "grows (a\<lparr>mNextExpectedSeqNoValid := v\<rparr>) a' = grows a a'"
  "grows (a\<lparr>mLastPacketReceiveTime := t\<rparr>) a' = grows a a'"
  "grows a (a'\<lparr>mpNALFragmentInfo := f\<rparr>) = grows a a'"
  "grows a (submitAccessUnit c u a)"
  by (simp_all add: grows_def submitAccessUnit_def Let_def)

lemma submitFragments_grows: "submitFragments c fi a = Inr a' \<Longrightarrow> grows a a'"
  by (auto simp: submitFragments_def bnd_eq_Inr)

lemma flushFragments_grows: "flushFragments c a = Inr a' \<Longrightarrow> grows a a'"
  by (auto simp: flushFragments_def submitFragments_grows split: option.splits)

lemma appendFragment_grows: "appendFragment c flags ty b a = Inr a' \<Longrightarrow> grows a a'"
  by (auto simp: appendFragment_def Let_def split: if_splits dest!: submitFragments_grows)

lemma stapLoop_grows: "grows a (snd (stapLoop c b d a))"
proof (induction c b d a rule: stapLoop.induct)
  case (1 c b h l rest a)
  define n where "n = unat h * 256 + unat l"
  define v where "v = (let u = copyMetas (newABuffer (take n rest)) b in
      setTokens (ab_token b) (if length (drop n rest) > 2 then u\<lparr>ab_M := 0\<rparr> else u))"
  have step: "stapLoop c b (h # l # rest) a =
      (if length rest < n then (False, a) else stapLoop c b (drop n rest) (addSingleNALUnit c v a))"
    unfolding stapLoop.simps Let_def n_def v_def by (rule refl)
  show ?case
  proof (cases "length rest < n")
    case False
    then have "grows (addSingleNALUnit c v a) (snd (stapLoop c b (drop n rest) (addSingleNALUnit c v a)))"
      unfolding n_def v_def Let_def by (intro "1.IH") simp_all
    then show ?thesis
      unfolding step using False by (simp add: grows_trans [OF grows_update(10)] addSingleNALUnit_def)
  qed (simp only: step if_True snd_conv grows_refl)
qed simp_all

lemma addFragmentedNALUnit_grows:
  assumes "addFragmentedNALUnit c b a = Inr (s, a')"
  shows "grows a a'"
proof (cases "mpNALFragmentInfo a")
  case None
  then show ?thesis using assms
    by (auto simp: addFragmentedNALUnit_def bnd_eq_Inr Let_def split: if_splits dest!: appendFragment_grows)
next
  case (Some fi)
  then show ?thesis using assms
    by (auto simp: addFragmentedNALUnit_def bnd_eq_Inr Let_def split: if_split_asm
        dest!: appendFragment_grows submitFragments_grows intro: grows_trans)
qed

lemma processPacket_grows: "processPacket c b a = Inr (s, a') \<Longrightarrow> grows a a'"
  by (auto simp: processPacket_def bnd_eq_Inr addSingleNALUnit_def addSingleTimeAggregationPacket_def split_beta
      split: list.splits if_splits nal_kind.splits
      dest!: addFragmentedNALUnit_grows flushFragments_grows intro: grows_trans stapLoop_grows)

lemma consumePacket_grows: "consumePacket c b q a = Inr (s, q', a') \<Longrightarrow> grows a a'"
  by (auto simp: consumePacket_def bnd_eq_Inr Let_def split: if_splits dest!: processPacket_grows)

lemma register_count [simp]: "mLostCount ((packetLostRegister ^^ n) a) = mLostCount a + int n"
  by (induction n) (simp_all add: packetLostRegister_def)

lemma assembleMore_grows:
  assumes "assembleMore c q a = Inr (s, q', a')"
  shows "grows a a' \<or> (\<exists>n. 0 < n \<and> a' = (packetLostRegister ^^ n) a)"
proof -
  obtain a0 where add: "addNALUnit c q a = Inr (s, q', a0)"
    and a': "a' = (if s = MALFORMED_PACKET then a0\<lparr>mAccessUnitDamaged := True\<rparr> else a0)"
    using assms by (auto simp: assembleMore_def bnd_eq_Inr)
  have "grows a a0 \<or> (s \<noteq> MALFORMED_PACKET \<and> (\<exists>n. a0 = (packetLostRegister ^^ n) a))"
    using add by (auto simp: addNALUnit_def Let_def split: list.splits option.splits if_splits dest!: consumePacket_grows)
  then show ?thesis
  proof (elim disjE conjE exE)
    fix n assume "s \<noteq> MALFORMED_PACKET" "a0 = (packetLostRegister ^^ n) a"
    then show ?thesis using a' by (cases n) auto
  qed (simp add: a')
qed

text \<open>
  The steps of an assembler while packets come: it takes a packet from whatever the queue holds, notes a packet as lost,
  sets its timer or reports the losses. A source that receives packets only makes such steps; starting, stopping and
  resuming are others.
\<close>

inductive asm_step :: "nal_codec \<Rightarrow> NALAssembler \<Rightarrow> NALAssembler \<Rightarrow> bool" for c where
  take_packet: "assembleMore c q a = Inr (s, q', a') \<Longrightarrow> asm_step c a a'"
| lose: "asm_step c a (packetLostRegister a)"
| set_timer: "asm_step c a (a\<lparr>mFirstFailureTimeUs := m\<rparr>)"
| report: "packetLost clk a t = Inr (a', t') \<Longrightarrow> asm_step c a a'"

lemma asm_steps:
  "(asm_step c)\<^sup>*\<^sup>* x a \<Longrightarrow> (asm_step c)\<^sup>*\<^sup>* x (a\<lparr>mFirstFailureTimeUs := m\<rparr>)"
  "(asm_step c)\<^sup>*\<^sup>* x a \<Longrightarrow> (asm_step c)\<^sup>*\<^sup>* x (packetLostRegister a)"
  by (auto intro: rtranclp.rtrancl_into_rtrancl asm_step.set_timer asm_step.lose)

lemma loop_steps:
  "onPacketReceivedLoop c clk q a t = Inr (q', a', t') \<Longrightarrow> (asm_step c)\<^sup>*\<^sup>* a a'"
proof (induction c clk q a t rule: onPacketReceivedLoop.induct)
  case (1 c clk q a t)
  from 1(4) obtain s q1 a1 where more: "assembleMore c q a = Inr (s, q1, a1)"
    by (subst (asm) onPacketReceivedLoop.simps) (auto simp: bnd_eq_Inr)
  then have a1: "(asm_step c)\<^sup>*\<^sup>* a a1" by (intro r_into_rtranclp asm_step.take_packet)
  note IH = "1.IH" [OF more refl refl]
  let ?lost = "packetLostRegister a1\<lparr>mFirstFailureTimeUs := - 1\<rparr>"
  have lost: "(asm_step c)\<^sup>*\<^sup>* a ?lost" using a1 by (intro asm_steps)
  have step: "onPacketReceivedLoop c clk q a t =
      (if s = WRONG_SEQUENCE_NUMBER then
         (if mFirstFailureTimeUs a1 \<ge> 0 then
            (if clk t - mFirstFailureTimeUs a1 > 5000 then onPacketReceivedLoop c clk q1 ?lost (t + 1) else Inr (q1, a1, t + 1))
          else Inr (q1, a1\<lparr>mFirstFailureTimeUs := clk t\<rparr>, t + 1))
       else if s = LARGE_SEQUENCE_GAP then onPacketReceivedLoop c clk q1 ?lost t
       else if s = NOT_ENOUGH_DATA then Inr (q1, a1\<lparr>mFirstFailureTimeUs := - 1\<rparr>, t)
       else onPacketReceivedLoop c clk q1 (a1\<lparr>mFirstFailureTimeUs := - 1\<rparr>) t)"
    by (subst onPacketReceivedLoop.simps) (simp add: more)
  show ?case
    using 1(4) IH a1 lost asm_steps(1) [OF a1] unfolding step
    by (auto split: if_split_asm intro: rtranclp_trans)
qed

lemma receive_steps:
  assumes "processRTPPacket clk b s = Inr s'" "mAssembler s = Some a"
  shows "\<exists>a'. mAssembler s' = Some a' \<and> (asm_step (mCodec s))\<^sup>*\<^sup>* a a'"
proof -
  obtain r s1 where q: "queuePacket clk b s = (r, s1)" by (cases "queuePacket clk b s")
  then have s1: "mAssembler s1 = Some a" "mCodec s1 = mCodec s"
    using assms(2) by (auto simp: queuePacket_def Let_def split: if_splits option.splits)
  show ?thesis
  proof (cases r)
    case True
    then obtain q' a' t' where r: "onPacketReceived (mCodec s) clk (mQueue s1) a (tick s1) = Inr (q', a', t')"
      and s': "mAssembler s' = Some a'"
      using assms(1) by (auto simp: processRTPPacket_def q s1 bnd_eq_Inr)
    then obtain q2 a2 t2 t3 where "onPacketReceivedLoop (mCodec s) clk (mQueue s1) a (tick s1) = Inr (q2, a2, t2)"
      "packetLost clk a2 t2 = Inr (a', t3)"
      by (auto simp: onPacketReceived_def bnd_eq_Inr)
    from loop_steps [OF this(1)] asm_step.report [OF this(2)] show ?thesis
      using s' by (meson rtranclp.rtrancl_into_rtrancl)
  qed (use assms(1) q s1 in \<open>auto simp: processRTPPacket_def\<close>)
qed

text \<open>A unit is under assembly, known to be damaged, and no unit was posted since; or the next one was posted as damaged.\<close>

definition unitMarked :: "NALAssembler \<Rightarrow> NALAssembler \<Rightarrow> bool" where
  "unitMarked a a' \<longleftrightarrow>
     (unitsOf (posted a') = unitsOf (posted a) \<and> mpNALFragmentInfo a' \<noteq> None \<and> mAccessUnitDamaged a') \<or>
     (\<exists>d m us. unitsOf (posted a') = unitsOf (posted a) @ (d, m, True) # us)"

lemma marked_unit: "marked a a' \<Longrightarrow> unitMarked a a'"
  by (auto simp: marked_def unitMarked_def simp del: split_paired_Ex)

lemma asm_step_loses:
  assumes "asm_step c a a1" "mLostCount a1 \<noteq> mLostCount a"
  shows "posted a1 = posted a \<and> mpNALFragmentInfo a1 = mpNALFragmentInfo a \<and> mAccessUnitDamaged a1"
  using assms
proof (induction rule: asm_step.induct)
  case (take_packet q a s q' a')
  then obtain n where "0 < n" "a' = (packetLostRegister ^^ n) a"
    using assembleMore_grows [of c q a s q' a'] by (auto simp: grows_def)
  then show ?case by simp
next
  case (report clk a t a' t')
  then show ?case by (auto simp: packetLost_def bnd_eq_Inr Let_def split: if_splits)
qed (simp_all add: packetLostRegister_def)

lemma asm_step_units:
  assumes "asm_step c a a'"
  shows "\<exists>us. unitsOf (posted a') = unitsOf (posted a) @ us"
    "mpNALFragmentInfo a \<noteq> None \<Longrightarrow> mAccessUnitDamaged a \<Longrightarrow> unitMarked a a'"
  using assms
proof (induction rule: asm_step.induct)
  case (take_packet q a s q' a')
  { case 1
    have "\<exists>ps. posted a' = posted a @ ps"
      using assembleMore_grows [OF take_packet] by (auto simp: grows_def)
    then show ?case by (auto simp: unitsOf_append)
  next
    case 2
    then show ?case using assembleMore_marks [OF _ _ take_packet] by (auto intro: marked_unit) }
next
  case (report clk a t a' t')
  then have "unitsOf (posted a') = unitsOf (posted a) \<and> mpNALFragmentInfo a' = mpNALFragmentInfo a \<and>
      mAccessUnitDamaged a' = mAccessUnitDamaged a"
    by (auto simp: packetLost_def bnd_eq_Inr Let_def split: if_splits)
  then show "\<exists>us. unitsOf (posted a') = unitsOf (posted a) @ us"
    "mpNALFragmentInfo a \<noteq> None \<Longrightarrow> mAccessUnitDamaged a \<Longrightarrow> unitMarked a a'"
    by (simp_all add: unitMarked_def)
qed (simp_all add: packetLostRegister_def unitMarked_def)

lemma unitMarked_steps:
  assumes "(asm_step c)\<^sup>*\<^sup>* a1 a2" "mpNALFragmentInfo a1 \<noteq> None" "mAccessUnitDamaged a1"
  shows "unitMarked a1 a2"
  using assms(1)
proof (induction rule: rtranclp_induct)
  case base
  then show ?case using assms(2,3) by (simp add: unitMarked_def)
next
  case (step y z)
  from step(3) show ?case unfolding unitMarked_def [of a1 y]
  proof (elim disjE conjE exE)
    assume y: "unitsOf (posted y) = unitsOf (posted a1)" "mpNALFragmentInfo y \<noteq> None" "mAccessUnitDamaged y"
    from asm_step_units(2) [OF step(2) y(2,3)] show ?thesis by (simp add: unitMarked_def y(1))
  next
    fix d m us assume "unitsOf (posted y) = unitsOf (posted a1) @ (d, m, True) # us"
    moreover obtain vs where "unitsOf (posted z) = unitsOf (posted y) @ vs" using asm_step_units(1) [OF step(2)] by blast
    ultimately show ?thesis by (auto simp: unitMarked_def simp del: split_paired_Ex)
  qed
qed

text \<open>C23. A packet that is lost in the middle of a fragmented unit marks the unit, whatever comes after it. Receiving
  packets only makes steps of \<open>asm_step\<close>. If one of them counts a packet as lost while fragments are held, then
  after any further such steps (fragments, the last one, the first one of another unit, single units, aggregation
  packets, malformed packets, more losses, reports, over any number of received packets) either no unit was
  posted since and the fragments are still held as damaged, or the next unit posted, the one
  that was under assembly, has \<open>damaged\<close> set. Only a resumption, which is no such step, forgets the loss
  (\<open>resume_mixes_units\<close>).\<close>

theorem lost_packet_marks_unit:
  assumes "asm_step c a a1" "mLostCount a1 \<noteq> mLostCount a" "mpNALFragmentInfo a \<noteq> None" "(asm_step c)\<^sup>*\<^sup>* a1 a2"
    and "processRTPPacket clk b s = Inr s'" "mAssembler s = Some x"
  shows "((unitsOf (posted a2) = unitsOf (posted a) \<and> mpNALFragmentInfo a2 \<noteq> None \<and> mAccessUnitDamaged a2) \<or>
      (\<exists>d m us. unitsOf (posted a2) = unitsOf (posted a) @ (d, m, True) # us)) \<and>
    (\<exists>x'. mAssembler s' = Some x' \<and> (asm_step (mCodec s))\<^sup>*\<^sup>* x x')"
proof -
  have "unitMarked a1 a2" "posted a1 = posted a"
    using asm_step_loses [OF assms(1,2)] unitMarked_steps [OF assms(4)] assms(3) by auto
  then show ?thesis using receive_steps [OF assms(5,6)] by (auto simp: unitMarked_def)
qed

definition exFragments :: NALFragMentsInfo where
  "exFragments = newNALFragMentsInfo\<lparr>fi_mNALFragments := [newABuffer [0x7c, 0x85, 9]], fi_mNALSize := 1, fi_mNALType := 5\<rparr>"

definition exHeld :: NALAssembler where
  "exHeld = newNALAssembler\<lparr>mNextExpectedSeqNoValid := True, mNextExpectedSeqNo := 5,
     mpNALFragmentInfo := Some exFragments\<rparr>"

lemma exHeld_ok: "asmOk avcCodec exHeld" "held exHeld = 3" "mpNALFragmentInfo exHeld = Some exFragments"
  "\<not> fi_mIsDamaged exFragments" "fi_mNALType exFragments = 5"
  by (simp_all add: exHeld_def exFragments_def asmOk_def held_def fragWf_def newNALFragMentsInfo_def newABuffer_def payloadOf_def
      bytesOf_def avcCodec_def)

text \<open>The fragment is held, packet 5 is lost, and a single unit arrives as packet 6.\<close>

theorem lost_packet_marks_unit_witness:
  "\<exists>s q' a2. assembleMore avcCodec [(newABuffer [0x41, 7])\<lparr>ab_int32Data := 6\<rparr>] (packetLostRegister exHeld) = Inr (s, q', a2) \<and>
     ((unitsOf (posted a2) = unitsOf (posted exHeld) \<and> mpNALFragmentInfo a2 \<noteq> None \<and> mAccessUnitDamaged a2) \<or>
      (\<exists>d m us. unitsOf (posted a2) = unitsOf (posted exHeld) @ (d, m, True) # us))"
proof -
  let ?b = "(newABuffer [0x41, 7])\<lparr>ab_int32Data := 6\<rparr>"
  have "held (packetLostRegister exHeld) + bytesOf [?b] < 2 ^ 32" by (simp add: exHeld_ok newABuffer_def)
  moreover have "asmOk avcCodec (packetLostRegister exHeld)" by (simp add: exHeld_ok)
  ultimately obtain s q' a2 where r: "assembleMore avcCodec [?b] (packetLostRegister exHeld) = Inr (s, q', a2)"
    using avcR.assembleMore_total [of "packetLostRegister exHeld" "[?b]"] by auto
  have s: "processRTPPacket int ?b (newRTPSource avcCodec True) =
      Inr (snd (queuePacket int ?b (newRTPSource avcCodec True)))"
    by (simp add: processRTPPacket_def queuePacket_def newRTPSource_def Let_def)
  have "mLostCount (packetLostRegister exHeld) \<noteq> mLostCount exHeld" "mpNALFragmentInfo exHeld \<noteq> None"
    by (simp_all add: packetLostRegister_def exHeld_ok)
  note lost = lost_packet_marks_unit [OF asm_step.lose this _ s]
  have "(asm_step avcCodec)\<^sup>*\<^sup>* (packetLostRegister exHeld) a2"
    by (rule r_into_rtranclp) (rule asm_step.take_packet [OF r])
  from lost [OF this, of newNALAssembler] r show ?thesis by (auto simp: newRTPSource_def)
qed

lemma copyFragments_data:
  assumes "copyFragments n bs off e u = Inr v" "0 \<le> n" "\<forall>b \<in> set bs. n \<le> int (length (ab_data b))"
    and "ab_data u = pre @ replicate (length (concat (map (\<lambda>b. drop (nat n) (ab_data b)) bs))) 0" "off = int (length pre)"
  shows "ab_data v = pre @ concat (map (\<lambda>b. drop (nat n) (ab_data b)) bs)"
  using assms
proof (induction bs arbitrary: pre off e u)
  case (Cons b bs)
  let ?ch = "drop (nat n) (ab_data b)" and ?rest = "length (concat (map (\<lambda>b. drop (nat n) (ab_data b)) bs))"
  let ?t = "case ab_recv_time b of None \<Rightarrow> 0 | Some t \<Rightarrow> t"
  let ?u = "if ?t \<le> e then u\<lparr>ab_EarliestPacket := ab_token b\<rparr> else u"
  let ?buf = "(pre @ ?ch) @ replicate ?rest 0"
  let ?v = "if bs = [] then ?u\<lparr>ab_data := ?buf, ab_latestPacekt := ab_token b\<rparr> else ?u\<lparr>ab_data := ?buf\<rparr>"
  have len: "int (length (ab_data b)) - n = int (length ?ch)"
    using Cons.prems(2,3) by (simp add: of_nat_diff nat_le_iff)
  have p: "int (length (take (nat n) (ab_data b))) = n"
    using Cons.prems(2,3) by (simp add: min_absorb2 nat_le_iff)
  have rd: "rd_block (ab_data b) n (int (length ?ch)) = Inr ?ch"
    using rd_block_mid [of "take (nat n) (ab_data b)" ?ch "[]"] unfolding p by simp
  have wr: "wr_block (ab_data ?u) off ?ch = Inr ?buf"
    using Cons.prems(4,5) by (cases "?ch = []") (auto simp: wr_block_def replicate_add [symmetric])
  have "copyFragments n (b # bs) off e u = copyFragments n bs (off + int (length ?ch)) (if ?t \<le> e then ?t else e) ?v"
    unfolding copyFragments.simps Let_def len rd bnd.simps wr by (rule refl)
  with Cons.prems(1) have "copyFragments n bs (off + int (length ?ch)) (if ?t \<le> e then ?t else e) ?v = Inr v" by simp
  from Cons.IH [OF this Cons.prems(2), of "pre @ ?ch"] Cons.prems(3,5) show ?case by simp
qed simp

text \<open>What a reassembled unit consists of: its header, and the octets of every fragment behind the
  headers of the fragment.\<close>

context nal_reassembly
begin

lemma assembleToNAL_data:
  assumes "assembleToNAL c fi = Inr v" "fragWf c fi" "bytesOf (fi_mNALFragments fi) < 2 ^ 32"
  shows "\<exists>h i. nc_reassemble c (ab_data (hd (fi_mNALFragments fi))) = Inr (h, i) \<and>
     ab_data v = h @ concat (map (\<lambda>b. drop (nat (nc_fuMin c)) (ab_data b)) (fi_mNALFragments fi))"
proof -
  let ?q = "fi_mNALFragments fi" and ?body = "concat (map (\<lambda>b. drop (nat (nc_fuMin c)) (ab_data b)) (fi_mNALFragments fi))"
  have q: "?q \<noteq> []" "\<forall>b \<in> set ?q. nc_fuMin c \<le> int (length (ab_data b))" "fi_mNALSize fi = payloadOf c ?q"
    using assms(2) by (simp_all add: fragWf_def)
  obtain h i where h: "nc_reassemble c (ab_data (hd ?q)) = Inr (h, i)" "int (length h) \<le> nc_fuMin c"
    using reads [of "ab_data (hd ?q)"] q(1,2) by auto
  have "payloadOf c q = int (length (concat (map (\<lambda>b. drop (nat (nc_fuMin c)) (ab_data b)) q)))"
    if "\<forall>b \<in> set q. nc_fuMin c \<le> int (length (ab_data b))" for q
    using that fuMin by (induction q) (auto simp: payloadOf_def)
  then have body: "payloadOf c ?q = int (length ?body)" using q(2) by blast
  have p: "payloadOf c ?q + int (length ?q) * nc_fuMin c = int (bytesOf ?q)" "0 \<le> payloadOf c ?q"
    using bytes_payload [OF q(2)] by simp_all
  define k where "k = length h + length ?body"
  have "1 * nc_fuMin c \<le> int (length ?q) * nc_fuMin c"
    using fuMin q(1) by (intro mult_right_mono) (simp_all add: Suc_leI)
  then have total: "take_bit 32 (fi_mNALSize fi + int (length h)) = int k"
    using p h(2) assms(3) q(3) body by (simp add: take_bit_int_eq_self add.commute k_def)
  have wr: "wr_block (replicate k 0) 0 h = Inr (h @ replicate (length ?body) 0)"
    by (intro wr_block_front) (simp add: k_def)
  have rd: "rd ?q 0 = Inr (hd ?q)" using q(1) by (simp add: rd_def hd_conv_nth)
  have "bnd (wr_block (ab_data ((copyMetas ((if fi_mIsDamaged fi then (newABuffer (replicate k 0))\<lparr>ab_damaged := True\<rparr>
                 else newABuffer (replicate k 0))\<lparr>ab_importance := i\<rparr>) (last ?q))\<lparr>ab_FirstPacket := ab_token (hd ?q)\<rparr>)) 0 h) (\<lambda>buf.
       copyFragments (nc_fuMin c) ?q (int (length h)) (case ab_recv_time (hd ?q) of None \<Rightarrow> 0 | Some t \<Rightarrow> t)
         ((copyMetas ((if fi_mIsDamaged fi then (newABuffer (replicate k 0))\<lparr>ab_damaged := True\<rparr>
                 else newABuffer (replicate k 0))\<lparr>ab_importance := i\<rparr>) (last ?q))\<lparr>ab_FirstPacket := ab_token (hd ?q), ab_data := buf\<rparr>)) = Inr v"
    using assms(1) unfolding assembleToNAL_def Let_def by (simp only: rd bnd.simps h(1) prod.case total nat_int)
  moreover have "ab_data ((copyMetas ((if fi_mIsDamaged fi then (newABuffer (replicate k 0))\<lparr>ab_damaged := True\<rparr>
                 else newABuffer (replicate k 0))\<lparr>ab_importance := i\<rparr>) (last ?q))\<lparr>ab_FirstPacket := ab_token (hd ?q)\<rparr>) =
      replicate k 0"
    by (simp add: copyMetas_def newABuffer_def)
  ultimately obtain e and w :: ABuffer where
    "copyFragments (nc_fuMin c) ?q (int (length h)) e w = Inr v" "ab_data w = h @ replicate (length ?body) 0"
    using that by (simp only: wr bnd.simps) simp
  then have "ab_data v = h @ ?body"
    using copyFragments_data [OF _ _ q(2)] fuMin by simp
  then show ?thesis using h(1) by blast
qed

end




section \<open>The padding of the header extension\<close>

text \<open>The search for the end of the padding in the header extension (\<open>while (_data[offset] == 0) offset++\<close>)
  has no bound: on a packet with an orientation element whose payload, and whatever memory follows it,
  is zero, the receiver reads past the end of its buffer.\<close>

theorem cvo_padding_overread:
  assumes "m_extmap_CVO_supported s > 0" "0 < m_extmap_CVO_id s" "m_extmap_CVO_id s < 15"
    and "\<forall>x \<in> set (payload @ ys). x = 0"
  shows "rtpExtension (rtpHeader s accu isLast @ payload @ ys) 12
           (int (length (rtpHeader s accu isLast @ payload))) cvo = Inl OutOfBounds"
proof -
  let ?m = "rtpHeader s accu isLast @ payload @ ys" and ?sz = "int (length (rtpHeader s accu isLast @ payload))"
  note h = header_memory [OF assms(1), of accu isLast "payload @ ys"]
  have all: "takeWhile (\<lambda>b. b = 0) (payload @ ys) = payload @ ys"
    using assms(4) by (simp only: takeWhile_eq_all_conv)
  have skip: "skipZeros ?m 18 = Inl OutOfBounds"
    using skipZeros_two [OF h(8)] assms(1) unfolding all by (simp add: length_rtpHeader length_extHeader)
  have loop: "cvoLoop ?m 16 4 0 cvo = Inl OutOfBounds"
    using h(6,7) cvo_id_bits [OF assms(2,3)] skip by (simp add: cvoLoop.simps [of ?m 16 4 0] Let_def)
  have "(0x90 :: int) AND 0x10 \<noteq> 0" by code_simp
  moreover have "20 \<le> ?sz" using assms(1) by (simp add: length_rtpHeader length_extHeader)
  ultimately show ?thesis
    using h(1-5) loop by (simp add: rtpExtension_def Let_def)
qed

theorem cvo_padding_overread_witness:
  "rtpExtension (rtpHeader exSender exUnit True @ [0, 0] @ [0]) 12
     (int (length (rtpHeader exSender exUnit True @ [0, 0]))) 0 = Inl OutOfBounds"
  by (rule cvo_padding_overread) simp_all

end
