(* ===== verification/RtcpCompose.thy ===== *)
theory RtcpCompose
  imports RtpPacket
begin

text \<open>
  The RTCP packets that the controller of a video call sends, \<open>rtp/src/RTPController.cpp\<close>: the
  part of its state that RTCP uses, the writers of the parts of a compound packet (\<open>addSDES\<close>,
  \<open>addFIR\<close>, \<open>addSLI\<close>, \<open>addPLI\<close>, \<open>addNACK\<close>, \<open>addTMMBR\<close>, \<open>addTMMBN\<close>) and \<open>makeAndsendRTCP\<close>, which
  puts them behind a sender or receiver report.

  \<^item> The sender and the receiver of the call run on loopers of their own; what the controller
    posts to them is the list \<open>rtcpEvents\<close>. What it asks of them while it builds a packet is an
    argument (\<open>rtcp_env\<close>): the number of packets sent, the 20 octets of sender information and
    the 24 octets of a report block, which a binary library computes, and the new limit of
    \<open>getNewTMMBRInfo\<close>.
  \<^item> Following a null pointer is the fault \<open>OutOfBounds\<close>.
\<close>

section \<open>The controller\<close>

datatype rtcp_mode = IMMEDIATE_MODE | EARLY_MODE | REGULAR_MODE

definition kKeyFIR :: "32 word" where "kKeyFIR = 0x01"
definition kKeySLI :: "32 word" where "kKeySLI = 0x02"
definition kKeyTMMBR :: "32 word" where "kKeyTMMBR = 0x04"
definition kKeyTMMBN :: "32 word" where "kKeyTMMBN = 0x08"
definition kKeyPLI :: "32 word" where "kKeyPLI = 0x10"
definition kKeyGNACK :: "32 word" where "kKeyGNACK = 0x20"

definition IMSMA_VIDEO_TRACK :: "32 word" where "IMSMA_VIDEO_TRACK = 0x01"
definition IMSMA_RTP_UPLINK :: "32 word" where "IMSMA_RTP_UPLINK = 0x01"
definition IMSMA_RTP_DOWNLINK :: "32 word" where "IMSMA_RTP_DOWNLINK = 0x02"
definition IMSMA_RTP_UP_DOWN_LINK :: "32 word" where
  "IMSMA_RTP_UP_DOWN_LINK = IMSMA_RTP_UPLINK OR IMSMA_RTP_DOWNLINK"

text \<open>
  The messages of the controller to its own looper; those to the sender (\<open>processReportBlock\<close>,
  \<open>processFIR\<close>, \<open>processGenericNACKFB\<close>, \<open>processTMMBR\<close>), the receiver (\<open>processSenderInfo\<close>,
  \<open>processTMMBN\<close>), the application (\<open>kWhatPLI\<close>, \<open>kWhatSLI\<close>, \<open>kWhatDropCall\<close>), and the calls that
  start and stop the two.
\<close>

datatype ctl_message = SendRTCP int | RTCPTimer

datatype rtcp_event =
    ProcessReportBlock "byte list" bool
  | ProcessSenderInfo "byte list" "32 word"
  | ProcessFIR byte
  | ProcessGenericNACK "byte list"
  | ProcessTMMBR "byte list"
  | ProcessTMMBN "byte list" "32 word"
  | NotifyPLI
  | NotifySLI "byte list"
  | NotifyDropCall
  | SenderStart | SenderStop
  | ReceiverAddStream | ReceiverRemoveStream | ReceiverStart | ReceiverStop

record RTPController =
  ctl_mSSRC :: "32 word"
  mVideoPeerSSRC_set :: bool
  mVideoPeerSSRC :: "32 word"
  ctl_mMTUSize :: int
  mVideoRTPSender_get :: bool
  mRTPReceiver_get :: bool
  mVideoRTCPSocketWrapper_get :: bool
  mActiveTrack :: "32 word"
  mAddedTrack :: "32 word"
  mVideoActivePath :: "32 word"
  mVideoAddedPath :: "32 word"
  mCName :: "byte list"
  mRTCPScheduleTimeUs :: "64 word"
  mRTCPMode :: rtcp_mode
  mFeedBackFlag :: "32 word"
  mLastRTCP_videoRTPSentCount :: "32 word"
  m_Trr_interval :: "64 word"
  m_AllowEarlyRtcp :: bool
  mRTCP_tp :: "64 word"
  m_Trr_last :: "64 word"
  m_avg_rtcp_size :: "32 word"
  mStartedRTCPSchedule :: bool
  mVideoSendRTCPGeneration :: int
  mFIRLastSeqNum :: byte
  mSliBuffer :: "byte list option"
  mGenericNACKBuffer :: "byte list option"
  mTMMBRBuffer :: "byte list option"
  m_isWaitingTMMBN :: bool
  mTMMBNBuffer :: "byte list option"
  mSupportTMMBR :: bool
  rtcp_fb_type :: "(int \<times> int) list"
  rtcp_sender_bandwidth :: "64 word"
  rtcp_receiver_bandwidth :: "64 word"
  remote_rtcp_port :: "32 word"
  mHandoverState :: int
  mRTCPTimer :: bool
  mReceiveRTCPPacket :: bool
  mNoRTPFlag :: bool
  mRTCPTimerInterval :: "32 word"
  mNoRTCPCount :: "32 word"
  ctl_mOperatorID :: "32 word"
  ctlLooper :: "ctl_message list"
  rtcpEvents :: "rtcp_event list"
  rtcpWire :: "byte list list"

definition newRTPController :: "32 word \<Rightarrow> byte list \<Rightarrow> 32 word \<Rightarrow> RTPController" where
  "newRTPController ssrc cname operatorID =
     \<lparr> ctl_mSSRC = ssrc, mVideoPeerSSRC_set = False, mVideoPeerSSRC = 0,
       ctl_mMTUSize = imsma_rtp_MTU_size, mVideoRTPSender_get = False, mRTPReceiver_get = False,
       mVideoRTCPSocketWrapper_get = False, mActiveTrack = 0, mAddedTrack = 0,
       mVideoActivePath = 0, mVideoAddedPath = 0, mCName = cname,
       mRTCPScheduleTimeUs = 0, mRTCPMode = REGULAR_MODE, mFeedBackFlag = 0,
       mLastRTCP_videoRTPSentCount = 0, m_Trr_interval = 1000000, m_AllowEarlyRtcp = True,
       mRTCP_tp = 0, m_Trr_last = 0, m_avg_rtcp_size = 52, mStartedRTCPSchedule = False,
       mVideoSendRTCPGeneration = 0, mFIRLastSeqNum = 0, mSliBuffer = None,
       mGenericNACKBuffer = None, mTMMBRBuffer = None, m_isWaitingTMMBN = False,
       mTMMBNBuffer = None, mSupportTMMBR = False, rtcp_fb_type = [], rtcp_sender_bandwidth = 0,
       rtcp_receiver_bandwidth = 0, remote_rtcp_port = 0, mHandoverState = 0, mRTCPTimer = False,
       mReceiveRTCPPacket = False, mNoRTPFlag = False, mRTCPTimerInterval = 20, mNoRTCPCount = 0,
       ctl_mOperatorID = operatorID, ctlLooper = [], rtcpEvents = [], rtcpWire = [] \<rparr>"

record rtcp_env =
  env_RTPSentCount :: "32 word"
  env_senderInfo :: "byte list"
  env_reportBlock :: "byte list option"
  env_newTMMBR :: "byte list option"

section \<open>The buffer of a packet\<close>

text \<open>
  The memory of the buffer has \<open>capacity()\<close> octets, the first \<open>size()\<close> of which are the packet.
  Every writer puts its octets at \<open>data() + size()\<close> and extends the range.
\<close>

record rtcp_buffer =
  rb_mem :: "byte list"
  rb_size :: int

definition newRtcpBuffer :: "int \<Rightarrow> rtcp_buffer" where
  "newRtcpBuffer n = \<lparr> rb_mem = replicate (nat n) 0, rb_size = 0 \<rparr>"

abbreviation capacity :: "rtcp_buffer \<Rightarrow> int" where
  "capacity b \<equiv> int (length (rb_mem b))"

definition rbAppend :: "byte list \<Rightarrow> rtcp_buffer \<Rightarrow> rtcp_buffer res" where
  "rbAppend xs b =
     bnd (wr_block (rb_mem b) (rb_size b) xs) (\<lambda>mem.
     Inr (b\<lparr>rb_mem := mem, rb_size := rb_size b + int (length xs)\<rparr>))"

text \<open>\<open>data[i] = x\<close> with \<open>data\<close> the start of the packet.\<close>

definition rbSet :: "int \<Rightarrow> byte \<Rightarrow> rtcp_buffer \<Rightarrow> rtcp_buffer res" where
  "rbSet i x b = bnd (wr (rb_mem b) i x) (\<lambda>mem. Inr (b\<lparr>rb_mem := mem\<rparr>))"

section \<open>The parts of a compound packet\<close>

definition addSDES :: "RTPController \<Rightarrow> rtcp_buffer \<Rightarrow> rtcp_buffer res" where
  "addSDES c b =
     (let len = int (length (mCName c)); size = (len + 1 + 2 + 8 + 3) AND - 4 in
      if rb_size b + size > capacity b then Inr b
      else
        let numWords = size div 4 - 1 in
        rbAppend ([0x80 OR 1, 202, word_of_int (drop_bit 8 numWords), word_of_int (numWords AND 0xff)] @
                  be32 (ctl_mSSRC c) @ [1, word_of_int len] @ mCName c @
                  replicate (nat (size - (10 + len))) 0) b)"

text \<open>The first 12 octets of a feedback message; \<open>media\<close> is zero where the target is in the FCI.\<close>

definition fbHeader :: "byte \<Rightarrow> byte \<Rightarrow> int \<Rightarrow> 32 word \<Rightarrow> 32 word \<Rightarrow> byte list" where
  "fbHeader FMT pt len ssrc media =
     [0x80 OR FMT, pt, word_of_int (drop_bit 8 len AND 0x00ff), word_of_int (len AND 0x00ff)] @
     be32 ssrc @ be32 media"

definition clearFlag :: "32 word \<Rightarrow> RTPController \<Rightarrow> RTPController" where
  "clearFlag k c = c\<lparr>mFeedBackFlag := mFeedBackFlag c AND NOT k\<rparr>"

definition peerKnown :: "RTPController \<Rightarrow> bool" where
  "peerKnown c \<longleftrightarrow> mRTPReceiver_get c \<and> mVideoPeerSSRC_set c"

definition addFIR :: "RTPController \<Rightarrow> rtcp_buffer \<Rightarrow> (RTPController \<times> rtcp_buffer) res" where
  "addFIR c b =
     (if rb_size b + 20 > capacity b then Inr (c, b)
      else if \<not> peerKnown c then Inr (c, b)
      else
        bnd (rbAppend (fbHeader 4 206 4 (ctl_mSSRC c) 0 @ be32 (mVideoPeerSSRC c) @
                       [mFIRLastSeqNum c, 0, 0, 0]) b) (\<lambda>b.
        Inr (clearFlag kKeyFIR c, b)))"

text \<open>\<open>addSLI\<close> and \<open>addNACK\<close> up to the format and the buffer with the FCI entries of 4 octets.\<close>

definition addFciBuffer :: "byte \<Rightarrow> byte \<Rightarrow> byte list option \<Rightarrow> RTPController \<Rightarrow> rtcp_buffer \<Rightarrow>
    (bool \<times> rtcp_buffer) res" where
  "addFciBuffer FMT pt buffer c b =
     (case buffer of
        None \<Rightarrow> Inl OutOfBounds
      | Some fci \<Rightarrow>
          let n = int (length fci) in
          if rb_size b + 12 + n > capacity b then Inr (False, b)
          else if \<not> peerKnown c then Inr (False, b)
          else
            let fci_num = c_uchar (n div 4); len = c_ushort (2 + fci_num) in
            bnd (rbAppend (fbHeader FMT pt len (ctl_mSSRC c) (mVideoPeerSSRC c) @ fci) b) (\<lambda>b.
            Inr (True, b)))"

definition addSLI :: "RTPController \<Rightarrow> rtcp_buffer \<Rightarrow> (RTPController \<times> rtcp_buffer) res" where
  "addSLI c b =
     bnd (addFciBuffer 2 206 (mSliBuffer c) c b) (\<lambda>(added, b).
     Inr (if added then (clearFlag kKeySLI c)\<lparr>mSliBuffer := None\<rparr> else c, b))"

definition addPLI :: "RTPController \<Rightarrow> rtcp_buffer \<Rightarrow> (RTPController \<times> rtcp_buffer) res" where
  "addPLI c b =
     (if rb_size b + 12 > capacity b then Inr (c, b)
      else if \<not> peerKnown c then Inr (c, b)
      else
        bnd (rbAppend (fbHeader 1 206 2 (ctl_mSSRC c) (mVideoPeerSSRC c)) b) (\<lambda>b.
        Inr (clearFlag kKeyPLI c, b)))"

definition addNACK :: "RTPController \<Rightarrow> rtcp_buffer \<Rightarrow> (RTPController \<times> rtcp_buffer) res" where
  "addNACK c b =
     bnd (addFciBuffer 1 205 (mGenericNACKBuffer c) c b) (\<lambda>(added, b).
     Inr (if added then (clearFlag kKeyGNACK c)\<lparr>mGenericNACKBuffer := None\<rparr> else c, b))"

text \<open>
  \<open>addTMMBR\<close> and \<open>addTMMBN\<close>: the limit is copied behind the header, whatever its length, and the
  range grows by 20 octets.
\<close>

definition rbAppendLimit :: "byte list \<Rightarrow> byte list option \<Rightarrow> rtcp_buffer \<Rightarrow> rtcp_buffer res" where
  "rbAppendLimit hdr buffer b =
     bnd (wr_block (rb_mem b) (rb_size b) hdr) (\<lambda>mem.
     bnd (case buffer of None \<Rightarrow> Inl OutOfBounds
          | Some fci \<Rightarrow> wr_block mem (rb_size b + 16) fci) (\<lambda>mem.
     Inr (b\<lparr>rb_mem := mem, rb_size := rb_size b + 20\<rparr>)))"

definition addTMMBR :: "rtcp_env \<Rightarrow> RTPController \<Rightarrow> rtcp_buffer \<Rightarrow> (RTPController \<times> rtcp_buffer) res" where
  "addTMMBR env c b =
     (if rb_size b + 20 > capacity b then Inr (c, b)
      else if \<not> peerKnown c then Inr (c, b)
      else
        let c = (if m_isWaitingTMMBN c \<and> env_newTMMBR env \<noteq> None
                 then c\<lparr>mTMMBRBuffer := env_newTMMBR env\<rparr> else c) in
        bnd (rbAppendLimit (fbHeader 3 205 4 (ctl_mSSRC c) 0 @ be32 (mVideoPeerSSRC c)) (mTMMBRBuffer c) b) (\<lambda>b.
        Inr (c\<lparr>m_isWaitingTMMBN := True\<rparr>, b)))"

definition addTMMBN :: "RTPController \<Rightarrow> rtcp_buffer \<Rightarrow> (RTPController \<times> rtcp_buffer) res" where
  "addTMMBN c b =
     (if rb_size b + 20 > capacity b then Inr (c, b)
      else
        bnd (rbAppendLimit (fbHeader 4 205 4 (ctl_mSSRC c) 0 @ be32 (ctl_mSSRC c)) (mTMMBNBuffer c) b) (\<lambda>b.
        Inr ((clearFlag kKeyTMMBN c)\<lparr>mTMMBNBuffer := None\<rparr>, b)))"

section \<open>The compound packet\<close>

text \<open>The report: \<open>RTPSender::onAddSenderInfo\<close> and \<open>RTPSource::addReceiverReportBlock\<close> add to it.\<close>

definition addSenderInfo :: "rtcp_env \<Rightarrow> rtcp_buffer \<Rightarrow> rtcp_buffer res" where
  "addSenderInfo env b =
     (if rb_size b + 20 > capacity b then Inr b else rbAppend (env_senderInfo env) b)"

definition addReceiveReportBlocks :: "rtcp_env \<Rightarrow> rtcp_buffer \<Rightarrow> (byte \<times> rtcp_buffer) res" where
  "addReceiveReportBlocks env b =
     (case env_reportBlock env of
        None \<Rightarrow> Inr (0, b)
      | Some blk \<Rightarrow>
          if rb_size b + 24 > capacity b then Inr (0, b)
          else bnd (rbAppend blk b) (\<lambda>b. Inr (1, b)))"

definition addReport :: "rtcp_env \<Rightarrow> RTPController \<Rightarrow> rtcp_buffer \<Rightarrow> (32 word \<times> rtcp_buffer) res" where
  "addReport env c b =
     bnd (rbAppend ([0x80, 201, 0, 0] @ be32 (ctl_mSSRC c)) b) (\<lambda>b.
     let up = mVideoRTPSender_get c \<and> mVideoActivePath c AND IMSMA_RTP_UPLINK \<noteq> 0;
         uRTPSentCount = (if up then env_RTPSentCount env else 0) in
     bnd (if up \<and> uRTPSentCount > mLastRTCP_videoRTPSentCount c
          then bnd (rbSet 1 200 b) (addSenderInfo env) else Inr b) (\<lambda>b.
     bnd (if mRTPReceiver_get c \<and> mVideoActivePath c AND IMSMA_RTP_DOWNLINK \<noteq> 0
          then addReceiveReportBlocks env b else Inr (0, b)) (\<lambda>(RC, b).
     bnd (rd (rb_mem b) 0) (\<lambda>d0.
     bnd (rbSet 0 (d0 OR (RC AND 0x1f)) b) (\<lambda>b.
     let len = c_ushort (rb_size b div 4 - 1) in
     bnd (rbSet 2 (word_of_int (drop_bit 8 len AND 0xff)) b) (\<lambda>b.
     bnd (rbSet 3 (word_of_int (len AND 0xff)) b) (\<lambda>b.
     Inr (uRTPSentCount, b))))))))"

text \<open>The feedback whose flag is set, in the order of the code.\<close>

definition whenFlag :: "32 word \<Rightarrow> 32 word \<Rightarrow> (RTPController \<Rightarrow> rtcp_buffer \<Rightarrow> (RTPController \<times> rtcp_buffer) res) \<Rightarrow>
    RTPController \<times> rtcp_buffer \<Rightarrow> (RTPController \<times> rtcp_buffer) res" where
  "whenFlag flags k add = (\<lambda>(c, b). if flags AND k \<noteq> 0 then add c b else Inr (c, b))"

definition addFeedback :: "rtcp_env \<Rightarrow> RTPController \<Rightarrow> rtcp_buffer \<Rightarrow> (RTPController \<times> rtcp_buffer) res" where
  "addFeedback env c b =
     (let flags = mFeedBackFlag c in
      bnd (if mRTPReceiver_get c \<and> mVideoActivePath c AND IMSMA_RTP_DOWNLINK \<noteq> 0 then
             bnd (whenFlag flags kKeyFIR addFIR (c, b)) (\<lambda>x.
             bnd (whenFlag flags kKeySLI addSLI x) (\<lambda>x.
             bnd (whenFlag flags kKeyPLI addPLI x) (\<lambda>x.
             bnd (whenFlag flags kKeyGNACK addNACK x) (\<lambda>x.
             whenFlag flags kKeyTMMBR (addTMMBR env) x))))
           else Inr (c, b))
          (whenFlag flags kKeyTMMBN addTMMBN))"

text \<open>The running average of the size of RTCP packets.\<close>

definition avgRtcpSize :: "int \<Rightarrow> 32 word \<Rightarrow> 32 word" where
  "avgRtcpSize rtcp_size avg = word_of_int (rtcp_size div 16) + (15 * avg) div 16"

definition makeAndsendRTCP :: "rtcp_env \<Rightarrow> RTPController \<Rightarrow> RTPController res" where
  "makeAndsendRTCP env c =
     bnd (addReport env c (newRtcpBuffer (ctl_mMTUSize c))) (\<lambda>(uRTPSentCount, b).
     bnd (addSDES c b) (\<lambda>b.
     bnd (addFeedback env c b) (\<lambda>(c, b).
     bnd (rd_block (rb_mem b) 0 (rb_size b)) (\<lambda>packet.
     Inr (c\<lparr>mLastRTCP_videoRTPSentCount := uRTPSentCount,
            m_avg_rtcp_size := avgRtcpSize (rb_size b) (m_avg_rtcp_size c),
            rtcpWire := (if mVideoRTCPSocketWrapper_get c then rtcpWire c @ [packet] else rtcpWire c)\<rparr>)))))"

end
