(* ===== verification/RtcpParse.thy ===== *)
theory RtcpParse
  imports RtcpCompose RtpReceiver
begin

text \<open>
  The RTCP packets that the controller receives, \<open>rtp/src/RTPController.cpp\<close>: \<open>scanTMMBR\<close>, the
  loop of \<open>queueRTCPPacket\<close> over the parts of a compound packet, and the readers of the feedback
  messages (\<open>onReceiveFIR\<close>, \<open>onReceivePLI\<close>, \<open>onReceiveSLI\<close>, \<open>onReceiveGenericNACK\<close>,
  \<open>onReceiveTMMBN\<close>, \<open>onReceiveTMMBR\<close>).

  A part is the octets from \<open>off\<close> on, \<open>len\<close> of them; a feedback message is handed on as a buffer
  over the same memory, so reads past its end go into the memory that follows.
\<close>

section \<open>The loop over the parts\<close>

text \<open>\<open>(u16at(&data[2]) + 1) * 4\<close>.\<close>

definition partLength :: "byte list \<Rightarrow> int \<Rightarrow> int res" where
  "partLength mem off = bnd (u16at mem (off + 2)) (\<lambda>w. Inr ((uint w + 1) * 4))"

lemma partLength_range: "partLength mem off = Inr l \<Longrightarrow> 4 \<le> l"
  by (auto simp: partLength_def bnd_eq_Inr)

function scanTMMBR :: "byte list \<Rightarrow> int \<Rightarrow> int \<Rightarrow> bool res" where
  "scanTMMBR mem sz off =
     (if off < sz then
        bnd (partLength mem off) (\<lambda>len.
        if sz - off < len then Inr False
        else
          bnd (rd mem (off + 1)) (\<lambda>pt.
          bnd (if pt = 205 then bnd (rd mem off) (\<lambda>d0. Inr (d0 AND 0x1F = 3)) else Inr False) (\<lambda>found.
          if found then Inr True else scanTMMBR mem sz (off + len))))
      else Inr False)"
  by pat_completeness auto

termination
  by (relation "measure (\<lambda>(mem, sz, off). nat (sz - off))") (auto dest: partLength_range)

declare scanTMMBR.simps [simp del]

section \<open>Report blocks\<close>

definition postEvent :: "rtcp_event \<Rightarrow> RTPController \<Rightarrow> RTPController" where
  "postEvent e c = c\<lparr>rtcpEvents := rtcpEvents c @ [e]\<rparr>"

text \<open>
  The loop over the report blocks of a receiver report (\<open>hdr = 8\<close>) or sender report (\<open>hdr = 28\<close>).
\<close>

fun reportLoop :: "byte list \<Rightarrow> int \<Rightarrow> int \<Rightarrow> int \<Rightarrow> bool \<Rightarrow> int \<Rightarrow> nat \<Rightarrow> int \<Rightarrow> RTPController \<Rightarrow> RTPController res" where
  "reportLoop mem off len hdr contain_TMMBR trackIndex 0 rp_offset c = Inr c"
| "reportLoop mem off len hdr contain_TMMBR trackIndex (Suc n) rp_offset c =
     (if hdr + rp_offset \<ge> len then Inr c
      else
        let blk = off + hdr + rp_offset in
        bnd (u32at mem blk) (\<lambda>uSSRC.
        bnd (if ctl_mSSRC c = uSSRC then
               bnd (rd_block mem (blk + 4) 20) (\<lambda>d.
               Inr (if trackIndex = IMSMA_RTP_VIDEO \<and> mVideoRTPSender_get c
                    then postEvent (ProcessReportBlock d contain_TMMBR) c else c))
             else Inr c)
            (reportLoop mem off len hdr contain_TMMBR trackIndex n (rp_offset + 24))))"

section \<open>Feedback messages\<close>

text \<open>The test of the format and the packet type at the start of every reader.\<close>

definition isFeedback :: "byte \<Rightarrow> byte \<Rightarrow> byte list \<Rightarrow> int \<Rightarrow> bool res" where
  "isFeedback FMT pt mem off =
     bnd (rd mem off) (\<lambda>d0. bnd (rd mem (off + 1)) (\<lambda>d1. Inr (d0 AND 0x1F = FMT \<and> d1 = pt)))"

function firLoop :: "byte list \<Rightarrow> int \<Rightarrow> int \<Rightarrow> int \<Rightarrow> RTPController \<Rightarrow> RTPController res" where
  "firLoop mem off len offset c =
     (if offset < len then
        bnd (u32at mem (off + offset)) (\<lambda>ssrc.
        if ssrc = ctl_mSSRC c then
          bnd (rd mem (off + offset + 4)) (\<lambda>seqNum.
          Inr (if mVideoRTPSender_get c then postEvent (ProcessFIR seqNum) c else c))
        else firLoop mem off len (offset + 8) c)
      else Inr c)"
  by pat_completeness auto

termination
  by (relation "measure (\<lambda>(mem, off, len, offset, c). nat (len - offset))") auto

declare firLoop.simps [simp del]

definition onReceiveFIR :: "byte list \<Rightarrow> int \<Rightarrow> int \<Rightarrow> RTPController \<Rightarrow> RTPController res" where
  "onReceiveFIR mem off len c =
     bnd (isFeedback 4 206 mem off) (\<lambda>ok. if ok then firLoop mem off len 12 c else Inr c)"

definition onReceivePLI :: "byte list \<Rightarrow> int \<Rightarrow> int \<Rightarrow> RTPController \<Rightarrow> RTPController res" where
  "onReceivePLI mem off len c =
     (if len \<noteq> 12 then Inr c
      else
        bnd (isFeedback 1 206 mem off) (\<lambda>ok.
        if ok then bnd (u32at mem (off + 8)) (\<lambda>ssrc. Inr (postEvent NotifyPLI c)) else Inr c))"

definition onReceiveSLI :: "byte list \<Rightarrow> int \<Rightarrow> int \<Rightarrow> RTPController \<Rightarrow> RTPController res" where
  "onReceiveSLI mem off len c =
     (if len < 16 then Inr c
      else
        bnd (isFeedback 2 206 mem off) (\<lambda>ok.
        if ok then
          bnd (u32at mem (off + 8)) (\<lambda>ssrc.
          if ssrc = ctl_mSSRC c
          then bnd (rd_block mem (off + 12) (len - 12)) (\<lambda>sli. Inr (postEvent (NotifySLI sli) c))
          else Inr c)
        else Inr c))"

definition onReceiveGenericNACK :: "byte list \<Rightarrow> int \<Rightarrow> int \<Rightarrow> RTPController \<Rightarrow> RTPController res" where
  "onReceiveGenericNACK mem off len c =
     (if len < 16 then Inr c
      else
        bnd (isFeedback 1 205 mem off) (\<lambda>ok.
        if ok then
          bnd (u32at mem (off + 8)) (\<lambda>ssrc.
          if ssrc = ctl_mSSRC c
          then bnd (rd_block mem (off + 12) (len - 12)) (\<lambda>fcis.
               Inr (if mVideoRTPSender_get c then postEvent (ProcessGenericNACK fcis) c else c))
          else Inr c)
        else Inr c))"

definition onReceiveTMMBN :: "byte list \<Rightarrow> int \<Rightarrow> int \<Rightarrow> RTPController \<Rightarrow> RTPController res" where
  "onReceiveTMMBN mem off len c =
     (if len < 20 then Inr c
      else
        bnd (isFeedback 4 205 mem off) (\<lambda>ok.
        if ok then
          bnd (u32at mem (off + 12)) (\<lambda>ssrc.
          bnd (rd_block mem (off + 16) 4) (\<lambda>fci.
          let c = clearFlag kKeyTMMBR c;
              c = (if mRTPReceiver_get c then postEvent (ProcessTMMBN fci ssrc) c else c) in
          Inr (c\<lparr>m_isWaitingTMMBN := False\<rparr>)))
        else Inr c))"

definition onReceiveTMMBR :: "byte list \<Rightarrow> int \<Rightarrow> int \<Rightarrow> RTPController \<Rightarrow> RTPController res" where
  "onReceiveTMMBR mem off len c =
     (if len < 20 then Inr c
      else
        bnd (isFeedback 3 205 mem off) (\<lambda>ok.
        if ok then
          bnd (u32at mem (off + 12)) (\<lambda>ssrc.
          bnd (rd_block mem (off + 16) 4) (\<lambda>fci.
          Inr (if mVideoRTPSender_get c then postEvent (ProcessTMMBR fci) c else c)))
        else Inr c))"

section \<open>A received packet\<close>

text \<open>One part of the packet, by its payload type.\<close>

definition rtcpPart :: "byte list \<Rightarrow> int \<Rightarrow> int \<Rightarrow> bool \<Rightarrow> int \<Rightarrow> RTPController \<Rightarrow> RTPController res" where
  "rtcpPart mem off len contain_TMMBR trackIndex c =
     bnd (rd mem (off + 1)) (\<lambda>pt.
     bnd (rd mem off) (\<lambda>d0.
     let RC = unat (d0 AND 0x1F); FMT = d0 AND 0x1F in
     if pt = 201 then reportLoop mem off len 8 contain_TMMBR trackIndex RC 0 c
     else if pt = 200 then
       bnd (u32at mem (off + 4)) (\<lambda>uSSRC.
       bnd (rd_block mem (off + 8) 20) (\<lambda>senderInfo.
       reportLoop mem off len 28 contain_TMMBR trackIndex RC 0
         (if mRTPReceiver_get c then postEvent (ProcessSenderInfo senderInfo uSSRC) c else c)))
     else if pt = 206 then
       (if FMT = 1 then onReceivePLI mem off len c
        else if FMT = 2 then onReceiveSLI mem off len c
        else if FMT = 4 then onReceiveFIR mem off len c
        else Inr c)
     else if pt = 205 then
       (if FMT = 1 then onReceiveGenericNACK mem off len c
        else if FMT = 3 then onReceiveTMMBR mem off len c
        else if FMT = 4 then onReceiveTMMBN mem off len c
        else Inr c)
     else Inr c))"

text \<open>The result is whether the packet was read to its end (\<open>OK\<close>).\<close>

function rtcpLoop :: "byte list \<Rightarrow> int \<Rightarrow> int \<Rightarrow> bool \<Rightarrow> int \<Rightarrow> RTPController \<Rightarrow> (bool \<times> RTPController) res" where
  "rtcpLoop mem sz off contain_TMMBR trackIndex c =
     (if off < sz then
        bnd (partLength mem off) (\<lambda>len.
        if sz - off < len then Inr (False, c)
        else bnd (rtcpPart mem off len contain_TMMBR trackIndex c)
               (rtcpLoop mem sz (off + len) contain_TMMBR trackIndex))
      else Inr (True, c))"
  by pat_completeness auto

termination
  by (relation "measure (\<lambda>(mem, sz, off, _). nat (sz - off))") (auto dest: partLength_range)

declare rtcpLoop.simps [simp del]

definition queueRTCPPacket :: "rtp_packet \<Rightarrow> int \<Rightarrow> RTPController \<Rightarrow> (bool \<times> RTPController) res" where
  "queueRTCPPacket p trackIndex c =
     (let sz = int (length (rp_bytes p)); mem = rp_mem p in
      if sz < 4 then Inr (False, c)
      else
        let c = c\<lparr>mReceiveRTCPPacket := True, m_avg_rtcp_size := avgRtcpSize sz (m_avg_rtcp_size c)\<rparr> in
        bnd (scanTMMBR mem sz 0) (\<lambda>contain_TMMBR.
        rtcpLoop mem sz 0 contain_TMMBR trackIndex c))"

end
