(* ===== verification/RtcpSchedule.thy ===== *)
theory RtcpSchedule
  imports RtcpParse
begin

text \<open>
  The streams of a call and when the controller sends RTCP packets, \<open>rtp/src/RTPController.cpp\<close>: the interval of RFC 3550
  (\<open>calculateNextInterval\<close>), start and stop of the schedule, the handler of \<open>kWhatSendRTCP\<close>
  (\<open>onSendRTCP\<close>), feedback that is combined with the next packet or sent at once
  (\<open>checkAndAddFB\<close>, RFC 4585), the timer that drops a call without RTCP, and the handlers that add,
  start, stop and remove a stream.

  \<^item> The messages of the controller to itself are in \<open>ctlLooper\<close>; delays are not part of the
    model, so a message may be handled at any time. The clock is an argument.
  \<^item> The shares of the bandwidth are compared as the rational numbers they are; the quotients of
    \<open>double\<close>s in the code compare alike for bandwidths below 2^52 bit/s.
\<close>

section \<open>The interval\<close>

definition IMSMA_IP_IPSec_UDP_HEADER :: "32 word" where "IMSMA_IP_IPSec_UDP_HEADER = 200"

text \<open>The numbers of senders and of receivers, and whether this side sends.\<close>

definition rtcpMembers :: "32 word \<Rightarrow> int \<times> int \<times> bool" where
  "rtcpMembers path =
     (if path = IMSMA_RTP_UP_DOWN_LINK then (2, 0, True)
      else if path = IMSMA_RTP_UPLINK then (1, 1, True)
      else if path = IMSMA_RTP_DOWNLINK then (1, 1, False)
      else (0, 0, False))"

definition calculateNextInterval :: "RTPController \<Rightarrow> int" where
  "calculateNextInterval c =
     (let rs = rtcp_sender_bandwidth c; rr = rtcp_receiver_bandwidth c; uTotalMember = 2 in
      if rs = 0 \<and> rr = 0 then - 1
      else
        let (uSenderNum, uReceiverNum, we_sent) = rtcpMembers (mVideoActivePath c);
            rtcp_bandwidth =
              (if uSenderNum * uint (rs + rr) < uTotalMember * uint rs then
                 if uSenderNum = 0 \<or> uReceiverNum = 0 then sint ((rs + rr) div word_of_int uTotalMember)
                 else if we_sent then sint (rs div word_of_int uSenderNum)
                 else sint (rr div word_of_int uReceiverNum)
               else sint ((rs + rr) div word_of_int uTotalMember)) in
        if rtcp_bandwidth \<le> 0 then - 1
        else (8 * uint (m_avg_rtcp_size c + IMSMA_IP_IPSec_UDP_HEADER) * 1000000) div rtcp_bandwidth)"

section \<open>Start and stop\<close>

text \<open>\<open>prop\<close> is the value of the property \<open>persist.vendor.vt.rtcp.timer\<close>, when it is set.\<close>

definition startRtcpTimer :: "32 word option \<Rightarrow> RTPController \<Rightarrow> RTPController" where
  "startRtcpTimer prop c =
     (if mRTCPTimer c then c
      else c\<lparr>mRTCPTimer := True, mReceiveRTCPPacket := False, mNoRTCPCount := 0,
             mRTCPTimerInterval := (case prop of None \<Rightarrow> 19 | Some n \<Rightarrow> n),
             ctlLooper := ctlLooper c @ [RTCPTimer]\<rparr>)"

definition stopRtcpTimer :: "RTPController \<Rightarrow> RTPController" where
  "stopRtcpTimer c = c\<lparr>mRTCPTimer := False\<rparr>"

definition startSendRTCPPacket :: "RTPController \<Rightarrow> RTPController" where
  "startSendRTCPPacket c = c\<lparr>ctlLooper := ctlLooper c @ [SendRTCP (mVideoSendRTCPGeneration c)]\<rparr>"

definition startScheduleRTCP :: "32 word option \<Rightarrow> int \<Rightarrow> RTPController \<Rightarrow> RTPController" where
  "startScheduleRTCP prop nowUs c =
     (let c = startRtcpTimer prop c in
      if mStartedRTCPSchedule c then c
      else
        (startSendRTCPPacket
          (c\<lparr>mFeedBackFlag := 0, mRTCPMode := REGULAR_MODE, mRTCPScheduleTimeUs := word_of_int nowUs,
             m_Trr_last := 0, m_AllowEarlyRtcp := True, mRTCP_tp := word_of_int nowUs,
             mLastRTCP_videoRTPSentCount := 0, m_avg_rtcp_size := 52\<rparr>))
        \<lparr>mStartedRTCPSchedule := True\<rparr>)"

definition stopScheduleRTCP :: "RTPController \<Rightarrow> RTPController" where
  "stopScheduleRTCP c =
     (let c = stopRtcpTimer c in
      if mStartedRTCPSchedule c
      then c\<lparr>mVideoSendRTCPGeneration := mVideoSendRTCPGeneration c + 1, mStartedRTCPSchedule := False,
             mSliBuffer := None, mGenericNACKBuffer := None\<rparr>
      else c)"

section \<open>Feedback\<close>

text \<open>A negative \<open>max_delayUs\<close> stands for no limit; \<open>tc\<close> is the time.\<close>

definition checkAndAddFB :: "32 word \<Rightarrow> int \<Rightarrow> int \<Rightarrow> RTPController \<Rightarrow> RTPController" where
  "checkAndAddFB fb_type max_delayUs tc c =
     (let delayUs = sint (mRTCPScheduleTimeUs c - word_of_int tc);
          combined = (if max_delayUs > 0 \<and> delayUs > max_delayUs then c
                      else c\<lparr>mFeedBackFlag := mFeedBackFlag c OR fb_type\<rparr>) in
      if mFeedBackFlag c \<noteq> 0 then combined
      else if m_AllowEarlyRtcp c then
        startSendRTCPPacket
          (c\<lparr>mVideoSendRTCPGeneration := mVideoSendRTCPGeneration c + 1, mRTCP_tp := mRTCPScheduleTimeUs c,
             m_AllowEarlyRtcp := False, mFeedBackFlag := mFeedBackFlag c OR fb_type,
             mRTCPMode := IMMEDIATE_MODE, mRTCPScheduleTimeUs := word_of_int tc\<rparr>)
      else combined)"

definition IMSMA_NACK :: int where "IMSMA_NACK = 2"
definition IMSMA_CCM :: int where "IMSMA_CCM = 4"
definition IMSMA_NONE :: int where "IMSMA_NONE = 0"
definition IMSMA_GENERIC_NACK :: int where "IMSMA_GENERIC_NACK = 1"
definition IMSMA_PLI :: int where "IMSMA_PLI = 2"
definition IMSMA_SLI :: int where "IMSMA_SLI = 3"
definition IMSMA_FIR :: int where "IMSMA_FIR = 5"
definition IMSMA_TMMBR :: int where "IMSMA_TMMBR = 6"

text \<open>The search in the negotiated feedback types.\<close>

definition supports :: "int \<Rightarrow> int list \<Rightarrow> RTPController \<Rightarrow> bool" where
  "supports fb_id params c = list_ex (\<lambda>(i, p). i = fb_id \<and> p \<in> set params) (rtcp_fb_type c)"

definition onSendFIR :: "int \<Rightarrow> RTPController \<Rightarrow> RTPController" where
  "onSendFIR tc c =
     (if \<not> supports IMSMA_CCM [IMSMA_FIR] c then c
      else checkAndAddFB kKeyFIR (- 1) tc (c\<lparr>mFIRLastSeqNum := mFIRLastSeqNum c + 1\<rparr>))"

definition onReceiveCSD :: "RTPController \<Rightarrow> RTPController" where
  "onReceiveCSD c = clearFlag kKeyFIR c"

definition onSendSLI :: "byte list option \<Rightarrow> int \<Rightarrow> RTPController \<Rightarrow> RTPController" where
  "onSendSLI buffer tc c =
     (if buffer = None then c
      else if \<not> supports IMSMA_NACK [IMSMA_SLI] c then c
      else checkAndAddFB kKeySLI 100000 tc (c\<lparr>mSliBuffer := buffer\<rparr>))"

definition onSendPLI :: "int \<Rightarrow> RTPController \<Rightarrow> RTPController" where
  "onSendPLI tc c =
     (if \<not> supports IMSMA_NACK [IMSMA_PLI] c then c else checkAndAddFB kKeyPLI (- 1) tc c)"

definition onSendGenericNack :: "byte list option \<Rightarrow> int \<Rightarrow> RTPController \<Rightarrow> RTPController" where
  "onSendGenericNack buffer tc c =
     (if buffer = None then c
      else if \<not> supports IMSMA_NACK [IMSMA_GENERIC_NACK, IMSMA_NONE] c then c
      else checkAndAddFB kKeyGNACK 100000 tc (c\<lparr>mGenericNACKBuffer := buffer\<rparr>))"

text \<open>\<open>mSupportTMMBR\<close> stays set once the type was negotiated.\<close>

definition noteTMMBR :: "RTPController \<Rightarrow> RTPController" where
  "noteTMMBR c = (if supports IMSMA_CCM [IMSMA_TMMBR] c then c\<lparr>mSupportTMMBR := True\<rparr> else c)"

definition onSendTMMBR :: "byte list option \<Rightarrow> bool \<Rightarrow> int \<Rightarrow> RTPController \<Rightarrow> RTPController" where
  "onSendTMMBR buffer isReduce tc c =
     (if buffer = None then c
      else if mHandoverState c > 0 then c
      else
        let c = noteTMMBR c in
        if \<not> mSupportTMMBR c then c
        else
          let c = c\<lparr>mTMMBRBuffer := buffer\<rparr> in
          if \<not> isReduce then c\<lparr>mFeedBackFlag := mFeedBackFlag c OR kKeyTMMBR\<rparr>
          else checkAndAddFB kKeyTMMBR (- 1) tc c)"

definition onSendTMMBN :: "byte list option \<Rightarrow> int \<Rightarrow> RTPController \<Rightarrow> RTPController" where
  "onSendTMMBN buffer tc c =
     (if buffer = None then c
      else
        let c = noteTMMBR c in
        if \<not> mSupportTMMBR c then c
        else checkAndAddFB kKeyTMMBN (- 1) tc (c\<lparr>mTMMBNBuffer := buffer\<rparr>))"

section \<open>Sending\<close>

text \<open>
  The handler sends, unless the packet is regular without feedback and too early, and posts the
  message again; \<open>tc\<close> is the time.
\<close>

definition onSendRTCP :: "rtcp_env \<Rightarrow> int \<Rightarrow> int \<Rightarrow> RTPController \<Rightarrow> RTPController res" where
  "onSendRTCP env tc g c =
     (let t_rr = calculateNextInterval c in
      if t_rr < 0 then Inr (stopScheduleRTCP c)
      else
        let (bDrop, c) =
              (if mRTCPMode c = REGULAR_MODE then
                 let (bDrop, c) =
                       (if mFeedBackFlag c = 0 then
                          if m_Trr_interval c > 0 \<and> word_of_int tc - m_Trr_last c < m_Trr_interval c
                          then (True, c\<lparr>m_AllowEarlyRtcp := True\<rparr>)
                          else (False, c\<lparr>m_Trr_last := word_of_int tc, m_AllowEarlyRtcp := True\<rparr>)
                        else (False, c\<lparr>m_AllowEarlyRtcp := True\<rparr>)) in
                 (bDrop, c\<lparr>mRTCP_tp := word_of_int tc\<rparr>)
               else (False, c\<lparr>m_AllowEarlyRtcp := False\<rparr>));
            tn = mRTCP_tp c + word_of_int t_rr in
        bnd (if bDrop then Inr c else makeAndsendRTCP env c) (\<lambda>c.
        Inr (c\<lparr>mRTCPScheduleTimeUs := tn, mRTCPMode := REGULAR_MODE,
               ctlLooper := ctlLooper c @ [SendRTCP g]\<rparr>)))"

text \<open>The handler of \<open>kWhatSendRTCP\<close> with the generation \<open>g\<close>, and of \<open>kWhatRTCPTimer\<close>.\<close>

definition onWhatSendRTCP :: "rtcp_env \<Rightarrow> int \<Rightarrow> int \<Rightarrow> RTPController \<Rightarrow> RTPController res" where
  "onWhatSendRTCP env tc g c =
     (if mVideoSendRTCPGeneration c \<noteq> g then Inr c else onSendRTCP env tc g c)"

definition onWhatRTCPTimer :: "RTPController \<Rightarrow> RTPController" where
  "onWhatRTCPTimer c =
     (if \<not> mRTCPTimer c then c
      else
        let count = (if mReceiveRTCPPacket c then mNoRTCPCount c else mNoRTCPCount c + 1);
            c = c\<lparr>mNoRTCPCount := count\<rparr>;
            c = (if \<not> mReceiveRTCPPacket c \<and> count > mRTCPTimerInterval c \<and> mNoRTPFlag c
                 then if ctl_mOperatorID c \<noteq> 8 then postEvent NotifyDropCall c else c
                 else c\<lparr>mNoRTCPCount := (if mReceiveRTCPPacket c then 0 else count), mReceiveRTCPPacket := False\<rparr>) in
        c\<lparr>ctlLooper := ctlLooper c @ [RTCPTimer]\<rparr>)"

section \<open>New parameters\<close>

text \<open>
  The lines of \<open>onSetConfigParams\<close> and of \<open>onUpdateConfigParams\<close> that concern RTCP: once a stream is added, bandwidths
  of zero, and a port of zero, stop the schedule, others start it again; before that an update only stores the parameters.
\<close>

definition IMSMA_TRR_INT :: int where "IMSMA_TRR_INT = 3"

definition trrInterval :: "(int \<times> int) list \<Rightarrow> 64 word" where
  "trrInterval fbs = fold (\<lambda>(i, p) t. if i = IMSMA_TRR_INT then word_of_int (p * 1000) else t) fbs 1000000"

definition updateRtcpParams ::
  "32 word option \<Rightarrow> int \<Rightarrow> 64 word \<Rightarrow> 64 word \<Rightarrow> (int \<times> int) list \<Rightarrow> 32 word \<Rightarrow> RTPController \<Rightarrow> RTPController" where
  "updateRtcpParams prop nowUs rs rr fbs port c =
     (let c = (if rtcp_sender_bandwidth c = 0 \<and> rtcp_receiver_bandwidth c = 0 then
                 if rs \<noteq> 0 \<or> rr \<noteq> 0 then startScheduleRTCP prop nowUs c else c
               else if rs = 0 \<and> rr = 0 then stopScheduleRTCP c else c);
          c = noteTMMBR (c\<lparr>rtcp_sender_bandwidth := rs, rtcp_receiver_bandwidth := rr, rtcp_fb_type := fbs,
                            m_Trr_interval := trrInterval fbs\<rparr>);
          c = (if remote_rtcp_port c = 0 then if port \<noteq> 0 then startScheduleRTCP prop nowUs c else c
               else if port = 0 then stopScheduleRTCP c else c) in
      c\<lparr>remote_rtcp_port := port\<rparr>)"

definition onSetConfigParams :: "64 word \<Rightarrow> 64 word \<Rightarrow> (int \<times> int) list \<Rightarrow> 32 word \<Rightarrow> RTPController \<Rightarrow> RTPController" where
  "onSetConfigParams rs rr fbs port c =
     (noteTMMBR (c\<lparr>rtcp_sender_bandwidth := rs, rtcp_receiver_bandwidth := rr, rtcp_fb_type := fbs,
                   m_Trr_interval := trrInterval fbs\<rparr>))\<lparr>remote_rtcp_port := port\<rparr>"

definition onUpdateConfigParams ::
  "32 word option \<Rightarrow> int \<Rightarrow> 64 word \<Rightarrow> 64 word \<Rightarrow> (int \<times> int) list \<Rightarrow> 32 word \<Rightarrow> RTPController \<Rightarrow> RTPController" where
  "onUpdateConfigParams prop nowUs rs rr fbs port c =
     (if mAddedTrack c AND IMSMA_VIDEO_TRACK = 0 then onSetConfigParams rs rr fbs port c
      else updateRtcpParams prop nowUs rs rr fbs port c)"

section \<open>Streams\<close>

text \<open>
  \<open>onAddStream\<close>, \<open>onStart\<close>, \<open>onStop\<close> and \<open>onRemoveStream\<close> for the video track. The sockets are created
  where they are missing; \<open>sndErr\<close> and \<open>rcvErr\<close> say whether the sender and the receiver refuse to start.
  No audio stream is ever added by this code.
\<close>

definition ctlOnAddStream :: "32 word \<Rightarrow> RTPController \<Rightarrow> RTPController" where
  "ctlOnAddStream rtpPath c =
     (let c = c\<lparr>mVideoRTCPSocketWrapper_get := True\<rparr>;
          c = (if rtpPath AND IMSMA_RTP_UPLINK \<noteq> 0 \<and> mVideoAddedPath c AND IMSMA_RTP_UPLINK = 0
               then c\<lparr>mVideoRTPSender_get := True, mAddedTrack := mAddedTrack c OR IMSMA_VIDEO_TRACK,
                      mVideoAddedPath := mVideoAddedPath c OR IMSMA_RTP_UPLINK\<rparr>
               else c) in
      if rtpPath AND IMSMA_RTP_DOWNLINK \<noteq> 0 \<and> mVideoAddedPath c AND IMSMA_RTP_DOWNLINK = 0
      then postEvent ReceiverAddStream
             (c\<lparr>mRTPReceiver_get := True, mAddedTrack := mAddedTrack c OR IMSMA_VIDEO_TRACK,
                mVideoAddedPath := mVideoAddedPath c OR IMSMA_RTP_DOWNLINK\<rparr>)
      else c)"

definition startUplink :: "RTPController \<Rightarrow> RTPController" where
  "startUplink c =
     postEvent SenderStart
       (c\<lparr>mVideoRTPSender_get := True, mActiveTrack := mActiveTrack c OR IMSMA_VIDEO_TRACK,
          mVideoActivePath := mVideoActivePath c OR IMSMA_RTP_UPLINK\<rparr>)"

definition startDownlink :: "RTPController \<Rightarrow> RTPController" where
  "startDownlink c =
     (let c = (if mRTPReceiver_get c then c else postEvent ReceiverAddStream (c\<lparr>mRTPReceiver_get := True\<rparr>)) in
      postEvent ReceiverStart
        (c\<lparr>mActiveTrack := mActiveTrack c OR IMSMA_VIDEO_TRACK,
           mVideoActivePath := mVideoActivePath c OR IMSMA_RTP_DOWNLINK\<rparr>))"

definition ctlOnStart :: "bool \<Rightarrow> bool \<Rightarrow> 32 word option \<Rightarrow> int \<Rightarrow> 32 word \<Rightarrow> RTPController \<Rightarrow> RTPController" where
  "ctlOnStart sndErr rcvErr prop nowUs rtpPath c =
     (let up = (rtpPath AND IMSMA_RTP_UPLINK \<noteq> 0 \<and> mVideoActivePath c AND IMSMA_RTP_UPLINK = 0);
          down = (rtpPath AND IMSMA_RTP_DOWNLINK \<noteq> 0 \<and> mVideoActivePath c AND IMSMA_RTP_DOWNLINK = 0) in
      if up \<and> sndErr then c\<lparr>mVideoRTPSender_get := True\<rparr>
      else
        let c = (if up then startUplink c else c) in
        if down \<and> rcvErr
        then (if mRTPReceiver_get c then c else postEvent ReceiverAddStream (c\<lparr>mRTPReceiver_get := True\<rparr>))
        else
          let c = (if down then startDownlink c else c) in
          startScheduleRTCP prop nowUs (c\<lparr>mVideoRTCPSocketWrapper_get := True\<rparr>))"

definition ctlOnStop :: "32 word \<Rightarrow> RTPController \<Rightarrow> RTPController" where
  "ctlOnStop rtpPath c =
     (if mActiveTrack c AND IMSMA_VIDEO_TRACK = 0 then c
      else
        let c = (if rtpPath AND IMSMA_RTP_UPLINK \<noteq> 0 \<and> mVideoActivePath c AND IMSMA_RTP_UPLINK \<noteq> 0 \<and> mVideoRTPSender_get c
                 then postEvent SenderStop (c\<lparr>mVideoActivePath := mVideoActivePath c AND NOT IMSMA_RTP_UPLINK\<rparr>) else c);
            c = (if rtpPath AND IMSMA_RTP_DOWNLINK \<noteq> 0 \<and> mVideoActivePath c AND IMSMA_RTP_DOWNLINK \<noteq> 0 \<and> mRTPReceiver_get c
                 then postEvent ReceiverStop (c\<lparr>mVideoActivePath := mVideoActivePath c AND NOT IMSMA_RTP_DOWNLINK\<rparr>) else c) in
        if mVideoActivePath c = 0 then c\<lparr>mActiveTrack := mActiveTrack c AND NOT IMSMA_VIDEO_TRACK\<rparr> else c)"

definition removeUplink :: "RTPController \<Rightarrow> RTPController" where
  "removeUplink c =
     (let c = (if mVideoActivePath c AND IMSMA_RTP_UPLINK \<noteq> 0
               then postEvent SenderStop (c\<lparr>mVideoActivePath := mVideoActivePath c AND NOT IMSMA_RTP_UPLINK\<rparr>) else c) in
      c\<lparr>mVideoRTPSender_get := False, mVideoAddedPath := mVideoAddedPath c AND NOT IMSMA_RTP_UPLINK\<rparr>)"

definition removeDownlink :: "RTPController \<Rightarrow> RTPController" where
  "removeDownlink c =
     (let c = (if mVideoActivePath c AND IMSMA_RTP_DOWNLINK \<noteq> 0 then postEvent ReceiverStop c else c) in
      postEvent ReceiverRemoveStream (c\<lparr>mVideoAddedPath := mVideoAddedPath c AND NOT IMSMA_RTP_DOWNLINK\<rparr>))"

definition ctlOnRemoveStream :: "32 word \<Rightarrow> RTPController \<Rightarrow> RTPController" where
  "ctlOnRemoveStream rtpPath c =
     (let c = (if mAddedTrack c AND IMSMA_VIDEO_TRACK = 0 then c
               else
                 let c = (if rtpPath AND IMSMA_RTP_UPLINK \<noteq> 0 \<and> mVideoAddedPath c AND IMSMA_RTP_UPLINK \<noteq> 0 \<and>
                             mVideoRTPSender_get c then removeUplink c else c);
                     c = (if rtpPath AND IMSMA_RTP_DOWNLINK \<noteq> 0 \<and> mVideoAddedPath c AND IMSMA_RTP_DOWNLINK \<noteq> 0 \<and>
                             mRTPReceiver_get c then removeDownlink c else c) in
                 if mVideoAddedPath c = 0
                 then (stopScheduleRTCP (c\<lparr>mAddedTrack := mAddedTrack c AND NOT IMSMA_VIDEO_TRACK\<rparr>))
                        \<lparr>mVideoRTCPSocketWrapper_get := False\<rparr>
                 else c) in
      if mVideoAddedPath c AND IMSMA_RTP_DOWNLINK = 0 then c\<lparr>mRTPReceiver_get := False\<rparr> else c)"

text \<open>\<open>RTPReceiver::kWhatUpdateSSRC\<close>, \<open>RTPReceiver::kWhatNoRTP\<close>, the controller's part of \<open>updateSSRC\<close> and the handover.\<close>

definition onUpdatePeerSSRC :: "32 word \<Rightarrow> RTPController \<Rightarrow> RTPController" where
  "onUpdatePeerSSRC ssrc c = c\<lparr>mVideoPeerSSRC_set := True, mVideoPeerSSRC := ssrc\<rparr>"

definition onNoRTP :: "int \<Rightarrow> RTPController \<Rightarrow> RTPController" where
  "onNoRTP info c = c\<lparr>mNoRTPFlag := (info \<noteq> 0)\<rparr>"

definition ctlUpdateSSRC :: "32 word \<Rightarrow> RTPController \<Rightarrow> RTPController" where
  "ctlUpdateSSRC newSSRC c = c\<lparr>ctl_mSSRC := newSSRC\<rparr>"

definition onSetHoState :: "int \<Rightarrow> RTPController \<Rightarrow> RTPController" where
  "onSetHoState state c =
     c\<lparr>mHandoverState := (if state \<noteq> 0 then mHandoverState c + 1 else mHandoverState c - 1)\<rparr>"

end
