(* ===== verification/RtcpBuild.thy ===== *)
theory RtcpBuild
  imports RtcpSchedule RtpRoundTrip
begin

text \<open>
  What the writers of \<open>makeAndsendRTCP\<close> put into a packet, as octet lists: each writer either leaves
  the packet alone or appends its part, so a packet is the concatenation of its parts.
\<close>

section \<open>The contents of a buffer\<close>

definition holds :: "int \<Rightarrow> byte list \<Rightarrow> rtcp_buffer \<Rightarrow> bool" where
  "holds n xs b \<longleftrightarrow>
     (\<exists>junk. rb_mem b = xs @ junk) \<and> rb_size b = int (length xs) \<and> int (length (rb_mem b)) = n"

lemma holds_simps:
  "holds n xs b \<Longrightarrow> rb_size b = int (length xs)" "holds n xs b \<Longrightarrow> int (length (rb_mem b)) = n"
  by (simp_all add: holds_def)

lemma holds_new: "0 \<le> n \<Longrightarrow> holds n [] (newRtcpBuffer n)"
  by (simp add: holds_def newRtcpBuffer_def)

lemma wr_block_end:
  "j = int (length xs) \<Longrightarrow> length ys \<le> length junk \<Longrightarrow>
   wr_block (xs @ junk) j ys = Inr (xs @ ys @ drop (length ys) junk)"
  by (auto simp: wr_block_def)

lemma rbAppend_holds:
  assumes "holds n xs b" "int (length xs) + int (length ys) \<le> n"
  shows "\<exists>b'. rbAppend ys b = Inr b' \<and> holds n (xs @ ys) b'"
proof -
  obtain junk where j: "rb_mem b = xs @ junk" "rb_size b = int (length xs)" "int (length xs) + int (length junk) = n"
    using assms(1) by (auto simp: holds_def)
  have "wr_block (rb_mem b) (rb_size b) ys = Inr (xs @ ys @ drop (length ys) junk)"
    unfolding j(1,2) using assms(2) j(3) by (intro wr_block_end) simp_all
  then show ?thesis using assms(2) j(2,3) by (simp add: rbAppend_def holds_def)
qed

lemma rbSet_holds:
  assumes "holds n xs b" "0 \<le> i" "i < int (length xs)"
  shows "\<exists>b'. rbSet i x b = Inr b' \<and> holds n (xs[nat i := x]) b'"
  using assms by (auto simp: holds_def rbSet_def wr_def list_update_append nat_less_iff)

lemma rbAppendLimit_holds:
  assumes "holds n xs b" "int (length xs) + 20 \<le> n" "length hdr = 16" "length fci = 4"
  shows "\<exists>b'. rbAppendLimit hdr (Some fci) b = Inr b' \<and> holds n (xs @ hdr @ fci) b'"
proof -
  obtain junk where j: "rb_mem b = xs @ junk" "rb_size b = int (length xs)" "int (length xs) + int (length junk) = n"
    using assms(1) by (auto simp: holds_def)
  have "wr_block (rb_mem b) (rb_size b) hdr = Inr (xs @ hdr @ drop 16 junk)"
    unfolding j(1,2) using assms(2,3) j(3) by (subst wr_block_end) simp_all
  moreover have "wr_block ((xs @ hdr) @ drop 16 junk) (rb_size b + 16) fci = Inr ((xs @ hdr) @ fci @ drop 20 junk)"
    using assms(2-4) j(2,3) by (subst wr_block_end) simp_all
  ultimately show ?thesis
    using assms(2-4) j(2,3) by (simp add: rbAppendLimit_def holds_def)
qed

lemma rd_holds: "holds n xs b \<Longrightarrow> 0 \<le> i \<Longrightarrow> i < int (length xs) \<Longrightarrow> rd (rb_mem b) i = Inr (xs ! nat i)"
  by (auto simp: holds_def rd_def nth_append nat_less_iff)

lemma rd_block_holds: "holds n xs b \<Longrightarrow> rd_block (rb_mem b) 0 (rb_size b) = Inr xs"
  by (auto simp: holds_def rd_block_def)

lemmas key_defs = kKeyFIR_def kKeySLI_def kKeyTMMBR_def kKeyTMMBN_def kKeyPLI_def kKeyGNACK_def

section \<open>The parts\<close>

text \<open>The two octets of a length field of 16 bit.\<close>

definition lenBytes :: "int \<Rightarrow> byte list" where
  "lenBytes l = [word_of_int (drop_bit 8 l AND 0xff), word_of_int (l AND 0xff)]"

definition sendsSR :: "rtcp_env \<Rightarrow> RTPController \<Rightarrow> bool" where
  "sendsSR env c \<longleftrightarrow>
     mVideoRTPSender_get c \<and> mVideoActivePath c AND IMSMA_RTP_UPLINK \<noteq> 0 \<and>
     env_RTPSentCount env > mLastRTCP_videoRTPSentCount c"

definition downlinkActive :: "RTPController \<Rightarrow> bool" where
  "downlinkActive c \<longleftrightarrow> mRTPReceiver_get c \<and> mVideoActivePath c AND IMSMA_RTP_DOWNLINK \<noteq> 0"

definition reportBlock :: "rtcp_env \<Rightarrow> RTPController \<Rightarrow> byte list option" where
  "reportBlock env c = (if downlinkActive c then env_reportBlock env else None)"

definition reportPart :: "rtcp_env \<Rightarrow> RTPController \<Rightarrow> byte list" where
  "reportPart env c =
     (let body = be32 (ctl_mSSRC c) @ (if sendsSR env c then env_senderInfo env else []) @
                 (case reportBlock env c of None \<Rightarrow> [] | Some blk \<Rightarrow> blk) in
      [if reportBlock env c = None then 0x80 else 0x81, if sendsSR env c then 200 else 201] @
      lenBytes (int (length body) div 4) @ body)"

definition sdesPart :: "RTPController \<Rightarrow> byte list" where
  "sdesPart c =
     (let len = int (length (mCName c)); size = (len + 14) AND - 4; w = size div 4 - 1 in
      [0x81, 202, word_of_int (drop_bit 8 w), word_of_int (w AND 0xff)] @ be32 (ctl_mSSRC c) @
      [1, word_of_int len] @ mCName c @ replicate (nat (size - (10 + len))) 0)"

definition firPart :: "RTPController \<Rightarrow> byte list" where
  "firPart c = fbHeader 4 206 4 (ctl_mSSRC c) 0 @ be32 (mVideoPeerSSRC c) @ [mFIRLastSeqNum c, 0, 0, 0]"

definition pliPart :: "RTPController \<Rightarrow> byte list" where
  "pliPart c = fbHeader 1 206 2 (ctl_mSSRC c) (mVideoPeerSSRC c)"

definition fciPart :: "byte \<Rightarrow> byte \<Rightarrow> byte list \<Rightarrow> RTPController \<Rightarrow> byte list" where
  "fciPart FMT pt fci c =
     fbHeader FMT pt (c_ushort (2 + c_uchar (int (length fci) div 4))) (ctl_mSSRC c) (mVideoPeerSSRC c) @ fci"

definition tmmbrPart :: "byte list \<Rightarrow> RTPController \<Rightarrow> byte list" where
  "tmmbrPart fci c = (fbHeader 3 205 4 (ctl_mSSRC c) 0 @ be32 (mVideoPeerSSRC c)) @ fci"

definition tmmbnPart :: "byte list \<Rightarrow> RTPController \<Rightarrow> byte list" where
  "tmmbnPart fci c = (fbHeader 4 205 4 (ctl_mSSRC c) 0 @ be32 (ctl_mSSRC c)) @ fci"

lemma length_fbHeader [simp]: "length (fbHeader f t l s m) = 12"
  by (simp add: fbHeader_def)

lemma length_lenBytes [simp]: "length (lenBytes l) = 2"
  by (simp add: lenBytes_def)

section \<open>The writers\<close>

lemma sdes_size:
  fixes l :: int
  assumes "0 \<le> l"
  shows "l + 11 \<le> (l + 14) AND - 4" "((l + 14) AND - 4) mod 4 = 0" "(l + 14) AND - 4 \<le> l + 14"
proof -
  have "(l + 14) AND - 4 = (l + 14) - (l + 14) mod 4"
  proof -
    have "- 4 = (NOT (mask 2) :: int)" by (simp add: mask_eq_exp_minus_1 not_eq_complement)
    then have "(l + 14) AND - 4 = (l + 14) AND NOT (mask 2)" by metis
    also have "\<dots> = (l + 14) AND NOT (take_bit 2 (l + 14))"
      by (rule bit_eqI) (auto simp: bit_simps)
    also have "\<dots> = (l + 14) - take_bit 2 (l + 14)"
      by (rule disjunctive_diff [symmetric]) (simp add: bit_simps)
    finally show ?thesis by (simp add: take_bit_eq_mod)
  qed
  then show "l + 11 \<le> (l + 14) AND - 4" "((l + 14) AND - 4) mod 4 = 0" "(l + 14) AND - 4 \<le> l + 14"
    by presburger+
qed

lemma length_sdesPart: "int (length (sdesPart c)) = (int (length (mCName c)) + 14) AND - 4"
  using sdes_size(1) [of "int (length (mCName c))"] by (simp add: sdesPart_def Let_def)

lemma addSDES_eq:
  "addSDES c b = (if rb_size b + int (length (sdesPart c)) > capacity b then Inr b else rbAppend (sdesPart c) b)"
proof -
  have "int (length (mCName c)) + 1 + 2 + 8 + 3 = int (length (mCName c)) + 14" "(0x80 :: byte) OR 1 = 0x81"
    by simp_all
  then show ?thesis
    unfolding addSDES_def length_sdesPart unfolding sdesPart_def Let_def by (simp only:)
qed

lemma addSDES_holds:
  assumes "holds n xs b"
  shows "\<exists>b'. addSDES c b = Inr b' \<and>
     holds n (if int (length xs) + int (length (sdesPart c)) \<le> n then xs @ sdesPart c else xs) b'"
  using rbAppend_holds [OF assms, of "sdesPart c"] assms by (auto simp: addSDES_eq holds_simps)

lemma addFIR_holds:
  assumes "holds n xs b"
  shows "if int (length xs) + 20 \<le> n \<and> peerKnown c
         then \<exists>b'. addFIR c b = Inr (clearFlag kKeyFIR c, b') \<and> holds n (xs @ firPart c) b'
         else addFIR c b = Inr (c, b)"
  using rbAppend_holds [OF assms, of "firPart c"] assms
  by (auto simp: addFIR_def firPart_def holds_simps)

lemma addPLI_holds:
  assumes "holds n xs b"
  shows "if int (length xs) + 12 \<le> n \<and> peerKnown c
         then \<exists>b'. addPLI c b = Inr (clearFlag kKeyPLI c, b') \<and> holds n (xs @ pliPart c) b'
         else addPLI c b = Inr (c, b)"
  using rbAppend_holds [OF assms, of "pliPart c"] assms
  by (auto simp: addPLI_def pliPart_def holds_simps)

lemma addFciBuffer_holds:
  assumes "holds n xs b"
  shows "if int (length xs) + 12 + int (length fci) \<le> n \<and> peerKnown c
         then \<exists>b'. addFciBuffer f t (Some fci) c b = Inr (True, b') \<and> holds n (xs @ fciPart f t fci c) b'
         else addFciBuffer f t (Some fci) c b = Inr (False, b)"
  using rbAppend_holds [OF assms, of "fciPart f t fci c"] assms
  by (auto simp: addFciBuffer_def fciPart_def holds_simps Let_def)

lemma addSLI_holds:
  assumes "holds n xs b" "mSliBuffer c = Some fci"
  shows "if int (length xs) + 12 + int (length fci) \<le> n \<and> peerKnown c
         then \<exists>b'. addSLI c b = Inr ((clearFlag kKeySLI c)\<lparr>mSliBuffer := None\<rparr>, b') \<and> holds n (xs @ fciPart 2 206 fci c) b'
         else addSLI c b = Inr (c, b)"
  using addFciBuffer_holds [OF assms(1), of fci c 2 206] by (auto simp: addSLI_def assms(2))

lemma addNACK_holds:
  assumes "holds n xs b" "mGenericNACKBuffer c = Some fci"
  shows "if int (length xs) + 12 + int (length fci) \<le> n \<and> peerKnown c
         then \<exists>b'. addNACK c b = Inr ((clearFlag kKeyGNACK c)\<lparr>mGenericNACKBuffer := None\<rparr>, b') \<and>
                   holds n (xs @ fciPart 1 205 fci c) b'
         else addNACK c b = Inr (c, b)"
  using addFciBuffer_holds [OF assms(1), of fci c 1 205] by (auto simp: addNACK_def assms(2))

text \<open>The limit that is sent: the buffer, or a newer one while an answer is awaited.\<close>

definition tmmbrLimit :: "rtcp_env \<Rightarrow> RTPController \<Rightarrow> byte list option" where
  "tmmbrLimit env c = (if m_isWaitingTMMBN c \<and> env_newTMMBR env \<noteq> None then env_newTMMBR env else mTMMBRBuffer c)"

lemma addTMMBR_holds:
  assumes "holds n xs b" "tmmbrLimit env c = Some fci" "length fci = 4"
  shows "if int (length xs) + 20 \<le> n \<and> peerKnown c
         then \<exists>b'. addTMMBR env c b = Inr (c\<lparr>mTMMBRBuffer := Some fci, m_isWaitingTMMBN := True\<rparr>, b') \<and>
                   holds n (xs @ tmmbrPart fci c) b'
         else addTMMBR env c b = Inr (c, b)"
proof -
  let ?c = "if m_isWaitingTMMBN c \<and> env_newTMMBR env \<noteq> None then c\<lparr>mTMMBRBuffer := env_newTMMBR env\<rparr> else c"
  have c: "?c = c\<lparr>mTMMBRBuffer := Some fci\<rparr>" "mTMMBRBuffer ?c = Some fci"
    using assms(2) by (auto simp: tmmbrLimit_def split: if_splits)
  show ?thesis
    using rbAppendLimit_holds [OF assms(1) _ _ assms(3), of "fbHeader 3 205 4 (ctl_mSSRC c) 0 @ be32 (mVideoPeerSSRC c)"]
      assms(1) c(2) unfolding addTMMBR_def Let_def c(1)
    by (auto simp: tmmbrPart_def holds_simps)
qed

lemma addTMMBN_holds:
  assumes "holds n xs b" "mTMMBNBuffer c = Some fci" "length fci = 4"
  shows "if int (length xs) + 20 \<le> n
         then \<exists>b'. addTMMBN c b = Inr ((clearFlag kKeyTMMBN c)\<lparr>mTMMBNBuffer := None\<rparr>, b') \<and> holds n (xs @ tmmbnPart fci c) b'
         else addTMMBN c b = Inr (c, b)"
  using rbAppendLimit_holds [OF assms(1) _ _ assms(3), of "fbHeader 4 205 4 (ctl_mSSRC c) 0 @ be32 (ctl_mSSRC c)"]
    assms(1,2) by (auto simp: addTMMBN_def tmmbnPart_def holds_simps)

section \<open>The report\<close>

definition envOk :: "rtcp_env \<Rightarrow> bool" where
  "envOk env \<longleftrightarrow> length (env_senderInfo env) = 20 \<and>
     (\<forall>blk. env_reportBlock env = Some blk \<longrightarrow> length blk = 24) \<and>
     (\<forall>fci. env_newTMMBR env = Some fci \<longrightarrow> length fci = 4)"

lemma report_tail_holds:
  assumes "holds n ([x, pt, y, z] @ body) b" "length body \<le> 48"
  shows "\<exists>b'. bnd (rd (rb_mem b) 0) (\<lambda>d0.
     bnd (rbSet 0 (d0 OR (RC AND 0x1f)) b) (\<lambda>b.
     let len = c_ushort (rb_size b div 4 - 1) in
     bnd (rbSet 2 (word_of_int (drop_bit 8 len AND 0xff)) b) (\<lambda>b.
     bnd (rbSet 3 (word_of_int (len AND 0xff)) b) (\<lambda>b.
     Inr (u, b))))) = Inr (u :: 32 word, b') \<and>
     holds n ([x OR (RC AND 0x1f), pt] @ lenBytes (int (length body) div 4) @ body) b'"
proof -
  have rd: "rd (rb_mem b) 0 = Inr x" using rd_holds [OF assms(1), of 0] by simp
  obtain b1 where b1: "rbSet 0 (x OR (RC AND 0x1f)) b = Inr b1" "holds n ([x OR (RC AND 0x1f), pt, y, z] @ body) b1"
    using rbSet_holds [OF assms(1), of 0 "x OR (RC AND 0x1f)"] by auto
  have "(int (length body) + 4) div 4 - 1 = int (length body) div 4" by presburger
  then have len: "c_ushort (rb_size b1 div 4 - 1) = int (length body) div 4"
    using assms(2) b1(2) by (simp add: holds_simps add.commute c_ushort_def take_bit_int_eq_self)
  let ?l = "int (length body) div 4"
  obtain b2 where b2: "rbSet 2 (word_of_int (drop_bit 8 ?l AND 0xff)) b1 = Inr b2"
    "holds n ([x OR (RC AND 0x1f), pt, word_of_int (drop_bit 8 ?l AND 0xff), z] @ body) b2"
    using rbSet_holds [OF b1(2), of 2 "word_of_int (drop_bit 8 ?l AND 0xff)"] by auto
  obtain b3 where b3: "rbSet 3 (word_of_int (?l AND 0xff)) b2 = Inr b3"
    "holds n ([x OR (RC AND 0x1f), pt] @ lenBytes ?l @ body) b3"
    using rbSet_holds [OF b2(2), of 3 "word_of_int (?l AND 0xff)"] by (auto simp: lenBytes_def numeral_3_eq_3)
  show ?thesis using b3(2) by (simp add: rd b1(1) len b2(1) b3(1) Let_def)
qed

lemma addReport_holds:
  assumes "envOk env" "52 \<le> n"
  shows "\<exists>b u. addReport env c (newRtcpBuffer n) = Inr (u, b) \<and> holds n (reportPart env c) b"
proof -
  have len: "length (env_senderInfo env) = 20" "\<And>blk. env_reportBlock env = Some blk \<Longrightarrow> length blk = 24"
    using assms(1) by (auto simp: envOk_def)
  let ?s = "be32 (ctl_mSSRC c)"
  let ?u = "if mVideoRTPSender_get c \<and> mVideoActivePath c AND IMSMA_RTP_UPLINK \<noteq> 0 then env_RTPSentCount env else 0"
  obtain b0 where b0: "rbAppend ([0x80, 201, 0, 0] @ ?s) (newRtcpBuffer n) = Inr b0" "holds n ([0x80, 201, 0, 0] @ ?s) b0"
    using rbAppend_holds [OF holds_new, of n "[0x80, 201, 0, 0] @ ?s"] assms(2) by auto
  let ?pt = "if sendsSR env c then 200 else 201 :: byte"
  let ?info = "if sendsSR env c then env_senderInfo env else []"
  have "\<exists>b1. (if sendsSR env c then bnd (rbSet 1 200 b0) (addSenderInfo env) else Inr b0) = Inr b1 \<and>
      holds n ([0x80, ?pt, 0, 0] @ ?s @ ?info) b1"
  proof (cases "sendsSR env c")
    case True
    obtain b' where b': "rbSet 1 200 b0 = Inr b'" "holds n ([0x80, 200, 0, 0] @ ?s) b'"
      using rbSet_holds [OF b0(2), of 1 200] by auto
    then show ?thesis
      using rbAppend_holds [OF b'(2), of "env_senderInfo env"] assms(2) len(1) True
      by (auto simp: addSenderInfo_def holds_simps)
  qed (use b0(2) in simp)
  then obtain b1 where b1: "(if sendsSR env c then bnd (rbSet 1 200 b0) (addSenderInfo env) else Inr b0) = Inr b1"
    "holds n ([0x80, ?pt, 0, 0] @ ?s @ ?info) b1" by blast
  let ?blk = "case reportBlock env c of None \<Rightarrow> [] | Some blk \<Rightarrow> blk"
  let ?RC = "if reportBlock env c = None then 0 else 1 :: byte"
  have "length (?s @ ?info @ ?blk) \<le> 48"
    using len by (auto simp: reportBlock_def split: option.splits)
  have "\<exists>b2. (if downlinkActive c then addReceiveReportBlocks env b1 else Inr (0, b1)) = Inr (?RC, b2) \<and>
      holds n ([0x80, ?pt, 0, 0] @ ?s @ ?info @ ?blk) b2"
    using b1(2) rbAppend_holds [OF b1(2), of ?blk] assms(2) len
    by (auto simp: reportBlock_def addReceiveReportBlocks_def holds_simps split: option.splits)
  then obtain b2 where b2: "(if downlinkActive c then addReceiveReportBlocks env b1 else Inr (0, b1)) = Inr (?RC, b2)"
    "holds n ([0x80, ?pt, 0, 0] @ (?s @ ?info @ ?blk)) b2" by auto
  obtain b3 where b3: "bnd (rd (rb_mem b2) 0) (\<lambda>d0.
     bnd (rbSet 0 (d0 OR (?RC AND 0x1f)) b2) (\<lambda>b.
     let len = c_ushort (rb_size b div 4 - 1) in
     bnd (rbSet 2 (word_of_int (drop_bit 8 len AND 0xff)) b) (\<lambda>b.
     bnd (rbSet 3 (word_of_int (len AND 0xff)) b) (\<lambda>b.
     Inr (?u, b))))) = Inr (?u, b3)"
     "holds n ([0x80 OR (?RC AND 0x1f), ?pt] @ lenBytes (int (length (?s @ ?info @ ?blk)) div 4) @ (?s @ ?info @ ?blk)) b3"
    using report_tail_holds [OF b2(2) \<open>length (?s @ ?info @ ?blk) \<le> 48\<close>, of ?RC ?u] by blast
  have "addReport env c (newRtcpBuffer n) = Inr (?u, b3)"
    unfolding addReport_def b0(1) bnd.simps Let_def
    using b1(1) b2(1) b3(1) by (auto simp: sendsSR_def downlinkActive_def Let_def)
  moreover have "[0x80 OR (?RC AND 0x1f), ?pt] = [if reportBlock env c = None then 0x80 else 0x81, ?pt]" by simp
  ultimately show ?thesis using b3(2) unfolding reportPart_def Let_def by metis
qed

end
