(* ===== verification/RtcpSafety.thy ===== *)
theory RtcpSafety
  imports RtcpBuild
begin

text \<open>
  The life of the RTCP schedule: the steps of the controller, that building a packet never follows a
  null pointer nor leaves the buffer, and the ways the schedule, the timer and the streams can go
  wrong over several steps.
\<close>

section \<open>Flags\<close>

definition feedbackKeys :: "32 word set" where
  "feedbackKeys = {kKeyFIR, kKeySLI, kKeyTMMBR, kKeyTMMBN, kKeyPLI, kKeyGNACK}"

lemma key_bits:
  "k \<in> feedbackKeys \<Longrightarrow> k' \<in> feedbackKeys \<Longrightarrow> k AND k' = (if k = k' then k else 0)"
  by (auto simp: feedbackKeys_def key_defs)

lemma key_off: "k \<in> feedbackKeys \<Longrightarrow> k' \<in> feedbackKeys \<Longrightarrow> (f AND NOT k) AND k' = (if k = k' then 0 else f AND k')"
proof -
  assume "k \<in> feedbackKeys" "k' \<in> feedbackKeys"
  then have "NOT k AND k' = (if k = k' then 0 else k')"
    by (auto simp: feedbackKeys_def key_defs)
  then show ?thesis by (simp add: and.assoc)
qed

lemma key_on: "k \<in> feedbackKeys \<Longrightarrow> k' \<in> feedbackKeys \<Longrightarrow> (f OR k) AND k' = (if k = k' then k else f AND k')"
proof -
  assume k: "k \<in> feedbackKeys" "k' \<in> feedbackKeys"
  have "(f OR k) AND k' = (f AND k') OR (k AND k')" by (rule bit.conj_disj_distrib2)
  moreover have "(f AND k) OR k = k" by (rule bit_word_eqI) (auto simp: bit_simps)
  ultimately show ?thesis using key_bits [OF k] by auto
qed

lemma keys_in [simp]:
  "kKeyFIR \<in> feedbackKeys" "kKeySLI \<in> feedbackKeys" "kKeyTMMBR \<in> feedbackKeys"
  "kKeyTMMBN \<in> feedbackKeys" "kKeyPLI \<in> feedbackKeys" "kKeyGNACK \<in> feedbackKeys"
  by (simp_all add: feedbackKeys_def)

lemma keys_neq [simp]:
  "kKeyFIR \<noteq> kKeySLI" "kKeyFIR \<noteq> kKeyTMMBR" "kKeyFIR \<noteq> kKeyTMMBN" "kKeyFIR \<noteq> kKeyPLI" "kKeyFIR \<noteq> kKeyGNACK"
  "kKeySLI \<noteq> kKeyFIR" "kKeySLI \<noteq> kKeyTMMBR" "kKeySLI \<noteq> kKeyTMMBN" "kKeySLI \<noteq> kKeyPLI" "kKeySLI \<noteq> kKeyGNACK"
  "kKeyTMMBR \<noteq> kKeyFIR" "kKeyTMMBR \<noteq> kKeySLI" "kKeyTMMBR \<noteq> kKeyTMMBN" "kKeyTMMBR \<noteq> kKeyPLI" "kKeyTMMBR \<noteq> kKeyGNACK"
  "kKeyTMMBN \<noteq> kKeyFIR" "kKeyTMMBN \<noteq> kKeySLI" "kKeyTMMBN \<noteq> kKeyTMMBR" "kKeyTMMBN \<noteq> kKeyPLI" "kKeyTMMBN \<noteq> kKeyGNACK"
  "kKeyPLI \<noteq> kKeyFIR" "kKeyPLI \<noteq> kKeySLI" "kKeyPLI \<noteq> kKeyTMMBR" "kKeyPLI \<noteq> kKeyTMMBN" "kKeyPLI \<noteq> kKeyGNACK"
  "kKeyGNACK \<noteq> kKeyFIR" "kKeyGNACK \<noteq> kKeySLI" "kKeyGNACK \<noteq> kKeyTMMBR" "kKeyGNACK \<noteq> kKeyTMMBN" "kKeyGNACK \<noteq> kKeyPLI"
  by (simp_all add: key_defs)

section \<open>Feedback with its buffers\<close>

text \<open>Every flag of \<open>f\<close> that announces a buffer has one, and the limits have four octets.\<close>

definition ready :: "32 word \<Rightarrow> RTPController \<Rightarrow> bool" where
  "ready f c \<longleftrightarrow>
     (f AND kKeySLI \<noteq> 0 \<longrightarrow> mSliBuffer c \<noteq> None) \<and> (f AND kKeyGNACK \<noteq> 0 \<longrightarrow> mGenericNACKBuffer c \<noteq> None) \<and>
     (f AND kKeyTMMBR \<noteq> 0 \<longrightarrow> mTMMBRBuffer c \<noteq> None) \<and> (f AND kKeyTMMBN \<noteq> 0 \<longrightarrow> mTMMBNBuffer c \<noteq> None)"

definition limitsOk :: "RTPController \<Rightarrow> bool" where
  "limitsOk c \<longleftrightarrow> (\<forall>fci. mTMMBRBuffer c = Some fci \<longrightarrow> length fci = 4) \<and>
     (\<forall>fci. mTMMBNBuffer c = Some fci \<longrightarrow> length fci = 4)"

text \<open>The rest of the state that matters to the schedule.\<close>

definition sameSchedule :: "RTPController \<Rightarrow> RTPController \<Rightarrow> bool" where
  "sameSchedule c c' \<longleftrightarrow>
     mStartedRTCPSchedule c' = mStartedRTCPSchedule c \<and> mVideoSendRTCPGeneration c' = mVideoSendRTCPGeneration c \<and>
     ctlLooper c' = ctlLooper c \<and> ctl_mMTUSize c' = ctl_mMTUSize c"

text \<open>What a writer leaves behind, when the feedback \<open>f\<close> was still to be added and \<open>k\<close> was its turn.\<close>

definition okAfter :: "32 word \<Rightarrow> 32 word \<Rightarrow> RTPController \<Rightarrow> RTPController \<Rightarrow> bool" where
  "okAfter k f c c' \<longleftrightarrow>
     ready (f AND NOT k) c' \<and> ready (mFeedBackFlag c') c' \<and> limitsOk c' \<and> sameSchedule c c'"

definition okBefore :: "32 word \<Rightarrow> RTPController \<Rightarrow> bool" where
  "okBefore f c \<longleftrightarrow> ready f c \<and> ready (mFeedBackFlag c) c \<and> limitsOk c"

definition writes :: "32 word \<Rightarrow> (RTPController \<Rightarrow> rtcp_buffer \<Rightarrow> (RTPController \<times> rtcp_buffer) res) \<Rightarrow> bool" where
  "writes k add \<longleftrightarrow>
     (\<forall>c b n xs f. holds n xs b \<and> okBefore f c \<and> f AND k \<noteq> 0 \<longrightarrow>
       (\<exists>c' b' xs'. add c b = Inr (c', b') \<and> holds n xs' b' \<and> okAfter k f c c'))"

lemma readyOff [simp]: "ready f c \<Longrightarrow> ready (f AND NOT k) c"
proof -
  have "(f AND NOT k) AND k' = (f AND k') AND NOT k" for k'
    by (simp add: ac_simps)
  then have "f AND k' = 0 \<Longrightarrow> (f AND NOT k) AND k' = 0" for k' by simp
  then show "ready f c \<Longrightarrow> ready (f AND NOT k) c" unfolding ready_def by blast
qed

text \<open>A writer leaves everything alone, or appends its part and changes the state to \<open>u\<close>.\<close>

lemma writesI:
  assumes "\<And>c b n xs f. holds n xs b \<Longrightarrow> okBefore f c \<Longrightarrow> f AND k \<noteq> 0 \<Longrightarrow>
     \<exists>P u xs'. okAfter k f c u \<and> (if P then \<exists>b'. add c b = Inr (u, b') \<and> holds n xs' b' else add c b = Inr (c, b))"
  shows "writes k add"
  unfolding writes_def
proof (intro allI impI, elim conjE)
  fix c b n xs f
  assume a: "holds n xs b" "okBefore f c" "f AND k \<noteq> 0"
  then have "okAfter k f c c"
    by (simp add: okAfter_def okBefore_def sameSchedule_def)
  then show "\<exists>c' b' xs'. add c b = Inr (c', b') \<and> holds n xs' b' \<and> okAfter k f c c'"
    using assms [OF a] a(1) by (metis (full_types))
qed

lemmas write_defs = okAfter_def okBefore_def ready_def limitsOk_def sameSchedule_def clearFlag_def key_off

lemma writes_FIR: "writes kKeyFIR addFIR"
proof (rule writesI)
  fix c b n xs f
  assume "holds n xs b" "okBefore f c"
  then show "\<exists>P u xs'. okAfter kKeyFIR f c u \<and> (if P then \<exists>b'. addFIR c b = Inr (u, b') \<and> holds n xs' b' else addFIR c b = Inr (c, b))"
    by (intro exI conjI, rule_tac [2] addFIR_holds) (simp_all add: write_defs)
qed

lemma writes_PLI: "writes kKeyPLI addPLI"
proof (rule writesI)
  fix c b n xs f
  assume "holds n xs b" "okBefore f c"
  then show "\<exists>P u xs'. okAfter kKeyPLI f c u \<and> (if P then \<exists>b'. addPLI c b = Inr (u, b') \<and> holds n xs' b' else addPLI c b = Inr (c, b))"
    by (intro exI conjI, rule_tac [2] addPLI_holds) (simp_all add: write_defs)
qed

lemma writes_SLI: "writes kKeySLI addSLI"
proof (rule writesI)
  fix c b n xs f
  assume a: "holds n xs b" "okBefore f c" "f AND kKeySLI \<noteq> 0"
  then obtain fci where "mSliBuffer c = Some fci" by (auto simp: okBefore_def ready_def)
  then show "\<exists>P u xs'. okAfter kKeySLI f c u \<and> (if P then \<exists>b'. addSLI c b = Inr (u, b') \<and> holds n xs' b' else addSLI c b = Inr (c, b))"
    using a by (intro exI conjI, rule_tac [2] addSLI_holds) (simp_all add: write_defs)
qed

lemma writes_NACK: "writes kKeyGNACK addNACK"
proof (rule writesI)
  fix c b n xs f
  assume a: "holds n xs b" "okBefore f c" "f AND kKeyGNACK \<noteq> 0"
  then obtain fci where "mGenericNACKBuffer c = Some fci" by (auto simp: okBefore_def ready_def)
  then show "\<exists>P u xs'. okAfter kKeyGNACK f c u \<and> (if P then \<exists>b'. addNACK c b = Inr (u, b') \<and> holds n xs' b' else addNACK c b = Inr (c, b))"
    using a by (intro exI conjI, rule_tac [2] addNACK_holds) (simp_all add: write_defs)
qed

lemma writes_TMMBN: "writes kKeyTMMBN addTMMBN"
proof (rule writesI)
  fix c b n xs f
  assume a: "holds n xs b" "okBefore f c" "f AND kKeyTMMBN \<noteq> 0"
  then obtain fci where "mTMMBNBuffer c = Some fci" "length fci = 4" by (auto simp: okBefore_def ready_def limitsOk_def)
  then show "\<exists>P u xs'. okAfter kKeyTMMBN f c u \<and> (if P then \<exists>b'. addTMMBN c b = Inr (u, b') \<and> holds n xs' b' else addTMMBN c b = Inr (c, b))"
    using a by (intro exI conjI, rule_tac [2] addTMMBN_holds) (simp_all add: write_defs)
qed

lemma tmmbrLimit_ok:
  assumes "envOk env" "limitsOk c" "mTMMBRBuffer c \<noteq> None"
  obtains fci where "tmmbrLimit env c = Some fci" "length fci = 4"
  using assms by (cases "m_isWaitingTMMBN c \<and> env_newTMMBR env \<noteq> None") (auto simp: tmmbrLimit_def envOk_def limitsOk_def)

lemma writes_TMMBR: "envOk env \<Longrightarrow> writes kKeyTMMBR (addTMMBR env)"
proof (rule writesI)
  fix c b n xs f
  assume a: "holds n xs b" "okBefore f c" "f AND kKeyTMMBR \<noteq> 0" and env: "envOk env"
  have "limitsOk c" "mTMMBRBuffer c \<noteq> None" using a(2,3) by (auto simp: okBefore_def ready_def)
  then obtain fci where "tmmbrLimit env c = Some fci" "length fci = 4" using tmmbrLimit_ok [OF env] by blast
  then show "\<exists>P u xs'. okAfter kKeyTMMBR f c u \<and> (if P then \<exists>b'. addTMMBR env c b = Inr (u, b') \<and> holds n xs' b' else addTMMBR env c b = Inr (c, b))"
    using a by (intro exI conjI, rule_tac [2] addTMMBR_holds) (simp_all add: write_defs)
qed

section \<open>A packet is always built\<close>

text \<open>The state between two writers, with the feedback \<open>f\<close> still to be added.\<close>

definition building :: "int \<Rightarrow> RTPController \<Rightarrow> 32 word \<Rightarrow> RTPController \<times> rtcp_buffer \<Rightarrow> bool" where
  "building n c0 f x \<longleftrightarrow> (\<exists>xs. holds n xs (snd x)) \<and> okBefore f (fst x) \<and> sameSchedule c0 (fst x)"

lemma whenFlag_writes:
  assumes "writes k add" "building n c0 f x" "f AND k = flags AND k"
  shows "\<exists>x'. whenFlag flags k add x = Inr x' \<and> building n c0 (f AND NOT k) x'"
proof (cases "flags AND k = 0")
  case True
  then show ?thesis
    using assms(2) by (auto simp: whenFlag_def building_def okBefore_def split: prod.splits)
next
  case False
  obtain c b xs where x: "x = (c, b)" "holds n xs b" "okBefore f c" "sameSchedule c0 c"
    using assms(2) by (cases x) (auto simp: building_def)
  then obtain c' b' xs' where "add c b = Inr (c', b')" "holds n xs' b'" "okAfter k f c c'"
    using assms(1,3) False unfolding writes_def by metis
  then show ?thesis
    using x(1,4) False
    by (auto simp: whenFlag_def building_def okAfter_def okBefore_def sameSchedule_def)
qed

lemma addFeedback_ok:
  assumes "envOk env" "holds n xs b" "okBefore (mFeedBackFlag c) c"
  shows "\<exists>c' b' xs'. addFeedback env c b = Inr (c', b') \<and> holds n xs' b' \<and>
     okBefore (mFeedBackFlag c') c' \<and> sameSchedule c c'"
proof -
  let ?f = "mFeedBackFlag c"
  let ?off = "\<lambda>f k. f AND NOT k :: 32 word"
  have x0: "building n c ?f (c, b)"
    using assms(2,3) by (auto simp: building_def sameSchedule_def)
  have "\<exists>g x. (if downlinkActive c then
       bnd (whenFlag ?f kKeyFIR addFIR (c, b)) (\<lambda>x.
       bnd (whenFlag ?f kKeySLI addSLI x) (\<lambda>x.
       bnd (whenFlag ?f kKeyPLI addPLI x) (\<lambda>x.
       bnd (whenFlag ?f kKeyGNACK addNACK x) (\<lambda>x.
       whenFlag ?f kKeyTMMBR (addTMMBR env) x)))) else Inr (c, b)) = Inr x \<and>
     building n c g x \<and> g AND kKeyTMMBN = ?f AND kKeyTMMBN"
  proof (cases "downlinkActive c")
    case True
    obtain x1 where 1: "whenFlag ?f kKeyFIR addFIR (c, b) = Inr x1" "building n c (?off ?f kKeyFIR) x1"
      using whenFlag_writes [OF writes_FIR x0 refl] by blast
    obtain x2 where 2: "whenFlag ?f kKeySLI addSLI x1 = Inr x2" "building n c (?off (?off ?f kKeyFIR) kKeySLI) x2"
      using whenFlag_writes [OF writes_SLI 1(2), of ?f] by (auto simp: key_off)
    obtain x3 where 3: "whenFlag ?f kKeyPLI addPLI x2 = Inr x3"
      "building n c (?off (?off (?off ?f kKeyFIR) kKeySLI) kKeyPLI) x3"
      using whenFlag_writes [OF writes_PLI 2(2), of ?f] by (auto simp: key_off)
    obtain x4 where 4: "whenFlag ?f kKeyGNACK addNACK x3 = Inr x4"
      "building n c (?off (?off (?off (?off ?f kKeyFIR) kKeySLI) kKeyPLI) kKeyGNACK) x4"
      using whenFlag_writes [OF writes_NACK 3(2), of ?f] by (auto simp: key_off)
    obtain x5 where 5: "whenFlag ?f kKeyTMMBR (addTMMBR env) x4 = Inr x5"
      "building n c (?off (?off (?off (?off (?off ?f kKeyFIR) kKeySLI) kKeyPLI) kKeyGNACK) kKeyTMMBR) x5"
      using whenFlag_writes [OF writes_TMMBR [OF assms(1)] 4(2), of ?f] by (auto simp: key_off)
    show ?thesis using True 1(1) 2(1) 3(1) 4(1) 5 by (auto simp: key_off)
  qed (use x0 in auto)
  then obtain g x where x: "(if downlinkActive c then
       bnd (whenFlag ?f kKeyFIR addFIR (c, b)) (\<lambda>x.
       bnd (whenFlag ?f kKeySLI addSLI x) (\<lambda>x.
       bnd (whenFlag ?f kKeyPLI addPLI x) (\<lambda>x.
       bnd (whenFlag ?f kKeyGNACK addNACK x) (\<lambda>x.
       whenFlag ?f kKeyTMMBR (addTMMBR env) x)))) else Inr (c, b)) = Inr x"
     "building n c g x" "g AND kKeyTMMBN = ?f AND kKeyTMMBN" by blast
  obtain x' where "whenFlag ?f kKeyTMMBN addTMMBN x = Inr x'" "building n c (?off g kKeyTMMBN) x'"
    using whenFlag_writes [OF writes_TMMBN x(2,3)] by blast
  then show ?thesis
    using x(1) unfolding addFeedback_def Let_def downlinkActive_def
    by (cases x') (auto simp: building_def okBefore_def)
qed

lemma makeAndsendRTCP_ok:
  assumes "envOk env" "52 \<le> ctl_mMTUSize c" "okBefore (mFeedBackFlag c) c"
  shows "\<exists>c'. makeAndsendRTCP env c = Inr c' \<and> okBefore (mFeedBackFlag c') c' \<and> sameSchedule c c'"
proof -
  let ?n = "ctl_mMTUSize c"
  obtain b u where 1: "addReport env c (newRtcpBuffer ?n) = Inr (u, b)" "holds ?n (reportPart env c) b"
    using addReport_holds [OF assms(1,2), of c] by blast
  obtain b1 ys where 2: "addSDES c b = Inr b1" "holds ?n ys b1"
    using addSDES_holds [OF 1(2)] by blast
  obtain c' b' xs where 3: "addFeedback env c b1 = Inr (c', b')" "holds ?n xs b'"
    "okBefore (mFeedBackFlag c') c'" "sameSchedule c c'"
    using addFeedback_ok [OF assms(1) 2(2) assms(3)] by blast
  show ?thesis
    using 1(1) 2(1) 3 rd_block_holds [OF 3(2)]
    by (simp add: makeAndsendRTCP_def okBefore_def ready_def limitsOk_def sameSchedule_def)
qed

section \<open>The steps of the controller\<close>

inductive ctl_step :: "RTPController \<Rightarrow> RTPController \<Rightarrow> bool" where
  "ctl_step c (onUpdateConfigParams prop nowUs rs rr fbs port c)"
| "ctl_step c (ctlOnAddStream rtpPath c)"
| "ctl_step c (ctlOnStart sndErr rcvErr prop nowUs rtpPath c)"
| "ctl_step c (ctlOnStop rtpPath c)"
| "ctl_step c (ctlOnRemoveStream rtpPath c)"
| "ctl_step c (onUpdatePeerSSRC ssrc c)"
| "ctl_step c (onSetHoState state c)"
| "queueRTCPPacket p t c = Inr (ok, c') \<Longrightarrow> ctl_step c c'"
| "ctl_step c (onSendFIR tc c)"
| "ctl_step c (onReceiveCSD c)"
| "ctl_step c (onSendSLI buffer tc c)"
| "ctl_step c (onSendPLI tc c)"
| "ctl_step c (onSendGenericNack buffer tc c)"
| "(\<And>fci. buffer = Some fci \<Longrightarrow> length fci = 4) \<Longrightarrow> ctl_step c (onSendTMMBR buffer isReduce tc c)"
| "(\<And>fci. buffer = Some fci \<Longrightarrow> length fci = 4) \<Longrightarrow> ctl_step c (onSendTMMBN buffer tc c)"
| "ctlLooper c = xs @ RTCPTimer # ys \<Longrightarrow> ctl_step c (onWhatRTCPTimer (c\<lparr>ctlLooper := xs @ ys\<rparr>))"
| "ctlLooper c = xs @ SendRTCP g # ys \<Longrightarrow> envOk env \<Longrightarrow>
     onWhatSendRTCP env tc g (c\<lparr>ctlLooper := xs @ ys\<rparr>) = Inr c' \<Longrightarrow> ctl_step c c'"
| "ctl_step c (onSetConfigParams rs rr fbs port c)"
| "ctl_step c (onNoRTP info c)"
| "ctl_step c (ctlUpdateSSRC ssrc c)"

definition sendGens :: "RTPController \<Rightarrow> int set" where
  "sendGens c = {g. SendRTCP g \<in> set (ctlLooper c)}"

definition rtcpInv :: "RTPController \<Rightarrow> bool" where
  "rtcpInv c \<longleftrightarrow>
     limitsOk c \<and> ctl_mMTUSize c = imsma_rtp_MTU_size \<and> (\<forall>g \<in> sendGens c. g \<le> mVideoSendRTCPGeneration c) \<and>
     (ready (mFeedBackFlag c) c \<or> \<not> mStartedRTCPSchedule c \<and> mVideoSendRTCPGeneration c \<notin> sendGens c)"

text \<open>Operations that at most withdraw feedback and messages.\<close>

definition calm :: "RTPController \<Rightarrow> RTPController \<Rightarrow> bool" where
  "calm c c' \<longleftrightarrow>
     mSliBuffer c' = mSliBuffer c \<and> mGenericNACKBuffer c' = mGenericNACKBuffer c \<and>
     mTMMBRBuffer c' = mTMMBRBuffer c \<and> mTMMBNBuffer c' = mTMMBNBuffer c \<and>
     (\<exists>m. mFeedBackFlag c' = mFeedBackFlag c AND m) \<and> sendGens c' \<subseteq> sendGens c \<and>
     mStartedRTCPSchedule c' = mStartedRTCPSchedule c \<and> mVideoSendRTCPGeneration c' = mVideoSendRTCPGeneration c \<and>
     ctl_mMTUSize c' = ctl_mMTUSize c"

lemma calm_trans: "calm a b \<Longrightarrow> calm b c \<Longrightarrow> calm a c"
  by (auto simp: calm_def and.assoc)

lemma calmI:
  assumes "mSliBuffer c' = mSliBuffer c" "mGenericNACKBuffer c' = mGenericNACKBuffer c"
     "mTMMBRBuffer c' = mTMMBRBuffer c" "mTMMBNBuffer c' = mTMMBNBuffer c"
     "mFeedBackFlag c' = mFeedBackFlag c AND m" "sendGens c' \<subseteq> sendGens c"
     "mStartedRTCPSchedule c' = mStartedRTCPSchedule c" "mVideoSendRTCPGeneration c' = mVideoSendRTCPGeneration c"
     "ctl_mMTUSize c' = ctl_mMTUSize c"
  shows "calm c c'"
  using assms by (auto simp: calm_def)

lemma calm_same:
  assumes "mSliBuffer c' = mSliBuffer c" "mGenericNACKBuffer c' = mGenericNACKBuffer c"
     "mTMMBRBuffer c' = mTMMBRBuffer c" "mTMMBNBuffer c' = mTMMBNBuffer c"
     "mFeedBackFlag c' = mFeedBackFlag c" "sendGens c' \<subseteq> sendGens c"
     "mStartedRTCPSchedule c' = mStartedRTCPSchedule c" "mVideoSendRTCPGeneration c' = mVideoSendRTCPGeneration c"
     "ctl_mMTUSize c' = ctl_mMTUSize c"
  shows "calm c c'"
  using assms by (intro calmI [of _ _ "- 1"]) simp_all

lemma calm_refl [simp]: "calm c c"
  by (rule calm_same) simp_all

lemma ready_mask: "ready f c \<Longrightarrow> ready (f AND m) c"
  using readyOff [of f c "NOT m"] by simp

lemma ready_cong:
  "mSliBuffer c' = mSliBuffer c \<Longrightarrow> mGenericNACKBuffer c' = mGenericNACKBuffer c \<Longrightarrow>
   mTMMBRBuffer c' = mTMMBRBuffer c \<Longrightarrow> mTMMBNBuffer c' = mTMMBNBuffer c \<Longrightarrow> ready f c' = ready f c"
  by (simp add: ready_def)

lemma ready_or: "ready (f OR g) c \<longleftrightarrow> ready f c \<and> ready g c"
proof -
  have "(f OR g) AND k = 0 \<longleftrightarrow> f AND k = 0 \<and> g AND k = 0" for k
    by (simp add: bit.conj_disj_distrib2 or_eq_0_iff)
  then show ?thesis unfolding ready_def by blast
qed

lemma ready_0 [simp]: "ready 0 c"
  by (simp add: ready_def)

lemma calm_inv: "calm c c' \<Longrightarrow> rtcpInv c \<Longrightarrow> rtcpInv c'"
  unfolding calm_def rtcpInv_def
  by (auto simp: limitsOk_def ready_cong [of c' c] ready_mask)

subsection \<open>Packets that arrive\<close>

lemma calm_postEvent: "calm c (postEvent e c)"
  by (rule calm_same) (simp_all add: postEvent_def sendGens_def)

lemma calm_reportLoop: "reportLoop m off len h b t n i c = Inr c' \<Longrightarrow> calm c c'"
proof (induction n arbitrary: i c)
  case (Suc n)
  then show ?case
    by (auto simp: Let_def bnd_eq_Inr split: if_splits intro: calm_trans [OF calm_postEvent])
qed simp

lemma calm_firLoop: "firLoop m off len i c = Inr c' \<Longrightarrow> calm c c'"
proof (induction m off len i c rule: firLoop.induct)
  case (1 m off len i c)
  show ?case
    using 1(2) unfolding firLoop.simps [of _ _ _ i]
    by (auto simp: bnd_eq_Inr calm_postEvent split: if_splits dest: 1(1))
qed

lemma calm_TMMBN: "onReceiveTMMBN m off len c = Inr c' \<Longrightarrow> calm c c'"
proof -
  define d where "d e = (if mRTPReceiver_get (clearFlag kKeyTMMBR c) then postEvent e (clearFlag kKeyTMMBR c) else clearFlag kKeyTMMBR c)
      \<lparr>m_isWaitingTMMBN := False\<rparr>" for e
  have calm: "calm c (d e)" for e
    by (rule calmI [of _ _ "NOT kKeyTMMBR"]) (simp_all add: d_def clearFlag_def postEvent_def sendGens_def)
  assume "onReceiveTMMBN m off len c = Inr c'"
  then have "c' = c \<or> (\<exists>e. c' = d e)"
    unfolding onReceiveTMMBN_def Let_def bnd_eq_Inr d_def by (auto simp: bnd_eq_Inr split: if_splits) metis
  then show ?thesis using calm by auto
qed

lemma calm_rtcpPart: "rtcpPart m off len b t c = Inr c' \<Longrightarrow> calm c c'"
  by (auto simp: rtcpPart_def Let_def onReceiveFIR_def onReceivePLI_def onReceiveSLI_def onReceiveGenericNACK_def
      onReceiveTMMBR_def bnd_eq_Inr calm_postEvent simp del: reportLoop.simps split: if_splits
      dest: calm_TMMBN calm_firLoop calm_reportLoop calm_trans [OF calm_postEvent calm_reportLoop])

lemma calm_rtcpLoop: "rtcpLoop m sz off b t c = Inr (ok, c') \<Longrightarrow> calm c c'"
proof (induction m sz off b t c rule: rtcpLoop.induct)
  case (1 m sz off b t c)
  show ?case
    using 1(2) unfolding rtcpLoop.simps [of _ _ off]
    by (auto simp: bnd_eq_Inr split: if_splits intro: calm_trans [OF calm_rtcpPart] dest!: 1(1))
qed

lemma calm_queueRTCPPacket: "queueRTCPPacket p t c = Inr (ok, c') \<Longrightarrow> calm c c'"
proof -
  have "calm c (c\<lparr>mReceiveRTCPPacket := True, m_avg_rtcp_size := a\<rparr>)" for a
    by (rule calm_same) (simp_all add: sendGens_def)
  then show "queueRTCPPacket p t c = Inr (ok, c') \<Longrightarrow> calm c c'"
    by (auto simp: queueRTCPPacket_def Let_def bnd_eq_Inr split: if_splits intro: calm_trans dest!: calm_rtcpLoop)
qed

subsection \<open>The schedule\<close>

lemma inv_startScheduleRTCP: "rtcpInv c \<Longrightarrow> rtcpInv (startScheduleRTCP prop nowUs c)"
proof -
  assume inv: "rtcpInv c"
  let ?t = "startRtcpTimer prop c"
  have t: "rtcpInv ?t"
    by (rule calm_inv [OF calm_same inv]) (auto simp: startRtcpTimer_def sendGens_def)
  then have "rtcpInv ((startSendRTCPPacket
          (?t\<lparr>mFeedBackFlag := 0, mRTCPMode := REGULAR_MODE, mRTCPScheduleTimeUs := word_of_int nowUs,
             m_Trr_last := 0, m_AllowEarlyRtcp := True, mRTCP_tp := word_of_int nowUs,
             mLastRTCP_videoRTPSentCount := 0, m_avg_rtcp_size := 52\<rparr>))\<lparr>mStartedRTCPSchedule := True\<rparr>)"
    by (auto simp: rtcpInv_def startSendRTCPPacket_def sendGens_def limitsOk_def)
  then show ?thesis using t by (simp add: startScheduleRTCP_def Let_def)
qed

lemma inv_stopScheduleRTCP: "rtcpInv c \<Longrightarrow> rtcpInv (stopScheduleRTCP c)"
  by (fastforce simp: stopScheduleRTCP_def Let_def stopRtcpTimer_def rtcpInv_def sendGens_def limitsOk_def ready_def)

lemma inv_addFlag:
  assumes "rtcpInv c" "ready k c"
  shows "rtcpInv (c\<lparr>mFeedBackFlag := mFeedBackFlag c OR k\<rparr>)"
proof -
  let ?c = "c\<lparr>mFeedBackFlag := mFeedBackFlag c OR k\<rparr>"
  have "ready (mFeedBackFlag ?c) ?c \<longleftrightarrow> ready (mFeedBackFlag c) c"
    using assms(2) by (simp add: ready_or ready_cong [of ?c c])
  then show ?thesis using assms(1) by (simp add: rtcpInv_def limitsOk_def sendGens_def)
qed

lemma inv_checkAndAddFB:
  assumes "rtcpInv c" "ready k c"
  shows "rtcpInv (checkAndAddFB k d tc c)"
proof -
  have "rtcpInv (startSendRTCPPacket
          (c\<lparr>mVideoSendRTCPGeneration := mVideoSendRTCPGeneration c + 1, mRTCP_tp := mRTCPScheduleTimeUs c,
             m_AllowEarlyRtcp := False, mFeedBackFlag := mFeedBackFlag c OR k,
             mRTCPMode := IMMEDIATE_MODE, mRTCPScheduleTimeUs := word_of_int tc\<rparr>))" if "mFeedBackFlag c = 0"
    using assms that by (fastforce simp: rtcpInv_def limitsOk_def sendGens_def startSendRTCPPacket_def ready_def)
  then show ?thesis
    using assms(1) inv_addFlag [OF assms] by (cases "mFeedBackFlag c = 0") (simp_all add: checkAndAddFB_def Let_def)
qed

subsection \<open>Feedback that is asked for\<close>

lemma ready_simple [simp]: "ready kKeyFIR c" "ready kKeyPLI c"
  by (simp_all add: ready_def key_bits)

lemma ready_buffer:
  "mSliBuffer c \<noteq> None \<Longrightarrow> ready kKeySLI c" "mGenericNACKBuffer c \<noteq> None \<Longrightarrow> ready kKeyGNACK c"
  "mTMMBRBuffer c \<noteq> None \<Longrightarrow> ready kKeyTMMBR c" "mTMMBNBuffer c \<noteq> None \<Longrightarrow> ready kKeyTMMBN c"
  by (simp_all add: ready_def key_bits)

lemma inv_buffer:
  assumes "rtcpInv c"
  shows "rtcpInv (c\<lparr>mSliBuffer := Some x\<rparr>)" "rtcpInv (c\<lparr>mGenericNACKBuffer := Some x\<rparr>)"
    "length x = 4 \<Longrightarrow> rtcpInv (c\<lparr>mTMMBRBuffer := Some x\<rparr>)" "length x = 4 \<Longrightarrow> rtcpInv (c\<lparr>mTMMBNBuffer := Some x\<rparr>)"
  using assms by (auto simp: rtcpInv_def limitsOk_def ready_def sendGens_def)

lemma inv_onSendFIR: "rtcpInv c \<Longrightarrow> rtcpInv (onSendFIR tc c)"
proof -
  assume inv: "rtcpInv c"
  have "rtcpInv (c\<lparr>mFIRLastSeqNum := mFIRLastSeqNum c + 1\<rparr>)"
    by (rule calm_inv [OF calm_same inv]) (simp_all add: sendGens_def)
  then show ?thesis using inv by (simp add: onSendFIR_def inv_checkAndAddFB)
qed

lemma inv_onReceiveCSD: "rtcpInv c \<Longrightarrow> rtcpInv (onReceiveCSD c)"
  by (erule calm_inv [rotated], rule calmI [of _ _ "NOT kKeyFIR"])
    (simp_all add: onReceiveCSD_def clearFlag_def sendGens_def)

lemma inv_onSendSLI: "rtcpInv c \<Longrightarrow> rtcpInv (onSendSLI buffer tc c)"
  by (auto simp: onSendSLI_def intro!: inv_checkAndAddFB inv_buffer ready_buffer)

lemma inv_onSendPLI: "rtcpInv c \<Longrightarrow> rtcpInv (onSendPLI tc c)"
  by (simp add: onSendPLI_def inv_checkAndAddFB)

lemma inv_onSendGenericNack: "rtcpInv c \<Longrightarrow> rtcpInv (onSendGenericNack buffer tc c)"
  by (auto simp: onSendGenericNack_def intro!: inv_checkAndAddFB inv_buffer ready_buffer)

lemma calm_noteTMMBR: "calm c (noteTMMBR c)"
  by (rule calm_same) (simp_all add: noteTMMBR_def sendGens_def)

lemma inv_onSendTMMBR:
  assumes "rtcpInv c" "\<And>fci. buffer = Some fci \<Longrightarrow> length fci = 4"
  shows "rtcpInv (onSendTMMBR buffer isReduce tc c)"
proof (cases buffer)
  case (Some fci)
  let ?c = "(noteTMMBR c)\<lparr>mTMMBRBuffer := buffer\<rparr>"
  have "rtcpInv (noteTMMBR c)" using calm_inv [OF calm_noteTMMBR assms(1)] .
  moreover have "rtcpInv ?c" unfolding Some using assms(2) Some by (intro inv_buffer(3) calculation) simp
  moreover have "ready kKeyTMMBR ?c" using Some by (intro ready_buffer) simp
  ultimately show ?thesis
    using assms(1) inv_addFlag [of ?c kKeyTMMBR] inv_checkAndAddFB [of ?c kKeyTMMBR]
    by (simp add: onSendTMMBR_def Let_def)
qed (use assms(1) in \<open>simp add: onSendTMMBR_def\<close>)

lemma inv_onSendTMMBN:
  assumes "rtcpInv c" "\<And>fci. buffer = Some fci \<Longrightarrow> length fci = 4"
  shows "rtcpInv (onSendTMMBN buffer tc c)"
proof (cases buffer)
  case (Some fci)
  let ?c = "(noteTMMBR c)\<lparr>mTMMBNBuffer := buffer\<rparr>"
  have "rtcpInv (noteTMMBR c)" using calm_inv [OF calm_noteTMMBR assms(1)] .
  moreover have "rtcpInv ?c" unfolding Some using assms(2) Some by (intro inv_buffer(4) calculation) simp
  moreover have "ready kKeyTMMBN ?c" using Some by (intro ready_buffer) simp
  ultimately show ?thesis
    using assms(1) inv_checkAndAddFB [of ?c kKeyTMMBN] by (simp add: onSendTMMBN_def Let_def)
qed (use assms(1) in \<open>simp add: onSendTMMBN_def\<close>)

subsection \<open>Streams and parameters\<close>

lemma calm_ctlOnAddStream: "calm c (ctlOnAddStream rtpPath c)"
  by (rule calm_same) (simp_all add: ctlOnAddStream_def Let_def sendGens_def postEvent_def)

lemma calm_ctlOnStop: "calm c (ctlOnStop rtpPath c)"
  by (rule calm_same) (simp_all add: ctlOnStop_def Let_def sendGens_def postEvent_def)

lemma calm_startUplink: "calm c (startUplink c)"
  by (rule calm_same) (simp_all add: startUplink_def sendGens_def postEvent_def)

lemma calm_startDownlink: "calm c (startDownlink c)"
  by (rule calm_same) (simp_all add: startDownlink_def Let_def sendGens_def postEvent_def)

lemma calm_removeUplink: "calm c (removeUplink c)"
  by (rule calm_same) (simp_all add: removeUplink_def Let_def sendGens_def postEvent_def)

lemma calm_removeDownlink: "calm c (removeDownlink c)"
  by (rule calm_same) (simp_all add: removeDownlink_def Let_def sendGens_def postEvent_def)

text \<open>Updates of fields that the invariant does not read.\<close>

lemma inv_fields [simp]:
  "rtcpInv (c\<lparr>mVideoRTCPSocketWrapper_get := x1\<rparr>) = rtcpInv c"
  "rtcpInv (c\<lparr>mVideoRTPSender_get := x1\<rparr>) = rtcpInv c"
  "rtcpInv (c\<lparr>mRTPReceiver_get := x1\<rparr>) = rtcpInv c"
  "rtcpInv (c\<lparr>mAddedTrack := x2\<rparr>) = rtcpInv c"
  "rtcpInv (c\<lparr>remote_rtcp_port := x2\<rparr>) = rtcpInv c"
  "rtcpInv (c\<lparr>rtcp_sender_bandwidth := x3, rtcp_receiver_bandwidth := x4, rtcp_fb_type := x5, m_Trr_interval := x6\<rparr>) = rtcpInv c"
  "rtcpInv (postEvent e c) = rtcpInv c"
  by (simp_all add: rtcpInv_def limitsOk_def ready_def sendGens_def postEvent_def)

lemma inv_ctlOnStart: "rtcpInv c \<Longrightarrow> rtcpInv (ctlOnStart sndErr rcvErr prop nowUs rtpPath c)"
  by (simp add: ctlOnStart_def Let_def inv_startScheduleRTCP calm_inv [OF calm_startUplink] calm_inv [OF calm_startDownlink])

lemma inv_ctlOnRemoveStream: "rtcpInv c \<Longrightarrow> rtcpInv (ctlOnRemoveStream rtpPath c)"
  by (simp add: ctlOnRemoveStream_def Let_def inv_stopScheduleRTCP calm_inv [OF calm_removeUplink] calm_inv [OF calm_removeDownlink])

lemma inv_onSetConfigParams: "rtcpInv c \<Longrightarrow> rtcpInv (onSetConfigParams rs rr fbs port c)"
  by (simp add: onSetConfigParams_def calm_inv [OF calm_noteTMMBR])

lemma inv_onUpdateConfigParams: "rtcpInv c \<Longrightarrow> rtcpInv (onUpdateConfigParams prop nowUs rs rr fbs port c)"
  by (simp add: onUpdateConfigParams_def inv_onSetConfigParams updateRtcpParams_def Let_def inv_startScheduleRTCP
      inv_stopScheduleRTCP calm_inv [OF calm_noteTMMBR])

subsection \<open>Messages\<close>

lemma calm_taken: "ctlLooper c = xs @ m # ys \<Longrightarrow> calm c (c\<lparr>ctlLooper := xs @ ys\<rparr>)"
  by (rule calm_same) (auto simp: sendGens_def)

lemma calm_onWhatRTCPTimer: "calm c (onWhatRTCPTimer c)"
  by (rule calm_same) (simp_all add: onWhatRTCPTimer_def Let_def sendGens_def postEvent_def)

lemma onSendRTCP_ok:
  assumes "rtcpInv c" "ready (mFeedBackFlag c) c" "envOk env" "g = mVideoSendRTCPGeneration c"
  shows "\<exists>c'. onSendRTCP env tc g c = Inr c' \<and> rtcpInv c' \<and>
     (0 \<le> calculateNextInterval c \<longrightarrow> ctlLooper c' = ctlLooper c @ [SendRTCP g] \<and> mVideoSendRTCPGeneration c' = g \<and>
        mStartedRTCPSchedule c' = mStartedRTCPSchedule c)"
proof (cases "calculateNextInterval c < 0")
  case True
  then show ?thesis using inv_stopScheduleRTCP [OF assms(1)] by (simp add: onSendRTCP_def Let_def)
next
  case False
  let ?d = "if mRTCPMode c = REGULAR_MODE then
              (if mFeedBackFlag c = 0 then
                 if m_Trr_interval c > 0 \<and> word_of_int tc - m_Trr_last c < m_Trr_interval c
                 then (True, c\<lparr>m_AllowEarlyRtcp := True, mRTCP_tp := word_of_int tc\<rparr>)
                 else (False, c\<lparr>m_Trr_last := word_of_int tc, m_AllowEarlyRtcp := True, mRTCP_tp := word_of_int tc\<rparr>)
               else (False, c\<lparr>m_AllowEarlyRtcp := True, mRTCP_tp := word_of_int tc\<rparr>))
            else (False, c\<lparr>m_AllowEarlyRtcp := False\<rparr>)"
  obtain drop d where d: "?d = (drop, d)" by fastforce
  have eq: "onSendRTCP env tc g c =
      bnd (if drop then Inr d else makeAndsendRTCP env d) (\<lambda>c'.
      Inr (c'\<lparr>mRTCPScheduleTimeUs := mRTCP_tp d + word_of_int (calculateNextInterval c), mRTCPMode := REGULAR_MODE,
             ctlLooper := ctlLooper c' @ [SendRTCP g]\<rparr>))"
    using False d
    by (cases "mRTCPMode c = REGULAR_MODE"; cases "mFeedBackFlag c = 0";
        cases "m_Trr_interval c > 0 \<and> word_of_int tc - m_Trr_last c < m_Trr_interval c")
      (simp_all add: onSendRTCP_def Let_def, auto)
  have d': "d = snd ?d" unfolding d by simp
  have calm: "calm c d" unfolding d' by (rule calm_same) (simp_all add: sendGens_def)
  have looper: "ctlLooper d = ctlLooper c" "mStartedRTCPSchedule d = mStartedRTCPSchedule c" unfolding d' by simp_all
  have inv: "rtcpInv d" and gen: "mVideoSendRTCPGeneration d = g" and rdy: "ready (mFeedBackFlag d) d"
    using calm_inv [OF calm assms(1)] calm assms(2,4) by (auto simp: calm_def ready_cong [of d c] ready_mask)
  have "\<exists>c'. (if drop then Inr d else makeAndsendRTCP env d) = Inr c' \<and> okBefore (mFeedBackFlag c') c' \<and> sameSchedule d c'"
    using makeAndsendRTCP_ok [OF assms(3), of d] inv rdy
    by (auto simp: rtcpInv_def okBefore_def imsma_rtp_MTU_size_def sameSchedule_def)
  then obtain c' where c': "(if drop then Inr d else makeAndsendRTCP env d) = Inr c'"
    "okBefore (mFeedBackFlag c') c'" "sameSchedule d c'" by blast
  have "rtcpInv (c'\<lparr>mRTCPScheduleTimeUs := x, mRTCPMode := REGULAR_MODE, ctlLooper := ctlLooper c' @ [SendRTCP g]\<rparr>)" for x
    using c'(2,3) inv gen by (auto simp: rtcpInv_def limitsOk_def ready_def sendGens_def okBefore_def sameSchedule_def)
  then show ?thesis using c'(3) gen looper unfolding eq c'(1) by (auto simp: sameSchedule_def)
qed

lemma onWhatSendRTCP_ok:
  assumes "rtcpInv c" "ctlLooper c = xs @ SendRTCP g # ys" "envOk env"
  shows "\<exists>c'. onWhatSendRTCP env tc g (c\<lparr>ctlLooper := xs @ ys\<rparr>) = Inr c' \<and> rtcpInv c'"
proof -
  let ?c = "c\<lparr>ctlLooper := xs @ ys\<rparr>"
  have inv: "rtcpInv ?c" using calm_inv [OF calm_taken [OF assms(2)] assms(1)] .
  show ?thesis
  proof (cases "mVideoSendRTCPGeneration c = g")
    case True
    then have "ready (mFeedBackFlag c) c" using assms(1,2) by (auto simp: rtcpInv_def sendGens_def)
    then have "ready (mFeedBackFlag ?c) ?c" by (simp add: ready_def)
    then show ?thesis using onSendRTCP_ok [OF inv _ assms(3), of g tc] True by (auto simp: onWhatSendRTCP_def)
  qed (use inv in \<open>simp add: onWhatSendRTCP_def\<close>)
qed

lemma inv_new: "rtcpInv (newRTPController ssrc cname op)"
  by (simp add: rtcpInv_def newRTPController_def limitsOk_def sendGens_def ready_def)

lemma calm_peer: "calm c (onUpdatePeerSSRC ssrc c)" "calm c (onSetHoState state c)" "calm c (onNoRTP info c)"
  "calm c (ctlUpdateSSRC ssrc c)"
  by (rule calm_same; simp add: onUpdatePeerSSRC_def onSetHoState_def onNoRTP_def ctlUpdateSSRC_def sendGens_def)+

lemma inv_step: "ctl_step c c' \<Longrightarrow> rtcpInv c \<Longrightarrow> rtcpInv c'"
proof (induction rule: ctl_step.induct)
  case (17 c xs g ys env tc c')
  then show ?case using onWhatSendRTCP_ok [of c xs g ys env tc] by auto
qed (auto intro: inv_onUpdateConfigParams inv_onSetConfigParams calm_inv [OF calm_ctlOnAddStream] inv_ctlOnStart calm_inv [OF calm_ctlOnStop]
    inv_ctlOnRemoveStream calm_inv [OF calm_peer(1)] calm_inv [OF calm_peer(2)] calm_inv [OF calm_peer(3)] calm_inv [OF calm_peer(4)] calm_inv [OF calm_queueRTCPPacket]
    inv_onSendFIR inv_onReceiveCSD inv_onSendSLI inv_onSendPLI inv_onSendGenericNack inv_onSendTMMBR inv_onSendTMMBN
    calm_inv [OF calm_onWhatRTCPTimer] calm_inv [OF calm_taken])

lemma inv_reachable: "ctl_step\<^sup>*\<^sup>* c c' \<Longrightarrow> rtcpInv c \<Longrightarrow> rtcpInv c'"
  by (induction rule: rtranclp_induct) (auto intro: inv_step)

text \<open>C18. In every state that a controller can reach, by parameters, streams that are added, started, stopped and
  removed, packets that arrive, feedback that is asked for and messages in any order, handling a
  \<open>kWhatSendRTCP\<close> message does not fail: no buffer that a feedback flag announces is missing, although
  stopping the schedule drops the buffers and keeps the flags, and no part leaves the packet's memory.
\<close>

theorem rtcp_sending_never_faults:
  assumes "ctl_step\<^sup>*\<^sup>* (newRTPController ssrc cname op) c" "ctlLooper c = xs @ SendRTCP g # ys" "envOk env"
  shows "\<exists>c'. onWhatSendRTCP env tc g (c\<lparr>ctlLooper := xs @ ys\<rparr>) = Inr c'"
  using onWhatSendRTCP_ok [OF inv_reachable [OF assms(1) inv_new] assms(2,3)] by blast

definition sliEnv :: rtcp_env where
  "sliEnv = \<lparr>env_RTPSentCount = 5, env_senderInfo = replicate 20 0, env_reportBlock = None, env_newTMMBR = None\<rparr>"

definition sliState :: RTPController where
  "sliState = onSendSLI (Some [1, 2, 3, 4]) 0 (ctlOnStart False False None 0 IMSMA_RTP_UP_DOWN_LINK
     (ctlOnAddStream IMSMA_RTP_UP_DOWN_LINK (onSetConfigParams 1000 1000 [(2, 3)] 5000 (newRTPController 7 [] 0))))"

lemma rtcp_sending_never_faults_witness:
  "ctlLooper sliState = [RTCPTimer, SendRTCP 0] @ SendRTCP 1 # [] \<and> mSliBuffer sliState = Some [1, 2, 3, 4] \<and>
   (\<exists>c'. onWhatSendRTCP sliEnv 0 1 (sliState\<lparr>ctlLooper := [RTCPTimer, SendRTCP 0] @ []\<rparr>) = Inr c')"
proof -
  let ?n = "newRTPController 7 [] 0"
  let ?q = "onSetConfigParams 1000 1000 [(2, 3)] 5000 ?n" and ?p = "ctlOnAddStream IMSMA_RTP_UP_DOWN_LINK
    (onSetConfigParams 1000 1000 [(2, 3)] 5000 (newRTPController 7 [] 0))"
  have "ctl_step ?n ?q" "ctl_step ?q ?p" "ctl_step ?p (ctlOnStart False False None 0 IMSMA_RTP_UP_DOWN_LINK ?p)"
    "ctl_step (ctlOnStart False False None 0 IMSMA_RTP_UP_DOWN_LINK ?p) sliState"
    unfolding sliState_def by (intro ctl_step.intros)+
  then have reach: "ctl_step\<^sup>*\<^sup>* ?n sliState" by auto
  have looper: "ctlLooper sliState = [RTCPTimer, SendRTCP 0] @ SendRTCP 1 # []" by code_simp
  have "mSliBuffer sliState = Some [1, 2, 3, 4]" by code_simp
  moreover have "envOk sliEnv" by (simp add: envOk_def sliEnv_def)
  ultimately show ?thesis using rtcp_sending_never_faults [OF reach looper, of sliEnv 0] looper by blast
qed

end
