(* ===== verification/RtcpLifecycle.thy ===== *)
theory RtcpLifecycle
  imports RtcpSafety
begin

text \<open>
  What goes wrong over several steps of the controller: feedback that is asked for while the schedule is
  stopped starts a second chain of packets, a timer that is stopped and started again keeps its old
  message, and a downlink that is removed while active is never started again.
\<close>

section \<open>Two chains of packets\<close>

definition sendCount :: "RTPController \<Rightarrow> nat" where
  "sendCount c = count_list (ctlLooper c) (SendRTCP (mVideoSendRTCPGeneration c))"

text \<open>Messages \<open>kWhatSendRTCP\<close> are handled while the bandwidth allows RTCP.\<close>

inductive rtcp_turn :: "RTPController \<Rightarrow> RTPController \<Rightarrow> bool" where
  "ctlLooper c = xs @ SendRTCP g # ys \<Longrightarrow> envOk env \<Longrightarrow> 0 \<le> calculateNextInterval c \<Longrightarrow>
     onWhatSendRTCP env tc g (c\<lparr>ctlLooper := xs @ ys\<rparr>) = Inr c' \<Longrightarrow> rtcp_turn c c'"

lemma interval_looper [simp]: "calculateNextInterval (c\<lparr>ctlLooper := l\<rparr>) = calculateNextInterval c"
  by (simp add: calculateNextInterval_def Let_def split: prod.split)

lemma rtcp_turn_keeps:
  assumes "rtcp_turn c c'" "rtcpInv c"
  shows "rtcpInv c' \<and> sendCount c' = sendCount c \<and> mStartedRTCPSchedule c' = mStartedRTCPSchedule c"
  using assms
proof (induction rule: rtcp_turn.induct)
  case (1 c xs g ys env tc c')
  let ?c = "c\<lparr>ctlLooper := xs @ ys\<rparr>"
  have inv: "rtcpInv ?c" using calm_inv [OF calm_taken [OF 1(1)] 1(5)] .
  show ?case
  proof (cases "mVideoSendRTCPGeneration c = g")
    case True
    then have "ready (mFeedBackFlag c) c" using 1(1,5) by (auto simp: rtcpInv_def sendGens_def)
    then have rdy: "ready (mFeedBackFlag ?c) ?c" by (simp add: ready_def)
    have "onSendRTCP env tc g ?c = Inr c'" using 1(4) True by (simp add: onWhatSendRTCP_def)
    then have "rtcpInv c' \<and> ctlLooper c' = xs @ ys @ [SendRTCP g] \<and> mVideoSendRTCPGeneration c' = g \<and>
        mStartedRTCPSchedule c' = mStartedRTCPSchedule c"
      using onSendRTCP_ok [OF inv rdy 1(2), of g tc] True 1(3) by auto
    then show ?thesis using 1(1) True by (simp add: sendCount_def)
  next
    case False
    then show ?thesis using 1(1,4) inv by (auto simp: onWhatSendRTCP_def sendCount_def)
  qed
qed

lemma rtcp_turn_generation:
  assumes "rtcp_turn c c'" "rtcpInv c"
  shows "mVideoSendRTCPGeneration c' = mVideoSendRTCPGeneration c"
  using assms
proof (induction rule: rtcp_turn.induct)
  case (1 c xs g ys env tc c')
  let ?c = "c\<lparr>ctlLooper := xs @ ys\<rparr>"
  have inv: "rtcpInv ?c" using calm_inv [OF calm_taken [OF 1(1)] 1(5)] .
  show ?case
  proof (cases "mVideoSendRTCPGeneration c = g")
    case True
    then have "ready (mFeedBackFlag c) c" using 1(1,5) by (auto simp: rtcpInv_def sendGens_def)
    then have rdy: "ready (mFeedBackFlag ?c) ?c" by (simp add: ready_def)
    have "onSendRTCP env tc g ?c = Inr c'" using 1(4) True by (simp add: onWhatSendRTCP_def)
    then show ?thesis using onSendRTCP_ok [OF inv rdy 1(2), of g tc] True 1(3) by auto
  next
    case False
    then show ?thesis using 1(4) by (auto simp: onWhatSendRTCP_def)
  qed
qed

lemma early_FIR:
  assumes "rtcpInv c" "mFeedBackFlag c = 0" "m_AllowEarlyRtcp c" "supports IMSMA_CCM [IMSMA_FIR] c"
  shows "sendCount (onSendFIR tc c) = 1 \<and> mStartedRTCPSchedule (onSendFIR tc c) = mStartedRTCPSchedule c"
proof -
  have "SendRTCP (mVideoSendRTCPGeneration c + 1) \<notin> set (ctlLooper c)"
    using assms(1) by (auto simp: rtcpInv_def sendGens_def)
  then have "count_list (ctlLooper c) (SendRTCP (mVideoSendRTCPGeneration c + 1)) = 0"
    by (simp add: count_list_0_iff)
  then show ?thesis
    using assms(2-4) by (simp add: onSendFIR_def checkAndAddFB_def Let_def startSendRTCPPacket_def sendCount_def)
qed

lemma start_second:
  assumes "\<not> mStartedRTCPSchedule c"
  shows "sendCount (startScheduleRTCP prop nowUs c) = sendCount c + 1"
  using assms by (simp add: startScheduleRTCP_def Let_def startRtcpTimer_def startSendRTCPPacket_def sendCount_def)

text \<open>Reading a packet leaves the schedule alone.\<close>

lemma sameSchedule_refl [simp]: "sameSchedule c c" by (simp add: sameSchedule_def)

lemma sameSchedule_trans: "sameSchedule a b \<Longrightarrow> sameSchedule b c \<Longrightarrow> sameSchedule a c"
  by (simp add: sameSchedule_def)

lemma sameSchedule_post: "sameSchedule c (postEvent e c)"
  by (simp add: sameSchedule_def postEvent_def)

lemma sameSchedule_reportLoop: "reportLoop m off len h b t n i c = Inr c' \<Longrightarrow> sameSchedule c c'"
proof (induction n arbitrary: i c)
  case (Suc n)
  then show ?case
    by (auto simp: Let_def bnd_eq_Inr split: if_splits intro: sameSchedule_trans [OF sameSchedule_post])
qed simp

lemma sameSchedule_firLoop: "firLoop m off len i c = Inr c' \<Longrightarrow> sameSchedule c c'"
proof (induction m off len i c rule: firLoop.induct)
  case (1 m off len i c)
  show ?case
    using 1(2) unfolding firLoop.simps [of _ _ _ i]
    by (auto simp: bnd_eq_Inr sameSchedule_post split: if_splits dest: 1(1))
qed

lemma sameSchedule_TMMBN: "onReceiveTMMBN m off len c = Inr c' \<Longrightarrow> sameSchedule c c'"
proof -
  define d where "d e = (if mRTPReceiver_get (clearFlag kKeyTMMBR c) then postEvent e (clearFlag kKeyTMMBR c) else clearFlag kKeyTMMBR c)
      \<lparr>m_isWaitingTMMBN := False\<rparr>" for e
  have same: "sameSchedule c (d e)" for e
    by (simp add: sameSchedule_def d_def clearFlag_def postEvent_def)
  assume "onReceiveTMMBN m off len c = Inr c'"
  then have "c' = c \<or> (\<exists>e. c' = d e)"
    unfolding onReceiveTMMBN_def Let_def bnd_eq_Inr d_def by (auto simp: bnd_eq_Inr split: if_splits) metis
  then show ?thesis using same by auto
qed

lemma sameSchedule_rtcpPart: "rtcpPart m off len b t c = Inr c' \<Longrightarrow> sameSchedule c c'"
  by (auto simp: rtcpPart_def Let_def onReceiveFIR_def onReceivePLI_def onReceiveSLI_def onReceiveGenericNACK_def
      onReceiveTMMBR_def bnd_eq_Inr sameSchedule_post simp del: reportLoop.simps split: if_splits
      dest: sameSchedule_TMMBN sameSchedule_firLoop sameSchedule_reportLoop
        sameSchedule_trans [OF sameSchedule_post sameSchedule_reportLoop])

lemma sameSchedule_rtcpLoop: "rtcpLoop m sz off b t c = Inr (ok, c') \<Longrightarrow> sameSchedule c c'"
proof (induction m sz off b t c rule: rtcpLoop.induct)
  case (1 m sz off b t c)
  show ?case
    using 1(2) unfolding rtcpLoop.simps [of _ _ off]
    by (auto simp: bnd_eq_Inr split: if_splits intro: sameSchedule_trans [OF sameSchedule_rtcpPart] dest!: 1(1))
qed

lemma sameSchedule_queueRTCPPacket: "queueRTCPPacket p t c = Inr (ok, c') \<Longrightarrow> sameSchedule c c'"
  by (auto simp: queueRTCPPacket_def Let_def bnd_eq_Inr sameSchedule_def split: if_splits dest!: sameSchedule_rtcpLoop)

text \<open>
  How the schedule evolves: generations only grow, and within one generation a started schedule stays started and the
  messages of the generation keep their number, unless the schedule is started.
\<close>

definition evolves :: "RTPController \<Rightarrow> RTPController \<Rightarrow> bool" where
  "evolves c c' \<longleftrightarrow> mVideoSendRTCPGeneration c \<le> mVideoSendRTCPGeneration c' \<and>
     (mVideoSendRTCPGeneration c' = mVideoSendRTCPGeneration c \<longrightarrow>
        (mStartedRTCPSchedule c \<longrightarrow> mStartedRTCPSchedule c') \<and>
        (mStartedRTCPSchedule c' = mStartedRTCPSchedule c \<longrightarrow> sendCount c' = sendCount c))"

lemma evolves_trans: "evolves a b \<Longrightarrow> evolves b c \<Longrightarrow> evolves a c"
  unfolding evolves_def by auto

lemma evolves_same: "sameSchedule c c' \<Longrightarrow> evolves c c'"
  by (simp add: sameSchedule_def evolves_def sendCount_def)

lemma evolves_fields [simp]:
  "evolves c (c'\<lparr>mVideoRTCPSocketWrapper_get := x1\<rparr>) = evolves c c'"
  "evolves c (c'\<lparr>mVideoRTPSender_get := x1\<rparr>) = evolves c c'"
  "evolves c (c'\<lparr>mRTPReceiver_get := x1\<rparr>) = evolves c c'"
  "evolves c (c'\<lparr>mAddedTrack := x2\<rparr>) = evolves c c'"
  "evolves c (c'\<lparr>remote_rtcp_port := x2\<rparr>) = evolves c c'"
  "evolves c (c'\<lparr>mSliBuffer := x7\<rparr>) = evolves c c'"
  "evolves c (c'\<lparr>mGenericNACKBuffer := x7\<rparr>) = evolves c c'"
  "evolves c (c'\<lparr>mTMMBRBuffer := x7\<rparr>) = evolves c c'"
  "evolves c (c'\<lparr>mTMMBNBuffer := x7\<rparr>) = evolves c c'"
  "evolves c (c'\<lparr>mFeedBackFlag := x8\<rparr>) = evolves c c'"
  "evolves c (c'\<lparr>mFIRLastSeqNum := x9\<rparr>) = evolves c c'"
  "evolves c (c'\<lparr>rtcp_sender_bandwidth := x3, rtcp_receiver_bandwidth := x4, rtcp_fb_type := x5, m_Trr_interval := x6\<rparr>) = evolves c c'"
  "evolves c (postEvent e c') = evolves c c'"
  "evolves c c"
  by (simp_all add: evolves_def sendCount_def postEvent_def)

lemma evolves_start: "evolves c c' \<Longrightarrow> evolves c (startScheduleRTCP prop nowUs c')"
  by (rule evolves_trans) (auto simp: evolves_def startScheduleRTCP_def Let_def startRtcpTimer_def startSendRTCPPacket_def sendCount_def)

lemma evolves_stop: "evolves c c' \<Longrightarrow> evolves c (stopScheduleRTCP c')"
  by (rule evolves_trans) (auto simp: evolves_def stopScheduleRTCP_def Let_def stopRtcpTimer_def sendCount_def)

lemma evolves_feedback: "evolves c c' \<Longrightarrow> evolves c (checkAndAddFB k d tc c')"
  by (rule evolves_trans) (auto simp: evolves_def checkAndAddFB_def Let_def startSendRTCPPacket_def sendCount_def)

lemma evolves_parts:
  "evolves c c' \<Longrightarrow> evolves c (noteTMMBR c')" "evolves c c' \<Longrightarrow> evolves c (startUplink c')"
  "evolves c c' \<Longrightarrow> evolves c (startDownlink c')" "evolves c c' \<Longrightarrow> evolves c (removeUplink c')"
  "evolves c c' \<Longrightarrow> evolves c (removeDownlink c')" "evolves c c' \<Longrightarrow> evolves c (clearFlag k c')"
  by (erule evolves_trans, rule evolves_same, simp add: sameSchedule_def noteTMMBR_def startUplink_def startDownlink_def
      removeUplink_def removeDownlink_def clearFlag_def postEvent_def Let_def)+

lemma ctl_step_evolves:
  assumes "ctl_step c c'" "rtcpInv c" "0 \<le> calculateNextInterval c"
  shows "evolves c c'"
  using assms
proof (induction rule: ctl_step.induct)
  case (2 c rtpPath)
  show ?case by (rule evolves_same) (simp add: sameSchedule_def ctlOnAddStream_def postEvent_def Let_def)
next
  case (4 c rtpPath)
  show ?case by (rule evolves_same) (simp add: sameSchedule_def ctlOnStop_def postEvent_def Let_def)
next
  case (6 c ssrc)
  show ?case by (rule evolves_same) (simp add: sameSchedule_def onUpdatePeerSSRC_def)
next
  case (7 c state)
  show ?case by (rule evolves_same) (simp add: sameSchedule_def onSetHoState_def)
next
  case (19 c info)
  show ?case by (rule evolves_same) (simp add: sameSchedule_def onNoRTP_def)
next
  case (20 c ssrc)
  show ?case by (rule evolves_same) (simp add: sameSchedule_def ctlUpdateSSRC_def)
next
  case (8 p t c ok c')
  then show ?case by (intro evolves_same sameSchedule_queueRTCPPacket)
next
  case (16 c xs ys)
  then show ?case by (simp add: evolves_def onWhatRTCPTimer_def Let_def postEvent_def sendCount_def)
next
  case (17 c xs g ys env tc c')
  then have "rtcp_turn c c'" by (intro rtcp_turn.intros)
  from rtcp_turn_keeps [OF this 17(4)] rtcp_turn_generation [OF this 17(4)] show ?case by (simp add: evolves_def)
qed (simp_all add: onUpdateConfigParams_def onSetConfigParams_def updateRtcpParams_def ctlOnStart_def ctlOnRemoveStream_def onSendFIR_def onReceiveCSD_def onSendSLI_def
    onSendPLI_def onSendGenericNack_def onSendTMMBR_def onSendTMMBN_def Let_def
    evolves_start evolves_stop evolves_feedback evolves_parts)

text \<open>
  The steps of the controller within one generation, while the schedule is neither started nor stopped and the bandwidth
  allows RTCP: messages are handled, packets arrive, feedback is added to the next packet, streams come and go.
\<close>

definition same_generation :: "RTPController \<Rightarrow> RTPController \<Rightarrow> bool" where
  "same_generation c c' \<longleftrightarrow> ctl_step c c' \<and> 0 \<le> calculateNextInterval c \<and>
     mVideoSendRTCPGeneration c' = mVideoSendRTCPGeneration c \<and> mStartedRTCPSchedule c' = mStartedRTCPSchedule c"

lemma same_generation_keeps:
  "same_generation\<^sup>*\<^sup>* c c' \<Longrightarrow> rtcpInv c \<Longrightarrow>
   rtcpInv c' \<and> sendCount c' = sendCount c \<and> mStartedRTCPSchedule c' = mStartedRTCPSchedule c"
proof (induction rule: rtranclp_induct)
  case (step y z)
  then show ?case
    using ctl_step_evolves [of y z] inv_reachable [OF r_into_rtranclp [of ctl_step y z]]
    by (auto simp: same_generation_def evolves_def)
qed simp

text \<open>C32. A request for an intra picture (FIR) while the schedule is stopped, and the first feedback at
  that, starts a chain of RTCP packets of its own, although nothing was started: the message that is posted
  has the new generation and posts itself again. When the schedule is started later, it posts a
  second message of the same generation, and from then on two chains run side by side, each as if it
  were the only one: two messages wait in the looper through every step of the controller that keeps the generation
  (packets sent and received, feedback added to the next packet, streams that come and go). The next early feedback renews the
  generation and leaves one chain; so does, by \<open>stopScheduleRTCP\<close>, a stop.
\<close>

theorem rtcp_sent_twice:
  assumes "ctl_step\<^sup>*\<^sup>* (newRTPController ssrc cname op) c" "\<not> mStartedRTCPSchedule c"
    and "mFeedBackFlag c = 0" "m_AllowEarlyRtcp c" "supports IMSMA_CCM [IMSMA_FIR] c"
    and "same_generation\<^sup>*\<^sup>* (onSendFIR tc c) c1" "same_generation\<^sup>*\<^sup>* (startScheduleRTCP prop nowUs c1) c2"
  shows "sendCount c1 = 1 \<and> sendCount c2 = 2 \<and>
    (mFeedBackFlag c2 = 0 \<and> m_AllowEarlyRtcp c2 \<and> supports IMSMA_CCM [IMSMA_FIR] c2 \<longrightarrow>
       sendCount (onSendFIR tc' c2) = 1)"
proof -
  have inv: "rtcpInv c" by (rule inv_reachable [OF assms(1) inv_new])
  have 1: "rtcpInv c1 \<and> sendCount c1 = 1 \<and> \<not> mStartedRTCPSchedule c1"
    using same_generation_keeps [OF assms(6) inv_onSendFIR [OF inv]] early_FIR [OF inv assms(3-5), of tc] assms(2) by simp
  then have 2: "rtcpInv c2 \<and> sendCount c2 = 2"
    using same_generation_keeps [OF assms(7) inv_startScheduleRTCP] start_second [of c1 "prop" nowUs] by simp
  then show ?thesis using 1 early_FIR [of c2 tc'] by blast
qed

text \<open>A call whose RTCP port is set to zero, with a FIR before the port comes back.\<close>

definition firEnv :: rtcp_env where
  "firEnv = \<lparr>env_RTPSentCount = 0, env_senderInfo = replicate 20 0, env_reportBlock = None, env_newTMMBR = None\<rparr>"

definition portZero :: RTPController where
  "portZero = onUpdateConfigParams None 0 2000 2000 [(4, 5)] 0 (ctlOnStart False False None 0 IMSMA_RTP_UP_DOWN_LINK
     (ctlOnAddStream IMSMA_RTP_UP_DOWN_LINK (onSetConfigParams 2000 2000 [(4, 5)] 5001 (newRTPController 7 [] 0))))"

lemma rtcp_sent_twice_witness:
  "sendCount (startScheduleRTCP None 9 (onSendFIR 5 portZero)) = 2 \<and>
   (\<exists>c2. rtcp_turn (startScheduleRTCP None 9 (onSendFIR 5 portZero)) c2 \<and> sendCount c2 = 2) \<and>
   sendCount (onSendFIR 10 (startScheduleRTCP None 9 (onSendFIR 5 portZero))) = 1"
proof -
  let ?n = "newRTPController 7 [] 0"
  let ?q = "onSetConfigParams 2000 2000 [(4, 5)] 5001 ?n"
  let ?a = "ctlOnAddStream IMSMA_RTP_UP_DOWN_LINK ?q"
  let ?p = "ctlOnStart False False None 0 IMSMA_RTP_UP_DOWN_LINK ?a"
  have "ctl_step ?n ?q" "ctl_step ?q ?a" "ctl_step ?a ?p" "ctl_step ?p portZero"
    unfolding portZero_def by (rule ctl_step.intros)+
  then have reach: "ctl_step\<^sup>*\<^sup>* ?n portZero" by auto
  have c: "\<not> mStartedRTCPSchedule portZero" "mFeedBackFlag portZero = 0" "m_AllowEarlyRtcp portZero"
    "supports IMSMA_CCM [IMSMA_FIR] portZero"
    by code_simp+
  let ?f = "onSendFIR 5 portZero" and ?s = "startScheduleRTCP None 9 (onSendFIR 5 portZero)"
  let ?xs = "[RTCPTimer, SendRTCP 0, SendRTCP 2, RTCPTimer]"
  note twice = rtcp_sent_twice [OF reach c rtranclp.rtrancl_refl [of same_generation ?f]]
  have env: "envOk firEnv" by (simp add: envOk_def firEnv_def)
  have looper: "ctlLooper ?s = ?xs @ SendRTCP 2 # []" by code_simp
  have inv: "rtcpInv ?s" using inv_reachable [OF reach inv_new] by (intro inv_startScheduleRTCP inv_onSendFIR)
  then obtain c2 where "onWhatSendRTCP firEnv 10 2 (?s\<lparr>ctlLooper := ?xs @ []\<rparr>) = Inr c2"
    using onWhatSendRTCP_ok [OF _ looper env] by blast
  moreover have iv: "0 \<le> calculateNextInterval ?s" by code_simp
  ultimately have turn: "rtcp_turn ?s c2" "ctl_step ?s c2"
    using rtcp_turn.intros [OF looper env] ctl_step.intros(17) [OF looper env] by blast+
  have "same_generation ?s c2"
    using turn(2) iv rtcp_turn_keeps [OF turn(1) inv] rtcp_turn_generation [OF turn(1) inv] by (simp add: same_generation_def)
  from twice [OF r_into_rtranclp [of same_generation, OF this]] have "sendCount c2 = 2" by blast
  moreover have "mFeedBackFlag ?s = 0" "m_AllowEarlyRtcp ?s" "supports IMSMA_CCM [IMSMA_FIR] ?s" by code_simp+
  ultimately show ?thesis using turn twice [OF rtranclp.rtrancl_refl, of None 9 10] by blast
qed

section \<open>The timer\<close>

definition timerCount :: "RTPController \<Rightarrow> nat" where
  "timerCount c = count_list (ctlLooper c) RTCPTimer"

inductive timer_turn :: "RTPController \<Rightarrow> RTPController \<Rightarrow> bool" where
  "ctlLooper c = xs @ RTCPTimer # ys \<Longrightarrow> timer_turn c (onWhatRTCPTimer (c\<lparr>ctlLooper := xs @ ys\<rparr>))"

text \<open>\<open>n\<close> messages were handled and no packet has arrived.\<close>

definition silent :: "RTPController \<Rightarrow> nat \<Rightarrow> RTPController \<Rightarrow> bool" where
  "silent c0 n c \<longleftrightarrow>
     mRTCPTimer c \<and> \<not> mReceiveRTCPPacket c \<and> mNoRTCPCount c = of_nat n \<and> mRTCPTimerInterval c = mRTCPTimerInterval c0 \<and>
     mNoRTPFlag c = mNoRTPFlag c0 \<and> ctl_mOperatorID c = ctl_mOperatorID c0 \<and> timerCount c = timerCount c0 \<and>
     rtcpEvents c = rtcpEvents c0 @
       (if mNoRTPFlag c0 \<and> ctl_mOperatorID c0 \<noteq> 8 then replicate (n - unat (mRTCPTimerInterval c0)) NotifyDropCall else [])"

lemma timer_turn_silent:
  assumes "timer_turn c c'" "silent c0 n c" "n + 1 < 2 ^ 32"
  shows "silent c0 (Suc n) c'"
  using assms(1)
proof cases
  case (1 xs ys)
  have len: "timerCount c = count_list (xs @ ys) RTCPTimer + 1" using 1(2) by (simp add: timerCount_def)
  have cnt: "mNoRTCPCount c + 1 = of_nat (Suc n)" "of_nat n + 1 = (of_nat (Suc n) :: 32 word)"
    using assms(2) by (simp_all add: silent_def add.commute)
  have gt: "of_nat (Suc n) > mRTCPTimerInterval c0 \<longleftrightarrow> unat (mRTCPTimerInterval c0) < Suc n"
    using assms(3) by (simp add: word_less_nat_alt unat_of_nat take_bit_nat_eq_self del: of_nat_Suc)
  have rep: "replicate (Suc n - k) NotifyDropCall =
      (if k < Suc n then replicate (n - k) NotifyDropCall @ [NotifyDropCall] else replicate (n - k) NotifyDropCall)" for k
    by (simp add: Suc_diff_le replicate_append_same less_Suc_eq_le)
  show ?thesis
    using assms(2) len cnt gt [folded cnt(2)] unfolding 1(1) onWhatRTCPTimer_def Let_def silent_def rep
    by (auto simp: postEvent_def timerCount_def)
qed

lemma timer_turns_silent:
  "(timer_turn ^^ n) c0 c \<Longrightarrow> silent c0 0 c0 \<Longrightarrow> n < 2 ^ 32 \<Longrightarrow> silent c0 n c"
proof (induction n arbitrary: c)
  case (Suc n)
  then obtain d where "(timer_turn ^^ n) c0 d" "timer_turn d c" by auto
  then show ?case using Suc timer_turn_silent [of d c c0 n] by simp
qed simp

text \<open>Stopping the timer that watches for RTCP packets leaves its message in the looper. When the timer is started
  again before that message is handled, every message of the timer, the old ones too, posts itself again:
  there is one message more than before, for good. Each of them counts as a second without a packet, so the
  call is dropped after \<open>mRTCPTimerInterval + 1\<close> messages, in half the seconds when two are waiting.
\<close>

theorem drop_timer_doubles:
  assumes "(timer_turn ^^ n) (startRtcpTimer prop (stopRtcpTimer c)) c'" "n < 2 ^ 32"
    and "mNoRTPFlag c" "ctl_mOperatorID c \<noteq> 8"
  shows "timerCount c' = timerCount c + 1 \<and>
     rtcpEvents c' = rtcpEvents c @
       replicate (n - (case prop of None \<Rightarrow> 19 | Some t \<Rightarrow> unat t)) NotifyDropCall"
proof -
  let ?s = "startRtcpTimer prop (stopRtcpTimer c)"
  have s: "timerCount ?s = timerCount c + 1" "rtcpEvents ?s = rtcpEvents c" "mNoRTPFlag ?s" "ctl_mOperatorID ?s \<noteq> 8"
    "unat (mRTCPTimerInterval ?s) = (case prop of None \<Rightarrow> 19 | Some t \<Rightarrow> unat t)"
    using assms(3,4) by (simp_all add: startRtcpTimer_def stopRtcpTimer_def timerCount_def split: option.split)
  have "silent ?s 0 ?s"
    by (simp add: silent_def startRtcpTimer_def stopRtcpTimer_def)
  then have "silent ?s n c'" using timer_turns_silent [OF assms(1) _ assms(2)] by blast
  then show ?thesis using s by (simp add: silent_def)
qed

definition loudTimer :: RTPController where
  "loudTimer = (startRtcpTimer None (newRTPController 7 [] 0))\<lparr>mNoRTPFlag := True\<rparr>"

lemma drop_timer_doubles_witness:
  "\<exists>c'. (timer_turn ^^ 1) (startRtcpTimer (Some 0) (stopRtcpTimer loudTimer)) c' \<and> timerCount loudTimer = 1 \<and>
     timerCount c' = 2 \<and> rtcpEvents c' = [NotifyDropCall]"
proof -
  let ?s = "startRtcpTimer (Some 0) (stopRtcpTimer loudTimer)"
  let ?c = "onWhatRTCPTimer (?s\<lparr>ctlLooper := [RTCPTimer] @ []\<rparr>)"
  have "ctlLooper ?s = [RTCPTimer] @ RTCPTimer # []" by code_simp
  then have "timer_turn ?s ?c" by (rule timer_turn.intros)
  then have turn: "(timer_turn ^^ 1) ?s ?c" by auto
  have one: "timerCount loudTimer = 1" "rtcpEvents loudTimer = []" by code_simp+
  have "mNoRTPFlag loudTimer" "ctl_mOperatorID loudTimer \<noteq> 8" by code_simp+
  from drop_timer_doubles [OF turn _ this] show ?thesis using turn one by auto
qed

section \<open>A downlink that was removed\<close>

lemma schedule_frame [simp]:
  "rtcpEvents (startScheduleRTCP prop nowUs c) = rtcpEvents c" "rtcpEvents (stopScheduleRTCP c) = rtcpEvents c"
  "mVideoActivePath (stopScheduleRTCP c) = mVideoActivePath c" "mVideoAddedPath (stopScheduleRTCP c) = mVideoAddedPath c"
  by (simp_all add: startScheduleRTCP_def stopScheduleRTCP_def startRtcpTimer_def stopRtcpTimer_def
      startSendRTCPPacket_def Let_def)

lemma path_bits [simp]:
  "IMSMA_RTP_DOWNLINK AND IMSMA_RTP_UPLINK = 0" "IMSMA_RTP_UPLINK AND IMSMA_RTP_DOWNLINK = 0"
  "IMSMA_RTP_DOWNLINK \<noteq> 0" "IMSMA_RTP_UPLINK \<noteq> 0"
  by (simp_all add: IMSMA_RTP_DOWNLINK_def IMSMA_RTP_UPLINK_def)

lemma off_on [simp]: "(x AND NOT k) AND k = (0 :: 32 word)"
  by (simp add: and.assoc)

lemma removed_downlink:
  assumes "mVideoActivePath c AND IMSMA_RTP_DOWNLINK \<noteq> 0" "mVideoAddedPath c AND IMSMA_RTP_DOWNLINK \<noteq> 0"
    and "mAddedTrack c AND IMSMA_VIDEO_TRACK \<noteq> 0" "mRTPReceiver_get c"
  defines "r \<equiv> ctlOnRemoveStream IMSMA_RTP_DOWNLINK c"
  shows "rtcpEvents r = rtcpEvents c @ [ReceiverStop, ReceiverRemoveStream]"
    "mVideoActivePath r = mVideoActivePath c" "mVideoAddedPath r AND IMSMA_RTP_DOWNLINK = 0"
  using assms(1-4) unfolding r_def
  by (simp_all add: ctlOnRemoveStream_def removeDownlink_def Let_def postEvent_def)

lemma removed_uplink:
  assumes "mVideoActivePath c AND IMSMA_RTP_UPLINK \<noteq> 0" "mVideoAddedPath c AND IMSMA_RTP_UPLINK \<noteq> 0"
    and "mAddedTrack c AND IMSMA_VIDEO_TRACK \<noteq> 0" "mVideoRTPSender_get c"
  defines "r \<equiv> ctlOnRemoveStream IMSMA_RTP_UPLINK c"
  shows "rtcpEvents r = rtcpEvents c @ [SenderStop]"
    "mVideoActivePath r AND IMSMA_RTP_UPLINK = 0" "mVideoAddedPath r AND IMSMA_RTP_UPLINK = 0"
  using assms(1-4) unfolding r_def
  by (simp_all add: ctlOnRemoveStream_def removeUplink_def Let_def postEvent_def)

text \<open>Removing a downlink that is still active stops the receiver and removes the stream from it, but leaves the
  downlink in \<open>mVideoActivePath\<close> (the uplink is taken out of it). Adding and starting the downlink again
  creates a receiver and adds the stream, and never starts it: \<open>onStart\<close> takes the downlink for
  started. (\<open>removed_uplink_restarts\<close>: the same calls for the uplink start the sender again.)
\<close>

theorem removed_downlink_never_restarts:
  assumes "mVideoActivePath c AND IMSMA_RTP_DOWNLINK \<noteq> 0" "mVideoAddedPath c AND IMSMA_RTP_DOWNLINK \<noteq> 0"
    and "mAddedTrack c AND IMSMA_VIDEO_TRACK \<noteq> 0" "mRTPReceiver_get c"
  shows "rtcpEvents (ctlOnStart sndErr rcvErr prop nowUs IMSMA_RTP_DOWNLINK
            (ctlOnAddStream IMSMA_RTP_DOWNLINK (ctlOnRemoveStream IMSMA_RTP_DOWNLINK c))) =
         rtcpEvents c @ [ReceiverStop, ReceiverRemoveStream, ReceiverAddStream]"
  using removed_downlink [OF assms] assms(1)
  by (simp add: ctlOnStart_def ctlOnAddStream_def Let_def postEvent_def)

definition bothWays :: RTPController where
  "bothWays = ctlOnStart False False None 0 IMSMA_RTP_UP_DOWN_LINK
     (ctlOnAddStream IMSMA_RTP_UP_DOWN_LINK (newRTPController 7 [] 0))"

lemma removed_downlink_never_restarts_witness:
  "rtcpEvents (ctlOnStart False False None 9 IMSMA_RTP_DOWNLINK
     (ctlOnAddStream IMSMA_RTP_DOWNLINK (ctlOnRemoveStream IMSMA_RTP_DOWNLINK bothWays))) =
   [ReceiverAddStream, SenderStart, ReceiverStart, ReceiverStop, ReceiverRemoveStream, ReceiverAddStream]"
proof -
  have "mVideoActivePath bothWays AND IMSMA_RTP_DOWNLINK \<noteq> 0" "mVideoAddedPath bothWays AND IMSMA_RTP_DOWNLINK \<noteq> 0"
    "mAddedTrack bothWays AND IMSMA_VIDEO_TRACK \<noteq> 0" "mRTPReceiver_get bothWays"
    by code_simp+
  from removed_downlink_never_restarts [OF this]
  have "rtcpEvents (ctlOnStart False False None 9 IMSMA_RTP_DOWNLINK
     (ctlOnAddStream IMSMA_RTP_DOWNLINK (ctlOnRemoveStream IMSMA_RTP_DOWNLINK bothWays))) =
     rtcpEvents bothWays @ [ReceiverStop, ReceiverRemoveStream, ReceiverAddStream]" .
  moreover have "rtcpEvents bothWays = [ReceiverAddStream, SenderStart, ReceiverStart]" by code_simp
  ultimately show ?thesis by simp
qed

lemma removed_uplink_restarts:
  assumes "mVideoActivePath c AND IMSMA_RTP_UPLINK \<noteq> 0" "mVideoAddedPath c AND IMSMA_RTP_UPLINK \<noteq> 0"
    and "mAddedTrack c AND IMSMA_VIDEO_TRACK \<noteq> 0" "mVideoRTPSender_get c"
  shows "rtcpEvents (ctlOnStart False rcvErr prop nowUs IMSMA_RTP_UPLINK
            (ctlOnAddStream IMSMA_RTP_UPLINK (ctlOnRemoveStream IMSMA_RTP_UPLINK c))) =
         rtcpEvents c @ [SenderStop, SenderStart]"
  using removed_uplink [OF assms]
  by (simp add: ctlOnStart_def ctlOnAddStream_def Let_def postEvent_def startUplink_def)

end
