(* ===== verification/RtcpRead.thy ===== *)
theory RtcpRead
  imports RtcpSchedule RtpRoundTrip
begin

text \<open>
  Reading a compound RTCP packet part by part: what a part does alone it does wherever it stands in
  a packet, so the loop over a packet made of well-formed parts has the effects of its parts in
  their order; and no packet makes the reader leave the memory, when 24 octets follow the packet, and fewer are not enough.
\<close>

section \<open>Where a read stands does not matter\<close>

text \<open>\<open>keeps r r'\<close>: where \<open>r\<close> has a result, \<open>r'\<close> has the same.\<close>

definition keeps :: "'a res \<Rightarrow> 'a res \<Rightarrow> bool" where
  "keeps r r' \<longleftrightarrow> (\<forall>x. r = Inr x \<longrightarrow> r' = Inr x)"

named_theorems keeps_intro \<open>congruence rules of keeps\<close>

lemma keeps_refl [keeps_intro]: "keeps r r"
  by (simp add: keeps_def)

lemma keeps_bnd [keeps_intro]:
  "keeps m m' \<Longrightarrow> (\<And>x. m = Inr x \<Longrightarrow> keeps (f x) (f' x)) \<Longrightarrow> keeps (bnd m f) (bnd m' f')"
  by (auto simp: keeps_def bnd_eq_Inr)

lemma keeps_if [keeps_intro]:
  "(b \<Longrightarrow> keeps r r') \<Longrightarrow> (\<not> b \<Longrightarrow> keeps s s') \<Longrightarrow> keeps (if b then r else s) (if b then r' else s')"
  by simp

lemma keepsD: "keeps r r' \<Longrightarrow> r = Inr x \<Longrightarrow> r' = Inr x"
  by (simp add: keeps_def)

lemma keeps_rd [keeps_intro]:
  "j = int (length pre) + i \<Longrightarrow> keeps (rd p i) (rd (pre @ p @ rest) j)"
  by (auto simp: keeps_def rd_def nth_append nat_add_distrib split: if_splits)

lemma keeps_rd_block [keeps_intro]:
  "j = int (length pre) + i \<Longrightarrow> keeps (rd_block p i n) (rd_block (pre @ p @ rest) j n)"
  by (auto simp: keeps_def rd_block_def nat_add_distrib split: if_splits)

lemma keeps_u16at [keeps_intro]:
  "j = int (length pre) + i \<Longrightarrow> keeps (u16at p i) (u16at (pre @ p @ rest) j)"
  unfolding u16at_def by (intro keeps_intro) simp_all

lemma keeps_u32at [keeps_intro]:
  "j = int (length pre) + i \<Longrightarrow> keeps (u32at p i) (u32at (pre @ p @ rest) j)"
  unfolding u32at_def by (intro keeps_intro) simp_all

lemma keeps_partLength [keeps_intro]:
  "j = int (length pre) + i \<Longrightarrow> keeps (partLength p i) (partLength (pre @ p @ rest) j)"
  unfolding partLength_def by (intro keeps_intro) simp_all

lemma keeps_isFeedback [keeps_intro]:
  "j = int (length pre) + i \<Longrightarrow> keeps (isFeedback f t p i) (isFeedback f t (pre @ p @ rest) j)"
  unfolding isFeedback_def by (intro keeps_intro) simp_all

lemma keeps_reportLoop [keeps_intro]:
  "j = int (length pre) + i \<Longrightarrow>
   keeps (reportLoop p i len h b t n off c) (reportLoop (pre @ p @ rest) j len h b t n off c)"
proof (induction n arbitrary: off c)
  case (Suc n)
  then show ?case
    unfolding reportLoop.simps Let_def by (intro keeps_intro) simp_all
qed (simp add: keeps_refl)

lemma keeps_firLoop [keeps_intro]:
  "j = int (length pre) + i \<Longrightarrow> keeps (firLoop p i len off c) (firLoop (pre @ p @ rest) j len off c)"
proof (induction p i len off c rule: firLoop.induct)
  case (1 p i len off c)
  show ?case
    unfolding firLoop.simps [of _ _ _ off] by (intro keeps_intro 1(1)) (simp_all add: 1(2))
qed

lemma keeps_rtcpPart:
  "j = int (length pre) + i \<Longrightarrow>
   keeps (rtcpPart p i len b t c) (rtcpPart (pre @ p @ rest) j len b t c)"
  unfolding rtcpPart_def Let_def onReceiveFIR_def onReceivePLI_def onReceiveSLI_def onReceiveGenericNACK_def
    onReceiveTMMBN_def onReceiveTMMBR_def
  by (intro keeps_intro) simp_all

section \<open>A packet of well-formed parts\<close>

definition partOk :: "byte list \<Rightarrow> bool" where
  "partOk p \<longleftrightarrow> partLength p 0 = Inr (int (length p))"

lemma partOk_length: "partOk p \<Longrightarrow> 4 \<le> length p"
  using partLength_range [of p 0 "int (length p)"] by (simp add: partOk_def)

definition isTMMBR :: "byte list \<Rightarrow> bool" where
  "isTMMBR p \<longleftrightarrow> p ! 1 = 205 \<and> p ! 0 AND 0x1F = 3"

lemma scanTMMBR_parts:
  assumes "\<forall>p \<in> set ps. partOk p" "off = int (length pre)" "sz = off + int (length (concat ps))"
  shows "scanTMMBR (pre @ concat ps @ tail) sz off = Inr (list_ex isTMMBR ps)"
  using assms
proof (induction ps arbitrary: pre off)
  case Nil
  then show ?case by (subst scanTMMBR.simps) simp
next
  case (Cons p ps)
  let ?m = "pre @ p @ concat ps @ tail"
  have p: "4 \<le> length p" "partLength ?m off = Inr (int (length p))"
    using Cons.prems(1,2) partOk_length [of p] keepsD [OF keeps_partLength, of off pre 0 p "int (length p)" "concat ps @ tail"]
    by (auto simp: partOk_def)
  have "rd ?m (off + 1) = Inr (p ! 1)" "rd ?m off = Inr (p ! 0)"
    using p(1) Cons.prems(2) by (auto simp: rd_def nth_append nat_add_distrib)
  moreover have "scanTMMBR ((pre @ p) @ concat ps @ tail) sz (off + int (length p)) = Inr (list_ex isTMMBR ps)"
    using Cons.prems by (intro Cons.IH) simp_all
  ultimately show ?case
    using p Cons.prems(3) unfolding scanTMMBR.simps [of _ _ off] by (auto simp: isTMMBR_def [of p])
qed

text \<open>The effects of the parts, each read alone.\<close>

fun readParts :: "bool \<Rightarrow> int \<Rightarrow> byte list list \<Rightarrow> RTPController \<Rightarrow> RTPController res" where
  "readParts b t [] c = Inr c"
| "readParts b t (p # ps) c = bnd (rtcpPart p 0 (int (length p)) b t c) (readParts b t ps)"

lemma readParts_append: "readParts b t (ps @ qs) c = bnd (readParts b t ps c) (readParts b t qs)"
proof (induction ps arbitrary: c)
  case (Cons p ps)
  then have "readParts b t (ps @ qs) = (\<lambda>c. bnd (readParts b t ps c) (readParts b t qs))" by blast
  then show ?case by (simp add: bnd_assoc)
qed simp

lemma rtcpLoop_parts:
  assumes "\<forall>p \<in> set ps. partOk p" "off = int (length pre)" "sz = off + int (length (concat ps))"
    and "readParts b t ps c = Inr c'"
  shows "rtcpLoop (pre @ concat ps @ tail) sz off b t c = Inr (True, c')"
  using assms
proof (induction ps arbitrary: pre off c)
  case Nil
  then show ?case by (subst rtcpLoop.simps) simp
next
  case (Cons p ps)
  let ?m = "pre @ p @ concat ps @ tail"
  have p: "4 \<le> length p" "partLength ?m off = Inr (int (length p))"
    using Cons.prems(1,2) partOk_length [of p] keepsD [OF keeps_partLength, of off pre 0 p "int (length p)" "concat ps @ tail"]
    by (auto simp: partOk_def)
  obtain c1 where c1: "rtcpPart p 0 (int (length p)) b t c = Inr c1" "readParts b t ps c1 = Inr c'"
    using Cons.prems(4) by (auto simp: bnd_eq_Inr)
  have "rtcpPart ?m off (int (length p)) b t c = Inr c1"
    using keepsD [OF keeps_rtcpPart c1(1), of off pre] Cons.prems(2) by simp
  moreover have "rtcpLoop ((pre @ p) @ concat ps @ tail) sz (off + int (length p)) b t c1 = Inr (True, c')"
    using Cons.prems c1(2) by (intro Cons.IH) simp_all
  ultimately show ?case
    using p Cons.prems(3) unfolding rtcpLoop.simps [of _ _ off] by simp
qed

lemma queueRTCPPacket_parts:
  assumes "\<forall>p \<in> set ps. partOk p" "ps \<noteq> []"
    and "readParts (list_ex isTMMBR ps) t ps
      (c\<lparr>mReceiveRTCPPacket := True, m_avg_rtcp_size := avgRtcpSize (int (length (concat ps))) (m_avg_rtcp_size c)\<rparr>) = Inr c'"
  shows "queueRTCPPacket \<lparr>rp_bytes = concat ps, rp_tail = tail\<rparr> t c = Inr (True, c')"
proof -
  have "4 \<le> length (concat ps)"
    using assms(1,2) partOk_length by (cases ps) (auto simp: trans_le_add1)
  then show ?thesis
    using scanTMMBR_parts [OF assms(1), of 0 "[]" _ tail] rtcpLoop_parts [OF assms(1) _ _ assms(3), of 0 "[]" _ tail]
    by (simp add: queueRTCPPacket_def Let_def)
qed

section \<open>Every read stays near the packet\<close>

lemma rd_in: "0 \<le> i \<Longrightarrow> i < int (length m) \<Longrightarrow> \<exists>x. rd m i = Inr x"
  by (simp add: rd_def)

lemma u16at_in: "0 \<le> i \<Longrightarrow> i + 2 \<le> int (length m) \<Longrightarrow> \<exists>x. u16at m i = Inr x"
  by (simp add: u16at_def rd_def)

lemma u32at_in: "0 \<le> i \<Longrightarrow> i + 4 \<le> int (length m) \<Longrightarrow> \<exists>x. u32at m i = Inr x"
  by (simp add: u32at_def u16at_def rd_def)

lemma rd_block_in: "0 \<le> i \<Longrightarrow> 0 \<le> n \<Longrightarrow> i + n \<le> int (length m) \<Longrightarrow> \<exists>x. rd_block m i n = Inr x"
  by (simp add: rd_block_def)

lemma partLength_in: "0 \<le> i \<Longrightarrow> i + 4 \<le> int (length m) \<Longrightarrow> \<exists>x. partLength m i = Inr x"
  using u16at_in [of "i + 2" m] by (auto simp: partLength_def)

lemma bnd_in: "\<exists>x. m = Inr x \<Longrightarrow> (\<And>x. m = Inr x \<Longrightarrow> \<exists>y. f x = Inr y) \<Longrightarrow> \<exists>y. bnd m f = Inr y"
  by auto

lemma partLength_mult: "partLength m i = Inr l \<Longrightarrow> l mod 4 = 0"
  by (auto simp: partLength_def bnd_eq_Inr)

lemma reportLoop_in:
  assumes "0 \<le> i" "0 \<le> off" "i + len + 20 \<le> int (length m)" "(h + off) mod 4 = 0" "len mod 4 = 0" "0 \<le> h"
  shows "\<exists>c'. reportLoop m i len h b t n off c = Inr c'"
  using assms
proof (induction n arbitrary: off c)
  case (Suc n)
  show ?case
  proof (cases "h + off \<ge> len")
    case False
    then have "h + off + 4 \<le> len" using Suc.prems(4,5) by presburger
    moreover have "(h + (off + 24)) mod 4 = 0" using Suc.prems(4) by presburger
    ultimately show ?thesis
      using Suc.prems False unfolding reportLoop.simps Let_def if_False
      by (auto intro!: bnd_in u32at_in rd_block_in Suc.IH)
  qed simp
qed simp

lemma firLoop_in:
  assumes "0 \<le> i" "0 \<le> off" "i + len + 1 \<le> int (length m)" "off mod 4 = 0" "len mod 4 = 0"
  shows "\<exists>c'. firLoop m i len off c = Inr c'"
  using assms
proof (induction m i len off c rule: firLoop.induct)
  case (1 m i len off c)
  show ?case
  proof (cases "off < len")
    case True
    then have "off + 4 \<le> len" using 1(5,6) by presburger
    moreover have "(off + 8) mod 4 = 0" using 1(5) by presburger
    ultimately show ?thesis
      using 1(2-6) True unfolding firLoop.simps [of _ _ _ off]
      by (auto intro!: bnd_in u32at_in rd_in 1(1))
  qed (simp add: firLoop.simps [of _ _ _ off])
qed

lemma rtcpPart_in:
  assumes "0 \<le> off" "4 \<le> len" "len mod 4 = 0" "off + len + 24 \<le> int (length m)"
  shows "\<exists>c'. rtcpPart m off len b t c = Inr c'"
proof -
  have fb: "\<exists>x. isFeedback f pt m off = Inr x" for f pt
    using assms unfolding isFeedback_def by (intro bnd_in rd_in) auto
  have "\<exists>c'. reportLoop m off len h b t n 0 c = Inr c'" if "h = 8 \<or> h = 28" for h n c
    using that assms by (intro reportLoop_in) auto
  moreover have "\<exists>c'. onReceiveFIR m off len c = Inr c'"
    using assms fb unfolding onReceiveFIR_def by (auto intro!: bnd_in firLoop_in)
  moreover have "\<exists>c'. onReceivePLI m off len c = Inr c'"
    using assms fb unfolding onReceivePLI_def by (auto intro!: bnd_in u32at_in)
  moreover have "\<exists>c'. onReceiveSLI m off len c = Inr c'"
    using assms fb unfolding onReceiveSLI_def by (auto intro!: bnd_in u32at_in rd_block_in)
  moreover have "\<exists>c'. onReceiveGenericNACK m off len c = Inr c'"
    using assms fb unfolding onReceiveGenericNACK_def by (auto intro!: bnd_in u32at_in rd_block_in)
  moreover have "\<exists>c'. onReceiveTMMBN m off len c = Inr c'"
    using assms fb unfolding onReceiveTMMBN_def Let_def by (auto intro!: bnd_in u32at_in rd_block_in)
  moreover have "\<exists>c'. onReceiveTMMBR m off len c = Inr c'"
    using assms fb unfolding onReceiveTMMBR_def by (auto intro!: bnd_in u32at_in rd_block_in)
  ultimately show ?thesis
    using assms unfolding rtcpPart_def Let_def
    by (auto intro!: bnd_in rd_in u32at_in rd_block_in simp del: reportLoop.simps)
qed

lemma scanTMMBR_in:
  "0 \<le> off \<Longrightarrow> sz + 4 \<le> int (length m) \<Longrightarrow> \<exists>x. scanTMMBR m sz off = Inr x"
proof (induction m sz off rule: scanTMMBR.induct)
  case (1 m sz off)
  show ?case
  proof (cases "off < sz")
    case True
    obtain l where l: "partLength m off = Inr l" "4 \<le> l"
      using partLength_in [of off m] partLength_range 1(2,3) True by auto
    show ?thesis
      using True l 1(2,3) unfolding scanTMMBR.simps [of _ _ off]
      by (auto intro!: bnd_in rd_in 1(1))
  next
    case False
    then have "scanTMMBR m sz off = Inr False" by (subst scanTMMBR.simps) simp
    then show ?thesis by blast
  qed
qed

lemma rtcpLoop_in:
  "0 \<le> off \<Longrightarrow> sz + 24 \<le> int (length m) \<Longrightarrow> \<exists>r. rtcpLoop m sz off b t c = Inr r"
proof (induction m sz off b t c rule: rtcpLoop.induct)
  case (1 m sz off b t c)
  show ?case
  proof (cases "off < sz")
    case True
    obtain l where l: "partLength m off = Inr l" "4 \<le> l" "l mod 4 = 0"
      using partLength_in [of off m] partLength_range partLength_mult 1(2,3) True by fastforce
    show ?thesis
      using True l 1(2,3) unfolding rtcpLoop.simps [of _ _ off]
      by (auto intro!: bnd_in rtcpPart_in 1(1) simp del: split_paired_Ex)
  next
    case False
    then have "rtcpLoop m sz off b t c = Inr (True, c)" by (subst rtcpLoop.simps) simp
    then show ?thesis by blast
  qed
qed

text \<open>A sender report that claims to be four octets long, and so ends behind its length field.\<close>

definition shortReport :: "byte list" where "shortReport = [0x80, 200, 0, 0]"

lemma shortReport_reads_on:
  assumes "length tail < 24"
  shows "queueRTCPPacket \<lparr>rp_bytes = shortReport, rp_tail = tail\<rparr> t c = Inl OutOfBounds"
proof -
  let ?m = "0x80 # 200 # 0 # 0 # tail"
  have d: "rd ?m 0 = Inr 0x80" "rd ?m 1 = Inr 200" "partLength ?m 0 = Inr 4"
    by (simp_all add: rd_def partLength_def u16at_def)
  have "scanTMMBR ?m 4 4 = Inr False" by (subst scanTMMBR.simps) simp
  then have scan: "scanTMMBR ?m 4 0 = Inr False" by (subst scanTMMBR.simps) (simp add: d)
  have short: "rd_block ?m 8 20 = Inl OutOfBounds" using assms by (simp add: rd_block_def)
  have "u32at ?m 4 = Inl OutOfBounds \<or> (\<exists>x. u32at ?m 4 = Inr x)"
    by (auto simp: u32at_def u16at_def rd_def)
  then have "rtcpPart ?m 0 4 b t c' = Inl OutOfBounds" for b c'
    unfolding rtcpPart_def by (auto simp: d short Let_def)
  then have "rtcpLoop ?m 4 0 b t c' = Inl OutOfBounds" for b c'
    by (subst rtcpLoop.simps) (simp add: d)
  then show ?thesis by (simp add: queueRTCPPacket_def shortReport_def scan)
qed

text \<open>C19. Whatever octets a peer sends, reading an RTCP packet ends and touches at most 24 octets behind
  the packet: when the buffer has these, \<open>queueRTCPPacket\<close> does not fail. No shorter margin is enough:
  the packet of a single sender report that claims four octets makes it read the 28 octets of a whole one,
  so with fewer than 24 octets behind it the read leaves the buffer, in every state and on either track.
\<close>

theorem rtcp_parse_stays_near:
  "(24 \<le> length (rp_tail p) \<longrightarrow> (\<exists>ok c'. queueRTCPPacket p t c = Inr (ok, c'))) \<and>
   (length tail < 24 \<longrightarrow>
     queueRTCPPacket \<lparr>rp_bytes = shortReport, rp_tail = tail\<rparr> t c = Inl OutOfBounds)"
proof (intro conjI impI shortReport_reads_on)
  assume tail: "24 \<le> length (rp_tail p)"
  let ?sz = "int (length (rp_bytes p))"
  obtain b where "scanTMMBR (rp_mem p) ?sz 0 = Inr b"
    using scanTMMBR_in [of 0 ?sz "rp_mem p"] tail by auto
  then show "\<exists>ok c'. queueRTCPPacket p t c = Inr (ok, c')"
    using rtcpLoop_in [of 0 ?sz "rp_mem p" b t] tail
    by (auto simp: queueRTCPPacket_def Let_def)
qed

lemma rtcp_parse_stays_near_witness:
  "(\<exists>ok c'. queueRTCPPacket \<lparr>rp_bytes = shortReport, rp_tail = replicate 24 0\<rparr> 1 (newRTPController 7 [] 0) = Inr (ok, c')) \<and>
   queueRTCPPacket \<lparr>rp_bytes = shortReport, rp_tail = replicate 23 0\<rparr> 1 (newRTPController 7 [] 0) = Inl OutOfBounds"
  using rtcp_parse_stays_near [of "\<lparr>rp_bytes = shortReport, rp_tail = replicate 24 0\<rparr>" 1 "newRTPController 7 [] 0" "replicate 23 0"]
  by simp

end
