(* ===== verification/RtcpRoundTrip.thy ===== *)
theory RtcpRoundTrip
  imports RtcpRead RtcpBuild
begin

text \<open>
  The two ends of RTCP together: the compound packet that one controller builds is read by the
  controller of the peer, part by part, and gives back what was put into it.
\<close>

section \<open>Lengths and numbers\<close>

lemma and_mask_int: "(l :: int) AND 0xff = take_bit 8 l"
  by (simp add: take_bit_eq_mask mask_eq_exp_minus_1)

lemma lenBytes_be16: "lenBytes l = be16 (word_of_int l)"
proof -
  have "(word_of_int (drop_bit 8 l AND 0xff) :: byte) = ucast (drop_bit 8 (word_of_int l :: 32 word) AND 0xFF)"
    unfolding and_masks and_mask_int by (rule bit_word_eqI) (auto simp: bit_simps)
  moreover have "(word_of_int (l AND 0xff) :: byte) = ucast ((word_of_int l :: 32 word) AND 0xFF)"
    unfolding and_masks and_mask_int by (rule bit_word_eqI) (auto simp: bit_simps)
  ultimately show ?thesis by (simp add: lenBytes_def be16_def)
qed

lemma lenBytes_sdes: "[word_of_int (drop_bit 8 w), word_of_int (w AND 0xff)] = lenBytes w"
proof -
  have "(word_of_int (drop_bit 8 w) :: byte) = word_of_int (drop_bit 8 w AND 0xff)"
    unfolding and_mask_int by (rule bit_word_eqI) (auto simp: bit_simps)
  then show ?thesis by (simp add: lenBytes_def)
qed

lemma fbHeader_lenBytes: "fbHeader f t l s m = [0x80 OR f, t] @ lenBytes l @ be32 s @ be32 m"
  by (simp add: fbHeader_def lenBytes_def)

lemma partOkI:
  assumes "p = [a, b] @ lenBytes l @ rest" "0 \<le> l" "l < 65536" "int (length p) = 4 * (l + 1)"
  shows "partOk p"
proof -
  have "u16at p 2 = Inr (word_of_int l AND 0xFFFF)"
    unfolding assms(1) lenBytes_be16 by (rule be16_read) simp_all
  moreover have "uint ((word_of_int l :: 32 word) AND 0xFFFF) = l"
    unfolding and_masks using assms(2,3) by (simp add: unsigned_take_bit_eq take_bit_int_eq_self unsigned_of_int)
  ultimately show ?thesis using assms(4) by (simp add: partOk_def partLength_def)
qed

section \<open>What a part tells the peer\<close>

text \<open>The controller \<open>r\<close> of the peer of \<open>c\<close>.\<close>

definition peerOf :: "RTPController \<Rightarrow> RTPController \<Rightarrow> bool" where
  "peerOf c r \<longleftrightarrow> ctl_mSSRC r = mVideoPeerSSRC c \<and> mVideoRTPSender_get r \<and> mRTPReceiver_get r"

text \<open>\<open>b\<close> is whether the packet has a TMMBR.\<close>

definition tells :: "RTPController \<Rightarrow> bool \<Rightarrow> byte list \<Rightarrow> rtcp_event list \<Rightarrow> bool" where
  "tells c b p es \<longleftrightarrow> partOk p \<and>
     (\<forall>r. peerOf c r \<longrightarrow> (\<exists>r'. rtcpPart p 0 (int (length p)) b IMSMA_RTP_VIDEO r = Inr r' \<and>
        rtcpEvents r' = rtcpEvents r @ es \<and> peerOf c r'))"

lemma peerOf_post [simp]: "peerOf c (postEvent e r) = peerOf c r"
  by (simp add: peerOf_def postEvent_def)

lemma events_post [simp]: "rtcpEvents (postEvent e r) = rtcpEvents r @ [e]"
  by (simp add: postEvent_def)

lemma tells_nothing: "partOk p \<Longrightarrow> p ! 1 \<notin> {200, 201, 205, 206} \<Longrightarrow> tells c b p []"
  using partOk_length [of p] by (auto simp: tells_def rtcpPart_def rd_def Let_def)

lemma readParts_tells:
  assumes "\<forall>(p, es) \<in> set ps. tells c b p es" "peerOf c r"
  shows "\<exists>r'. readParts b IMSMA_RTP_VIDEO (map fst ps) r = Inr r' \<and>
     rtcpEvents r' = rtcpEvents r @ concat (map snd ps) \<and> peerOf c r'"
  using assms
proof (induction ps arbitrary: r)
  case (Cons x ps)
  obtain p es where x: "x = (p, es)" by (cases x)
  obtain r1 where r1: "rtcpPart p 0 (int (length p)) b IMSMA_RTP_VIDEO r = Inr r1"
    "rtcpEvents r1 = rtcpEvents r @ es" "peerOf c r1"
    using Cons.prems x unfolding tells_def by auto
  then show ?case using Cons.IH [OF _ r1(3)] Cons.prems(1) x by auto
qed simp

lemma tells_SDES:
  assumes "length (mCName c) \<le> 255"
  shows "tells c b (sdesPart c) []"
proof (rule tells_nothing)
  define n where "n = int (length (mCName c))"
  define s where "s = (n + 14) AND - 4"
  have "n + 11 \<le> s" "s mod 4 = 0" "s \<le> n + 14" "0 \<le> n" "n \<le> 255"
    using sdes_size [of n] assms by (simp_all add: s_def n_def)
  then have s: "0 \<le> s div 4 - 1" "s div 4 - 1 < 65536" "s = 4 * (s div 4 - 1 + 1)" by presburger+
  have len: "int (length (sdesPart c)) = s" by (simp add: length_sdesPart s_def n_def)
  obtain rest where "sdesPart c = [0x81, 202] @ lenBytes (s div 4 - 1) @ rest"
    unfolding sdesPart_def Let_def lenBytes_sdes [symmetric] s_def n_def by simp
  from partOkI [OF this s(1,2)] show "partOk (sdesPart c)" using s(3) len by simp
  show "sdesPart c ! 1 \<notin> {200, 201, 205, 206}" by (simp add: sdesPart_def Let_def)
qed

section \<open>Feedback\<close>

lemma fb_rd:
  assumes "p = fbHeader f t l s m @ rest"
  shows "rd p 0 = Inr (0x80 OR f)" "rd p 1 = Inr t" "u32at p 8 = Inr m"
proof -
  show "rd p 0 = Inr (0x80 OR f)" "rd p 1 = Inr t"
    unfolding assms fbHeader_lenBytes by (simp_all add: rd_def)
  have "p = ([0x80 OR f, t] @ lenBytes l @ be32 s) @ be32 m @ rest"
    unfolding assms fbHeader_lenBytes by simp
  then show "u32at p 8 = Inr m"
    using be32_read [of "[0x80 OR f, t] @ lenBytes l @ be32 s" 8 m rest] by simp
qed

lemma fmt_bits: "f \<in> {1, 2, 3, 4} \<Longrightarrow> (0x80 OR f) AND 0x1F = (f :: byte)"
  by auto

lemma isFeedback_hdr:
  assumes "p = fbHeader f t l s m @ rest" "f \<in> {1, 2, 3, 4}"
  shows "isFeedback f t p 0 = Inr True"
  using fb_rd(1,2) [OF assms(1)] fmt_bits [OF assms(2)] by (simp add: isFeedback_def)

lemma tells_PLI: "tells c b (pliPart c) [NotifyPLI]"
proof -
  let ?p = "pliPart c"
  have p: "?p = fbHeader 1 206 2 (ctl_mSSRC c) (mVideoPeerSSRC c) @ []" by (simp add: pliPart_def)
  have "partOk ?p"
    by (rule partOkI [of _ "0x80 OR 1" 206 2 "be32 (ctl_mSSRC c) @ be32 (mVideoPeerSSRC c)"])
      (simp_all add: pliPart_def fbHeader_lenBytes)
  moreover have "int (length ?p) = 12" by (simp add: pliPart_def)
  ultimately show ?thesis
    using fb_rd [OF p] isFeedback_hdr [OF p]
    by (simp add: tells_def rtcpPart_def onReceivePLI_def Let_def)
qed

lemma tells_FIR: "tells c b (firPart c) [ProcessFIR (mFIRLastSeqNum c)]"
proof -
  let ?p = "firPart c"
  have p: "?p = fbHeader 4 206 4 (ctl_mSSRC c) 0 @ be32 (mVideoPeerSSRC c) @ [mFIRLastSeqNum c, 0, 0, 0]"
    by (simp add: firPart_def)
  have "partOk ?p"
    by (rule partOkI [of _ "0x80 OR 4" 206 4 "be32 (ctl_mSSRC c) @ be32 0 @ be32 (mVideoPeerSSRC c) @ [mFIRLastSeqNum c, 0, 0, 0]"])
      (simp_all add: firPart_def fbHeader_lenBytes)
  moreover have len: "int (length ?p) = 20" by (simp add: firPart_def)
  moreover have "u32at ?p 12 = Inr (mVideoPeerSSRC c)"
    unfolding p by (rule be32_read) simp_all
  moreover have "rd ?p 16 = Inr (mFIRLastSeqNum c)"
    using len unfolding rd_def by (simp add: firPart_def nth_append)
  ultimately show ?thesis
    using fb_rd [OF p] isFeedback_hdr [OF p]
    by (simp add: tells_def rtcpPart_def onReceiveFIR_def Let_def firLoop.simps [of _ _ _ 12] peerOf_def postEvent_def)
qed

lemma fciPart_ok:
  assumes "length fci mod 4 = 0" "length fci \<le> 800"
  shows "partOk (fciPart f t fci c)" "int (length (fciPart f t fci c)) = 12 + int (length fci)"
    "fciPart f t fci c = fbHeader f t (2 + int (length fci) div 4) (ctl_mSSRC c) (mVideoPeerSSRC c) @ fci"
proof -
  have "c_ushort (2 + c_uchar (int (length fci) div 4)) = 2 + int (length fci) div 4"
    using assms(2) by (simp add: c_ushort_def c_uchar_def take_bit_int_eq_self)
  then show eq: "fciPart f t fci c = fbHeader f t (2 + int (length fci) div 4) (ctl_mSSRC c) (mVideoPeerSSRC c) @ fci"
    by (simp add: fciPart_def)
  show len: "int (length (fciPart f t fci c)) = 12 + int (length fci)" by (simp add: eq)
  have "int (length fci) mod 4 = 0" using assms(1) by presburger
  then have "12 + int (length fci) = 4 * (2 + int (length fci) div 4 + 1)" by presburger
  then show "partOk (fciPart f t fci c)"
    using assms(2) len
    by (intro partOkI [of _ "0x80 OR f" t "2 + int (length fci) div 4" "be32 (ctl_mSSRC c) @ be32 (mVideoPeerSSRC c) @ fci"])
      (simp_all add: eq fbHeader_lenBytes)
qed

lemma fci_read:
  assumes "p = fbHeader f t l s m @ fci"
  shows "rd_block p 12 (int (length p) - 12) = Inr fci"
  using rd_block_mid [of "fbHeader f t l s m" fci "[]"] by (simp add: assms)

lemma tells_SLI:
  assumes "length fci mod 4 = 0" "length fci \<le> 800" "fci \<noteq> []"
  shows "tells c b (fciPart 2 206 fci c) [NotifySLI fci]"
proof -
  note p = fciPart_ok [OF assms(1,2), of 2 206 c]
  have "4 \<le> length fci" using assms(1,3) by (cases "length fci < 4") (auto simp: mod_less)
  then show ?thesis
    using fb_rd [OF p(3)] isFeedback_hdr [OF p(3)] fci_read [OF p(3)] p(1,2)
    by (simp add: tells_def rtcpPart_def onReceiveSLI_def Let_def peerOf_def postEvent_def)
qed

lemma tells_NACK:
  assumes "length fci mod 4 = 0" "length fci \<le> 800" "fci \<noteq> []"
  shows "tells c b (fciPart 1 205 fci c) [ProcessGenericNACK fci]"
proof -
  note p = fciPart_ok [OF assms(1,2), of 1 205 c]
  have "4 \<le> length fci" using assms(1,3) by (cases "length fci < 4") (auto simp: mod_less)
  then show ?thesis
    using fb_rd [OF p(3)] isFeedback_hdr [OF p(3)] fci_read [OF p(3)] p(1,2)
    by (simp add: tells_def rtcpPart_def onReceiveGenericNACK_def Let_def peerOf_def postEvent_def)
qed

lemma limit_read:
  assumes "p = fbHeader f 205 4 s 0 @ be32 m @ fci" "length fci = 4"
  shows "partOk p" "int (length p) = 20" "u32at p 12 = Inr m" "rd_block p 16 4 = Inr fci"
proof -
  show "int (length p) = 20" using assms by simp
  then show "partOk p"
    by (intro partOkI [of _ "0x80 OR f" 205 4 "be32 s @ be32 0 @ be32 m @ fci"]) (simp_all add: assms(1) fbHeader_lenBytes)
  show "u32at p 12 = Inr m" unfolding assms(1) by (rule be32_read) simp_all
  show "rd_block p 16 4 = Inr fci"
    using rd_block_mid [of "fbHeader f 205 4 s 0 @ be32 m" fci "[]"] by (simp add: assms)
qed

lemma tells_TMMBR: "length fci = 4 \<Longrightarrow> tells c b (tmmbrPart fci c) [ProcessTMMBR fci]"
proof -
  assume len: "length fci = 4"
  have p: "tmmbrPart fci c = fbHeader 3 205 4 (ctl_mSSRC c) 0 @ be32 (mVideoPeerSSRC c) @ fci" by (simp add: tmmbrPart_def)
  show ?thesis
    using fb_rd [OF p] isFeedback_hdr [OF p] limit_read [OF p len]
    by (simp add: tells_def rtcpPart_def onReceiveTMMBR_def Let_def peerOf_def postEvent_def)
qed

lemma tells_TMMBN: "length fci = 4 \<Longrightarrow> tells c b (tmmbnPart fci c) [ProcessTMMBN fci (ctl_mSSRC c)]"
proof -
  assume len: "length fci = 4"
  have p: "tmmbnPart fci c = fbHeader 4 205 4 (ctl_mSSRC c) 0 @ be32 (ctl_mSSRC c) @ fci" by (simp add: tmmbnPart_def)
  show ?thesis
    using fb_rd [OF p] isFeedback_hdr [OF p] limit_read [OF p len]
    by (simp add: tells_def rtcpPart_def onReceiveTMMBN_def Let_def peerOf_def postEvent_def clearFlag_def)
qed

section \<open>The report\<close>

definition reportEvents :: "rtcp_env \<Rightarrow> RTPController \<Rightarrow> bool \<Rightarrow> rtcp_event list" where
  "reportEvents env c b =
     (if sendsSR env c then [ProcessSenderInfo (env_senderInfo env) (ctl_mSSRC c)] else []) @
     (case reportBlock env c of None \<Rightarrow> [] | Some blk \<Rightarrow> [ProcessReportBlock (drop 4 blk) b])"

lemma reportLoop_one:
  assumes "u32at m (off + h) = Inr ssrc" "rd_block m (off + h + 4) 20 = Inr d" "h < len" "ssrc = ctl_mSSRC r" "mVideoRTPSender_get r"
  shows "reportLoop m off len h b IMSMA_RTP_VIDEO (Suc 0) 0 r = Inr (postEvent (ProcessReportBlock d b) r)"
  using assms by (simp add: Let_def)

lemma rd_block_at:
  "length xs = nat i \<Longrightarrow> 0 \<le> i \<Longrightarrow> int (length ys) = n \<Longrightarrow> rd_block (xs @ ys @ zs) i n = Inr ys"
  using rd_block_mid [of xs ys zs] by simp

lemma tells_report:
  assumes "envOk env" "\<And>blk. reportBlock env c = Some blk \<Longrightarrow> take 4 blk = be32 (mVideoPeerSSRC c)"
  shows "tells c b (reportPart env c) (reportEvents env c b)"
proof -
  let ?info = "if sendsSR env c then env_senderInfo env else []"
  let ?blk = "case reportBlock env c of None \<Rightarrow> [] | Some blk \<Rightarrow> blk"
  let ?body = "be32 (ctl_mSSRC c) @ ?info @ ?blk"
  let ?x = "if reportBlock env c = None then 0x80 else 0x81 :: byte" and ?pt = "if sendsSR env c then 200 else 201 :: byte"
  let ?l = "int (length ?body) div 4"
  have len: "length (env_senderInfo env) = 20" "\<And>blk. reportBlock env c = Some blk \<Longrightarrow> length blk = 24"
    using assms(1) by (auto simp: envOk_def reportBlock_def split: if_splits)
  have p: "reportPart env c = [?x, ?pt] @ lenBytes ?l @ ?body" by (simp add: reportPart_def Let_def)
  define n where "n = int (length ?body)"
  have "n mod 4 = 0" "n \<le> 48" "0 \<le> n"
    using len by (auto simp: n_def split: option.split)
  moreover have "int (length (reportPart env c)) = 4 + n" unfolding p n_def by simp
  ultimately have l: "0 \<le> ?l" "?l < 65536" "int (length (reportPart env c)) = 4 * (?l + 1)"
    unfolding n_def [symmetric] by presburger+
  have ok: "partOk (reportPart env c)" by (rule partOkI [OF p l])
  let ?h = "if sendsSR env c then 28 else 8 :: int"
  have plen: "int (length (reportPart env c)) = ?h + int (length ?blk)" using len(1) by (simp add: p)
  have rd: "rd (reportPart env c) 0 = Inr ?x" "rd (reportPart env c) 1 = Inr ?pt"
    unfolding p by (simp_all add: rd_def)
  have ssrc: "u32at (reportPart env c) 4 = Inr (ctl_mSSRC c)"
    unfolding p using be32_read [of "[?x, ?pt] @ lenBytes ?l" 4 "ctl_mSSRC c" "?info @ ?blk"] by simp
  have info: "rd_block (reportPart env c) 8 20 = Inr (env_senderInfo env)" if "sendsSR env c"
    unfolding p using that rd_block_mid [of "[?x, ?pt] @ lenBytes ?l @ be32 (ctl_mSSRC c)" "env_senderInfo env" ?blk] len(1) by simp
  have blk: "\<exists>r'. reportLoop (reportPart env c) 0 (int (length (reportPart env c))) ?h b IMSMA_RTP_VIDEO
       (unat (?x AND 0x1F)) 0 r = Inr r' \<and> peerOf c r' \<and>
       rtcpEvents r' = rtcpEvents r @ (case reportBlock env c of None \<Rightarrow> [] | Some blk \<Rightarrow> [ProcessReportBlock (drop 4 blk) b])"
    if r: "peerOf c r" for r
  proof (cases "reportBlock env c")
    case None
    then show ?thesis using r by simp
  next
    case (Some k)
    let ?pre = "[?x, ?pt] @ lenBytes ?l @ be32 (ctl_mSSRC c) @ ?info"
    have k: "k = be32 (mVideoPeerSSRC c) @ drop 4 k" "length k = 24"
      using assms(2) [OF Some] len(2) [OF Some] append_take_drop_id [of 4 k] by auto
    have q: "reportPart env c = ?pre @ be32 (mVideoPeerSSRC c) @ drop 4 k @ []"
      unfolding p using Some k(1) by simp
    have pre: "length ?pre = nat ?h" "0 \<le> ?h" using len(1) by simp_all
    have "u32at (reportPart env c) ?h = Inr (mVideoPeerSSRC c)"
      unfolding q by (rule be32_read [OF pre])
    moreover have "rd_block (reportPart env c) (?h + 4) 20 = Inr (drop 4 k)"
      using rd_block_at [of "?pre @ be32 (mVideoPeerSSRC c)" "?h + 4" "drop 4 k" 20 "[]"] len(1) k(2)
      unfolding q by simp
    moreover have "?h < int (length (reportPart env c))" using plen Some k(2) by simp
    ultimately have "reportLoop (reportPart env c) 0 (int (length (reportPart env c))) ?h b IMSMA_RTP_VIDEO (Suc 0) 0 r =
        Inr (postEvent (ProcessReportBlock (drop 4 k) b) r)"
      using r by (intro reportLoop_one) (simp_all add: peerOf_def)
    then show ?thesis using r Some by simp
  qed
  show ?thesis
    unfolding tells_def
  proof (intro conjI allI impI ok)
    fix r assume r: "peerOf c r"
    let ?r = "if sendsSR env c then postEvent (ProcessSenderInfo (env_senderInfo env) (ctl_mSSRC c)) r else r"
    have r': "peerOf c ?r" using r by simp
    have part: "rtcpPart (reportPart env c) 0 (int (length (reportPart env c))) b IMSMA_RTP_VIDEO r =
        reportLoop (reportPart env c) 0 (int (length (reportPart env c))) ?h b IMSMA_RTP_VIDEO (unat (?x AND 0x1F)) 0 ?r"
      using rd ssrc info r by (auto simp: rtcpPart_def Let_def peerOf_def)
    have "rtcpEvents ?r = rtcpEvents r @ (if sendsSR env c then [ProcessSenderInfo (env_senderInfo env) (ctl_mSSRC c)] else [])"
      by simp
    then show "\<exists>r'. rtcpPart (reportPart env c) 0 (int (length (reportPart env c))) b IMSMA_RTP_VIDEO r = Inr r' \<and>
        rtcpEvents r' = rtcpEvents r @ reportEvents env c b \<and> peerOf c r'"
      using blk [OF r'] unfolding part reportEvents_def append_assoc [symmetric] by metis
  qed
qed

section \<open>The packet\<close>

text \<open>The feedback of a packet, each part with the message it stands for; \<open>f\<close> are the flags.\<close>

definition feedbackParts :: "rtcp_env \<Rightarrow> RTPController \<Rightarrow> (byte list \<times> rtcp_event) list" where
  "feedbackParts env c =
     (let f = mFeedBackFlag c in
      (if f AND kKeyFIR \<noteq> 0 then [(firPart c, ProcessFIR (mFIRLastSeqNum c))] else []) @
      (if f AND kKeySLI \<noteq> 0
       then [(fciPart 2 206 (the (mSliBuffer c)) c, NotifySLI (the (mSliBuffer c)))] else []) @
      (if f AND kKeyPLI \<noteq> 0 then [(pliPart c, NotifyPLI)] else []) @
      (if f AND kKeyGNACK \<noteq> 0
       then [(fciPart 1 205 (the (mGenericNACKBuffer c)) c, ProcessGenericNACK (the (mGenericNACKBuffer c)))] else []) @
      (if f AND kKeyTMMBR \<noteq> 0
       then [(tmmbrPart (the (tmmbrLimit env c)) c, ProcessTMMBR (the (tmmbrLimit env c)))] else []) @
      (if f AND kKeyTMMBN \<noteq> 0
       then [(tmmbnPart (the (mTMMBNBuffer c)) c, ProcessTMMBN (the (mTMMBNBuffer c)) (ctl_mSSRC c))] else []))"

text \<open>
  What a packet can carry: the buffers that the flags announce are there, their entries have four octets,
  and all of it fits.
\<close>

definition fciOk :: "byte list option \<Rightarrow> bool" where
  "fciOk x \<longleftrightarrow> (\<exists>fci. x = Some fci \<and> fci \<noteq> [] \<and> length fci mod 4 = 0 \<and> length fci \<le> 380)"

definition limitOk :: "byte list option \<Rightarrow> bool" where
  "limitOk x \<longleftrightarrow> (\<exists>fci. x = Some fci \<and> length fci = 4)"

definition sendable :: "rtcp_env \<Rightarrow> RTPController \<Rightarrow> bool" where
  "sendable env c \<longleftrightarrow>
     (let f = mFeedBackFlag c in
      envOk env \<and> ctl_mMTUSize c = imsma_rtp_MTU_size \<and> length (mCName c) \<le> 255 \<and> peerKnown c \<and> downlinkActive c \<and>
      (f AND kKeySLI \<noteq> 0 \<longrightarrow> fciOk (mSliBuffer c)) \<and> (f AND kKeyGNACK \<noteq> 0 \<longrightarrow> fciOk (mGenericNACKBuffer c)) \<and>
      (f AND kKeyTMMBR \<noteq> 0 \<longrightarrow> limitOk (tmmbrLimit env c)) \<and> (f AND kKeyTMMBN \<noteq> 0 \<longrightarrow> limitOk (mTMMBNBuffer c)))"

text \<open>
  A packet under construction that holds \<open>xs\<close>; the controller is \<open>c\<close> but for what the parts
  already written have used up: the buffers of the keys in \<open>K\<close> are still those of \<open>c\<close>.
\<close>

definition pending :: "32 word \<Rightarrow> RTPController \<Rightarrow> bool \<times> byte list option" where
  "pending k c =
     (if k = kKeySLI then (False, mSliBuffer c) else if k = kKeyGNACK then (False, mGenericNACKBuffer c)
      else if k = kKeyTMMBR then (m_isWaitingTMMBN c, mTMMBRBuffer c)
      else if k = kKeyTMMBN then (False, mTMMBNBuffer c) else (False, None))"

definition sameSender :: "RTPController \<Rightarrow> RTPController \<Rightarrow> bool" where
  "sameSender c c' \<longleftrightarrow>
     ctl_mSSRC c' = ctl_mSSRC c \<and> mVideoPeerSSRC c' = mVideoPeerSSRC c \<and> peerKnown c' = peerKnown c \<and>
     mFIRLastSeqNum c' = mFIRLastSeqNum c \<and>
     mVideoRTCPSocketWrapper_get c' = mVideoRTCPSocketWrapper_get c \<and> rtcpWire c' = rtcpWire c"

definition grown :: "RTPController \<Rightarrow> 32 word set \<Rightarrow> byte list \<Rightarrow> RTPController \<times> rtcp_buffer \<Rightarrow> bool" where
  "grown c K xs x \<longleftrightarrow> holds imsma_rtp_MTU_size xs (snd x) \<and> sameSender c (fst x) \<and>
     (\<forall>k \<in> K. pending k (fst x) = pending k c)"

lemma sameSender_parts:
  assumes "sameSender c c'"
  shows "firPart c' = firPart c" "pliPart c' = pliPart c" "fciPart f t fci c' = fciPart f t fci c"
    "tmmbrPart fci c' = tmmbrPart fci c" "tmmbnPart fci c' = tmmbnPart fci c"
  using assms by (simp_all add: sameSender_def firPart_def pliPart_def fciPart_def tmmbrPart_def tmmbnPart_def)

text \<open>One writer whose part fits.\<close>

lemma grown_step:
  assumes "grown c K xs x" "k \<in> K"
    and "\<And>c' b. sameSender c c' \<Longrightarrow> holds imsma_rtp_MTU_size xs b \<Longrightarrow> pending k c' = pending k c \<Longrightarrow> f AND k \<noteq> 0 \<Longrightarrow>
      \<exists>b'. add c' b = Inr (u c', b') \<and> holds imsma_rtp_MTU_size (xs @ part) b'"
    and "\<And>c'. sameSender c' (u c') \<and> (\<forall>k' \<in> K - {k}. pending k' (u c') = pending k' c')"
  shows "\<exists>x'. whenFlag f k add x = Inr x' \<and> grown c (K - {k}) (xs @ (if f AND k \<noteq> 0 then part else [])) x'"
proof -
  obtain c' b where x: "x = (c', b)" by (cases x)
  show ?thesis
  proof (cases "f AND k = 0")
    case True
    then show ?thesis using assms(1) x by (simp add: whenFlag_def grown_def)
  next
    case False
    obtain b' where "add c' b = Inr (u c', b')" "holds imsma_rtp_MTU_size (xs @ part) b'"
      using assms(3) [of c' b] assms(1,2) x False by (auto simp: grown_def)
    moreover have "sameSender c (u c')" "\<forall>k' \<in> K - {k}. pending k' (u c') = pending k' c"
      using assms(1) assms(4) [of c'] x by (auto simp: grown_def sameSender_def)
    ultimately show ?thesis using x False by (simp add: whenFlag_def grown_def)
  qed
qed

lemmas grown_defs = sameSender_def pending_def clearFlag_def peerKnown_def

abbreviation roomFor :: "byte list \<Rightarrow> byte list \<Rightarrow> bool" where
  "roomFor xs part \<equiv> int (length xs) + int (length part) \<le> imsma_rtp_MTU_size"

lemma grown_FIR:
  assumes "grown c K xs x" "kKeyFIR \<in> K" "peerKnown c" "roomFor xs (firPart c)"
  shows "\<exists>x'. whenFlag f kKeyFIR addFIR x = Inr x' \<and>
    grown c (K - {kKeyFIR}) (xs @ (if f AND kKeyFIR \<noteq> 0 then firPart c else [])) x'"
proof (rule grown_step [OF assms(1,2), of f addFIR "clearFlag kKeyFIR"])
  fix c' b assume a: "sameSender c c'" "holds imsma_rtp_MTU_size xs b"
  have "length (firPart c) = 20" by (simp add: firPart_def)
  then show "\<exists>b'. addFIR c' b = Inr (clearFlag kKeyFIR c', b') \<and> holds imsma_rtp_MTU_size (xs @ firPart c) b'"
    using addFIR_holds [OF a(2), of c'] a(1) assms(3,4) sameSender_parts [OF a(1)] by (simp add: sameSender_def)
qed (simp add: grown_defs)

lemma grown_PLI:
  assumes "grown c K xs x" "kKeyPLI \<in> K" "peerKnown c" "roomFor xs (pliPart c)"
  shows "\<exists>x'. whenFlag f kKeyPLI addPLI x = Inr x' \<and>
    grown c (K - {kKeyPLI}) (xs @ (if f AND kKeyPLI \<noteq> 0 then pliPart c else [])) x'"
proof (rule grown_step [OF assms(1,2), of f addPLI "clearFlag kKeyPLI"])
  fix c' b assume a: "sameSender c c'" "holds imsma_rtp_MTU_size xs b"
  have "length (pliPart c) = 12" by (simp add: pliPart_def)
  then show "\<exists>b'. addPLI c' b = Inr (clearFlag kKeyPLI c', b') \<and> holds imsma_rtp_MTU_size (xs @ pliPart c) b'"
    using addPLI_holds [OF a(2), of c'] a(1) assms(3,4) sameSender_parts [OF a(1)] by (simp add: sameSender_def)
qed (simp add: grown_defs)

lemma length_fciPart [simp]: "length (fciPart f t fci c) = 12 + length fci"
  by (simp add: fciPart_def)

lemma grown_SLI:
  assumes "grown c K xs x" "kKeySLI \<in> K" "peerKnown c"
    and "f AND kKeySLI \<noteq> 0 \<Longrightarrow> mSliBuffer c = Some fci \<and> roomFor xs (fciPart 2 206 fci c)"
  shows "\<exists>x'. whenFlag f kKeySLI addSLI x = Inr x' \<and>
    grown c (K - {kKeySLI}) (xs @ (if f AND kKeySLI \<noteq> 0 then fciPart 2 206 fci c else [])) x'"
proof (rule grown_step [OF assms(1,2), of f addSLI "\<lambda>c. (clearFlag kKeySLI c)\<lparr>mSliBuffer := None\<rparr>"])
  fix c' b
  assume a: "sameSender c c'" "holds imsma_rtp_MTU_size xs b" "pending kKeySLI c' = pending kKeySLI c" "f AND kKeySLI \<noteq> 0"
  have fci: "mSliBuffer c' = Some fci" using a(3) assms(4) [OF a(4)] by (simp add: pending_def)
  show "\<exists>b'. addSLI c' b = Inr ((clearFlag kKeySLI c')\<lparr>mSliBuffer := None\<rparr>, b') \<and>
      holds imsma_rtp_MTU_size (xs @ fciPart 2 206 fci c) b'"
    using addSLI_holds [OF a(2) fci] a(1) assms(3) assms(4) [OF a(4)] sameSender_parts [OF a(1)]
    by (simp add: sameSender_def)
qed (simp add: grown_defs)

lemma grown_NACK:
  assumes "grown c K xs x" "kKeyGNACK \<in> K" "peerKnown c"
    and "f AND kKeyGNACK \<noteq> 0 \<Longrightarrow> mGenericNACKBuffer c = Some fci \<and> roomFor xs (fciPart 1 205 fci c)"
  shows "\<exists>x'. whenFlag f kKeyGNACK addNACK x = Inr x' \<and>
    grown c (K - {kKeyGNACK}) (xs @ (if f AND kKeyGNACK \<noteq> 0 then fciPart 1 205 fci c else [])) x'"
proof (rule grown_step [OF assms(1,2), of f addNACK "\<lambda>c. (clearFlag kKeyGNACK c)\<lparr>mGenericNACKBuffer := None\<rparr>"])
  fix c' b
  assume a: "sameSender c c'" "holds imsma_rtp_MTU_size xs b" "pending kKeyGNACK c' = pending kKeyGNACK c" "f AND kKeyGNACK \<noteq> 0"
  have fci: "mGenericNACKBuffer c' = Some fci" using a(3) assms(4) [OF a(4)] by (simp add: pending_def key_defs)
  show "\<exists>b'. addNACK c' b = Inr ((clearFlag kKeyGNACK c')\<lparr>mGenericNACKBuffer := None\<rparr>, b') \<and>
      holds imsma_rtp_MTU_size (xs @ fciPart 1 205 fci c) b'"
    using addNACK_holds [OF a(2) fci] a(1) assms(3) assms(4) [OF a(4)] sameSender_parts [OF a(1)]
    by (simp add: sameSender_def)
qed (simp add: grown_defs)

lemma grown_TMMBR:
  assumes "grown c K xs x" "kKeyTMMBR \<in> K" "peerKnown c"
    and "f AND kKeyTMMBR \<noteq> 0 \<Longrightarrow> tmmbrLimit env c = Some fci \<and> length fci = 4 \<and> roomFor xs (tmmbrPart fci c)"
  shows "\<exists>x'. whenFlag f kKeyTMMBR (addTMMBR env) x = Inr x' \<and>
    grown c (K - {kKeyTMMBR}) (xs @ (if f AND kKeyTMMBR \<noteq> 0 then tmmbrPart fci c else [])) x'"
proof (rule grown_step [OF assms(1,2), of f "addTMMBR env" "\<lambda>c. c\<lparr>mTMMBRBuffer := Some fci, m_isWaitingTMMBN := True\<rparr>"])
  fix c' b
  assume a: "sameSender c c'" "holds imsma_rtp_MTU_size xs b" "pending kKeyTMMBR c' = pending kKeyTMMBR c" "f AND kKeyTMMBR \<noteq> 0"
  have "tmmbrLimit env c' = tmmbrLimit env c"
    using a(3) by (auto simp: pending_def key_defs tmmbrLimit_def)
  then have fci: "tmmbrLimit env c' = Some fci" "length fci = 4" using assms(4) [OF a(4)] by simp_all
  have "length (tmmbrPart fci c) = 20" using fci(2) by (simp add: tmmbrPart_def)
  then show "\<exists>b'. addTMMBR env c' b = Inr (c'\<lparr>mTMMBRBuffer := Some fci, m_isWaitingTMMBN := True\<rparr>, b') \<and>
      holds imsma_rtp_MTU_size (xs @ tmmbrPart fci c) b'"
    using addTMMBR_holds [OF a(2) fci] a(1) assms(3) assms(4) [OF a(4)] sameSender_parts [OF a(1)]
    by (simp add: sameSender_def)
qed (simp add: grown_defs)

lemma grown_TMMBN:
  assumes "grown c K xs x" "kKeyTMMBN \<in> K"
    and "f AND kKeyTMMBN \<noteq> 0 \<Longrightarrow> mTMMBNBuffer c = Some fci \<and> length fci = 4 \<and> roomFor xs (tmmbnPart fci c)"
  shows "\<exists>x'. whenFlag f kKeyTMMBN addTMMBN x = Inr x' \<and>
    grown c (K - {kKeyTMMBN}) (xs @ (if f AND kKeyTMMBN \<noteq> 0 then tmmbnPart fci c else [])) x'"
proof (rule grown_step [OF assms(1,2), of f addTMMBN "\<lambda>c. (clearFlag kKeyTMMBN c)\<lparr>mTMMBNBuffer := None\<rparr>"])
  fix c' b
  assume a: "sameSender c c'" "holds imsma_rtp_MTU_size xs b" "pending kKeyTMMBN c' = pending kKeyTMMBN c" "f AND kKeyTMMBN \<noteq> 0"
  have fci: "mTMMBNBuffer c' = Some fci" "length fci = 4"
    using a(3) assms(3) [OF a(4)] by (simp_all add: pending_def key_defs)
  have "length (tmmbnPart fci c) = 20" using fci(2) by (simp add: tmmbnPart_def)
  then show "\<exists>b'. addTMMBN c' b = Inr ((clearFlag kKeyTMMBN c')\<lparr>mTMMBNBuffer := None\<rparr>, b') \<and>
      holds imsma_rtp_MTU_size (xs @ tmmbnPart fci c) b'"
    using addTMMBN_holds [OF a(2) fci] assms(3) [OF a(4)] sameSender_parts [OF a(1)] by simp
qed (simp add: grown_defs)

lemma addFeedback_parts:
  assumes "sendable env c" "holds imsma_rtp_MTU_size xs b" "length xs \<le> 321"
  shows "\<exists>c' b'. addFeedback env c b = Inr (c', b') \<and>
     holds imsma_rtp_MTU_size (xs @ concat (map fst (feedbackParts env c))) b' \<and> sameSender c c'"
proof -
  let ?f = "mFeedBackFlag c"
  note ok = assms(1) [unfolded sendable_def Let_def]
  define sli where "sli = the (mSliBuffer c)"
  define nack where "nack = the (mGenericNACKBuffer c)"
  define lim where "lim = the (tmmbrLimit env c)"
  define limN where "limN = the (mTMMBNBuffer c)"
  have bufs: "?f AND kKeySLI \<noteq> 0 \<Longrightarrow> mSliBuffer c = Some sli \<and> length sli \<le> 380"
    "?f AND kKeyGNACK \<noteq> 0 \<Longrightarrow> mGenericNACKBuffer c = Some nack \<and> length nack \<le> 380"
    "?f AND kKeyTMMBR \<noteq> 0 \<Longrightarrow> tmmbrLimit env c = Some lim \<and> length lim = 4"
    "?f AND kKeyTMMBN \<noteq> 0 \<Longrightarrow> mTMMBNBuffer c = Some limN \<and> length limN = 4"
    using ok by (auto simp: fciOk_def limitOk_def sli_def nack_def lim_def limN_def)
  define p1 where "p1 = (if ?f AND kKeyFIR \<noteq> 0 then firPart c else [])"
  define p2 where "p2 = (if ?f AND kKeySLI \<noteq> 0 then fciPart 2 206 sli c else [])"
  define p3 where "p3 = (if ?f AND kKeyPLI \<noteq> 0 then pliPart c else [])"
  define p4 where "p4 = (if ?f AND kKeyGNACK \<noteq> 0 then fciPart 1 205 nack c else [])"
  define p5 where "p5 = (if ?f AND kKeyTMMBR \<noteq> 0 then tmmbrPart lim c else [])"
  define p6 where "p6 = (if ?f AND kKeyTMMBN \<noteq> 0 then tmmbnPart limN c else [])"
  have len: "length (firPart c) = 20" "length (pliPart c) = 12" "length (tmmbrPart lim c) = 16 + length lim"
    "length (tmmbnPart limN c) = 16 + length limN"
    by (simp_all add: firPart_def pliPart_def tmmbrPart_def tmmbnPart_def)
  have lens: "length p1 \<le> 20" "length p2 \<le> 392" "length p3 \<le> 12" "length p4 \<le> 392" "length p5 \<le> 20"
    using bufs len by (auto simp: p1_def p2_def p3_def p4_def p5_def)
  note room = imsma_rtp_MTU_size_def
  have peer: "peerKnown c" and down: "downlinkActive c" using ok by simp_all
  let ?K = "{kKeyFIR, kKeySLI, kKeyPLI, kKeyGNACK, kKeyTMMBR, kKeyTMMBN}"
  have x0: "grown c ?K xs (c, b)" using assms(2) by (simp add: grown_def sameSender_def)
  have mem: "kKeyFIR \<in> ?K" "kKeySLI \<in> ?K - {kKeyFIR}" "kKeyPLI \<in> ?K - {kKeyFIR} - {kKeySLI}"
    "kKeyGNACK \<in> ?K - {kKeyFIR} - {kKeySLI} - {kKeyPLI}" "kKeyTMMBR \<in> ?K - {kKeyFIR} - {kKeySLI} - {kKeyPLI} - {kKeyGNACK}"
    "kKeyTMMBN \<in> ?K - {kKeyFIR} - {kKeySLI} - {kKeyPLI} - {kKeyGNACK} - {kKeyTMMBR}"
    by (simp_all add: key_defs)
  have r1: "roomFor xs (firPart c)" using assms(3) len(1) by (simp add: room)
  have r2: "?f AND kKeySLI \<noteq> 0 \<Longrightarrow> mSliBuffer c = Some sli \<and> roomFor (xs @ p1) (fciPart 2 206 sli c)"
    using assms(3) bufs(1) lens by (simp add: room)
  have r3: "roomFor ((xs @ p1) @ p2) (pliPart c)" using assms(3) lens len(2) by (simp add: room)
  have r4: "?f AND kKeyGNACK \<noteq> 0 \<Longrightarrow> mGenericNACKBuffer c = Some nack \<and> roomFor (((xs @ p1) @ p2) @ p3) (fciPart 1 205 nack c)"
    using assms(3) bufs(2) lens by (simp add: room)
  have r5: "?f AND kKeyTMMBR \<noteq> 0 \<Longrightarrow> tmmbrLimit env c = Some lim \<and> length lim = 4 \<and> roomFor ((((xs @ p1) @ p2) @ p3) @ p4) (tmmbrPart lim c)"
    using assms(3) bufs(3) lens len(3) by (simp add: room)
  have r6: "?f AND kKeyTMMBN \<noteq> 0 \<Longrightarrow> mTMMBNBuffer c = Some limN \<and> length limN = 4 \<and> roomFor (((((xs @ p1) @ p2) @ p3) @ p4) @ p5) (tmmbnPart limN c)"
    using assms(3) bufs(4) lens len(4) by (simp add: room)
  obtain x1 where 1: "whenFlag ?f kKeyFIR addFIR (c, b) = Inr x1" "grown c (?K - {kKeyFIR}) (xs @ p1) x1"
    using grown_FIR [OF x0 mem(1) peer r1, of ?f] unfolding p1_def by blast
  obtain x2 where 2: "whenFlag ?f kKeySLI addSLI x1 = Inr x2" "grown c (?K - {kKeyFIR} - {kKeySLI}) ((xs @ p1) @ p2) x2"
    using grown_SLI [OF 1(2) mem(2) peer r2] unfolding p2_def by blast
  obtain x3 where 3: "whenFlag ?f kKeyPLI addPLI x2 = Inr x3"
    "grown c (?K - {kKeyFIR} - {kKeySLI} - {kKeyPLI}) (((xs @ p1) @ p2) @ p3) x3"
    using grown_PLI [OF 2(2) mem(3) peer r3, of ?f] unfolding p3_def by blast
  obtain x4 where 4: "whenFlag ?f kKeyGNACK addNACK x3 = Inr x4"
    "grown c (?K - {kKeyFIR} - {kKeySLI} - {kKeyPLI} - {kKeyGNACK}) ((((xs @ p1) @ p2) @ p3) @ p4) x4"
    using grown_NACK [OF 3(2) mem(4) peer r4] unfolding p4_def by blast
  obtain x5 where 5: "whenFlag ?f kKeyTMMBR (addTMMBR env) x4 = Inr x5"
    "grown c (?K - {kKeyFIR} - {kKeySLI} - {kKeyPLI} - {kKeyGNACK} - {kKeyTMMBR}) (((((xs @ p1) @ p2) @ p3) @ p4) @ p5) x5"
    using grown_TMMBR [OF 4(2) mem(5) peer r5] unfolding p5_def by blast
  obtain x6 where 6: "whenFlag ?f kKeyTMMBN addTMMBN x5 = Inr x6"
    "grown c (?K - {kKeyFIR} - {kKeySLI} - {kKeyPLI} - {kKeyGNACK} - {kKeyTMMBR} - {kKeyTMMBN})
       ((((((xs @ p1) @ p2) @ p3) @ p4) @ p5) @ p6) x6"
    using grown_TMMBN [OF 5(2) mem(6) r6] unfolding p6_def by blast
  have parts: "concat (map fst (feedbackParts env c)) = p1 @ p2 @ p3 @ p4 @ p5 @ p6"
    by (simp add: feedbackParts_def Let_def p1_def p2_def p3_def p4_def p5_def p6_def sli_def nack_def lim_def limN_def)
  have "addFeedback env c b = Inr x6"
    using down 1(1) 2(1) 3(1) 4(1) 5(1) 6(1) by (simp add: addFeedback_def Let_def downlinkActive_def)
  then show ?thesis using 6(2) by (cases x6) (auto simp: parts grown_def)
qed

text \<open>What a packet with this feedback tells the peer.\<close>

definition feedbackEvents :: "rtcp_env \<Rightarrow> RTPController \<Rightarrow> rtcp_event list" where
  "feedbackEvents env c =
     (let f = mFeedBackFlag c in
      (if f AND kKeyFIR \<noteq> 0 then [ProcessFIR (mFIRLastSeqNum c)] else []) @
      (if f AND kKeySLI \<noteq> 0 then [NotifySLI (the (mSliBuffer c))] else []) @
      (if f AND kKeyPLI \<noteq> 0 then [NotifyPLI] else []) @
      (if f AND kKeyGNACK \<noteq> 0 then [ProcessGenericNACK (the (mGenericNACKBuffer c))] else []) @
      (if f AND kKeyTMMBR \<noteq> 0 then [ProcessTMMBR (the (tmmbrLimit env c))] else []) @
      (if f AND kKeyTMMBN \<noteq> 0 then [ProcessTMMBN (the (mTMMBNBuffer c)) (ctl_mSSRC c)] else []))"

lemma feedbackEvents_parts: "feedbackEvents env c = map snd (feedbackParts env c)"
  by (simp add: feedbackEvents_def feedbackParts_def Let_def)

lemma feedback_tells:
  assumes "sendable env c" "(p, e) \<in> set (feedbackParts env c)"
  shows "tells c b p [e]"
proof -
  have lens: "\<And>fci. fciOk x \<Longrightarrow> length (the x) mod 4 = 0 \<and> length (the x) \<le> 800 \<and> the x \<noteq> []"
    "limitOk x \<Longrightarrow> length (the x) = 4" for x
    by (auto simp: fciOk_def limitOk_def)
  show ?thesis
    using assms lens unfolding sendable_def feedbackParts_def Let_def
    by (auto split: if_splits intro!: tells_FIR tells_SLI tells_PLI tells_NACK tells_TMMBR tells_TMMBN)
qed

lemma isTMMBR_hdr:
  assumes "f \<in> {1, 2, 3, 4}"
  shows "isTMMBR (fbHeader f t l s m @ rest) \<longleftrightarrow> t = 205 \<and> f = 3"
  using fmt_bits [OF assms] by (simp add: isTMMBR_def fbHeader_lenBytes)

lemma isTMMBR_feedback: "list_ex isTMMBR (map fst (feedbackParts env c)) \<longleftrightarrow> mFeedBackFlag c AND kKeyTMMBR \<noteq> 0"
proof -
  have "\<not> isTMMBR (firPart c)" "\<not> isTMMBR (fciPart 2 206 x c)" "\<not> isTMMBR (pliPart c)" "\<not> isTMMBR (fciPart 1 205 x c)"
    "isTMMBR (tmmbrPart x c)" "\<not> isTMMBR (tmmbnPart x c)" for x
    using isTMMBR_hdr [where rest = "[]"]
    by (simp_all add: firPart_def fciPart_def pliPart_def tmmbrPart_def tmmbnPart_def isTMMBR_hdr)
  then show ?thesis by (simp add: feedbackParts_def Let_def)
qed

lemma isTMMBR_others: "\<not> isTMMBR (reportPart env c)" "\<not> isTMMBR (sdesPart c)"
  by (simp_all add: isTMMBR_def reportPart_def sdesPart_def Let_def)

text \<open>C4. The compound RTCP packet that a controller builds, a sender or receiver report, the source description and any
  set of feedback messages whose entries fit, is read back by the controller of the peer: the packet is accepted,
  and what it hands on is the sender information, the report block with the mark whether the packet has a TMMBR,
  and each feedback message with its contents, in this order and nothing else, whatever lies behind the
  packet in memory.
\<close>

theorem rtcp_compound_read_back:
  assumes "sendable env c" "mVideoRTCPSocketWrapper_get c" "peerOf c r"
    and "\<And>blk. env_reportBlock env = Some blk \<Longrightarrow> take 4 blk = be32 (mVideoPeerSSRC c)"
  shows "\<exists>c' packet r'. makeAndsendRTCP env c = Inr c' \<and> rtcpWire c' = rtcpWire c @ [packet] \<and>
     queueRTCPPacket \<lparr>rp_bytes = packet, rp_tail = tail\<rparr> IMSMA_RTP_VIDEO r = Inr (True, r') \<and>
     rtcpEvents r' = rtcpEvents r @ reportEvents env c (mFeedBackFlag c AND kKeyTMMBR \<noteq> 0) @ feedbackEvents env c"
proof -
  let ?fb = "feedbackParts env c" and ?b = "mFeedBackFlag c AND kKeyTMMBR \<noteq> 0"
  have ok: "envOk env" "ctl_mMTUSize c = imsma_rtp_MTU_size" "length (mCName c) \<le> 255"
    using assms(1) by (simp_all add: sendable_def Let_def)
  obtain b u where 1: "addReport env c (newRtcpBuffer (ctl_mMTUSize c)) = Inr (u, b)"
    "holds (ctl_mMTUSize c) (reportPart env c) b"
    using addReport_holds [OF ok(1), of "ctl_mMTUSize c" c] ok(2) by (auto simp: imsma_rtp_MTU_size_def)
  have "length (reportPart env c) \<le> 52"
    using ok(1) by (auto simp: reportPart_def Let_def envOk_def reportBlock_def split: option.split)
  moreover have "int (length (sdesPart c)) \<le> int (length (mCName c)) + 14"
    unfolding length_sdesPart by (rule sdes_size(3)) simp
  ultimately have len: "length (reportPart env c @ sdesPart c) \<le> 321" using ok(3) by simp
  then obtain b1 where 2: "addSDES c b = Inr b1" "holds imsma_rtp_MTU_size (reportPart env c @ sdesPart c) b1"
    using addSDES_holds [OF 1(2), of c] ok(2) by (auto simp: imsma_rtp_MTU_size_def)
  obtain c' b2 where 3: "addFeedback env c b1 = Inr (c', b2)" "sameSender c c'"
    "holds imsma_rtp_MTU_size ((reportPart env c @ sdesPart c) @ concat (map fst ?fb)) b2"
    using addFeedback_parts [OF assms(1) 2(2) len] by blast
  let ?ps = "[(reportPart env c, reportEvents env c ?b), (sdesPart c, [])] @ map (\<lambda>(p, e). (p, [e])) ?fb"
  let ?packet = "concat (map fst ?ps)"
  have packet: "(reportPart env c @ sdesPart c) @ concat (map fst ?fb) = ?packet"
    by (simp add: comp_def case_prod_unfold)
  have "\<exists>d. makeAndsendRTCP env c = Inr d \<and> rtcpWire d = rtcpWire c @ [?packet]"
    using 1(1) 2(1) 3(1,2) rd_block_holds [OF 3(3)] assms(2) packet
    by (simp add: makeAndsendRTCP_def sameSender_def)
  moreover have blk: "\<And>blk. reportBlock env c = Some blk \<Longrightarrow> take 4 blk = be32 (mVideoPeerSSRC c)"
    using assms(4) by (auto simp: reportBlock_def split: if_splits)
  moreover have tells: "\<forall>(p, es) \<in> set ?ps. tells c ?b p es"
    using tells_report [OF ok(1) blk] tells_SDES [OF ok(3)] feedback_tells [OF assms(1)] by auto
  moreover have scan: "list_ex isTMMBR (map fst ?ps) = ?b"
    using isTMMBR_feedback [of env c] isTMMBR_others by (simp add: comp_def case_prod_unfold)
  moreover have "\<exists>r'. queueRTCPPacket \<lparr>rp_bytes = ?packet, rp_tail = tail\<rparr> IMSMA_RTP_VIDEO r = Inr (True, r') \<and>
      rtcpEvents r' = rtcpEvents r @ concat (map snd ?ps)"
  proof -
    let ?r = "r\<lparr>mReceiveRTCPPacket := True, m_avg_rtcp_size := avgRtcpSize (int (length ?packet)) (m_avg_rtcp_size r)\<rparr>"
    have "peerOf c ?r" using assms(3) by (simp add: peerOf_def)
    from readParts_tells [OF tells this] obtain r' where r': "readParts ?b IMSMA_RTP_VIDEO (map fst ?ps) ?r = Inr r'"
      "rtcpEvents r' = rtcpEvents r @ concat (map snd ?ps)" by auto
    have "\<forall>p \<in> set (map fst ?ps). partOk p" using tells by (auto simp: tells_def)
    from queueRTCPPacket_parts [OF this, of IMSMA_RTP_VIDEO r r' tail] r' scan show ?thesis by auto
  qed
  moreover have "concat (map snd ?ps) = reportEvents env c ?b @ feedbackEvents env c"
    by (simp add: feedbackEvents_parts comp_def case_prod_unfold concat_map_singleton)
  ultimately show ?thesis by metis
qed

definition callEnv :: rtcp_env where
  "callEnv = \<lparr>env_RTPSentCount = 50, env_senderInfo = [1, 2, 3, 4, 5, 6, 7, 8, 9, 10, 11, 12, 13, 14, 15, 16, 17, 18, 19, 20],
     env_reportBlock = Some (be32 9 @ [0, 0, 0, 1, 2, 3, 4, 5, 6, 7, 8, 9, 0, 1, 2, 3, 4, 5, 6, 7]), env_newTMMBR = None\<rparr>"

definition callOf :: "32 word \<Rightarrow> 32 word \<Rightarrow> RTPController" where
  "callOf ssrc peer =
     onUpdatePeerSSRC peer (ctlOnStart False False None 0 IMSMA_RTP_UP_DOWN_LINK (ctlOnAddStream IMSMA_RTP_UP_DOWN_LINK
       (onSetConfigParams 2000 2000 [(4, 5), (4, 6), (2, 1), (2, 2), (2, 3)] 5001 (newRTPController ssrc [0x61, 0x40, 0x62] 0))))"

definition allFeedback :: RTPController where
  "allFeedback = onSendTMMBN (Some [8, 8, 8, 8]) 5 (onSendTMMBR (Some [6, 6, 6, 6]) True 5 (onSendGenericNack (Some [0, 5, 0, 1]) 5
     (onSendPLI 5 (onSendSLI (Some [1, 2, 3, 4]) 5 (onSendFIR 5 (callOf 7 9))))))"

lemma rtcp_compound_read_back_witness:
  "\<exists>c' packet r'. makeAndsendRTCP callEnv allFeedback = Inr c' \<and> rtcpWire c' = [packet] \<and>
     queueRTCPPacket \<lparr>rp_bytes = packet, rp_tail = [1, 2, 3]\<rparr> IMSMA_RTP_VIDEO (callOf 9 7) = Inr (True, r') \<and>
     drop (length (rtcpEvents (callOf 9 7))) (rtcpEvents r') =
       [ProcessSenderInfo (env_senderInfo callEnv) 7,
        ProcessReportBlock [0, 0, 0, 1, 2, 3, 4, 5, 6, 7, 8, 9, 0, 1, 2, 3, 4, 5, 6, 7] True,
        ProcessFIR 1, NotifySLI [1, 2, 3, 4], NotifyPLI, ProcessGenericNACK [0, 5, 0, 1], ProcessTMMBR [6, 6, 6, 6],
        ProcessTMMBN [8, 8, 8, 8] 7]"
proof -
  have st: "mFeedBackFlag allFeedback = 63" "mSliBuffer allFeedback = Some [1, 2, 3, 4]"
    "mGenericNACKBuffer allFeedback = Some [0, 5, 0, 1]" "mTMMBRBuffer allFeedback = Some [6, 6, 6, 6]"
    "mTMMBNBuffer allFeedback = Some [8, 8, 8, 8]" "\<not> m_isWaitingTMMBN allFeedback" "mCName allFeedback = [0x61, 0x40, 0x62]"
    "ctl_mMTUSize allFeedback = 1200" "peerKnown allFeedback" "downlinkActive allFeedback" "sendsSR callEnv allFeedback"
    "mFIRLastSeqNum allFeedback = 1" "ctl_mSSRC allFeedback = 7"
    by code_simp+
  have env: "envOk callEnv" by (simp add: envOk_def callEnv_def)
  have lim: "tmmbrLimit callEnv allFeedback = Some [6, 6, 6, 6]" using st by (simp add: tmmbrLimit_def)
  have ok: "sendable callEnv allFeedback"
    using st env lim by (simp add: sendable_def imsma_rtp_MTU_size_def fciOk_def limitOk_def Let_def)
  have more: "mVideoRTCPSocketWrapper_get allFeedback" "peerOf allFeedback (callOf 9 7)" "rtcpWire allFeedback = []"
    "mVideoPeerSSRC allFeedback = 9"
    by code_simp+
  have blk: "env_reportBlock callEnv = Some (be32 9 @ [0, 0, 0, 1, 2, 3, 4, 5, 6, 7, 8, 9, 0, 1, 2, 3, 4, 5, 6, 7])"
    by (simp add: callEnv_def)
  then have four: "\<And>blk. env_reportBlock callEnv = Some blk \<Longrightarrow> take 4 blk = be32 (mVideoPeerSSRC allFeedback)"
    using more(4) by auto
  have rep: "reportEvents callEnv allFeedback True =
      [ProcessSenderInfo (env_senderInfo callEnv) 7, ProcessReportBlock [0, 0, 0, 1, 2, 3, 4, 5, 6, 7, 8, 9, 0, 1, 2, 3, 4, 5, 6, 7] True]"
    using st blk by (simp add: reportEvents_def reportBlock_def)
  have fb: "feedbackEvents callEnv allFeedback =
      [ProcessFIR 1, NotifySLI [1, 2, 3, 4], NotifyPLI, ProcessGenericNACK [0, 5, 0, 1], ProcessTMMBR [6, 6, 6, 6],
       ProcessTMMBN [8, 8, 8, 8] 7]"
    using st lim by (simp add: feedbackEvents_def Let_def key_defs)
  have "(mFeedBackFlag allFeedback AND kKeyTMMBR \<noteq> 0) = True" using st by (simp add: key_defs)
  then show ?thesis
    using rtcp_compound_read_back [OF ok more(1,2) four, of "[1, 2, 3]"] rep fb more(3) by fastforce
qed

end
