(* ===== verification/MuxBuffer.thy ===== *)
theory MuxBuffer
  imports RilPrelude
begin

text \<open>
  The receive buffer of the multiplexer daemon (\<open>GSM0710_Buffer\<close> of \<open>gsm0710muxd.h\<close>, \<open>gsm0710_buffer_init\<close>,
  \<open>gsm0710_buffer_write\<close> and \<open>gsm0710_buffer_inc\<close>): a ring of 4096 octets with two pointers and a count. The pointers
  are offsets into \<open>data\<close>; \<open>bufContents\<close> is the queue of octets the ring stands for, and the laws of the
  interface \<open>octet_ring\<close> say that writing appends to it and that advancing the read pointer drops its
  first octet.

  \<open>adv_data\<close> holds the \<open>adv_length\<close> octets that were stored; \<open>bufferready\<close> is set when the condition
  \<open>bufferready_signal\<close> is signalled.
\<close>

definition GSM0710_BUFFER_SIZE :: nat where "GSM0710_BUFFER_SIZE = 4096"

record gsm_buffer =
  buf_data :: "byte list"
  readp :: nat
  writep :: nat
  datacount :: nat
  newdataready :: bool
  input_sleeping :: bool
  bufferready :: bool
  flag_found :: bool
  received_count :: nat
  dropped_count :: nat
  adv_data :: "byte list"
  adv_found_esc :: bool

definition gsm0710_buffer_init :: gsm_buffer where
  "gsm0710_buffer_init = \<lparr>buf_data = replicate GSM0710_BUFFER_SIZE 0, readp = 0, writep = 0, datacount = 0,
     newdataready = False, input_sleeping = False, bufferready = False, flag_found = False, received_count = 0,
     dropped_count = 0, adv_data = [], adv_found_esc = False\<rparr>"

definition gsm0710_buffer_free :: "gsm_buffer \<Rightarrow> nat" where
  "gsm0710_buffer_free b = GSM0710_BUFFER_SIZE - datacount b"

text \<open>\<open>gsm0710_buffer_inc\<close> on a pointer and an unsigned count of 32 bits.\<close>

definition incCursor :: "nat \<times> nat \<Rightarrow> nat \<times> nat" where
  "incCursor c = ((if fst c + 1 = GSM0710_BUFFER_SIZE then 0 else fst c + 1),
     (if snd c = 0 then 2 ^ 32 - 1 else snd c - 1))"

definition bufCursor :: "gsm_buffer \<Rightarrow> nat \<times> nat" where
  "bufCursor b = (readp b, datacount b)"

definition setCursor :: "gsm_buffer \<Rightarrow> nat \<times> nat \<Rightarrow> gsm_buffer" where
  "setCursor b c = b\<lparr>readp := fst c, datacount := snd c\<rparr>"

definition bufInc :: "gsm_buffer \<Rightarrow> gsm_buffer" where
  "bufInc b = setCursor b (incCursor (bufCursor b))"

text \<open>\<open>gsm0710_buffer_write\<close>; returns the number of octets that were taken.\<close>

definition gsm0710_buffer_write :: "gsm_buffer \<Rightarrow> byte list \<Rightarrow> (gsm_buffer \<times> nat) res" where
  "gsm0710_buffer_write b input =
     (let c = GSM0710_BUFFER_SIZE - writep b;
          len = min (length input) (gsm0710_buffer_free b) in
      bnd (if len > c
           then bnd (wr_block (buf_data b) (int (writep b)) (take c input)) (\<lambda>d.
                bnd (wr_block d 0 (take (len - c) (drop c input))) (\<lambda>d. Inr (d, len - c)))
           else bnd (wr_block (buf_data b) (int (writep b)) (take len input)) (\<lambda>d.
                Inr (d, if writep b + len = GSM0710_BUFFER_SIZE then 0 else writep b + len))) (\<lambda>(d, w).
      Inr (b\<lparr>buf_data := d, writep := w, datacount := datacount b + len, newdataready := True\<rparr>, len)))"

section \<open>The queue a ring stands for\<close>

definition ringSlice :: "byte list \<Rightarrow> nat \<times> nat \<Rightarrow> byte list" where
  "ringSlice d c = map (\<lambda>i. d ! ((fst c + i) mod GSM0710_BUFFER_SIZE)) [0..<snd c]"

definition bufContents :: "gsm_buffer \<Rightarrow> byte list" where
  "bufContents b = ringSlice (buf_data b) (bufCursor b)"

definition bufOk :: "gsm_buffer \<Rightarrow> bool" where
  "bufOk b \<longleftrightarrow> length (buf_data b) = GSM0710_BUFFER_SIZE \<and> readp b < GSM0710_BUFFER_SIZE \<and>
     datacount b \<le> GSM0710_BUFFER_SIZE \<and> writep b = (readp b + datacount b) mod GSM0710_BUFFER_SIZE"

text \<open>The interface the readers rely on: \<open>inv\<close> is kept, \<open>put\<close> appends what fits, \<open>get\<close> looks at the first octet and
  \<open>next\<close> drops it.\<close>

locale octet_ring =
  fixes inv :: "'q \<Rightarrow> bool" and contents :: "'q \<Rightarrow> byte list" and room :: "'q \<Rightarrow> nat"
    and put :: "'q \<Rightarrow> byte list \<Rightarrow> ('q \<times> nat) res" and peek :: "'q \<Rightarrow> byte res" and advance :: "'q \<Rightarrow> 'q"
  assumes put_ok: "inv q \<Longrightarrow> \<exists>q'. put q xs = Inr (q', min (length xs) (room q)) \<and> inv q' \<and>
      contents q' = contents q @ take (room q) xs \<and> room q' = room q - min (length xs) (room q)"
    and peek_ok: "inv q \<Longrightarrow> contents q \<noteq> [] \<Longrightarrow> peek q = Inr (hd (contents q))"
    and advance_ok: "inv q \<Longrightarrow> contents q \<noteq> [] \<Longrightarrow> inv (advance q) \<and> contents (advance q) = tl (contents q)"
begin

fun takeOut :: "nat \<Rightarrow> 'q \<Rightarrow> (byte list \<times> 'q) res" where
  "takeOut 0 q = Inr ([], q)"
| "takeOut (Suc n) q = bnd (peek q) (\<lambda>x. bnd (takeOut n (advance q)) (\<lambda>(xs, q). Inr (x # xs, q)))"

lemma takeOut_ok:
  "inv q \<Longrightarrow> n \<le> length (contents q) \<Longrightarrow>
   \<exists>q'. takeOut n q = Inr (take n (contents q), q') \<and> inv q' \<and> contents q' = drop n (contents q)"
proof (induction n arbitrary: q)
  case (Suc n)
  from Suc.prems have ne: "contents q \<noteq> []" by auto
  note adv = advance_ok [OF Suc.prems(1) ne]
  have "n \<le> length (contents (advance q))" using adv Suc.prems(2) by simp
  from Suc.IH [OF _ this] adv obtain q' where
    "takeOut n (advance q) = Inr (take n (contents (advance q)), q')" "inv q'" "contents q' = drop n (contents (advance q))"
    by blast
  then show ?case using ne adv peek_ok [OF Suc.prems(1) ne]
    by (cases "contents q") auto
qed simp

text \<open>What was put in comes out in order, behind what was there before.\<close>

lemma put_takeOut:
  assumes "inv q" "length xs \<le> room q"
  shows "\<exists>q1 q2. put q xs = Inr (q1, length xs) \<and>
      takeOut (length (contents q) + length xs) q1 = Inr (contents q @ xs, q2) \<and> contents q2 = []"
proof -
  from put_ok [OF assms(1), of xs] obtain q1 where q1: "put q xs = Inr (q1, length xs)" "inv q1"
    "contents q1 = contents q @ xs" using assms(2) by auto
  from takeOut_ok [OF q1(2), of "length (contents q) + length xs"] q1 show ?thesis by auto
qed

end

section \<open>The ring implements the queue\<close>

lemma ringSlice_Nil [simp]: "ringSlice d (p, 0) = []"
  by (simp add: ringSlice_def)

lemma length_ringSlice [simp]: "length (ringSlice d c) = snd c"
  by (simp add: ringSlice_def)

lemma length_bufContents [simp]: "length (bufContents b) = datacount b"
  by (simp add: bufContents_def bufCursor_def)

lemma incCursor_fst: "p < GSM0710_BUFFER_SIZE \<Longrightarrow> fst (incCursor (p, n)) = Suc p mod GSM0710_BUFFER_SIZE"
  by (auto simp: incCursor_def mod_Suc GSM0710_BUFFER_SIZE_def)

lemma incCursor_lt: "fst c < GSM0710_BUFFER_SIZE \<Longrightarrow> fst (incCursor c) < GSM0710_BUFFER_SIZE"
  by (auto simp: incCursor_def)

lemma incCursor_snd: "0 < n \<Longrightarrow> snd (incCursor (p, n)) = n - 1"
  by (simp add: incCursor_def)

lemma ringSlice_Suc:
  assumes "p < GSM0710_BUFFER_SIZE"
  shows "ringSlice d (p, Suc n) = d ! p # ringSlice d (incCursor (p, Suc n))"
proof -
  have "ringSlice d (p, Suc n) = d ! p # map (\<lambda>i. d ! ((p + Suc i) mod GSM0710_BUFFER_SIZE)) [0..<n]"
    using assms by (simp add: ringSlice_def upt_conv_Cons map_Suc_upt [symmetric] comp_def del: upt_Suc)
  also have "map (\<lambda>i. d ! ((p + Suc i) mod GSM0710_BUFFER_SIZE)) [0..<n] = ringSlice d (incCursor (p, Suc n))"
    using assms by (simp add: ringSlice_def incCursor_fst incCursor_snd mod_add_left_eq)
  finally show ?thesis .
qed

lemma bufInc_ok:
  assumes "bufOk b" "0 < datacount b"
  shows "bufOk (bufInc b) \<and> bufContents (bufInc b) = tl (bufContents b) \<and>
    bufContents b = buf_data b ! readp b # bufContents (bufInc b)"
proof -
  obtain n where n: "datacount b = Suc n" using assms(2) by (cases "datacount b") auto
  have p: "readp b < GSM0710_BUFFER_SIZE" using assms by (simp add: bufOk_def)
  have "bufContents b = buf_data b ! readp b # bufContents (bufInc b)"
    using ringSlice_Suc [OF p, of "buf_data b" n]
    by (simp add: bufContents_def bufCursor_def bufInc_def setCursor_def n)
  moreover have "bufOk (bufInc b)"
    using assms n p incCursor_fst [OF p, of "Suc n"] incCursor_lt [of "(readp b, Suc n)"]
    by (simp add: bufOk_def bufInc_def setCursor_def bufCursor_def incCursor_snd mod_add_left_eq)
  ultimately show ?thesis by simp
qed

lemma wr_block_nth:
  assumes "off + length ys \<le> length xs"
  shows "\<exists>zs. wr_block xs (int off) ys = Inr zs \<and> length zs = length xs \<and>
    (\<forall>j < length xs. zs ! j = (if off \<le> j \<and> j < off + length ys then ys ! (j - off) else xs ! j))"
proof (cases "ys = []")
  case False
  have "length (take off xs @ ys @ drop (off + length ys) xs) = length xs" using assms by simp
  then show ?thesis using assms False
    by (intro exI [of _ "take off xs @ ys @ drop (off + length ys) xs"])
      (auto simp: wr_block_def nth_append min_def not_less)
qed (auto simp: wr_block_def)

lemma mod_wrap: "n \<le> a \<Longrightarrow> a < 2 * n \<Longrightarrow> a mod n = a - (n::nat)"
  by (simp add: le_mod_geq)

text \<open>The data after a write: the octets lie behind the write pointer, around the end of the array.\<close>

lemma write_data:
  assumes "bufOk b"
  defines "len \<equiv> \<lambda>xs. min (length xs) (gsm0710_buffer_free b)"
  shows "\<exists>d. gsm0710_buffer_write b xs =
      Inr (b\<lparr>buf_data := d, writep := (writep b + len xs) mod GSM0710_BUFFER_SIZE, datacount := datacount b + len xs,
             newdataready := True\<rparr>, len xs) \<and>
    length d = GSM0710_BUFFER_SIZE \<and>
    (\<forall>j < GSM0710_BUFFER_SIZE. \<forall>i < len xs. j = (writep b + i) mod GSM0710_BUFFER_SIZE \<longrightarrow> d ! j = xs ! i) \<and>
    (\<forall>j < GSM0710_BUFFER_SIZE. (\<forall>i < len xs. j \<noteq> (writep b + i) mod GSM0710_BUFFER_SIZE) \<longrightarrow> d ! j = buf_data b ! j)"
proof -
  let ?N = GSM0710_BUFFER_SIZE
  let ?l = "len xs"
  let ?c = "?N - writep b"
  have N: "0 < ?N" by (simp add: GSM0710_BUFFER_SIZE_def)
  have d: "length (buf_data b) = ?N" using assms by (simp add: bufOk_def)
  have w: "writep b < ?N" using assms N by (simp add: bufOk_def)
  have lenv: "min (length xs) (gsm0710_buffer_free b) = ?l" by (simp add: len_def)
  have l: "?l \<le> ?N" "?l \<le> length xs" by (auto simp: len_def gsm0710_buffer_free_def)
  show ?thesis
  proof (cases "?l > ?c")
    case True
    obtain d1 where d1: "wr_block (buf_data b) (int (writep b)) (take ?c xs) = Inr d1" "length d1 = ?N"
      "\<And>j. j < ?N \<Longrightarrow> d1 ! j = (if writep b \<le> j then xs ! (j - writep b) else buf_data b ! j)"
      using wr_block_nth [of "writep b" "take ?c xs" "buf_data b"] w l True by (auto simp: d min_def)
    define ys where "ys = take (?l - ?c) (drop ?c xs)"
    have ys: "length ys = ?l - ?c" "\<And>j. j < ?l - ?c \<Longrightarrow> ys ! j = xs ! (?c + j)"
      using l True by (simp_all add: ys_def)
    obtain d2 where d2: "wr_block d1 0 ys = Inr d2" "length d2 = ?N"
      "\<And>j. j < ?N \<Longrightarrow> d2 ! j = (if j < ?l - ?c then xs ! (?c + j) else d1 ! j)"
    proof -
      have "0 + length ys \<le> length d1" using l ys by (simp add: d1)
      from wr_block_nth [OF this] obtain d2 where "wr_block d1 0 ys = Inr d2" "length d2 = ?N"
        "\<forall>j < ?N. d2 ! j = (if j < length ys then ys ! j else d1 ! j)" by (auto simp: d1)
      then show thesis using ys by (intro that) auto
    qed
    have val: "d2 ! ((writep b + i) mod ?N) = xs ! i" if "i < ?l" for i
    proof (cases "i < ?c")
      case True
      then have "(writep b + i) mod ?N = writep b + i" "writep b + i < ?N" using w by simp_all
      moreover have "\<not> writep b + i < ?l - ?c" using l w by linarith
      ultimately show ?thesis using d2(3) [of "writep b + i"] d1(3) [of "writep b + i"] by simp
    next
      case False
      then have "(writep b + i) mod ?N = i - ?c" using that l w mod_wrap [of ?N "writep b + i"] by simp
      moreover have "i - ?c < ?l - ?c" "?c + (i - ?c) = i" "i - ?c < ?N" using that False l by linarith+
      ultimately show ?thesis using d2(3) [of "i - ?c"] by simp
    qed
    have other: "d2 ! j = buf_data b ! j" if j: "j < ?N" "\<And>i. i < ?l \<Longrightarrow> j \<noteq> (writep b + i) mod ?N" for j
    proof -
      have "j < writep b"
      proof (rule ccontr)
        assume ge: "\<not> j < writep b"
        then have "j - writep b < ?l" using diff_less_mono [of j ?N "writep b"] j(1) True by simp
        then show False using j(2) [of "j - writep b"] j(1) ge by simp
      qed
      moreover have "\<not> j < ?l - ?c"
      proof
        assume "j < ?l - ?c"
        then have "?c + j < ?l" by linarith
        moreover have "(writep b + (?c + j)) mod ?N = j" using w j(1) by simp
        ultimately show False using j(2) [of "?c + j"] by simp
      qed
      ultimately show ?thesis using d2(3) [OF j(1)] d1(3) [OF j(1)] by simp
    qed
    have "(writep b + ?l) mod ?N = ?l - ?c" using True w l mod_wrap [of ?N "writep b + ?l"] by simp
    then have "gsm0710_buffer_write b xs = Inr (b\<lparr>buf_data := d2, writep := (writep b + ?l) mod ?N,
        datacount := datacount b + ?l, newdataready := True\<rparr>, ?l)"
      using True d1(1) d2(1) unfolding gsm0710_buffer_write_def Let_def lenv by (simp flip: ys_def)
    moreover have "\<forall>j < ?N. \<forall>i < ?l. j = (writep b + i) mod ?N \<longrightarrow> d2 ! j = xs ! i" using val by simp
    moreover have "\<forall>j < ?N. (\<forall>i < ?l. j \<noteq> (writep b + i) mod ?N) \<longrightarrow> d2 ! j = buf_data b ! j" using other by simp
    ultimately show ?thesis using d2(2) by blast
  next
    case False
    obtain d1 where d1: "wr_block (buf_data b) (int (writep b)) (take ?l xs) = Inr d1" "length d1 = ?N"
      "\<And>j. j < ?N \<Longrightarrow> d1 ! j = (if writep b \<le> j \<and> j < writep b + ?l then xs ! (j - writep b) else buf_data b ! j)"
    proof -
      have lt: "length (take ?l xs) = ?l" using l by simp
      then have "writep b + length (take ?l xs) \<le> length (buf_data b)" using False w d by simp
      from wr_block_nth [OF this] obtain d1 where "wr_block (buf_data b) (int (writep b)) (take ?l xs) = Inr d1"
        "length d1 = ?N" "\<forall>j < ?N. d1 ! j = (if writep b \<le> j \<and> j < writep b + ?l then take ?l xs ! (j - writep b)
          else buf_data b ! j)" unfolding lt d by blast
      then show thesis by (intro that) auto
    qed
    have val: "d1 ! ((writep b + i) mod ?N) = xs ! i" if "i < ?l" for i
      using d1(3) [of "writep b + i"] that False w by simp
    have other: "d1 ! j = buf_data b ! j" if j: "j < ?N" "\<And>i. i < ?l \<Longrightarrow> j \<noteq> (writep b + i) mod ?N" for j
    proof -
      have "j - writep b < ?l" if "writep b \<le> j" "j < writep b + ?l" using that by linarith
      then show ?thesis using d1(3) [OF j(1)] j(2) [of "j - writep b"] j(1) by auto
    qed
    have "(writep b + ?l) mod ?N = (if writep b + ?l = ?N then 0 else writep b + ?l)" using False w by auto
    then have "gsm0710_buffer_write b xs = Inr (b\<lparr>buf_data := d1, writep := (writep b + ?l) mod ?N,
        datacount := datacount b + ?l, newdataready := True\<rparr>, ?l)"
      using False d1(1) unfolding gsm0710_buffer_write_def Let_def lenv by auto
    moreover have "\<forall>j < ?N. \<forall>i < ?l. j = (writep b + i) mod ?N \<longrightarrow> d1 ! j = xs ! i" using val by simp
    moreover have "\<forall>j < ?N. (\<forall>i < ?l. j \<noteq> (writep b + i) mod ?N) \<longrightarrow> d1 ! j = buf_data b ! j" using other by simp
    ultimately show ?thesis using d1(2) by blast
  qed
qed

lemma mod_apart: "(p + i) mod n = (p + k) mod n \<Longrightarrow> i < n \<Longrightarrow> k < n \<Longrightarrow> i = (k::nat)"
proof (cases i k rule: linorder_cases)
  case less
  assume "(p + i) mod n = (p + k) mod n" "i < n" "k < n"
  then have "n dvd k - i" using less mod_eq_dvd_iff_nat [of "p + i" "p + k" n] by simp
  then show ?thesis using less \<open>k < n\<close> dvd_imp_le [of n "k - i"] by simp
next
  case greater
  assume "(p + i) mod n = (p + k) mod n" "i < n" "k < n"
  then have "n dvd i - k" using greater mod_eq_dvd_iff_nat [of "p + k" "p + i" n] by simp
  then show ?thesis using greater \<open>i < n\<close> dvd_imp_le [of n "i - k"] by simp
qed

lemma bufWrite_ok:
  assumes "bufOk b"
  shows "\<exists>b'. gsm0710_buffer_write b xs = Inr (b', min (length xs) (gsm0710_buffer_free b)) \<and> bufOk b' \<and>
    bufContents b' = bufContents b @ take (gsm0710_buffer_free b) xs \<and>
    gsm0710_buffer_free b' = gsm0710_buffer_free b - min (length xs) (gsm0710_buffer_free b) \<and>
    b' = b\<lparr>buf_data := buf_data b', writep := writep b', datacount := datacount b', newdataready := True\<rparr>"
proof -
  let ?N = GSM0710_BUFFER_SIZE
  let ?l = "min (length xs) (gsm0710_buffer_free b)"
  have ok: "datacount b \<le> ?N" "writep b = (readp b + datacount b) mod ?N" "0 < ?N"
    using assms by (auto simp: bufOk_def GSM0710_BUFFER_SIZE_def)
  from write_data [OF assms, of xs] obtain d where
    w: "gsm0710_buffer_write b xs = Inr (b\<lparr>buf_data := d, writep := (writep b + ?l) mod ?N,
          datacount := datacount b + ?l, newdataready := True\<rparr>, ?l)" "length d = ?N"
    and new: "\<And>i. i < ?l \<Longrightarrow> d ! ((writep b + i) mod ?N) = xs ! i"
    and old: "\<And>j. j < ?N \<Longrightarrow> (\<And>i. i < ?l \<Longrightarrow> j \<noteq> (writep b + i) mod ?N) \<Longrightarrow> d ! j = buf_data b ! j"
    using ok(3) mod_less_divisor by (metis (no_types, lifting))
  let ?b = "b\<lparr>buf_data := d, writep := (writep b + ?l) mod ?N, datacount := datacount b + ?l, newdataready := True\<rparr>"
  have wi: "(writep b + i) mod ?N = (readp b + (datacount b + i)) mod ?N" for i
    unfolding ok(2) mod_add_left_eq by (simp add: ac_simps)
  have l: "datacount b + ?l \<le> ?N" using ok(1) by (simp add: gsm0710_buffer_free_def)
  have nth: "d ! ((readp b + i) mod ?N) = (bufContents b @ take (gsm0710_buffer_free b) xs) ! i"
    if "i < datacount b + ?l" for i
  proof (cases "i < datacount b")
    case True
    have "d ! ((readp b + i) mod ?N) = buf_data b ! ((readp b + i) mod ?N)"
      using True l ok(3) mod_apart [of "readp b" i ?N] by (intro old) (auto simp: wi)
    then show ?thesis using True by (simp add: nth_append bufContents_def ringSlice_def bufCursor_def)
  next
    case False
    then have "d ! ((readp b + i) mod ?N) = xs ! (i - datacount b)"
    proof -
      have lt: "i - datacount b < ?l" using that False by linarith
      show ?thesis using new [OF lt] False unfolding wi by simp
    qed
    then show ?thesis using False that by (simp add: nth_append)
  qed
  have "bufContents ?b = bufContents b @ take (gsm0710_buffer_free b) xs"
    by (rule nth_equalityI) (use nth in \<open>auto simp: bufContents_def ringSlice_def bufCursor_def\<close>)
  moreover have "bufOk ?b" using assms w(2) l by (simp add: bufOk_def wi) (simp add: ac_simps mod_simps)
  ultimately show ?thesis using w(1) by (auto simp: gsm0710_buffer_free_def)
qed

definition bufPeek :: "gsm_buffer \<Rightarrow> byte res" where
  "bufPeek b = rd (buf_data b) (int (readp b))"

lemma bufContents_empty: "bufContents b = [] \<longleftrightarrow> datacount b = 0"
  using length_bufContents [of b] by (auto simp del: length_bufContents)

lemma bufPeek_ok:
  assumes "bufOk b" "bufContents b \<noteq> []"
  shows "bufPeek b = Inr (hd (bufContents b))"
proof -
  have "0 < datacount b" using assms(2) by (simp add: bufContents_empty)
  then obtain xs where "bufContents b = buf_data b ! readp b # xs" using bufInc_ok [OF assms(1)] by blast
  then show ?thesis using assms(1) by (simp add: bufPeek_def rd_def bufOk_def)
qed

interpretation ring: octet_ring bufOk bufContents gsm0710_buffer_free gsm0710_buffer_write bufPeek bufInc
proof
  fix q xs assume "bufOk q"
  then show "\<exists>q'. gsm0710_buffer_write q xs = Inr (q', min (length xs) (gsm0710_buffer_free q)) \<and> bufOk q' \<and>
      bufContents q' = bufContents q @ take (gsm0710_buffer_free q) xs \<and>
      gsm0710_buffer_free q' = gsm0710_buffer_free q - min (length xs) (gsm0710_buffer_free q)"
    using bufWrite_ok by blast
next
  fix q assume q: "bufOk q" "bufContents q \<noteq> []"
  then show "bufPeek q = Inr (hd (bufContents q))" by (rule bufPeek_ok)
  from q have "0 < datacount q" by (simp add: bufContents_empty)
  from bufInc_ok [OF q(1) this] show "bufOk (bufInc q) \<and> bufContents (bufInc q) = tl (bufContents q)" by blast
qed

lemma init_ok: "bufOk gsm0710_buffer_init" "bufContents gsm0710_buffer_init = []"
    "gsm0710_buffer_free gsm0710_buffer_init = GSM0710_BUFFER_SIZE"
  by (simp_all add: bufOk_def gsm0710_buffer_init_def bufContents_def bufCursor_def gsm0710_buffer_free_def
      GSM0710_BUFFER_SIZE_def)

text \<open>C16. The ring is a queue. A write takes the octets there is room for, never touches memory outside the array and
  appends them to the queue; taking as many octets out as are stored gives the old ones and then
  the new ones in their order, wherever the two pointers stand and however often they wrapped.\<close>

theorem ring_is_queue:
  assumes "bufOk b" "length xs \<le> gsm0710_buffer_free b"
  shows "\<exists>b1 b2. gsm0710_buffer_write b xs = Inr (b1, length xs) \<and>
    ring.takeOut (datacount b + length xs) b1 = Inr (bufContents b @ xs, b2) \<and> bufContents b2 = []"
  using ring.put_takeOut [OF assms] by simp

lemma ring_is_queue_witness:
  "\<exists>b1 b2. gsm0710_buffer_write gsm0710_buffer_init [1, 2, 3] = Inr (b1, 3) \<and>
    ring.takeOut 3 b1 = Inr ([1, 2, 3], b2) \<and> bufContents b2 = []"
proof -
  have "datacount gsm0710_buffer_init + length [1::byte, 2, 3] = 3" by (simp add: gsm0710_buffer_init_def)
  then show ?thesis using ring_is_queue [OF init_ok(1), of "[1, 2, 3]"]
    by (simp add: init_ok GSM0710_BUFFER_SIZE_def numeral_3_eq_3 del: ring.takeOut.simps)
qed

end
