(* ===== verification/MuxCrc.thy ===== *)
theory MuxCrc
  imports RilPrelude
begin

text \<open>
  The frame check sequence of the multiplexer (\<open>gsm0710muxd/src/gsm0710muxd.c\<close>): the table \<open>r_crctable\<close> and
  \<open>frame_calc_crc\<close>, which sends the octets of a header through it. The reference is the division by the
  polynomial, bit by bit (\<open>crc_bit\<close>); from it follow that the check is linear in the flipped bits, and what it
  detects.
\<close>

named_theorems mux_simps \<open>facts about the octets of the multiplexer\<close>

definition r_crctable :: "byte list" where
  "r_crctable = [
    0x00, 0x91, 0xE3, 0x72, 0x07, 0x96, 0xE4, 0x75, 0x0E, 0x9F, 0xED, 0x7C, 0x09, 0x98, 0xEA, 0x7B,
    0x1C, 0x8D, 0xFF, 0x6E, 0x1B, 0x8A, 0xF8, 0x69, 0x12, 0x83, 0xF1, 0x60, 0x15, 0x84, 0xF6, 0x67,
    0x38, 0xA9, 0xDB, 0x4A, 0x3F, 0xAE, 0xDC, 0x4D, 0x36, 0xA7, 0xD5, 0x44, 0x31, 0xA0, 0xD2, 0x43,
    0x24, 0xB5, 0xC7, 0x56, 0x23, 0xB2, 0xC0, 0x51, 0x2A, 0xBB, 0xC9, 0x58, 0x2D, 0xBC, 0xCE, 0x5F,
    0x70, 0xE1, 0x93, 0x02, 0x77, 0xE6, 0x94, 0x05, 0x7E, 0xEF, 0x9D, 0x0C, 0x79, 0xE8, 0x9A, 0x0B,
    0x6C, 0xFD, 0x8F, 0x1E, 0x6B, 0xFA, 0x88, 0x19, 0x62, 0xF3, 0x81, 0x10, 0x65, 0xF4, 0x86, 0x17,
    0x48, 0xD9, 0xAB, 0x3A, 0x4F, 0xDE, 0xAC, 0x3D, 0x46, 0xD7, 0xA5, 0x34, 0x41, 0xD0, 0xA2, 0x33,
    0x54, 0xC5, 0xB7, 0x26, 0x53, 0xC2, 0xB0, 0x21, 0x5A, 0xCB, 0xB9, 0x28, 0x5D, 0xCC, 0xBE, 0x2F,
    0xE0, 0x71, 0x03, 0x92, 0xE7, 0x76, 0x04, 0x95, 0xEE, 0x7F, 0x0D, 0x9C, 0xE9, 0x78, 0x0A, 0x9B,
    0xFC, 0x6D, 0x1F, 0x8E, 0xFB, 0x6A, 0x18, 0x89, 0xF2, 0x63, 0x11, 0x80, 0xF5, 0x64, 0x16, 0x87,
    0xD8, 0x49, 0x3B, 0xAA, 0xDF, 0x4E, 0x3C, 0xAD, 0xD6, 0x47, 0x35, 0xA4, 0xD1, 0x40, 0x32, 0xA3,
    0xC4, 0x55, 0x27, 0xB6, 0xC3, 0x52, 0x20, 0xB1, 0xCA, 0x5B, 0x29, 0xB8, 0xCD, 0x5C, 0x2E, 0xBF,
    0x90, 0x01, 0x73, 0xE2, 0x97, 0x06, 0x74, 0xE5, 0x9E, 0x0F, 0x7D, 0xEC, 0x99, 0x08, 0x7A, 0xEB,
    0x8C, 0x1D, 0x6F, 0xFE, 0x8B, 0x1A, 0x68, 0xF9, 0x82, 0x13, 0x61, 0xF0, 0x85, 0x14, 0x66, 0xF7,
    0xA8, 0x39, 0x4B, 0xDA, 0xAF, 0x3E, 0x4C, 0xDD, 0xA6, 0x37, 0x45, 0xD4, 0xA1, 0x30, 0x42, 0xD3,
    0xB4, 0x25, 0x57, 0xC6, 0xB3, 0x22, 0x50, 0xC1, 0xBA, 0x2B, 0x59, 0xC8, 0xBD, 0x2C, 0x5E, 0xCF]"

definition crc_step :: "byte \<Rightarrow> byte \<Rightarrow> byte" where
  "crc_step fcs x = r_crctable ! unat (fcs XOR x)"

definition crc_run :: "byte \<Rightarrow> byte list \<Rightarrow> byte" where
  "crc_run fcs xs = foldl crc_step fcs xs"

definition frame_calc_crc :: "byte list \<Rightarrow> byte" where
  "frame_calc_crc xs = 0xFF - crc_run 0xFF xs"

text \<open>The check of a reader: \<open>fcs\<close> is what the header gave, \<open>x\<close> the octet received.\<close>

definition fcs_ok :: "byte \<Rightarrow> byte \<Rightarrow> bool" where
  "fcs_ok fcs x \<longleftrightarrow> crc_step fcs x = 0xCF"

section \<open>The division by the polynomial\<close>

definition crc_bit :: "byte \<Rightarrow> byte" where
  "crc_bit c = (if bit c 0 then drop_bit 1 c XOR 0xE0 else drop_bit 1 c)"

definition crc_octet :: "byte \<Rightarrow> byte" where
  "crc_octet c = (crc_bit ^^ 8) c"

lemma crc_octet_unfold:
  "crc_octet c = crc_bit (crc_bit (crc_bit (crc_bit (crc_bit (crc_bit (crc_bit (crc_bit c)))))))"
  by (simp add: crc_octet_def eval_nat_numeral)

definition octets_upto :: "nat list" where
  "octets_upto = [0, 1, 2, 3, 4, 5, 6, 7, 8, 9, 10, 11, 12, 13, 14, 15, 16, 17, 18, 19, 20, 21, 22, 23, 24, 25, 26, 27, 28, 29,
    30, 31, 32, 33, 34, 35, 36, 37, 38, 39, 40, 41, 42, 43, 44, 45, 46, 47, 48, 49, 50, 51, 52, 53, 54, 55, 56,
    57, 58, 59, 60, 61, 62, 63, 64, 65, 66, 67, 68, 69, 70, 71, 72, 73, 74, 75, 76, 77, 78, 79, 80, 81, 82, 83,
    84, 85, 86, 87, 88, 89, 90, 91, 92, 93, 94, 95, 96, 97, 98, 99, 100, 101, 102, 103, 104, 105, 106, 107, 108,
    109, 110, 111, 112, 113, 114, 115, 116, 117, 118, 119, 120, 121, 122, 123, 124, 125, 126, 127, 128, 129, 130,
    131, 132, 133, 134, 135, 136, 137, 138, 139, 140, 141, 142, 143, 144, 145, 146, 147, 148, 149, 150, 151, 152,
    153, 154, 155, 156, 157, 158, 159, 160, 161, 162, 163, 164, 165, 166, 167, 168, 169, 170, 171, 172, 173, 174,
    175, 176, 177, 178, 179, 180, 181, 182, 183, 184, 185, 186, 187, 188, 189, 190, 191, 192, 193, 194, 195, 196,
    197, 198, 199, 200, 201, 202, 203, 204, 205, 206, 207, 208, 209, 210, 211, 212, 213, 214, 215, 216, 217, 218,
    219, 220, 221, 222, 223, 224, 225, 226, 227, 228, 229, 230, 231, 232, 233, 234, 235, 236, 237, 238, 239, 240,
    241, 242, 243, 244, 245, 246, 247, 248, 249, 250, 251, 252, 253, 254, 255]"

lemma octets_upto: "octets_upto = [0..<256]"
  by code_simp

lemma crc_table: "map (\<lambda>n. crc_octet (word_of_nat n)) octets_upto = r_crctable"
  unfolding octets_upto_def list.map r_crctable_def crc_octet_unfold by (simp add: crc_bit_def)

lemma crc_step_octet: "crc_step fcs x = crc_octet (fcs XOR x)"
proof -
  have lt: "unat (fcs XOR x) < 256" using unsigned_less [of "fcs XOR x"] by simp
  then have "r_crctable ! unat (fcs XOR x) = crc_octet (word_of_nat (unat (fcs XOR x)))"
    by (simp add: crc_table [symmetric] octets_upto)
  then show ?thesis by (simp add: crc_step_def)
qed

section \<open>Linearity and the residue\<close>

lemma bit_crc_bit: "i < 8 \<Longrightarrow> bit (crc_bit c) i \<longleftrightarrow> (bit c (Suc i) \<noteq> (bit c 0 \<and> 5 \<le> i))"
  by (auto simp: crc_bit_def bit_simps less_Suc_eq eval_nat_numeral)

lemma crc_bit_xor: "crc_bit (a XOR b) = crc_bit a XOR crc_bit b"
  by (rule bit_word_eqI) (auto simp: bit_crc_bit bit_simps)

lemma crc_bit_0 [simp]: "crc_bit 0 = 0"
  by (simp add: crc_bit_def)

lemma crc_bits_xor: "(crc_bit ^^ n) (a XOR b) = (crc_bit ^^ n) a XOR (crc_bit ^^ n) b"
  by (induction n) (simp_all add: crc_bit_xor)

lemma crc_bits_0 [simp]: "(crc_bit ^^ n) 0 = 0"
  by (induction n) simp_all

lemma crc_bit_inj: "crc_bit a = crc_bit b \<longleftrightarrow> a = b"
proof -
  have "a = b" if eq: "crc_bit a = crc_bit b"
  proof (rule bit_word_eqI)
    fix n assume "n < LENGTH(8)"
    have bits: "bit (crc_bit a) i = bit (crc_bit b) i" for i using eq by simp
    have b0: "bit a 0 = bit b 0" using bits [of 7] by (auto simp: bit_crc_bit bit_simps dest: bit_imp_le_length)
    show "bit a n = bit b n"
    proof (cases n)
      case (Suc k)
      then show ?thesis using bits [of k] b0 \<open>n < LENGTH(8)\<close> by (auto simp: bit_crc_bit)
    qed (use b0 in simp)
  qed
  then show ?thesis by auto
qed

lemma crc_bits_inj: "(crc_bit ^^ n) a = (crc_bit ^^ n) b \<longleftrightarrow> a = b"
  by (induction n) (simp_all add: crc_bit_inj)

lemma fcs_ok_iff: "fcs_ok fcs x \<longleftrightarrow> x = 0xFF - fcs"
proof -
  have "crc_octet 0xFF = 0xCF" by (simp add: crc_octet_unfold crc_bit_def)
  then have "fcs_ok fcs x \<longleftrightarrow> fcs XOR x = 0xFF"
    by (metis fcs_ok_def crc_step_octet crc_octet_def crc_bits_inj)
  also have "\<dots> \<longleftrightarrow> x = fcs XOR 0xFF" by (metis xor.assoc xor.commute xor_self_eq xor.left_neutral)
  also have "fcs XOR 0xFF = 0xFF - fcs"
  proof -
    have ff: "(0xFF :: byte) = - 1" by simp
    show ?thesis unfolding ff by (simp add: not_eq_complement)
  qed
  finally show ?thesis .
qed

lemma frame_calc_crc_ok: "fcs_ok (crc_run 0xFF xs) x \<longleftrightarrow> x = frame_calc_crc xs"
  by (simp add: fcs_ok_iff frame_calc_crc_def)

lemma crc_run_Nil [simp]: "crc_run fcs [] = fcs"
  by (simp add: crc_run_def)

lemma crc_run_Cons [simp]: "crc_run fcs (x # xs) = crc_run (crc_step fcs x) xs"
  by (simp add: crc_run_def)

lemma crc_run_append: "crc_run fcs (xs @ ys) = crc_run (crc_run fcs xs) ys"
  by (simp add: crc_run_def)

text \<open>C21. The table-driven check is the division by the polynomial of the specification, bit by bit from the least
  significant one, and the octet the reader accepts behind a header is exactly the one the writer computes
  for that header.\<close>

theorem crc_is_polynomial_division:
  "frame_calc_crc xs = 0xFF - foldl (\<lambda>c x. (crc_bit ^^ 8) (c XOR x)) 0xFF xs \<and>
   (fcs_ok (crc_run 0xFF xs) x \<longleftrightarrow> x = frame_calc_crc xs)"
proof -
  have "crc_step = (\<lambda>c x. (crc_bit ^^ 8) (c XOR x))"
    by (intro ext) (simp add: crc_step_octet crc_octet_def)
  then show ?thesis by (simp add: frame_calc_crc_def crc_run_def frame_calc_crc_ok [unfolded crc_run_def])
qed

section \<open>Flipped bits\<close>

text \<open>Bit \<open>k mod 8\<close> of octet \<open>k div 8\<close> is flipped.\<close>

definition flip_octet :: "nat \<Rightarrow> byte list \<Rightarrow> byte list" where
  "flip_octet k xs = xs[k div 8 := xs ! (k div 8) XOR push_bit (k mod 8) 1]"

definition flip_bits :: "nat list \<Rightarrow> byte list \<Rightarrow> byte list" where
  "flip_bits ks xs = foldl (\<lambda>xs k. flip_octet k xs) xs ks"

lemma length_flip_octet [simp]: "length (flip_octet k xs) = length xs"
  by (simp add: flip_octet_def)

lemma crc_bits_push: "b \<le> n \<Longrightarrow> n < 8 \<Longrightarrow> (crc_bit ^^ b) (push_bit n 1) = push_bit (n - b) 1"
proof (induction b)
  case (Suc b)
  then have "crc_bit (push_bit (n - b) 1) = push_bit (n - Suc b) 1"
    by (intro bit_word_eqI) (auto simp: bit_crc_bit bit_simps)
  with Suc show ?case by simp
qed simp

lemma crc_bits_add: "(crc_bit ^^ m) ((crc_bit ^^ n) c) = (crc_bit ^^ (m + n)) c"
  by (simp add: funpow_add)

lemma crc_run_xor: "crc_run (c XOR d) xs = crc_run c xs XOR (crc_bit ^^ (8 * length xs)) d"
proof (induction xs arbitrary: c d)
  case (Cons x xs)
  have "crc_step (c XOR d) x = crc_step c x XOR (crc_bit ^^ 8) d"
    by (simp add: crc_step_octet crc_octet_def flip: crc_bits_xor) (simp add: ac_simps)
  then show ?case by (simp add: Cons.IH crc_bits_add add.commute)
qed simp

lemma crc_run_flip:
  assumes "k < 8 * length xs"
  shows "crc_run c (flip_octet k xs) = crc_run c xs XOR (crc_bit ^^ (8 * length xs - k)) 1"
proof -
  let ?i = "k div 8"
  have i: "?i < length xs" using assms by linarith
  define as where "as = take ?i xs"
  define bs where "bs = drop (Suc ?i) xs"
  define x where "x = xs ! ?i"
  have xs: "xs = as @ x # bs" "length as = ?i" using i by (auto simp: as_def bs_def x_def id_take_nth_drop)
  have flip: "flip_octet k xs = as @ (x XOR push_bit (k mod 8) 1) # bs"
    using xs by (simp add: flip_octet_def list_update_append nth_append)
  have one: "crc_step d (x XOR e) = crc_step d x XOR (crc_bit ^^ 8) e" for d e
    by (simp add: crc_step_octet crc_octet_def flip: crc_bits_xor) (simp add: ac_simps)
  have "(crc_bit ^^ (8 * length bs)) ((crc_bit ^^ 8) (push_bit (k mod 8) 1)) = (crc_bit ^^ (8 * length xs - k)) 1"
  proof -
    have "(crc_bit ^^ 8) (push_bit (k mod 8) 1 :: byte) = (crc_bit ^^ (8 - k mod 8)) 1"
    proof -
      have "(8::nat) = (8 - k mod 8) + k mod 8" by simp
      then have "(crc_bit ^^ 8) (push_bit (k mod 8) 1) = (crc_bit ^^ (8 - k mod 8)) ((crc_bit ^^ (k mod 8)) (push_bit (k mod 8) 1))"
        by (metis comp_apply funpow_add)
      then show ?thesis using crc_bits_push [of "k mod 8" "k mod 8"] by simp
    qed
    moreover have "8 * length xs - k = 8 * length bs + (8 - k mod 8)"
    proof -
      have "length xs = k div 8 + 1 + length bs" using xs by simp
      moreover have "k = 8 * (k div 8) + k mod 8" by simp
      moreover have "k mod 8 < 8" by simp
      ultimately show ?thesis by linarith
    qed
    ultimately show ?thesis by (simp only: crc_bits_add)
  qed
  then show ?thesis unfolding flip by (simp add: xs(1) crc_run_append one crc_run_xor)
qed

text \<open>The parity of an octet survives every step, since the polynomial has an even number of terms.\<close>

definition odd_bits :: "byte \<Rightarrow> bool" where
  "odd_bits c = foldr (\<lambda>i p. bit c i \<noteq> p) [0, 1, 2, 3, 4, 5, 6, 7] False"

lemma odd_bits_xor: "odd_bits (a XOR b) \<longleftrightarrow> (odd_bits a \<noteq> odd_bits b)"
proof -
  have "foldr (\<lambda>i p. bit (a XOR b) i \<noteq> p) js False \<longleftrightarrow>
      (foldr (\<lambda>i p. bit a i \<noteq> p) js False \<noteq> foldr (\<lambda>i p. bit b i \<noteq> p) js False)" for js
    by (induction js) (auto simp: bit_xor_iff)
  then show ?thesis unfolding odd_bits_def .
qed

lemma bit_8 [simp]: "\<not> bit (c :: byte) 8"
  by (auto dest: bit_imp_le_length)

lemma odd_bits_crc: "odd_bits (crc_bit c) = odd_bits c"
  by (cases "bit c 0"; cases "bit c 6"; cases "bit c 7") (simp_all add: odd_bits_def bit_crc_bit flip: numeral_2_eq_2)

lemma odd_bits_crcs: "odd_bits ((crc_bit ^^ n) c) = odd_bits c"
  by (induction n) (simp_all add: odd_bits_crc)

lemma odd_bits_1: "odd_bits ((crc_bit ^^ n) 1)"
  unfolding odd_bits_crcs by (simp add: odd_bits_def)

fun crc_orbit :: "nat \<Rightarrow> byte \<Rightarrow> byte list" where
  "crc_orbit 0 c = []"
| "crc_orbit (Suc n) c = crc_bit c # crc_orbit n (crc_bit c)"

lemma crc_orbit_nth: "i < n \<Longrightarrow> crc_orbit n c ! i = (crc_bit ^^ Suc i) c"
  by (induction n arbitrary: i c) (auto simp: nth_Cons' funpow_swap1 gr0_conv_Suc split: if_splits)

lemma length_crc_orbit [simp]: "length (crc_orbit n c) = n"
  by (induction n arbitrary: c) auto

lemma crc_orbit_numeral: "crc_orbit (numeral k) c = crc_bit c # crc_orbit (pred_numeral k) (crc_bit c)"
  by (simp add: numeral_eq_Suc)

lemma crc_orbit_long: "1 \<notin> set (crc_orbit 40 1)"
  by (simp add: crc_bit_def crc_orbit_numeral)

lemma crc_bits_apart:
  assumes "m < n" "n < m + 41"
  shows "(crc_bit ^^ m) 1 \<noteq> (crc_bit ^^ n) 1"
proof
  assume "(crc_bit ^^ m) 1 = (crc_bit ^^ n) 1"
  then have "(crc_bit ^^ m) 1 = (crc_bit ^^ m) ((crc_bit ^^ (n - m)) 1)"
    using assms by (simp add: crc_bits_add)
  then have one: "(crc_bit ^^ (n - m)) 1 = 1" by (simp add: crc_bits_inj)
  have "crc_orbit 40 1 ! (n - m - 1) = (crc_bit ^^ Suc (n - m - 1)) 1"
    using assms by (intro crc_orbit_nth) simp
  also have "Suc (n - m - 1) = n - m" using assms by simp
  finally have "crc_orbit 40 1 ! (n - m - 1) = 1" using one by simp
  then have "1 \<in> set (crc_orbit 40 1)"
    using assms nth_mem [of "n - m - 1" "crc_orbit 40 1"] by simp
  then show False using crc_orbit_long by simp
qed

text \<open>What any set of flipped bits changes.\<close>

definition syndrome :: "nat \<Rightarrow> nat list \<Rightarrow> byte" where
  "syndrome n ks = foldr (\<lambda>k s. (crc_bit ^^ (8 * n - k)) 1 XOR s) ks 0"

lemma crc_run_flips:
  "\<forall>k \<in> set ks. k < 8 * length xs \<Longrightarrow> crc_run c (flip_bits ks xs) = crc_run c xs XOR syndrome (length xs) ks"
proof (induction ks arbitrary: xs)
  case (Cons k ks)
  then have "crc_run c (flip_bits ks (flip_octet k xs)) = crc_run c (flip_octet k xs) XOR syndrome (length xs) ks"
    by simp
  with Cons.prems show ?case by (simp add: flip_bits_def crc_run_flip syndrome_def ac_simps)
qed (simp add: flip_bits_def syndrome_def)

lemma xor_zero: "a XOR b = 0 \<Longrightarrow> a = (b :: byte)"
proof -
  have "a XOR (a XOR b) = b" by (simp flip: xor.assoc)
  then show "a XOR b = 0 \<Longrightarrow> a = b" by simp
qed

lemma xor_unchanged: "a XOR s = a \<Longrightarrow> s = (0 :: byte)"
proof -
  assume "a XOR s = a"
  then have "a XOR (a XOR s) = a XOR a" by simp
  then show ?thesis by (simp flip: xor.assoc)
qed

lemma syndrome_nonzero:
  assumes "distinct ks" "0 < length ks" "length ks \<le> 3" "\<forall>k \<in> set ks. k < 8 * n" "n \<le> 5"
  shows "syndrome n ks \<noteq> 0"
proof (cases "odd (length ks)")
  case True
  have "odd_bits (syndrome n ks) = odd (length ks)"
    by (induction ks) (simp_all add: syndrome_def odd_bits_xor odd_bits_1, simp add: odd_bits_def)
  then show ?thesis using True by (auto simp: odd_bits_def)
next
  case False
  then have "length ks = 2" using assms by presburger
  then obtain j k where ks: "ks = [j, k]" by (auto simp: numeral_2_eq_2 length_Suc_conv)
  have "(crc_bit ^^ (8 * n - j)) 1 \<noteq> (crc_bit ^^ (8 * n - k)) 1"
  proof (cases "j < k")
    case True
    then have "8 * n - k < 8 * n - j" "8 * n - j < 8 * n - k + 41" using assms by (auto simp: ks)
    then show ?thesis using crc_bits_apart by metis
  next
    case False
    then have "8 * n - j < 8 * n - k" "8 * n - k < 8 * n - j + 41" using assms by (auto simp: ks)
    then show ?thesis by (rule crc_bits_apart)
  qed
  then have "(crc_bit ^^ (8 * n - j)) 1 XOR (crc_bit ^^ (8 * n - k)) 1 \<noteq> 0" by (auto dest: xor_zero)
  then show ?thesis by (simp add: ks syndrome_def)
qed

lemma flips_fail_check:
  assumes "fcs_ok (crc_run 0xFF hdr) f" "length hdr \<le> 4" "distinct ks" "0 < length ks" "length ks \<le> 3"
    and "\<forall>k \<in> set ks. k < 8 * (length hdr + 1)" "flip_bits ks (hdr @ [f]) = hdr' @ [f']"
  shows "\<not> fcs_ok (crc_run 0xFF hdr') f'"
proof -
  have ok: "fcs_ok (crc_run 0xFF xs) x \<longleftrightarrow> crc_run 0xFF (xs @ [x]) = 0xCF" for xs x
    by (simp add: fcs_ok_def crc_run_append)
  have "crc_run 0xFF (hdr' @ [f']) = 0xCF XOR syndrome (length hdr + 1) ks"
    using assms(1,6) crc_run_flips [of ks "hdr @ [f]" "0xFF"] by (simp add: ok assms(7) [symmetric])
  moreover have "syndrome (length hdr + 1) ks \<noteq> 0"
    using assms by (intro syndrome_nonzero) auto
  ultimately show ?thesis unfolding ok using xor_unchanged [of "0xCF" "syndrome (length hdr + 1) ks"] by auto
qed

text \<open>C17. Up to three flipped bits are always noticed: if a header of at most 4 octets (the address, the control octet and the length) is followed by its check
  sequence, and between one and three distinct bits of these octets are flipped, the reader's check fails.\<close>

theorem flipped_bits_detected:
  assumes "fcs_ok (crc_run 0xFF hdr) f" "length hdr \<le> 4" "distinct ks" "0 < length ks" "length ks \<le> 3"
    and "\<forall>k \<in> set ks. k < 8 * (length hdr + 1)" "flip_bits ks (hdr @ [f]) = hdr' @ [f']"
  shows "\<not> fcs_ok (crc_run 0xFF hdr') f'"
  using assms by (rule flips_fail_check)

lemma flipped_bits_detected_witness:
  "\<not> fcs_ok (crc_run 0xFF [0x07, 0xEF, 0x0B]) (frame_calc_crc [0x03, 0xEF, 0x09])"
proof -
  have "fcs_ok (crc_run 0xFF [0x03, 0xEF, 0x09]) (frame_calc_crc [0x03, 0xEF, 0x09])"
    by (simp only: frame_calc_crc_ok)
  moreover have "flip_bits [2, 17] ([0x03, 0xEF, 0x09] @ [frame_calc_crc [0x03, 0xEF, 0x09]]) =
      [0x07, 0xEF, 0x0B] @ [frame_calc_crc [0x03, 0xEF, 0x09]]"
    by (simp add: flip_bits_def flip_octet_def)
  ultimately show ?thesis
    using flipped_bits_detected [of "[0x03, 0xEF, 0x09]" "frame_calc_crc [0x03, 0xEF, 0x09]" "[2, 17]"]
    by (simp del: crc_run_Cons)
qed

end
