(* ===== verification/MuxWrite.thy ===== *)
theory MuxWrite
  imports MuxCrc
begin

text \<open>
  The writing side of the multiplexer daemon (\<open>gsm0710muxd/src/gsm0710muxd.c\<close>, \<open>gsm0710muxd.h\<close>): the channels, the
  state of the daemon, \<open>write_frame\<close> in both modes, the escaping of the advanced mode and \<open>handle_channel_data\<close>,
  which cuts what an application wrote into frames.

  The results of \<open>write\<close> on the serial device are the list \<open>serial_res\<close>, one element for every call; a call
  behind its end takes all octets. \<open>serial_out\<close> holds the octets the device took. The configuration is that of
  \<open>Android.mk\<close>: flow control on, production release, no unit test. Locks are held within one operation, so an
  operation is one step.
\<close>

definition GSM0710_FRAME_FLAG :: byte where "GSM0710_FRAME_FLAG = 0xF9"
definition GSM0710_FRAME_ADV_FLAG :: byte where "GSM0710_FRAME_ADV_FLAG = 0x7E"
definition GSM0710_FRAME_ADV_ESC :: byte where "GSM0710_FRAME_ADV_ESC = 0x7D"
definition GSM0710_FRAME_ADV_ESC_COPML :: byte where "GSM0710_FRAME_ADV_ESC_COPML = 0x20"
definition GSM0710_FRAME_ADV_ESCAPED_SYMS :: "byte list" where
  "GSM0710_FRAME_ADV_ESCAPED_SYMS = [GSM0710_FRAME_ADV_FLAG, GSM0710_FRAME_ADV_ESC, 0x11, 0x91, 0x13, 0x93]"
definition GSM0710_PF :: byte where "GSM0710_PF = 0x10"
definition GSM0710_CR :: byte where "GSM0710_CR = 0x02"
definition GSM0710_EA :: byte where "GSM0710_EA = 0x01"
definition GSM0710_TYPE_SABM :: byte where "GSM0710_TYPE_SABM = 0x2F"
definition GSM0710_TYPE_UA :: byte where "GSM0710_TYPE_UA = 0x63"
definition GSM0710_TYPE_DM :: byte where "GSM0710_TYPE_DM = 0x0F"
definition GSM0710_TYPE_DISC :: byte where "GSM0710_TYPE_DISC = 0x43"
definition GSM0710_TYPE_UIH :: byte where "GSM0710_TYPE_UIH = 0xEF"
definition GSM0710_TYPE_UI :: byte where "GSM0710_TYPE_UI = 0x03"
definition GSM0710_CONTROL_MSC :: byte where "GSM0710_CONTROL_MSC = 0xE1"
definition GSM0710_WRITE_RETRIES :: nat where "GSM0710_WRITE_RETRIES = 5"

lemmas gsm_defs [mux_simps] = GSM0710_FRAME_FLAG_def GSM0710_FRAME_ADV_FLAG_def GSM0710_FRAME_ADV_ESC_def
  GSM0710_FRAME_ADV_ESC_COPML_def GSM0710_FRAME_ADV_ESCAPED_SYMS_def GSM0710_PF_def GSM0710_CR_def
  GSM0710_EA_def GSM0710_TYPE_SABM_def GSM0710_TYPE_UA_def GSM0710_TYPE_DM_def GSM0710_TYPE_DISC_def
  GSM0710_TYPE_UIH_def GSM0710_TYPE_UI_def GSM0710_CONTROL_MSC_def GSM0710_WRITE_RETRIES_def

section \<open>The state\<close>

text \<open>A frame; its \<open>length\<close> is that of \<open>fr_data\<close>.\<close>

record gsm_frame =
  fr_channel :: byte
  fr_control :: byte
  fr_data :: "byte list"

datatype mux_errno = EINTR | EAGAIN | ETXTBSY | ENODEV | EBADF | EIO | OtherErrno
datatype write_result = Wrote nat | WriteError mux_errno

datatype MuxerStates = MUX_STATE_OPENING | MUX_STATE_INITILIZING | MUX_STATE_PARM_NEG | MUX_STATE_SABM_CHNL
  | MUX_STATE_MUXING | MUX_STATE_CLOSING | MUX_STATE_PEER_CLOSING | MUX_STATE_OFF

text \<open>A logical channel. \<open>rx_fl\<close> points to the list of frames that wait for the pseudo terminal (\<open>MuxFrameList\<close>).\<close>

record gsm_channel =
  ch_id :: nat
  ch_fd :: int
  ch_opened :: bool
  ch_reopen :: bool
  sabm_ua_pending :: bool
  disc_ua_pending :: bool
  negotiated_N1 :: nat
  v24_signals :: byte
  tx_fc_off :: bool
  rx_fc_off :: bool
  rx_thread :: bool
  rx_fl :: nat
  rx_fl_total :: nat
  rx_fl_written :: nat

record muxd =
  channellist :: "gsm_channel list"
  cmux_mode :: bool
  cmux_N1 :: nat
  uih_pf_bit_received :: bool
  stop_muxd :: bool
  serial_res :: "write_result list"
  serial_errno :: mux_errno
  serial_out :: "byte list"
  modem_ee :: bool

section \<open>Frames of the basic mode\<close>

definition GSM0710_FRAME_IS :: "byte \<Rightarrow> byte \<Rightarrow> bool" where
  "GSM0710_FRAME_IS type control \<longleftrightarrow> control AND NOT GSM0710_PF = type"

definition GSM0710_COMMAND_IS :: "byte \<Rightarrow> byte \<Rightarrow> bool" where
  "GSM0710_COMMAND_IS type command \<longleftrightarrow> type AND NOT GSM0710_CR = command"

text \<open>Address and control octets, the octets of the length, and the frame around the payload.\<close>

definition frameAddress :: "nat \<Rightarrow> byte" where
  "frameAddress channel = (GSM0710_EA OR GSM0710_CR) OR push_bit 2 (63 AND word_of_nat channel)"

definition frameLength :: "nat \<Rightarrow> byte list" where
  "frameLength len =
     (if len > 127 then [push_bit 1 (0x7F AND word_of_nat len), word_of_nat (drop_bit 7 (0x7F80 AND len))]
      else [1 OR push_bit 1 (word_of_nat len)])"

definition framePrefix :: "byte \<Rightarrow> byte \<Rightarrow> nat \<Rightarrow> byte list" where
  "framePrefix addr control len = [GSM0710_FRAME_FLAG, addr, control] @ frameLength len"

definition framePostfix :: "byte list \<Rightarrow> byte list" where
  "framePostfix pre = [frame_calc_crc (tl pre), GSM0710_FRAME_FLAG]"

section \<open>The serial device\<close>

definition serialWrite :: "muxd \<Rightarrow> byte list \<Rightarrow> muxd \<times> int" where
  "serialWrite m xs = (case serial_res m of
     [] \<Rightarrow> (m\<lparr>serial_out := serial_out m @ xs\<rparr>, int (length xs))
   | Wrote n # rs \<Rightarrow> (m\<lparr>serial_res := rs, serial_out := serial_out m @ take n xs\<rparr>, int (min n (length xs)))
   | WriteError e # rs \<Rightarrow> (m\<lparr>serial_res := rs, serial_errno := e\<rparr>, - 1))"

text \<open>\<open>do c = write(\<dots>); while (c < 0 \<and> errno == EINTR)\<close>\<close>

function writeUninterrupted :: "muxd \<Rightarrow> byte list \<Rightarrow> muxd \<times> int" where
  "writeUninterrupted m xs = (case serialWrite m xs of (m', c) \<Rightarrow>
     if c < 0 \<and> serial_errno m' = EINTR then writeUninterrupted m' xs else (m', c))"
  by pat_completeness auto
termination
  by (relation "measure (\<lambda>(m, xs). length (serial_res m))")
    (auto simp: serialWrite_def split: list.splits write_result.splits)

declare writeUninterrupted.simps [simp del]

text \<open>What \<open>write_frame\<close> returns when a part was not written: the modem is gone and the data is dropped, or 0.\<close>

definition writeFailed :: "muxd \<Rightarrow> bool \<Rightarrow> nat \<Rightarrow> muxd \<times> nat" where
  "writeFailed m check len =
     (if check \<and> (serial_errno m = ETXTBSY \<or> serial_errno m = ENODEV) then (m\<lparr>modem_ee := True\<rparr>, len) else (m, 0))"

definition writeBasic :: "muxd \<Rightarrow> byte \<Rightarrow> byte \<Rightarrow> byte list \<Rightarrow> muxd \<times> nat" where
  "writeBasic m addr control payload =
     (let len = length payload; pre = framePrefix addr control len; (m, c) = writeUninterrupted m pre in
      if c \<noteq> int (length pre) then writeFailed m (c < 0) len
      else
       (let (m, c) = (if len > 0 then writeUninterrupted m payload else (m, 0)) in
        if c \<noteq> int len then writeFailed m (c < 0) len
        else
         (let (m, c) = writeUninterrupted m (framePostfix pre) in
          if c \<noteq> 2 then writeFailed m True len else (m, len))))"

section \<open>Frames of the advanced mode\<close>

definition escapeOctet :: "byte \<Rightarrow> byte list" where
  "escapeOctet x = (if x \<in> set GSM0710_FRAME_ADV_ESCAPED_SYMS
     then [GSM0710_FRAME_ADV_ESC, x XOR GSM0710_FRAME_ADV_ESC_COPML] else [x])"

definition fill_adv_frame_buf :: "byte list \<Rightarrow> byte list" where
  "fill_adv_frame_buf xs = concat (map escapeOctet xs)"

definition advFrame :: "byte \<Rightarrow> byte \<Rightarrow> byte list \<Rightarrow> byte list" where
  "advFrame addr control payload =
     GSM0710_FRAME_ADV_FLAG # fill_adv_frame_buf ([addr, control] @ payload @ [frame_calc_crc [addr, control]])
       @ [GSM0710_FRAME_ADV_FLAG]"

text \<open>\<open>serial.adv_frame_buf\<close> is allocated in \<open>main\<close>.\<close>

definition advBufSize :: "muxd \<Rightarrow> nat" where
  "advBufSize m = (cmux_N1 m + 3) * 2 + 2"

definition writeAdvanced :: "muxd \<Rightarrow> byte \<Rightarrow> byte \<Rightarrow> byte list \<Rightarrow> (muxd \<times> nat) res" where
  "writeAdvanced m addr control payload =
     (let buf = advFrame addr control payload in
      bnd (chk (length buf \<le> advBufSize m) OutOfBounds) (\<lambda>_.
      case serialWrite m buf of (m, c) \<Rightarrow>
      Inr (if c \<noteq> int (length buf) then (m, 0) else (m, length payload))))"

section \<open>\<open>write_frame\<close> and its caller\<close>

definition takePfBit :: "muxd \<Rightarrow> byte list \<Rightarrow> byte \<Rightarrow> bool res" where
  "takePfBit m input type =
     (if (type = GSM0710_TYPE_UIH \<or> type = GSM0710_TYPE_UI) \<and> uih_pf_bit_received m
      then bnd (rd input 0) (\<lambda>b. Inr (GSM0710_COMMAND_IS b GSM0710_CONTROL_MSC)) else Inr False)"

definition write_frame :: "muxd \<Rightarrow> nat \<Rightarrow> byte list \<Rightarrow> byte \<Rightarrow> (muxd \<times> nat) res" where
  "write_frame m channel input type =
     (if stop_muxd m then Inr (m, 1)
      else
       bnd (takePfBit m input type) (\<lambda>pf.
       let m = (if pf then m\<lparr>uih_pf_bit_received := False\<rparr> else m);
           control = (if pf then type OR GSM0710_PF else type);
           addr = frameAddress channel in
       bnd (rd (channellist m) (int channel)) (\<lambda>ch.
       let payload = take (negotiated_N1 ch) input in
       if \<not> cmux_mode m then Inr (writeBasic m addr control payload)
       else writeAdvanced m addr control payload)))"

function channelData :: "muxd \<Rightarrow> byte list \<Rightarrow> nat \<Rightarrow> nat \<Rightarrow> (muxd \<times> nat) res" where
  "channelData m rest i channel =
     (if rest \<noteq> [] \<and> i < GSM0710_WRITE_RETRIES
      then bnd (write_frame m channel rest GSM0710_TYPE_UIH) (\<lambda>(m, last).
           channelData m (drop last rest) (if last = 0 then Suc i else i) channel)
      else Inr (m, length rest))"
  by pat_completeness auto
termination
  by (relation "measure (\<lambda>(m, rest, i, channel). length rest + (GSM0710_WRITE_RETRIES - i))")
    (auto simp flip: length_greater_0_conv)

declare channelData.simps [simp del]

definition handle_channel_data :: "muxd \<Rightarrow> byte list \<Rightarrow> nat \<Rightarrow> (muxd \<times> nat) res" where
  "handle_channel_data m buf channel = channelData m buf 0 channel"

end
