(* ===== verification/MuxReceive.thy ===== *)
theory MuxReceive
  imports MuxBuffer MuxWrite
begin

text \<open>
  The reading side of the multiplexer daemon (\<open>gsm0710_base_buffer_get_frame\<close> and
  \<open>gsm0710_advanced_buffer_get_frame\<close> of \<open>gsm0710muxd.c\<close>): one frame is taken out of the receive buffer. The local copies of
  the read pointer and of the count are a cursor; a frame that is not complete leaves the buffer as it
  was behind its flag, a damaged one moves the read pointer and the search goes on.

  Every read goes through \<open>rd\<close>, so a read outside the ring and an access outside \<open>channellist\<close> are faults. Memory is
  assumed to be there (\<open>malloc_r\<close> ends the daemon otherwise). The loops end because each round takes at least one octet
  out of the buffer.
\<close>

definition MAX_RESYNC_GET_FRAME_COUNT :: nat where "MAX_RESYNC_GET_FRAME_COUNT = 3"

definition GSM0710_DECODE_ADDRESS :: "byte \<Rightarrow> byte" where
  "GSM0710_DECODE_ADDRESS x = drop_bit 2 (x AND 252)"

definition rdCursor :: "gsm_buffer \<Rightarrow> nat \<times> nat \<Rightarrow> byte res" where
  "rdCursor b c = rd (buf_data b) (int (fst c))"

section \<open>Looking for a frame\<close>

lemma datacount_bufInc: "0 < datacount b \<Longrightarrow> datacount (bufInc b) = datacount b - 1"
  by (simp add: bufInc_def setCursor_def bufCursor_def incCursor_def)

text \<open>In the advanced mode the octets collected so far are forgotten at a flag.\<close>

definition foundFlag :: "bool \<Rightarrow> gsm_buffer \<Rightarrow> gsm_buffer" where
  "foundFlag adv b = (if adv then b\<lparr>flag_found := True, adv_data := [], adv_found_esc := False\<rparr>
     else b\<lparr>flag_found := True\<rparr>)"

lemma foundFlag_simps [simp]: "datacount (foundFlag adv b) = datacount b" "readp (foundFlag adv b) = readp b"
    "writep (foundFlag adv b) = writep b" "buf_data (foundFlag adv b) = buf_data b" "flag_found (foundFlag adv b)"
  by (simp_all add: foundFlag_def)

function findFlag :: "bool \<Rightarrow> byte \<Rightarrow> gsm_buffer \<Rightarrow> gsm_buffer res" where
  "findFlag adv flag b =
     (if \<not> flag_found b \<and> datacount b > 0
      then bnd (bufPeek b) (\<lambda>x. findFlag adv flag (bufInc (if x = flag then foundFlag adv b else b)))
      else Inr b)"
  by pat_completeness auto
termination
  by (relation "measure (\<lambda>(adv, f, b). datacount b)") (auto simp: datacount_bufInc)

function skipFlags :: "byte \<Rightarrow> gsm_buffer \<Rightarrow> gsm_buffer res" where
  "skipFlags flag b =
     (if datacount b > 0
      then bnd (bufPeek b) (\<lambda>x. if x = flag then skipFlags flag (bufInc b) else Inr b)
      else Inr b)"
  by pat_completeness auto
termination
  by (relation "measure (\<lambda>(f, b). datacount b)") (auto simp: datacount_bufInc)

declare findFlag.simps [simp del] skipFlags.simps [simp del]

section \<open>The basic mode\<close>

datatype attempt = Incomplete | Drop "nat \<times> nat" | Complete "nat \<times> nat" gsm_frame

text \<open>Address, control octet and length, the check sequence so far, and a cursor on the last octet of the length.\<close>

definition baseHeader :: "gsm_buffer \<Rightarrow> nat \<times> nat \<Rightarrow> (byte \<times> byte \<times> nat \<times> byte \<times> (nat \<times> nat)) res" where
  "baseHeader b c =
     bnd (rdCursor b c) (\<lambda>addr.
     let c1 = incCursor c in
     bnd (rdCursor b c1) (\<lambda>control.
     let c2 = incCursor c1 in
     bnd (rdCursor b c2) (\<lambda>l0.
     let len = unat (drop_bit 1 (l0 AND 254)); fcs = crc_run 0xFF [addr, control, l0] in
     if l0 AND 1 = 0
     then (let c3 = incCursor c2 in
       bnd (rdCursor b c3) (\<lambda>l1. Inr (addr, control, len + unat l1 * 128, crc_step fcs l1, c3)))
     else Inr (addr, control, len, fcs, c2))))"

text \<open>\<open>memcpy\<close> of the payload, in two parts where it goes around the end of the array.\<close>

definition basePayload :: "gsm_buffer \<Rightarrow> nat \<times> nat \<Rightarrow> nat \<Rightarrow> (byte list \<times> (nat \<times> nat)) res" where
  "basePayload b c len =
     (let end = GSM0710_BUFFER_SIZE - fst c in
      if len > end
      then bnd (rd_block (buf_data b) (int (fst c)) (int end)) (\<lambda>xs.
           bnd (rd_block (buf_data b) 0 (int (len - end))) (\<lambda>ys. Inr (xs @ ys, (len - end, snd c - len))))
      else bnd (rd_block (buf_data b) (int (fst c)) (int len)) (\<lambda>xs.
           Inr (xs, (if fst c + len = GSM0710_BUFFER_SIZE then 0 else fst c + len, snd c - len))))"

definition baseTail :: "gsm_buffer \<Rightarrow> byte \<Rightarrow> byte \<Rightarrow> byte \<Rightarrow> byte list \<Rightarrow> nat \<times> nat \<Rightarrow> attempt res" where
  "baseTail b addr control fcs payload c =
     bnd (rdCursor b c) (\<lambda>x.
     let c' = incCursor c in
     bnd (rdCursor b c') (\<lambda>y.
     Inr (if \<not> fcs_ok fcs x then Drop c'
          else if y \<noteq> GSM0710_FRAME_FLAG then Drop c'
          else Complete (incCursor c')
            \<lparr>fr_channel = GSM0710_DECODE_ADDRESS addr, fr_control = control, fr_data = payload\<rparr>)))"

definition baseAttempt :: "gsm_channel list \<Rightarrow> gsm_buffer \<Rightarrow> attempt res" where
  "baseAttempt cl b =
     (if datacount b \<ge> 5
      then bnd (baseHeader b (bufCursor b)) (\<lambda>(addr, control, len, fcs, c).
        bnd (rd cl (uint (GSM0710_DECODE_ADDRESS addr))) (\<lambda>ch.
        if len > negotiated_N1 ch then Inr (Drop c)
        else if \<not> snd c \<ge> 3 + len then Inr Incomplete
        else bnd (if len > 0 then basePayload b (incCursor c) len else Inr ([], incCursor c)) (\<lambda>(payload, c).
          let fcs = (if GSM0710_FRAME_IS GSM0710_TYPE_UI control then crc_run fcs payload else fcs) in
          baseTail b addr control fcs payload c)))
      else Inr Incomplete)"

text \<open>The shared pointer and count are brought up to date.\<close>

definition commitCursor :: "gsm_buffer \<Rightarrow> nat \<times> nat \<Rightarrow> gsm_buffer" where
  "commitCursor b c = b\<lparr>readp := fst c, datacount := datacount b - (datacount b - snd c), flag_found := False\<rparr>"

definition signalSleeper :: "gsm_buffer \<Rightarrow> gsm_buffer" where
  "signalSleeper b = (if input_sleeping b then b\<lparr>bufferready := True\<rparr> else b)"

section \<open>The frame\<close>

lemma bufInc_simps [simp]: "flag_found (bufInc b) = flag_found b" "buf_data (bufInc b) = buf_data b"
    "input_sleeping (bufInc b) = input_sleeping b" "bufferready (bufInc b) = bufferready b"
    "dropped_count (bufInc b) = dropped_count b" "received_count (bufInc b) = received_count b"
    "adv_data (bufInc b) = adv_data b" "adv_found_esc (bufInc b) = adv_found_esc b"
  by (simp_all add: bufInc_def setCursor_def)

lemma findFlag_datacount: "findFlag adv flag b = Inr b' \<Longrightarrow> datacount b' \<le> datacount b"
proof (induction adv flag b rule: findFlag.induct)
  case (1 adv flag b)
  show ?case
  proof (cases "\<not> flag_found b \<and> datacount b > 0")
    case True
    with 1(2) obtain x where x: "bufPeek b = Inr x"
      and r: "findFlag adv flag (bufInc (if x = flag then foundFlag adv b else b)) = Inr b'"
      by (subst (asm) findFlag.simps) (auto simp: res_simps)
    from 1(1) [OF True x r] True show ?thesis by (simp add: datacount_bufInc split: if_splits)
  qed (use 1(2) in \<open>auto simp: findFlag.simps [of adv flag b] split: if_splits\<close>)
qed

lemma skipFlags_datacount: "skipFlags flag b = Inr b' \<Longrightarrow> datacount b' \<le> datacount b"
proof (induction flag b rule: skipFlags.induct)
  case (1 flag b)
  show ?case
  proof (cases "datacount b > 0 \<and> bufPeek b = Inr flag")
    case True
    with 1(2) have "skipFlags flag (bufInc b) = Inr b'" by (simp add: skipFlags.simps [of flag b])
    from 1(1) [OF _ _ _ this] True show ?thesis by (simp add: datacount_bufInc)
  next
    case False
    with 1(2) show ?thesis by (auto simp: skipFlags.simps [of flag b] res_simps split: if_splits)
  qed
qed

lemma incCursor_pos: "0 < snd c \<Longrightarrow> snd (incCursor c) = snd c - 1"
  by (cases c) (simp add: incCursor_def)

lemma baseHeader_snd:
  "baseHeader b c = Inr (addr, control, len, fcs, c') \<Longrightarrow> 5 \<le> snd c \<Longrightarrow> snd c' < snd c"
  by (auto simp: baseHeader_def Let_def res_simps incCursor_pos split: if_splits)

lemma basePayload_snd: "basePayload b c len = Inr (xs, c') \<Longrightarrow> snd c' = snd c - len"
  by (auto simp: basePayload_def Let_def res_simps split: if_splits)

lemma baseAttempt_drop: "baseAttempt cl b = Inr (Drop c) \<Longrightarrow> snd c < datacount b"
proof -
  assume drop: "baseAttempt cl b = Inr (Drop c)"
  then obtain addr control len fcs c1 where h: "5 \<le> datacount b"
      "baseHeader b (bufCursor b) = Inr (addr, control, len, fcs, c1)"
    by (auto simp: baseAttempt_def res_simps split: if_splits)
  then have c1: "snd c1 < datacount b" using baseHeader_snd by (fastforce simp: bufCursor_def)
  show ?thesis
  proof (cases "c = c1")
    case False
    with drop h obtain payload c2 where n: "3 + len \<le> snd c1"
      and p: "(if len > 0 then basePayload b (incCursor c1) len else Inr ([], incCursor c1)) = Inr (payload, c2)"
      and c: "c = incCursor c2"
      by (auto simp: baseAttempt_def baseTail_def Let_def res_simps split: if_splits)
    have "snd c2 = snd c1 - 1 - len" using p n by (auto simp: incCursor_pos basePayload_snd split: if_splits)
    with n c1 show ?thesis by (simp add: c incCursor_pos)
  qed (use c1 in simp)
qed

lemma commitCursor_datacount: "snd c < datacount b \<Longrightarrow> datacount (commitCursor b c) = snd c"
  by (simp add: commitCursor_def)

function baseGetFrame ::
  "gsm_channel list \<Rightarrow> nat \<Rightarrow> gsm_buffer \<Rightarrow> (gsm_buffer \<times> bool \<times> gsm_frame option) res" where
  "baseGetFrame cl passed b =
     (let depth = (if passed < MAX_RESYNC_GET_FRAME_COUNT then passed else 0);
          asserted = (\<not> passed < MAX_RESYNC_GET_FRAME_COUNT) in
      bnd (findFlag False GSM0710_FRAME_FLAG b) (\<lambda>b1.
      if \<not> flag_found b1 then Inr (signalSleeper b1, asserted, None)
      else bnd (skipFlags GSM0710_FRAME_FLAG b1) (\<lambda>b2.
      bnd (baseAttempt cl b2) (\<lambda>a. case a of
        Incomplete \<Rightarrow> Inr (b2, asserted, None)
      | Complete c f \<Rightarrow> Inr ((commitCursor b2 c)\<lparr>received_count := received_count b2 + 1\<rparr>, asserted, Some f)
      | Drop c \<Rightarrow>
          bnd (baseGetFrame cl (Suc depth) ((commitCursor b2 c)\<lparr>dropped_count := dropped_count b2 + 1\<rparr>))
            (\<lambda>(b3, asserted', f). Inr (b3, asserted \<or> asserted', f))))))"
  by pat_completeness auto
termination
proof (relation "measure (\<lambda>(cl, n, b). datacount b)", goal_cases)
  case (2 cl passed b depth asserted b1 b2 a c)
  then have "snd c < datacount b2" "datacount b2 \<le> datacount b"
    using baseAttempt_drop findFlag_datacount skipFlags_datacount le_trans by blast+
  then show ?case by (simp add: commitCursor_datacount)
qed simp

declare baseGetFrame.simps [simp del]

lemma baseTail_snd:
  "baseTail b addr control fcs payload c = Inr (Complete c' f) \<Longrightarrow> 2 \<le> snd c \<Longrightarrow> snd c' < snd c"
  by (auto simp: baseTail_def Let_def res_simps incCursor_pos split: if_splits)

lemma baseAttempt_complete: "baseAttempt cl b = Inr (Complete c f) \<Longrightarrow> snd c < datacount b"
proof -
  assume a: "baseAttempt cl b = Inr (Complete c f)"
  then obtain addr control len fcs c1 payload c2 fcs' where h: "5 \<le> datacount b"
      "baseHeader b (bufCursor b) = Inr (addr, control, len, fcs, c1)" "3 + len \<le> snd c1"
      "(if len > 0 then basePayload b (incCursor c1) len else Inr ([], incCursor c1)) = Inr (payload, c2)"
      "baseTail b addr control fcs' payload c2 = Inr (Complete c f)"
    by (auto simp: baseAttempt_def Let_def res_simps split: if_splits)
  have c1: "snd c1 < datacount b" using baseHeader_snd [OF h(2)] h(1) by (simp add: bufCursor_def)
  have "snd c2 = snd c1 - 1 - len" using h(3,4) by (auto simp: incCursor_pos basePayload_snd split: if_splits)
  with c1 h(3) baseTail_snd [OF h(5)] show ?thesis by linarith
qed

lemma baseGetFrame_shrinks: "baseGetFrame cl passed b = Inr (b', asserted, Some f) \<Longrightarrow> datacount b' < datacount b"
proof (induction "datacount b" arbitrary: passed b b' asserted rule: less_induct)
  case less
  from less.prems obtain b1 b2 a where b: "findFlag False GSM0710_FRAME_FLAG b = Inr b1"
      "skipFlags GSM0710_FRAME_FLAG b1 = Inr b2" "baseAttempt cl b2 = Inr a"
    by (subst (asm) baseGetFrame.simps) (auto simp: Let_def res_simps split: if_splits)
  have le: "datacount b2 \<le> datacount b" using b findFlag_datacount skipFlags_datacount le_trans by blast
  have fl: "flag_found b1" using less.prems b(1)
    by (subst (asm) baseGetFrame.simps) (auto simp: Let_def res_simps split: if_splits)
  show ?case
  proof (cases a)
    case Incomplete
    then show ?thesis using less.prems b fl by (subst (asm) baseGetFrame.simps) (simp add: Let_def)
  next
    case (Complete c g)
    then have "b' = (commitCursor b2 c)\<lparr>received_count := received_count b2 + 1\<rparr>"
      using less.prems b fl by (subst (asm) baseGetFrame.simps) (simp add: Let_def)
    moreover have "snd c < datacount b2" using b(3) Complete baseAttempt_complete by blast
    ultimately show ?thesis using le by (simp add: commitCursor_datacount)
  next
    case (Drop c)
    let ?b = "(commitCursor b2 c)\<lparr>dropped_count := dropped_count b2 + 1\<rparr>"
    have lt: "snd c < datacount b2" using b(3) Drop baseAttempt_drop by blast
    then have "datacount ?b < datacount b" using le by (simp add: commitCursor_datacount)
    moreover obtain d asserted' where "baseGetFrame cl d ?b = Inr (b', asserted', Some f)"
      using less.prems b fl Drop
      by (subst (asm) baseGetFrame.simps) (auto simp: Let_def res_simps)
    ultimately show ?thesis using less.hyps by (meson less_trans)
  qed
qed

text \<open>The loop of \<open>extract_frames\<close> over the frames that are complete; after each of them a reader that sleeps because the
  buffer was full is signalled. What is done with a frame is in \<open>MuxControl\<close>.\<close>

function drainFrames :: "gsm_channel list \<Rightarrow> gsm_buffer \<Rightarrow> (gsm_buffer \<times> gsm_frame list) res" where
  "drainFrames cl b =
     bnd (baseGetFrame cl 0 b) (\<lambda>(b', asserted, fo). case fo of
       None \<Rightarrow> Inr (b', [])
     | Some f \<Rightarrow> bnd (drainFrames cl (signalSleeper b')) (\<lambda>(b'', fs). Inr (b'', f # fs)))"
  by pat_completeness auto
termination
  by (relation "measure (\<lambda>(cl, b). datacount b)") (auto simp: signalSleeper_def dest!: baseGetFrame_shrinks)

declare drainFrames.simps [simp del]

end
