(* ===== verification/MuxStream.thy ===== *)
theory MuxStream
  imports MuxReceive
begin

text \<open>
  The reader of the basic mode as a function on octet streams: \<open>listGetFrame\<close> works on the queue the ring stands for,
  and \<open>baseGetFrame\<close> on the ring refines it. From here on nothing speaks of pointers.
\<close>

section \<open>Rings and local cursors\<close>

text \<open>\<open>lies b c xs\<close>: behind the cursor \<open>c\<close> lie the octets \<open>xs\<close>.\<close>

definition lies :: "gsm_buffer \<Rightarrow> nat \<times> nat \<Rightarrow> byte list \<Rightarrow> bool" where
  "lies b c xs \<longleftrightarrow> length (buf_data b) = GSM0710_BUFFER_SIZE \<and> fst c < GSM0710_BUFFER_SIZE \<and>
     snd c \<le> GSM0710_BUFFER_SIZE \<and> (fst c + snd c) mod GSM0710_BUFFER_SIZE = writep b \<and> ringSlice (buf_data b) c = xs"

lemma lies_length: "lies b c xs \<Longrightarrow> snd c = length xs"
  by (auto simp: lies_def)

lemma lies_start: "bufOk b \<Longrightarrow> lies b (bufCursor b) (bufContents b)"
  by (simp add: lies_def bufOk_def bufContents_def bufCursor_def)

lemma lies_Cons:
  assumes "lies b c (x # xs)"
  shows "rdCursor b c = Inr x" "lies b (incCursor c) xs" "snd (incCursor c) = length xs"
proof -
  obtain p where c: "c = (p, Suc (length xs))" using lies_length [OF assms] by (cases c) auto
  have p: "p < GSM0710_BUFFER_SIZE" using assms by (simp add: lies_def c)
  have "buf_data b ! p # ringSlice (buf_data b) (incCursor c) = x # xs"
    using assms ringSlice_Suc [OF p, of "buf_data b" "length xs"] by (simp add: lies_def c)
  moreover have "(fst (incCursor c) + snd (incCursor c)) mod GSM0710_BUFFER_SIZE = writep b"
    using assms p by (simp add: lies_def c incCursor_fst incCursor_snd mod_add_left_eq)
  ultimately show "rdCursor b c = Inr x" "lies b (incCursor c) xs"
    using assms p incCursor_lt [of c] by (simp_all add: lies_def rdCursor_def rd_def c incCursor_snd)
  then show "snd (incCursor c) = length xs" by (simp add: lies_length)
qed

lemma lies_block:
  assumes "lies b c (xs @ ys)" "xs \<noteq> []"
  shows "\<exists>c'. basePayload b c (length xs) = Inr (xs, c') \<and> lies b c' ys \<and> snd c' = length ys"
proof -
  let ?N = GSM0710_BUFFER_SIZE
  obtain p where c: "c = (p, length xs + length ys)" using lies_length [OF assms(1)] by (cases c) auto
  have p: "p < ?N" and d: "length (buf_data b) = ?N" using assms by (simp_all add: lies_def c)
  have nth: "(xs @ ys) ! i = buf_data b ! ((p + i) mod ?N)" if "i < length xs + length ys" for i
  proof -
    have "ringSlice (buf_data b) c ! i = buf_data b ! ((p + i) mod ?N)" using that by (simp add: ringSlice_def c)
    then show ?thesis using assms(1) by (simp add: lies_def)
  qed
  have rest: "lies b ((p + length xs) mod ?N, length ys) ys"
  proof -
    have "ringSlice (buf_data b) ((p + length xs) mod ?N, length ys) ! i = ys ! i" if "i < length ys" for i
      using that nth [of "length xs + i"] by (simp add: ringSlice_def nth_append mod_simps add.assoc)
    then have "ringSlice (buf_data b) ((p + length xs) mod ?N, length ys) = ys" by (intro nth_equalityI) auto
    then show ?thesis using d p assms(1) by (simp add: lies_def c mod_add_left_eq add.assoc)
  qed
  show ?thesis
  proof (cases "length xs > ?N - p")
    case False
    have "buf_data b ! (p + i) = xs ! i" if "i < length xs" for i
      using that nth [of i] False p by (simp add: nth_append)
    then have "take (length xs) (drop p (buf_data b)) = xs"
      using False p d by (intro nth_equalityI) auto
    moreover have "(p + length xs) mod ?N = (if p + length xs = ?N then 0 else p + length xs)" using False p by auto
    moreover have "int p + int (length xs) \<le> int ?N" using False p by linarith
    ultimately show ?thesis using p d rest assms(2) False by (auto simp: basePayload_def rd_block_def c)
  next
    case True
    define e where "e = ?N - p"
    have l: "length xs \<le> ?N" using assms(1) by (simp add: lies_def c)
    have lo: "buf_data b ! (p + i) = xs ! i" if "i < e" for i
      using that nth [of i] True by (simp add: nth_append e_def)
    have hi: "buf_data b ! i = xs ! (e + i)" if "i < length xs - e" for i
    proof -
      have "(p + (e + i)) mod ?N = i" using that l p by (simp add: e_def)
      moreover have "e + i < length xs" using that by linarith
      ultimately show ?thesis using nth [of "e + i"] by (simp add: nth_append)
    qed
    have "take e (drop p (buf_data b)) = take e xs"
      using lo True d p by (intro nth_equalityI) (auto simp: e_def)
    moreover have "take (length xs - e) (buf_data b) = drop e xs"
      using hi d l True by (intro nth_equalityI) (auto simp: e_def)
    moreover have "(p + length xs) mod ?N = length xs - e"
      using True l p mod_wrap [of ?N "p + length xs"] by (simp add: e_def)
    moreover have "int e \<le> int ?N - int p" "int (length xs - e) \<le> int ?N" "0 < e" "e < length xs"
        "nat (int (length xs) - int e) = length xs - e"
      using p l True by (simp_all add: e_def nat_diff_distrib)
    ultimately show ?thesis using rest d p
      by (simp add: basePayload_def rd_block_def c flip: e_def)
  qed
qed

lemma lies_commit:
  assumes "bufOk b" "lies b c xs" "snd c \<le> datacount b"
  shows "bufOk (commitCursor b c) \<and> bufContents (commitCursor b c) = xs"
  using assms by (simp add: bufOk_def lies_def commitCursor_def bufContents_def bufCursor_def)

section \<open>The functions on streams\<close>

text \<open>Address, control octet, length, the check sequence so far, the last octet of the length and what follows it.\<close>

fun listHeader :: "byte list \<Rightarrow> (byte \<times> byte \<times> nat \<times> byte \<times> byte \<times> byte list) option" where
  "listHeader (addr # control # l0 # r) =
     (let len = unat (drop_bit 1 (l0 AND 254)); fcs = crc_run 0xFF [addr, control, l0] in
      if l0 AND 1 = 0
      then (case r of [] \<Rightarrow> None | l1 # r' \<Rightarrow> Some (addr, control, len + unat l1 * 128, crc_step fcs l1, l1, r'))
      else Some (addr, control, len, fcs, l0, r))"
| "listHeader _ = None"

datatype list_attempt = LIncomplete | LDrop "byte list" | LComplete "byte list" gsm_frame

definition listTail :: "byte \<Rightarrow> byte \<Rightarrow> byte \<Rightarrow> byte list \<Rightarrow> byte list \<Rightarrow> list_attempt" where
  "listTail addr control fcs payload t =
     (if \<not> fcs_ok fcs (hd t) \<or> hd (tl t) \<noteq> GSM0710_FRAME_FLAG then LDrop (tl t)
      else LComplete (tl (tl t))
        \<lparr>fr_channel = GSM0710_DECODE_ADDRESS addr, fr_control = control, fr_data = payload\<rparr>)"

definition listAttempt :: "gsm_channel list \<Rightarrow> byte list \<Rightarrow> list_attempt res" where
  "listAttempt cl xs =
     (case (if length xs \<ge> 5 then listHeader xs else None) of None \<Rightarrow> Inr LIncomplete
      | Some (addr, control, len, fcs, l, r) \<Rightarrow>
        bnd (rd cl (uint (GSM0710_DECODE_ADDRESS addr))) (\<lambda>ch.
        if len > negotiated_N1 ch then Inr (LDrop (l # r))
        else if length r < len + 2 then Inr LIncomplete
        else Inr (listTail addr control
          (if GSM0710_FRAME_IS GSM0710_TYPE_UI control then crc_run fcs (take len r) else fcs) (take len r) (drop len r))))"

lemma listAttempt_drop: "listAttempt cl xs = Inr (LDrop ys) \<Longrightarrow> length ys < length xs"
proof -
  assume a: "listAttempt cl xs = Inr (LDrop ys)"
  have h: "length (l # r) < length xs" if "listHeader xs = Some (addr, control, len, fcs, l, r)" for addr control len fcs l r
    using that by (cases xs rule: listHeader.cases) (auto simp: Let_def split: if_splits list.splits)
  from a show ?thesis
    by (auto simp: listAttempt_def listTail_def res_simps split: if_splits option.splits dest!: h)
qed

definition afterFlag :: "bool \<Rightarrow> byte list \<Rightarrow> byte list" where
  "afterFlag flag xs = dropWhile (\<lambda>x. x = GSM0710_FRAME_FLAG)
     (if flag then xs else tl (dropWhile (\<lambda>x. x \<noteq> GSM0710_FRAME_FLAG) xs))"

lemma length_afterFlag: "length (afterFlag flag xs) \<le> length xs"
  unfolding afterFlag_def
  by (rule order_trans [OF length_dropWhile_le]) (auto simp: le_diff_conv intro: le_SucI length_dropWhile_le)

function listGetFrame ::
  "gsm_channel list \<Rightarrow> nat \<Rightarrow> bool \<Rightarrow> byte list \<Rightarrow> (bool \<times> byte list \<times> bool \<times> gsm_frame option) res" where
  "listGetFrame cl passed flag xs =
     (let depth = (if passed < MAX_RESYNC_GET_FRAME_COUNT then passed else 0);
          asserted = (\<not> passed < MAX_RESYNC_GET_FRAME_COUNT) in
      if \<not> flag \<and> GSM0710_FRAME_FLAG \<notin> set xs then Inr (False, [], asserted, None)
      else bnd (listAttempt cl (afterFlag flag xs)) (\<lambda>a. case a of
        LIncomplete \<Rightarrow> Inr (True, afterFlag flag xs, asserted, None)
      | LComplete r f \<Rightarrow> Inr (False, r, asserted, Some f)
      | LDrop r \<Rightarrow> bnd (listGetFrame cl (Suc depth) False r)
          (\<lambda>(flag', r', asserted', f). Inr (flag', r', asserted \<or> asserted', f))))"
  by pat_completeness auto
termination
  by (relation "measure (\<lambda>(cl, n, flag, xs). length xs)")
    (auto dest!: listAttempt_drop intro: less_le_trans [OF _ length_afterFlag])

declare listGetFrame.simps [simp del]

section \<open>The ring refines the stream\<close>

lemma lies_Cons_ex:
  assumes "lies b c xs" "xs \<noteq> []"
  shows "rdCursor b c = Inr (hd xs) \<and> lies b (incCursor c) (tl xs)"
  using lies_Cons [of b c "hd xs" "tl xs"] assms by simp

lemma header_refines:
  assumes "lies b c xs" "5 \<le> length xs"
  shows "\<exists>addr control len fcs l r c'. listHeader xs = Some (addr, control, len, fcs, l, r) \<and>
    baseHeader b c = Inr (addr, control, len, fcs, c') \<and> lies b c' (l # r) \<and> length (l # r) \<le> length xs"
proof -
  obtain addr control l0 l1 r where xs: "xs = addr # control # l0 # l1 # r"
    using assms(2) by (auto simp: Suc_le_length_iff numeral_eq_Suc)
  note s0 = assms(1) [unfolded xs]
  note s1 = lies_Cons [OF s0] note s2 = lies_Cons [OF s1(2)] note s3 = lies_Cons [OF s2(2)]
  note s4 = lies_Cons [OF s3(2)]
  show ?thesis
    using s1(1) s2(1,2) s3(1,2) s4(1)
    by (cases "l0 AND 1 = 0") (simp_all add: xs baseHeader_def Let_def del: split_paired_Ex)
qed

fun attemptRel :: "gsm_buffer \<Rightarrow> attempt \<Rightarrow> list_attempt \<Rightarrow> bool" where
  "attemptRel b Incomplete LIncomplete = True"
| "attemptRel b (Drop c) (LDrop ys) = (lies b c ys \<and> length ys \<le> datacount b)"
| "attemptRel b (Complete c f) (LComplete ys g) = (lies b c ys \<and> length ys \<le> datacount b \<and> f = g)"
| "attemptRel b _ _ = False"

lemma tail_refines:
  assumes "lies b c t" "2 \<le> length t" "length t \<le> datacount b"
  shows "\<exists>a. baseTail b addr control fcs payload c = Inr a \<and> attemptRel b a (listTail addr control fcs payload t)"
proof -
  obtain x y r where t: "t = x # y # r" using assms(2) by (auto simp: Suc_le_length_iff numeral_eq_Suc)
  note s1 = lies_Cons [OF assms(1) [unfolded t]] note s2 = lies_Cons [OF s1(2)]
  show ?thesis using s1 s2 assms(3) by (simp add: t baseTail_def listTail_def Let_def)
qed

lemma attempt_refines:
  assumes "bufOk b"
  shows "(\<exists>e. baseAttempt cl b = Inl e \<and> listAttempt cl (bufContents b) = Inl e) \<or>
    (\<exists>a l. baseAttempt cl b = Inr a \<and> listAttempt cl (bufContents b) = Inr l \<and> attemptRel b a l)"
proof (cases "5 \<le> datacount b")
  case True
  from header_refines [OF lies_start [OF assms]] True obtain addr control len fcs l r c
    where h: "listHeader (bufContents b) = Some (addr, control, len, fcs, l, r)"
      "baseHeader b (bufCursor b) = Inr (addr, control, len, fcs, c)" "lies b c (l # r)" "length (l # r) \<le> datacount b"
    by auto
  note c1 = lies_Cons [OF h(3)]
  show ?thesis
  proof (cases "rd cl (uint (GSM0710_DECODE_ADDRESS addr))")
    case (Inr ch)
    have sc: "snd c = Suc (length r)" using lies_length [OF h(3)] by simp
    show ?thesis
    proof (cases "len > negotiated_N1 ch \<or> length r < len + 2")
      case True
      then show ?thesis using Inr h \<open>5 \<le> datacount b\<close> sc by (auto simp: baseAttempt_def listAttempt_def)
    next
      case False
      obtain payload c2 where p: "(if len > 0 then basePayload b (incCursor c) len else Inr ([], incCursor c)) = Inr (payload, c2)"
        and pl: "payload = take len r" and c2: "lies b c2 (drop len r)"
      proof (cases "len = 0")
        case False
        have len: "length (take len r) = len" "take len r \<noteq> []" using False \<open>\<not> (_ \<or> _)\<close> by auto
        from lies_block [of b "incCursor c" "take len r" "drop len r"] c1(2) len
        obtain c' where "basePayload b (incCursor c) len = Inr (take len r, c')" "lies b c' (drop len r)" by auto
        then show thesis using False by (intro that) auto
      qed (use c1(2) in \<open>auto intro: that\<close>)
      have "2 \<le> length (drop len r)" "length (drop len r) \<le> datacount b" using False h(4) by auto
      from tail_refines [OF c2 this] show ?thesis
        using False Inr h(1,2) \<open>5 \<le> datacount b\<close> sc p pl
        by (auto simp: baseAttempt_def listAttempt_def)
    qed
  qed (use h True in \<open>simp add: baseAttempt_def listAttempt_def\<close>)
qed (simp add: baseAttempt_def listAttempt_def)

lemma bufOk_flags [simp]: "bufOk (foundFlag adv b) = bufOk b" "bufContents (foundFlag adv b) = bufContents b"
  by (simp_all add: bufOk_def bufContents_def bufCursor_def)

lemma bufOk_more [simp]: "bufOk (b\<lparr>received_count := n\<rparr>) = bufOk b" "bufOk (b\<lparr>dropped_count := n\<rparr>) = bufOk b"
    "bufContents (b\<lparr>received_count := n\<rparr>) = bufContents b" "bufContents (b\<lparr>dropped_count := n\<rparr>) = bufContents b"
    "bufOk (signalSleeper b) = bufOk b" "bufContents (signalSleeper b) = bufContents b"
    "flag_found (signalSleeper b) = flag_found b"
  by (simp_all add: bufOk_def bufContents_def bufCursor_def signalSleeper_def)

lemma bufInc_cases:
  assumes "bufOk b" "0 < datacount b"
  shows "\<exists>x xs. bufContents b = x # xs \<and> bufPeek b = Inr x \<and> bufOk (bufInc b) \<and> bufContents (bufInc b) = xs"
proof -
  obtain x where x: "bufContents b = x # bufContents (bufInc b)" using bufInc_ok [OF assms] by blast
  moreover have "bufPeek b = Inr x" using bufPeek_ok [OF assms(1)] x by simp
  ultimately show ?thesis using bufInc_ok [OF assms] by blast
qed

lemma findFlag_stop: "flag_found b \<Longrightarrow> findFlag adv flag b = Inr b"
  by (simp add: findFlag.simps [of adv flag b])

lemma foundFlag_sleeping [simp]: "input_sleeping (foundFlag adv b) = input_sleeping b"
  by (simp add: foundFlag_def)

lemma findFlag_ok:
  assumes "bufOk b"
  shows "\<exists>b1. findFlag adv flag b = Inr b1 \<and> bufOk b1 \<and>
    flag_found b1 = (flag_found b \<or> flag \<in> set (bufContents b)) \<and>
    bufContents b1 = (if flag_found b then bufContents b else tl (dropWhile (\<lambda>x. x \<noteq> flag) (bufContents b))) \<and>
    input_sleeping b1 = input_sleeping b"
  using assms
proof (induction "datacount b" arbitrary: b rule: less_induct)
  case less
  show ?case
  proof (cases "\<not> flag_found b \<and> datacount b > 0")
    case True
    from bufInc_cases [OF less.prems conjunct2 [OF True]] obtain x xs where x: "bufContents b = x # xs" "bufPeek b = Inr x"
      "bufOk (bufInc b)" "bufContents (bufInc b) = xs" by blast
    show ?thesis
    proof (cases "x = flag")
      case eq: True
      from bufInc_cases [of "foundFlag adv b"] less.prems True x
      have "bufOk (bufInc (foundFlag adv b)) \<and> bufContents (bufInc (foundFlag adv b)) = xs" by auto
      then show ?thesis using True x eq
        by (simp add: findFlag.simps [of adv flag b] findFlag_stop)
    next
      case ne: False
      have "datacount (bufInc b) < datacount b" using True by (simp add: datacount_bufInc)
      from less.hyps [OF this x(3)] show ?thesis using True x ne by (simp add: findFlag.simps [of adv flag b])
    qed
  next
    case False
    show ?thesis
    proof (cases "flag_found b")
      case True
      then show ?thesis using less.prems by (simp add: findFlag_stop)
    next
      case nf: False
      with False have "datacount b = 0" by simp
      then show ?thesis using less.prems nf bufContents_empty [of b] by (simp add: findFlag.simps [of adv flag b])
    qed
  qed
qed

lemma skipFlags_ok:
  assumes "bufOk b"
  shows "\<exists>b1. skipFlags flag b = Inr b1 \<and> bufOk b1 \<and> flag_found b1 = flag_found b \<and>
    bufContents b1 = dropWhile (\<lambda>x. x = flag) (bufContents b) \<and> input_sleeping b1 = input_sleeping b"
  using assms
proof (induction "datacount b" arbitrary: b rule: less_induct)
  case less
  show ?case
  proof (cases "datacount b > 0")
    case True
    from bufInc_cases [OF less.prems True] obtain x xs where x: "bufContents b = x # xs" "bufPeek b = Inr x"
      "bufOk (bufInc b)" "bufContents (bufInc b) = xs" by blast
    have "datacount (bufInc b) < datacount b" using True by (simp add: datacount_bufInc)
    from less.hyps [OF this x(3)] show ?thesis using True x less.prems by (simp add: skipFlags.simps [of flag b])
  next
    case False
    then have "bufContents b = []" by (simp add: bufContents_empty)
    then show ?thesis using less.prems False by (simp add: skipFlags.simps [of flag b])
  qed
qed

text \<open>C11. The reader of the basic mode refines a function on octet streams: from any well-formed ring it faults only
  where the stream function does, and otherwise leaves a well-formed ring that stands for the octets
  the stream function leaves, with the same flag, the same verdict on the resynchronisation limit and the same
  frame. What it returns depends on the stored octets alone, not on where they lie in the ring.\<close>

theorem reader_refines_stream:
  assumes "bufOk b"
  shows "bnd (baseGetFrame cl passed b) (\<lambda>(b', asserted, f). Inr (flag_found b', bufContents b', asserted, f)) =
      listGetFrame cl passed (flag_found b) (bufContents b) \<and>
    ensures (\<lambda>(b', asserted, f). bufOk b') (baseGetFrame cl passed b)"
  using assms
proof (induction "datacount b" arbitrary: b passed rule: less_induct)
  case less
  note L = baseGetFrame.simps [of cl passed b] listGetFrame.simps [of cl passed "flag_found b" "bufContents b"]
  from findFlag_ok [OF less.prems, of False GSM0710_FRAME_FLAG] obtain b1 where
    b1: "findFlag False GSM0710_FRAME_FLAG b = Inr b1" "bufOk b1"
      "flag_found b1 = (flag_found b \<or> GSM0710_FRAME_FLAG \<in> set (bufContents b))"
      "bufContents b1 = (if flag_found b then bufContents b
         else tl (dropWhile (\<lambda>x. x \<noteq> GSM0710_FRAME_FLAG) (bufContents b)))" by blast
  show ?case
  proof (cases "flag_found b1")
    case False
    then have none: "\<not> flag_found b" "GSM0710_FRAME_FLAG \<notin> set (bufContents b)" using b1(3) by auto
    then have dw: "dropWhile (\<lambda>x. x \<noteq> GSM0710_FRAME_FLAG) (bufContents b) = []" by (auto simp: dropWhile_eq_Nil_conv)
    have "bufContents b1 = tl (dropWhile (\<lambda>x. x \<noteq> GSM0710_FRAME_FLAG) (bufContents b))" using b1(4) none(1) by simp
    then have "bufContents b1 = []" unfolding dw by simp
    then show ?thesis using False b1
      unfolding L by (simp add: Let_def)
  next
    case True
    from skipFlags_ok [OF b1(2), of GSM0710_FRAME_FLAG] obtain b2 where
      b2: "skipFlags GSM0710_FRAME_FLAG b1 = Inr b2" "bufOk b2" "flag_found b2"
        "bufContents b2 = afterFlag (flag_found b) (bufContents b)"
      using True b1(4) by (auto simp: afterFlag_def)
    have cond: "\<not> (\<not> flag_found b \<and> GSM0710_FRAME_FLAG \<notin> set (bufContents b))" using True b1(3) by simp
    from attempt_refines [OF b2(2), of cl] show ?thesis
    proof (elim disjE exE conjE)
      fix e assume "baseAttempt cl b2 = Inl e" "listAttempt cl (bufContents b2) = Inl e"
      then show ?thesis using True b1(1) b2 cond
        unfolding L by (simp add: Let_def)
    next
      fix a l assume a: "baseAttempt cl b2 = Inr a" "listAttempt cl (bufContents b2) = Inr l" "attemptRel b2 a l"
      show ?thesis
      proof (cases a)
        case Incomplete
        then have "l = LIncomplete" using a(3) by (cases l) auto
        then show ?thesis using True b1(1) b2 cond a Incomplete
          unfolding L by (simp add: Let_def)
      next
        case (Drop c)
        then obtain ys where l: "l = LDrop ys" "lies b2 c ys" "length ys \<le> datacount b2" using a(3) by (cases l) auto
        let ?b = "(commitCursor b2 c)\<lparr>dropped_count := Suc (dropped_count b2)\<rparr>"
        have sc: "snd c \<le> datacount b2" using l lies_length by simp
        from lies_commit [OF b2(2) l(2) sc] have ok: "bufOk ?b" "bufContents ?b = ys" by simp_all
        have "snd c < datacount b2" using baseAttempt_drop a(1) Drop by blast
        moreover have "datacount b2 \<le> datacount b"
          using findFlag_datacount [OF b1(1)] skipFlags_datacount [OF b2(1)] by linarith
        ultimately have "datacount ?b < datacount b" by (simp add: commitCursor_datacount)
        note IH = less.hyps [OF this ok(1)]
        define d where "d = Suc (if passed < MAX_RESYNC_GET_FRAME_COUNT then passed else 0)"
        have fl: "flag_found ?b = False" by (simp add: commitCursor_def)
        define R where "R = baseGetFrame cl d ?b"
        have step: "listGetFrame cl d False ys = bnd R (\<lambda>(b', asserted, f). Inr (flag_found b', bufContents b', asserted, f))"
          "ensures (\<lambda>(b', asserted, f). bufOk b') R"
          using IH [of d] unfolding fl ok(2) R_def by auto
        show ?thesis using True b1(1) b2 cond a Drop l(1) step
          unfolding L by (cases R) (auto simp: Let_def simp flip: d_def R_def)
      next
        case (Complete c f)
        then obtain ys where l: "l = LComplete ys f" "lies b2 c ys" "length ys \<le> datacount b2" using a(3) by (cases l) auto
        have sc: "snd c \<le> datacount b2" using l lies_length by simp
        from lies_commit [OF b2(2) l(2) sc] show ?thesis using True b1(1) b2 cond a Complete l(1)
          unfolding L by (simp add: Let_def)
            (simp add: commitCursor_def)
      qed
    qed
  qed
qed

lemma reader_refines_stream_witness:
  "bnd (baseGetFrame [] 0 gsm0710_buffer_init) (\<lambda>(b', asserted, f). Inr (flag_found b', bufContents b', asserted, f)) =
      listGetFrame [] 0 (flag_found gsm0710_buffer_init) (bufContents gsm0710_buffer_init) \<and>
    ensures (\<lambda>(b', asserted, f). bufOk b') (baseGetFrame [] 0 gsm0710_buffer_init)"
  by (rule reader_refines_stream) (rule init_ok)

end
