(* ===== verification/MuxRoundTrip.thy ===== *)
theory MuxRoundTrip
  imports MuxStream
begin

text \<open>
  What the writer of the basic mode sends, the reader takes out of its buffer: \<open>encFrame\<close> is the octets of one frame,
  \<open>carries\<close> says which frames a stream of octets still holds, and \<open>rxRun\<close> lets the two threads of the reading side
  (\<open>thread_serial_device_read\<close> and \<open>assemble_frame_thread\<close>) take turns in any order.
\<close>

definition basicFrame :: "byte \<Rightarrow> byte \<Rightarrow> byte list \<Rightarrow> byte list" where
  "basicFrame addr control payload =
     framePrefix addr control (length payload) @ payload @ framePostfix (framePrefix addr control (length payload))"

definition encFrame :: "gsm_frame \<Rightarrow> byte list" where
  "encFrame f = basicFrame (frameAddress (unat (fr_channel f))) (fr_control f) (fr_data f)"

text \<open>A frame the two sides agree about: its channel is in the table, its payload is within the limit of the
  channel, and a frame of type UI has none (the writer does not put the payload into the check sequence).\<close>

definition okFrame :: "gsm_channel list \<Rightarrow> gsm_frame \<Rightarrow> bool" where
  "okFrame cl f \<longleftrightarrow> unat (fr_channel f) < min 64 (length cl) \<and>
     length (fr_data f) \<le> negotiated_N1 (cl ! unat (fr_channel f)) \<and> length (fr_data f) \<le> 32767 \<and>
     (GSM0710_FRAME_IS GSM0710_TYPE_UI (fr_control f) \<longrightarrow> fr_data f = [])"

section \<open>One frame\<close>

lemma high_bits: "n < 2 ^ k \<Longrightarrow> k \<le> i \<Longrightarrow> \<not> bit (n :: nat) i"
  by (metis bit_take_bit_iff not_less take_bit_nat_eq_self)

lemmas bit_rules = bit_drop_bit_eq bit_and_iff bit_or_iff bit_push_bit_iff bit_take_bit_iff comp_def

lemma address_bits: "drop_bit 2 (((1 OR 2) OR push_bit 2 (63 AND w)) AND 252) = take_bit 6 (w :: byte)"
  by (rule bit_word_eqI, simp only: bit_rules) (auto simp: less_Suc_eq numeral_eq_Suc bit_simps)

lemma unat_take_bits: "unat (take_bit k (word_of_nat n :: byte)) = take_bit (min k 8) n"
  by (simp add: unsigned_take_bit_eq unsigned_of_nat)

lemma frameAddress_decode:
  assumes "n < 64"
  shows "GSM0710_DECODE_ADDRESS (frameAddress n) = word_of_nat n"
proof -
  have "GSM0710_DECODE_ADDRESS (frameAddress n) = take_bit 6 (word_of_nat n)"
    unfolding GSM0710_DECODE_ADDRESS_def frameAddress_def GSM0710_EA_def GSM0710_CR_def by (rule address_bits)
  also have "\<dots> = word_of_nat n"
    using assms by (simp add: word_unat_eq_iff unsigned_take_bit_eq unsigned_of_nat take_bit_nat_eq_self)
  finally show ?thesis .
qed

lemma frameAddress_not_flag: "frameAddress n \<noteq> GSM0710_FRAME_FLAG"
proof
  assume "frameAddress n = GSM0710_FRAME_FLAG"
  then have "bit (frameAddress n) 1 = bit GSM0710_FRAME_FLAG 1" by simp
  then show False by (simp add: frameAddress_def mux_simps bit_simps)
qed

lemma length_bits:
  fixes w :: byte
  shows "(1 OR push_bit 1 w) AND 1 \<noteq> 0" "drop_bit 1 ((1 OR push_bit 1 w) AND 254) = take_bit 7 w"
    "push_bit 1 (0x7F AND w) AND 1 = 0" "drop_bit 1 (push_bit 1 (0x7F AND w) AND 254) = take_bit 7 w"
proof -
  have "bit ((1 OR push_bit 1 w) AND 1) 0" by (simp add: bit_simps)
  then show "(1 OR push_bit 1 w) AND 1 \<noteq> 0" by auto
  show "drop_bit 1 ((1 OR push_bit 1 w) AND 254) = take_bit 7 w"
    by (rule bit_word_eqI, simp only: bit_rules) (auto simp: less_Suc_eq numeral_eq_Suc bit_simps)
  show "push_bit 1 (0x7F AND w) AND 1 = 0"
    by (rule bit_word_eqI, simp only: bit_rules) (auto simp: bit_simps)
  show "drop_bit 1 (push_bit 1 (0x7F AND w) AND 254) = take_bit 7 w"
    by (rule bit_word_eqI, simp only: bit_rules) (auto simp: less_Suc_eq numeral_eq_Suc bit_simps)
qed

lemma second_length: "n \<le> 32767 \<Longrightarrow> unat (word_of_nat (drop_bit 7 (0x7F80 AND n)) :: byte) = n div 128"
proof -
  assume n: "n \<le> 32767"
  have m: "(0x7F80 :: nat) = push_bit 7 (mask 8)" by (simp add: mask_eq_exp_minus_1 push_bit_eq_mult)
  have "drop_bit 7 (push_bit 7 (mask 8) AND n) = take_bit 8 (drop_bit 7 n)"
    by (intro bit_eqI, simp only: bit_rules bit_mask_iff) auto
  then have "drop_bit 7 (0x7F80 AND n) = take_bit 8 (drop_bit 7 n)" unfolding m .
  then show ?thesis using n by (simp add: unat_of_nat take_bit_eq_mod drop_bit_eq_div)
qed

lemma listHeader_written:
  assumes "n \<le> 32767"
  shows "\<exists>l. frameLength n = butlast (frameLength n) @ [l] \<and>
    listHeader (addr # control # frameLength n @ r) =
      Some (addr, control, n, crc_run 0xFF (addr # control # frameLength n), l, r)"
proof (cases "n > 127")
  case True
  define x where "x = push_bit 1 (0x7F AND word_of_nat n :: byte)"
  define y where "y = (word_of_nat (drop_bit 7 (0x7F80 AND n)) :: byte)"
  have len: "frameLength n = [x, y]" using True by (simp only: frameLength_def x_def y_def if_True)
  have "x AND 1 = 0" "unat (drop_bit 1 (x AND 254)) = n mod 128" "unat y = n div 128"
    unfolding x_def y_def using second_length [OF assms]
    by (simp_all only: length_bits unat_take_bits) (simp add: take_bit_eq_mod)
  moreover have "n mod 128 + n div 128 * 128 = n" by simp
  ultimately show ?thesis by (simp add: len Let_def)
next
  case False
  define x where "x = 1 OR push_bit 1 (word_of_nat n :: byte)"
  have len: "frameLength n = [x]" using False by (simp only: frameLength_def x_def if_False)
  have "x AND 1 \<noteq> 0" "unat (drop_bit 1 (x AND 254)) = n"
    unfolding x_def using False by (simp_all only: length_bits unat_take_bits) (simp_all add: take_bit_eq_mod)
  then show ?thesis by (simp add: len Let_def)
qed

lemma listHeader_prefix:
  assumes "n \<le> 32767" "xs @ ys = addr # control # frameLength n @ r" "5 \<le> length xs"
  shows "\<exists>l r'. listHeader xs = Some (addr, control, n, crc_run 0xFF (addr # control # frameLength n), l, r') \<and> r' @ ys = r"
proof -
  have "length (frameLength n) \<le> 2" by (simp add: frameLength_def)
  then have "\<exists>r'. xs = addr # control # frameLength n @ r' \<and> r' @ ys = r"
    using assms(2,3)
    by (intro exI [of _ "drop (2 + length (frameLength n)) xs"])
      (auto simp: append_eq_append_conv2 append_eq_Cons_conv Cons_eq_append_conv dest: arg_cong [of _ _ length])
  then show ?thesis using listHeader_written [OF assms(1)] by metis
qed

lemma rd_channel: "n < length cl \<Longrightarrow> n < 256 \<Longrightarrow> rd cl (uint (word_of_nat n :: byte)) = Inr (cl ! n)"
  by (simp add: rd_def uint_byte_of_nat)

lemma encFrame_tail:
  "tl (encFrame f) = frameAddress (unat (fr_channel f)) # fr_control f # frameLength (length (fr_data f)) @ fr_data f @
     [frame_calc_crc (frameAddress (unat (fr_channel f)) # fr_control f # frameLength (length (fr_data f))), GSM0710_FRAME_FLAG]"
  by (simp add: encFrame_def basicFrame_def framePrefix_def framePostfix_def)

lemma encFrame_Cons: "encFrame f = GSM0710_FRAME_FLAG # tl (encFrame f)"
  by (simp add: encFrame_def basicFrame_def framePrefix_def)

lemma attempt_complete:
  assumes "okFrame cl f"
  shows "listAttempt cl (tl (encFrame f) @ rest) = Inr (LComplete rest f)"
proof -
  let ?addr = "frameAddress (unat (fr_channel f))"
  let ?n = "length (fr_data f)"
  let ?h = "?addr # fr_control f # frameLength ?n"
  have ok: "unat (fr_channel f) < 64" "unat (fr_channel f) < length cl" "?n \<le> 32767"
    "?n \<le> negotiated_N1 (cl ! unat (fr_channel f))"
    "GSM0710_FRAME_IS GSM0710_TYPE_UI (fr_control f) \<Longrightarrow> fr_data f = []"
    using assms by (auto simp: okFrame_def)
  have xs: "tl (encFrame f) @ rest =
      ?addr # fr_control f # frameLength ?n @ fr_data f @ frame_calc_crc ?h # GSM0710_FRAME_FLAG # rest"
    by (simp add: encFrame_tail)
  obtain l where h: "listHeader (tl (encFrame f) @ rest) =
      Some (?addr, fr_control f, ?n, crc_run 0xFF ?h, l, fr_data f @ frame_calc_crc ?h # GSM0710_FRAME_FLAG # rest)"
    using listHeader_written [OF ok(3)] unfolding xs by blast
  have len: "5 \<le> length (tl (encFrame f) @ rest)" unfolding xs by (simp add: frameLength_def)
  have ch: "GSM0710_DECODE_ADDRESS ?addr = fr_channel f" using ok(1) by (simp add: frameAddress_decode)
  have rd: "rd cl (uint (fr_channel f)) = Inr (cl ! unat (fr_channel f))"
    using rd_channel [of "unat (fr_channel f)" cl] ok(1,2) by simp
  have fcs: "fcs_ok (crc_run 0xFF ?h) (frame_calc_crc ?h)" by (simp only: frame_calc_crc_ok)
  have fcs2: "crc_run c (fr_data f) = c" if "GSM0710_FRAME_IS GSM0710_TYPE_UI (fr_control f)" for c
    using ok(5) [OF that] by simp
  show ?thesis
    using len ok(4) by (simp add: listAttempt_def h ch rd listTail_def fcs fcs2 del: crc_run_Cons)
qed

lemma attempt_incomplete:
  assumes "okFrame cl f" "xs @ ys = tl (encFrame f)" "ys \<noteq> []"
  shows "listAttempt cl xs = Inr LIncomplete"
proof (cases "5 \<le> length xs")
  case True
  let ?addr = "frameAddress (unat (fr_channel f))"
  let ?n = "length (fr_data f)"
  let ?h = "?addr # fr_control f # frameLength ?n"
  have ok: "unat (fr_channel f) < 64" "unat (fr_channel f) < length cl" "?n \<le> 32767"
    "?n \<le> negotiated_N1 (cl ! unat (fr_channel f))" using assms(1) by (auto simp: okFrame_def)
  have eq: "xs @ ys = ?addr # fr_control f # frameLength ?n @ (fr_data f @ [frame_calc_crc ?h, GSM0710_FRAME_FLAG])"
    using assms(2) by (simp add: encFrame_tail)
  from listHeader_prefix [OF ok(3) eq True] obtain l r' where
    h: "listHeader xs = Some (?addr, fr_control f, ?n, crc_run 0xFF ?h, l, r')"
      "r' @ ys = fr_data f @ [frame_calc_crc ?h, GSM0710_FRAME_FLAG]" by blast
  have "length (r' @ ys) = ?n + 2" by (simp only: h(2)) simp
  then have "length r' < ?n + 2" using assms(3) by (cases ys) auto
  moreover have ch: "GSM0710_DECODE_ADDRESS ?addr = fr_channel f" using ok(1) by (simp add: frameAddress_decode)
  moreover have "rd cl (uint (fr_channel f)) = Inr (cl ! unat (fr_channel f))"
    using rd_channel [of "unat (fr_channel f)" cl] ok(1,2) by simp
  ultimately show ?thesis using ok(4) True by (simp add: listAttempt_def h(1) del: crc_run_Cons)
qed (simp add: listAttempt_def)

section \<open>A stream of frames\<close>

text \<open>\<open>carries cl flag s fs\<close>: the octets \<open>s\<close>, of which the opening flag has been read if \<open>flag\<close>, are the frames \<open>fs\<close>.\<close>

fun carries :: "bool \<Rightarrow> byte list \<Rightarrow> gsm_frame list \<Rightarrow> bool" where
  "carries True s [] = False"
| "carries True s (f # fs) = (s = tl (encFrame f) @ concat (map encFrame fs))"
| "carries False s fs = (s = concat (map encFrame fs))"

lemma afterFlag_frame:
  "x \<noteq> GSM0710_FRAME_FLAG \<Longrightarrow> afterFlag True (x # xs) = x # xs"
  "x \<noteq> GSM0710_FRAME_FLAG \<Longrightarrow> afterFlag False (GSM0710_FRAME_FLAG # x # xs) = x # xs"
  "afterFlag True [] = []" "afterFlag False [GSM0710_FRAME_FLAG] = []"
  by (simp_all add: afterFlag_def)

lemma tl_encFrame_Cons: "\<exists>x xs. tl (encFrame f) = x # xs \<and> x \<noteq> GSM0710_FRAME_FLAG"
  by (simp add: encFrame_tail frameAddress_not_flag)

text \<open>One call of the reader takes exactly the first frame if it is there, and loses nothing if it is not.\<close>

lemma get_carried:
  assumes "carries flag (q @ s) fs" "\<forall>f \<in> set fs. okFrame cl f" "passed < MAX_RESYNC_GET_FRAME_COUNT"
  shows "(\<exists>f gs r. fs = f # gs \<and> listGetFrame cl passed flag q = Inr (False, r, False, Some f) \<and>
      carries False (r @ s) gs \<and> length r < length q) \<or>
    (\<exists>flag' r. listGetFrame cl passed flag q = Inr (flag', r, False, None) \<and> carries flag' (r @ s) fs \<and>
      (s = [] \<longrightarrow> fs = [] \<and> r = []) \<and> (fs = [] \<longrightarrow> r = []) \<and>
      (\<forall>f gs. fs = f # gs \<longrightarrow> length r < length (encFrame f)))"
proof -
  note g = listGetFrame.simps [of cl passed flag q]
  show ?thesis
  proof (cases "\<not> flag \<and> q = []")
    case True
    then have "listGetFrame cl passed flag q = Inr (False, [], False, None)" using assms(3) unfolding g by simp
    then show ?thesis using True assms(1)
      by (intro disjI2 exI [of _ False] exI [of _ "[]"])
        (auto simp: encFrame_def basicFrame_def framePrefix_def)
  next
    case False
    obtain f gs where fs: "fs = f # gs"
      using False assms(1) by (cases fs; cases flag) auto
    obtain t where t: "encFrame f = GSM0710_FRAME_FLAG # t" using encFrame_Cons by blast
    define p where "p = (if flag then q else tl q)"
    have first: "flag \<or> (\<exists>p. q = GSM0710_FRAME_FLAG # p)"
      using False assms(1) by (cases flag; cases q) (auto simp: fs t)
    have p: "p @ s = tl (encFrame f) @ concat (map encFrame gs)"
    proof (cases flag)
      case nf: False
      then have "q @ s = GSM0710_FRAME_FLAG # tl (encFrame f) @ concat (map encFrame gs)"
        using assms(1) by (simp add: fs t)
      then show ?thesis using nf first by (auto simp: p_def)
    qed (use assms(1) in \<open>simp add: fs p_def\<close>)
    have after: "afterFlag flag q = p"
    proof (cases p)
      case Nil
      then show ?thesis using first by (cases flag) (auto simp: p_def afterFlag_frame)
    next
      case (Cons x xs)
      obtain y ys where "tl (encFrame f) = y # ys" "y \<noteq> GSM0710_FRAME_FLAG" using tl_encFrame_Cons by blast
      then have "x \<noteq> GSM0710_FRAME_FLAG" using p Cons by simp
      then show ?thesis using first Cons by (cases flag) (auto simp: p_def afterFlag_frame)
    qed
    have cond: "\<not> (\<not> flag \<and> GSM0710_FRAME_FLAG \<notin> set q)" using first by auto
    have lenp: "length p \<le> length q" by (simp add: p_def)
    have okf: "okFrame cl f" using assms(2) by (simp add: fs)
    show ?thesis
    proof (cases "length (tl (encFrame f)) \<le> length p")
      case True
      from p consider us where "p = tl (encFrame f) @ us" "us @ s = concat (map encFrame gs)"
        | us where "p @ us = tl (encFrame f)" "s = us @ concat (map encFrame gs)"
        by (auto simp: append_eq_append_conv2)
      then obtain r where r: "p = tl (encFrame f) @ r" "r @ s = concat (map encFrame gs)"
      proof cases
        case (2 us)
        then have "length p + length us = length (tl (encFrame f))" by (metis length_append)
        then have "length us = 0" using True by linarith
        then have "us = []" by simp
        then show thesis using 2 by (intro that [of "[]"]) simp_all
      qed
      have "0 < length (tl (encFrame f))" by (simp only: encFrame_tail) simp
      then have "length r < length q" using lenp unfolding r(1) length_append by linarith
      have "listGetFrame cl passed flag q = Inr (False, r, False, Some f)"
        using cond attempt_complete [OF okf, of r] assms(3) unfolding g by (auto simp: Let_def after r(1))
      then show ?thesis using \<open>length r < length q\<close> r(2) by (intro disjI1) (simp add: fs)
    next
      case False
      from p consider us where "p = tl (encFrame f) @ us"
        | us where "p @ us = tl (encFrame f)" "s = us @ concat (map encFrame gs)"
        by (auto simp: append_eq_append_conv2)
      then obtain u where u: "p @ u = tl (encFrame f)" "u \<noteq> []" "s = u @ concat (map encFrame gs)"
      proof cases
        case (1 us)
        then have "length p = length (tl (encFrame f)) + length us" by (metis length_append)
        then show thesis using False by linarith
      next
        case (2 us)
        then have "us \<noteq> []" using False by auto
        then show thesis using 2 that by blast
      qed
      have "length p < length (encFrame f)" using False encFrame_Cons [of f] by (metis length_Cons less_SucI not_le)
      moreover have "listGetFrame cl passed flag q = Inr (True, p, False, None)"
        using cond attempt_incomplete [OF okf u(1,2)] assms(3) unfolding g by (auto simp: Let_def after)
      ultimately show ?thesis using p u(2,3)
        by (intro disjI2 exI [of _ True] exI [of _ p]) (simp add: fs)
    qed
  qed
qed

lemma bufOk_signal [simp]: "bufOk (signalSleeper b) = bufOk b" "bufContents (signalSleeper b) = bufContents b"
    "flag_found (signalSleeper b) = flag_found b"
  by (simp_all add: bufOk_def bufContents_def bufCursor_def signalSleeper_def)

lemma drain_carried:
  assumes "bufOk b" "carries (flag_found b) (bufContents b @ s) fs" "\<forall>f \<in> set fs. okFrame cl f"
  shows "\<exists>b' done rest. drainFrames cl b = Inr (b', done) \<and> bufOk b' \<and> fs = done @ rest \<and>
    carries (flag_found b') (bufContents b' @ s) rest \<and> (s = [] \<longrightarrow> rest = [] \<and> bufContents b' = []) \<and>
    (rest = [] \<longrightarrow> bufContents b' = []) \<and>
    (\<forall>f gs. rest = f # gs \<longrightarrow> length (bufContents b') < length (encFrame f))"
  using assms
proof (induction "datacount b" arbitrary: b fs rule: less_induct)
  case less
  note R = reader_refines_stream [OF less.prems(1), of cl 0]
  have "0 < MAX_RESYNC_GET_FRAME_COUNT" by (simp add: MAX_RESYNC_GET_FRAME_COUNT_def)
  from get_carried [OF less.prems(2,3) this] show ?case
  proof (elim disjE exE conjE)
    fix f gs r
    assume h: "fs = f # gs" "listGetFrame cl 0 (flag_found b) (bufContents b) = Inr (False, r, False, Some f)"
      "carries False (r @ s) gs" "length r < length (bufContents b)"
    from R h(2) obtain b1 where b1: "baseGetFrame cl 0 b = Inr (b1, False, Some f)" "bufOk b1" "\<not> flag_found b1"
      "bufContents b1 = r"
      by (cases "baseGetFrame cl 0 b") auto
    have "datacount (signalSleeper b1) < datacount b" using h(4) b1(4) length_bufContents [of b1] by (simp add: signalSleeper_def)
    from less.hyps [OF this, of gs] b1 h(1,3) less.prems(3) obtain b' "done" rest where
      "drainFrames cl (signalSleeper b1) = Inr (b', done)" "bufOk b'" "gs = done @ rest"
      "carries (flag_found b') (bufContents b' @ s) rest" "s = [] \<longrightarrow> rest = [] \<and> bufContents b' = []"
      "rest = [] \<longrightarrow> bufContents b' = []" "\<forall>f gs. rest = f # gs \<longrightarrow> length (bufContents b') < length (encFrame f)"
      by auto
    then show ?case using b1(1) h(1) by (intro exI [of _ b'] exI [of _ "f # done"] exI [of _ rest]) (simp add: drainFrames.simps [of cl b])
  next
    fix flag' r
    assume h: "listGetFrame cl 0 (flag_found b) (bufContents b) = Inr (flag', r, False, None)" "carries flag' (r @ s) fs"
      "s = [] \<longrightarrow> fs = [] \<and> r = []" "fs = [] \<longrightarrow> r = []" "\<forall>f gs. fs = f # gs \<longrightarrow> length r < length (encFrame f)"
    from R h(1) obtain b1 where b1: "baseGetFrame cl 0 b = Inr (b1, False, None)" "bufOk b1" "flag_found b1 = flag'"
      "bufContents b1 = r"
      by (cases "baseGetFrame cl 0 b") auto
    then show ?case using h(2-) by (intro exI [of _ b1] exI [of _ "[]"] exI [of _ fs]) (simp add: drainFrames.simps [of cl b])
  qed
qed

section \<open>The two threads\<close>

text \<open>\<open>thread_serial_device_read\<close> in the state MUXING: up to \<open>n\<close> octets are there, at most what fits is read. With a
  full buffer the thread marks itself as sleeping; it goes on when it was signalled and finds room. Wake-ups of the
  condition that no thread signalled are left out.\<close>

definition thread_serial_device_read :: "gsm_buffer \<Rightarrow> byte list \<Rightarrow> nat \<Rightarrow> (gsm_buffer \<times> byte list) res" where
  "thread_serial_device_read b dev n =
     (if gsm0710_buffer_free b > 0
      then (let len = min n (min (gsm0710_buffer_free b) 4096); xs = take len dev in
        if xs = [] then Inr (b, dev)
        else bnd (gsm0710_buffer_write b xs) (\<lambda>(b, _). Inr (b, drop len dev)))
      else Inr (b\<lparr>input_sleeping := True\<rparr>, dev))"

definition readerAwakes :: "gsm_buffer \<Rightarrow> gsm_buffer" where
  "readerAwakes b =
     (if input_sleeping b \<and> bufferready b
      then (if gsm0710_buffer_free b > 0 then b\<lparr>input_sleeping := False, bufferready := False\<rparr>
            else b\<lparr>bufferready := False\<rparr>)
      else b)"

text \<open>\<open>rx_dev\<close> are the octets that still wait in the device, \<open>rx_got\<close> the frames handed on.\<close>

record rx_state =
  rx_buf :: gsm_buffer
  rx_dev :: "byte list"
  rx_got :: "gsm_frame list"

datatype rx_event = ReadSerial nat | AwakeReader | ExtractFrames

fun rxStep :: "gsm_channel list \<Rightarrow> rx_event \<Rightarrow> rx_state \<Rightarrow> rx_state res" where
  "rxStep cl (ReadSerial n) r =
     (if input_sleeping (rx_buf r) then Inr r
      else bnd (thread_serial_device_read (rx_buf r) (rx_dev r) n) (\<lambda>(b, dev). Inr (r\<lparr>rx_buf := b, rx_dev := dev\<rparr>)))"
| "rxStep cl AwakeReader r = Inr (r\<lparr>rx_buf := readerAwakes (rx_buf r)\<rparr>)"
| "rxStep cl ExtractFrames r =
     bnd (drainFrames cl (rx_buf r)) (\<lambda>(b, fs). Inr (r\<lparr>rx_buf := b, rx_got := rx_got r @ fs\<rparr>))"

fun rxRun :: "gsm_channel list \<Rightarrow> rx_event list \<Rightarrow> rx_state \<Rightarrow> rx_state res" where
  "rxRun cl [] r = Inr r"
| "rxRun cl (e # es) r = bnd (rxStep cl e r) (rxRun cl es)"

definition rxStart :: "byte list \<Rightarrow> rx_state" where
  "rxStart dev = \<lparr>rx_buf = gsm0710_buffer_init, rx_dev = dev, rx_got = []\<rparr>"

text \<open>The invariant: nothing is lost, nothing is added, and the order is kept.\<close>

definition rxInv :: "gsm_frame list \<Rightarrow> rx_state \<Rightarrow> bool" where
  "rxInv fs r \<longleftrightarrow> bufOk (rx_buf r) \<and>
     (\<exists>rest. fs = rx_got r @ rest \<and> carries (flag_found (rx_buf r)) (bufContents (rx_buf r) @ rx_dev r) rest)"

lemma rxStep_ok:
  assumes "rxInv fs r" "\<forall>f \<in> set fs. okFrame cl f"
  shows "\<exists>r'. rxStep cl e r = Inr r' \<and> rxInv fs r' \<and>
    (e = ExtractFrames \<longrightarrow> rx_dev r = [] \<longrightarrow> rx_got r' = fs \<and> rx_dev r' = [])"
proof (cases e)
  case (ReadSerial n)
  show ?thesis
  proof (cases "input_sleeping (rx_buf r)")
    case False
    let ?b = "rx_buf r"
    have ok: "bufOk ?b" using assms(1) by (simp add: rxInv_def)
    define len where "len = min n (min (gsm0710_buffer_free ?b) 4096)"
    show ?thesis
    proof (cases "gsm0710_buffer_free ?b > 0 \<and> take len (rx_dev r) \<noteq> []")
      case True
      from bufWrite_ok [OF ok, of "take len (rx_dev r)"] obtain b' where b':
        "gsm0710_buffer_write ?b (take len (rx_dev r)) = Inr (b', min (length (take len (rx_dev r))) (gsm0710_buffer_free ?b))"
        "bufOk b'" "bufContents b' = bufContents ?b @ take (gsm0710_buffer_free ?b) (take len (rx_dev r))"
        "b' = ?b\<lparr>buf_data := buf_data b', writep := writep b', datacount := datacount b', newdataready := True\<rparr>"
        by blast
      have fl: "flag_found b' = flag_found ?b" by (subst b'(4)) simp
      have "thread_serial_device_read ?b (rx_dev r) n = Inr (b', drop len (rx_dev r))"
        using True b'(1) by (simp add: thread_serial_device_read_def Let_def flip: len_def)
      moreover have "bufContents b' @ drop len (rx_dev r) = bufContents ?b @ rx_dev r"
        using b'(3) by (simp add: len_def min_def)
      ultimately show ?thesis using assms(1) b'(2) fl False ReadSerial by (simp add: rxInv_def)
    next
      case stop: False
      then have "\<exists>c. thread_serial_device_read ?b (rx_dev r) n = Inr (c, rx_dev r) \<and> (c = ?b \<or> c = ?b\<lparr>input_sleeping := True\<rparr>)"
        by (auto simp: thread_serial_device_read_def Let_def simp flip: len_def)
      then show ?thesis using assms(1) False ReadSerial
        by (auto simp: rxInv_def bufOk_def bufContents_def bufCursor_def)
    qed
  qed (use assms ReadSerial in simp)
next
  case AwakeReader
  then show ?thesis using assms(1)
    by (auto simp: rxInv_def readerAwakes_def bufOk_def bufContents_def bufCursor_def)
next
  case ExtractFrames
  from assms(1) obtain rest where rest: "fs = rx_got r @ rest" "bufOk (rx_buf r)"
    "carries (flag_found (rx_buf r)) (bufContents (rx_buf r) @ rx_dev r) rest" by (auto simp: rxInv_def)
  have "\<forall>f \<in> set rest. okFrame cl f" using assms(2) rest(1) by simp
  from drain_carried [OF rest(2,3) this] obtain b' "done" rest' where
    d: "drainFrames cl (rx_buf r) = Inr (b', done)" "bufOk b'" "rest = done @ rest'"
      "carries (flag_found b') (bufContents b' @ rx_dev r) rest'" "rx_dev r = [] \<longrightarrow> rest' = []" by blast
  then show ?thesis using rest(1) ExtractFrames by (auto simp: rxInv_def)
qed

lemma rxRun_ok:
  "rxInv fs r \<Longrightarrow> \<forall>f \<in> set fs. okFrame cl f \<Longrightarrow> \<exists>r'. rxRun cl es r = Inr r' \<and> rxInv fs r'"
proof (induction es arbitrary: r)
  case (Cons e es)
  from rxStep_ok [OF Cons.prems, of e] Cons.IH Cons.prems(2) show ?case by auto
qed simp

lemma rxRun_append: "rxRun cl (es @ es') r = bnd (rxRun cl es r) (rxRun cl es')"
proof (induction es arbitrary: r)
  case (Cons e es)
  then show ?case by (cases "rxStep cl e r") simp_all
qed simp

lemma rxStart_inv: "rxInv fs (rxStart (concat (map encFrame fs)))"
  by (simp add: rxInv_def rxStart_def init_ok) (simp add: gsm0710_buffer_init_def)

text \<open>C7. Frames arrive as they were sent. However the octets of a sequence of frames are cut into reads, in whatever
  order the reading thread and the assembling thread run and however often the ring wraps, no step faults, the frames handed on
  are always a prefix of those sent, and once the device has no octets left the next run of the assembler completes the
  sequence.\<close>

theorem frames_delivered:
  assumes "\<forall>f \<in> set fs. okFrame cl f"
  shows "\<exists>r rest. rxRun cl es (rxStart (concat (map encFrame fs))) = Inr r \<and> fs = rx_got r @ rest \<and>
    (rx_dev r = [] \<longrightarrow> (\<exists>r'. rxRun cl (es @ [ExtractFrames]) (rxStart (concat (map encFrame fs))) = Inr r' \<and> rx_got r' = fs))"
proof -
  from rxRun_ok [OF rxStart_inv assms] obtain r where r: "rxRun cl es (rxStart (concat (map encFrame fs))) = Inr r" "rxInv fs r"
    by blast
  from r(2) obtain rest where rest: "fs = rx_got r @ rest" by (auto simp: rxInv_def)
  from rxStep_ok [OF r(2) assms, of ExtractFrames] obtain r' where
    r': "rxStep cl ExtractFrames r = Inr r'" "rx_dev r = [] \<longrightarrow> rx_got r' = fs" by blast
  then have "rxRun cl (es @ [ExtractFrames]) (rxStart (concat (map encFrame fs))) = Inr r'"
    by (simp add: rxRun_append r(1) del: rxStep.simps)
  then show ?thesis using r(1) rest r'(2) by blast
qed

definition sampleChannel :: "nat \<Rightarrow> gsm_channel" where
  "sampleChannel n = \<lparr>ch_id = n, ch_fd = int n, ch_opened = True, ch_reopen = False, sabm_ua_pending = False,
     disc_ua_pending = False, negotiated_N1 = 512, v24_signals = 0, tx_fc_off = False, rx_fc_off = False,
     rx_thread = False, rx_fl = 0, rx_fl_total = 0, rx_fl_written = 0\<rparr>"

lemma frames_delivered_witness:
  "\<exists>r rest. rxRun (map sampleChannel [0..<32]) [ReadSerial 3, ExtractFrames, ReadSerial 9]
      (rxStart (concat (map encFrame [\<lparr>fr_channel = 1, fr_control = 0xEF, fr_data = [0x41, 0x54]\<rparr>]))) = Inr r \<and>
    [\<lparr>fr_channel = 1, fr_control = 0xEF, fr_data = [0x41, 0x54]\<rparr>] = rx_got r @ rest \<and>
    (rx_dev r = [] \<longrightarrow> (\<exists>r'. rxRun (map sampleChannel [0..<32]) ([ReadSerial 3, ExtractFrames, ReadSerial 9] @ [ExtractFrames])
      (rxStart (concat (map encFrame [\<lparr>fr_channel = 1, fr_control = 0xEF, fr_data = [0x41, 0x54]\<rparr>]))) = Inr r' \<and>
      rx_got r' = [\<lparr>fr_channel = 1, fr_control = 0xEF, fr_data = [0x41, 0x54]\<rparr>]))"
  by (rule frames_delivered)
    (simp add: okFrame_def sampleChannel_def GSM0710_FRAME_IS_def mux_simps del: upt_Suc)

end
