(* ===== verification/MuxTransport.thy ===== *)
theory MuxTransport
  imports MuxRoundTrip
begin

text \<open>
  From the writes of the applications to the data of the channels on the other side: \<open>handle_channel_data\<close> cuts a write
  into frames no longer than the limit of the channel, \<open>write_frame\<close> puts them on the serial device, and the reading side
  of \<open>MuxRoundTrip\<close> hands on the same octets for every channel.
\<close>

function chunksOf :: "nat \<Rightarrow> byte list \<Rightarrow> byte list list" where
  "chunksOf n xs = (if n = 0 \<or> xs = [] then [] else take n xs # chunksOf n (drop n xs))"
  by pat_completeness auto
termination
  by (relation "measure (\<lambda>(n, xs). length xs)") auto

declare chunksOf.simps [simp del]

lemma chunksOf_Nil [simp]: "chunksOf n [] = []"
  by (simp add: chunksOf.simps)

lemma concat_chunksOf: "0 < n \<Longrightarrow> concat (chunksOf n xs) = xs"
proof (induction n xs rule: chunksOf.induct)
  case (1 n xs)
  then show ?case by (cases "xs = []") (simp_all add: chunksOf.simps [of n xs])
qed

lemma chunksOf_length: "c \<in> set (chunksOf n xs) \<Longrightarrow> length c \<le> n"
proof (induction n xs rule: chunksOf.induct)
  case (1 n xs)
  from 1(2) show ?case
    by (subst (asm) chunksOf.simps) (use 1(1) in \<open>auto split: if_splits\<close>)
qed

definition dataFrame :: "nat \<Rightarrow> byte list \<Rightarrow> gsm_frame" where
  "dataFrame channel xs = \<lparr>fr_channel = word_of_nat channel, fr_control = GSM0710_TYPE_UIH, fr_data = xs\<rparr>"

text \<open>A device that takes everything, in the basic mode.\<close>

definition healthy :: "muxd \<Rightarrow> bool" where
  "healthy m \<longleftrightarrow> serial_res m = [] \<and> \<not> stop_muxd m \<and> \<not> cmux_mode m \<and> \<not> uih_pf_bit_received m"

lemma writeUninterrupted_healthy:
  "serial_res m = [] \<Longrightarrow> writeUninterrupted m xs = (m\<lparr>serial_out := serial_out m @ xs\<rparr>, int (length xs))"
  by (simp add: writeUninterrupted.simps [of m xs] serialWrite_def)

lemma writeBasic_healthy:
  "serial_res m = [] \<Longrightarrow> writeBasic m addr control xs =
     (m\<lparr>serial_out := serial_out m @ basicFrame addr control xs\<rparr>, length xs)"
  by (simp add: writeBasic_def Let_def writeUninterrupted_healthy basicFrame_def framePostfix_def)

lemma write_frame_healthy:
  assumes "healthy m" "channel < length (channellist m)"
  shows "write_frame m channel xs type =
    (let ys = take (negotiated_N1 (channellist m ! channel)) xs in
     Inr (m\<lparr>serial_out := serial_out m @ basicFrame (frameAddress channel) type ys\<rparr>, length ys))"
proof -
  have "takePfBit m xs type = Inr False" using assms(1) by (simp add: takePfBit_def healthy_def)
  then show ?thesis using assms by (simp add: write_frame_def healthy_def rd_def writeBasic_healthy Let_def)
qed

lemma channelData_healthy:
  assumes "healthy m" "channel < length (channellist m)" "channel < 64" "0 < negotiated_N1 (channellist m ! channel)"
    and "i < GSM0710_WRITE_RETRIES"
  shows "channelData m xs i channel =
    Inr (m\<lparr>serial_out := serial_out m @ concat (map (\<lambda>c. encFrame (dataFrame channel c))
      (chunksOf (negotiated_N1 (channellist m ! channel)) xs))\<rparr>, 0)"
  using assms
proof (induction "length xs" arbitrary: m xs rule: less_induct)
  case less
  let ?n = "negotiated_N1 (channellist m ! channel)"
  show ?case
  proof (cases "xs = []")
    case True
    then show ?thesis by (simp add: channelData.simps [of m "[]"])
  next
    case False
    define ys where "ys = take ?n xs"
    define m1 where "m1 = m\<lparr>serial_out := serial_out m @ basicFrame (frameAddress channel) GSM0710_TYPE_UIH ys\<rparr>"
    have w: "write_frame m channel xs GSM0710_TYPE_UIH = Inr (m1, length ys)"
      using write_frame_healthy [OF less.prems(1,2)] by (simp add: ys_def m1_def Let_def)
    have ys: "0 < length ys" "drop (length ys) xs = drop ?n xs" using less.prems(4) False by (auto simp: ys_def min_def)
    have enc: "basicFrame (frameAddress channel) GSM0710_TYPE_UIH ys = encFrame (dataFrame channel ys)"
      using less.prems(3) by (simp add: encFrame_def dataFrame_def unat_of_nat)
    have "length (drop ?n xs) < length xs" using less.prems(4) False by simp
    moreover have "healthy m1" "channel < length (channellist m1)" "0 < negotiated_N1 (channellist m1 ! channel)"
      using less.prems by (simp_all add: m1_def healthy_def)
    ultimately have "channelData m1 (drop ?n xs) i channel =
        Inr (m1\<lparr>serial_out := serial_out m1 @ concat (map (\<lambda>c. encFrame (dataFrame channel c))
          (chunksOf ?n (drop ?n xs)))\<rparr>, 0)"
      using less.hyps [of "drop ?n xs" m1] less.prems(3,5) by (simp add: m1_def)
    then show ?thesis using False less.prems(4,5) w ys enc
      by (simp add: channelData.simps [of m xs] chunksOf.simps [of ?n xs] m1_def flip: ys_def)
  qed
qed

fun writeAll :: "muxd \<Rightarrow> (nat \<times> byte list) list \<Rightarrow> muxd res" where
  "writeAll m [] = Inr m"
| "writeAll m (w # ws) = bnd (handle_channel_data m (snd w) (fst w)) (\<lambda>(m, _). writeAll m ws)"

definition okWrite :: "gsm_channel list \<Rightarrow> nat \<times> byte list \<Rightarrow> bool" where
  "okWrite cl w \<longleftrightarrow> fst w < min 64 (length cl) \<and> 0 < negotiated_N1 (cl ! fst w) \<and> negotiated_N1 (cl ! fst w) \<le> 32767"

definition framesOf :: "gsm_channel list \<Rightarrow> nat \<times> byte list \<Rightarrow> gsm_frame list" where
  "framesOf cl w = map (dataFrame (fst w)) (chunksOf (negotiated_N1 (cl ! fst w)) (snd w))"

lemma writeAll_healthy:
  "healthy m \<Longrightarrow> \<forall>w \<in> set ws. okWrite (channellist m) w \<Longrightarrow>
   writeAll m ws = Inr (m\<lparr>serial_out := serial_out m @ concat (map encFrame (concat (map (framesOf (channellist m)) ws)))\<rparr>)"
proof (induction ws arbitrary: m)
  case (Cons w ws)
  have w: "handle_channel_data m (snd w) (fst w) =
      Inr (m\<lparr>serial_out := serial_out m @ concat (map encFrame (framesOf (channellist m) w))\<rparr>, 0)"
    using channelData_healthy [of m "fst w" 0 "snd w"] Cons.prems
    by (simp add: handle_channel_data_def okWrite_def framesOf_def comp_def GSM0710_WRITE_RETRIES_def)
  have h: "healthy (m\<lparr>serial_out := o'\<rparr>)" for o' using Cons.prems(1) by (simp add: healthy_def)
  show ?case using Cons.IH [OF h] Cons.prems(2) by (simp add: w)
qed simp

lemma framesOf_ok: "okWrite cl w \<Longrightarrow> f \<in> set (framesOf cl w) \<Longrightarrow> okFrame cl f"
  using chunksOf_length [of _ "negotiated_N1 (cl ! fst w)" "snd w"]
  by (fastforce simp: framesOf_def okFrame_def okWrite_def dataFrame_def GSM0710_FRAME_IS_def mux_simps unat_of_nat)

definition channelOctets :: "nat \<Rightarrow> gsm_frame list \<Rightarrow> byte list" where
  "channelOctets channel fs = concat (map fr_data (filter (\<lambda>f. unat (fr_channel f) = channel) fs))"

lemma channelOctets_append: "channelOctets c (fs @ gs) = channelOctets c fs @ channelOctets c gs"
  by (simp add: channelOctets_def)

lemma channelOctets_framesOf:
  assumes "okWrite cl w"
  shows "channelOctets c (framesOf cl w) = (if fst w = c then snd w else [])"
proof -
  have d: "unat (fr_channel (dataFrame (fst w) x)) = fst w" for x
    using assms by (simp add: dataFrame_def okWrite_def unat_of_nat)
  have all: "\<forall>f \<in> set (map (dataFrame (fst w)) xs). unat (fr_channel f) = fst w" for xs by (auto simp: d)
  have "map fr_data (map (dataFrame (fst w)) xs) = xs" for xs by (induction xs) (simp_all add: dataFrame_def)
  moreover have "filter (\<lambda>f. unat (fr_channel f) = fst w) (map (dataFrame (fst w)) xs) = map (dataFrame (fst w)) xs" for xs
    using all by (intro filter_True)
  ultimately have "channelOctets (fst w) (framesOf cl w) = snd w"
    using assms unfolding channelOctets_def framesOf_def by (simp only: concat_chunksOf okWrite_def)
  moreover have "channelOctets c (framesOf cl w) = []" if "fst w \<noteq> c"
    using all that by (auto simp: channelOctets_def framesOf_def)
  ultimately show ?thesis by auto
qed

text \<open>C6. Data of the channels from end to end. If the serial device takes what it is given, what any applications
  write to their channels is cut into frames, sent, read in whatever pieces, collected in the ring and taken apart again,
  and then every channel has received exactly the octets written to it, in order, and no other channel has any of
  them.\<close>

theorem channel_data_end_to_end:
  assumes "healthy m" "serial_out m = []" "\<forall>w \<in> set ws. okWrite (channellist m) w"
  shows "\<exists>m'. writeAll m ws = Inr m' \<and>
    (\<forall>es r. rxRun (channellist m) es (rxStart (serial_out m')) = Inr r \<longrightarrow> rx_dev r = [] \<longrightarrow>
      (\<exists>r'. rxStep (channellist m) ExtractFrames r = Inr r' \<and>
        (\<forall>c. channelOctets c (rx_got r') = concat (map snd (filter (\<lambda>w. fst w = c) ws)))))"
proof -
  let ?cl = "channellist m"
  let ?fs = "concat (map (framesOf ?cl) ws)"
  have ok: "\<forall>f \<in> set ?fs. okFrame ?cl f" using assms(3) framesOf_ok by auto
  have octets: "channelOctets c ?fs = concat (map snd (filter (\<lambda>w. fst w = c) ws))" for c
    using assms(3)
    by (induction ws) (auto simp: channelOctets_append channelOctets_framesOf, simp add: channelOctets_def)
  have w: "writeAll m ws = Inr (m\<lparr>serial_out := concat (map encFrame ?fs)\<rparr>)"
    using writeAll_healthy [OF assms(1,3)] assms(2) by simp
  have "\<exists>r'. rxStep ?cl ExtractFrames r = Inr r' \<and> (\<forall>c. channelOctets c (rx_got r') = concat (map snd (filter (\<lambda>w. fst w = c) ws)))"
    if "rxRun ?cl es (rxStart (concat (map encFrame ?fs))) = Inr r" "rx_dev r = []" for es r
  proof -
    from rxRun_ok [OF rxStart_inv ok, of es] that(1) have "rxInv ?fs r" by simp
    from rxStep_ok [OF this ok, of ExtractFrames] that(2) obtain r' where
      "rxStep ?cl ExtractFrames r = Inr r'" "rx_got r' = ?fs" by blast
    then show ?thesis using octets by auto
  qed
  with w show ?thesis by auto
qed

definition sampleMuxd :: muxd where
  "sampleMuxd = \<lparr>channellist = map sampleChannel [0..<32], cmux_mode = False, cmux_N1 = 512, uih_pf_bit_received = False,
     stop_muxd = False, serial_res = [], serial_errno = OtherErrno, serial_out = [], modem_ee = False\<rparr>"

lemma channel_data_end_to_end_witness:
  "\<exists>m'. writeAll sampleMuxd [(1, [0x41, 0x54]), (2, [0x0D])] = Inr m' \<and>
    (\<forall>es r. rxRun (map sampleChannel [0..<32]) es (rxStart (serial_out m')) = Inr r \<longrightarrow> rx_dev r = [] \<longrightarrow>
      (\<exists>r'. rxStep (map sampleChannel [0..<32]) ExtractFrames r = Inr r' \<and>
        (\<forall>c. channelOctets c (rx_got r') = concat (map snd (filter (\<lambda>w. fst w = c) [(1, [0x41, 0x54]), (2, [0x0D])])))))"
proof -
  have "channellist sampleMuxd = map sampleChannel [0..<32]" by (simp add: sampleMuxd_def)
  moreover have "\<forall>w \<in> set [(1, [0x41, 0x54]), (2, [0x0D])]. okWrite (map sampleChannel [0..<32]) w"
    by (simp add: okWrite_def sampleChannel_def del: upt_Suc)
  moreover have "healthy sampleMuxd" "serial_out sampleMuxd = []" by (simp_all add: healthy_def sampleMuxd_def)
  ultimately show ?thesis
    using channel_data_end_to_end [of sampleMuxd "[(1, [0x41, 0x54]), (2, [0x0D])]"] by (simp del: upt_Suc)
qed

end
