(* ===== verification/MuxFaults.thy ===== *)
theory MuxFaults
  imports MuxTransport
begin

text \<open>
  The reader of the basic mode on any input: it stays inside its memory if the channel table has an entry for every
  address (\<open>reader_total\<close>), and what goes wrong otherwise: a table of 32 entries, a closing flag that also opens the
  next frame, the limit on resynchronisations, and a reading thread that is never woken.
\<close>

section \<open>Memory\<close>

lemma decode_lt: "uint (GSM0710_DECODE_ADDRESS x) < 64"
proof -
  have "GSM0710_DECODE_ADDRESS x = take_bit 6 (drop_bit 2 x)"
    by (rule bit_word_eqI) (auto simp: GSM0710_DECODE_ADDRESS_def bit_simps less_Suc_eq numeral_eq_Suc)
  then have "uint (GSM0710_DECODE_ADDRESS x) = take_bit 6 (uint (drop_bit 2 x))" by (simp add: unsigned_take_bit_eq)
  then show ?thesis by (simp add: take_bit_int_less_exp [of 6, simplified])
qed

lemma listAttempt_total:
  assumes "length cl = 64"
  shows "\<exists>a. listAttempt cl xs = Inr a"
proof (cases "if length xs \<ge> 5 then listHeader xs else None")
  case (Some h)
  obtain addr control len fcs l r where h: "h = (addr, control, len, fcs, l, r)" by (cases h) auto
  have "rd cl (uint (GSM0710_DECODE_ADDRESS addr)) = Inr (cl ! nat (uint (GSM0710_DECODE_ADDRESS addr)))"
    using decode_lt [of addr] assms by (intro rd_ok) auto
  then show ?thesis by (auto simp: listAttempt_def Some h)
qed (simp add: listAttempt_def)

lemma listGetFrame_total: "length cl = 64 \<Longrightarrow> \<exists>r. listGetFrame cl passed flag xs = Inr r"
proof (induction "length xs" arbitrary: passed flag xs rule: less_induct)
  case less
  obtain a where a: "listAttempt cl (afterFlag flag xs) = Inr a" using listAttempt_total less.prems by blast
  show ?case
  proof (cases a)
    case (LDrop r)
    then have "length r < length xs" using listAttempt_drop a length_afterFlag le_less_trans less_le_trans by metis
    from less.hyps [OF this less.prems, of "Suc (if passed < MAX_RESYNC_GET_FRAME_COUNT then passed else 0)" False] a LDrop
    show ?thesis by (subst listGetFrame.simps) (auto simp: Let_def)
  qed (use a in \<open>unfold listGetFrame.simps [of cl passed flag xs], auto simp: Let_def simp del: split_paired_Ex\<close>)+
qed

text \<open>C10. With a table of 64 channels the reader is total and memory safe: from any well-formed ring, with any octets in
  it, every read lies inside the ring, every access inside the channel table, and the ring that is left is
  well formed again.\<close>

theorem reader_total:
  assumes "bufOk b" "length cl = 64"
  shows "\<exists>b' asserted f. baseGetFrame cl passed b = Inr (b', asserted, f) \<and> bufOk b'"
proof -
  note R = reader_refines_stream [OF assms(1), of cl passed]
  obtain r0 where r0: "listGetFrame cl passed (flag_found b) (bufContents b) = Inr r0"
    using listGetFrame_total [OF assms(2)] by blast
  obtain r where "baseGetFrame cl passed b = Inr r"
  proof (cases "baseGetFrame cl passed b")
    case (Inl e)
    then show thesis using R r0 by simp
  qed
  with reader_refines_stream [OF assms(1), of cl passed] show ?thesis by (cases r) auto
qed

lemma reader_total_witness:
  "\<exists>b' asserted f. baseGetFrame (map sampleChannel [0..<64]) 0 gsm0710_buffer_init = Inr (b', asserted, f) \<and> bufOk b'"
  by (rule reader_total [OF init_ok(1)]) simp

text \<open>What the refinement says of a whole buffer.\<close>

lemma get_from_contents:
  assumes "bufOk b" "listGetFrame cl passed (flag_found b) (bufContents b) = Inr (flag', ys, asserted, f)"
  shows "\<exists>b'. baseGetFrame cl passed b = Inr (b', asserted, f) \<and> bufOk b' \<and> flag_found b' = flag' \<and> bufContents b' = ys"
  using reader_refines_stream [OF assms(1), of cl passed] assms(2)
  by (cases "baseGetFrame cl passed b") auto

text \<open>C35. Without the build option for 64 channels the table has 32 entries, but the address of a received frame has six
  bits and is not checked: a flag, an address octet of 128 or more that is not itself a flag, and any three octets make
  the reader access memory behind the table.\<close>

theorem address_behind_table:
  assumes "bufOk b" "\<not> flag_found b" "length cl = 32" "128 \<le> unat addr" "addr \<noteq> GSM0710_FRAME_FLAG"
    and "bufContents b = GSM0710_FRAME_FLAG # addr # x # y # z # w # xs"
  shows "baseGetFrame cl passed b = Inl OutOfBounds"
proof -
  have ge: "32 \<le> uint (GSM0710_DECODE_ADDRESS addr)"
  proof -
    have "GSM0710_DECODE_ADDRESS addr = drop_bit 2 addr"
      by (rule bit_word_eqI) (auto simp: GSM0710_DECODE_ADDRESS_def bit_simps less_Suc_eq numeral_eq_Suc dest: bit_imp_le_length)
    then have "uint (GSM0710_DECODE_ADDRESS addr) = uint addr div 4"
      by (simp add: drop_bit_eq_div uint_div_distrib)
    moreover have "128 \<le> int (unat addr)" using assms(4) by linarith
    moreover from this have "128 \<le> uint addr" by simp
    ultimately show ?thesis by linarith
  qed
  have rd: "rd cl (uint (GSM0710_DECODE_ADDRESS addr)) = Inl OutOfBounds" using ge assms(3) by (simp add: rd_def)
  have after: "afterFlag False (bufContents b) = addr # x # y # z # w # xs"
    using assms(5) by (simp add: assms(6) afterFlag_frame)
  have "listAttempt cl (addr # x # y # z # w # xs) = Inl OutOfBounds"
    by (simp add: listAttempt_def rd Let_def)
  then have "listGetFrame cl passed False (bufContents b) = Inl OutOfBounds"
    by (subst listGetFrame.simps) (simp add: Let_def after, simp add: assms(6))
  then show ?thesis using reader_refines_stream [OF assms(1), of cl passed] assms(2)
    by (cases "baseGetFrame cl passed b") auto
qed

lemma bufInit_write:
  assumes "length xs \<le> GSM0710_BUFFER_SIZE"
  shows "\<exists>b. bufOk b \<and> bufContents b = xs \<and> \<not> flag_found b \<and> \<not> input_sleeping b \<and> \<not> bufferready b \<and>
    gsm0710_buffer_write gsm0710_buffer_init xs = Inr (b, length xs)"
proof -
  from bufWrite_ok [OF init_ok(1), of xs] obtain b where b:
    "gsm0710_buffer_write gsm0710_buffer_init xs = Inr (b, length xs)" "bufOk b" "bufContents b = xs"
    "b = gsm0710_buffer_init\<lparr>buf_data := buf_data b, writep := writep b, datacount := datacount b, newdataready := True\<rparr>"
    using assms by (auto simp: init_ok)
  have "\<not> flag_found b" by (subst b(4)) (simp add: gsm0710_buffer_init_def)
  moreover have "\<not> input_sleeping b" by (subst b(4)) (simp add: gsm0710_buffer_init_def)
  moreover have "\<not> bufferready b" by (subst b(4)) (simp add: gsm0710_buffer_init_def)
  ultimately show ?thesis using b(1-3) by blast
qed

lemma address_behind_table_witness:
  "\<exists>b. gsm0710_buffer_write gsm0710_buffer_init [0xF9, 0x83, 0xEF, 0x01, 0, 0] = Inr (b, 6) \<and>
    baseGetFrame (map sampleChannel [0..<32]) 0 b = Inl OutOfBounds"
proof -
  obtain b where b: "bufOk b" "bufContents b = [0xF9, 0x83, 0xEF, 0x01, 0, 0]" "\<not> flag_found b"
    "gsm0710_buffer_write gsm0710_buffer_init [0xF9, 0x83, 0xEF, 0x01, 0, 0] = Inr (b, 6)"
    using bufInit_write [of "[0xF9, 0x83, 0xEF, 0x01, 0, 0]"] by (auto simp: GSM0710_BUFFER_SIZE_def)
  then have "baseGetFrame (map sampleChannel [0..<32]) 0 b = Inl OutOfBounds"
    by (intro address_behind_table [of b _ "0x83" "0xEF" "0x01" 0 0 "[]"]) (simp_all add: GSM0710_FRAME_FLAG_def)
  with b(4) show ?thesis by blast
qed

section \<open>Damaged frames\<close>

text \<open>A frame as it comes from the line: its octets may have been damaged, but for the flag that opens it and its
  length. It is not a good one: its check fails, or it does not end with a flag.\<close>

record line_frame =
  lf_address :: byte
  lf_control :: byte
  lf_data :: "byte list"
  lf_check :: byte
  lf_close :: byte

definition damagedFrame :: "line_frame \<Rightarrow> byte list" where
  "damagedFrame d = GSM0710_FRAME_FLAG # lf_address d # lf_control d # frameLength (length (lf_data d)) @ lf_data d
     @ [lf_check d, lf_close d]"

text \<open>The check of the reader covers the header and, in a UI frame, the data.\<close>

definition lineCheck :: "line_frame \<Rightarrow> byte" where
  "lineCheck d = crc_run 0xFF (lf_address d # lf_control d # frameLength (length (lf_data d))
     @ (if GSM0710_FRAME_IS GSM0710_TYPE_UI (lf_control d) then lf_data d else []))"

text \<open>The address is not a flag, it names a channel of the table, and the channel may receive frames of this length.\<close>

definition okDamaged :: "gsm_channel list \<Rightarrow> line_frame \<Rightarrow> bool" where
  "okDamaged cl d \<longleftrightarrow> lf_address d \<noteq> GSM0710_FRAME_FLAG \<and> unat (GSM0710_DECODE_ADDRESS (lf_address d)) < length cl \<and>
     length (lf_data d) \<le> 32767 \<and>
     length (lf_data d) \<le> negotiated_N1 (cl ! unat (GSM0710_DECODE_ADDRESS (lf_address d))) \<and>
     \<not> (fcs_ok (lineCheck d) (lf_check d) \<and> lf_close d = GSM0710_FRAME_FLAG)"

lemma attempt_damaged:
  assumes "okDamaged cl d"
  shows "listAttempt cl (tl (damagedFrame d) @ rest) = Inr (LDrop (lf_close d # rest))"
proof -
  let ?n = "length (lf_data d)"
  let ?ch = "GSM0710_DECODE_ADDRESS (lf_address d)"
  let ?h = "lf_address d # lf_control d # frameLength ?n"
  have ok: "unat ?ch < length cl" "?n \<le> 32767" "?n \<le> negotiated_N1 (cl ! unat ?ch)"
    using assms by (auto simp: okDamaged_def)
  have xs: "tl (damagedFrame d) @ rest =
      lf_address d # lf_control d # frameLength ?n @ lf_data d @ lf_check d # lf_close d # rest"
    by (simp add: damagedFrame_def)
  obtain l where h: "listHeader (tl (damagedFrame d) @ rest) =
      Some (lf_address d, lf_control d, ?n, crc_run 0xFF ?h, l, lf_data d @ lf_check d # lf_close d # rest)"
    using listHeader_written [OF ok(2)] unfolding xs by blast
  have len: "5 \<le> length (tl (damagedFrame d) @ rest)" unfolding xs by (simp add: frameLength_def)
  have rd: "rd cl (uint ?ch) = Inr (cl ! unat ?ch)"
    using ok(1) by (simp only: rd_def uint_nat nat_int of_nat_0_le_iff of_nat_less_iff simp_thms if_True)
  have check: "lineCheck d = (if GSM0710_FRAME_IS GSM0710_TYPE_UI (lf_control d)
      then crc_run (crc_run 0xFF ?h) (lf_data d) else crc_run 0xFF ?h)"
    by (cases "GSM0710_FRAME_IS GSM0710_TYPE_UI (lf_control d)")
      (simp_all only: lineCheck_def crc_run_append append_Cons [symmetric] append_Nil2 if_True if_False)
  show ?thesis
    using assms len ok(3) by (auto simp: listAttempt_def h rd listTail_def okDamaged_def check simp del: crc_run_Cons)
qed

text \<open>Frames that are damaged in this sense: up to three flipped bits in the address, the control octet and the check of
  a written frame.\<close>

lemma flipped_frame_damaged:
  assumes "distinct ks" "0 < length ks" "length ks \<le> 3" "length xs \<le> 32767"
    and "hdr = frameAddress n # control # frameLength (length xs)" "\<forall>k \<in> set ks. k < 8 * (length hdr + 1)"
    and "flip_bits ks (hdr @ [frame_calc_crc hdr]) = (a # c # frameLength (length xs)) @ [x]"
    and "a \<noteq> GSM0710_FRAME_FLAG" "unat (GSM0710_DECODE_ADDRESS a) < length cl" "\<not> GSM0710_FRAME_IS GSM0710_TYPE_UI c"
    and "length xs \<le> negotiated_N1 (cl ! unat (GSM0710_DECODE_ADDRESS a))"
  shows "okDamaged cl \<lparr>lf_address = a, lf_control = c, lf_data = xs, lf_check = x, lf_close = GSM0710_FRAME_FLAG\<rparr>"
proof -
  have "length hdr \<le> 4" by (simp add: assms(5) frameLength_def)
  then have "\<not> fcs_ok (crc_run 0xFF (a # c # frameLength (length xs))) x"
    using assms(1-3,6,7) by (intro flips_fail_check [of hdr "frame_calc_crc hdr" ks]) (simp_all only: frame_calc_crc_ok)
  then show ?thesis using assms(4,8-11) by (simp add: okDamaged_def lineCheck_def del: crc_run_Cons)
qed

lemma leading_octet:
  "listGetFrame cl passed False (x # GSM0710_FRAME_FLAG # xs) =
   listGetFrame cl passed False (GSM0710_FRAME_FLAG # xs)"
proof -
  have "afterFlag False (x # GSM0710_FRAME_FLAG # xs) = afterFlag False (GSM0710_FRAME_FLAG # xs)"
    by (simp add: afterFlag_def)
  then show ?thesis by (simp add: listGetFrame.simps [of cl passed False "x # GSM0710_FRAME_FLAG # xs"]
      listGetFrame.simps [of cl passed False "GSM0710_FRAME_FLAG # xs"])
qed

lemma after_written:
  "afterFlag False (encFrame f @ rest) = tl (encFrame f) @ rest"
  "lf_address d \<noteq> GSM0710_FRAME_FLAG \<Longrightarrow> afterFlag False (damagedFrame d @ rest) = tl (damagedFrame d) @ rest"
  by (simp_all add: afterFlag_def encFrame_def basicFrame_def damagedFrame_def framePrefix_def frameAddress_not_flag)

definition damagedStream :: "line_frame list \<Rightarrow> byte list" where
  "damagedStream ds = concat (map damagedFrame ds)"

lemma resync_stream:
  "passed \<le> MAX_RESYNC_GET_FRAME_COUNT \<Longrightarrow> \<forall>d \<in> set ds. okDamaged cl d \<Longrightarrow> okFrame cl f \<Longrightarrow>
   listGetFrame cl passed False (damagedStream ds @ encFrame f @ rest) =
     Inr (False, rest, MAX_RESYNC_GET_FRAME_COUNT \<le> passed + length ds, Some f)"
proof (induction ds arbitrary: passed)
  case Nil
  have "GSM0710_FRAME_FLAG \<in> set (encFrame f)" by (simp add: encFrame_def basicFrame_def framePrefix_def)
  then show ?case using attempt_complete [OF Nil(3), of rest]
    by (simp add: damagedStream_def listGetFrame.simps [of cl passed False] after_written not_less)
next
  case (Cons d ds)
  let ?rest = "damagedStream ds @ encFrame f @ rest"
  define depth where "depth = Suc (if passed < MAX_RESYNC_GET_FRAME_COUNT then passed else 0)"
  have depth: "depth \<le> MAX_RESYNC_GET_FRAME_COUNT" by (auto simp: depth_def MAX_RESYNC_GET_FRAME_COUNT_def)
  have stream: "damagedStream (d # ds) @ encFrame f @ rest = damagedFrame d @ ?rest" by (simp add: damagedStream_def)
  have flag: "GSM0710_FRAME_FLAG \<in> set (damagedFrame d @ ?rest)" by (simp add: damagedFrame_def)
  have ok: "okDamaged cl d" "lf_address d \<noteq> GSM0710_FRAME_FLAG" using Cons.prems(2) by (auto simp: okDamaged_def)
  obtain t where t: "?rest = GSM0710_FRAME_FLAG # t"
    by (cases ds) (auto simp: damagedStream_def damagedFrame_def encFrame_def basicFrame_def framePrefix_def)
  have "listGetFrame cl depth False (lf_close d # ?rest) =
      Inr (False, rest, MAX_RESYNC_GET_FRAME_COUNT \<le> depth + length ds, Some f)"
    using Cons.IH [OF depth] Cons.prems(2,3) leading_octet [of cl depth "lf_close d" t] by (simp add: t)
  then have "listGetFrame cl passed False (damagedFrame d @ ?rest) = Inr (False, rest,
      \<not> passed < MAX_RESYNC_GET_FRAME_COUNT \<or> MAX_RESYNC_GET_FRAME_COUNT \<le> depth + length ds, Some f)"
    using flag attempt_damaged [OF ok(1), of ?rest]
    by (simp add: listGetFrame.simps [of cl passed False "damagedFrame d @ ?rest"] after_written(2) [OF ok(2)]
        flip: depth_def)
  then show ?case unfolding stream using Cons.prems(1) by (auto simp: depth_def)
qed

text \<open>C20. Damaged frames do not take good ones with them as long as their length and the flag that opens them arrive
  intact, but three of them end the daemon. If any number of frames lie before a good one, each with any address
  (of a channel that may receive as much), control octet, data, check and closing octet such that its check fails or
  it does not end with a flag, one call drops them all and returns the good frame, with everything behind it
  left in the buffer; and it has asked the main loop to end the daemon exactly if there were three or more, although the limit
  is meant to bound the recursion, which goes on with its depth at zero. A damaged length is not covered: the reader
  believes it, and what follows may be taken for data of the damaged frame.\<close>

theorem damaged_frames_dropped:
  assumes "bufOk b" "\<not> flag_found b" "\<forall>d \<in> set ds. okDamaged cl d" "okFrame cl f"
    and "bufContents b = damagedStream ds @ encFrame f @ rest"
  shows "\<exists>b'. baseGetFrame cl 0 b = Inr (b', 3 \<le> length ds, Some f) \<and> bufOk b' \<and> bufContents b' = rest"
  using get_from_contents [OF assms(1), of cl 0] resync_stream [of 0 ds cl f rest] assms(2-5)
  by (fastforce simp: MAX_RESYNC_GET_FRAME_COUNT_def)

text \<open>Three frames: the channel, the control octet (a UI frame with data) and the closing flag are damaged.\<close>

definition sampleDamaged :: "line_frame list" where
  "sampleDamaged =
    [\<lparr>lf_address = 11, lf_control = 239, lf_data = [0x41], lf_check = frame_calc_crc [7, 239, 3], lf_close = GSM0710_FRAME_FLAG\<rparr>,
     \<lparr>lf_address = 7, lf_control = 3, lf_data = [0x42], lf_check = frame_calc_crc [7, 239, 3], lf_close = GSM0710_FRAME_FLAG\<rparr>,
     \<lparr>lf_address = 7, lf_control = 239, lf_data = [0x43], lf_check = frame_calc_crc [7, 239, 3], lf_close = 0\<rparr>]"

lemma sampleDamaged_ok: "\<forall>d \<in> set sampleDamaged. okDamaged (map sampleChannel [0..<32]) d"
proof -
  have "frame_calc_crc [7, 239, 3] \<noteq> frame_calc_crc [11, 239, 3]"
    "frame_calc_crc [7, 239, 3] \<noteq> frame_calc_crc [7, 3, 3, 0x42]"
    by (simp_all add: frame_calc_crc_def crc_step_octet crc_octet_unfold crc_bit_def)
  then show ?thesis
    by (simp add: sampleDamaged_def okDamaged_def lineCheck_def frame_calc_crc_ok GSM0710_FRAME_FLAG_def
        GSM0710_DECODE_ADDRESS_def frameLength_def sampleChannel_def GSM0710_FRAME_IS_def mux_simps del: crc_run_Cons upt_Suc)
qed

lemma damaged_frames_dropped_witness:
  "\<exists>b b'. bufContents b = damagedStream sampleDamaged @ encFrame (dataFrame 1 [0x44]) @ [] \<and>
    baseGetFrame (map sampleChannel [0..<32]) 0 b = Inr (b', 3 \<le> length sampleDamaged, Some (dataFrame 1 [0x44]))"
proof -
  let ?xs = "damagedStream sampleDamaged @ encFrame (dataFrame 1 [0x44]) @ []"
  have ok: "okFrame (map sampleChannel [0..<32]) (dataFrame 1 [0x44])"
    by (simp add: okFrame_def dataFrame_def sampleChannel_def GSM0710_FRAME_IS_def mux_simps del: upt_Suc)
  have "length ?xs \<le> GSM0710_BUFFER_SIZE"
    by (simp add: sampleDamaged_def damagedStream_def damagedFrame_def encFrame_def basicFrame_def framePrefix_def
        framePostfix_def dataFrame_def frameLength_def GSM0710_BUFFER_SIZE_def)
  from bufInit_write [OF this] obtain b where b: "bufOk b" "bufContents b = ?xs" "\<not> flag_found b" by blast
  from damaged_frames_dropped [OF b(1,3) sampleDamaged_ok ok b(2)] b(2) show ?thesis by blast
qed

section \<open>A flag that ends one frame and opens the next\<close>

lemma shared_flag_stream:
  assumes "okFrame cl f" "okFrame cl g" "GSM0710_FRAME_FLAG \<notin> set (butlast (tl (encFrame g)))"
  shows "listGetFrame cl 0 False (encFrame f @ tl (encFrame g)) = Inr (False, tl (encFrame g), False, Some f)"
    "listGetFrame cl 0 False (tl (encFrame g)) = Inr (True, [], False, None)"
proof -
  have "GSM0710_FRAME_FLAG \<in> set (encFrame f)" by (simp add: encFrame_def basicFrame_def framePrefix_def)
  then show "listGetFrame cl 0 False (encFrame f @ tl (encFrame g)) = Inr (False, tl (encFrame g), False, Some f)"
    using attempt_complete [OF assms(1), of "tl (encFrame g)"]
    by (simp add: listGetFrame.simps [of cl 0 False] after_written MAX_RESYNC_GET_FRAME_COUNT_def)
  define t where "t = butlast (tl (encFrame g))"
  have t: "tl (encFrame g) = t @ [GSM0710_FRAME_FLAG]"
    unfolding t_def by (subst append_butlast_last_id [symmetric]) (simp_all add: encFrame_tail)
  have "\<forall>x \<in> set t. x \<noteq> GSM0710_FRAME_FLAG" using assms(3) by (auto simp: t_def)
  then have "afterFlag False (t @ [GSM0710_FRAME_FLAG]) = []"
    by (simp add: afterFlag_def dropWhile_append2)
  then show "listGetFrame cl 0 False (tl (encFrame g)) = Inr (True, [], False, None)"
    by (simp add: t listGetFrame.simps [of cl 0 False] listAttempt_def MAX_RESYNC_GET_FRAME_COUNT_def)
qed

text \<open>A peer that lets the closing flag of a frame open the next one loses every second frame: the reader takes the
  flag with the first frame, so it skips the second one as if it were noise, up to the flag at its end.\<close>

theorem shared_flag_loses_frame:
  assumes "bufOk b" "\<not> flag_found b" "okFrame cl f" "okFrame cl g"
    and "GSM0710_FRAME_FLAG \<notin> set (butlast (tl (encFrame g)))" "bufContents b = encFrame f @ tl (encFrame g)"
  shows "\<exists>b'. drainFrames cl b = Inr (b', [f]) \<and> bufContents b' = [] \<and> flag_found b'"
proof -
  note S = shared_flag_stream [OF assms(3-5)]
  from get_from_contents [OF assms(1)] S(1) assms(2,6) obtain b1 where
    b1: "baseGetFrame cl 0 b = Inr (b1, False, Some f)" "bufOk b1" "\<not> flag_found b1" "bufContents b1 = tl (encFrame g)"
    by fastforce
  from get_from_contents [of "signalSleeper b1" cl 0] S(2) b1(2-4) obtain b2 where
    b2: "baseGetFrame cl 0 (signalSleeper b1) = Inr (b2, False, None)" "flag_found b2" "bufContents b2 = []"
    by fastforce
  then show ?thesis
    by (simp add: drainFrames.simps [of cl b] drainFrames.simps [of cl "signalSleeper b1"] b1(1))
qed

lemma shared_flag_loses_frame_witness:
  "\<exists>b b'. bufContents b = encFrame (dataFrame 1 [0x41]) @ tl (encFrame (dataFrame 2 [0x42])) \<and>
    drainFrames (map sampleChannel [0..<32]) b = Inr (b', [dataFrame 1 [0x41]])"
proof -
  let ?xs = "encFrame (dataFrame 1 [0x41]) @ tl (encFrame (dataFrame 2 [0x42]))"
  have "length ?xs \<le> GSM0710_BUFFER_SIZE"
    by (simp add: encFrame_def basicFrame_def framePrefix_def framePostfix_def dataFrame_def frameLength_def
        GSM0710_BUFFER_SIZE_def)
  from bufInit_write [OF this] obtain b where b: "bufOk b" "bufContents b = ?xs" "\<not> flag_found b" by blast
  have ok: "okFrame (map sampleChannel [0..<32]) (dataFrame n [y])" if "n < 32" for n y
    using that by (simp add: okFrame_def dataFrame_def sampleChannel_def GSM0710_FRAME_IS_def mux_simps unat_of_nat del: upt_Suc)
  have "frame_calc_crc [11, 239, 3] \<noteq> GSM0710_FRAME_FLAG"
    by (simp add: frame_calc_crc_def crc_step_octet crc_octet_unfold crc_bit_def mux_simps)
  then have "GSM0710_FRAME_FLAG \<notin> set (butlast (tl (encFrame (dataFrame 2 [0x42]))))"
    by (simp add: encFrame_def basicFrame_def framePrefix_def framePostfix_def dataFrame_def frameLength_def
        frameAddress_def mux_simps)
  from shared_flag_loses_frame [OF b(1,3) ok ok this b(2)] b(2) show ?thesis by auto
qed

section \<open>A reading thread that is never woken\<close>

text \<open>The state after 4096 octets without a frame: all are gone but an opening flag and one octet, and nobody was
  signalled.\<close>

definition stuck :: "byte list \<Rightarrow> rx_state \<Rightarrow> bool" where
  "stuck dev r \<longleftrightarrow> bufOk (rx_buf r) \<and> input_sleeping (rx_buf r) \<and> \<not> bufferready (rx_buf r) \<and> flag_found (rx_buf r) \<and>
     bufContents (rx_buf r) = [3] \<and> rx_dev r = dev \<and> rx_got r = []"

lemma findFlag_sleeping:
  "findFlag adv flag b = Inr b' \<Longrightarrow> input_sleeping b' = input_sleeping b \<and> bufferready b' = bufferready b"
proof (induction adv flag b rule: findFlag.induct)
  case (1 adv flag b)
  show ?case
  proof (cases "\<not> flag_found b \<and> datacount b > 0")
    case True
    with 1(2) obtain x where x: "bufPeek b = Inr x"
      and r: "findFlag adv flag (bufInc (if x = flag then foundFlag adv b else b)) = Inr b'"
      by (subst (asm) findFlag.simps) (auto simp: res_simps)
    from 1(1) [OF True x r] show ?thesis by (simp add: foundFlag_def split: if_splits)
  qed (use 1(2) in \<open>auto simp: findFlag.simps [of adv flag b] split: if_splits\<close>)
qed

lemma skipFlags_sleeping:
  "skipFlags flag b = Inr b' \<Longrightarrow> input_sleeping b' = input_sleeping b \<and> bufferready b' = bufferready b"
proof (induction flag b rule: skipFlags.induct)
  case (1 flag b)
  show ?case
  proof (cases "datacount b > 0 \<and> bufPeek b = Inr flag")
    case True
    with 1(2) have "skipFlags flag (bufInc b) = Inr b'" by (simp add: skipFlags.simps [of flag b])
    from 1(1) [OF _ _ _ this] True show ?thesis by simp
  next
    case False
    with 1(2) show ?thesis by (auto simp: skipFlags.simps [of flag b] res_simps split: if_splits)
  qed
qed

text \<open>Where no frame is complete and a flag was found, the condition is not signalled.\<close>

lemma get_without_signal:
  "baseGetFrame cl passed b = Inr (b', asserted, None) \<Longrightarrow> flag_found b' \<Longrightarrow>
   input_sleeping b' = input_sleeping b \<and> bufferready b' = bufferready b"
proof (induction "datacount b" arbitrary: passed b asserted rule: less_induct)
  case less
  note L = less.prems(1) [unfolded baseGetFrame.simps [of cl passed b]]
  from L obtain b1 where b1: "findFlag False GSM0710_FRAME_FLAG b = Inr b1"
    by (auto simp: Let_def res_simps)
  have fl: "flag_found b1" using L b1 less.prems(2) by (auto simp: signalSleeper_def Let_def split: if_splits)
  with L b1 obtain b2 a where b2: "skipFlags GSM0710_FRAME_FLAG b1 = Inr b2" "baseAttempt cl b2 = Inr a"
    by (auto simp: Let_def res_simps)
  have keep: "input_sleeping b2 = input_sleeping b" "bufferready b2 = bufferready b"
    using findFlag_sleeping [OF b1] skipFlags_sleeping [OF b2(1)] by simp_all
  show ?case
  proof (cases a)
    case Incomplete
    then have "b' = b2" using L b1 b2 fl by (simp add: Let_def)
    then show ?thesis using keep by simp
  next
    case (Complete c g)
    then show ?thesis using L b1 b2 fl by (simp add: Let_def)
  next
    case (Drop c)
    let ?b = "(commitCursor b2 c)\<lparr>dropped_count := dropped_count b2 + 1\<rparr>"
    have "snd c < datacount b2" using b2(2) Drop baseAttempt_drop by blast
    moreover have "datacount b2 \<le> datacount b"
      using findFlag_datacount [OF b1] skipFlags_datacount [OF b2(1)] by linarith
    ultimately have "datacount ?b < datacount b" by (simp add: commitCursor_datacount)
    moreover obtain d asserted' where "baseGetFrame cl d ?b = Inr (b', asserted', None)"
      using L b1 b2 fl Drop by (auto simp: Let_def res_simps)
    ultimately have "input_sleeping b' = input_sleeping ?b \<and> bufferready b' = bufferready ?b"
      using less.hyps less.prems(2) by blast
    then show ?thesis using keep by (simp add: commitCursor_def)
  qed
qed

lemma drain_without_frame:
  assumes "bufOk b" "listGetFrame cl 0 (flag_found b) (bufContents b) = Inr (True, ys, False, None)"
  shows "\<exists>b'. drainFrames cl b = Inr (b', []) \<and> bufOk b' \<and> flag_found b' \<and> bufContents b' = ys \<and>
    input_sleeping b' = input_sleeping b \<and> bufferready b' = bufferready b"
proof -
  from get_from_contents [OF assms] obtain b' where
    b': "baseGetFrame cl 0 b = Inr (b', False, None)" "bufOk b'" "flag_found b'" "bufContents b' = ys" by auto
  then show ?thesis using get_without_signal [OF b'(1,3)] by (simp add: drainFrames.simps [of cl b])
qed

lemma stuck_stays: "stuck dev r \<Longrightarrow> \<exists>r'. rxStep cl e r = Inr r' \<and> stuck dev r'"
proof (cases e)
  case ExtractFrames
  assume s: "stuck dev r"
  have "afterFlag True [3] = [3]" by (simp add: afterFlag_def mux_simps)
  then have "listGetFrame cl 0 True [3] = Inr (True, [3], False, None)"
    by (simp add: listGetFrame.simps [of cl 0 True] listAttempt_def MAX_RESYNC_GET_FRAME_COUNT_def)
  then obtain b' where "drainFrames cl (rx_buf r) = Inr (b', [])" "bufOk b'" "flag_found b'" "bufContents b' = [3]"
    "input_sleeping b' = input_sleeping (rx_buf r)" "bufferready b' = bufferready (rx_buf r)"
    using drain_without_frame [of "rx_buf r" cl "[3]"] s by (auto simp: stuck_def)
  then show ?thesis using s ExtractFrames by (simp add: stuck_def)
qed (simp_all add: stuck_def readerAwakes_def)

lemma stuck_forever: "stuck dev r \<Longrightarrow> \<exists>r'. rxRun cl es r = Inr r' \<and> stuck dev r'"
proof (induction es arbitrary: r)
  case (Cons e es)
  from stuck_stays [OF Cons.prems, of cl e] Cons.IH show ?case by auto
qed simp

text \<open>C34. The reading thread can sleep for good. If 4096 octets fill the buffer and hold no flag before the last but one,
  the thread goes to sleep, the assembler throws the noise away but does not signal, because it found a flag, and from
  then on no schedule of the two threads reads another octet: whatever the modem sends stays in the device, with
  4095 octets of the buffer free. (Wake-ups of the condition that no thread signalled are left out.)\<close>

theorem reader_sleeps_forever:
  "\<exists>r. rxRun cl ([ReadSerial 4096, ReadSerial n, ExtractFrames] @ es) (rxStart (replicate 4094 0 @ [0xF9, 3] @ dev)) = Inr r \<and>
    rx_dev r = dev \<and> rx_got r = [] \<and> input_sleeping (rx_buf r) \<and> gsm0710_buffer_free (rx_buf r) = 4095"
proof -
  let ?noise = "replicate 4094 0 @ [0xF9, 3] :: byte list"
  have len: "length ?noise = 4096" by simp
  obtain b where b: "bufOk b" "bufContents b = ?noise" "\<not> flag_found b" "\<not> bufferready b" "\<not> input_sleeping b"
    "gsm0710_buffer_write gsm0710_buffer_init ?noise = Inr (b, 4096)"
    using bufInit_write [of ?noise] len by (auto simp: GSM0710_BUFFER_SIZE_def)
  have tk: "take 4096 (?noise @ dev) = ?noise" "drop 4096 (?noise @ dev) = dev"
    using len by (simp_all only: take_append drop_append) simp_all
  have "thread_serial_device_read gsm0710_buffer_init (?noise @ dev) 4096 = Inr (b, dev)"
    unfolding thread_serial_device_read_def init_ok(3) GSM0710_BUFFER_SIZE_def Let_def min.idem tk
    by (simp only: b(6)) simp
  then have 1: "rxStep cl (ReadSerial 4096) (rxStart (?noise @ dev)) = Inr \<lparr>rx_buf = b, rx_dev = dev, rx_got = []\<rparr>"
    by (simp add: rxStart_def) (simp add: gsm0710_buffer_init_def)
  have full: "gsm0710_buffer_free b = 0"
    using length_bufContents [of b] b(2) len by (simp add: gsm0710_buffer_free_def GSM0710_BUFFER_SIZE_def)
  let ?c = "b\<lparr>input_sleeping := True\<rparr>"
  have 2: "rxStep cl (ReadSerial n) \<lparr>rx_buf = b, rx_dev = dev, rx_got = []\<rparr> = Inr \<lparr>rx_buf = ?c, rx_dev = dev, rx_got = []\<rparr>"
    using b(5) full by (simp add: thread_serial_device_read_def)
  have c: "bufOk ?c" "bufContents ?c = ?noise" "\<not> flag_found ?c"
    using b(1-3) by (simp_all add: bufOk_def bufContents_def bufCursor_def)
  have "afterFlag False ?noise = [3]"
    unfolding afterFlag_def by (subst dropWhile_append2) (auto simp: mux_simps)
  then have "listGetFrame cl 0 False ?noise = Inr (True, [3], False, None)"
    by (simp add: listGetFrame.simps [of cl 0 False] listAttempt_def MAX_RESYNC_GET_FRAME_COUNT_def mux_simps)
  then obtain d where d: "drainFrames cl ?c = Inr (d, [])" "bufOk d" "flag_found d" "bufContents d = [3]"
    "input_sleeping d" "\<not> bufferready d"
    using drain_without_frame [of ?c cl "[3]"] c b(4) by auto
  have 3: "rxStep cl ExtractFrames \<lparr>rx_buf = ?c, rx_dev = dev, rx_got = []\<rparr> = Inr \<lparr>rx_buf = d, rx_dev = dev, rx_got = []\<rparr>"
    by (simp add: d(1))
  have "stuck dev \<lparr>rx_buf = d, rx_dev = dev, rx_got = []\<rparr>" using d by (simp add: stuck_def)
  from stuck_forever [OF this, of cl es] obtain r where
    r: "rxRun cl es \<lparr>rx_buf = d, rx_dev = dev, rx_got = []\<rparr> = Inr r" "stuck dev r" by blast
  have "rxRun cl ([ReadSerial 4096, ReadSerial n, ExtractFrames] @ es) (rxStart (?noise @ dev)) = Inr r"
    using r(1) 1 2 3 by (simp del: rxStep.simps append.simps add: append_Cons append_Nil)
  moreover have "gsm0710_buffer_free (rx_buf r) = 4095"
    using r(2) length_bufContents [of "rx_buf r"] by (simp add: stuck_def gsm0710_buffer_free_def GSM0710_BUFFER_SIZE_def)
  ultimately show ?thesis using r(2) by (auto simp: stuck_def)
qed

end
