(* ===== verification/MuxFrameList.thy ===== *)
theory MuxFrameList
  imports MuxWrite "HOL-Library.AList"
begin

text \<open>
  The list of frames of the flow control (\<open>gsm0710muxd_fc.c\<close>, \<open>_fl_init\<close> to \<open>_fl_isEmpty\<close>): a circular linked list with a
  node that holds no frame. The store has the nodes that are allocated, by address; address 0 is the null pointer. Following
  it, or the address of a node that was freed, is a fault. The results of \<open>calloc\<close> are the list \<open>fl_oom\<close>,
  one element for every call; a call behind its end succeeds.

  \<open>flHolds\<close> relates a list in the store to the frames it stands for. The interface \<open>frame_queue\<close> is what the flow control
  relies on: frames come out in the order they went in.
\<close>

record fl_node =
  fl_next :: nat
  fl_frame :: "gsm_frame option"

record fl_store =
  fl_cells :: "(nat \<times> fl_node) list"
  fl_fresh :: nat
  fl_oom :: "bool list"

definition flRead :: "fl_store \<Rightarrow> nat \<Rightarrow> fl_node res" where
  "flRead st p = (if p = 0 then Inl NullPointer
     else case map_of (fl_cells st) p of None \<Rightarrow> Inl UseAfterFree | Some n \<Rightarrow> Inr n)"

definition flWrite :: "fl_store \<Rightarrow> nat \<Rightarrow> fl_node \<Rightarrow> fl_store res" where
  "flWrite st p n = bnd (flRead st p) (\<lambda>_. Inr (st\<lparr>fl_cells := AList.update p n (fl_cells st)\<rparr>))"

definition flFree :: "fl_store \<Rightarrow> nat \<Rightarrow> fl_store res" where
  "flFree st p = bnd (flRead st p) (\<lambda>_. Inr (st\<lparr>fl_cells := AList.delete p (fl_cells st)\<rparr>))"

text \<open>\<open>calloc(1, sizeof(GSM0710_FrameList))\<close>\<close>

definition flCalloc :: "fl_store \<Rightarrow> fl_store \<times> nat" where
  "flCalloc st =
     (if fl_oom st \<noteq> [] \<and> \<not> hd (fl_oom st) then (st\<lparr>fl_oom := tl (fl_oom st)\<rparr>, 0)
      else (st\<lparr>fl_cells := AList.update (fl_fresh st) \<lparr>fl_next = 0, fl_frame = None\<rparr> (fl_cells st),
              fl_fresh := Suc (fl_fresh st), fl_oom := tl (fl_oom st)\<rparr>, fl_fresh st))"

section \<open>The operations\<close>

definition fl_isEmpty :: "fl_store \<Rightarrow> nat \<Rightarrow> bool res" where
  "fl_isEmpty st list = (if list = 0 then Inr True else bnd (flRead st list) (\<lambda>n. Inr (fl_next n = list)))"

definition fl_pushFrame :: "fl_store \<Rightarrow> nat \<Rightarrow> gsm_frame \<Rightarrow> (fl_store \<times> nat) res" where
  "fl_pushFrame st list frame = (case flCalloc st of (st, head) \<Rightarrow>
     if head \<noteq> 0
     then bnd (flRead st list) (\<lambda>l.
          bnd (flWrite st head l) (\<lambda>st.
          bnd (flWrite st list \<lparr>fl_next = head, fl_frame = Some frame\<rparr>) (\<lambda>st. Inr (st, head))))
     else Inr (st, head))"

definition fl_popFrame :: "fl_store \<Rightarrow> nat \<Rightarrow> (fl_store \<times> gsm_frame option) res" where
  "fl_popFrame st list =
     bnd (fl_isEmpty st list) (\<lambda>empty.
     if empty then Inr (st, None)
     else bnd (flRead st list) (\<lambda>l.
          bnd (flRead st (fl_next l)) (\<lambda>node.
          bnd (flWrite st list (l\<lparr>fl_next := fl_next node\<rparr>)) (\<lambda>st.
          bnd (flFree st (fl_next l)) (\<lambda>st. Inr (st, fl_frame node))))))"

lemma map_of_length_delete: "map_of al p = Some n \<Longrightarrow> length (AList.delete p al) < length al"
  by (induction al) (auto simp: AList.delete_eq intro: le_imp_less_Suc length_filter_le)

lemma length_update: "map_of al p = Some n \<Longrightarrow> length (AList.update p v al) = length al"
  by (induction al) auto

lemma flRead_Inr: "flRead st p = Inr n \<longleftrightarrow> p \<noteq> 0 \<and> map_of (fl_cells st) p = Some n"
  by (simp add: flRead_def split: option.splits)

lemma flWrite_length: "flWrite st p n = Inr st' \<Longrightarrow> length (fl_cells st') = length (fl_cells st)"
  by (auto simp: flWrite_def flRead_Inr res_simps length_update)

lemma flFree_length: "flFree st p = Inr st' \<Longrightarrow> length (fl_cells st') < length (fl_cells st)"
  by (auto simp: flFree_def flRead_Inr res_simps map_of_length_delete)

lemma fl_popFrame_shrinks:
  assumes "fl_popFrame st list = Inr (st', fo)" "fl_isEmpty st list = Inr False"
  shows "length (fl_cells st') < length (fl_cells st)"
proof -
  from assms obtain n p st1 where "flWrite st list n = Inr st1" "flFree st1 p = Inr st'"
    by (auto simp: fl_popFrame_def res_simps)
  then show ?thesis using flWrite_length flFree_length by fastforce
qed

text \<open>What is popped is destroyed.\<close>

function fl_cleanNodes :: "fl_store \<Rightarrow> nat \<Rightarrow> fl_store res" where
  "fl_cleanNodes st list =
     bnd (fl_isEmpty st list) (\<lambda>empty.
     if \<not> empty then bnd (fl_popFrame st list) (\<lambda>(st', frame). fl_cleanNodes st' list) else Inr st)"
  by pat_completeness auto
termination
  by (relation "measure (\<lambda>(st, p). length (fl_cells st))") (auto dest: fl_popFrame_shrinks)

declare fl_cleanNodes.simps [simp del]

definition fl_init :: "fl_store \<Rightarrow> nat \<Rightarrow> (fl_store \<times> nat) res" where
  "fl_init st list =
     (if list = 0 then (case flCalloc st of (st, head) \<Rightarrow>
        if head \<noteq> 0 then bnd (flRead st head) (\<lambda>n. bnd (flWrite st head (n\<lparr>fl_next := head\<rparr>)) (\<lambda>st. Inr (st, head)))
        else Inr (st, head))
      else bnd (fl_isEmpty st list) (\<lambda>empty.
        bnd (if \<not> empty then fl_cleanNodes st list else Inr st) (\<lambda>st. Inr (st, list))))"

definition fl_destroy :: "fl_store \<Rightarrow> nat \<Rightarrow> fl_store res" where
  "fl_destroy st list =
     (if list \<noteq> 0 then bnd (fl_isEmpty st list) (\<lambda>empty.
        bnd (if \<not> empty then fl_cleanNodes st list else Inr st) (\<lambda>st. flFree st list))
      else Inr st)"

section \<open>The frames a list stands for\<close>

text \<open>\<open>flChain m x as e fs\<close>: from address \<open>x\<close> the nodes at \<open>as\<close>, which hold \<open>fs\<close>, lead to \<open>e\<close>.\<close>

fun flChain :: "(nat \<rightharpoonup> fl_node) \<Rightarrow> nat \<Rightarrow> nat list \<Rightarrow> nat \<Rightarrow> gsm_frame list \<Rightarrow> bool" where
  "flChain m x [] e fs \<longleftrightarrow> x = e \<and> fs = []"
| "flChain m x (a # as) e fs \<longleftrightarrow> x = a \<and> a \<noteq> 0 \<and> (case (m a, fs) of
     (Some n, f # gs) \<Rightarrow> fl_frame n = Some f \<and> flChain m (fl_next n) as e gs | _ \<Rightarrow> False)"

text \<open>A list that nothing else shares the store with: the nodes are the head and those of the frames.\<close>

definition flNodes :: "fl_store \<Rightarrow> nat \<Rightarrow> nat list \<Rightarrow> gsm_frame list \<Rightarrow> bool" where
  "flNodes st p as fs \<longleftrightarrow> p \<noteq> 0 \<and> distinct (p # as) \<and> dom (map_of (fl_cells st)) = set (p # as) \<and>
     (\<forall>a \<in> set (p # as). a < fl_fresh st) \<and>
     (\<exists>n. map_of (fl_cells st) p = Some n \<and> flChain (map_of (fl_cells st)) (fl_next n) as p fs)"

definition flHolds :: "fl_store \<Rightarrow> nat \<Rightarrow> gsm_frame list \<Rightarrow> bool" where
  "flHolds st p fs \<longleftrightarrow> fl_oom st = [] \<and> (\<exists>as. flNodes st p as fs)"

lemma flChain_length: "flChain m x as e fs \<Longrightarrow> length as = length fs"
  by (induction as arbitrary: x fs) (auto split: option.splits list.splits)

lemma flChain_cong: "(\<And>a. a \<in> set as \<Longrightarrow> m a = m' a) \<Longrightarrow> flChain m x as e fs = flChain m' x as e fs"
  by (induction as arbitrary: x fs) (auto split: option.splits list.splits)

lemma flChain_snoc:
  "flChain m x (as @ [b]) e (fs @ [f]) \<longleftrightarrow>
   flChain m x as b fs \<and> b \<noteq> 0 \<and> (case m b of Some n \<Rightarrow> fl_frame n = Some f \<and> fl_next n = e | None \<Rightarrow> False)"
  if "length as = length fs"
  using that
proof (induction as arbitrary: x fs)
  case (Cons a as)
  then show ?case by (cases fs) (auto split: option.splits)
qed (auto split: option.splits)

lemma flChain_start: "flChain m x as e fs \<Longrightarrow> e \<notin> set as \<Longrightarrow> x = e \<longleftrightarrow> fs = []"
  by (cases as) (auto split: option.splits list.splits)

lemmas fl_store_simps = flRead_def flWrite_def flFree_def update_conv' delete_conv'

lemma fl_isEmpty_ok: "flNodes st p as fs \<Longrightarrow> fl_isEmpty st p = Inr (fs = [])"
  using flChain_start by (fastforce simp: flNodes_def fl_isEmpty_def flRead_def)

lemma fl_popFrame_ok:
  assumes "flNodes st p as fs"
  shows "\<exists>st'. fl_popFrame st p = Inr (st', case fs of [] \<Rightarrow> None | f # _ \<Rightarrow> Some f) \<and> flNodes st' p (tl as) (tl fs) \<and>
    fl_oom st' = fl_oom st \<and> fl_fresh st' = fl_fresh st"
proof (cases fs)
  case Nil
  then have "as = []" using assms by (auto simp: flNodes_def dest: flChain_length)
  then show ?thesis using assms fl_isEmpty_ok [OF assms] Nil by (simp add: fl_popFrame_def)
next
  case (Cons f gs)
  then obtain a bs where as: "as = a # bs" using assms by (cases as) (auto simp: flNodes_def dest: flChain_length)
  let ?m = "map_of (fl_cells st)"
  obtain n k where n: "?m p = Some n" "fl_next n = a" "a \<noteq> 0" "?m a = Some k" "fl_frame k = Some f"
    "flChain ?m (fl_next k) bs p gs"
    using assms by (auto simp: flNodes_def as Cons split: option.splits)
  have p: "p \<noteq> 0" "p \<noteq> a" "p \<notin> set bs" "a \<notin> set bs" "distinct bs" using assms by (auto simp: flNodes_def as)
  let ?st = "st\<lparr>fl_cells := AList.delete a (AList.update p (n\<lparr>fl_next := fl_next k\<rparr>) (fl_cells st))\<rparr>"
  have pop: "fl_popFrame st p = Inr (?st, Some f)"
    using fl_isEmpty_ok [OF assms] n p by (simp add: fl_popFrame_def fl_store_simps Cons)
  have eq: "map_of (fl_cells ?st) x = ?m x" if "x \<in> set bs" for x
    using that p by (auto simp: update_conv' delete_conv')
  have chain: "flChain (map_of (fl_cells ?st)) (fl_next k) bs p gs"
    using n(6) flChain_cong [of bs "map_of (fl_cells ?st)" ?m, OF eq] by blast
  have mp: "map_of (fl_cells ?st) p = Some (n\<lparr>fl_next := fl_next k\<rparr>)" using p by (simp add: update_conv' delete_conv')
  have "dom (map_of (fl_cells ?st)) = set (p # bs)"
    using assms p by (auto simp: flNodes_def as update_conv' delete_conv' split: if_splits)
  then have "flNodes ?st p bs gs"
    using assms p mp chain by (auto simp: flNodes_def as)
  then show ?thesis using pop as Cons by auto
qed


lemma fl_pushFrame_ok:
  assumes "flNodes st p as fs" "fl_oom st = []"
  shows "\<exists>st' p'. fl_pushFrame st p f = Inr (st', p') \<and> flNodes st' p' (as @ [p]) (fs @ [f]) \<and> fl_oom st' = []"
proof -
  let ?m = "map_of (fl_cells st)"
  let ?h = "fl_fresh st"
  obtain n where n: "?m p = Some n" "flChain ?m (fl_next n) as p fs" using assms(1) by (auto simp: flNodes_def)
  have p: "p \<noteq> 0" "p \<notin> set as" "distinct as" "p < ?h" "\<forall>a \<in> set as. a < ?h" "dom ?m = set (p # as)"
    using assms(1) by (auto simp: flNodes_def)
  have h: "?h \<noteq> 0" "?h \<noteq> p" "?h \<notin> set as" using p by auto
  let ?c = "AList.update ?h \<lparr>fl_next = 0, fl_frame = None\<rparr> (fl_cells st)"
  let ?cells = "AList.update p \<lparr>fl_next = ?h, fl_frame = Some f\<rparr> (AList.update ?h n ?c)"
  let ?st = "st\<lparr>fl_cells := ?cells, fl_fresh := Suc ?h, fl_oom := []\<rparr>"
  have push: "fl_pushFrame st p f = Inr (?st, ?h)"
    using n p h assms(2) by (simp add: fl_pushFrame_def flCalloc_def fl_store_simps)
  have eq: "map_of ?cells x = ?m x" if "x \<in> set as" for x
    using that p h by (auto simp: update_conv')
  have len: "length as = length fs" using n(2) by (rule flChain_length)
  have "flChain (map_of ?cells) (fl_next n) as p fs"
    using n(2) flChain_cong [of as "map_of ?cells" ?m, OF eq] by blast
  then have "flChain (map_of ?cells) (fl_next n) (as @ [p]) ?h (fs @ [f])"
    using p unfolding flChain_snoc [OF len] by (simp add: update_conv')
  moreover have "map_of ?cells ?h = Some n" using h by (simp add: update_conv')
  moreover have "dom (map_of ?cells) = set (?h # as @ [p])"
    using p by (auto simp: update_conv' split: if_splits)
  ultimately have "flNodes ?st ?h (as @ [p]) (fs @ [f])"
    using p h by (auto simp: flNodes_def)
  then show ?thesis using push by auto
qed

text \<open>Where there is no memory, the list is lost: the caller keeps the null pointer that is returned, and its next frame
  follows it.\<close>

lemma fl_pushFrame_oom:
  assumes "fl_oom st = False # bs"
  shows "fl_pushFrame st p f = Inr (st\<lparr>fl_oom := bs\<rparr>, 0)"
  using assms by (simp add: fl_pushFrame_def flCalloc_def)

lemma fl_cleanNodes_ok:
  "flNodes st p as fs \<Longrightarrow> \<exists>st'. fl_cleanNodes st p = Inr st' \<and> flNodes st' p [] [] \<and> fl_oom st' = fl_oom st \<and>
    fl_fresh st' = fl_fresh st"
proof (induction fs arbitrary: st as)
  case Nil
  then have "as = []" by (auto simp: flNodes_def dest: flChain_length)
  then show ?case using Nil fl_isEmpty_ok [OF Nil] by (subst fl_cleanNodes.simps) simp
next
  case (Cons f gs)
  from fl_popFrame_ok [OF Cons.prems] obtain st' where
    "fl_popFrame st p = Inr (st', Some f)" "flNodes st' p (tl as) gs" "fl_oom st' = fl_oom st" "fl_fresh st' = fl_fresh st"
    by auto
  then show ?case using Cons.IH [of st' "tl as"] fl_isEmpty_ok [OF Cons.prems] by (subst fl_cleanNodes.simps) auto
qed

lemma fl_destroy_ok:
  assumes "flNodes st p as fs"
  shows "\<exists>st'. fl_destroy st p = Inr st' \<and> dom (map_of (fl_cells st')) = {} \<and> fl_oom st' = fl_oom st \<and>
    fl_fresh st' = fl_fresh st"
proof -
  have p: "p \<noteq> 0" using assms by (simp add: flNodes_def)
  obtain st1 where st1: "(if fs \<noteq> [] then fl_cleanNodes st p else Inr st) = Inr st1" "flNodes st1 p [] []"
    "fl_oom st1 = fl_oom st" "fl_fresh st1 = fl_fresh st"
  proof (cases "fs = []")
    case True
    then have "as = []" using assms by (auto simp: flNodes_def dest: flChain_length)
    then show thesis using assms True by (intro that) auto
  qed (use fl_cleanNodes_ok [OF assms] in \<open>auto intro: that\<close>)
  obtain n where n: "map_of (fl_cells st1) p = Some n" "dom (map_of (fl_cells st1)) = {p}"
    using st1(2) by (auto simp: flNodes_def)
  let ?st = "st1\<lparr>fl_cells := AList.delete p (fl_cells st1)\<rparr>"
  have "fl_destroy st p = Inr ?st"
    using p st1(1) n fl_isEmpty_ok [OF assms] by (simp add: fl_destroy_def flFree_def flRead_def)
  moreover have "dom (map_of (fl_cells ?st)) = {}" using n(2) by (simp add: delete_conv' dom_fun_upd)
  ultimately show ?thesis using st1 by auto
qed

lemma fl_init_ok:
  assumes "fl_cells st = []" "fl_oom st = []" "fl_fresh st \<noteq> 0"
  shows "\<exists>st'. fl_init st 0 = Inr (st', fl_fresh st) \<and> flNodes st' (fl_fresh st) [] [] \<and> fl_oom st' = []"
proof -
  let ?h = "fl_fresh st"
  let ?c = "AList.update ?h \<lparr>fl_next = ?h, fl_frame = None\<rparr> (AList.update ?h \<lparr>fl_next = 0, fl_frame = None\<rparr> [])"
  let ?st = "st\<lparr>fl_cells := ?c, fl_fresh := Suc ?h, fl_oom := []\<rparr>"
  have "fl_init st 0 = Inr (?st, ?h)"
    using assms by (simp add: fl_init_def flCalloc_def fl_store_simps)
  moreover have "flNodes ?st ?h [] []" using assms by (simp add: flNodes_def update_conv')
  ultimately show ?thesis by auto
qed

section \<open>The queue\<close>

datatype fl_op = PushFrame gsm_frame | PopFrame

fun queueRun :: "fl_op list \<Rightarrow> gsm_frame list \<Rightarrow> gsm_frame list \<times> gsm_frame option list" where
  "queueRun [] fs = (fs, [])"
| "queueRun (PushFrame f # ops) fs = queueRun ops (fs @ [f])"
| "queueRun (PopFrame # ops) fs = (case queueRun ops (tl fs) of
     (fs', out) \<Rightarrow> (fs', (case fs of [] \<Rightarrow> None | f # _ \<Rightarrow> Some f) # out))"

locale frame_queue =
  fixes holds :: "'s \<Rightarrow> 'p \<Rightarrow> gsm_frame list \<Rightarrow> bool"
    and push :: "'s \<Rightarrow> 'p \<Rightarrow> gsm_frame \<Rightarrow> ('s \<times> 'p) res" and pop :: "'s \<Rightarrow> 'p \<Rightarrow> ('s \<times> gsm_frame option) res"
  assumes push_ok: "holds s p fs \<Longrightarrow> \<exists>s' p'. push s p f = Inr (s', p') \<and> holds s' p' (fs @ [f])"
    and pop_ok: "holds s p fs \<Longrightarrow>
      \<exists>s'. pop s p = Inr (s', case fs of [] \<Rightarrow> None | f # _ \<Rightarrow> Some f) \<and> holds s' p (tl fs)"
begin

fun runOps :: "fl_op list \<Rightarrow> 's \<Rightarrow> 'p \<Rightarrow> ('s \<times> 'p \<times> gsm_frame option list) res" where
  "runOps [] s p = Inr (s, p, [])"
| "runOps (PushFrame f # ops) s p = bnd (push s p f) (\<lambda>(s, p). runOps ops s p)"
| "runOps (PopFrame # ops) s p = bnd (pop s p) (\<lambda>(s, fo). bnd (runOps ops s p) (\<lambda>(s, p, out). Inr (s, p, fo # out)))"

lemma runOps_ok:
  "holds s p fs \<Longrightarrow> \<exists>s' p'. runOps ops s p = Inr (s', p', snd (queueRun ops fs)) \<and> holds s' p' (fst (queueRun ops fs))"
proof (induction ops arbitrary: s p fs)
  case (Cons op ops)
  show ?case
  proof (cases op)
    case (PushFrame f)
    from push_ok [OF Cons.prems, of f] obtain s1 p1 where "push s p f = Inr (s1, p1)" "holds s1 p1 (fs @ [f])" by blast
    then show ?thesis using Cons.IH PushFrame by simp
  next
    case PopFrame
    from pop_ok [OF Cons.prems] obtain s1 where
      s1: "pop s p = Inr (s1, case fs of [] \<Rightarrow> None | f # _ \<Rightarrow> Some f)" "holds s1 p (tl fs)" by blast
    from Cons.IH [OF s1(2)] s1(1) show ?thesis by (auto simp: PopFrame split: prod.splits)
  qed
qed simp

end

interpretation frames: frame_queue flHolds fl_pushFrame fl_popFrame
proof
  show "\<exists>s' p'. fl_pushFrame s p f = Inr (s', p') \<and> flHolds s' p' (fs @ [f])" if "flHolds s p fs" for s p fs f
    using that fl_pushFrame_ok unfolding flHolds_def by blast
  show "\<exists>s'. fl_popFrame s p = Inr (s', case fs of [] \<Rightarrow> None | f # _ \<Rightarrow> Some f) \<and> flHolds s' p (tl fs)"
    if "flHolds s p fs" for s p fs
    using that fl_popFrame_ok unfolding flHolds_def by metis
qed

text \<open>C15. The circular list of the flow control is a queue and keeps its memory in order: with memory left, a list
  that is created, pushed to and popped from in any order and destroyed gives its frames in the order they came,
  nothing from an empty list, never follows a null or a freed pointer, and no node stays allocated.\<close>

theorem frame_list_is_queue:
  assumes "fl_cells st = []" "fl_oom st = []" "fl_fresh st \<noteq> 0"
  shows "\<exists>st1 p st2 q st3. fl_init st 0 = Inr (st1, p) \<and>
    frames.runOps ops st1 p = Inr (st2, q, snd (queueRun ops [])) \<and>
    fl_destroy st2 q = Inr st3 \<and> dom (map_of (fl_cells st3)) = {}"
proof -
  from fl_init_ok [OF assms] obtain st1 where "fl_init st 0 = Inr (st1, fl_fresh st)" "flHolds st1 (fl_fresh st) []"
    by (auto simp: flHolds_def)
  moreover from this(2) obtain st2 q where "frames.runOps ops st1 (fl_fresh st) = Inr (st2, q, snd (queueRun ops []))"
    "flHolds st2 q (fst (queueRun ops []))" using frames.runOps_ok by blast
  moreover from this(2) obtain st3 where "fl_destroy st2 q = Inr st3" "dom (map_of (fl_cells st3)) = {}"
    using fl_destroy_ok unfolding flHolds_def by blast
  ultimately show ?thesis by blast
qed

definition noFrames :: fl_store where
  "noFrames = \<lparr>fl_cells = [], fl_fresh = 1, fl_oom = []\<rparr>"

definition sampleFrame :: "nat \<Rightarrow> gsm_frame" where
  "sampleFrame n = \<lparr>fr_channel = 1, fr_control = 0xEF, fr_data = replicate n 0x41\<rparr>"

lemma frame_list_is_queue_witness:
  "\<exists>st1 p st2 q st3. fl_init noFrames 0 = Inr (st1, p) \<and>
    frames.runOps [PushFrame (sampleFrame 1), PushFrame (sampleFrame 2), PopFrame, PopFrame, PopFrame] st1 p =
       Inr (st2, q, [Some (sampleFrame 1), Some (sampleFrame 2), None]) \<and>
    fl_destroy st2 q = Inr st3 \<and> dom (map_of (fl_cells st3)) = {}"
  using frame_list_is_queue [of noFrames "[PushFrame (sampleFrame 1), PushFrame (sampleFrame 2), PopFrame, PopFrame, PopFrame]"]
  by (simp add: noFrames_def)

end
