(* ===== verification/MuxFlow.thy ===== *)
theory MuxFlow
  imports MuxFrameList "HOL-Library.Sublist"
begin

text \<open>
  Flow control towards an application (\<open>gsm0710muxd_fc.c\<close> and the data branch of \<open>extract_frames\<close>). A frame for a channel is
  written to the pseudo terminal of the channel. If the terminal is full, the frame goes to the channel's
  list, the modem is told to stop (an MSC command), and a thread of its own, \<open>retry_write_pty_thread\<close>, writes the list out,
  tells the modem to go on and ends.

  The two threads are two program counters in \<open>rx_flow\<close>; a step is what a thread does between two places where it can be
  interrupted (the lock \<open>rx_fc_lock\<close>, a \<open>write\<close>), and \<open>flow_step\<close> lets them take turns in any order. \<open>rf_pty\<close>
  are the results of \<open>write\<close> on the terminal and \<open>rf_spawn\<close> those of \<open>create_thread\<close>, one for every call; behind the
  end the calls succeed. \<open>rf_msc\<close> are the MSC commands handed to \<open>write_frame\<close> for channel 0. An assertion of the
  daemon sets a signal and goes on, so it is an entry of \<open>rf_asserts\<close>. \<open>rf_log\<close> is not in the code: the frames
  that the channel accepted. The wait of
  \<open>start_retry_write_thread\<close> on the condition \<open>rx_fc_on_signal\<close> is a single \<open>pthread_cond_wait\<close> under an \<open>if\<close>; here it ends
  when \<open>rx_thread\<close> is cleared, so wake-ups that no thread signalled are left out.
\<close>

definition RX_FLOW_CTRL_HIGH_WATERMARK :: nat where "RX_FLOW_CTRL_HIGH_WATERMARK = 4096"
definition MUXD_VT_CH_NUM :: byte where "MUXD_VT_CH_NUM = 24"

datatype mux_assert = AssertPty | GSM0710MUXD_FRAMELIST_INIT_ERR | GSM0710MUXD_RXTHREAD_ERR | GSM0710MUXD_PTY_WRITE_ERR

text \<open>Where the reader is (\<open>extract_frames\<close>): between frames, at the lock with a frame, at the \<open>write\<close>, before the MSC command of
  \<open>start_retry_write_thread\<close>, before the lock there. Where the thread is: not running, at its start,
  at the \<open>write\<close>, before the next frame, before its MSC command, before its end.\<close>

datatype rx_pc = RxIdle | RxGot gsm_frame | RxWrite gsm_frame | RxOff | RxWait
datatype retry_pc = RtNone | RtStart | RtWrite gsm_frame nat | RtPop | RtOn | RtEnd

record rx_flow =
  rf_advanced :: bool  \<comment> \<open>\<open>cmux_mode\<close>, set once from the command line\<close>
  rf_ch :: gsm_channel
  rf_fl :: fl_store
  rf_pty :: "write_result list"
  rf_spawn :: "bool list"
  rf_out :: "byte list"
  rf_msc :: "byte list list"
  rf_dropped :: nat
  rf_asserts :: "mux_assert list"
  rf_rx :: rx_pc
  rf_rt :: retry_pc
  rf_log :: "gsm_frame list"

definition assertErr :: "mux_assert \<Rightarrow> rx_flow \<Rightarrow> rx_flow" where
  "assertErr a s = s\<lparr>rf_asserts := rf_asserts s @ [a]\<rparr>"

definition msc_channel_cmd :: "byte list" where
  "msc_channel_cmd = [GSM0710_CONTROL_MSC OR GSM0710_CR, GSM0710_EA OR push_bit 1 2, 0x03, 0x8D]"

definition mscCommand :: "nat \<Rightarrow> bool \<Rightarrow> byte list" where
  "mscCommand channel off = (let c = msc_channel_cmd[2 := msc_channel_cmd ! 2 OR push_bit 2 (word_of_nat channel)] in
     if off then c[3 := c ! 3 OR 0x02] else c)"

text \<open>\<open>write(channel->fd, \<dots>)\<close>\<close>

definition ptyWrite :: "rx_flow \<Rightarrow> byte list \<Rightarrow> rx_flow \<times> (mux_errno + nat)" where
  "ptyWrite s xs =
     (if ch_fd (rf_ch s) < 0 then (s, Inl EBADF)
      else case rf_pty s of
        [] \<Rightarrow> (s\<lparr>rf_out := rf_out s @ xs\<rparr>, Inr (length xs))
      | Wrote n # rs \<Rightarrow> (s\<lparr>rf_pty := rs, rf_out := rf_out s @ take n xs\<rparr>, Inr (min n (length xs)))
      | WriteError e # rs \<Rightarrow> (s\<lparr>rf_pty := rs\<rparr>, Inl e))"

section \<open>The context of a channel\<close>

definition fc_initContext :: "gsm_channel \<Rightarrow> gsm_channel" where
  "fc_initContext c = c\<lparr>tx_fc_off := False, rx_fc_off := False, rx_thread := False, rx_fl := 0, rx_fl_total := 0,
     rx_fl_written := 0\<rparr>"

definition fc_closeContext :: "rx_flow \<Rightarrow> rx_flow res" where
  "fc_closeContext s =
     (let c = (rf_ch s)\<lparr>tx_fc_off := False, rx_fc_off := False, rx_thread := False, rx_fl_total := 0, rx_fl_written := 0\<rparr> in
      bnd (fl_destroy (rf_fl s) (rx_fl c)) (\<lambda>st. Inr (s\<lparr>rf_ch := c, rf_fl := st\<rparr>)))"

definition logical_channel_close :: "rx_flow \<Rightarrow> rx_flow res" where
  "logical_channel_close s =
     (let c = rf_ch s; c = (if ch_fd c \<ge> 0 then c\<lparr>ch_fd := - 1\<rparr> else c) in
      fc_closeContext (s\<lparr>rf_ch := c\<lparr>ch_opened := False, v24_signals := 0, sabm_ua_pending := False,
        disc_ua_pending := False, negotiated_N1 := 0\<rparr>\<rparr>))"

definition fc_cacheFrameData :: "rx_flow \<Rightarrow> gsm_frame \<Rightarrow> rx_flow res" where
  "fc_cacheFrameData s f =
     (let c = rf_ch s; len = length (fr_data f) in
      if rx_fl_total c + len > RX_FLOW_CTRL_HIGH_WATERMARK then Inr (s\<lparr>rf_dropped := rf_dropped s + 1\<rparr>)
      else bnd (fl_pushFrame (rf_fl s) (rx_fl c) f) (\<lambda>(st, p).
        Inr (s\<lparr>rf_fl := st, rf_ch := c\<lparr>rx_fl_total := rx_fl_total c + len, rx_fl := p\<rparr>, rf_log := rf_log s @ [f]\<rparr>)))"

definition fc_cacheRemainingFrameData :: "rx_flow \<Rightarrow> gsm_frame \<Rightarrow> nat \<Rightarrow> rx_flow res" where
  "fc_cacheRemainingFrameData s f written =
     (let c = rf_ch s in
      bnd (fl_isEmpty (rf_fl s) (rx_fl c)) (\<lambda>empty.
      let s = (if \<not> empty then assertErr GSM0710MUXD_FRAMELIST_INIT_ERR s else s) in
      bnd (fl_init (rf_fl s) (rx_fl c)) (\<lambda>(st, p).
      bnd (fl_pushFrame st p f) (\<lambda>(st, p).
      Inr (s\<lparr>rf_fl := st, rf_ch := c\<lparr>rx_fl := p, rx_fl_total := length (fr_data f) - written, rx_fl_written := written\<rparr>,
             rf_log := rf_log s @ [f]\<rparr>)))))"

section \<open>The reader\<close>

text \<open>The \<open>write\<close> of a data frame and what follows it. When the channel is to be opened again, \<open>watchdog\<close> is called, which
  changes no channel; that it may not return is shown in \<open>MuxWatchdog\<close>.\<close>

definition readerWrite :: "rx_flow \<Rightarrow> gsm_frame \<Rightarrow> rx_flow res" where
  "readerWrite s f = (case ptyWrite s (fr_data f) of
     (s, Inr n) \<Rightarrow>
       if length (fr_data f) - n > 0
       then bnd (fc_cacheRemainingFrameData s f n) (\<lambda>s. Inr (s\<lparr>rf_rx := RxOff\<rparr>))
       else Inr (s\<lparr>rf_log := rf_log s @ [f], rf_rx := RxIdle\<rparr>)
   | (s, Inl e) \<Rightarrow>
       if e = EAGAIN
       then (if fr_channel f \<noteq> MUXD_VT_CH_NUM
             then bnd (fc_cacheRemainingFrameData s f 0) (\<lambda>s. Inr (s\<lparr>rf_rx := RxOff\<rparr>))
             else Inr (s\<lparr>rf_rx := RxIdle\<rparr>))
       else if e = EINTR \<or> e = EBADF \<or> e = EIO \<or> ch_reopen (rf_ch s) then Inr s
       else Inr (assertErr AssertPty s))"

definition startThread :: "rx_flow \<Rightarrow> rx_flow" where
  "startThread s = s\<lparr>rf_ch := (rf_ch s)\<lparr>rx_fc_off := True\<rparr>, rf_spawn := tl (rf_spawn s), rf_rx := RxIdle,
       rf_rt := (if rf_spawn s \<noteq> [] \<and> \<not> hd (rf_spawn s) then rf_rt s else RtStart)\<rparr>"

definition readerStep :: "rx_flow \<Rightarrow> rx_flow res" where
  "readerStep s = (case rf_rx s of
     RxIdle \<Rightarrow> Inr s
   | RxGot f \<Rightarrow> if rx_fc_off (rf_ch s) then bnd (fc_cacheFrameData s f) (\<lambda>s. Inr (s\<lparr>rf_rx := RxIdle\<rparr>))
       else Inr (s\<lparr>rf_rx := RxWrite f\<rparr>)
   | RxWrite f \<Rightarrow> readerWrite s f
   | RxOff \<Rightarrow> Inr (s\<lparr>rf_msc := rf_msc s @ [mscCommand (ch_id (rf_ch s)) True], rf_rx := RxWait\<rparr>)
   | RxWait \<Rightarrow> Inr (startThread s))"

section \<open>The thread\<close>

definition retryPop :: "rx_flow \<Rightarrow> (rx_flow \<times> gsm_frame option) res" where
  "retryPop s = bnd (fl_popFrame (rf_fl s) (rx_fl (rf_ch s))) (\<lambda>(st, fo). Inr (s\<lparr>rf_fl := st\<rparr>, fo))"

text \<open>Without a first frame the thread asserts and then follows the null pointer.\<close>

definition retryStep :: "rx_flow \<Rightarrow> rx_flow res" where
  "retryStep s = (case rf_rt s of
     RtNone \<Rightarrow> Inr s
   | RtStart \<Rightarrow> bnd (retryPop s) (\<lambda>(s, fo). case fo of
       None \<Rightarrow> Inl NullPointer
     | Some f \<Rightarrow> Inr (s\<lparr>rf_rt := RtWrite f (rx_fl_written (rf_ch s)),
                        rf_ch := (rf_ch s)\<lparr>rx_thread := True, rx_fl_written := 0\<rparr>\<rparr>))
   | RtWrite f w \<Rightarrow> (case ptyWrite s (drop w (fr_data f)) of
       (s, Inr n) \<Rightarrow> Inr (s\<lparr>rf_rt := (if w + n < length (fr_data f) then RtWrite f (w + n) else RtPop)\<rparr>)
     | (s, Inl e) \<Rightarrow> if e = EINTR \<or> e = EAGAIN \<or> ch_reopen (rf_ch s) then Inr s
                     else Inr (assertErr GSM0710MUXD_PTY_WRITE_ERR s))
   | RtPop \<Rightarrow> bnd (retryPop s) (\<lambda>(s, fo). case fo of
       None \<Rightarrow> Inr (s\<lparr>rf_ch := (rf_ch s)\<lparr>rx_fc_off := False\<rparr>, rf_rt := RtOn\<rparr>)
     | Some f \<Rightarrow> Inr (s\<lparr>rf_rt := RtWrite f 0\<rparr>))
   | RtOn \<Rightarrow> Inr (s\<lparr>rf_msc := rf_msc s @ [mscCommand (ch_id (rf_ch s)) False], rf_rt := RtEnd\<rparr>)
   | RtEnd \<Rightarrow> Inr (s\<lparr>rf_ch := (rf_ch s)\<lparr>rx_thread := False\<rparr>, rf_rt := RtNone\<rparr>))"

section \<open>Both together\<close>

datatype flow_label = FrameFor gsm_frame | ReaderStep | RetryStep | CloseChannel

text \<open>A data frame of the channel comes out of the frame reader. In the basic mode this reader drops a frame that is longer than
  the channel's \<open>negotiated_N1\<close> (\<open>gsm0710_base_buffer_get_frame\<close>), so a closed channel gets empty frames only; the reader
  of the advanced mode does not look at it.\<close>

definition passes :: "rx_flow \<Rightarrow> gsm_frame \<Rightarrow> bool" where
  "passes s f \<longleftrightarrow> rf_advanced s \<or> length (fr_data f) \<le> negotiated_N1 (rf_ch s)"

inductive flow_step :: "rx_flow \<Rightarrow> flow_label \<Rightarrow> rx_flow res \<Rightarrow> bool" where
  arrives: "rf_rx s = RxIdle \<Longrightarrow> passes s f \<Longrightarrow> flow_step s (FrameFor f) (Inr (s\<lparr>rf_rx := RxGot f\<rparr>))"
| reader: "rf_rx s \<noteq> RxIdle \<Longrightarrow> \<not> (rf_rx s = RxWait \<and> rx_thread (rf_ch s)) \<Longrightarrow> flow_step s ReaderStep (readerStep s)"
| retry: "rf_rt s \<noteq> RtNone \<Longrightarrow> flow_step s RetryStep (retryStep s)"
| close: "rf_rx s = RxIdle \<Longrightarrow> flow_step s CloseChannel (logical_channel_close s)"

inductive flow_run :: "rx_flow \<Rightarrow> flow_label list \<Rightarrow> rx_flow res \<Rightarrow> bool" where
  none: "flow_run s [] (Inr s)"
| more: "flow_run s ls (Inr s1) \<Longrightarrow> flow_step s1 l r \<Longrightarrow> flow_run s (ls @ [l]) r"

inductive_cases flow_stepE: "flow_step s l r"
inductive_simps flow_step_simps: "flow_step s (FrameFor f) r" "flow_step s ReaderStep r" "flow_step s RetryStep r"
  "flow_step s CloseChannel r"
inductive_cases flow_run_NilE: "flow_run s [] r"

definition flowStart :: "bool \<Rightarrow> gsm_channel \<Rightarrow> write_result list \<Rightarrow> bool list \<Rightarrow> rx_flow" where
  "flowStart advanced c pty spawn = \<lparr>rf_advanced = advanced, rf_ch = fc_initContext c, rf_fl = noFrames, rf_pty = pty, rf_spawn = spawn, rf_out = [],
     rf_msc = [], rf_dropped = 0, rf_asserts = [], rf_rx = RxIdle, rf_rt = RtNone, rf_log = []\<rparr>"

section \<open>Invariants\<close>

text \<open>The frames in the list of the channel, and the octets that wait.\<close>

definition storeList :: "fl_store \<Rightarrow> nat \<Rightarrow> gsm_frame list \<Rightarrow> bool" where
  "storeList st p fs \<longleftrightarrow> (if p = 0 then fs = [] \<and> fl_cells st = [] \<and> fl_oom st = [] \<and> fl_fresh st \<noteq> 0
     else flHolds st p fs)"

definition flowList :: "rx_flow \<Rightarrow> gsm_frame list \<Rightarrow> bool" where
  "flowList s fs \<longleftrightarrow> storeList (rf_fl s) (rx_fl (rf_ch s)) fs \<and> (rx_fc_off (rf_ch s) \<longrightarrow> rx_fl (rf_ch s) \<noteq> 0)"

definition octetsOf :: "gsm_frame list \<Rightarrow> byte list" where
  "octetsOf fs = concat (map fr_data fs)"

definition flowPending :: "rx_flow \<Rightarrow> gsm_frame list \<Rightarrow> byte list" where
  "flowPending s fs = (case rf_rt s of RtWrite f w \<Rightarrow> drop w (fr_data f) @ octetsOf fs
     | _ \<Rightarrow> drop (rx_fl_written (rf_ch s)) (octetsOf fs))"

definition readerOk :: "rx_flow \<Rightarrow> gsm_frame list \<Rightarrow> bool" where
  "readerOk s fs \<longleftrightarrow> (case rf_rx s of
     RxOff \<Rightarrow> \<not> rx_fc_off (rf_ch s) \<and> fs \<noteq> []
   | RxWait \<Rightarrow> \<not> rx_fc_off (rf_ch s) \<and> fs \<noteq> []
   | RxWrite f \<Rightarrow> \<not> rx_fc_off (rf_ch s) \<and> fs = []
   | _ \<Rightarrow> \<not> rx_fc_off (rf_ch s) \<longrightarrow> fs = [])"

definition retryOk :: "rx_flow \<Rightarrow> gsm_frame list \<Rightarrow> bool" where
  "retryOk s fs \<longleftrightarrow> (case rf_rt s of
     RtNone \<Rightarrow> \<not> rx_thread (rf_ch s) \<and> (rx_fc_off (rf_ch s) \<longrightarrow> fs \<noteq> [])
   | RtStart \<Rightarrow> \<not> rx_thread (rf_ch s) \<and> rx_fc_off (rf_ch s) \<and> fs \<noteq> []
   | RtWrite f w \<Rightarrow> rx_thread (rf_ch s) \<and> rx_fc_off (rf_ch s) \<and> rx_fl_written (rf_ch s) = 0 \<and> w \<le> length (fr_data f)
   | RtPop \<Rightarrow> rx_thread (rf_ch s) \<and> rx_fc_off (rf_ch s) \<and> rx_fl_written (rf_ch s) = 0
   | _ \<Rightarrow> rx_thread (rf_ch s) \<and> \<not> rx_fc_off (rf_ch s))"

definition inHand :: "rx_flow \<Rightarrow> gsm_frame list" where
  "inHand s = (case rf_rx s of RxGot f \<Rightarrow> [f] | RxWrite f \<Rightarrow> [f] | _ \<Rightarrow> [])"

definition flowInv :: "gsm_frame list \<Rightarrow> rx_flow \<Rightarrow> bool" where
  "flowInv arrived s \<longleftrightarrow> (\<exists>fs. flowList s fs \<and> readerOk s fs \<and> retryOk s fs \<and>
     (fs \<noteq> [] \<longrightarrow> rx_fl_written (rf_ch s) \<le> length (fr_data (hd fs))) \<and>
     rf_out s @ flowPending s fs = octetsOf (rf_log s)) \<and>
   set (rf_asserts s) \<subseteq> {AssertPty, GSM0710MUXD_PTY_WRITE_ERR} \<and> subseq (rf_log s @ inHand s) arrived"

lemma octetsOf_simps [simp]: "octetsOf [] = []" "octetsOf (f # fs) = fr_data f @ octetsOf fs"
    "octetsOf (fs @ gs) = octetsOf fs @ octetsOf gs"
  by (simp_all add: octetsOf_def)

lemmas flow_defs = readerOk_def retryOk_def flowPending_def inHand_def

lemma flHolds_store: "flHolds st p fs \<Longrightarrow> storeList st p fs"
  by (auto simp: flHolds_def flNodes_def storeList_def)

lemma storeList_null: "storeList st 0 fs \<Longrightarrow> fs = []"
  by (simp add: storeList_def)

lemma flowList_pop:
  assumes "flowList s fs"
  shows "\<exists>st. retryPop s = Inr (s\<lparr>rf_fl := st\<rparr>, case fs of [] \<Rightarrow> None | f # _ \<Rightarrow> Some f) \<and>
    storeList st (rx_fl (rf_ch s)) (tl fs)"
proof (cases "rx_fl (rf_ch s) = 0")
  case True
  then show ?thesis using assms
    by (intro exI [of _ "rf_fl s"]) (auto simp: flowList_def storeList_def retryPop_def fl_popFrame_def fl_isEmpty_def)
next
  case False
  then have "flHolds (rf_fl s) (rx_fl (rf_ch s)) fs" using assms by (simp add: flowList_def storeList_def)
  from frames.pop_ok [OF this] show ?thesis using False by (auto simp: retryPop_def storeList_def)
qed

lemma flowList_empty: "flowList s fs \<Longrightarrow> fl_isEmpty (rf_fl s) (rx_fl (rf_ch s)) = Inr (fs = [])"
  by (auto simp: flowList_def storeList_def flHolds_def fl_isEmpty_ok split: if_splits) (simp add: fl_isEmpty_def)

lemma fl_init_list:
  assumes "flowList s []"
  shows "\<exists>st p. fl_init (rf_fl s) (rx_fl (rf_ch s)) = Inr (st, p) \<and> flHolds st p []"
proof (cases "rx_fl (rf_ch s) = 0")
  case True
  then show ?thesis using assms fl_init_ok [of "rf_fl s"] by (auto simp: flowList_def storeList_def flHolds_def)
next
  case False
  then show ?thesis using assms flowList_empty [OF assms] by (simp add: flowList_def storeList_def fl_init_def)
qed

lemma cacheRemaining_ok:
  assumes "flowList s []"
  shows "\<exists>st p. fc_cacheRemainingFrameData s f w = Inr (s\<lparr>rf_fl := st, rf_ch := (rf_ch s)\<lparr>rx_fl := p,
      rx_fl_total := length (fr_data f) - w, rx_fl_written := w\<rparr>, rf_log := rf_log s @ [f]\<rparr>) \<and> storeList st p [f]"
proof -
  from fl_init_list [OF assms] obtain st p where i: "fl_init (rf_fl s) (rx_fl (rf_ch s)) = Inr (st, p)" "flHolds st p []"
    by blast
  from frames.push_ok [OF i(2), of f] obtain st2 p2 where "fl_pushFrame st p f = Inr (st2, p2)" "flHolds st2 p2 [f]" by auto
  then show ?thesis using i flowList_empty [OF assms] flHolds_store
    by (intro exI [of _ st2] exI [of _ p2]) (simp add: fc_cacheRemainingFrameData_def Let_def)
qed

lemma cacheFrame_ok:
  assumes "flowList s fs" "rx_fl (rf_ch s) \<noteq> 0"
  shows "\<exists>st p. fc_cacheFrameData s f =
      Inr (if rx_fl_total (rf_ch s) + length (fr_data f) > RX_FLOW_CTRL_HIGH_WATERMARK then s\<lparr>rf_dropped := rf_dropped s + 1\<rparr>
        else s\<lparr>rf_fl := st, rf_ch := (rf_ch s)\<lparr>rx_fl_total := rx_fl_total (rf_ch s) + length (fr_data f), rx_fl := p\<rparr>,
               rf_log := rf_log s @ [f]\<rparr>) \<and> storeList st p (fs @ [f])"
proof -
  have "flHolds (rf_fl s) (rx_fl (rf_ch s)) fs" using assms by (auto simp: flowList_def storeList_def)
  from frames.push_ok [OF this, of f] obtain st p where
    "fl_pushFrame (rf_fl s) (rx_fl (rf_ch s)) f = Inr (st, p)" "flHolds st p (fs @ [f])" by blast
  then show ?thesis using flHolds_store by (intro exI [of _ st] exI [of _ p]) (simp add: fc_cacheFrameData_def Let_def)
qed

lemma ptyWrite_cases:
  obtains n rs where "ptyWrite s xs = (s\<lparr>rf_pty := rs, rf_out := rf_out s @ take n xs\<rparr>, Inr n)" "n \<le> length xs"
  | e rs where "ptyWrite s xs = (s\<lparr>rf_pty := rs\<rparr>, Inl e)"
proof (cases "ch_fd (rf_ch s) < 0")
  case True
  then show thesis by (intro that(2) [of "rf_pty s" EBADF]) (simp add: ptyWrite_def)
next
  case False
  show thesis
  proof (cases "rf_pty s")
    case Nil
    then show thesis using False by (intro that(1) [of "length xs" "[]"]) (simp_all add: ptyWrite_def)
  next
    case (Cons r rs)
    then show thesis
    proof (cases r)
      case (Wrote n)
      have "take (min n (length xs)) xs = take n xs" by (simp add: min_def)
      then show thesis using False Cons Wrote by (intro that(1) [of "min n (length xs)" rs]) (simp_all add: ptyWrite_def)
    next
      case (WriteError e)
      then show thesis using False Cons by (intro that(2) [of rs e]) (simp add: ptyWrite_def)
    qed
  qed
qed

lemma flowInvI:
  assumes "flowList s fs" "readerOk s fs" "retryOk s fs" "fs \<noteq> [] \<longrightarrow> rx_fl_written (rf_ch s) \<le> length (fr_data (hd fs))"
    "rf_out s @ flowPending s fs = octetsOf (rf_log s)" "set (rf_asserts s) \<subseteq> {AssertPty, GSM0710MUXD_PTY_WRITE_ERR}"
    "subseq (rf_log s @ inHand s) arrived"
  shows "flowInv arrived s"
  using assms unfolding flowInv_def by auto

lemma flowInvE:
  assumes "flowInv arrived s"
  obtains fs where "flowList s fs" "readerOk s fs" "retryOk s fs"
    "fs \<noteq> [] \<longrightarrow> rx_fl_written (rf_ch s) \<le> length (fr_data (hd fs))"
    "rf_out s @ flowPending s fs = octetsOf (rf_log s)" "set (rf_asserts s) \<subseteq> {AssertPty, GSM0710MUXD_PTY_WRITE_ERR}"
    "subseq (rf_log s @ inHand s) arrived"
  using assms unfolding flowInv_def by (elim conjE exE) (rule that, (assumption | simp)+)

lemma subseq_drop_last: "subseq (xs @ [y]) zs \<Longrightarrow> subseq xs zs"
  by (rule subseq_order.trans [of _ "xs @ [y]"]) (simp_all add: subseq_rev_drop_many)

lemma write_split: "take n (drop w xs) @ drop (n + w) xs @ ys = drop w xs @ ys"
  by (simp flip: drop_drop append_assoc)

lemma retryStep_inv:
  assumes "flowInv arrived s"
  shows "\<exists>s'. retryStep s = Inr s' \<and> flowInv arrived s'"
proof -
  from assms obtain fs where inv: "flowList s fs" "readerOk s fs" "retryOk s fs"
    "fs \<noteq> [] \<longrightarrow> rx_fl_written (rf_ch s) \<le> length (fr_data (hd fs))"
    "rf_out s @ flowPending s fs = octetsOf (rf_log s)" "set (rf_asserts s) \<subseteq> {AssertPty, GSM0710MUXD_PTY_WRITE_ERR}"
    "subseq (rf_log s @ inHand s) arrived" by (rule flowInvE)
  from flowList_pop [OF inv(1)] obtain st where
    st: "retryPop s = Inr (s\<lparr>rf_fl := st\<rparr>, case fs of [] \<Rightarrow> None | f # _ \<Rightarrow> Some f)" "storeList st (rx_fl (rf_ch s)) (tl fs)"
    by blast
  show ?thesis
  proof (cases "rf_rt s")
    case RtNone
    then show ?thesis using assms by (simp add: retryStep_def)
  next
    case RtStart
    then obtain f gs where fs: "fs = f # gs" using inv(3) by (auto simp: retryOk_def neq_Nil_conv)
    let ?s = "s\<lparr>rf_fl := st, rf_rt := RtWrite f (rx_fl_written (rf_ch s)),
      rf_ch := (rf_ch s)\<lparr>rx_thread := True, rx_fl_written := 0\<rparr>\<rparr>"
    have "flowInv arrived ?s"
      using inv st(2) RtStart
      by (intro flowInvI [of _ gs]) (auto simp: flow_defs fs flowList_def split: rx_pc.splits)
    then show ?thesis using RtStart st(1) by (simp add: retryStep_def fs)
  next
    case (RtWrite f w)
    show ?thesis
    proof (cases rule: ptyWrite_cases [of s "drop w (fr_data f)"])
      case (1 n rs)
      let ?s = "s\<lparr>rf_pty := rs, rf_out := rf_out s @ take n (drop w (fr_data f)),
        rf_rt := (if w + n < length (fr_data f) then RtWrite f (w + n) else RtPop)\<rparr>"
      have "flowInv arrived ?s"
        using inv RtWrite 1(2)
        by (intro flowInvI [of _ fs])
          (auto simp: flow_defs flowList_def add.commute write_split split: rx_pc.splits)
      then show ?thesis using RtWrite 1(1) by (simp add: retryStep_def)
    next
      case (2 e rs)
      have "flowInv arrived (s\<lparr>rf_pty := rs\<rparr>)" "flowInv arrived (assertErr GSM0710MUXD_PTY_WRITE_ERR (s\<lparr>rf_pty := rs\<rparr>))"
        using inv RtWrite
        by (intro flowInvI [of _ fs]; auto simp: flow_defs flowList_def assertErr_def split: rx_pc.splits)+
      then show ?thesis using RtWrite 2 by (simp add: retryStep_def)
    qed
  next
    case RtPop
    show ?thesis
    proof (cases fs)
      case Nil
      have "flowInv arrived (s\<lparr>rf_fl := st, rf_ch := (rf_ch s)\<lparr>rx_fc_off := False\<rparr>, rf_rt := RtOn\<rparr>)"
        using inv st(2) RtPop
        by (intro flowInvI [of _ "[]"]) (auto simp: flow_defs flowList_def Nil split: rx_pc.splits)
      then show ?thesis using RtPop st(1) Nil by (simp add: retryStep_def)
    next
      case (Cons f gs)
      have "flowInv arrived (s\<lparr>rf_fl := st, rf_rt := RtWrite f 0\<rparr>)"
        using inv st(2) RtPop
        by (intro flowInvI [of _ gs]) (auto simp: flow_defs flowList_def Cons split: rx_pc.splits)
      then show ?thesis using RtPop st(1) Cons by (simp add: retryStep_def)
    qed
  next
    case RtOn
    then show ?thesis using inv
      by (auto simp: retryStep_def flow_defs flowList_def intro!: flowInvI [of _ fs] split: rx_pc.splits)
  next
    case RtEnd
    then show ?thesis using inv
      by (auto simp: retryStep_def flow_defs flowList_def intro!: flowInvI [of _ fs] split: rx_pc.splits)
  qed
qed

lemma readerWrite_inv:
  assumes "flowInv arrived s" "rf_rx s = RxWrite f"
  shows "\<exists>s'. readerWrite s f = Inr s' \<and> flowInv arrived s'"
proof -
  from assms(1) obtain fs where inv: "flowList s fs" "readerOk s fs" "retryOk s fs"
    "fs \<noteq> [] \<longrightarrow> rx_fl_written (rf_ch s) \<le> length (fr_data (hd fs))"
    "rf_out s @ flowPending s fs = octetsOf (rf_log s)" "set (rf_asserts s) \<subseteq> {AssertPty, GSM0710MUXD_PTY_WRITE_ERR}"
    "subseq (rf_log s @ inHand s) arrived" by (rule flowInvE)
  have fs: "fs = []" "\<not> rx_fc_off (rf_ch s)" using inv(2) assms(2) by (auto simp: readerOk_def)
  then have rt: "rf_rt s \<in> {RtNone, RtOn, RtEnd}" using inv(3) by (auto simp: retryOk_def split: retry_pc.splits)
  have pend: "flowPending s [] = []" using rt by (auto simp: flowPending_def)
  have sub: "subseq (rf_log s @ [f]) arrived" using inv(7) assms(2) by (simp add: inHand_def)
  have cache: "\<exists>s'. bnd (fc_cacheRemainingFrameData t f n) (\<lambda>s. Inr (s\<lparr>rf_rx := RxOff\<rparr>)) = Inr s' \<and> flowInv arrived s'"
    if t: "t = s\<lparr>rf_pty := rs, rf_out := rf_out s @ take n (fr_data f)\<rparr>" "n \<le> length (fr_data f)" for t n rs
  proof -
    have "flowList t []" using inv(1) fs by (simp add: t flowList_def)
    from cacheRemaining_ok [OF this, of f n] obtain st p where c: "fc_cacheRemainingFrameData t f n =
      Inr (t\<lparr>rf_fl := st, rf_ch := (rf_ch t)\<lparr>rx_fl := p, rx_fl_total := length (fr_data f) - n, rx_fl_written := n\<rparr>,
             rf_log := rf_log t @ [f]\<rparr>)" "storeList st p [f]" by blast
    let ?s = "t\<lparr>rf_fl := st, rf_ch := (rf_ch t)\<lparr>rx_fl := p, rx_fl_total := length (fr_data f) - n, rx_fl_written := n\<rparr>,
             rf_log := rf_log t @ [f], rf_rx := RxOff\<rparr>"
    have "rf_out s = octetsOf (rf_log s)" using inv(5) pend fs(1) by simp
    then have "flowInv arrived ?s"
      using inv(3,6) c(2) rt sub fs t(2) by (intro flowInvI [of _ "[f]"]) (auto simp: t flow_defs flowList_def)
    then show ?thesis using c(1) by simp
  qed
  have idle: "flowInv arrived (t\<lparr>rf_log := rf_log s @ xs, rf_rx := RxIdle\<rparr>)"
    if "t = s\<lparr>rf_pty := rs, rf_out := rf_out s @ octetsOf xs\<rparr>" "xs \<in> {[], [f]}" for t rs xs
    using inv fs rt sub subseq_drop_last that by (intro flowInvI [of _ "[]"]) (auto simp: flow_defs flowList_def)
  show ?thesis
  proof (cases rule: ptyWrite_cases [of s "fr_data f"])
    case (1 n rs)
    then show ?thesis using cache [OF refl 1(2)] idle [OF refl, of "[f]"] by (auto simp: readerWrite_def)
  next
    case (2 e rs)
    let ?t = "s\<lparr>rf_pty := rs\<rparr>"
    have "flowInv arrived ?t"
      using inv assms(2) rt by (intro flowInvI [of _ fs]) (auto simp: flow_defs flowList_def)
    moreover have "flowInv arrived (assertErr AssertPty ?t)"
      using inv assms(2) rt by (intro flowInvI [of _ fs]) (auto simp: flow_defs flowList_def assertErr_def)
    moreover have "\<exists>s'. bnd (fc_cacheRemainingFrameData ?t f 0) (\<lambda>s. Inr (s\<lparr>rf_rx := RxOff\<rparr>)) = Inr s' \<and> flowInv arrived s'"
      by (rule cache [of ?t 0 rs]) simp_all
    moreover have "flowInv arrived (?t\<lparr>rf_rx := RxIdle\<rparr>)" using idle [OF refl, of "[]" rs] by simp
    ultimately show ?thesis using 2 by (auto simp: readerWrite_def)
  qed
qed

lemma readerStep_inv:
  assumes "flowInv arrived s" "\<not> (rf_rx s = RxWait \<and> rx_thread (rf_ch s))"
  shows "\<exists>s'. readerStep s = Inr s' \<and> flowInv arrived s'"
proof -
  from assms(1) obtain fs where inv: "flowList s fs" "readerOk s fs" "retryOk s fs"
    "fs \<noteq> [] \<longrightarrow> rx_fl_written (rf_ch s) \<le> length (fr_data (hd fs))"
    "rf_out s @ flowPending s fs = octetsOf (rf_log s)" "set (rf_asserts s) \<subseteq> {AssertPty, GSM0710MUXD_PTY_WRITE_ERR}"
    "subseq (rf_log s @ inHand s) arrived" by (rule flowInvE)
  show ?thesis
  proof (cases "rf_rx s")
    case RxIdle
    then show ?thesis using assms by (simp add: readerStep_def)
  next
    case (RxGot f)
    show ?thesis
    proof (cases "rx_fc_off (rf_ch s)")
      case True
      then have "rx_fl (rf_ch s) \<noteq> 0" using inv(1) by (simp add: flowList_def)
      from cacheFrame_ok [OF inv(1) this, of f] obtain st p where
        c: "fc_cacheFrameData s f =
          Inr (if rx_fl_total (rf_ch s) + length (fr_data f) > RX_FLOW_CTRL_HIGH_WATERMARK then s\<lparr>rf_dropped := rf_dropped s + 1\<rparr>
            else s\<lparr>rf_fl := st, rf_ch := (rf_ch s)\<lparr>rx_fl_total := rx_fl_total (rf_ch s) + length (fr_data f), rx_fl := p\<rparr>,
               rf_log := rf_log s @ [f]\<rparr>)" "storeList st p (fs @ [f])" by blast
      have "subseq (rf_log s) arrived" using inv(7) RxGot subseq_drop_last by (simp add: inHand_def)
      then have drop: "flowInv arrived (s\<lparr>rf_dropped := Suc (rf_dropped s), rf_rx := RxIdle\<rparr>)"
        using inv(1,3-6) True
        by (intro flowInvI [of _ fs]; simp add: flow_defs flowList_def cong: retry_pc.case_cong)
      have p: "p \<noteq> 0" using c(2) by (cases "p = 0") (simp_all add: storeList_def)
      have hd: "hd (fs @ [f]) = (if fs = [] then f else hd fs)" by (cases fs) auto
      have wr0: "fs = [] \<longrightarrow> rx_fl_written (rf_ch s) = 0"
        using inv(3) True by (simp add: retryOk_def split: retry_pc.splits)
      have wr: "rx_fl_written (rf_ch s) \<le> length (octetsOf fs)"
        using wr0 inv(4) by (cases fs) simp_all
      define T where "T = s\<lparr>rf_fl := st, rf_ch := (rf_ch s)\<lparr>rx_fl_total := rx_fl_total (rf_ch s) + length (fr_data f), rx_fl := p\<rparr>,
               rf_log := rf_log s @ [f], rf_rx := RxIdle\<rparr>"
      have pend: "flowPending T (fs @ [f]) = flowPending s fs @ fr_data f"
        using wr by (simp add: flowPending_def T_def split: retry_pc.splits)
      have "flowInv arrived T"
      proof (rule flowInvI [of _ "fs @ [f]"])
        have "rf_out s @ flowPending s fs @ fr_data f = octetsOf (rf_log s) @ fr_data f" using inv(5) by (metis append_assoc)
        then show "rf_out T @ flowPending T (fs @ [f]) = octetsOf (rf_log T)" unfolding pend by (simp add: T_def)
        show "flowList T (fs @ [f])" using c(2) p by (simp add: T_def flowList_def)
        show "readerOk T (fs @ [f])" using True by (simp add: T_def readerOk_def)
        show "retryOk T (fs @ [f])" using inv(3) True by (simp add: T_def retryOk_def split: retry_pc.splits)
        show "fs @ [f] \<noteq> [] \<longrightarrow> rx_fl_written (rf_ch T) \<le> length (fr_data (hd (fs @ [f])))"
          using inv(4) wr0 by (simp add: T_def hd)
        show "subseq (rf_log T @ inHand T) arrived" using inv(7) RxGot by (simp add: T_def inHand_def)
      qed (use inv(6) in \<open>simp add: T_def\<close>)
      moreover have "T = s\<lparr>rf_fl := st, rf_ch := (rf_ch s)\<lparr>rx_fl_total := rx_fl_total (rf_ch s) + length (fr_data f), rx_fl := p\<rparr>,
               rf_log := rf_log s @ [f]\<rparr>\<lparr>rf_rx := RxIdle\<rparr>" by (simp add: T_def)
      ultimately show ?thesis using True RxGot c(1) drop by (simp add: readerStep_def)
    next
      case False
      have "flowInv arrived (s\<lparr>rf_rx := RxWrite f\<rparr>)"
        using inv False RxGot by (intro flowInvI [of _ fs]) (auto simp: flow_defs flowList_def split: retry_pc.splits)
      then show ?thesis using False RxGot by (simp add: readerStep_def)
    qed
  next
    case (RxWrite f)
    then show ?thesis using readerWrite_inv [OF assms(1)] by (simp add: readerStep_def)
  next
    case RxOff
    have "flowInv arrived (s\<lparr>rf_msc := rf_msc s @ [mscCommand (ch_id (rf_ch s)) True], rf_rx := RxWait\<rparr>)"
      using inv RxOff by (intro flowInvI [of _ fs]) (auto simp: flow_defs flowList_def split: retry_pc.splits)
    then show ?thesis using RxOff by (simp add: readerStep_def)
  next
    case RxWait
    then have "\<not> rx_thread (rf_ch s)" using assms(2) by simp
    moreover have "fs \<noteq> []" using inv(2) RxWait by (simp add: readerOk_def)
    moreover from this have "rx_fl (rf_ch s) \<noteq> 0" using inv(1) storeList_null by (metis flowList_def)
    ultimately have "flowInv arrived (startThread s)"
      using inv RxWait
      by (intro flowInvI [of _ fs]) (auto simp: flow_defs flowList_def startThread_def split: retry_pc.splits)
    then show ?thesis using RxWait by (simp add: readerStep_def)
  qed
qed

section \<open>Runs\<close>

fun arrivals :: "flow_label list \<Rightarrow> gsm_frame list" where
  "arrivals [] = []"
| "arrivals (FrameFor f # ls) = f # arrivals ls"
| "arrivals (l # ls) = arrivals ls"

lemma arrivals_append [simp]: "arrivals (ls @ ms) = arrivals ls @ arrivals ms"
  by (induction ls rule: arrivals.induct) simp_all

lemma flowInv_start: "flowInv [] (flowStart advanced c pty spawn)"
  by (rule flowInvI [of _ "[]"])
    (simp_all add: flow_defs flowList_def storeList_def flowStart_def fc_initContext_def noFrames_def)

lemma flowInv_arrives:
  assumes "flowInv arrived s" "rf_rx s = RxIdle"
  shows "flowInv (arrived @ [f]) (s\<lparr>rf_rx := RxGot f\<rparr>)"
proof -
  from assms(1) obtain fs where inv: "flowList s fs" "readerOk s fs" "retryOk s fs"
    "fs \<noteq> [] \<longrightarrow> rx_fl_written (rf_ch s) \<le> length (fr_data (hd fs))"
    "rf_out s @ flowPending s fs = octetsOf (rf_log s)" "set (rf_asserts s) \<subseteq> {AssertPty, GSM0710MUXD_PTY_WRITE_ERR}"
    "subseq (rf_log s @ inHand s) arrived" by (rule flowInvE)
  have "subseq (rf_log s @ [f]) (arrived @ [f])" using inv(7) assms(2) by (simp add: inHand_def)
  then show ?thesis using inv(1-6) assms(2)
    by (intro flowInvI [of _ fs]; simp add: flow_defs flowList_def cong: retry_pc.case_cong)
qed

lemma flow_run_inv:
  "flow_run s ls r \<Longrightarrow> flowInv arrived s \<Longrightarrow> CloseChannel \<notin> set ls \<Longrightarrow> \<exists>s'. r = Inr s' \<and> flowInv (arrived @ arrivals ls) s'"
proof (induction rule: flow_run.induct)
  case (more s ls s1 l r)
  then have s1: "flowInv (arrived @ arrivals ls) s1" by auto
  from more.hyps(2) show ?case
  proof (cases rule: flow_step.cases)
    case (arrives f)
    then show ?thesis using flowInv_arrives [OF s1] by simp
  next
    case reader
    then show ?thesis using readerStep_inv [OF s1] by simp
  next
    case retry
    then show ?thesis using retryStep_inv [OF s1] by simp
  qed (use more.prems in simp)
qed simp

text \<open>C12. Data for an application is delivered in order. However the two threads take turns, whatever the terminal takes at
  a time or answers with, and whether threads can be created or not: no step follows a bad pointer or finds the list
  in a state it does not expect, and the octets the terminal took and those that wait in the list and in
  the thread are together, in this order, the data of the frames the channel accepted; these came in this order. That holds as long
  as the channel is not closed; what closing does is shown in \<open>MuxFlowFaults\<close>.\<close>

theorem delivery_in_order:
  assumes "flow_run (flowStart advanced c pty spawn) ls r" "CloseChannel \<notin> set ls"
  shows "\<exists>s fs. r = Inr s \<and> flowList s fs \<and> rf_out s @ flowPending s fs = octetsOf (rf_log s) \<and>
    subseq (rf_log s @ inHand s) (arrivals ls) \<and> set (rf_asserts s) \<subseteq> {AssertPty, GSM0710MUXD_PTY_WRITE_ERR}"
proof -
  from flow_run_inv [OF assms(1) flowInv_start assms(2)] obtain s where "r = Inr s" "flowInv (arrivals ls) s" by auto
  then show ?thesis by (auto simp: flowInv_def)
qed

section \<open>Delivery comes to an end\<close>

text \<open>With a terminal that takes everything and threads that can be created, a bound on the steps of the two threads.\<close>

definition flowLen :: "rx_flow \<Rightarrow> nat" where
  "flowLen s = card (dom (map_of (fl_cells (rf_fl s)))) - 1"

definition flowWork :: "rx_flow \<Rightarrow> nat" where
  "flowWork s = (case rf_rx s of RxIdle \<Rightarrow> 0 | RxGot f \<Rightarrow> 3 | RxWrite f \<Rightarrow> 1 | RxOff \<Rightarrow> 6 | RxWait \<Rightarrow> 5) +
     (case rf_rt s of RtNone \<Rightarrow> 0 | RtStart \<Rightarrow> 4 | RtWrite f w \<Rightarrow> 5 | RtPop \<Rightarrow> 4 | RtOn \<Rightarrow> 2 | RtEnd \<Rightarrow> 1) + 2 * flowLen s"

definition threadsOk :: "rx_flow \<Rightarrow> bool" where
  "threadsOk s \<longleftrightarrow> rf_spawn s = [] \<and> 0 \<le> ch_fd (rf_ch s) \<and> (rf_rt s = RtNone \<longrightarrow> \<not> rx_fc_off (rf_ch s))"

lemma storeList_length: "storeList st p fs \<Longrightarrow> card (dom (map_of (fl_cells st))) - 1 = length fs"
  by (auto simp: storeList_def flHolds_def flNodes_def card_insert_if distinct_card split: if_splits dest!: flChain_length)

lemma cacheRemaining_keeps:
  "fc_cacheRemainingFrameData s f n = Inr s' \<Longrightarrow> ch_fd (rf_ch s') = ch_fd (rf_ch s) \<and> rx_fc_off (rf_ch s') = rx_fc_off (rf_ch s) \<and>
    rf_spawn s' = rf_spawn s \<and> rf_rt s' = rf_rt s"
  by (auto simp: fc_cacheRemainingFrameData_def assertErr_def Let_def res_simps split: if_splits)

lemma cacheFrame_keeps:
  "fc_cacheFrameData s f = Inr s' \<Longrightarrow> ch_fd (rf_ch s') = ch_fd (rf_ch s) \<and> rx_fc_off (rf_ch s') = rx_fc_off (rf_ch s) \<and>
    rf_spawn s' = rf_spawn s \<and> rf_rt s' = rf_rt s \<and> rf_pty s' = rf_pty s"
  by (auto simp: fc_cacheFrameData_def Let_def res_simps split: if_splits)

lemma readerStep_threads:
  assumes "readerStep s = Inr s'" "threadsOk s"
  shows "threadsOk s'"
proof (cases "rf_rx s")
  case (RxWrite f)
  show ?thesis
    using assms RxWrite
    by (cases rule: ptyWrite_cases [of s "fr_data f"])
      (auto simp: readerStep_def readerWrite_def threadsOk_def assertErr_def res_simps split: if_splits dest!: cacheRemaining_keeps)
next
  case (RxGot f)
  then show ?thesis using assms
    by (auto simp: readerStep_def threadsOk_def res_simps split: if_splits dest!: cacheFrame_keeps)
qed (use assms in \<open>auto simp: readerStep_def threadsOk_def startThread_def\<close>)

lemma retryStep_threads:
  assumes "flowInv arrived s" "retryStep s = Inr s'" "threadsOk s"
  shows "threadsOk s'"
proof (cases "rf_rt s")
  case (RtWrite f w)
  show ?thesis
    using assms RtWrite
    by (cases rule: ptyWrite_cases [of s "drop w (fr_data f)"])
      (auto simp: retryStep_def threadsOk_def assertErr_def split: if_splits)
next
  case RtEnd
  then have "\<not> rx_fc_off (rf_ch s)" using assms(1) by (auto simp: flowInv_def retryOk_def)
  then show ?thesis using assms RtEnd by (auto simp: retryStep_def threadsOk_def)
qed (use assms in \<open>auto simp: retryStep_def retryPop_def threadsOk_def res_simps split: option.splits\<close>)

lemma ptyWrite_all: "0 \<le> ch_fd (rf_ch s) \<Longrightarrow> rf_pty s = [] \<Longrightarrow> ptyWrite s xs = (s\<lparr>rf_out := rf_out s @ xs\<rparr>, Inr (length xs))"
  by (simp add: ptyWrite_def)

lemma readerStep_work:
  assumes "flowInv arrived s" "threadsOk s" "rf_pty s = []" "rf_rx s \<noteq> RxIdle" "\<not> (rf_rx s = RxWait \<and> rx_thread (rf_ch s))"
    "readerStep s = Inr s'"
  shows "flowWork s' < flowWork s \<and> rf_pty s' = []"
proof -
  from assms(1) obtain fs where inv: "flowList s fs" "readerOk s fs" "retryOk s fs"
    "fs \<noteq> [] \<longrightarrow> rx_fl_written (rf_ch s) \<le> length (fr_data (hd fs))"
    "rf_out s @ flowPending s fs = octetsOf (rf_log s)" "set (rf_asserts s) \<subseteq> {AssertPty, GSM0710MUXD_PTY_WRITE_ERR}"
    "subseq (rf_log s @ inHand s) arrived" by (rule flowInvE)
  show ?thesis
  proof (cases "rf_rx s")
    case (RxGot f)
    show ?thesis
    proof (cases "rx_fc_off (rf_ch s)")
      case True
      then have "rx_fl (rf_ch s) \<noteq> 0" using inv(1) by (simp add: flowList_def)
      from cacheFrame_ok [OF inv(1) this, of f] obtain st p where c: "fc_cacheFrameData s f =
          Inr (if rx_fl_total (rf_ch s) + length (fr_data f) > RX_FLOW_CTRL_HIGH_WATERMARK then s\<lparr>rf_dropped := rf_dropped s + 1\<rparr>
            else s\<lparr>rf_fl := st, rf_ch := (rf_ch s)\<lparr>rx_fl_total := rx_fl_total (rf_ch s) + length (fr_data f), rx_fl := p\<rparr>,
               rf_log := rf_log s @ [f]\<rparr>)" "storeList st p (fs @ [f])" by blast
      have "flowLen s = length fs" using inv(1) by (auto simp: flowList_def flowLen_def dest: storeList_length)
      moreover have "flowLen (s\<lparr>rf_fl := st\<rparr>) = Suc (length fs)" using storeList_length [OF c(2)] by (simp add: flowLen_def)
      ultimately show ?thesis using assms(3,6) RxGot True c(1)
        by (auto simp: readerStep_def flowWork_def flowLen_def split: if_splits)
    qed (use assms RxGot in \<open>auto simp: readerStep_def flowWork_def flowLen_def\<close>)
  next
    case (RxWrite f)
    then show ?thesis using assms
      by (auto simp: readerStep_def readerWrite_def threadsOk_def ptyWrite_all flowWork_def flowLen_def)
  next
    case RxWait
    then have "rf_rt s = RtNone" using inv(2,3) assms(5) by (auto simp: readerOk_def retryOk_def split: retry_pc.splits)
    then show ?thesis using assms RxWait
      by (auto simp: readerStep_def startThread_def threadsOk_def flowWork_def flowLen_def)
  qed (use assms in \<open>auto simp: readerStep_def flowWork_def flowLen_def\<close>)
qed

lemma retryStep_work:
  assumes "flowInv arrived s" "threadsOk s" "rf_pty s = []" "rf_rt s \<noteq> RtNone" "retryStep s = Inr s'"
  shows "flowWork s' < flowWork s \<and> rf_pty s' = []"
proof -
  from assms(1) obtain fs where inv: "flowList s fs" "readerOk s fs" "retryOk s fs"
    "fs \<noteq> [] \<longrightarrow> rx_fl_written (rf_ch s) \<le> length (fr_data (hd fs))"
    "rf_out s @ flowPending s fs = octetsOf (rf_log s)" "set (rf_asserts s) \<subseteq> {AssertPty, GSM0710MUXD_PTY_WRITE_ERR}"
    "subseq (rf_log s @ inHand s) arrived" by (rule flowInvE)
  from flowList_pop [OF inv(1)] obtain st where
    st: "retryPop s = Inr (s\<lparr>rf_fl := st\<rparr>, case fs of [] \<Rightarrow> None | f # _ \<Rightarrow> Some f)" "storeList st (rx_fl (rf_ch s)) (tl fs)"
    by blast
  have len: "flowLen s = length fs" using inv(1) by (auto simp: flowList_def flowLen_def dest: storeList_length)
  have len': "flowLen (s\<lparr>rf_fl := st\<rparr>) = length fs - 1" using storeList_length [OF st(2)] by (simp add: flowLen_def)
  show ?thesis
  proof (cases "rf_rt s")
    case RtStart
    then have "fs \<noteq> []" using inv(3) by (auto simp: retryOk_def)
    then show ?thesis using assms(3,5) RtStart st(1) len len'
      by (auto simp: retryStep_def flowWork_def flowLen_def split: list.splits)
  next
    case (RtWrite f w)
    then show ?thesis using assms
      by (auto simp: retryStep_def threadsOk_def ptyWrite_all flowWork_def flowLen_def)
  next
    case RtPop
    then show ?thesis using assms(3,5) st(1) len len'
      by (auto simp: retryStep_def flowWork_def flowLen_def split: list.splits)
  qed (use assms in \<open>auto simp: retryStep_def flowWork_def flowLen_def\<close>)
qed

definition threadLabels :: "flow_label set" where
  "threadLabels = {ReaderStep, RetryStep}"

lemma threads_step:
  assumes "flow_step s l (Inr s')" "l \<in> threadLabels" "flowInv arrived s" "threadsOk s"
  shows "flowInv arrived s' \<and> threadsOk s' \<and> (rf_pty s = [] \<longrightarrow> flowWork s' < flowWork s \<and> rf_pty s' = [])"
  using assms(1)
proof (cases rule: flow_step.cases)
  case reader
  then show ?thesis
    using readerStep_inv [OF assms(3)] readerStep_threads assms(4) readerStep_work [OF assms(3,4)] by fastforce
next
  case retry
  then show ?thesis
    using retryStep_inv [OF assms(3)] retryStep_threads [OF assms(3)] assms(4) retryStep_work [OF assms(3,4)] by fastforce
qed (use assms(2) in \<open>auto simp: threadLabels_def\<close>)

lemma threads_run:
  "flow_run s ms r \<Longrightarrow> set ms \<subseteq> threadLabels \<Longrightarrow> flowInv arrived s \<Longrightarrow> threadsOk s \<Longrightarrow> rf_pty s = [] \<Longrightarrow> r = Inr s' \<Longrightarrow>
   length ms + flowWork s' \<le> flowWork s \<and> flowInv arrived s' \<and> threadsOk s' \<and> rf_pty s' = []"
proof (induction arbitrary: s' rule: flow_run.induct)
  case (more s ls s1 l r)
  then have "length ls + flowWork s1 \<le> flowWork s \<and> flowInv arrived s1 \<and> threadsOk s1 \<and> rf_pty s1 = []" by simp
  then show ?case using threads_step [of s1 l s' arrived] more.hyps(2) more.prems by auto
qed simp

lemma run_threads: "flow_run s ls r \<Longrightarrow> flowInv arrived s \<Longrightarrow> threadsOk s \<Longrightarrow> CloseChannel \<notin> set ls \<Longrightarrow> r = Inr s' \<Longrightarrow> threadsOk s'"
proof (induction arbitrary: s' rule: flow_run.induct)
  case (more s ls s1 l r)
  then have t: "threadsOk s1" by simp
  from flow_run_inv [OF more.hyps(1) more.prems(1)] more.prems(3) have i: "flowInv (arrived @ arrivals ls) s1" by auto
  from more.hyps(2) show ?case
  proof (cases rule: flow_step.cases)
    case arrives
    then show ?thesis using t more.prems by (auto simp: threadsOk_def)
  next
    case reader
    then show ?thesis using t more.prems readerStep_threads by simp
  next
    case retry
    then show ?thesis using t more.prems retryStep_threads [OF i] by simp
  qed (use more.prems in simp)
qed simp

text \<open>Nothing blocks the two threads for good.\<close>

lemma threads_stuck:
  assumes "flowInv arrived s" "threadsOk s" "\<And>l r. l \<in> threadLabels \<Longrightarrow> \<not> flow_step s l r"
  shows "rf_rx s = RxIdle \<and> rf_rt s = RtNone \<and> \<not> rx_fc_off (rf_ch s) \<and> rf_out s = octetsOf (rf_log s)"
proof -
  have rt: "rf_rt s = RtNone"
    using assms(3) [of RetryStep] by (auto simp: threadLabels_def flow_step_simps)
  then have "\<not> rx_thread (rf_ch s)" using assms(1) by (auto simp: flowInv_def retryOk_def)
  then have rx: "rf_rx s = RxIdle"
    using assms(3) [of ReaderStep] by (auto simp: threadLabels_def flow_step_simps)
  have "\<not> rx_fc_off (rf_ch s)" using assms(2) rt by (simp add: threadsOk_def)
  then show ?thesis using rt rx assms(1) by (auto simp: flowInv_def flowPending_def readerOk_def)
qed

text \<open>C13. Delivery comes to an end. From any point that the two threads reach, when threads can be created, the channel is open and not closed, and the terminal takes what it is given: the
  threads make at most \<open>flowWork\<close> steps more before the next frame, whatever their order, and where neither can go on,
  the terminal has the data of all frames that were accepted, the thread has ended and the channel is not
  throttled any more.\<close>

theorem delivery_completes:
  assumes "flow_run (flowStart advanced c pty []) ls (Inr s)" "CloseChannel \<notin> set ls" "0 \<le> ch_fd c" "rf_pty s = []"
    "flow_run s ms (Inr s')" "set ms \<subseteq> threadLabels"
  shows "length ms \<le> flowWork s \<and>
    ((\<forall>l \<in> threadLabels. \<forall>r. \<not> flow_step s' l r) \<longrightarrow>
      rf_out s' = octetsOf (rf_log s') \<and> rf_rx s' = RxIdle \<and> rf_rt s' = RtNone \<and> \<not> rx_fc_off (rf_ch s'))"
proof -
  from flow_run_inv [OF assms(1) flowInv_start assms(2)] have i: "flowInv (arrivals ls) s" by simp
  have "threadsOk (flowStart advanced c pty [])" using assms(3) by (simp add: threadsOk_def flowStart_def fc_initContext_def)
  from run_threads [OF assms(1) flowInv_start this assms(2) refl] have "threadsOk s" .
  from threads_run [OF assms(5,6) i this assms(4) refl] show ?thesis using threads_stuck [of "arrivals ls" s'] by auto
qed

section \<open>Running the steps\<close>

definition flowOne :: "rx_flow \<Rightarrow> flow_label \<Rightarrow> rx_flow res option" where
  "flowOne s l = (case l of
     FrameFor f \<Rightarrow> if rf_rx s = RxIdle \<and> passes s f then Some (Inr (s\<lparr>rf_rx := RxGot f\<rparr>)) else None
   | ReaderStep \<Rightarrow> if rf_rx s \<noteq> RxIdle \<and> \<not> (rf_rx s = RxWait \<and> rx_thread (rf_ch s)) then Some (readerStep s) else None
   | RetryStep \<Rightarrow> if rf_rt s \<noteq> RtNone then Some (retryStep s) else None
   | CloseChannel \<Rightarrow> if rf_rx s = RxIdle then Some (logical_channel_close s) else None)"

fun flowExec :: "rx_flow \<Rightarrow> flow_label list \<Rightarrow> rx_flow res option" where
  "flowExec s [] = Some (Inr s)"
| "flowExec s (l # ls) = (case flowOne s l of
     Some (Inr s1) \<Rightarrow> flowExec s1 ls | Some (Inl e) \<Rightarrow> if ls = [] then Some (Inl e) else None | None \<Rightarrow> None)"

lemma flowOne_step: "flowOne s l = Some r \<longleftrightarrow> flow_step s l r"
  by (cases l) (auto simp: flowOne_def flow_step_simps)

lemma flow_run_first: "flow_run s1 ls r \<Longrightarrow> flow_step s l (Inr s1) \<Longrightarrow> flow_run s (l # ls) r"
proof (induction rule: flow_run.induct)
  case (none s1)
  then show ?case using flow_run.more [OF flow_run.none, of s l "Inr s1"] by simp
next
  case (more s1 ls s2 k r)
  then show ?case using flow_run.more [of s "l # ls" s2 k r] by simp
qed

lemma flow_run_snoc: "flow_run s (ls @ [l]) r \<longleftrightarrow> (\<exists>s1. flow_run s ls (Inr s1) \<and> flow_step s1 l r)"
  by (subst flow_run.simps) auto

lemma flow_run_Nil: "flow_run s [] r \<longleftrightarrow> r = Inr s"
  by (subst flow_run.simps) auto

lemma flow_run_Cons: "flow_run s (l # ls) (Inr t) \<longleftrightarrow> (\<exists>u. flow_step s l (Inr u) \<and> flow_run u ls (Inr t))"
proof (induction ls arbitrary: t rule: rev_induct)
  case Nil
  show ?case using flow_run_snoc [of s "[]" l] by (auto simp: flow_run_Nil)
next
  case (snoc k ls)
  have "flow_run s (l # ls @ [k]) (Inr t) \<longleftrightarrow> (\<exists>s1. flow_run s (l # ls) (Inr s1) \<and> flow_step s1 k (Inr t))"
    using flow_run_snoc [of s "l # ls" k] by simp
  then show ?case using snoc flow_run_snoc by auto
qed

lemma flowExec_run: "flowExec s ls = Some r \<Longrightarrow> flow_run s ls r"
proof (induction s ls rule: flowExec.induct)
  case (2 s l ls)
  show ?case
  proof (cases "flowOne s l")
    case (Some r1)
    then show ?thesis
    proof (cases r1)
      case (Inl e)
      then have "ls = []" "r = Inl e" using 2 Some by (auto split: if_splits)
      then show ?thesis using flow_run.more [OF flow_run.none, of s l r] Some Inl by (simp add: flowOne_step)
    next
      case (Inr s1)
      then have "flow_run s1 ls r" using 2 Some by simp
      then show ?thesis using flow_run_first Some Inr by (simp add: flowOne_step)
    qed
  qed (use 2 in simp)
qed (auto intro: flow_run.none)

end
