(* ===== verification/MuxFlowFaults.thy ===== *)
theory MuxFlowFaults
  imports MuxFlow MuxRoundTrip
begin

text \<open>
  What goes wrong in the flow control of the multiplexer, each with a run of \<open>MuxFlow\<close> that leads there, and the witnesses
  of its theorems.
\<close>

lemmas flow_ops = flowOne_def readerStep_def readerWrite_def retryStep_def retryPop_def startThread_def ptyWrite_def
  flowStart_def passes_def fc_initContext_def fc_cacheRemainingFrameData_def fc_cacheFrameData_def fl_init_def fl_pushFrame_def
  fl_popFrame_def fl_isEmpty_def flCalloc_def flRead_def flWrite_def flFree_def noFrames_def

definition throttled :: "gsm_frame \<Rightarrow> flow_label list" where
  "throttled f = [FrameFor f, ReaderStep, ReaderStep, ReaderStep, ReaderStep]"

text \<open>C31. A freed list is read. A frame that the terminal takes in part starts the thread; if the modem closes the
  channel before the thread has taken its first frame, the list is freed and the thread reads it. Closing such a channel a second
  time, as a restart of the multiplexer does with every channel, reads it as well.\<close>

theorem retry_uses_freed_list:
  assumes "0 \<le> ch_fd c" "1 < length (fr_data f)" "advanced \<or> length (fr_data f) \<le> negotiated_N1 c"
  shows "flow_run (flowStart advanced c [Wrote 1] []) (throttled f @ [CloseChannel, RetryStep]) (Inl UseAfterFree) \<and>
    flow_run (flowStart advanced c [Wrote 1] []) (throttled f @ [CloseChannel, CloseChannel]) (Inl UseAfterFree)"
proof -
  have "flowExec (flowStart advanced c [Wrote 1] []) (throttled f @ [CloseChannel, l]) = Some (Inl UseAfterFree)"
    if "l = RetryStep \<or> l = CloseChannel" for l
    using that assms by (elim disjE [of "l = RetryStep"]) (simp_all add: throttled_def flow_ops logical_channel_close_def fc_closeContext_def
        fl_destroy_def fl_cleanNodes.simps Let_def)
  then show ?thesis by (auto intro: flowExec_run)
qed

lemma retry_uses_freed_list_witness:
  "flow_run (flowStart False (sampleChannel 1) [Wrote 1] []) (throttled (sampleFrame 2) @ [CloseChannel, RetryStep]) (Inl UseAfterFree) \<and>
   flow_run (flowStart False (sampleChannel 1) [Wrote 1] []) (throttled (sampleFrame 2) @ [CloseChannel, CloseChannel]) (Inl UseAfterFree)"
  by (rule retry_uses_freed_list) (simp_all add: sampleChannel_def sampleFrame_def)

text \<open>What closing leaves behind, and a \<open>write\<close> to a bad descriptor.\<close>

lemma closed_state:
  assumes "logical_channel_close s = Inr s1"
  shows "rf_rx s1 = rf_rx s" "ch_fd (rf_ch s1) < 0" "\<not> rx_fc_off (rf_ch s1)" "negotiated_N1 (rf_ch s1) = 0"
    "rf_advanced s1 = rf_advanced s"
  using assms by (auto simp: logical_channel_close_def fc_closeContext_def Let_def res_simps split: if_splits)

lemma write_hangs:
  assumes "rf_rx t = RxWrite f" "ch_fd (rf_ch t) < 0"
  shows "readerStep t = Inr t" "flow_run t (replicate n ReaderStep) (Inr t)"
proof -
  show r: "readerStep t = Inr t" using assms by (simp add: readerStep_def readerWrite_def ptyWrite_def)
  have "flow_step t ReaderStep (Inr t)" using flow_step.reader [of t] assms r by simp
  then show "flow_run t (replicate n ReaderStep) (Inr t)"
    by (induction n) (auto simp: replicate_append_same [symmetric] intro: flow_run.intros)
qed

text \<open>C33. A closed channel stops the reader. A channel that the modem has closed has no terminal; a frame for it that
  comes out of the frame reader is written
  all the same, to the descriptor -1, and the error is answered by trying again: the reader tries for ever, and whatever steps
  follow, it stays at this \<open>write\<close>, and with it every other channel and the control channel. In the advanced mode
  every frame does this; in the basic mode, where the frame reader drops what is longer than \<open>negotiated_N1\<close>, now zero,
  an empty one.\<close>

theorem closed_channel_hangs_reader:
  assumes "logical_channel_close s = Inr s1" "rf_rx s = RxIdle" "rf_advanced s \<or> fr_data f = []"
  shows "(\<exists>s2. flow_run s1 (FrameFor f # ReaderStep # replicate n ReaderStep) (Inr s2)) \<and>
    (flow_run s1 (FrameFor f # ReaderStep # ms) (Inr s2) \<longrightarrow> rf_rx s2 = RxWrite f \<and> rf_out s2 = rf_out s1)"
proof (intro conjI impI)
  note s1 = closed_state [OF assms(1)]
  let ?w = "s1\<lparr>rf_rx := RxWrite f\<rparr>"
  have "flow_step s1 (FrameFor f) (Inr (s1\<lparr>rf_rx := RxGot f\<rparr>))"
    using s1 assms(2,3) by (auto intro!: flow_step.arrives simp: passes_def)
  moreover have "flow_step (s1\<lparr>rf_rx := RxGot f\<rparr>) ReaderStep (Inr ?w)"
    using flow_step.reader [of "s1\<lparr>rf_rx := RxGot f\<rparr>"] s1 by (simp add: readerStep_def)
  moreover have "flow_run ?w (replicate n ReaderStep) (Inr ?w)" using s1 by (intro write_hangs) simp_all
  ultimately show "\<exists>s2. flow_run s1 (FrameFor f # ReaderStep # replicate n ReaderStep) (Inr s2)"
    by (meson flow_run_Cons)
next
  assume run: "flow_run s1 (FrameFor f # ReaderStep # ms) (Inr s2)"
  note s1 = closed_state [OF assms(1)]
  define P where "P t \<longleftrightarrow> rf_rx t = RxWrite f \<and> ch_fd (rf_ch t) < 0 \<and> rf_out t = rf_out s1" for t :: rx_flow
  have step: "P t'" if "flow_step t l (Inr t')" "P t" for t t' l
    using that(1)
  proof (cases rule: flow_step.cases)
    case retry
    then have r: "retryStep t = Inr t'" by simp
    show ?thesis
    proof (cases "rf_rt t")
      case (RtWrite g w)
      then show ?thesis using r that(2) by (auto simp: P_def retryStep_def ptyWrite_def assertErr_def split: if_splits)
    qed (use r that(2) in \<open>auto simp: P_def retryStep_def retryPop_def res_simps split: option.splits\<close>)
  qed (use that(2) write_hangs(1) in \<open>auto simp: P_def\<close>)
  have runP: "P t'" if "flow_run t ls r" "P t" "r = Inr t'" for t t' ls r
    using that by (induction arbitrary: t' rule: flow_run.induct) (auto intro: step)
  obtain u v where u: "flow_step s1 (FrameFor f) (Inr u)" "flow_step u ReaderStep (Inr v)" "flow_run v ms (Inr s2)"
    using run by (auto simp: flow_run_Cons)
  have "P v" using u(1,2) s1 by (auto simp: flow_step_simps readerStep_def P_def)
  from runP [OF u(3) this refl] show "rf_rx s2 = RxWrite f" "rf_out s2 = rf_out s1" by (simp_all add: P_def)
qed

text \<open>The basic mode and an empty frame.\<close>

lemma closed_channel_hangs_reader_witness:
  "\<exists>s1 s2. logical_channel_close (flowStart False (sampleChannel 1) [] []) = Inr s1 \<and>
    flow_run s1 (FrameFor (sampleFrame 0) # ReaderStep # replicate 2 ReaderStep) (Inr s2) \<and>
    rf_rx s2 = RxWrite (sampleFrame 0) \<and> rf_out s2 = rf_out s1"
proof -
  let ?s = "flowStart False (sampleChannel 1) [] []"
  obtain s1 where s1: "logical_channel_close ?s = Inr s1"
    by (simp add: flow_ops logical_channel_close_def fc_closeContext_def fl_destroy_def Let_def sampleChannel_def)
  have "rf_rx ?s = RxIdle" "fr_data (sampleFrame 0) = []" by (simp_all add: flowStart_def sampleFrame_def)
  with closed_channel_hangs_reader [OF s1, of "sampleFrame 0"] s1 show ?thesis by blast
qed

text \<open>The run in which the command of the old thread comes last.\<close>

definition overtakenRun :: "gsm_frame \<Rightarrow> gsm_frame \<Rightarrow> flow_label list" where
  "overtakenRun f g = throttled f @ [RetryStep, RetryStep, RetryStep, FrameFor g, ReaderStep, ReaderStep, ReaderStep,
     RetryStep, RetryStep, ReaderStep]"

text \<open>C36. The modem is told to go on while the channel is throttled. The thread releases the channel before it sends its command;
  a frame that comes in between and is not taken whole throttles the channel again, its command \<open>FC off\<close> goes out first
  and \<open>FC on\<close> of the old thread after it. The modem keeps sending what the channel has to store.\<close>

theorem flow_off_overtaken:
  assumes "0 \<le> ch_fd c" "length (fr_data f) = 2" "length (fr_data g) = 2" "advanced \<or> 2 \<le> negotiated_N1 c"
  shows "\<exists>s. flow_run (flowStart advanced c [Wrote 1, Wrote 1, Wrote 1] []) (overtakenRun f g) (Inr s) \<and>
    rx_fc_off (rf_ch s) \<and> rf_rt s = RtStart \<and>
    rf_msc s = [mscCommand (ch_id c) True, mscCommand (ch_id c) True, mscCommand (ch_id c) False]"
proof -
  obtain s where "flowExec (flowStart advanced c [Wrote 1, Wrote 1, Wrote 1] []) (overtakenRun f g) = Some (Inr s) \<and>
    rx_fc_off (rf_ch s) \<and> rf_rt s = RtStart \<and>
    rf_msc s = [mscCommand (ch_id c) True, mscCommand (ch_id c) True, mscCommand (ch_id c) False]"
    using assms by (simp add: throttled_def overtakenRun_def flow_ops Let_def)
  then show ?thesis using flowExec_run by blast
qed

lemma flow_off_overtaken_witness:
  "\<exists>s. flow_run (flowStart False (sampleChannel 1) [Wrote 1, Wrote 1, Wrote 1] []) (overtakenRun (sampleFrame 2) (sampleFrame 2)) (Inr s) \<and>
    rx_fc_off (rf_ch s) \<and> rf_rt s = RtStart \<and>
    rf_msc s = [mscCommand (ch_id (sampleChannel 1)) True, mscCommand (ch_id (sampleChannel 1)) True,
      mscCommand (ch_id (sampleChannel 1)) False]"
  by (rule flow_off_overtaken) (simp_all add: sampleChannel_def sampleFrame_def)

text \<open>A throttled channel between two frames: \<open>fs\<close> are in its list and count as \<open>octets\<close>.\<close>

definition storing :: "bool \<Rightarrow> nat \<Rightarrow> gsm_frame list \<Rightarrow> nat \<Rightarrow> rx_flow \<Rightarrow> bool" where
  "storing advanced n1 fs octets s \<longleftrightarrow> flowList s fs \<and> rx_fc_off (rf_ch s) \<and> rf_rx s = RxIdle \<and> 0 \<le> ch_fd (rf_ch s) \<and>
     rf_dropped s = 0 \<and> rf_advanced s = advanced \<and> negotiated_N1 (rf_ch s) = n1 \<and> rx_fl_total (rf_ch s) = octets"

lemma flow_run_append: "flow_run t ms r \<Longrightarrow> flow_run s ls (Inr t) \<Longrightarrow> flow_run s (ls @ ms) r"
proof (induction rule: flow_run.induct)
  case (more t ms s1 l r)
  then show ?case using flow_run.more [of s "ls @ ms" s1 l r] by simp
qed simp

lemma flow_run_two: "flow_step s l (Inr t) \<Longrightarrow> flow_step t k (Inr u) \<Longrightarrow> flow_run s [l, k] (Inr u)"
  by (simp add: flow_run_Cons flow_run_Nil) blast

lemma storing_frame:
  assumes "storing advanced n1 fs octets s" "advanced \<or> length (fr_data g) \<le> n1"
  shows "\<exists>s'. flow_run s [FrameFor g, ReaderStep] (Inr s') \<and> rf_rt s' = rf_rt s \<and> rf_pty s' = rf_pty s \<and>
     rx_fl_written (rf_ch s') = rx_fl_written (rf_ch s) \<and>
     (if octets + length (fr_data g) > RX_FLOW_CTRL_HIGH_WATERMARK
      then rf_dropped s' = 1 \<and> flowList s' fs
      else storing advanced n1 (fs @ [g]) (octets + length (fr_data g)) s')"
proof -
  let ?g = "s\<lparr>rf_rx := RxGot g\<rparr>"
  have s: "flowList ?g fs" "rx_fl (rf_ch ?g) \<noteq> 0" using assms(1) by (auto simp: storing_def flowList_def)
  from cacheFrame_ok [OF s, of g] obtain st p where c: "fc_cacheFrameData ?g g =
      Inr (if rx_fl_total (rf_ch ?g) + length (fr_data g) > RX_FLOW_CTRL_HIGH_WATERMARK then ?g\<lparr>rf_dropped := rf_dropped ?g + 1\<rparr>
        else ?g\<lparr>rf_fl := st, rf_ch := (rf_ch ?g)\<lparr>rx_fl_total := rx_fl_total (rf_ch ?g) + length (fr_data g), rx_fl := p\<rparr>,
               rf_log := rf_log ?g @ [g]\<rparr>)" "storeList st p (fs @ [g])" by blast
  have p: "p \<noteq> 0" using c(2) by (cases "p = 0") (simp_all add: storeList_def)
  have "flow_step s (FrameFor g) (Inr ?g)"
    using assms by (auto intro!: flow_step.arrives simp: storing_def passes_def)
  moreover have "flow_step ?g ReaderStep (readerStep ?g)" by (rule flow_step.reader) simp_all
  moreover obtain s' where s': "readerStep ?g = Inr s'" "s' = (if octets + length (fr_data g) > RX_FLOW_CTRL_HIGH_WATERMARK
        then s\<lparr>rf_dropped := rf_dropped s + 1\<rparr>
        else s\<lparr>rf_fl := st, rf_ch := (rf_ch s)\<lparr>rx_fl_total := octets + length (fr_data g), rx_fl := p\<rparr>,
               rf_log := rf_log s @ [g]\<rparr>)"
    using assms(1) c(1) by (simp add: readerStep_def storing_def)
  ultimately have "flow_run s [FrameFor g, ReaderStep] (Inr s')" using flow_run_two by metis
  then show ?thesis using assms(1) c(2) p
    by (intro exI [of _ s'] conjI) (auto simp: s'(2) storing_def flowList_def)
qed

lemma storing_frames:
  assumes "storing advanced n1 fs octets s" "advanced \<or> length (fr_data g) \<le> n1"
    and "octets + n * length (fr_data g) \<le> RX_FLOW_CTRL_HIGH_WATERMARK"
  shows "\<exists>s'. flow_run s (concat (replicate n [FrameFor g, ReaderStep])) (Inr s') \<and> rf_rt s' = rf_rt s \<and> rf_pty s' = rf_pty s \<and>
     rx_fl_written (rf_ch s') = rx_fl_written (rf_ch s) \<and>
     storing advanced n1 (fs @ replicate n g) (octets + n * length (fr_data g)) s'"
  using assms
proof (induction n arbitrary: s fs octets)
  case 0
  then show ?case by (intro exI [of _ s]) (simp add: flow_run.none)
next
  case (Suc n)
  have "\<not> octets + length (fr_data g) > RX_FLOW_CTRL_HIGH_WATERMARK" using Suc.prems(3) by simp
  then obtain s1 where s1: "flow_run s [FrameFor g, ReaderStep] (Inr s1)" "rf_rt s1 = rf_rt s" "rf_pty s1 = rf_pty s"
    "rx_fl_written (rf_ch s1) = rx_fl_written (rf_ch s)" "storing advanced n1 (fs @ [g]) (octets + length (fr_data g)) s1"
    using storing_frame [OF Suc.prems(1,2)] by auto
  from Suc.IH [OF s1(5) Suc.prems(2)] Suc.prems(3) obtain s2 where
    s2: "flow_run s1 (concat (replicate n [FrameFor g, ReaderStep])) (Inr s2)" "rf_rt s2 = rf_rt s1" "rf_pty s2 = rf_pty s1"
    "rx_fl_written (rf_ch s2) = rx_fl_written (rf_ch s1)"
    "storing advanced n1 ((fs @ [g]) @ replicate n g) (octets + length (fr_data g) + n * length (fr_data g)) s2"
    by (auto simp: algebra_simps)
  show ?case using flow_run_append [OF s2(1) s1(1)] s2 s1
    by (intro exI [of _ s2]) (simp add: algebra_simps)
qed

lemma storing_start:
  assumes "storing advanced n1 (f # fs) octets s" "rf_rt s = RtStart" "rx_fl_written (rf_ch s) = 1"
    "length (fr_data f) = 2" "rf_pty s = Wrote 1 # rs"
  shows "\<exists>s'. flow_run s [RetryStep, RetryStep] (Inr s') \<and> storing advanced n1 fs octets s' \<and> rf_rt s' = RtPop \<and> rf_pty s' = rs"
proof -
  have "flowList s (f # fs)" using assms(1) by (simp add: storing_def)
  from flowList_pop [OF this] obtain st where st: "retryPop s = Inr (s\<lparr>rf_fl := st\<rparr>, Some f)" "storeList st (rx_fl (rf_ch s)) fs"
    by auto
  let ?s1 = "s\<lparr>rf_fl := st, rf_rt := RtWrite f 1, rf_ch := (rf_ch s)\<lparr>rx_thread := True, rx_fl_written := 0\<rparr>\<rparr>"
  let ?s2 = "?s1\<lparr>rf_pty := rs, rf_out := rf_out s @ take 1 (drop 1 (fr_data f)), rf_rt := RtPop\<rparr>"
  have "retryStep s = Inr ?s1" using st(1) assms(2,3) by (simp add: retryStep_def)
  moreover have "retryStep ?s1 = Inr ?s2" using assms(1,4,5) by (simp add: retryStep_def ptyWrite_def storing_def)
  ultimately have "flow_run s [RetryStep, RetryStep] (Inr ?s2)"
    using flow_step.retry [of s] flow_step.retry [of ?s1] assms(2) by (intro flow_run_two [of _ _ ?s1]) simp_all
  then show ?thesis using assms(1) st(2) by (intro exI [of _ ?s2]) (simp add: storing_def flowList_def)
qed

lemma storing_pop:
  assumes "storing advanced n1 (g # fs) octets s" "rf_rt s = RtPop" "k \<le> length (fr_data g)" "rf_pty s = Wrote k # rs"
  shows "\<exists>s'. flow_run s [RetryStep, RetryStep] (Inr s') \<and> storing advanced n1 fs octets s' \<and>
     rf_rt s' = (if k < length (fr_data g) then RtWrite g k else RtPop) \<and> rf_pty s' = rs"
proof -
  have "flowList s (g # fs)" using assms(1) by (simp add: storing_def)
  from flowList_pop [OF this] obtain st where st: "retryPop s = Inr (s\<lparr>rf_fl := st\<rparr>, Some g)" "storeList st (rx_fl (rf_ch s)) fs"
    by auto
  let ?s1 = "s\<lparr>rf_fl := st, rf_rt := RtWrite g 0\<rparr>"
  let ?s2 = "?s1\<lparr>rf_pty := rs, rf_out := rf_out s @ take k (fr_data g),
      rf_rt := (if k < length (fr_data g) then RtWrite g k else RtPop)\<rparr>"
  have "retryStep s = Inr ?s1" using st(1) assms(2) by (simp add: retryStep_def)
  moreover have "retryStep ?s1 = Inr ?s2" using assms(1,3,4) by (simp add: retryStep_def ptyWrite_def storing_def)
  ultimately have "flow_run s [RetryStep, RetryStep] (Inr ?s2)"
    using flow_step.retry [of s] flow_step.retry [of ?s1] assms(2) by (intro flow_run_two [of _ _ ?s1]) simp_all
  then show ?thesis using assms(1) st(2) by (intro exI [of _ ?s2]) (simp add: storing_def flowList_def)
qed

lemma storing_drained:
  assumes "storing advanced n1 (replicate n g @ fs) octets s" "rf_rt s = RtPop"
    "rf_pty s = replicate n (Wrote (length (fr_data g))) @ rs"
  shows "\<exists>s'. flow_run s (replicate (2 * n) RetryStep) (Inr s') \<and> storing advanced n1 fs octets s' \<and> rf_rt s' = RtPop \<and> rf_pty s' = rs"
  using assms
proof (induction n arbitrary: s)
  case 0
  then show ?case by (intro exI [of _ s]) (simp add: flow_run.none)
next
  case (Suc n)
  from storing_pop [of advanced n1 g "replicate n g @ fs" octets s "length (fr_data g)"] Suc.prems obtain s1 where
    s1: "flow_run s [RetryStep, RetryStep] (Inr s1)" "storing advanced n1 (replicate n g @ fs) octets s1" "rf_rt s1 = RtPop"
    "rf_pty s1 = replicate n (Wrote (length (fr_data g))) @ rs" by auto
  from Suc.IH [OF s1(2-4)] obtain s2 where s2: "flow_run s1 (replicate (2 * n) RetryStep) (Inr s2)"
    "storing advanced n1 fs octets s2" "rf_rt s2 = RtPop" "rf_pty s2 = rs" by blast
  show ?case using flow_run_append [OF s2(1) s1(1)] s2 by (intro exI [of _ s2]) simp
qed

lemma storing_begin:
  assumes "0 \<le> ch_fd c" "length (fr_data f) = 2" "advanced \<or> 2 \<le> negotiated_N1 c"
  shows "\<exists>s. flow_run (flowStart advanced c (Wrote 1 # rs) []) (throttled f) (Inr s) \<and>
     storing advanced (negotiated_N1 c) [f] 1 s \<and> rf_rt s = RtStart \<and> rf_pty s = rs \<and> rx_fl_written (rf_ch s) = 1"
proof -
  let ?s0 = "flowStart advanced c (Wrote 1 # rs) []"
  let ?w = "?s0\<lparr>rf_rx := RxWrite f, rf_pty := rs, rf_out := take 1 (fr_data f)\<rparr>"
  have "flowList ?w []" by (simp add: flowList_def storeList_def flowStart_def fc_initContext_def noFrames_def)
  from cacheRemaining_ok [OF this, of f 1] obtain st p where st: "storeList st p [f]" and
    r: "fc_cacheRemainingFrameData ?w f 1 = Inr (?w\<lparr>rf_fl := st, rf_ch := (rf_ch ?w)\<lparr>rx_fl := p,
      rx_fl_total := length (fr_data f) - 1, rx_fl_written := 1\<rparr>, rf_log := rf_log ?w @ [f]\<rparr>)" by blast
  have p: "p \<noteq> 0" using st by (cases "p = 0") (simp_all add: storeList_def)
  have w: "readerWrite (?s0\<lparr>rf_rx := RxWrite f\<rparr>) f = bnd (fc_cacheRemainingFrameData ?w f 1) (\<lambda>s. Inr (s\<lparr>rf_rx := RxOff\<rparr>))"
    using assms by (simp add: readerWrite_def ptyWrite_def flowStart_def fc_initContext_def)
  obtain s where "flowExec ?s0 (throttled f) = Some (Inr s) \<and> s = ?w\<lparr>rf_fl := st, rf_ch := (rf_ch ?w)\<lparr>rx_fl := p,
      rx_fl_total := 1, rx_fl_written := 1, rx_fc_off := True\<rparr>, rf_log := [f], rf_rx := RxIdle, rf_rt := RtStart,
      rf_msc := [mscCommand (ch_id c) True]\<rparr>"
    using assms w [unfolded r] by (auto simp: throttled_def flowOne_def readerStep_def startThread_def passes_def flowStart_def fc_initContext_def)
  then show ?thesis using flowExec_run assms(1) st p
    by (intro exI [of _ s]) (auto simp: storing_def flowList_def flowStart_def fc_initContext_def)
qed

text \<open>The run in which the limit is reached by octets written long ago.\<close>

definition drainedRun :: "gsm_frame \<Rightarrow> gsm_frame \<Rightarrow> gsm_frame \<Rightarrow> nat \<Rightarrow> flow_label list" where
  "drainedRun f g h n = throttled f @ concat (replicate n [FrameFor g, ReaderStep]) @ replicate (2 * n + 2) RetryStep @
     [FrameFor h, ReaderStep]"

definition drainedPty :: "nat \<Rightarrow> nat \<Rightarrow> write_result list" where
  "drainedPty m l = [Wrote 1, Wrote 1] @ replicate m (Wrote l) @ [Wrote (l - 1)]"

text \<open>C37. The limit on what a channel stores counts octets that are stored no longer. The thread does not take what it has
  written off the octets: after \<open>m + 1\<close> frames, of which the terminal has taken all but the last octet, a frame that would
  exceed the limit together with all of them is dropped while one octet waits.\<close>

theorem watermark_counts_written_octets:
  assumes "0 \<le> ch_fd c" "length (fr_data f) = 2" "0 < length (fr_data g)"
    and "1 + Suc m * length (fr_data g) \<le> 4096" "4096 < 1 + Suc m * length (fr_data g) + length (fr_data h)"
    and "advanced \<or> max 2 (max (length (fr_data g)) (length (fr_data h))) \<le> negotiated_N1 c"
  shows "\<exists>s. flow_run (flowStart advanced c (drainedPty m (length (fr_data g))) []) (drainedRun f g h (Suc m)) (Inr s) \<and>
    rf_dropped s = 1 \<and> length (flowPending s []) = 1 \<and> flowLen s = 0"
proof -
  let ?l = "length (fr_data g)" and ?n = "negotiated_N1 c"
  have N1: "advanced \<or> 2 \<le> ?n" "advanced \<or> ?l \<le> ?n" "advanced \<or> length (fr_data h) \<le> ?n" using assms(6) by auto
  from storing_begin [OF assms(1,2) N1(1)] obtain s1 where
    s1: "flow_run (flowStart advanced c (drainedPty m ?l) []) (throttled f) (Inr s1)" "storing advanced ?n [f] 1 s1"
      "rf_rt s1 = RtStart" "rf_pty s1 = Wrote 1 # replicate m (Wrote ?l) @ [Wrote (?l - 1)]" "rx_fl_written (rf_ch s1) = 1"
    by (auto simp: drainedPty_def)
  have "1 + Suc m * ?l \<le> RX_FLOW_CTRL_HIGH_WATERMARK" using assms(4) by (simp add: RX_FLOW_CTRL_HIGH_WATERMARK_def)
  from storing_frames [OF s1(2) N1(2) this] obtain s2 where
    s2: "flow_run s1 (concat (replicate (Suc m) [FrameFor g, ReaderStep])) (Inr s2)" "rf_rt s2 = RtStart"
      "rf_pty s2 = Wrote 1 # replicate m (Wrote ?l) @ [Wrote (?l - 1)]" "rx_fl_written (rf_ch s2) = 1"
      "storing advanced ?n (f # replicate m g @ [g]) (1 + Suc m * ?l) s2"
    using s1(3-5) by (auto simp: replicate_append_same)
  from storing_start [OF s2(5,2,4) assms(2) s2(3)] obtain s3 where
    s3: "flow_run s2 [RetryStep, RetryStep] (Inr s3)" "storing advanced ?n (replicate m g @ [g]) (1 + Suc m * ?l) s3"
      "rf_rt s3 = RtPop" "rf_pty s3 = replicate m (Wrote ?l) @ [Wrote (?l - 1)]" by blast
  from storing_drained [OF s3(2,3,4)] obtain s4 where
    s4: "flow_run s3 (replicate (2 * m) RetryStep) (Inr s4)" "storing advanced ?n [g] (1 + Suc m * ?l) s4"
      "rf_rt s4 = RtPop" "rf_pty s4 = [Wrote (?l - 1)]" by blast
  from storing_pop [OF s4(2,3) _ s4(4)] assms(3) obtain s5 where
    s5: "flow_run s4 [RetryStep, RetryStep] (Inr s5)" "storing advanced ?n [] (1 + Suc m * ?l) s5" "rf_rt s5 = RtWrite g (?l - 1)"
    by auto
  from storing_frame [OF s5(2) N1(3)] assms(5) obtain s6 where
    s6: "flow_run s5 [FrameFor h, ReaderStep] (Inr s6)" "rf_rt s6 = RtWrite g (?l - 1)" "rf_dropped s6 = 1" "flowList s6 []"
    by (auto simp: s5(3) RX_FLOW_CTRL_HIGH_WATERMARK_def)
  have run: "flow_run (flowStart advanced c (drainedPty m ?l) []) (throttled f @ concat (replicate (Suc m) [FrameFor g, ReaderStep]) @
      [RetryStep, RetryStep] @ replicate (2 * m) RetryStep @ [RetryStep, RetryStep] @ [FrameFor h, ReaderStep]) (Inr s6)"
    using s1(1) s2(1) s3(1) s4(1) s5(1) s6(1) by (meson flow_run_append)
  have retries: "[RetryStep, RetryStep] @ replicate (2 * m) RetryStep @ [RetryStep, RetryStep] @ xs =
      replicate (2 * Suc m + 2) RetryStep @ xs" for xs
    by (simp add: replicate_app_Cons_same flip: replicate_add)
  have "flow_run (flowStart advanced c (drainedPty m ?l) []) (drainedRun f g h (Suc m)) (Inr s6)"
    using run unfolding retries drainedRun_def .
  moreover have "length (drop (?l - 1) (fr_data g)) = 1" using assms(3) unfolding length_drop by linarith
  then have "length (flowPending s6 []) = 1" by (simp add: flowPending_def s6(2))
  moreover have "flowLen s6 = 0"
    using s6(4) storeList_length [of "rf_fl s6" "rx_fl (rf_ch s6)" "[]"] by (simp add: flowList_def flowLen_def)
  ultimately show ?thesis using s6(3) by blast
qed

text \<open>Eight frames of 500 octets, then one of 100, in the basic mode with \<open>negotiated_N1\<close> 512.\<close>

lemma watermark_counts_written_octets_witness:
  "\<exists>s. flow_run (flowStart False (sampleChannel 1) (drainedPty 7 500) [])
      (drainedRun (sampleFrame 2) (sampleFrame 500) (sampleFrame 100) (Suc 7)) (Inr s) \<and>
    rf_dropped s = 1 \<and> length (flowPending s []) = 1 \<and> flowLen s = 0"
proof -
  have "length (fr_data (sampleFrame n)) = n" for n by (simp add: sampleFrame_def)
  then show ?thesis
    using watermark_counts_written_octets [of "sampleChannel 1" "sampleFrame 2" "sampleFrame 500" 7 "sampleFrame 100" False]
    by (simp add: sampleChannel_def)
qed

section \<open>Witnesses\<close>

lemma delivery_in_order_witness:
  "\<exists>s fs. flow_run (flowStart False (sampleChannel 1) [Wrote 1] []) (throttled (sampleFrame 2)) (Inr s) \<and> flowList s fs \<and>
    rf_out s @ flowPending s fs = octetsOf (rf_log s) \<and>
    subseq (rf_log s @ inHand s) (arrivals (throttled (sampleFrame 2))) \<and>
    set (rf_asserts s) \<subseteq> {AssertPty, GSM0710MUXD_PTY_WRITE_ERR}"
proof -
  obtain s where "flowExec (flowStart False (sampleChannel 1) [Wrote 1] []) (throttled (sampleFrame 2)) = Some (Inr s)"
    by (simp add: throttled_def flow_ops Let_def sampleChannel_def sampleFrame_def)
  from flowExec_run [OF this] delivery_in_order [OF flowExec_run [OF this]] show ?thesis by (auto simp: throttled_def)
qed

text \<open>The thread delivers the second octet in five steps.\<close>

lemma delivery_completes_witness:
  "\<exists>s s'. flow_run (flowStart False (sampleChannel 1) [Wrote 1] []) (throttled (sampleFrame 2)) (Inr s) \<and>
    flow_run s (replicate 5 RetryStep) (Inr s') \<and> 5 \<le> flowWork s \<and> rf_out s' = replicate 2 0x41"
proof -
  obtain s where s: "flowExec (flowStart False (sampleChannel 1) [Wrote 1] []) (throttled (sampleFrame 2)) = Some (Inr s)"
    "rf_pty s = []"
    and s': "\<exists>s'. flowExec s (replicate 5 RetryStep) = Some (Inr s') \<and> rf_rx s' = RxIdle \<and> rf_rt s' = RtNone \<and>
      rf_log s' = [sampleFrame 2]"
    by (simp add: throttled_def flow_ops Let_def sampleChannel_def sampleFrame_def numeral_nat)
  then obtain s' where r: "flowExec s (replicate 5 RetryStep) = Some (Inr s')" "rf_rx s' = RxIdle" "rf_rt s' = RtNone"
    "rf_log s' = [sampleFrame 2]" by blast
  have stuck: "\<forall>l \<in> threadLabels. \<forall>r. \<not> flow_step s' l r" using r by (simp add: threadLabels_def flow_step_simps)
  from delivery_completes [OF flowExec_run [OF s(1)] _ _ s(2) flowExec_run [OF r(1)]] stuck r(4)
  have "5 \<le> flowWork s \<and> rf_out s' = replicate 2 0x41"
    by (auto simp: throttled_def sampleChannel_def threadLabels_def sampleFrame_def octetsOf_def)
  then show ?thesis using flowExec_run [OF s(1)] flowExec_run [OF r(1)] by blast
qed

end
