(* ===== verification/MuxWatchdog.thy ===== *)
theory MuxWatchdog
  imports MuxWrite
begin

text \<open>
  The supervision of the multiplexer (\<open>watchdog\<close> of \<open>gsm0710muxd.c\<close>), a state machine that the main loop calls every five
  seconds and that the writers to a pseudo terminal call when the terminal is to be opened again. It opens the serial
  device and starts the multiplexer, looks after it while it runs and closes it down.

  The two locks are bits of the state: a call that finds one taken waits for ever, which is the result \<open>None\<close>, and leaves
  the locks as they are. What is outside the state machine is a parameter: \<open>watch_env\<close> has the results of opening the
  device, of the AT commands, of \<open>calloc\<close>, \<open>create_thread\<close> and \<open>c_alloc_channel\<close>, and whether all channels are set up in
  time. \<open>rild_started\<close> stands for the restart of the radio layer as well; \<open>wd_reopen\<close> are the \<open>reopen\<close> bits of the
  channels. The statements behind the \<open>break\<close> of the running state are never executed and are left out.
\<close>

definition GSM0710MUXD_CREATE_THREAD_ERR :: int where "GSM0710MUXD_CREATE_THREAD_ERR = 2"
definition GSM0710MUXD_OPEN_SERIAL_DEV_ERR :: int where "GSM0710MUXD_OPEN_SERIAL_DEV_ERR = 6"
definition GSM0710MUXD_START_MUXER_ERR :: int where "GSM0710MUXD_START_MUXER_ERR = 8"
definition GSM0710MUXD_OUT_OF_MEMORY :: int where "GSM0710MUXD_OUT_OF_MEMORY = 20"

record watch =
  serial_state :: MuxerStates
  watch_lock :: bool
  pts_reopen_lock :: bool
  pts_reopen :: bool
  wd_reopen :: "bool list"
  rild_started :: nat
  main_exit_signal :: bool

record watch_env =
  open_serial_device :: int
  start_muxer :: int
  assembly_thread :: bool
  poll_thread_arg :: bool
  poll_thread :: bool
  alloc_channel :: "int list"
  setup_chnl_complete :: bool

definition unlockReturn :: "watch \<Rightarrow> int \<Rightarrow> watch \<times> int option" where
  "unlockReturn w rc = (w\<lparr>watch_lock := False\<rparr>, Some rc)"

text \<open>The channels are allocated until one fails.\<close>

fun allocChannels :: "int list \<Rightarrow> int" where
  "allocChannels [] = 0"
| "allocChannels (rc # rcs) = (if rc > 0 then rc else allocChannels rcs)"

definition watchInitializing :: "watch_env \<Rightarrow> watch \<Rightarrow> watch \<times> int option" where
  "watchInitializing e w =
     (if start_muxer e < 0 then unlockReturn (w\<lparr>main_exit_signal := True\<rparr>) GSM0710MUXD_START_MUXER_ERR
      else let w = w\<lparr>serial_state := MUX_STATE_MUXING\<rparr> in
        if \<not> assembly_thread e then unlockReturn w GSM0710MUXD_CREATE_THREAD_ERR
        else if \<not> poll_thread_arg e then (w, Some GSM0710MUXD_OUT_OF_MEMORY)
        else if \<not> poll_thread e then unlockReturn w GSM0710MUXD_CREATE_THREAD_ERR
        else let rc = allocChannels (alloc_channel e) in
          if rc > 0 then unlockReturn w rc
          else if \<not> setup_chnl_complete e then (w, None)
          else unlockReturn (if rild_started w = 0 then w\<lparr>rild_started := 1\<rparr> else w) 0)"

text \<open>\<open>open_serial_device\<close> initialises every channel.\<close>

definition watchOpening :: "watch_env \<Rightarrow> watch \<Rightarrow> watch \<times> int option" where
  "watchOpening e w =
     (let w = w\<lparr>wd_reopen := map (\<lambda>_. False) (wd_reopen w)\<rparr> in
      if open_serial_device e \<noteq> 0 then unlockReturn w GSM0710MUXD_OPEN_SERIAL_DEV_ERR
      else watchInitializing e (w\<lparr>serial_state := MUX_STATE_INITILIZING\<rparr>))"

text \<open>The \<open>break\<close> leaves the \<open>switch\<close>.\<close>

definition watchMuxing :: "watch \<Rightarrow> watch \<times> int option" where
  "watchMuxing w = (if pts_reopen_lock w then (w, None) else unlockReturn (w\<lparr>pts_reopen_lock := True, pts_reopen := True\<rparr>) 0)"

definition watchdog :: "watch_env \<Rightarrow> watch \<Rightarrow> watch \<times> int option" where
  "watchdog e w =
     (if watch_lock w then (w, None)
      else let w = w\<lparr>watch_lock := True\<rparr> in
        case serial_state w of
          MUX_STATE_OPENING \<Rightarrow> watchOpening e w
        | MUX_STATE_INITILIZING \<Rightarrow> watchInitializing e w
        | MUX_STATE_MUXING \<Rightarrow> watchMuxing w
        | MUX_STATE_CLOSING \<Rightarrow> unlockReturn (w\<lparr>serial_state := MUX_STATE_OPENING\<rparr>) 0
        | MUX_STATE_PEER_CLOSING \<Rightarrow> unlockReturn (w\<lparr>serial_state := MUX_STATE_OPENING\<rparr>) 0
        | _ \<Rightarrow> unlockReturn w 0)"

section \<open>Runs\<close>

text \<open>What happens to the daemon: a thread calls the watchdog, a control frame changes the state (\<open>extract_frames\<close>), an
  application drops a terminal (\<open>pseudo_device_read\<close>). The run notes for every call the state it found, the bits it
  found and left, and its result.\<close>

datatype watch_event = Supervise watch_env | StateChanged MuxerStates | TerminalDropped nat

record watch_call =
  wc_state :: MuxerStates
  wc_before :: "bool list"
  wc_after :: "bool list"
  wc_result :: "int option"

fun watchRun :: "watch_event list \<Rightarrow> watch \<Rightarrow> watch \<times> watch_call list" where
  "watchRun [] w = (w, [])"
| "watchRun (Supervise e # es) w =
     (let (w1, rc) = watchdog e w; (w2, calls) = watchRun es w1 in
      (w2, \<lparr>wc_state = serial_state w, wc_before = wd_reopen w, wc_after = wd_reopen w1, wc_result = rc\<rparr> # calls))"
| "watchRun (StateChanged st # es) w = watchRun es (w\<lparr>serial_state := st\<rparr>)"
| "watchRun (TerminalDropped n # es) w = watchRun es (w\<lparr>wd_reopen := (wd_reopen w)[n := True]\<rparr>)"

definition watchStart :: "nat \<Rightarrow> watch" where
  "watchStart n = \<lparr>serial_state = MUX_STATE_OPENING, watch_lock = False, pts_reopen_lock = False, pts_reopen = False,
     wd_reopen = replicate n False, rild_started = 0, main_exit_signal = False\<rparr>"

lemmas watch_defs = watchdog_def watchOpening_def watchInitializing_def watchMuxing_def unlockReturn_def Let_def

text \<open>The locks after a call that returns: one path of the start forgets the first, every round of the running multiplexer
  the second.\<close>

lemma watchdog_locks:
  assumes "watchdog e w = (w', Some rc)"
  shows "\<not> watch_lock w \<and> (watch_lock w' \<longrightarrow> rc = GSM0710MUXD_OUT_OF_MEMORY) \<and>
    pts_reopen_lock w' = (pts_reopen_lock w \<or> serial_state w = MUX_STATE_MUXING)"
  using assms by (auto simp: watch_defs split: if_splits MuxerStates.splits)

lemma watchdog_muxing:
  assumes "serial_state w = MUX_STATE_MUXING" "pts_reopen_lock w"
  shows "watchdog e w = (w\<lparr>watch_lock := True\<rparr>, None)"
  using assms by (cases w) (auto simp: watch_defs)

lemma watchdog_keeps_lock: "watchdog e w = (w', r) \<Longrightarrow> pts_reopen_lock w \<Longrightarrow> pts_reopen_lock w'"
  by (auto simp: watch_defs split: if_splits MuxerStates.splits)

lemma watchdog_keeps_reopen:
  "watchdog e w = (w', r) \<Longrightarrow> serial_state w \<noteq> MUX_STATE_OPENING \<Longrightarrow> wd_reopen w' = wd_reopen w"
  by (auto simp: watch_defs split: if_splits MuxerStates.splits)

definition served :: "watch_call list \<Rightarrow> watch_call list" where
  "served calls = filter (\<lambda>c. wc_state c = MUX_STATE_MUXING \<and> wc_result c \<noteq> None) calls"

lemma served_locked: "pts_reopen_lock w \<Longrightarrow> served (snd (watchRun es w)) = []"
proof (induction es w rule: watchRun.induct)
  case (2 e es w)
  obtain w1 rc where w1: "watchdog e w = (w1, rc)" by (cases "watchdog e w")
  have "pts_reopen_lock w1" using watchdog_keeps_lock [OF w1 2(2)] .
  then have "served (snd (watchRun es w1)) = []" using 2(1) w1 by simp
  moreover have "serial_state w = MUX_STATE_MUXING \<Longrightarrow> rc = None" using watchdog_muxing [OF _ 2(2)] w1 by simp
  ultimately show ?case by (auto simp: served_def w1 split: prod.splits)
qed (simp_all add: served_def)

text \<open>After the main loop has waited once, no call returns any more, whatever the state becomes.\<close>

lemma blocked_for_ever:
  "watch_lock w \<Longrightarrow> map wc_result (snd (watchRun es w)) = replicate (length (snd (watchRun es w))) None"
proof (induction es w rule: watchRun.induct)
  case (2 e es w)
  have w1: "watchdog e w = (w, None)" using 2(2) by (simp add: watchdog_def)
  from 2(1) [OF w1 [symmetric] refl 2(2)] show ?case by (simp add: w1 Let_def case_prod_unfold)
qed simp_all

definition keepsReopen :: "watch_call \<Rightarrow> bool" where
  "keepsReopen c \<longleftrightarrow> wc_after c = wc_before c \<or> wc_state c = MUX_STATE_OPENING"

lemma restart_reopens: "list_all keepsReopen (snd (watchRun es w))"
proof (induction es w rule: watchRun.induct)
  case (2 e es w)
  then show ?case using watchdog_keeps_reopen by (auto simp: keepsReopen_def split: prod.splits)
qed auto

text \<open>C30. The multiplexer is looked after once. In every run of the daemon at most one call of the watchdog returns while the
  multiplexer is running: it leaves a lock taken, on which the next one waits for ever. And no call but one that opens the
  serial device again clears a \<open>reopen\<close> bit: terminals that an application dropped are never opened again.\<close>

theorem supervised_once:
  "length (served (snd (watchRun es (watchStart n)))) \<le> 1 \<and>
   list_all keepsReopen (snd (watchRun es (watchStart n)))"
proof -
  have "length (served (snd (watchRun es w))) \<le> 1" for w
  proof (induction es w rule: watchRun.induct)
    case (2 e es w)
    obtain w1 rc where w1: "watchdog e w = (w1, rc)" by (cases "watchdog e w")
    show ?case
    proof (cases "serial_state w = MUX_STATE_MUXING \<and> rc \<noteq> None")
      case True
      then have "pts_reopen_lock w1" using w1 watchdog_locks [of e w w1] by auto
      from served_locked [OF this, of es] show ?thesis using True w1 by (auto simp: served_def split: prod.splits)
    next
      case False
      then show ?thesis using 2 w1 by (auto simp: served_def split: prod.splits)
    qed
  qed (simp_all add: served_def)
  then show ?thesis using restart_reopens by blast
qed

text \<open>An environment in which everything works.\<close>

definition healthyEnv :: "watch_env \<Rightarrow> bool" where
  "healthyEnv e \<longleftrightarrow> open_serial_device e = 0 \<and> 0 \<le> start_muxer e \<and> assembly_thread e \<and> poll_thread_arg e \<and>
     poll_thread e \<and> (\<forall>rc \<in> set (alloc_channel e). rc \<le> 0) \<and> setup_chnl_complete e"

lemma allocChannels_ok: "\<forall>rc \<in> set rcs. rc \<le> 0 \<Longrightarrow> allocChannels rcs = 0"
  by (induction rcs) auto

lemma watchdog_starts:
  assumes "healthyEnv e"
  shows "watchdog e (watchStart n) = ((watchStart n)\<lparr>serial_state := MUX_STATE_MUXING, rild_started := 1\<rparr>, Some 0)"
  using assms by (simp add: healthyEnv_def watch_defs watchStart_def allocChannels_ok map_replicate_const)

text \<open>C29. The daemon stops looking after its multiplexer. When everything starts well, the first call starts the
  multiplexer, the second returns, the third does not, and from then on no thread gets out of the watchdog, whatever
  happens: a close down that the modem asks for is never carried out.\<close>

theorem supervision_stops:
  assumes "healthyEnv e"
  shows "\<exists>k. map wc_result (snd (watchRun (Supervise e # Supervise e1 # Supervise e2 # es) (watchStart n))) =
    Some 0 # Some 0 # None # replicate k None"
proof -
  let ?w = "(watchStart n)\<lparr>serial_state := MUX_STATE_MUXING, rild_started := 1\<rparr>"
  let ?w2 = "?w\<lparr>pts_reopen_lock := True, pts_reopen := True\<rparr>"
  have 2: "watchdog e1 ?w = (?w2, Some 0)" by (simp add: watch_defs watchStart_def)
  have 3: "watchdog e2 ?w2 = (?w2\<lparr>watch_lock := True\<rparr>, None)" by (rule watchdog_muxing) simp_all
  let ?calls = "snd (watchRun es (?w2\<lparr>watch_lock := True\<rparr>))"
  have "map wc_result ?calls = replicate (length ?calls) None" by (rule blocked_for_ever) simp
  then show ?thesis using watchdog_starts [OF assms, of n] 2 3
    by (intro exI [of _ "length ?calls"]) (simp add: Let_def case_prod_unfold)
qed

definition sampleEnv :: watch_env where
  "sampleEnv = \<lparr>open_serial_device = 0, start_muxer = 0, assembly_thread = True, poll_thread_arg = True, poll_thread = True,
     alloc_channel = replicate 30 0, setup_chnl_complete = True\<rparr>"

lemma supervision_stops_witness:
  "\<exists>k. map wc_result (snd (watchRun [Supervise sampleEnv, Supervise sampleEnv, Supervise sampleEnv,
      StateChanged MUX_STATE_PEER_CLOSING, Supervise sampleEnv] (watchStart 32))) =
    Some 0 # Some 0 # None # replicate k None"
  by (rule supervision_stops) (simp add: healthyEnv_def sampleEnv_def)

end
