(* ===== verification/MuxAdvanced.thy ===== *)
theory MuxAdvanced
  imports MuxRoundTrip
begin

text \<open>
  The reader of the advanced mode (\<open>gsm0710_advanced_buffer_get_frame\<close>): octets between two flags are freed of their escapes
  and collected in \<open>adv_data\<close>, over as many calls as it takes; the second flag ends the frame. A frame that is too short,
  too long or damaged is dropped and the search begins again (\<open>goto l_begin\<close>, a recursive call here).

  \<open>advIn\<close> says how much of a frame the reader has seen; with it the frames of the writer arrive however the stream
  is cut into reads.
\<close>

datatype adv_result = AdvMore | AdvAgain | AdvFrame gsm_frame

text \<open>The closing flag was read: the octets collected are taken apart.\<close>

definition advEnd :: "gsm_buffer \<Rightarrow> (gsm_buffer \<times> adv_result) res" where
  "advEnd b =
     (let n = length (adv_data b) in
      if n < 3 then Inr (b\<lparr>flag_found := False\<rparr>, AdvAgain)
      else
       bnd (rd (adv_data b) 0) (\<lambda>d0. bnd (rd (adv_data b) 1) (\<lambda>d1.
       bnd (rd_block (adv_data b) 2 (int (n - 3))) (\<lambda>payload.
       let fcs = crc_run 0xFF [d0, d1];
           fcs = (if GSM0710_FRAME_IS GSM0710_TYPE_UI d1 then crc_run fcs payload else fcs) in
       bnd (rd (adv_data b) (int (n - 1))) (\<lambda>x.
       Inr (if \<not> fcs_ok fcs x then (b\<lparr>flag_found := False, dropped_count := dropped_count b + 1\<rparr>, AdvAgain)
            else (b\<lparr>flag_found := False, received_count := received_count b + 1\<rparr>,
                  AdvFrame \<lparr>fr_channel = GSM0710_DECODE_ADDRESS d0, fr_control = d1, fr_data = payload\<rparr>)))))))"

text \<open>One octet of the frame.\<close>

definition advOctet :: "gsm_buffer \<Rightarrow> byte \<Rightarrow> gsm_buffer" where
  "advOctet b x =
     (if adv_found_esc b then b\<lparr>adv_data := adv_data b @ [x XOR GSM0710_FRAME_ADV_ESC_COPML], adv_found_esc := False\<rparr>
      else if x = GSM0710_FRAME_ADV_ESC then b\<lparr>adv_found_esc := True\<rparr>
      else b\<lparr>adv_data := adv_data b @ [x]\<rparr>)"

lemma advOctet_simps [simp]: "datacount (advOctet b x) = datacount b" "flag_found (advOctet b x) = flag_found b"
    "bufOk (advOctet b x) = bufOk b" "bufContents (advOctet b x) = bufContents b"
  by (simp_all add: advOctet_def bufOk_def bufContents_def bufCursor_def)

function advCollect :: "gsm_buffer \<Rightarrow> (gsm_buffer \<times> adv_result) res" where
  "advCollect b =
     (if datacount b > 0
      then bnd (bufPeek b) (\<lambda>x.
        if \<not> adv_found_esc b \<and> x = GSM0710_FRAME_ADV_FLAG then advEnd (bufInc b)
        else if length (adv_data b) \<ge> GSM0710_BUFFER_SIZE
        then Inr (b\<lparr>flag_found := False, dropped_count := dropped_count b + 1\<rparr>, AdvAgain)
        else advCollect (bufInc (advOctet b x)))
      else Inr (b, AdvMore))"
  by pat_completeness auto
termination
  by (relation "measure datacount") (auto simp: datacount_bufInc)

declare advCollect.simps [simp del]

lemma advEnd_datacount: "advEnd b = Inr (b', r) \<Longrightarrow> datacount b' = datacount b \<and> \<not> flag_found b' \<and> r \<noteq> AdvMore"
  by (auto simp: advEnd_def Let_def res_simps split: if_splits)

lemma advCollect_datacount:
  "advCollect b = Inr (b', r) \<Longrightarrow> datacount b' \<le> datacount b \<and> (r = AdvAgain \<longrightarrow> \<not> flag_found b') \<and>
    (\<forall>f. r = AdvFrame f \<longrightarrow> datacount b' < datacount b)"
proof (induction b arbitrary: b' r rule: advCollect.induct)
  case (1 b)
  show ?case
  proof (cases "datacount b > 0")
    case True
    from 1(2) True obtain x where x: "bufPeek b = Inr x"
      by (subst (asm) advCollect.simps) (auto simp: res_simps)
    note step = 1(2) [unfolded advCollect.simps [of b]]
    have lt: "datacount (bufInc b) < datacount b" "datacount (bufInc (advOctet b x)) < datacount b"
      using True by (simp_all add: datacount_bufInc)
    show ?thesis
    proof (cases "\<not> adv_found_esc b \<and> x = GSM0710_FRAME_ADV_FLAG \<or> length (adv_data b) \<ge> GSM0710_BUFFER_SIZE")
      case True
      then show ?thesis using step x lt \<open>datacount b > 0\<close> by (auto split: if_splits dest!: advEnd_datacount)
    next
      case False
      then have r: "advCollect (bufInc (advOctet b x)) = Inr (b', r)" using step x True by auto
      have "datacount b' \<le> datacount (bufInc (advOctet b x)) \<and> (r = AdvAgain \<longrightarrow> \<not> flag_found b') \<and>
          (\<forall>f. r = AdvFrame f \<longrightarrow> datacount b' < datacount (bufInc (advOctet b x)))"
        using 1(1) [OF True x _ _ r] False by auto
      then show ?thesis using lt by auto
    qed
  qed (use 1(2) in \<open>auto simp: advCollect.simps [of b]\<close>)
qed

lemma findFlag_found: "findFlag adv flag b = Inr b' \<Longrightarrow> \<not> flag_found b \<Longrightarrow> flag_found b' \<Longrightarrow> datacount b' < datacount b"
proof (induction adv flag b rule: findFlag.induct)
  case (1 adv flag b)
  have pos: "datacount b > 0" using 1(2-4) by (subst (asm) findFlag.simps) (auto split: if_splits)
  with 1(2,3) obtain x where x: "bufPeek b = Inr x"
    and r: "findFlag adv flag (bufInc (if x = flag then foundFlag adv b else b)) = Inr b'"
    by (subst (asm) findFlag.simps) (auto simp: res_simps)
  from findFlag_datacount [OF r] pos show ?case by (auto simp: datacount_bufInc split: if_splits)
qed

function advGetFrame :: "gsm_buffer \<Rightarrow> (gsm_buffer \<times> gsm_frame option) res" where
  "advGetFrame b =
     bnd (findFlag True GSM0710_FRAME_ADV_FLAG b) (\<lambda>b1.
     if \<not> flag_found b1 then Inr (b1, None)
     else bnd (if adv_data b1 = [] then skipFlags GSM0710_FRAME_ADV_FLAG b1 else Inr b1) (\<lambda>b2.
       bnd (advCollect b2) (\<lambda>(b3, r). case r of
         AdvMore \<Rightarrow> Inr (b3, None)
       | AdvAgain \<Rightarrow> advGetFrame b3
       | AdvFrame f \<Rightarrow> Inr (b3, Some f))))"
  by pat_completeness auto
termination
proof (relation "measure (\<lambda>b. 2 * datacount b + of_bool (flag_found b))", goal_cases)
  case (2 b b1 b2 p b3 r)
  have "datacount b2 \<le> datacount b1"
    using 2(3) skipFlags_datacount by (auto split: if_splits)
  moreover have "datacount b3 \<le> datacount b2" "\<not> flag_found b3"
    using advCollect_datacount [of b2 b3 r] 2 by auto
  moreover have "datacount b1 \<le> datacount b" "\<not> flag_found b \<Longrightarrow> datacount b1 < datacount b"
    using findFlag_datacount [OF 2(1)] findFlag_found [OF 2(1)] 2(2) by auto
  ultimately show ?case by (cases "flag_found b") auto
qed simp

declare advGetFrame.simps [simp del]

section \<open>All frames of the buffer\<close>

lemma advGetFrame_shrinks: "advGetFrame b = Inr (b', Some f) \<Longrightarrow> datacount b' < datacount b"
proof (induction b arbitrary: b' rule: advGetFrame.induct)
  case (1 b)
  note call = 1(2) [unfolded advGetFrame.simps [of b]]
  from call obtain b1 where b1: "findFlag True GSM0710_FRAME_ADV_FLAG b = Inr b1" "flag_found b1"
    by (auto simp: res_simps split: if_splits)
  from call b1 obtain b2 where b2: "(if adv_data b1 = [] then skipFlags GSM0710_FRAME_ADV_FLAG b1 else Inr b1) = Inr b2"
    by (auto simp: res_simps)
  from call b1 b2 obtain b3 r where b3: "advCollect b2 = Inr (b3, r)" by (auto simp: res_simps)
  have le: "datacount b2 \<le> datacount b"
    using findFlag_datacount [OF b1(1)] skipFlags_datacount b2 by (fastforce split: if_splits)
  show ?case
  proof (cases r)
    case AdvMore
    then show ?thesis using call b1 b2 b3 by simp
  next
    case AdvAgain
    then have "datacount b' < datacount b3" using 1(1) [OF b1(1) _ b2 b3 refl AdvAgain] b1(2) call b2 b3 b1(1) by simp
    then show ?thesis using advCollect_datacount [OF b3] le by linarith
  next
    case (AdvFrame g)
    then have "b' = b3" using call b1 b2 b3 by simp
    then show ?thesis using advCollect_datacount [OF b3] le AdvFrame by fastforce
  qed
qed

function advDrain :: "gsm_buffer \<Rightarrow> (gsm_buffer \<times> gsm_frame list) res" where
  "advDrain b =
     bnd (advGetFrame b) (\<lambda>(b', fo). case fo of
       None \<Rightarrow> Inr (b', [])
     | Some f \<Rightarrow> bnd (advDrain (signalSleeper b')) (\<lambda>(b'', fs). Inr (b'', f # fs)))"
  by pat_completeness auto
termination
  by (relation "measure datacount") (auto simp: signalSleeper_def dest!: advGetFrame_shrinks)

declare advDrain.simps [simp del]

section \<open>What the writer sends\<close>

definition advOctets :: "gsm_frame \<Rightarrow> byte list" where
  "advOctets f = (let addr = frameAddress (unat (fr_channel f)) in
     [addr, fr_control f] @ fr_data f @ [frame_calc_crc [addr, fr_control f]])"

definition advEnc :: "gsm_frame \<Rightarrow> byte list" where
  "advEnc f = advFrame (frameAddress (unat (fr_channel f))) (fr_control f) (fr_data f)"

definition okAdv :: "gsm_frame \<Rightarrow> bool" where
  "okAdv f \<longleftrightarrow> unat (fr_channel f) < 64 \<and> length (fr_data f) + 3 \<le> GSM0710_BUFFER_SIZE \<and>
     (GSM0710_FRAME_IS GSM0710_TYPE_UI (fr_control f) \<longrightarrow> fr_data f = [])"

lemma advEnc_split: "advEnc f = GSM0710_FRAME_ADV_FLAG # fill_adv_frame_buf (advOctets f) @ [GSM0710_FRAME_ADV_FLAG]"
  by (simp add: advEnc_def advFrame_def advOctets_def Let_def)

lemma fill_Cons: "fill_adv_frame_buf (x # xs) = escapeOctet x @ fill_adv_frame_buf xs" "fill_adv_frame_buf [] = []"
  by (simp_all add: fill_adv_frame_buf_def)

lemma escapes:
  "GSM0710_FRAME_ADV_ESC \<noteq> GSM0710_FRAME_ADV_FLAG" "GSM0710_FRAME_ADV_FLAG \<in> set GSM0710_FRAME_ADV_ESCAPED_SYMS"
  "GSM0710_FRAME_ADV_ESC \<in> set GSM0710_FRAME_ADV_ESCAPED_SYMS"
  by (simp_all add: mux_simps)

lemma escaped_not_flag: "x \<in> set GSM0710_FRAME_ADV_ESCAPED_SYMS \<Longrightarrow> x XOR GSM0710_FRAME_ADV_ESC_COPML \<noteq> GSM0710_FRAME_ADV_FLAG"
  by (auto simp: mux_simps)

lemma unescape: "(x XOR GSM0710_FRAME_ADV_ESC_COPML) XOR GSM0710_FRAME_ADV_ESC_COPML = (x :: byte)"
  by (simp add: xor.assoc)

lemma length_advOctets: "length (advOctets f) = length (fr_data f) + 3"
  by (simp add: advOctets_def Let_def)

lemma advEnd_frame:
  assumes "okAdv f" "adv_data b = advOctets f"
  shows "advEnd b = Inr (b\<lparr>flag_found := False, received_count := received_count b + 1\<rparr>, AdvFrame f)"
proof -
  let ?a = "frameAddress (unat (fr_channel f))"
  let ?crc = "frame_calc_crc [?a, fr_control f]"
  have d: "adv_data b = ?a # fr_control f # fr_data f @ [?crc]" using assms(2) by (simp add: advOctets_def Let_def)
  have ch: "GSM0710_DECODE_ADDRESS ?a = fr_channel f" using assms(1) by (simp add: okAdv_def frameAddress_decode)
  have rd: "rd (adv_data b) (int (length (fr_data f) + 2)) = Inr ?crc"
    using rd_append_mid [of "?a # fr_control f # fr_data f" ?crc "[]"] by (simp add: d)
  have blk: "rd_block (adv_data b) 2 (int (length (fr_data f))) = Inr (fr_data f)"
    using rd_block_mid [of "[?a, fr_control f]" "fr_data f" "[?crc]"] by (simp add: d)
  have fcs: "fcs_ok (crc_run 0xFF [?a, fr_control f]) ?crc" by (simp only: frame_calc_crc_ok)
  have ui: "GSM0710_FRAME_IS GSM0710_TYPE_UI (fr_control f) \<Longrightarrow> crc_run c (fr_data f) = c" for c
    using assms(1) by (simp add: okAdv_def)
  have len: "length (adv_data b) = length (fr_data f) + 3" by (simp add: d)
  have d01: "rd (adv_data b) 0 = Inr ?a" "rd (adv_data b) 1 = Inr (fr_control f)" by (simp_all add: d rd_def)
  show ?thesis
    using rd blk fcs ui by (simp add: advEnd_def Let_def len d01 ch del: crc_run_Cons)
qed

section \<open>A frame in pieces\<close>

text \<open>\<open>advIn b f rest after\<close>: the reader is inside \<open>f\<close>; what is in its buffer and the octets \<open>rest\<close> that are still to come are the
  remainder of the frame and \<open>after\<close>.\<close>

definition advIn :: "gsm_buffer \<Rightarrow> gsm_frame \<Rightarrow> byte list \<Rightarrow> byte list \<Rightarrow> bool" where
  "advIn b f rest after \<longleftrightarrow> (\<exists>todo. advOctets f = adv_data b @ todo \<and>
     (if adv_found_esc b
      then \<exists>x t. todo = x # t \<and> x \<in> set GSM0710_FRAME_ADV_ESCAPED_SYMS \<and>
        bufContents b @ rest = (x XOR GSM0710_FRAME_ADV_ESC_COPML) # fill_adv_frame_buf t @ GSM0710_FRAME_ADV_FLAG # after
      else bufContents b @ rest = fill_adv_frame_buf todo @ GSM0710_FRAME_ADV_FLAG # after))"

lemma advOctet_data:
  "adv_data (advOctet b x) = (if adv_found_esc b then adv_data b @ [x XOR GSM0710_FRAME_ADV_ESC_COPML]
     else if x = GSM0710_FRAME_ADV_ESC then adv_data b else adv_data b @ [x])"
  "adv_found_esc (advOctet b x) = (\<not> adv_found_esc b \<and> x = GSM0710_FRAME_ADV_ESC)"
  by (simp_all add: advOctet_def)

lemma advIn_octet:
  assumes "advIn b f rest after" "bufOk b" "bufContents b = x # xs" "\<not> (\<not> adv_found_esc b \<and> x = GSM0710_FRAME_ADV_FLAG)"
  shows "advIn (bufInc (advOctet b x)) f rest after \<and> length (adv_data b) < length (advOctets f)"
proof -
  have pos: "0 < datacount (advOctet b x)" using assms(3) length_bufContents [of b] by auto
  have inc: "bufContents (bufInc (advOctet b x)) = xs"
    using bufInc_ok [THEN conjunct2, THEN conjunct1, of "advOctet b x"] pos assms(2,3) by simp
  from assms(1) obtain todo where todo: "advOctets f = adv_data b @ todo"
    "if adv_found_esc b
      then \<exists>x t. todo = x # t \<and> x \<in> set GSM0710_FRAME_ADV_ESCAPED_SYMS \<and>
        bufContents b @ rest = (x XOR GSM0710_FRAME_ADV_ESC_COPML) # fill_adv_frame_buf t @ GSM0710_FRAME_ADV_FLAG # after
      else bufContents b @ rest = fill_adv_frame_buf todo @ GSM0710_FRAME_ADV_FLAG # after"
    unfolding advIn_def by blast
  show ?thesis
  proof (cases "adv_found_esc b")
    case True
    then obtain y t where y: "todo = y # t" "x = y XOR GSM0710_FRAME_ADV_ESC_COPML"
      "xs @ rest = fill_adv_frame_buf t @ GSM0710_FRAME_ADV_FLAG # after" using todo(2) assms(3) by auto
    then show ?thesis using todo(1) True inc by (simp add: advIn_def advOctet_data unescape)
  next
    case False
    then have eq: "x # xs @ rest = fill_adv_frame_buf todo @ GSM0710_FRAME_ADV_FLAG # after" using todo(2) assms(3) by simp
    then obtain y t where y: "todo = y # t" using False assms(4) by (cases todo) (auto simp: fill_Cons)
    show ?thesis
    proof (cases "y \<in> set GSM0710_FRAME_ADV_ESCAPED_SYMS")
      case True
      then show ?thesis using eq y todo(1) False inc by (auto simp: advIn_def advOctet_data fill_Cons escapeOctet_def)
    next
      case ne: False
      then have "y \<noteq> GSM0710_FRAME_ADV_ESC" using escapes(3) by auto
      then show ?thesis using eq y todo(1) False inc ne by (auto simp: advIn_def advOctet_data fill_Cons escapeOctet_def)
    qed
  qed
qed

lemma advCollect_ok:
  assumes "advIn b f rest after" "bufOk b" "flag_found b" "okAdv f"
  shows "(\<exists>b'. advCollect b = Inr (b', AdvFrame f) \<and> bufOk b' \<and> \<not> flag_found b' \<and> bufContents b' @ rest = after) \<or>
    (\<exists>b'. advCollect b = Inr (b', AdvMore) \<and> bufOk b' \<and> flag_found b' \<and> bufContents b' = [] \<and> advIn b' f rest after)"
  using assms
proof (induction "datacount b" arbitrary: b rule: less_induct)
  case less
  show ?case
  proof (cases "datacount b > 0")
    case False
    then show ?thesis using less.prems by (simp add: advCollect.simps [of b] bufContents_empty)
  next
    case True
    from bufInc_cases [OF less.prems(2) True] obtain x xs where x: "bufContents b = x # xs" "bufPeek b = Inr x"
      "bufOk (bufInc b)" "bufContents (bufInc b) = xs" by blast
    show ?thesis
    proof (cases "\<not> adv_found_esc b \<and> x = GSM0710_FRAME_ADV_FLAG")
      case flag: True
      then obtain todo where todo: "advOctets f = adv_data b @ todo"
        "GSM0710_FRAME_ADV_FLAG # xs @ rest = fill_adv_frame_buf todo @ GSM0710_FRAME_ADV_FLAG # after"
        using less.prems(1) x(1) by (auto simp: advIn_def)
      have "todo = []"
      proof (cases todo)
        case (Cons y t)
        then have "hd (escapeOctet y) = GSM0710_FRAME_ADV_FLAG" using todo(2) by (simp add: fill_Cons escapeOctet_def split: if_splits)
        then show ?thesis using escapes by (auto simp: escapeOctet_def split: if_splits)
      qed
      then have "advEnd (bufInc b) = Inr ((bufInc b)\<lparr>flag_found := False, received_count := received_count b + 1\<rparr>, AdvFrame f)"
        "xs @ rest = after"
        using advEnd_frame [OF less.prems(4), of "bufInc b"] todo by (simp_all add: fill_Cons)
      moreover have "bufOk ((bufInc b)\<lparr>flag_found := False, received_count := n\<rparr>)"
        "bufContents ((bufInc b)\<lparr>flag_found := False, received_count := n\<rparr>) = xs" for n
        using x(3,4) by (simp_all add: bufOk_def bufContents_def bufCursor_def)
      ultimately show ?thesis using True x(2) flag by (simp add: advCollect.simps [of b])
    next
      case False
      let ?b = "bufInc (advOctet b x)"
      from advIn_octet [OF less.prems(1,2) x(1) False] have step: "advIn ?b f rest after" "length (adv_data b) < length (advOctets f)"
        by simp_all
      have "length (advOctets f) \<le> GSM0710_BUFFER_SIZE" using less.prems(4) by (simp add: okAdv_def length_advOctets)
      then have "\<not> length (adv_data b) \<ge> GSM0710_BUFFER_SIZE" using step(2) by simp
      then have c: "advCollect b = advCollect ?b" using True x(2) False by (subst advCollect.simps) auto
      have ok: "bufOk ?b" "flag_found ?b" "datacount ?b < datacount b"
        using bufInc_ok [THEN conjunct1, of "advOctet b x"] True less.prems(2,3) by (simp_all add: datacount_bufInc)
      show ?thesis unfolding c using less.hyps [OF ok(3) step(1) ok(1,2) less.prems(4)] .
    qed
  qed
qed

section \<open>A stream of frames\<close>

definition advCarries :: "gsm_buffer \<Rightarrow> byte list \<Rightarrow> gsm_frame list \<Rightarrow> bool" where
  "advCarries b rest fs \<longleftrightarrow> bufOk b \<and>
     (if flag_found b then \<exists>f gs. fs = f # gs \<and> advIn b f rest (concat (map advEnc gs))
      else bufContents b @ rest = concat (map advEnc fs))"

lemma escapeOctet_hd: "\<exists>y ys. escapeOctet x = y # ys \<and> y \<noteq> GSM0710_FRAME_ADV_FLAG"
  using escapes by (auto simp: escapeOctet_def)

lemma advIn_skip:
  assumes "advIn b f rest after" "bufOk b" "adv_data b = []"
  shows "skipFlags GSM0710_FRAME_ADV_FLAG b = Inr b"
proof (cases "datacount b > 0")
  case True
  from bufInc_cases [OF assms(2) True] obtain x xs where x: "bufContents b = x # xs" "bufPeek b = Inr x" by blast
  obtain y ys where oct: "advOctets f = y # ys" by (simp add: advOctets_def Let_def)
  obtain z zs where z: "escapeOctet y = z # zs" "z \<noteq> GSM0710_FRAME_ADV_FLAG" using escapeOctet_hd by blast
  have "x \<noteq> GSM0710_FRAME_ADV_FLAG"
  proof (cases "adv_found_esc b")
    case True
    then obtain w t where w: "w \<in> set GSM0710_FRAME_ADV_ESCAPED_SYMS"
      "bufContents b @ rest = (w XOR GSM0710_FRAME_ADV_ESC_COPML) # fill_adv_frame_buf t @ GSM0710_FRAME_ADV_FLAG # after"
      using assms(1) unfolding advIn_def by (simp only: if_True) blast
    from w(2) have "x = w XOR GSM0710_FRAME_ADV_ESC_COPML" by (simp only: x(1) append_Cons list.inject)
    then show ?thesis using escaped_not_flag [OF w(1)] by simp
  next
    case False
    then have "x # xs @ rest = fill_adv_frame_buf (y # ys) @ GSM0710_FRAME_ADV_FLAG # after"
      using assms(1,3) x(1) oct by (simp add: advIn_def)
    then show ?thesis using z by (simp add: fill_Cons)
  qed
  then show ?thesis using True x(2) by (simp add: skipFlags.simps [of _ b])
qed (simp add: skipFlags.simps [of _ b])

lemma advGet_inside:
  assumes "advIn b f rest after" "bufOk b" "flag_found b" "okAdv f"
  shows "(\<exists>b'. advGetFrame b = Inr (b', Some f) \<and> bufOk b' \<and> \<not> flag_found b' \<and> bufContents b' @ rest = after) \<or>
    (\<exists>b'. advGetFrame b = Inr (b', None) \<and> bufOk b' \<and> flag_found b' \<and> bufContents b' = [] \<and> advIn b' f rest after)"
proof -
  have "(if adv_data b = [] then skipFlags GSM0710_FRAME_ADV_FLAG b else Inr b) = Inr b"
    using advIn_skip [OF assms(1,2)] by simp
  then show ?thesis
    using advCollect_ok [OF assms] assms(3) by (auto simp: advGetFrame.simps [of b] findFlag_stop)
qed

lemma advGet_start:
  assumes "bufContents b = GSM0710_FRAME_ADV_FLAG # xs" "bufOk b" "\<not> flag_found b"
  shows "\<exists>b1. advGetFrame b = advGetFrame b1 \<and> bufOk b1 \<and> flag_found b1 \<and> adv_data b1 = [] \<and> \<not> adv_found_esc b1 \<and>
    bufContents b1 = xs"
proof -
  let ?b = "bufInc (foundFlag True b)"
  have pos: "0 < datacount (foundFlag True b)" using assms(1) length_bufContents [of b] by auto
  have ok: "bufOk ?b" "bufContents ?b = xs"
    using bufInc_ok [THEN conjunct1, of "foundFlag True b"] bufInc_ok [THEN conjunct2, THEN conjunct1, of "foundFlag True b"]
      pos assms(1,2) by simp_all
  have "bufPeek b = Inr GSM0710_FRAME_ADV_FLAG" using bufPeek_ok [OF assms(2)] assms(1) by simp
  then have "findFlag True GSM0710_FRAME_ADV_FLAG b = Inr ?b"
    using assms(3) pos by (simp add: findFlag.simps [of _ _ b] findFlag_stop)
  moreover have "findFlag True GSM0710_FRAME_ADV_FLAG ?b = Inr ?b" by (simp add: findFlag_stop)
  ultimately have "advGetFrame b = advGetFrame ?b" by (simp add: advGetFrame.simps [of b] advGetFrame.simps [of ?b])
  moreover have "adv_data ?b = []" "\<not> adv_found_esc ?b" by (simp_all add: foundFlag_def)
  ultimately show ?thesis using ok by (intro exI [of _ ?b]) simp
qed

lemma advGet_carried:
  assumes "advCarries b rest fs" "list_all okAdv fs"
  shows "(\<exists>f gs b'. fs = f # gs \<and> advGetFrame b = Inr (b', Some f) \<and> advCarries b' rest gs) \<or>
    (\<exists>b'. advGetFrame b = Inr (b', None) \<and> advCarries b' rest fs \<and> bufContents b' = [])"
proof -
  have inside: ?thesis if "advGetFrame b = advGetFrame b1" "advIn b1 f rest (concat (map advEnc gs))" "bufOk b1" "flag_found b1"
    "fs = f # gs" for b1 f gs
    using advGet_inside [OF that(2-4)] assms(2) that(1,5) by (auto simp: advCarries_def)
  show ?thesis
  proof (cases "flag_found b")
    case True
    then obtain f gs where "fs = f # gs" "advIn b f rest (concat (map advEnc gs))" "bufOk b"
      using assms(1) by (auto simp: advCarries_def)
    from inside [OF refl this(2,3) True this(1)] show ?thesis .
  next
    case False
    then have q: "bufOk b" "bufContents b @ rest = concat (map advEnc fs)" using assms(1) by (simp_all add: advCarries_def)
    show ?thesis
    proof (cases "bufContents b")
      case Nil
      then have "datacount b = 0" by (simp add: bufContents_empty)
      then have "advGetFrame b = Inr (b, None)" using False by (simp add: advGetFrame.simps [of b] findFlag.simps [of _ _ b])
      then show ?thesis using Nil assms(1) by auto
    next
      case (Cons x xs)
      then obtain f gs where fs: "fs = f # gs" using q(2) by (cases fs) auto
      then have x: "x = GSM0710_FRAME_ADV_FLAG"
        "xs @ rest = fill_adv_frame_buf (advOctets f) @ GSM0710_FRAME_ADV_FLAG # concat (map advEnc gs)"
        using q(2) Cons by (auto simp: advEnc_split)
      from advGet_start [OF Cons [unfolded x(1)] q(1) False] obtain b1 where
        b1: "advGetFrame b = advGetFrame b1" "bufOk b1" "flag_found b1" "adv_data b1 = []" "\<not> adv_found_esc b1" "bufContents b1 = xs"
        by blast
      have "advIn b1 f rest (concat (map advEnc gs))" using b1(4-6) x(2) by (simp add: advIn_def)
      from inside [OF b1(1) this b1(2,3) fs] show ?thesis .
    qed
  qed
qed

lemma signalSleeper_carries [simp]: "advCarries (signalSleeper b) rest fs = advCarries b rest fs"
  by (simp add: advCarries_def advIn_def signalSleeper_def bufOk_def bufContents_def bufCursor_def)

lemma signalSleeper_datacount: "datacount (signalSleeper b) = datacount b"
  by (simp add: signalSleeper_def)

lemma advDrain_carried:
  "advCarries b rest fs \<Longrightarrow> list_all okAdv fs \<Longrightarrow>
   \<exists>b' gs hs. advDrain b = Inr (b', gs) \<and> fs = gs @ hs \<and> advCarries b' rest hs \<and> bufContents b' = []"
proof (induction "datacount b" arbitrary: b fs rule: less_induct)
  case less
  from advGet_carried [OF less.prems] show ?case
  proof (elim disjE exE conjE)
    fix f gs b' assume g: "fs = f # gs" "advGetFrame b = Inr (b', Some f)" "advCarries b' rest gs"
    have "datacount (signalSleeper b') < datacount b" using advGetFrame_shrinks [OF g(2)] by (simp add: signalSleeper_datacount)
    from less.hyps [OF this, of gs] g less.prems(2) obtain b2 gs2 hs where
      "advDrain (signalSleeper b') = Inr (b2, gs2)" "gs = gs2 @ hs" "advCarries b2 rest hs" "bufContents b2 = []" by auto
    then show ?thesis using g by (intro exI [of _ b2] exI [of _ "f # gs2"] exI [of _ hs]) (simp add: advDrain.simps [of b])
  next
    fix b' assume "advGetFrame b = Inr (b', None)" "advCarries b' rest fs" "bufContents b' = []"
    then show ?thesis by (intro exI [of _ b'] exI [of _ "[]"] exI [of _ fs]) (simp add: advDrain.simps [of b])
  qed
qed

text \<open>The octets of every read are put into the ring and the frames taken out.\<close>

fun advRun :: "byte list list \<Rightarrow> gsm_buffer \<Rightarrow> (gsm_buffer \<times> gsm_frame list) res" where
  "advRun [] b = Inr (b, [])"
| "advRun (xs # xss) b = bnd (gsm0710_buffer_write b xs) (\<lambda>(b, n). bnd (advDrain b) (\<lambda>(b, fs).
     bnd (advRun xss b) (\<lambda>(b, gs). Inr (b, fs @ gs))))"

lemma advWrite_carries:
  assumes "advCarries b (xs @ rest) fs" "bufContents b = []" "length xs \<le> GSM0710_BUFFER_SIZE"
  shows "\<exists>b' n. gsm0710_buffer_write b xs = Inr (b', n) \<and> advCarries b' rest fs"
proof -
  have free: "gsm0710_buffer_free b = GSM0710_BUFFER_SIZE"
    using assms(2) by (simp add: gsm0710_buffer_free_def bufContents_empty)
  from bufWrite_ok [of b xs] assms(1) obtain b' where b': "gsm0710_buffer_write b xs = Inr (b', length xs)" "bufOk b'"
    "bufContents b' = xs"
    and same: "b' = b\<lparr>buf_data := buf_data b', writep := writep b', datacount := datacount b', newdataready := True\<rparr>"
    using assms(2,3) free by (auto simp: advCarries_def)
  have "flag_found b' = flag_found b" "adv_data b' = adv_data b" "adv_found_esc b' = adv_found_esc b"
    by (subst same, simp)+
  moreover from this have "advIn b' f rest after = advIn b f (xs @ rest) after" for f after
    using b'(3) assms(2) by (simp add: advIn_def)
  ultimately show ?thesis using b' assms(1,2) by (cases "flag_found b") (simp_all add: advCarries_def)
qed

lemma advCarries_end: "advCarries b [] fs \<Longrightarrow> bufContents b = [] \<Longrightarrow> fs = []"
  by (cases fs) (auto simp: advCarries_def advIn_def advEnc_split split: if_splits)

text \<open>C8. The advanced mode end to end. Frames that \<open>write_frame\<close> builds in the advanced mode, sent one after the other
  and read in pieces of any size up to the buffer, are taken out as they were: escapes, flags and pieces that end in
  the middle of an escape make no difference, nothing is lost and nothing added.\<close>

theorem adv_frames_delivered:
  assumes "list_all okAdv fs" "concat xss = concat (map advEnc fs)" "list_all (\<lambda>xs. length xs \<le> GSM0710_BUFFER_SIZE) xss"
  shows "\<exists>b. advRun xss gsm0710_buffer_init = Inr (b, fs)"
proof -
  have run: "\<exists>b'. advRun xss b = Inr (b', fs)"
    if "advCarries b (concat xss) fs" "bufContents b = []" "list_all okAdv fs"
      "list_all (\<lambda>xs. length xs \<le> GSM0710_BUFFER_SIZE) xss" for xss b fs
    using that
  proof (induction xss arbitrary: b fs)
    case Nil
    then show ?case using advCarries_end [of b fs] by simp
  next
    case (Cons xs xss)
    from advWrite_carries [of b xs "concat xss" fs] Cons.prems obtain b1 n where
      b1: "gsm0710_buffer_write b xs = Inr (b1, n)" "advCarries b1 (concat xss) fs" by auto
    from advDrain_carried [OF b1(2) Cons.prems(3)] obtain b2 gs hs where
      b2: "advDrain b1 = Inr (b2, gs)" "fs = gs @ hs" "advCarries b2 (concat xss) hs" "bufContents b2 = []" by blast
    from Cons.IH [OF b2(3,4)] Cons.prems(3,4) b2(2) obtain b3 where "advRun xss b2 = Inr (b3, hs)" by auto
    then show ?case using b1 b2 by simp
  qed
  have "advCarries gsm0710_buffer_init (concat xss) fs"
    using init_ok assms(2) by (simp add: advCarries_def gsm0710_buffer_init_def)
  from run [OF this init_ok(2) assms(1,3)] show ?thesis .
qed

definition sampleAdv :: "byte \<Rightarrow> gsm_frame" where
  "sampleAdv x = \<lparr>fr_channel = 4, fr_control = GSM0710_TYPE_UIH, fr_data = [x, 0x41]\<rparr>"

lemma length_fill: "length (fill_adv_frame_buf xs) \<le> 2 * length xs"
  by (induction xs) (auto simp: fill_Cons escapeOctet_def)

lemma adv_frames_delivered_witness:
  "\<exists>b. advRun [advEnc (sampleAdv 0x7E), advEnc (sampleAdv 0x13)] gsm0710_buffer_init = Inr (b, [sampleAdv 0x7E, sampleAdv 0x13])"
proof (rule adv_frames_delivered)
  show "list_all okAdv [sampleAdv 0x7E, sampleAdv 0x13]"
    by (simp add: okAdv_def sampleAdv_def GSM0710_BUFFER_SIZE_def GSM0710_FRAME_IS_def mux_simps)
  have "length (advEnc (sampleAdv x)) \<le> 12" for x
    using length_fill [of "advOctets (sampleAdv x)"] by (simp add: advEnc_split length_advOctets sampleAdv_def)
  from this [of "0x7E"] this [of "0x13"]
  show "list_all (\<lambda>xs. length xs \<le> GSM0710_BUFFER_SIZE) [advEnc (sampleAdv 0x7E), advEnc (sampleAdv 0x13)]"
    by (simp add: GSM0710_BUFFER_SIZE_def)
qed simp

end
