(* ===== verification/Spec2Isabelle.thy ===== *)
theory Spec2Isabelle
  imports RilPrelude CStrings AtLine TokUtils SuplDispatcher CdmaReplace CdmaRoundTrip RtpEvents RtcpLifecycle
    RtcpRoundTrip MuxFaults MuxFlowFaults MuxWatchdog MuxAdvanced
begin

text \<open>
  \<^bold>\<open>The program.\<close> The repository holds the telephony software of a phone with a MediaTek modem: the
  radio interface layer (\<open>src/radio_stack\<close>), which talks to the modem in AT commands, and the stack of
  video calls (\<open>src/rtp\<close> and the directories around it), which carries H.264 and HEVC video over RTP.
  The development models the parts that parse and build data, keep state of their own, and exchange messages:

  \<^item> Text of the modem. A response line is an \<open>RfxAtLine\<close> (\<open>mtk-ril/framework/core/RfxAtLine.cpp\<close>, theory
    \<open>AtLine\<close>); the handlers read it token by token. \<open>RfxTokUtils\<close> (\<open>framework/base\<close>, \<open>TokUtils\<close>) is the older
    set of functions over \<open>char**\<close> for the same task.
  \<^item> GSM short messages (\<open>mtk-ril/telcore/sms/parser\<close>). A hexadecimal PDU becomes an \<open>SmsMessage\<close>
    (\<open>SmsUtils\<close>, \<open>SmsHeader\<close>, \<open>PduParser\<close>, \<open>SmsMessage\<close>), a port-addressed one a \<open>WappushMessage\<close> (\<open>WapTables\<close>, \<open>WapPush\<close>,
    \<open>WapMessage\<close>); the segments of a long one are collected (\<open>ConcentratedSms\<close>), and \<open>SuplMsgDispatcher\<close>
    (\<open>SuplDispatcher\<close>) sends the body of a SUPL push to the location daemon.
  \<^item> CDMA short messages (\<open>mtk-ril/mdcomm/sms/RmcCdmaSmsConverter.{cpp,h}\<close>). Bit streams (\<open>BitStream\<close>), the
    parameters of a message (\<open>CdmaTlv\<close>), the bearer data (\<open>CdmaBearer\<close>, \<open>CdmaScan\<close>) and the converter
    (\<open>CdmaConverter\<close>, \<open>CdmaReplace\<close>, \<open>CdmaRoundTrip\<close>).
  \<^item> Video over RTP (\<open>src/rtp/src\<close>). \<open>RTPSender\<close> cuts the NAL units of a frame into packets
    (\<open>RtpPacket\<close>, \<open>RtpSender\<close>); \<open>RTPReceiver\<close> parses packets and hands them to an \<open>RTPSource\<close> per sender, which orders
    them and drives an \<open>AVCAssembler\<close> or \<open>HEVCAssembler\<close> (\<open>RtpReceiver\<close>, \<open>RtpSource\<close>, \<open>RtpAssembler\<close>).
  \<^item> RTCP (\<open>src/rtp/src/RTPController.cpp\<close>). The controller of a call starts and stops the two ends, sends compound
    packets with reports and feedback on a schedule and reads those of the peer (\<open>RtcpCompose\<close>, \<open>RtcpParse\<close>,
    \<open>RtcpSchedule\<close>).
  \<^item> The multiplexer daemon (\<open>src/radio_stack/gsm0710muxd\<close>). It carries the channels of the radio layer in frames of
    GSM 07.10 over one serial device: the checksum (\<open>MuxCrc\<close>), the writing of frames (\<open>MuxWrite\<close>), the ring of received
    octets (\<open>MuxBuffer\<close>) and its readers (\<open>MuxReceive\<close>, \<open>MuxAdvanced\<close>), the list of frames an application is too slow for (\<open>MuxFrameList\<close>)
    and the flow control with its thread (\<open>MuxFlow\<close>), and the supervision by the main loop (\<open>MuxWatchdog\<close>).

  \<^bold>\<open>Conventions.\<close> \<open>RilPrelude\<close> has the result type \<open>fault + 'a\<close>: a failed \<open>CHECK\<close>, a read or a write outside
  a buffer (\<open>OutOfBounds\<close>), a null pointer followed and an uncaught exception are values, so every one
  of them is a branch of the model and \<open>bnd\<close> passes it on. Octets are \<open>8 word\<close>, unsigned integers that may wrap are
  words or \<open>int\<close> with the wrap written out, and signed \<open>int\<close>s are \<open>int\<close>, converted with \<open>c_int\<close>, \<open>c_long\<close> where the code
  truncates. The target is LP64, where \<open>char\<close> is unsigned. A record has the fields of the class it
  models under their names, with a prefix where two classes share a name; a method of the class is
  a function from the old to the new record, and its name is the method's, with a prefix (\<open>snd\<close>, \<open>rcv\<close>, \<open>src\<close>, \<open>ctl\<close>) where
  classes share it. A message between threads is an element of a list in the record of its receiver or
  sender; it may be handled at any time, so delays are not part of the model.
  Wake-ups of a condition variable that no thread signalled are left out.

  \<^bold>\<open>Loops.\<close> Recursion is structural or has a measure. Two loops of the code may run forever or for long and take
  fuel: the scan of \<open>removeZero\<close>, whose position is an \<open>unsigned char\<close> (257 rounds decide it:
  \<open>removeZero_scan_decided\<close>), and the cutting of a unit into fragments (the length of the unit
  is enough, since every round takes at least one octet).

  The reader of the multiplexer goes round until its counter of octets or its ring is used up, which is its measure.

  \<^bold>\<open>What is a parameter.\<close> The results of \<open>write\<close> on a device (a list in the state), the NAL units of an access unit (\<open>getNextNALUnit\<close>, which a library of the platform
  provides), the results of sockets, the clock, the bit rate adaptation of a binary library (\<open>adaptation\<close>, \<open>rtcp_env\<close>:
  which report blocks and limits it returns; its documented sizes are the hypothesis \<open>envOk\<close>), the
  tables of \<open>WappushPduParser\<close>, and system properties.

  \<^bold>\<open>What is shown.\<close>

  \<^item> Both ends together. A frame that is cut into packets, parsed, ordered and assembled is the
    frame (\<open>RtpCodecs\<close>, from the interface \<open>nal_transport\<close> of \<open>RtpFraming\<close>, which both codecs
    implement); a compound RTCP packet is read back by the peer (\<open>RtcpRoundTrip\<close>, with \<open>RtcpBuild\<close> for what the
    writers produce and \<open>RtcpRead\<close> for reading part by part); a CDMA message survives printing and parsing
    (\<open>CdmaRoundTrip\<close>), and so do addresses, uintvars and response lines. What an application writes to a channel of the
    multiplexer arrives at the other end, whatever the order of threads (\<open>MuxStream\<close>, where the reader of the ring refines a
    parser of the octet stream, \<open>MuxRoundTrip\<close>, \<open>MuxTransport\<close>; \<open>MuxAdvanced\<close> for the mode with escapes), and reaches the application there in order and completely
    however slow it is (\<open>MuxFlow\<close>, over the step relation \<open>flow_step\<close> and the interface \<open>frame_queue\<close>, which a circular linked
    list in a store implements). The segments of a SUPL push give one frame in any
    order of arrival (\<open>SuplDispatcher\<close>, from the interface \<open>segment_store\<close> of \<open>Reassembly\<close>).
  \<^item> Memory safety and totality on any input: the tokenizer (\<open>AtLine\<close>), the UTF-8 decoder (\<open>SmsUtils\<close>), a source of
    video packets (\<open>RtpSafety\<close>, from the interface \<open>nal_reassembly\<close>), the reader of RTCP packets within 24 octets behind a packet
    (\<open>RtcpRead\<close>), and the writer of RTCP packets in every reachable state (\<open>RtcpSafety\<close>, an invariant over the
    step relation \<open>ctl_step\<close>).
  \<^item> Invariants, order and equivalence: queues sorted by sequence number (unless a stream is resumed over waiting packets), the extension of sequence numbers as a nearest
    value (\<open>RtpOrder\<close>), the two tokenizers agree (interface \<open>token_reader\<close>), bits written are
    the bits read (interface \<open>bit_channel\<close>), the table of the checksum is a division of polynomials (\<open>MuxCrc\<close>), the ring is
    a queue (interface \<open>octet_ring\<close> of \<open>MuxBuffer\<close>).
  \<^item> What goes wrong, as theorems with a concrete run: scans that never end (\<open>CdmaScan\<close>), a write past an array
    (\<open>CdmaTlv\<close>), a sender and a receiver that stop for good and units that are mixed from the octets of two (\<open>RtpEvents\<close>), units reassembled with the
    wrong header (\<open>RtpCodecs\<close>), two chains of RTCP packets, a timer that runs twice as fast and a downlink that is never
    started again (\<open>RtcpLifecycle\<close>), an address of a frame behind the table of channels, a frame lost with its
    flag and a reader that sleeps with a frame in its ring (\<open>MuxFaults\<close>), a freed list that is read, a closed channel that stops the reader, commands
    of the flow control in the wrong order (\<open>MuxFlowFaults\<close>), a lock that ends the supervision (\<open>MuxWatchdog\<close>).

  Each theory opens with what it holds; a theorem that states a property of the program follows a text that says so in
  words, with its number, and has a witness that applies it where it has hypotheses.

  \<^bold>\<open>Not modelled.\<close> The request handlers and controllers of the radio layer are mostly glue between the framework's
  messages, the store of its status and AT commands; \<open>libril\<close> and \<open>librilutils\<close> are bindings to Android. Of the RTP stack: the
  statistics and the mapping of RTP time to NTP time (\<open>double\<close> arithmetic and calls of the binary
  library), the configuration of sender and controller beyond what RTCP needs, sockets and dumps. Of the multiplexer: its
  start with AT commands, the commands of the control channel, the pseudo terminals and signals. The remaining
  directories are drivers of devices, daemons around kernel interfaces, tables, third-party code and prebuilt
  libraries.
\<close>

end
